(* ===== verification/Uplink_Prelude.thy ===== *)
theory Uplink_Prelude
  imports Main "HOL-Library.Word"
begin

unbundle bit_operations_syntax

text \<open>
  Shared vocabulary of the development: the names of the machine types, the Rust
  \<open>Result\<close> as a sum type with its \<open>?\<close> operator, slices of a byte buffer, the fold over an
  index range that models a \<open>for\<close> loop, and the generic facts about them.  Two collections carry
  the automation of the component theories: \<open>result_simps\<close> (evaluation of \<open>?\<close>) and
  \<open>slice_simps\<close> (length and indexing of slices).
\<close>

named_theorems result_simps \<open>evaluation of the question-mark operator\<close>
named_theorems slice_simps \<open>lengths and elements of slices and in-place slice updates\<close>

text \<open>The \<open>let\<close> bindings of the source are unfolded by the simplifier throughout.\<close>

declare Let_def [simp]

section \<open>Machine types\<close>

type_synonym u8 = "8 word"
type_synonym u16 = "16 word"
type_synonym u32 = "32 word"
type_synonym u64 = "64 word"
type_synonym bytes = "u8 list"

abbreviation byte_of_char :: "char \<Rightarrow> u8" where
  "byte_of_char c \<equiv> of_nat (of_char c :: nat)"

text \<open>A Rust byte-string literal, e.g. \<open>b"path:"\<close>.\<close>

definition bstr :: "string \<Rightarrow> bytes" where
  "bstr s = map byte_of_char s"

text \<open>The largest value of a 64-bit \<open>usize\<close>, \<open>i64\<close> and \<open>u32\<close>.\<close>

abbreviation (input) i64_max :: int where "i64_max \<equiv> 2 ^ 63 - 1"
abbreviation (input) i64_min :: int where "i64_min \<equiv> - (2 ^ 63)"

section \<open>Results\<close>

text \<open>\<open>Result<T, E>\<close> is \<open>'e + 't\<close>: \<open>Inl\<close> is \<open>Err\<close>, \<open>Inr\<close> is \<open>Ok\<close>.\<close>

type_synonym ('e, 'a) result = "'e + 'a"

definition try_bind :: "('e, 'a) result \<Rightarrow> ('a \<Rightarrow> ('e, 'b) result) \<Rightarrow> ('e, 'b) result" where
  "try_bind r f = (case r of Inl e \<Rightarrow> Inl e | Inr x \<Rightarrow> f x)"

definition map_err :: "('e \<Rightarrow> 'f) \<Rightarrow> ('e, 'a) result \<Rightarrow> ('f, 'a) result" where
  "map_err g r = (case r of Inl e \<Rightarrow> Inl (g e) | Inr x \<Rightarrow> Inr x)"

definition ok_or :: "'e \<Rightarrow> 'a option \<Rightarrow> ('e, 'a) result" where
  "ok_or e x = (case x of None \<Rightarrow> Inl e | Some v \<Rightarrow> Inr v)"

lemma try_bind_simps [simp, result_simps]:
  "try_bind (Inl e) f = Inl e"
  "try_bind (Inr x) f = f x"
  by (simp_all add: try_bind_def)

lemma map_err_simps [simp, result_simps]:
  "map_err g (Inl e) = Inl (g e)"
  "map_err g (Inr x) = Inr x"
  by (simp_all add: map_err_def)

lemma ok_or_simps [simp, result_simps]:
  "ok_or e None = Inl e"
  "ok_or e (Some v) = Inr v"
  by (simp_all add: ok_or_def)

lemma try_bind_eq_Inr [result_simps]:
  "try_bind r f = Inr y \<longleftrightarrow> (\<exists>x. r = Inr x \<and> f x = Inr y)"
  by (cases r) auto

lemma try_bind_eq_Inl [result_simps]:
  "try_bind r f = Inl e \<longleftrightarrow> r = Inl e \<or> (\<exists>x. r = Inr x \<and> f x = Inl e)"
  by (cases r) auto

lemma map_err_eq_Inr [simp, result_simps]: "map_err g r = Inr y \<longleftrightarrow> r = Inr y"
  by (cases r) auto

text \<open>A loop whose body may leave with \<open>?\<close>: the first error stops it.\<close>

fun fold_result :: "('x \<Rightarrow> 's \<Rightarrow> ('e, 's) result) \<Rightarrow> 'x list \<Rightarrow> 's \<Rightarrow> ('e, 's) result" where
  "fold_result f [] s = Inr s"
| "fold_result f (x # xs) s = try_bind (f x s) (fold_result f xs)"

lemma fold_result_append:
  "fold_result f (xs @ ys) s = try_bind (fold_result f xs s) (fold_result f ys)"
proof (induction xs arbitrary: s)
  case Nil
  show ?case by simp
next
  case (Cons x xs)
  then show ?case by (cases "f x s") simp_all
qed

text \<open>A loop invariant of a \<open>for\<close> loop over \<open>m..n\<close>: one step keeps it.\<close>

lemma fold_upt_invariant:
  assumes "P m s" and "m \<le> n"
    and "\<And>i s. m \<le> i \<Longrightarrow> i < n \<Longrightarrow> P i s \<Longrightarrow> P (Suc i) (f i s)"
  shows "P n (fold f [m..<n] s)"
proof -
  have "m \<le> j \<Longrightarrow> j \<le> n \<Longrightarrow> P j (fold f [m..<j] s)" for j
  proof (induction j)
    case 0
    then show ?case using assms(1) by simp
  next
    case (Suc j)
    then show ?case using assms by (cases "m \<le> j") (simp_all add: le_Suc_eq)
  qed
  then show ?thesis using assms(2) by simp
qed

text \<open>The same for a loop over \<open>(0..n).rev()\<close>.\<close>

lemma fold_rev_upt_invariant:
  assumes "P n s" and "\<And>i s. i < n \<Longrightarrow> P (Suc i) s \<Longrightarrow> P i (f i s)"
  shows "P 0 (fold f (rev [0..<n]) s)"
  using assms
proof (induction n arbitrary: s)
  case (Suc n)
  have "P n (f n s)" using Suc.prems by simp
  then have "P 0 (fold f (rev [0..<n]) (f n s))" using Suc.prems(2) by (intro Suc.IH) simp_all
  then show ?case by simp
qed simp

lemma fold_result_upt_invariant:
  assumes "P 0 s"
    and "\<And>i s. i < n \<Longrightarrow> P i s \<Longrightarrow> \<exists>s'. f i s = Inr s' \<and> P (Suc i) s'"
  shows "\<exists>s'. fold_result f [0..<n] s = Inr s' \<and> P n s'"
proof -
  have "j \<le> n \<Longrightarrow> \<exists>s'. fold_result f [0..<j] s = Inr s' \<and> P j s'" for j
  proof (induction j)
    case 0
    then show ?case using assms(1) by simp
  next
    case (Suc j)
    then obtain s' where "fold_result f [0..<j] s = Inr s'" "P j s'"
      by auto
    with Suc.prems assms(2)[of j s'] show ?case by (auto simp: fold_result_append)
  qed
  then show ?thesis by simp
qed

section \<open>Slices\<close>

text \<open>\<open>&buf[a..b]\<close> and the assignment of a slice, \<open>buf[a..a+n].copy_from_slice(ys)\<close>.\<close>

definition sub_slice :: "'a list \<Rightarrow> nat \<Rightarrow> nat \<Rightarrow> 'a list" where
  "sub_slice xs a b = take (b - a) (drop a xs)"

definition put_slice :: "'a list \<Rightarrow> nat \<Rightarrow> 'a list \<Rightarrow> 'a list" where
  "put_slice xs a ys = take a xs @ ys @ drop (a + length ys) xs"

lemma length_sub_slice [slice_simps]: "b \<le> length xs \<Longrightarrow> length (sub_slice xs a b) = b - a"
  by (simp add: sub_slice_def)

lemma nth_sub_slice [slice_simps]: "a + i < b \<Longrightarrow> b \<le> length xs \<Longrightarrow> sub_slice xs a b ! i = xs ! (a + i)"
  by (simp add: sub_slice_def)

lemma length_put_slice [slice_simps]:
  "a + length ys \<le> length xs \<Longrightarrow> length (put_slice xs a ys) = length xs"
  by (simp add: put_slice_def)

lemma nth_put_slice [slice_simps]:
  "a + length ys \<le> length xs \<Longrightarrow> i < length xs \<Longrightarrow>
   put_slice xs a ys ! i = (if a \<le> i \<and> i < a + length ys then ys ! (i - a) else xs ! i)"
  by (auto simp: put_slice_def nth_append min_def)

lemma concat_range:
  assumes "\<forall>c \<in> set zs. length c = n"
  shows "sub_slice (concat zs) (i * n) ((i + m) * n) = concat (take m (drop i zs))"
proof -
  have d: "drop (j * n) (concat zs) = concat (drop j zs) \<and> take (j * n) (concat zs) = concat (take j zs)"
    if "\<forall>c \<in> set zs. length c = n" for j and zs :: "'a list list"
    using that
  proof (induction zs arbitrary: j)
    case (Cons z zs)
    then show ?case by (cases j) simp_all
  qed simp
  have "(i + m) * n - i * n = m * n" by (simp add: algebra_simps)
  moreover have "\<forall>c \<in> set (drop i zs). length c = n" using assms by (auto dest: in_set_dropD)
  ultimately show ?thesis using d[OF assms, of i] d[of "drop i zs" m] by (simp add: sub_slice_def)
qed

lemma concat_slot:
  assumes "\<forall>c \<in> set zs. length c = n" "i < length zs"
  shows "sub_slice (concat zs) (i * n) (i * n + n) = zs ! i"
  using concat_range[OF assms(1), of i 1] assms(2) by (simp add: take_Suc_conv_app_nth algebra_simps hd_drop_conv_nth take_Suc)

lemma length_concat_const: "\<forall>c \<in> set zs. length c = n \<Longrightarrow> length (concat zs) = length zs * n"
  by (induction zs) auto

lemma sub_slice_sub_slice: "a + c \<le> b \<Longrightarrow> b' + a \<le> b \<Longrightarrow> sub_slice (sub_slice xs a b) c b' = sub_slice xs (a + c) (a + b')"
  by (simp add: sub_slice_def take_drop min_def algebra_simps)

lemma sub_slice_append: "b \<le> length xs \<Longrightarrow> sub_slice (xs @ ys) a b = sub_slice xs a b"
  by (cases "a \<le> b") (simp_all add: sub_slice_def)

text \<open>\<open>xs.swap(i, j)\<close>.\<close>

definition swap :: "'a list \<Rightarrow> nat \<Rightarrow> nat \<Rightarrow> 'a list" where
  "swap xs i j = xs[i := xs ! j, j := xs ! i]"

lemma length_swap [simp, slice_simps]: "length (swap xs i j) = length xs"
  by (simp add: swap_def)

text \<open>Row-major positions of a matrix with \<open>k\<close> columns do not collide.\<close>

lemma flat_index_eq:
  fixes i j i' j' k :: nat
  assumes "j < k" and "j' < k"
  shows "i * k + j = i' * k + j' \<longleftrightarrow> i = i' \<and> j = j'"
proof
  assume eq: "i * k + j = i' * k + j'"
  have "i = (i * k + j) div k" "i' = (i' * k + j') div k"
    using assms by simp_all
  with eq have "i = i'" by simp
  with eq show "i = i' \<and> j = j'" by simp
qed simp

lemma flat_index_less:
  fixes i j k m :: nat
  assumes "i < m" and "j < k"
  shows "i * k + j < m * k"
proof -
  have "i * k + j < Suc i * k"
    using assms(2) by simp
  also have "\<dots> \<le> m * k"
    using assms(1) by (intro mult_le_mono1) simp
  finally show ?thesis .
qed

lemma row_end_le:
  fixes i m k :: nat
  assumes "i < m"
  shows "i * k + k \<le> m * k"
proof -
  have "Suc i * k \<le> m * k"
    using assms by (intro mult_le_mono1) simp
  then show ?thesis by simp
qed

lemma in_row_iff:
  fixes a i j k :: nat
  assumes "j < k"
  shows "a * k \<le> i * k + j \<and> i * k + j < a * k + k \<longleftrightarrow> i = a"
proof
  assume "a * k \<le> i * k + j \<and> i * k + j < a * k + k"
  then have "(i * k + j) div k = a"
    using assms by (metis add.commute div_nat_eqI mult.commute mult_Suc_right)
  with assms show "i = a" by simp
qed (use assms in simp)

section \<open>Saturating arithmetic\<close>

text \<open>The result of a \<open>saturating_\<close> operation on \<open>i64\<close> values.\<close>

definition sat_i64 :: "int \<Rightarrow> int" where
  "sat_i64 x = max i64_min (min i64_max x)"

lemma sat_i64_id: "i64_min \<le> x \<Longrightarrow> x \<le> i64_max \<Longrightarrow> sat_i64 x = x"
  by (simp add: sat_i64_def)

lemma sat_i64_nat: "int x \<le> i64_max \<Longrightarrow> sat_i64 (int x) = int x"
  by (simp add: sat_i64_def)

section \<open>Timestamps\<close>

text \<open>The protobuf message \<open>Timestamp\<close>, shared by grants and orders.\<close>

record PbTimestamp =
  ts_seconds :: int
  ts_nanos :: int

end
