(* ===== verification/Codecs.thy ===== *)
theory Codecs
  imports Uplink_Prelude
begin

text \<open>
  The two interfaces that the encodings of the program share, as locales.  A \<open>codec\<close> is an encoder
  with a decoder that inverts it on the valid inputs (path segments, padding, base58, base64).  A
  \<open>stream_codec\<close> is a writer with an incremental reader, which says how many bytes it took, or that
  the bytes so far are not a whole item (varints, DRPC frames).  What a user of such a pair needs is
  proved once here: unique decoding, and that a buffer holding several items and the start of
  another one yields exactly those items.
\<close>

section \<open>Encoders with a decoder\<close>

locale codec =
  fixes enc :: "'a \<Rightarrow> 'b"
    and dec :: "'b \<Rightarrow> 'e + 'a"
    and ok :: "'a \<Rightarrow> bool"
  assumes dec_enc: "ok x \<Longrightarrow> dec (enc x) = Inr x"
begin

lemma enc_inj: "ok x \<Longrightarrow> ok y \<Longrightarrow> enc x = enc y \<longleftrightarrow> x = y"
  using dec_enc by (metis sum.inject(2))

lemma inj_on_enc: "inj_on enc (Collect ok)"
  using enc_inj by (auto simp: inj_on_def)

lemma map_enc_inj: "list_all ok xs \<Longrightarrow> list_all ok ys \<Longrightarrow> map enc xs = map enc ys \<longleftrightarrow> xs = ys"
  by (induction xs ys rule: list_induct2') (auto simp: enc_inj)

lemma dec_all: "list_all ok xs \<Longrightarrow> map dec (map enc xs) = map Inr xs"
  by (induction xs) (auto simp: dec_enc)

end

section \<open>Incremental readers\<close>

text \<open>
  Reads items off the front of a buffer until the reader wants more bytes, and returns them with the
  bytes that are left.  A reader that takes no byte would not end; it stops the loop.
\<close>

function read_all :: "('b list \<Rightarrow> 'e + ('a \<times> nat) option) \<Rightarrow> 'b list \<Rightarrow> 'e + ('a list \<times> 'b list)" where
  "read_all get buf =
    (case get buf of
       Inl e \<Rightarrow> Inl e
     | Inr None \<Rightarrow> Inr ([], buf)
     | Inr (Some (x, n)) \<Rightarrow>
       (if n = 0 \<or> length buf < n then Inr ([], buf)
        else try_bind (read_all get (drop n buf)) (\<lambda>(xs, rest). Inr (x # xs, rest))))"
  by pat_completeness auto
termination
  by (relation "measure (\<lambda>(_, buf). length buf)") auto

declare read_all.simps [simp del]

locale stream_codec =
  fixes put :: "'a \<Rightarrow> 'b list"
    and get :: "'b list \<Rightarrow> 'e + ('a \<times> nat) option"
    and ok :: "'a \<Rightarrow> bool"
  assumes get_put: "ok x \<Longrightarrow> get (put x @ rest) = Inr (Some (x, length (put x)))"
    and get_part: "ok x \<Longrightarrow> put x = p @ q \<Longrightarrow> q \<noteq> [] \<Longrightarrow> get p = Inr None"
    and get_nil: "get [] = Inr None"
begin

lemma put_nonempty: "ok x \<Longrightarrow> put x \<noteq> []"
  using get_put[of x "[]"] get_nil by auto

text \<open>No encoding is a prefix of another one, so a byte stream has one reading only.\<close>

lemma put_prefix_free: "ok x \<Longrightarrow> ok y \<Longrightarrow> put x @ r = put y @ s \<Longrightarrow> x = y \<and> r = s"
  using get_put[of x r] get_put[of y s] by auto

lemma concat_put_inj:
  "list_all ok xs \<Longrightarrow> list_all ok ys \<Longrightarrow> concat (map put xs) = concat (map put ys) \<Longrightarrow> xs = ys"
proof (induction xs arbitrary: ys)
  case Nil
  then show ?case using put_nonempty by (cases ys) auto
next
  case step: (Cons x xs)
  show ?case
  proof (cases ys)
    case Nil
    then show ?thesis using step.prems put_nonempty[of x] by simp
  next
    case (Cons y ys')
    then have "x = y \<and> concat (map put xs) = concat (map put ys')"
      using step.prems Cons by (intro put_prefix_free) auto
    then show ?thesis using Cons step.IH[of ys'] step.prems by simp
  qed
qed

lemma read_all_put:
  assumes "list_all ok xs" and "get rest = Inr None"
  shows "read_all get (concat (map put xs) @ rest) = Inr (xs, rest)"
  using assms
proof (induction xs)
  case Nil
  then show ?case by (simp add: read_all.simps)
next
  case (Cons x xs)
  then show ?case
    using put_nonempty[of x] get_put[of x "concat (map put xs) @ rest"]
    by (subst read_all.simps) simp
qed

lemma read_all_stream:
  assumes "list_all ok xs" and "ok y" and "put y = p @ q" and "q \<noteq> []"
  shows "read_all get (concat (map put xs) @ p) = Inr (xs, p)"
  using assms get_part by (intro read_all_put) auto

end

end
