(* ===== verification/Utf8.thy ===== *)
theory Utf8
  imports Uplink_Prelude
begin

text \<open>
  A Rust \<open>String\<close> is its UTF-8 bytes.  This theory models the two library functions by which the
  program turns received bytes into a string: \<open>String::from_utf8\<close>, which refuses invalid input, and
  \<open>String::from_utf8_lossy\<close>, which replaces every maximal invalid part by U+FFFD.
\<close>

section \<open>Scanning one character\<close>

definition is_cont :: "u8 \<Rightarrow> bool" where
  "is_cont b \<longleftrightarrow> 0x80 \<le> b \<and> b \<le> 0xBF"

text \<open>The admissible second bytes after a leading byte of three or four bytes.\<close>

definition second_ok :: "u8 \<Rightarrow> u8 \<Rightarrow> bool" where
  "second_ok b c \<longleftrightarrow>
    (if b = 0xE0 then 0xA0 \<le> c \<and> c \<le> 0xBF
     else if b = 0xED then 0x80 \<le> c \<and> c \<le> 0x9F
     else if b = 0xF0 then 0x90 \<le> c \<and> c \<le> 0xBF
     else if b = 0xF4 then 0x80 \<le> c \<and> c \<le> 0x8F
     else is_cont c)"

fun scan_conts :: "nat \<Rightarrow> bytes \<Rightarrow> nat \<times> bool" where
  "scan_conts 0 bs = (0, True)"
| "scan_conts (Suc n) [] = (0, False)"
| "scan_conts (Suc n) (c # bs) =
    (if is_cont c then let (k, ok) = scan_conts n bs in (Suc k, ok) else (0, False))"

text \<open>
  \<open>scan_char (b # bs)\<close> gives the number of bytes of \<open>bs\<close> that belong to the character or to the
  invalid part starting at \<open>b\<close>, and which of the two it is.
\<close>

definition scan_char :: "u8 \<Rightarrow> bytes \<Rightarrow> nat \<times> bool" where
  "scan_char b bs =
    (if b < 0x80 then (0, True)
     else if 0xC2 \<le> b \<and> b \<le> 0xDF then scan_conts 1 bs
     else if 0xE0 \<le> b \<and> b \<le> 0xF4 then
       (case bs of
          [] \<Rightarrow> (0, False)
        | c # cs \<Rightarrow> if second_ok b c
                    then let (k, ok) = scan_conts (if b \<le> 0xEF then 1 else 2) cs in (Suc k, ok)
                    else (0, False))
     else (0, False))"

lemma scan_conts_le: "fst (scan_conts n bs) \<le> length bs"
  by (induction n bs rule: scan_conts.induct) (auto split: prod.splits)

lemma scan_char_le: "fst (scan_char b bs) \<le> length bs"
proof (cases bs)
  case (Cons c cs)
  show ?thesis
    using scan_conts_le[of 1 bs] scan_conts_le[of 1 cs] scan_conts_le[of 2 cs] Cons
    by (auto simp: scan_char_def split: prod.splits)
qed (simp add: scan_char_def)

section \<open>Validation and lossy conversion\<close>

function utf8_valid :: "bytes \<Rightarrow> bool" where
  "utf8_valid [] = True"
| "utf8_valid (b # bs) = (let (k, ok) = scan_char b bs in ok \<and> utf8_valid (drop k bs))"
  by pat_completeness auto
termination by (relation "measure length") auto

definition from_utf8 :: "bytes \<Rightarrow> bytes option" where
  "from_utf8 bs = (if utf8_valid bs then Some bs else None)"

definition replacement_character :: bytes where
  "replacement_character = [0xEF, 0xBF, 0xBD]"

function from_utf8_lossy :: "bytes \<Rightarrow> bytes" where
  "from_utf8_lossy [] = []"
| "from_utf8_lossy (b # bs) =
    (let (k, ok) = scan_char b bs
     in (if ok then b # take k bs else replacement_character) @ from_utf8_lossy (drop k bs))"
  by pat_completeness auto
termination by (relation "measure length") auto

lemma from_utf8_lossy_valid: "utf8_valid bs \<Longrightarrow> from_utf8_lossy bs = bs"
  by (induction bs rule: utf8_valid.induct) (auto split: prod.splits)

lemma scan_conts_append: "scan_conts n bs = (k, True) \<Longrightarrow> scan_conts n (take k bs @ r) = (k, True) \<and> k = n"
proof (induction n bs arbitrary: k rule: scan_conts.induct)
  case (3 n c bs)
  then show ?case by (auto split: prod.splits if_splits)
qed auto

lemma scan_char_append: "scan_char b bs = (k, True) \<Longrightarrow> scan_char b (take k bs @ r) = (k, True)"
  by (cases bs)
     (auto simp: scan_char_def scan_conts_append split: prod.splits if_splits dest: scan_conts_append)

lemma scan_char_le': "scan_char b bs = (k, ok) \<Longrightarrow> k \<le> length bs"
  using scan_char_le[of b bs] by simp

lemma from_utf8_lossy_is_valid: "utf8_valid (from_utf8_lossy bs)"
proof (induction bs rule: from_utf8_lossy.induct)
  case (2 b bs)
  obtain k ok where s: "scan_char b bs = (k, ok)" by (cases "scan_char b bs")
  have IH: "utf8_valid (from_utf8_lossy (drop k bs))" using 2 s by simp
  show ?case
  proof (cases ok)
    case True
    then have "scan_char b (take k bs @ r) = (k, True)" for r
      using s scan_char_append by simp
    then show ?thesis using s IH True scan_char_le'[OF s] by simp
  next
    case False
    have "scan_char 0xEF (0xBF # 0xBD # r) = (2, True)" for r
      by (simp add: scan_char_def second_ok_def is_cont_def)
    then show ?thesis using s IH False by (simp add: replacement_character_def)
  qed
qed simp

text \<open>Plain ASCII text is valid.\<close>

lemma utf8_valid_ascii: "list_all (\<lambda>b. b < 0x80) bs \<Longrightarrow> utf8_valid bs"
  by (induction bs) (auto simp: scan_char_def)

end
