(* ===== verification/Varint_Bits.thy ===== *)
theory Varint_Bits
  imports Uplink_Prelude
begin

text \<open>
  The bit arithmetic behind base-128 varints on 64-bit words, shared by the two codecs of the program
  that use them: the DRPC frame header (\<open>frame.rs\<close>) and the macaroon packets (\<open>macaroon.rs\<close>).  A byte
  carries the low seven bits and a continuation flag; the rest is the word shifted right by seven.
\<close>

lemma varint_induct [case_names small large]:
  assumes "\<And>x. x < 128 \<Longrightarrow> P x" and "\<And>x. x \<ge> 128 \<Longrightarrow> P (drop_bit 7 x) \<Longrightarrow> P x"
  shows "P (x :: u64)"
proof (induction x rule: measure_induct_rule[of unat])
  case (less x)
  have "unat (drop_bit 7 x) < unat x" if "x \<ge> 128"
    using that by (simp add: drop_bit_eq_div unat_div word_le_nat_alt)
  then show ?case using assms less by (cases "x \<ge> 128") auto
qed

text \<open>The bit facts behind one round of the two loops.\<close>

lemma mask7: "(127 :: 'a::len word) = mask 7"
  by (simp add: mask_eq_exp_minus_1)

lemma bit_128: "bit (128 :: 'a::len word) n \<longleftrightarrow> n = 7 \<and> 7 < LENGTH('a)"
  using bit_exp_iff[where 'a = "'a word", of 7 n] by auto

lemma low7: "((x :: u64) AND 127) OR push_bit 7 (drop_bit 7 x) = x"
  unfolding mask7
proof (rule bit_word_eqI)
  fix n assume "n < LENGTH(64)"
  then show "bit (x AND mask 7 OR push_bit 7 (drop_bit 7 x)) n = bit x n"
    by (cases "n < 7") (auto simp: bit_simps)
qed

lemma varint_shift:
  "push_bit shift ((x :: u64) AND 127) OR push_bit (shift + 7) (drop_bit 7 x) = push_bit shift x"
  using low7[of x] by (metis push_bit_or push_bit_push_bit)

lemma varint_byte_low: "(ucast ((ucast (x :: u64) AND 127) OR 128 :: u8) :: u64) AND 127 = x AND 127"
  unfolding mask7
proof (rule bit_word_eqI)
  fix n
  have "n < 7 \<Longrightarrow> \<not> bit (128 :: u8) n" by (metis bit_128 nat_neq_iff)
  then show "bit ((ucast ((ucast x AND mask 7) OR 128 :: u8) :: u64) AND mask 7) n = bit (x AND mask 7) n"
    by (cases "n < 7") (simp_all only: bit_and_iff bit_unsigned_iff bit_or_iff bit_mask_iff, auto simp: possible_bit_def)
qed

lemma unat_ucast_u64 [simp]: "unat (ucast (b :: u8) :: u64) = unat b"
proof -
  have "unat b < 2 ^ 64" using unsigned_less[of b, where 'a = nat] by simp
  then show ?thesis by (simp add: unsigned_ucast_eq take_bit_nat_eq_self)
qed

lemma ucast_less_128: "(ucast (b :: u8) :: u64) < 128 \<longleftrightarrow> b < 128"
  by (simp add: word_less_nat_alt)

lemma varint_byte_high: "\<not> (ucast ((ucast (x :: u64) AND 127) OR 128 :: u8) :: u64) < 128"
proof -
  have "128 \<le> (ucast x AND 127) OR (128 :: u8)" by (metis le_word_or2 word_bw_comms(2))
  then show ?thesis by (simp only: ucast_less_128 not_less)
qed

lemma varint_byte_last:
  assumes "(x :: u64) < 128"
  shows "ucast (ucast x :: u8) = x" and "x AND 127 = x"
proof -
  have "x < 2 ^ 8" using assms by (rule order_less_trans) simp
  then have "x AND mask 8 = x" by (rule less_mask_eq)
  moreover have "ucast (ucast x :: u8) = take_bit 8 x"
    by (rule bit_word_eqI) (auto simp: bit_simps)
  ultimately show "ucast (ucast x :: u8) = x" by (simp add: take_bit_eq_mask)
  show "x AND 127 = x" using less_mask_eq[of x 7] assms unfolding mask7 by simp
qed

lemma drop7_bound:
  assumes "x \<ge> 128" and "unat (x :: u64) < 2 ^ (64 - shift)"
  shows "shift + 7 < 64" and "unat (drop_bit 7 x) < 2 ^ (64 - (shift + 7))"
proof -
  have 1: "128 \<le> unat x" using assms(1) by (simp add: word_le_nat_alt)
  show *: "shift + 7 < 64"
  proof (rule ccontr)
    assume "\<not> shift + 7 < 64"
    then have "(2 :: nat) ^ (64 - shift) \<le> 2 ^ 7" by (intro power_increasing) auto
    then show False using assms(2) 1 by simp
  qed
  then have "(2 :: nat) ^ (64 - shift) = 2 ^ (64 - (shift + 7)) * 128"
    by (simp flip: power_add[of "2 :: nat" _ 7, simplified])
  then show "unat (drop_bit 7 x) < 2 ^ (64 - (shift + 7))"
    using assms(2) by (simp add: drop_bit_eq_div unat_div less_mult_imp_div_less)
qed

lemma ucast_or_128: "(ucast (x :: u64) :: u8) OR 128 = (ucast x AND 127) OR 128"
proof (rule bit_word_eqI)
  fix n assume n: "n < LENGTH(8)"
  show "bit ((ucast x :: u8) OR 128) n = bit ((ucast x AND 127) OR (128 :: u8)) n"
    using n unfolding mask7 by (cases "n = 7") (auto simp: bit_simps bit_128)
qed

end
