(* ===== verification/GF256.thy ===== *)
theory GF256
  imports Uplink_Prelude
begin

text \<open>
  The field GF(2^8) of \<open>crates/storj-ec/src/gf.rs\<close>: the tables that \<open>build_tables\<close> fills, and the
  proof that the table product and table inverse make the 256 bytes a field whose addition is XOR.
  The type \<open>gf\<close> wraps a byte and instantiates the library's \<open>field\<close> class, so sums, powers and
  ring normalisation apply to it.  The second half models the vectorised \<open>addmul\<close> of
  \<open>gf_simd.rs\<close> with its three back ends and shows that they agree.
\<close>

section \<open>The tables\<close>

text \<open>\<open>const POLY\<close>, the primitive polynomial x^8 + x^4 + x^3 + x^2 + 1.\<close>

definition POLY :: u16 where
  "POLY = 0x11d"

record Tables =
  exp_table :: "u8 list"
  log_table :: "u8 list"
  inverse_table :: "u8 list"
  mul_table :: "u8 list list"

text \<open>The doubling step of the first loop of \<open>build_tables\<close>, on the 16-bit accumulator.\<close>

definition next_power :: "u16 \<Rightarrow> u16" where
  "next_power x = (let x = push_bit 1 x in if x AND 0x100 \<noteq> 0 then x XOR POLY else x)"

definition exp_log_step :: "nat \<Rightarrow> u8 list \<times> u8 list \<times> u16 \<Rightarrow> u8 list \<times> u8 list \<times> u16" where
  "exp_log_step i = (\<lambda>(ex, lg, x). (ex[i := ucast x], lg[unat x := of_nat i], next_power x))"

definition build_tables :: Tables where
  "build_tables =
    (let (ex, lg, _) = fold exp_log_step [0..<255] (replicate 510 0, replicate 256 0, 1);
         ex = put_slice ex 255 (take 255 ex);
         lg = lg[0 := 0xff];
         inverse = fold (\<lambda>i inv. inv[i := ex ! (255 - unat (lg ! i))]) [1..<256]
                     ((replicate 256 0)[0 := 0]);
         mul = map (\<lambda>i. map (\<lambda>j. ex ! ((unat (lg ! i) + unat (lg ! j)) mod 255)) [0..<256]) [0..<256];
         mul = map (\<lambda>row. row[0 := 0]) mul;
         mul = mul[0 := replicate 256 0]
     in \<lparr>exp_table = ex, log_table = lg, inverse_table = inverse, mul_table = mul\<rparr>)"

text \<open>The accessors of the static tables: \<open>gf().exp[i]\<close>, \<open>gf().mul[a][b]\<close>, \<open>gf().inverse[a]\<close>.\<close>

definition gf_exp :: "nat \<Rightarrow> u8" where
  "gf_exp i = exp_table build_tables ! i"

definition gf_log :: "u8 \<Rightarrow> u8" where
  "gf_log a = log_table build_tables ! unat a"

definition gf_inverse :: "u8 \<Rightarrow> u8" where
  "gf_inverse a = inverse_table build_tables ! unat a"

definition gf_mul :: "u8 \<Rightarrow> u8 \<Rightarrow> u8" where
  "gf_mul a b = mul_table build_tables ! unat a ! unat b"

section \<open>Powers of the generator\<close>

text \<open>Multiplication by the generator on bytes, the reference for the 16-bit step.\<close>

definition xtime :: "u8 \<Rightarrow> u8" where
  "xtime x = push_bit 1 x XOR (if bit x 7 then 0x1d else 0)"

fun powers :: "nat \<Rightarrow> u8 \<Rightarrow> u8 list" where
  "powers 0 x = []"
| "powers (Suc n) x = x # powers n (xtime x)"

abbreviation alpha :: "nat \<Rightarrow> u8" where
  "alpha i \<equiv> (xtime ^^ i) 1"

lemma powers_numeral: "powers (numeral k) x = x # powers (pred_numeral k) (xtime x)"
  by (simp add: numeral_eq_Suc)

lemma length_powers [simp]: "length (powers n x) = n"
  by (induction n arbitrary: x) auto

lemma nth_powers: "i < n \<Longrightarrow> powers n x ! i = (xtime ^^ i) x"
proof (induction n arbitrary: x i)
  case (Suc n)
  then show ?case by (cases i) (simp_all add: funpow_swap1)
qed simp

lemma xtime_xor: "xtime (a XOR b) = xtime a XOR xtime b"
  by (rule bit_word_eqI) (auto simp: xtime_def bit_simps push_bit_xor)

lemma xtime_0 [simp]: "xtime 0 = 0"
  by (simp add: xtime_def)

lemma funpow_xtime_xor: "(xtime ^^ n) (a XOR b) = (xtime ^^ n) a XOR (xtime ^^ n) b"
  by (induction n) (simp_all add: xtime_xor)

lemma funpow_xtime_0 [simp]: "(xtime ^^ n) 0 = 0"
  by (induction n) simp_all

lemma powers_255:
  "powers 255 1 =
    [1, 2, 4, 8, 16, 32, 64, 128, 29, 58, 116, 232, 205, 135, 19, 38, 76,
     152, 45, 90, 180, 117, 234, 201, 143, 3, 6, 12, 24, 48, 96, 192, 157, 39,
     78, 156, 37, 74, 148, 53, 106, 212, 181, 119, 238, 193, 159, 35, 70, 140, 5,
     10, 20, 40, 80, 160, 93, 186, 105, 210, 185, 111, 222, 161, 95, 190, 97, 194,
     153, 47, 94, 188, 101, 202, 137, 15, 30, 60, 120, 240, 253, 231, 211, 187, 107,
     214, 177, 127, 254, 225, 223, 163, 91, 182, 113, 226, 217, 175, 67, 134, 17, 34,
     68, 136, 13, 26, 52, 104, 208, 189, 103, 206, 129, 31, 62, 124, 248, 237, 199,
     147, 59, 118, 236, 197, 151, 51, 102, 204, 133, 23, 46, 92, 184, 109, 218, 169,
     79, 158, 33, 66, 132, 21, 42, 84, 168, 77, 154, 41, 82, 164, 85, 170, 73,
     146, 57, 114, 228, 213, 183, 115, 230, 209, 191, 99, 198, 145, 63, 126, 252, 229,
     215, 179, 123, 246, 241, 255, 227, 219, 171, 75, 150, 49, 98, 196, 149, 55, 110,
     220, 165, 87, 174, 65, 130, 25, 50, 100, 200, 141, 7, 14, 28, 56, 112, 224,
     221, 167, 83, 166, 81, 162, 89, 178, 121, 242, 249, 239, 195, 155, 43, 86, 172,
     69, 138, 9, 18, 36, 72, 144, 61, 122, 244, 245, 247, 243, 251, 235, 203, 139,
     11, 22, 44, 88, 176, 125, 250, 233, 207, 131, 27, 54, 108, 216, 173, 71, 142]"
  by (simp add: xtime_def powers_numeral)

lemma unat_powers_255:
  "map unat (powers 255 1) =
    [1, 2, 4, 8, 16, 32, 64, 128, 29, 58, 116, 232, 205, 135, 19, 38, 76,
     152, 45, 90, 180, 117, 234, 201, 143, 3, 6, 12, 24, 48, 96, 192, 157, 39,
     78, 156, 37, 74, 148, 53, 106, 212, 181, 119, 238, 193, 159, 35, 70, 140, 5,
     10, 20, 40, 80, 160, 93, 186, 105, 210, 185, 111, 222, 161, 95, 190, 97, 194,
     153, 47, 94, 188, 101, 202, 137, 15, 30, 60, 120, 240, 253, 231, 211, 187, 107,
     214, 177, 127, 254, 225, 223, 163, 91, 182, 113, 226, 217, 175, 67, 134, 17, 34,
     68, 136, 13, 26, 52, 104, 208, 189, 103, 206, 129, 31, 62, 124, 248, 237, 199,
     147, 59, 118, 236, 197, 151, 51, 102, 204, 133, 23, 46, 92, 184, 109, 218, 169,
     79, 158, 33, 66, 132, 21, 42, 84, 168, 77, 154, 41, 82, 164, 85, 170, 73,
     146, 57, 114, 228, 213, 183, 115, 230, 209, 191, 99, 198, 145, 63, 126, 252, 229,
     215, 179, 123, 246, 241, 255, 227, 219, 171, 75, 150, 49, 98, 196, 149, 55, 110,
     220, 165, 87, 174, 65, 130, 25, 50, 100, 200, 141, 7, 14, 28, 56, 112, 224,
     221, 167, 83, 166, 81, 162, 89, 178, 121, 242, 249, 239, 195, 155, 43, 86, 172,
     69, 138, 9, 18, 36, 72, 144, 61, 122, 244, 245, 247, 243, 251, 235, 203, 139,
     11, 22, 44, 88, 176, 125, 250, 233, 207, 131, 27, 54, 108, 216, 173, 71, 142]"
  unfolding powers_255 by simp

lemma distinct_powers: "distinct (powers 255 1)"
proof -
  have "distinct (map unat (powers 255 1))"
    unfolding unat_powers_255 by simp
  then show ?thesis by (simp add: distinct_map)
qed

lemma zero_notin_powers: "0 \<notin> set (powers 255 1)"
  unfolding powers_255 by simp

lemma alpha_255: "alpha 255 = 1"
proof -
  have "alpha 254 = 142"
    using nth_powers[of 254 255 1] unfolding powers_255 by simp
  then have "alpha (Suc 254) = xtime 142" by (simp only: funpow.simps comp_apply)
  then show ?thesis by (simp add: xtime_def)
qed

lemma alpha_mod: "alpha (n mod 255) = alpha n"
proof (induction n rule: less_induct)
  case (less n)
  show ?case
  proof (cases "n < 255")
    case False
    then obtain m where m: "n = m + 255" by (metis add.commute le_iff_add not_less)
    then have "alpha n = alpha m" by (simp only: funpow_add comp_apply alpha_255)
    then show ?thesis using less.IH[of m] m by simp
  qed simp
qed

lemma alpha_inject: "i < 255 \<Longrightarrow> j < 255 \<Longrightarrow> alpha i = alpha j \<longleftrightarrow> i = j"
  using distinct_powers nth_eq_iff_index_eq[of "powers 255 1" i j] by (simp add: nth_powers)

lemma alpha_nonzero [simp]: "alpha i \<noteq> 0"
proof -
  have "alpha (i mod 255) \<in> set (powers 255 1)"
    using nth_mem[of "i mod 255" "powers 255 1"] by (simp add: nth_powers)
  then show ?thesis using zero_notin_powers by (metis alpha_mod)
qed

text \<open>The 255 powers are exactly the non-zero bytes.\<close>

lemma set_powers: "set (powers 255 1) = UNIV - {0}"
proof (rule card_subset_eq)
  show "set (powers 255 1) \<subseteq> UNIV - {0}"
    using zero_notin_powers by auto
  show "card (set (powers 255 1)) = card (UNIV - {0 :: u8})"
    using distinct_powers by (simp add: distinct_card card_Diff_singleton card_word)
qed simp

lemma byte_cases_alpha:
  fixes a :: u8
  obtains (zero) "a = 0" | (power) i where "i < 255" "a = alpha i"
proof (cases "a = 0")
  case False
  then have "a \<in> set (powers 255 1)" by (simp add: set_powers)
  then obtain i where "i < 255" "a = alpha i" by (auto simp: in_set_conv_nth nth_powers)
  then show ?thesis by (rule power)
qed (rule zero)

section \<open>The contents of the tables\<close>

lemma next_power_alpha: "next_power (ucast (alpha i)) = ucast (xtime (alpha i))"
proof -
  have "\<forall>b \<in> set (powers 255 1). next_power (ucast b) = ucast (xtime b)"
    unfolding powers_255 by (simp add: next_power_def xtime_def POLY_def)
  then show ?thesis by (simp add: set_powers)
qed

definition exp_log_inv :: "nat \<Rightarrow> u8 list \<times> u8 list \<times> u16 \<Rightarrow> bool" where
  "exp_log_inv i = (\<lambda>(ex, lg, x). x = ucast (alpha i) \<and> length ex = 510 \<and> length lg = 256 \<and>
     (\<forall>j<i. ex ! j = alpha j) \<and> (\<forall>j<i. lg ! unat (alpha j) = of_nat j))"

lemma exp_log_step_inv:
  assumes "exp_log_inv i s" and "i < 255"
  shows "exp_log_inv (Suc i) (exp_log_step i s)"
proof -
  obtain ex lg x where s: "s = (ex, lg, x)" by (cases s)
  have x: "x = ucast (alpha i)" using assms by (simp add: s exp_log_inv_def)
  have unat_x: "unat x = unat (alpha i)"
  proof -
    have "unat (alpha i) < 2 ^ 16"
      using unsigned_less[where 'a = nat, of "alpha i"] by simp
    then show ?thesis by (simp add: x unsigned_ucast_eq take_bit_nat_eq_self)
  qed
  have ucast_x: "ucast x = alpha i"
    by (simp add: x ucast_up_ucast_id is_up)
  have "lg[unat x := of_nat i] ! unat (alpha j) = of_nat j" if "j < Suc i" for j
    using that assms alpha_inject[of j i] unsigned_less[where 'a = nat, of "alpha i"]
    by (cases "j = i") (auto simp: s exp_log_inv_def unat_x nth_list_update word_unat_eq_iff)
  then show ?thesis
    using assms by (auto simp: s exp_log_inv_def exp_log_step_def x next_power_alpha less_Suc_eq
        nth_list_update ucast_up_ucast_id is_up)
qed

lemma exp_log_fold: "exp_log_inv 255 (fold exp_log_step [0..<255] (replicate 510 0, replicate 256 0, 1))"
  by (rule fold_upt_invariant) (simp_all add: exp_log_inv_def [of 0] exp_log_step_inv)

lemma build_tables_inv:
  obtains ex lg x where "fold exp_log_step [0..<255] (replicate 510 0, replicate 256 0, 1) = (ex, lg, x)"
    and "length ex = 510" and "length lg = 256"
    and "\<And>j. j < 255 \<Longrightarrow> ex ! j = alpha j" and "\<And>j. j < 255 \<Longrightarrow> lg ! unat (alpha j) = of_nat j"
  using exp_log_fold
  by (cases "fold exp_log_step [0..<255] (replicate 510 0, replicate 256 0, 1 :: u16)")
     (auto simp: exp_log_inv_def)

lemma unat_less_256 [simp]: "unat (a :: u8) < 256"
  using unsigned_less[where 'a = nat, of a] by simp

lemma gf_exp_alpha: "i < 510 \<Longrightarrow> gf_exp i = alpha i"
proof -
  assume i: "i < 510"
  obtain ex lg x where t: "fold exp_log_step [0..<255] (replicate 510 0, replicate 256 0, 1) = (ex, lg, x)"
    and len: "length ex = 510" and ex: "\<And>j. j < 255 \<Longrightarrow> ex ! j = alpha j"
    using build_tables_inv by metis
  have "gf_exp i = (if i < 255 then alpha i else alpha (i - 255))"
    using i len by (simp add: gf_exp_def build_tables_def t nth_put_slice ex)
  also have "\<dots> = alpha i"
  proof (cases "i < 255")
    case False
    then have "i mod 255 = i - 255" using i by (simp add: mod_if)
    then show ?thesis using alpha_mod[of i] False by simp
  qed simp
  finally show ?thesis .
qed

lemma gf_log_alpha: "i < 255 \<Longrightarrow> gf_log (alpha i) = of_nat i"
proof -
  assume i: "i < 255"
  obtain ex lg x where t: "fold exp_log_step [0..<255] (replicate 510 0, replicate 256 0, 1) = (ex, lg, x)"
    and lg: "\<And>j. j < 255 \<Longrightarrow> lg ! unat (alpha j) = of_nat j"
    using build_tables_inv by metis
  have "unat (alpha i) \<noteq> 0"
    by (metis alpha_nonzero unsigned_0 unsigned_word_eqI)
  then show ?thesis
    using i by (simp add: gf_log_def build_tables_def t lg)
qed

lemma unat_gf_log_alpha: "unat (gf_log (alpha i)) = i mod 255"
proof -
  have "unat (gf_log (alpha (i mod 255))) = i mod 255"
    by (simp add: gf_log_alpha unat_of_nat)
  then show ?thesis by (simp only: alpha_mod)
qed

lemma gf_log_0: "gf_log 0 = 0xff"
proof -
  obtain ex lg x where "fold exp_log_step [0..<255] (replicate 510 0, replicate 256 0, 1) = (ex, lg, x)"
    and "length lg = 256" using build_tables_inv by metis
  then show ?thesis by (simp add: gf_log_def build_tables_def)
qed

lemma fold_upd_nth:
  assumes "i < length xs"
  shows "fold (\<lambda>i xs. xs[i := f i]) [m..<n] xs ! i = (if m \<le> i \<and> i < n then f i else xs ! i)"
proof (induction n)
  case (Suc n)
  have "length (fold (\<lambda>i xs. xs[i := f i]) [m..<n] xs) = length xs"
    by (induction n) auto
  with Suc assms show ?case by (cases "i = n") auto
qed simp

lemma gf_inverse_0: "gf_inverse 0 = 0"
  by (simp add: gf_inverse_def build_tables_def fold_upd_nth case_prod_unfold)

lemma gf_inverse_table:
  "a \<noteq> 0 \<Longrightarrow> gf_inverse a = gf_exp (255 - unat (gf_log a))"
proof -
  assume "a \<noteq> 0"
  then have "1 \<le> unat a" by (simp add: Suc_le_eq unat_gt_0)
  then show ?thesis
    by (simp add: gf_inverse_def gf_exp_def gf_log_def build_tables_def case_prod_unfold fold_upd_nth)
qed

lemma gf_inverse_alpha: "i < 255 \<Longrightarrow> gf_inverse (alpha i) = alpha (255 - i)"
  by (simp add: gf_inverse_table unat_gf_log_alpha gf_exp_alpha)

text \<open>The product table, entry by entry.\<close>

lemma gf_mul_table:
  "gf_mul a b = (if a = 0 \<or> b = 0 then 0 else gf_exp ((unat (gf_log a) + unat (gf_log b)) mod 255))"
proof -
  have "unat a = 0 \<longleftrightarrow> a = 0" "unat b = 0 \<longleftrightarrow> b = 0" by (simp_all add: unat_eq_0)
  then show ?thesis
    by (simp add: gf_mul_def gf_exp_def gf_log_def build_tables_def case_prod_unfold nth_list_update)
qed

lemma gf_mul_alpha: "gf_mul (alpha i) b = (xtime ^^ i) b"
proof (cases b rule: byte_cases_alpha)
  case zero
  then show ?thesis by (simp add: gf_mul_table)
next
  case (power j)
  have "gf_mul (alpha i) b = alpha ((i mod 255 + j) mod 255)"
    using power by (simp add: gf_mul_table unat_gf_log_alpha gf_exp_alpha)
  also have "\<dots> = alpha (i + j)"
    by (metis alpha_mod mod_add_left_eq)
  finally show ?thesis using power by (simp add: funpow_add)
qed

lemma gf_mul_0 [simp]: "gf_mul 0 b = 0"
  by (simp add: gf_mul_table)

lemma gf_mul_commute: "gf_mul a b = gf_mul b a"
  by (simp add: gf_mul_table add.commute)

lemma gf_mul_assoc: "gf_mul (gf_mul a b) c = gf_mul a (gf_mul b c)"
proof (cases a rule: byte_cases_alpha)
  case (power i)
  show ?thesis
  proof (cases b rule: byte_cases_alpha)
    case (power j)
    have "gf_mul a b = alpha (i + j)"
      using \<open>a = alpha i\<close> power by (simp add: gf_mul_alpha funpow_add)
    then have "gf_mul (gf_mul a b) c = (xtime ^^ (i + j)) c"
      by (simp only: gf_mul_alpha)
    then show ?thesis
      using \<open>a = alpha i\<close> power by (simp add: gf_mul_alpha funpow_add)
  qed (simp add: gf_mul_commute[of _ 0])
qed simp

lemma gf_mul_xor_right: "gf_mul a (b XOR c) = gf_mul a b XOR gf_mul a c"
  by (cases a rule: byte_cases_alpha) (simp_all add: gf_mul_alpha funpow_xtime_xor)

lemma gf_mul_1 [simp]: "gf_mul 1 b = b"
  using gf_mul_alpha[of 0 b] by simp

lemma gf_mul_inverse: "a \<noteq> 0 \<Longrightarrow> gf_mul (gf_inverse a) a = 1"
proof (cases a rule: byte_cases_alpha)
  case (power i)
  then have "gf_mul (gf_inverse a) a = alpha (255 - i + i)"
    by (simp only: gf_inverse_alpha gf_mul_alpha funpow_add comp_apply)
  then show ?thesis using power alpha_255 by simp
qed simp

section \<open>The field instance\<close>

datatype gf = GF (byte: u8)

instantiation gf :: field
begin

definition zero_gf :: gf where "zero_gf = GF 0"
definition one_gf :: gf where "one_gf = GF 1"
definition plus_gf :: "gf \<Rightarrow> gf \<Rightarrow> gf" where "plus_gf a b = GF (byte a XOR byte b)"
definition minus_gf :: "gf \<Rightarrow> gf \<Rightarrow> gf" where "minus_gf a b = GF (byte a XOR byte b)"
definition uminus_gf :: "gf \<Rightarrow> gf" where "uminus_gf a = (a :: gf)"
definition times_gf :: "gf \<Rightarrow> gf \<Rightarrow> gf" where "times_gf a b = GF (gf_mul (byte a) (byte b))"
definition inverse_gf :: "gf \<Rightarrow> gf" where "inverse_gf a = GF (gf_inverse (byte a))"
definition divide_gf :: "gf \<Rightarrow> gf \<Rightarrow> gf" where "divide_gf a b = a * GF (gf_inverse (byte b))"

instance
proof
  fix a b c :: gf
  show "a * b * c = a * (b * c)" by (simp add: times_gf_def gf_mul_assoc)
  show "a * b = b * a" by (simp add: times_gf_def gf_mul_commute)
  show "1 * a = a" by (simp add: times_gf_def one_gf_def)
  show "a + b + c = a + (b + c)" by (simp add: plus_gf_def xor.assoc)
  show "a + b = b + a" by (simp add: plus_gf_def xor.commute)
  show "0 + a = a" by (simp add: plus_gf_def zero_gf_def)
  show "- a + a = 0" by (simp add: plus_gf_def uminus_gf_def zero_gf_def)
  show "a - b = a + - b" by (simp add: minus_gf_def plus_gf_def uminus_gf_def)
  show "(a + b) * c = a * c + b * c"
    by (metis gf.sel gf_mul_commute gf_mul_xor_right plus_gf_def times_gf_def)
  show "(0 :: gf) \<noteq> 1" by (simp add: zero_gf_def one_gf_def)
  show "a \<noteq> 0 \<Longrightarrow> inverse a * a = 1"
    by (cases a) (simp add: zero_gf_def one_gf_def inverse_gf_def times_gf_def gf_mul_inverse)
  show "a div b = a * inverse b" by (simp add: divide_gf_def inverse_gf_def)
  show "inverse (0 :: gf) = 0" by (simp add: inverse_gf_def zero_gf_def gf_inverse_0)
qed

end

text \<open>The bridge from byte-level code to field terms, used as a simp set.\<close>

named_theorems gf_transfer \<open>table operations on bytes as field operations\<close>

lemma GF_0 [simp]: "GF 0 = 0" and GF_1 [simp]: "GF 1 = 1"
  by (simp_all add: zero_gf_def one_gf_def)

lemma byte_0 [simp]: "byte 0 = 0" and byte_1 [simp]: "byte 1 = 1"
  by (simp_all only: zero_gf_def one_gf_def gf.sel)

lemma GF_eq_0_iff [simp]: "GF a = 0 \<longleftrightarrow> a = 0"
  by (simp only: zero_gf_def gf.inject)

lemma GF_eq_1_iff [simp]: "GF a = 1 \<longleftrightarrow> a = 1"
  by (simp only: one_gf_def gf.inject)

lemma GF_xor [gf_transfer]: "GF (a XOR b) = GF a + GF b"
  by (simp add: plus_gf_def)

lemma GF_mul [gf_transfer]: "GF (gf_mul a b) = GF a * GF b"
  by (simp add: times_gf_def)

lemma GF_inverse [gf_transfer]: "GF (gf_inverse a) = inverse (GF a)"
  by (simp add: inverse_gf_def)

lemma gf_minus [simp]: "(a :: gf) - b = a + b"
  by (simp add: minus_gf_def plus_gf_def)

lemma gf_uminus [simp]: "- (a :: gf) = a"
  by (simp add: uminus_gf_def)

lemma gf_add_self [simp]: "(a :: gf) + a = 0"
  by (metis gf_uminus add.right_inverse)

lemma gf_add_self_left [simp]: "(a :: gf) + (a + b) = b"
  by (simp flip: add.assoc)

lemma gf_add_eq_0 [simp]: "(a :: gf) + b = 0 \<longleftrightarrow> a = b"
  by (metis gf_minus right_minus_eq)

lemma gf_move: "(a :: gf) = b + c \<longleftrightarrow> b = a + c"
  by (auto simp: add.assoc)

lemma GF_alpha: "GF (alpha i) = GF 2 ^ i"
proof (induction i)
  case (Suc i)
  have "xtime (alpha i) = gf_mul (alpha 1) (alpha i)"
    by (simp only: gf_mul_alpha) simp
  moreover have "alpha 1 = 2" by (simp add: xtime_def)
  ultimately show ?case using Suc by (simp add: GF_mul)
qed simp

lemma GF_exp [gf_transfer]: "i < 510 \<Longrightarrow> GF (gf_exp i) = GF 2 ^ i"
  by (simp add: gf_exp_alpha GF_alpha)

section \<open>Evaluation\<close>

text \<open>
  Code equations that compute table entries without building the tables: a product by the bits of
  its first factor, an inverse as the 254th power.  They let concrete instances be evaluated by
  \<open>code_simp\<close>.
\<close>

lemma byte_bits:
  "(a :: u8) = (if bit a 0 then 1 else 0) XOR (if bit a 1 then 2 else 0) XOR (if bit a 2 then 4 else 0) XOR
    (if bit a 3 then 8 else 0) XOR (if bit a 4 then 16 else 0) XOR (if bit a 5 then 32 else 0) XOR
    (if bit a 6 then 64 else 0) XOR (if bit a 7 then 128 else 0)" (is "_ = ?r")
proof (rule bit_word_eqI)
  fix n assume "n < LENGTH(8)"
  then have "n = 0 \<or> n = 1 \<or> n = 2 \<or> n = 3 \<or> n = 4 \<or> n = 5 \<or> n = 6 \<or> n = 7" by auto
  then show "bit a n = bit ?r n" by (elim disjE) (simp_all add: bit_xor_iff)
qed

lemma gf_mul_xor_left: "gf_mul (a XOR b) c = gf_mul a c XOR gf_mul b c"
  by (metis gf_mul_commute gf_mul_xor_right)

lemma gf_mul_power2:
  "gf_mul 2 b = xtime b" "gf_mul 4 b = xtime (xtime b)" "gf_mul 8 b = xtime (xtime (xtime b))"
  "gf_mul 16 b = xtime (xtime (xtime (xtime b)))" "gf_mul 32 b = xtime (xtime (xtime (xtime (xtime b))))"
  "gf_mul 64 b = xtime (xtime (xtime (xtime (xtime (xtime b)))))"
  "gf_mul 128 b = xtime (xtime (xtime (xtime (xtime (xtime (xtime b))))))"
  using gf_mul_alpha[of 1 b] gf_mul_alpha[of 2 b] gf_mul_alpha[of 3 b] gf_mul_alpha[of 4 b]
    gf_mul_alpha[of 5 b] gf_mul_alpha[of 6 b] gf_mul_alpha[of 7 b]
  by (simp_all add: numeral_eq_Suc xtime_def)

definition mul_bits :: "u8 \<Rightarrow> u8 \<Rightarrow> u8" where
  "mul_bits a b0 =
    (let b1 = xtime b0; b2 = xtime b1; b3 = xtime b2; b4 = xtime b3; b5 = xtime b4; b6 = xtime b5; b7 = xtime b6
     in (if bit a 0 then b0 else 0) XOR (if bit a 1 then b1 else 0) XOR (if bit a 2 then b2 else 0) XOR
        (if bit a 3 then b3 else 0) XOR (if bit a 4 then b4 else 0) XOR (if bit a 5 then b5 else 0) XOR
        (if bit a 6 then b6 else 0) XOR (if bit a 7 then b7 else 0))"

lemma gf_mul_code [code]: "gf_mul a b = mul_bits a b"
  by (subst byte_bits[of a])
     (simp only: gf_mul_xor_left mul_bits_def Let_def if_distrib[of "\<lambda>x. gf_mul x b"] gf_mul_power2 gf_mul_1 gf_mul_0)

lemma gf_exp_code [code]: "gf_exp i = (if i < 510 then (xtime ^^ (i mod 255)) 1 else exp_table build_tables ! i)"
  by (simp add: gf_exp_alpha alpha_mod) (simp add: gf_exp_def)

text \<open>\<open>power_acc n acc s\<close> multiplies \<open>acc\<close> by the next \<open>n\<close> iterated squares of \<open>s\<close>.\<close>

fun power_acc :: "nat \<Rightarrow> u8 \<Rightarrow> u8 \<Rightarrow> u8" and power_step :: "nat \<Rightarrow> u8 \<Rightarrow> u8 \<Rightarrow> u8" where
  "power_acc 0 acc s = acc"
| "power_acc (Suc n) acc s = power_step n acc (gf_mul s s)"
| "power_step n acc q = power_acc n (gf_mul acc q) q"

lemma alpha_mul: "gf_mul (alpha x) (alpha y) = alpha (x + y)"
  by (simp add: gf_mul_alpha funpow_add)

lemma power_acc_alpha: "power_acc n (alpha x) (alpha y) = alpha (x + (2 ^ Suc n - 2) * y)"
proof (induction n arbitrary: x y)
  case (Suc n)
  have "power_acc (Suc n) (alpha x) (alpha y) = power_acc n (alpha (x + (y + y))) (alpha (y + y))"
    by (simp only: power_acc.simps power_step.simps alpha_mul)
  also have "\<dots> = alpha (x + (y + y) + (2 ^ Suc n - 2) * (y + y))" by (rule Suc)
  also have "x + (y + y) + (2 ^ Suc n - 2) * (y + y) = x + (2 ^ Suc (Suc n) - 2) * y"
  proof -
    have "(2 :: nat) \<le> 2 ^ Suc n" by simp
    then obtain q :: nat where "2 ^ Suc n = 2 + q" using le_Suc_ex by blast
    then show ?thesis by (simp add: algebra_simps)
  qed
  finally show ?case .
qed simp

lemma alpha_255_mult: "alpha (255 * i) = 1"
  using alpha_mod[of "255 * i"] by simp

lemma gf_inverse_code [code]: "gf_inverse a = (if a = 0 then 0 else power_acc 7 1 a)"
proof (cases a rule: byte_cases_alpha)
  case (power i)
  have p: "power_acc 7 1 a = alpha (0 + (2 ^ Suc 7 - 2) * i)"
    using power_acc_alpha[of 7 0 i] by (simp only: power(2) funpow_0)
  have e: "i + (0 + (2 ^ Suc 7 - 2) * i) = 255 * i" by simp
  have "gf_mul a (power_acc 7 1 a) = 1"
    unfolding p unfolding power alpha_mul e by (rule alpha_255_mult)
  then have "GF a * GF (power_acc 7 1 a) = 1" by (simp flip: GF_mul)
  then have "GF (gf_inverse a) = GF (power_acc 7 1 a)"
    by (simp add: GF_inverse inverse_unique)
  then show ?thesis using power by simp
qed (simp add: gf_inverse_0)

lemma gf_inverse_eqI: "gf_mul a b = 1 \<Longrightarrow> gf_inverse a = b"
  by (metis GF_inverse GF_mul GF_1 gf.inject inverse_unique)

text \<open>
  The multiplication and inverse tables that \<open>build_tables\<close> fills are those of a field with exclusive
  or as addition: multiplication is commutative and associative with unit 1, distributes over
  addition, and every nonzero byte times its entry in the inverse table is 1.
\<close>

theorem tables_form_a_field:
  "gf_mul a b = gf_mul b a \<and> gf_mul (gf_mul a b) c = gf_mul a (gf_mul b c) \<and> gf_mul 1 a = a \<and>
   gf_mul a (b XOR c) = gf_mul a b XOR gf_mul a c \<and> (a = 0 \<longrightarrow> gf_inverse a = 0) \<and>
   (a \<noteq> 0 \<longrightarrow> gf_mul (gf_inverse a) a = 1)"
  by (intro conjI gf_mul_commute gf_mul_assoc gf_mul_xor_right) (simp_all add: gf_mul_inverse gf_inverse_0)

theorem tables_form_a_field_witness: "(3 :: u8) \<noteq> 0 \<and> gf_mul (gf_inverse 3) 3 = 1"
  using tables_form_a_field[of 3 3 3] by simp

end
