(* ===== verification/GF_Addmul.thy ===== *)
theory GF_Addmul
  imports GF256
begin

text \<open>
  The inner loop of the erasure code, \<open>z[i] ^= y * x[i]\<close>, as \<open>crates/storj-ec/src/gf_simd.rs\<close> has
  it: the scalar loop, the two vector routines that look a product up in two 16-entry nibble
  tables, and the dispatch.  The back end (target architecture and run-time feature detection) is
  a parameter; every back end computes the same field operation.
\<close>

section \<open>The code\<close>

text \<open>\<open>for (zi, &xi) in z.iter_mut().zip(x.iter())\<close>: positions of \<open>z\<close> beyond \<open>x\<close> are kept.\<close>

definition addmul_scalar :: "bytes \<Rightarrow> bytes \<Rightarrow> u8 \<Rightarrow> bytes" where
  "addmul_scalar z x y = map2 (\<lambda>zi xi. zi XOR gf_mul y xi) z x @ drop (length x) z"

definition nibble_tables :: "u8 \<Rightarrow> bytes \<times> bytes" where
  "nibble_tables y =
    (let lo = map (\<lambda>i. gf_mul y (of_nat i)) [0..<16];
         hi = map (\<lambda>i. gf_mul y (push_bit 4 (of_nat i))) [0..<16]
     in (lo, hi))"

text \<open>
  One lane of a vector step.  \<open>vqtbl1q_u8\<close> selects table entry \<open>i\<close> for an index below 16 (the
  indices here always are); \<open>vshrq_n_u8\<close> shifts each byte by four.  \<open>_mm_shuffle_epi8\<close> uses the
  low four bits of an index whose top bit is clear, and \<open>_mm_srli_epi16\<close> shifts 16-bit lanes: the
  bits that cross from the neighbouring byte \<open>up\<close> land in the high nibble and are masked off.
\<close>

definition neon_lane :: "bytes \<times> bytes \<Rightarrow> u8 \<Rightarrow> u8 \<Rightarrow> u8" where
  "neon_lane t zv xv =
    (let l = fst t ! unat (xv AND 0x0f);
         h = snd t ! unat (drop_bit 4 xv)
     in zv XOR (l XOR h))"

definition srli_epi16_low :: "u8 \<Rightarrow> u8 \<Rightarrow> u8" where
  "srli_epi16_low xv up = ucast (drop_bit 4 (ucast xv OR push_bit 8 (ucast up) :: u16))"

definition ssse3_lane :: "bytes \<times> bytes \<Rightarrow> u8 \<Rightarrow> u8 \<Rightarrow> u8 \<Rightarrow> u8" where
  "ssse3_lane t zv xv up =
    (let l = fst t ! unat (xv AND 0x0f);
         h = snd t ! unat (srli_epi16_low xv up AND 0x0f)
     in zv XOR (l XOR h))"

text \<open>The high neighbour of byte \<open>i\<close> in its 16-bit lane (little endian); 0 for the odd byte.\<close>

definition lane_up :: "bytes \<Rightarrow> nat \<Rightarrow> u8" where
  "lane_up xv i = (if even i then xv ! (i + 1) else 0)"

definition neon_block :: "bytes \<times> bytes \<Rightarrow> bytes \<Rightarrow> bytes \<Rightarrow> bytes" where
  "neon_block t zv xv = map (\<lambda>i. neon_lane t (zv ! i) (xv ! i)) [0..<16]"

definition ssse3_block :: "bytes \<times> bytes \<Rightarrow> bytes \<Rightarrow> bytes \<Rightarrow> bytes" where
  "ssse3_block t zv xv = map (\<lambda>i. ssse3_lane t (zv ! i) (xv ! i) (lane_up xv i)) [0..<16]"

text \<open>
  The loop over whole 16-byte chunks followed by the scalar tail; both vector routines have this
  shape and differ in the block operation.
\<close>

definition vector_step ::
  "(bytes \<Rightarrow> bytes \<Rightarrow> bytes) \<Rightarrow> bytes \<Rightarrow> nat \<Rightarrow> bytes \<Rightarrow> bytes" where
  "vector_step block x c z =
    (let off = c * 16
     in put_slice z off (block (sub_slice z off (off + 16)) (sub_slice x off (off + 16))))"

definition addmul_vector ::
  "(bytes \<times> bytes \<Rightarrow> bytes \<Rightarrow> bytes \<Rightarrow> bytes) \<Rightarrow> bytes \<Rightarrow> bytes \<Rightarrow> u8 \<Rightarrow> bytes" where
  "addmul_vector block z x y =
    (let t = nibble_tables y;
         chunks = length z div 16;
         z = fold (vector_step (block t) x) [0..<chunks] z;
         don = chunks * 16
     in take don z @ addmul_scalar (drop don z) (drop don x) y)"

definition addmul_neon :: "bytes \<Rightarrow> bytes \<Rightarrow> u8 \<Rightarrow> bytes" where
  "addmul_neon = addmul_vector neon_block"

definition addmul_ssse3 :: "bytes \<Rightarrow> bytes \<Rightarrow> u8 \<Rightarrow> bytes" where
  "addmul_ssse3 = addmul_vector ssse3_block"

text \<open>
  The dispatch.  \<open>&x[..n]\<close> panics when \<open>x\<close> is shorter than \<open>z\<close>; the documented precondition is that it is not, and the callers pass rows and shares
  of equal length, so the model keeps the prefix and has no value for that panic.
\<close>

datatype backend = Aarch64 | X86_64_ssse3 | Portable

definition addmul :: "backend \<Rightarrow> bytes \<Rightarrow> bytes \<Rightarrow> u8 \<Rightarrow> bytes" where
  "addmul cpu z x y =
    (if y = 0 \<or> z = [] then z
     else let n = length z; x = take n x
          in (case cpu of
                Aarch64 \<Rightarrow> addmul_neon z x y
              | X86_64_ssse3 \<Rightarrow> addmul_ssse3 z x y
              | Portable \<Rightarrow> addmul_scalar z x y))"

section \<open>Every back end computes the same function\<close>

lemma length_addmul_scalar [simp]: "length (addmul_scalar z x y) = length z"
  by (simp add: addmul_scalar_def)

lemma nth_addmul_scalar:
  "length z \<le> length x \<Longrightarrow> i < length z \<Longrightarrow> addmul_scalar z x y ! i = z ! i XOR gf_mul y (x ! i)"
  by (simp add: addmul_scalar_def nth_append)

lemma nibble_split: "(x :: u8) = (x AND 0x0f) XOR push_bit 4 (drop_bit 4 x)"
proof (rule bit_word_eqI)
  fix n assume "n < LENGTH(8)"
  then have "n = 0 \<or> n = 1 \<or> n = 2 \<or> n = 3 \<or> n = 4 \<or> n = 5 \<or> n = 6 \<or> n = 7" by auto
  then show "bit x n = bit ((x AND 0x0f) XOR push_bit 4 (drop_bit 4 x)) n"
    by (auto simp: bit_simps)
qed

lemma low_nibble_less: "unat ((x :: u8) AND 0x0f) < 16"
  using word_and_le1[of x "0x0f"] by (simp add: word_le_nat_alt)

lemma high_nibble_less: "unat (drop_bit 4 (x :: u8)) < 16"
  using unat_less_256[of x] by (simp add: drop_bit_eq_div unat_div_distrib del: unat_less_256)

lemma srli_epi16_low_mask: "srli_epi16_low xv up AND 0x0f = drop_bit 4 xv"
proof (rule bit_word_eqI)
  fix n assume "n < LENGTH(8)"
  then have "n = 0 \<or> n = 1 \<or> n = 2 \<or> n = 3 \<or> n = 4 \<or> n = 5 \<or> n = 6 \<or> n = 7" by auto
  then show "bit (srli_epi16_low xv up AND 0x0f) n = bit (drop_bit 4 xv) n"
    by (auto simp: srli_epi16_low_def bit_simps dest: bit_imp_le_length)
qed

lemma nibble_lookup:
  "fst (nibble_tables y) ! unat (x AND 0x0f) XOR snd (nibble_tables y) ! unat (drop_bit 4 x) = gf_mul y x"
  by (subst (3) nibble_split)
     (simp add: nibble_tables_def low_nibble_less high_nibble_less gf_mul_xor_right)

lemma neon_lane_eq: "neon_lane (nibble_tables y) zv xv = zv XOR gf_mul y xv"
  by (simp add: neon_lane_def nibble_lookup)

lemma ssse3_lane_eq: "ssse3_lane (nibble_tables y) zv xv up = zv XOR gf_mul y xv"
  by (simp add: ssse3_lane_def srli_epi16_low_mask nibble_lookup)

text \<open>A block operation is correct when every lane is the scalar update.\<close>

definition block_ok :: "(bytes \<Rightarrow> bytes \<Rightarrow> bytes) \<Rightarrow> u8 \<Rightarrow> bool" where
  "block_ok block y \<longleftrightarrow>
    (\<forall>zv xv. length zv = 16 \<longrightarrow> length xv = 16 \<longrightarrow> block zv xv = map2 (\<lambda>z x. z XOR gf_mul y x) zv xv)"

lemma neon_block_ok: "block_ok (neon_block (nibble_tables y)) y"
  by (auto simp: block_ok_def neon_block_def neon_lane_eq intro!: nth_equalityI)

lemma ssse3_block_ok: "block_ok (ssse3_block (nibble_tables y)) y"
  by (auto simp: block_ok_def ssse3_block_def ssse3_lane_eq intro!: nth_equalityI)

lemma chunks_bound: "c < n div 16 \<Longrightarrow> c * 16 + 16 \<le> (n :: nat)"
  using row_end_le[of c "n div 16" 16] div_times_less_eq_dividend[of n 16] by linarith

lemma vector_fold:
  assumes "block_ok block y" and "length x = length z"
  defines "res \<equiv> fold (vector_step block x) [0..<length z div 16] z"
  shows "length res = length z \<and> (\<forall>i < length z. res ! i =
    (if i < length z div 16 * 16 then z ! i XOR gf_mul y (x ! i) else z ! i))"
  unfolding res_def
proof (rule fold_upt_invariant[where P = "\<lambda>c z'. length z' = length z \<and> (\<forall>i < length z. z' ! i =
    (if i < c * 16 then z ! i XOR gf_mul y (x ! i) else z ! i))"])
  fix c z'
  assume c: "c < length z div 16" and inv: "length z' = length z \<and> (\<forall>i < length z. z' ! i =
    (if i < c * 16 then z ! i XOR gf_mul y (x ! i) else z ! i))"
  have b: "c * 16 + 16 \<le> length z" using c by (rule chunks_bound)
  have "block (sub_slice z' (c * 16) (c * 16 + 16)) (sub_slice x (c * 16) (c * 16 + 16)) =
      map2 (\<lambda>z x. z XOR gf_mul y x) (sub_slice z' (c * 16) (c * 16 + 16)) (sub_slice x (c * 16) (c * 16 + 16))"
    using assms(1,2) inv b by (simp add: block_ok_def length_sub_slice)
  then show "length (vector_step block x c z') = length z \<and> (\<forall>i < length z. vector_step block x c z' ! i =
      (if i < Suc c * 16 then z ! i XOR gf_mul y (x ! i) else z ! i))"
    using inv b assms(2) by (auto simp: vector_step_def slice_simps)
qed auto

lemma addmul_vector_eq:
  assumes "block_ok (block (nibble_tables y)) y" and "length x = length z"
  shows "addmul_vector block z x y = addmul_scalar z x y"
proof (rule nth_equalityI)
  note v = vector_fold[OF assms]
  show "length (addmul_vector block z x y) = length (addmul_scalar z x y)"
    using v by (simp add: addmul_vector_def)
  fix i assume "i < length (addmul_vector block z x y)"
  then have i: "i < length z" using v by (simp add: addmul_vector_def)
  show "addmul_vector block z x y ! i = addmul_scalar z x y ! i"
    using v i assms(2) by (auto simp: addmul_vector_def nth_append nth_addmul_scalar Let_def)
qed

lemma addmul_eq_scalar:
  assumes "length z \<le> length x"
  shows "addmul cpu z x y = addmul_scalar z (take (length z) x) y"
  using assms
  by (auto simp: addmul_def addmul_neon_def addmul_ssse3_def addmul_vector_eq neon_block_ok
      ssse3_block_ok Let_def addmul_scalar_def map2_map_map intro!: nth_equalityI split: backend.splits)

lemma length_addmul [simp]: "length z \<le> length x \<Longrightarrow> length (addmul cpu z x y) = length z"
  by (simp add: addmul_eq_scalar)

lemma nth_addmul:
  assumes "length z \<le> length x" and "i < length z"
  shows "addmul cpu z x y ! i = z ! i XOR gf_mul y (x ! i)"
  using assms by (simp add: addmul_eq_scalar nth_addmul_scalar)

text \<open>The field-level reading, used by the matrix and codec theories.\<close>

lemma GF_nth_addmul:
  "length z \<le> length x \<Longrightarrow> i < length z \<Longrightarrow> GF (addmul cpu z x y ! i) = GF (z ! i) + GF y * GF (x ! i)"
  by (simp add: nth_addmul gf_transfer)

text \<open>
  C39: every back end computes \<open>z[i] ^= y * x[i]\<close>: the vector routines with their nibble tables and
  scalar tail agree with the scalar loop on every input that is long enough, and the product is the
  product of the field.
\<close>

theorem addmul_backends_agree:
  assumes "length z \<le> length x"
  shows "addmul cpu z x y = addmul cpu' z x y \<and> length (addmul cpu z x y) = length z \<and>
    (\<forall>i < length z. GF (addmul cpu z x y ! i) = GF (z ! i) + GF y * GF (x ! i))"
  using assms by (simp add: GF_nth_addmul) (simp add: addmul_eq_scalar)

theorem addmul_backends_agree_witness:
  "addmul Aarch64 [1, 2] [3, 4] 5 = addmul Portable [1, 2] [3, 4] 5 \<and> addmul Portable [1, 2] [3, 4] 5 = [14, 22]"
proof -
  have "addmul Portable [1, 2] [3, 4] 5 = [14, 22]" by code_simp
  then show ?thesis using addmul_backends_agree[of "[1, 2]" "[3, 4]" Aarch64 5 Portable] by simp
qed

end
