(* ===== verification/Interpolation.thy ===== *)
theory Interpolation
  imports GF256
begin

text \<open>
  The algebra behind the systematic code, independent of the code's data layout: synthetic
  division, the bound on the number of roots of a polynomial given by its coefficients, and the
  interface \<open>interpolation\<close>.  A client of that interface has 256 distinct points and, for every
  size \<open>k\<close>, coefficients that invert the Vandermonde matrix of the first \<open>k\<close> points; it gets a
  systematic generator matrix any \<open>k\<close> rows of which determine the data.
\<close>

section \<open>Synthetic division and roots\<close>

abbreviation poly_sum :: "(nat \<Rightarrow> 'a::comm_ring_1) \<Rightarrow> nat \<Rightarrow> 'a \<Rightarrow> 'a" where
  "poly_sum a k x \<equiv> \<Sum>i<k. a i * x ^ i"

lemma synthetic_division:
  fixes a b :: "nat \<Rightarrow> 'a::comm_ring_1"
  assumes "b k = 0" and "\<And>i. i < k \<Longrightarrow> b i = a (Suc i) + s * b (Suc i)"
  shows "poly_sum a (Suc k) x = (x - s) * poly_sum b k x + (a 0 + s * b 0)"
proof -
  have shift: "(\<Sum>i<k. b (Suc i) * x ^ Suc i) = poly_sum b k x - b 0"
    using sum.lessThan_Suc_shift[of "\<lambda>i. b i * x ^ i" k] assms(1) by (simp add: algebra_simps)
  have "poly_sum a (Suc k) x = a 0 + (\<Sum>i<k. a (Suc i) * x ^ Suc i)"
    by (subst sum.lessThan_Suc_shift) simp
  also have "(\<Sum>i<k. a (Suc i) * x ^ Suc i) = (\<Sum>i<k. (b i - s * b (Suc i)) * x ^ Suc i)"
    by (rule sum.cong) (simp_all add: assms(2))
  also have "\<dots> = x * poly_sum b k x - s * (\<Sum>i<k. b (Suc i) * x ^ Suc i)"
    by (simp add: algebra_simps sum_subtractf sum_distrib_left)
  finally show ?thesis by (simp only: shift) (simp add: algebra_simps)
qed

lemma quotient_exists:
  fixes a :: "nat \<Rightarrow> 'a::comm_ring_1"
  shows "\<exists>b. b k = 0 \<and> (\<forall>i<k. b i = a (Suc i) + s * b (Suc i))"
proof -
  let ?b = "\<lambda>i. \<Sum>j<k - i. a (Suc i + j) * s ^ j"
  have "?b i = a (Suc i) + s * ?b (Suc i)" if "i < k" for i
  proof -
    from that have "k - i = Suc (k - Suc i)" by simp
    then show ?thesis
      by (simp add: sum.lessThan_Suc_shift sum_distrib_left algebra_simps del: sum.lessThan_Suc)
  qed
  then show ?thesis by (intro exI[of _ ?b]) simp
qed

lemma root_bound:
  fixes a :: "nat \<Rightarrow> 'a::idom"
  assumes "finite S" and "card S = k" and "\<And>x. x \<in> S \<Longrightarrow> poly_sum a k x = 0" and "i < k"
  shows "a i = 0"
  using assms
proof (induction k arbitrary: a S i)
  case (Suc k)
  then obtain s where s: "s \<in> S" by (metis card.empty equals0I nat.simps(3))
  obtain b where bk: "b k = 0" and b: "\<And>i. i < k \<Longrightarrow> b i = a (Suc i) + s * b (Suc i)"
    using quotient_exists[of k a s] by blast
  note div = synthetic_division[of b k a s, OF bk b]
  have a0: "a 0 + s * b 0 = 0"
    using div[of s] Suc.prems(3)[OF s] by simp
  have zero: "poly_sum b k x = 0" if "x \<in> S - {s}" for x
    using div[of x] Suc.prems(3)[of x] that a0 by simp
  have b0: "b j = 0" if "j \<le> k" for j
  proof (cases "j = k")
    case False
    then show ?thesis
      using Suc.IH[of "S - {s}" b j] zero Suc.prems(1,2) s that by simp
  qed (simp add: bk)
  show ?case
  proof (cases i)
    case 0
    then show ?thesis using a0 b0 by simp
  next
    case (Suc j)
    with Suc.prems(4) have "j < k" by simp
    then show ?thesis using b[of j] b0[of j] b0[of "Suc j"] Suc by simp
  qed
qed simp

section \<open>The interpolation interface\<close>

text \<open>
  \<open>p r\<close> is the evaluation point of share \<open>r\<close>; \<open>V k m j\<close> is coefficient \<open>m\<close> of the polynomial that
  is 1 at point \<open>j\<close> and 0 at the other points below \<open>k\<close>.
\<close>

locale interpolation =
  fixes p :: "nat \<Rightarrow> gf" and V :: "nat \<Rightarrow> nat \<Rightarrow> nat \<Rightarrow> gf"
  assumes points_distinct: "inj_on p {..<256}"
    and vandermonde_inverse: "k \<le> 256 \<Longrightarrow> i < k \<Longrightarrow> j < k \<Longrightarrow>
      (\<Sum>m<k. p i ^ m * V k m j) = (if i = j then 1 else 0)"
begin

text \<open>Row \<open>r\<close> of the generator matrix and the code word symbol it produces from data \<open>x\<close>.\<close>

definition row :: "nat \<Rightarrow> nat \<Rightarrow> nat \<Rightarrow> gf" where
  "row k r j = (\<Sum>m<k. p r ^ m * V k m j)"

definition symbol :: "nat \<Rightarrow> (nat \<Rightarrow> gf) \<Rightarrow> nat \<Rightarrow> gf" where
  "symbol k x r = (\<Sum>j<k. row k r j * x j)"

lemma row_systematic: "k \<le> 256 \<Longrightarrow> i < k \<Longrightarrow> j < k \<Longrightarrow> row k i j = (if i = j then 1 else 0)"
  by (simp add: row_def vandermonde_inverse)

lemma symbol_systematic: "k \<le> 256 \<Longrightarrow> i < k \<Longrightarrow> symbol k x i = x i"
  by (simp add: symbol_def row_systematic if_distrib if_distribR sum.delta cong: if_cong sum.cong_simp)

lemma symbol_poly: "symbol k x r = poly_sum (\<lambda>m. \<Sum>j<k. V k m j * x j) k (p r)"
proof -
  have "symbol k x r = (\<Sum>j<k. \<Sum>m<k. p r ^ m * V k m j * x j)"
    by (simp add: symbol_def row_def sum_distrib_right)
  also have "\<dots> = (\<Sum>m<k. \<Sum>j<k. p r ^ m * V k m j * x j)"
    by (rule sum.swap)
  finally show ?thesis
    by (simp add: sum_distrib_left sum_distrib_right algebra_simps)
qed

text \<open>Any \<open>k\<close> symbols determine the data: only the zero vector has \<open>k\<close> zero symbols.\<close>

lemma symbols_determine:
  assumes k: "k \<le> 256" and R: "R \<subseteq> {..<256}" "card R = k"
    and zero: "\<And>r. r \<in> R \<Longrightarrow> symbol k x r = 0" and i: "i < k"
  shows "x i = 0"
proof -
  have fin: "finite R" using R(1) by (rule finite_subset) simp
  have "card (p ` R) = k"
    using R points_distinct by (simp add: card_image inj_on_subset)
  moreover have "poly_sum (\<lambda>m. \<Sum>j<k. V k m j * x j) k z = 0" if "z \<in> p ` R" for z
    using that zero by (auto simp: symbol_poly)
  ultimately have "(\<Sum>j<k. V k m j * x j) = 0" if "m < k" for m
    using fin that root_bound[of "p ` R" k "\<lambda>m. \<Sum>j<k. V k m j * x j" m] by simp
  then have "symbol k x i = 0" by (simp add: symbol_poly)
  then show ?thesis using k i by (simp add: symbol_systematic)
qed

end

end
