(* ===== verification/Vandermonde.thy ===== *)
theory Vandermonde
  imports GF_Addmul Interpolation
begin

text \<open>
  \<open>create_inverted_vdm\<close> of \<open>crates/storj-ec/src/gf.rs\<close> and \<open>build_enc_matrix\<close> of \<open>fec.rs\<close>: the loops
  as written, and the proof that column \<open>j\<close> of the result holds the coefficients of the Lagrange
  polynomial of point \<open>j\<close>.  The theory provides the interface \<open>interpolation\<close> for the points of the
  code (0 for share 0 and the powers of the generator for the others).
\<close>

section \<open>The code\<close>

text \<open>Multiplying the master polynomial by the factor of point \<open>i\<close>.\<close>

definition vdm_factor :: "nat \<Rightarrow> nat \<Rightarrow> bytes \<Rightarrow> bytes" where
  "vdm_factor k i c =
    (let c = fold (\<lambda>j c. c[j := c ! j XOR gf_mul (gf_exp i) (c ! (j + 1))]) [k - i..<k - 1] c
     in c[k - 1 := c ! (k - 1) XOR gf_exp i])"

text \<open>Synthetic division by the factor of a row, with the Horner value \<open>t\<close> of the quotient.\<close>

definition vdm_divide_step :: "bytes \<Rightarrow> u8 \<Rightarrow> nat \<Rightarrow> bytes \<times> u8 \<Rightarrow> bytes \<times> u8" where
  "vdm_divide_step c p i = (\<lambda>(b, t).
    (let b = b[i := c ! (i + 1) XOR gf_mul p (b ! (i + 1))];
         t = b ! i XOR gf_mul p t
     in (b, t)))"

definition vdm_row :: "nat \<Rightarrow> bytes \<Rightarrow> nat \<Rightarrow> bytes \<times> bytes \<Rightarrow> bytes \<times> bytes" where
  "vdm_row k c row = (\<lambda>(vdm, b).
    (let index = (if row = 0 then 0 else gf_exp row);
         (b, t) = fold (vdm_divide_step c index) (rev [0..<k - 1]) (b[k - 1 := 1], 1);
         t_inv = gf_inverse t;
         vdm = fold (\<lambda>col vdm. vdm[col * k + row := gf_mul t_inv (b ! col)]) [0..<k] vdm
     in (vdm, b)))"

definition create_inverted_vdm :: "bytes \<Rightarrow> nat \<Rightarrow> bytes" where
  "create_inverted_vdm vdm k =
    (if k = 1 then vdm[0 := 1]
     else let c = fold (vdm_factor k) [1..<k] (replicate k 0);
              (vdm, _) = fold (vdm_row k c) [0..<k] (vdm, replicate k 0)
          in vdm)"

text \<open>
  \<open>build_enc_matrix\<close>.  The \<open>while row < n * k\<close> loop advances \<open>row\<close> by \<open>k\<close>, so it visits the
  multiples of \<open>k\<close> from \<open>k * k\<close> on.
\<close>

definition enc_entry :: "nat \<Rightarrow> bytes \<Rightarrow> nat \<Rightarrow> nat \<Rightarrow> u8" where
  "enc_entry k temp row col =
    fold (\<lambda>i acc. acc XOR gf_mul (temp ! (row + i)) (temp ! (col + i * k))) [0..<k] 0"

definition build_enc_matrix :: "nat \<Rightarrow> nat \<Rightarrow> bytes" where
  "build_enc_matrix k n =
    (let enc_matrix = replicate (n * k) 0;
         temp_matrix = create_inverted_vdm (replicate (n * k) 0) k;
         temp_matrix = fold (\<lambda>i t. t[i := gf_exp ((i div k) * (i mod k) mod 255)]) [k * k..<n * k] temp_matrix;
         enc_matrix = fold (\<lambda>i m. m[i * (k + 1) := 1]) [0..<k] enc_matrix
     in fold (\<lambda>r m. fold (\<lambda>col m. m[r * k + col := enc_entry k temp_matrix (r * k) col]) [0..<k] m)
          [k..<n] enc_matrix)"

section \<open>The evaluation points\<close>

definition point :: "nat \<Rightarrow> gf" where
  "point r = (if r = 0 then 0 else GF 2 ^ r)"

lemma GF2_power_255: "GF 2 ^ 255 = 1"
  using GF_alpha[of 255] by (simp only: alpha_255 GF_1)

lemma point_inj: "inj_on point {..<256}"
proof (rule inj_onI)
  fix i j :: nat assume i: "i \<in> {..<256}" and j: "j \<in> {..<256}" and eq: "point i = point j"
  have nz: "GF 2 ^ m \<noteq> 0" for m by simp
  have norm: "\<exists>m<255. point r = GF (alpha m) \<and> (r = 255 \<and> m = 0 \<or> r = m \<and> m \<noteq> 0)"
    if "0 < r" "r < 256" for r
  proof (cases "r = 255")
    case True
    then show ?thesis by (intro exI[of _ 0]) (simp add: point_def GF2_power_255)
  next
    case False
    then show ?thesis using that by (intro exI[of _ r]) (simp add: point_def GF_alpha)
  qed
  show "i = j"
  proof (cases "i = 0 \<or> j = 0")
    case True
    then show ?thesis using eq nz by (metis point_def)
  next
    case False
    with i j norm[of i] norm[of j] eq show ?thesis
      using alpha_inject[of i 0] alpha_inject[of j 0] by (auto simp: alpha_inject)
  qed
qed

lemma GF_row_index: "r < 256 \<Longrightarrow> GF (if r = 0 then 0 else gf_exp r) = point r"
  by (simp add: point_def GF_exp)

section \<open>The master polynomial\<close>

text \<open>The product of the first factors.\<close>

definition master :: "nat \<Rightarrow> gf \<Rightarrow> gf" where
  "master i x = (\<Prod>j\<le>i. x + point j)"

lemma fold_shift_update:
  assumes "n < length c"
  shows "length (fold (\<lambda>j c. c[j := f (c ! j) (c ! (j + 1))]) [m..<n] c) = length c \<and>
    (\<forall>i < length c. fold (\<lambda>j c. c[j := f (c ! j) (c ! (j + 1))]) [m..<n] c ! i =
      (if m \<le> i \<and> i < n then f (c ! i) (c ! (i + 1)) else c ! i))"
  using assms
proof (induction n)
  case (Suc n)
  then show ?case by (cases "m \<le> n") (auto simp: nth_list_update less_Suc_eq)
qed auto

lemma vdm_factor_nth:
  assumes "length c = k" and "1 \<le> i" and "i < k" and "j < k"
  shows "vdm_factor k i c ! j =
    (if j = k - 1 then c ! j XOR gf_exp i
     else if k - i \<le> j then c ! j XOR gf_mul (gf_exp i) (c ! (j + 1)) else c ! j)"
  using assms fold_shift_update[of "k - 1" c "\<lambda>x y. x XOR gf_mul (gf_exp i) y" "k - i"]
  by (auto simp: vdm_factor_def)

lemma length_vdm_factor: "length c = k \<Longrightarrow> 0 < k \<Longrightarrow> length (vdm_factor k i c) = k"
  using fold_shift_update[of "k - 1" c "\<lambda>x y. x XOR gf_mul (gf_exp i) y" "k - i"]
  by (auto simp: vdm_factor_def)

definition master_inv :: "nat \<Rightarrow> nat \<Rightarrow> bytes \<Rightarrow> bool" where
  "master_inv k i c \<longleftrightarrow> length c = k \<and> (\<forall>j < k - i. c ! j = 0) \<and>
    (\<forall>x. master i x = x ^ Suc i + (\<Sum>m<i. GF (c ! (k - i + m)) * x ^ Suc m))"

lemma master_inv_0: "0 < k \<Longrightarrow> master_inv k 0 (replicate k 0)"
  by (simp add: master_inv_def master_def point_def)

lemma master_inv_step:
  assumes "master_inv k i c" and "Suc i < k" and "k \<le> 256"
  shows "master_inv k (Suc i) (vdm_factor k (Suc i) c)"
proof -
  let ?c = "vdm_factor k (Suc i) c" and ?p = "point (Suc i)"
  have len: "length c = k" and zero: "\<And>j. j < k - i \<Longrightarrow> c ! j = 0"
    and M: "\<And>x. master i x = x ^ Suc i + (\<Sum>m<i. GF (c ! (k - i + m)) * x ^ Suc m)"
    using assms(1) by (auto simp: master_inv_def)
  have p: "GF (gf_exp (Suc i)) = ?p"
    using assms(2,3) by (simp add: point_def GF_exp)
  have c': "GF (?c ! (k - Suc i + m)) =
      GF (c ! (k - Suc i + m)) + ?p * (if m = i then 1 else GF (c ! (k - i + m)))" if "m < Suc i" for m
  proof -
    obtain d where d: "k = Suc i + d" "0 < d" using assms(2) by (metis less_imp_add_positive)
    have "?c ! (d + m) = (if m = i then c ! (d + m) XOR gf_exp (Suc i)
        else c ! (d + m) XOR gf_mul (gf_exp (Suc i)) (c ! Suc (d + m)))"
      using that d len vdm_factor_nth[of c k "Suc i" "d + m"] by auto
    then show ?thesis by (simp add: d gf_transfer p)
  qed
  have "master (Suc i) x = x ^ Suc (Suc i) + (\<Sum>m<Suc i. GF (?c ! (k - Suc i + m)) * x ^ Suc m)" for x
  proof -
    have "(\<Sum>m<Suc i. GF (?c ! (k - Suc i + m)) * x ^ Suc m) =
        (\<Sum>m<Suc i. GF (c ! (k - Suc i + m)) * x ^ Suc m) +
        (\<Sum>m<Suc i. ?p * (if m = i then 1 else GF (c ! (k - i + m))) * x ^ Suc m)"
      unfolding sum.distrib[symmetric] by (rule sum.cong[OF refl]) (simp only: lessThan_iff c' distrib_right)
    also have "(\<Sum>m<Suc i. GF (c ! (k - Suc i + m)) * x ^ Suc m) = x * (\<Sum>m<i. GF (c ! (k - i + m)) * x ^ Suc m)"
    proof -
      have "k - Suc i + Suc m = k - i + m" for m using assms(2) by simp
      then show ?thesis
        using zero[of "k - Suc i"] assms(2)
        by (subst sum.lessThan_Suc_shift) (simp add: sum_distrib_left algebra_simps)
    qed
    also have "(\<Sum>m<Suc i. ?p * (if m = i then 1 else GF (c ! (k - i + m))) * x ^ Suc m) =
        ?p * (x ^ Suc i + (\<Sum>m<i. GF (c ! (k - i + m)) * x ^ Suc m))"
      by (simp add: sum_distrib_left algebra_simps)
    finally show ?thesis
      using M[of x] by (simp add: master_def algebra_simps)
  qed
  moreover have "\<forall>j < k - Suc i. ?c ! j = 0"
    using assms(2) len zero vdm_factor_nth[of c k "Suc i"] by auto
  ultimately show ?thesis
    using assms(2) len by (simp add: master_inv_def length_vdm_factor)
qed

definition master_coeffs :: "nat \<Rightarrow> bytes" where
  "master_coeffs k = fold (vdm_factor k) [1..<k] (replicate k 0)"

lemma master_coeffs_inv:
  assumes "1 \<le> k" and "k \<le> 256"
  shows "master_inv k (k - 1) (master_coeffs k)"
proof -
  have "master_inv k (k - 1) (fold (vdm_factor k) [1..<k] (replicate k 0))"
  proof (rule fold_upt_invariant[where P = "\<lambda>i. master_inv k (i - 1)"])
    fix i c assume "1 \<le> i" "i < k" "master_inv k (i - 1) c"
    then show "master_inv k (Suc i - 1) (vdm_factor k i c)"
      using master_inv_step[of k "i - 1" c] assms by simp
  qed (use assms in \<open>simp_all add: master_inv_0\<close>)
  then show ?thesis by (simp add: master_coeffs_def)
qed

text \<open>The coefficients as a function, with the implicit leading one.\<close>

definition master_fun :: "nat \<Rightarrow> nat \<Rightarrow> gf" where
  "master_fun k i = (if i = k then 1 else GF (master_coeffs k ! i))"

lemma master_poly:
  assumes "1 \<le> k" and "k \<le> 256"
  shows "poly_sum (master_fun k) (Suc k) x = master (k - 1) x"
proof -
  have inv: "master_inv k (k - 1) (master_coeffs k)" using assms by (rule master_coeffs_inv)
  obtain n where n: "k = Suc n" using assms(1) by (cases k) auto
  have "poly_sum (master_fun k) (Suc k) x = x ^ k + (\<Sum>i<k. GF (master_coeffs k ! i) * x ^ i)"
    by (simp add: master_fun_def)
  also have "(\<Sum>i<k. GF (master_coeffs k ! i) * x ^ i) = (\<Sum>m<n. GF (master_coeffs k ! Suc m) * x ^ Suc m)"
    using inv unfolding n by (subst sum.lessThan_Suc_shift) (simp add: master_inv_def)
  finally show ?thesis using inv by (simp add: master_inv_def n)
qed

lemma master_root: "1 \<le> k \<Longrightarrow> j < k \<Longrightarrow> master (k - 1) (point j) = 0"
  unfolding master_def by (rule prod_zero) (auto intro!: bexI[of _ j])

section \<open>Division by one factor\<close>

definition divide_inv :: "nat \<Rightarrow> u8 \<Rightarrow> nat \<Rightarrow> bytes \<times> u8 \<Rightarrow> bool" where
  "divide_inv k p i = (\<lambda>(b, t). length b = k \<and> b ! (k - 1) = 1 \<and>
    (\<forall>j. i \<le> j \<longrightarrow> j < k - 1 \<longrightarrow> b ! j = master_coeffs k ! (j + 1) XOR gf_mul p (b ! (j + 1))) \<and>
    GF t = (\<Sum>j<k - i. GF (b ! (i + j)) * GF p ^ j))"

lemma divide_inv_step:
  assumes "divide_inv k p (Suc i) s" and "i < k - 1"
  shows "divide_inv k p i (vdm_divide_step (master_coeffs k) p i s)"
proof -
  obtain b t where s: "s = (b, t)" by (cases s)
  let ?b = "b[i := master_coeffs k ! (i + 1) XOR gf_mul p (b ! (i + 1))]"
  have len: "length b = k" "b ! (k - 1) = 1"
    and rec: "\<And>j. Suc i \<le> j \<Longrightarrow> j < k - 1 \<Longrightarrow> b ! j = master_coeffs k ! (j + 1) XOR gf_mul p (b ! (j + 1))"
    and t: "GF t = (\<Sum>j<k - Suc i. GF (b ! (Suc i + j)) * GF p ^ j)"
    using assms(1) by (auto simp: s divide_inv_def)
  have "k - i = Suc (k - Suc i)" using assms(2) by simp
  then have "(\<Sum>j<k - i. GF (?b ! (i + j)) * GF p ^ j) = GF (?b ! i) + GF p * GF t"
    by (simp add: sum.lessThan_Suc_shift t sum_distrib_left algebra_simps del: sum.lessThan_Suc)
  moreover have "?b ! j = master_coeffs k ! (j + 1) XOR gf_mul p (?b ! (j + 1))" if "i \<le> j" "j < k - 1" for j
    using that rec[of j] len assms(2) by (cases "j = i") auto
  ultimately show ?thesis
    using len assms(2) by (simp add: s divide_inv_def vdm_divide_step_def gf_transfer)
qed

lemma divide_inv_fold:
  assumes "length b = k" and "1 \<le> k"
  shows "divide_inv k p 0 (fold (vdm_divide_step (master_coeffs k) p) (rev [0..<k - 1]) (b[k - 1 := 1], 1))"
proof (rule fold_rev_upt_invariant[where P = "divide_inv k p"])
  show "divide_inv k p (k - 1) (b[k - 1 := 1], 1)"
    using assms by (simp add: divide_inv_def)
qed (rule divide_inv_step)

text \<open>The quotient of a row vanishes at the other points and its value at its own point is \<open>t\<close>.\<close>

lemma quotient_values:
  assumes q: "divide_inv k p 0 (b, t)" and p: "GF p = point r"
    and k: "1 \<le> k" "k \<le> 256" and r: "r < k" and i: "i < k"
  shows "poly_sum (\<lambda>m. GF (b ! m)) k (point i) = (if i = r then GF t else 0)" and "t \<noteq> 0"
proof -
  let ?b = "\<lambda>j. if j < k then GF (b ! j) else 0"
  have len: "length b = k" "b ! (k - 1) = 1"
    and rec: "\<And>j. j < k - 1 \<Longrightarrow> b ! j = master_coeffs k ! (j + 1) XOR gf_mul p (b ! (j + 1))"
    and t: "GF t = poly_sum (\<lambda>m. GF (b ! m)) k (point r)"
    using q by (auto simp: divide_inv_def p)
  have step: "?b j = master_fun k (Suc j) + point r * ?b (Suc j)" if "j < k" for j
  proof (cases "j = k - 1")
    case True
    then show ?thesis using k(1) len(2) by (simp add: master_fun_def)
  next
    case False
    with that have "Suc j < k" by simp
    then show ?thesis using rec[of j] by (simp add: master_fun_def gf_transfer p)
  qed
  have eq: "master (k - 1) x = (x + point r) * poly_sum ?b k x + (master_fun k 0 + point r * ?b 0)" for x
    using synthetic_division[of ?b k "master_fun k" "point r" x, OF _ step]
    unfolding master_poly[OF k] gf_minus by simp
  then have rem: "master_fun k 0 + point r * ?b 0 = 0"
    using eq[of "point r"] master_root[OF k(1) r] by simp
  have other: "poly_sum ?b k (point j) = 0" if "j < k" "j \<noteq> r" for j
  proof -
    have "point j \<noteq> point r"
      using point_inj that r k(2) by (auto simp: inj_on_eq_iff)
    then show ?thesis
      using eq[of "point j"] master_root[OF k(1) that(1)] rem by simp
  qed
  have sum_b: "poly_sum ?b k x = poly_sum (\<lambda>m. GF (b ! m)) k x" for x
    by (rule sum.cong) auto
  show "poly_sum (\<lambda>m. GF (b ! m)) k (point i) = (if i = r then GF t else 0)"
    using other[of i] i t by (simp add: sum_b)
  show "t \<noteq> 0"
  proof
    assume "t = 0"
    then have "poly_sum ?b k x = 0" if "x \<in> point ` {..<k}" for x
      using that other t by (auto simp: sum_b)
    moreover have "card (point ` {..<k}) = k"
      using point_inj k(2) by (simp add: card_image inj_on_subset)
    ultimately have "?b (k - 1) = 0"
      using root_bound[of "point ` {..<k}" k ?b "k - 1"] k(1) by simp
    then show False using len(2) k(1) by simp
  qed
qed

section \<open>The inverted matrix\<close>

text \<open>Column \<open>r\<close> of the buffer holds the scaled quotient of row \<open>r\<close>.\<close>

definition column_done :: "nat \<Rightarrow> bytes \<Rightarrow> nat \<Rightarrow> bool" where
  "column_done k vdm r \<longleftrightarrow> (\<exists>b t p. divide_inv k p 0 (b, t) \<and> GF p = point r \<and>
    (\<forall>col<k. vdm ! (col * k + r) = gf_mul (gf_inverse t) (b ! col)))"

lemma fold_column_update:
  assumes "r < k" and "k * k \<le> length vdm"
  shows "length (fold (\<lambda>col v. v[col * k + r := f col]) [0..<n] vdm) = length vdm"
    and "n \<le> k \<Longrightarrow> r' < k \<Longrightarrow> col < k \<Longrightarrow> fold (\<lambda>col v. v[col * k + r := f col]) [0..<n] vdm ! (col * k + r') =
      (if r' = r \<and> col < n then f col else vdm ! (col * k + r'))"
proof -
  show len: "length (fold (\<lambda>col v. v[col * k + r := f col]) [0..<n] vdm) = length vdm" for n
    by (induction n) auto
  assume "n \<le> k" and r': "r' < k" and col: "col < k"
  then show "fold (\<lambda>col v. v[col * k + r := f col]) [0..<n] vdm ! (col * k + r') =
      (if r' = r \<and> col < n then f col else vdm ! (col * k + r'))"
  proof (induction n)
    case (Suc n)
    have "n * k + r < length vdm"
      using Suc.prems assms flat_index_less[of n k r k] by simp
    then show ?case
      using Suc assms flat_index_eq[of r k r' n col] by (auto simp: nth_list_update len)
  qed simp
qed

definition rows_inv :: "nat \<Rightarrow> nat \<Rightarrow> nat \<Rightarrow> bytes \<times> bytes \<Rightarrow> bool" where
  "rows_inv k len i = (\<lambda>(vdm, b). length vdm = len \<and> length b = k \<and> (\<forall>r<i. column_done k vdm r))"

lemma rows_inv_step:
  assumes "rows_inv k len i s" and "i < k" and "k * k \<le> len" and "k \<le> 256"
  shows "rows_inv k len (Suc i) (vdm_row k (master_coeffs k) i s)"
proof -
  obtain vdm b where s: "s = (vdm, b)" by (cases s)
  let ?p = "if i = 0 then 0 else gf_exp i"
  obtain b' t where q: "fold (vdm_divide_step (master_coeffs k) ?p) (rev [0..<k - 1]) (b[k - 1 := 1], 1) = (b', t)"
    by (cases "fold (vdm_divide_step (master_coeffs k) ?p) (rev [0..<k - 1]) (b[k - 1 := 1], 1)")
  have inv: "length vdm = len" "length b = k" "\<And>r. r < i \<Longrightarrow> column_done k vdm r"
    using assms(1) by (auto simp: s rows_inv_def)
  have dv: "divide_inv k ?p 0 (b', t)"
    using divide_inv_fold[of b k ?p] inv(2) assms(2) q by simp
  let ?v = "fold (\<lambda>col vdm. vdm[col * k + i := gf_mul (gf_inverse t) (b' ! col)]) [0..<k] vdm"
  have v: "col < k \<Longrightarrow> r < k \<Longrightarrow> ?v ! (col * k + r) =
      (if r = i then gf_mul (gf_inverse t) (b' ! col) else vdm ! (col * k + r))" for col r
    using fold_column_update(2)[of i k vdm k r col] assms(2,3) inv(1) by simp
  have "column_done k ?v r" if "r < Suc i" for r
  proof (cases "r = i")
    case True
    then show ?thesis
      using dv v assms(2,4) GF_row_index[of i] unfolding column_done_def by fastforce
  next
    case False
    then have "r < i" "r < k" using that assms(2) by auto
    then show ?thesis using inv(3)[of r] v False unfolding column_done_def by fastforce
  qed
  moreover have "length b' = k" using dv by (simp add: divide_inv_def)
  ultimately show ?thesis
    using inv fold_column_update(1)[of i k vdm] assms(2,3) q by (simp add: s rows_inv_def vdm_row_def)
qed

lemma column_done_one: "Suc 0 \<le> length vdm \<Longrightarrow> column_done (Suc 0) (vdm[0 := 1]) 0"
  unfolding column_done_def
  by (rule exI[of _ "[1]"], rule exI[of _ 1], rule exI[of _ 0])
     (simp add: divide_inv_def point_def gf_mul_inverse[of 1, simplified] Suc_le_eq)

lemma create_inverted_vdm_columns:
  assumes "1 \<le> k" and "k \<le> 256" and "k * k \<le> length vdm"
  shows "length (create_inverted_vdm vdm k) = length vdm" and
    "r < k \<Longrightarrow> column_done k (create_inverted_vdm vdm k) r"
proof -
  have "length (create_inverted_vdm vdm k) = length vdm \<and> (\<forall>r<k. column_done k (create_inverted_vdm vdm k) r)"
  proof (cases "k = 1")
    case True
    then show ?thesis using assms(3) by (simp add: create_inverted_vdm_def column_done_one)
  next
    case False
    have "rows_inv k (length vdm) k (fold (vdm_row k (master_coeffs k)) [0..<k] (vdm, replicate k 0))"
      using assms by (intro fold_upt_invariant[where P = "rows_inv k (length vdm)"])
        (simp_all add: rows_inv_def[of k _ 0] rows_inv_step)
    then show ?thesis
      using False by (auto simp: create_inverted_vdm_def master_coeffs_def rows_inv_def)
  qed
  then show "length (create_inverted_vdm vdm k) = length vdm" and
    "r < k \<Longrightarrow> column_done k (create_inverted_vdm vdm k) r" by auto
qed

lemma column_done_inverse:
  assumes "column_done k vdm r" and "1 \<le> k" "k \<le> 256" and "r < k" and "i < k"
  shows "(\<Sum>m<k. point i ^ m * GF (vdm ! (m * k + r))) = (if i = r then 1 else 0)"
proof -
  obtain b t p where q: "divide_inv k p 0 (b, t)" "GF p = point r"
    and vdm: "\<And>col. col < k \<Longrightarrow> vdm ! (col * k + r) = gf_mul (gf_inverse t) (b ! col)"
    using assms(1) by (auto simp: column_done_def)
  note vals = quotient_values[OF q assms(2-5)]
  have "(\<Sum>m<k. point i ^ m * GF (vdm ! (m * k + r))) = inverse (GF t) * poly_sum (\<lambda>m. GF (b ! m)) k (point i)"
    unfolding sum_distrib_left by (rule sum.cong[OF refl]) (simp add: vdm gf_transfer)
  then show ?thesis using vals by simp
qed

text \<open>The provider of the interface: the points of the code and the code's own inverse.\<close>

definition vdm_coeff :: "nat \<Rightarrow> nat \<Rightarrow> nat \<Rightarrow> gf" where
  "vdm_coeff k m j = GF (create_inverted_vdm (replicate (k * k) 0) k ! (m * k + j))"

interpretation code: interpolation point vdm_coeff
proof unfold_locales
  show "inj_on point {..<256}" by (rule point_inj)
  fix k i j :: nat assume "k \<le> 256" "i < k" "j < k"
  then show "(\<Sum>m<k. point i ^ m * vdm_coeff k m j) = (if i = j then 1 else 0)"
    unfolding vdm_coeff_def
    by (intro column_done_inverse create_inverted_vdm_columns) simp_all
qed

text \<open>The coefficients do not depend on the buffer the code happens to fill.\<close>

lemma column_done_unique:
  assumes "column_done k v r" "column_done k w r" and k: "1 \<le> k" "k \<le> 256" and "r < k" "m < k"
  shows "v ! (m * k + r) = w ! (m * k + r)"
proof -
  let ?d = "\<lambda>m. GF (v ! (m * k + r)) + GF (w ! (m * k + r))"
  have "poly_sum ?d k (point i) = 0" if "i < k" for i
  proof -
    have "poly_sum ?d k (point i) = (\<Sum>m<k. point i ^ m * GF (v ! (m * k + r))) + (\<Sum>m<k. point i ^ m * GF (w ! (m * k + r)))"
      unfolding sum.distrib[symmetric] by (rule sum.cong[OF refl]) (simp only: distrib_left mult.commute)
    then show ?thesis
      using column_done_inverse[OF assms(1) k assms(5) that] column_done_inverse[OF assms(2) k assms(5) that] by simp
  qed
  moreover have "card (point ` {..<k}) = k"
    using point_inj k(2) by (simp add: card_image inj_on_subset)
  ultimately have "?d m = 0"
    using root_bound[of "point ` {..<k}" k ?d m] assms(6) by auto
  then show ?thesis by simp
qed

section \<open>The encoding matrix\<close>

lemma GF2_power_mod: "GF 2 ^ (m mod 255) = GF 2 ^ m"
  using GF_alpha[of m] GF_alpha[of "m mod 255"] by (simp only: alpha_mod)

lemma GF_fold_xor: "GF (fold (\<lambda>i acc. acc XOR f i) [0..<n] 0) = (\<Sum>i<n. GF (f i))"
  by (induction n) (simp_all add: gf_transfer)

lemma length_fold_upd [simp]: "length (fold (\<lambda>i xs. xs[g i := f i]) is xs) = length xs"
  by (induction "is" arbitrary: xs) auto

text \<open>The scratch matrix after the second loop: the inverse on top, powers of the points below.\<close>

definition temp_matrix :: "nat \<Rightarrow> nat \<Rightarrow> bytes" where
  "temp_matrix k n = fold (\<lambda>i t. t[i := gf_exp ((i div k) * (i mod k) mod 255)]) [k * k..<n * k]
     (create_inverted_vdm (replicate (n * k) 0) k)"

lemma temp_matrix_entries:
  assumes "1 \<le> k" and "k \<le> n" and "n \<le> 256" and "j < k"
  shows "i < k \<Longrightarrow> GF (temp_matrix k n ! (j + i * k)) = vdm_coeff k i j"
    and "k \<le> r \<Longrightarrow> r < n \<Longrightarrow> GF (temp_matrix k n ! (r * k + j)) = point r ^ j"
proof -
  let ?v = "create_inverted_vdm (replicate (n * k) 0) k"
  have le: "k * k \<le> n * k" using assms(2) by simp
  have len: "length ?v = n * k"
    using create_inverted_vdm_columns(1)[of k "replicate (n * k) 0"] assms le by simp
  have nth: "temp_matrix k n ! i = (if k * k \<le> i \<and> i < n * k then gf_exp ((i div k) * (i mod k) mod 255) else ?v ! i)"
    if "i < n * k" for i
    using fold_upd_nth[of i ?v "\<lambda>i. gf_exp ((i div k) * (i mod k) mod 255)" "k * k" "n * k"] that len
    by (simp add: temp_matrix_def)
  show "GF (temp_matrix k n ! (j + i * k)) = vdm_coeff k i j" if i: "i < k"
  proof -
    have "j + i * k < k * k" using flat_index_less[of i k j k] i assms(4) by (simp add: add.commute)
    then have "temp_matrix k n ! (j + i * k) = ?v ! (i * k + j)"
      using nth[of "j + i * k"] le by (simp add: add.commute)
    also have "\<dots> = create_inverted_vdm (replicate (k * k) 0) k ! (i * k + j)"
      using assms le i by (intro column_done_unique create_inverted_vdm_columns(2)) simp_all
    finally show ?thesis by (simp add: vdm_coeff_def)
  qed
  show "GF (temp_matrix k n ! (r * k + j)) = point r ^ j" if r: "k \<le> r" "r < n"
  proof -
    have "k * k \<le> r * k + j" using r(1) by (meson le_add1 le_trans mult_le_mono1)
    moreover have "r * k + j < n * k" using flat_index_less[of r n j k] r(2) assms(4) by simp
    ultimately have "temp_matrix k n ! (r * k + j) = gf_exp (r * j mod 255)"
      using nth[of "r * k + j"] assms(4) by simp
    moreover have "GF (gf_exp (r * j mod 255)) = GF 2 ^ (r * j mod 255)"
      by (rule GF_exp) (rule less_trans[OF mod_less_divisor], simp_all)
    ultimately show ?thesis
      using r assms(1) by (simp add: GF2_power_mod point_def power_mult)
  qed
qed

lemma fold_rows_nth:
  assumes "length m = n * k" and "k0 \<le> n"
  shows "length (fold (\<lambda>r m. fold (\<lambda>col m. m[r * k + col := f r col]) [0..<k] m) [k0..<n] m) = n * k" (is ?len)
    and "r < n \<Longrightarrow> j < k \<Longrightarrow>
      fold (\<lambda>r m. fold (\<lambda>col m. m[r * k + col := f r col]) [0..<k] m) [k0..<n] m ! (r * k + j) =
      (if k0 \<le> r then f r j else m ! (r * k + j))"
proof -
  have inner: "fold (\<lambda>col m. m[a * k + col := f a col]) [0..<q] m ! (r * k + j) =
      (if r = a \<and> j < q then f a j else m ! (r * k + j))"
    if "length m = n * k" "a < n" "q \<le> k" "r < n" "j < k" for a q r j m
    using that(3)
  proof (induction q)
    case (Suc q)
    moreover have "a * k + q < length m" using Suc.prems that flat_index_less[of a n q k] by simp
    ultimately show ?case
      using that flat_index_eq[of q k j a r] by (auto simp: nth_list_update)
  qed simp
  have "length (fold (\<lambda>r m. fold (\<lambda>col m. m[r * k + col := f r col]) [0..<k] m) [k0..<n] m) = n * k \<and>
      (\<forall>r<n. \<forall>j<k. fold (\<lambda>r m. fold (\<lambda>col m. m[r * k + col := f r col]) [0..<k] m) [k0..<n] m ! (r * k + j) =
      (if k0 \<le> r \<and> r < n then f r j else m ! (r * k + j)))"
    using assms by (intro fold_upt_invariant[where P = "\<lambda>q m'. length m' = n * k \<and>
      (\<forall>r<n. \<forall>j<k. m' ! (r * k + j) = (if k0 \<le> r \<and> r < q then f r j else m ! (r * k + j)))"])
      (auto simp: inner less_Suc_eq)
  then show ?len and "r < n \<Longrightarrow> j < k \<Longrightarrow>
      fold (\<lambda>r m. fold (\<lambda>col m. m[r * k + col := f r col]) [0..<k] m) [k0..<n] m ! (r * k + j) =
      (if k0 \<le> r then f r j else m ! (r * k + j))" by auto
qed

lemma identity_rows_nth:
  assumes "length m = n * k" and "k \<le> n" and "r < n" and "j < k"
  shows "fold (\<lambda>i m. m[i * (k + 1) := 1]) [0..<k] m ! (r * k + j) = (if r = j then 1 else m ! (r * k + j))"
proof -
  have "fold (\<lambda>i m. m[i * (k + 1) := 1]) [0..<q] m ! (r * k + j) = (if r = j \<and> j < q then 1 else m ! (r * k + j))"
    if "q \<le> k" for q
    using that
  proof (induction q)
    case (Suc q)
    moreover have "q * k + q < length m" using Suc.prems assms flat_index_less[of q n q k] by simp
    ultimately show ?case
      using assms flat_index_eq[of q k j q r] by (auto simp: nth_list_update add.commute)
  qed simp
  then show ?thesis using assms(4) by simp
qed

text \<open>Every row of the encoding matrix is the generator row of its evaluation point.\<close>

lemma build_enc_matrix_rows:
  assumes k: "1 \<le> k" "k \<le> n" and n: "n \<le> 256"
  shows "length (build_enc_matrix k n) = n * k"
    and "r < n \<Longrightarrow> j < k \<Longrightarrow> GF (build_enc_matrix k n ! (r * k + j)) = code.row k r j"
proof -
  let ?id = "fold (\<lambda>i m. m[i * (k + 1) := 1]) [0..<k] (replicate (n * k) 0)"
  have def: "build_enc_matrix k n = fold (\<lambda>r m. fold (\<lambda>col m. m[r * k + col :=
      enc_entry k (temp_matrix k n) (r * k) col]) [0..<k] m) [k..<n] ?id"
    by (simp add: build_enc_matrix_def temp_matrix_def)
  show "length (build_enc_matrix k n) = n * k"
    unfolding def using k by (intro fold_rows_nth) simp_all
  assume r: "r < n" and j: "j < k"
  have nth: "build_enc_matrix k n ! (r * k + j) =
      (if k \<le> r then enc_entry k (temp_matrix k n) (r * k) j else if r = j then 1 else 0)"
    unfolding def using k r j flat_index_less[OF r j]
    by (subst fold_rows_nth(2)) (simp_all add: identity_rows_nth[simplified])
  show "GF (build_enc_matrix k n ! (r * k + j)) = code.row k r j"
  proof (cases "k \<le> r")
    case True
    then show ?thesis
      using k n r j temp_matrix_entries[of k n]
      by (simp add: nth enc_entry_def GF_fold_xor gf_transfer code.row_def)
  next
    case False
    then show ?thesis using k n j by (simp add: nth code.row_systematic)
  qed
qed

end
