(* ===== verification/Gauss_Jordan.thy ===== *)
theory Gauss_Jordan
  imports GF_Addmul
begin

text \<open>
  \<open>invert_matrix\<close> and \<open>search_pivot\<close> of \<open>crates/storj-ec/src/gf.rs\<close>: in-place Gauss-Jordan inversion
  of a row-major \<open>k\<close> by \<open>k\<close> matrix.  The correctness argument is the classical exchange step: after
  \<open>m\<close> pivots the matrix expresses the first \<open>m\<close> unknowns and the remaining right-hand sides through
  the first \<open>m\<close> right-hand sides and the remaining unknowns.  It applies to every matrix whose leading
  principal blocks are regular, in which case the pivot is always on the diagonal; the last section
  shows what the off-diagonal pivot search does otherwise.
\<close>

section \<open>The code\<close>

type_synonym msg = string

text \<open>
  \<open>search_pivot\<close> returns the updated pivot flags and the pair (icol, irow).  The two nested loops
  visit the positions in row-major order.
\<close>

definition search_pivot :: "bool list \<Rightarrow> nat \<Rightarrow> bytes \<Rightarrow> nat \<Rightarrow> msg + (bool list \<times> nat \<times> nat)" where
  "search_pivot ipiv col matrix k =
    (if \<not> ipiv ! col \<and> matrix ! (col * k + col) \<noteq> 0 then Inr (ipiv[col := True], col, col)
     else (case find (\<lambda>(row, i). \<not> ipiv ! row \<and> \<not> ipiv ! i \<and> matrix ! (row * k + i) \<noteq> 0)
                  (List.product [0..<k] [0..<k]) of
             Some (row, i) \<Rightarrow> Inr (ipiv[i := True], row, i)
           | None \<Rightarrow> Inl ''pivot not found''))"

record inversion =
  matrix :: bytes
  ipiv :: "bool list"
  indxc :: "nat list"
  indxr :: "nat list"
  id_row :: bytes

definition swap_rows :: "nat \<Rightarrow> nat \<Rightarrow> nat \<Rightarrow> bytes \<Rightarrow> bytes" where
  "swap_rows k irow icol m = fold (\<lambda>i m. swap m (irow * k + i) (icol * k + i)) [0..<k] m"

definition scale_pivot_row :: "nat \<Rightarrow> bytes \<Rightarrow> bytes" where
  "scale_pivot_row icol row =
    (let c = row ! icol
     in if c \<noteq> 1 then let c = gf_inverse c; row = row[icol := 1] in map (gf_mul c) row else row)"

definition eliminate_row :: "backend \<Rightarrow> nat \<Rightarrow> nat \<Rightarrow> bytes \<Rightarrow> nat \<Rightarrow> bytes \<Rightarrow> bytes" where
  "eliminate_row cpu k icol pivot_row i m =
    (if i \<noteq> icol then
       let coeff = m ! (i * k + icol);
           m = m[i * k + icol := 0]
       in put_slice m (i * k) (addmul cpu (sub_slice m (i * k) (i * k + k)) pivot_row coeff)
     else m)"

definition invert_step :: "backend \<Rightarrow> nat \<Rightarrow> nat \<Rightarrow> inversion \<Rightarrow> msg + inversion" where
  "invert_step cpu k col s =
    try_bind (search_pivot (ipiv s) col (matrix s) k) (\<lambda>(piv, icol, irow).
      let m = (if irow \<noteq> icol then swap_rows k irow icol (matrix s) else matrix s);
          ir = (indxr s)[col := irow];
          ic = (indxc s)[col := icol];
          pivot_row = sub_slice m (icol * k) (icol * k + k);
          c = pivot_row ! icol
      in if c = 0 then Inl ''singular matrix''
         else let pivot_row = scale_pivot_row icol pivot_row;
                  m = put_slice m (icol * k) pivot_row;
                  idr = (id_row s)[icol := 1];
                  m = (if pivot_row \<noteq> idr then fold (eliminate_row cpu k icol pivot_row) [0..<k] m else m);
                  idr = idr[icol := 0]
              in Inr \<lparr>matrix = m, ipiv = piv, indxc = ic, indxr = ir, id_row = idr\<rparr>)"

definition swap_columns :: "nat \<Rightarrow> nat \<Rightarrow> nat \<Rightarrow> bytes \<Rightarrow> bytes" where
  "swap_columns k a b m = fold (\<lambda>row m. swap m (row * k + a) (row * k + b)) [0..<k] m"

definition invert_matrix :: "backend \<Rightarrow> bytes \<Rightarrow> nat \<Rightarrow> msg + bytes" where
  "invert_matrix cpu m k =
    try_bind (fold_result (invert_step cpu k) [0..<k]
        \<lparr>matrix = m, ipiv = replicate k False, indxc = replicate k 0, indxr = replicate k 0,
         id_row = replicate k 0\<rparr>)
      (\<lambda>s. Inr (fold (\<lambda>i m. if indxr s ! i \<noteq> indxc s ! i then swap_columns k (indxr s ! i) (indxc s ! i) m else m)
                  [0..<k] (matrix s)))"

section \<open>The exchange relation\<close>

definition entry :: "bytes \<Rightarrow> nat \<Rightarrow> nat \<Rightarrow> nat \<Rightarrow> gf" where
  "entry m k i j = GF (m ! (i * k + j))"

text \<open>
  \<open>A\<close> is \<open>M\<close> with its first \<open>m\<close> unknowns and right-hand sides exchanged.  The sign of the
  classical exchange step does not matter in characteristic two.
\<close>

definition exchanged :: "nat \<Rightarrow> (nat \<Rightarrow> nat \<Rightarrow> gf) \<Rightarrow> nat \<Rightarrow> (nat \<Rightarrow> nat \<Rightarrow> gf) \<Rightarrow> bool" where
  "exchanged k M m A \<longleftrightarrow> (\<forall>x y.
    (\<forall>i<k. y i = (\<Sum>j<k. M i j * x j)) \<longleftrightarrow>
    (\<forall>i<k. (if i < m then x i else y i) = (\<Sum>j<k. A i j * (if j < m then y j else x j))))"

text \<open>One exchange on the diagonal position \<open>m\<close>.\<close>

definition exchange :: "nat \<Rightarrow> (nat \<Rightarrow> nat \<Rightarrow> gf) \<Rightarrow> nat \<Rightarrow> nat \<Rightarrow> gf" where
  "exchange m A i j =
    (let piv = (\<lambda>j. if j = m then inverse (A m m) else inverse (A m m) * A m j)
     in if i = m then piv j else if j = m then A i m * piv m else A i j + A i m * piv j)"

lemma exchange_other:
  "i \<noteq> m \<Longrightarrow> exchange m A i j = (if j = m then 0 else A i j) + A i m * exchange m A m j"
  by (simp add: exchange_def)

lemma exchanged_0: "exchanged k M 0 M"
  by (simp add: exchanged_def)

lemma sum_split_at:
  fixes f :: "nat \<Rightarrow> gf"
  assumes "m < k"
  shows "(\<Sum>j<k. f j) = f m + (\<Sum>j\<in>{..<k} - {m}. f j)"
  using assms by (simp add: sum.remove)

lemma mult_eq_iff_inverse: "(a :: gf) \<noteq> 0 \<Longrightarrow> a * x = b \<longleftrightarrow> x = inverse a * b"
  by (auto simp flip: mult.assoc)

lemma all_iff_pivot:
  fixes m k :: nat
  assumes "m < k" and "L m \<longleftrightarrow> L' m" and "\<And>i. i \<noteq> m \<Longrightarrow> L' m \<Longrightarrow> L' i \<longleftrightarrow> L i"
  shows "(\<forall>i<k. L i) \<longleftrightarrow> (\<forall>i<k. L' i)"
  using assms by metis

lemma exchanged_Suc:
  assumes ex: "exchanged k M m A" and m: "m < k" and piv: "A m m \<noteq> 0"
  shows "exchanged k M (Suc m) (exchange m A)"
proof -
  have "(\<forall>i<k. (if i < m then x i else y i) = (\<Sum>j<k. A i j * (if j < m then y j else x j))) \<longleftrightarrow>
      (\<forall>i<k. (if i < Suc m then x i else y i) = (\<Sum>j<k. exchange m A i j * (if j < Suc m then y j else x j)))"
    (is "(\<forall>i<k. ?l i = ?r i) \<longleftrightarrow> (\<forall>i<k. ?l' i = ?r' i)") for x y :: "nat \<Rightarrow> gf"
  proof -
    let ?z = "\<lambda>j. if j < m then y j else x j"
    let ?rest = "\<lambda>i. \<Sum>j\<in>{..<k} - {m}. A i j * ?z j"
    have r: "?r i = A i m * x m + ?rest i" for i
      using m by (simp add: sum_split_at[of m])
    have rest': "(\<Sum>j\<in>{..<k} - {m}. f j * (if j < Suc m then y j else x j)) = (\<Sum>j\<in>{..<k} - {m}. f j * ?z j)"
      for f by (rule sum.cong) auto
    have r'm: "?r' m = inverse (A m m) * (y m + ?rest m)"
    proof -
      have "?r' m = inverse (A m m) * y m + (\<Sum>j\<in>{..<k} - {m}. exchange m A m j * ?z j)"
        using m by (simp add: sum_split_at[of m] exchange_def rest')
      also have "(\<Sum>j\<in>{..<k} - {m}. exchange m A m j * ?z j) = inverse (A m m) * ?rest m"
        unfolding sum_distrib_left by (rule sum.cong) (auto simp: exchange_def)
      finally show ?thesis by (simp add: distrib_left)
    qed
    have r': "?r' i = ?rest i + A i m * ?r' m" if "i \<noteq> m" for i
    proof -
      have "?r' i = (\<Sum>j<k. (if j = m then 0 else A i j * ?z j) + A i m * (exchange m A m j * (if j < Suc m then y j else x j)))"
        using that by (intro sum.cong) (auto simp: exchange_def algebra_simps)
      also have "\<dots> = (\<Sum>j<k. if j = m then 0 else A i j * ?z j) + A i m * ?r' m"
        by (simp add: sum.distrib sum_distrib_left)
      also have "(\<Sum>j<k. if j = m then 0 else A i j * ?z j) = ?rest i"
        using m by (subst sum_split_at[of m]) (auto intro: sum.cong)
      finally show ?thesis .
    qed
    have pivot: "?l m = ?r m \<longleftrightarrow> ?l' m = ?r' m"
    proof -
      have "y m = A m m * x m + ?rest m \<longleftrightarrow> A m m * x m = y m + ?rest m"
        by (rule gf_move)
      also have "\<dots> \<longleftrightarrow> x m = inverse (A m m) * (y m + ?rest m)"
        using piv by (rule mult_eq_iff_inverse)
      finally show ?thesis by (simp add: r r'm)
    qed
    have others: "?l' i = ?r' i \<longleftrightarrow> ?l i = ?r i" if i: "i \<noteq> m" and lm: "?l' m = ?r' m" for i
    proof -
      have "?r' i = ?r i" using lm by (simp only: r'[OF i] r) (simp add: add.commute)
      moreover have "?l' i = ?l i" using i by simp
      ultimately show ?thesis by simp
    qed
    show ?thesis by (rule all_iff_pivot[where L = "\<lambda>i. ?l i = ?r i" and L' = "\<lambda>i. ?l' i = ?r' i", OF m pivot others])
  qed
  then show ?thesis using ex by (simp add: exchanged_def)
qed

section \<open>The loop body performs an exchange\<close>

lemma length_scale_pivot_row [simp]: "length (scale_pivot_row c row) = length row"
  by (simp add: scale_pivot_row_def)

lemma GF_scale_pivot_row:
  assumes "j < length row" and "icol < length row"
  shows "GF (scale_pivot_row icol row ! j) =
    (if j = icol then inverse (GF (row ! icol)) else inverse (GF (row ! icol)) * GF (row ! j))"
  using assms by (auto simp: scale_pivot_row_def gf_transfer)

lemma eliminate_row_entry:
  assumes "length m = k * k" and "length pr = k" and "a < k" and "icol < k"
  shows "length (eliminate_row cpu k icol pr a m) = k * k"
    and "i < k \<Longrightarrow> j < k \<Longrightarrow> entry (eliminate_row cpu k icol pr a m) k i j =
      (if i = a \<and> a \<noteq> icol
       then (if j = icol then 0 else entry m k a j) + entry m k a icol * GF (pr ! j)
       else entry m k i j)"
proof -
  let ?m = "m[a * k + icol := 0]"
  have row: "a * k + k \<le> k * k" using assms(3) by (rule row_end_le)
  have pos: "a * k + icol < k * k" using assms(3,4) by (rule flat_index_less)
  have len: "length (sub_slice ?m (a * k) (a * k + k)) = k"
    using row assms(1) by (simp add: length_sub_slice)
  show "length (eliminate_row cpu k icol pr a m) = k * k"
    using assms row len by (simp add: eliminate_row_def length_put_slice)
  assume i: "i < k" and j: "j < k"
  have ij: "i * k + j < k * k" using i j by (rule flat_index_less)
  show "entry (eliminate_row cpu k icol pr a m) k i j =
      (if i = a \<and> a \<noteq> icol then (if j = icol then 0 else entry m k a j) + entry m k a icol * GF (pr ! j)
       else entry m k i j)"
  proof (cases "i = a")
    case True
    then show ?thesis
      using assms row len j ij pos flat_index_eq[of icol k j a a]
      by (auto simp: eliminate_row_def entry_def nth_put_slice GF_nth_addmul nth_sub_slice nth_list_update)
  next
    case False
    have "\<not> (a * k \<le> i * k + j \<and> i * k + j < a * k + k)"
      using in_row_iff[OF j, of a i] False by simp
    then have "put_slice ?m (a * k) (addmul cpu (sub_slice ?m (a * k) (a * k + k)) pr c) ! (i * k + j) = ?m ! (i * k + j)" for c
      using assms(1,2) row len ij by (subst nth_put_slice) auto
    moreover have "?m ! (i * k + j) = m ! (i * k + j)"
      using False flat_index_eq[of icol k j a i] assms(4) j by auto
    ultimately show ?thesis using False by (simp add: eliminate_row_def entry_def)
  qed
qed

lemma eliminate_all:
  fixes cpu :: backend
  assumes "length m = k * k" and "length pr = k" and "icol < k"
  defines "m' \<equiv> fold (eliminate_row cpu k icol pr) [0..<k] m"
  shows "length m' = k * k" and "i < k \<Longrightarrow> j < k \<Longrightarrow> entry m' k i j =
      (if i = icol then entry m k i j
       else (if j = icol then 0 else entry m k i j) + entry m k i icol * GF (pr ! j))"
proof -
  have "length m' = k * k \<and> (\<forall>i<k. \<forall>j<k. entry m' k i j = (if i < k \<and> i \<noteq> icol
      then (if j = icol then 0 else entry m k i j) + entry m k i icol * GF (pr ! j) else entry m k i j))"
    unfolding m'_def using assms(1-3)
    by (intro fold_upt_invariant[where P = "\<lambda>q m'. length m' = k * k \<and> (\<forall>i<k. \<forall>j<k. entry m' k i j =
      (if i < q \<and> i \<noteq> icol then (if j = icol then 0 else entry m k i j) + entry m k i icol * GF (pr ! j)
       else entry m k i j))"])
      (auto simp: eliminate_row_entry less_Suc_eq)
  then show "length m' = k * k" and "i < k \<Longrightarrow> j < k \<Longrightarrow> entry m' k i j =
      (if i = icol then entry m k i j
       else (if j = icol then 0 else entry m k i j) + entry m k i icol * GF (pr ! j))" by auto
qed

text \<open>What holds between two iterations while every pivot was found on the diagonal.\<close>

definition diagonal_state :: "nat \<Rightarrow> nat \<Rightarrow> inversion \<Rightarrow> bool" where
  "diagonal_state k m s \<longleftrightarrow> length (matrix s) = k * k \<and> length (ipiv s) = k \<and>
    (\<forall>i<k. ipiv s ! i \<longleftrightarrow> i < m) \<and> length (indxc s) = k \<and> length (indxr s) = k \<and>
    (\<forall>i<m. indxr s ! i = indxc s ! i) \<and> id_row s = replicate k 0"

lemma invert_step_diagonal:
  assumes st: "diagonal_state k m s" and m: "m < k" and piv: "entry (matrix s) k m m \<noteq> 0"
  shows "\<exists>s'. invert_step cpu k m s = Inr s' \<and> diagonal_state k (Suc m) s' \<and>
    (\<forall>i<k. \<forall>j<k. entry (matrix s') k i j = exchange m (entry (matrix s) k) i j)"
proof -
  let ?M = "matrix s"
  define row where "row = sub_slice ?M (m * k) (m * k + k)"
  define pr where "pr = scale_pivot_row m row"
  define M1 where "M1 = put_slice ?M (m * k) pr"
  define M2 where "M2 = (if pr \<noteq> (id_row s)[m := 1] then fold (eliminate_row cpu k m pr) [0..<k] M1 else M1)"
  have len: "length ?M = k * k" using st by (simp add: diagonal_state_def)
  have rend: "m * k + k \<le> k * k" using m by (rule row_end_le)
  have row: "length row = k" "\<And>j. j < k \<Longrightarrow> row ! j = ?M ! (m * k + j)"
    using rend len by (simp_all add: row_def length_sub_slice nth_sub_slice)
  have pr: "length pr = k" "\<And>j. j < k \<Longrightarrow> GF (pr ! j) = exchange m (entry ?M k) m j"
    using m row by (auto simp: pr_def GF_scale_pivot_row exchange_def entry_def)
  have M1len: "length M1 = k * k" using rend len pr by (simp add: M1_def length_put_slice)
  have M1: "entry M1 k i j = (if i = m then GF (pr ! j) else entry ?M k i j)" if "i < k" "j < k" for i j
    using that rend len pr(1) in_row_iff[of j k m i] flat_index_less[of i k j k]
    by (auto simp: M1_def entry_def nth_put_slice)
  have M2: "length M2 = k * k \<and> (\<forall>i<k. \<forall>j<k. entry M2 k i j = exchange m (entry ?M k) i j)"
  proof (cases "pr = (id_row s)[m := 1]")
    case True
    then have "GF (pr ! j) = (if j = m then 1 else 0)" if "j < k" for j
      using that st by (simp add: diagonal_state_def nth_list_update)
    then have unit: "exchange m (entry ?M k) m j = (if j = m then 1 else 0)" if "j < k" for j
      using that pr(2)[of j] by simp
    have "exchange m (entry ?M k) i j = (if i = m then GF (pr ! j) else entry ?M k i j)" if "i < k" "j < k" for i j
      using that m by (cases "i = m") (auto simp: exchange_other unit pr(2))
    then show ?thesis using True M1 M1len by (simp add: M2_def)
  next
    case False
    then show ?thesis
      using eliminate_all[OF M1len pr(1) m, where cpu = cpu] M1 m pr(2)
      by (auto simp: M2_def exchange_other)
  qed
  have "invert_step cpu k m s = Inr \<lparr>matrix = M2, ipiv = (ipiv s)[m := True], indxc = (indxc s)[m := m],
      indxr = (indxr s)[m := m], id_row = (id_row s)[m := 1, m := 0]\<rparr>"
    using st m piv row
    by (simp add: invert_step_def search_pivot_def diagonal_state_def entry_def M2_def M1_def pr_def row_def)
  moreover have "(replicate k (0 :: u8))[m := 1, m := 0] = replicate k 0"
    by (simp add: list_update_same_conv m)
  ultimately show ?thesis
    using st m M2 by (auto simp: diagonal_state_def nth_list_update less_Suc_eq)
qed

section \<open>Inversion of matrices with regular leading blocks\<close>

definition leading_regular :: "nat \<Rightarrow> (nat \<Rightarrow> nat \<Rightarrow> gf) \<Rightarrow> bool" where
  "leading_regular k M \<longleftrightarrow> (\<forall>m<k. \<forall>x. x m = 1 \<longrightarrow> (\<forall>j. m < j \<longrightarrow> j < k \<longrightarrow> x j = 0) \<longrightarrow>
     (\<exists>i\<le>m. (\<Sum>j<k. M i j * x j) \<noteq> 0))"

lemma exchanged_cong:
  assumes "\<And>i j. i < k \<Longrightarrow> j < k \<Longrightarrow> A i j = B i j"
  shows "exchanged k M m A \<longleftrightarrow> exchanged k M m B"
proof -
  have "(\<Sum>j<k. A i j * z j) = (\<Sum>j<k. B i j * z j)" if "i < k" for i and z :: "nat \<Rightarrow> gf"
    using assms that by (intro sum.cong) auto
  then show ?thesis by (simp add: exchanged_def)
qed

lemma exchanged_pivot:
  assumes reg: "leading_regular k M" and ex: "exchanged k M m A" and m: "m < k"
  shows "A m m \<noteq> 0"
proof
  assume zero: "A m m = 0"
  define x where "x j = (if j < m then A j m else if j = m then 1 else 0)" for j
  define y where "y i = (if i < m then 0 else A i m)" for i
  have "(\<Sum>j<k. A i j * (if j < m then y j else x j)) = A i m" for i
  proof -
    have "(\<Sum>j<k. A i j * (if j < m then y j else x j)) = (\<Sum>j<k. if j = m then A i m else 0)"
      by (rule sum.cong) (auto simp: x_def y_def)
    then show ?thesis using m by simp
  qed
  then have "\<forall>i<k. (if i < m then x i else y i) = (\<Sum>j<k. A i j * (if j < m then y j else x j))"
    by (simp add: x_def y_def)
  then have "\<forall>i<k. y i = (\<Sum>j<k. M i j * x j)"
    using ex by (simp add: exchanged_def)
  moreover have "y i = 0" if "i \<le> m" for i using that zero by (auto simp: y_def le_less)
  ultimately have "\<forall>i\<le>m. (\<Sum>j<k. M i j * x j) = 0" using m by force
  moreover have "x m = 1" "\<forall>j. m < j \<longrightarrow> j < k \<longrightarrow> x j = 0" by (simp_all add: x_def)
  ultimately show False
    using reg[unfolded leading_regular_def, rule_format, of m x] m by auto
qed

lemma invert_matrix_correct:
  assumes len: "length m = k * k" and reg: "leading_regular k (entry m k)"
  obtains A where "invert_matrix cpu m k = Inr A" and "length A = k * k"
    and "\<And>x i. i < k \<Longrightarrow> (\<Sum>j<k. entry A k i j * (\<Sum>l<k. entry m k j l * x l)) = x i"
proof -
  let ?M = "entry m k"
  let ?s = "\<lparr>matrix = m, ipiv = replicate k False, indxc = replicate k 0, indxr = replicate k 0, id_row = replicate k 0\<rparr>"
  have "\<exists>s'. fold_result (invert_step cpu k) [0..<k] ?s = Inr s' \<and>
      (diagonal_state k k s' \<and> exchanged k ?M k (entry (matrix s') k))"
  proof (rule fold_result_upt_invariant[where P = "\<lambda>i s. diagonal_state k i s \<and> exchanged k ?M i (entry (matrix s) k)"])
    show "diagonal_state k 0 ?s \<and> exchanged k ?M 0 (entry (matrix ?s) k)"
      using len by (simp add: diagonal_state_def exchanged_0)
    fix i s assume i: "i < k" and inv: "diagonal_state k i s \<and> exchanged k ?M i (entry (matrix s) k)"
    have "entry (matrix s) k i i \<noteq> 0" using exchanged_pivot[OF reg] inv i by blast
    then obtain s' where s': "invert_step cpu k i s = Inr s'" "diagonal_state k (Suc i) s'"
      "\<forall>a<k. \<forall>b<k. entry (matrix s') k a b = exchange i (entry (matrix s) k) a b"
      using invert_step_diagonal inv i by blast
    have "exchanged k ?M (Suc i) (exchange i (entry (matrix s) k))"
      using exchanged_Suc inv i \<open>entry (matrix s) k i i \<noteq> 0\<close> by blast
    then have "exchanged k ?M (Suc i) (entry (matrix s') k)"
      using exchanged_cong[of k "entry (matrix s') k"] s'(3) by blast
    with s' show "\<exists>s'. invert_step cpu k i s = Inr s' \<and> diagonal_state k (Suc i) s' \<and>
        exchanged k ?M (Suc i) (entry (matrix s') k)" by blast
  qed
  then obtain s' where s': "fold_result (invert_step cpu k) [0..<k] ?s = Inr s'"
    and d: "diagonal_state k k s'" and ex: "exchanged k ?M k (entry (matrix s') k)" by blast
  have "fold (\<lambda>i m. if indxr s' ! i \<noteq> indxc s' ! i then swap_columns k (indxr s' ! i) (indxc s' ! i) m else m)
      [0..<k] (matrix s') = matrix s'"
    using d by (intro fold_upt_invariant[where P = "\<lambda>_ m. m = matrix s'"]) (auto simp: diagonal_state_def)
  then have "invert_matrix cpu m k = Inr (matrix s')"
    by (simp add: invert_matrix_def s')
  moreover have "(\<Sum>j<k. entry (matrix s') k i j * (\<Sum>l<k. ?M j l * x l)) = x i" if "i < k" for x i
  proof -
    have "\<forall>i<k. x i = (\<Sum>j<k. entry (matrix s') k i j * (if j < k then \<Sum>l<k. ?M j l * x l else x j))"
      using ex[unfolded exchanged_def, rule_format, of "\<lambda>j. \<Sum>l<k. ?M j l * x l" x] by simp
    then show ?thesis using that by (simp cong: sum.cong_simp)
  qed
  moreover have "length (matrix s') = k * k" using d by (simp add: diagonal_state_def)
  ultimately show ?thesis using that by blast
qed

section \<open>What inversion does to a regular matrix\<close>

text \<open>
  \<open>invert_matrix\<close> inverts every matrix whose leading principal blocks are regular (the matrices of
  decode plans are): it succeeds, and its result applied to \<open>M x\<close> gives \<open>x\<close>, for every \<open>x\<close>.
\<close>

theorem invert_matrix_inverts:
  assumes "length m = k * k" and "leading_regular k (entry m k)"
  shows "\<exists>A. invert_matrix cpu m k = Inr A \<and> length A = k * k \<and>
    (\<forall>x. \<forall>i<k. (\<Sum>j<k. entry A k i j * (\<Sum>l<k. entry m k j l * x l)) = x i)"
proof -
  obtain A where "invert_matrix cpu m k = Inr A" "length A = k * k"
    "\<And>x i. i < k \<Longrightarrow> (\<Sum>j<k. entry A k i j * (\<Sum>l<k. entry m k j l * x l)) = x i"
    using invert_matrix_correct[OF assms] by blast
  then show ?thesis by blast
qed

theorem invert_matrix_inverts_witness:
  "\<exists>A. invert_matrix Portable [7] 1 = Inr A \<and> (\<forall>x :: nat \<Rightarrow> gf. entry A 1 0 0 * (entry [7] 1 0 0 * x 0) = x 0)"
proof -
  have "entry [7] 1 0 0 \<noteq> 0" by (simp add: entry_def)
  then have "leading_regular 1 (entry [7] 1)" by (simp add: leading_regular_def)
  then obtain A where "invert_matrix Portable [7] 1 = Inr A"
    "\<forall>x. \<forall>i<1. (\<Sum>j<1. entry A 1 i j * (\<Sum>l<1. entry [7] 1 j l * x l)) = x i"
    using invert_matrix_inverts[of "[7]" 1 Portable] by auto
  then show ?thesis by (intro exI[of _ A]) (simp add: lessThan_Suc)
qed

text \<open>
  Beyond those matrices the off-diagonal search is not an inversion: for the invertible matrix
  with rows \<open>(0, 2)\<close> and \<open>(3, 0)\<close> the function reports success and returns the rows \<open>(0, 3)\<close> and
  \<open>(2, 0)\<close>, while the inverse has the rows \<open>(0, 1/3)\<close> and \<open>(1/2, 0)\<close>.  The flag that the search sets is
  the one of the column found, while the row it pivots on is the other, so the same row is pivoted
  twice.
\<close>

theorem invert_matrix_off_diagonal:
  "invert_matrix Portable [0, 2, 3, 0] 2 = Inr [0, 3, 2, 0] \<and>
   entry [0, 3, 2, 0] 2 0 1 * entry [0, 2, 3, 0] 2 1 0 \<noteq> 1 \<and>
   entry [0, 2, 3, 0] 2 1 0 \<noteq> 0 \<and> entry [0, 2, 3, 0] 2 0 1 \<noteq> 0"
proof -
  have "invert_matrix Portable [0, 2, 3, 0] 2 = Inr [0, 3, 2, 0]" by code_simp
  moreover have "gf_mul 3 3 = 5" by code_simp
  ultimately show ?thesis
    by (intro conjI) (simp_all add: entry_def GF_mul[symmetric])
qed

end
