(* ===== verification/Reed_Solomon.thy ===== *)
theory Reed_Solomon
  imports Vandermonde Gauss_Jordan
begin

text \<open>
  The erasure codec of \<open>crates/storj-ec\<close>: \<open>ReedSolomon\<close> and \<open>DecodePlan\<close> of \<open>fec.rs\<close>, the error type
  of \<open>error.rs\<close> and the two entry points of \<open>lib.rs\<close>.  The main result is that a stripe can be
  rebuilt from any \<open>k\<close> of its \<open>n\<close> shares, in any order, whatever back ends encoded and decode it.
  Sizes are natural numbers: every size is the length of a buffer that exists.
\<close>

section \<open>The code\<close>

datatype Error =
    InvalidParams nat nat nat        \<comment> \<open>k, n, share size\<close>
  | StripeSize nat nat               \<comment> \<open>got, want\<close>
  | ShareSize nat nat nat            \<comment> \<open>index, got, want\<close>
  | TooFewShares nat nat             \<comment> \<open>have, need\<close>
  | InvalidShareIndex nat nat        \<comment> \<open>index, n\<close>
  | DuplicateShare nat
  | ShareCount nat nat               \<comment> \<open>got, n\<close>
  | Reconstruct string

record ReedSolomon =
  rs_k :: nat
  rs_n :: nat
  share_size :: nat
  enc_matrix :: bytes

definition new_rs :: "nat \<Rightarrow> nat \<Rightarrow> nat \<Rightarrow> Error + ReedSolomon" where
  "new_rs k n ss =
    (if k = 0 \<or> ss = 0 \<or> n < k \<or> n > 256 then Inl (InvalidParams k n ss)
     else Inr \<lparr>rs_k = k, rs_n = n, share_size = ss, enc_matrix = build_enc_matrix k n\<rparr>)"

definition stripe_size :: "ReedSolomon \<Rightarrow> nat" where
  "stripe_size rs = rs_k rs * share_size rs"

definition check_stripe :: "ReedSolomon \<Rightarrow> bytes \<Rightarrow> Error + unit" where
  "check_stripe rs stripe =
    (let want = stripe_size rs in if length stripe \<noteq> want then Inl (StripeSize (length stripe) want) else Inr ())"

definition encode_share_unchecked :: "backend \<Rightarrow> ReedSolomon \<Rightarrow> bytes \<Rightarrow> nat \<Rightarrow> bytes \<Rightarrow> bytes" where
  "encode_share_unchecked cpu rs stripe index out =
    (let ss = share_size rs
     in if index < rs_k rs then sub_slice stripe (index * ss) ((index + 1) * ss)
        else fold (\<lambda>j out. addmul cpu out (sub_slice stripe (j * ss) ((j + 1) * ss))
                              (enc_matrix rs ! (index * rs_k rs + j)))
               [0..<rs_k rs] (replicate (length out) 0))"

text \<open>The loop over the caller's buffers; it returns the buffers as the loop left them.\<close>

fun encode_each :: "backend \<Rightarrow> ReedSolomon \<Rightarrow> bytes \<Rightarrow> nat \<Rightarrow> bytes list \<Rightarrow> bytes list \<times> (Error + unit)" where
  "encode_each cpu rs stripe i [] = ([], Inr ())"
| "encode_each cpu rs stripe i (out # rest) =
    (if length out \<noteq> share_size rs then (out # rest, Inl (ShareSize i (length out) (share_size rs)))
     else let out' = encode_share_unchecked cpu rs stripe i out;
              (rest', r) = encode_each cpu rs stripe (i + 1) rest
          in (out' # rest', r))"

definition encode_stripe_into ::
  "backend \<Rightarrow> ReedSolomon \<Rightarrow> bytes \<Rightarrow> bytes list \<Rightarrow> bytes list \<times> (Error + unit)" where
  "encode_stripe_into cpu rs stripe shares =
    (case check_stripe rs stripe of
       Inl e \<Rightarrow> (shares, Inl e)
     | Inr _ \<Rightarrow>
       (if length shares \<noteq> rs_n rs then (shares, Inl (ShareCount (length shares) (rs_n rs)))
        else encode_each cpu rs stripe 0 shares))"

definition encode_stripe_rs :: "backend \<Rightarrow> ReedSolomon \<Rightarrow> bytes \<Rightarrow> Error + bytes list" where
  "encode_stripe_rs cpu rs stripe =
    (let shares = replicate (rs_n rs) (replicate (share_size rs) 0);
         (shares, r) = encode_stripe_into cpu rs stripe shares
     in try_bind r (\<lambda>_. Inr shares))"

definition encode_share :: "backend \<Rightarrow> ReedSolomon \<Rightarrow> bytes \<Rightarrow> nat \<Rightarrow> bytes \<Rightarrow> Error + bytes" where
  "encode_share cpu rs stripe index out =
    try_bind (check_stripe rs stripe) (\<lambda>_.
      if index \<ge> rs_n rs then Inl (InvalidShareIndex index (rs_n rs))
      else if length out \<noteq> share_size rs then Inl (ShareSize index (length out) (share_size rs))
      else Inr (encode_share_unchecked cpu rs stripe index out))"

record DecodePlan =
  plan_k :: nat
  plan_share_size :: nat
  plan_indexes :: "nat list"
  m_dec :: bytes

text \<open>One slot of \<open>plan_from_sorted\<close>: a data share in place, or the highest share left.\<close>

definition plan_slot :: "ReedSolomon \<Rightarrow> nat list \<Rightarrow> nat \<Rightarrow>
    bytes \<times> nat list \<times> nat \<times> nat \<Rightarrow> bytes \<times> nat list \<times> nat \<times> nat" where
  "plan_slot rs ids i = (\<lambda>(m, indexes, b, e).
    (let k = rs_k rs;
         (share_id, b, e) = (if b < e \<and> ids ! b = i then (ids ! b, b + 1, e) else (ids ! (e - 1), b, e - 1));
         m = (if share_id < k then m[i * (k + 1) := 1]
              else put_slice m (i * k) (sub_slice (enc_matrix rs) (share_id * k) (share_id * k + k)));
         indexes = indexes[i := share_id]
     in (m, indexes, b, e)))"

definition plan_from_sorted :: "backend \<Rightarrow> ReedSolomon \<Rightarrow> nat list \<Rightarrow> Error + DecodePlan" where
  "plan_from_sorted cpu rs ids =
    (let k = rs_k rs;
         (m, indexes, _, _) = fold (plan_slot rs ids) [0..<k] (replicate (k * k) 0, replicate k 0, 0, length ids)
     in try_bind (map_err Reconstruct (invert_matrix cpu m k)) (\<lambda>inv.
          Inr \<lparr>plan_k = k, plan_share_size = share_size rs, plan_indexes = indexes, m_dec = inv\<rparr>))"

text \<open>\<open>for w in ids.windows(2) { if w[0] == w[1] { return Err(..) } }\<close>\<close>

fun first_adjacent_dup :: "nat list \<Rightarrow> nat option" where
  "first_adjacent_dup (a # b # xs) = (if a = b then Some a else first_adjacent_dup (b # xs))"
| "first_adjacent_dup _ = None"

definition decode_plan :: "backend \<Rightarrow> ReedSolomon \<Rightarrow> nat list \<Rightarrow> Error + DecodePlan" where
  "decode_plan cpu rs available =
    (if length available < rs_k rs then Inl (TooFewShares (length available) (rs_k rs))
     else case find (\<lambda>i. i \<ge> rs_n rs) available of
       Some i \<Rightarrow> Inl (InvalidShareIndex i (rs_n rs))
     | None \<Rightarrow>
       (let ids = sort available
        in case first_adjacent_dup ids of
             Some i \<Rightarrow> Inl (DuplicateShare i)
           | None \<Rightarrow> plan_from_sorted cpu rs ids))"

definition decode_slot :: "backend \<Rightarrow> DecodePlan \<Rightarrow> bytes list \<Rightarrow> nat \<Rightarrow> bytes \<Rightarrow> bytes" where
  "decode_slot cpu plan shares i out =
    (let k = plan_k plan; ss = plan_share_size plan
     in if plan_indexes plan ! i < k
        then put_slice out (plan_indexes plan ! i * ss) (shares ! i)
        else put_slice out (i * ss)
               (fold (\<lambda>col dest. addmul cpu dest (shares ! col) (m_dec plan ! (i * k + col)))
                  [0..<length shares] (replicate ss 0)))"

definition decode_into :: "backend \<Rightarrow> DecodePlan \<Rightarrow> bytes list \<Rightarrow> bytes \<Rightarrow> Error + bytes" where
  "decode_into cpu plan shares out =
    (let k = plan_k plan; ss = plan_share_size plan
     in if length shares \<noteq> k then Inl (TooFewShares (length shares) k)
        else case find (\<lambda>i. length (shares ! i) \<noteq> ss) [0..<length shares] of
          Some i \<Rightarrow> Inl (ShareSize (plan_indexes plan ! i) (length (shares ! i)) ss)
        | None \<Rightarrow>
          (if length out \<noteq> k * ss then Inl (StripeSize (length out) (k * ss))
           else Inr (fold (decode_slot cpu plan shares) [0..<k] out)))"

definition rebuild :: "backend \<Rightarrow> ReedSolomon \<Rightarrow> (nat \<times> bytes) list \<Rightarrow> Error + bytes" where
  "rebuild cpu rs shares =
    try_bind (plan_from_sorted cpu rs (map fst shares)) (\<lambda>plan.
      let sharesv = map (\<lambda>id. case find (\<lambda>(i, _). i = id) shares of Some (_, d) \<Rightarrow> d | None \<Rightarrow> [])
                      (plan_indexes plan)
      in decode_into cpu plan sharesv (replicate (stripe_size rs) 0))"

fun check_indexed :: "ReedSolomon \<Rightarrow> (nat \<times> bytes) list \<Rightarrow> Error + unit" where
  "check_indexed rs [] = Inr ()"
| "check_indexed rs ((index, data) # rest) =
    (if index \<ge> rs_n rs then Inl (InvalidShareIndex index (rs_n rs))
     else if length data \<noteq> share_size rs then Inl (ShareSize index (length data) (share_size rs))
     else check_indexed rs rest)"

text \<open>
  \<open>sort_unstable_by_key\<close> leaves the order of equal keys open; two equal keys end in
  \<open>DuplicateShare\<close> whatever that order is, so the stable sort models it.
\<close>

definition decode_from :: "backend \<Rightarrow> ReedSolomon \<Rightarrow> (nat \<times> bytes) list \<Rightarrow> Error + bytes" where
  "decode_from cpu rs shares =
    (if length shares < rs_k rs then Inl (TooFewShares (length shares) (rs_k rs))
     else try_bind (check_indexed rs shares) (\<lambda>_.
       let ordered = sort_key fst shares
       in case first_adjacent_dup (map fst ordered) of
            Some i \<Rightarrow> Inl (DuplicateShare i)
          | None \<Rightarrow> rebuild cpu rs ordered))"

fun present_shares :: "ReedSolomon \<Rightarrow> nat \<Rightarrow> bytes option list \<Rightarrow> Error + (nat \<times> bytes) list" where
  "present_shares rs i [] = Inr []"
| "present_shares rs i (None # rest) = present_shares rs (i + 1) rest"
| "present_shares rs i (Some data # rest) =
    (if length data \<noteq> share_size rs then Inl (ShareSize i (length data) (share_size rs))
     else try_bind (present_shares rs (i + 1) rest) (\<lambda>ps. Inr ((i, data) # ps)))"

definition decode_stripe_rs :: "backend \<Rightarrow> ReedSolomon \<Rightarrow> bytes option list \<Rightarrow> Error + bytes" where
  "decode_stripe_rs cpu rs shares =
    (if length shares \<noteq> rs_n rs then Inl (ShareCount (length shares) (rs_n rs))
     else try_bind (present_shares rs 0 shares) (decode_from cpu rs))"

text \<open>The free functions of \<open>lib.rs\<close>.\<close>

definition encode_stripe :: "backend \<Rightarrow> nat \<Rightarrow> nat \<Rightarrow> nat \<Rightarrow> bytes \<Rightarrow> Error + bytes list" where
  "encode_stripe cpu k n ss stripe = try_bind (new_rs k n ss) (\<lambda>rs. encode_stripe_rs cpu rs stripe)"

definition decode_stripe :: "backend \<Rightarrow> nat \<Rightarrow> nat \<Rightarrow> nat \<Rightarrow> bytes option list \<Rightarrow> Error + bytes" where
  "decode_stripe cpu k n ss shares = try_bind (new_rs k n ss) (\<lambda>rs. decode_stripe_rs cpu rs shares)"

section \<open>Encoding computes the code word\<close>

text \<open>A codec that \<open>new\<close> has built.\<close>

definition valid_rs :: "ReedSolomon \<Rightarrow> bool" where
  "valid_rs rs \<longleftrightarrow> 1 \<le> rs_k rs \<and> rs_k rs \<le> rs_n rs \<and> rs_n rs \<le> 256 \<and> 0 < share_size rs \<and>
     enc_matrix rs = build_enc_matrix (rs_k rs) (rs_n rs)"

lemma new_rs_valid: "new_rs k n ss = Inr rs \<Longrightarrow>
    valid_rs rs \<and> rs_k rs = k \<and> rs_n rs = n \<and> share_size rs = ss"
  by (auto simp: new_rs_def valid_rs_def split: if_splits)

lemma enc_matrix_row:
  "valid_rs rs \<Longrightarrow> r < rs_n rs \<Longrightarrow> j < rs_k rs \<Longrightarrow>
    GF (enc_matrix rs ! (r * rs_k rs + j)) = code.row (rs_k rs) r j"
  by (auto simp: valid_rs_def build_enc_matrix_rows)

text \<open>Column \<open>t\<close> of a stripe: byte \<open>t\<close> of each of its \<open>k\<close> data shares.\<close>

definition column :: "ReedSolomon \<Rightarrow> bytes \<Rightarrow> nat \<Rightarrow> nat \<Rightarrow> gf" where
  "column rs stripe t j = GF (stripe ! (j * share_size rs + t))"

lemma GF_fold_addmul:
  assumes "\<And>j. j < k \<Longrightarrow> length (src j) = ss" and "t < ss"
  shows "length (fold (\<lambda>j out. addmul cpu out (src j) (f j)) [0..<k] (replicate ss 0)) = ss \<and>
    GF (fold (\<lambda>j out. addmul cpu out (src j) (f j)) [0..<k] (replicate ss 0) ! t) = (\<Sum>j<k. GF (f j) * GF (src j ! t))"
  using assms
proof (induction k)
  case (Suc k)
  then show ?case by (simp add: GF_nth_addmul)
qed simp

lemma stripe_slice:
  assumes "length stripe = k * ss" and "j < k"
  shows "length (sub_slice stripe (j * ss) (ss + j * ss)) = ss"
    and "t < ss \<Longrightarrow> sub_slice stripe (j * ss) (ss + j * ss) ! t = stripe ! (j * ss + t)"
  using assms row_end_le[of j k ss] by (simp_all add: length_sub_slice nth_sub_slice add.commute)

lemma encode_share_symbol:
  assumes v: "valid_rs rs" and len: "length stripe = stripe_size rs" "length out = share_size rs"
    and r: "r < rs_n rs" and t: "t < share_size rs"
  shows "GF (encode_share_unchecked cpu rs stripe r out ! t) = code.symbol (rs_k rs) (column rs stripe t) r"
proof (cases "r < rs_k rs")
  case True
  then show ?thesis
    using v len t by (auto simp: encode_share_unchecked_def stripe_slice stripe_size_def column_def
      code.symbol_systematic valid_rs_def)
next
  case False
  have "GF (encode_share_unchecked cpu rs stripe r out ! t) =
      (\<Sum>j<rs_k rs. code.row (rs_k rs) r j * column rs stripe t j)"
    using False v len r t
    by (simp add: encode_share_unchecked_def GF_fold_addmul stripe_slice[OF len(1)[unfolded stripe_size_def]]
        enc_matrix_row column_def stripe_size_def)
  then show ?thesis by (simp add: code.symbol_def)
qed

lemma length_encode_share_unchecked:
  assumes "length stripe = stripe_size rs" "length out = share_size rs" "0 < share_size rs"
  shows "length (encode_share_unchecked cpu rs stripe r out) = share_size rs"
  using assms GF_fold_addmul[of "rs_k rs" "\<lambda>j. sub_slice stripe (j * share_size rs) ((j + 1) * share_size rs)"
      "share_size rs" 0 cpu "\<lambda>j. enc_matrix rs ! (r * rs_k rs + j)"]
  by (auto simp: encode_share_unchecked_def stripe_slice stripe_size_def)

text \<open>The code word: share \<open>r\<close> of a stripe.\<close>

definition share_of :: "backend \<Rightarrow> ReedSolomon \<Rightarrow> bytes \<Rightarrow> nat \<Rightarrow> bytes" where
  "share_of cpu rs stripe r = encode_share_unchecked cpu rs stripe r (replicate (share_size rs) 0)"

lemma length_share_of:
  "valid_rs rs \<Longrightarrow> length stripe = stripe_size rs \<Longrightarrow> length (share_of cpu rs stripe r) = share_size rs"
  by (simp add: share_of_def length_encode_share_unchecked valid_rs_def)

lemma share_of_symbol:
  "valid_rs rs \<Longrightarrow> length stripe = stripe_size rs \<Longrightarrow> r < rs_n rs \<Longrightarrow> t < share_size rs \<Longrightarrow>
    GF (share_of cpu rs stripe r ! t) = code.symbol (rs_k rs) (column rs stripe t) r"
  by (simp add: share_of_def encode_share_symbol)

lemma encode_share_unchecked_eq:
  assumes "valid_rs rs" "length stripe = stripe_size rs" "length out = share_size rs" "r < rs_n rs"
  shows "encode_share_unchecked cpu rs stripe r out = share_of cpu' rs stripe r"
proof (rule nth_equalityI)
  show len: "length (encode_share_unchecked cpu rs stripe r out) = length (share_of cpu' rs stripe r)"
    using assms by (simp add: length_encode_share_unchecked length_share_of valid_rs_def)
  fix t assume "t < length (encode_share_unchecked cpu rs stripe r out)"
  then have "GF (encode_share_unchecked cpu rs stripe r out ! t) = GF (share_of cpu' rs stripe r ! t)"
    using assms len by (simp add: encode_share_symbol share_of_symbol length_share_of)
  then show "encode_share_unchecked cpu rs stripe r out ! t = share_of cpu' rs stripe r ! t" by simp
qed

lemma encode_each_ok:
  assumes "valid_rs rs" "length stripe = stripe_size rs" "\<And>s. s \<in> set bufs \<Longrightarrow> length s = share_size rs"
    and "i + length bufs \<le> rs_n rs"
  shows "encode_each cpu rs stripe i bufs = (map (share_of cpu' rs stripe) [i..<i + length bufs], Inr ())"
  using assms(3,4)
proof (induction bufs arbitrary: i)
  case (Cons s bufs)
  have "encode_share_unchecked cpu rs stripe i s = share_of cpu' rs stripe i"
    using Cons.prems assms(1,2) by (intro encode_share_unchecked_eq) auto
  then show ?case
    using Cons by (simp add: upt_conv_Cons del: upt_Suc)
qed simp

lemma encode_stripe_rs_ok:
  assumes "valid_rs rs" and "length stripe = stripe_size rs"
  shows "encode_stripe_rs cpu rs stripe = Inr (map (share_of cpu' rs stripe) [0..<rs_n rs])"
  using assms encode_each_ok[OF assms, of "replicate (rs_n rs) (replicate (share_size rs) 0)" 0 cpu cpu']
  by (simp add: encode_stripe_rs_def encode_stripe_into_def check_stripe_def)

section \<open>The slots of a decode plan\<close>

lemma strict_sorted_gap:
  fixes ids :: "nat list"
  assumes "sorted_wrt (<) ids" and "p \<le> q" and "q < length ids"
  shows "ids ! p + (q - p) \<le> ids ! q"
  using assms(2,3)
proof (induction q)
  case (Suc q)
  then show ?case
    using sorted_wrt_nth_less[OF assms(1), of q "Suc q"] by (cases "p = Suc q") (auto simp: Suc_diff_le)
qed simp

definition slots_inv :: "ReedSolomon \<Rightarrow> nat list \<Rightarrow> nat \<Rightarrow> bytes \<times> nat list \<times> nat \<times> nat \<Rightarrow> bool" where
  "slots_inv rs ids i = (\<lambda>(m, indexes, b, e).
    length m = rs_k rs * rs_k rs \<and> length indexes = rs_k rs \<and> b \<le> e \<and> e \<le> length ids \<and>
    e + i = length ids + b \<and> (\<forall>q. b \<le> q \<longrightarrow> q < e \<longrightarrow> i \<le> ids ! q) \<and>
    (\<forall>a<i. indexes ! a = a \<or> rs_k rs \<le> indexes ! a) \<and>
    (\<forall>a<i. \<exists>q<length ids. (q < b \<or> e \<le> q) \<and> indexes ! a = ids ! q) \<and>
    distinct (take i indexes) \<and>
    (\<forall>a<rs_k rs. \<forall>j<rs_k rs. entry m (rs_k rs) a j = (if a < i then code.row (rs_k rs) (indexes ! a) j else 0)))"

lemma slots_choice:
  assumes ids: "sorted_wrt (<) ids" "rs_k rs \<le> length ids" and i: "i < rs_k rs"
    and inv: "b \<le> e" "e \<le> length ids" "e + i = length ids + b" "\<forall>q. b \<le> q \<longrightarrow> q < e \<longrightarrow> i \<le> ids ! q"
    and not: "\<not> (b < e \<and> ids ! b = i)"
  shows "b < e" and "rs_k rs \<le> ids ! (e - 1)" and "\<forall>q. b \<le> q \<longrightarrow> q < e \<longrightarrow> Suc i \<le> ids ! q"
proof -
  show be: "b < e" using ids(2) i inv(3) by linarith
  then have "Suc i \<le> ids ! b" using not inv(4) by (metis le_neq_implies_less le_refl Suc_leI)
  moreover have "ids ! b + (e - 1 - b) \<le> ids ! (e - 1)"
    using be inv(2) by (intro strict_sorted_gap[OF ids(1)]) auto
  ultimately show "rs_k rs \<le> ids ! (e - 1)" using ids(2) inv(3) be by linarith
  show "\<forall>q. b \<le> q \<longrightarrow> q < e \<longrightarrow> Suc i \<le> ids ! q"
  proof (intro allI impI)
    fix q assume "b \<le> q" "q < e"
    then show "Suc i \<le> ids ! q"
      using strict_sorted_gap[OF ids(1), of b q] \<open>Suc i \<le> ids ! b\<close> inv(2) by linarith
  qed
qed

text \<open>Writing the matrix row of one slot.\<close>

definition slot_row :: "ReedSolomon \<Rightarrow> nat \<Rightarrow> nat \<Rightarrow> bytes \<Rightarrow> bytes" where
  "slot_row rs i share_id m =
    (let k = rs_k rs
     in if share_id < k then m[i * (k + 1) := 1]
        else put_slice m (i * k) (sub_slice (enc_matrix rs) (share_id * k) (share_id * k + k)))"

lemma slot_row_entries:
  assumes v: "valid_rs rs" and len: "length m = rs_k rs * rs_k rs" and i: "i < rs_k rs"
    and id: "sid = i \<or> rs_k rs \<le> sid" "sid < rs_n rs"
    and zero: "\<And>j. j < rs_k rs \<Longrightarrow> entry m (rs_k rs) i j = 0"
  shows "length (slot_row rs i sid m) = rs_k rs * rs_k rs"
    and "a < rs_k rs \<Longrightarrow> j < rs_k rs \<Longrightarrow> entry (slot_row rs i sid m) (rs_k rs) a j =
      (if a = i then code.row (rs_k rs) sid j else entry m (rs_k rs) a j)"
proof -
  let ?k = "rs_k rs" and ?row = "sub_slice (enc_matrix rs) (sid * rs_k rs) (sid * rs_k rs + rs_k rs)"
  have elen: "length (enc_matrix rs) = rs_n rs * ?k"
    using v build_enc_matrix_rows(1) by (auto simp: valid_rs_def)
  have rend: "sid * ?k + ?k \<le> rs_n rs * ?k" using id(2) by (rule row_end_le)
  have row: "length ?row = ?k" "\<And>j. j < ?k \<Longrightarrow> ?row ! j = enc_matrix rs ! (sid * ?k + j)"
    using rend elen by (simp_all add: length_sub_slice nth_sub_slice)
  have mend: "i * ?k + ?k \<le> ?k * ?k" using i by (rule row_end_le)
  show "length (slot_row rs i sid m) = ?k * ?k"
    using len row mend by (simp add: slot_row_def length_put_slice)
  assume a: "a < ?k" and j: "j < ?k"
  have aj: "a * ?k + j < ?k * ?k" using a j by (rule flat_index_less)
  show "entry (slot_row rs i sid m) ?k a j = (if a = i then code.row ?k sid j else entry m ?k a j)"
  proof (cases "sid < ?k")
    case True
    then have "sid = i" using id(1) by simp
    moreover have "i * (?k + 1) = i * ?k + i" by simp
    ultimately show ?thesis
      using True v zero[of j] a j i aj len flat_index_eq[of i ?k j i a] flat_index_less[OF i i]
      by (auto simp: slot_row_def entry_def nth_list_update code.row_systematic valid_rs_def)
  next
    case False
    then show ?thesis
      using v id a j aj len mend row in_row_iff[OF j, of i a] enc_matrix_row[OF v id(2) j]
      by (auto simp: slot_row_def entry_def nth_put_slice)
  qed
qed

lemma slots_inv_step:
  assumes v: "valid_rs rs" and ids: "sorted_wrt (<) ids" "rs_k rs \<le> length ids" "\<And>x. x \<in> set ids \<Longrightarrow> x < rs_n rs"
    and inv: "slots_inv rs ids i s" and i: "i < rs_k rs"
  shows "slots_inv rs ids (Suc i) (plan_slot rs ids i s)"
proof -
  obtain m indexes b e where s: "s = (m, indexes, b, e)" by (cases s)
  have m: "length m = rs_k rs * rs_k rs" "\<And>a j. a < rs_k rs \<Longrightarrow> j < rs_k rs \<Longrightarrow>
      entry m (rs_k rs) a j = (if a < i then code.row (rs_k rs) (indexes ! a) j else 0)"
    and len: "length indexes = rs_k rs"
    and be: "b \<le> e" "e \<le> length ids" "e + i = length ids + b" "\<forall>q. b \<le> q \<longrightarrow> q < e \<longrightarrow> i \<le> ids ! q"
    and ix: "\<And>a. a < i \<Longrightarrow> indexes ! a = a \<or> rs_k rs \<le> indexes ! a"
      "\<And>a. a < i \<Longrightarrow> \<exists>q<length ids. (q < b \<or> e \<le> q) \<and> indexes ! a = ids ! q" "distinct (take i indexes)"
    using inv by (auto simp: s slots_inv_def)
  define front where "front \<longleftrightarrow> b < e \<and> ids ! b = i"
  define q where "q = (if front then b else e - 1)"
  define b' where "b' = (if front then b + 1 else b)"
  define e' where "e' = (if front then e else e - 1)"
  have step: "plan_slot rs ids i s = (slot_row rs i (ids ! q) m, indexes[i := ids ! q], b', e')"
    by (simp add: s plan_slot_def slot_row_def q_def b'_def e'_def front_def)
  note bk = slots_choice[OF ids(1,2) i be]
  have bq: "b \<le> q" "q < e" using bk(1) by (auto simp: q_def front_def)
  have id: "ids ! q = i \<or> rs_k rs \<le> ids ! q" "ids ! q < rs_n rs"
    using bk(2) ids(3) bq be(2) by (auto simp: q_def front_def)
  have be': "b' \<le> e'" "e' \<le> length ids" "e' + Suc i = length ids + b'"
    using be bk(1) by (auto simp: b'_def e'_def front_def)
  have rest: "\<forall>p. b' \<le> p \<longrightarrow> p < e' \<longrightarrow> Suc i \<le> ids ! p"
  proof (cases front)
    case True
    show ?thesis
    proof (intro allI impI)
      fix p assume "b' \<le> p" "p < e'"
      then show "Suc i \<le> ids ! p"
        using strict_sorted_gap[OF ids(1), of b p] True be(2) by (simp add: b'_def e'_def front_def)
    qed
  next
    case False
    then show ?thesis using bk(3) by (auto simp: b'_def e'_def front_def)
  qed
  have new: "ids ! q \<notin> set (take i indexes)"
  proof
    assume "ids ! q \<in> set (take i indexes)"
    then obtain a where "a < i" "indexes ! a = ids ! q" using i len by (auto simp: in_set_conv_nth)
    then obtain p where "p < length ids" "p < b \<or> e \<le> p" "ids ! p = ids ! q" using ix(2)[of a] by auto
    moreover have "distinct ids" using ids(1) by (simp add: strict_sorted_iff)
    ultimately show False using bq be(2) by (auto simp: nth_eq_iff_index_eq)
  qed
  have taken: "\<exists>p<length ids. (p < b' \<or> e' \<le> p) \<and> indexes[i := ids ! q] ! a = ids ! p" if "a < Suc i" for a
  proof (cases "a = i")
    case True
    then show ?thesis using bq be(2) i len by (intro exI[of _ q]) (auto simp: q_def b'_def e'_def)
  next
    case False
    with that have "a < i" by simp
    then obtain p where "p < length ids" "p < b \<or> e \<le> p" "indexes ! a = ids ! p" using ix(2) by blast
    then show ?thesis using False by (intro exI[of _ p]) (auto simp: b'_def e'_def)
  qed
  have dist: "distinct (take (Suc i) (indexes[i := ids ! q]))"
    using ix(3) new i len by (simp add: take_Suc_conv_app_nth)
  have kind: "\<forall>a<Suc i. indexes[i := ids ! q] ! a = a \<or> rs_k rs \<le> indexes[i := ids ! q] ! a"
    using ix(1) id(1) i len by (simp add: nth_list_update less_Suc_eq)
  note rows = slot_row_entries[OF v m(1) i id]
  have ent: "entry (slot_row rs i (ids ! q) m) (rs_k rs) a j =
      (if a < Suc i then code.row (rs_k rs) (indexes[i := ids ! q] ! a) j else 0)"
    if "a < rs_k rs" "j < rs_k rs" for a j
    using that rows(2)[OF _ that] m(2) i len by (cases "a = i") simp_all
  have "length (slot_row rs i (ids ! q) m) = rs_k rs * rs_k rs"
    using rows(1) m(2) i by simp
  then show ?thesis
    unfolding step slots_inv_def prod.case
    using len be' rest kind taken dist ent by simp
qed

text \<open>What a plan built from a sorted set of at least \<open>k\<close> share numbers satisfies.\<close>

definition good_slots :: "ReedSolomon \<Rightarrow> nat list \<Rightarrow> nat list \<Rightarrow> bool" where
  "good_slots rs ids indexes \<longleftrightarrow> length indexes = rs_k rs \<and> distinct indexes \<and> set indexes \<subseteq> set ids \<and>
    (\<forall>a<rs_k rs. indexes ! a = a \<or> rs_k rs \<le> indexes ! a)"

lemma slots_leading_regular:
  assumes v: "valid_rs rs" and ids: "\<And>x. x \<in> set ids \<Longrightarrow> x < rs_n rs" and g: "good_slots rs ids indexes"
  shows "leading_regular (rs_k rs) (\<lambda>a. code.row (rs_k rs) (indexes ! a))"
  unfolding leading_regular_def
proof (intro allI impI, rule ccontr)
  fix m and x :: "nat \<Rightarrow> gf"
  assume m: "m < rs_k rs" and xm: "x m = 1" and x0: "\<forall>j. m < j \<longrightarrow> j < rs_k rs \<longrightarrow> x j = 0"
    and "\<not> (\<exists>i\<le>m. (\<Sum>j<rs_k rs. code.row (rs_k rs) (indexes ! i) j * x j) \<noteq> 0)"
  then have zero: "\<And>i. i \<le> m \<Longrightarrow> code.symbol (rs_k rs) x (indexes ! i) = 0"
    by (auto simp: code.symbol_def)
  let ?k = "rs_k rs" and ?A = "(\<lambda>i. indexes ! i) ` {..m}" and ?B = "{m<..<rs_k rs}"
  have ix: "length indexes = ?k" "distinct indexes" "\<And>a. a < ?k \<Longrightarrow> indexes ! a = a \<or> ?k \<le> indexes ! a"
    "set indexes \<subseteq> set ids"
    using g by (auto simp: good_slots_def)
  then have ix4: "\<And>a. a < ?k \<Longrightarrow> indexes ! a < rs_n rs"
    using ids by (metis nth_mem subsetD)
  have k: "?k \<le> 256" "rs_n rs \<le> 256" using v by (auto simp: valid_rs_def)
  have "inj_on (\<lambda>i. indexes ! i) {..m}"
    using ix m by (auto simp: inj_on_def nth_eq_iff_index_eq)
  then have cA: "card ?A = Suc m" by (simp add: card_image)
  have "indexes ! a \<notin> ?B" if "a \<le> m" for a
    using ix(3)[of a] that m by auto
  then have "?A \<inter> ?B = {}" by blast
  then have "card (?A \<union> ?B) = ?k" using cA m by (simp add: card_Un_disjoint)
  moreover have "indexes ! a < 256" if "a \<le> m" for a
    using ix4[of a] that m k(2) by linarith
  then have "?A \<union> ?B \<subseteq> {..<256}" using k(1) by auto
  moreover have "code.symbol ?k x r = 0" if "r \<in> ?A \<union> ?B" for r
    using that zero x0 k(1) by (auto simp: code.symbol_systematic)
  ultimately have "x m = 0" using code.symbols_determine[of ?k "?A \<union> ?B" x m] k(1) m by blast
  then show False using xm by simp
qed

text \<open>A correct plan: it recovers each missing symbol from the symbols of its slots.\<close>

definition good_plan :: "ReedSolomon \<Rightarrow> nat list \<Rightarrow> DecodePlan \<Rightarrow> bool" where
  "good_plan rs ids plan \<longleftrightarrow> plan_k plan = rs_k rs \<and> plan_share_size plan = share_size rs \<and>
    good_slots rs ids (plan_indexes plan) \<and>
    (\<forall>x. \<forall>i<rs_k rs. (\<Sum>j<rs_k rs. GF (m_dec plan ! (i * rs_k rs + j)) *
        code.symbol (rs_k rs) x (plan_indexes plan ! j)) = x i)"

lemma plan_from_sorted_ok:
  assumes v: "valid_rs rs" and ids: "sorted_wrt (<) ids" "rs_k rs \<le> length ids" "\<And>x. x \<in> set ids \<Longrightarrow> x < rs_n rs"
  shows "\<exists>plan. plan_from_sorted cpu rs ids = Inr plan \<and> good_plan rs ids plan"
proof -
  let ?k = "rs_k rs"
  let ?init = "(replicate (?k * ?k) 0, replicate ?k 0, 0, length ids)"
  obtain m indexes b e where f: "fold (plan_slot rs ids) [0..<?k] ?init = (m, indexes, b, e)"
    by (cases "fold (plan_slot rs ids) [0..<?k] ?init")
  have "slots_inv rs ids ?k (fold (plan_slot rs ids) [0..<?k] ?init)"
  proof (rule fold_upt_invariant[where P = "slots_inv rs ids"])
    show "slots_inv rs ids 0 ?init"
      using flat_index_less by (simp add: slots_inv_def entry_def)
  qed (use slots_inv_step[OF v ids] in auto)
  then have inv: "slots_inv rs ids ?k (m, indexes, b, e)" by (simp add: f)
  then have len: "length m = ?k * ?k" and good: "good_slots rs ids indexes"
    and ent: "\<And>a j. a < ?k \<Longrightarrow> j < ?k \<Longrightarrow> entry m ?k a j = code.row ?k (indexes ! a) j"
    by (auto simp: slots_inv_def good_slots_def in_set_conv_nth) metis
  have eq: "(\<Sum>l<?k. entry m ?k j l * x l) = code.symbol ?k x (indexes ! j)" if "j < ?k" for j x
    using that by (simp add: ent code.symbol_def)
  have "leading_regular ?k (\<lambda>a. code.row ?k (indexes ! a))"
    using v ids(3) good by (rule slots_leading_regular)
  then have "leading_regular ?k (entry m ?k)"
    unfolding leading_regular_def code.symbol_def[symmetric] by (metis eq le_less_trans)
  then obtain A where A: "invert_matrix cpu m ?k = Inr A"
    and inv_A: "\<And>x i. i < ?k \<Longrightarrow> (\<Sum>j<?k. entry A ?k i j * (\<Sum>l<?k. entry m ?k j l * x l)) = x i"
    using invert_matrix_correct[OF len] by blast
  have "(\<Sum>j<?k. GF (A ! (i * ?k + j)) * code.symbol ?k x (indexes ! j)) = x i" if "i < ?k" for x i
    using inv_A[OF that, of x] by (simp add: eq entry_def[of A] cong: sum.cong_simp)
  then have "good_plan rs ids \<lparr>plan_k = ?k, plan_share_size = share_size rs, plan_indexes = indexes, m_dec = A\<rparr>"
    using good by (simp add: good_plan_def)
  then show ?thesis by (simp add: plan_from_sorted_def f A)
qed

section \<open>Decoding recovers the stripe\<close>

lemma decode_into_ok:
  assumes v: "valid_rs rs" and g: "good_plan rs ids plan" and ids: "\<And>x. x \<in> set ids \<Longrightarrow> x < rs_n rs"
    and len: "length stripe = stripe_size rs" "length out = stripe_size rs"
    and sv: "shares = map (share_of cpu' rs stripe) (plan_indexes plan)"
  shows "decode_into cpu plan shares out = Inr stripe"
proof -
  let ?k = "rs_k rs" and ?ss = "share_size rs"
  have pl: "plan_k plan = ?k" "plan_share_size plan = ?ss" "good_slots rs ids (plan_indexes plan)"
    using g by (auto simp: good_plan_def)
  have ix: "length (plan_indexes plan) = ?k" "\<And>a. a < ?k \<Longrightarrow> plan_indexes plan ! a = a \<or> ?k \<le> plan_indexes plan ! a"
    "set (plan_indexes plan) \<subseteq> set ids" using pl(3) by (auto simp: good_slots_def)
  have ixn: "plan_indexes plan ! a < rs_n rs" if "a < ?k" for a
    using that ix ids by (metis nth_mem subsetD)
  have sh: "length shares = ?k" "\<And>i. i < ?k \<Longrightarrow> length (shares ! i) = ?ss"
    "\<And>i t. i < ?k \<Longrightarrow> t < ?ss \<Longrightarrow> GF (shares ! i ! t) = code.symbol ?k (column rs stripe t) (plan_indexes plan ! i)"
    using v len ix ixn by (simp_all add: sv length_share_of share_of_symbol)
  have slot: "length (decode_slot cpu plan shares i o') = ?k * ?ss \<and> (\<forall>p < ?k * ?ss. decode_slot cpu plan shares i o' ! p =
      (if i * ?ss \<le> p \<and> p < i * ?ss + ?ss then stripe ! p else o' ! p))"
    if i: "i < ?k" and o': "length o' = ?k * ?ss" for i o'
  proof -
    let ?sum = "fold (\<lambda>col dest. addmul cpu dest (shares ! col) (m_dec plan ! (i * ?k + col))) [0..<?k] (replicate ?ss 0)"
    define y where "y = (if plan_indexes plan ! i < ?k then shares ! i else ?sum)"
    have rend: "i * ?ss + ?ss \<le> ?k * ?ss" using i by (rule row_end_le)
    have eq: "decode_slot cpu plan shares i o' = put_slice o' (i * ?ss) y"
      using ix(2)[OF i] by (auto simp: decode_slot_def y_def pl sh)
    have sum: "length ?sum = ?ss" "\<And>t. t < ?ss \<Longrightarrow> GF (?sum ! t) = column rs stripe t i"
    proof -
      have *: "length ?sum = ?ss \<and> GF (?sum ! t) = (\<Sum>j<?k. GF (m_dec plan ! (i * ?k + j)) * GF (shares ! j ! t))" if "t < ?ss" for t
        using GF_fold_addmul[of ?k "\<lambda>j. shares ! j" ?ss t cpu "\<lambda>j. m_dec plan ! (i * ?k + j)"] that sh(2) by simp
      show "length ?sum = ?ss" using *[of 0] v by (simp add: valid_rs_def)
      fix t assume t: "t < ?ss"
      have "GF (?sum ! t) = (\<Sum>j<?k. GF (m_dec plan ! (i * ?k + j)) * code.symbol ?k (column rs stripe t) (plan_indexes plan ! j))"
        using *[OF t] t sh(3) by simp
      also have "\<dots> = column rs stripe t i"
        using g i by (simp add: good_plan_def)
      finally show "GF (?sum ! t) = column rs stripe t i" .
    qed
    have ylen: "length y = ?ss" using sum(1) sh(2)[OF i] by (simp add: y_def)
    have "GF (y ! t) = GF (stripe ! (i * ?ss + t))" if t: "t < ?ss" for t
    proof (cases "plan_indexes plan ! i < ?k")
      case True
      then have "plan_indexes plan ! i = i" using ix(2)[OF i] by simp
      then show ?thesis
        using True sh(3)[OF i t] i v by (simp add: y_def code.symbol_systematic column_def valid_rs_def)
    next
      case False
      then show ?thesis using sum(2)[OF t] by (simp add: y_def column_def)
    qed
    then have y: "y ! t = stripe ! (i * ?ss + t)" if "t < ?ss" for t using that by simp
    show ?thesis
      unfolding eq using rend ylen o' y by (auto simp: length_put_slice nth_put_slice)
  qed
  have "length (fold (decode_slot cpu plan shares) [0..<?k] out) = ?k * ?ss \<and>
      (\<forall>p < ?k * ?ss. p < ?k * ?ss \<longrightarrow> fold (decode_slot cpu plan shares) [0..<?k] out ! p = stripe ! p)"
    by (rule fold_upt_invariant[where P = "\<lambda>i o'. length o' = ?k * ?ss \<and> (\<forall>p < ?k * ?ss. p < i * ?ss \<longrightarrow> o' ! p = stripe ! p)"])
      (use slot len in \<open>auto simp: stripe_size_def\<close>)
  then have "fold (decode_slot cpu plan shares) [0..<?k] out = stripe"
    using len by (intro nth_equalityI) (auto simp: stripe_size_def)
  moreover have "find (\<lambda>i. length (shares ! i) \<noteq> ?ss) [0..<?k] = None"
    using sh(2) by (simp add: find_None_iff)
  ultimately show ?thesis
    using pl sh len by (simp add: decode_into_def stripe_size_def)
qed

lemma first_adjacent_dup_None: "sorted xs \<Longrightarrow> first_adjacent_dup xs = None \<longleftrightarrow> distinct xs"
  by (induction xs rule: first_adjacent_dup.induct) auto

lemma first_adjacent_dup_Some: "first_adjacent_dup xs = Some i \<Longrightarrow> i \<in> set xs \<and> \<not> distinct xs"
  by (induction xs rule: first_adjacent_dup.induct) (auto split: if_splits)

lemma check_indexed_ok:
  "\<forall>x \<in> set shares. fst x < rs_n rs \<and> length (snd x) = share_size rs \<Longrightarrow> check_indexed rs shares = Inr ()"
  by (induction rs shares rule: check_indexed.induct) auto

lemma find_share:
  assumes "\<And>i d. (i, d) \<in> set shares \<Longrightarrow> d = f i" and "id' \<in> fst ` set shares"
  shows "(case find (\<lambda>(i, _). i = id') shares of Some (_, d) \<Rightarrow> d | None \<Rightarrow> []) = f id'"
proof -
  obtain x where x: "find (\<lambda>(i, _). i = id') shares = Some x"
    using assms(2) by (cases "find (\<lambda>(i, _). i = id') shares") (auto simp: find_None_iff)
  then have "x \<in> set shares \<and> fst x = id'" by (auto simp: find_Some_iff) (metis nth_mem)
  then show ?thesis using assms(1)[of "fst x" "snd x"] x by (cases x) auto
qed

lemma decode_from_ok:
  assumes v: "valid_rs rs" and len: "length stripe = stripe_size rs"
    and d: "distinct (map fst shares)" and k: "rs_k rs \<le> length shares"
    and sh: "\<And>i s. (i, s) \<in> set shares \<Longrightarrow> i < rs_n rs \<and> s = share_of cpu' rs stripe i"
  shows "decode_from cpu rs shares = Inr stripe"
proof -
  let ?ord = "sort_key fst shares"
  let ?ids = "map fst ?ord"
  have ids: "sorted_wrt (<) ?ids" "rs_k rs \<le> length ?ids" "\<And>x. x \<in> set ?ids \<Longrightarrow> x < rs_n rs"
    using d k sh by (auto simp: strict_sorted_iff distinct_map sorted_sort_key)
  obtain plan where plan: "plan_from_sorted cpu rs ?ids = Inr plan" "good_plan rs ?ids plan"
    using plan_from_sorted_ok[OF v ids] by blast
  have sub: "set (plan_indexes plan) \<subseteq> fst ` set ?ord"
    using plan(2) by (simp add: good_plan_def good_slots_def)
  have sv: "map (\<lambda>id. case find (\<lambda>(i, _). i = id) ?ord of Some (_, d) \<Rightarrow> d | None \<Rightarrow> []) (plan_indexes plan) =
      map (share_of cpu' rs stripe) (plan_indexes plan)"
    using sub sh by (intro map_cong find_share) auto
  have "rebuild cpu rs ?ord = Inr stripe"
    unfolding rebuild_def plan(1) try_bind_simps Let_def sv
    using decode_into_ok[OF v plan(2) ids(3) len _ refl] by simp
  moreover have "first_adjacent_dup ?ids = None"
    using ids(1) by (simp add: first_adjacent_dup_None strict_sorted_iff)
  moreover have "check_indexed rs shares = Inr ()"
    using v len sh by (intro check_indexed_ok) (metis length_share_of prod.collapse)
  ultimately show ?thesis using k by (simp add: decode_from_def)
qed

lemma upt_Suc_shift: "[0..<Suc n] = 0 # map Suc [0..<n]"
  by (simp add: upt_conv_Cons map_Suc_upt del: upt_Suc)

lemma present_shares_ok:
  assumes "\<And>j d. j < length slots \<Longrightarrow> slots ! j = Some d \<Longrightarrow> length d = share_size rs"
  shows "present_shares rs i slots =
    Inr (map (\<lambda>j. (i + j, the (slots ! j))) (filter (\<lambda>j. slots ! j \<noteq> None) [0..<length slots]))"
  using assms
proof (induction slots arbitrary: i)
  case (Cons s slots)
  have IH: "present_shares rs (Suc i) slots =
      Inr (map (\<lambda>j. (Suc i + j, the (slots ! j))) (filter (\<lambda>j. slots ! j \<noteq> None) [0..<length slots]))"
    using Cons.prems[of "Suc j" for j] by (intro Cons.IH) auto
  show ?case
    using IH Cons.prems[of 0] by (cases s) (simp_all add: upt_Suc_shift filter_map comp_def del: upt_Suc)
qed simp

lemma length_filter_nth: "length (filter (\<lambda>j. P (xs ! j)) [0..<length xs]) = length (filter P xs)"
proof -
  have "filter P xs = filter P (map ((!) xs) [0..<length xs])" by (simp only: map_nth)
  then show ?thesis by (simp add: filter_map comp_def)
qed

lemma decode_stripe_rs_ok:
  assumes v: "valid_rs rs" and len: "length stripe = stripe_size rs" "length slots = rs_n rs"
    and sl: "\<And>i. i < rs_n rs \<Longrightarrow> slots ! i = None \<or> slots ! i = Some (share_of cpu' rs stripe i)"
    and k: "rs_k rs \<le> length (filter (\<lambda>s. s \<noteq> None) slots)"
  shows "decode_stripe_rs cpu rs slots = Inr stripe"
proof -
  let ?is = "filter (\<lambda>j. slots ! j \<noteq> None) [0..<length slots]"
  let ?ps = "map (\<lambda>j. (0 + j, the (slots ! j))) ?is"
  have "length d = share_size rs" if "j < length slots" "slots ! j = Some d" for j d
    using sl[of j] that len v by (auto simp: length_share_of)
  then have ps: "present_shares rs 0 slots = Inr ?ps"
    by (rule present_shares_ok)
  have "length ?ps = length (filter (\<lambda>s. s \<noteq> None) slots)"
    using length_filter_nth[of "\<lambda>s. s \<noteq> None" slots] by simp
  moreover have "distinct (map fst ?ps)" by (simp add: comp_def)
  moreover have "i < rs_n rs \<and> s = share_of cpu' rs stripe i" if "(i, s) \<in> set ?ps" for i s
    using that sl[of i] len(2) by auto
  ultimately have "decode_from cpu rs ?ps = Inr stripe"
    using k by (intro decode_from_ok[OF v len(1)]) auto
  then show ?thesis using ps len by (simp add: decode_stripe_rs_def)
qed

section \<open>Facts the properties share\<close>

lemma encode_stripe_rs_length:
  "encode_stripe_rs cpu rs stripe = Inr shares \<Longrightarrow> length stripe = stripe_size rs"
  by (auto simp: encode_stripe_rs_def encode_stripe_into_def check_stripe_def split: if_splits)

text \<open>The code is systematic: the data shares, one after the other, are the stripe.\<close>

lemma concat_slices:
  "length xs = k * ss \<Longrightarrow> concat (map (\<lambda>i. sub_slice xs (i * ss) ((i + 1) * ss)) [0..<k]) = xs"
proof (induction k arbitrary: xs)
  case (Suc k)
  have "sub_slice xs (i * ss) ((i + 1) * ss) = sub_slice (take (k * ss) xs) (i * ss) ((i + 1) * ss)" if "i < k" for i
    using row_end_le[OF that, of ss] by (simp add: sub_slice_def drop_take add.commute min_def)
  then have "map (\<lambda>i. sub_slice xs (i * ss) ((i + 1) * ss)) [0..<k] =
      map (\<lambda>i. sub_slice (take (k * ss) xs) (i * ss) ((i + 1) * ss)) [0..<k]"
    by (intro map_cong) auto
  then have "concat (map (\<lambda>i. sub_slice xs (i * ss) ((i + 1) * ss)) [0..<k]) = take (k * ss) xs"
    using Suc.IH[of "take (k * ss) xs"] Suc.prems by (simp only:) simp
  then show ?case using Suc.prems by (simp add: sub_slice_def)
qed simp

lemma systematic_concat:
  assumes "valid_rs rs" and len: "length stripe = stripe_size rs"
  shows "concat (map (share_of cpu rs stripe) [0..<rs_k rs]) = stripe"
proof -
  have "share_of cpu rs stripe i = sub_slice stripe (i * share_size rs) ((i + 1) * share_size rs)" if "i < rs_k rs" for i
    using that by (simp add: share_of_def encode_share_unchecked_def)
  then have "map (share_of cpu rs stripe) [0..<rs_k rs] =
      map (\<lambda>i. sub_slice stripe (i * share_size rs) ((i + 1) * share_size rs)) [0..<rs_k rs]"
    by (intro map_cong) auto
  then show ?thesis
    using concat_slices[OF len[unfolded stripe_size_def]] by (simp only:)
qed

lemma check_indexed_ok_iff:
  "check_indexed rs shares = Inr u \<longleftrightarrow> (\<forall>x \<in> set shares. fst x < rs_n rs \<and> length (snd x) = share_size rs)"
  by (induction rs shares rule: check_indexed.induct) auto

lemma check_indexed_error:
  "check_indexed rs shares = Inl e \<Longrightarrow>
    (\<exists>(i, d) \<in> set shares. rs_n rs \<le> i \<and> e = InvalidShareIndex i (rs_n rs) \<or>
       length d \<noteq> share_size rs \<and> e = ShareSize i (length d) (share_size rs))"
  by (induction rs shares rule: check_indexed.induct) (auto split: if_splits)

lemma distinct_map_sort_key: "distinct (map f (sort_key g xs)) = distinct (map f xs)"
  by (metis distinct_map distinct_sort set_sort)

lemma decode_slot_length:
  assumes g: "good_plan rs ids plan" and i: "i < rs_k rs" and ss: "0 < share_size rs"
    and sh: "length shares = rs_k rs" "\<And>i. i < rs_k rs \<Longrightarrow> length (shares ! i) = share_size rs"
    and out: "length out = rs_k rs * share_size rs"
  shows "length (decode_slot cpu plan shares i out) = rs_k rs * share_size rs"
proof -
  have pl: "plan_k plan = rs_k rs" "plan_share_size plan = share_size rs"
    "plan_indexes plan ! i = i \<or> rs_k rs \<le> plan_indexes plan ! i"
    using g i by (auto simp: good_plan_def good_slots_def)
  show ?thesis
    using pl row_end_le[OF i, of "share_size rs"] out sh i
      GF_fold_addmul[of "rs_k rs" "\<lambda>j. shares ! j" "share_size rs" 0 cpu, OF sh(2) ss]
    by (auto simp: decode_slot_def length_put_slice)
qed

lemma decode_into_total:
  assumes g: "good_plan rs ids plan" and ss: "0 < share_size rs"
    and sh: "length shares = rs_k rs" "\<And>i. i < rs_k rs \<Longrightarrow> length (shares ! i) = share_size rs"
    and out: "length out = stripe_size rs"
  shows "\<exists>stripe. decode_into cpu plan shares out = Inr stripe \<and> length stripe = stripe_size rs"
proof -
  have "length (fold (decode_slot cpu plan shares) [0..<rs_k rs] out) = rs_k rs * share_size rs"
    using decode_slot_length[OF g _ ss sh] out
    by (intro fold_upt_invariant[where P = "\<lambda>_ o'. length o' = rs_k rs * share_size rs"]) (auto simp: stripe_size_def)
  moreover have "find (\<lambda>i. length (shares ! i) \<noteq> share_size rs) [0..<rs_k rs] = None"
    using sh(2) by (simp add: find_None_iff)
  ultimately show ?thesis
    using g sh(1) out by (simp add: decode_into_def good_plan_def stripe_size_def)
qed

lemma find_share_length:
  assumes "\<forall>x \<in> set shares. length (snd x) = ss" and "id' \<in> fst ` set shares"
  shows "length (case find (\<lambda>(i, _). i = id') shares of Some (_, d) \<Rightarrow> d | None \<Rightarrow> []) = ss"
proof (cases "find (\<lambda>(i, _). i = id') shares")
  case (Some x)
  then have "x \<in> set shares" by (auto simp: find_Some_iff) (metis nth_mem)
  then show ?thesis using assms(1) Some by (simp add: case_prod_beta)
qed (use assms(2) in \<open>auto simp: find_None_iff\<close>)

lemma rebuild_total:
  assumes v: "valid_rs rs" and d: "distinct (map fst shares)" and k: "rs_k rs \<le> length shares"
    and ok: "\<forall>x \<in> set shares. fst x < rs_n rs \<and> length (snd x) = share_size rs"
  shows "\<exists>stripe. rebuild cpu rs (sort_key fst shares) = Inr stripe \<and> length stripe = stripe_size rs"
proof -
  let ?ord = "sort_key fst shares"
  have ids: "sorted_wrt (<) (map fst ?ord)" "rs_k rs \<le> length (map fst ?ord)" "\<And>x. x \<in> set (map fst ?ord) \<Longrightarrow> x < rs_n rs"
    using d k ok by (auto simp: strict_sorted_iff distinct_map_sort_key)
  obtain plan where plan: "plan_from_sorted cpu rs (map fst ?ord) = Inr plan" "good_plan rs (map fst ?ord) plan"
    using plan_from_sorted_ok[OF v ids] by blast
  have ix: "length (plan_indexes plan) = rs_k rs" "set (plan_indexes plan) \<subseteq> fst ` set ?ord"
    using plan(2) by (auto simp: good_plan_def good_slots_def)
  have sh: "length (case find (\<lambda>(j, _). j = plan_indexes plan ! i) ?ord of Some (_, d) \<Rightarrow> d | None \<Rightarrow> []) = share_size rs"
    if "i < rs_k rs" for i
    using ok ix that nth_mem[of i "plan_indexes plan"] by (intro find_share_length) auto
  have ss: "0 < share_size rs" using v by (simp add: valid_rs_def)
  show ?thesis
    unfolding rebuild_def plan(1) try_bind_simps Let_def
    by (rule decode_into_total[OF plan(2) ss]) (use ix sh in auto)
qed

section \<open>Properties of the codec\<close>

text \<open>A codec with two data shares and one parity share, used by the instances below.\<close>

definition rs23 :: ReedSolomon where
  "rs23 = \<lparr>rs_k = 2, rs_n = 3, share_size = 1, enc_matrix = [1, 0, 0, 1, 3, 2]\<rparr>"

lemma build_enc_matrix_2_3: "build_enc_matrix 2 3 = [1, 0, 0, 1, 3, 2]"
  by code_simp

lemma new_rs23: "new_rs 2 3 1 = Inr rs23"
  by (simp add: new_rs_def rs23_def build_enc_matrix_2_3)

lemma encode_rs23: "encode_stripe_rs Portable rs23 [7, 9] = Inr [[7], [9], [27]]"
  by code_simp

text \<open>
  C3: any \<open>k\<close> of the \<open>n\<close> shares that \<open>encode_stripe\<close> produced, given in any order and with
  pairwise different numbers, decode to the original stripe; encoder and decoder may run on
  different back ends.
\<close>

theorem any_k_shares_decode:
  assumes "new_rs k n ss = Inr rs" and "length stripe = k * ss"
    and "encode_stripe_rs cpu rs stripe = Inr shares"
    and "distinct (map fst avail)" and "k \<le> length avail"
    and "\<forall>(i, d) \<in> set avail. i < n \<and> d = shares ! i"
  shows "decode_from cpu' rs avail = Inr stripe"
proof -
  have rs: "valid_rs rs" "rs_k rs = k" "rs_n rs = n" "share_size rs = ss"
    using new_rs_valid[OF assms(1)] by auto
  have len: "length stripe = stripe_size rs" using assms(2) rs by (simp add: stripe_size_def)
  have "shares = map (share_of cpu rs stripe) [0..<n]"
    using encode_stripe_rs_ok[OF rs(1) len, of cpu cpu] assms(3) rs(3) by simp
  then show ?thesis
    using assms(4-6) rs by (intro decode_from_ok[OF rs(1) len, where cpu' = cpu]) auto
qed

theorem any_k_shares_decode_witness:
  "new_rs 2 3 1 = Inr rs23 \<and> encode_stripe_rs Portable rs23 [7, 9] = Inr [[7], [9], [27]] \<and>
   decode_from Aarch64 rs23 [(2, [27]), (0, [7])] = Inr [7, 9]"
  using any_k_shares_decode[OF new_rs23 _ encode_rs23, of "[(2, [27]), (0, [7])]" Aarch64]
  by (simp add: new_rs23[simplified] encode_rs23)

text \<open>
  The free functions: \<open>decode_stripe\<close> gives back the stripe that \<open>encode_stripe\<close> was given, whenever
  at least \<open>k\<close> of the \<open>n\<close> slots still hold their share.
\<close>

theorem decode_stripe_any_k_of_n:
  assumes "encode_stripe cpu k n ss stripe = Inr shares" and "length slots = n"
    and "\<forall>i<n. slots ! i = None \<or> slots ! i = Some (shares ! i)"
    and "k \<le> length (filter (\<lambda>s. s \<noteq> None) slots)"
  shows "decode_stripe cpu' k n ss slots = Inr stripe"
proof -
  obtain rs where rs: "new_rs k n ss = Inr rs" "encode_stripe_rs cpu rs stripe = Inr shares"
    using assms(1) by (auto simp: encode_stripe_def result_simps)
  have v: "valid_rs rs" "rs_k rs = k" "rs_n rs = n" "share_size rs = ss"
    using new_rs_valid[OF rs(1)] by auto
  have len: "length stripe = stripe_size rs" using rs(2) by (rule encode_stripe_rs_length)
  have "shares = map (share_of cpu rs stripe) [0..<n]"
    using encode_stripe_rs_ok[OF v(1) len, of cpu cpu] rs(2) v(3) by simp
  then have "decode_stripe_rs cpu' rs slots = Inr stripe"
    using assms(2-4) v by (intro decode_stripe_rs_ok[OF v(1) len, where cpu' = cpu]) auto
  then show ?thesis by (simp add: decode_stripe_def rs(1))
qed

theorem decode_stripe_any_k_of_n_witness:
  "encode_stripe Portable 2 3 1 [7, 9] = Inr [[7], [9], [27]] \<and>
   decode_stripe X86_64_ssse3 2 3 1 [None, Some [9], Some [27]] = Inr [7, 9]"
proof -
  have e: "encode_stripe Portable 2 3 1 [7, 9] = Inr [[7], [9], [27]]"
    by (simp add: encode_stripe_def new_rs23[simplified] encode_rs23)
  then show ?thesis
    using decode_stripe_any_k_of_n[OF e, of "[None, Some [9], Some [27]]" X86_64_ssse3]
    by (simp add: less_Suc_eq numeral_3_eq_3)
qed

text \<open>
  What \<open>encode_stripe\<close> returns on every input: it fails exactly on bad parameters or on a stripe of
  the wrong length, each with its own error; otherwise it returns \<open>n\<close> shares of the share size, of
  which the first \<open>k\<close> are the stripe itself, cut in pieces.
\<close>

theorem encode_stripe_result:
  "case encode_stripe cpu k n ss stripe of
     Inl e \<Rightarrow> (if k = 0 \<or> ss = 0 \<or> n < k \<or> 256 < n then e = InvalidParams k n ss
               else length stripe \<noteq> k * ss \<and> e = StripeSize (length stripe) (k * ss))
   | Inr shares \<Rightarrow> 0 < k \<and> 0 < ss \<and> k \<le> n \<and> n \<le> 256 \<and> length stripe = k * ss \<and>
       length shares = n \<and> list_all (\<lambda>s. length s = ss) shares \<and> concat (take k shares) = stripe"
proof (cases "new_rs k n ss")
  case (Inl e)
  then show ?thesis by (auto simp: encode_stripe_def new_rs_def split: if_splits)
next
  case (Inr rs)
  then have v: "valid_rs rs" "rs_k rs = k" "rs_n rs = n" "share_size rs = ss"
    using new_rs_valid by blast+
  show ?thesis
  proof (cases "length stripe = stripe_size rs")
    case True
    have "encode_stripe cpu k n ss stripe = Inr (map (share_of cpu rs stripe) [0..<n])"
      using encode_stripe_rs_ok[OF v(1) True, of cpu cpu] v by (simp add: encode_stripe_def Inr)
    moreover have "concat (map (share_of cpu rs stripe) [0..<k]) = stripe"
      using systematic_concat[OF v(1) True] v by simp
    ultimately show ?thesis
      using v True length_share_of[OF v(1) True]
      by (simp add: valid_rs_def stripe_size_def list_all_iff take_map)
  next
    case False
    then have "encode_stripe cpu k n ss stripe = Inl (StripeSize (length stripe) (k * ss))"
      using v by (simp add: encode_stripe_def Inr encode_stripe_rs_def encode_stripe_into_def check_stripe_def
          stripe_size_def)
    then show ?thesis using False v by (auto simp: valid_rs_def stripe_size_def)
  qed
qed

lemma decode_plan_ok:
  assumes "valid_rs rs" and "distinct ids" and "rs_k rs \<le> length ids" and "\<forall>i \<in> set ids. i < rs_n rs"
  shows "\<exists>plan. decode_plan cpu rs ids = Inr plan \<and> good_plan rs (sort ids) plan \<and> set (plan_indexes plan) \<subseteq> set ids"
proof -
  have ids: "sorted_wrt (<) (sort ids)" "rs_k rs \<le> length (sort ids)" "\<And>x. x \<in> set (sort ids) \<Longrightarrow> x < rs_n rs"
    using assms(2-4) by (auto simp: strict_sorted_iff)
  obtain plan where plan: "plan_from_sorted cpu rs (sort ids) = Inr plan" "good_plan rs (sort ids) plan"
    using plan_from_sorted_ok[OF assms(1) ids] by blast
  have "first_adjacent_dup (sort ids) = None" "find (\<lambda>i. rs_n rs \<le> i) ids = None"
    using assms(2,4) by (auto simp: first_adjacent_dup_None find_None_iff not_le)
  then have "decode_plan cpu rs ids = Inr plan" using assms(3) plan(1) by (simp add: decode_plan_def)
  moreover have "set (plan_indexes plan) \<subseteq> set ids"
    using plan(2) by (auto simp: good_plan_def good_slots_def)
  ultimately show ?thesis using plan(2) by blast
qed

text \<open>
  A decode plan is made once for a set of share numbers and then serves every stripe: given the
  shares in the order the plan's \<open>indexes\<close> ask for, \<open>decode_into\<close> fills any buffer of the right size
  with the stripe.
\<close>

theorem decode_plan_serves_every_stripe:
  assumes "new_rs k n ss = Inr rs" and "distinct ids" and "k \<le> length ids" and "\<forall>i \<in> set ids. i < n"
  shows "\<exists>plan. decode_plan cpu rs ids = Inr plan \<and> set (plan_indexes plan) \<subseteq> set ids \<and>
    (\<forall>stripe shares out. encode_stripe_rs cpu' rs stripe = Inr shares \<longrightarrow> length out = k * ss \<longrightarrow>
       decode_into cpu plan (map ((!) shares) (plan_indexes plan)) out = Inr stripe)"
proof -
  have v: "valid_rs rs" "rs_k rs = k" "rs_n rs = n" "share_size rs = ss"
    using new_rs_valid[OF assms(1)] by auto
  obtain plan where plan: "decode_plan cpu rs ids = Inr plan" "good_plan rs (sort ids) plan" "set (plan_indexes plan) \<subseteq> set ids"
    using decode_plan_ok[OF v(1) assms(2)] assms(3,4) v by blast
  have "decode_into cpu plan (map ((!) shares) (plan_indexes plan)) out = Inr stripe"
    if e: "encode_stripe_rs cpu' rs stripe = Inr shares" and out: "length out = k * ss" for stripe shares out
  proof -
    have len: "length stripe = stripe_size rs" using e by (rule encode_stripe_rs_length)
    have "shares = map (share_of cpu' rs stripe) [0..<n]"
      using encode_stripe_rs_ok[OF v(1) len, of cpu' cpu'] e v(3) by simp
    then have "map ((!) shares) (plan_indexes plan) = map (share_of cpu' rs stripe) (plan_indexes plan)"
      using plan(3) assms(4) by auto
    moreover have "x < rs_n rs" if "x \<in> set (sort ids)" for x using that assms(4) v by simp
    ultimately show ?thesis
      using decode_into_ok[OF v(1) plan(2) _ len _ refl, of out cpu cpu'] out v
      by (simp only: stripe_size_def)
  qed
  then show ?thesis using plan by blast
qed

theorem decode_plan_serves_every_stripe_witness:
  "\<exists>plan. decode_plan Portable rs23 [2, 1] = Inr plan \<and>
     decode_into Portable plan (map ((!) [[7], [9], [27]]) (plan_indexes plan)) [0, 0] = Inr [7, 9]"
proof -
  obtain plan where "decode_plan Portable rs23 [2, 1] = Inr plan"
    "encode_stripe_rs Portable rs23 [7, 9] = Inr [[7], [9], [27]] \<longrightarrow> length [0 :: u8, 0] = 2 * 1 \<longrightarrow>
       decode_into Portable plan (map ((!) [[7], [9], [27]]) (plan_indexes plan)) [0, 0] = Inr [7, 9]"
    using decode_plan_serves_every_stripe[OF new_rs23, of "[2, 1]" Portable Portable] by auto
  then show ?thesis using encode_rs23 by auto
qed

text \<open>
  The failures of \<open>decode_from\<close>: with fewer than \<open>k\<close> shares, with a share number out of range, with
  a share of the wrong size or with the same number twice it returns the error the code documents,
  and it returns a stripe otherwise; decoding never fails with \<open>Reconstruct\<close>.
\<close>

theorem decode_from_error_iff:
  assumes "new_rs k n ss = Inr rs"
  shows "case decode_from cpu rs shares of
      Inl (TooFewShares h w) \<Rightarrow> h = length shares \<and> w = k \<and> length shares < k
    | Inl (InvalidShareIndex i w) \<Rightarrow> w = n \<and> n \<le> i \<and> i \<in> fst ` set shares
    | Inl (ShareSize i g w) \<Rightarrow> w = ss \<and> g \<noteq> ss \<and> (\<exists>(j, d) \<in> set shares. j = i \<and> length d = g)
    | Inl (DuplicateShare i) \<Rightarrow> i \<in> fst ` set shares \<and> \<not> distinct (map fst shares)
    | Inl _ \<Rightarrow> False
    | Inr stripe \<Rightarrow> length stripe = k * ss \<and> k \<le> length shares \<and> distinct (map fst shares) \<and>
        (\<forall>(i, d) \<in> set shares. i < n \<and> length d = ss)"
proof -
  have v: "valid_rs rs" "rs_k rs = k" "rs_n rs = n" "share_size rs = ss"
    using new_rs_valid[OF assms(1)] by auto
  let ?ord = "sort_key fst shares"
  show ?thesis
  proof (cases "length shares < k")
    case True
    then show ?thesis by (simp add: decode_from_def v)
  next
    case k: False
    show ?thesis
    proof (cases "check_indexed rs shares")
      case (Inl e)
      then show ?thesis using check_indexed_error[OF Inl] k v by (force simp: decode_from_def split: Error.splits)
    next
      case (Inr u)
      then have ok: "\<forall>x \<in> set shares. fst x < n \<and> length (snd x) = ss"
        using check_indexed_ok_iff v by (metis old.unit.exhaust)
      show ?thesis
      proof (cases "first_adjacent_dup (map fst ?ord)")
        case (Some i)
        then have "i \<in> fst ` set shares \<and> \<not> distinct (map fst shares)"
          using first_adjacent_dup_Some[OF Some] by (auto simp: distinct_map_sort_key)
        then show ?thesis using k v Inr Some by (simp add: decode_from_def)
      next
        case None
        then have d: "distinct (map fst shares)"
          using first_adjacent_dup_None[of "map fst ?ord"] by (simp add: distinct_map_sort_key)
        obtain stripe where "rebuild cpu rs ?ord = Inr stripe" "length stripe = k * ss"
          using rebuild_total[OF v(1) _ _ _, of shares cpu] d k ok v by (auto simp: stripe_size_def)
        then show ?thesis using k v Inr None d ok by (auto simp: decode_from_def)
      qed
    qed
  qed
qed

theorem decode_from_error_iff_witness:
  "decode_from Portable rs23 [(0, [7])] = Inl (TooFewShares 1 2) \<and> length [(0 :: nat, [7 :: u8])] < 2"
  using decode_from_error_iff[OF new_rs23, where cpu = Portable and shares = "[(0, [7])]"]
  by (simp add: decode_from_def rs23_def)

end
