(* ===== verification/Drpc_Frame.thy ===== *)
theory Drpc_Frame
  imports Codecs Utf8 Varint_Bits
begin

text \<open>
  The DRPC wire format, \<open>crates/storj-rpc/src/frame.rs\<close>: varints, the frame header, parsing and
  appending frames, splitting a packet into frames and \<open>PacketAssembler\<close>, which puts packets
  together again.  Varints and frames are interpreted as stream codecs; the main results are that
  any sequence of frames is read back frame by frame whatever is left over at the end of the
  buffer, and that the assembler rebuilds a split packet and hands packets out in strictly
  increasing order of their ids.
\<close>

section \<open>The code\<close>

subsection \<open>Constants and types\<close>

definition DRPC_TLS_MUX_PREFIX :: bytes where
  "DRPC_TLS_MUX_PREFIX = bstr ''DRPC!!!1''"

definition MAX_PACKET_SIZE :: nat where
  "MAX_PACKET_SIZE = 4194304"

definition DEFAULT_SPLIT_SIZE :: nat where
  "DEFAULT_SPLIT_SIZE = 64 * 1024"

definition HEADER_CONTROL :: u8 where "HEADER_CONTROL = 0x80"
definition HEADER_KIND_MASK :: u8 where "HEADER_KIND_MASK = 0x7E"
definition HEADER_DONE :: u8 where "HEADER_DONE = 0x01"

datatype Kind = Kind u8

definition INVOKE :: Kind where "INVOKE = Kind 1"
definition MESSAGE :: Kind where "MESSAGE = Kind 2"
definition ERROR :: Kind where "ERROR = Kind 3"
definition CANCEL :: Kind where "CANCEL = Kind 4"
definition CLOSE :: Kind where "CLOSE = Kind 5"
definition CLOSE_SEND :: Kind where "CLOSE_SEND = Kind 6"
definition INVOKE_METADATA :: Kind where "INVOKE_METADATA = Kind 7"

lemmas kind_defs = INVOKE_def MESSAGE_def ERROR_def CANCEL_def CLOSE_def CLOSE_SEND_def INVOKE_METADATA_def

definition from_header :: "u8 \<Rightarrow> Kind" where
  "from_header header = Kind (drop_bit 1 (header AND HEADER_KIND_MASK))"

fun to_header_bits :: "Kind \<Rightarrow> u8" where
  "to_header_bits (Kind k) = push_bit 1 (k AND 0x3F)"

record Frame =
  f_stream_id :: u64
  f_message_id :: u64
  f_kind :: Kind
  f_done :: bool
  f_control :: bool
  f_data :: bytes

record Packet =
  stream_id :: u64
  message_id :: u64
  kind :: Kind
  control :: bool
  data :: bytes

datatype FrameError = VarintTooLong | Monotonicity | KindChange | Overflow

subsection \<open>Varints\<close>

text \<open>The loop of \<open>read_varint\<close>, with the position, the value so far and the shift.\<close>

fun read_varint_from :: "bytes \<Rightarrow> nat \<Rightarrow> u64 \<Rightarrow> nat \<Rightarrow> FrameError + (u64 \<times> nat) option" where
  "read_varint_from [] i out shift = Inr None"
| "read_varint_from (b # bs) i out shift =
    (if shift \<ge> 64 then Inl VarintTooLong
     else let val = ucast b :: u64;
              out = out OR push_bit shift (val AND 127)
          in if val < 128 then Inr (Some (out, i + 1))
             else let shift = shift + 7
                  in if shift \<ge> 64 then Inl VarintTooLong else read_varint_from bs (i + 1) out shift)"

definition read_varint :: "bytes \<Rightarrow> FrameError + (u64 \<times> nat) option" where
  "read_varint buf = read_varint_from buf 0 0 0"

function append_varint :: "bytes \<Rightarrow> u64 \<Rightarrow> bytes" where
  "append_varint buf x =
    (if x \<ge> 128 then append_varint (buf @ [(ucast x AND 127) OR 128]) (drop_bit 7 x)
     else buf @ [ucast x])"
  by pat_completeness auto
termination
  by (relation "measure (\<lambda>(_, x). unat x)")
     (auto simp: drop_bit_eq_div word_le_nat_alt unat_div)

declare append_varint.simps [simp del]

subsection \<open>Frames\<close>

definition parse_frame :: "bytes \<Rightarrow> FrameError + (Frame \<times> nat) option" where
  "parse_frame buf =
    (if buf = [] then Inr None
     else let header = buf ! 0; offset = 1
     in try_bind (read_varint (drop offset buf)) (\<lambda>r1. case r1 of None \<Rightarrow> Inr None | Some (stream, n) \<Rightarrow>
        let offset = offset + n
        in try_bind (read_varint (drop offset buf)) (\<lambda>r2. case r2 of None \<Rightarrow> Inr None | Some (message, n) \<Rightarrow>
        let offset = offset + n
        in try_bind (read_varint (drop offset buf)) (\<lambda>r3. case r3 of None \<Rightarrow> Inr None | Some (len64, n) \<Rightarrow>
        let offset = offset + n;
            len = unat len64
        in if len > MAX_PACKET_SIZE then Inl Overflow
           else if length buf - offset < len then Inr None
           else Inr (Some (\<lparr>f_stream_id = stream, f_message_id = message, f_kind = from_header header,
                            f_done = (header AND HEADER_DONE \<noteq> 0), f_control = (header AND HEADER_CONTROL \<noteq> 0),
                            f_data = sub_slice buf offset (offset + len)\<rparr>, offset + len))))))"

definition append_frame_parts ::
  "bytes \<Rightarrow> u64 \<Rightarrow> u64 \<Rightarrow> Kind \<Rightarrow> bool \<Rightarrow> bool \<Rightarrow> bytes \<Rightarrow> bytes" where
  "append_frame_parts buf stream message knd done ctl dat =
    (let header = to_header_bits knd;
         header = (if done then header OR HEADER_DONE else header);
         header = (if ctl then header OR HEADER_CONTROL else header);
         buf = buf @ [header];
         buf = append_varint buf stream;
         buf = append_varint buf message;
         buf = append_varint buf (of_nat (length dat))
     in buf @ dat)"

definition append_frame :: "bytes \<Rightarrow> Frame \<Rightarrow> bytes" where
  "append_frame buf f =
    append_frame_parts buf (f_stream_id f) (f_message_id f) (f_kind f) (f_done f) (f_control f) (f_data f)"

text \<open>
  The loop of \<open>append_packet_data\<close>.  A chunk size of 0 cannot occur (0 stands for the default); the
  recursion is on the data left.
\<close>

function append_chunks :: "bytes \<Rightarrow> u64 \<Rightarrow> u64 \<Rightarrow> Kind \<Rightarrow> bool \<Rightarrow> nat \<Rightarrow> bytes \<Rightarrow> bytes" where
  "append_chunks buf stream message knd ctl n dat =
    (let (chunk, rest) = (if length dat > n then (take n dat, drop n dat) else (dat, []));
         buf = append_frame_parts buf stream message knd (rest = []) ctl chunk
     in if rest = [] \<or> n = 0 then buf else append_chunks buf stream message knd ctl n rest)"
  by pat_completeness auto
termination
  by (relation "measure (\<lambda>(_, _, _, _, _, _, dat). length dat)") (auto split: if_splits)

declare append_chunks.simps [simp del]

definition append_packet_data :: "bytes \<Rightarrow> u64 \<Rightarrow> u64 \<Rightarrow> Kind \<Rightarrow> bool \<Rightarrow> bytes \<Rightarrow> nat \<Rightarrow> bytes" where
  "append_packet_data buf stream message knd ctl dat split =
    (let n = (if split = 0 then DEFAULT_SPLIT_SIZE else split)
     in append_chunks buf stream message knd ctl n dat)"

definition append_packet :: "bytes \<Rightarrow> Packet \<Rightarrow> nat \<Rightarrow> bytes" where
  "append_packet buf pkt split =
    append_packet_data buf (stream_id pkt) (message_id pkt) (kind pkt) (control pkt) (data pkt) split"

subsection \<open>Reassembly\<close>

definition id_less :: "u64 \<Rightarrow> u64 \<Rightarrow> u64 \<Rightarrow> u64 \<Rightarrow> bool" where
  "id_less a_stream a_message b_stream b_message \<longleftrightarrow>
    a_stream < b_stream \<or> (a_stream = b_stream \<and> a_message < b_message)"

record PacketAssembler =
  last_stream :: u64
  last_message :: u64
  current :: "Packet option"
  max_data :: nat

definition default_assembler :: PacketAssembler where
  "default_assembler = \<lparr>last_stream = 1, last_message = 1, current = None, max_data = MAX_PACKET_SIZE\<rparr>"

definition saturating_succ :: "u64 \<Rightarrow> u64" where
  "saturating_succ x = (if x = - 1 then x else x + 1)"

text \<open>The second half of \<open>push\<close>: the size check, and handing out the packet of a last frame.\<close>

definition finish_push :: "bool \<Rightarrow> PacketAssembler \<Rightarrow> (FrameError + Packet option) \<times> PacketAssembler" where
  "finish_push done a =
    (let len = (case current a of None \<Rightarrow> 0 | Some pkt \<Rightarrow> length (data pkt))
     in if len > max_data a then (Inl Overflow, a)
        else if done then (Inr (current a), a\<lparr>last_message := saturating_succ (last_message a), current := None\<rparr>)
        else (Inr None, a))"

definition push :: "PacketAssembler \<Rightarrow> Frame \<Rightarrow> (FrameError + Packet option) \<times> PacketAssembler" where
  "push a fr =
    (if id_less (f_stream_id fr) (f_message_id fr) (last_stream a) (last_message a) then (Inl Monotonicity, a)
     else let same_id = (f_stream_id fr = last_stream a \<and> f_message_id fr = last_message a)
     in case (if same_id then current a else None) of
          None \<Rightarrow>
            finish_push (f_done fr)
              (a\<lparr>last_stream := f_stream_id fr, last_message := f_message_id fr,
                 current := Some \<lparr>stream_id = f_stream_id fr, message_id = f_message_id fr, kind = f_kind fr,
                                  control = f_control fr, data = f_data fr\<rparr>\<rparr>)
        | Some pkt \<Rightarrow>
            (if kind pkt \<noteq> f_kind fr then (Inl KindChange, a)
             else let pkt = pkt\<lparr>control := (control pkt \<or> f_control fr)\<rparr>
             in if length (data pkt) + length (f_data fr) > max_data a
                then (Inl Overflow, a\<lparr>current := Some pkt\<rparr>)
                else finish_push (f_done fr) (a\<lparr>current := Some (pkt\<lparr>data := data pkt @ f_data fr\<rparr>)\<rparr>)))"

definition in_progress :: "PacketAssembler \<Rightarrow> bool" where
  "in_progress a \<longleftrightarrow> current a \<noteq> None"

subsection \<open>Error payloads\<close>

definition be_bytes64 :: "u64 \<Rightarrow> bytes" where
  "be_bytes64 x = map (\<lambda>i. ucast (drop_bit (8 * (7 - i)) x)) [0..<8]"

definition from_be_bytes64 :: "bytes \<Rightarrow> u64" where
  "from_be_bytes64 bs = fold (\<lambda>b acc. push_bit 8 acc OR ucast b) bs 0"

definition unmarshal_error :: "bytes \<Rightarrow> u64 \<times> bytes" where
  "unmarshal_error dat =
    (if length dat < 8 then (0, from_utf8_lossy dat)
     else let code = from_be_bytes64 (take 8 dat);
              message = from_utf8_lossy (drop 8 dat)
          in (code, message))"

definition marshal_error :: "u64 \<Rightarrow> bytes \<Rightarrow> bytes" where
  "marshal_error code message = be_bytes64 code @ message"

section \<open>Varints are a stream codec\<close>

definition varint :: "u64 \<Rightarrow> bytes" where
  "varint x = append_varint [] x"

lemma append_varint_append: "append_varint (b @ buf) x = b @ append_varint buf x"
proof (induction buf x rule: append_varint.induct)
  case (1 buf x)
  then show ?case
    by (subst append_varint.simps, subst (2) append_varint.simps) simp
qed

lemma append_varint_eq: "append_varint buf x = buf @ varint x"
  using append_varint_append[of buf "[]" x] by (simp add: varint_def)

lemma varint_rec:
  "varint x = (if x \<ge> 128 then ((ucast x AND 127) OR 128) # varint (drop_bit 7 x) else [ucast x])"
  by (subst varint_def, subst append_varint.simps) (simp add: append_varint_eq)

lemma varint_small: "x < 128 \<Longrightarrow> varint x = [ucast x]"
  by (metis varint_rec leD)

lemma read_varint_step:
  assumes "shift + 7 < 64"
  shows "read_varint_from (((ucast x AND 127) OR 128) # bs) i out shift =
    read_varint_from bs (i + 1) (out OR push_bit shift (x AND 127)) (shift + 7)"
proof -
  have "\<not> shift \<ge> 64" "\<not> shift + 7 \<ge> 64" using assms by auto
  then show ?thesis
    by (simp only: read_varint_from.simps Let_def varint_byte_high varint_byte_low if_False)
qed

lemma read_varint_from_varint:
  "shift < 64 \<Longrightarrow> unat x < 2 ^ (64 - shift) \<Longrightarrow>
    read_varint_from (varint x @ rest) i out shift = Inr (Some (out OR push_bit shift x, i + length (varint x)))"
proof (induction x arbitrary: i out shift rule: varint_induct)
  case (small x)
  have "varint x = [ucast x]" using small(1) by (rule varint_small)
  moreover have "push_bit shift x AND push_bit shift 127 = push_bit shift x"
    using varint_byte_last(2)[OF small(1)] by (metis push_bit_and)
  ultimately show ?case using small by (simp add: varint_byte_last)
next
  case (large x)
  have 7: "shift + 7 < 64" "unat (drop_bit 7 x) < 2 ^ (64 - (shift + 7))"
    using drop7_bound[OF large(1)] large.prems by auto
  have "read_varint_from (varint x @ rest) i out shift =
      read_varint_from (varint (drop_bit 7 x) @ rest) (i + 1) (out OR push_bit shift (x AND 127)) (shift + 7)"
    using large(1) read_varint_step[OF 7(1)] by (subst varint_rec) simp
  also have "\<dots> = Inr (Some ((out OR push_bit shift (x AND 127)) OR push_bit (shift + 7) (drop_bit 7 x),
      i + 1 + length (varint (drop_bit 7 x))))"
    using 7 by (intro large.IH) auto
  also have "(out OR push_bit shift (x AND 127)) OR push_bit (shift + 7) (drop_bit 7 x) = out OR push_bit shift x"
    by (simp only: or.assoc varint_shift)
  finally show ?case using large(1) by (subst (2) varint_rec) simp
qed

lemma read_varint_from_part:
  "shift < 64 \<Longrightarrow> unat x < 2 ^ (64 - shift) \<Longrightarrow> varint x = p @ q \<Longrightarrow> q \<noteq> [] \<Longrightarrow>
    read_varint_from p i out shift = Inr None"
proof (induction x arbitrary: p i out shift rule: varint_induct)
  case (small x)
  have "varint x = [ucast x]" using small(1) by (rule varint_small)
  then show ?case using small.prems by (cases p) auto
next
  case (large x)
  have 7: "shift + 7 < 64" "unat (drop_bit 7 x) < 2 ^ (64 - (shift + 7))"
    using drop7_bound[OF large(1)] large.prems by auto
  have v: "varint x = ((ucast x AND 127) OR 128) # varint (drop_bit 7 x)"
    using large(1) by (subst varint_rec) simp
  show ?case
  proof (cases p)
    case (Cons b p')
    then have b: "b = (ucast x AND 127) OR 128" and p': "varint (drop_bit 7 x) = p' @ q"
      using v large.prems(3) by auto
    have "read_varint_from p' (i + 1) (out OR push_bit shift (x AND 127)) (shift + 7) = Inr None"
      using large.IH[OF 7 p' large.prems(4)] .
    then show ?thesis using read_varint_step[OF 7(1)] by (simp only: Cons b)
  qed simp
qed

lemma read_varint_varint: "read_varint (varint x @ rest) = Inr (Some (x, length (varint x)))"
  using read_varint_from_varint[of 0 x rest 0 0] unsigned_less[of x, where 'a = nat]
  by (simp add: read_varint_def)

lemma read_varint_part: "varint x = p @ q \<Longrightarrow> q \<noteq> [] \<Longrightarrow> read_varint p = Inr None"
  using read_varint_from_part[of 0 x p q 0 0] unsigned_less[of x, where 'a = nat]
  by (simp add: read_varint_def)

interpretation varint: stream_codec varint read_varint "\<lambda>_. True"
  by unfold_locales (simp_all add: read_varint_varint read_varint_part, simp add: read_varint_def)

text \<open>What the reader takes: at most ten bytes, never more than there are.\<close>

lemma read_varint_from_bounds:
  "read_varint_from bs i out shift = Inr (Some (x, n)) \<Longrightarrow> i < n \<and> n \<le> i + length bs \<and> shift + 7 * (n - i) < 71"
proof (induction bs i out shift rule: read_varint_from.induct)
  case (2 b bs i out shift)
  then show ?case by (force split: if_splits)
qed simp

lemma read_varint_bounds: "read_varint bs = Inr (Some (x, n)) \<Longrightarrow> 0 < n \<and> n \<le> length bs \<and> n \<le> 10"
  using read_varint_from_bounds[of bs 0 0 0 x n] by (simp add: read_varint_def)

lemma read_varint_from_None:
  "read_varint_from bs i out shift = Inr None \<Longrightarrow> shift < 64 \<Longrightarrow> shift + 7 * length bs < 64"
  by (induction bs i out shift rule: read_varint_from.induct) (auto split: if_splits)

lemma read_varint_None: "read_varint bs = Inr None \<Longrightarrow> length bs \<le> 9"
  using read_varint_from_None[of bs 0 0 0] by (simp add: read_varint_def)

section \<open>Frames are a stream codec\<close>

definition frame_bytes :: "Frame \<Rightarrow> bytes" where
  "frame_bytes f = append_frame [] f"

text \<open>A frame that the program can send: its kind fits six bits, its payload the packet limit.\<close>

fun kind_ok :: "Kind \<Rightarrow> bool" where
  "kind_ok (Kind k) \<longleftrightarrow> k < 64"

definition frame_ok :: "Frame \<Rightarrow> bool" where
  "frame_ok f \<longleftrightarrow> kind_ok (f_kind f) \<and> length (f_data f) \<le> MAX_PACKET_SIZE"

definition header_byte :: "Kind \<Rightarrow> bool \<Rightarrow> bool \<Rightarrow> u8" where
  "header_byte knd done ctl =
    (let h = to_header_bits knd; h = (if done then h OR HEADER_DONE else h)
     in if ctl then h OR HEADER_CONTROL else h)"

lemma append_frame_parts_eq:
  "append_frame_parts buf s m knd done ctl dat =
    buf @ header_byte knd done ctl # varint s @ varint m @ varint (of_nat (length dat)) @ dat"
  by (simp add: append_frame_parts_def header_byte_def append_varint_eq)

lemma append_frame_eq: "append_frame buf f = buf @ frame_bytes f"
  by (simp add: append_frame_def frame_bytes_def append_frame_parts_eq)

lemma frame_bytes_eq:
  "frame_bytes f = header_byte (f_kind f) (f_done f) (f_control f) # varint (f_stream_id f) @
    varint (f_message_id f) @ varint (of_nat (length (f_data f))) @ f_data f"
  by (simp add: frame_bytes_def append_frame_def append_frame_parts_eq)

lemma byte_bit_cases: "(n :: nat) < 8 \<Longrightarrow> n = 0 \<or> n = 1 \<or> n = 2 \<or> n = 3 \<or> n = 4 \<or> n = 5 \<or> n = 6 \<or> n = 7"
  by auto

lemma six_bits:
  assumes "k < (64 :: u8)"
  shows "\<not> bit k 6" and "\<not> bit k 7"
proof -
  have "k AND mask 6 = k" using assms by (intro less_mask_eq) simp
  then have "bit k n \<longleftrightarrow> bit (k AND mask 6) n" for n by simp
  from this[of 6] this[of 7] show "\<not> bit k 6" and "\<not> bit k 7"
    by (simp_all add: bit_and_iff bit_mask_iff)
qed

lemma to_header_bits_bit:
  "n < 8 \<Longrightarrow> bit (to_header_bits (Kind k)) n \<longleftrightarrow> 1 \<le> n \<and> n - 1 < 6 \<and> bit k (n - 1)"
proof -
  have m: "(0x3F :: u8) = mask 6" by (simp add: mask_eq_exp_minus_1)
  assume "n < 8"
  then show ?thesis
    unfolding to_header_bits.simps m by (simp only: bit_push_bit_iff bit_and_iff bit_mask_iff) (auto simp: possible_bit_def)
qed

lemma header_fields:
  assumes "kind_ok knd"
  shows "from_header (header_byte knd done ctl) = knd"
    and "header_byte knd done ctl AND HEADER_DONE \<noteq> 0 \<longleftrightarrow> done"
    and "header_byte knd done ctl AND HEADER_CONTROL \<noteq> 0 \<longleftrightarrow> ctl"
proof -
  obtain k where k: "knd = Kind k" "k < 64" using assms by (cases knd) auto
  have b: "bit (header_byte knd done ctl) n \<longleftrightarrow>
      (if n = 0 then done else if n = 7 then ctl else bit k (n - 1))" if "n < 8" for n
    using byte_bit_cases[OF that] six_bits[OF k(2)]
    by (elim disjE) (simp_all add: k(1) header_byte_def HEADER_DONE_def HEADER_CONTROL_def bit_or_iff
        to_header_bits_bit del: to_header_bits.simps)
  show "from_header (header_byte knd done ctl) = knd"
    unfolding from_header_def k(1) Kind.inject
  proof (rule bit_word_eqI)
    fix n assume "n < LENGTH(8)"
    then have n: "n < 8" by simp
    show "bit (drop_bit 1 (header_byte (Kind k) done ctl AND HEADER_KIND_MASK)) n = bit k n"
      using byte_bit_cases[OF n] six_bits[OF k(2)]
      by (elim disjE) (simp_all add: bit_drop_bit_eq bit_and_iff b[unfolded k(1)] HEADER_KIND_MASK_def
        numeral_2_eq_2[symmetric])
  qed
  have "header_byte knd done ctl AND HEADER_DONE \<noteq> 0 \<longleftrightarrow> bit (header_byte knd done ctl) 0"
    by (simp add: HEADER_DONE_def and_one_eq bit_0 odd_iff_mod_2_eq_one)
  then show "header_byte knd done ctl AND HEADER_DONE \<noteq> 0 \<longleftrightarrow> done" by (simp add: b)
  have "header_byte knd done ctl AND HEADER_CONTROL \<noteq> 0 \<longleftrightarrow> bit (header_byte knd done ctl) 7"
  proof -
    have "(header_byte knd done ctl AND 2 ^ 7 = 0) = (\<not> bit (header_byte knd done ctl) 7)"
      by (rule and_exp_eq_0_iff_not_bit)
    then show ?thesis by (simp add: HEADER_CONTROL_def)
  qed
  then show "header_byte knd done ctl AND HEADER_CONTROL \<noteq> 0 \<longleftrightarrow> ctl" by (simp add: b)
qed

lemma unat_of_nat_small: "n \<le> MAX_PACKET_SIZE \<Longrightarrow> unat (of_nat n :: u64) = n"
  by (simp add: MAX_PACKET_SIZE_def unsigned_of_nat take_bit_nat_eq_self)

lemma parse_frame_bytes:
  assumes "frame_ok f"
  shows "parse_frame (frame_bytes f @ rest) = Inr (Some (f, length (frame_bytes f)))"
proof -
  let ?s = "varint (f_stream_id f)" and ?m = "varint (f_message_id f)"
    and ?l = "varint (of_nat (length (f_data f)))" and ?h = "header_byte (f_kind f) (f_done f) (f_control f)"
  have k: "kind_ok (f_kind f)" and len: "length (f_data f) \<le> MAX_PACKET_SIZE"
    using assms by (auto simp: frame_ok_def)
  have buf: "frame_bytes f @ rest = ?h # ?s @ ?m @ ?l @ f_data f @ rest"
    by (simp add: frame_bytes_eq)
  have d: "drop (1 + length ?s) (?h # ?s @ r) = r" "drop (1 + length ?s + length ?m) (?h # ?s @ ?m @ r) = r" for r
    by simp_all
  show ?thesis
    unfolding buf parse_frame_def
    using unat_of_nat_small[OF len] len
    by (simp add: read_varint_varint d header_fields[OF k] sub_slice_def frame_bytes_eq)
qed

lemma append_eq_append_cases:
  assumes "p @ q = a @ b" and "q \<noteq> []"
  obtains (short) a' where "a = p @ a'" "a' \<noteq> []" | (long) p' where "p = a @ p'" "p' @ q = b"
proof -
  from assms(1) obtain us where "(p = a @ us \<and> us @ q = b) \<or> (p @ us = a \<and> q = us @ b)"
    by (auto simp: append_eq_append_conv2)
  then show thesis using short long by (cases "us = []") auto
qed

lemma parse_frame_part:
  assumes "frame_ok f" and "frame_bytes f = p @ q" and "q \<noteq> []"
  shows "parse_frame p = Inr None"
proof (cases p)
  case (Cons h p1)
  let ?s = "varint (f_stream_id f)" and ?m = "varint (f_message_id f)"
    and ?l = "varint (of_nat (length (f_data f)))"
  have len: "length (f_data f) \<le> MAX_PACKET_SIZE" using assms by (auto simp: frame_ok_def)
  have eq: "p1 @ q = ?s @ ?m @ ?l @ f_data f" using assms(2) Cons by (simp add: frame_bytes_eq)
  from eq assms(3) show ?thesis
  proof (cases rule: append_eq_append_cases)
    case (short a)
    then show ?thesis using read_varint_part[of "f_stream_id f" p1 a] by (simp add: parse_frame_def Cons)
  next
    case s: (long p2)
    from s(2) assms(3) show ?thesis
    proof (cases rule: append_eq_append_cases)
      case (short a)
      then show ?thesis
        using read_varint_part[of "f_message_id f" p2 a] s by (simp add: parse_frame_def Cons read_varint_varint)
    next
      case m: (long p3)
      from m(2) assms(3) show ?thesis
      proof (cases rule: append_eq_append_cases)
        case (short a)
        then show ?thesis
          using read_varint_part[of "of_nat (length (f_data f))" p3 a] s m
          by (simp add: parse_frame_def Cons read_varint_varint)
      next
        case l: (long p4)
        then have "length p4 < length (f_data f)" using assms(3) by (metis length_append length_greater_0_conv less_add_same_cancel1)
        then show ?thesis
          using s m l len by (simp add: parse_frame_def Cons read_varint_varint unat_of_nat_small)
      qed
    qed
  qed
qed (simp add: parse_frame_def)

interpretation frames: stream_codec frame_bytes parse_frame frame_ok
  by unfold_locales (simp_all add: parse_frame_bytes parse_frame_part, simp add: parse_frame_def)

text \<open>A successful parse stays inside the buffer; a buffer without a whole frame is bounded.\<close>

lemma parse_frame_Some:
  assumes "parse_frame buf = Inr (Some (f, n))"
  shows "0 < n \<and> n \<le> length buf \<and> frame_ok f"
proof -
  have ne: "buf \<noteq> []" using assms by (auto simp: parse_frame_def)
  obtain s n1 where r1: "read_varint (drop 1 buf) = Inr (Some (s, n1))"
    using assms ne by (auto simp: parse_frame_def try_bind_eq_Inr split: option.splits)
  obtain m n2 where r2: "read_varint (drop (1 + n1) buf) = Inr (Some (m, n2))"
    using assms ne r1 by (auto simp: parse_frame_def try_bind_eq_Inr split: option.splits)
  obtain l n3 where r3: "read_varint (drop (1 + n1 + n2) buf) = Inr (Some (l, n3))"
    using assms ne r1 r2 by (auto simp: parse_frame_def try_bind_eq_Inr split: option.splits)
  have len: "unat l \<le> MAX_PACKET_SIZE" "\<not> length buf - (1 + n1 + n2 + n3) < unat l"
    and n: "n = 1 + n1 + n2 + n3 + unat l"
    and f: "f_data f = sub_slice buf (1 + n1 + n2 + n3) (1 + n1 + n2 + n3 + unat l)" "f_kind f = from_header (buf ! 0)"
    using assms ne r1 r2 r3 by (auto simp: parse_frame_def split: if_splits)
  have b: "n3 \<le> length (drop (1 + n1 + n2) buf)" "0 < n3" using read_varint_bounds[OF r3] by auto
  have "drop_bit 1 (buf ! 0 AND HEADER_KIND_MASK) < 64"
  proof -
    have "unat (buf ! 0 AND HEADER_KIND_MASK) \<le> unat HEADER_KIND_MASK"
      by (metis word_and_le2 word_bw_comms(1) word_le_nat_alt)
    then show ?thesis by (simp add: HEADER_KIND_MASK_def word_less_nat_alt drop_bit_eq_div unat_div)
  qed
  then show ?thesis
    using b len n f by (auto simp: frame_ok_def from_header_def length_sub_slice)
qed

lemma parse_frame_None:
  assumes "parse_frame buf = Inr None"
  shows "length buf \<le> MAX_PACKET_SIZE + 30"
proof -
  show ?thesis
  proof (cases "buf = [] \<or> read_varint (drop 1 buf) = Inr None")
    case True
    then show ?thesis using read_varint_None[of "drop 1 buf"] by auto
  next
    case False
    then obtain s n1 where r1: "read_varint (drop 1 buf) = Inr (Some (s, n1))"
      using assms by (auto simp: parse_frame_def try_bind_eq_Inr)
    show ?thesis
    proof (cases "read_varint (drop (1 + n1) buf) = Inr None")
      case True
      then show ?thesis using read_varint_None[OF True] read_varint_bounds[OF r1] by (auto simp: MAX_PACKET_SIZE_def)
    next
      case r2': False
      then obtain m n2 where r2: "read_varint (drop (1 + n1) buf) = Inr (Some (m, n2))"
        using assms False r1 by (auto simp: parse_frame_def try_bind_eq_Inr)
      show ?thesis
      proof (cases "read_varint (drop (1 + n1 + n2) buf) = Inr None")
        case True
        then show ?thesis using read_varint_None[OF True] read_varint_bounds[OF r1] read_varint_bounds[OF r2]
          by (auto simp: MAX_PACKET_SIZE_def)
      next
        case r3': False
        then obtain l n3 where r3: "read_varint (drop (1 + n1 + n2) buf) = Inr (Some (l, n3))"
          using assms False r1 r2 by (auto simp: parse_frame_def try_bind_eq_Inr)
        then have "unat l \<le> MAX_PACKET_SIZE" "length buf - (1 + n1 + n2 + n3) < unat l"
          using assms False r1 r2 by (auto simp: parse_frame_def split: if_splits)
        then show ?thesis
          using read_varint_bounds[OF r1] read_varint_bounds[OF r2] read_varint_bounds[OF r3] by auto
      qed
    qed
  qed
qed

section \<open>Splitting and reassembling a packet\<close>

text \<open>The frames of a packet, as a specification of \<open>append_packet_data\<close>.\<close>

definition mk_frame :: "Packet \<Rightarrow> bool \<Rightarrow> bytes \<Rightarrow> Frame" where
  "mk_frame pkt done dat = \<lparr>f_stream_id = stream_id pkt, f_message_id = message_id pkt, f_kind = kind pkt,
     f_done = done, f_control = control pkt, f_data = dat\<rparr>"

function packet_frames :: "Packet \<Rightarrow> nat \<Rightarrow> bytes \<Rightarrow> Frame list" where
  "packet_frames pkt n dat =
    (if 0 < n \<and> n < length dat then mk_frame pkt False (take n dat) # packet_frames pkt n (drop n dat)
     else [mk_frame pkt True dat])"
  by pat_completeness auto
termination by (relation "measure (\<lambda>(_, _, dat). length dat)") auto

declare packet_frames.simps [simp del]

lemma append_chunks_eq:
  "0 < n \<Longrightarrow> append_chunks buf (stream_id pkt) (message_id pkt) (kind pkt) (control pkt) n dat =
    buf @ concat (map frame_bytes (packet_frames pkt n dat))"
proof (induction pkt n dat arbitrary: buf rule: packet_frames.induct)
  case (1 pkt n dat)
  have part: "append_frame_parts buf (stream_id pkt) (message_id pkt) (kind pkt) fin (control pkt) d =
      buf @ frame_bytes (mk_frame pkt fin d)" for buf fin d
    by (simp add: frame_bytes_eq mk_frame_def append_frame_parts_eq)
  show ?case
  proof (cases "0 < n \<and> n < length dat")
    case True
    then show ?thesis
      using 1(1)[OF True, of "buf @ frame_bytes (mk_frame pkt False (take n dat))"] part[of buf False "take n dat"]
      by (subst append_chunks.simps, subst packet_frames.simps) simp
  next
    case False
    then show ?thesis
      by (subst append_chunks.simps, subst packet_frames.simps)
         (use part[of buf True dat] 1 in auto)
  qed
qed

lemma packet_frames_ok:
  "kind_ok (kind pkt) \<Longrightarrow> length dat \<le> MAX_PACKET_SIZE \<Longrightarrow> list_all frame_ok (packet_frames pkt n dat)"
proof (induction pkt n dat rule: packet_frames.induct)
  case (1 pkt n dat)
  then have "frame_ok (mk_frame pkt False (take n dat))" "frame_ok (mk_frame pkt True dat)"
    by (simp_all add: frame_ok_def mk_frame_def)
  then show ?case
    using 1 by (subst packet_frames.simps) auto
qed

fun push_all :: "PacketAssembler \<Rightarrow> Frame list \<Rightarrow> (FrameError + Packet list) \<times> PacketAssembler" where
  "push_all a [] = (Inr [], a)"
| "push_all a (f # fs) =
    (case push a f of
       (Inl e, a') \<Rightarrow> (Inl e, a')
     | (Inr out, a') \<Rightarrow>
       (case push_all a' fs of
          (Inl e, a'') \<Rightarrow> (Inl e, a'')
        | (Inr ps, a'') \<Rightarrow> (Inr ((case out of None \<Rightarrow> [] | Some p \<Rightarrow> [p]) @ ps), a'')))"

text \<open>A packet half received: its last chunks complete it.\<close>

lemma push_all_rest:
  assumes "last_stream a = stream_id pkt" "last_message a = message_id pkt"
    and "current a = Some (pkt\<lparr>data := acc\<rparr>)" and "length acc + length dat \<le> max_data a"
  shows "push_all a (packet_frames pkt n dat) =
    (Inr [pkt\<lparr>data := acc @ dat\<rparr>], a\<lparr>last_message := saturating_succ (message_id pkt), current := None\<rparr>)"
  using assms
proof (induction pkt n dat arbitrary: a acc rule: packet_frames.induct)
  case (1 pkt n dat)
  show ?case
  proof (cases "0 < n \<and> n < length dat")
    case True
    let ?a = "a\<lparr>current := Some (pkt\<lparr>data := acc @ take n dat\<rparr>)\<rparr>"
    have "push a (mk_frame pkt False (take n dat)) = (Inr None, ?a)"
      using 1(2-5) True by (simp add: push_def mk_frame_def id_less_def finish_push_def)
    then show ?thesis
      using 1(1)[OF True, of ?a "acc @ take n dat"] 1(2-5) True
      by (subst packet_frames.simps) simp
  next
    case False
    then show ?thesis
      using 1(2-5) by (subst packet_frames.simps) (auto simp: push_def mk_frame_def id_less_def finish_push_def)
  qed
qed

lemma push_all_packet:
  assumes "current a = None" and "\<not> id_less (stream_id pkt) (message_id pkt) (last_stream a) (last_message a)"
    and "length (data pkt) \<le> max_data a"
  shows "push_all a (packet_frames pkt n (data pkt)) = (Inr [pkt],
    a\<lparr>last_stream := stream_id pkt, last_message := saturating_succ (message_id pkt), current := None\<rparr>)"
proof (cases "0 < n \<and> n < length (data pkt)")
  case True
  let ?a = "a\<lparr>last_stream := stream_id pkt, last_message := message_id pkt, current := Some (pkt\<lparr>data := take n (data pkt)\<rparr>)\<rparr>"
  have "push a (mk_frame pkt False (take n (data pkt))) = (Inr None, ?a)"
    using assms True by (simp add: push_def mk_frame_def finish_push_def)
  moreover have "push_all ?a (packet_frames pkt n (drop n (data pkt))) =
      (Inr [pkt\<lparr>data := take n (data pkt) @ drop n (data pkt)\<rparr>], ?a\<lparr>last_message := saturating_succ (message_id pkt), current := None\<rparr>)"
    using assms(3) True by (intro push_all_rest) simp_all
  ultimately show ?thesis using True by (subst packet_frames.simps) simp
next
  case False
  then have "packet_frames pkt n (data pkt) = [mk_frame pkt True (data pkt)]"
    by (subst packet_frames.simps) (simp only: if_False)
  then show ?thesis
    using assms by (simp add: push_def mk_frame_def finish_push_def)
qed

section \<open>The ids of the packets handed out\<close>

text \<open>
  The life of an assembler: it is pushed frames, accepted or refused, and the packets it hands out
  are collected.
\<close>

inductive assembler_run :: "PacketAssembler \<Rightarrow> Packet list \<Rightarrow> bool" where
  start: "assembler_run default_assembler []"
| frame: "assembler_run a out \<Longrightarrow> push a fr = (r, a') \<Longrightarrow>
    assembler_run a' (out @ (case r of Inr (Some p) \<Rightarrow> [p] | _ \<Rightarrow> []))"

inductive_cases assembler_runE: "assembler_run a out"

abbreviation pkt_less :: "Packet \<Rightarrow> Packet \<Rightarrow> bool" where
  "pkt_less p q \<equiv> id_less (stream_id p) (message_id p) (stream_id q) (message_id q)"

text \<open>
  The ids that may follow an id.  Message ids saturate at the largest 64-bit number: there, and only there, the
  same id may come again; otherwise each packet handed out moves the bar past its own id.
\<close>

definition id_after :: "u64 \<Rightarrow> u64 \<Rightarrow> u64 \<Rightarrow> u64 \<Rightarrow> bool" where
  "id_after s m s' m' \<longleftrightarrow> id_less s m s' m' \<or> m = - 1 \<and> s' = s \<and> m' = - 1"

definition assembler_inv :: "PacketAssembler \<Rightarrow> Packet list \<Rightarrow> bool" where
  "assembler_inv a out \<longleftrightarrow> max_data a = MAX_PACKET_SIZE \<and>
    (\<forall>p. current a = Some p \<longrightarrow> stream_id p = last_stream a \<and> message_id p = last_message a) \<and>
    (\<forall>p \<in> set out. length (data p) \<le> MAX_PACKET_SIZE \<and>
       id_after (stream_id p) (message_id p) (last_stream a) (last_message a)) \<and>
    sorted_wrt (\<lambda>p q. id_after (stream_id p) (message_id p) (stream_id q) (message_id q)) out"

lemma id_less_trans:
  "id_less a b c d \<Longrightarrow> \<not> id_less e f c d \<Longrightarrow> id_less a b e f"
  by (auto simp: id_less_def)

lemma id_after_trans: "id_after a b c d \<Longrightarrow> \<not> id_less e f c d \<Longrightarrow> id_after a b e f"
  by (auto simp: id_after_def id_less_def not_less)

lemma id_less_succ: "m \<noteq> - 1 \<Longrightarrow> id_less s m s (saturating_succ m)"
proof -
  assume m: "m \<noteq> - 1"
  have "unat m \<noteq> 2 ^ 64 - 1"
  proof
    assume "unat m = 2 ^ 64 - 1"
    then have "unat m = unat (- 1 :: u64)" by (simp add: unsigned_minus_1_eq_mask mask_eq_exp_minus_1)
    then show False using m by (simp add: word_unat_eq_iff)
  qed
  then have "unat m + 1 < 2 ^ 64" using unsigned_less[of m, where 'a = nat] by simp
  then have "unat (m + 1) = unat m + 1" by (simp add: unat_word_ariths)
  then have "m < m + 1" by (simp add: word_less_nat_alt)
  then show ?thesis using m by (simp add: id_less_def saturating_succ_def)
qed

lemma id_after_succ: "id_after s m s (saturating_succ m)"
  using id_less_succ[of m s] by (cases "m = - 1") (auto simp: id_after_def saturating_succ_def)

lemma id_after_past: "id_after s m s' m' \<Longrightarrow> id_after s m s' (saturating_succ m')"
  using id_after_succ[of s' m'] by (auto simp: id_after_def id_less_def)

lemma finish_push_inv:
  assumes "assembler_inv a out" and "finish_push fin a = (r, a')" and "current a = Some p"
  shows "assembler_inv a' (out @ (case r of Inr (Some p) \<Rightarrow> [p] | _ \<Rightarrow> []))"
proof -
  have inv: "stream_id p = last_stream a" "message_id p = last_message a" "max_data a = MAX_PACKET_SIZE"
    "\<forall>q \<in> set out. id_after (stream_id q) (message_id q) (stream_id p) (message_id p)"
    using assms by (auto simp: assembler_inv_def)
  show ?thesis
  proof (cases "fin \<and> length (data p) \<le> max_data a")
    case True
    then have r: "r = Inr (Some p)" "a' = a\<lparr>last_message := saturating_succ (last_message a), current := None\<rparr>"
      using assms(2,3) by (auto simp: finish_push_def split: if_splits)
    have "id_after (stream_id q) (message_id q) (last_stream a) (saturating_succ (last_message a))" if "q \<in> set out" for q
      using inv(4) that inv(1,2) id_after_past by metis
    moreover have "id_after (stream_id p) (message_id p) (last_stream a) (saturating_succ (last_message a))"
      using id_after_succ[of "stream_id p" "message_id p"] inv by simp
    ultimately show ?thesis
      using assms(1) True inv unfolding r assembler_inv_def by (auto simp: sorted_wrt_append)
  next
    case False
    then have "a' = a" "case r of Inr (Some p) \<Rightarrow> False | _ \<Rightarrow> True"
      using assms(2,3) by (auto simp: finish_push_def split: if_splits)
    then show ?thesis using assms(1) by (cases r) (auto split: option.splits)
  qed
qed

lemma push_inv:
  assumes inv: "assembler_inv a out" and push: "push a fr = (r, a')"
  shows "assembler_inv a' (out @ (case r of Inr (Some p) \<Rightarrow> [p] | _ \<Rightarrow> []))"
proof (cases "id_less (f_stream_id fr) (f_message_id fr) (last_stream a) (last_message a)")
  case True
  then show ?thesis using inv push by (auto simp: push_def)
next
  case ge: False
  let ?same = "f_stream_id fr = last_stream a \<and> f_message_id fr = last_message a"
  show ?thesis
  proof (cases "if ?same then current a else None")
    case None
    let ?p = "\<lparr>stream_id = f_stream_id fr, message_id = f_message_id fr, kind = f_kind fr, control = f_control fr, data = f_data fr\<rparr>"
    let ?a = "a\<lparr>last_stream := f_stream_id fr, last_message := f_message_id fr, current := Some ?p\<rparr>"
    have "assembler_inv ?a out"
      using inv ge by (auto simp: assembler_inv_def intro: id_after_trans)
    moreover have "finish_push (f_done fr) ?a = (r, a')"
      using push ge None by (simp add: push_def)
    ultimately show ?thesis by (rule finish_push_inv) simp
  next
    case (Some p)
    let ?p = "p\<lparr>control := control p \<or> f_control fr\<rparr>"
    let ?a = "a\<lparr>current := Some (?p\<lparr>data := data p @ f_data fr\<rparr>)\<rparr>"
    have same: ?same "current a = Some p" using Some by (auto split: if_splits)
    have a: "assembler_inv (a\<lparr>current := Some ?p\<rparr>) out" "assembler_inv ?a out"
      using inv same by (auto simp: assembler_inv_def)
    have push': "push a fr = (if kind p \<noteq> f_kind fr then (Inl KindChange, a)
        else if length (data p) + length (f_data fr) > max_data a then (Inl Overflow, a\<lparr>current := Some ?p\<rparr>)
        else finish_push (f_done fr) ?a)"
      using ge same by (simp add: push_def)
    show ?thesis
    proof (cases "kind p = f_kind fr \<and> length (data p) + length (f_data fr) \<le> max_data a")
      case True
      then have "finish_push (f_done fr) ?a = (r, a')" using push push' by simp
      with a(2) show ?thesis by (rule finish_push_inv) simp
    next
      case False
      then show ?thesis using push push' inv a(1) by (auto split: if_splits)
    qed
  qed
qed

lemma assembler_run_inv: "assembler_run a out \<Longrightarrow> assembler_inv a out"
proof (induction rule: assembler_run.induct)
  case start
  show ?case by (simp add: assembler_inv_def default_assembler_def)
next
  case (frame a out fr r a')
  then show ?case by (intro push_inv)
qed

section \<open>Error payloads\<close>

lemma split_low_byte: "push_bit 8 (drop_bit 8 y) OR ucast (ucast (y :: u64) :: u8) = y"
proof (rule bit_word_eqI)
  fix n assume "n < LENGTH(64)"
  then show "bit (push_bit 8 (drop_bit 8 y) OR ucast (ucast y :: u8)) n = bit y n"
    by (cases "n < 8") (auto simp: bit_simps)
qed

lemma from_be_bytes64_be_bytes64: "from_be_bytes64 (be_bytes64 x) = x"
proof -
  let ?f = "\<lambda>i acc. push_bit 8 acc OR ucast (ucast (drop_bit (8 * (7 - i)) x) :: u8)"
  have "fold ?f [0..<8] 0 = drop_bit (8 * (8 - 8)) x"
  proof (rule fold_upt_invariant[where P = "\<lambda>i acc. acc = drop_bit (8 * (8 - i)) x"])
    show "(0 :: u64) = drop_bit (8 * (8 - 0)) x"
      by (rule bit_word_eqI) (auto simp: bit_simps dest: bit_imp_le_length)
    fix i and acc :: u64
    assume i: "i < 8" and acc: "acc = drop_bit (8 * (8 - i)) x"
    then have "acc = drop_bit 8 (drop_bit (8 * (7 - i)) x)"
      by (simp add: Suc_diff_le drop_bit_drop_bit algebra_simps)
    then show "?f i acc = drop_bit (8 * (8 - Suc i)) x"
      using split_low_byte[of "drop_bit (8 * (7 - i)) x"] by (simp only: diff_Suc_Suc[of 7 i, simplified]) simp
  qed simp
  then show ?thesis by (simp add: from_be_bytes64_def be_bytes64_def fold_map comp_def)
qed

section \<open>Properties of the wire format\<close>

text \<open>
  Reading frames back: a buffer that holds any number of appended frames, followed by the beginning
  of another one, parses to exactly those frames and leaves exactly the incomplete rest, without an
  error.  So the frames received do not depend on where the transport cut the stream.
\<close>

theorem frames_read_back:
  assumes "list_all frame_ok fs" and "frame_ok g" and "append_frame [] g = p @ q" and "q \<noteq> []"
  shows "read_all parse_frame (foldl append_frame [] fs @ p) = Inr (fs, p)"
proof -
  have "foldl append_frame b fs = b @ concat (map frame_bytes fs)" for b
    by (induction fs arbitrary: b) (simp_all add: append_frame_eq)
  then show ?thesis
    using frames.read_all_stream[OF assms(1,2) _ assms(4)] assms(3) by (simp add: frame_bytes_def)
qed

definition sample_frame :: Frame where
  "sample_frame = \<lparr>f_stream_id = 1, f_message_id = 300, f_kind = MESSAGE, f_done = True, f_control = False, f_data = [1, 2, 3]\<rparr>"

theorem frames_read_back_witness:
  "append_frame [] sample_frame = [5, 1, 172, 2, 3, 1, 2, 3] \<and>
   read_all parse_frame (foldl append_frame [] [sample_frame] @ [5, 1, 172]) = Inr ([sample_frame], [5, 1, 172])"
proof -
  have e: "append_frame [] sample_frame = [5, 1, 172] @ [2, 3, 1, 2, 3]" by code_simp
  have "frame_ok sample_frame" by (simp add: frame_ok_def sample_frame_def MAX_PACKET_SIZE_def kind_defs)
  then have "read_all parse_frame (foldl append_frame [] [sample_frame] @ [5, 1, 172]) = Inr ([sample_frame], [5, 1, 172])"
    by (intro frames_read_back[OF _ _ e]) simp_all
  then show ?thesis using e by simp
qed

text \<open>
  Bounds of \<open>parse_frame\<close> on every input: a parsed frame lies inside the buffer, takes at least one
  byte and is at most \<open>MAX_PACKET_SIZE\<close> long; a buffer that needs more bytes holds at most 30 bytes
  more than that, so the reader's limit of \<open>MAX_PACKET_SIZE + 32\<close> never refuses a frame that is legal.
\<close>

theorem parse_frame_bounds:
  "case parse_frame buf of
     Inr (Some (f, n)) \<Rightarrow> 0 < n \<and> n \<le> length buf \<and> length (f_data f) \<le> MAX_PACKET_SIZE \<and> kind_ok (f_kind f)
   | Inr None \<Rightarrow> length buf \<le> MAX_PACKET_SIZE + 30
   | Inl _ \<Rightarrow> True"
  using parse_frame_Some[of buf] parse_frame_None[of buf]
  by (auto simp: frame_ok_def split: sum.splits option.splits)

text \<open>
  C4: a packet survives its way over the wire: the bytes that \<open>append_packet\<close> writes, for any split size,
  parse into frames which the assembler turns back into that packet, provided its id is not below
  the last one seen.
\<close>

theorem packet_round_trip:
  assumes "kind_ok (kind pkt)" and "length (data pkt) \<le> MAX_PACKET_SIZE" and "max_data a = MAX_PACKET_SIZE"
    and "current a = None" and "\<not> id_less (stream_id pkt) (message_id pkt) (last_stream a) (last_message a)"
  shows "\<exists>frs. read_all parse_frame (append_packet [] pkt split) = Inr (frs, []) \<and>
    push_all a frs = (Inr [pkt], a\<lparr>last_stream := stream_id pkt,
      last_message := saturating_succ (message_id pkt), current := None\<rparr>)"
proof -
  define n where "n = (if split = 0 then DEFAULT_SPLIT_SIZE else split)"
  have "0 < n" by (simp add: n_def DEFAULT_SPLIT_SIZE_def)
  then have b: "append_packet [] pkt split = concat (map frame_bytes (packet_frames pkt n (data pkt)))"
    by (simp add: append_packet_def append_packet_data_def n_def append_chunks_eq)
  have "read_all parse_frame (append_packet [] pkt split) = Inr (packet_frames pkt n (data pkt), [])"
    using frames.read_all_put[OF packet_frames_ok[OF assms(1,2)] frames.get_nil, of n] by (simp add: b)
  moreover have "push_all a (packet_frames pkt n (data pkt)) = (Inr [pkt], a\<lparr>last_stream := stream_id pkt,
      last_message := saturating_succ (message_id pkt), current := None\<rparr>)"
    using assms by (intro push_all_packet) auto
  ultimately show ?thesis by blast
qed

definition sample_packet :: Packet where
  "sample_packet = \<lparr>stream_id = 1, message_id = 2, kind = MESSAGE, control = False, data = [7, 8, 9]\<rparr>"

theorem packet_round_trip_witness:
  "append_packet [] sample_packet 2 = [4, 1, 2, 2, 7, 8, 5, 1, 2, 1, 9] \<and>
   (\<exists>frs. read_all parse_frame (append_packet [] sample_packet 2) = Inr (frs, []) \<and>
      fst (push_all default_assembler frs) = Inr [sample_packet])"
proof -
  have h: "kind_ok (kind sample_packet)" "length (data sample_packet) \<le> MAX_PACKET_SIZE"
    "max_data default_assembler = MAX_PACKET_SIZE" "current default_assembler = None"
    "\<not> id_less (stream_id sample_packet) (message_id sample_packet) (last_stream default_assembler) (last_message default_assembler)"
    by (simp_all add: sample_packet_def default_assembler_def MAX_PACKET_SIZE_def kind_defs id_less_def)
  have "append_packet [] sample_packet 2 = [4, 1, 2, 2, 7, 8, 5, 1, 2, 1, 9]" by code_simp
  then show ?thesis using packet_round_trip[OF h, of 2] by auto
qed

text \<open>
  C5: whatever frames a peer sends, accepted or refused, the packets an assembler hands out have
  strictly increasing ids, with one exception: after a packet whose message id is the largest 64-bit number, the
  same id may be handed out again, since the expected message id saturates there.  No packet exceeds the packet limit.
\<close>

theorem assembler_packets_ordered:
  assumes "assembler_run a out"
  shows "sorted_wrt (\<lambda>p q. pkt_less p q \<or> message_id p = - 1 \<and> stream_id q = stream_id p \<and> message_id q = - 1) out \<and>
    (\<forall>p \<in> set out. length (data p) \<le> MAX_PACKET_SIZE)"
  using assembler_run_inv[OF assms] by (auto simp: assembler_inv_def id_after_def)

text \<open>Two packets in a row.\<close>

theorem assembler_packets_ordered_witness:
  "\<exists>a. assembler_run a [sample_packet, sample_packet\<lparr>message_id := 3\<rparr>] \<and> pkt_less sample_packet (sample_packet\<lparr>message_id := 3\<rparr>)"
proof -
  let ?p = "sample_packet\<lparr>message_id := 3\<rparr>"
  obtain r a where p: "push default_assembler (mk_frame sample_packet True [7, 8, 9]) = (r, a)"
    by (cases "push default_assembler (mk_frame sample_packet True [7, 8, 9])")
  obtain r' a' where q: "push a (mk_frame ?p True [7, 8, 9]) = (r', a')" by (cases "push a (mk_frame ?p True [7, 8, 9])")
  have "r = Inr (Some sample_packet)" "r' = Inr (Some ?p)"
    using p q by (auto simp: push_def finish_push_def mk_frame_def default_assembler_def id_less_def sample_packet_def MAX_PACKET_SIZE_def saturating_succ_def)
  then have "assembler_run a' [sample_packet, ?p]"
    using assembler_run.frame[OF assembler_run.frame[OF assembler_run.start p] q] by simp
  then show ?thesis using assembler_packets_ordered[of a' "[sample_packet, ?p]"] by (auto simp: sample_packet_def)
qed

text \<open>
  An error payload keeps its code and message, for every code and every message that is a string;
  a payload too short to hold a code gives code 0.
\<close>

theorem error_payload_round_trip:
  assumes "utf8_valid message"
  shows "unmarshal_error (marshal_error code message) = (code, message)"
  using assms by (simp add: unmarshal_error_def marshal_error_def from_utf8_lossy_valid
      from_be_bytes64_be_bytes64 be_bytes64_def[of code, THEN arg_cong[where f = length]])

theorem error_payload_round_trip_witness:
  "unmarshal_error (marshal_error 5 (bstr ''gone'')) = (5, bstr ''gone'')"
  by (rule error_payload_round_trip) code_simp

end
