(* ===== verification/Drpc_Conn.thy ===== *)
theory Drpc_Conn
  imports Drpc_Frame
begin

text \<open>
  The DRPC client connection, \<open>crates/storj-rpc/src/conn.rs\<close>.  The transport is not part of the
  program: it is a script of what each read yields and of how each write or flush ends, which the
  operations consume.  An awaited operation waits for the next event; the end of the script is a
  silent peer, so an awaited read then runs into its deadline.  Every operation is a function from
  a connection to its result and the connection after it; the loops end because each round uses up
  script or buffered bytes.
\<close>

section \<open>The code\<close>

subsection \<open>The transport\<close>

datatype io_error = TimedOut | UnexpectedEof | InterruptedIo string | OtherIo string

text \<open>
  What a read finds: bytes (none of them means end of file), an error, a deadline that expires, or
  nothing yet.  A write or flush succeeds, or fails or expires after some bytes went out.
\<close>

datatype read_event = RData bytes | RErr io_error | RTimeout | RPending
datatype write_event = WOk | WErr nat io_error | WTimeout nat

record Transport =
  incoming :: "read_event list"
  outcomes :: "write_event list"
  sent :: bytes

datatype Error =
    Frame FrameError
  | Truncated
  | Closed
  | Remote u64 bytes               \<comment> \<open>code, message\<close>
  | UnexpectedKind Kind
  | UnexpectedStream u64 u64       \<comment> \<open>got, expected\<close>
  | MuxPrefix bytes
  | Io io_error

definition timed_out :: Error where
  "timed_out = Io TimedOut"

record Conn =
  io :: Transport
  buf :: bytes
  pos :: nat
  next_stream_id :: u64
  assembler :: PacketAssembler
  pending :: "Packet list"
  split_size :: nat
  timeout :: nat
  poisoned :: bool

record RpcStream =
  rpc_stream_id :: u64
  next_message_id :: u64

definition MAX_BUFFERED :: nat where
  "MAX_BUFFERED = MAX_PACKET_SIZE + 32"

definition PENDING_HIGH_WATER_BYTES :: nat where
  "PENDING_HIGH_WATER_BYTES = MAX_PACKET_SIZE"

definition MAX_PENDING_PACKETS :: nat where
  "MAX_PENDING_PACKETS = 256"

definition DEFAULT_TIMEOUT :: nat where
  "DEFAULT_TIMEOUT = 10 * 60"

definition new_conn :: "Transport \<Rightarrow> Conn" where
  "new_conn t = \<lparr>io = t, buf = [], pos = 0, next_stream_id = 1, assembler = default_assembler, pending = [],
     split_size = DEFAULT_SPLIT_SIZE, timeout = DEFAULT_TIMEOUT, poisoned = False\<rparr>"

definition set_timeout :: "Conn \<Rightarrow> nat \<Rightarrow> Conn" where
  "set_timeout c d = c\<lparr>timeout := d\<rparr>"

type_synonym 'a op = "(Error + 'a) \<times> Conn"

text \<open>Sequencing of two operations with \<open>?\<close>: an error of the first ends the function.\<close>

definition then_op :: "'a op \<Rightarrow> ('a \<Rightarrow> Conn \<Rightarrow> 'b op) \<Rightarrow> 'b op" where
  "then_op r f = (case r of (Inl e, c) \<Rightarrow> (Inl e, c) | (Inr x, c) \<Rightarrow> f x c)"

subsection \<open>Writing\<close>

text \<open>
  \<open>timed\<close> around a write: what went out, and the flag raised on failure.  \<open>write_all\<close> and \<open>flush\<close>
  share it; a flush sends no bytes of its own.
\<close>

definition timed_write :: "bytes \<Rightarrow> Conn \<Rightarrow> unit op" where
  "timed_write bs c =
    (let t = io c in
     case outcomes t of
       [] \<Rightarrow> (Inr (), c\<lparr>io := t\<lparr>sent := sent t @ bs\<rparr>\<rparr>)
     | WOk # ws \<Rightarrow> (Inr (), c\<lparr>io := t\<lparr>sent := sent t @ bs, outcomes := ws\<rparr>\<rparr>)
     | WErr n e # ws \<Rightarrow> (Inl (Io e), c\<lparr>io := t\<lparr>sent := sent t @ take n bs, outcomes := ws\<rparr>, poisoned := True\<rparr>)
     | WTimeout n # ws \<Rightarrow> (Inl timed_out, c\<lparr>io := t\<lparr>sent := sent t @ take n bs, outcomes := ws\<rparr>, poisoned := True\<rparr>))"

text \<open>The flag is up while the write is awaited; a future dropped there leaves \<open>suspended\<close>.\<close>

definition suspended :: "Conn \<Rightarrow> Conn" where
  "suspended c = c\<lparr>poisoned := True\<rparr>"

definition flush :: "Conn \<Rightarrow> unit op" where
  "flush c =
    (let was = poisoned c
     in then_op (timed_write [] (suspended c)) (\<lambda>_ c. (Inr (), c\<lparr>poisoned := was\<rparr>)))"

definition write_raw :: "bytes \<Rightarrow> Conn \<Rightarrow> unit op" where
  "write_raw bs c =
    (let was = poisoned c
     in then_op (timed_write bs (suspended c)) (\<lambda>_ c. (Inr (), c\<lparr>poisoned := was\<rparr>)))"

definition write_packet_data :: "u64 \<Rightarrow> u64 \<Rightarrow> Kind \<Rightarrow> bool \<Rightarrow> bytes \<Rightarrow> Conn \<Rightarrow> unit op" where
  "write_packet_data stream message knd ctl dat c =
    write_raw (append_packet_data [] stream message knd ctl dat (split_size c)) c"

definition write_packet :: "Packet \<Rightarrow> Conn \<Rightarrow> unit op" where
  "write_packet pkt c =
    then_op (write_packet_data (stream_id pkt) (message_id pkt) (kind pkt) (control pkt) (data pkt) c) (\<lambda>_. flush)"

definition write_tls_mux_prefix :: "Conn \<Rightarrow> unit op" where
  "write_tls_mux_prefix c = then_op (write_raw DRPC_TLS_MUX_PREFIX c) (\<lambda>_. flush)"

subsection \<open>Reading\<close>

definition unparsed :: "Conn \<Rightarrow> bytes" where
  "unparsed c = drop (pos c) (buf c)"

definition consume :: "nat \<Rightarrow> Conn \<Rightarrow> Conn" where
  "consume n c =
    (let p = pos c + n in if p = length (buf c) then c\<lparr>buf := [], pos := 0\<rparr> else c\<lparr>pos := p\<rparr>)"

definition parse_one :: "Conn \<Rightarrow> Packet option op" where
  "parse_one c =
    (case parse_frame (unparsed c) of
       Inl e \<Rightarrow> (Inl (Frame e), c)
     | Inr None \<Rightarrow> (Inr None, c)
     | Inr (Some (f, n)) \<Rightarrow>
       (let c = consume n c
        in case push (assembler c) f of
             (Inl e, a) \<Rightarrow> (Inl (Frame e), c\<lparr>assembler := a\<rparr>)
           | (Inr p, a) \<Rightarrow> (Inr p, c\<lparr>assembler := a\<rparr>)))"

definition prepare_read :: "Conn \<Rightarrow> unit op" where
  "prepare_read c =
    (let c = (if pos c > 0 then c\<lparr>buf := drop (pos c) (buf c), pos := 0\<rparr> else c)
     in if length (buf c) > MAX_BUFFERED then (Inl (Frame Overflow), c) else (Inr (), c))"

definition eof_error :: "Conn \<Rightarrow> Error" where
  "eof_error c = (if buf c = [] \<and> \<not> in_progress (assembler c) then Closed else Truncated)"

text \<open>\<open>timed\<close> around a read: waiting skips over the events that bring nothing.\<close>

fun await_read :: "read_event list \<Rightarrow> (Error + bytes) \<times> read_event list" where
  "await_read [] = (Inl timed_out, [])"
| "await_read (RPending # evs) = await_read evs"
| "await_read (RData bs # evs) = (Inr bs, evs)"
| "await_read (RErr e # evs) = (Inl (Io e), evs)"
| "await_read (RTimeout # evs) = (Inl timed_out, evs)"

definition timed_read :: "Conn \<Rightarrow> bytes op" where
  "timed_read c =
    (case await_read (incoming (io c)) of
       (Inl e, evs) \<Rightarrow> (Inl e, c\<lparr>io := (io c)\<lparr>incoming := evs\<rparr>, poisoned := True\<rparr>)
     | (Inr bs, evs) \<Rightarrow> (Inr bs, c\<lparr>io := (io c)\<lparr>incoming := evs\<rparr>\<rparr>))"

definition fill :: "Conn \<Rightarrow> unit op" where
  "fill c =
    then_op (prepare_read c) (\<lambda>_ c.
    then_op (timed_read c) (\<lambda>bs c.
      if bs = [] then (Inl (eof_error c), c) else (Inr (), c\<lparr>buf := buf c @ bs\<rparr>)))"

text \<open>\<open>read_exact\<close> takes bytes from as many reads as it needs and leaves the rest of the last one.\<close>

fun await_exact :: "nat \<Rightarrow> bytes \<Rightarrow> read_event list \<Rightarrow> (Error + bytes) \<times> read_event list" where
  "await_exact n got [] = (if n \<le> length got then (Inr got, []) else (Inl timed_out, []))"
| "await_exact n got (ev # evs) =
    (if n \<le> length got then (Inr got, ev # evs)
     else case ev of
       RPending \<Rightarrow> await_exact n got evs
     | RErr e \<Rightarrow> (Inl (Io e), evs)
     | RTimeout \<Rightarrow> (Inl timed_out, evs)
     | RData bs \<Rightarrow>
         (if bs = [] then (Inl (Io UnexpectedEof), evs)
          else let need = n - length got
          in if length bs > need then (Inr (got @ take need bs), RData (drop need bs) # evs)
             else await_exact n (got @ bs) evs))"

definition read_tls_mux_prefix :: "Conn \<Rightarrow> bytes op" where
  "read_tls_mux_prefix c =
    (case await_exact 8 [] (incoming (io c)) of
       (Inl e, evs) \<Rightarrow> (Inl e, c\<lparr>io := (io c)\<lparr>incoming := evs\<rparr>, poisoned := True\<rparr>)
     | (Inr got, evs) \<Rightarrow>
       (let c = c\<lparr>io := (io c)\<lparr>incoming := evs\<rparr>\<rparr>
        in if got \<noteq> DRPC_TLS_MUX_PREFIX then (Inl (MuxPrefix got), c) else (Inr got, c)))"

subsection \<open>What the loops use up\<close>

fun event_size :: "read_event \<Rightarrow> nat" where
  "event_size (RData bs) = Suc (length bs)"
| "event_size _ = 1"

definition read_size :: "Conn \<Rightarrow> nat" where
  "read_size c = length (unparsed c) + sum_list (map event_size (incoming (io c)))"

lemma unparsed_consume: "unparsed (consume n c) = drop n (unparsed c)"
  by (simp add: unparsed_def consume_def add.commute)

lemma consume_fields [simp]:
  "io (consume n c) = io c" "pending (consume n c) = pending c" "assembler (consume n c) = assembler c"
  "poisoned (consume n c) = poisoned c" "next_stream_id (consume n c) = next_stream_id c"
  "split_size (consume n c) = split_size c" "timeout (consume n c) = timeout c"
  by (simp_all add: consume_def)

lemma unparsed_update [simp]:
  "unparsed (c\<lparr>assembler := a\<rparr>) = unparsed c" "unparsed (c\<lparr>io := t\<rparr>) = unparsed c"
  "unparsed (c\<lparr>pending := ps\<rparr>) = unparsed c" "unparsed (c\<lparr>poisoned := b\<rparr>) = unparsed c"
  by (simp_all add: unparsed_def)

text \<open>One parse takes a whole frame off the buffer or nothing.\<close>

lemma parse_one_cases:
  assumes "parse_one c = (r, c')"
  obtains (none) "c' = c" "r = Inr None" "parse_frame (unparsed c) = Inr None"
  | (bad) e where "c' = c" "r = Inl (Frame e)"
  | (frame) f n a out where "parse_frame (unparsed c) = Inr (Some (f, n))" "push (assembler c) f = (out, a)"
      "c' = (consume n c)\<lparr>assembler := a\<rparr>" "r = map_err Frame out" "0 < n" "n \<le> length (unparsed c)"
proof (cases "parse_frame (unparsed c)")
  case (Inl e)
  then show ?thesis using assms bad[of e] by (auto simp: parse_one_def)
next
  case (Inr fo)
  show ?thesis
  proof (cases fo)
    case None
    then show ?thesis using assms none Inr by (simp add: parse_one_def)
  next
    case (Some fn)
    obtain f n where fn: "fn = (f, n)" by (cases fn)
    obtain out a where out: "push (assembler c) f = (out, a)" by (cases "push (assembler c) f")
    have "0 < n \<and> n \<le> length (unparsed c)" using parse_frame_Some Inr Some fn by blast
    moreover have "c' = (consume n c)\<lparr>assembler := a\<rparr>" "r = map_err Frame out"
      using assms out by (cases out; simp add: parse_one_def Inr Some fn)+
    ultimately show ?thesis using frame Inr Some fn out by blast
  qed
qed

lemma parse_one_size:
  assumes "parse_one c = (r, c')"
  shows "read_size c' \<le> read_size c \<and> pending c' = pending c \<and>
    ((\<exists>p. r = Inr (Some p)) \<or> length (unparsed c') \<noteq> length (unparsed c) \<longrightarrow> read_size c' < read_size c)"
  using assms by (cases rule: parse_one_cases) (auto simp: read_size_def unparsed_consume)

lemma await_read_size:
  "await_read evs = (r, evs') \<Longrightarrow>
    (case r of Inr bs \<Rightarrow> length bs | _ \<Rightarrow> 0) + sum_list (map event_size evs') < sum_list (map event_size evs) \<or> evs = []"
  by (induction evs rule: await_read.induct) auto

lemma await_read_Nil: "await_read [] = (r, evs) \<Longrightarrow> \<exists>e. r = Inl e" by auto

lemma prepare_read_fields:
  assumes "prepare_read c = (r, c')"
  shows "unparsed c' = unparsed c \<and> buf c' = unparsed c \<and> pos c' = 0 \<and> io c' = io c \<and> pending c' = pending c \<and>
    assembler c' = assembler c \<and> poisoned c' = poisoned c \<and> next_stream_id c' = next_stream_id c \<and> split_size c' = split_size c"
  using assms by (auto simp: prepare_read_def unparsed_def split: if_splits)

lemma fill_size:
  assumes "fill c = (Inr u, c')"
  shows "read_size c' < read_size c \<and> pending c' = pending c"
proof -
  obtain c1 where c1: "prepare_read c = (Inr (), c1)"
    using assms by (cases "prepare_read c") (auto simp: fill_def then_op_def split: sum.splits)
  obtain bs evs where bs: "await_read (incoming (io c1)) = (Inr bs, evs)"
    and c': "c' = c1\<lparr>io := (io c1)\<lparr>incoming := evs\<rparr>, buf := buf c1 @ bs\<rparr>"
    using assms by (auto simp: fill_def c1 then_op_def timed_read_def split: prod.splits sum.splits if_splits)
  have "length bs + sum_list (map event_size evs) < sum_list (map event_size (incoming (io c1)))"
    using await_read_size[OF bs] await_read_Nil bs by auto
  then show ?thesis
    using prepare_read_fields[OF c1] by (auto simp: c' read_size_def unparsed_def)
qed

subsection \<open>The reading loops\<close>

function read_loop :: "Conn \<Rightarrow> Packet op" where
  "read_loop c =
    (case parse_one c of
       (Inl e, c1) \<Rightarrow> (Inl e, c1)
     | (Inr (Some pkt), c1) \<Rightarrow> (Inr pkt, c1)
     | (Inr None, c1) \<Rightarrow>
       (if length (unparsed c1) = length (unparsed c) then
          (case fill c1 of (Inl e, c2) \<Rightarrow> (Inl e, c2) | (Inr _, c2) \<Rightarrow> read_loop c2)
        else read_loop c1))"
  by pat_completeness auto
termination
proof (relation "measure read_size")
  fix c r1 c1 r ro r2 c2 u
  assume "(r1, c1) = parse_one c" "(r2, c2) = fill c1" "r2 = Inr u"
  then show "(c2, c) \<in> measure read_size"
    using parse_one_size[of c r1 c1] fill_size[of c1 u c2] by simp
next
  fix c r c1
  assume "(r, c1) = parse_one c" "length (unparsed c1) \<noteq> length (unparsed c)"
  then show "(c1, c) \<in> measure read_size" using parse_one_size[of c r c1] by simp
qed simp

declare read_loop.simps [simp del]

definition read_packet :: "Conn \<Rightarrow> Packet op" where
  "read_packet c =
    (case pending c of pkt # rest \<Rightarrow> (Inr pkt, c\<lparr>pending := rest\<rparr>) | [] \<Rightarrow> read_loop c)"

lemma read_loop_size: "read_loop c = (Inr pkt, c') \<Longrightarrow> read_size c' < read_size c \<and> pending c' = pending c"
proof (induction c arbitrary: c' rule: read_loop.induct)
  case (1 c)
  obtain r c1 where p: "parse_one c = (r, c1)" by (cases "parse_one c")
  note size = parse_one_size[OF p]
  show ?case
  proof (cases r)
    case (Inl e)
    then show ?thesis using 1(3) p by (subst (asm) read_loop.simps) simp
  next
    case (Inr out)
    show ?thesis
    proof (cases out)
      case (Some x)
      then show ?thesis using 1(3) p size Inr by (subst (asm) read_loop.simps) auto
    next
      case None
      show ?thesis
      proof (cases "length (unparsed c1) = length (unparsed c)")
        case False
        then have "read_loop c = read_loop c1" using p Inr None by (subst read_loop.simps) simp
        then have "read_loop c1 = (Inr pkt, c')" using 1(3) by simp
        from 1(2)[OF p[symmetric] Inr None False this] show ?thesis using size False by auto
      next
        case True
        obtain r2 c2 where f: "fill c1 = (r2, c2)" by (cases "fill c1")
        obtain u where r2: "r2 = Inr u"
          using 1(3) p f Inr None True by (subst (asm) read_loop.simps) (auto split: sum.splits)
        have "read_loop c = read_loop c2" using p f r2 Inr None True by (subst read_loop.simps) simp
        then have "read_loop c2 = (Inr pkt, c')" using 1(3) by simp
        from 1(1)[OF p[symmetric] Inr None True f[symmetric] r2 this]
        show ?thesis using size fill_size[of c1 u c2] f r2 by auto
      qed
    qed
  qed
qed

definition conn_size :: "Conn \<Rightarrow> nat" where
  "conn_size c = length (pending c) + read_size c"

lemma read_packet_size: "read_packet c = (Inr pkt, c') \<Longrightarrow> conn_size c' < conn_size c"
  using read_loop_size[of c pkt c']
  by (auto simp: read_packet_def conn_size_def read_size_def split: list.splits)

text \<open>A single poll of \<open>read_buf\<close>: \<open>None\<close> is \<open>Poll::Pending\<close>.\<close>

fun poll_read :: "read_event list \<Rightarrow> (io_error + bytes) option \<times> read_event list" where
  "poll_read [] = (None, [])"
| "poll_read (RPending # evs) = (None, evs)"
| "poll_read (RTimeout # evs) = (None, RTimeout # evs)"
| "poll_read (RErr e # evs) = (Some (Inl e), evs)"
| "poll_read (RData bs # evs) = (Some (Inr bs), evs)"

text \<open>
  The part of \<open>drain_ready\<close> that touches the transport: \<open>True\<close> when bytes came in, \<open>False\<close> when
  nothing is readable.
\<close>

definition poll_fill :: "Conn \<Rightarrow> bool op" where
  "poll_fill c =
    then_op (prepare_read c) (\<lambda>_ c.
      case poll_read (incoming (io c)) of
        (None, evs) \<Rightarrow> (Inr False, c\<lparr>io := (io c)\<lparr>incoming := evs\<rparr>\<rparr>)
      | (Some (Inl e), evs) \<Rightarrow> (Inl (Io e), c\<lparr>io := (io c)\<lparr>incoming := evs\<rparr>, poisoned := True\<rparr>)
      | (Some (Inr bs), evs) \<Rightarrow>
        (let c = c\<lparr>io := (io c)\<lparr>incoming := evs\<rparr>\<rparr>
         in if bs = [] then (Inl (eof_error c), c) else (Inr True, c\<lparr>buf := buf c @ bs\<rparr>)))"

lemma poll_read_data: "poll_read evs = (Some (Inr bs), evs') \<Longrightarrow> evs = RData bs # evs'"
  by (induction evs rule: poll_read.induct) auto

lemma poll_fill_size:
  assumes "poll_fill c = (Inr True, c')"
  shows "read_size c' < read_size c \<and> pending c' = pending c"
proof -
  obtain c1 where c1: "prepare_read c = (Inr (), c1)"
    using assms by (cases "prepare_read c") (auto simp: poll_fill_def then_op_def split: sum.splits)
  obtain bs evs where "poll_read (incoming (io c1)) = (Some (Inr bs), evs)"
    and c': "c' = c1\<lparr>io := (io c1)\<lparr>incoming := evs\<rparr>, buf := buf c1 @ bs\<rparr>"
    using assms by (auto simp: poll_fill_def c1 then_op_def split: prod.splits sum.splits if_splits option.splits)
  then show ?thesis
    using prepare_read_fields[OF c1] poll_read_data by (force simp: read_size_def unparsed_def)
qed

text \<open>The two nested loops of \<open>drain_ready\<close>; the inner one starts again after a read.\<close>

function drain_loop :: "nat \<Rightarrow> Conn \<Rightarrow> unit op" where
  "drain_loop queued_bytes c =
    (if queued_bytes \<ge> PENDING_HIGH_WATER_BYTES \<or> length (pending c) \<ge> MAX_PENDING_PACKETS then (Inr (), c)
     else case parse_one c of
       (Inl e, c1) \<Rightarrow> (Inl e, c1)
     | (Inr (Some pkt), c1) \<Rightarrow> drain_loop (queued_bytes + length (data pkt)) (c1\<lparr>pending := pending c1 @ [pkt]\<rparr>)
     | (Inr None, c1) \<Rightarrow>
       (if length (unparsed c1) = length (unparsed c) then
          (case poll_fill c1 of
             (Inl e, c2) \<Rightarrow> (Inl e, c2)
           | (Inr False, c2) \<Rightarrow> (Inr (), c2)
           | (Inr True, c2) \<Rightarrow> drain_loop queued_bytes c2)
        else drain_loop queued_bytes c1))"
  by pat_completeness auto
termination
proof (relation "measure (\<lambda>(_, c). read_size c)")
  fix q c r1 c1 b r2 c2 m
  assume "(r1, c1) = parse_one c" "(r2, c2) = poll_fill c1" "r2 = Inr m" "m = True"
  then show "((q, c2), q, c) \<in> measure (\<lambda>(_, c). read_size c)"
    using parse_one_size[of c r1 c1] poll_fill_size[of c1 c2] by simp
next
  fix q c r1 c1
  assume "(r1, c1) = parse_one c" "length (unparsed c1) \<noteq> length (unparsed c)"
  then show "((q, c1), q, c) \<in> measure (\<lambda>(_, c). read_size c)"
    using parse_one_size[of c r1 c1] by simp
next
  fix q c r1 c1 b pkt
  assume "(r1, c1) = parse_one c" "r1 = Inr b" "b = Some pkt"
  then show "((q + length (data pkt), c1\<lparr>pending := pending c1 @ [pkt]\<rparr>), q, c) \<in> measure (\<lambda>(_, c). read_size c)"
    using parse_one_size[of c r1 c1] by (simp add: read_size_def)
qed simp

declare drain_loop.simps [simp del]

definition queued_payload :: "Conn \<Rightarrow> nat" where
  "queued_payload c = sum_list (map (\<lambda>pkt. length (data pkt)) (pending c))"

definition drain_ready :: "Conn \<Rightarrow> unit op" where
  "drain_ready c = drain_loop (queued_payload c) c"

fun find_map :: "('a \<Rightarrow> 'b option) \<Rightarrow> 'a list \<Rightarrow> 'b option" where
  "find_map f [] = None"
| "find_map f (x # xs) = (case f x of Some y \<Rightarrow> Some y | None \<Rightarrow> find_map f xs)"

definition remote_error :: "bytes \<Rightarrow> Error" where
  "remote_error dat = (let (code, message) = unmarshal_error dat in Remote code message)"

definition terminal_packet :: "Packet \<Rightarrow> Error option" where
  "terminal_packet pkt =
    (if kind pkt = ERROR then Some (remote_error (data pkt))
     else if kind pkt = CLOSE then Some Closed
     else if kind pkt = CANCEL then Some (Remote 0 (bstr ''canceled''))
     else None)"

definition peer_terminated :: "Conn \<Rightarrow> u64 \<Rightarrow> Error option" where
  "peer_terminated c stream =
    find_map terminal_packet (filter (\<lambda>pkt. stream_id pkt = stream) (pending c))"

subsection \<open>RPCs\<close>

text \<open>
  What \<open>invoke\<close> and \<open>recv_msg\<close> do with a packet they read: skip it, take its message, or fail.
\<close>

datatype verdict = Skip | Msg bytes | Fail Error

definition judge :: "u64 \<Rightarrow> Packet \<Rightarrow> verdict" where
  "judge stream pkt =
    (if stream_id pkt \<noteq> stream then
       (if stream_id pkt < stream then Skip else Fail (UnexpectedStream (stream_id pkt) stream))
     else if kind pkt = MESSAGE then Msg (data pkt)
     else if kind pkt = ERROR then Fail (remote_error (data pkt))
     else if kind pkt = CLOSE \<or> kind pkt = CLOSE_SEND then Fail Closed
     else if kind pkt = CANCEL then Fail (Remote 0 (bstr ''canceled''))
     else if control pkt then Skip
     else Fail (UnexpectedKind (kind pkt)))"

text \<open>The receiving loop, common to both; it ends because every packet read uses something up.\<close>

function recv_loop :: "u64 \<Rightarrow> Conn \<Rightarrow> bytes op" where
  "recv_loop stream c =
    (case read_packet c of
       (Inl e, c1) \<Rightarrow> (Inl e, c1)
     | (Inr pkt, c1) \<Rightarrow>
       (case judge stream pkt of
          Skip \<Rightarrow> recv_loop stream c1
        | Msg dat \<Rightarrow> (Inr dat, c1)
        | Fail e \<Rightarrow> (Inl e, c1)))"
  by pat_completeness auto
termination
  by (relation "measure (\<lambda>(_, c). conn_size c)") (auto dest: read_packet_size[OF sym])

declare recv_loop.simps [simp del]

definition invoke :: "bytes \<Rightarrow> bytes \<Rightarrow> Conn \<Rightarrow> bytes op" where
  "invoke rpc request c =
    (let stream = next_stream_id c;
         c = c\<lparr>next_stream_id := stream + 1\<rparr>
     in then_op (write_packet_data stream 1 INVOKE False rpc c) (\<lambda>_ c.
        then_op (write_packet_data stream 2 MESSAGE False request c) (\<lambda>_ c.
        then_op (write_packet_data stream 3 CLOSE_SEND False [] c) (\<lambda>_ c.
        then_op (flush c) (\<lambda>_ c.
        then_op (recv_loop stream c) (\<lambda>dat c.
        then_op (write_packet_data stream 4 CLOSE False [] c) (\<lambda>_ c.
        then_op (flush c) (\<lambda>_ c. (Inr dat, c)))))))))"

text \<open>The stream handle is passed in and returned updated.\<close>

definition send_kind :: "RpcStream \<Rightarrow> Kind \<Rightarrow> bytes \<Rightarrow> Conn \<Rightarrow> RpcStream \<times> unit op" where
  "send_kind s knd dat c =
    (let s = s\<lparr>next_message_id := next_message_id s + 1\<rparr>
     in (s, write_packet_data (rpc_stream_id s) (next_message_id s) knd False dat c))"

definition open_stream :: "bytes \<Rightarrow> Conn \<Rightarrow> RpcStream op" where
  "open_stream rpc c =
    (let stream = next_stream_id c;
         c = c\<lparr>next_stream_id := stream + 1\<rparr>;
         (s, r) = send_kind \<lparr>rpc_stream_id = stream, next_message_id = 0\<rparr> INVOKE rpc c
     in then_op r (\<lambda>_ c. then_op (flush c) (\<lambda>_ c. (Inr s, c))))"

definition send_msg :: "RpcStream \<Rightarrow> bytes \<Rightarrow> Conn \<Rightarrow> RpcStream \<times> unit op" where
  "send_msg s dat c =
    (case drain_ready c of
       (drained, c) \<Rightarrow>
       (case peer_terminated c (rpc_stream_id s) of
          Some err \<Rightarrow> (s, (Inl err, c))
        | None \<Rightarrow>
          (case drained of
             Inl e \<Rightarrow> (s, (Inl e, c))
           | Inr _ \<Rightarrow> let (s, r) = send_kind s MESSAGE dat c in (s, then_op r (\<lambda>_. flush)))))"

definition close_send :: "RpcStream \<Rightarrow> Conn \<Rightarrow> RpcStream \<times> unit op" where
  "close_send s c = (let (s, r) = send_kind s CLOSE_SEND [] c in (s, then_op r (\<lambda>_. flush)))"

definition close_stream :: "RpcStream \<Rightarrow> Conn \<Rightarrow> RpcStream \<times> unit op" where
  "close_stream s c = (let (s, r) = send_kind s CLOSE [] c in (s, then_op r (\<lambda>_. flush)))"

definition recv_msg :: "RpcStream \<Rightarrow> Conn \<Rightarrow> bytes op" where
  "recv_msg s c = recv_loop (rpc_stream_id s) c"

definition recv_msg_opt :: "RpcStream \<Rightarrow> Conn \<Rightarrow> bytes option op" where
  "recv_msg_opt s c =
    (case recv_msg s c of
       (Inr dat, c) \<Rightarrow> (Inr (Some dat), c)
     | (Inl Closed, c) \<Rightarrow> (Inr None, c)
     | (Inl e, c) \<Rightarrow> (Inl e, c))"

section \<open>Poisoning\<close>

text \<open>
  The contract that lets a pool decide whether to keep a connection: an operation never clears the
  flag, and an I/O error or an expired deadline raises it.
\<close>

definition poison_safe :: "(Conn \<Rightarrow> 'a op) \<Rightarrow> bool" where
  "poison_safe f \<longleftrightarrow> (\<forall>c. (poisoned c \<longrightarrow> poisoned (snd (f c))) \<and> (\<forall>e. fst (f c) = Inl (Io e) \<longrightarrow> poisoned (snd (f c))))"

lemma then_op_simps [simp]:
  "then_op (Inl e, c) f = (Inl e, c)" "then_op (Inr x, c) f = f x c"
  by (simp_all add: then_op_def)

lemma poison_safe_then [intro]:
  assumes "poison_safe f" and "\<And>x. poison_safe (g x)"
  shows "poison_safe (\<lambda>c. then_op (f c) g)"
  unfolding poison_safe_def
proof (intro allI)
  fix c
  obtain r c1 where fc: "f c = (r, c1)" by (cases "f c")
  show "(poisoned c \<longrightarrow> poisoned (snd (then_op (f c) g))) \<and>
      (\<forall>e. fst (then_op (f c) g) = Inl (Io e) \<longrightarrow> poisoned (snd (then_op (f c) g)))"
    using assms(1)[unfolded poison_safe_def, THEN spec[of _ c]]
      assms(2)[unfolded poison_safe_def, THEN spec[of _ c1]] fc
    by (cases r) auto
qed

lemma poison_safe_pure [intro]: "poison_safe (\<lambda>c. (Inr x, c))"
  by (simp add: poison_safe_def)

lemma timed_write_poison:
  "fst (timed_write bs c) = Inl e \<Longrightarrow> poisoned (snd (timed_write bs c))"
  by (auto simp: timed_write_def split: list.splits write_event.splits)

lemma write_poison [intro]: "poison_safe (write_raw bs)" "poison_safe flush"
proof -
  have "poison_safe (\<lambda>c. then_op (timed_write bs (suspended c)) (\<lambda>_ c'. (Inr (), c'\<lparr>poisoned := poisoned c\<rparr>)))" for bs
    unfolding poison_safe_def
  proof (intro allI)
    fix c
    obtain r c1 where w: "timed_write bs (suspended c) = (r, c1)" by (cases "timed_write bs (suspended c)")
    show "(poisoned c \<longrightarrow> poisoned (snd (then_op (timed_write bs (suspended c)) (\<lambda>_ c'. (Inr (), c'\<lparr>poisoned := poisoned c\<rparr>))))) \<and>
      (\<forall>e. fst (then_op (timed_write bs (suspended c)) (\<lambda>_ c'. (Inr (), c'\<lparr>poisoned := poisoned c\<rparr>))) = Inl (Io e) \<longrightarrow>
        poisoned (snd (then_op (timed_write bs (suspended c)) (\<lambda>_ c'. (Inr (), c'\<lparr>poisoned := poisoned c\<rparr>)))))"
      using timed_write_poison[of bs "suspended c"] w by (cases r) auto
  qed
  then show "poison_safe (write_raw bs)" "poison_safe flush"
    unfolding write_raw_def[abs_def] flush_def[abs_def] Let_def by auto
qed

lemma write_packet_data_poison [intro]: "poison_safe (write_packet_data s m k ctl dat)"
  using write_poison(1) unfolding write_packet_data_def[abs_def] poison_safe_def by blast

lemma parse_one_poison: "poisoned (snd (parse_one c)) = poisoned c \<and> fst (parse_one c) \<noteq> Inl (Io e)"
proof -
  obtain r c' where p: "parse_one c = (r, c')" by (cases "parse_one c")
  show ?thesis
    by (cases rule: parse_one_cases[OF p]) (auto simp: p map_err_def split: sum.splits)
qed

lemma fill_poison [intro]: "poison_safe fill"
proof -
  have "poison_safe prepare_read" "poison_safe timed_read"
    by (auto simp: poison_safe_def prepare_read_def timed_read_def split: prod.splits sum.splits)
  moreover have "poison_safe (\<lambda>c. if bs = [] then (Inl (eof_error c), c) else (Inr (), c\<lparr>buf := buf c @ bs\<rparr>))" for bs
    by (auto simp: poison_safe_def eof_error_def)
  ultimately show ?thesis unfolding fill_def[abs_def] by (intro poison_safe_then)
qed

lemma read_loop_poison [intro]: "poison_safe read_loop"
proof -
  have "(poisoned c \<longrightarrow> poisoned (snd (read_loop c))) \<and> (\<forall>e. fst (read_loop c) = Inl (Io e) \<longrightarrow> poisoned (snd (read_loop c)))" for c
  proof (induction c rule: read_loop.induct)
    case (1 c)
    obtain r c1 where p: "parse_one c = (r, c1)" by (cases "parse_one c")
    obtain r2 c2 where f: "fill c1 = (r2, c2)" by (cases "fill c1")
    have "poisoned c1 = poisoned c" "\<And>e. r \<noteq> Inl (Io e)" using parse_one_poison[of c] p by auto
    moreover have "(poisoned c1 \<longrightarrow> poisoned c2) \<and> (\<forall>e. r2 = Inl (Io e) \<longrightarrow> poisoned c2)"
      using fill_poison f by (auto simp: poison_safe_def dest: spec[of _ c1])
    ultimately show ?case
      using 1[OF p[symmetric]] f by (subst (1 2 3) read_loop.simps) (auto simp: p split: sum.splits option.splits)
  qed
  then show ?thesis by (simp add: poison_safe_def)
qed

lemma read_packet_poison [intro]: "poison_safe read_packet"
  using read_loop_poison by (auto simp: poison_safe_def read_packet_def split: list.splits)

lemma judge_not_io: "judge s pkt \<noteq> Fail (Io e)"
  by (auto simp: judge_def remote_error_def split: prod.splits)

lemma recv_loop_poison [intro]: "poison_safe (recv_loop s)"
proof -
  have "(poisoned c \<longrightarrow> poisoned (snd (recv_loop s c))) \<and> (\<forall>e. fst (recv_loop s c) = Inl (Io e) \<longrightarrow> poisoned (snd (recv_loop s c)))" for c
  proof (induction s c rule: recv_loop.induct)
    case (1 s c)
    obtain r c1 where p: "read_packet c = (r, c1)" by (cases "read_packet c")
    have "(poisoned c \<longrightarrow> poisoned c1) \<and> (\<forall>e. r = Inl (Io e) \<longrightarrow> poisoned c1)"
      using read_packet_poison p by (auto simp: poison_safe_def dest: spec[of _ c])
    then show ?case
      using 1[OF p[symmetric]] judge_not_io[of s] by (subst (1 2 3) recv_loop.simps) (auto simp: p split: sum.splits verdict.splits)
  qed
  then show ?thesis by (simp add: poison_safe_def)
qed

lemma poll_fill_poison [intro]: "poison_safe poll_fill"
proof -
  have "poison_safe prepare_read" by (auto simp: poison_safe_def prepare_read_def)
  moreover have "poison_safe (\<lambda>c. case poll_read (incoming (io c)) of
        (None, evs) \<Rightarrow> (Inr False, c\<lparr>io := (io c)\<lparr>incoming := evs\<rparr>\<rparr>)
      | (Some (Inl e), evs) \<Rightarrow> (Inl (Io e), c\<lparr>io := (io c)\<lparr>incoming := evs\<rparr>, poisoned := True\<rparr>)
      | (Some (Inr bs), evs) \<Rightarrow>
        (let c = c\<lparr>io := (io c)\<lparr>incoming := evs\<rparr>\<rparr>
         in if bs = [] then (Inl (eof_error c), c) else (Inr True, c\<lparr>buf := buf c @ bs\<rparr>)))"
    by (auto simp: poison_safe_def eof_error_def split: prod.splits option.splits sum.splits)
  ultimately show ?thesis unfolding poll_fill_def[abs_def] by (intro poison_safe_then)
qed

lemma drain_loop_poison:
  "(poisoned c \<longrightarrow> poisoned (snd (drain_loop q c))) \<and> (\<forall>e. fst (drain_loop q c) = Inl (Io e) \<longrightarrow> poisoned (snd (drain_loop q c)))"
proof (induction q c rule: drain_loop.induct)
  case (1 q c)
  show ?case
  proof (cases "q \<ge> PENDING_HIGH_WATER_BYTES \<or> length (pending c) \<ge> MAX_PENDING_PACKETS")
    case True
    then show ?thesis by (subst (1 2 3) drain_loop.simps) simp
  next
    case False
    obtain r c1 where p: "parse_one c = (r, c1)" by (cases "parse_one c")
    obtain r2 c2 where f: "poll_fill c1 = (r2, c2)" by (cases "poll_fill c1")
    have "poisoned c1 = poisoned c" "\<And>e. r \<noteq> Inl (Io e)" using parse_one_poison[of c] p by auto
    moreover have "(poisoned c1 \<longrightarrow> poisoned c2) \<and> (\<forall>e. r2 = Inl (Io e) \<longrightarrow> poisoned c2)"
      using poll_fill_poison f by (auto simp: poison_safe_def dest: spec[of _ c1])
    ultimately show ?thesis
      using 1[OF False p[symmetric]] f False
      by (subst (1 2 3) drain_loop.simps) (auto simp: p split: sum.splits option.splits bool.splits)
  qed
qed

lemma find_map_Some: "find_map f xs = Some y \<Longrightarrow> \<exists>x \<in> set xs. f x = Some y"
  by (induction xs) (auto split: option.splits)

lemma peer_terminated_not_io: "peer_terminated c s \<noteq> Some (Io e)"
  by (auto simp: peer_terminated_def terminal_packet_def remote_error_def dest!: find_map_Some split: if_splits prod.splits)

lemma send_kind_poison [intro]: "poison_safe (\<lambda>c. snd (send_kind s k dat c))"
  using write_packet_data_poison by (simp add: send_kind_def)

lemma poison_safe_update:
  assumes "\<And>n. poison_safe (f n)" and "\<And>c. poisoned (g c) = poisoned c"
  shows "poison_safe (\<lambda>c. f (h c) (g c))"
  unfolding poison_safe_def
proof (intro allI)
  fix c
  show "(poisoned c \<longrightarrow> poisoned (snd (f (h c) (g c)))) \<and>
      (\<forall>e. fst (f (h c) (g c)) = Inl (Io e) \<longrightarrow> poisoned (snd (f (h c) (g c))))"
    using assms(1)[of "h c", unfolded poison_safe_def, THEN spec[of _ "g c"]] assms(2)[of c] by simp
qed

lemma poison_safe_stream_ops:
  "poison_safe (invoke rpc request)" "poison_safe (open_stream rpc)" "poison_safe (\<lambda>c. snd (close_send s c))"
  "poison_safe (\<lambda>c. snd (close_stream s c))"
proof -
  have "poison_safe (\<lambda>c. then_op (write_packet_data n 1 INVOKE False rpc c) (\<lambda>_ c.
        then_op (write_packet_data n 2 MESSAGE False request c) (\<lambda>_ c.
        then_op (write_packet_data n 3 CLOSE_SEND False [] c) (\<lambda>_ c.
        then_op (flush c) (\<lambda>_ c. then_op (recv_loop n c) (\<lambda>dat c.
        then_op (write_packet_data n 4 CLOSE False [] c) (\<lambda>_ c. then_op (flush c) (\<lambda>_ c. (Inr dat, c)))))))))" for n
    by (intro poison_safe_then write_packet_data_poison write_poison recv_loop_poison poison_safe_pure)
  then show "poison_safe (invoke rpc request)"
    unfolding invoke_def[abs_def] Let_def by (rule poison_safe_update) simp
  have "poison_safe (\<lambda>c. then_op (write_packet_data n 1 INVOKE False rpc c) (\<lambda>_ c.
      then_op (flush c) (\<lambda>_ c. (Inr \<lparr>rpc_stream_id = n, next_message_id = 1\<rparr>, c))))" for n
    by (intro poison_safe_then write_packet_data_poison write_poison poison_safe_pure)
  from poison_safe_update[where g = "\<lambda>c. c\<lparr>next_stream_id := next_stream_id c + 1\<rparr>" and h = next_stream_id, OF this]
  show "poison_safe (open_stream rpc)"
    by (simp add: open_stream_def[abs_def] send_kind_def)
  show "poison_safe (\<lambda>c. snd (close_send s c))" "poison_safe (\<lambda>c. snd (close_stream s c))"
    unfolding close_send_def close_stream_def send_kind_def Let_def case_prod_conv snd_conv
    by (intro poison_safe_then write_packet_data_poison write_poison)+
qed

lemma send_msg_poison: "poison_safe (\<lambda>c. snd (send_msg s dat c))"
  unfolding poison_safe_def
proof (intro allI)
  fix c
  obtain d c1 where d: "drain_ready c = (d, c1)" by (cases "drain_ready c")
  have *: "(poisoned c \<longrightarrow> poisoned c1) \<and> (\<forall>e. d = Inl (Io e) \<longrightarrow> poisoned c1)"
    using drain_loop_poison[of c "queued_payload c"] d by (simp add: drain_ready_def)
  have "poison_safe (\<lambda>c. then_op (snd (send_kind s MESSAGE dat c)) (\<lambda>_. flush))"
    by (intro poison_safe_then send_kind_poison write_poison)
  from this[unfolded poison_safe_def, THEN spec[of _ c1]] *
  show "(poisoned c \<longrightarrow> poisoned (snd (snd (send_msg s dat c)))) \<and>
      (\<forall>e. fst (snd (send_msg s dat c)) = Inl (Io e) \<longrightarrow> poisoned (snd (snd (send_msg s dat c))))"
    using peer_terminated_not_io[of c1 "rpc_stream_id s"]
    by (auto simp: send_msg_def d case_prod_beta split: option.splits sum.splits)
qed

section \<open>Reading does not depend on how the stream was cut\<close>

text \<open>The bytes still to come: those in the buffer, then those the transport will bring.\<close>

fun event_bytes :: "read_event \<Rightarrow> bytes" where
  "event_bytes (RData bs) = bs"
| "event_bytes _ = []"

definition ahead :: "Conn \<Rightarrow> bytes" where
  "ahead c = unparsed c @ concat (map event_bytes (incoming (io c)))"

text \<open>A transport that only delivers data, in whatever pieces and with whatever delays.\<close>

fun delivers :: "read_event \<Rightarrow> bool" where
  "delivers (RData bs) \<longleftrightarrow> bs \<noteq> []"
| "delivers RPending \<longleftrightarrow> True"
| "delivers _ \<longleftrightarrow> False"

definition delivering :: "Conn \<Rightarrow> bool" where
  "delivering c \<longleftrightarrow> list_all delivers (incoming (io c))"

text \<open>What reading leaves alone.\<close>

definition untouched :: "Conn \<Rightarrow> Conn \<Rightarrow> bool" where
  "untouched c c' \<longleftrightarrow> pending c' = pending c \<and> poisoned c' = poisoned c \<and> next_stream_id c' = next_stream_id c \<and>
    split_size c' = split_size c \<and> outcomes (io c') = outcomes (io c) \<and> sent (io c') = sent (io c)"

lemma untouched_refl: "untouched c c" and untouched_trans: "untouched a b \<Longrightarrow> untouched b c \<Longrightarrow> untouched a c"
  by (auto simp: untouched_def)

lemma await_read_delivers:
  assumes "list_all delivers evs" and "concat (map event_bytes evs) \<noteq> []"
  shows "\<exists>bs evs'. await_read evs = (Inr bs, evs') \<and> bs \<noteq> [] \<and> list_all delivers evs' \<and>
    concat (map event_bytes evs) = bs @ concat (map event_bytes evs')"
  using assms by (induction evs rule: await_read.induct) auto

lemma fill_delivering:
  assumes "delivering c" and "length (unparsed c) \<le> MAX_BUFFERED" and "ahead c \<noteq> unparsed c"
  shows "\<exists>c'. fill c = (Inr (), c') \<and> ahead c' = ahead c \<and> delivering c' \<and> assembler c' = assembler c \<and> untouched c c' \<and>
    read_size c' < read_size c"
proof -
  obtain r c1 where c1: "prepare_read c = (r, c1)" by (cases "prepare_read c")
  note f = prepare_read_fields[OF c1]
  have r: "r = Inr ()" using c1 assms(2) by (auto simp: prepare_read_def unparsed_def split: if_splits)
  obtain bs evs where bs: "await_read (incoming (io c)) = (Inr bs, evs)" "bs \<noteq> []" "list_all delivers evs"
      "concat (map event_bytes (incoming (io c))) = bs @ concat (map event_bytes evs)"
    using await_read_delivers[of "incoming (io c)"] assms by (auto simp: delivering_def ahead_def)
  let ?c = "c1\<lparr>io := (io c1)\<lparr>incoming := evs\<rparr>, buf := buf c1 @ bs\<rparr>"
  have "fill c = (Inr (), ?c)" using c1 r bs f by (simp add: fill_def timed_read_def)
  moreover have "ahead ?c = ahead c" using f bs by (simp add: ahead_def unparsed_def)
  moreover have "delivering ?c" "untouched c ?c" "assembler ?c = assembler c"
    using f bs by (auto simp: delivering_def untouched_def)
  ultimately show ?thesis using fill_size by blast
qed

lemma append_longer:
  assumes "xs @ ys = us @ vs" and "length us \<le> length xs"
  shows "\<exists>zs. xs = us @ zs \<and> vs = zs @ ys"
proof -
  have "take (length us) (xs @ ys) = us" "drop (length us) (xs @ ys) = vs" using assms(1) by simp_all
  then have "take (length us) xs = us" "drop (length us) xs @ ys = vs" using assms(2) by simp_all
  then show ?thesis by (metis append_take_drop_id)
qed

lemma read_loop_frame:
  assumes "delivering c" and "ahead c = frame_bytes f @ tail" and "frame_ok f" and "push (assembler c) f = (out, a)"
  shows "\<exists>c'. ahead c' = tail \<and> delivering c' \<and> assembler c' = a \<and> untouched c c' \<and>
    read_loop c = (case out of Inl e \<Rightarrow> (Inl (Frame e), c') | Inr (Some p) \<Rightarrow> (Inr p, c') | Inr None \<Rightarrow> read_loop c')"
  using assms
proof (induction c rule: measure_induct_rule[of read_size])
  case (less c)
  show ?case
  proof (cases "length (frame_bytes f) \<le> length (unparsed c)")
    case True
    then obtain u where u: "unparsed c = frame_bytes f @ u" "tail = u @ concat (map event_bytes (incoming (io c)))"
      using less.prems(2) append_longer[of "unparsed c" _ "frame_bytes f" tail] by (auto simp: ahead_def)
    let ?c = "(consume (length (frame_bytes f)) c)\<lparr>assembler := a\<rparr>"
    have pf: "parse_frame (unparsed c) = Inr (Some (f, length (frame_bytes f)))"
      using parse_frame_bytes[OF less.prems(3)] u by simp
    have p: "parse_one c = (map_err Frame out, ?c)"
      using less.prems(4) by (cases out) (simp_all add: parse_one_def pf)
    have "unparsed ?c = u" using u by (simp add: unparsed_consume)
    moreover have "frame_bytes f \<noteq> []" using frames.put_nonempty[OF less.prems(3)] .
    ultimately have "read_loop c = (case out of Inl e \<Rightarrow> (Inl (Frame e), ?c) | Inr (Some p) \<Rightarrow> (Inr p, ?c) | Inr None \<Rightarrow> read_loop ?c)"
      using u(1) by (subst read_loop.simps) (auto simp: p map_err_def split: sum.splits option.splits)
    moreover have "ahead ?c = tail" using u \<open>unparsed ?c = u\<close> by (simp add: ahead_def)
    moreover have "delivering ?c" "untouched c ?c" "assembler ?c = a"
      using less.prems(1) by (auto simp: delivering_def untouched_def)
    ultimately show ?thesis by blast
  next
    case False
    then obtain q where q: "frame_bytes f = unparsed c @ q"
      using less.prems(2) append_longer[of "frame_bytes f" tail "unparsed c" "concat (map event_bytes (incoming (io c)))"]
      by (auto simp: ahead_def)
    then have q: "frame_bytes f = unparsed c @ q" "q \<noteq> []" using False by auto
    have none: "parse_frame (unparsed c) = Inr None" using parse_frame_part[OF less.prems(3) q] .
    then have p: "parse_one c = (Inr None, c)" by (simp add: parse_one_def)
    have "length (unparsed c) \<le> MAX_BUFFERED" using parse_frame_None[OF none] by (simp add: MAX_BUFFERED_def)
    moreover have "ahead c \<noteq> unparsed c" using less.prems(2) q by simp
    ultimately obtain c2 where c2: "fill c = (Inr (), c2)" "ahead c2 = ahead c" "delivering c2"
        "assembler c2 = assembler c" "untouched c c2" "read_size c2 < read_size c"
      using fill_delivering[OF less.prems(1)] by blast
    have "read_loop c = read_loop c2" by (subst read_loop.simps) (simp add: p c2(1))
    moreover obtain c' where "ahead c' = tail" "delivering c'" "assembler c' = a" "untouched c2 c'"
        "read_loop c2 = (case out of Inl e \<Rightarrow> (Inl (Frame e), c') | Inr (Some p) \<Rightarrow> (Inr p, c') | Inr None \<Rightarrow> read_loop c')"
      using less.IH[OF c2(6,3)] c2(2,4) less.prems(2-4) by auto
    ultimately show ?thesis using untouched_trans[OF c2(5)] by (intro exI[of _ c']) simp
  qed
qed

text \<open>The packets a sequence of frames yields, one at a time.\<close>

fun first_packet :: "PacketAssembler \<Rightarrow> Frame list \<Rightarrow> ((FrameError + Packet) \<times> PacketAssembler \<times> Frame list) option" where
  "first_packet a [] = None"
| "first_packet a (f # fs) =
    (case push a f of
       (Inl e, a') \<Rightarrow> Some (Inl e, a', fs)
     | (Inr (Some p), a') \<Rightarrow> Some (Inr p, a', fs)
     | (Inr None, a') \<Rightarrow> first_packet a' fs)"

lemma read_loop_first:
  assumes "delivering c" and "ahead c = concat (map frame_bytes fs) @ tail" and "list_all frame_ok fs"
    and "first_packet (assembler c) fs = Some (Inr p, a, rest)"
  shows "\<exists>c'. read_loop c = (Inr p, c') \<and> ahead c' = concat (map frame_bytes rest) @ tail \<and> assembler c' = a \<and>
    delivering c' \<and> untouched c c'"
  using assms
proof (induction fs arbitrary: c)
  case (Cons f fs)
  obtain out a1 where out: "push (assembler c) f = (out, a1)" by (cases "push (assembler c) f")
  obtain c1 where c1: "ahead c1 = concat (map frame_bytes fs) @ tail" "delivering c1" "assembler c1 = a1" "untouched c c1"
      "read_loop c = (case out of Inl e \<Rightarrow> (Inl (Frame e), c1) | Inr (Some p) \<Rightarrow> (Inr p, c1) | Inr None \<Rightarrow> read_loop c1)"
    using read_loop_frame[OF Cons.prems(1) _ _ out, of "concat (map frame_bytes fs) @ tail"] Cons.prems by auto
  show ?case
  proof (cases "out = Inr None")
    case True
    then have "first_packet (assembler c1) fs = Some (Inr p, a, rest)" using Cons.prems(4) out c1(3) by simp
    then obtain c2 where "read_loop c1 = (Inr p, c2)" "ahead c2 = concat (map frame_bytes rest) @ tail" "assembler c2 = a"
        "delivering c2" "untouched c1 c2"
      using Cons.IH[OF c1(2,1)] Cons.prems(3) by auto
    then show ?thesis using c1(4,5) True untouched_trans by auto
  next
    case False
    then show ?thesis using Cons.prems(4) out c1 by (auto split: sum.splits option.splits)
  qed
qed simp

lemma push_not_done: "push a f = (Inr (Some p), a') \<Longrightarrow> f_done f"
  by (auto simp: push_def finish_push_def split: if_splits option.splits)

lemma first_packet_push_all:
  assumes "push_all a fs = (Inr [p], a')" and "\<And>f. f \<in> set (butlast fs) \<Longrightarrow> \<not> f_done f"
  shows "first_packet a (fs @ rest) = Some (Inr p, a', rest)"
  using assms
proof (induction fs arbitrary: a)
  case (Cons f fs)
  obtain out a1 where out: "push a f = (out, a1)" by (cases "push a f")
  show ?case
  proof (cases "fs = []")
    case True
    then show ?thesis using Cons.prems(1) out by (auto split: sum.splits option.splits)
  next
    case False
    then have "\<not> f_done f" "\<And>f. f \<in> set (butlast fs) \<Longrightarrow> \<not> f_done f" using Cons.prems(2) by auto
    moreover from this have "out \<noteq> Inr (Some q)" for q using push_not_done out by metis
    ultimately show ?thesis
      using Cons.IH[of a1] Cons.prems(1) out by (auto split: sum.splits option.splits prod.splits)
  qed
qed simp

lemma packet_frames_done: "f \<in> set (butlast (packet_frames pkt n dat)) \<Longrightarrow> \<not> f_done f"
proof (induction pkt n dat rule: packet_frames.induct)
  case (1 pkt n dat)
  show ?case
  proof (cases "0 < n \<and> n < length dat")
    case True
    then have e: "packet_frames pkt n dat = mk_frame pkt False (take n dat) # packet_frames pkt n (drop n dat)"
      by (subst packet_frames.simps) simp
    have "f = mk_frame pkt False (take n dat) \<or> f \<in> set (butlast (packet_frames pkt n (drop n dat)))"
      using 1(2) unfolding e by (auto split: if_splits)
    then show ?thesis using 1(1)[OF True] by (auto simp: mk_frame_def)
  next
    case False
    then show ?thesis using 1(2) by (subst (asm) packet_frames.simps) (auto split: if_splits)
  qed
qed

text \<open>One packet, however it was split and however the transport cuts its bytes.\<close>

lemma read_packet_one:
  assumes "delivering c" and "pending c = []" and "ahead c = append_packet [] pkt split @ tail"
    and "kind_ok (kind pkt)" and "length (data pkt) \<le> MAX_PACKET_SIZE"
    and "max_data (assembler c) = MAX_PACKET_SIZE" and "current (assembler c) = None"
    and "\<not> id_less (stream_id pkt) (message_id pkt) (last_stream (assembler c)) (last_message (assembler c))"
  shows "\<exists>c'. read_packet c = (Inr pkt, c') \<and> ahead c' = tail \<and> delivering c' \<and> untouched c c' \<and>
    assembler c' = (assembler c)\<lparr>last_stream := stream_id pkt, last_message := saturating_succ (message_id pkt), current := None\<rparr>"
proof -
  define n where "n = (if split = 0 then DEFAULT_SPLIT_SIZE else split)"
  have "0 < n" by (simp add: n_def DEFAULT_SPLIT_SIZE_def)
  then have b: "append_packet [] pkt split = concat (map frame_bytes (packet_frames pkt n (data pkt)))"
    by (simp add: append_packet_def append_packet_data_def n_def append_chunks_eq)
  let ?a = "(assembler c)\<lparr>last_stream := stream_id pkt, last_message := saturating_succ (message_id pkt), current := None\<rparr>"
  have "push_all (assembler c) (packet_frames pkt n (data pkt)) = (Inr [pkt], ?a)"
    using assms(5-8) by (intro push_all_packet) auto
  then have "first_packet (assembler c) (packet_frames pkt n (data pkt)) = Some (Inr pkt, ?a, [])"
    using first_packet_push_all[of _ _ pkt ?a "[]"] packet_frames_done by fastforce
  then show ?thesis
    using read_loop_first[OF assms(1) _ packet_frames_ok[OF assms(4,5)], of n tail pkt ?a "[]"] assms(2,3) b
    by (auto simp: read_packet_def)
qed

fun read_packets :: "nat \<Rightarrow> Conn \<Rightarrow> Packet list op" where
  "read_packets 0 c = (Inr [], c)"
| "read_packets (Suc n) c = then_op (read_packet c) (\<lambda>p c. then_op (read_packets n c) (\<lambda>ps c. (Inr (p # ps), c)))"

text \<open>Packets that a peer may send after the id \<open>(s, m)\<close>.\<close>

fun sendable :: "u64 \<Rightarrow> u64 \<Rightarrow> Packet list \<Rightarrow> bool" where
  "sendable s m [] \<longleftrightarrow> True"
| "sendable s m (p # ps) \<longleftrightarrow> \<not> id_less (stream_id p) (message_id p) s m \<and> kind_ok (kind p) \<and>
    length (data p) \<le> MAX_PACKET_SIZE \<and> sendable (stream_id p) (saturating_succ (message_id p)) ps"

lemma append_packet_append: "append_packet b p split = b @ append_packet [] p split"
proof -
  define n where "n = (if split = 0 then DEFAULT_SPLIT_SIZE else split)"
  have "0 < n" by (simp add: n_def DEFAULT_SPLIT_SIZE_def)
  then show ?thesis by (simp add: append_packet_def append_packet_data_def append_chunks_eq n_def[symmetric])
qed

lemma foldl_append_packet: "foldl (\<lambda>b p. append_packet b p split) b ps = b @ concat (map (\<lambda>p. append_packet [] p split) ps)"
proof (induction ps arbitrary: b)
  case (Cons p ps)
  then show ?case by (simp add: append_packet_append[of b])
qed simp

lemma read_packets_all:
  assumes "delivering c" and "pending c = []" and "ahead c = concat (map (\<lambda>p. append_packet [] p split) ps) @ tail"
    and "max_data (assembler c) = MAX_PACKET_SIZE" and "current (assembler c) = None"
    and "sendable (last_stream (assembler c)) (last_message (assembler c)) ps"
  shows "\<exists>c'. read_packets (length ps) c = (Inr ps, c') \<and> ahead c' = tail \<and> delivering c' \<and> untouched c c'"
  using assms
proof (induction ps arbitrary: c)
  case Nil
  then show ?case by (auto simp: untouched_refl)
next
  case (Cons p ps)
  let ?a = "(assembler c)\<lparr>last_stream := stream_id p, last_message := saturating_succ (message_id p), current := None\<rparr>"
  obtain c1 where c1: "read_packet c = (Inr p, c1)" "ahead c1 = concat (map (\<lambda>p. append_packet [] p split) ps) @ tail"
      "delivering c1" "untouched c c1" "assembler c1 = ?a"
    using read_packet_one[OF Cons.prems(1,2), of p split "concat (map (\<lambda>p. append_packet [] p split) ps) @ tail"] Cons.prems
    by auto
  obtain c2 where "read_packets (length ps) c1 = (Inr ps, c2)" "ahead c2 = tail" "delivering c2" "untouched c1 c2"
    using Cons.IH[OF c1(3) _ c1(2)] c1 Cons.prems by (auto simp: untouched_def)
  then show ?case using c1 untouched_trans by auto
qed

text \<open>Waiting for a reply skips what is left of earlier streams.\<close>

lemma recv_loop_skips:
  assumes "delivering c" and "pending c = []" and "ahead c = concat (map (\<lambda>p. append_packet [] p split) (stale @ [reply])) @ tail"
    and "max_data (assembler c) = MAX_PACKET_SIZE" and "current (assembler c) = None"
    and "sendable (last_stream (assembler c)) (last_message (assembler c)) (stale @ [reply])"
    and "list_all (\<lambda>p. stream_id p < s) stale" and "stream_id reply = s" and "kind reply = MESSAGE"
  shows "\<exists>c'. recv_loop s c = (Inr (data reply), c') \<and> ahead c' = tail \<and> untouched c c'"
  using assms
proof (induction stale arbitrary: c)
  case Nil
  obtain c1 where c1: "read_packet c = (Inr reply, c1)" "ahead c1 = tail" "untouched c c1"
    using read_packet_one[OF Nil.prems(1,2), of reply split tail] Nil.prems by auto
  have "judge s reply = Msg (data reply)" using assms(8,9) by (simp add: judge_def)
  then have "recv_loop s c = (Inr (data reply), c1)" by (subst recv_loop.simps) (simp add: c1(1))
  then show ?case using c1 by blast
next
  case (Cons p ps)
  let ?rest = "concat (map (\<lambda>p. append_packet [] p split) (ps @ [reply])) @ tail"
  let ?a = "(assembler c)\<lparr>last_stream := stream_id p, last_message := saturating_succ (message_id p), current := None\<rparr>"
  obtain c1 where c1: "read_packet c = (Inr p, c1)" "ahead c1 = ?rest" "delivering c1" "untouched c c1" "assembler c1 = ?a"
    using read_packet_one[OF Cons.prems(1,2), of p split ?rest] Cons.prems by auto
  have "judge s p = Skip" using Cons.prems(7) by (auto simp: judge_def)
  then have r: "recv_loop s c = recv_loop s c1" by (subst recv_loop.simps) (simp add: c1(1))
  obtain c2 where "recv_loop s c1 = (Inr (data reply), c2)" "ahead c2 = tail" "untouched c1 c2"
    using Cons.IH[OF c1(3) _ c1(2)] c1 Cons.prems by (auto simp: untouched_def)
  then show ?case using r c1(4) untouched_trans by auto
qed

section \<open>A unary call\<close>

definition writes_ok :: "Conn \<Rightarrow> bool" where
  "writes_ok c \<longleftrightarrow> list_all (\<lambda>w. w = WOk) (outcomes (io c))"

text \<open>What a successful write changes.\<close>

definition wrote :: "bytes \<Rightarrow> Conn \<Rightarrow> Conn \<Rightarrow> bool" where
  "wrote bs c c' \<longleftrightarrow> sent (io c') = sent (io c) @ bs \<and> writes_ok c' \<and> incoming (io c') = incoming (io c) \<and>
    buf c' = buf c \<and> pos c' = pos c \<and> next_stream_id c' = next_stream_id c \<and> assembler c' = assembler c \<and>
    pending c' = pending c \<and> split_size c' = split_size c \<and> poisoned c' = poisoned c"

lemma wrote_trans: "wrote a c c1 \<Longrightarrow> wrote b c1 c2 \<Longrightarrow> wrote (a @ b) c c2"
  by (simp add: wrote_def)

lemma write_raw_ok: "writes_ok c \<Longrightarrow> \<exists>c'. write_raw bs c = (Inr (), c') \<and> wrote bs c c'"
  by (auto simp: write_raw_def timed_write_def suspended_def writes_ok_def wrote_def split: list.splits)

lemma flush_ok: "writes_ok c \<Longrightarrow> \<exists>c'. flush c = (Inr (), c') \<and> wrote [] c c'"
  by (auto simp: flush_def timed_write_def suspended_def writes_ok_def wrote_def split: list.splits)

lemma write_packet_data_ok:
  "writes_ok c \<Longrightarrow> \<exists>c'. write_packet_data s m k ctl dat c = (Inr (), c') \<and>
    wrote (append_packet_data [] s m k ctl dat (split_size c)) c c'"
  using write_raw_ok by (simp add: write_packet_data_def)

lemma wrote_ahead: "wrote bs c c' \<Longrightarrow> ahead c' = ahead c \<and> delivering c' = delivering c"
  by (simp add: wrote_def ahead_def delivering_def unparsed_def)

text \<open>The bytes of a unary call: invoke, message and close-send before the reply, close after it.\<close>

definition call_bytes :: "nat \<Rightarrow> u64 \<Rightarrow> bytes \<Rightarrow> bytes \<Rightarrow> bytes" where
  "call_bytes split s rpc request =
    append_packet_data [] s 1 INVOKE False rpc split @ append_packet_data [] s 2 MESSAGE False request split @
    append_packet_data [] s 3 CLOSE_SEND False [] split @ append_packet_data [] s 4 CLOSE False [] split"

text \<open>
  What an operation puts on the wire: all of the given bytes when it succeeds, and a beginning of them when it fails.
\<close>

definition sends :: "nat \<Rightarrow> (Conn \<Rightarrow> 'a op) \<Rightarrow> bytes \<Rightarrow> bool" where
  "sends split f bs \<longleftrightarrow> (\<forall>c r c'. split_size c = split \<longrightarrow> f c = (r, c') \<longrightarrow> split_size c' = split \<and>
    (\<exists>k. sent (io c') = sent (io c) @ take k bs) \<and> (\<forall>x. r = Inr x \<longrightarrow> sent (io c') = sent (io c) @ bs))"

lemma sendsI:
  assumes "\<And>c r c'. split_size c = split \<Longrightarrow> f c = (r, c') \<Longrightarrow> split_size c' = split \<and>
    (\<exists>k. sent (io c') = sent (io c) @ take k bs) \<and> (\<forall>x. r = Inr x \<longrightarrow> sent (io c') = sent (io c) @ bs)"
  shows "sends split f bs"
  using assms unfolding sends_def by blast

lemma sends_then:
  assumes "sends split f bs" and "\<And>x. sends split (g x) bs'"
  shows "sends split (\<lambda>c. then_op (f c) g) (bs @ bs')"
proof (rule sendsI)
  fix c r c'
  assume c: "split_size c = split" and t: "then_op (f c) g = (r, c')"
  obtain r1 c1 where f: "f c = (r1, c1)" by (cases "f c")
  from assms(1) c f have 1: "split_size c1 = split" "\<exists>k. sent (io c1) = sent (io c) @ take k bs" "\<And>x. r1 = Inr x \<Longrightarrow> sent (io c1) = sent (io c) @ bs"
    unfolding sends_def by blast+
  show "split_size c' = split \<and> (\<exists>k. sent (io c') = sent (io c) @ take k (bs @ bs')) \<and>
      (\<forall>x. r = Inr x \<longrightarrow> sent (io c') = sent (io c) @ bs @ bs')"
  proof (cases r1)
    case (Inl e)
    then have "r = Inl e" "c' = c1" using t f by auto
    moreover obtain k where "sent (io c1) = sent (io c) @ take k bs" using 1(2) by blast
    then have "sent (io c1) = sent (io c) @ take (min k (length bs)) (bs @ bs')" by (cases "k \<le> length bs") simp_all
    ultimately show ?thesis using 1(1) by blast
  next
    case (Inr x)
    then have "g x c1 = (r, c')" using t f by simp
    with assms(2)[of x] 1(1) have 2: "split_size c' = split" "\<exists>k. sent (io c') = sent (io c1) @ take k bs'"
        "\<And>x. r = Inr x \<Longrightarrow> sent (io c') = sent (io c1) @ bs'"
      unfolding sends_def by blast+
    obtain k where "sent (io c') = sent (io c1) @ take k bs'" using 2(2) by blast
    then have "sent (io c') = sent (io c) @ take (length bs + k) (bs @ bs')" using 1(3)[OF Inr] by simp
    moreover have "sent (io c') = sent (io c) @ bs @ bs'" if "r = Inr y" for y using 1(3)[OF Inr] 2(3)[OF that] by simp
    ultimately show ?thesis using 2(1) by blast
  qed
qed

lemma sends_timed_write: "sends split (timed_write bs) bs"
proof (rule sendsI)
  fix c r c'
  assume "split_size c = split" "timed_write bs c = (r, c')"
  then show "split_size c' = split \<and> (\<exists>k. sent (io c') = sent (io c) @ take k bs) \<and> (\<forall>x. r = Inr x \<longrightarrow> sent (io c') = sent (io c) @ bs)"
    by (auto simp: timed_write_def Let_def split: list.splits write_event.splits) (metis order_refl take_all)+
qed

lemma sends_write: "sends split (write_raw bs) bs" "sends split flush []"
proof -
  have "sends split (\<lambda>c. then_op (timed_write bs (suspended c)) (\<lambda>_ c'. (Inr (), c'\<lparr>poisoned := poisoned c\<rparr>))) bs" for bs
  proof (rule sendsI)
    fix c r c'
    assume c: "split_size c = split" and t: "then_op (timed_write bs (suspended c)) (\<lambda>_ c'. (Inr (), c'\<lparr>poisoned := poisoned c\<rparr>)) = (r, c')"
    obtain r1 c1 where w: "timed_write bs (suspended c) = (r1, c1)" by (cases "timed_write bs (suspended c)")
    have "split_size c1 = split \<and> (\<exists>k. sent (io c1) = sent (io c) @ take k bs) \<and> (\<forall>x. r1 = Inr x \<longrightarrow> sent (io c1) = sent (io c) @ bs)"
      using sends_timed_write[unfolded sends_def, rule_format, OF _ w, of split] c by (simp add: suspended_def)
    then show "split_size c' = split \<and> (\<exists>k. sent (io c') = sent (io c) @ take k bs) \<and> (\<forall>x. r = Inr x \<longrightarrow> sent (io c') = sent (io c) @ bs)"
      using t w by (cases r1) (auto intro: exI[of _ "length bs"])
  qed
  then show "sends split (write_raw bs) bs" "sends split flush []"
    unfolding write_raw_def[abs_def] flush_def[abs_def] Let_def by blast+
qed

lemma sends_packet: "sends split (write_packet_data s m k ctl dat) (append_packet_data [] s m k ctl dat split)"
proof (rule sendsI)
  fix c r c'
  assume c: "split_size c = split" and w: "write_packet_data s m k ctl dat c = (r, c')"
  show "split_size c' = split \<and> (\<exists>n. sent (io c') = sent (io c) @ take n (append_packet_data [] s m k ctl dat split)) \<and>
      (\<forall>x. r = Inr x \<longrightarrow> sent (io c') = sent (io c) @ append_packet_data [] s m k ctl dat split)"
    using sends_write(1)[unfolded sends_def, rule_format, OF c w[unfolded write_packet_data_def c]] by blast
qed

lemma sends_pure: "sends split (\<lambda>c. (r, c)) []"
  by (rule sendsI) auto

lemma parse_one_sends:
  assumes "parse_one c = (r, c')"
  shows "sent (io c') = sent (io c) \<and> split_size c' = split_size c"
  by (cases rule: parse_one_cases[OF assms]) auto

lemma fill_sends: "fill c = (r, c') \<Longrightarrow> sent (io c') = sent (io c) \<and> split_size c' = split_size c"
  by (auto simp: fill_def prepare_read_def timed_read_def then_op_def Let_def split: prod.splits sum.splits if_splits)

lemma read_loop_sends: "read_loop c = (r, c') \<Longrightarrow> sent (io c') = sent (io c) \<and> split_size c' = split_size c"
proof (induction c arbitrary: r c' rule: read_loop.induct)
  case (1 c)
  obtain r1 c1 where p: "parse_one c = (r1, c1)" by (cases "parse_one c")
  obtain r2 c2 where f: "fill c1 = (r2, c2)" by (cases "fill c1")
  show ?case
    using 1(3) 1(1,2)[OF p[symmetric]] f parse_one_sends[OF p] fill_sends[OF f]
    by (subst (asm) read_loop.simps) (auto simp: p split: sum.splits option.splits if_splits)
qed

lemma read_packet_sends: "read_packet c = (r, c') \<Longrightarrow> sent (io c') = sent (io c) \<and> split_size c' = split_size c"
  using read_loop_sends[of c r c'] by (auto simp: read_packet_def split: list.splits)

lemma recv_loop_sends: "recv_loop s c = (r, c') \<Longrightarrow> sent (io c') = sent (io c) \<and> split_size c' = split_size c"
proof (induction s c arbitrary: r c' rule: recv_loop.induct)
  case (1 s c)
  obtain r1 c1 where p: "read_packet c = (r1, c1)" by (cases "read_packet c")
  show ?case
    using 1(2) 1(1)[OF p[symmetric]] read_packet_sends[OF p]
    by (subst (asm) recv_loop.simps) (auto simp: p split: sum.splits verdict.splits)
qed

text \<open>A call puts its request on the wire at most once, and all of it when it returns a reply.\<close>

lemma invoke_sends:
  assumes "invoke rpc request c = (r, c')"
  shows "\<exists>k. sent (io c') = sent (io c) @ take k (call_bytes (split_size c) (next_stream_id c) rpc request)"
    and "r = Inr body \<Longrightarrow> sent (io c') = sent (io c) @ call_bytes (split_size c) (next_stream_id c) rpc request"
proof -
  let ?s = "next_stream_id c" and ?n = "split_size c"
  have recv: "sends ?n (recv_loop ?s) []" using recv_loop_sends by (intro sendsI) fastforce
  let ?rest = "\<lambda>c. then_op (write_packet_data ?s 1 INVOKE False rpc c) (\<lambda>_ c.
        then_op (write_packet_data ?s 2 MESSAGE False request c) (\<lambda>_ c.
        then_op (write_packet_data ?s 3 CLOSE_SEND False [] c) (\<lambda>_ c.
        then_op (flush c) (\<lambda>_ c.
        then_op (recv_loop ?s c) (\<lambda>dat c.
        then_op (write_packet_data ?s 4 CLOSE False [] c) (\<lambda>_ c.
        then_op (flush c) (\<lambda>_ c. (Inr dat, c))))))))"
  have "sends ?n ?rest (append_packet_data [] ?s 1 INVOKE False rpc ?n @ append_packet_data [] ?s 2 MESSAGE False request ?n @
      append_packet_data [] ?s 3 CLOSE_SEND False [] ?n @ [] @ [] @ append_packet_data [] ?s 4 CLOSE False [] ?n @ [] @ [])"
    by (intro sends_then sends_packet sends_write recv sends_pure)
  then have rest: "sends ?n ?rest (call_bytes ?n ?s rpc request)" by (simp add: call_bytes_def)
  have e: "?rest (c\<lparr>next_stream_id := ?s + 1\<rparr>) = (r, c')" using assms by (simp add: invoke_def Let_def)
  show "\<exists>k. sent (io c') = sent (io c) @ take k (call_bytes ?n ?s rpc request)"
    "r = Inr body \<Longrightarrow> sent (io c') = sent (io c) @ call_bytes ?n ?s rpc request"
    using rest[unfolded sends_def, rule_format, OF _ e] by auto
qed

section \<open>The queue of packets read ahead\<close>

definition queue_ok :: "Conn \<Rightarrow> bool" where
  "queue_ok c \<longleftrightarrow> max_data (assembler c) = MAX_PACKET_SIZE \<and>
    queued_payload c < 2 * MAX_PACKET_SIZE \<and> length (pending c) \<le> MAX_PENDING_PACKETS"

lemma push_size: "push a f = (out, a') \<Longrightarrow> max_data a' = max_data a \<and> (\<forall>p. out = Inr (Some p) \<longrightarrow> length (data p) \<le> max_data a)"
  by (auto simp: push_def finish_push_def split: if_splits option.splits)

lemma parse_one_packet_size:
  "parse_one c = (r, c') \<Longrightarrow> max_data (assembler c') = max_data (assembler c) \<and>
    (\<forall>p. r = Inr (Some p) \<longrightarrow> length (data p) \<le> max_data (assembler c))"
proof -
  assume p: "parse_one c = (r, c')"
  show ?thesis
    by (cases rule: parse_one_cases[OF p]) (auto dest: push_size simp: map_err_def split: sum.splits)
qed

lemma poll_fill_fields: "poll_fill c = (r, c') \<Longrightarrow> assembler c' = assembler c \<and> pending c' = pending c"
proof -
  assume f: "poll_fill c = (r, c')"
  obtain r1 c1 where c1: "prepare_read c = (r1, c1)" by (cases "prepare_read c")
  then show ?thesis
    using f prepare_read_fields[OF c1]
    by (cases r1) (auto simp: poll_fill_def split: prod.splits option.splits sum.splits if_splits)
qed

lemma drain_loop_queue:
  "queue_ok c \<Longrightarrow> q = queued_payload c \<Longrightarrow> drain_loop q c = (r, c') \<Longrightarrow> queue_ok c'"
proof (induction q c arbitrary: r c' rule: drain_loop.induct)
  case (1 q c)
  show ?case
  proof (cases "q \<ge> PENDING_HIGH_WATER_BYTES \<or> length (pending c) \<ge> MAX_PENDING_PACKETS")
    case True
    then show ?thesis using 1(4,6) by (subst (asm) drain_loop.simps) simp
  next
    case False
    obtain r1 c1 where p: "parse_one c = (r1, c1)" by (cases "parse_one c")
    obtain r2 c2 where f: "poll_fill c1 = (r2, c2)" by (cases "poll_fill c1")
    have c1: "pending c1 = pending c" using parse_one_size[OF p] by simp
    have m: "max_data (assembler c1) = max_data (assembler c)"
      "\<And>pkt. r1 = Inr (Some pkt) \<Longrightarrow> length (data pkt) \<le> max_data (assembler c)"
      using parse_one_packet_size[OF p] by auto
    have q1: "queue_ok c1" "queued_payload c1 = q" using 1(4,5) m c1 by (simp_all add: queue_ok_def queued_payload_def)
    have q2: "queue_ok c2" "queued_payload c2 = q"
      using q1 poll_fill_fields[OF f] by (simp_all add: queue_ok_def queued_payload_def)
    have q3: "queue_ok (c1\<lparr>pending := pending c1 @ [pkt]\<rparr>)"
      "queued_payload (c1\<lparr>pending := pending c1 @ [pkt]\<rparr>) = q + length (data pkt)" if "r1 = Inr (Some pkt)" for pkt
      using q1 c1 False m(2)[OF that] 1(4) by (auto simp: queue_ok_def queued_payload_def PENDING_HIGH_WATER_BYTES_def)
    note IH = 1(1-3)[OF False p[symmetric]]
    show ?thesis
      using 1(6) False q1 q2 q3 IH f
      by (subst (asm) drain_loop.simps) (auto simp: p split: sum.splits option.splits bool.splits if_splits)
  qed
qed

section \<open>Properties of a connection\<close>

text \<open>
  Reading packets does not depend on how the transport cuts the stream: whatever pieces the bytes
  of a sequence of packets arrive in (with any split size, any delays, some of them already
  buffered), reading as many packets returns exactly these packets in order, and the bytes after
  them are still ahead.
\<close>

theorem read_packets_any_cut:
  assumes "delivering c" and "pending c = []"
    and "ahead c = foldl (\<lambda>b p. append_packet b p split) [] ps @ tail"
    and "max_data (assembler c) = MAX_PACKET_SIZE" and "current (assembler c) = None"
    and "sendable (last_stream (assembler c)) (last_message (assembler c)) ps"
  shows "\<exists>c'. read_packets (length ps) c = (Inr ps, c') \<and> ahead c' = tail \<and> poisoned c' = poisoned c"
  using read_packets_all[OF assms(1,2) _ assms(4-6), of split tail] assms(3)
  by (auto simp: foldl_append_packet untouched_def)

definition cut_conn :: Conn where
  "cut_conn = new_conn \<lparr>incoming = [RData [4, 1, 2], RPending, RData [2, 7, 8, 5], RData [1, 2, 1, 9]], outcomes = [], sent = []\<rparr>"

lemma cut_conn_stream: "ahead cut_conn = foldl (\<lambda>b p. append_packet b p 2) [] [sample_packet] @ []"
proof -
  have "append_packet [] sample_packet 2 = [4, 1, 2, 2, 7, 8, 5, 1, 2, 1, 9]" by code_simp
  then show ?thesis by (simp add: ahead_def cut_conn_def new_conn_def unparsed_def)
qed

theorem read_packets_any_cut_witness:
  "\<exists>c'. read_packets 1 cut_conn = (Inr [sample_packet], c') \<and> ahead c' = [] \<and> \<not> poisoned c'"
proof -
  have "delivering cut_conn" "pending cut_conn = []" "max_data (assembler cut_conn) = MAX_PACKET_SIZE"
    "current (assembler cut_conn) = None" "\<not> poisoned cut_conn"
    "sendable (last_stream (assembler cut_conn)) (last_message (assembler cut_conn)) [sample_packet]"
    by (simp_all add: cut_conn_def new_conn_def delivering_def default_assembler_def sample_packet_def id_less_def
        kind_defs MAX_PACKET_SIZE_def)
  then show ?thesis using read_packets_any_cut[OF _ _ cut_conn_stream] by simp
qed

lemma invoke_reply:
  assumes "writes_ok c" and "delivering c" and "pending c = []"
    and "ahead c = foldl (\<lambda>b p. append_packet b p split) [] (stale @ [reply]) @ tail"
    and "list_all (\<lambda>p. stream_id p < next_stream_id c) stale"
    and "stream_id reply = next_stream_id c" and "kind reply = MESSAGE"
    and "max_data (assembler c) = MAX_PACKET_SIZE" and "current (assembler c) = None"
    and "sendable (last_stream (assembler c)) (last_message (assembler c)) (stale @ [reply])"
  shows "\<exists>c'. invoke rpc request c = (Inr (data reply), c') \<and>
    sent (io c') = sent (io c) @ call_bytes (split_size c) (next_stream_id c) rpc request \<and>
    ahead c' = tail \<and> next_stream_id c' = next_stream_id c + 1 \<and> poisoned c' = poisoned c"
proof -
  define s where "s = next_stream_id c"
  define c0 where "c0 = c\<lparr>next_stream_id := s + 1\<rparr>"
  let ?pk = "\<lambda>m k d. append_packet_data [] s m k False d (split_size c)"
  have c0: "writes_ok c0" "split_size c0 = split_size c" "ahead c0 = ahead c" "delivering c0 = delivering c"
    using assms(1) by (simp_all add: c0_def writes_ok_def ahead_def delivering_def unparsed_def)
  obtain c1 where c1: "write_packet_data s 1 INVOKE False rpc c0 = (Inr (), c1)" "wrote (?pk 1 INVOKE rpc) c0 c1"
    using write_packet_data_ok[OF c0(1)] c0(2) by metis
  obtain c2 where c2: "write_packet_data s 2 MESSAGE False request c1 = (Inr (), c2)" "wrote (?pk 2 MESSAGE request) c1 c2"
    using write_packet_data_ok[of c1] c1(2) c0(2) by (metis wrote_def)
  obtain c3 where c3: "write_packet_data s 3 CLOSE_SEND False [] c2 = (Inr (), c3)" "wrote (?pk 3 CLOSE_SEND []) c2 c3"
    using write_packet_data_ok[of c2] c1(2) c2(2) c0(2) by (metis wrote_def)
  obtain c4 where c4: "flush c3 = (Inr (), c4)" "wrote [] c3 c4" using flush_ok[of c3] c3(2) by (metis wrote_def)
  note w = wrote_trans[OF wrote_trans[OF wrote_trans[OF c1(2) c2(2)] c3(2)] c4(2)]
  have a4: "ahead c4 = concat (map (\<lambda>p. append_packet [] p split) (stale @ [reply])) @ tail" "delivering c4" "pending c4 = []"
      "assembler c4 = assembler c"
    using wrote_ahead[OF w] c0(3,4) assms(2-4) w by (simp_all add: foldl_append_packet wrote_def c0_def)
  obtain c5 where r: "recv_loop s c4 = (Inr (data reply), c5)" and c5: "ahead c5 = tail" "untouched c4 c5"
    using recv_loop_skips[OF a4(2,3,1), of s] assms(5-10) unfolding a4(4) s_def by blast
  have c5': "writes_ok c5" "split_size c5 = split_size c" using c5(2) w c0(2) by (auto simp: wrote_def untouched_def writes_ok_def)
  obtain c6 where c6: "write_packet_data s 4 CLOSE False [] c5 = (Inr (), c6)" "wrote (?pk 4 CLOSE []) c5 c6"
    using write_packet_data_ok[OF c5'(1)] c5'(2) by metis
  obtain c7 where c7: "flush c6 = (Inr (), c7)" "wrote [] c6 c7" using flush_ok[of c6] c6(2) by (metis wrote_def)
  have "invoke rpc request c = (Inr (data reply), c7)"
    by (simp add: invoke_def c0_def[symmetric] s_def[symmetric] c1 c2 c3 c4 r c6 c7)
  moreover have w': "wrote (?pk 4 CLOSE [] @ []) c5 c7" using wrote_trans[OF c6(2) c7(2)] .
  ultimately show ?thesis
    using w w' c5 wrote_ahead[OF w'] by (auto simp: wrote_def untouched_def c0_def s_def call_bytes_def)
qed

text \<open>
  C6: a unary call: when the writes succeed and the peer sends, after any packets left over from earlier
  streams, a message on the call's stream, \<open>invoke\<close> skips the leftovers and returns the data of the message, has
  sent exactly the invoke, message, close-send and close packets of a fresh stream, leaves what follows the
  reply unread, and does not poison the connection.
\<close>

theorem invoke_returns_reply:
  assumes "writes_ok c" and "delivering c" and "pending c = []"
    and "ahead c = foldl (\<lambda>b p. append_packet b p split) [] (stale @ [reply]) @ tail"
    and "list_all (\<lambda>p. stream_id p < next_stream_id c) stale"
    and "stream_id reply = next_stream_id c" and "kind reply = MESSAGE"
    and "max_data (assembler c) = MAX_PACKET_SIZE" and "current (assembler c) = None"
    and "sendable (last_stream (assembler c)) (last_message (assembler c)) (stale @ [reply])"
  shows "\<exists>c'. invoke rpc request c = (Inr (data reply), c') \<and>
    sent (io c') = sent (io c) @ call_bytes (split_size c) (next_stream_id c) rpc request \<and>
    ahead c' = tail \<and> next_stream_id c' = next_stream_id c + 1 \<and> poisoned c' = poisoned c"
  by (rule invoke_reply[OF assms])

text \<open>The second call of a connection: its reply follows a message of the first stream and is cut in the middle.\<close>

definition reply_conn :: Conn where
  "reply_conn = (new_conn \<lparr>incoming = [RData [5, 1, 1, 1, 9, 5, 2], RData [1, 1, 42]], outcomes = [], sent = []\<rparr>)\<lparr>next_stream_id := 2\<rparr>"

definition sample_stale :: Packet where
  "sample_stale = \<lparr>stream_id = 1, message_id = 1, kind = MESSAGE, control = False, data = [9]\<rparr>"

definition sample_reply :: Packet where
  "sample_reply = \<lparr>stream_id = 2, message_id = 1, kind = MESSAGE, control = False, data = [42]\<rparr>"

theorem invoke_returns_reply_witness:
  "\<exists>c'. invoke [1] [2] reply_conn = (Inr [42], c') \<and> sent (io c') = call_bytes DEFAULT_SPLIT_SIZE 2 [1] [2] \<and> \<not> poisoned c'"
proof -
  have "foldl (\<lambda>b p. append_packet b p 2) [] [sample_stale, sample_reply] = [5, 1, 1, 1, 9, 5, 2, 1, 1, 42]" by code_simp
  then have a: "ahead reply_conn = foldl (\<lambda>b p. append_packet b p 2) [] ([sample_stale] @ [sample_reply]) @ []"
    by (simp add: ahead_def reply_conn_def new_conn_def unparsed_def)
  have "writes_ok reply_conn" "delivering reply_conn" "pending reply_conn = []"
    "list_all (\<lambda>p. stream_id p < next_stream_id reply_conn) [sample_stale]"
    "stream_id sample_reply = next_stream_id reply_conn" "kind sample_reply = MESSAGE"
    "max_data (assembler reply_conn) = MAX_PACKET_SIZE" "current (assembler reply_conn) = None"
    "sendable (last_stream (assembler reply_conn)) (last_message (assembler reply_conn)) ([sample_stale] @ [sample_reply])"
    "\<not> poisoned reply_conn" "data sample_reply = [42]" "split_size reply_conn = DEFAULT_SPLIT_SIZE" "next_stream_id reply_conn = 2"
    "sent (io reply_conn) = []"
    by (simp_all add: reply_conn_def new_conn_def writes_ok_def delivering_def default_assembler_def sample_reply_def
        sample_stale_def id_less_def saturating_succ_def kind_defs MAX_PACKET_SIZE_def)
  then show ?thesis using invoke_returns_reply[OF _ _ _ a, of "[1]" "[2]"] by auto
qed

text \<open>
  C7: no operation ever clears the poison flag, and every I/O error or expired deadline, on any path of
  any operation, leaves the connection poisoned; while a write is awaited the flag is up.
\<close>

theorem poisoning_is_sticky:
  "poison_safe (invoke rpc request) \<and> poison_safe (open_stream rpc) \<and> poison_safe (recv_msg s) \<and>
   poison_safe (\<lambda>c. snd (send_msg s dat c)) \<and> poison_safe (\<lambda>c. snd (close_send s c)) \<and>
   poison_safe (\<lambda>c. snd (close_stream s c)) \<and> poison_safe (write_packet pkt) \<and> poison_safe read_packet \<and>
   poison_safe write_tls_mux_prefix \<and> poison_safe read_tls_mux_prefix \<and> (\<forall>c. poisoned (suspended c))"
proof (intro conjI poison_safe_stream_ops send_msg_poison)
  show "poison_safe (recv_msg s)" unfolding recv_msg_def[abs_def] by (rule recv_loop_poison)
  show "poison_safe (write_packet pkt)" "poison_safe write_tls_mux_prefix"
    unfolding write_packet_def[abs_def] write_tls_mux_prefix_def[abs_def]
    by (intro poison_safe_then write_packet_data_poison write_poison)+
  show "poison_safe read_tls_mux_prefix"
    by (auto simp: poison_safe_def read_tls_mux_prefix_def split: prod.splits sum.splits)
qed (auto simp: suspended_def)

text \<open>
  Reading ahead is bounded: probing the transport while sending keeps the queued payload below twice
  the packet limit and the queue at 256 packets at most, whatever the peer sends.
\<close>

theorem drain_ready_bounded:
  assumes "queue_ok c" and "drain_ready c = (r, c')"
  shows "queued_payload c' < 2 * MAX_PACKET_SIZE \<and> length (pending c') \<le> 256"
  using drain_loop_queue[OF assms(1) refl] assms(2)
  by (auto simp: drain_ready_def queue_ok_def MAX_PENDING_PACKETS_def)

theorem drain_ready_bounded_witness:
  "queue_ok cut_conn \<and> (\<exists>r c'. drain_ready cut_conn = (r, c') \<and> length (pending c') \<le> 256)"
proof -
  have q: "queue_ok cut_conn"
    by (simp add: queue_ok_def cut_conn_def new_conn_def default_assembler_def queued_payload_def MAX_PACKET_SIZE_def)
  obtain r c' where "drain_ready cut_conn = (r, c')" by (cases "drain_ready cut_conn")
  then show ?thesis using q drain_ready_bounded[OF q] by blast
qed

end
