(* ===== verification/Padding.thy ===== *)
theory Padding
  imports Codecs
begin

text \<open>
  Encryption-block padding, \<open>crates/storj-encryption/src/pad.rs\<close>, and the error kinds of that crate
  (\<open>error.rs\<close>; the messages are left out).  Padding is a codec: stripping it gives back the data, the
  padded length is the next multiple of the block size that leaves room for the trailer.
\<close>

section \<open>The code\<close>

datatype ErrorKind =
    MissingEncryptionBase
  | MissingDecryptionBase
  | DecryptionFailed
  | InvalidConfig
  | Conflict
  | Protocol

definition UINT32_SIZE :: nat where
  "UINT32_SIZE = 4"

definition be_bytes32 :: "u32 \<Rightarrow> bytes" where
  "be_bytes32 x = map (\<lambda>i. ucast (drop_bit (8 * (3 - i)) x)) [0..<4]"

definition from_be_bytes32 :: "bytes \<Rightarrow> u32" where
  "from_be_bytes32 bs = fold (\<lambda>b acc. push_bit 8 acc OR ucast b) bs 0"

text \<open>
  \<open>i64\<close> values are integers; \<open>try_from\<close> checks the range and the sum is taken in \<open>i64\<close>, where it can
  overflow only for a length within four bytes of the largest \<open>i64\<close>; the wrapped value is then
  negative and its remainder not positive.
\<close>

definition wrap_i64 :: "int \<Rightarrow> int" where
  "wrap_i64 x = (x + 2 ^ 63) mod 2 ^ 64 - 2 ^ 63"

text \<open>Division and remainder of \<open>i64\<close> round towards zero.\<close>

definition quot_i64 :: "int \<Rightarrow> int \<Rightarrow> int" where
  "quot_i64 a b = (if (a < 0) = (b < 0) then \<bar>a\<bar> div \<bar>b\<bar> else - (\<bar>a\<bar> div \<bar>b\<bar>))"

definition rem_i64 :: "int \<Rightarrow> int \<Rightarrow> int" where
  "rem_i64 a b = (if a < 0 then - (\<bar>a\<bar> mod \<bar>b\<bar>) else a mod \<bar>b\<bar>)"

definition make_padding :: "int \<Rightarrow> nat \<Rightarrow> ErrorKind + bytes" where
  "make_padding data_len block_size =
    (if block_size = 0 then Inl InvalidConfig
     else if data_len < 0 then Inl InvalidConfig
     else if int block_size > i64_max then Inl InvalidConfig
     else let block_size_i = int block_size;
              amount = wrap_i64 (data_len + int UINT32_SIZE);
              r = rem_i64 amount block_size_i;
              padding = UINT32_SIZE + (if r > 0 then nat (block_size_i - r) else 0);
              padding_bytes = replicate padding 0
          in if int padding > 2 ^ 32 - 1 then Inl InvalidConfig
             else let n = length padding_bytes
                  in Inr (put_slice padding_bytes (n - UINT32_SIZE) (be_bytes32 (of_nat padding))))"

definition pad :: "bytes \<Rightarrow> nat \<Rightarrow> ErrorKind + bytes" where
  "pad dat block_size =
    (if int (length dat) > i64_max then Inl InvalidConfig
     else try_bind (make_padding (int (length dat)) block_size) (\<lambda>padding. Inr (dat @ padding)))"

definition unpad_len :: "bytes \<Rightarrow> nat \<Rightarrow> ErrorKind + bytes" where
  "unpad_len dat padding =
    (if padding > length dat then Inl InvalidConfig else Inr (take (length dat - padding) dat))"

definition unpad :: "bytes \<Rightarrow> ErrorKind + bytes" where
  "unpad dat =
    (if length dat < UINT32_SIZE then Inl InvalidConfig
     else let trailer = drop (length dat - UINT32_SIZE) dat;
              padding = unat (from_be_bytes32 trailer)
          in unpad_len dat padding)"

section \<open>Big-endian trailers\<close>

lemma split_low_byte32: "push_bit 8 (drop_bit 8 y) OR ucast (ucast (y :: u32) :: u8) = y"
proof (rule bit_word_eqI)
  fix n assume "n < LENGTH(32)"
  then show "bit (push_bit 8 (drop_bit 8 y) OR ucast (ucast y :: u8)) n = bit y n"
    by (cases "n < 8") (auto simp: bit_simps)
qed

lemma from_be_bytes32_be_bytes32: "from_be_bytes32 (be_bytes32 x) = x"
proof -
  let ?f = "\<lambda>i acc. push_bit 8 acc OR ucast (ucast (drop_bit (8 * (3 - i)) x) :: u8)"
  have "fold ?f [0..<4] 0 = drop_bit (8 * (4 - 4)) x"
  proof (rule fold_upt_invariant[where P = "\<lambda>i acc. acc = drop_bit (8 * (4 - i)) x"])
    show "(0 :: u32) = drop_bit (8 * (4 - 0)) x"
      by (rule bit_word_eqI) (auto simp: bit_simps dest: bit_imp_le_length)
    fix i and acc :: u32
    assume i: "i < 4" and acc: "acc = drop_bit (8 * (4 - i)) x"
    then have "acc = drop_bit 8 (drop_bit (8 * (3 - i)) x)"
      by (simp add: Suc_diff_le drop_bit_drop_bit algebra_simps)
    then show "?f i acc = drop_bit (8 * (4 - Suc i)) x"
      using split_low_byte32[of "drop_bit (8 * (3 - i)) x"] by (simp only: diff_Suc_Suc[of 3 i, simplified]) simp
  qed simp
  then show ?thesis by (simp add: from_be_bytes32_def be_bytes32_def fold_map comp_def)
qed

lemma length_be_bytes32 [simp]: "length (be_bytes32 x) = 4"
  by (simp add: be_bytes32_def)

section \<open>Padding and stripping\<close>

lemma wrap_i64_id: "i64_min \<le> x \<Longrightarrow> x \<le> i64_max \<Longrightarrow> wrap_i64 x = x"
  by (simp add: wrap_i64_def)

text \<open>The amount of padding: the trailer, and zeros up to the block boundary.\<close>

definition padding_size :: "nat \<Rightarrow> nat \<Rightarrow> nat" where
  "padding_size n b = 4 + (if (n + 4) mod b = 0 then 0 else b - (n + 4) mod b)"

lemma padding_size_dvd: "0 < b \<Longrightarrow> b dvd n + padding_size n b"
proof -
  assume b: "0 < b"
  show ?thesis
  proof (cases "(n + 4) mod b = 0")
    case True
    then show ?thesis by (simp add: padding_size_def mod_eq_0_iff_dvd)
  next
    case False
    have "(n + 4) mod b < b" using b by simp
    then have "n + padding_size n b = (n + 4) + (b - (n + 4) mod b)" using False by (simp add: padding_size_def)
    also have "\<dots> = (n + 4) div b * b + b" using \<open>(n + 4) mod b < b\<close> div_mult_mod_eq[of "n + 4" b] by linarith
    finally show ?thesis by simp
  qed
qed

lemma padding_size_bounds: "0 < b \<Longrightarrow> 4 \<le> padding_size n b \<and> padding_size n b < 4 + b"
  by (auto simp: padding_size_def intro: diff_less)

lemma make_padding_ok:
  assumes "0 < b" and "b + 4 \<le> 2 ^ 32" and "int n + 4 \<le> i64_max"
  shows "make_padding (int n) b = Inr (replicate (padding_size n b - 4) 0 @ be_bytes32 (of_nat (padding_size n b)))"
proof -
  have w: "wrap_i64 (int n + int UINT32_SIZE) = int (n + 4)"
    using assms(3) by (simp add: UINT32_SIZE_def wrap_i64_id)
  have r: "rem_i64 (int (n + 4)) (int b) = int ((n + 4) mod b)"
    by (simp add: rem_i64_def zmod_int)
  have le: "(n + 4) mod b \<le> b" using assms(1) by (simp add: less_imp_le)
  have pad: "UINT32_SIZE + (if int ((n + 4) mod b) > 0 then nat (int b - int ((n + 4) mod b)) else 0) = padding_size n b"
    using le by (auto simp: padding_size_def UINT32_SIZE_def nat_diff_distrib)
  have small: "padding_size n b \<le> 2 ^ 32 - 1" "int b \<le> i64_max"
    using padding_size_bounds[OF assms(1), of n] assms(2) by simp_all
  show ?thesis
    using assms(1) small padding_size_bounds[OF assms(1), of n]
    by (simp only: make_padding_def Let_def w r pad)
       (auto simp: put_slice_def UINT32_SIZE_def)
qed

lemma unpad_ok:
  assumes "4 \<le> p" and "p < 2 ^ 32"
  shows "unpad (dat @ replicate (p - 4) 0 @ be_bytes32 (of_nat p)) = Inr dat"
proof -
  let ?x = "dat @ replicate (p - 4) 0 @ be_bytes32 (of_nat p)"
  have len: "length ?x = length dat + p" using assms(1) by simp
  have "drop (length ?x - 4) ?x = be_bytes32 (of_nat p)" using assms(1) by simp
  moreover have "unat (of_nat p :: u32) = p" using assms(2) by (simp add: unsigned_of_nat take_bit_nat_eq_self)
  ultimately show ?thesis
    using assms(1) len by (simp add: unpad_def UINT32_SIZE_def from_be_bytes32_be_bytes32 unpad_len_def)
qed

lemma pad_ok:
  assumes "0 < b" and "b + 4 \<le> 2 ^ 32" and "int (length dat) + 4 \<le> i64_max"
  shows "pad dat b = Inr (dat @ replicate (padding_size (length dat) b - 4) 0 @ be_bytes32 (of_nat (padding_size (length dat) b)))"
  using make_padding_ok[OF assms] assms(3) by (simp add: pad_def)

lemma pad_unpad:
  assumes "0 < b" and "b + 4 \<le> 2 ^ 32" and "int (length dat) + 4 \<le> i64_max"
  obtains padded where "pad dat b = Inr padded" "unpad padded = Inr dat" "b dvd length padded"
    "length padded = length dat + padding_size (length dat) b"
proof -
  let ?p = "padding_size (length dat) b"
  have p: "4 \<le> ?p" "?p < 2 ^ 32" using padding_size_bounds[OF assms(1), of "length dat"] assms(2) by linarith+
  show ?thesis
    using that[OF pad_ok[OF assms] unpad_ok[OF p]] padding_size_dvd[OF assms(1), of "length dat"] p(1) by simp
qed

text \<open>For each block size, padding is a codec.\<close>

definition paddable :: "nat \<Rightarrow> bytes \<Rightarrow> bool" where
  "paddable b dat \<longleftrightarrow> 0 < b \<and> b + 4 \<le> 2 ^ 32 \<and> int (length dat) + 4 \<le> i64_max"

definition padded :: "nat \<Rightarrow> bytes \<Rightarrow> bytes" where
  "padded b dat = (case pad dat b of Inr p \<Rightarrow> p | Inl _ \<Rightarrow> [])"

interpretation padding: codec "padded b" unpad "paddable b"
proof
  fix dat assume "paddable b dat"
  then obtain p where "pad dat b = Inr p" "unpad p = Inr dat"
    using pad_unpad[of b dat] by (auto simp: paddable_def)
  then show "unpad (padded b dat) = Inr dat" by (simp add: padded_def)
qed

section \<open>Properties of padding\<close>

text \<open>
  Padding round trip: for every block size and length in range, \<open>pad\<close> succeeds, \<open>unpad\<close> gives back
  the data, the padded length is a multiple of the block size, and no shorter padding would leave
  room for the four-byte trailer.
\<close>

theorem pad_round_trip:
  assumes "0 < b" and "b + 4 \<le> 2 ^ 32" and "int (length dat) + 4 \<le> i64_max"
  shows "\<exists>p. pad dat b = Inr p \<and> unpad p = Inr dat \<and> b dvd length p \<and>
    length dat + 4 \<le> length p \<and> length p < length dat + 4 + b"
proof -
  obtain p where "pad dat b = Inr p" "unpad p = Inr dat" "b dvd length p" "length p = length dat + padding_size (length dat) b"
    by (rule pad_unpad[OF assms])
  then show ?thesis using padding_size_bounds[OF assms(1), of "length dat"] by auto
qed

theorem pad_round_trip_witness:
  "pad [9, 9, 9, 9, 9] 8 = Inr [9, 9, 9, 9, 9, 0, 0, 0, 0, 0, 0, 0, 0, 0, 0, 11] \<and>
   unpad [9, 9, 9, 9, 9, 0, 0, 0, 0, 0, 0, 0, 0, 0, 0, 11] = Inr [9, 9, 9, 9, 9]"
proof -
  have "replicate 7 (0 :: u8) = [0, 0, 0, 0, 0, 0, 0]" by code_simp
  then have "pad [9, 9, 9, 9, 9] 8 = Inr [9, 9, 9, 9, 9, 0, 0, 0, 0, 0, 0, 0, 0, 0, 0, 11]"
    by (subst pad_ok) (simp_all add: padding_size_def be_bytes32_def upt_conv_Cons)
  moreover obtain p where "pad [9, 9, 9, 9, 9] 8 = Inr p" "unpad p = Inr [9, 9, 9, 9, 9]"
    using pad_round_trip[of 8 "[9, 9, 9, 9, 9]"] by auto
  ultimately show ?thesis by simp
qed

end
