(* ===== verification/Ciphers.thy ===== *)
theory Ciphers
  imports Padding
begin

text \<open>
  Keys and one-shot ciphers of \<open>crates/storj-encryption\<close>: \<open>key.rs\<close>, \<open>cipher.rs\<close> and the one-shot
  functions of \<open>aesgcm.rs\<close> and \<open>secretbox.rs\<close>.  The primitives are other people's crates: they are
  fields of the record \<open>Crypto\<close>, an argument of every definition that calls them.  What the program
  relies on is stated by \<open>aead_ok\<close> (an authenticated cipher decrypts what it encrypted, keeps the
  length, has a 16-byte tag, and its one-shot interface is the detached one with the tag at the end
  or at the front, and refuses a text without room for a tag); \<open>crypto_ok\<close> adds the length of an HMAC.
\<close>

section \<open>The primitives\<close>

text \<open>
  \<open>seal\<close> and \<open>unseal\<close> are the detached, in-place operations (key, nonce, text, tag), \<open>encrypt_vec\<close> and
  \<open>decrypt_vec\<close> the one-shot ones; \<open>None\<close> is the crate's opaque error.
\<close>

record Aead =
  seal :: "bytes \<Rightarrow> bytes \<Rightarrow> bytes \<Rightarrow> (bytes \<times> bytes) option"
  unseal :: "bytes \<Rightarrow> bytes \<Rightarrow> bytes \<Rightarrow> bytes \<Rightarrow> bytes option"
  encrypt_vec :: "bytes \<Rightarrow> bytes \<Rightarrow> bytes \<Rightarrow> bytes option"
  decrypt_vec :: "bytes \<Rightarrow> bytes \<Rightarrow> bytes \<Rightarrow> bytes option"

text \<open>Argon2id takes memory, time, parallelism and output length before password and salt.\<close>

record Crypto =
  gcm :: Aead
  secretbox :: Aead
  hmac_sha512 :: "bytes \<Rightarrow> bytes \<Rightarrow> bytes"
  hmac_sha256 :: "bytes \<Rightarrow> bytes \<Rightarrow> bytes"
  argon2id :: "nat \<Rightarrow> nat \<Rightarrow> nat \<Rightarrow> nat \<Rightarrow> bytes \<Rightarrow> bytes \<Rightarrow> bytes option"
  b64url_decode :: "bytes \<Rightarrow> bytes option"
  b64url_encode :: "bytes \<Rightarrow> bytes"

definition AES_GCM_TAG_SIZE :: nat where "AES_GCM_TAG_SIZE = 16"
definition SECRETBOX_OVERHEAD :: nat where "SECRETBOX_OVERHEAD = 16"

definition join_tag :: "bool \<Rightarrow> bytes \<Rightarrow> bytes \<Rightarrow> bytes" where
  "join_tag tag_first ct tag = (if tag_first then tag @ ct else ct @ tag)"

definition aead_ok :: "bool \<Rightarrow> Aead \<Rightarrow> bool" where
  "aead_ok tag_first a \<longleftrightarrow>
    (\<forall>k n p ct tag. seal a k n p = Some (ct, tag) \<longrightarrow>
       unseal a k n ct tag = Some p \<and> length ct = length p \<and> length tag = 16) \<and>
    (\<forall>k n p. encrypt_vec a k n p = map_option (\<lambda>(ct, tag). join_tag tag_first ct tag) (seal a k n p)) \<and>
    (\<forall>k n ct tag. length tag = 16 \<longrightarrow> decrypt_vec a k n (join_tag tag_first ct tag) = unseal a k n ct tag) \<and>
    (\<forall>k n c. length c < 16 \<longrightarrow> decrypt_vec a k n c = None)"

definition crypto_ok :: "Crypto \<Rightarrow> bool" where
  "crypto_ok cr \<longleftrightarrow> aead_ok False (gcm cr) \<and> aead_ok True (secretbox cr) \<and>
    (\<forall>k d. length (hmac_sha512 cr k d) = 64) \<and> (\<forall>k d. length (hmac_sha256 cr k d) = 32)"

section \<open>The code\<close>

subsection \<open>Keys\<close>

definition ARGON2_TIME :: nat where "ARGON2_TIME = 1"
definition ARGON2_MEMORY_KIB :: nat where "ARGON2_MEMORY_KIB = 64 * 1024"
definition ARGON2_OUTPUT_LEN :: nat where "ARGON2_OUTPUT_LEN = 32"
definition ARGON2_PARALLELISM_DERIVE :: nat where "ARGON2_PARALLELISM_DERIVE = 1"
definition PATH_HMAC_PREFIX :: bytes where "PATH_HMAC_PREFIX = bstr ''path:''"
definition CONTENT_HMAC_INFO :: bytes where "CONTENT_HMAC_INFO = bstr ''content''"
definition NONCE_HMAC_INFO :: bytes where "NONCE_HMAC_INFO = bstr ''nonce''"

text \<open>A key is its 32 bytes.  Feeding a MAC in two updates is one update with both.\<close>

type_synonym Key = bytes

definition truncate_key :: "bytes \<Rightarrow> Key" where
  "truncate_key mac = take 32 mac"

definition derive_path_component :: "Crypto \<Rightarrow> Key \<Rightarrow> bytes \<Rightarrow> Key" where
  "derive_path_component cr key component = truncate_key (hmac_sha512 cr key (PATH_HMAC_PREFIX @ component))"

definition derive_root_key :: "Crypto \<Rightarrow> bytes \<Rightarrow> bytes \<Rightarrow> bytes \<Rightarrow> nat \<Rightarrow> ErrorKind + Key" where
  "derive_root_key cr password salt path parallelism =
    (let mixed = hmac_sha256 cr password salt;
         path_salt = hmac_sha256 cr mixed path
     in case argon2id cr ARGON2_MEMORY_KIB ARGON2_TIME parallelism ARGON2_OUTPUT_LEN password path_salt of
          None \<Rightarrow> Inl Protocol
        | Some out \<Rightarrow> Inr out)"

definition derive :: "Crypto \<Rightarrow> bytes \<Rightarrow> bytes \<Rightarrow> ErrorKind + Key" where
  "derive cr passphrase salt = derive_root_key cr passphrase salt [] ARGON2_PARALLELISM_DERIVE"

definition derive_key :: "Crypto \<Rightarrow> Key \<Rightarrow> bytes \<Rightarrow> Key" where
  "derive_key cr key message = truncate_key (hmac_sha512 cr key message)"

definition derive_path_key_component :: "Crypto \<Rightarrow> bytes \<Rightarrow> bytes \<Rightarrow> bytes" where
  "derive_path_key_component cr key component = derive_path_component cr key component"

definition derive_nonce :: "Crypto \<Rightarrow> Key \<Rightarrow> bytes" where
  "derive_nonce cr derived_key = take 24 (hmac_sha512 cr derived_key NONCE_HMAC_INFO)"

subsection \<open>Cipher suites\<close>

definition NONCE_SIZE :: nat where "NONCE_SIZE = 24"
definition AES_GCM_NONCE_SIZE :: nat where "AES_GCM_NONCE_SIZE = 12"
definition ZERO_NONCE :: bytes where "ZERO_NONCE = replicate 24 0"

datatype CipherSuite = CipherSuite int

definition UNSPECIFIED :: CipherSuite where "UNSPECIFIED = CipherSuite 0"
definition NULL :: CipherSuite where "NULL = CipherSuite 1"
definition AES_GCM :: CipherSuite where "AES_GCM = CipherSuite 2"
definition SECRET_BOX :: CipherSuite where "SECRET_BOX = CipherSuite 3"
definition NULL_BASE64_URL :: CipherSuite where "NULL_BASE64_URL = CipherSuite 4"

lemmas suite_defs = UNSPECIFIED_def NULL_def AES_GCM_def SECRET_BOX_def NULL_BASE64_URL_def

lemma suites_distinct [simp]:
  "NULL \<noteq> AES_GCM" "NULL \<noteq> SECRET_BOX" "NULL \<noteq> NULL_BASE64_URL" "AES_GCM \<noteq> SECRET_BOX"
  "AES_GCM \<noteq> NULL_BASE64_URL" "SECRET_BOX \<noteq> NULL_BASE64_URL" "AES_GCM \<noteq> NULL" "SECRET_BOX \<noteq> NULL"
  "SECRET_BOX \<noteq> AES_GCM" "NULL_BASE64_URL \<noteq> NULL" "NULL_BASE64_URL \<noteq> AES_GCM" "NULL_BASE64_URL \<noteq> SECRET_BOX"
  by (simp_all add: suite_defs)

subsection \<open>One-shot encryption\<close>

definition to_aes_gcm_nonce :: "bytes \<Rightarrow> ErrorKind + bytes" where
  "to_aes_gcm_nonce nonce =
    (if length nonce < AES_GCM_NONCE_SIZE then Inl InvalidConfig else Inr (take AES_GCM_NONCE_SIZE nonce))"

definition nonce24 :: "bytes \<Rightarrow> ErrorKind + bytes" where
  "nonce24 nonce = (if length nonce < NONCE_SIZE then Inl InvalidConfig else Inr (take NONCE_SIZE nonce))"

definition aesgcm_encrypt :: "Crypto \<Rightarrow> bytes \<Rightarrow> Key \<Rightarrow> bytes \<Rightarrow> ErrorKind + bytes" where
  "aesgcm_encrypt cr dat key nonce =
    try_bind (to_aes_gcm_nonce nonce) (\<lambda>nonce. ok_or Protocol (encrypt_vec (gcm cr) key nonce dat))"

definition aesgcm_decrypt :: "Crypto \<Rightarrow> bytes \<Rightarrow> Key \<Rightarrow> bytes \<Rightarrow> ErrorKind + bytes" where
  "aesgcm_decrypt cr dat key nonce =
    try_bind (to_aes_gcm_nonce nonce) (\<lambda>nonce. ok_or DecryptionFailed (decrypt_vec (gcm cr) key nonce dat))"

definition secretbox_encrypt :: "Crypto \<Rightarrow> bytes \<Rightarrow> Key \<Rightarrow> bytes \<Rightarrow> ErrorKind + bytes" where
  "secretbox_encrypt cr dat key nonce =
    try_bind (nonce24 nonce) (\<lambda>nonce. ok_or Protocol (encrypt_vec (secretbox cr) key nonce dat))"

definition secretbox_decrypt :: "Crypto \<Rightarrow> bytes \<Rightarrow> Key \<Rightarrow> bytes \<Rightarrow> ErrorKind + bytes" where
  "secretbox_decrypt cr dat key nonce =
    try_bind (nonce24 nonce) (\<lambda>nonce. ok_or DecryptionFailed (decrypt_vec (secretbox cr) key nonce dat))"

definition encrypt :: "Crypto \<Rightarrow> bytes \<Rightarrow> CipherSuite \<Rightarrow> Key \<Rightarrow> bytes \<Rightarrow> ErrorKind + bytes" where
  "encrypt cr dat cipher key nonce =
    (if dat = [] then Inr []
     else if cipher = NULL then Inr dat
     else if cipher = AES_GCM then aesgcm_encrypt cr dat key nonce
     else if cipher = SECRET_BOX then secretbox_encrypt cr dat key nonce
     else Inl InvalidConfig)"

definition decrypt :: "Crypto \<Rightarrow> bytes \<Rightarrow> CipherSuite \<Rightarrow> Key \<Rightarrow> bytes \<Rightarrow> ErrorKind + bytes" where
  "decrypt cr dat cipher key nonce =
    (if dat = [] then Inr []
     else if cipher = NULL then Inr dat
     else if cipher = AES_GCM then aesgcm_decrypt cr dat key nonce
     else if cipher = SECRET_BOX then secretbox_decrypt cr dat key nonce
     else Inl InvalidConfig)"

section \<open>Decryption undoes encryption\<close>

lemma aead_vec_round_trip:
  assumes "aead_ok tf a" and "encrypt_vec a k n p = Some c"
  shows "decrypt_vec a k n c = Some p \<and> length c = length p + 16"
proof -
  have r: "encrypt_vec a k n p = map_option (\<lambda>(ct, tag). join_tag tf ct tag) (seal a k n p)"
    and s: "\<And>ct tag. seal a k n p = Some (ct, tag) \<Longrightarrow>
      unseal a k n ct tag = Some p \<and> length ct = length p \<and> length tag = 16"
    and d: "\<And>ct tag. length tag = 16 \<Longrightarrow> decrypt_vec a k n (join_tag tf ct tag) = unseal a k n ct tag"
    using assms(1) by (auto simp: aead_ok_def)
  obtain ct tag where "seal a k n p = Some (ct, tag)" "c = join_tag tf ct tag"
    using assms(2) r by auto
  then show ?thesis using s d by (auto simp: join_tag_def)
qed

lemma length_truncate_key:
  "crypto_ok cr \<Longrightarrow> length (derive_path_component cr k c) = 32 \<and> length (derive_key cr k m) = 32 \<and> length (derive_nonce cr k) = 24"
  by (simp add: crypto_ok_def derive_path_component_def derive_key_def derive_nonce_def truncate_key_def)

text \<open>The nonce that \<open>encrypt\<close> uses: the first bytes of the one given.\<close>

lemma encrypt_decrypt:
  assumes "crypto_ok cr" and "encrypt cr dat cipher key nonce = Inr c"
    and "cipher = AES_GCM \<Longrightarrow> take 12 nonce' = take 12 nonce \<and> 12 \<le> length nonce'"
    and "cipher = SECRET_BOX \<Longrightarrow> take 24 nonce' = take 24 nonce \<and> 24 \<le> length nonce'"
  shows "decrypt cr c cipher key nonce' = Inr dat"
proof (cases "dat = [] \<or> cipher = NULL")
  case True
  then show ?thesis using assms(2) by (auto simp: encrypt_def decrypt_def split: if_splits)
next
  case False
  have a: "aead_ok False (gcm cr)" "aead_ok True (secretbox cr)" using assms(1) by (auto simp: crypto_ok_def)
  consider "cipher = AES_GCM" | "cipher = SECRET_BOX"
    using assms(2) False by (auto simp: encrypt_def split: if_splits)
  then show ?thesis
  proof cases
    case 1
    then have e: "encrypt_vec (gcm cr) key (take 12 nonce) dat = Some c" "12 \<le> length nonce"
      using assms(2) False
      by (auto simp: encrypt_def aesgcm_encrypt_def to_aes_gcm_nonce_def AES_GCM_NONCE_SIZE_def ok_or_def split: if_splits option.splits)
    then have "decrypt_vec (gcm cr) key (take 12 nonce) c = Some dat" "c \<noteq> []"
      using aead_vec_round_trip[OF a(1) e(1)] by auto
    then show ?thesis
      using 1 assms(3) by (simp add: decrypt_def aesgcm_decrypt_def to_aes_gcm_nonce_def AES_GCM_NONCE_SIZE_def)
  next
    case 2
    then have e: "encrypt_vec (secretbox cr) key (take 24 nonce) dat = Some c" "24 \<le> length nonce"
      using assms(2) False
      by (auto simp: encrypt_def secretbox_encrypt_def nonce24_def NONCE_SIZE_def ok_or_def split: if_splits option.splits)
    then have "decrypt_vec (secretbox cr) key (take 24 nonce) c = Some dat" "c \<noteq> []"
      using aead_vec_round_trip[OF a(2) e(1)] by auto
    then show ?thesis
      using 2 assms(4) by (simp add: decrypt_def secretbox_decrypt_def nonce24_def NONCE_SIZE_def)
  qed
qed

section \<open>A concrete instance\<close>

text \<open>
  A toy instance of the primitives that meets the assumptions: a fixed tag, a text kept as it is, and
  an HMAC that pads its input.  It is used to evaluate the definitions on concrete inputs.
\<close>

definition toy_aead :: "bool \<Rightarrow> Aead" where
  "toy_aead tag_first =
    \<lparr>seal = (\<lambda>k n p. Some (p, replicate 16 7)),
     unseal = (\<lambda>k n ct tag. if tag = replicate 16 7 then Some ct else None),
     encrypt_vec = (\<lambda>k n p. Some (join_tag tag_first p (replicate 16 7))),
     decrypt_vec = (\<lambda>k n c. let (ct, tag) = (if tag_first then (drop 16 c, take 16 c) else (take (length c - 16) c, drop (length c - 16) c))
                             in if tag = replicate 16 7 then Some ct else None)\<rparr>"

definition toy_crypto :: Crypto where
  "toy_crypto = \<lparr>gcm = toy_aead False, secretbox = toy_aead True,
     hmac_sha512 = (\<lambda>k d. take 64 (d @ k @ replicate 64 0)), hmac_sha256 = (\<lambda>k d. take 32 (d @ k @ replicate 32 0)),
     argon2id = (\<lambda>m t p l pw salt. Some (take l (pw @ salt @ replicate l 0))),
     b64url_decode = Some, b64url_encode = (\<lambda>x. x)\<rparr>"

lemma toy_crypto_ok: "crypto_ok toy_crypto"
proof -
  have "aead_ok tf (toy_aead tf)" for tf
    by (auto simp: aead_ok_def toy_aead_def join_tag_def dest: arg_cong[where f = length])
  moreover have "length (take n (d @ k @ replicate n (0 :: u8))) = n" for n d k by simp
  ultimately show ?thesis by (simp only: crypto_ok_def toy_crypto_def Crypto.simps simp_thms)
qed

end
