(* ===== verification/Transform.thy ===== *)
theory Transform
  imports Ciphers
begin

text \<open>
  Content encryption block by block, \<open>crates/storj-encryption/src/transform.rs\<close> with the transformers of
  \<open>aesgcm.rs\<close> and \<open>secretbox.rs\<close>.  The trait \<open>Transformer\<close> is a record; the locale \<open>transformer_pair\<close> is
  the contract between an encrypter and its decrypter, and the padded round trip, the sizes and the
  decryption of a range of blocks are proved once from it.  Every transformer the program builds
  meets the contract.
\<close>

section \<open>The code\<close>

definition DEFAULT_ENCRYPTED_BLOCK_SIZE :: nat where
  "DEFAULT_ENCRYPTED_BLOCK_SIZE = 29 * 256"

text \<open>\<open>transform_into\<close> takes the output so far and returns it extended.\<close>

record Transformer =
  in_block_size :: nat
  out_block_size :: nat
  transform :: "bytes \<Rightarrow> int \<Rightarrow> ErrorKind + bytes"
  transform_into :: "bytes \<Rightarrow> int \<Rightarrow> bytes \<Rightarrow> ErrorKind + bytes"

definition default_transform_into ::
  "(bytes \<Rightarrow> int \<Rightarrow> ErrorKind + bytes) \<Rightarrow> bytes \<Rightarrow> int \<Rightarrow> bytes \<Rightarrow> ErrorKind + bytes" where
  "default_transform_into tr input block_num out = try_bind (tr input block_num) (\<lambda>y. Inr (out @ y))"

definition NoopTransformer :: Transformer where
  "NoopTransformer =
    (let tr = (\<lambda>input block_num. Inr input)
     in \<lparr>in_block_size = 1, out_block_size = 1, transform = tr, transform_into = default_transform_into tr\<rparr>)"

record EncryptionParameters =
  cipher_suite :: CipherSuite
  block_size :: int

subsection \<open>Nonces\<close>

text \<open>
  The loop of \<open>increment_bytes\<close> over the rest of the buffer; the result has the buffer and the amount
  left.  \<open>amount as u8\<close> truncates, \<open>>>= 8\<close> of a positive number divides.
\<close>

fun increment_loop :: "bytes \<Rightarrow> int \<Rightarrow> bytes \<times> int" where
  "increment_loop [] amount = ([], amount)"
| "increment_loop (prev # bs) amount =
    (if amount > 0 then
       let inc = of_int amount :: u8;
           amount = amount div 256;
           b = prev + inc;
           amount = (if b < prev then amount + 1 else amount);
           (bs, amount) = increment_loop bs amount
       in (b # bs, amount)
     else (prev # bs, amount))"

definition increment_bytes :: "bytes \<Rightarrow> int \<Rightarrow> ErrorKind + (bytes \<times> bool)" where
  "increment_bytes buf amount =
    (if amount < 0 then Inl InvalidConfig
     else let (buf, amount) = increment_loop buf amount in Inr (buf, amount \<noteq> 0))"

definition increment :: "bytes \<Rightarrow> int \<Rightarrow> ErrorKind + (bytes \<times> bool)" where
  "increment nonce amount = increment_bytes nonce amount"

definition calc_nonce :: "bytes \<Rightarrow> int \<Rightarrow> ErrorKind + bytes" where
  "calc_nonce starting_nonce block_num = try_bind (increment_bytes starting_nonce block_num) (\<lambda>(n, _). Inr n)"

subsection \<open>The two ciphers\<close>

definition check_block_size :: "nat \<Rightarrow> nat \<Rightarrow> ErrorKind + nat" where
  "check_block_size overhead encrypted_block_size =
    (if encrypted_block_size \<le> overhead then Inl InvalidConfig else Inr (encrypted_block_size - overhead))"

definition AesGcmEncrypter :: "Crypto \<Rightarrow> Key \<Rightarrow> bytes \<Rightarrow> nat \<Rightarrow> Transformer" where
  "AesGcmEncrypter cr key starting_nonce bs =
    \<lparr>in_block_size = bs, out_block_size = bs + AES_GCM_TAG_SIZE,
     transform = (\<lambda>input block_num.
       try_bind (calc_nonce starting_nonce block_num) (\<lambda>nonce. ok_or Protocol (encrypt_vec (gcm cr) key nonce input))),
     transform_into = (\<lambda>input block_num out.
       try_bind (calc_nonce starting_nonce block_num) (\<lambda>nonce.
       try_bind (ok_or Protocol (seal (gcm cr) key nonce input)) (\<lambda>(ct, tag). Inr ((out @ ct) @ tag))))\<rparr>"

definition AesGcmDecrypter :: "Crypto \<Rightarrow> Key \<Rightarrow> bytes \<Rightarrow> nat \<Rightarrow> Transformer" where
  "AesGcmDecrypter cr key starting_nonce bs =
    \<lparr>in_block_size = bs + AES_GCM_TAG_SIZE, out_block_size = bs,
     transform = (\<lambda>input block_num.
       try_bind (calc_nonce starting_nonce block_num) (\<lambda>nonce. ok_or DecryptionFailed (decrypt_vec (gcm cr) key nonce input))),
     transform_into = (\<lambda>input block_num out.
       try_bind (calc_nonce starting_nonce block_num) (\<lambda>nonce.
       if length input < AES_GCM_TAG_SIZE then Inl DecryptionFailed
       else let split = length input - AES_GCM_TAG_SIZE;
                (ct, tag) = (take split input, drop split input)
            in try_bind (ok_or DecryptionFailed (unseal (gcm cr) key nonce ct tag)) (\<lambda>p. Inr (out @ p))))\<rparr>"

definition SecretboxEncrypter :: "Crypto \<Rightarrow> Key \<Rightarrow> bytes \<Rightarrow> nat \<Rightarrow> Transformer" where
  "SecretboxEncrypter cr key starting_nonce bs =
    \<lparr>in_block_size = bs, out_block_size = bs + SECRETBOX_OVERHEAD,
     transform = (\<lambda>input block_num.
       try_bind (calc_nonce starting_nonce block_num) (\<lambda>nonce. ok_or Protocol (encrypt_vec (secretbox cr) key nonce input))),
     transform_into = (\<lambda>input block_num out.
       try_bind (calc_nonce starting_nonce block_num) (\<lambda>nonce.
       let start = length out;
           out = out @ replicate SECRETBOX_OVERHEAD 0
       in try_bind (ok_or Protocol (seal (secretbox cr) key nonce input)) (\<lambda>(ct, tag).
            Inr (put_slice (out @ ct) start tag))))\<rparr>"

definition SecretboxDecrypter :: "Crypto \<Rightarrow> Key \<Rightarrow> bytes \<Rightarrow> nat \<Rightarrow> Transformer" where
  "SecretboxDecrypter cr key starting_nonce bs =
    \<lparr>in_block_size = bs + SECRETBOX_OVERHEAD, out_block_size = bs,
     transform = (\<lambda>input block_num.
       try_bind (calc_nonce starting_nonce block_num) (\<lambda>nonce. ok_or DecryptionFailed (decrypt_vec (secretbox cr) key nonce input))),
     transform_into = (\<lambda>input block_num out.
       try_bind (calc_nonce starting_nonce block_num) (\<lambda>nonce.
       if length input < SECRETBOX_OVERHEAD then Inl DecryptionFailed
       else let (tag, ct) = (take SECRETBOX_OVERHEAD input, drop SECRETBOX_OVERHEAD input)
            in try_bind (ok_or DecryptionFailed (unseal (secretbox cr) key nonce ct tag)) (\<lambda>p. Inr (out @ p))))\<rparr>"

definition new_encrypter :: "Crypto \<Rightarrow> CipherSuite \<Rightarrow> Key \<Rightarrow> bytes \<Rightarrow> nat \<Rightarrow> ErrorKind + Transformer" where
  "new_encrypter cr cipher key starting_nonce encrypted_block_size =
    (if cipher = NULL then Inr NoopTransformer
     else if cipher = AES_GCM then
       try_bind (to_aes_gcm_nonce starting_nonce) (\<lambda>nonce.
       try_bind (check_block_size AES_GCM_TAG_SIZE encrypted_block_size) (\<lambda>bs. Inr (AesGcmEncrypter cr key nonce bs)))
     else if cipher = SECRET_BOX then
       try_bind (check_block_size SECRETBOX_OVERHEAD encrypted_block_size) (\<lambda>bs. Inr (SecretboxEncrypter cr key starting_nonce bs))
     else Inl InvalidConfig)"

definition new_decrypter :: "Crypto \<Rightarrow> CipherSuite \<Rightarrow> Key \<Rightarrow> bytes \<Rightarrow> nat \<Rightarrow> ErrorKind + Transformer" where
  "new_decrypter cr cipher key starting_nonce encrypted_block_size =
    (if cipher = NULL then Inr NoopTransformer
     else if cipher = AES_GCM then
       try_bind (to_aes_gcm_nonce starting_nonce) (\<lambda>nonce.
       try_bind (check_block_size AES_GCM_TAG_SIZE encrypted_block_size) (\<lambda>bs. Inr (AesGcmDecrypter cr key nonce bs)))
     else if cipher = SECRET_BOX then
       try_bind (check_block_size SECRETBOX_OVERHEAD encrypted_block_size) (\<lambda>bs. Inr (SecretboxDecrypter cr key starting_nonce bs))
     else Inl InvalidConfig)"

subsection \<open>Sizes\<close>

text \<open>The sums are \<open>i64\<close>; the inputs are file offsets and sizes, far from the limits.\<close>

definition calc_encompassing_blocks :: "int \<Rightarrow> int \<Rightarrow> nat \<Rightarrow> int \<times> int" where
  "calc_encompassing_blocks offset len bs =
    (let bs = int bs;
         first_block = quot_i64 offset bs
     in if len \<le> 0 then (first_block, 0)
        else let end = offset + len;
                 last_block = quot_i64 end bs
             in if rem_i64 end bs = 0 then (first_block, last_block - first_block)
                else (first_block, 1 + last_block - first_block))"

definition encrypter_io_blocks :: "CipherSuite \<Rightarrow> nat \<Rightarrow> ErrorKind + (nat \<times> nat)" where
  "encrypter_io_blocks cipher encrypted_block_size =
    (if cipher = NULL then Inr (1, 1)
     else if cipher = AES_GCM then
       (if encrypted_block_size \<le> AES_GCM_TAG_SIZE then Inl InvalidConfig
        else Inr (encrypted_block_size - AES_GCM_TAG_SIZE, encrypted_block_size))
     else if cipher = SECRET_BOX then
       (if encrypted_block_size \<le> SECRETBOX_OVERHEAD then Inl InvalidConfig
        else Inr (encrypted_block_size - SECRETBOX_OVERHEAD, encrypted_block_size))
     else Inl InvalidConfig)"

definition encrypted_size_from_blocks :: "int \<Rightarrow> nat \<Rightarrow> nat \<Rightarrow> int" where
  "encrypted_size_from_blocks data_size in_block out_block =
    (let blocks = quot_i64 (data_size + int UINT32_SIZE + int in_block - 1) (int in_block)
     in blocks * int out_block)"

definition calc_encrypted_size :: "int \<Rightarrow> EncryptionParameters \<Rightarrow> ErrorKind + int" where
  "calc_encrypted_size data_size parameters =
    try_bind (if cipher_suite parameters = NULL then Inr 1
              else if block_size parameters < 0 then Inl InvalidConfig
              else Inr (nat (block_size parameters))) (\<lambda>bs.
    try_bind (encrypter_io_blocks (cipher_suite parameters) bs) (\<lambda>(in_block, out_block).
      Inr (encrypted_size_from_blocks data_size in_block out_block)))"

definition calc_transformer_encrypted_size :: "int \<Rightarrow> Transformer \<Rightarrow> int" where
  "calc_transformer_encrypted_size data_size t = encrypted_size_from_blocks data_size (in_block_size t) (out_block_size t)"

subsection \<open>Transforming many blocks\<close>

text \<open>\<open>data.chunks(n)\<close>; a size of 0 is excluded by the caller.\<close>

function chunks :: "nat \<Rightarrow> 'a list \<Rightarrow> 'a list list" where
  "chunks n xs = (if xs = [] \<or> n = 0 then [] else take n xs # chunks n (drop n xs))"
  by pat_completeness auto
termination by (relation "measure (\<lambda>(_, xs). length xs)") auto

declare chunks.simps [simp del]

fun transform_chunks :: "Transformer \<Rightarrow> int \<Rightarrow> bytes list \<Rightarrow> bytes \<Rightarrow> ErrorKind + bytes" where
  "transform_chunks t block_num [] out = Inr out"
| "transform_chunks t block_num (chunk # rest) out =
    try_bind (transform_into t chunk block_num out) (transform_chunks t (block_num + 1) rest)"

definition transform_blocks :: "Transformer \<Rightarrow> bytes \<Rightarrow> int \<Rightarrow> ErrorKind + bytes" where
  "transform_blocks t dat starting_block =
    (let in_size = in_block_size t
     in if in_size = 0 \<or> length dat mod in_size \<noteq> 0 then Inl InvalidConfig
        else transform_chunks t starting_block (chunks in_size dat) [])"

definition transform_padded :: "Transformer \<Rightarrow> bytes \<Rightarrow> ErrorKind + bytes" where
  "transform_padded t dat = try_bind (pad dat (in_block_size t)) (\<lambda>p. transform_blocks t p 0)"

definition transform_unpad :: "Transformer \<Rightarrow> bytes \<Rightarrow> ErrorKind + bytes" where
  "transform_unpad t dat = try_bind (transform_blocks t dat 0) unpad"

section \<open>Chunks\<close>

lemma chunks_concat:
  "0 < n \<Longrightarrow> (\<And>b. b \<in> set bs \<Longrightarrow> length b = n) \<Longrightarrow> chunks n (concat bs) = bs"
proof (induction bs)
  case (Cons b bs)
  then have "b \<noteq> []" "length b = n" by auto
  then show ?case using Cons by (subst chunks.simps) simp
qed (simp add: chunks.simps)

lemma chunks_length:
  "0 < n \<Longrightarrow> length xs = m * n \<Longrightarrow>
    length (chunks n xs) = m \<and> concat (chunks n xs) = xs \<and> (\<forall>c \<in> set (chunks n xs). length c = n)"
proof (induction m arbitrary: xs)
  case (Suc m)
  then have "xs \<noteq> []" by auto
  then show ?case using Suc.IH[of "drop n xs"] Suc.prems by (subst (1 2 3) chunks.simps) auto
qed (simp add: chunks.simps)

text \<open>The blocks one by one, as a specification of the loop.\<close>

fun transform_list :: "Transformer \<Rightarrow> int \<Rightarrow> bytes list \<Rightarrow> ErrorKind + bytes list" where
  "transform_list t b [] = Inr []"
| "transform_list t b (x # xs) =
    try_bind (transform t x b) (\<lambda>y. try_bind (transform_list t (b + 1) xs) (\<lambda>ys. Inr (y # ys)))"

definition into_ok :: "Transformer \<Rightarrow> bool" where
  "into_ok t \<longleftrightarrow> (\<forall>x b out. transform_into t x b out = try_bind (transform t x b) (\<lambda>y. Inr (out @ y)))"

lemma transform_chunks_eq:
  assumes "into_ok t"
  shows "transform_chunks t b xs out = try_bind (transform_list t b xs) (\<lambda>ys. Inr (out @ concat ys))"
proof (induction xs arbitrary: b out)
  case (Cons x xs)
  show ?case
  proof (cases "transform t x b")
    case (Inr y)
    then show ?thesis
      using assms Cons[of "b + 1" "out @ y"] by (cases "transform_list t (b + 1) xs") (auto simp: into_ok_def)
  qed (use assms in \<open>simp add: into_ok_def\<close>)
qed simp

lemma transform_list_length: "transform_list t b xs = Inr ys \<Longrightarrow> length ys = length xs"
  by (induction xs arbitrary: b ys) (auto simp: result_simps)

section \<open>The contract of an encrypter and its decrypter\<close>

locale transformer_pair =
  fixes enc dec :: Transformer
  assumes enc_into: "into_ok enc" and dec_into: "into_ok dec"
    and in_pos: "0 < in_block_size enc" and out_pos: "0 < out_block_size enc"
    and dec_in: "in_block_size dec = out_block_size enc" and dec_out: "out_block_size dec = in_block_size enc"
    and block: "length x = in_block_size enc \<Longrightarrow> transform enc x b = Inr y \<Longrightarrow>
      length y = out_block_size enc \<and> transform dec y b = Inr x"
begin

lemma list_round_trip:
  assumes "transform_list enc b xs = Inr ys" and "\<And>x. x \<in> set xs \<Longrightarrow> length x = in_block_size enc"
  shows "transform_list dec b ys = Inr xs \<and> (\<forall>y \<in> set ys. length y = out_block_size enc)"
  using assms
proof (induction xs arbitrary: b ys)
  case (Cons x xs)
  then obtain y zs where y: "transform enc x b = Inr y" and zs: "transform_list enc (b + 1) xs = Inr zs" "ys = y # zs"
    by (auto simp: result_simps)
  then show ?case using Cons.IH[OF zs(1)] Cons.prems(2) block[of x b y] by auto
qed simp

lemma list_slice:
  assumes "transform_list dec b ys = Inr xs"
  shows "transform_list dec (b + int i) (take m (drop i ys)) = Inr (take m (drop i xs))"
  using assms
proof (induction ys arbitrary: b xs i m)
  case (Cons y ys)
  then obtain x zs where x: "transform dec y b = Inr x" and zs: "transform_list dec (b + 1) ys = Inr zs" "xs = x # zs"
    by (auto simp: result_simps)
  show ?case
  proof (cases i)
    case 0
    show ?thesis
    proof (cases m)
      case (Suc m')
      then show ?thesis using 0 x zs Cons.IH[OF zs(1), of 0 m'] by simp
    qed simp
  next
    case (Suc i')
    then show ?thesis using zs Cons.IH[OF zs(1), of i' m] by (simp add: algebra_simps)
  qed
qed simp

text \<open>Whole buffers: the blocks behind a successful encryption.\<close>

lemma blocks_of:
  assumes "transform_blocks enc x b = Inr y"
  obtains xs ys where "x = concat xs" "y = concat ys" "length ys = length xs" "transform_list enc b xs = Inr ys"
    "transform_list dec b ys = Inr xs" "\<forall>c \<in> set xs. length c = in_block_size enc" "\<forall>c \<in> set ys. length c = out_block_size enc"
proof -
  let ?in = "in_block_size enc"
  have m: "length x mod ?in = 0" and t: "transform_chunks enc b (chunks ?in x) [] = Inr y"
    using assms by (auto simp: transform_blocks_def split: if_splits)
  then obtain q where "length x = q * ?in" by (metis mod_0_imp_dvd dvd_def mult.commute)
  note c = chunks_length[OF in_pos this]
  obtain ys where ys: "transform_list enc b (chunks ?in x) = Inr ys" "y = concat ys"
    using t by (auto simp: transform_chunks_eq[OF enc_into] result_simps)
  show ?thesis
    using that[OF _ ys(2) _ ys(1)] c list_round_trip[OF ys(1)] transform_list_length[OF ys(1)] by auto
qed

lemma decode_blocks:
  assumes "\<forall>c \<in> set ys. length c = out_block_size enc" and "transform_list dec b ys = Inr xs"
  shows "transform_blocks dec (concat ys) b = Inr (concat xs)"
proof -
  have "length (concat ys) mod in_block_size dec = 0"
    using assms(1) dec_in by (induction ys) auto
  moreover have "chunks (in_block_size dec) (concat ys) = ys"
    using assms(1) dec_in out_pos by (intro chunks_concat) auto
  ultimately show ?thesis
    using assms(2) out_pos dec_in by (simp add: transform_blocks_def transform_chunks_eq[OF dec_into])
qed

lemma blocks_round_trip:
  assumes "transform_blocks enc x b = Inr y"
  shows "transform_blocks dec y b = Inr x \<and> length y * in_block_size enc = length x * out_block_size enc"
proof -
  obtain xs ys where b: "x = concat xs" "y = concat ys" "length ys = length xs" "transform_list enc b xs = Inr ys"
    "transform_list dec b ys = Inr xs" "\<forall>c \<in> set xs. length c = in_block_size enc" "\<forall>c \<in> set ys. length c = out_block_size enc"
    by (rule blocks_of[OF assms])
  show ?thesis using decode_blocks[OF b(7,5)] b(1-3) length_concat_const[OF b(6)] length_concat_const[OF b(7)] by simp
qed

lemma range_of_blocks:
  assumes "transform_blocks enc x b = Inr y"
  shows "transform_blocks dec (sub_slice y (i * out_block_size enc) ((i + m) * out_block_size enc)) (b + int i) =
    Inr (sub_slice x (i * in_block_size enc) ((i + m) * in_block_size enc))"
proof -
  obtain xs ys where b: "x = concat xs" "y = concat ys" "length ys = length xs" "transform_list enc b xs = Inr ys"
    "transform_list dec b ys = Inr xs" "\<forall>c \<in> set xs. length c = in_block_size enc" "\<forall>c \<in> set ys. length c = out_block_size enc"
    by (rule blocks_of[OF assms])
  have "\<forall>c \<in> set (take m (drop i ys)). length c = out_block_size enc"
    using b(7) by (auto dest: in_set_takeD in_set_dropD)
  then have "transform_blocks dec (concat (take m (drop i ys))) (b + int i) = Inr (concat (take m (drop i xs)))"
    using decode_blocks list_slice[OF b(5)] by blast
  then show ?thesis using concat_range[OF b(6)] concat_range[OF b(7)] b(1,2) by simp
qed

lemma padded_round_trip:
  assumes "transform_padded enc dat = Inr c" and "paddable (in_block_size enc) dat"
  shows "transform_unpad dec c = Inr dat \<and>
    length c = (length dat + padding_size (length dat) (in_block_size enc)) div in_block_size enc * out_block_size enc"
proof -
  obtain p where p: "pad dat (in_block_size enc) = Inr p" "unpad p = Inr dat" "in_block_size enc dvd length p"
    "length p = length dat + padding_size (length dat) (in_block_size enc)"
    using assms(2) by (auto simp: paddable_def elim: pad_unpad)
  have t: "transform_blocks enc p 0 = Inr c" using assms(1) p(1) by (simp add: transform_padded_def)
  obtain q where q: "length p = in_block_size enc * q" using p(3) by auto
  have "length c * in_block_size enc = q * out_block_size enc * in_block_size enc"
    using blocks_round_trip[OF t] q by (simp add: algebra_simps)
  then have "length c = q * out_block_size enc" using in_pos by simp
  moreover have "(length dat + padding_size (length dat) (in_block_size enc)) div in_block_size enc = q"
    using q p(4) in_pos by (metis nonzero_mult_div_cancel_left less_numeral_extra(3))
  ultimately show ?thesis
    using blocks_round_trip[OF t] p(2) by (simp add: transform_unpad_def)
qed

end

section \<open>The transformers of the program meet the contract\<close>

interpretation noop: transformer_pair NoopTransformer NoopTransformer
  by unfold_locales (auto simp: NoopTransformer_def into_ok_def default_transform_into_def)

lemma aead_detached:
  assumes "aead_ok tf a"
  shows "encrypt_vec a k n p = map_option (\<lambda>(ct, tag). join_tag tf ct tag) (seal a k n p)"
    and "seal a k n p = Some (ct, tag) \<Longrightarrow> length ct = length p \<and> length tag = 16 \<and> unseal a k n ct tag = Some p"
    and "length tag = 16 \<Longrightarrow> decrypt_vec a k n (join_tag tf ct tag) = unseal a k n ct tag"
    and "length c < 16 \<Longrightarrow> decrypt_vec a k n c = None"
  using assms by (auto simp: aead_ok_def)

lemma gcm_pair:
  assumes a: "aead_ok False (gcm cr)" and "0 < bs"
  shows "transformer_pair (AesGcmEncrypter cr key n bs) (AesGcmDecrypter cr key n bs)"
proof
  note d = aead_detached[OF a]
  show "into_ok (AesGcmEncrypter cr key n bs)"
    unfolding into_ok_def
  proof (intro allI)
    fix x out :: bytes and b
    show "transform_into (AesGcmEncrypter cr key n bs) x b out =
      try_bind (transform (AesGcmEncrypter cr key n bs) x b) (\<lambda>y. Inr (out @ y))"
      by (cases "calc_nonce n b") (auto simp: AesGcmEncrypter_def d(1) join_tag_def ok_or_def split: option.splits)
  qed
  show "into_ok (AesGcmDecrypter cr key n bs)"
    unfolding into_ok_def
  proof (intro allI)
    fix x out :: bytes and b
    let ?s = "length x - 16"
    have "16 \<le> length x \<Longrightarrow> decrypt_vec (gcm cr) key m x = unseal (gcm cr) key m (take ?s x) (drop ?s x)" for m
      using d(3)[of "drop ?s x" key m "take ?s x"] by (simp add: join_tag_def)
    then show "transform_into (AesGcmDecrypter cr key n bs) x b out =
      try_bind (transform (AesGcmDecrypter cr key n bs) x b) (\<lambda>y. Inr (out @ y))"
      using d(4)[of x key]
      by (cases "calc_nonce n b"; cases "length x < 16") (auto simp: AesGcmDecrypter_def AES_GCM_TAG_SIZE_def ok_or_def split: option.splits)
  qed
  fix x b y
  assume "length x = in_block_size (AesGcmEncrypter cr key n bs)" "transform (AesGcmEncrypter cr key n bs) x b = Inr y"
  then obtain m where m: "calc_nonce n b = Inr m" "encrypt_vec (gcm cr) key m x = Some y" "length x = bs"
    by (auto simp: AesGcmEncrypter_def result_simps ok_or_def split: option.splits)
  show "length y = out_block_size (AesGcmEncrypter cr key n bs) \<and> transform (AesGcmDecrypter cr key n bs) y b = Inr x"
    using aead_vec_round_trip[OF a m(2)] m by (simp add: AesGcmEncrypter_def AesGcmDecrypter_def AES_GCM_TAG_SIZE_def)
qed (use assms(2) in \<open>simp_all add: AesGcmEncrypter_def AesGcmDecrypter_def\<close>)

lemma secretbox_pair:
  assumes a: "aead_ok True (secretbox cr)" and "0 < bs"
  shows "transformer_pair (SecretboxEncrypter cr key n bs) (SecretboxDecrypter cr key n bs)"
proof
  note d = aead_detached[OF a]
  show "into_ok (SecretboxEncrypter cr key n bs)"
    unfolding into_ok_def
  proof (intro allI)
    fix x out :: bytes and b
    have "length tag = 16 \<Longrightarrow> put_slice ((out @ replicate 16 0) @ ct) (length out) tag = out @ tag @ ct" for ct tag
      by (simp add: put_slice_def)
    then show "transform_into (SecretboxEncrypter cr key n bs) x b out =
      try_bind (transform (SecretboxEncrypter cr key n bs) x b) (\<lambda>y. Inr (out @ y))"
      using d(2)[of key _ x]
      by (cases "calc_nonce n b") (auto simp: SecretboxEncrypter_def d(1) join_tag_def ok_or_def SECRETBOX_OVERHEAD_def split: option.splits)
  qed
  show "into_ok (SecretboxDecrypter cr key n bs)"
    unfolding into_ok_def
  proof (intro allI)
    fix x out :: bytes and b
    have "16 \<le> length x \<Longrightarrow> decrypt_vec (secretbox cr) key m x = unseal (secretbox cr) key m (drop 16 x) (take 16 x)" for m
      using d(3)[of "take 16 x" key m "drop 16 x"] by (simp add: join_tag_def)
    then show "transform_into (SecretboxDecrypter cr key n bs) x b out =
      try_bind (transform (SecretboxDecrypter cr key n bs) x b) (\<lambda>y. Inr (out @ y))"
      using d(4)[of x key]
      by (cases "calc_nonce n b"; cases "length x < 16") (auto simp: SecretboxDecrypter_def SECRETBOX_OVERHEAD_def ok_or_def split: option.splits)
  qed
  fix x b y
  assume "length x = in_block_size (SecretboxEncrypter cr key n bs)" "transform (SecretboxEncrypter cr key n bs) x b = Inr y"
  then obtain m where m: "calc_nonce n b = Inr m" "encrypt_vec (secretbox cr) key m x = Some y" "length x = bs"
    by (auto simp: SecretboxEncrypter_def result_simps ok_or_def split: option.splits)
  show "length y = out_block_size (SecretboxEncrypter cr key n bs) \<and> transform (SecretboxDecrypter cr key n bs) y b = Inr x"
    using aead_vec_round_trip[OF a m(2)] m by (simp add: SecretboxEncrypter_def SecretboxDecrypter_def SECRETBOX_OVERHEAD_def)
qed (use assms(2) in \<open>simp_all add: SecretboxEncrypter_def SecretboxDecrypter_def\<close>)

lemma encrypter_sizes [simp]:
  "in_block_size (AesGcmEncrypter cr key n bs) = bs" "out_block_size (AesGcmEncrypter cr key n bs) = bs + AES_GCM_TAG_SIZE"
  "in_block_size (SecretboxEncrypter cr key n bs) = bs" "out_block_size (SecretboxEncrypter cr key n bs) = bs + SECRETBOX_OVERHEAD"
  by (simp_all add: AesGcmEncrypter_def SecretboxEncrypter_def)

lemma new_pair:
  assumes "crypto_ok cr" and "new_encrypter cr cipher key n ebs = Inr e" and "new_decrypter cr cipher key n ebs = Inr d"
  shows "transformer_pair e d"
    and "encrypter_io_blocks cipher ebs = Inr (in_block_size e, out_block_size e)"
proof -
  have a: "aead_ok False (gcm cr)" "aead_ok True (secretbox cr)" using assms(1) by (auto simp: crypto_ok_def)
  consider "cipher = NULL" | "cipher = AES_GCM" | "cipher = SECRET_BOX"
    using assms(2) by (auto simp: new_encrypter_def split: if_splits)
  then have "transformer_pair e d \<and> encrypter_io_blocks cipher ebs = Inr (in_block_size e, out_block_size e)"
  proof cases
    case 1
    then show ?thesis
      using assms(2,3) noop.transformer_pair_axioms
      by (auto simp: new_encrypter_def new_decrypter_def encrypter_io_blocks_def NoopTransformer_def)
  next
    case 2
    then show ?thesis
      using assms(2,3) gcm_pair[OF a(1)]
      by (auto simp: new_encrypter_def new_decrypter_def encrypter_io_blocks_def result_simps check_block_size_def
          split: if_splits)
  next
    case 3
    then show ?thesis
      using assms(2,3) secretbox_pair[OF a(2)]
      by (auto simp: new_encrypter_def new_decrypter_def encrypter_io_blocks_def result_simps check_block_size_def
          split: if_splits)
  qed
  then show "transformer_pair e d" "encrypter_io_blocks cipher ebs = Inr (in_block_size e, out_block_size e)" by auto
qed

section \<open>Nonces as little-endian numbers\<close>

fun le_val :: "bytes \<Rightarrow> int" where
  "le_val [] = 0"
| "le_val (b # bs) = uint b + 256 * le_val bs"

lemma le_val_bounds: "0 \<le> le_val bs \<and> le_val bs < 256 ^ length bs"
proof (induction bs)
  case (Cons b bs)
  have "uint b < 256" "0 \<le> uint b" using uint_bounded[of b] by auto
  then show ?case using Cons by simp
qed simp

lemma le_val_inj: "length xs = length ys \<Longrightarrow> le_val xs = le_val ys \<Longrightarrow> xs = ys"
proof (induction xs ys rule: list_induct2)
  case (Cons x xs y ys)
  have low: "(uint z + 256 * v) mod 256 = uint z" for z :: u8 and v
    using uint_bounded[of z] by (simp add: mod_pos_pos_trivial)
  have "uint x = uint y" using Cons.prems low[of x "le_val xs"] low[of y "le_val ys"] by simp
  moreover from this have "le_val xs = le_val ys" using Cons.prems by simp
  ultimately show ?case using Cons.IH by (simp add: word_uint_eq_iff)
qed simp

lemma byte_add:
  fixes prev b :: u8
  assumes b_def: "b = prev + of_int amount"
  shows "uint b + 256 * (amount div 256 + (if b < prev then 1 else 0)) = uint prev + amount"
proof -
  define m where "m = amount mod 256"
  have m: "0 \<le> m" "m < 256" "amount = 256 * (amount div 256) + m" by (auto simp: m_def)
  have p: "0 \<le> uint prev" "uint prev < 256" using uint_bounded[of prev] by auto
  have u: "uint b = (uint prev + m) mod 256"
    by (simp add: b_def m_def uint_word_ariths mod_add_right_eq uint_word_of_int)
  show ?thesis
  proof (cases "uint prev + m < 256")
    case True
    then have "uint b = uint prev + m" using u p m by simp
    then show ?thesis using m by (simp add: word_less_def)
  next
    case False
    then have "(uint prev + m - 256) mod 256 = uint prev + m - 256" using p m by (intro mod_pos_pos_trivial) auto
    then have "uint b = uint prev + m - 256" using u by simp
    then show ?thesis using m by (simp add: word_less_def)
  qed
qed

lemma increment_loop_step:
  fixes prev b :: u8
  assumes "amount > 0" and "b = prev + of_int amount" and "am = amount div 256 + (if b < prev then 1 else 0)"
  shows "increment_loop (prev # bs) amount = (case increment_loop bs am of (cs, a) \<Rightarrow> (b # cs, a))"
  using assms by auto

lemma increment_loop_val:
  "0 \<le> amount \<Longrightarrow> increment_loop bs amount = (bs', a) \<Longrightarrow>
    length bs' = length bs \<and> 0 \<le> a \<and> le_val bs' + 256 ^ length bs * a = le_val bs + amount"
proof (induction bs arbitrary: amount bs' a)
  case (Cons prev bs)
  show ?case
  proof (cases "amount > 0")
    case True
    define b where "b = prev + of_int amount"
    define am where "am = amount div 256 + (if b < prev then 1 else 0)"
    obtain cs where cs: "increment_loop bs am = (cs, a)" "bs' = b # cs"
      using Cons.prems(2) unfolding increment_loop_step[OF True b_def am_def] by (auto split: prod.splits)
    have "0 \<le> am" using True by (simp add: am_def pos_imp_zdiv_nonneg_iff)
    then have IH: "length cs = length bs" "0 \<le> a" "le_val cs + 256 ^ length bs * a = le_val bs + am"
      using Cons.IH[OF _ cs(1)] by auto
    have "le_val bs' + 256 ^ length (prev # bs) * a = uint b + 256 * (le_val cs + 256 ^ length bs * a)"
      by (simp add: cs(2) distrib_left)
    also have "\<dots> = (uint b + 256 * am) + 256 * le_val bs" by (simp add: IH(3) distrib_left)
    also have "uint b + 256 * am = uint prev + amount" unfolding am_def using b_def by (rule byte_add)
    finally show ?thesis using IH cs(2) by simp
  next
    case False
    then show ?thesis using Cons.prems by auto
  qed
qed auto

lemma increment_bytes_val:
  assumes "increment_bytes buf amount = Inr (buf', ov)"
  shows "length buf' = length buf" and "le_val buf' = (le_val buf + amount) mod 256 ^ length buf"
    and "ov \<longleftrightarrow> le_val buf + amount \<ge> 256 ^ length buf"
proof -
  obtain a where a: "increment_loop buf amount = (buf', a)" "ov = (a \<noteq> 0)" "0 \<le> amount"
    using assms by (auto simp: increment_bytes_def split: if_splits prod.splits)
  have v: "length buf' = length buf" "0 \<le> a" "le_val buf' + 256 ^ length buf * a = le_val buf + amount"
    using increment_loop_val[OF a(3,1)] by auto
  have b: "0 \<le> le_val buf'" "le_val buf' < 256 ^ length buf" using le_val_bounds[of buf'] v(1) by auto
  show "length buf' = length buf" by (rule v)
  show "le_val buf' = (le_val buf + amount) mod 256 ^ length buf"
    using b by (simp flip: v(3))
  show "ov \<longleftrightarrow> le_val buf + amount \<ge> 256 ^ length buf"
  proof (cases "a = 0")
    case True
    then show ?thesis using a(2) v(3) b by simp
  next
    case False
    then have "(256 :: int) ^ length buf * 1 \<le> 256 ^ length buf * a" using v(2) by (intro mult_left_mono) auto
    then have "(256 :: int) ^ length buf \<le> 256 ^ length buf * a" by simp
    then show ?thesis using a(2) False v(3) b by linarith
  qed
qed

section \<open>Sizes\<close>

lemma quot_i64_nonneg: "0 \<le> a \<Longrightarrow> 0 < b \<Longrightarrow> quot_i64 a b = a div b"
  by (simp add: quot_i64_def)

lemma rem_i64_nonneg: "0 \<le> a \<Longrightarrow> 0 < b \<Longrightarrow> rem_i64 a b = a mod b"
  by (simp add: rem_i64_def)

text \<open>Rounding up by division agrees with adding the padding.\<close>

lemma padded_blocks: "0 < b \<Longrightarrow> (n + padding_size n b) div b = (n + 4 + b - 1) div b"
proof -
  assume b: "0 < b"
  let ?q = "(n + 4) div b" and ?r = "(n + 4) mod b"
  have s: "n + 4 = ?q * b + ?r" by simp
  have r: "?r < b" using b by simp
  have d: "(q * b + t) div b = q" if "t < b" for q t using that by simp
  show ?thesis
  proof (cases "?r = 0")
    case True
    then have "n + padding_size n b = ?q * b" using s by (simp add: padding_size_def)
    moreover have "n + 4 + b - 1 = ?q * b + (b - 1)" using s True b by linarith
    ultimately show ?thesis using d[of 0 ?q] d[of "b - 1" ?q] b by (simp only: add_0_right)
  next
    case False
    then have "padding_size n b = 4 + (b - ?r)" by (simp only: padding_size_def if_False)
    then have "n + padding_size n b = (?q + 1) * b"
      using s r unfolding distrib_right mult_1 by linarith
    moreover have "n + 4 + b - 1 = (?q + 1) * b + (?r - 1)"
      using s False unfolding distrib_right mult_1 by linarith
    ultimately show ?thesis using d[of 0 "?q + 1"] d[of "?r - 1" "?q + 1"] r by (simp only: add_0_right)
  qed
qed

lemma encrypted_size_eq:
  assumes "0 < b"
  shows "encrypted_size_from_blocks (int n) b out = int ((n + padding_size n b) div b * out)"
proof -
  have "int n + int UINT32_SIZE + int b - 1 = int (n + 4 + b - 1)" using assms by (simp add: UINT32_SIZE_def)
  then have "quot_i64 (int n + int UINT32_SIZE + int b - 1) (int b) = int ((n + 4 + b - 1) div b)"
    using assms by (simp only: quot_i64_nonneg zdiv_int of_nat_0_le_iff of_nat_0_less_iff)
  then show ?thesis using padded_blocks[OF assms, of n] by (simp add: encrypted_size_from_blocks_def)
qed

lemma encompassing_bounds:
  assumes "0 \<le> offset" and "0 < len" and "0 < bs" and "calc_encompassing_blocks offset len bs = (first_block, count)"
  shows "first_block * int bs \<le> offset \<and> offset < (first_block + 1) * int bs \<and>
    (first_block + count - 1) * int bs < offset + len \<and> offset + len \<le> (first_block + count) * int bs"
proof -
  let ?b = "int bs" and ?e = "offset + len"
  have b: "0 < ?b" using assms(3) by simp
  have f: "first_block = offset div ?b" and c: "count = ?e div ?b + (if ?e mod ?b = 0 then 0 else 1) - first_block"
    using assms b by (auto simp: calc_encompassing_blocks_def quot_i64_nonneg rem_i64_nonneg split: if_splits)
  have o: "offset = first_block * ?b + offset mod ?b" "0 \<le> offset mod ?b" "offset mod ?b < ?b"
    using b f by auto
  have e: "?e = (?e div ?b) * ?b + ?e mod ?b" "0 \<le> ?e mod ?b" "?e mod ?b < ?b" using b by auto
  have "first_block + count = ?e div ?b + (if ?e mod ?b = 0 then 0 else 1)" using c by simp
  then have "(first_block + count) * ?b = ?e div ?b * ?b + (if ?e mod ?b = 0 then 0 else ?b)"
    by (simp only: distrib_right) simp
  moreover have "(first_block + 1) * ?b = first_block * ?b + ?b"
    "(first_block + count - 1) * ?b = (first_block + count) * ?b - ?b" by (simp_all add: distrib_right left_diff_distrib)
  ultimately show ?thesis using o e by (cases "?e mod ?b = 0") (simp_all only: if_P if_not_P if_False, linarith+)
qed

lemma decrypter_of_encrypter:
  "new_encrypter cr cipher key nonce ebs = Inr e \<Longrightarrow> \<exists>d. new_decrypter cr cipher key nonce ebs = Inr d"
  by (auto simp: new_encrypter_def new_decrypter_def result_simps split: if_splits)

section \<open>Properties of content encryption\<close>

text \<open>
  C38: content encryption round trip: whatever an encrypter of the program produces for some data, the
  decrypter made from the same cipher, key, nonce and block size turns back into that data, and its
  length is the size that \<open>calc_encrypted_size\<close> predicts.
\<close>

theorem content_round_trip:
  assumes "crypto_ok cr" and "new_encrypter cr cipher key nonce ebs = Inr e" and "new_decrypter cr cipher key nonce ebs = Inr d"
    and "ebs + 4 \<le> 2 ^ 32" and "int (length dat) + 4 \<le> i64_max" and "transform_padded e dat = Inr c"
  shows "transform_unpad d c = Inr dat \<and>
    calc_encrypted_size (int (length dat)) \<lparr>cipher_suite = cipher, block_size = int ebs\<rparr> = Inr (int (length c))"
proof -
  note p = new_pair[OF assms(1-3)]
  have in_le: "in_block_size e \<le> max 1 ebs"
    using p(2) by (auto simp: encrypter_io_blocks_def split: if_splits)
  have "paddable (in_block_size e) dat"
    using in_le assms(4,5) transformer_pair.in_pos[OF p(1)] by (auto simp: paddable_def)
  note r = transformer_pair.padded_round_trip[OF p(1) assms(6) this]
  have "calc_encrypted_size (int (length dat)) \<lparr>cipher_suite = cipher, block_size = int ebs\<rparr> =
      Inr (encrypted_size_from_blocks (int (length dat)) (in_block_size e) (out_block_size e))"
    using p(2) by (auto simp: calc_encrypted_size_def encrypter_io_blocks_def split: if_splits)
  then show ?thesis using r encrypted_size_eq[OF transformer_pair.in_pos[OF p(1)]] by simp
qed

theorem content_round_trip_witness:
  "\<exists>e d c. new_encrypter toy_crypto AES_GCM (replicate 32 1) ZERO_NONCE 32 = Inr e \<and>
     new_decrypter toy_crypto AES_GCM (replicate 32 1) ZERO_NONCE 32 = Inr d \<and>
     transform_padded e [1, 2, 3] = Inr c \<and> transform_unpad d c = Inr [1, 2, 3] \<and> length c = 32"
proof -
  define e where "e = AesGcmEncrypter toy_crypto (replicate 32 1) (replicate 12 0) 16"
  define d where "d = AesGcmDecrypter toy_crypto (replicate 32 1) (replicate 12 0) 16"
  have ed: "new_encrypter toy_crypto AES_GCM (replicate 32 1) ZERO_NONCE 32 = Inr e"
    "new_decrypter toy_crypto AES_GCM (replicate 32 1) ZERO_NONCE 32 = Inr d"
    by (simp_all add: e_def d_def new_encrypter_def new_decrypter_def to_aes_gcm_nonce_def check_block_size_def
        ZERO_NONCE_def AES_GCM_NONCE_SIZE_def AES_GCM_TAG_SIZE_def)
  obtain c where c: "transform_padded e [1, 2, 3] = Inr c"
  proof -
    have "replicate 9 (0 :: u8) = [0, 0, 0, 0, 0, 0, 0, 0, 0]" by code_simp
    then have "pad [1, 2, 3] 16 = Inr [1, 2, 3, 0, 0, 0, 0, 0, 0, 0, 0, 0, 0, 0, 0, 13]"
      by (subst pad_ok) (simp_all add: padding_size_def be_bytes32_def upt_conv_Cons)
    moreover have "case transform_blocks (AesGcmEncrypter toy_crypto (replicate 32 1) (replicate 12 0) 16)
        [1, 2, 3, 0, 0, 0, 0, 0, 0, 0, 0, 0, 0, 0, 0, 13] 0 of Inr _ \<Rightarrow> True | Inl _ \<Rightarrow> False" by code_simp
    ultimately show thesis using that by (auto simp: e_def transform_padded_def split: sum.splits)
  qed
  show ?thesis
    using content_round_trip[OF toy_crypto_ok ed _ _ c] ed c
    by (auto simp: calc_encrypted_size_def encrypter_io_blocks_def encrypted_size_from_blocks_def quot_i64_def
        UINT32_SIZE_def AES_GCM_TAG_SIZE_def)
qed

text \<open>
  Random access: any run of encrypted blocks decrypts on its own, with its block number as start, to
  the same run of plaintext blocks; so a download can fetch just the blocks it needs.
\<close>

theorem decrypt_range:
  assumes "crypto_ok cr" and "new_encrypter cr cipher key nonce ebs = Inr e" and "new_decrypter cr cipher key nonce ebs = Inr d"
    and "transform_blocks e plain 0 = Inr c"
  shows "transform_blocks d (sub_slice c (i * out_block_size e) ((i + m) * out_block_size e)) (int i) =
    Inr (sub_slice plain (i * in_block_size e) ((i + m) * in_block_size e))"
  using transformer_pair.range_of_blocks[OF new_pair(1)[OF assms(1-3)] assms(4)] by simp

theorem decrypt_range_witness:
  "transform_blocks NoopTransformer (sub_slice [5, 6, 7] (1 * 1) ((1 + 2) * 1)) (int 1) = Inr [6, 7]"
proof -
  have e: "new_encrypter toy_crypto NULL [] [] 1 = Inr NoopTransformer" "new_decrypter toy_crypto NULL [] [] 1 = Inr NoopTransformer"
    by (simp_all add: new_encrypter_def new_decrypter_def)
  have t: "transform_blocks NoopTransformer [5, 6, 7] 0 = Inr [5, 6, 7]" by code_simp
  have s: "sub_slice [5, 6, 7 :: u8] (1 * 1) ((1 + 2) * 1) = [6, 7]" by code_simp
  show ?thesis
    using decrypt_range[OF toy_crypto_ok e t, of 1 2] s by (simp add: NoopTransformer_def)
qed

text \<open>
  No nonce is used twice: two different block numbers never give the same block nonce, for any
  starting nonce of at least eight bytes (AES-GCM has twelve, secretbox twenty-four).
\<close>

theorem block_nonces_distinct:
  assumes "calc_nonce start i = Inr a" and "calc_nonce start j = Inr b"
    and "i \<le> i64_max" and "j \<le> i64_max" and "8 \<le> length start" and "i \<noteq> j"
  shows "a \<noteq> b"
proof
  assume "a = b"
  have nonneg: "0 \<le> i" "0 \<le> j" using assms(1,2) by (auto simp: calc_nonce_def increment_bytes_def split: if_splits)
  have v: "le_val a = (le_val start + i) mod 256 ^ length start" "le_val b = (le_val start + j) mod 256 ^ length start"
    using assms(1,2) by (auto simp: calc_nonce_def result_simps dest: increment_bytes_val(2))
  then have "(le_val start + i) mod 256 ^ length start = (le_val start + j) mod 256 ^ length start"
    using \<open>a = b\<close> by simp
  then have "256 ^ length start dvd i - j" by (simp add: mod_eq_dvd_iff)
  moreover have "\<bar>i - j\<bar> < 256 ^ length start"
  proof -
    have "\<bar>i - j\<bar> < (256 :: int) ^ 8" using nonneg assms(3,4) by simp
    also have "(256 :: int) ^ 8 \<le> 256 ^ length start" using assms(5) by (intro power_increasing) auto
    finally show ?thesis .
  qed
  ultimately have "i - j = 0" by (metis dvd_imp_le_int abs_of_pos zero_less_power zero_less_numeral not_less)
  then show False using assms(6) by simp
qed

theorem block_nonces_distinct_witness:
  "calc_nonce [255, 0, 0, 0, 0, 0, 0, 0] 1 = Inr [0, 1, 0, 0, 0, 0, 0, 0] \<and>
   calc_nonce [255, 0, 0, 0, 0, 0, 0, 0] 2 = Inr [1, 1, 0, 0, 0, 0, 0, 0] \<and>
   [0 :: u8, 1, 0, 0, 0, 0, 0, 0] \<noteq> [1, 1, 0, 0, 0, 0, 0, 0]"
proof -
  have n: "calc_nonce [255, 0, 0, 0, 0, 0, 0, 0] 1 = Inr [0, 1, 0, 0, 0, 0, 0, 0]"
    "calc_nonce [255, 0, 0, 0, 0, 0, 0, 0] 2 = Inr [1, 1, 0, 0, 0, 0, 0, 0]" by code_simp+
  then show ?thesis using block_nonces_distinct[OF n] by simp
qed

text \<open>
  \<open>calc_encompassing_blocks\<close> returns the smallest run of blocks that covers a byte range.
\<close>

theorem encompassing_blocks_tight:
  assumes "0 \<le> offset" and "0 < len" and "0 < bs" and "calc_encompassing_blocks offset len bs = (first_block, count)"
  shows "first_block * int bs \<le> offset \<and> offset < (first_block + 1) * int bs \<and>
    (first_block + count - 1) * int bs < offset + len \<and> offset + len \<le> (first_block + count) * int bs"
  by (rule encompassing_bounds[OF assms])

theorem encompassing_blocks_tight_witness:
  "calc_encompassing_blocks 5 10 4 = (1, 3) \<and> (1 + 3 - 1) * int 4 < 5 + 10"
proof -
  have "calc_encompassing_blocks 5 10 4 = (1, 3)" by code_simp
  then show ?thesis using encompassing_blocks_tight[of 5 10 4 1 3] by simp
qed

end
