(* ===== verification/Path_Components.thy ===== *)
theory Path_Components
  imports Ciphers Codecs
begin

text \<open>
  Paths of \<open>crates/storj-encryption/src/path.rs\<close> below the encryption store: the iterator over the
  components of a path, joining components, the escaping of encrypted components, and the encryption
  and decryption of a sequence of components with the keys derived on the way.

  The iterator refines a list of components (\<open>iter_parts\<close>): \<open>next_part\<close> is taking the head of it.
  The escaping is a bijection between byte strings and the segments that \<open>decode_segment\<close> accepts.
\<close>

section \<open>The code\<close>

definition EMPTY_COMPONENT_PREFIX :: u8 where "EMPTY_COMPONENT_PREFIX = 0x01"
definition NOT_EMPTY_COMPONENT_PREFIX :: u8 where "NOT_EMPTY_COMPONENT_PREFIX = 0x02"
definition ESCAPE_SLASH :: u8 where "ESCAPE_SLASH = 0x2e"
definition ESCAPE_FF :: u8 where "ESCAPE_FF = 0xfe"
definition ESCAPE_01 :: u8 where "ESCAPE_01 = 0x01"

abbreviation (input) slash :: u8 where "slash \<equiv> 0x2f"

lemmas escape_consts [simp] =
  EMPTY_COMPONENT_PREFIX_def NOT_EMPTY_COMPONENT_PREFIX_def ESCAPE_SLASH_def ESCAPE_FF_def ESCAPE_01_def

subsection \<open>The component iterator\<close>

record PathIter =
  raw :: bytes
  consumed_len :: nat
  last_empty :: bool

definition new_iter :: "bytes \<Rightarrow> PathIter" where
  "new_iter path = \<lparr>raw = path, consumed_len = 0, last_empty = path \<noteq> []\<rparr>"

definition consumed :: "PathIter \<Rightarrow> bytes" where
  "consumed it = take (consumed_len it) (raw it)"

definition remaining :: "PathIter \<Rightarrow> bytes" where
  "remaining it = drop (consumed_len it) (raw it)"

definition iter_done :: "PathIter \<Rightarrow> bool" where
  "iter_done it \<longleftrightarrow> length (raw it) = consumed_len it \<and> \<not> last_empty it"

fun position :: "('a \<Rightarrow> bool) \<Rightarrow> 'a list \<Rightarrow> nat option" where
  "position P [] = None"
| "position P (x # xs) = (if P x then Some 0 else map_option Suc (position P xs))"

text \<open>
  \<open>Iterator::next\<close>, returning the component and the iterator moved on.  An iterator that has consumed
  more than there is (where the slices of the source panic) does not occur, see \<open>iter_wf\<close>; it ends here.
\<close>

definition next_part :: "PathIter \<Rightarrow> bytes option \<times> PathIter" where
  "next_part it =
    (if iter_done it \<or> length (raw it) < consumed_len it then (None, it)
     else
       let rem_len = length (raw it) - consumed_len it;
           rem = remaining it
       in case position (\<lambda>b. b = slash) rem of
            None \<Rightarrow> (Some rem, it\<lparr>consumed_len := consumed_len it + rem_len, last_empty := False\<rparr>)
          | Some index \<Rightarrow>
            (Some (take index rem),
             it\<lparr>last_empty := (index + 1 = rem_len), consumed_len := consumed_len it + (index + 1)\<rparr>))"

text \<open>\<open>collect\<close>, which is also how the \<open>for\<close> loops over an iterator see it.\<close>

definition iter_measure :: "PathIter \<Rightarrow> nat" where
  "iter_measure it = 2 * (length (raw it) - consumed_len it) + (if last_empty it then 1 else 0)
     + (if consumed_len it = length (raw it) then 0 else 1)"

lemma position_Some: "position P xs = Some i \<Longrightarrow> i < length xs \<and> P (xs ! i) \<and> (\<forall>j<i. \<not> P (xs ! j))"
proof (induction xs arbitrary: i)
  case (Cons x xs)
  show ?case
  proof (cases "P x")
    case False
    then obtain j where "position P xs = Some j" "i = Suc j" using Cons.prems by auto
    then show ?thesis using Cons.IH[of j] False by (auto simp: nth_Cons split: nat.splits)
  qed (use Cons.prems in auto)
qed simp

lemma position_None: "position P xs = None \<longleftrightarrow> (\<forall>x \<in> set xs. \<not> P x)"
  by (induction xs) auto

lemma next_part_measure: "next_part it = (Some c, it') \<Longrightarrow> iter_measure it' < iter_measure it"
  using position_Some[of "\<lambda>b. b = slash" "remaining it"]
  by (auto simp: next_part_def iter_measure_def iter_done_def remaining_def split: if_splits option.splits)

function remaining_components :: "PathIter \<Rightarrow> bytes list" where
  "remaining_components it =
    (case next_part it of (None, _) \<Rightarrow> [] | (Some part, it') \<Rightarrow> part # remaining_components it')"
  by pat_completeness auto
termination
  by (relation "measure iter_measure") (auto intro: next_part_measure simp: eq_commute)

declare remaining_components.simps [simp del]

text \<open>The loop of \<open>join_components\<close>: a separator before every part but the first.\<close>

definition join_components :: "bytes list \<Rightarrow> bytes" where
  "join_components parts =
    fold (\<lambda>(i, part) out. (if i > 0 then out @ [slash] else out) @ part) (enumerate 0 parts) []"

subsection \<open>Escaping of encrypted components\<close>

definition escape_one :: "u8 \<Rightarrow> bytes" where
  "escape_one b =
    (if b = ESCAPE_SLASH then [ESCAPE_SLASH, 1]
     else if b = ESCAPE_SLASH + 1 then [ESCAPE_SLASH, 2]
     else if b = ESCAPE_FF then [ESCAPE_FF, 1]
     else if b = ESCAPE_FF + 1 then [ESCAPE_FF, 2]
     else if b = ESCAPE_01 - 1 then [ESCAPE_01, 1]
     else if b = ESCAPE_01 then [ESCAPE_01, 2]
     else [b])"

definition encode_segment :: "bytes \<Rightarrow> bytes" where
  "encode_segment segment =
    (if segment = [] then [EMPTY_COMPONENT_PREFIX]
     else NOT_EMPTY_COMPONENT_PREFIX # concat (map escape_one segment))"

definition is_escape_byte :: "u8 \<Rightarrow> bool" where
  "is_escape_byte b \<longleftrightarrow> b = ESCAPE_SLASH \<or> b = ESCAPE_FF \<or> b = ESCAPE_01"

definition is_disallowed_byte :: "u8 \<Rightarrow> bool" where
  "is_disallowed_byte b \<longleftrightarrow> b = 0 \<or> b = 0xff \<or> b = slash"

text \<open>The \<open>while\<close> loops run over what is left of the segment after its first byte.\<close>

fun validate_loop :: "bytes \<Rightarrow> ErrorKind + unit" where
  "validate_loop [] = Inr ()"
| "validate_loop [b] =
    (if is_escape_byte b then Inl DecryptionFailed
     else if is_disallowed_byte b then Inl DecryptionFailed else Inr ())"
| "validate_loop (b # c # rest) =
    (if is_escape_byte b then
       (if c = 1 \<or> c = 2 then validate_loop rest else Inl DecryptionFailed)
     else if is_disallowed_byte b then Inl DecryptionFailed
     else validate_loop (c # rest))"

fun validate_encoded_segment :: "bytes \<Rightarrow> ErrorKind + unit" where
  "validate_encoded_segment [] = Inl DecryptionFailed"
| "validate_encoded_segment (b # rest) =
    (if b \<noteq> EMPTY_COMPONENT_PREFIX \<and> b \<noteq> NOT_EMPTY_COMPONENT_PREFIX then Inl DecryptionFailed
     else if b = EMPTY_COMPONENT_PREFIX \<and> rest \<noteq> [] then Inl DecryptionFailed
     else if b = NOT_EMPTY_COMPONENT_PREFIX \<and> rest = [] then Inl DecryptionFailed
     else if rest = [] then Inr ()
     else validate_loop rest)"

fun decode_loop :: "bytes \<Rightarrow> bytes" where
  "decode_loop [] = []"
| "decode_loop [b] = [b]"
| "decode_loop (b # c # rest) =
    (if b = ESCAPE_SLASH \<or> b = ESCAPE_FF then (b + c - 1) # decode_loop rest
     else if b = ESCAPE_01 then (c - 1) # decode_loop rest
     else b # decode_loop (c # rest))"

definition decode_segment :: "bytes \<Rightarrow> ErrorKind + bytes" where
  "decode_segment segment =
    try_bind (validate_encoded_segment segment) (\<lambda>_.
      if hd segment = EMPTY_COMPONENT_PREFIX then Inr [] else Inr (decode_loop (tl segment)))"

subsection \<open>Encrypting components\<close>

definition nonce_size :: "CipherSuite \<Rightarrow> nat" where
  "nonce_size cipher = (if cipher = AES_GCM then AES_GCM_NONCE_SIZE else NONCE_SIZE)"

definition nonce_from_prefix :: "bytes \<Rightarrow> bytes" where
  "nonce_from_prefix prefix = put_slice ZERO_NONCE 0 prefix"

definition encrypt_path_component :: "Crypto \<Rightarrow> bytes \<Rightarrow> CipherSuite \<Rightarrow> Key \<Rightarrow> ErrorKind + bytes" where
  "encrypt_path_component cr part cipher key =
    (if cipher = NULL then Inr part
     else if cipher = NULL_BASE64_URL then ok_or InvalidConfig (b64url_decode cr part)
     else
       let derived = derive_path_component cr key part;
           nonce = derive_nonce cr derived
       in try_bind (encrypt cr part cipher key nonce) (\<lambda>cipher_text.
            Inr (encode_segment (take (nonce_size cipher) nonce @ cipher_text))))"

definition decrypt_path_component :: "Crypto \<Rightarrow> bytes \<Rightarrow> CipherSuite \<Rightarrow> Key \<Rightarrow> ErrorKind + bytes" where
  "decrypt_path_component cr part cipher key =
    (if part = [] then Inr []
     else if cipher = NULL then Inr part
     else if cipher = NULL_BASE64_URL then Inr (b64url_encode cr part)
     else try_bind (decode_segment part) (\<lambda>dat.
       if length dat < nonce_size cipher then Inl DecryptionFailed
       else decrypt cr (drop (nonce_size cipher) dat) cipher key (nonce_from_prefix (take (nonce_size cipher) dat))))"

text \<open>The loops of \<open>encrypt_iterator\<close> and \<open>decrypt_iterator\<close>: the key of the next component is derived
  from the clear text of this one.\<close>

fun encrypt_parts :: "Crypto \<Rightarrow> CipherSuite \<Rightarrow> Key \<Rightarrow> bytes list \<Rightarrow> ErrorKind + bytes list" where
  "encrypt_parts cr cipher key [] = Inr []"
| "encrypt_parts cr cipher key (component # rest) =
    try_bind (encrypt_path_component cr component cipher key) (\<lambda>e.
      try_bind (encrypt_parts cr cipher (derive_path_component cr key component) rest) (\<lambda>es. Inr (e # es)))"

fun decrypt_parts :: "Crypto \<Rightarrow> CipherSuite \<Rightarrow> Key \<Rightarrow> bytes list \<Rightarrow> ErrorKind + bytes list" where
  "decrypt_parts cr cipher key [] = Inr []"
| "decrypt_parts cr cipher key (component # rest) =
    try_bind (decrypt_path_component cr component cipher key) (\<lambda>u.
      try_bind (decrypt_parts cr cipher (derive_path_component cr key u) rest) (\<lambda>us. Inr (u # us)))"

definition encrypt_iterator :: "Crypto \<Rightarrow> PathIter \<Rightarrow> CipherSuite \<Rightarrow> Key \<Rightarrow> ErrorKind + bytes" where
  "encrypt_iterator cr it cipher key =
    try_bind (encrypt_parts cr cipher key (remaining_components it)) (\<lambda>parts. Inr (join_components parts))"

definition decrypt_iterator :: "Crypto \<Rightarrow> PathIter \<Rightarrow> CipherSuite \<Rightarrow> Key \<Rightarrow> ErrorKind + bytes" where
  "decrypt_iterator cr it cipher key =
    try_bind (decrypt_parts cr cipher key (remaining_components it)) (\<lambda>parts. Inr (join_components parts))"

section \<open>The iterator refines a list of components\<close>

definition iter_wf :: "PathIter \<Rightarrow> bool" where
  "iter_wf it \<longleftrightarrow> consumed_len it \<le> length (raw it)"

text \<open>The reference splitting at slashes: \<open>n\<close> slashes give \<open>n + 1\<close> parts.\<close>

fun split_slash :: "bytes \<Rightarrow> bytes list" where
  "split_slash [] = [[]]"
| "split_slash (b # bs) =
    (if b = slash then [] # split_slash bs else (b # hd (split_slash bs)) # tl (split_slash bs))"

definition iter_parts :: "PathIter \<Rightarrow> bytes list" where
  "iter_parts it = (if iter_done it then [] else split_slash (remaining it))"

lemma split_slash_nonempty [simp]: "split_slash bs \<noteq> []"
  by (induction bs) auto

lemma split_slash_none: "slash \<notin> set bs \<Longrightarrow> split_slash bs = [bs]"
  by (induction bs) auto

lemma split_slash_append: "slash \<notin> set p \<Longrightarrow> split_slash (p @ slash # r) = p # split_slash r"
  by (induction p) auto

lemma split_slash_parts: "p \<in> set (split_slash bs) \<Longrightarrow> slash \<notin> set p"
proof (induction bs arbitrary: p)
  case (Cons b bs)
  have "hd (split_slash bs) \<in> set (split_slash bs)" "set (tl (split_slash bs)) \<subseteq> set (split_slash bs)"
    by (auto intro: list.set_sel(2))
  then show ?case using Cons by (auto split: if_splits)
qed simp

lemma position_split:
  assumes "position (\<lambda>b. b = slash) rem = Some i"
  shows "split_slash rem = take i rem # split_slash (drop (i + 1) rem)"
proof -
  have i: "i < length rem" "rem ! i = slash" "\<forall>j<i. rem ! j \<noteq> slash" using position_Some[OF assms] by auto
  then have "slash \<notin> set (take i rem)" by (auto simp: in_set_conv_nth)
  moreover have "rem = take i rem @ slash # drop (Suc i) rem" using i id_take_nth_drop by metis
  ultimately show ?thesis using split_slash_append[of "take i rem" "drop (Suc i) rem"] by simp
qed

lemma iter_parts_new: "iter_parts (new_iter p) = (if p = [] then [] else split_slash p)"
  by (auto simp: iter_parts_def new_iter_def iter_done_def remaining_def)

lemma iter_wf_new [simp]: "iter_wf (new_iter p)"
  by (simp add: iter_wf_def new_iter_def)

lemma iter_done_parts: "iter_done it \<longleftrightarrow> iter_parts it = []"
  by (simp add: iter_parts_def)

lemma next_part_refines:
  assumes "iter_wf it"
  shows "iter_wf (snd (next_part it)) \<and>
    (case iter_parts it of
       [] \<Rightarrow> next_part it = (None, it)
     | c # cs \<Rightarrow> fst (next_part it) = Some c \<and> iter_parts (snd (next_part it)) = cs)"
proof (cases "iter_done it")
  case True
  then show ?thesis using assms by (simp add: iter_parts_def next_part_def)
next
  case False
  have n: "\<not> length (raw it) < consumed_len it" and len: "length (remaining it) = length (raw it) - consumed_len it"
    using assms by (auto simp: iter_wf_def remaining_def)
  show ?thesis
  proof (cases "position (\<lambda>b. b = slash) (remaining it)")
    case None
    then have "slash \<notin> set (remaining it)" by (auto simp: position_None)
    then have "split_slash (remaining it) = [remaining it]" by (rule split_slash_none)
    then show ?thesis
      using None False n assms by (simp add: next_part_def iter_parts_def iter_wf_def iter_done_def)
  next
    case (Some i)
    then have i: "i < length (remaining it)" using position_Some by blast
    have "split_slash (remaining it) = take i (remaining it) # split_slash (drop (i + 1) (remaining it))"
      using position_split[OF Some] .
    then show ?thesis
      using Some False n i len assms
      by (auto simp: next_part_def iter_parts_def iter_wf_def iter_done_def remaining_def add.commute)
  qed
qed

lemma remaining_components_parts: "iter_wf it \<Longrightarrow> remaining_components it = iter_parts it"
proof (induction it rule: remaining_components.induct)
  case (1 it)
  note r = next_part_refines[OF 1(2)]
  show ?case
  proof (cases "iter_parts it")
    case Nil
    then show ?thesis using r by (subst remaining_components.simps) simp
  next
    case (Cons c cs)
    then obtain it' where "next_part it = (Some c, it')" "iter_parts it' = cs" "iter_wf it'"
      using r by (cases "next_part it") auto
    then show ?thesis using 1(1)[of "Some c" it' c] Cons by (subst remaining_components.simps) simp
  qed
qed

section \<open>Joining and splitting\<close>

fun join_ref :: "bytes list \<Rightarrow> bytes" where
  "join_ref [] = []"
| "join_ref [p] = p"
| "join_ref (p # q # ps) = p @ slash # join_ref (q # ps)"

lemma join_fold_pos:
  "0 < n \<Longrightarrow> fold (\<lambda>(i, part) out. (if i > 0 then out @ [slash] else out) @ part) (enumerate n parts) out =
    out @ concat (map (\<lambda>p. slash # p) parts)"
  by (induction parts arbitrary: n out) auto

lemma join_ref_concat: "join_ref (p # ps) = p @ concat (map (\<lambda>p. slash # p) ps)"
  by (induction ps arbitrary: p) auto

lemma join_components_ref: "join_components parts = join_ref parts"
proof (cases parts)
  case (Cons p ps)
  then show ?thesis by (simp add: join_components_def join_fold_pos join_ref_concat del: join_ref.simps)
qed (simp add: join_components_def)

lemma join_ref_split: "join_ref (split_slash bs) = bs"
proof (induction bs)
  case (Cons b bs)
  obtain p ps where "split_slash bs = p # ps" by (cases "split_slash bs") auto
  then show ?case using Cons by (simp add: join_ref_concat del: join_ref.simps)
qed simp

lemma split_join_ref: "ps \<noteq> [] \<Longrightarrow> (\<And>p. p \<in> set ps \<Longrightarrow> slash \<notin> set p) \<Longrightarrow> split_slash (join_ref ps) = ps"
  by (induction ps rule: join_ref.induct) (auto simp: split_slash_none split_slash_append)

lemma join_ref_Nil_iff: "join_ref ps = [] \<longleftrightarrow> ps = [] \<or> ps = [[]]"
  by (cases ps rule: join_ref.cases) auto

lemma join_ref_append: "ps \<noteq> [] \<Longrightarrow> qs \<noteq> [] \<Longrightarrow> join_ref (ps @ qs) = join_ref ps @ slash # join_ref qs"
  by (cases ps; cases qs) (simp_all add: join_ref_concat del: join_ref.simps)

lemma parts_of_join:
  assumes "ps \<noteq> [[]]" and "\<And>p. p \<in> set ps \<Longrightarrow> slash \<notin> set p"
  shows "iter_parts (new_iter (join_components ps)) = ps"
  using assms split_join_ref[of ps]
  by (auto simp: iter_parts_new join_components_ref join_ref_Nil_iff)

lemma join_of_parts: "join_components (iter_parts (new_iter p)) = p"
  by (simp add: iter_parts_new join_components_ref join_ref_split)

text \<open>
  The component iterator refines the list of components that splitting at every slash gives.  On an
  iterator in range, \<open>next_part\<close> returns the first component of that list and leaves an iterator in
  range for the others, it ends exactly when the list is empty, and collecting it yields the whole list;
  joining the components of a path gives the path back.
\<close>

theorem path_iterator_refines:
  assumes "iter_wf it"
  shows "iter_wf (snd (next_part it)) \<and>
    (case iter_parts it of
       [] \<Rightarrow> iter_done it \<and> next_part it = (None, it)
     | c # cs \<Rightarrow> \<not> iter_done it \<and> fst (next_part it) = Some c \<and> iter_parts (snd (next_part it)) = cs) \<and>
    remaining_components it = iter_parts it \<and>
    iter_parts (new_iter p) = (if p = [] then [] else split_slash p) \<and>
    join_components (remaining_components (new_iter p)) = p"
  using next_part_refines[OF assms] remaining_components_parts[OF assms] iter_done_parts[of it]
    iter_parts_new[of p] join_of_parts[of p] remaining_components_parts[OF iter_wf_new, of p]
  by (auto split: list.splits)

theorem path_iterator_refines_witness:
  "fst (next_part (new_iter (bstr ''a//b/''))) = Some (bstr ''a'') \<and>
   remaining_components (new_iter (bstr ''a//b/'')) = [bstr ''a'', [], bstr ''b'', []]"
  using path_iterator_refines[of "new_iter (bstr ''a//b/'')" "[]"] by (simp add: iter_parts_new bstr_def)

section \<open>The escaping is a bijection\<close>

lemma escape_one_cases:
  obtains "escape_one b = [b]" "\<not> is_escape_byte b" "\<not> is_disallowed_byte b"
  | e c where "escape_one b = [e, c]" "is_escape_byte e" "c = 1 \<or> c = 2" "decode_loop [e, c] = [b]"
proof (cases "b \<in> {0x2e, 0x2f, 0xfe, 0xff, 0, 1}")
  case True
  then show ?thesis by (intro that(2)[of "hd (escape_one b)" "escape_one b ! 1"]) (auto simp: escape_one_def is_escape_byte_def)
next
  case False
  then show ?thesis by (intro that(1)) (auto simp: escape_one_def is_escape_byte_def is_disallowed_byte_def)
qed

lemma decode_loop_escaped: "is_escape_byte e \<Longrightarrow> decode_loop (e # c # r) = decode_loop [e, c] @ decode_loop r"
  by (auto simp: is_escape_byte_def)

lemma plain_step:
  "\<not> is_escape_byte b \<Longrightarrow> decode_loop (b # r) = b # decode_loop r"
  "\<not> is_escape_byte b \<Longrightarrow> \<not> is_disallowed_byte b \<Longrightarrow> validate_loop (b # r) = validate_loop r"
  by (cases r; simp add: is_escape_byte_def)+

lemma loops_escape_one:
  "validate_loop (escape_one b @ r) = validate_loop r"
  "decode_loop (escape_one b @ r) = b # decode_loop r"
proof -
  have "validate_loop (escape_one b @ r) = validate_loop r \<and> decode_loop (escape_one b @ r) = b # decode_loop r"
  proof (rule escape_one_cases[of b])
    fix e c
    assume a: "escape_one b = [e, c]" "is_escape_byte e" "c = 1 \<or> c = 2" "decode_loop [e, c] = [b]"
    then show ?thesis using decode_loop_escaped[of e c r] by (simp del: decode_loop.simps)
  qed (simp add: plain_step)
  then show "validate_loop (escape_one b @ r) = validate_loop r"
    "decode_loop (escape_one b @ r) = b # decode_loop r" by auto
qed

lemma loops_escape:
  "validate_loop (concat (map escape_one s)) = Inr ()" "decode_loop (concat (map escape_one s)) = s"
  by (induction s) (simp_all add: loops_escape_one)

lemma escape_one_nonempty [simp]: "escape_one b \<noteq> []"
  by (simp add: escape_one_def)

lemma decode_encode_segment: "decode_segment (encode_segment s) = Inr s"
proof (cases s)
  case (Cons b r)
  then have "concat (map escape_one s) \<noteq> []" by simp
  then show ?thesis using Cons loops_escape[of s] by (simp add: decode_segment_def encode_segment_def)
qed (simp add: decode_segment_def encode_segment_def)

interpretation segment: codec encode_segment decode_segment "\<lambda>_. True"
  by unfold_locales (simp add: decode_encode_segment)

lemma escape_decoded:
  "is_escape_byte e \<Longrightarrow> c = 1 \<or> c = 2 \<Longrightarrow> concat (map escape_one (decode_loop [e, c])) = [e, c]"
  by (auto simp: is_escape_byte_def escape_one_def)

lemma escape_plain: "\<not> is_escape_byte b \<Longrightarrow> \<not> is_disallowed_byte b \<Longrightarrow> escape_one b = [b]"
  by (auto simp: is_escape_byte_def is_disallowed_byte_def escape_one_def)

lemma encode_decode_loop: "validate_loop s = Inr () \<Longrightarrow> concat (map escape_one (decode_loop s)) = s"
proof (induction s rule: validate_loop.induct)
  case (3 b c rest)
  show ?case
  proof (cases "is_escape_byte b")
    case True
    then show ?thesis
      using 3 escape_decoded[of b c] decode_loop_escaped[of b c rest] by (auto simp del: decode_loop.simps split: if_splits)
  next
    case False
    then show ?thesis using 3 plain_step(1)[of b "c # rest"] by (auto simp: escape_plain simp del: decode_loop.simps split: if_splits)
  qed
qed (auto simp: escape_plain split: if_splits)

lemma decode_loop_Nil_iff: "decode_loop s = [] \<longleftrightarrow> s = []"
  by (cases s rule: decode_loop.cases) auto

lemma encode_decode_segment:
  assumes "decode_segment s = Inr x"
  shows "encode_segment x = s"
proof (cases s)
  case (Cons b rest)
  show ?thesis
  proof (cases "rest = []")
    case False
    then have "b = 2" "validate_loop rest = Inr ()" "x = decode_loop rest"
      using assms Cons by (auto simp: decode_segment_def result_simps split: if_splits)
    then show ?thesis using Cons False encode_decode_loop by (simp add: encode_segment_def decode_loop_Nil_iff)
  qed (use assms Cons in \<open>auto simp: decode_segment_def encode_segment_def split: if_splits\<close>)
qed (use assms in \<open>simp add: decode_segment_def\<close>)

lemma encode_segment_bytes: "b \<in> set (encode_segment s) \<Longrightarrow> b \<noteq> 0 \<and> b \<noteq> 0xff \<and> b \<noteq> slash"
  by (auto simp: encode_segment_def escape_one_def split: if_splits)

lemma encode_segment_nonempty [simp]: "encode_segment s \<noteq> []"
  by (simp add: encode_segment_def)

text \<open>
  The escaping of path components is a bijection onto the segments the decoder accepts: a segment
  decodes to \<open>x\<close> exactly if it is the encoding of \<open>x\<close> (so no two segments name the same component),
  every rejection is the same error, and an encoded component is not empty and contains none of the
  bytes 0, 255 and the separator.
\<close>

theorem segment_code_bijective:
  "(decode_segment s = Inr x \<longleftrightarrow> s = encode_segment x) \<and>
   (case decode_segment s of Inl e \<Rightarrow> e = DecryptionFailed | Inr y \<Rightarrow> s = encode_segment y) \<and>
   encode_segment x \<noteq> [] \<and> set (encode_segment x) \<inter> {0, 0xff, slash} = {}"
proof -
  have "validate_loop r = Inl e \<Longrightarrow> e = DecryptionFailed" for r e
    by (induction r rule: validate_loop.induct) (auto split: if_splits)
  then have err: "decode_segment s = Inl e \<Longrightarrow> e = DecryptionFailed" for e
    by (cases s) (auto simp: decode_segment_def result_simps split: if_splits)
  have iff: "decode_segment s = Inr y \<longleftrightarrow> s = encode_segment y" for y
    using encode_decode_segment[of s y] segment.dec_enc[of y] by blast
  have "case decode_segment s of Inl e \<Rightarrow> e = DecryptionFailed | Inr y \<Rightarrow> s = encode_segment y"
    by (cases "decode_segment s") (auto dest: err encode_decode_segment)
  moreover have "set (encode_segment x) \<inter> {0, 0xff, slash} = {}" using encode_segment_bytes[of _ x] by blast
  ultimately show ?thesis using iff by simp
qed

section \<open>Decryption undoes encryption\<close>

definition path_suite :: "CipherSuite \<Rightarrow> bool" where
  "path_suite cipher \<longleftrightarrow> cipher \<in> {NULL, AES_GCM, SECRET_BOX}"

lemma nonce_from_prefix_take:
  assumes "length p \<le> 24" and "n = length p"
  shows "take n (nonce_from_prefix p) = p" "length (nonce_from_prefix p) = 24"
  using assms by (simp_all add: nonce_from_prefix_def put_slice_def ZERO_NONCE_def)

lemma decrypt_encrypt_component:
  assumes cr: "crypto_ok cr" and s: "path_suite cipher" and e: "encrypt_path_component cr part cipher key = Inr e"
  shows "decrypt_path_component cr e cipher key = Inr part"
proof (cases "cipher = NULL")
  case True
  then show ?thesis using e by (auto simp: encrypt_path_component_def decrypt_path_component_def)
next
  case False
  let ?nonce = "derive_nonce cr (derive_path_component cr key part)" and ?n = "nonce_size cipher"
  have len: "length ?nonce = 24" using length_truncate_key[OF cr] by simp
  have n: "?n \<le> 24" by (simp add: nonce_size_def AES_GCM_NONCE_SIZE_def NONCE_SIZE_def)
  have b: "cipher \<noteq> NULL_BASE64_URL" using s by (auto simp: path_suite_def)
  obtain ct where ct: "encrypt cr part cipher key ?nonce = Inr ct" "e = encode_segment (take ?n ?nonce @ ct)"
    using e False b by (auto simp: encrypt_path_component_def result_simps)
  have p: "take ?n (nonce_from_prefix (take ?n ?nonce)) = take ?n ?nonce" "length (nonce_from_prefix (take ?n ?nonce)) = 24"
    using nonce_from_prefix_take[of "take ?n ?nonce" ?n] n len by simp_all
  have "decrypt cr ct cipher key (nonce_from_prefix (take ?n ?nonce)) = Inr part"
    by (rule encrypt_decrypt[OF cr ct(1)])
       (use p in \<open>auto simp: nonce_size_def AES_GCM_NONCE_SIZE_def NONCE_SIZE_def\<close>)
  then show ?thesis
    using ct(2) n len False b by (simp add: decrypt_path_component_def decode_encode_segment)
qed

lemma encrypted_component_bytes:
  assumes "path_suite cipher" and "encrypt_path_component cr part cipher key = Inr e" and "slash \<notin> set part"
  shows "slash \<notin> set e" "cipher \<noteq> NULL \<Longrightarrow> e \<noteq> []" "cipher = NULL \<Longrightarrow> e = part"
  using assms encode_segment_bytes
  by (auto simp: path_suite_def encrypt_path_component_def result_simps split: if_splits)

lemma decrypt_encrypt_parts:
  "crypto_ok cr \<Longrightarrow> path_suite cipher \<Longrightarrow> encrypt_parts cr cipher key parts = Inr es \<Longrightarrow>
   decrypt_parts cr cipher key es = Inr parts"
  by (induction parts arbitrary: key es) (auto simp: result_simps dest: decrypt_encrypt_component)

lemma encrypt_parts_bytes:
  assumes "path_suite cipher" and "encrypt_parts cr cipher key parts = Inr es"
    and "\<And>p. p \<in> set parts \<Longrightarrow> slash \<notin> set p"
  shows "length es = length parts" "\<And>e. e \<in> set es \<Longrightarrow> slash \<notin> set e" "es = [[]] \<Longrightarrow> parts = [[]]"
proof -
  have "length es = length parts \<and> (\<forall>e \<in> set es. slash \<notin> set e) \<and> (es = [[]] \<longrightarrow> parts = [[]])"
    using assms(2,3)
  proof (induction parts arbitrary: key es)
    case (Cons p ps)
    then obtain e es' where e: "encrypt_path_component cr p cipher key = Inr e" "es = e # es'"
      and r: "encrypt_parts cr cipher (derive_path_component cr key p) ps = Inr es'"
      by (auto simp: result_simps)
    have "length es' = length ps \<and> (\<forall>e \<in> set es'. slash \<notin> set e)" using Cons.IH[OF r] Cons.prems(2) by simp
    moreover have "slash \<notin> set p" using Cons.prems(2) by simp
    ultimately show ?case using e encrypted_component_bytes[OF assms(1) e(1)] by auto
  qed simp
  then show "length es = length parts" "\<And>e. e \<in> set es \<Longrightarrow> slash \<notin> set e" "es = [[]] \<Longrightarrow> parts = [[]]" by auto
qed

lemma iter_parts_no_slash: "p \<in> set (iter_parts it) \<Longrightarrow> slash \<notin> set p"
  by (auto simp: iter_parts_def dest: split_slash_parts split: if_splits)

lemma decrypt_encrypt_iterator:
  assumes "crypto_ok cr" and "path_suite cipher" and "iter_wf it" and "encrypt_iterator cr it cipher key = Inr e"
  shows "decrypt_iterator cr (new_iter e) cipher key = Inr (join_components (remaining_components it))"
proof -
  obtain es where es: "encrypt_parts cr cipher key (iter_parts it) = Inr es" "e = join_components es"
    using assms(3,4) by (auto simp: encrypt_iterator_def remaining_components_parts result_simps)
  note b = encrypt_parts_bytes[OF assms(2) es(1) iter_parts_no_slash]
  show ?thesis
  proof (cases "es = [[]]")
    case True
    then have "e = []" "iter_parts it = [[]]" using es b by (auto simp: join_components_ref)
    then show ?thesis
      using assms(3) by (simp add: decrypt_iterator_def remaining_components_parts iter_parts_new join_components_ref)
  next
    case False
    then have "remaining_components (new_iter e) = es"
      using parts_of_join[of es] es(2) b(2) by (simp add: remaining_components_parts)
    then show ?thesis
      using decrypt_encrypt_parts[OF assms(1,2) es(1)] assms(3)
      by (simp add: decrypt_iterator_def remaining_components_parts)
  qed
qed

end
