(* ===== verification/Enc_Store.thy ===== *)
theory Enc_Store
  imports Path_Components "HOL-Library.AList"
begin

text \<open>
  The encryption store of \<open>crates/storj-encryption/src/store.rs\<close>: per bucket a trie that relates the
  components of unencrypted and encrypted paths, with a key (a \<open>Base\<close>) at some of its nodes, and an
  optional default key.  A \<open>HashMap\<close> is an association list with distinct keys, whose order stands for
  the order in which the map is iterated.  \<open>&mut self\<close> operations return the changed node also when they
  fail, so that what a failed \<open>add\<close> leaves behind is visible.

  The trie refines a finite map from component lists to bases (\<open>entry\<close>): \<open>add\<close> is an update of it, both
  lookups find the entry at the longest matching prefix, and iteration visits its range.
\<close>

section \<open>The code\<close>

record Base =
  unencrypted :: bytes
  encrypted :: bytes
  base_key :: Key
  path_cipher :: CipherSuite
  is_default :: bool

record Lookup =
  revealed :: "(bytes \<times> bytes) list option"
  remaining_iter :: PathIter
  found_base :: "Base option"

datatype Node = Node (unenc: "(bytes \<times> Node) list") (unenc_map: "(bytes \<times> bytes) list")
  (enc_map: "(bytes \<times> bytes) list") (node_base: "Base option")

record Store =
  roots :: "(bytes \<times> Node) list"
  default_key :: "Key option"
  default_path_cipher :: CipherSuite
  encryption_bypass :: bool

definition default_node :: Node where
  "default_node = Node [] [] [] None"

definition new_store :: Store where
  "new_store = \<lparr>roots = [], default_key = None, default_path_cipher = UNSPECIFIED, encryption_bypass = False\<rparr>"

definition set_default_key :: "Store \<Rightarrow> Key \<Rightarrow> Store" where
  "set_default_key st k = st\<lparr>default_key := Some k\<rparr>"

definition set_default_path_cipher :: "Store \<Rightarrow> CipherSuite \<Rightarrow> Store" where
  "set_default_path_cipher st c = st\<lparr>default_path_cipher := c\<rparr>"

subsection \<open>Nodes\<close>

definition maps_to_other :: "(bytes \<times> bytes) list \<Rightarrow> bytes \<Rightarrow> bytes \<Rightarrow> bool" where
  "maps_to_other m k v = (case map_of m k of Some ex \<Rightarrow> ex \<noteq> v | None \<Rightarrow> False)"

text \<open>
  \<open>Node::add\<close>.  The last two branches of the outer \<open>case\<close> are the \<open>expect("not done")\<close> of the source,
  which cannot fire.
\<close>

function node_add :: "Node \<Rightarrow> PathIter \<Rightarrow> PathIter \<Rightarrow> Base \<Rightarrow> Node \<times> (ErrorKind + unit)" where
  "node_add node u e base =
    (if iter_done u \<noteq> iter_done e then (node, Inl Conflict)
     else if iter_done u then (Node (unenc node) (unenc_map node) (enc_map node) (Some base), Inr ())
     else case next_part u of
       (None, _) \<Rightarrow> (node, Inl Conflict)
     | (Some unenc_part, u') \<Rightarrow>
       (case next_part e of
          (None, _) \<Rightarrow> (node, Inl Conflict)
        | (Some enc_part, e') \<Rightarrow>
          if maps_to_other (enc_map node) enc_part unenc_part then (node, Inl Conflict)
          else if maps_to_other (unenc_map node) unenc_part enc_part then (node, Inl Conflict)
          else
            (case map_of (unenc node) unenc_part of
               Some child \<Rightarrow>
                 (case node_add child u' e' base of
                    (child', Inl er) \<Rightarrow>
                      (Node (AList.update unenc_part child' (unenc node)) (unenc_map node) (enc_map node) (node_base node), Inl er)
                  | (child', Inr _) \<Rightarrow>
                      (Node (AList.update unenc_part child' (unenc node)) (AList.update unenc_part enc_part (unenc_map node))
                         (AList.update enc_part unenc_part (enc_map node)) (node_base node), Inr ()))
             | None \<Rightarrow>
                 (case node_add default_node u' e' base of
                    (child', Inl er) \<Rightarrow> (node, Inl er)
                  | (child', Inr _) \<Rightarrow>
                      (Node (AList.update unenc_part child' (unenc node)) (AList.update unenc_part enc_part (unenc_map node))
                         (AList.update enc_part unenc_part (enc_map node)) (node_base node), Inr ())))))"
  by pat_completeness auto
termination
  by (relation "measure (\<lambda>(_, u, _, _). iter_measure u)") (auto intro: next_part_measure simp: eq_commute)

declare node_add.simps [simp del]

definition child_of :: "bool \<Rightarrow> Node \<Rightarrow> bytes \<Rightarrow> Node option" where
  "child_of by_unenc node part =
    (if by_unenc then map_of (unenc node) part
     else Option.bind (map_of (enc_map node) part) (map_of (unenc node)))"

function node_lookup :: "Node \<Rightarrow> PathIter \<Rightarrow> PathIter \<Rightarrow> Base option \<Rightarrow> bool \<Rightarrow> Lookup" where
  "node_lookup node it best_remaining best_base by_unenc =
    (let take_it = node_base node \<noteq> None \<or> best_base = None;
         best_remaining = (if take_it then it else best_remaining);
         best_base = (if take_it then node_base node else best_base)
     in if iter_done it then
          \<lparr>revealed = Some (if by_unenc then enc_map node else unenc_map node),
           remaining_iter = best_remaining, found_base = best_base\<rparr>
        else case next_part it of
          (None, _) \<Rightarrow> \<lparr>revealed = None, remaining_iter = best_remaining, found_base = best_base\<rparr>
        | (Some part, it') \<Rightarrow>
          (case child_of by_unenc node part of
             None \<Rightarrow> \<lparr>revealed = None, remaining_iter = best_remaining, found_base = best_base\<rparr>
           | Some child \<Rightarrow> node_lookup child it' best_remaining best_base by_unenc))"
  by pat_completeness auto
termination
  by (relation "measure (\<lambda>(_, it, _). iter_measure it)") (auto intro: next_part_measure simp: eq_commute)

declare node_lookup.simps [simp del]

text \<open>The bases in the order in which \<open>Node::iterate_with_cipher\<close> visits them.\<close>

fun visited :: "Node \<Rightarrow> Base list" where
  "visited (Node us um em b) = (case b of Some x \<Rightarrow> [x] | None \<Rightarrow> []) @ concat (map (\<lambda>(_, child). visited child) us)"

subsection \<open>The store\<close>

definition add_with_cipher :: "Store \<Rightarrow> bytes \<Rightarrow> bytes \<Rightarrow> bytes \<Rightarrow> Key \<Rightarrow> CipherSuite \<Rightarrow> Store \<times> (ErrorKind + unit)" where
  "add_with_cipher st bucket u e k cipher =
    (let root = (case map_of (roots st) bucket of Some n \<Rightarrow> n | None \<Rightarrow> default_node);
         base = \<lparr>unencrypted = u, encrypted = e, base_key = k, path_cipher = cipher, is_default = False\<rparr>
     in case node_add root (new_iter u) (new_iter e) base of
          (_, Inl er) \<Rightarrow> (st, Inl er)
        | (root', Inr _) \<Rightarrow> (st\<lparr>roots := AList.update bucket root' (roots st)\<rparr>, Inr ()))"

definition add :: "Store \<Rightarrow> bytes \<Rightarrow> bytes \<Rightarrow> bytes \<Rightarrow> Key \<Rightarrow> Store \<times> (ErrorKind + unit)" where
  "add st bucket u e k = add_with_cipher st bucket u e k (default_path_cipher st)"

definition default_base :: "Store \<Rightarrow> Key \<Rightarrow> Base" where
  "default_base st k = \<lparr>unencrypted = [], encrypted = [], base_key = k, path_cipher = default_path_cipher st, is_default = True\<rparr>"

definition apply_bypass :: "Store \<Rightarrow> Lookup \<Rightarrow> Lookup" where
  "apply_bypass st lk =
    (if encryption_bypass st
     then lk\<lparr>found_base := map_option (\<lambda>b. b\<lparr>path_cipher := NULL_BASE64_URL\<rparr>) (found_base lk)\<rparr> else lk)"

definition lookup :: "Store \<Rightarrow> bytes \<Rightarrow> bytes \<Rightarrow> bool \<Rightarrow> Lookup" where
  "lookup st bucket path by_unenc =
    (let walked = (case map_of (roots st) bucket of
            Some root \<Rightarrow> node_lookup root (new_iter path) (new_iter []) None by_unenc
          | None \<Rightarrow> \<lparr>revealed = None, remaining_iter = new_iter [], found_base = None\<rparr>)
     in case (found_base walked, default_key st) of
          (None, Some k) \<Rightarrow>
            apply_bypass st \<lparr>revealed = None, remaining_iter = new_iter path, found_base = Some (default_base st k)\<rparr>
        | _ \<Rightarrow> apply_bypass st walked)"

definition lookup_unencrypted :: "Store \<Rightarrow> bytes \<Rightarrow> bytes \<Rightarrow> Lookup" where
  "lookup_unencrypted st bucket path = lookup st bucket path True"

definition lookup_encrypted :: "Store \<Rightarrow> bytes \<Rightarrow> bytes \<Rightarrow> Lookup" where
  "lookup_encrypted st bucket path = lookup st bucket path False"

definition iterate_with_cipher ::
  "Store \<Rightarrow> (bytes \<Rightarrow> bytes \<Rightarrow> bytes \<Rightarrow> Key \<Rightarrow> CipherSuite \<Rightarrow> 's \<Rightarrow> ErrorKind + 's) \<Rightarrow> 's \<Rightarrow> ErrorKind + 's" where
  "iterate_with_cipher st f s =
    fold_result (\<lambda>(bucket, root).
      fold_result (\<lambda>b. f bucket (unencrypted b) (encrypted b) (base_key b) (path_cipher b)) (visited root))
      (roots st) s"

section \<open>The operations on lists of components\<close>

text \<open>\<open>node_add\<close> and \<open>node_lookup\<close> with the iterators replaced by the lists they refine.\<close>

definition grow :: "Node \<Rightarrow> bytes \<Rightarrow> bytes \<Rightarrow> Node \<Rightarrow> Node" where
  "grow node p q child = Node (AList.update p child (unenc node)) (AList.update p q (unenc_map node))
     (AList.update q p (enc_map node)) (node_base node)"

fun add_parts :: "Node \<Rightarrow> bytes list \<Rightarrow> bytes list \<Rightarrow> Base \<Rightarrow> Node option" where
  "add_parts node [] [] base = Some (Node (unenc node) (unenc_map node) (enc_map node) (Some base))"
| "add_parts node (p # ps) (q # qs) base =
    (if maps_to_other (enc_map node) q p \<or> maps_to_other (unenc_map node) p q then None
     else map_option (grow node p q) (add_parts (case map_of (unenc node) p of Some c \<Rightarrow> c | None \<Rightarrow> default_node) ps qs base))"
| "add_parts node _ _ base = None"

fun deepest :: "bool \<Rightarrow> Node \<Rightarrow> bytes list \<Rightarrow> (Base \<times> bytes list) option" where
  "deepest d node [] = map_option (\<lambda>b. (b, [])) (node_base node)"
| "deepest d node (p # ps) =
    (case Option.bind (child_of d node p) (\<lambda>child. deepest d child ps) of
       Some x \<Rightarrow> Some x
     | None \<Rightarrow> map_option (\<lambda>b. (b, p # ps)) (node_base node))"

lemma update_same: "map_of m k = Some v \<Longrightarrow> AList.update k v m = m"
  by (induction m) auto

lemma node_eta [simp]: "Node (unenc n) (unenc_map n) (enc_map n) (node_base n) = n"
  by (cases n) simp

lemma next_part_cases:
  assumes "iter_wf it"
  obtains "iter_done it" "iter_parts it = []"
  | c it' where "\<not> iter_done it" "next_part it = (Some c, it')" "iter_parts it = c # iter_parts it'" "iter_wf it'"
  using next_part_refines[OF assms] iter_done_parts[of it]
  by (cases "iter_parts it"; cases "next_part it") auto

lemma node_add_parts:
  "iter_wf u \<Longrightarrow> iter_wf e \<Longrightarrow>
   node_add node u e base =
     (case add_parts node (iter_parts u) (iter_parts e) base of Some n \<Rightarrow> (n, Inr ()) | None \<Rightarrow> (node, Inl Conflict))"
proof (induction node u e base rule: node_add.induct)
  case (1 node u e base)
  show ?case
  proof (cases rule: next_part_cases[OF 1(3)])
    case u: 1
    show ?thesis
    proof (cases rule: next_part_cases[OF 1(4)])
      case 1
      then show ?thesis using u by (simp add: node_add.simps[of node u e])
    next
      case 2
      then show ?thesis using u by (simp add: node_add.simps[of node u e])
    qed
  next
    case u: (2 p u')
    show ?thesis
    proof (cases rule: next_part_cases[OF 1(4)])
      case 1
      then show ?thesis using u by (simp add: node_add.simps[of node u e])
    next
      case e: (2 q e')
      show ?thesis
      proof (cases "maps_to_other (enc_map node) q p \<or> maps_to_other (unenc_map node) p q")
        case True
        then show ?thesis using u e by (auto simp: node_add.simps[of node u e])
      next
        case False
        show ?thesis
        proof (cases "map_of (unenc node) p")
          case None
          have "node_add default_node u' e' base =
              (case add_parts default_node (iter_parts u') (iter_parts e') base of Some n \<Rightarrow> (n, Inr ()) | None \<Rightarrow> (default_node, Inl Conflict))"
            using 1(1)[of "Some p" u' p "Some q" e' q] u e False None by simp
          then show ?thesis
            using u e False None
            by (cases "add_parts default_node (iter_parts u') (iter_parts e') base") (simp_all add: node_add.simps[of node u e] grow_def)
        next
          case (Some c)
          have "node_add c u' e' base =
              (case add_parts c (iter_parts u') (iter_parts e') base of Some n \<Rightarrow> (n, Inr ()) | None \<Rightarrow> (c, Inl Conflict))"
            using 1(2)[of "Some p" u' p "Some q" e' q c] u e False Some by simp
          then show ?thesis
            using u e False Some
            by (cases "add_parts c (iter_parts u') (iter_parts e') base") (simp_all add: node_add.simps[of node u e] grow_def update_same)
        qed
      qed
    qed
  qed
qed

lemma node_lookup_deepest:
  assumes "iter_wf it"
  shows "case deepest d node (iter_parts it) of
      Some (b, r) \<Rightarrow> found_base (node_lookup node it br bb d) = Some b \<and> iter_wf (remaining_iter (node_lookup node it br bb d)) \<and>
        iter_parts (remaining_iter (node_lookup node it br bb d)) = r
    | None \<Rightarrow> found_base (node_lookup node it br bb d) = bb \<and>
        (bb \<noteq> None \<longrightarrow> remaining_iter (node_lookup node it br bb d) = br)"
  using assms
proof (induction node it br bb d rule: node_lookup.induct)
  case (1 node it br bb d)
  let ?bb = "if node_base node \<noteq> None \<or> bb = None then node_base node else bb"
  let ?br = "if node_base node \<noteq> None \<or> bb = None then it else br"
  show ?case
  proof (cases rule: next_part_cases[OF 1(2)])
    case 1
    then show ?thesis
      using \<open>iter_wf it\<close> by (cases "node_base node"; cases bb) (simp_all add: node_lookup.simps[of node it])
  next
    case it: (2 p it')
    show ?thesis
    proof (cases "child_of d node p")
      case None
      then show ?thesis
        using it 1(2) by (cases "node_base node"; cases bb) (simp_all add: node_lookup.simps[of node it])
    next
      case (Some c)
      have e: "node_lookup node it br bb d = node_lookup c it' ?br ?bb d"
        using it Some by (subst node_lookup.simps) simp
      have "case deepest d c (iter_parts it') of
          Some (b, r) \<Rightarrow> found_base (node_lookup c it' ?br ?bb d) = Some b \<and> iter_wf (remaining_iter (node_lookup c it' ?br ?bb d)) \<and>
            iter_parts (remaining_iter (node_lookup c it' ?br ?bb d)) = r
        | None \<Rightarrow> found_base (node_lookup c it' ?br ?bb d) = ?bb \<and>
            (?bb \<noteq> None \<longrightarrow> remaining_iter (node_lookup c it' ?br ?bb d) = ?br)"
        using 1(1)[OF refl refl refl it(1) it(2)[symmetric] refl Some it(4)] by simp
      then show ?thesis
        unfolding e using it Some 1(2)
        by (cases "deepest d c (iter_parts it')"; cases "node_base node"; cases bb) (auto split: prod.splits)
    qed
  qed
qed

section \<open>The trie as a map from component lists to bases\<close>

fun node_at :: "Node \<Rightarrow> bytes list \<Rightarrow> Node option" where
  "node_at node [] = Some node"
| "node_at node (p # ps) = Option.bind (map_of (unenc node) p) (\<lambda>child. node_at child ps)"

definition entry :: "Node \<Rightarrow> bytes list \<Rightarrow> Base option" where
  "entry node ps = Option.bind (node_at node ps) node_base"

text \<open>The encrypted components recorded along a list of unencrypted ones.\<close>

fun enc_parts :: "Node \<Rightarrow> bytes list \<Rightarrow> bytes list option" where
  "enc_parts node [] = Some []"
| "enc_parts node (p # ps) =
    (case (map_of (unenc_map node) p, map_of (unenc node) p) of
       (Some q, Some child) \<Rightarrow> map_option ((#) q) (enc_parts child ps)
     | _ \<Rightarrow> None)"

text \<open>
  Invariant of a node: the two component maps are inverse to each other, they record exactly the
  components that have a child, and keys are distinct; the same for every child.
\<close>

fun node_wf :: "Node \<Rightarrow> bool" where
  "node_wf (Node us um em b) \<longleftrightarrow>
    (\<forall>p q. map_of um p = Some q \<longleftrightarrow> map_of em q = Some p) \<and> dom (map_of um) = dom (map_of us) \<and>
    distinct (map fst us) \<and> (\<forall>c \<in> set us. node_wf (snd c))"

lemma node_wf_sel:
  "node_wf n \<longleftrightarrow> (\<forall>p q. map_of (unenc_map n) p = Some q \<longleftrightarrow> map_of (enc_map n) q = Some p) \<and>
    dom (map_of (unenc_map n)) = dom (map_of (unenc n)) \<and> distinct (map fst (unenc n)) \<and> (\<forall>c \<in> set (unenc n). node_wf (snd c))"
  by (cases n) simp

declare node_wf.simps [simp del]

lemma node_wf_child:
  assumes "node_wf n" and "map_of (unenc n) p = Some c"
  shows "node_wf c"
proof -
  have "\<forall>x \<in> set (unenc n). node_wf (snd x)" using assms(1) node_wf_sel[of n] by blast
  then show ?thesis using map_of_SomeD[OF assms(2)] by auto
qed

lemma node_wf_default [simp]: "node_wf default_node"
  by (simp add: default_node_def node_wf.simps)

lemma entry_Nil [simp]: "entry n [] = node_base n"
  by (simp add: entry_def)

lemma entry_Cons [simp]: "entry n (p # ps) = Option.bind (map_of (unenc n) p) (\<lambda>c. entry c ps)"
  by (cases "map_of (unenc n) p") (simp_all add: entry_def)

lemma default_node_sel [simp]: "unenc default_node = []" "node_base default_node = None"
  by (simp_all add: default_node_def)

lemma entry_default [simp]: "entry default_node ps = None"
  by (cases ps) simp_all

lemma set_update_snd: "c \<in> set (AList.update k v m) \<Longrightarrow> snd c = v \<or> c \<in> set m"
  by (induction m) (auto split: if_splits)

lemma update_conv_eq: "map_of (AList.update k v m) x = (if x = k then Some v else map_of m x)"
  by (simp add: update_conv')

lemma grow_simps [simp]:
  "node_base (grow n p q c) = node_base n" "map_of (unenc (grow n p q c)) x = (if x = p then Some c else map_of (unenc n) x)"
  "map_of (unenc_map (grow n p q c)) x = (if x = p then Some q else map_of (unenc_map n) x)"
  by (simp_all add: grow_def update_conv_eq)

lemma grow_wf:
  assumes "node_wf n" and "node_wf c" and "\<not> maps_to_other (enc_map n) q p" and "\<not> maps_to_other (unenc_map n) p q"
  shows "node_wf (grow n p q c)"
proof -
  note w = assms(1)[unfolded node_wf_sel[of n]]
  then have i: "map_of (unenc_map n) a = Some b \<longleftrightarrow> map_of (enc_map n) b = Some a" for a b by blast
  have "map_of (AList.update p q (unenc_map n)) x = Some y \<longleftrightarrow> map_of (AList.update q p (enc_map n)) y = Some x" for x y
    using i[of p y] i[of p q] i[of x q] i[of x y] assms(3,4)
    by (auto simp: update_conv_eq maps_to_other_def split: option.splits)
  moreover have "dom (map_of (AList.update p q (unenc_map n))) = dom (map_of (AList.update p c (unenc n)))"
    using w by (simp add: update_conv')
  moreover have "distinct (map fst (AList.update p c (unenc n)))"
    using w by (simp add: distinct_update)
  moreover have "\<forall>x \<in> set (AList.update p c (unenc n)). node_wf (snd x)"
    using w assms(2) by (auto dest: set_update_snd)
  ultimately show ?thesis unfolding grow_def node_wf.simps by blast
qed

lemma add_parts_wf: "node_wf n \<Longrightarrow> add_parts n us es base = Some n' \<Longrightarrow> node_wf n'"
proof (induction n us es base arbitrary: n' rule: add_parts.induct)
  case (1 node base)
  then show ?case by (auto simp: node_wf_sel[of node] node_wf.simps)
next
  case (2 node p ps q qs base)
  then obtain c where c: "add_parts (case map_of (unenc node) p of Some c \<Rightarrow> c | None \<Rightarrow> default_node) ps qs base = Some c"
    "n' = grow node p q c" "\<not> maps_to_other (enc_map node) q p" "\<not> maps_to_other (unenc_map node) p q"
    by (auto split: if_splits)
  have "node_wf (case map_of (unenc node) p of Some c \<Rightarrow> c | None \<Rightarrow> default_node)"
    using 2(2) by (auto split: option.splits intro: node_wf_child)
  then have "node_wf c" using 2(1) c by blast
  then show ?case using grow_wf[OF 2(2)] c by simp
qed auto

lemma add_parts_entry:
  "add_parts n us es base = Some n' \<Longrightarrow> entry n' = (entry n)(us \<mapsto> base)"
proof (induction n us es base arbitrary: n' rule: add_parts.induct)
  case (1 node base)
  show ?case
  proof
    fix ps
    show "entry n' ps = ((entry node)([] \<mapsto> base)) ps" using 1 by (cases ps) auto
  qed
next
  case (2 node p ps q qs base)
  then obtain c where c: "add_parts (case map_of (unenc node) p of Some c \<Rightarrow> c | None \<Rightarrow> default_node) ps qs base = Some c"
    "n' = grow node p q c" "\<not> (maps_to_other (enc_map node) q p \<or> maps_to_other (unenc_map node) p q)"
    by (auto split: if_splits)
  have IH: "entry c = (entry (case map_of (unenc node) p of Some c \<Rightarrow> c | None \<Rightarrow> default_node))(ps \<mapsto> base)"
    using 2(1)[OF c(3,1)] .
  show ?case
  proof
    fix xs
    show "entry n' xs = ((entry node)(p # ps \<mapsto> base)) xs"
      using c(2) IH by (cases xs) (auto split: option.splits)
  qed
qed auto

lemma enc_parts_grow:
  "enc_parts (grow n p q c) ps =
    (case ps of [] \<Rightarrow> Some [] | x # xs \<Rightarrow> if x = p then map_option ((#) q) (enc_parts c xs) else enc_parts n ps)"
  by (cases ps) auto

lemma add_parts_enc:
  assumes "add_parts n us es base = Some n'"
  shows "enc_parts n' us = Some es" "enc_parts n ps = Some qs \<Longrightarrow> enc_parts n' ps = Some qs"
  using assms
proof (induction n us es base arbitrary: n' ps qs rule: add_parts.induct)
  case (1 node base)
  { case 1 then show ?case by simp next
    case 2 then show ?case by (cases ps) (auto split: option.splits) }
next
  case (2 node p us q es base)
  let ?c = "case map_of (unenc node) p of Some c \<Rightarrow> c | None \<Rightarrow> default_node"
  { case 1 then show ?case using "2.IH"(1) by (auto simp: enc_parts_grow split: if_splits) next
    case e: 2
    then obtain c where c: "add_parts ?c us es base = Some c" "n' = grow node p q c"
      "\<not> (maps_to_other (enc_map node) q p \<or> maps_to_other (unenc_map node) p q)" by (auto split: if_splits)
    show ?case
    proof (cases ps)
      case Nil
      then show ?thesis using e c(2) by (simp add: enc_parts_grow)
    next
      case (Cons x xs)
      show ?thesis
      proof (cases "x = p")
        case True
        obtain ch zs where ch: "map_of (unenc node) p = Some ch" "enc_parts ch xs = Some zs" "qs = q # zs"
          using e(1) Cons True c(3) by (auto simp: maps_to_other_def split: option.splits)
        then have "enc_parts c xs = Some zs" using "2.IH"(2)[OF c(3) _ c(1)] by simp
        then show ?thesis using Cons True c(2) ch by (simp add: enc_parts_grow)
      qed (use e Cons c(2) in \<open>simp add: enc_parts_grow\<close>)
    qed }
qed auto

section \<open>Lookups find the longest matching prefix\<close>

text \<open>Walking down by unencrypted (\<open>True\<close>) or by encrypted (\<open>False\<close>) components.\<close>

fun walk :: "bool \<Rightarrow> Node \<Rightarrow> bytes list \<Rightarrow> Node option" where
  "walk d node [] = Some node"
| "walk d node (p # ps) = Option.bind (child_of d node p) (\<lambda>child. walk d child ps)"

definition entry_by :: "bool \<Rightarrow> Node \<Rightarrow> bytes list \<Rightarrow> Base option" where
  "entry_by d node ps = Option.bind (walk d node ps) node_base"

lemma entry_by_simps [simp]:
  "entry_by d n [] = node_base n" "entry_by d n (p # ps) = Option.bind (child_of d n p) (\<lambda>c. entry_by d c ps)"
  by (simp_all add: entry_by_def)

lemma walk_True: "walk True n ps = node_at n ps"
proof (induction n ps rule: node_at.induct)
  case (2 node p ps)
  then show ?case by (cases "map_of (unenc node) p") (simp_all add: child_of_def)
qed simp

lemma entry_by_True: "entry_by True n ps = entry n ps"
  by (simp add: entry_by_def entry_def walk_True)

lemma walk_enc: "node_wf n \<Longrightarrow> enc_parts n us = Some es \<Longrightarrow> walk False n es = node_at n us"
proof (induction n us arbitrary: es rule: enc_parts.induct)
  case (2 node p ps)
  then obtain q c zs where c: "map_of (unenc_map node) p = Some q" "map_of (unenc node) p = Some c"
    "enc_parts c ps = Some zs" "es = q # zs" by (auto split: option.splits)
  have "map_of (enc_map node) q = Some p" using 2(2) c(1) node_wf_sel[of node] by blast
  moreover have "walk False c zs = node_at c ps" using 2(1)[OF refl c(1,2) node_wf_child[OF 2(2) c(2)] c(3)] .
  ultimately show ?case using c by (simp add: child_of_def)
qed simp

lemma entry_by_enc: "node_wf n \<Longrightarrow> enc_parts n us = Some es \<Longrightarrow> entry_by False n es = entry n us"
  by (simp add: entry_by_def entry_def walk_enc)

text \<open>The longest prefix of \<open>ps\<close> at which \<open>m\<close> is defined, as \<open>us\<close> with the rest \<open>r\<close>.\<close>

definition longest_prefix :: "(bytes list \<Rightarrow> Base option) \<Rightarrow> bytes list \<Rightarrow> bytes list \<Rightarrow> bytes list \<Rightarrow> bool" where
  "longest_prefix m ps us r \<longleftrightarrow>
    ps = us @ r \<and> m us \<noteq> None \<and> (\<forall>us' r'. ps = us' @ r' \<longrightarrow> m us' \<noteq> None \<longrightarrow> length us' \<le> length us)"

definition no_prefix :: "(bytes list \<Rightarrow> Base option) \<Rightarrow> bytes list \<Rightarrow> bool" where
  "no_prefix m ps \<longleftrightarrow> (\<forall>us r. ps = us @ r \<longrightarrow> m us = None)"

lemma no_prefix_Cons: "no_prefix m (p # ps) \<longleftrightarrow> m [] = None \<and> no_prefix (\<lambda>us. m (p # us)) ps"
  by (auto simp: no_prefix_def Cons_eq_append_conv)

lemma longest_prefix_Cons:
  "longest_prefix (\<lambda>us. m (p # us)) ps us r \<Longrightarrow> longest_prefix m (p # ps) (p # us) r"
  by (auto simp: longest_prefix_def Cons_eq_append_conv)

lemma longest_prefix_Nil:
  "m [] \<noteq> None \<Longrightarrow> no_prefix (\<lambda>us. m (p # us)) ps \<Longrightarrow> longest_prefix m (p # ps) [] (p # ps)"
  by (auto simp: longest_prefix_def no_prefix_def Cons_eq_append_conv)

lemma longest_prefix_unique:
  assumes "longest_prefix m ps us r" and "longest_prefix m ps us' r'"
  shows "us' = us \<and> r' = r"
proof -
  note a = assms[unfolded longest_prefix_def]
  then have "length us \<le> length us'" "length us' \<le> length us" "us @ r = us' @ r'" by blast+
  then show ?thesis by simp
qed

lemma deepest_spec:
  "case deepest d n ps of
     Some (b, r) \<Rightarrow> \<exists>us. longest_prefix (entry_by d n) ps us r \<and> entry_by d n us = Some b
   | None \<Rightarrow> no_prefix (entry_by d n) ps"
proof (induction d n ps rule: deepest.induct)
  case (1 d node)
  then show ?case by (auto simp: longest_prefix_def no_prefix_def split: option.splits)
next
  case (2 d node p ps)
  show ?case
  proof (cases "child_of d node p")
    case None
    then have "no_prefix (\<lambda>us. entry_by d node (p # us)) ps" by (simp add: no_prefix_def)
    then show ?thesis
      using None longest_prefix_Nil[of "entry_by d node" p ps] by (auto simp: no_prefix_Cons split: option.splits)
  next
    case (Some c)
    then have e: "(\<lambda>us. entry_by d node (p # us)) = entry_by d c" by auto
    show ?thesis
    proof (cases "deepest d c ps")
      case None
      then have "no_prefix (\<lambda>us. entry_by d node (p # us)) ps" using 2[of c] Some e by simp
      then show ?thesis
        using None Some longest_prefix_Nil[of "entry_by d node" p ps] by (auto simp: no_prefix_Cons split: option.splits)
    next
      case x: (Some x)
      obtain b r where x': "x = (b, r)" by (cases x)
      then obtain us where "longest_prefix (\<lambda>us. entry_by d node (p # us)) ps us r" "entry_by d c us = Some b"
        using 2[of c] Some e x by auto
      then have "longest_prefix (entry_by d node) (p # ps) (p # us) r \<and> entry_by d node (p # us) = Some b"
        using longest_prefix_Cons[of "entry_by d node" p ps us r] Some by simp
      then show ?thesis using x x' Some by auto
    qed
  qed
qed

lemma deepest_longest:
  assumes "longest_prefix (entry_by d n) ps us r" and "entry_by d n us = Some b"
  shows "deepest d n ps = Some (b, r)"
proof (cases "deepest d n ps")
  case None
  then have "no_prefix (entry_by d n) ps" using deepest_spec[of d n ps] by simp
  then show ?thesis using assms by (auto simp: no_prefix_def longest_prefix_def)
next
  case (Some x)
  then obtain b' r' us' where "x = (b', r')" "longest_prefix (entry_by d n) ps us' r'" "entry_by d n us' = Some b'"
    using deepest_spec[of d n ps] by (cases x) auto
  then show ?thesis using longest_prefix_unique[OF assms(1)] assms(2) Some by auto
qed

lemma deepest_no_prefix: "no_prefix (entry_by d n) ps \<Longrightarrow> deepest d n ps = None"
  using deepest_spec[of d n ps] by (auto simp: no_prefix_def longest_prefix_def split: option.splits)

section \<open>The store\<close>

text \<open>Every base is filed under its own unencrypted path, along its own encrypted path.\<close>

definition bases_ok :: "Node \<Rightarrow> bool" where
  "bases_ok n \<longleftrightarrow> (\<forall>us b. entry n us = Some b \<longrightarrow>
     iter_parts (new_iter (unencrypted b)) = us \<and> enc_parts n us = Some (iter_parts (new_iter (encrypted b))) \<and> \<not> is_default b)"

definition store_wf :: "Store \<Rightarrow> bool" where
  "store_wf st \<longleftrightarrow> distinct (map fst (roots st)) \<and> (\<forall>r \<in> set (roots st). node_wf (snd r) \<and> bases_ok (snd r))"

definition entries :: "bool \<Rightarrow> Store \<Rightarrow> bytes \<Rightarrow> bytes list \<Rightarrow> Base option" where
  "entries d st bucket ps = Option.bind (map_of (roots st) bucket) (\<lambda>root. entry_by d root ps)"

definition bypassed :: "Store \<Rightarrow> Base \<Rightarrow> Base" where
  "bypassed st b = (if encryption_bypass st then b\<lparr>path_cipher := NULL_BASE64_URL\<rparr> else b)"

lemma apply_bypass_sel [simp]:
  "found_base (apply_bypass st lk) = map_option (bypassed st) (found_base lk)"
  "remaining_iter (apply_bypass st lk) = remaining_iter lk"
  by (cases "found_base lk"; simp add: apply_bypass_def bypassed_def)+

lemma bases_ok_add:
  assumes "bases_ok n" and "add_parts n us es base = Some n'"
    and "iter_parts (new_iter (unencrypted base)) = us" "iter_parts (new_iter (encrypted base)) = es" "\<not> is_default base"
  shows "bases_ok n'"
  unfolding bases_ok_def
proof (intro allI impI)
  fix ps b
  assume b: "entry n' ps = Some b"
  show "iter_parts (new_iter (unencrypted b)) = ps \<and> enc_parts n' ps = Some (iter_parts (new_iter (encrypted b))) \<and> \<not> is_default b"
  proof (cases "ps = us")
    case True
    then show ?thesis using b assms(3,4,5) add_parts_entry[OF assms(2)] add_parts_enc(1)[OF assms(2)] by auto
  next
    case False
    then have "entry n ps = Some b" using b add_parts_entry[OF assms(2)] by simp
    then show ?thesis using assms(1) add_parts_enc(2)[OF assms(2)] by (auto simp: bases_ok_def)
  qed
qed

lemma store_wf_root:
  assumes "store_wf st" and "map_of (roots st) bucket = Some root"
  shows "node_wf root \<and> bases_ok root"
  using assms map_of_SomeD[OF assms(2)] by (auto simp: store_wf_def)

lemma bases_ok_default [simp]: "bases_ok default_node"
  by (simp add: bases_ok_def)

text \<open>What \<open>add_with_cipher\<close> does, in terms of the trie of the bucket.\<close>

lemma add_with_cipher_eq:
  "add_with_cipher st bucket u e k cipher =
    (case add_parts (case map_of (roots st) bucket of Some n \<Rightarrow> n | None \<Rightarrow> default_node)
            (iter_parts (new_iter u)) (iter_parts (new_iter e))
            \<lparr>unencrypted = u, encrypted = e, base_key = k, path_cipher = cipher, is_default = False\<rparr> of
       None \<Rightarrow> (st, Inl Conflict)
     | Some root' \<Rightarrow> (st\<lparr>roots := AList.update bucket root' (roots st)\<rparr>, Inr ()))"
  by (simp add: add_with_cipher_def node_add_parts split: option.splits)

lemma store_wf_update:
  assumes "store_wf st" and "node_wf n" and "bases_ok n"
  shows "store_wf (st\<lparr>roots := AList.update bucket n (roots st)\<rparr>)"
  using assms by (auto simp: store_wf_def distinct_update dest: set_update_snd)

lemma add_with_cipher_spec:
  assumes "store_wf st"
  shows "case add_with_cipher st bucket u e k cipher of
      (st', Inl er) \<Rightarrow> er = Conflict \<and> st' = st
    | (st', Inr _) \<Rightarrow>
      (let base = \<lparr>unencrypted = u, encrypted = e, base_key = k, path_cipher = cipher, is_default = False\<rparr> in
       store_wf st' \<and> default_key st' = default_key st \<and> default_path_cipher st' = default_path_cipher st \<and>
       entries True st' = (entries True st)(bucket := (entries True st bucket)(iter_parts (new_iter u) \<mapsto> base)) \<and>
       entries False st' bucket (iter_parts (new_iter e)) = Some base)"
proof -
  let ?root = "case map_of (roots st) bucket of Some n \<Rightarrow> n | None \<Rightarrow> default_node"
  let ?base = "\<lparr>unencrypted = u, encrypted = e, base_key = k, path_cipher = cipher, is_default = False\<rparr>"
  let ?us = "iter_parts (new_iter u)" and ?es = "iter_parts (new_iter e)"
  have w: "node_wf ?root" "bases_ok ?root" using store_wf_root[OF assms] by (auto split: option.splits)
  have r: "entries True st bucket = entry ?root"
    by (auto simp: entries_def entry_by_True split: option.splits)
  show ?thesis
  proof (cases "add_parts ?root ?us ?es ?base")
    case None
    then show ?thesis by (simp add: add_with_cipher_eq)
  next
    case (Some n)
    let ?st = "st\<lparr>roots := AList.update bucket n (roots st)\<rparr>"
    have n: "node_wf n" "bases_ok n" "entry n = (entry ?root)(?us \<mapsto> ?base)" "enc_parts n ?us = Some ?es"
      using add_parts_wf[OF w(1) Some] bases_ok_add[OF w(2) Some] add_parts_entry[OF Some] add_parts_enc(1)[OF Some] by simp_all
    have "entries True ?st b = ((entries True st)(bucket := (entries True st bucket)(?us \<mapsto> ?base))) b" for b
    proof (cases "b = bucket")
      case True
      have "entries True ?st bucket = entry n" by (auto simp: entries_def update_conv_eq entry_by_True)
      then show ?thesis using True n(3) r by simp
    qed (auto simp: entries_def update_conv_eq)
    moreover have "entries False ?st bucket ?es = Some ?base"
      using entry_by_enc[OF n(1,4)] n(3) by (simp add: entries_def update_conv_eq)
    moreover have "store_wf ?st" using store_wf_update[OF assms n(1,2)] .
    ultimately show ?thesis using Some by (simp add: add_with_cipher_eq fun_eq_iff)
  qed
qed

text \<open>
  C37: \<open>Store::add_with_cipher\<close> refines the update of a finite map.  On a store that satisfies the
  invariant it either fails with \<open>Conflict\<close> and changes nothing, or it keeps the invariant and the new
  base is the entry at its bucket and unencrypted components, every other entry of every bucket is the
  same as before, the new base is also found by its encrypted components, and the default key is not
  touched.
\<close>

theorem store_add_refines:
  assumes "store_wf st"
  shows "case add_with_cipher st bucket u e k cipher of
      (st', Inl er) \<Rightarrow> er = Conflict \<and> st' = st
    | (st', Inr _) \<Rightarrow>
      (let base = \<lparr>unencrypted = u, encrypted = e, base_key = k, path_cipher = cipher, is_default = False\<rparr> in
       store_wf st' \<and> default_key st' = default_key st \<and> default_path_cipher st' = default_path_cipher st \<and>
       entries True st' = (entries True st)(bucket := (entries True st bucket)(iter_parts (new_iter u) \<mapsto> base)) \<and>
       entries False st' bucket (iter_parts (new_iter e)) = Some base)"
  by (rule add_with_cipher_spec[OF assms])

theorem store_add_refines_witness:
  "store_wf new_store \<and>
   entries False (fst (add_with_cipher new_store [1] (bstr ''a/b'') (bstr ''x/y'') [9] AES_GCM)) [1] [bstr ''x'', bstr ''y''] =
     Some \<lparr>unencrypted = bstr ''a/b'', encrypted = bstr ''x/y'', base_key = [9], path_cipher = AES_GCM, is_default = False\<rparr>"
proof -
  have w: "store_wf new_store" by (simp add: store_wf_def new_store_def)
  have "snd (add_with_cipher new_store [1] (bstr ''a/b'') (bstr ''x/y'') [9] AES_GCM) = Inr ()"
    by (simp add: add_with_cipher_eq new_store_def iter_parts_new bstr_def default_node_def maps_to_other_def)
  moreover have "iter_parts (new_iter (bstr ''x/y'')) = [bstr ''x'', bstr ''y'']" by (simp add: iter_parts_new bstr_def)
  ultimately show ?thesis
    using w store_add_refines[OF w, where bucket = "[1]" and u = "bstr ''a/b''" and e = "bstr ''x/y''" and k = "[9]" and cipher = AES_GCM]
    by (cases "add_with_cipher new_store [1] (bstr ''a/b'') (bstr ''x/y'') [9] AES_GCM") auto
qed

lemma lookup_prefix:
  assumes "longest_prefix (entries d st bucket) (iter_parts (new_iter path)) us r"
  shows "found_base (lookup st bucket path d) = map_option (bypassed st) (entries d st bucket us)"
    "iter_wf (remaining_iter (lookup st bucket path d))" "iter_parts (remaining_iter (lookup st bucket path d)) = r"
proof -
  obtain root where root: "map_of (roots st) bucket = Some root"
    using assms by (cases "map_of (roots st) bucket") (auto simp: longest_prefix_def entries_def)
  then have e: "entries d st bucket = entry_by d root" by (auto simp: entries_def)
  let ?lk = "node_lookup root (new_iter path) (new_iter []) None d"
  obtain b where b: "entry_by d root us = Some b" using assms e by (auto simp: longest_prefix_def)
  have "deepest d root (iter_parts (new_iter path)) = Some (b, r)" using deepest_longest[OF _ b] assms e by simp
  then have "found_base ?lk = Some b" "iter_wf (remaining_iter ?lk)" "iter_parts (remaining_iter ?lk) = r"
    using node_lookup_deepest[OF iter_wf_new[of path], where d = d and node = root and br = "new_iter []" and bb = None] by simp_all
  then show "found_base (lookup st bucket path d) = map_option (bypassed st) (entries d st bucket us)"
    "iter_wf (remaining_iter (lookup st bucket path d))" "iter_parts (remaining_iter (lookup st bucket path d)) = r"
    using root b e by (simp_all add: lookup_def)
qed

lemma lookup_default:
  assumes "no_prefix (entries d st bucket) (iter_parts (new_iter path))"
  shows "found_base (lookup st bucket path d) = map_option (\<lambda>k. bypassed st (default_base st k)) (default_key st)"
    "default_key st \<noteq> None \<Longrightarrow> remaining_iter (lookup st bucket path d) = new_iter path"
proof -
  have "found_base (case map_of (roots st) bucket of
            Some root \<Rightarrow> node_lookup root (new_iter path) (new_iter []) None d
          | None \<Rightarrow> \<lparr>revealed = None, remaining_iter = new_iter [], found_base = None\<rparr>) = None"
  proof (cases "map_of (roots st) bucket")
    case (Some root)
    then have "entries d st bucket = entry_by d root" by (auto simp: entries_def)
    then show ?thesis
      using Some node_lookup_deepest[OF iter_wf_new[of path], where d = d and node = root and br = "new_iter []" and bb = None]
        deepest_no_prefix[of d root] assms by simp
  qed simp
  then show "found_base (lookup st bucket path d) = map_option (\<lambda>k. bypassed st (default_base st k)) (default_key st)"
    "default_key st \<noteq> None \<Longrightarrow> remaining_iter (lookup st bucket path d) = new_iter path"
    by (auto simp: lookup_def split: option.splits)
qed

text \<open>
  Both lookups return the entry at the longest matching prefix.  If the longest prefix of the
  components of the path with an entry (by unencrypted or by encrypted components, whichever the lookup
  walks) is \<open>us\<close>, the lookup finds that entry and what remains are the components after \<open>us\<close>; if no prefix
  has an entry it falls back to the default key with the whole path remaining, and finds nothing only if
  there is no default key.  In bypass mode only the cipher of the result is replaced.
\<close>

theorem lookup_longest_prefix:
  defines "parts \<equiv> \<lambda>path. iter_parts (new_iter path)"
  shows
    "(longest_prefix (entries d st bucket) (parts path) us r \<longrightarrow>
        found_base (lookup st bucket path d) = map_option (bypassed st) (entries d st bucket us) \<and>
        remaining_components (remaining_iter (lookup st bucket path d)) = r) \<and>
     (no_prefix (entries d st bucket) (parts path) \<longrightarrow>
        found_base (lookup st bucket path d) = map_option (\<lambda>k. bypassed st (default_base st k)) (default_key st) \<and>
        (default_key st \<noteq> None \<longrightarrow> remaining_iter (lookup st bucket path d) = new_iter path))"
  using lookup_prefix[of d st bucket path us r] lookup_default[of d st bucket path]
  by (auto simp: parts_def remaining_components_parts)

theorem lookup_longest_prefix_witness:
  "let st = set_default_key (fst (add_with_cipher new_store [1] (bstr ''a'') (bstr ''x'') [9] AES_GCM)) [5] in
   remaining_components (remaining_iter (lookup st [1] (bstr ''a/c'') True)) = [bstr ''c''] \<and>
   found_base (lookup st [1] (bstr ''d'') True) = Some (default_base st [5])"
proof -
  define st where "st = set_default_key (fst (add_with_cipher new_store [1] (bstr ''a'') (bstr ''x'') [9] AES_GCM)) [5]"
  let ?b = "\<lparr>unencrypted = bstr ''a'', encrypted = bstr ''x'', base_key = [9], path_cipher = AES_GCM, is_default = False\<rparr>"
  have st: "st = \<lparr>roots = [([1], Node [(bstr ''a'', Node [] [] [] (Some ?b))] [(bstr ''a'', bstr ''x'')] [(bstr ''x'', bstr ''a'')] None)],
      default_key = Some [5], default_path_cipher = UNSPECIFIED, encryption_bypass = False\<rparr>"
    by (simp add: st_def set_default_key_def add_with_cipher_eq new_store_def iter_parts_new bstr_def default_node_def maps_to_other_def grow_def)
  have "longest_prefix (entries True st [1]) (iter_parts (new_iter (bstr ''a/c''))) [bstr ''a''] [bstr ''c'']"
    by (auto simp: longest_prefix_def st entries_def child_of_def iter_parts_new bstr_def Cons_eq_append_conv)
  moreover have "no_prefix (entries True st [1]) (iter_parts (new_iter (bstr ''d'')))"
    by (auto simp: no_prefix_def st entries_def child_of_def iter_parts_new bstr_def Cons_eq_append_conv)
  ultimately show ?thesis
    using lookup_longest_prefix[of True st "[1]" "bstr ''a/c''" "[bstr ''a'']" "[bstr ''c'']"] lookup_longest_prefix[of True st "[1]" "bstr ''d''"]
    unfolding st_def[symmetric] by (simp add: st bypassed_def)
qed

section \<open>Iteration\<close>

lemma set_visited: "node_wf n \<Longrightarrow> set (visited n) = {b. \<exists>us. entry n us = Some b}"
proof (induction n rule: visited.induct)
  case (1 us um em b)
  have d: "distinct (map fst us)" and c: "\<And>x. x \<in> set us \<Longrightarrow> node_wf (snd x)" using 1(2) by (auto simp: node_wf.simps)
  have IH: "set (visited (snd x)) = {b. \<exists>us. entry (snd x) us = Some b}" if "x \<in> set us" for x
    using 1(1)[of x "fst x" "snd x"] that c by simp
  have e: "(\<exists>ps. entry (Node us um em b) ps = Some x) \<longleftrightarrow> b = Some x \<or> (\<exists>c \<in> set us. \<exists>qs. entry (snd c) qs = Some x)"
    (is "?l \<longleftrightarrow> ?r") for x
  proof
    assume ?l
    then obtain ps where "entry (Node us um em b) ps = Some x" ..
    then show ?r by (cases ps) (force simp: Option.bind_eq_Some_conv dest: map_of_SomeD)+
  next
    assume ?r
    then consider "b = Some x" | p ch qs where "(p, ch) \<in> set us" "entry ch qs = Some x" by auto
    then show ?l
    proof cases
      case 1
      then show ?thesis by (intro exI[of _ "[]"]) simp
    next
      case 2
      then show ?thesis using d by (intro exI[of _ "p # qs"]) simp
    qed
  qed
  have v: "x \<in> set (visited (Node us um em b)) \<longleftrightarrow> b = Some x \<or> (\<exists>c \<in> set us. x \<in> set (visited (snd c)))" for x
    by (auto simp: case_prod_beta split: option.splits)
  have "(\<exists>c \<in> set us. x \<in> set (visited (snd c))) \<longleftrightarrow> (\<exists>c \<in> set us. \<exists>qs. entry (snd c) qs = Some x)" for x
    using IH by blast
  then show ?case unfolding set_eq_iff mem_Collect_eq e v by blast
qed

lemma visited_entries:
  assumes "store_wf st"
  shows "(\<exists>root. (bucket, root) \<in> set (roots st) \<and> b \<in> set (visited root)) \<longleftrightarrow> (\<exists>us. entries True st bucket us = Some b)"
proof -
  have d: "distinct (map fst (roots st))" and w: "\<And>r. r \<in> set (roots st) \<Longrightarrow> node_wf (snd r)"
    using assms by (auto simp: store_wf_def)
  have "set (visited root) = {b. \<exists>us. entries True st bucket us = Some b}" if "(bucket, root) \<in> set (roots st)" for bucket root
    using set_visited[of root] w[OF that] d that by (simp add: entries_def entry_by_True)
  moreover have "entries True st bucket us = Some b \<Longrightarrow> \<exists>root. (bucket, root) \<in> set (roots st)" for bucket us b
    using d by (auto simp: entries_def Option.bind_eq_Some_conv)
  ultimately have "(\<exists>root. (bucket, root) \<in> set (roots st) \<and> b \<in> set (visited root)) \<longleftrightarrow>
      (\<exists>us. entries True st bucket us = Some b)" for bucket b by blast
  then show ?thesis .
qed

lemma iterate_spec:
  assumes "store_wf st"
  shows "\<exists>xs. iterate_with_cipher st (\<lambda>bucket u e k c acc. Inr (acc @ [(bucket, u, e, k, c)])) [] = Inr xs \<and>
    set xs = {(bucket, unencrypted b, encrypted b, base_key b, path_cipher b) | bucket b. \<exists>us. entries True st bucket us = Some b}"
proof -
  let ?f = "\<lambda>bucket b acc. Inr (acc @ [(bucket, unencrypted b, encrypted b, base_key b, path_cipher b)])"
  let ?row = "\<lambda>bucket b. (bucket, unencrypted b, encrypted b, base_key b, path_cipher b)"
  have inner: "fold_result (?f bucket) bs acc = Inr (acc @ map (?row bucket) bs)" for bucket bs acc
    by (induction bs arbitrary: acc) simp_all
  have outer: "fold_result (\<lambda>(bucket, root). fold_result (?f bucket) (visited root)) rs acc =
      Inr (acc @ concat (map (\<lambda>(bucket, root). map (?row bucket) (visited root)) rs))" for rs acc
    by (induction rs arbitrary: acc) (auto simp: inner)
  have all: "set (concat (map (\<lambda>(bucket, root). map (?row bucket) (visited root)) (roots st))) =
      {?row bucket b | bucket b. \<exists>root. (bucket, root) \<in> set (roots st) \<and> b \<in> set (visited root)}" by auto
  from visited_entries[OF assms]
  have "set (concat (map (\<lambda>(bucket, root). map (?row bucket) (visited root)) (roots st))) =
      {?row bucket b | bucket b. \<exists>us. entries True st bucket us = Some b}" using all by simp
  then show ?thesis by (simp add: iterate_with_cipher_def outer)
qed

text \<open>
  Iterating over a store visits exactly its entries: with a visitor that collects what it is
  given, the result lists, for each bucket, the bases that lookups can find, each with its own paths, key
  and cipher.
\<close>

theorem iterate_visits_entries:
  assumes "store_wf st"
  shows "\<exists>xs. iterate_with_cipher st (\<lambda>bucket u e k c acc. Inr (acc @ [(bucket, u, e, k, c)])) [] = Inr xs \<and>
    set xs = {(bucket, unencrypted b, encrypted b, base_key b, path_cipher b) | bucket b. \<exists>us. entries True st bucket us = Some b}"
  by (rule iterate_spec[OF assms])

theorem iterate_visits_entries_witness:
  "\<exists>xs. iterate_with_cipher new_store (\<lambda>bucket u e k c acc. Inr (acc @ [(bucket, u, e, k, c)])) [] = Inr xs \<and> set xs = {}"
proof -
  have "store_wf new_store" by (simp add: store_wf_def new_store_def)
  from iterate_visits_entries[OF this] show ?thesis by (simp add: entries_def new_store_def)
qed

end
