(* ===== verification/Path_Crypto.thy ===== *)
theory Path_Crypto
  imports Enc_Store
begin

text \<open>
  The functions of \<open>crates/storj-encryption/src/path.rs\<close> that combine the encryption store with the
  component ciphers: encryption and decryption of object keys, path and content keys, and the listing
  prefix.  A bucket name and a path of type \<open>&str\<close> are their bytes.
\<close>

section \<open>The code\<close>

definition base_path_key :: "Crypto \<Rightarrow> bytes \<Rightarrow> Base \<Rightarrow> Key" where
  "base_path_key cr bucket base = (if is_default base then derive_path_component cr (base_key base) bucket else base_key base)"

definition encrypt_path_bytes :: "Crypto \<Rightarrow> bytes \<Rightarrow> bytes \<Rightarrow> CipherSuite option \<Rightarrow> Store \<Rightarrow> ErrorKind + bytes" where
  "encrypt_path_bytes cr bucket path pc st =
    (if path = [] then Inr []
     else let lk = lookup_unencrypted st bucket path in
       case found_base lk of
         None \<Rightarrow> Inl MissingEncryptionBase
       | Some base \<Rightarrow>
         (let cipher = (case pc of Some c \<Rightarrow> c | None \<Rightarrow> path_cipher base);
              key = base_path_key cr bucket base;
              remaining_done = iter_done (remaining_iter lk)
          in try_bind (encrypt_iterator cr (remaining_iter lk) cipher key) (\<lambda>enc.
            Inr (join_components ((if encrypted base = [] then [] else [encrypted base]) @ (if remaining_done then [] else [enc]))))))"

definition decrypt_path_bytes :: "Crypto \<Rightarrow> bytes \<Rightarrow> bytes \<Rightarrow> CipherSuite option \<Rightarrow> Store \<Rightarrow> ErrorKind + bytes" where
  "decrypt_path_bytes cr bucket path pc st =
    (if path = [] then Inr []
     else let lk = lookup_encrypted st bucket path in
       case found_base lk of
         None \<Rightarrow> Inl MissingDecryptionBase
       | Some base \<Rightarrow>
         (let cipher = (case pc of Some c \<Rightarrow> c | None \<Rightarrow> path_cipher base);
              key = base_path_key cr bucket base;
              remaining_done = iter_done (remaining_iter lk)
          in try_bind (decrypt_iterator cr (remaining_iter lk) cipher key) (\<lambda>dec.
            Inr (join_components ((if unencrypted base = [] then [] else [unencrypted base]) @ (if remaining_done then [] else [dec]))))))"

definition encrypt_path :: "Crypto \<Rightarrow> bytes \<Rightarrow> bytes \<Rightarrow> Store \<Rightarrow> ErrorKind + bytes" where
  "encrypt_path cr bucket path st = encrypt_path_bytes cr bucket path None st"

definition encrypt_path_with_cipher :: "Crypto \<Rightarrow> bytes \<Rightarrow> bytes \<Rightarrow> CipherSuite \<Rightarrow> Store \<Rightarrow> ErrorKind + bytes" where
  "encrypt_path_with_cipher cr bucket path pc st = encrypt_path_bytes cr bucket path (Some pc) st"

definition decrypt_path :: "Crypto \<Rightarrow> bytes \<Rightarrow> bytes \<Rightarrow> Store \<Rightarrow> ErrorKind + bytes" where
  "decrypt_path cr bucket path st = decrypt_path_bytes cr bucket path None st"

definition decrypt_path_with_cipher :: "Crypto \<Rightarrow> bytes \<Rightarrow> bytes \<Rightarrow> CipherSuite \<Rightarrow> Store \<Rightarrow> ErrorKind + bytes" where
  "decrypt_path_with_cipher cr bucket path pc st = decrypt_path_bytes cr bucket path (Some pc) st"

definition encrypt_prefix :: "Crypto \<Rightarrow> bytes \<Rightarrow> bytes \<Rightarrow> Store \<Rightarrow> ErrorKind + bytes" where
  "encrypt_prefix cr bucket path st =
    (let has_trailing = (path \<noteq> [] \<and> last path = slash);
         stripped = (if has_trailing then take (length path - 1) path else path)
     in try_bind (encrypt_path_bytes cr bucket stripped None st) (\<lambda>enc.
          Inr (if has_trailing then enc @ [slash] else enc)))"

definition derive_path_key :: "Crypto \<Rightarrow> bytes \<Rightarrow> bytes \<Rightarrow> Store \<Rightarrow> ErrorKind + Key" where
  "derive_path_key cr bucket path st =
    (let lk = lookup_unencrypted st bucket path in
     case found_base lk of
       None \<Rightarrow> Inl MissingEncryptionBase
     | Some base \<Rightarrow>
       (let key = base_path_key cr bucket base in
        if path = [] then Inr key
        else Inr (fold (\<lambda>component key. derive_path_component cr key component) (remaining_components (remaining_iter lk)) key)))"

definition derive_content_key :: "Crypto \<Rightarrow> bytes \<Rightarrow> bytes \<Rightarrow> Store \<Rightarrow> ErrorKind + Key" where
  "derive_content_key cr bucket path st =
    try_bind (derive_path_key cr bucket path st) (\<lambda>path_key. Inr (derive_key cr path_key CONTENT_HMAC_INFO))"

record PrefixInfo =
  info_cipher :: CipherSuite
  info_parent_key :: Key
  info_parent_enc :: bytes

text \<open>
  The loop of \<open>get_prefix_info\<close>, with the key and its predecessor, the parts finished so far and the
  encrypted component not yet pushed; \<open>i > 0\<close> is \<open>later\<close>.
\<close>

fun prefix_loop :: "Crypto \<Rightarrow> CipherSuite \<Rightarrow> bool \<Rightarrow> Key \<Rightarrow> Key \<Rightarrow> bytes list \<Rightarrow> bytes \<Rightarrow> bytes list \<Rightarrow> ErrorKind + (Key \<times> bytes list)" where
  "prefix_loop cr cipher later key parent_key parts component_enc [] = Inr (parent_key, parts)"
| "prefix_loop cr cipher later key parent_key parts component_enc (component # rest) =
    (let parent_key = (if later then key else parent_key);
         parts = (if later then parts @ [component_enc] else parts)
     in try_bind (encrypt_path_component cr component cipher key) (\<lambda>component_enc.
          prefix_loop cr cipher True (derive_path_component cr key component) parent_key parts component_enc rest))"

definition get_prefix_info :: "Crypto \<Rightarrow> bytes \<Rightarrow> bytes \<Rightarrow> Store \<Rightarrow> ErrorKind + PrefixInfo" where
  "get_prefix_info cr bucket prefix st =
    (let lk = lookup_unencrypted st bucket prefix in
     case found_base lk of
       None \<Rightarrow> Inl MissingEncryptionBase
     | Some base \<Rightarrow>
       (let cipher = (if path_cipher base = CipherSuite 0 then AES_GCM else path_cipher base);
            key = base_path_key cr bucket base;
            parts = (if \<not> is_default base \<and> encrypted base \<noteq> [] then [encrypted base] else [])
        in try_bind (prefix_loop cr cipher False key key parts [] (remaining_components (remaining_iter lk)))
             (\<lambda>(pk, parts). Inr \<lparr>info_cipher = cipher, info_parent_key = pk, info_parent_enc = join_components parts\<rparr>)))"

section \<open>Round trip of object keys\<close>

lemma join_base_rest:
  "join_components ((if x = [] then [] else [x]) @ (if r = [] then [] else [join_components r])) =
   join_components (iter_parts (new_iter x) @ r)"
  using join_of_parts[of x] join_ref_append[of "iter_parts (new_iter x)" r]
  by (auto simp: join_components_ref iter_parts_new)

lemma new_parts_not_singleton: "iter_parts (new_iter p) \<noteq> [[]]"
  using join_of_parts[of p] by (auto simp: iter_parts_new join_components_ref)

text \<open>
  The store does not hold entries below the one that the path matches: either the bucket has no trie and
  the default key is used, or the longest matching prefix ends at a leaf.
\<close>

definition ends_at_leaf :: "Store \<Rightarrow> bytes \<Rightarrow> bytes \<Rightarrow> bool" where
  "ends_at_leaf st bucket path \<longleftrightarrow>
    (case map_of (roots st) bucket of
       None \<Rightarrow> True
     | Some root \<Rightarrow> \<exists>us r nd. longest_prefix (entry root) (iter_parts (new_iter path)) us r \<and> node_at root us = Some nd \<and> unenc nd = [])"

lemma entries_True: "map_of (roots st) bucket = Some root \<Longrightarrow> entries True st bucket = entry root"
  by (auto simp: entries_def entry_by_True)

lemma walk_append: "walk d n (us @ vs) = Option.bind (walk d n us) (\<lambda>m. walk d m vs)"
proof (induction d n us rule: walk.induct)
  case (2 d node p ps)
  then show ?case by (cases "child_of d node p") simp_all
qed simp

lemma length_enc_parts: "enc_parts n us = Some es \<Longrightarrow> length es = length us"
  by (induction n us arbitrary: es rule: enc_parts.induct) (auto split: option.splits)

lemma new_parts_Nil [simp]: "iter_parts (new_iter p) = [] \<longleftrightarrow> p = []"
  by (simp add: iter_parts_new)

lemma longest_prefix_at_leaf:
  assumes "walk False root xs = Some nd" and "node_base nd \<noteq> None" and "enc_map nd = []"
  shows "longest_prefix (entry_by False root) (xs @ es) xs es"
  unfolding longest_prefix_def
proof (intro conjI allI impI)
  show "entry_by False root xs \<noteq> None" using assms by (simp add: entry_by_def)
next
  fix us' r'
  assume e: "xs @ es = us' @ r'" "entry_by False root us' \<noteq> None"
  show "length us' \<le> length xs"
  proof (rule ccontr)
    assume "\<not> length us' \<le> length xs"
    then have "take (length xs) us' = xs" "drop (length xs) us' \<noteq> []"
      using e(1) by (auto simp: append_eq_append_conv_if)
    then obtain z zs where "us' = xs @ z # zs" by (metis append_take_drop_id list.exhaust)
    then show False using e(2) assms by (simp add: entry_by_def walk_append child_of_def)
  qed
qed simp

text \<open>
  What encrypting a path finds, and that looking up the result by its encrypted components finds the same
  base with the encrypted rest.
\<close>

lemma encrypted_lookup:
  assumes "store_wf st" and "ends_at_leaf st bucket path" and "found_base (lookup_unencrypted st bucket path) = Some b"
  shows "iter_wf (remaining_iter (lookup_unencrypted st bucket path)) \<and>
    iter_parts (new_iter path) = iter_parts (new_iter (unencrypted b)) @ iter_parts (remaining_iter (lookup_unencrypted st bucket path)) \<and>
    (encrypted b = [] \<longleftrightarrow> unencrypted b = []) \<and>
    (iter_parts (new_iter e) = iter_parts (new_iter (encrypted b)) @ es \<longrightarrow>
       found_base (lookup_encrypted st bucket e) = Some b \<and> iter_wf (remaining_iter (lookup_encrypted st bucket e)) \<and>
       iter_parts (remaining_iter (lookup_encrypted st bucket e)) = es)"
proof (cases "map_of (roots st) bucket")
  case None
  then have n: "no_prefix (entries d st bucket) ps" for d ps by (simp add: no_prefix_def entries_def)
  obtain k where k: "default_key st = Some k" "b = bypassed st (default_base st k)"
    using assms(3) lookup_default(1)[OF n, where d = True and path = path] by (auto simp: lookup_unencrypted_def)
  then have p: "unencrypted b = []" "encrypted b = []"
    by (simp_all add: bypassed_def default_base_def)
  then show ?thesis
    using k lookup_default[OF n, where d = True and path = path] lookup_default[OF n, where d = False and path = e]
    by (simp add: lookup_encrypted_def lookup_unencrypted_def)
next
  case (Some root)
  obtain us r nd where u: "longest_prefix (entry root) (iter_parts (new_iter path)) us r" "node_at root us = Some nd" "unenc nd = []"
    using assms(2) Some by (auto simp: ends_at_leaf_def)
  have w: "node_wf root" "bases_ok root" using store_wf_root[OF assms(1) Some] by auto
  have lp: "longest_prefix (entries True st bucket) (iter_parts (new_iter path)) us r" using u(1) entries_True[OF Some] by simp
  obtain b' where b': "entry root us = Some b'" using u(1) by (auto simp: longest_prefix_def)
  have b: "b = bypassed st b'"
    using lookup_prefix(1)[OF lp] assms(3) b' entries_True[OF Some] by (simp add: lookup_unencrypted_def)
  have ok: "iter_parts (new_iter (unencrypted b')) = us" "enc_parts root us = Some (iter_parts (new_iter (encrypted b')))"
    using w(2) b' by (auto simp: bases_ok_def)
  have nil: "encrypted b' = [] \<longleftrightarrow> unencrypted b' = []"
    using length_enc_parts[OF ok(2)] ok(1) by (metis length_0_conv new_parts_Nil)
  have same: "unencrypted b = unencrypted b'" "encrypted b = encrypted b'" using b by (simp_all add: bypassed_def)
  have nd: "node_wf nd" "node_base nd = Some b'"
    using u(2) b' w(1)
    by (induction root us rule: node_at.induct) (auto simp: Option.bind_eq_Some_conv dest: node_wf_child)
  have "map_of (enc_map nd) q \<noteq> Some p" for p q
  proof
    assume "map_of (enc_map nd) q = Some p"
    then have "map_of (unenc_map nd) p = Some q" using nd(1) node_wf_sel[of nd] by blast
    moreover have "dom (map_of (unenc_map nd)) = dom (map_of (unenc nd))" using nd(1) node_wf_sel[of nd] by blast
    ultimately show False using u(3) by auto
  qed
  then have "map_of (enc_map nd) = Map.empty" by (metis not_Some_eq)
  then have "enc_map nd = []" by simp
  moreover have "walk False root (iter_parts (new_iter (encrypted b'))) = Some nd" using walk_enc[OF w(1) ok(2)] u(2) by simp
  ultimately have lpe: "longest_prefix (entries False st bucket) (iter_parts (new_iter (encrypted b')) @ es) (iter_parts (new_iter (encrypted b'))) es" for es
    using longest_prefix_at_leaf[of root _ nd es] nd(2) Some by (simp add: entries_def[abs_def])
  have eb: "entries False st bucket (iter_parts (new_iter (encrypted b'))) = Some b'"
    using Some entry_by_enc[OF w(1) ok(2)] b' by (simp add: entries_def)
  show ?thesis
    using lookup_prefix[OF lp] ok same nil u(1) lpe[of es] eb b
      lookup_prefix[where d = False and st = st and bucket = bucket and path = e and r = es and us = "iter_parts (new_iter (encrypted b'))"]
    by (auto simp: lookup_unencrypted_def lookup_encrypted_def longest_prefix_def)
qed

text \<open>
  C36: An object key decrypts to itself.  With working primitives, a store that satisfies its invariant and
  holds no entry below the one the path matches, and a cipher that keeps components apart (none, AES-GCM
  or secretbox), whatever \<open>encrypt_path_bytes\<close> returns for a path, \<open>decrypt_path_bytes\<close> turns back into that
  path, whether the default key or a restricted prefix is used and whatever empty components the path has.
\<close>

theorem object_key_round_trip:
  assumes "crypto_ok cr" and "store_wf st" and "ends_at_leaf st bucket path"
    and "\<And>b. found_base (lookup_unencrypted st bucket path) = Some b \<Longrightarrow> path_suite (case pc of Some c \<Rightarrow> c | None \<Rightarrow> path_cipher b)"
    and "encrypt_path_bytes cr bucket path pc st = Inr e"
  shows "decrypt_path_bytes cr bucket e pc st = Inr path"
proof (cases "path = []")
  case True
  then show ?thesis using assms(5) by (simp add: encrypt_path_bytes_def decrypt_path_bytes_def)
next
  case False
  let ?lk = "lookup_unencrypted st bucket path"
  obtain b where b: "found_base ?lk = Some b" using assms(5) False by (auto simp: encrypt_path_bytes_def split: option.splits)
  let ?c = "case pc of Some c \<Rightarrow> c | None \<Rightarrow> path_cipher b" and ?k = "base_path_key cr bucket b"
  have s: "path_suite ?c" using assms(4) b by simp
  define r where "r = iter_parts (remaining_iter ?lk)"
  have r: "iter_wf (remaining_iter ?lk)" "iter_parts (remaining_iter ?lk) = r"
    "iter_parts (new_iter path) = iter_parts (new_iter (unencrypted b)) @ r" "encrypted b = [] \<longleftrightarrow> unencrypted b = []"
    and le: "iter_parts (new_iter e) = iter_parts (new_iter (encrypted b)) @ es \<Longrightarrow>
       found_base (lookup_encrypted st bucket e) = Some b \<and> iter_wf (remaining_iter (lookup_encrypted st bucket e)) \<and>
       iter_parts (remaining_iter (lookup_encrypted st bucket e)) = es" for e es
    using encrypted_lookup[OF assms(2,3) b, of e es] encrypted_lookup[OF assms(2,3) b] r_def by simp_all
  obtain es where es: "encrypt_parts cr ?c ?k r = Inr es"
    "e = join_components ((if encrypted b = [] then [] else [encrypted b]) @ (if r = [] then [] else [join_components es]))"
    using assms(5) False b r(1,2)
    by (auto simp: encrypt_path_bytes_def encrypt_iterator_def remaining_components_parts iter_done_parts result_simps)
  have rs: "p \<in> set r \<Longrightarrow> slash \<notin> set p" for p using r(2) iter_parts_no_slash by metis
  note eb = encrypt_parts_bytes[OF s es(1) rs]
  have "r = [] \<longleftrightarrow> es = []" using eb(1) by auto
  then have e: "e = join_components (iter_parts (new_iter (encrypted b)) @ es)" using es(2) join_base_rest[of "encrypted b" es] by simp
  have "iter_parts (new_iter (encrypted b)) @ es \<noteq> [[]]"
  proof
    assume a: "iter_parts (new_iter (encrypted b)) @ es = [[]]"
    then have "encrypted b = []" "es = [[]]"
      using new_parts_not_singleton[of "encrypted b"] by (auto simp: append_eq_Cons_conv)
    then have "iter_parts (new_iter path) = [[]]" using eb(3) r(3,4) by simp
    then show False using new_parts_not_singleton by blast
  qed
  then have pe: "iter_parts (new_iter e) = iter_parts (new_iter (encrypted b)) @ es"
    using e parts_of_join[of "iter_parts (new_iter (encrypted b)) @ es"] eb(2) iter_parts_no_slash by auto
  have ne: "e \<noteq> []"
  proof
    assume "e = []"
    then have "iter_parts (new_iter (encrypted b)) = []" "es = []" using pe by (auto simp: iter_parts_new)
    then have "iter_parts (new_iter path) = []" using r(3,4) eb(1) by simp
    then show False using False by simp
  qed
  have "decrypt_parts cr ?c ?k es = Inr r" using decrypt_encrypt_parts[OF assms(1) s es(1)] .
  then have "decrypt_iterator cr (remaining_iter (lookup_encrypted st bucket e)) ?c ?k = Inr (join_components r)"
    using le[OF pe] by (simp add: decrypt_iterator_def remaining_components_parts)
  moreover have "join_components ((if unencrypted b = [] then [] else [unencrypted b]) @ (if r = [] then [] else [join_components r])) = path"
    using join_base_rest[of "unencrypted b" r] r(3) join_of_parts[of path] by simp
  ultimately show ?thesis
    using ne le[OF pe] \<open>r = [] \<longleftrightarrow> es = []\<close> by (simp add: decrypt_path_bytes_def iter_done_parts)
qed

theorem object_key_round_trip_witness:
  "let st = set_default_path_cipher (set_default_key new_store (replicate 32 5)) AES_GCM;
       e = encrypt_path_bytes toy_crypto (bstr ''b'') (bstr ''a//c/'') None st
   in (\<exists>x. e = Inr x \<and> decrypt_path_bytes toy_crypto (bstr ''b'') x None st = Inr (bstr ''a//c/''))"
proof -
  let ?st = "set_default_path_cipher (set_default_key new_store (replicate 32 5)) AES_GCM"
  let ?p = "bstr ''a//c/''"
  have lk: "lookup_unencrypted ?st (bstr ''b'') ?p = \<lparr>revealed = None, remaining_iter = new_iter ?p, found_base = Some (default_base ?st (replicate 32 5))\<rparr>"
    by (simp add: lookup_unencrypted_def lookup_def set_default_path_cipher_def set_default_key_def new_store_def apply_bypass_def)
  have enc: "\<exists>x. encrypt_path_component toy_crypto part AES_GCM key = Inr x" for part key
    using length_truncate_key[OF toy_crypto_ok]
    by (auto simp: encrypt_path_component_def encrypt_def aesgcm_encrypt_def to_aes_gcm_nonce_def AES_GCM_NONCE_SIZE_def
      toy_crypto_def toy_aead_def)
  have "\<exists>es. encrypt_parts toy_crypto AES_GCM key parts = Inr es" for key parts
  proof (induction parts arbitrary: key)
    case (Cons part parts)
    then show ?case using enc[of part key] by (metis (no_types, lifting) encrypt_parts.simps(2) try_bind_simps(2))
  qed simp
  then obtain es where es: "encrypt_parts toy_crypto AES_GCM (base_path_key toy_crypto (bstr ''b'') (default_base ?st (replicate 32 5)))
      (remaining_components (new_iter ?p)) = Inr es" by blast
  have ne: "?p \<noteq> []" by (simp add: bstr_def)
  have c: "path_cipher (default_base ?st (replicate 32 5)) = AES_GCM"
    by (simp add: default_base_def set_default_path_cipher_def)
  have "\<exists>x. encrypt_path_bytes toy_crypto (bstr ''b'') ?p None ?st = Inr x"
    using es c ne by (auto simp: encrypt_path_bytes_def lk encrypt_iterator_def)
  then obtain x where x: "encrypt_path_bytes toy_crypto (bstr ''b'') ?p None ?st = Inr x" ..
  have "store_wf ?st" "ends_at_leaf ?st (bstr ''b'') ?p"
    by (simp_all add: store_wf_def ends_at_leaf_def set_default_path_cipher_def set_default_key_def new_store_def)
  then have "decrypt_path_bytes toy_crypto (bstr ''b'') x None ?st = Inr ?p"
    using object_key_round_trip[OF toy_crypto_ok, of ?st "bstr ''b''" ?p None x] x c by (simp add: lk path_suite_def)
  then show ?thesis using x by simp
qed

section \<open>Keys below a path\<close>

fun key_after :: "Crypto \<Rightarrow> Key \<Rightarrow> bytes list \<Rightarrow> Key" where
  "key_after cr key [] = key"
| "key_after cr key (p # ps) = key_after cr (derive_path_component cr key p) ps"

lemma fold_key_after: "fold (\<lambda>c k. derive_path_component cr k c) ps key = key_after cr key ps"
  by (induction ps arbitrary: key) simp_all

lemma key_after_append: "key_after cr key (ps @ qs) = key_after cr (key_after cr key ps) qs"
  by (induction ps arbitrary: key) simp_all

lemma encrypt_parts_append:
  "encrypt_parts cr cipher key (ps @ qs) =
    try_bind (encrypt_parts cr cipher key ps) (\<lambda>es.
      try_bind (encrypt_parts cr cipher (key_after cr key ps) qs) (\<lambda>fs. Inr (es @ fs)))"
proof (induction ps arbitrary: key)
  case Nil
  then show ?case by (cases "encrypt_parts cr cipher key qs") simp_all
next
  case (Cons p ps)
  show ?case
    by (cases "encrypt_path_component cr p cipher key"; cases "encrypt_parts cr cipher (derive_path_component cr key p) ps";
        cases "encrypt_parts cr cipher (key_after cr (derive_path_component cr key p) ps) qs")
       (simp_all add: Cons)
qed

text \<open>The parts pushed by the loop are all but the last encrypted component.\<close>

lemma prefix_loop_eq:
  "prefix_loop cr cipher True key pk parts ce (ps @ [c]) =
    try_bind (encrypt_parts cr cipher key (ps @ [c])) (\<lambda>es. Inr (key_after cr key ps, parts @ ce # butlast es))"
proof (induction ps arbitrary: key pk parts ce)
  case Nil
  then show ?case by (cases "encrypt_path_component cr c cipher key") simp_all
next
  case (Cons p ps)
  show ?case
  proof (cases "encrypt_path_component cr p cipher key")
    case (Inr e)
    then show ?thesis
      using Cons by (cases "encrypt_parts cr cipher (derive_path_component cr key p) (ps @ [c])")
        (auto simp: encrypt_parts_append result_simps split: if_splits)
  qed simp
qed

lemma prefix_loop_first:
  "prefix_loop cr cipher False key key parts [] (ps @ [c]) =
    try_bind (encrypt_parts cr cipher key (ps @ [c])) (\<lambda>es. Inr (key_after cr key ps, parts @ butlast es))"
proof (cases ps)
  case Nil
  then show ?thesis by (cases "encrypt_path_component cr c cipher key") simp_all
next
  case (Cons p ps')
  show ?thesis
  proof (cases "encrypt_path_component cr p cipher key")
    case (Inr e)
    then show ?thesis
      using Cons prefix_loop_eq[of cr cipher "derive_path_component cr key p" key parts e ps' c]
      by (cases "encrypt_parts cr cipher (derive_path_component cr key p) (ps' @ [c])")
         (auto simp: encrypt_parts_append result_simps split: if_splits)
  qed (use Cons in simp)
qed

text \<open>
  The parent that \<open>get_prefix_info\<close> computes for a listing prefix is one component above it.  If what is
  left of the prefix below the matched base is \<open>ps @ [c]\<close>, the encrypted parent is the encryption of \<open>ps\<close>
  behind the encrypted path of the base, and every object key below \<open>ps\<close> is encrypted to the same parent
  components followed by components that decrypt, under the returned parent key alone, to the rest of the
  key.
\<close>

theorem listing_prefix_parent:
  assumes "crypto_ok cr" and b: "found_base (lookup_unencrypted st bucket prefix) = Some b"
    and rem: "remaining_components (remaining_iter (lookup_unencrypted st bucket prefix)) = ps @ [c]"
    and info: "get_prefix_info cr bucket prefix st = Inr info" and s: "path_suite (info_cipher info)"
  shows "\<exists>es. encrypt_parts cr (info_cipher info) (base_path_key cr bucket b) ps = Inr es \<and>
    info_parent_enc info = join_components ((if \<not> is_default b \<and> encrypted b \<noteq> [] then [encrypted b] else []) @ es) \<and>
    (\<forall>qs gs. encrypt_parts cr (info_cipher info) (base_path_key cr bucket b) (ps @ qs) = Inr gs \<longrightarrow>
       (\<exists>fs. gs = es @ fs \<and> decrypt_parts cr (info_cipher info) (info_parent_key info) fs = Inr qs))"
proof -
  let ?pre = "if \<not> is_default b \<and> encrypted b \<noteq> [] then [encrypted b] else []" and ?k = "base_path_key cr bucket b"
  obtain es' where es': "encrypt_parts cr (info_cipher info) ?k (ps @ [c]) = Inr es'"
    "info_parent_key info = key_after cr ?k ps" "info_parent_enc info = join_components (?pre @ butlast es')"
    using info b rem by (auto simp: get_prefix_info_def prefix_loop_first result_simps)
  then obtain es f where es: "encrypt_parts cr (info_cipher info) ?k ps = Inr es" "es' = es @ [f]"
    by (auto simp: encrypt_parts_append result_simps)
  have "\<exists>fs. gs = es @ fs \<and> decrypt_parts cr (info_cipher info) (info_parent_key info) fs = Inr qs"
    if "encrypt_parts cr (info_cipher info) ?k (ps @ qs) = Inr gs" for qs gs
    using that es es'(2) decrypt_encrypt_parts[OF assms(1) s] by (auto simp: encrypt_parts_append result_simps)
  then show ?thesis using es es'(3) by simp
qed

theorem listing_prefix_parent_witness:
  "let st = set_default_path_cipher (set_default_key new_store (replicate 32 5)) NULL;
       info = \<lparr>info_cipher = NULL, info_parent_key = base_path_key toy_crypto (bstr ''b'') (default_base st (replicate 32 5)), info_parent_enc = []\<rparr>
   in get_prefix_info toy_crypto (bstr ''b'') (bstr ''a'') st = Inr info \<and>
      (\<forall>qs gs. encrypt_parts toy_crypto NULL (info_parent_key info) qs = Inr gs \<longrightarrow> decrypt_parts toy_crypto NULL (info_parent_key info) gs = Inr qs)"
proof -
  let ?st = "set_default_path_cipher (set_default_key new_store (replicate 32 5)) NULL"
  let ?b = "default_base ?st (replicate 32 5)"
  let ?info = "\<lparr>info_cipher = NULL, info_parent_key = base_path_key toy_crypto (bstr ''b'') ?b, info_parent_enc = []\<rparr>"
  have lk: "lookup_unencrypted ?st (bstr ''b'') (bstr ''a'') = \<lparr>revealed = None, remaining_iter = new_iter (bstr ''a''), found_base = Some ?b\<rparr>"
    by (simp add: lookup_unencrypted_def lookup_def set_default_path_cipher_def set_default_key_def new_store_def apply_bypass_def)
  have r: "remaining_components (new_iter (bstr ''a'')) = [] @ [bstr ''a'']" by (simp add: remaining_components_parts iter_parts_new bstr_def)
  have c: "path_cipher ?b = NULL" "is_default ?b" by (simp_all add: default_base_def set_default_path_cipher_def)
  have n: "NULL \<noteq> CipherSuite 0" by (simp add: NULL_def)
  have g: "get_prefix_info toy_crypto (bstr ''b'') (bstr ''a'') ?st = Inr ?info"
    using r c n by (simp add: get_prefix_info_def lk join_components_ref encrypt_path_component_def)
  have "\<exists>es. encrypt_parts toy_crypto NULL (base_path_key toy_crypto (bstr ''b'') ?b) [] = Inr es \<and>
    info_parent_enc ?info = join_components ((if \<not> is_default ?b \<and> encrypted ?b \<noteq> [] then [encrypted ?b] else []) @ es) \<and>
    (\<forall>qs gs. encrypt_parts toy_crypto NULL (base_path_key toy_crypto (bstr ''b'') ?b) ([] @ qs) = Inr gs \<longrightarrow>
       (\<exists>fs. gs = es @ fs \<and> decrypt_parts toy_crypto NULL (base_path_key toy_crypto (bstr ''b'') ?b) fs = Inr qs))"
    using listing_prefix_parent[OF toy_crypto_ok _ _ g, of ?b "[]" "bstr ''a''"] r by (simp add: lk path_suite_def)
  then show ?thesis using g by (auto simp: Let_def)
qed

end
