(* ===== verification/Macaroon.thy ===== *)
theory Macaroon
  imports Ciphers Codecs Varint_Bits
begin

text \<open>
  API keys of \<open>crates/storj-access\<close>: Base58Check (\<open>base58.rs\<close>) and the version-2 macaroon of
  \<open>macaroon.rs\<close> with its packet format and its HMAC chain.  SHA-256 and the Base58 digits are other
  crates: the record \<open>B58\<close> holds them, with what the program relies on stated by \<open>b58_ok\<close>; HMAC-SHA256 is the
  field of \<open>Crypto\<close>.  Errors carry the message of the source, without the part that quotes an error of
  another crate.

  Shown: a macaroon survives serialisation, the parser accepts exactly the binary format of macaroons, written down
  on its own, and the tail of a macaroon is the end
  of the chain of its caveats, which adding a caveat extends by one link.
\<close>

section \<open>The code\<close>

datatype AccessError = AccessError string | EncryptionError ErrorKind

subsection \<open>Base58Check\<close>

record B58 =
  sha256 :: "bytes \<Rightarrow> bytes"
  bs58_encode :: "bytes \<Rightarrow> bytes"
  bs58_decode :: "bytes \<Rightarrow> bytes option"

definition b58_ok :: "B58 \<Rightarrow> bool" where
  "b58_ok bc \<longleftrightarrow> (\<forall>x. length (sha256 bc x) = 32) \<and> (\<forall>x. bs58_decode bc (bs58_encode bc x) = Some x) \<and>
    (\<forall>x. x \<noteq> [] \<longrightarrow> bs58_encode bc x \<noteq> [])"

definition GRANT_VERSION :: u8 where "GRANT_VERSION = 0"

datatype DecodeError = InvalidFormat | Checksum

definition checksum :: "B58 \<Rightarrow> bytes \<Rightarrow> bytes" where
  "checksum bc input = (let first = sha256 bc input; second = sha256 bc first in take 4 second)"

definition check_encode :: "B58 \<Rightarrow> bytes \<Rightarrow> u8 \<Rightarrow> bytes" where
  "check_encode bc payload version =
    (let buf = [version] @ payload; sum = checksum bc buf in bs58_encode bc (buf @ sum))"

definition check_decode :: "B58 \<Rightarrow> bytes \<Rightarrow> DecodeError + (bytes \<times> u8)" where
  "check_decode bc input =
    (case bs58_decode bc input of
       None \<Rightarrow> Inl InvalidFormat
     | Some decoded \<Rightarrow>
       if length decoded < 5 then Inl InvalidFormat
       else let version = hd decoded;
                body = take (length decoded - 4) decoded;
                cksum = drop (length decoded - 4) decoded
            in if checksum bc body \<noteq> cksum then Inl Checksum else Inr (drop 1 body, version))"

subsection \<open>Packets\<close>

definition VERSION :: u8 where "VERSION = 2"
definition FIELD_EOS :: nat where "FIELD_EOS = 0"
definition FIELD_LOCATION :: nat where "FIELD_LOCATION = 1"
definition FIELD_IDENTIFIER :: nat where "FIELD_IDENTIFIER = 2"
definition FIELD_VERIFICATION_ID :: nat where "FIELD_VERIFICATION_ID = 4"
definition FIELD_SIGNATURE :: nat where "FIELD_SIGNATURE = 6"
definition MAX_UVARINT :: u64 where "MAX_UVARINT = 0x7fffffff"
definition TAIL_LEN :: nat where "TAIL_LEN = 32"

text \<open>A packet: its field type (at most \<open>MAX_UVARINT\<close> when parsed, so a \<open>u32\<close>) and its data.\<close>

record OwnedPacket =
  field_type :: nat
  payload :: bytes

function append_uvarint :: "bytes \<Rightarrow> u64 \<Rightarrow> bytes" where
  "append_uvarint buf x =
    (if x \<ge> 0x80 then append_uvarint (buf @ [ucast x OR 0x80]) (drop_bit 7 x) else buf @ [ucast x])"
  by pat_completeness auto
termination
  by (relation "measure (\<lambda>(_, x). unat x)") (auto simp: drop_bit_eq_div word_le_nat_alt unat_div)

declare append_uvarint.simps [simp del]

definition varint_error :: AccessError where "varint_error = AccessError ''varint error''"

fun parse_uvarint_from :: "bytes \<Rightarrow> nat \<Rightarrow> u64 \<Rightarrow> nat \<Rightarrow> AccessError + (bytes \<times> u64)" where
  "parse_uvarint_from [] i val shift = Inl varint_error"
| "parse_uvarint_from (b # bs) i val shift =
    (if i = 10 then Inl varint_error
     else let chunk = ucast (b AND 0x7f) :: u64
     in if i = 9 \<and> chunk > 1 then Inl varint_error
     else if shift \<ge> 64 then Inl varint_error
     else let val = val OR push_bit shift chunk
     in if b < 0x80 then (if val > MAX_UVARINT then Inl varint_error else Inr (bs, val))
     else parse_uvarint_from bs (i + 1) val (shift + 7))"

definition parse_uvarint :: "bytes \<Rightarrow> AccessError + (bytes \<times> u64)" where
  "parse_uvarint dat = parse_uvarint_from dat 0 0 0"

definition serialize_packet :: "bytes \<Rightarrow> nat \<Rightarrow> bytes \<Rightarrow> bytes" where
  "serialize_packet buf ft dat =
    (let buf = append_uvarint buf (of_nat ft);
         buf = append_uvarint buf (of_nat (length dat))
     in buf @ dat)"

definition parse_packet :: "bytes \<Rightarrow> AccessError + (bytes \<times> OwnedPacket)" where
  "parse_packet dat =
    try_bind (parse_uvarint dat) (\<lambda>(dat, ft).
      let ft = unat (ucast ft :: u32)
      in if ft = FIELD_EOS then Inr (dat, \<lparr>field_type = ft, payload = []\<rparr>)
         else try_bind (parse_uvarint dat) (\<lambda>(dat, pack_len).
           let pack_len = unat pack_len
           in if pack_len > length dat then Inl (AccessError ''out of bounds'')
              else Inr (drop pack_len dat, \<lparr>field_type = ft, payload = take pack_len dat\<rparr>)))"

lemma parse_uvarint_from_shorter: "parse_uvarint_from dat i v s = Inr (rest, x) \<Longrightarrow> length rest < length dat \<and> x \<le> MAX_UVARINT"
proof (induction dat i v s rule: parse_uvarint_from.induct)
  case (2 b bs i v s)
  then show ?case by (force split: if_splits simp: Let_def)
qed simp

lemma parse_packet_shorter: "parse_packet dat = Inr (rest, p) \<Longrightarrow> length rest < length dat"
  by (auto simp: parse_packet_def parse_uvarint_def result_simps dest!: parse_uvarint_from_shorter split: if_splits)

text \<open>The loop of \<open>parse_section\<close>; \<open>prev_field\<close> starts at -1.\<close>

function parse_section_loop :: "bytes \<Rightarrow> int \<Rightarrow> OwnedPacket list \<Rightarrow> AccessError + (bytes \<times> OwnedPacket list)" where
  "parse_section_loop dat prev_field packets =
    (if dat = [] then Inl (AccessError ''section extends past end of buffer'')
     else case parse_packet dat of
       Inl e \<Rightarrow> Inl e
     | Inr (rest, p) \<Rightarrow>
       if field_type p = FIELD_EOS then Inr (rest, packets)
       else if int (field_type p) \<le> prev_field then Inl (AccessError ''fields out of order'')
       else parse_section_loop rest (int (field_type p)) (packets @ [p]))"
  by pat_completeness auto
termination
  by (relation "measure (\<lambda>(dat, _, _). length dat)") (auto dest: parse_packet_shorter)

declare parse_section_loop.simps [simp del]

definition parse_section :: "bytes \<Rightarrow> AccessError + (bytes \<times> OwnedPacket list)" where
  "parse_section dat = parse_section_loop dat (-1) []"

definition strip_location :: "OwnedPacket list \<Rightarrow> OwnedPacket list" where
  "strip_location section = (case section of p # ps \<Rightarrow> if field_type p = FIELD_LOCATION then ps else section | [] \<Rightarrow> section)"

subsection \<open>Macaroons\<close>

record Macaroon =
  mac_head :: bytes
  mac_caveats :: "bytes list"
  mac_tail :: bytes

definition sign :: "Crypto \<Rightarrow> bytes \<Rightarrow> bytes \<Rightarrow> bytes" where
  "sign cr secret dat = hmac_sha256 cr secret dat"

definition ct_eq :: "bytes \<Rightarrow> bytes \<Rightarrow> bool" where
  "ct_eq a b = (if length a \<noteq> length b then False else fold (\<lambda>(x, y) acc. acc OR (x XOR y)) (zip a b) (0 :: u8) = 0)"

definition from_parts :: "Crypto \<Rightarrow> bytes \<Rightarrow> bytes \<Rightarrow> Macaroon" where
  "from_parts cr h secret = \<lparr>mac_head = h, mac_caveats = [], mac_tail = sign cr secret h\<rparr>"

lemma parse_section_loop_shorter: "parse_section_loop dat pf ps = Inr (rest, qs) \<Longrightarrow> length rest < length dat"
proof (induction dat pf ps rule: parse_section_loop.induct)
  case (1 dat pf ps)
  obtain r p where p: "parse_packet dat = Inr (r, p)" "dat \<noteq> []"
    using 1(2) by (subst (asm) parse_section_loop.simps) (auto split: if_splits sum.splits)
  have s: "length r < length dat" using parse_packet_shorter[OF p(1)] .
  show ?case
  proof (cases "field_type p = FIELD_EOS \<or> int (field_type p) \<le> pf")
    case True
    then show ?thesis using 1(2) p s by (subst (asm) parse_section_loop.simps) (auto split: if_splits)
  next
    case False
    then have "parse_section_loop r (int (field_type p)) (ps @ [p]) = Inr (rest, qs)"
      using 1(2) p by (subst (asm) parse_section_loop.simps) simp
    then show ?thesis using 1(1)[OF p(2,1) refl] False s by fastforce
  qed
qed

lemma parse_section_shorter: "parse_section dat = Inr (rest, qs) \<Longrightarrow> length rest < length dat"
  by (auto simp: parse_section_def dest: parse_section_loop_shorter)

text \<open>One caveat section after \<open>strip_location\<close>, and the loop over the caveat sections.\<close>

definition caveat_of_section :: "OwnedPacket list \<Rightarrow> AccessError + bytes" where
  "caveat_of_section section =
    (if section = [] \<or> field_type (section ! 0) \<noteq> FIELD_IDENTIFIER then Inl (AccessError ''no Identifier in caveat'')
     else let cav = payload (section ! 0)
     in if length section = 1 then Inr cav
     else if length section = 2 \<and> field_type (section ! 1) = FIELD_VERIFICATION_ID then Inr cav
     else if length section = 2 then Inl (AccessError ''invalid field found in caveat'')
     else Inl (AccessError ''extra fields found in caveat''))"

function parse_caveats :: "bytes \<Rightarrow> bytes list \<Rightarrow> AccessError + (bytes \<times> bytes list)" where
  "parse_caveats rest cavs =
    (case parse_section rest of
       Inl e \<Rightarrow> Inl e
     | Inr (after, section) \<Rightarrow>
       if section = [] then Inr (after, cavs)
       else case caveat_of_section (strip_location section) of
         Inl e \<Rightarrow> Inl e
       | Inr cav \<Rightarrow> parse_caveats after (cavs @ [cav]))"
  by pat_completeness auto
termination
  by (relation "measure (\<lambda>(rest, _). length rest)") (auto dest: parse_section_shorter)

declare parse_caveats.simps [simp del]

definition parse_macaroon :: "bytes \<Rightarrow> AccessError + Macaroon" where
  "parse_macaroon dat =
    (if length dat < 2 then Inl (AccessError ''empty macaroon'')
     else if dat ! 0 \<noteq> VERSION then Inl (AccessError ''invalid macaroon version'')
     else try_bind (parse_section (drop 1 dat)) (\<lambda>(rest, header).
       let header = strip_location header
       in if length header \<noteq> 1 \<or> field_type (header ! 0) \<noteq> FIELD_IDENTIFIER then Inl (AccessError ''invalid macaroon header'')
       else let head = payload (header ! 0)
       in try_bind (parse_caveats rest []) (\<lambda>(rest, cavs).
          try_bind (parse_packet rest) (\<lambda>(_, sig).
            if field_type sig \<noteq> FIELD_SIGNATURE then Inl (AccessError ''unexpected field found instead of signature'')
            else if length (payload sig) \<noteq> TAIL_LEN then Inl (AccessError ''signature has unexpected length'')
            else Inr \<lparr>mac_head = head, mac_caveats = cavs, mac_tail = payload sig\<rparr>))))"

definition serialize_macaroon :: "Macaroon \<Rightarrow> bytes" where
  "serialize_macaroon m =
    (let dat = [VERSION];
         dat = serialize_packet dat FIELD_IDENTIFIER (mac_head m);
         dat = dat @ [of_nat FIELD_EOS];
         dat = fold (\<lambda>cav dat. serialize_packet dat FIELD_IDENTIFIER cav @ [of_nat FIELD_EOS]) (mac_caveats m) dat;
         dat = dat @ [of_nat FIELD_EOS]
     in serialize_packet dat FIELD_SIGNATURE (mac_tail m))"

definition add_first_party_caveat :: "Crypto \<Rightarrow> Macaroon \<Rightarrow> bytes \<Rightarrow> Macaroon" where
  "add_first_party_caveat cr m caveat = m\<lparr>mac_tail := sign cr (mac_tail m) caveat, mac_caveats := mac_caveats m @ [caveat]\<rparr>"

definition derive_tail :: "Crypto \<Rightarrow> Macaroon \<Rightarrow> bytes \<Rightarrow> bytes" where
  "derive_tail cr m secret = fold (\<lambda>cav tail. sign cr tail cav) (mac_caveats m) (sign cr secret (mac_head m))"

definition validate :: "Crypto \<Rightarrow> Macaroon \<Rightarrow> bytes \<Rightarrow> bool" where
  "validate cr m secret = ct_eq (derive_tail cr m secret) (mac_tail m)"

definition tails :: "Crypto \<Rightarrow> Macaroon \<Rightarrow> bytes \<Rightarrow> bytes list" where
  "tails cr m secret =
    (let tail = sign cr secret (mac_head m)
     in fst (fold (\<lambda>cav (tails, tail). let tail = sign cr tail cav in (tails @ [tail], tail)) (mac_caveats m) ([tail], tail)))"

subsection \<open>API keys\<close>

text \<open>An \<open>ApiKey\<close> is its macaroon.\<close>

definition parse_raw :: "bytes \<Rightarrow> AccessError + Macaroon" where
  "parse_raw dat = parse_macaroon dat"

definition parse_api_key :: "B58 \<Rightarrow> bytes \<Rightarrow> AccessError + Macaroon" where
  "parse_api_key bc key =
    try_bind (map_err (\<lambda>_. AccessError ''invalid api key format'') (check_decode bc key)) (\<lambda>(dat, version).
      if version \<noteq> GRANT_VERSION then Inl (AccessError ''invalid api key format'') else parse_raw dat)"

definition serialize_api_key :: "B58 \<Rightarrow> Macaroon \<Rightarrow> bytes" where
  "serialize_api_key bc m = check_encode bc (serialize_macaroon m) GRANT_VERSION"

section \<open>Base58Check\<close>

lemma length_checksum: "b58_ok bc \<Longrightarrow> length (checksum bc x) = 4"
  by (simp add: checksum_def b58_ok_def)

lemma check_decode_encode:
  assumes "b58_ok bc"
  shows "check_decode bc (check_encode bc p v) = Inr (p, v)"
proof -
  have "length (checksum bc (v # p)) = 4" using length_checksum[OF assms] .
  moreover have "bs58_decode bc (bs58_encode bc x) = Some x" for x using assms by (simp add: b58_ok_def)
  ultimately show ?thesis by (simp add: check_decode_def check_encode_def)
qed

text \<open>What the checksum guards: a decoded payload is the encoding of itself, byte for byte.\<close>

lemma check_decode_sound:
  assumes "check_decode bc s = Inr (p, v)"
  shows "bs58_decode bc s = Some (v # p @ checksum bc (v # p))"
proof -
  obtain d where d: "bs58_decode bc s = Some d" "5 \<le> length d" "checksum bc (take (length d - 4) d) = drop (length d - 4) d"
    "p = drop 1 (take (length d - 4) d)" "v = hd d"
    using assms by (auto simp: check_decode_def split: option.splits if_splits)
  obtain x y where xy: "d = x # y" using d(2) by (cases d) auto
  have t: "take (length d - 4) d = v # p" using d(2,4,5) by (simp add: xy take_Cons')
  have "d = take (length d - 4) d @ drop (length d - 4) d" by simp
  then show ?thesis using d(1,3) t by (metis append_Cons)
qed

section \<open>Packets\<close>

definition uvarint :: "u64 \<Rightarrow> bytes" where
  "uvarint x = append_uvarint [] x"

lemma append_uvarint_append: "append_uvarint (b @ buf) x = b @ append_uvarint buf x"
proof (induction buf x rule: append_uvarint.induct)
  case (1 buf x)
  then show ?case by (subst append_uvarint.simps, subst (2) append_uvarint.simps) simp
qed

lemma append_uvarint_eq: "append_uvarint buf x = buf @ uvarint x"
  using append_uvarint_append[of buf "[]" x] by (simp add: uvarint_def)

lemma uvarint_rec:
  "uvarint x = (if x \<ge> 128 then ((ucast x AND 127) OR 128) # uvarint (drop_bit 7 x) else [ucast x])"
  by (subst uvarint_def, subst append_uvarint.simps) (simp add: append_uvarint_eq ucast_or_128)

lemma chunk_of_byte: "(ucast (b AND 127 :: u8) :: u64) = ucast b AND 127"
  by (simp add: unsigned_and_eq)

lemma parse_uvarint_from_uvarint:
  "shift = 7 * i \<Longrightarrow> shift < 64 \<Longrightarrow> unat x < 2 ^ (64 - shift) \<Longrightarrow> val OR push_bit shift x \<le> MAX_UVARINT \<Longrightarrow>
   parse_uvarint_from (uvarint x @ rest) i val shift = Inr (rest, val OR push_bit shift x)"
proof (induction x arbitrary: i val shift rule: varint_induct)
  case (small x)
  have u: "uvarint x = [ucast x]" using small(1) by (metis uvarint_rec leD)
  have c: "(ucast (ucast x AND 127 :: u8) :: u64) = x" using varint_byte_last[OF small(1)] by (simp add: chunk_of_byte)
  have "ucast x < (128 :: u8)" using small(1) varint_byte_last(1)[OF small(1)] by (simp flip: ucast_less_128)
  moreover have "\<not> (i = 9 \<and> x > 1)"
  proof
    assume "i = 9 \<and> x > 1"
    then have "unat x < 2" "1 < unat x" using small.prems by (auto simp: word_less_nat_alt)
    then show False by simp
  qed
  moreover have "i \<noteq> 10" using small.prems by auto
  ultimately show ?case using small.prems u c by (simp add: not_less[symmetric] del: not_less)
next
  case (large x)
  let ?b = "(ucast x AND 127) OR 128 :: u8"
  have 7: "shift + 7 < 64" "unat (drop_bit 7 x) < 2 ^ (64 - (shift + 7))"
    using drop7_bound[OF large(1)] large.prems by auto
  have b: "\<not> ?b < 128" "(ucast (?b AND 127) :: u64) = x AND 127"
    using varint_byte_high[of x] varint_byte_low[of x] unfolding ucast_less_128 chunk_of_byte by simp_all
  have i: "i \<noteq> 10" "i \<noteq> 9" "\<not> shift \<ge> 64" using 7(1) large.prems by auto
  have "parse_uvarint_from (uvarint x @ rest) i val shift =
      parse_uvarint_from (uvarint (drop_bit 7 x) @ rest) (i + 1) (val OR push_bit shift (x AND 127)) (shift + 7)"
    using large(1) by (subst uvarint_rec) (simp only: if_True append_Cons parse_uvarint_from.simps Let_def b i if_False simp_thms)
  also have "\<dots> = Inr (rest, (val OR push_bit shift (x AND 127)) OR push_bit (shift + 7) (drop_bit 7 x))"
    using 7 large.prems(1,4) by (intro large.IH) (simp_all only: or.assoc varint_shift, simp)
  finally show ?case by (simp only: or.assoc varint_shift)
qed

lemma parse_uvarint_uvarint: "x \<le> MAX_UVARINT \<Longrightarrow> parse_uvarint (uvarint x @ rest) = Inr (rest, x)"
  using parse_uvarint_from_uvarint[of 0 0 x 0 rest] unsigned_less[of x, where 'a = nat] by (simp add: parse_uvarint_def)

definition small_len :: "nat \<Rightarrow> bool" where
  "small_len n \<longleftrightarrow> n \<le> 0x7fffffff"

lemma small_len_word: "small_len n \<Longrightarrow> (of_nat n :: u64) \<le> MAX_UVARINT \<and> unat (of_nat n :: u64) = n"
  by (simp add: small_len_def MAX_UVARINT_def word_le_nat_alt unat_of_nat)

lemma parse_uvarint_result:
  "parse_uvarint d = Inr (rest, x) \<Longrightarrow> small_len (unat x) \<and> unat (ucast x :: u32) = unat x"
proof -
  assume "parse_uvarint d = Inr (rest, x)"
  then have "unat x \<le> 0x7fffffff"
    using parse_uvarint_from_shorter[of d 0 0 0 rest x] by (simp add: parse_uvarint_def MAX_UVARINT_def word_le_nat_alt)
  then show ?thesis by (simp add: small_len_def unsigned_ucast_eq take_bit_nat_eq_self)
qed

definition packet :: "nat \<Rightarrow> bytes \<Rightarrow> bytes" where
  "packet ft d = uvarint (of_nat ft) @ uvarint (of_nat (length d)) @ d"

lemma serialize_packet_eq: "serialize_packet buf ft d = buf @ packet ft d"
  by (simp add: serialize_packet_def packet_def append_uvarint_eq)

lemma parse_packet_packet:
  assumes "small_len ft" and "small_len (length d)" and "ft \<noteq> 0"
  shows "parse_packet (packet ft d @ rest) = Inr (rest, \<lparr>field_type = ft, payload = d\<rparr>)"
proof -
  have u: "unat (ucast (of_nat ft :: u64) :: u32) = ft"
    using parse_uvarint_result[OF parse_uvarint_uvarint[of "of_nat ft" "[]"]] small_len_word[OF assms(1)] by simp
  show ?thesis
    using assms small_len_word[OF assms(1)] small_len_word[OF assms(2)] u
    by (simp add: parse_packet_def packet_def parse_uvarint_uvarint FIELD_EOS_def)
qed

lemma uvarint_0: "uvarint 0 = [0]"
  by (subst uvarint_rec) simp

lemma parse_packet_eos: "parse_packet (0 # rest) = Inr (rest, \<lparr>field_type = 0, payload = []\<rparr>)"
  using parse_uvarint_uvarint[of 0 rest] by (simp add: parse_packet_def uvarint_0 FIELD_EOS_def MAX_UVARINT_def)

lemma packet_nonempty [simp]: "packet ft d \<noteq> []"
proof -
  have "uvarint x \<noteq> []" for x by (subst uvarint_rec) simp
  then show ?thesis by (simp add: packet_def)
qed

lemmas field_defs = FIELD_EOS_def FIELD_LOCATION_def FIELD_IDENTIFIER_def FIELD_VERIFICATION_ID_def FIELD_SIGNATURE_def

lemma parse_section_identifier:
  assumes "small_len (length d)"
  shows "parse_section (packet 2 d @ 0 # rest) = Inr (rest, [\<lparr>field_type = 2, payload = d\<rparr>])"
proof -
  have "parse_packet (packet 2 d @ 0 # rest) = Inr (0 # rest, \<lparr>field_type = 2, payload = d\<rparr>)"
    using assms by (intro parse_packet_packet) (simp_all add: small_len_def)
  then show ?thesis
    unfolding parse_section_def
    by (subst parse_section_loop.simps, simp add: field_defs)
       (subst parse_section_loop.simps, simp add: field_defs parse_packet_eos)
qed

lemma parse_section_empty: "parse_section (0 # rest) = Inr (rest, [])"
  unfolding parse_section_def by (subst parse_section_loop.simps) (simp add: field_defs parse_packet_eos)

lemma parse_caveats_serialized:
  "list_all (\<lambda>c. small_len (length c)) cs \<Longrightarrow>
   parse_caveats (concat (map (\<lambda>c. packet 2 c @ [0]) cs) @ 0 # rest) acc = Inr (rest, acc @ cs)"
proof (induction cs arbitrary: acc)
  case Nil
  then show ?case by (subst parse_caveats.simps) (simp add: parse_section_empty)
next
  case (Cons c cs)
  then show ?case
    by (subst parse_caveats.simps)
       (simp add: parse_section_identifier strip_location_def caveat_of_section_def field_defs)
qed

section \<open>Macaroons survive serialisation\<close>

definition mac_ok :: "Macaroon \<Rightarrow> bool" where
  "mac_ok m \<longleftrightarrow> small_len (length (mac_head m)) \<and> list_all (\<lambda>c. small_len (length c)) (mac_caveats m) \<and> length (mac_tail m) = 32"

lemma serialize_fold:
  "fold (\<lambda>cav dat. serialize_packet dat FIELD_IDENTIFIER cav @ [of_nat FIELD_EOS]) cs dat =
    dat @ concat (map (\<lambda>c. packet 2 c @ [0]) cs)"
  by (induction cs arbitrary: dat) (simp_all add: serialize_packet_eq field_defs)

lemma serialize_eq:
  "serialize_macaroon m = 2 # (packet 2 (mac_head m) @ 0 # (concat (map (\<lambda>c. packet 2 c @ [0]) (mac_caveats m)) @ 0 # packet 6 (mac_tail m)))"
  unfolding serialize_macaroon_def Let_def serialize_fold by (simp add: serialize_packet_eq VERSION_def field_defs)

lemma parse_serialize: "mac_ok m \<Longrightarrow> parse_macaroon (serialize_macaroon m) = Inr m"
proof -
  assume m: "mac_ok m"
  have "parse_packet (packet 6 (mac_tail m)) = Inr ([], \<lparr>field_type = 6, payload = mac_tail m\<rparr>)"
    using parse_packet_packet[of 6 "mac_tail m" "[]"] m by (simp add: mac_ok_def small_len_def)
  then show ?thesis
    using m parse_caveats_serialized[of "mac_caveats m" "packet 6 (mac_tail m)" "[]"]
    by (cases m) (simp add: parse_macaroon_def serialize_eq mac_ok_def parse_section_identifier strip_location_def
      field_defs VERSION_def TAIL_LEN_def)
qed

interpretation macaroon: codec serialize_macaroon parse_macaroon mac_ok
  by unfold_locales (rule parse_serialize)

lemma parse_packet_payload: "parse_packet d = Inr (rest, p) \<Longrightarrow> small_len (length (payload p))"
  by (auto simp: parse_packet_def result_simps small_len_def FIELD_EOS_def min_def dest!: parse_uvarint_result split: if_splits)

lemma parse_section_loop_payloads:
  "parse_section_loop d pf ps = Inr (rest, qs) \<Longrightarrow> list_all (\<lambda>p. small_len (length (payload p))) ps \<Longrightarrow>
   list_all (\<lambda>p. small_len (length (payload p))) qs"
proof (induction d pf ps rule: parse_section_loop.induct)
  case (1 d pf ps)
  obtain r p where p: "parse_packet d = Inr (r, p)" "d \<noteq> []"
    using 1(2) by (subst (asm) parse_section_loop.simps) (auto split: if_splits sum.splits)
  show ?case
  proof (cases "field_type p = FIELD_EOS \<or> int (field_type p) \<le> pf")
    case True
    then show ?thesis using 1(2,3) p by (subst (asm) parse_section_loop.simps) (auto split: if_splits)
  next
    case False
    then have r: "parse_section_loop r (int (field_type p)) (ps @ [p]) = Inr (rest, qs)"
      using 1(2) p by (subst (asm) parse_section_loop.simps) simp
    show ?thesis
      by (rule 1(1)[OF p(2,1) refl _ _ r]) (use False 1(3) parse_packet_payload[OF p(1)] in auto)
  qed
qed

lemma parse_section_payloads: "parse_section d = Inr (rest, qs) \<Longrightarrow> list_all (\<lambda>p. small_len (length (payload p))) (strip_location qs)"
  using parse_section_loop_payloads[of d "-1" "[]" rest qs]
  by (auto simp: parse_section_def strip_location_def split: list.splits)

lemma caveat_of_section_small:
  "caveat_of_section ps = Inr c \<Longrightarrow> list_all (\<lambda>p. small_len (length (payload p))) ps \<Longrightarrow> small_len (length c)"
  by (cases ps) (auto simp: caveat_of_section_def split: if_splits)

lemma parse_caveats_small:
  "parse_caveats d acc = Inr (rest, cs) \<Longrightarrow> list_all (\<lambda>c. small_len (length c)) acc \<Longrightarrow> list_all (\<lambda>c. small_len (length c)) cs"
proof (induction d acc rule: parse_caveats.induct)
  case (1 d acc)
  obtain a sec where a: "parse_section d = Inr (a, sec)"
    using 1(2) by (subst (asm) parse_caveats.simps) (auto split: sum.splits)
  show ?case
  proof (cases "sec = []")
    case True
    then show ?thesis using 1(2,3) a by (subst (asm) parse_caveats.simps) simp
  next
    case False
    then obtain c where c: "caveat_of_section (strip_location sec) = Inr c" "parse_caveats a (acc @ [c]) = Inr (rest, cs)"
      using 1(2) a by (subst (asm) parse_caveats.simps) (auto split: sum.splits)
    have "small_len (length c)" using caveat_of_section_small[OF c(1) parse_section_payloads[OF a]] .
    then show ?thesis by (intro 1(1)[OF a refl False c]) (use 1(3) in simp)
  qed
qed

lemma parse_macaroon_ok:
  assumes "parse_macaroon d = Inr m"
  shows "mac_ok m"
proof -
  obtain rest header cavs rest' and sig :: OwnedPacket where
    h: "parse_section (drop 1 d) = Inr (rest, header)" "length (strip_location header) = 1"
    and c: "parse_caveats rest [] = Inr (rest', cavs)" and g: "length (payload sig) = TAIL_LEN"
    and m: "m = \<lparr>mac_head = payload (strip_location header ! 0), mac_caveats = cavs, mac_tail = payload sig\<rparr>"
    using assms by (auto simp: parse_macaroon_def result_simps split: if_splits)
  have "small_len (length (payload (strip_location header ! 0)))"
    using parse_section_payloads[OF h(1)] h(2) by (cases "strip_location header") auto
  then show ?thesis using parse_caveats_small[OF c] g m by (simp add: mac_ok_def TAIL_LEN_def)
qed

text \<open>
  A macaroon whose identifier and caveats are not longer than a packet can be, and whose tail has 32
  bytes, is read back unchanged, from its binary form and from the Base58Check text of an API key, and no
  two such macaroons have the same binary form.
\<close>

theorem macaroon_round_trip:
  assumes "b58_ok bc" and "mac_ok m" and "mac_ok m'"
  shows "parse_macaroon (serialize_macaroon m) = Inr m \<and> parse_api_key bc (serialize_api_key bc m) = Inr m \<and>
    (serialize_macaroon m = serialize_macaroon m' \<longleftrightarrow> m = m')"
  using macaroon.dec_enc[OF assms(2)] macaroon.enc_inj[OF assms(2,3)] check_decode_encode[OF assms(1)]
  by (simp add: parse_api_key_def serialize_api_key_def parse_raw_def)

definition toy_b58 :: B58 where
  "toy_b58 = \<lparr>sha256 = (\<lambda>x. take 32 (x @ replicate 32 0)), bs58_encode = (\<lambda>x. x), bs58_decode = Some\<rparr>"

lemma toy_b58_ok: "b58_ok toy_b58"
  by (auto simp: b58_ok_def toy_b58_def min_def)

theorem macaroon_round_trip_witness:
  "let m = \<lparr>mac_head = [1], mac_caveats = [[2, 3], []], mac_tail = replicate 32 4\<rparr> in
   parse_macaroon (serialize_macaroon m) = Inr m \<and> parse_api_key toy_b58 (serialize_api_key toy_b58 m) = Inr m"
  using macaroon_round_trip[OF toy_b58_ok, of "\<lparr>mac_head = [1], mac_caveats = [[2, 3], []], mac_tail = replicate 32 4\<rparr>"
    "\<lparr>mac_head = [1], mac_caveats = [[2, 3], []], mac_tail = replicate 32 4\<rparr>"]
  by (simp add: mac_ok_def small_len_def)

section \<open>The binary format\<close>

text \<open>
  The format that \<open>Macaroon::parse\<close> accepts, written down on its own: a number is at most ten base-128 digits, the
  least significant first, all but the last with the high bit set; a packet is its field type, the length of its data and
  the data; a section is a sequence of packets with increasing field types, closed by the number zero.
\<close>

fun varint_value :: "bytes \<Rightarrow> nat" where
  "varint_value [] = 0"
| "varint_value (b # bs) = unat (b AND 127) + 128 * varint_value bs"

fun varint_shape :: "bytes \<Rightarrow> bool" where
  "varint_shape [] \<longleftrightarrow> False"
| "varint_shape (b # bs) \<longleftrightarrow> (if bs = [] then b < 128 else 128 \<le> b \<and> varint_shape bs)"

definition is_varint :: "bytes \<Rightarrow> nat \<Rightarrow> bool" where
  "is_varint a n \<longleftrightarrow> varint_shape a \<and> length a \<le> 10 \<and> varint_value a = n \<and> small_len n"

definition packet_bytes :: "OwnedPacket \<Rightarrow> bytes \<Rightarrow> bool" where
  "packet_bytes p bs \<longleftrightarrow> field_type p \<noteq> FIELD_EOS \<and>
    (\<exists>a b. bs = a @ b @ payload p \<and> is_varint a (field_type p) \<and> is_varint b (length (payload p)))"

fun section_bytes :: "nat \<Rightarrow> OwnedPacket list \<Rightarrow> bytes \<Rightarrow> bool" where
  "section_bytes prev [] bs \<longleftrightarrow> is_varint bs FIELD_EOS"
| "section_bytes prev (p # ps) bs \<longleftrightarrow> prev < field_type p \<and> (\<exists>a b. bs = a @ b \<and> packet_bytes p a \<and> section_bytes (field_type p) ps b)"

text \<open>
  A caveat section holds the caveat, possibly after a location and before a verification id; the header holds the identifier, possibly after a location.
\<close>

definition one_of_field :: "nat \<Rightarrow> OwnedPacket list \<Rightarrow> bool" where
  "one_of_field ft ps \<longleftrightarrow> ps = [] \<or> (\<exists>d. ps = [\<lparr>field_type = ft, payload = d\<rparr>])"

definition caveat_packets :: "bytes \<Rightarrow> OwnedPacket list \<Rightarrow> bool" where
  "caveat_packets c ps \<longleftrightarrow> (\<exists>loc vid. ps = loc @ [\<lparr>field_type = FIELD_IDENTIFIER, payload = c\<rparr>] @ vid \<and>
    one_of_field FIELD_LOCATION loc \<and> one_of_field FIELD_VERIFICATION_ID vid)"

definition header_packets :: "bytes \<Rightarrow> OwnedPacket list \<Rightarrow> bool" where
  "header_packets h ps \<longleftrightarrow> (\<exists>loc. ps = loc @ [\<lparr>field_type = FIELD_IDENTIFIER, payload = h\<rparr>] \<and> one_of_field FIELD_LOCATION loc)"

fun caveat_sections :: "bytes list \<Rightarrow> bytes \<Rightarrow> bool" where
  "caveat_sections [] bs \<longleftrightarrow> section_bytes 0 [] bs"
| "caveat_sections (c # cs) bs \<longleftrightarrow> (\<exists>ps a b. bs = a @ b \<and> section_bytes 0 ps a \<and> caveat_packets c ps \<and> caveat_sections cs b)"

definition macaroon_bytes :: "Macaroon \<Rightarrow> bytes \<Rightarrow> bool" where
  "macaroon_bytes m bs \<longleftrightarrow> (\<exists>hs hb cb sb trailing. bs = [VERSION] @ hb @ cb @ sb @ trailing \<and>
    section_bytes 0 hs hb \<and> header_packets (mac_head m) hs \<and> caveat_sections (mac_caveats m) cb \<and>
    packet_bytes \<lparr>field_type = FIELD_SIGNATURE, payload = mac_tail m\<rparr> sb \<and> length (mac_tail m) = TAIL_LEN)"

lemma unat_or_shift:
  assumes "unat (v :: u64) < 2 ^ s" "unat c * 2 ^ s < 2 ^ 64" "s < 64" "unat v + unat c * 2 ^ s < 2 ^ 64"
  shows "unat (v OR push_bit s c) = unat v + unat c * 2 ^ s"
proof -
  have v: "take_bit s v = v" using assms(1) by (simp add: word_unat_eq_iff unsigned_take_bit_eq take_bit_nat_eq_self)
  have "v AND push_bit s c = 0"
  proof (rule bit_word_eqI)
    fix n
    have "bit v n \<longleftrightarrow> n < s \<and> bit v n" by (metis v bit_take_bit_iff)
    then show "bit (v AND push_bit s c) n = bit (0 :: u64) n" by (auto simp: bit_simps)
  qed
  then have "v OR push_bit s c = v + push_bit s c" by (simp add: disjunctive_add_eq_or)
  moreover have "unat (push_bit s c) = take_bit 64 (push_bit s (unat c))" by (simp add: unsigned_push_bit_eq)
  then have "unat (push_bit s c) = unat c * 2 ^ s" using assms(2) by (simp add: push_bit_eq_mult[of s "unat c"] take_bit_nat_eq_self)
  ultimately show ?thesis using assms(4) by (simp add: unat_word_ariths)
qed

lemma parse_uvarint_from_iff:
  assumes "i \<le> 10" "unat val < 2 ^ (7 * i)"
  shows "parse_uvarint_from d i val (7 * i) = Inr (rest, v) \<longleftrightarrow>
    (\<exists>a. d = a @ rest \<and> varint_shape a \<and> length a + i \<le> 10 \<and> unat v = unat val + 2 ^ (7 * i) * varint_value a \<and> small_len (unat v))"
  using assms
proof (induction d arbitrary: i val)
  case (Cons b bs)
  let ?c = "ucast (b AND 127) :: u64" and ?m = "unat (b AND 127)"
  have c: "unat ?c = ?m" by simp
  have m: "?m < 128" using word_and_le1[of b 127] by (simp add: word_le_nat_alt)
  have first: "(\<exists>a. b # bs = a @ rest \<and> P a) \<longleftrightarrow> (\<exists>a. bs = a @ rest \<and> P (b # a))" if "\<not> P []" for P
    using that by (auto simp: Cons_eq_append_conv)
  consider (long) "i = 10" | (high) "i = 9" "1 < ?m" | (digit) "i \<le> 9" "i = 9 \<longrightarrow> ?m \<le> 1" using Cons.prems(1) by linarith
  then show ?case
  proof cases
    case long
    then show ?thesis by (auto simp: Cons_eq_append_conv)
  next
    case high
    have "\<not> small_len (unat val + 2 ^ 63 * ?m)" using high(2) by (auto simp: small_len_def)
    moreover have "1 < ?c" using high(2) c by (simp add: word_less_nat_alt)
    ultimately show ?thesis using high by (auto simp: first Let_def)
  next
    case digit
    let ?val = "val OR push_bit (7 * i) ?c"
    have p: "(2 :: nat) ^ (7 * i) * 128 = 2 ^ (7 * Suc i)" by (simp add: power_add)
    have bound: "unat val + ?m * 2 ^ (7 * i) < 2 ^ (7 * Suc i)"
    proof -
      have "?m * 2 ^ (7 * i) \<le> 127 * 2 ^ (7 * i)" using m by (intro mult_right_mono) auto
      then show ?thesis using Cons.prems(2) p by linarith
    qed
    have le: "unat val + ?m * 2 ^ (7 * i) < 2 ^ 64"
    proof (cases "i = 9")
      case True
      then have "?m * 2 ^ (7 * i) \<le> 1 * 2 ^ 63" using digit by (intro mult_mono) auto
      then show ?thesis using Cons.prems(2) True by simp
    next
      case False
      then have "(2 :: nat) ^ (7 * Suc i) \<le> 2 ^ 64" using digit(1) by (intro power_increasing) auto
      then show ?thesis using bound by linarith
    qed
    have val: "unat ?val = unat val + ?m * 2 ^ (7 * i)"
      using unat_or_shift[of val "7 * i" ?c] Cons.prems(2) le digit(1) c by simp
    have next_digit: "7 * i + 7 = 7 * Suc i" "i + 1 = Suc i" by simp_all
    have checks: "i \<noteq> 10" "\<not> (i = 9 \<and> 1 < ?c)" "\<not> 64 \<le> 7 * i" using digit c by (auto simp: word_less_nat_alt)
    show ?thesis
    proof (cases "b < 128")
      case True
      have "?val \<le> MAX_UVARINT \<longleftrightarrow> small_len (unat ?val)" by (simp add: MAX_UVARINT_def small_len_def word_le_nat_alt)
      then have "parse_uvarint_from (b # bs) i val (7 * i) = Inr (rest, v) \<longleftrightarrow> small_len (unat ?val) \<and> bs = rest \<and> ?val = v"
        using True checks by (auto simp: Let_def not_less[symmetric])
      also have "\<dots> \<longleftrightarrow> bs = rest \<and> unat v = unat val + 2 ^ (7 * i) * ?m \<and> small_len (unat v)"
        using val by (auto simp: word_unat_eq_iff mult.commute)
      finally show ?thesis using True digit(1) by (simp add: first) (auto simp: not_le[symmetric])
    next
      case False
      have sum: "unat ?val + 2 ^ (7 * Suc i) * varint_value a = unat val + 2 ^ (7 * i) * varint_value (b # a)" for a
        unfolding val p[symmetric] varint_value.simps by (simp only: distrib_left mult.assoc add.assoc mult.commute[of ?m])
      have shape: "varint_shape (b # a) \<longleftrightarrow> varint_shape a" for a using False by (cases a) (auto simp: not_less)
      have "parse_uvarint_from (b # bs) i val (7 * i) = parse_uvarint_from bs (Suc i) ?val (7 * Suc i)"
        using False checks next_digit by (simp only: parse_uvarint_from.simps Let_def if_False simp_thms)
      also have "\<dots> = Inr (rest, v) \<longleftrightarrow>
          (\<exists>a. bs = a @ rest \<and> varint_shape a \<and> length a + Suc i \<le> 10 \<and> unat v = unat ?val + 2 ^ (7 * Suc i) * varint_value a \<and> small_len (unat v))"
        using digit(1) val bound by (intro Cons.IH) simp_all
      also have "\<dots> \<longleftrightarrow> (\<exists>a. bs = a @ rest \<and> (varint_shape (b # a) \<and> length (b # a) + i \<le> 10 \<and>
          unat v = unat val + 2 ^ (7 * i) * varint_value (b # a) \<and> small_len (unat v)))"
        by (simp only: sum shape list.size add_Suc add_Suc_right add_0_right)
      finally show ?thesis
        using first[of "\<lambda>a. varint_shape a \<and> length a + i \<le> 10 \<and> unat v = unat val + 2 ^ (7 * i) * varint_value a \<and> small_len (unat v)"] by simp
    qed
  qed
qed auto

lemma parse_uvarint_iff: "parse_uvarint d = Inr (rest, v) \<longleftrightarrow> (\<exists>a. d = a @ rest \<and> is_varint a (unat v))"
  using parse_uvarint_from_iff[of 0 0 d rest v] by (auto simp: parse_uvarint_def is_varint_def)

lemma varint_word:
  assumes "is_varint a n"
  shows "unat (of_nat n :: u64) = n" "unat (ucast (of_nat n :: u64) :: u32) = n"
proof -
  have n: "small_len n" using assms by (simp add: is_varint_def)
  then show u: "unat (of_nat n :: u64) = n" using small_len_word by blast
  from parse_uvarint_result[OF parse_uvarint_uvarint[of "of_nat n" "[]"]] small_len_word[OF n] u
  show "unat (ucast (of_nat n :: u64) :: u32) = n" by simp
qed

lemma parse_uvarint_of: "is_varint a n \<Longrightarrow> parse_uvarint (a @ rest) = Inr (rest, of_nat n)"
  using parse_uvarint_iff[of "a @ rest" rest "of_nat n"] varint_word(1)[of a n] by auto

lemma parse_packet_iff:
  "parse_packet d = Inr (rest, p) \<longleftrightarrow>
    (if field_type p = FIELD_EOS then payload p = [] \<and> (\<exists>a. d = a @ rest \<and> is_varint a FIELD_EOS) else \<exists>a. d = a @ rest \<and> packet_bytes p a)"
  (is "?l \<longleftrightarrow> ?r")
proof
  assume ?l
  then obtain d1 ft where 1: "parse_uvarint d = Inr (d1, ft)" and rest: "let ft = unat (ucast ft :: u32) in
      if ft = FIELD_EOS then rest = d1 \<and> p = \<lparr>field_type = ft, payload = []\<rparr>
      else \<exists>d2 n. parse_uvarint d1 = Inr (d2, n) \<and> unat n \<le> length d2 \<and> rest = drop (unat n) d2 \<and> p = \<lparr>field_type = ft, payload = take (unat n) d2\<rparr>"
    by (auto simp: parse_packet_def result_simps Let_def split: if_splits)
  have ft: "unat (ucast ft :: u32) = unat ft" using parse_uvarint_result[OF 1] by simp
  obtain a where a: "d = a @ d1" "is_varint a (unat ft)" using 1 parse_uvarint_iff by blast
  show ?r
  proof (cases "unat ft = FIELD_EOS")
    case True
    then show ?thesis using rest a ft by (auto simp: Let_def)
  next
    case False
    then obtain d2 n where 2: "parse_uvarint d1 = Inr (d2, n)" "unat n \<le> length d2" "rest = drop (unat n) d2"
        "p = \<lparr>field_type = unat ft, payload = take (unat n) d2\<rparr>"
      using rest ft by (auto simp: Let_def)
    then obtain b where b: "d1 = b @ d2" "is_varint b (unat n)" using parse_uvarint_iff by blast
    have "d = (a @ b @ payload p) @ rest" using a b 2 by simp
    moreover have "packet_bytes p (a @ b @ payload p)" unfolding packet_bytes_def using False a(2) b(2) 2(2,4) by (intro conjI exI) auto
    ultimately show ?thesis using False 2(4) by auto
  qed
next
  assume r: ?r
  show ?l
  proof (cases "field_type p = FIELD_EOS")
    case True
    then obtain a where "d = a @ rest" "is_varint a FIELD_EOS" "payload p = []" using r by auto
    then show ?thesis using True by (cases p) (simp add: parse_packet_def parse_uvarint_of field_defs)
  next
    case False
    then obtain a b where ab: "d = (a @ b @ payload p) @ rest" "is_varint a (field_type p)" "is_varint b (length (payload p))"
      using r by (auto simp: packet_bytes_def)
    then show ?thesis using False varint_word[OF ab(2)] varint_word(1)[OF ab(3)]
      by (cases p) (simp add: parse_packet_def parse_uvarint_of Let_def)
  qed
qed

lemma is_varint_nonempty: "is_varint a n \<Longrightarrow> a \<noteq> []"
  by (auto simp: is_varint_def)

lemma parse_section_loop_sound:
  "parse_section_loop d pf acc = Inr (rest, qs) \<Longrightarrow> -1 \<le> pf \<Longrightarrow> \<exists>ps bs. qs = acc @ ps \<and> d = bs @ rest \<and> section_bytes (nat pf) ps bs"
proof (induction d pf acc rule: parse_section_loop.induct)
  case (1 d pf acc)
  obtain r p where p: "parse_packet d = Inr (r, p)" "d \<noteq> []"
    using 1(2) by (subst (asm) parse_section_loop.simps) (auto split: if_splits sum.splits)
  note bytes = p(1)[unfolded parse_packet_iff]
  show ?case
  proof (cases "field_type p = FIELD_EOS")
    case True
    then have "rest = r" "qs = acc" using 1(2) p by (subst (asm) parse_section_loop.simps; simp)+
    then show ?thesis using bytes True by auto
  next
    case False
    then have step: "\<not> int (field_type p) \<le> pf" "parse_section_loop r (int (field_type p)) (acc @ [p]) = Inr (rest, qs)"
      using 1(2) p by (subst (asm) parse_section_loop.simps; simp split: if_splits)+
    obtain ps bs where ps: "qs = (acc @ [p]) @ ps" "r = bs @ rest" "section_bytes (field_type p) ps bs"
      using 1(1)[OF p(2,1) refl False step(1) step(2)] by auto
    obtain a where a: "d = a @ r" "packet_bytes p a" using bytes False by auto
    have "field_type p \<noteq> 0" using False by (simp add: field_defs)
    then have "nat pf < field_type p" using step(1) by linarith
    then have "section_bytes (nat pf) (p # ps) (a @ bs)" using ps(3) a(2) by auto
    then show ?thesis using ps(1,2) a(1) by (intro exI[of _ "p # ps"] exI[of _ "a @ bs"]) simp
  qed
qed

lemma parse_section_loop_complete:
  "section_bytes (nat pf) ps bs \<Longrightarrow> -1 \<le> pf \<Longrightarrow> parse_section_loop (bs @ rest) pf acc = Inr (rest, acc @ ps)"
proof (induction ps arbitrary: pf bs acc)
  case Nil
  then have "parse_packet (bs @ rest) = Inr (rest, \<lparr>field_type = FIELD_EOS, payload = []\<rparr>)" "bs \<noteq> []"
    unfolding parse_packet_iff by (auto dest: is_varint_nonempty)
  then show ?case by (subst parse_section_loop.simps) simp
next
  case (Cons p ps)
  then obtain a b where ab: "bs = a @ b" "packet_bytes p a" "section_bytes (field_type p) ps b" "nat pf < field_type p" by auto
  have f: "field_type p \<noteq> FIELD_EOS" using ab(2) by (simp add: packet_bytes_def)
  have "parse_packet (bs @ rest) = Inr (b @ rest, p)" unfolding parse_packet_iff using ab f by auto
  moreover have "bs \<noteq> []" using ab(1,2) by (auto simp: packet_bytes_def dest: is_varint_nonempty)
  moreover have "parse_section_loop (b @ rest) (int (field_type p)) (acc @ [p]) = Inr (rest, (acc @ [p]) @ ps)"
    using ab(3) by (intro Cons.IH) simp_all
  moreover have "\<not> int (field_type p) \<le> pf" using ab(4) by linarith
  ultimately show ?case using f by (subst parse_section_loop.simps) simp
qed

lemma parse_section_iff: "parse_section d = Inr (rest, ps) \<longleftrightarrow> (\<exists>bs. d = bs @ rest \<and> section_bytes 0 ps bs)"
  using parse_section_loop_sound[of d "-1" "[]" rest ps] parse_section_loop_complete[of "-1" ps _ rest "[]"]
  by (auto simp: parse_section_def)

lemma one_of_field_single: "field_type p = ft \<Longrightarrow> one_of_field ft [p]"
  by (cases p) (simp add: one_of_field_def)

lemma strip_locationE:
  obtains loc qs where "ps = loc @ qs" "one_of_field FIELD_LOCATION loc" "strip_location ps = qs"
proof (cases ps)
  case Nil
  then show thesis by (intro that[of "[]" ps]) (simp_all add: strip_location_def one_of_field_def)
next
  case (Cons p qs)
  show thesis
  proof (cases "field_type p = FIELD_LOCATION")
    case True
    then show thesis using Cons by (intro that[of "[p]" qs] one_of_field_single) (simp_all add: strip_location_def)
  next
    case False
    then show thesis using Cons by (intro that[of "[]" ps]) (simp_all add: strip_location_def one_of_field_def)
  qed
qed

lemma caveat_of_section_iff: "caveat_of_section (strip_location ps) = Inr c \<longleftrightarrow> caveat_packets c ps"
proof
  assume r: "caveat_of_section (strip_location ps) = Inr c"
  obtain loc qs where q: "ps = loc @ qs" "one_of_field FIELD_LOCATION loc" "strip_location ps = qs" by (rule strip_locationE)
  have "\<exists>vid. qs = \<lparr>field_type = FIELD_IDENTIFIER, payload = c\<rparr> # vid \<and> one_of_field FIELD_VERIFICATION_ID vid"
  proof (cases qs)
    case (Cons p vid)
    have "vid = [] \<or> (\<exists>v. vid = [v] \<and> field_type v = FIELD_VERIFICATION_ID)" "field_type p = FIELD_IDENTIFIER" "payload p = c"
      using r unfolding q(3) Cons by (cases vid; simp add: caveat_of_section_def Let_def length_Suc_conv split: if_splits; blast?)+
    then show ?thesis unfolding Cons by (cases p) (auto intro: one_of_field_single simp: one_of_field_def[of _ "[]"])
  qed (use r q(3) in \<open>simp add: caveat_of_section_def\<close>)
  then show "caveat_packets c ps" using q by (auto simp: caveat_packets_def)
next
  assume "caveat_packets c ps"
  then show "caveat_of_section (strip_location ps) = Inr c"
    by (auto simp: caveat_packets_def one_of_field_def strip_location_def caveat_of_section_def field_defs)
qed

lemma caveat_packets_nonempty: "caveat_packets c ps \<Longrightarrow> ps \<noteq> []"
  by (auto simp: caveat_packets_def)

lemma parse_caveats_sound: "parse_caveats d acc = Inr (rest, cs) \<Longrightarrow> \<exists>cs' bs. cs = acc @ cs' \<and> d = bs @ rest \<and> caveat_sections cs' bs"
proof (induction d acc rule: parse_caveats.induct)
  case (1 d acc)
  obtain r ps where r: "parse_section d = Inr (r, ps)" using 1(2) by (subst (asm) parse_caveats.simps) (auto split: sum.splits)
  then obtain a where a: "d = a @ r" "section_bytes 0 ps a" using parse_section_iff by blast
  show ?case
  proof (cases "ps = []")
    case True
    then have "rest = r" "cs = acc" using 1(2) r by (subst (asm) parse_caveats.simps; simp)+
    then show ?thesis using a True by (intro exI[of _ "[]"] exI[of _ a]) simp
  next
    case False
    then obtain c where c: "caveat_of_section (strip_location ps) = Inr c" "parse_caveats r (acc @ [c]) = Inr (rest, cs)"
      using 1(2) r by (subst (asm) parse_caveats.simps) (auto split: sum.splits)
    from 1(1)[OF r refl False c] obtain cs' bs where "cs = (acc @ [c]) @ cs'" "r = bs @ rest" "caveat_sections cs' bs" by blast
    then show ?thesis using a c(1) caveat_of_section_iff by (intro exI[of _ "c # cs'"] exI[of _ "a @ bs"]) auto
  qed
qed

lemma parse_caveats_complete: "caveat_sections cs bs \<Longrightarrow> parse_caveats (bs @ rest) acc = Inr (rest, acc @ cs)"
proof (induction cs arbitrary: bs acc)
  case Nil
  then have "parse_section (bs @ rest) = Inr (rest, [])" unfolding parse_section_iff by auto
  then show ?case by (subst parse_caveats.simps) simp
next
  case (Cons c cs)
  then obtain ps a b where ab: "bs = a @ b" "section_bytes 0 ps a" "caveat_packets c ps" "caveat_sections cs b" by auto
  have "parse_section (bs @ rest) = Inr (b @ rest, ps)" unfolding parse_section_iff using ab by auto
  moreover have "caveat_of_section (strip_location ps) = Inr c" using ab(3) caveat_of_section_iff by blast
  ultimately show ?case using Cons.IH[OF ab(4), of "acc @ [c]"] caveat_packets_nonempty[OF ab(3)]
    by (subst parse_caveats.simps) simp
qed

lemma header_iff:
  "(length (strip_location ps) = 1 \<and> field_type (strip_location ps ! 0) = FIELD_IDENTIFIER \<and> payload (strip_location ps ! 0) = h) \<longleftrightarrow> header_packets h ps"
proof
  assume r: "length (strip_location ps) = 1 \<and> field_type (strip_location ps ! 0) = FIELD_IDENTIFIER \<and> payload (strip_location ps ! 0) = h"
  then obtain p where p: "strip_location ps = [p]" by (auto simp: length_Suc_conv)
  then have "p = \<lparr>field_type = FIELD_IDENTIFIER, payload = h\<rparr>" using r by (cases p) simp
  moreover have "\<exists>loc. ps = loc @ [p] \<and> one_of_field FIELD_LOCATION loc" using p by (metis strip_locationE)
  ultimately show "header_packets h ps" unfolding header_packets_def by blast
next
  assume "header_packets h ps"
  then show "length (strip_location ps) = 1 \<and> field_type (strip_location ps ! 0) = FIELD_IDENTIFIER \<and> payload (strip_location ps ! 0) = h"
    by (auto simp: header_packets_def one_of_field_def strip_location_def field_defs)
qed

text \<open>
  C33: \<open>Macaroon::parse\<close> accepts exactly the binary format of macaroons and returns exactly what the bytes say: the version byte, a
  header section with the identifier, one section per caveat, an empty section and a signature packet of 32 bytes, where sections
  may also hold a location and, for a caveat, a verification id, numbers may have leading zeros within ten bytes, and what follows the signature is ignored.
\<close>

theorem parser_accepts_exactly_the_format:
  "parse_macaroon bs = Inr m \<longleftrightarrow> macaroon_bytes m bs"
proof
  assume "parse_macaroon bs = Inr m"
  then obtain rest hs cavs rest' after and sig :: OwnedPacket where len: "\<not> length bs < 2" "bs ! 0 = VERSION"
    and h: "parse_section (drop 1 bs) = Inr (rest, hs)" "length (strip_location hs) = 1" "field_type (strip_location hs ! 0) = FIELD_IDENTIFIER"
    and c: "parse_caveats rest [] = Inr (rest', cavs)" and g: "parse_packet rest' = Inr (after, sig)"
      "field_type sig = FIELD_SIGNATURE" "length (payload sig) = TAIL_LEN"
    and m: "m = \<lparr>mac_head = payload (strip_location hs ! 0), mac_caveats = cavs, mac_tail = payload sig\<rparr>"
    by (auto simp: parse_macaroon_def result_simps split: if_splits)
  have bs: "bs = [VERSION] @ drop 1 bs" using len by (cases bs) auto
  obtain hb where hb: "drop 1 bs = hb @ rest" "section_bytes 0 hs hb" using h(1) parse_section_iff by blast
  obtain cb where cb: "rest = cb @ rest'" "caveat_sections cavs cb" using parse_caveats_sound[OF c] by auto
  have sig: "sig = \<lparr>field_type = FIELD_SIGNATURE, payload = mac_tail m\<rparr>" using g(2) m by (cases sig) simp
  obtain sb where sb: "rest' = sb @ after" "packet_bytes sig sb" using g(1,2) unfolding parse_packet_iff by (auto simp: field_defs)
  have "header_packets (mac_head m) hs" using h(2,3) m header_iff[of hs "mac_head m"] by simp
  moreover have "bs = [VERSION] @ hb @ cb @ sb @ after" using bs hb(1) cb(1) sb(1) by (simp only: append_assoc)
  moreover have "caveat_sections (mac_caveats m) cb" "length (mac_tail m) = TAIL_LEN" using cb(2) g(3) m by simp_all
  moreover note hb(2) sb(2)[unfolded sig]
  ultimately show "macaroon_bytes m bs" unfolding macaroon_bytes_def by (intro exI conjI)
next
  assume "macaroon_bytes m bs"
  then obtain hs hb cb sb trailing where b: "bs = [VERSION] @ hb @ cb @ sb @ trailing" "section_bytes 0 hs hb" "header_packets (mac_head m) hs"
      "caveat_sections (mac_caveats m) cb" "packet_bytes \<lparr>field_type = FIELD_SIGNATURE, payload = mac_tail m\<rparr> sb" "length (mac_tail m) = TAIL_LEN"
    unfolding macaroon_bytes_def by blast
  have "sb \<noteq> []" using b(5) by (auto simp: packet_bytes_def dest: is_varint_nonempty)
  then have len: "\<not> length bs < 2" using b(1) by (cases sb) auto
  have "parse_section (drop 1 bs) = Inr (cb @ sb @ trailing, hs)" unfolding parse_section_iff using b(1,2) by auto
  moreover have "parse_caveats (cb @ sb @ trailing) [] = Inr (sb @ trailing, mac_caveats m)" using parse_caveats_complete[OF b(4)] by simp
  moreover have "parse_packet (sb @ trailing) = Inr (trailing, \<lparr>field_type = FIELD_SIGNATURE, payload = mac_tail m\<rparr>)"
    unfolding parse_packet_iff using b(5) by (auto simp: field_defs)
  moreover note header_iff[THEN iffD2, OF b(3)]
  ultimately show "parse_macaroon bs = Inr m" using len b(1,6) by (simp add: parse_macaroon_def field_defs)
qed

section \<open>The caveat chain\<close>

lemma fold_or_zero: "fold (\<lambda>(x, y) acc. acc OR (x XOR y)) zs a = (0 :: u8) \<longleftrightarrow> a = 0 \<and> (\<forall>(x, y) \<in> set zs. x = y)"
proof (induction zs arbitrary: a)
  case (Cons z zs)
  obtain x y where z: "z = (x, y)" by (cases z)
  have "a OR (x XOR y) = 0 \<longleftrightarrow> a = 0 \<and> x = y"
    by (metis bit.xor_self or.left_neutral or_eq_0_iff xor_self_eq word_bw_lcs(3) xor.right_neutral)
  then show ?case using Cons z by auto
qed simp

lemma ct_eq_iff: "ct_eq a b \<longleftrightarrow> a = b"
proof (cases "length a = length b")
  case True
  have "(\<forall>(x, y) \<in> set (zip a b). x = y) \<longleftrightarrow> a = b"
    using True by (induction a b rule: list_induct2) auto
  then show ?thesis using True by (simp add: ct_eq_def fold_or_zero)
qed (auto simp: ct_eq_def)

lemma tails_fold:
  "fold (\<lambda>cav (tails, tail). let tail = sign cr tail cav in (tails @ [tail], tail)) cs (ts @ [t], t) = (us, u) \<Longrightarrow>
   u = fold (\<lambda>cav tail. sign cr tail cav) cs t \<and> length us = Suc (length ts + length cs) \<and> us \<noteq> [] \<and> last us = u"
proof (induction cs arbitrary: ts t)
  case (Cons c cs)
  then show ?case using Cons.IH[of "ts @ [t]" "sign cr t c"] by simp
qed auto

lemma tails_snoc:
  "tails cr (add_first_party_caveat cr m c) secret = tails cr m secret @ [sign cr (last (tails cr m secret)) c]"
proof -
  let ?f = "\<lambda>cav (tails, tail). let tail = sign cr tail cav in (tails @ [tail], tail)"
  obtain us u where u: "fold ?f (mac_caveats m) ([sign cr secret (mac_head m)], sign cr secret (mac_head m)) = (us, u)"
    by (cases "fold ?f (mac_caveats m) ([sign cr secret (mac_head m)], sign cr secret (mac_head m))")
  then have "last us = u" using tails_fold[of cr "mac_caveats m" "[]"] by auto
  then show ?thesis using u by (simp add: tails_def add_first_party_caveat_def)
qed

lemma tails_last: "last (tails cr m secret) = derive_tail cr m secret" "length (tails cr m secret) = Suc (length (mac_caveats m))"
  using tails_fold[of cr "mac_caveats m" "[]" "sign cr secret (mac_head m)"]
  by (cases "fold (\<lambda>cav (tails, tail). let tail = sign cr tail cav in (tails @ [tail], tail)) (mac_caveats m)
        ([sign cr secret (mac_head m)], sign cr secret (mac_head m))"; simp add: tails_def derive_tail_def)+

text \<open>
  C34: A macaroon is valid for a secret exactly if its tail is the last link of the chain that its caveats
  extend; a fresh one is valid, adding a caveat appends one link, keeps the identifier and every earlier
  caveat and keeps the macaroon valid, and two valid macaroons with the same identifier and caveats are the
  same macaroon.
\<close>

theorem caveat_chain:
  "validate cr (from_parts cr h secret) secret \<and>
   (validate cr m secret \<longleftrightarrow> mac_tail m = last (tails cr m secret)) \<and>
   length (tails cr m secret) = Suc (length (mac_caveats m)) \<and>
   (validate cr m secret \<longrightarrow>
      (let m' = add_first_party_caveat cr m c in
       validate cr m' secret \<and> mac_caveats m' = mac_caveats m @ [c] \<and> mac_head m' = mac_head m \<and>
       tails cr m' secret = tails cr m secret @ [sign cr (mac_tail m) c])) \<and>
   (validate cr m secret \<and> validate cr m' secret \<and> mac_head m = mac_head m' \<and> mac_caveats m = mac_caveats m' \<longrightarrow> m = m')"
proof -
  have v: "validate cr x secret \<longleftrightarrow> mac_tail x = last (tails cr x secret)" for x
    by (auto simp: validate_def ct_eq_iff tails_last)
  have "validate cr (from_parts cr h secret) secret"
    by (simp add: validate_def ct_eq_iff derive_tail_def from_parts_def)
  moreover have "validate cr m secret \<longrightarrow>
      (let m' = add_first_party_caveat cr m c in
       validate cr m' secret \<and> mac_caveats m' = mac_caveats m @ [c] \<and> mac_head m' = mac_head m \<and>
       tails cr m' secret = tails cr m secret @ [sign cr (mac_tail m) c])"
    using v tails_snoc[of cr m c secret] by (auto simp: add_first_party_caveat_def)
  moreover have "validate cr m secret \<and> validate cr m' secret \<and> mac_head m = mac_head m' \<and> mac_caveats m = mac_caveats m' \<longrightarrow> m = m'"
    by (cases m; cases m') (auto simp: validate_def ct_eq_iff derive_tail_def)
  ultimately show ?thesis using v[of m] tails_last(2)[of cr m secret] by blast
qed

theorem caveat_chain_witness:
  "validate toy_crypto (add_first_party_caveat toy_crypto (from_parts toy_crypto [1] [2]) [3]) [2]"
  using caveat_chain[of toy_crypto "[1]" "[2]" "from_parts toy_crypto [1] [2]" "[3]"] by (simp add: Let_def)

end
