(* ===== verification/Grant.thy ===== *)
theory Grant
  imports Macaroon Path_Crypto Utf8 "HOL-Library.Countable"
begin

text \<open>
  Caveats and access grants of \<open>crates/storj-access\<close>: the caveat half of \<open>macaroon.rs\<close>, \<open>grant.rs\<close>,
  \<open>restrict.rs\<close> and the message types of \<open>pb.rs\<close>.  The protobuf wire format is the crate \<open>prost\<close>: the record
  \<open>Pb\<close> holds its four functions, and \<open>pb_ok\<close> states that decoding inverts encoding on values that fit the
  declared types.  A \<open>SystemTime\<close> is a number of nanoseconds since the epoch, a \<open>Duration\<close> a number of
  nanoseconds; \<open>getrandom\<close> is an argument.  The \<open>CipherSuite\<close> of the grant and of the encryption crate are
  the same number.  The entries of a store come in the order of its association lists, that is in the order in which they were
  added; the code iterates over a \<open>HashMap\<close>, whose order may differ from run to run, so that for a store with several entries
  the comparison of the limited access with the original one in \<open>parse\<close> may also fail when only the order differs.  Then the grant
  is the same but is serialised from its fields.

  The main result is that a restricted grant is confined: it holds no root key and no store entry
  outside the paths that every one of its caveats allows.
\<close>

section \<open>The code\<close>

subsection \<open>Message types\<close>

record PbDuration =
  du_seconds :: int
  du_nanos :: int

record CaveatPath =
  cp_bucket :: bytes
  encrypted_path_prefix :: bytes

record PbCaveat =
  pb_disallow_reads :: bool
  pb_disallow_writes :: bool
  pb_disallow_lists :: bool
  pb_disallow_deletes :: bool
  pb_disallow_locks :: bool
  pb_disallow_put_retention :: bool
  pb_disallow_get_retention :: bool
  pb_disallow_put_legal_hold :: bool
  pb_disallow_get_legal_hold :: bool
  pb_allowed_paths :: "CaveatPath list"
  pb_disallow_bypass_governance_retention :: bool
  pb_disallow_put_bucket_object_lock_configuration :: bool
  pb_disallow_get_bucket_object_lock_configuration :: bool
  pb_disallow_put_bucket_notification_configuration :: bool
  pb_disallow_get_bucket_notification_configuration :: bool
  pb_not_after :: "PbTimestamp option"
  pb_not_before :: "PbTimestamp option"
  pb_max_object_ttl :: "PbDuration option"
  pb_nonce :: bytes

record PbStoreEntry =
  pse_bucket :: bytes
  pse_unencrypted_path :: bytes
  pse_encrypted_path :: bytes
  pse_key :: bytes
  pse_path_cipher :: int
  pse_parameters :: "(int \<times> int) option"

record PbEncryptionAccess =
  pea_default_key :: bytes
  pea_store_entries :: "PbStoreEntry list"
  pea_default_path_cipher :: int
  pea_default_parameters :: "(int \<times> int) option"

record PbScope =
  sc_satellite_addr :: bytes
  sc_api_key :: bytes
  sc_encryption_access :: "PbEncryptionAccess option"

record Pb =
  scope_encode :: "PbScope \<Rightarrow> bytes"
  scope_decode :: "bytes \<Rightarrow> PbScope option"
  caveat_encode :: "PbCaveat \<Rightarrow> bytes"
  caveat_decode :: "bytes \<Rightarrow> PbCaveat option"

definition is_i32 :: "int \<Rightarrow> bool" where "is_i32 x \<longleftrightarrow> - (2 ^ 31) \<le> x \<and> x < 2 ^ 31"
definition is_i64 :: "int \<Rightarrow> bool" where "is_i64 x \<longleftrightarrow> - (2 ^ 63) \<le> x \<and> x < 2 ^ 63"

definition scope_fits :: "PbScope \<Rightarrow> bool" where
  "scope_fits s \<longleftrightarrow> utf8_valid (sc_satellite_addr s) \<and>
    (case sc_encryption_access s of None \<Rightarrow> True
     | Some e \<Rightarrow> is_i32 (pea_default_path_cipher e) \<and> pea_default_parameters e = None \<and>
         list_all (\<lambda>x. is_i32 (pse_path_cipher x) \<and> pse_parameters x = None) (pea_store_entries e))"

definition time_fits :: "PbTimestamp option \<Rightarrow> bool" where
  "time_fits t = (case t of None \<Rightarrow> True | Some t \<Rightarrow> is_i64 (ts_seconds t) \<and> is_i32 (ts_nanos t))"

definition caveat_fits :: "PbCaveat \<Rightarrow> bool" where
  "caveat_fits c \<longleftrightarrow> time_fits (pb_not_after c) \<and> time_fits (pb_not_before c) \<and>
    (case pb_max_object_ttl c of None \<Rightarrow> True | Some d \<Rightarrow> is_i64 (du_seconds d) \<and> is_i32 (du_nanos d))"

definition pb_ok :: "Pb \<Rightarrow> bool" where
  "pb_ok pb \<longleftrightarrow> (\<forall>s. scope_fits s \<longrightarrow> scope_decode pb (scope_encode pb s) = Some s) \<and>
    (\<forall>c. caveat_fits c \<longrightarrow> caveat_decode pb (caveat_encode pb c) = Some c)"

subsection \<open>Times\<close>

abbreviation (input) NANOS :: int where "NANOS \<equiv> 1000000000"

definition timestamp_from_system :: "int \<Rightarrow> PbTimestamp" where
  "timestamp_from_system t =
    (if t \<ge> 0 then \<lparr>ts_seconds = min (t div NANOS) i64_max, ts_nanos = t mod NANOS\<rparr>
     else let d = - t;
              seconds = - (min (d div NANOS) i64_max);
              nanos = - (d mod NANOS)
          in if nanos < 0 then \<lparr>ts_seconds = max (seconds - 1) i64_min, ts_nanos = nanos + NANOS\<rparr>
             else \<lparr>ts_seconds = seconds, ts_nanos = nanos\<rparr>)"

text \<open>A \<open>SystemTime\<close> keeps its seconds in an \<open>i64\<close>; \<open>checked_add\<close> and \<open>checked_sub\<close> fail outside.\<close>

definition checked_time :: "int \<Rightarrow> int option" where
  "checked_time t = (if i64_min \<le> t div NANOS \<and> t div NANOS \<le> i64_max then Some t else None)"

definition system_from_timestamp :: "PbTimestamp \<Rightarrow> int option" where
  "system_from_timestamp ts =
    (let nanos = max (ts_nanos ts) 0
     in Option.bind (checked_time (if ts_seconds ts \<ge> 0 then abs (ts_seconds ts) * NANOS else - (abs (ts_seconds ts) * NANOS)))
          (\<lambda>t. checked_time (t + nanos)))"

definition duration_from_std :: "int \<Rightarrow> PbDuration" where
  "duration_from_std d = \<lparr>du_seconds = min (d div NANOS) i64_max, du_nanos = d mod NANOS\<rparr>"

definition std_from_duration :: "PbDuration \<Rightarrow> int option" where
  "std_from_duration d = (if du_seconds d < 0 then None else Some (du_seconds d * NANOS + max (du_nanos d) 0))"

subsection \<open>Caveats and permissions\<close>

record Caveat =
  disallow_reads :: bool
  disallow_writes :: bool
  disallow_lists :: bool
  disallow_deletes :: bool
  disallow_locks :: bool
  disallow_put_retention :: bool
  disallow_get_retention :: bool
  disallow_put_legal_hold :: bool
  disallow_get_legal_hold :: bool
  disallow_bypass_governance_retention :: bool
  disallow_put_bucket_object_lock_configuration :: bool
  disallow_get_bucket_object_lock_configuration :: bool
  disallow_put_bucket_notification_configuration :: bool
  disallow_get_bucket_notification_configuration :: bool
  allowed_paths :: "CaveatPath list"
  cav_not_after :: "int option"
  cav_not_before :: "int option"
  cav_max_object_ttl :: "int option"
  cav_nonce :: bytes

record Permission =
  allow_download :: bool
  allow_upload :: bool
  allow_list :: bool
  allow_delete :: bool
  allow_lock :: bool
  allow_put_object_retention :: bool
  allow_get_object_retention :: bool
  allow_put_object_legal_hold :: bool
  allow_get_object_legal_hold :: bool
  allow_bypass_governance_retention :: bool
  allow_put_bucket_object_lock_configuration :: bool
  allow_get_bucket_object_lock_configuration :: bool
  not_before :: "int option"
  not_after :: "int option"
  max_object_ttl :: "int option"

definition default_permission :: Permission where
  "default_permission =
    \<lparr>allow_download = False, allow_upload = False, allow_list = False, allow_delete = False, allow_lock = False,
     allow_put_object_retention = False, allow_get_object_retention = False, allow_put_object_legal_hold = False,
     allow_get_object_legal_hold = False, allow_bypass_governance_retention = False,
     allow_put_bucket_object_lock_configuration = False, allow_get_bucket_object_lock_configuration = False,
     not_before = None, not_after = None, max_object_ttl = None\<rparr>"

definition full :: Permission where
  "full = default_permission
    \<lparr>allow_download := True, allow_upload := True, allow_list := True, allow_delete := True,
     allow_put_object_retention := True, allow_get_object_retention := True, allow_put_object_legal_hold := True,
     allow_get_object_legal_hold := True, allow_bypass_governance_retention := True,
     allow_put_bucket_object_lock_configuration := True, allow_get_bucket_object_lock_configuration := True\<rparr>"

definition read_only :: Permission where
  "read_only = default_permission\<lparr>allow_download := True, allow_list := True\<rparr>"

definition write_only :: Permission where
  "write_only = default_permission\<lparr>allow_upload := True, allow_delete := True\<rparr>"

definition permission_is_empty :: "Permission \<Rightarrow> bool" where
  "permission_is_empty p \<longleftrightarrow> p = default_permission"

definition from_permission :: "Permission \<Rightarrow> Caveat" where
  "from_permission p =
    \<lparr>disallow_reads = \<not> allow_download p, disallow_writes = \<not> allow_upload p, disallow_lists = \<not> allow_list p,
     disallow_deletes = \<not> allow_delete p, disallow_locks = \<not> allow_lock p,
     disallow_put_retention = \<not> allow_put_object_retention p, disallow_get_retention = \<not> allow_get_object_retention p,
     disallow_put_legal_hold = \<not> allow_put_object_legal_hold p, disallow_get_legal_hold = \<not> allow_get_object_legal_hold p,
     disallow_bypass_governance_retention = \<not> allow_bypass_governance_retention p,
     disallow_put_bucket_object_lock_configuration = \<not> allow_put_bucket_object_lock_configuration p,
     disallow_get_bucket_object_lock_configuration = \<not> allow_get_bucket_object_lock_configuration p,
     disallow_put_bucket_notification_configuration = True, disallow_get_bucket_notification_configuration = True,
     allowed_paths = [], cav_not_after = not_after p, cav_not_before = not_before p, cav_max_object_ttl = max_object_ttl p,
     cav_nonce = []\<rparr>"

definition caveat_to_proto :: "Caveat \<Rightarrow> PbCaveat" where
  "caveat_to_proto c =
    \<lparr>pb_disallow_reads = disallow_reads c, pb_disallow_writes = disallow_writes c, pb_disallow_lists = disallow_lists c,
     pb_disallow_deletes = disallow_deletes c, pb_disallow_locks = disallow_locks c,
     pb_disallow_put_retention = disallow_put_retention c, pb_disallow_get_retention = disallow_get_retention c,
     pb_disallow_put_legal_hold = disallow_put_legal_hold c, pb_disallow_get_legal_hold = disallow_get_legal_hold c,
     pb_allowed_paths = map (\<lambda>p. \<lparr>cp_bucket = cp_bucket p, encrypted_path_prefix = encrypted_path_prefix p\<rparr>) (allowed_paths c),
     pb_disallow_bypass_governance_retention = disallow_bypass_governance_retention c,
     pb_disallow_put_bucket_object_lock_configuration = disallow_put_bucket_object_lock_configuration c,
     pb_disallow_get_bucket_object_lock_configuration = disallow_get_bucket_object_lock_configuration c,
     pb_disallow_put_bucket_notification_configuration = disallow_put_bucket_notification_configuration c,
     pb_disallow_get_bucket_notification_configuration = disallow_get_bucket_notification_configuration c,
     pb_not_after = map_option timestamp_from_system (cav_not_after c),
     pb_not_before = map_option timestamp_from_system (cav_not_before c),
     pb_max_object_ttl = map_option duration_from_std (cav_max_object_ttl c), pb_nonce = cav_nonce c\<rparr>"

definition caveat_from_proto :: "PbCaveat \<Rightarrow> Caveat" where
  "caveat_from_proto p =
    \<lparr>disallow_reads = pb_disallow_reads p, disallow_writes = pb_disallow_writes p, disallow_lists = pb_disallow_lists p,
     disallow_deletes = pb_disallow_deletes p, disallow_locks = pb_disallow_locks p,
     disallow_put_retention = pb_disallow_put_retention p, disallow_get_retention = pb_disallow_get_retention p,
     disallow_put_legal_hold = pb_disallow_put_legal_hold p, disallow_get_legal_hold = pb_disallow_get_legal_hold p,
     disallow_bypass_governance_retention = pb_disallow_bypass_governance_retention p,
     disallow_put_bucket_object_lock_configuration = pb_disallow_put_bucket_object_lock_configuration p,
     disallow_get_bucket_object_lock_configuration = pb_disallow_get_bucket_object_lock_configuration p,
     disallow_put_bucket_notification_configuration = pb_disallow_put_bucket_notification_configuration p,
     disallow_get_bucket_notification_configuration = pb_disallow_get_bucket_notification_configuration p,
     allowed_paths = map (\<lambda>p. \<lparr>cp_bucket = cp_bucket p, encrypted_path_prefix = encrypted_path_prefix p\<rparr>) (pb_allowed_paths p),
     cav_not_after = Option.bind (pb_not_after p) system_from_timestamp,
     cav_not_before = Option.bind (pb_not_before p) system_from_timestamp,
     cav_max_object_ttl = Option.bind (pb_max_object_ttl p) std_from_duration, cav_nonce = pb_nonce p\<rparr>"

definition encode_caveat :: "Pb \<Rightarrow> Caveat \<Rightarrow> bytes" where
  "encode_caveat pb c = caveat_encode pb (caveat_to_proto c)"

definition decode_caveat :: "Pb \<Rightarrow> bytes \<Rightarrow> AccessError + Caveat" where
  "decode_caveat pb d = try_bind (ok_or (AccessError ''invalid caveat format'') (caveat_decode pb d)) (\<lambda>p. Inr (caveat_from_proto p))"

definition restrict_api_key :: "Crypto \<Rightarrow> Pb \<Rightarrow> Macaroon \<Rightarrow> Caveat \<Rightarrow> Macaroon" where
  "restrict_api_key cr pb m caveat = add_first_party_caveat cr m (encode_caveat pb caveat)"

subsection \<open>Grants\<close>

record EncParameters =
  ep_cipher_suite :: CipherSuite
  ep_block_size :: int

record StoreEntry =
  se_bucket :: bytes
  se_unencrypted_path :: bytes
  se_encrypted_path :: bytes
  se_key :: Key
  se_path_cipher :: CipherSuite
  se_parameters :: "EncParameters option"

record EncryptionAccess =
  ea_default_key :: "Key option"
  ea_default_path_cipher :: CipherSuite
  ea_store_entries :: "StoreEntry list"
  ea_default_parameters :: "EncParameters option"

record Grant =
  satellite_addr :: bytes
  api_key :: bytes
  enc_access :: EncryptionAccess
  original :: "bytes option"

fun suite_number :: "CipherSuite \<Rightarrow> int" where
  "suite_number (CipherSuite n) = n"

definition map_enc :: "ErrorKind \<Rightarrow> AccessError" where
  "map_enc e = EncryptionError e"

definition key32 :: "bytes \<Rightarrow> string \<Rightarrow> AccessError + Key" where
  "key32 bs err = (if length bs = 32 then Inr bs else Inl (AccessError err))"

definition params_from_proto :: "int \<times> int \<Rightarrow> EncParameters" where
  "params_from_proto p = \<lparr>ep_cipher_suite = CipherSuite (fst p), ep_block_size = snd p\<rparr>"

definition entry_from_proto :: "PbStoreEntry \<Rightarrow> AccessError + StoreEntry" where
  "entry_from_proto e =
    try_bind (key32 (pse_key e) ''invalid key in encryption access entry'') (\<lambda>k.
      Inr \<lparr>se_bucket = pse_bucket e, se_unencrypted_path = pse_unencrypted_path e, se_encrypted_path = pse_encrypted_path e,
           se_key = k, se_path_cipher = CipherSuite (pse_path_cipher e), se_parameters = map_option params_from_proto (pse_parameters e)\<rparr>)"

definition entry_to_proto :: "StoreEntry \<Rightarrow> PbStoreEntry" where
  "entry_to_proto e =
    \<lparr>pse_bucket = se_bucket e, pse_unencrypted_path = se_unencrypted_path e, pse_encrypted_path = se_encrypted_path e,
     pse_key = se_key e, pse_path_cipher = suite_number (se_path_cipher e), pse_parameters = None\<rparr>"

subsection \<open>Encryption access as a store\<close>

definition entry_bucket :: "StoreEntry \<Rightarrow> AccessError + bytes" where
  "entry_bucket e = ok_or (AccessError ''encryption access entry bucket is not utf-8'') (from_utf8 (se_bucket e))"

definition add_entry :: "StoreEntry \<Rightarrow> Store \<Rightarrow> AccessError + Store" where
  "add_entry e st =
    try_bind (entry_bucket e) (\<lambda>bucket.
      case add_with_cipher st bucket (se_unencrypted_path e) (se_encrypted_path e) (se_key e) (se_path_cipher e) of
        (_, Inl er) \<Rightarrow> Inl (map_enc er)
      | (st', Inr _) \<Rightarrow> Inr st')"

definition store_from_enc :: "EncryptionAccess \<Rightarrow> AccessError + Store" where
  "store_from_enc enc =
    (let st = new_store;
         st = (case ea_default_key enc of Some k \<Rightarrow> set_default_key st k | None \<Rightarrow> st);
         st = set_default_path_cipher st (ea_default_path_cipher enc)
     in fold_result add_entry (ea_store_entries enc) st)"

definition enc_from_store :: "Store \<Rightarrow> EncryptionAccess" where
  "enc_from_store st =
    (let store_entries =
       (case iterate_with_cipher st (\<lambda>bucket plain enc k cipher acc.
            Inr (acc @ [\<lparr>se_bucket = bucket, se_unencrypted_path = plain, se_encrypted_path = enc, se_key = k,
                         se_path_cipher = cipher, se_parameters = None\<rparr>])) [] of
          Inr xs \<Rightarrow> xs | Inl _ \<Rightarrow> [])
     in \<lparr>ea_default_key = default_key st, ea_default_path_cipher = default_path_cipher st,
         ea_store_entries = store_entries, ea_default_parameters = None\<rparr>)"

definition access_from_proto :: "PbEncryptionAccess \<Rightarrow> AccessError + EncryptionAccess" where
  "access_from_proto p =
    try_bind (if pea_default_key p = [] then Inr None
              else try_bind (key32 (pea_default_key p) ''invalid default key in encryption access'') (\<lambda>k. Inr (Some k))) (\<lambda>dk.
    let cipher = (if pea_default_path_cipher p = 0 then AES_GCM else CipherSuite (pea_default_path_cipher p))
    in try_bind (fold_result (\<lambda>e acc. try_bind (entry_from_proto e) (\<lambda>x. Inr (acc @ [x]))) (pea_store_entries p) []) (\<lambda>es.
      let access = \<lparr>ea_default_key = dk, ea_default_path_cipher = cipher, ea_store_entries = es,
                    ea_default_parameters = map_option params_from_proto (pea_default_parameters p)\<rparr>
      in try_bind (map_err (\<lambda>_. AccessError ''invalid encryption access entry'') (store_from_enc access)) (\<lambda>_. Inr access)))"

definition access_to_proto :: "EncryptionAccess \<Rightarrow> PbEncryptionAccess" where
  "access_to_proto e =
    \<lparr>pea_default_key = (case ea_default_key e of Some k \<Rightarrow> k | None \<Rightarrow> []), pea_store_entries = map entry_to_proto (ea_store_entries e),
     pea_default_path_cipher = suite_number (ea_default_path_cipher e), pea_default_parameters = None\<rparr>"

subsection \<open>Restriction\<close>

definition starts_with :: "bytes \<Rightarrow> bytes \<Rightarrow> bool" where
  "starts_with xs p \<longleftrightarrow> take (length p) xs = p"

text \<open>\<open>collapse_prefixes\<close>: the path groups of the caveats, and the prefixes allowed by every group.\<close>

definition collapse_prefixes :: "Pb \<Rightarrow> Macaroon \<Rightarrow> AccessError + (CaveatPath list \<times> bool)" where
  "collapse_prefixes pb m =
    try_bind (fold_result (\<lambda>d (groups, prefixes).
        try_bind (decode_caveat pb d) (\<lambda>cav.
          if allowed_paths cav \<noteq> [] then Inr (groups @ [allowed_paths cav], prefixes @ allowed_paths cav) else Inr (groups, prefixes)))
      (mac_caveats m) ([], [])) (\<lambda>(groups, prefixes).
    if groups = [] \<or> prefixes = [] then Inr ([], False)
    else Inr (filter (\<lambda>cav. list_all (\<lambda>group. list_ex (\<lambda>other.
            cp_bucket cav = cp_bucket other \<and> starts_with (encrypted_path_prefix cav) (encrypted_path_prefix other)) group) groups) prefixes, True))"

text \<open>One prefix of the first loop of \<open>limit_to\<close>: every \<open>continue\<close> of the source leaves the store as it is.\<close>

definition limit_prefix :: "Crypto \<Rightarrow> Store \<Rightarrow> CaveatPath \<Rightarrow> Store \<Rightarrow> Store" where
  "limit_prefix cr src prefix st =
    (case from_utf8 (cp_bucket prefix) of None \<Rightarrow> st | Some bucket \<Rightarrow>
     let enc_path = encrypted_path_prefix prefix
     in case decrypt_path cr bucket enc_path src of Inl _ \<Rightarrow> st | Inr plain \<Rightarrow>
        (case derive_path_key cr bucket plain src of Inl _ \<Rightarrow> st | Inr k \<Rightarrow>
         (case found_base (lookup_encrypted src bucket enc_path) of None \<Rightarrow> st | Some base \<Rightarrow>
            fst (add_with_cipher st bucket plain enc_path k (path_cipher base)))))"

definition covered_by :: "CaveatPath list \<Rightarrow> StoreEntry \<Rightarrow> bool" where
  "covered_by prefixes e =
    list_ex (\<lambda>prefix. se_bucket e = cp_bucket prefix \<and> starts_with (se_encrypted_path e) (encrypted_path_prefix prefix)) prefixes"

definition limit_to :: "Crypto \<Rightarrow> Pb \<Rightarrow> EncryptionAccess \<Rightarrow> Macaroon \<Rightarrow> AccessError + EncryptionAccess" where
  "limit_to cr pb enc m =
    try_bind (collapse_prefixes pb m) (\<lambda>(prefixes, restricted).
      if \<not> restricted then Inr enc
      else try_bind (store_from_enc enc) (\<lambda>src.
        let st = set_default_path_cipher new_store (default_path_cipher src);
            st = fold (limit_prefix cr src) prefixes st
        in try_bind (fold_result (\<lambda>e st. if covered_by prefixes e then add_entry e st else Inr st) (ea_store_entries enc) st)
             (\<lambda>st. Inr (enc_from_store st))))"

definition validate_permission :: "Permission \<Rightarrow> AccessError + unit" where
  "validate_permission p =
    (if permission_is_empty p then Inl (AccessError ''permission is empty'')
     else if (case (not_before p, not_after p) of (Some nb, Some na) \<Rightarrow> na < nb | _ \<Rightarrow> False) then Inl (AccessError ''invalid time range'')
     else if max_object_ttl p = Some 0 then Inl (AccessError ''non-positive ttl period'')
     else Inr ())"

record SharePrefix =
  sp_bucket :: bytes
  sp_prefix :: bytes

definition strip_slash :: "bytes \<Rightarrow> bytes" where
  "strip_slash p = (if p \<noteq> [] \<and> last p = slash then butlast p else p)"

definition grant_from_parts :: "bytes \<Rightarrow> bytes \<Rightarrow> EncryptionAccess \<Rightarrow> Grant" where
  "grant_from_parts addr key access = \<lparr>satellite_addr = addr, api_key = key, enc_access = access, original = None\<rparr>"

definition restrict :: "Crypto \<Rightarrow> Pb \<Rightarrow> bytes option \<Rightarrow> Grant \<Rightarrow> Permission \<Rightarrow> SharePrefix list \<Rightarrow> AccessError + Grant" where
  "restrict cr pb random g permission prefixes =
    try_bind (validate_permission permission) (\<lambda>_.
    try_bind (store_from_enc (enc_access g)) (\<lambda>st.
    try_bind (ok_or (AccessError ''unable to generate nonce'') random) (\<lambda>nonce.
    let caveat = (from_permission permission)\<lparr>cav_nonce := nonce\<rparr>
    in try_bind (fold_result (\<lambda>prefix caveat.
         let plain = strip_slash (sp_prefix prefix)
         in try_bind (map_err map_enc (encrypt_path cr (sp_bucket prefix) plain st)) (\<lambda>enc_path.
              Inr (caveat\<lparr>allowed_paths := allowed_paths caveat @ [\<lparr>cp_bucket = sp_bucket prefix, encrypted_path_prefix = enc_path\<rparr>]\<rparr>)))
         prefixes caveat) (\<lambda>caveat.
       try_bind (parse_raw (api_key g)) (\<lambda>key.
         let restricted = restrict_api_key cr pb key caveat
         in try_bind (limit_to cr pb (enc_access g) restricted) (\<lambda>access.
              Inr (grant_from_parts (satellite_addr g) (serialize_macaroon restricted) access)))))))"

definition override_encryption_key :: "Crypto \<Rightarrow> Grant \<Rightarrow> bytes \<Rightarrow> bytes \<Rightarrow> Key \<Rightarrow> Grant \<times> (AccessError + unit)" where
  "override_encryption_key cr g bucket prefix k =
    (if \<not> (prefix \<noteq> [] \<and> last prefix = slash) then (g, Inl (AccessError ''prefix must end with slash''))
     else let plain = strip_slash prefix
     in case store_from_enc (enc_access g) of Inl e \<Rightarrow> (g, Inl e) | Inr st \<Rightarrow>
        (case encrypt_path cr bucket plain st of Inl e \<Rightarrow> (g, Inl (map_enc e)) | Inr enc_path \<Rightarrow>
         (case add st bucket plain enc_path k of
            (_, Inl e) \<Rightarrow> (g, Inl (map_enc e))
          | (st', Inr _) \<Rightarrow> (g\<lparr>original := None, enc_access := enc_from_store st'\<rparr>, Inr ()))))"

subsection \<open>Parsing and serialising grants\<close>

definition parse_grant :: "Crypto \<Rightarrow> B58 \<Rightarrow> Pb \<Rightarrow> bytes \<Rightarrow> AccessError + Grant" where
  "parse_grant cr bc pb serialized =
    (if serialized = [] then Inl (AccessError ''empty access grant'')
     else try_bind (map_err (\<lambda>_. AccessError ''invalid access grant format'') (check_decode bc serialized)) (\<lambda>(dat, version).
     if version \<noteq> GRANT_VERSION then Inl (AccessError ''invalid access grant format'')
     else try_bind (ok_or (AccessError ''unable to unmarshal access grant'') (scope_decode pb dat)) (\<lambda>scope.
     if sc_satellite_addr scope = [] then Inl (AccessError ''access grant is missing satellite address'')
     else if sc_api_key scope = [] then Inl (AccessError ''access grant is missing api key'')
     else try_bind (map_err (\<lambda>_. AccessError ''access grant has malformed api key'') (parse_macaroon (sc_api_key scope))) (\<lambda>mac.
     let canonical_api_key = serialize_macaroon mac
     in case sc_encryption_access scope of
          None \<Rightarrow> Inl (AccessError ''access grant is missing encryption access'')
        | Some enc_pb \<Rightarrow>
          try_bind (map_err (\<lambda>_. AccessError ''access grant has malformed encryption access'') (access_from_proto enc_pb)) (\<lambda>access.
          try_bind (map_err (\<lambda>_. AccessError ''access grant has malformed api key'') (parse_raw (sc_api_key scope))) (\<lambda>key.
          try_bind (limit_to cr pb access key) (\<lambda>limited.
            Inr \<lparr>satellite_addr = sc_satellite_addr scope, api_key = canonical_api_key, enc_access = limited,
                 original = (if limited = access then Some serialized else None)\<rparr>)))))))"

definition mark_mutated :: "Grant \<Rightarrow> Grant" where
  "mark_mutated g = g\<lparr>original := None\<rparr>"

definition serialize_from_fields :: "B58 \<Rightarrow> Pb \<Rightarrow> Grant \<Rightarrow> AccessError + bytes" where
  "serialize_from_fields bc pb g =
    (if satellite_addr g = [] then Inl (AccessError ''access grant is missing satellite address'')
     else if api_key g = [] then Inl (AccessError ''access grant is missing api key'')
     else let scope = \<lparr>sc_satellite_addr = satellite_addr g, sc_api_key = api_key g, sc_encryption_access = Some (access_to_proto (enc_access g))\<rparr>;
              dat = scope_encode pb scope
          in Inr (check_encode bc dat GRANT_VERSION))"

definition serialize_grant :: "B58 \<Rightarrow> Pb \<Rightarrow> Grant \<Rightarrow> AccessError + bytes" where
  "serialize_grant bc pb g = (case original g of Some s \<Rightarrow> Inr s | None \<Rightarrow> serialize_from_fields bc pb g)"

section \<open>A concrete message format\<close>

text \<open>
  A toy instance of the message format: values are numbered and a value is written as that many zero
  bytes.  It shows that the assumptions can be met and serves the concrete instances below.
\<close>

instance word :: (len) countable
  by (rule countable_classI[of unat]) (simp add: word_unat_eq_iff)

definition time_pair :: "PbTimestamp \<Rightarrow> int \<times> int" where "time_pair t = (ts_seconds t, ts_nanos t)"
definition pair_time :: "int \<times> int \<Rightarrow> PbTimestamp" where "pair_time p = PbTimestamp.make (fst p) (snd p)"
definition ttl_pair :: "PbDuration \<Rightarrow> int \<times> int" where "ttl_pair t = (du_seconds t, du_nanos t)"
definition pair_ttl :: "int \<times> int \<Rightarrow> PbDuration" where "pair_ttl p = PbDuration.make (fst p) (snd p)"
definition path_pair :: "CaveatPath \<Rightarrow> bytes \<times> bytes" where "path_pair p = (cp_bucket p, encrypted_path_prefix p)"
definition pair_path :: "bytes \<times> bytes \<Rightarrow> CaveatPath" where "pair_path p = CaveatPath.make (fst p) (snd p)"

definition caveat_tuple where
  "caveat_tuple c =
    (pb_disallow_reads c, pb_disallow_writes c, pb_disallow_lists c, pb_disallow_deletes c, pb_disallow_locks c,
     pb_disallow_put_retention c, pb_disallow_get_retention c, pb_disallow_put_legal_hold c, pb_disallow_get_legal_hold c,
     map path_pair (pb_allowed_paths c), pb_disallow_bypass_governance_retention c,
     pb_disallow_put_bucket_object_lock_configuration c, pb_disallow_get_bucket_object_lock_configuration c,
     pb_disallow_put_bucket_notification_configuration c, pb_disallow_get_bucket_notification_configuration c,
     map_option time_pair (pb_not_after c), map_option time_pair (pb_not_before c), map_option ttl_pair (pb_max_object_ttl c), pb_nonce (c :: PbCaveat))"

definition tuple_caveat where
  "tuple_caveat = (\<lambda>(a, b, c, d, e, f, g, h, i, j, k, l, m, n, p, q, r, s, t).
     PbCaveat.make a b c d e f g h i (map pair_path j) k l m n p (map_option pair_time q) (map_option pair_time r) (map_option pair_ttl s) t)"

definition entry_tuple where
  "entry_tuple e = (pse_bucket e, pse_unencrypted_path e, pse_encrypted_path e, pse_key e, pse_path_cipher e, pse_parameters (e :: PbStoreEntry))"

definition tuple_entry where
  "tuple_entry = (\<lambda>(a, b, c, d, e, f). PbStoreEntry.make a b c d e f)"

definition scope_tuple where
  "scope_tuple s = (sc_satellite_addr s, sc_api_key s, map_option (\<lambda>a. (pea_default_key a, map entry_tuple (pea_store_entries a),
     pea_default_path_cipher a, pea_default_parameters a)) (sc_encryption_access (s :: PbScope)))"

definition tuple_scope where
  "tuple_scope = (\<lambda>(a, b, c). PbScope.make a b (map_option (\<lambda>(k, es, p, q). PbEncryptionAccess.make k (map tuple_entry es) p q) c))"

definition toy_pb :: Pb where
  "toy_pb = \<lparr>scope_encode = (\<lambda>s. replicate (to_nat (scope_tuple s)) 0), scope_decode = (\<lambda>d. Some (tuple_scope (from_nat (length d)))),
     caveat_encode = (\<lambda>c. replicate (to_nat (caveat_tuple c)) 0), caveat_decode = (\<lambda>d. Some (tuple_caveat (from_nat (length d))))\<rparr>"

lemma pairs_inverse:
  "pair_time \<circ> time_pair = id" "pair_ttl \<circ> ttl_pair = id" "pair_path \<circ> path_pair = id" "tuple_entry \<circ> entry_tuple = id"
  by (simp_all add: fun_eq_iff pair_time_def time_pair_def pair_ttl_def ttl_pair_def pair_path_def path_pair_def
    tuple_entry_def entry_tuple_def PbTimestamp.make_def PbDuration.make_def CaveatPath.make_def PbStoreEntry.make_def)

lemma tuple_caveat_inverse: "tuple_caveat (caveat_tuple c) = c"
  by (simp add: tuple_caveat_def caveat_tuple_def PbCaveat.make_def pairs_inverse option.map_comp option.map_id)

lemma tuple_scope_inverse: "tuple_scope (scope_tuple s) = s"
proof -
  have "(\<lambda>(k, es, p, q). PbEncryptionAccess.make k (map tuple_entry es) p q) \<circ>
      (\<lambda>a. (pea_default_key a, map entry_tuple (pea_store_entries a), pea_default_path_cipher a, pea_default_parameters a)) = id"
    by (simp add: fun_eq_iff PbEncryptionAccess.make_def pairs_inverse)
  then show ?thesis by (simp add: tuple_scope_def scope_tuple_def PbScope.make_def option.map_comp option.map_id)
qed

lemma toy_pb_ok: "pb_ok toy_pb"
  by (simp add: pb_ok_def toy_pb_def tuple_caveat_inverse tuple_scope_inverse)

section \<open>Caveats survive the message format\<close>

definition time_ok :: "int \<Rightarrow> bool" where
  "time_ok t \<longleftrightarrow> i64_min < t div NANOS \<and> t div NANOS \<le> i64_max"

lemma timestamp_from_system_eq:
  assumes "time_ok t"
  shows "timestamp_from_system t = \<lparr>ts_seconds = t div NANOS, ts_nanos = t mod NANOS\<rparr>"
proof (cases "t \<ge> 0")
  case True
  then show ?thesis using assms by (simp add: timestamp_from_system_def time_ok_def)
next
  case False
  have d: "(- t) div NANOS = (if t mod NANOS = 0 then - (t div NANOS) else - (t div NANOS) - 1)"
    by (rule zdiv_zminus1_eq_if) simp
  have m: "(- t) mod NANOS = (if t mod NANOS = 0 then 0 else NANOS - t mod NANOS)"
    by (rule zmod_zminus1_eq_if)
  have r: "0 \<le> t mod NANOS" "t mod NANOS < NANOS" by simp_all
  show ?thesis
    unfolding timestamp_from_system_def Let_def d m
    using False r assms by (auto simp: time_ok_def min_def max_def)
qed

lemma nanos_i32: "is_i32 (t mod NANOS)"
proof -
  have "0 \<le> t mod NANOS" "t mod NANOS < NANOS" by simp_all
  moreover have "NANOS < 2 ^ 31" "- (2 ^ 31) \<le> (0 :: int)" by simp_all
  ultimately show ?thesis unfolding is_i32_def by linarith
qed

lemma time_round_trip:
  assumes "time_ok t"
  shows "system_from_timestamp (timestamp_from_system t) = Some t \<and> time_fits (Some (timestamp_from_system t))"
proof -
  have t: "t div NANOS * NANOS + t mod NANOS = t" by simp
  have r: "0 \<le> t mod NANOS" "t mod NANOS < NANOS" by simp_all
  have c: "checked_time (t div NANOS * NANOS) = Some (t div NANOS * NANOS)" "checked_time t = Some t"
    using assms by (auto simp: checked_time_def time_ok_def)
  have a: "(if t div NANOS \<ge> 0 then abs (t div NANOS) * NANOS else - (abs (t div NANOS) * NANOS)) = t div NANOS * NANOS"
    by (simp add: abs_if)
  show ?thesis
    using assms r
    by (simp add: timestamp_from_system_eq system_from_timestamp_def a c t time_fits_def is_i64_def nanos_i32 time_ok_def
        del: minus_mod_eq_div_mult)
qed

definition ttl_ok :: "int \<Rightarrow> bool" where
  "ttl_ok d \<longleftrightarrow> 0 \<le> d \<and> d div NANOS \<le> i64_max"

lemma ttl_round_trip:
  assumes "ttl_ok d"
  shows "std_from_duration (duration_from_std d) = Some d \<and> is_i64 (du_seconds (duration_from_std d)) \<and> is_i32 (du_nanos (duration_from_std d))"
proof -
  have "0 \<le> d mod NANOS" "d mod NANOS < NANOS" "0 \<le> d div NANOS" "d div NANOS * NANOS + d mod NANOS = d"
    using assms by (simp_all add: ttl_ok_def pos_imp_zdiv_nonneg_iff)
  then show ?thesis
    using assms by (simp add: std_from_duration_def duration_from_std_def ttl_ok_def is_i64_def nanos_i32 del: minus_mod_eq_div_mult)
qed

definition caveat_times_ok :: "Caveat \<Rightarrow> bool" where
  "caveat_times_ok c \<longleftrightarrow> pred_option time_ok (cav_not_after c) \<and> pred_option time_ok (cav_not_before c) \<and> pred_option ttl_ok (cav_max_object_ttl c)"

lemma copy_path: "(\<lambda>p. \<lparr>cp_bucket = cp_bucket p, encrypted_path_prefix = encrypted_path_prefix p\<rparr>) = (\<lambda>p :: CaveatPath. p)"
  by (simp add: fun_eq_iff)

lemma caveat_from_to_proto:
  assumes "caveat_times_ok c"
  shows "caveat_from_proto (caveat_to_proto c) = c" "caveat_fits (caveat_to_proto c)"
proof -
  have b: "Option.bind (map_option timestamp_from_system t) system_from_timestamp = t \<and> time_fits (map_option timestamp_from_system t)"
    if "pred_option time_ok t" for t using that time_round_trip by (cases t) (simp_all add: time_fits_def)
  have d: "Option.bind (map_option duration_from_std t) std_from_duration = t"
    if "pred_option ttl_ok t" for t using that ttl_round_trip by (cases t) simp_all
  show "caveat_from_proto (caveat_to_proto c) = c"
    using assms b d by (cases c) (simp add: caveat_from_proto_def caveat_to_proto_def caveat_times_ok_def copy_path)
  show "caveat_fits (caveat_to_proto c)"
    using assms b ttl_round_trip
    by (cases "cav_max_object_ttl c") (auto simp: caveat_fits_def caveat_to_proto_def caveat_times_ok_def)
qed

lemma decode_encode_caveat: "pb_ok pb \<Longrightarrow> caveat_times_ok c \<Longrightarrow> decode_caveat pb (encode_caveat pb c) = Inr c"
  using caveat_from_to_proto by (simp add: decode_caveat_def encode_caveat_def pb_ok_def)

section \<open>Restricted access is confined\<close>

text \<open>A caveat permits an encrypted path if it has no path list or a listed prefix matches.\<close>

definition permits :: "Caveat \<Rightarrow> bytes \<Rightarrow> bytes \<Rightarrow> bool" where
  "permits c bucket path \<longleftrightarrow> allowed_paths c = [] \<or>
    (\<exists>p \<in> set (allowed_paths c). cp_bucket p = bucket \<and> starts_with path (encrypted_path_prefix p))"

definition all_permit :: "Pb \<Rightarrow> bytes list \<Rightarrow> bytes \<Rightarrow> bytes \<Rightarrow> bool" where
  "all_permit pb ds bucket path \<longleftrightarrow> (\<forall>d \<in> set ds. \<exists>c. decode_caveat pb d = Inr c \<and> permits c bucket path)"

lemma starts_with_trans: "starts_with x y \<Longrightarrow> starts_with y z \<Longrightarrow> starts_with x z"
  unfolding starts_with_def by (metis le_cases take_all take_take min.absorb1 min.absorb2 length_take)

lemma collapse_fold:
  "fold_result (\<lambda>d (groups, prefixes).
      try_bind (decode_caveat pb d) (\<lambda>cav.
        if allowed_paths cav \<noteq> [] then Inr (groups @ [allowed_paths cav], prefixes @ allowed_paths cav) else Inr (groups, prefixes)))
    ds (gs, ps) = Inr (gs', ps') \<Longrightarrow>
   \<exists>cs. map (decode_caveat pb) ds = map Inr cs \<and> gs' = gs @ filter (\<lambda>g. g \<noteq> []) (map allowed_paths cs) \<and> ps' = ps @ concat (map allowed_paths cs)"
proof (induction ds arbitrary: gs ps)
  case (Cons d ds)
  obtain c where c: "decode_caveat pb d = Inr c" using Cons.prems by (auto simp: result_simps)
  let ?gs = "if allowed_paths c \<noteq> [] then gs @ [allowed_paths c] else gs"
  obtain cs where "map (decode_caveat pb) ds = map Inr cs" "gs' = ?gs @ filter (\<lambda>g. g \<noteq> []) (map allowed_paths cs)"
    "ps' = (ps @ allowed_paths c) @ concat (map allowed_paths cs)"
    using Cons.IH[of ?gs "ps @ allowed_paths c"] Cons.prems c by (cases "allowed_paths c = []") auto
  then show ?case using c by (intro exI[of _ "c # cs"]) auto
qed simp

lemma collapse_prefixes_permits:
  assumes "collapse_prefixes pb m = Inr (ps, r)"
  shows "r \<longleftrightarrow> (\<exists>d \<in> set (mac_caveats m). \<exists>c. decode_caveat pb d = Inr c \<and> allowed_paths c \<noteq> [])"
    and "r \<Longrightarrow> p \<in> set ps \<Longrightarrow> all_permit pb (mac_caveats m) (cp_bucket p) (encrypted_path_prefix p)"
proof -
  let ?ds = "mac_caveats m"
  obtain gs qs where f: "fold_result (\<lambda>d (groups, prefixes).
      try_bind (decode_caveat pb d) (\<lambda>cav.
        if allowed_paths cav \<noteq> [] then Inr (groups @ [allowed_paths cav], prefixes @ allowed_paths cav) else Inr (groups, prefixes)))
    ?ds ([], []) = Inr (gs, qs)"
    and e: "(if gs = [] \<or> qs = [] then Inr ([], False)
      else Inr (filter (\<lambda>cav. list_all (\<lambda>group. list_ex (\<lambda>other.
            cp_bucket cav = cp_bucket other \<and> starts_with (encrypted_path_prefix cav) (encrypted_path_prefix other)) group) gs) qs, True)) =
      (Inr (ps, r) :: AccessError + CaveatPath list \<times> bool)"
    using assms unfolding collapse_prefixes_def by (auto simp: try_bind_eq_Inr simp del: fold_result.simps)
  obtain cs where cs: "map (decode_caveat pb) ?ds = map Inr cs" "gs = filter (\<lambda>g. g \<noteq> []) (map allowed_paths cs)" "qs = concat (map allowed_paths cs)"
    using collapse_fold[OF f] by auto
  have ds: "d \<in> set ?ds \<Longrightarrow> \<exists>c \<in> set cs. decode_caveat pb d = Inr c" for d
    using cs(1) by (metis (no_types, lifting) imageE image_eqI list.set_map)
  have dc: "c \<in> set cs \<Longrightarrow> \<exists>d \<in> set ?ds. decode_caveat pb d = Inr c" for c
    using cs(1) by (metis (no_types, lifting) imageE image_eqI list.set_map)
  have n: "gs = [] \<longleftrightarrow> qs = []" using cs(2,3) by (auto simp: filter_empty_conv)
  have "r \<longleftrightarrow> gs \<noteq> []" using e n by (auto split: if_splits)
  also have "\<dots> \<longleftrightarrow> (\<exists>c \<in> set cs. allowed_paths c \<noteq> [])" using cs(2) by (auto simp: filter_empty_conv)
  finally show "r \<longleftrightarrow> (\<exists>d \<in> set ?ds. \<exists>c. decode_caveat pb d = Inr c \<and> allowed_paths c \<noteq> [])"
    using ds dc by (metis sum.inject(2))
  show "all_permit pb ?ds (cp_bucket p) (encrypted_path_prefix p)" if "r" "p \<in> set ps"
    unfolding all_permit_def
  proof
    fix d
    assume "d \<in> set ?ds"
    then obtain c where c: "c \<in> set cs" "decode_caveat pb d = Inr c" using ds by blast
    have "list_all (\<lambda>group. list_ex (\<lambda>other. cp_bucket p = cp_bucket other \<and>
        starts_with (encrypted_path_prefix p) (encrypted_path_prefix other)) group) gs"
      using e that by (auto split: if_splits)
    then have "permits c (cp_bucket p) (encrypted_path_prefix p)"
      using c(1) cs(2) by (auto simp: permits_def list_all_iff list_ex_iff)
    then show "\<exists>c. decode_caveat pb d = Inr c \<and> permits c (cp_bucket p) (encrypted_path_prefix p)" using c(2) by blast
  qed
qed

text \<open>Every entry of the store satisfies \<open>P\<close>, and there is no default key.\<close>

definition confined :: "(bytes \<Rightarrow> bytes \<Rightarrow> bool) \<Rightarrow> Store \<Rightarrow> bool" where
  "confined P st \<longleftrightarrow> store_wf st \<and> default_key st = None \<and>
    (\<forall>bucket us b. entries True st bucket us = Some b \<longrightarrow> P bucket (encrypted b))"

lemma confined_add:
  assumes "confined P st" and "P bucket e" and "add_with_cipher st bucket u e k cipher = (st', r)"
  shows "confined P st'"
proof -
  have w: "store_wf st" using assms(1) by (simp add: confined_def)
  note a = add_with_cipher_spec[OF w, where bucket = bucket and u = u and e = e and k = k and cipher = cipher]
  show ?thesis
  proof (cases r)
    case (Inl er)
    then show ?thesis using a assms by simp
  next
    case (Inr x)
    then show ?thesis using a assms by (auto simp: confined_def Let_def split: if_splits)
  qed
qed

lemma confined_empty: "confined P (set_default_path_cipher new_store c)"
  by (simp add: confined_def set_default_path_cipher_def new_store_def store_wf_def entries_def)

lemma from_utf8_Some: "from_utf8 x = Some y \<Longrightarrow> y = x"
  by (simp add: from_utf8_def split: if_splits)

lemma confined_limit_prefix:
  assumes "confined P st" and "P (cp_bucket p) (encrypted_path_prefix p)"
  shows "confined P (limit_prefix cr src p st)"
  using assms
  by (auto simp: limit_prefix_def confined_add[OF _ _ surjective_pairing] dest!: from_utf8_Some split: option.splits sum.splits)

lemma confined_limit_fold:
  "confined P st \<Longrightarrow> (\<And>p. p \<in> set ps \<Longrightarrow> P (cp_bucket p) (encrypted_path_prefix p)) \<Longrightarrow>
   confined P (fold (limit_prefix cr src) ps st)"
  by (induction ps arbitrary: st) (simp_all add: confined_limit_prefix)

lemma confined_add_entry:
  assumes "confined P st" and "P (se_bucket e) (se_encrypted_path e)" and "add_entry e st = Inr st'"
  shows "confined P st'"
proof -
  obtain bucket where b: "from_utf8 (se_bucket e) = Some bucket"
    using assms(3) by (cases "from_utf8 (se_bucket e)") (auto simp: add_entry_def entry_bucket_def)
  then have "add_with_cipher st (se_bucket e) (se_unencrypted_path e) (se_encrypted_path e) (se_key e) (se_path_cipher e) = (st', Inr ())"
    using assms(3) from_utf8_Some[OF b] by (auto simp: add_entry_def entry_bucket_def split: prod.splits sum.splits)
  then show ?thesis using confined_add assms(1,2) by blast
qed

lemma confined_entries_fold:
  "fold_result (\<lambda>e st. if covered_by ps e then add_entry e st else Inr st) es st = Inr st' \<Longrightarrow> confined P st \<Longrightarrow>
   (\<And>e. covered_by ps e \<Longrightarrow> P (se_bucket e) (se_encrypted_path e)) \<Longrightarrow> confined P st'"
proof (induction es arbitrary: st)
  case (Cons e es)
  then show ?case
    by (cases "covered_by ps e") (auto simp: result_simps dest: confined_add_entry)
qed simp

lemma collect_entries:
  "fold_result (\<lambda>b acc. Inr (acc @ [f bucket b])) bs acc = Inr (acc @ map (f bucket) bs)"
  by (induction bs arbitrary: acc) simp_all

lemma enc_from_store_entries:
  assumes "store_wf st"
  shows "set (ea_store_entries (enc_from_store st)) =
    {\<lparr>se_bucket = bucket, se_unencrypted_path = unencrypted b, se_encrypted_path = encrypted b, se_key = base_key b,
      se_path_cipher = path_cipher b, se_parameters = None\<rparr> | bucket b. \<exists>us. entries True st bucket us = Some b}"
proof -
  let ?row = "\<lambda>bucket b. \<lparr>se_bucket = bucket, se_unencrypted_path = unencrypted b, se_encrypted_path = encrypted b, se_key = base_key b,
      se_path_cipher = path_cipher b, se_parameters = None\<rparr>"
  have outer: "fold_result (\<lambda>(bucket, root). fold_result (\<lambda>b acc. Inr (acc @ [?row bucket b])) (visited root)) rs acc =
      Inr (acc @ concat (map (\<lambda>(bucket, root). map (?row bucket) (visited root)) rs))" for rs acc
    by (induction rs arbitrary: acc) (auto simp: collect_entries[of ?row])
  have "ea_store_entries (enc_from_store st) = concat (map (\<lambda>(bucket, root). map (?row bucket) (visited root)) (roots st))"
    by (simp add: enc_from_store_def iterate_with_cipher_def outer)
  then have "set (ea_store_entries (enc_from_store st)) =
      {?row bucket b | bucket b. \<exists>root. (bucket, root) \<in> set (roots st) \<and> b \<in> set (visited root)}" by auto
  then show ?thesis unfolding visited_entries[OF assms] .
qed

lemma limit_to_confined:
  assumes "limit_to cr pb enc m = Inr enc'"
    and "\<exists>d \<in> set (mac_caveats m). \<exists>c. decode_caveat pb d = Inr c \<and> allowed_paths c \<noteq> []"
  shows "ea_default_key enc' = None" and "x \<in> set (ea_store_entries enc') \<Longrightarrow> all_permit pb (mac_caveats m) (se_bucket x) (se_encrypted_path x)"
proof -
  let ?P = "all_permit pb (mac_caveats m)"
  obtain ps r where c: "collapse_prefixes pb m = Inr (ps, r)" using assms(1) by (auto simp: limit_to_def result_simps)
  note perm = collapse_prefixes_permits[OF c]
  have r: "r" using perm(1) assms(2) by blast
  obtain src st where st: "fold_result (\<lambda>e st. if covered_by ps e then add_entry e st else Inr st) (ea_store_entries enc)
      (fold (limit_prefix cr src) ps (set_default_path_cipher new_store (default_path_cipher src))) = Inr st"
    and e: "enc' = enc_from_store st"
    using assms(1) c r by (auto simp: limit_to_def result_simps)
  have cov: "?P (se_bucket x) (se_encrypted_path x)" if "covered_by ps x" for x
  proof -
    obtain p where p: "p \<in> set ps" "se_bucket x = cp_bucket p" "starts_with (se_encrypted_path x) (encrypted_path_prefix p)"
      using \<open>covered_by ps x\<close> by (auto simp: covered_by_def list_ex_iff)
    then have "?P (se_bucket x) (encrypted_path_prefix p)" using perm(2)[OF r p(1)] by simp
    then show ?thesis
      using p(3) unfolding all_permit_def permits_def by (blast intro: starts_with_trans)
  qed
  have "confined ?P (fold (limit_prefix cr src) ps (set_default_path_cipher new_store (default_path_cipher src)))"
    using confined_limit_fold[OF confined_empty] perm(2)[OF r] by blast
  then have k: "confined ?P st" using confined_entries_fold[OF st] cov by blast
  then show "ea_default_key enc' = None" by (simp add: e confined_def enc_from_store_def)
  assume "x \<in> set (ea_store_entries enc')"
  then show "?P (se_bucket x) (se_encrypted_path x)"
    using k enc_from_store_entries[of st] by (auto simp: e confined_def)
qed

text \<open>
  C28: A path-restricted API key confines the encryption access that goes with it.  If some caveat of the
  macaroon lists paths, then what \<open>limit_to\<close> leaves has no default key, and every store entry lies, in its
  own bucket, under a prefix that each caveat of the macaroon allows.
\<close>

theorem limited_access_confined:
  assumes "limit_to cr pb enc m = Inr enc'"
    and "d \<in> set (mac_caveats m)" and "decode_caveat pb d = Inr c" and "allowed_paths c \<noteq> []"
  shows "ea_default_key enc' = None \<and>
    (\<forall>x \<in> set (ea_store_entries enc'). \<forall>d \<in> set (mac_caveats m). \<exists>c. decode_caveat pb d = Inr c \<and> permits c (se_bucket x) (se_encrypted_path x))"
  using limit_to_confined[OF assms(1)] assms(2-) unfolding all_permit_def by blast

text \<open>An example: a macaroon with one caveat that lists one path, and an access without keys.\<close>

definition sample_caveat :: Caveat where
  "sample_caveat = (from_permission read_only)\<lparr>allowed_paths := [\<lparr>cp_bucket = [98], encrypted_path_prefix = [1]\<rparr>]\<rparr>"

definition sample_access :: EncryptionAccess where
  "sample_access = \<lparr>ea_default_key = None, ea_default_path_cipher = AES_GCM, ea_store_entries = [], ea_default_parameters = None\<rparr>"

lemma sample_decode: "decode_caveat toy_pb (encode_caveat toy_pb sample_caveat) = Inr sample_caveat"
  by (rule decode_encode_caveat[OF toy_pb_ok])
     (simp add: sample_caveat_def caveat_times_ok_def from_permission_def read_only_def default_permission_def)

theorem limited_access_confined_witness:
  "let m = restrict_api_key toy_crypto toy_pb (from_parts toy_crypto [1] [2]) sample_caveat in
   \<exists>access. limit_to toy_crypto toy_pb sample_access m = Inr access \<and> ea_default_key access = None"
proof -
  let ?m = "restrict_api_key toy_crypto toy_pb (from_parts toy_crypto [1] [2]) sample_caveat"
  have c: "mac_caveats ?m = [encode_caveat toy_pb sample_caveat]"
    by (simp add: restrict_api_key_def add_first_party_caveat_def from_parts_def)
  have "\<exists>ps. collapse_prefixes toy_pb ?m = Inr (ps, True)"
    unfolding collapse_prefixes_def c by (simp add: sample_decode) (simp add: sample_caveat_def)
  then obtain ps where "collapse_prefixes toy_pb ?m = Inr (ps, True)" ..
  then have "\<exists>access. limit_to toy_crypto toy_pb sample_access ?m = Inr access"
    by (simp add: limit_to_def store_from_enc_def sample_access_def)
  then obtain access where a: "limit_to toy_crypto toy_pb sample_access ?m = Inr access" ..
  have "ea_default_key access = None"
    using limited_access_confined[OF a _ sample_decode] by (simp add: c) (simp add: sample_caveat_def)
  then show ?thesis using a by simp
qed

section \<open>Restricting a grant\<close>

lemma restrict_paths_fold:
  "fold_result (\<lambda>prefix caveat.
      let plain = strip_slash (sp_prefix prefix)
      in try_bind (map_err map_enc (encrypt_path cr (sp_bucket prefix) plain st)) (\<lambda>enc_path.
           Inr (caveat\<lparr>allowed_paths := allowed_paths caveat @ [\<lparr>cp_bucket = sp_bucket prefix, encrypted_path_prefix = enc_path\<rparr>]\<rparr>)))
    ps c = Inr c' \<Longrightarrow>
   \<exists>qs. c' = c\<lparr>allowed_paths := allowed_paths c @ qs\<rparr> \<and> length qs = length ps \<and>
     list_all2 (\<lambda>p q. cp_bucket q = sp_bucket p \<and> encrypt_path cr (sp_bucket p) (strip_slash (sp_prefix p)) st = Inr (encrypted_path_prefix q)) ps qs"
proof (induction ps arbitrary: c)
  case (Cons p ps)
  then obtain ep where ep: "encrypt_path cr (sp_bucket p) (strip_slash (sp_prefix p)) st = Inr ep"
    by (auto simp: result_simps)
  let ?q = "\<lparr>cp_bucket = sp_bucket p, encrypted_path_prefix = ep\<rparr>"
  obtain qs where "c' = c\<lparr>allowed_paths := allowed_paths c @ [?q] @ qs\<rparr>" "length qs = length ps"
    "list_all2 (\<lambda>p q. cp_bucket q = sp_bucket p \<and> encrypt_path cr (sp_bucket p) (strip_slash (sp_prefix p)) st = Inr (encrypted_path_prefix q)) ps qs"
    using Cons.IH[of "c\<lparr>allowed_paths := allowed_paths c @ [?q]\<rparr>"] Cons.prems ep by auto
  then show ?case using ep by (intro exI[of _ "?q # qs"]) simp
qed (auto intro!: exI[of _ "[]"])

text \<open>
  C29: Restricting a grant only takes rights away.  The restricted grant keeps the satellite and all
  caveats of the old key and adds one, which forbids exactly the actions the permission does not allow (and
  the notification actions always) and lists the encrypted form of each given prefix; if prefixes are given,
  the grant holds no default key and its store entries lie under a listed prefix and under every older
  restriction.
\<close>

theorem restrict_attenuates:
  assumes "pb_ok pb" and "restrict cr pb random g perm prefixes = Inr g'"
    and "pred_option time_ok (not_after perm)" and "pred_option time_ok (not_before perm)" and "pred_option ttl_ok (max_object_ttl perm)"
  shows "\<exists>m c st. parse_macaroon (api_key g) = Inr m \<and> store_from_enc (enc_access g) = Inr st \<and> satellite_addr g' = satellite_addr g \<and>
    api_key g' = serialize_macaroon (add_first_party_caveat cr m (encode_caveat pb c)) \<and> decode_caveat pb (encode_caveat pb c) = Inr c \<and>
    c = (from_permission perm)\<lparr>cav_nonce := cav_nonce c, allowed_paths := allowed_paths c\<rparr> \<and>
    list_all2 (\<lambda>p q. cp_bucket q = sp_bucket p \<and> encrypt_path cr (sp_bucket p) (strip_slash (sp_prefix p)) st = Inr (encrypted_path_prefix q))
      prefixes (allowed_paths c) \<and>
    (prefixes \<noteq> [] \<longrightarrow> ea_default_key (enc_access g') = None \<and>
      (\<forall>x \<in> set (ea_store_entries (enc_access g')). permits c (se_bucket x) (se_encrypted_path x) \<and>
         all_permit pb (mac_caveats m) (se_bucket x) (se_encrypted_path x)))"
proof -
  obtain st nonce c m access where
    st: "store_from_enc (enc_access g) = Inr st" and
    c: "fold_result (\<lambda>prefix caveat.
      let plain = strip_slash (sp_prefix prefix)
      in try_bind (map_err map_enc (encrypt_path cr (sp_bucket prefix) plain st)) (\<lambda>enc_path.
           Inr (caveat\<lparr>allowed_paths := allowed_paths caveat @ [\<lparr>cp_bucket = sp_bucket prefix, encrypted_path_prefix = enc_path\<rparr>]\<rparr>)))
      prefixes ((from_permission perm)\<lparr>cav_nonce := nonce\<rparr>) = Inr c" and
    m: "parse_macaroon (api_key g) = Inr m" and
    a: "limit_to cr pb (enc_access g) (restrict_api_key cr pb m c) = Inr access" and
    g': "g' = grant_from_parts (satellite_addr g) (serialize_macaroon (restrict_api_key cr pb m c)) access"
    using assms(2) unfolding restrict_def parse_raw_def by (auto simp: try_bind_eq_Inr Let_def)
  obtain qs where q: "c = (from_permission perm)\<lparr>cav_nonce := nonce, allowed_paths := qs\<rparr>"
    "list_all2 (\<lambda>p q. cp_bucket q = sp_bucket p \<and> encrypt_path cr (sp_bucket p) (strip_slash (sp_prefix p)) st = Inr (encrypted_path_prefix q)) prefixes qs"
    using restrict_paths_fold[OF c] by (auto simp: from_permission_def)
  have t: "decode_caveat pb (encode_caveat pb c) = Inr c"
    using decode_encode_caveat[OF assms(1)] assms(3-) by (simp add: q(1) caveat_times_ok_def from_permission_def)
  have "ea_default_key access = None \<and> (\<forall>x \<in> set (ea_store_entries access).
      all_permit pb (mac_caveats m @ [encode_caveat pb c]) (se_bucket x) (se_encrypted_path x))" if "prefixes \<noteq> []"
  proof -
    have "allowed_paths c \<noteq> []" using q that by (auto simp: list_all2_Cons1)
    then have "\<exists>d \<in> set (mac_caveats (restrict_api_key cr pb m c)). \<exists>c. decode_caveat pb d = Inr c \<and> allowed_paths c \<noteq> []"
      using t by (auto simp: restrict_api_key_def add_first_party_caveat_def)
    from limit_to_confined[OF a this] show ?thesis by (simp add: restrict_api_key_def add_first_party_caveat_def)
  qed
  then have l: "prefixes \<noteq> [] \<longrightarrow> ea_default_key (enc_access g') = None \<and>
      (\<forall>x \<in> set (ea_store_entries (enc_access g')). permits c (se_bucket x) (se_encrypted_path x) \<and>
         all_permit pb (mac_caveats m) (se_bucket x) (se_encrypted_path x))"
    using t by (auto simp: g' grant_from_parts_def all_permit_def)
  show ?thesis
    by (rule exI[of _ m], rule exI[of _ c], rule exI[of _ st])
       (use st m t q l in \<open>simp add: g' grant_from_parts_def restrict_api_key_def from_permission_def\<close>)
qed

theorem restrict_attenuates_witness:
  "let g = grant_from_parts [65] (serialize_macaroon (from_parts toy_crypto [1] [2])) sample_access in
   \<exists>g'. restrict toy_crypto toy_pb (Some [1, 2, 3, 4]) g read_only [] = Inr g' \<and> satellite_addr g' = [65]"
proof -
  let ?m = "from_parts toy_crypto [1] [2]"
  let ?g = "grant_from_parts [65] (serialize_macaroon ?m) sample_access"
  let ?c = "(from_permission read_only)\<lparr>cav_nonce := [1, 2, 3, 4]\<rparr>"
  have m: "parse_macaroon (serialize_macaroon ?m) = Inr ?m"
    by (rule parse_serialize) (simp add: mac_ok_def small_len_def from_parts_def sign_def toy_crypto_def)
  have d: "decode_caveat toy_pb (encode_caveat toy_pb ?c) = Inr ?c"
    by (rule decode_encode_caveat[OF toy_pb_ok]) (simp add: caveat_times_ok_def from_permission_def read_only_def default_permission_def)
  have "collapse_prefixes toy_pb (restrict_api_key toy_crypto toy_pb ?m ?c) = Inr ([], False)"
    by (simp add: collapse_prefixes_def restrict_api_key_def add_first_party_caveat_def from_parts_def d) (simp add: from_permission_def)
  then have l: "limit_to toy_crypto toy_pb sample_access (restrict_api_key toy_crypto toy_pb ?m ?c) = Inr sample_access"
    by (simp add: limit_to_def)
  have "validate_permission read_only = Inr ()"
    by (simp add: validate_permission_def permission_is_empty_def read_only_def default_permission_def)
  moreover have "\<exists>st. store_from_enc sample_access = Inr st" by (simp add: store_from_enc_def sample_access_def)
  ultimately have r: "\<exists>g'. restrict toy_crypto toy_pb (Some [1, 2, 3, 4]) ?g read_only [] = Inr g'"
    using m l by (auto simp: restrict_def grant_from_parts_def parse_raw_def)
  then obtain g' where g: "restrict toy_crypto toy_pb (Some [1, 2, 3, 4]) ?g read_only [] = Inr g'" ..
  have "satellite_addr g' = satellite_addr ?g"
    using restrict_attenuates[OF toy_pb_ok g] by (auto simp: read_only_def default_permission_def)
  then show ?thesis using g by (simp add: grant_from_parts_def)
qed

section \<open>Grants survive serialisation\<close>

text \<open>What a grant made from parts needs so that its text form carries all of it.\<close>

definition access_ok :: "EncryptionAccess \<Rightarrow> bool" where
  "access_ok a \<longleftrightarrow> pred_option (\<lambda>k. length k = 32) (ea_default_key a) \<and> suite_number (ea_default_path_cipher a) \<noteq> 0 \<and>
    is_i32 (suite_number (ea_default_path_cipher a)) \<and> ea_default_parameters a = None \<and>
    list_all (\<lambda>e. length (se_key e) = 32 \<and> is_i32 (suite_number (se_path_cipher e)) \<and> se_parameters e = None) (ea_store_entries a) \<and>
    (case store_from_enc a of Inr _ \<Rightarrow> True | Inl _ \<Rightarrow> False)"

lemma suite_number_inverse [simp]: "CipherSuite (suite_number c) = c"
  by (cases c) simp

lemma entries_from_to_proto:
  "list_all (\<lambda>e. length (se_key e) = 32 \<and> se_parameters e = None) es \<Longrightarrow>
   fold_result (\<lambda>e acc. try_bind (entry_from_proto e) (\<lambda>x. Inr (acc @ [x]))) (map entry_to_proto es) acc = Inr (acc @ es)"
  by (induction es arbitrary: acc) (simp_all add: entry_from_proto_def entry_to_proto_def key32_def)

lemma access_from_to_proto:
  assumes "access_ok a"
  shows "access_from_proto (access_to_proto a) = Inr a"
proof -
  obtain dk pc es where a: "a = \<lparr>ea_default_key = dk, ea_default_path_cipher = pc, ea_store_entries = es, ea_default_parameters = None\<rparr>"
    using assms by (cases a) (simp add: access_ok_def)
  have e: "fold_result (\<lambda>e acc. try_bind (entry_from_proto e) (\<lambda>x. Inr (acc @ [x]))) (map entry_to_proto es) [] = Inr es"
    using entries_from_to_proto[of es "[]"] assms by (simp add: a access_ok_def list_all_iff)
  obtain st where "store_from_enc a = Inr st" using assms by (auto simp: access_ok_def split: sum.splits)
  note st = this[unfolded a]
  show ?thesis
  proof (cases dk)
    case None
    then show ?thesis using assms e st by (simp add: a access_from_proto_def access_to_proto_def access_ok_def)
  next
    case (Some k)
    then have "length k = 32" using assms by (simp add: a access_ok_def)
    moreover from this have "k \<noteq> []" by auto
    ultimately show ?thesis
      using assms e st Some by (simp add: a access_from_proto_def access_to_proto_def access_ok_def key32_def)
  qed
qed

lemma scope_fits_of:
  assumes "utf8_valid addr" and "access_ok a"
  shows "scope_fits \<lparr>sc_satellite_addr = addr, sc_api_key = k, sc_encryption_access = Some (access_to_proto a)\<rparr>"
  using assms by (simp add: scope_fits_def access_ok_def access_to_proto_def entry_to_proto_def list_all_iff)

text \<open>An API key whose caveats all decode and none of which lists paths leaves the encryption access as it is.\<close>

definition paths_unrestricted :: "Pb \<Rightarrow> Macaroon \<Rightarrow> bool" where
  "paths_unrestricted pb m =
    list_all (\<lambda>c. case decode_caveat pb c of Inr cav \<Rightarrow> allowed_paths cav = [] | Inl _ \<Rightarrow> False) (mac_caveats m)"

lemma unrestricted_limit:
  assumes "paths_unrestricted pb m"
  shows "limit_to cr pb enc m = Inr enc"
proof -
  let ?f = "\<lambda>d (groups, prefixes). try_bind (decode_caveat pb d) (\<lambda>cav.
      if allowed_paths cav \<noteq> [] then Inr (groups @ [allowed_paths cav], prefixes @ allowed_paths cav) else Inr (groups, prefixes))"
  have "fold_result ?f cs acc = Inr acc"
    if "list_all (\<lambda>c. case decode_caveat pb c of Inr cav \<Rightarrow> allowed_paths cav = [] | Inl _ \<Rightarrow> False) cs" for cs acc
    using that by (induction cs) (auto split: sum.splits prod.splits)
  then show ?thesis using assms by (simp add: limit_to_def collapse_prefixes_def paths_unrestricted_def)
qed

text \<open>
  C35: A grant that is serialised from its fields (one made from parts or changed since it was parsed) survives its text form, under
  these conditions: a UTF-8 address that is not empty, an API key in canonical form, keys of 32 bytes, a store that accepts the entries, no
  encryption parameters (they are not written) and a default path cipher that is not zero (zero is read as AES-GCM).
  Then serialising succeeds.  If no caveat of the API key lists paths, the text parses to the same grant, with the text kept as its
  original, which is what serialising it again returns.  In general the text parses to the grant with its encryption access limited to what
  the API key allows, and the text is kept only if that changed nothing.
\<close>

theorem grant_round_trip:
  assumes "b58_ok bc" and "pb_ok pb" and "utf8_valid (satellite_addr g)" and "satellite_addr g \<noteq> []" and "mac_ok m" and "api_key g = serialize_macaroon m"
    and "access_ok (enc_access g)" and "original g = None"
  shows "\<exists>s. serialize_grant bc pb g = Inr s \<and>
    (paths_unrestricted pb m \<longrightarrow>
      parse_grant cr bc pb s = Inr (g\<lparr>original := Some s\<rparr>) \<and> serialize_grant bc pb (g\<lparr>original := Some s\<rparr>) = Inr s) \<and>
    (\<forall>lim. limit_to cr pb (enc_access g) m = Inr lim \<longrightarrow>
      parse_grant cr bc pb s = Inr (g\<lparr>enc_access := lim, original := (if lim = enc_access g then Some s else None)\<rparr>))"
proof -
  let ?sc = "\<lparr>sc_satellite_addr = satellite_addr g, sc_api_key = api_key g, sc_encryption_access = Some (access_to_proto (enc_access g))\<rparr>"
  let ?s = "check_encode bc (scope_encode pb ?sc) GRANT_VERSION"
  have n: "api_key g \<noteq> []" using assms(6) by (simp add: serialize_eq)
  have s: "serialize_grant bc pb g = Inr ?s" using assms(4,8) n by (simp add: serialize_grant_def serialize_from_fields_def)
  have "scope_decode pb (scope_encode pb ?sc) = Some ?sc"
    using assms(2) scope_fits_of[OF assms(3,7)] by (simp add: pb_ok_def)
  moreover have "?s \<noteq> []" using assms(1) by (simp add: check_encode_def b58_ok_def)
  ultimately have p: "parse_grant cr bc pb ?s = Inr (g\<lparr>enc_access := lim, original := (if lim = enc_access g then Some ?s else None)\<rparr>)"
    if "limit_to cr pb (enc_access g) m = Inr lim" for lim
    using that n assms(4) check_decode_encode[OF assms(1)] parse_serialize[OF assms(5)] access_from_to_proto[OF assms(7)] assms(6)
    by (cases g) (simp add: parse_grant_def parse_raw_def)
  have "parse_grant cr bc pb ?s = Inr (g\<lparr>original := Some ?s\<rparr>)" if "paths_unrestricted pb m"
    using p[OF unrestricted_limit[OF that]] by (cases g) simp
  then show ?thesis using s p by (intro exI[of _ ?s]) (simp add: serialize_grant_def)
qed

text \<open>A grant with a default key and an entry of its own for one path, and a read-only API key.\<close>

definition keyed_access :: EncryptionAccess where
  "keyed_access = \<lparr>ea_default_key = Some (replicate 32 7), ea_default_path_cipher = AES_GCM,
     ea_store_entries = [\<lparr>se_bucket = [98], se_unencrypted_path = [97], se_encrypted_path = [120], se_key = replicate 32 8, se_path_cipher = AES_GCM,
       se_parameters = None\<rparr>], ea_default_parameters = None\<rparr>"

text \<open>A message format that writes the read-only caveat as a single byte.\<close>

definition short_pb :: Pb where
  "short_pb = toy_pb\<lparr>caveat_encode := (\<lambda>c. if c = caveat_to_proto (from_permission read_only) then [1] else caveat_encode toy_pb c),
     caveat_decode := (\<lambda>d. if d = [1] then Some (caveat_to_proto (from_permission read_only)) else caveat_decode toy_pb d)\<rparr>"

lemma short_pb_ok: "pb_ok short_pb"
proof -
  have "replicate n 0 \<noteq> [1 :: u8]" for n by (cases n) auto
  then show ?thesis using toy_pb_ok by (simp add: pb_ok_def short_pb_def) (simp add: toy_pb_def)
qed

definition read_only_key :: Macaroon where
  "read_only_key = add_first_party_caveat toy_crypto (from_parts toy_crypto [1] [2]) (encode_caveat short_pb (from_permission read_only))"

theorem grant_round_trip_witness:
  "\<exists>s. let g = grant_from_parts [65] (serialize_macaroon read_only_key) keyed_access in
    serialize_grant toy_b58 short_pb g = Inr s \<and> parse_grant toy_crypto toy_b58 short_pb s = Inr (g\<lparr>original := Some s\<rparr>)"
proof -
  let ?g = "grant_from_parts [65] (serialize_macaroon read_only_key) keyed_access"
  have c: "decode_caveat short_pb (encode_caveat short_pb (from_permission read_only)) = Inr (from_permission read_only)"
    by (rule decode_encode_caveat[OF short_pb_ok]) (simp add: caveat_times_ok_def from_permission_def read_only_def default_permission_def)
  have "encode_caveat short_pb (from_permission read_only) = [1]" by (simp add: encode_caveat_def short_pb_def)
  then have m: "mac_ok read_only_key" by (simp add: mac_ok_def small_len_def read_only_key_def add_first_party_caveat_def from_parts_def sign_def toy_crypto_def)
  have u: "paths_unrestricted short_pb read_only_key"
    using c by (simp add: paths_unrestricted_def read_only_key_def add_first_party_caveat_def from_parts_def from_permission_def read_only_def default_permission_def)
  have e: "entry_bucket \<lparr>se_bucket = [98], se_unencrypted_path = p, se_encrypted_path = q, se_key = k, se_path_cipher = cs, se_parameters = None\<rparr> = Inr [98]" for p q k cs
    using utf8_valid_ascii[of "[98]"] by (simp add: entry_bucket_def from_utf8_def)
  have "snd (add_with_cipher (set_default_path_cipher (set_default_key new_store (replicate 32 7)) AES_GCM) [98] [97] [120] (replicate 32 8) AES_GCM) = Inr ()"
    by code_simp
  then have st: "case store_from_enc keyed_access of Inr _ \<Rightarrow> True | Inl _ \<Rightarrow> False"
    by (auto simp: store_from_enc_def keyed_access_def add_entry_def e split: prod.splits sum.splits)
  have a: "access_ok keyed_access"
    using st by (simp add: access_ok_def) (simp add: keyed_access_def AES_GCM_def is_i32_def)
  have v: "utf8_valid (satellite_addr ?g)" by (rule utf8_valid_ascii) (simp add: grant_from_parts_def)
  from grant_round_trip[OF toy_b58_ok short_pb_ok v _ m, of toy_crypto] a u show ?thesis
    by (auto simp: grant_from_parts_def Let_def)
qed

end
