(* ===== verification/Node_Identity.thy ===== *)
theory Node_Identity
  imports Macaroon
begin

text \<open>
  Node identifiers, certificate chains and node addresses: \<open>crates/storj-rpc/src/identity.rs\<close> and
  \<open>crates/storj-rpc/src/known_ids.rs\<close>.  X.509, P-256 and PEM are other crates: the record \<open>Pki\<close> holds the functions
  that the code calls, with what it relies on in \<open>pki_ok\<close>; SHA-256 and the Base58 digits are in \<open>B58\<close>.  A string is
  its bytes.  Generating certificates is left to \<open>rcgen\<close> and not modelled.

  Shown: a loaded identity signs what its own leaf certificate verifies; a leaf accepted from a piece response is signed
  by a certificate of the expected node; node identifiers and node addresses survive their text forms.
\<close>

section \<open>The code\<close>

datatype IdentityError = NodeIdErr | NodeIdRequired | NodeUrlErr string | Certificate string | SignatureErr

text \<open>What \<open>x509_parser\<close> returns of a certificate: the signed part, the signature, the key and the extensions.\<close>

record X509 =
  tbs_certificate :: bytes
  signature_value :: bytes
  spki_raw :: bytes
  subject_public_key :: bytes
  x509_extensions :: "(bytes \<times> bytes) list"

record Pki =
  x509_from_der :: "bytes \<Rightarrow> (bytes \<times> X509) option"          \<comment> \<open>the rest of the input and a certificate\<close>
  vk_from_sec1 :: "bytes \<Rightarrow> bytes option"
  vk_to_public_der :: "bytes \<Rightarrow> bytes option"
  sig_from_der :: "bytes \<Rightarrow> bytes option"
  sig_to_der :: "bytes \<Rightarrow> bytes"
  ecdsa_verify :: "bytes \<Rightarrow> bytes \<Rightarrow> bytes \<Rightarrow> bool"           \<comment> \<open>key, message, signature\<close>
  ecdsa_sign :: "bytes \<Rightarrow> bytes \<Rightarrow> bytes"
  sk_from_pkcs8 :: "bytes \<Rightarrow> bytes option"
  sk_verifying_key :: "bytes \<Rightarrow> bytes"
  sec1_key_to_pkcs8 :: "bytes \<Rightarrow> bytes option"
  pem_items :: "bytes \<Rightarrow> (bytes \<times> bytes) option list"           \<comment> \<open>label and contents, or an item that does not parse\<close>

text \<open>
  What the program relies on: a parsed certificate takes up a non-empty front of its input and does not depend on what
  follows, a signature survives its DER form, and what a key signs verifies under its public key.
\<close>

definition pki_ok :: "Pki \<Rightarrow> bool" where
  "pki_ok p \<longleftrightarrow>
    (\<forall>b rest c. x509_from_der p b = Some (rest, c) \<longrightarrow>
      (\<exists>der. der \<noteq> [] \<and> b = der @ rest \<and> (\<forall>rest'. x509_from_der p (der @ rest') = Some (rest', c)))) \<and>
    (\<forall>s. sig_from_der p (sig_to_der p s) = Some s) \<and>
    (\<forall>k m. ecdsa_verify p (sk_verifying_key p k) m (ecdsa_sign p k m))"

subsection \<open>Certificates\<close>

definition IDENTITY_VERSION_OID_BER :: bytes where "IDENTITY_VERSION_OID_BER = [0x88, 0x37, 0x02, 0x01]"
definition ID_VERSION_V0 :: u8 where "ID_VERSION_V0 = 0"
definition NODE_ID_SIZE :: nat where "NODE_ID_SIZE = 32"

definition parse_cert :: "Pki \<Rightarrow> bytes \<Rightarrow> IdentityError + X509" where
  "parse_cert p der = try_bind (ok_or (Certificate ''parse'') (x509_from_der p der)) (\<lambda>(_, cert). Inr cert)"

definition is_identity_version_ext :: "bytes \<times> bytes \<Rightarrow> bool" where
  "is_identity_version_ext ext \<longleftrightarrow> fst ext = IDENTITY_VERSION_OID_BER"

definition id_version :: "X509 \<Rightarrow> IdentityError + u8" where
  "id_version cert =
    (case find is_identity_version_ext (x509_extensions cert) of
       Some (_, val) \<Rightarrow>
         (let v = (case val of [] \<Rightarrow> ID_VERSION_V0 | b # _ \<Rightarrow> b)
          in if v \<noteq> ID_VERSION_V0 then Inl (Certificate ''unsupported identity version'') else Inr v)
     | None \<Rightarrow> Inr ID_VERSION_V0)"

definition pkix_spki :: "Pki \<Rightarrow> X509 \<Rightarrow> IdentityError + bytes" where
  "pkix_spki p cert =
    (if spki_raw cert \<noteq> [] then Inr (spki_raw cert)
     else try_bind (ok_or (Certificate ''key'') (vk_from_sec1 p (subject_public_key cert))) (\<lambda>vk.
       ok_or (Certificate ''key'') (vk_to_public_der p vk)))"

definition double_sha256 :: "B58 \<Rightarrow> bytes \<Rightarrow> bytes" where
  "double_sha256 bc dat = sha256 bc (sha256 bc dat)"

definition from_parsed_cert :: "B58 \<Rightarrow> Pki \<Rightarrow> X509 \<Rightarrow> IdentityError + bytes" where
  "from_parsed_cert bc p cert =
    try_bind (id_version cert) (\<lambda>version.
    try_bind (pkix_spki p cert) (\<lambda>spki. Inr ((double_sha256 bc spki)[NODE_ID_SIZE - 1 := version])))"

definition from_certificate_der :: "B58 \<Rightarrow> Pki \<Rightarrow> bytes \<Rightarrow> IdentityError + bytes" where
  "from_certificate_der bc p der = try_bind (parse_cert p der) (from_parsed_cert bc p)"

definition verify_signed_by :: "Pki \<Rightarrow> X509 \<Rightarrow> X509 \<Rightarrow> IdentityError + unit" where
  "verify_signed_by p child parent =
    try_bind (ok_or (Certificate ''key'') (vk_from_sec1 p (subject_public_key parent))) (\<lambda>vk.
    try_bind (ok_or (Certificate ''signature'') (sig_from_der p (signature_value child))) (\<lambda>sig.
      if ecdsa_verify p vk (tbs_certificate child) sig then Inr () else Inl (Certificate ''certificate chain invalid'')))"

fun parse_certs :: "Pki \<Rightarrow> bytes list \<Rightarrow> IdentityError + X509 list" where
  "parse_certs p [] = Inr []"
| "parse_certs p (der # ders) = try_bind (parse_cert p der) (\<lambda>c. try_bind (parse_certs p ders) (\<lambda>cs. Inr (c # cs)))"

fun verify_links :: "Pki \<Rightarrow> X509 list \<Rightarrow> IdentityError + unit" where
  "verify_links p [] = Inr ()"
| "verify_links p [c] = verify_signed_by p c c"
| "verify_links p (c # parent # cs) = try_bind (verify_signed_by p c parent) (\<lambda>_. verify_links p (parent # cs))"

definition verify_chain :: "Pki \<Rightarrow> bytes list \<Rightarrow> IdentityError + unit" where
  "verify_chain p chain_der =
    (if length chain_der < 2 then Inl (Certificate ''invalid certificate chain: missing CA'')
     else try_bind (parse_certs p chain_der) (verify_links p))"

definition verifying_key_from_cert_der :: "Pki \<Rightarrow> bytes \<Rightarrow> IdentityError + bytes" where
  "verifying_key_from_cert_der p der =
    try_bind (parse_cert p der) (\<lambda>cert. ok_or (Certificate ''key'') (vk_from_sec1 p (subject_public_key cert)))"

definition hash_and_verify :: "Pki \<Rightarrow> bytes \<Rightarrow> bytes \<Rightarrow> bytes \<Rightarrow> IdentityError + unit" where
  "hash_and_verify p cert_der dat signature =
    try_bind (verifying_key_from_cert_der p cert_der) (\<lambda>vk.
    try_bind (ok_or SignatureErr (sig_from_der p signature)) (\<lambda>sig.
      if ecdsa_verify p vk dat sig then Inr () else Inl SignatureErr))"

text \<open>
  The loop of \<open>verified_leaf\<close> over the concatenated certificates.  The fuel is the number of bytes; a certificate takes
  at least one, so it never runs out (lemma \<open>split_certs_enough\<close>).
\<close>

fun split_certs :: "Pki \<Rightarrow> nat \<Rightarrow> bytes \<Rightarrow> IdentityError + bytes list" where
  "split_certs p fuel [] = Inr []"
| "split_certs p 0 rest = Inl (Certificate ''no progress'')"
| "split_certs p (Suc fuel) rest =
    (case x509_from_der p rest of
       None \<Rightarrow> Inl (Certificate ''parse'')
     | Some (remaining, _) \<Rightarrow>
         try_bind (split_certs p fuel remaining) (\<lambda>cs. Inr (take (length rest - length remaining) rest # cs)))"

definition verified_leaf :: "B58 \<Rightarrow> Pki \<Rightarrow> bytes \<Rightarrow> bytes \<Rightarrow> IdentityError + bytes" where
  "verified_leaf bc p chain expected =
    try_bind (split_certs p (length chain) chain) (\<lambda>certs.
    case certs of
      leaf # ca # _ \<Rightarrow>
        try_bind (parse_cert p leaf) (\<lambda>leaf_cert.
        try_bind (parse_cert p ca) (\<lambda>ca_cert.
        try_bind (verify_signed_by p leaf_cert ca_cert) (\<lambda>_.
        try_bind (from_certificate_der bc p ca) (\<lambda>id.
          if id \<noteq> expected then Inl (Certificate ''piece response NodeID mismatch'') else Inr leaf))))
    | _ \<Rightarrow> Inl (Certificate ''piece response certificate chain missing CA''))"

subsection \<open>Identities\<close>

record Identity =
  id_node :: bytes
  id_leaf :: bytes
  id_ca :: bytes
  id_parents :: "bytes list"
  key_pkcs8 :: bytes

definition cert_chain :: "Identity \<Rightarrow> bytes list" where
  "cert_chain i = [id_leaf i, id_ca i] @ id_parents i"

definition from_certificates_and_key :: "B58 \<Rightarrow> Pki \<Rightarrow> bytes list \<Rightarrow> bytes \<Rightarrow> IdentityError + Identity" where
  "from_certificates_and_key bc p certs key =
    (if length certs < 2 then Inl (Certificate ''identity chain does not contain a CA certificate'')
     else let leaf = certs ! 0; ca = certs ! 1
     in try_bind (verify_chain p certs) (\<lambda>_.
        try_bind (ok_or (Certificate ''invalid P-256 PKCS#8 private key'') (sk_from_pkcs8 p key)) (\<lambda>signing_key.
        try_bind (parse_cert p leaf) (\<lambda>leaf_cert.
        try_bind (ok_or (Certificate ''invalid P-256 leaf public key'') (vk_from_sec1 p (subject_public_key leaf_cert))) (\<lambda>leaf_key.
          if sk_verifying_key p signing_key \<noteq> leaf_key then Inl (Certificate ''identity private key does not match leaf certificate'')
          else try_bind (from_certificate_der bc p ca) (\<lambda>id.
            Inr \<lparr>id_node = id, id_leaf = leaf, id_ca = ca, id_parents = drop 2 certs, key_pkcs8 = key\<rparr>))))))"

definition CERTIFICATE :: bytes where "CERTIFICATE = map of_char ''CERTIFICATE''"
definition PRIVATE_KEY :: bytes where "PRIVATE_KEY = map of_char ''PRIVATE KEY''"
definition EC_PRIVATE_KEY :: bytes where "EC_PRIVATE_KEY = map of_char ''EC PRIVATE KEY''"

fun pem_collect :: "(bytes \<times> bytes) option list \<Rightarrow> bytes list \<times> bytes list \<Rightarrow> IdentityError + (bytes list \<times> bytes list)" where
  "pem_collect [] acc = Inr acc"
| "pem_collect (None # items) acc = Inl (Certificate ''pem'')"
| "pem_collect (Some (label, contents) # items) (certs, keys) =
    pem_collect items
      (if label = CERTIFICATE then (certs @ [contents], keys)
       else if label = PRIVATE_KEY then (certs, keys @ [contents]) else (certs, keys))"

definition from_pem :: "B58 \<Rightarrow> Pki \<Rightarrow> bytes \<Rightarrow> IdentityError + Identity" where
  "from_pem bc p pem =
    try_bind (pem_collect (pem_items p pem) ([], [])) (\<lambda>(certs, keys).
      case keys of [] \<Rightarrow> Inl (Certificate ''identity dump missing PRIVATE KEY'')
      | key # _ \<Rightarrow> from_certificates_and_key bc p certs key)"

fun pem_chain :: "(bytes \<times> bytes) option list \<Rightarrow> IdentityError + bytes list" where
  "pem_chain [] = Inr []"
| "pem_chain (None # items) = Inl (Certificate ''pem'')"
| "pem_chain (Some (label, contents) # items) =
    (if label \<noteq> CERTIFICATE then Inl (Certificate ''identity chain must contain only certificates'')
     else try_bind (pem_chain items) (\<lambda>cs. Inr (contents # cs)))"

fun pem_key :: "Pki \<Rightarrow> (bytes \<times> bytes) option list \<Rightarrow> bytes option \<Rightarrow> IdentityError + bytes option" where
  "pem_key p [] key = Inr key"
| "pem_key p (None # items) key = Inl (Certificate ''pem'')"
| "pem_key p (Some (label, contents) # items) key =
    (if key \<noteq> None then Inl (Certificate ''expected exactly one identity private key'')
     else if label = PRIVATE_KEY then pem_key p items (Some contents)
     else if label = EC_PRIVATE_KEY then
       (case sec1_key_to_pkcs8 p contents of
          None \<Rightarrow> Inl (Certificate ''invalid P-256 SEC1 private key'') | Some der \<Rightarrow> pem_key p items (Some der))
     else Inl (Certificate ''expected unencrypted P-256 private key''))"

definition from_pem_parts :: "B58 \<Rightarrow> Pki \<Rightarrow> bytes \<Rightarrow> bytes \<Rightarrow> IdentityError + Identity" where
  "from_pem_parts bc p chain_pem key_pem =
    try_bind (pem_chain (pem_items p chain_pem)) (\<lambda>certs.
    try_bind (pem_key p (pem_items p key_pem) None) (\<lambda>key.
    try_bind (ok_or (Certificate ''identity private key is missing'') key) (from_certificates_and_key bc p certs)))"

definition hash_and_sign :: "Pki \<Rightarrow> Identity \<Rightarrow> bytes \<Rightarrow> IdentityError + bytes" where
  "hash_and_sign p i dat =
    try_bind (ok_or (Certificate ''key'') (sk_from_pkcs8 p (key_pkcs8 i))) (\<lambda>sk. Inr (sig_to_der p (ecdsa_sign p sk dat)))"

subsection \<open>Node identifiers as text\<close>

definition id_checksum :: "B58 \<Rightarrow> bytes \<Rightarrow> bytes" where
  "id_checksum bc input = take 4 (sha256 bc (sha256 bc input))"

definition id_check_encode :: "B58 \<Rightarrow> bytes \<Rightarrow> u8 \<Rightarrow> bytes" where
  "id_check_encode bc pl version = (let body = [version] @ pl in bs58_encode bc (body @ id_checksum bc body))"

definition id_check_decode :: "B58 \<Rightarrow> bytes \<Rightarrow> IdentityError + (bytes \<times> u8)" where
  "id_check_decode bc s =
    try_bind (ok_or NodeIdErr (bs58_decode bc s)) (\<lambda>decoded.
      if length decoded < 5 then Inl NodeIdErr
      else let body = take (length decoded - 4) decoded; cksum = drop (length decoded - 4) decoded
           in if id_checksum bc body \<noteq> cksum then Inl NodeIdErr else Inr (drop 1 body, body ! 0))"

definition node_id_encode :: "B58 \<Rightarrow> bytes \<Rightarrow> bytes" where
  "node_id_encode bc node = id_check_encode bc (node[NODE_ID_SIZE - 1 := 0]) (node ! (NODE_ID_SIZE - 1))"

definition node_id_decode :: "B58 \<Rightarrow> bytes \<Rightarrow> IdentityError + bytes" where
  "node_id_decode bc s =
    try_bind (id_check_decode bc s) (\<lambda>(payload, version).
      if length payload \<noteq> NODE_ID_SIZE then Inl NodeIdErr else Inr (payload[NODE_ID_SIZE - 1 := version]))"

definition ZERO :: bytes where "ZERO = replicate NODE_ID_SIZE 0"
definition is_zero :: "bytes \<Rightarrow> bool" where "is_zero node \<longleftrightarrow> node = replicate NODE_ID_SIZE 0"

record NodeUrl =
  nu_id :: bytes
  nu_address :: bytes

abbreviation (input) ascii :: "string \<Rightarrow> bytes" where "ascii s \<equiv> map of_char s"

definition display_node_url :: "B58 \<Rightarrow> NodeUrl \<Rightarrow> bytes" where
  "display_node_url bc u =
    (if is_zero (nu_id u) then nu_address u else node_id_encode bc (nu_id u) @ ascii ''@'' @ nu_address u)"


subsection \<open>Known satellites and node addresses\<close>

definition US1 :: bytes where "US1 = ascii ''12EayRS2V1kEsWESU9QMRseFhdxYxKicsiFmxrsLZHeLUtdps3S''"
definition AP1 :: bytes where "AP1 = ascii ''121RTSDpyNZVcEU84Ticf2L1ntiuUimbWgfATz21tuvgk3vzoA6''"
definition EU1 :: bytes where "EU1 = ascii ''12L9ZFwhzVpuEKMUNUqkaTLGzwY9G24tbiigLiXpmZWKwmcNDDs''"
definition STEFAN :: bytes where "STEFAN = ascii ''118UWpMCHzs6CvSgWd9BfFVjw5K9pZbJjkfZJexMtSkmKxvvAW''"
definition SALTLAKE :: bytes where "SALTLAKE = ascii ''1wFTAgs9DP5RSnCqKV1eLf6N9wtk4EAtmN5DpSxcs8EjT69tGE''"

definition KNOWN :: "(bytes \<times> bytes) list" where
  "KNOWN =
    [(ascii ''us-central-1.tardigrade.io:7777'', US1), (ascii ''us-central-1.tardigrade.io'', US1),
     (ascii ''mars.tardigrade.io:7777'', US1), (ascii ''mars.tardigrade.io'', US1),
     (ascii ''asia-east-1.tardigrade.io:7777'', AP1), (ascii ''asia-east-1.tardigrade.io'', AP1),
     (ascii ''saturn.tardigrade.io:7777'', AP1), (ascii ''saturn.tardigrade.io'', AP1),
     (ascii ''europe-west-1.tardigrade.io:7777'', EU1), (ascii ''europe-west-1.tardigrade.io'', EU1),
     (ascii ''jupiter.tardigrade.io:7777'', EU1), (ascii ''jupiter.tardigrade.io'', EU1),
     (ascii ''satellite.stefan-benten.de:7777'', STEFAN), (ascii ''satellite.stefan-benten.de'', STEFAN),
     (ascii ''saltlake.tardigrade.io:7777'', SALTLAKE), (ascii ''saltlake.tardigrade.io'', SALTLAKE)]"

text \<open>\<open>expect("static KnownNodeID")\<close>: an identifier of the table that does not decode stops the program, here \<open>None\<close>.\<close>

definition lookup_known :: "B58 \<Rightarrow> bytes \<Rightarrow> bytes option" where
  "lookup_known bc address =
    (case map_of KNOWN address of None \<Rightarrow> None
     | Some s \<Rightarrow> (case node_id_decode bc s of Inr node \<Rightarrow> Some node | Inl _ \<Rightarrow> None))"

text \<open>\<open>split_once\<close> and \<open>rsplit_once\<close> at one character, \<open>strip_prefix\<close>, and \<open>find\<close> of a string.\<close>

definition split_once :: "u8 \<Rightarrow> bytes \<Rightarrow> (bytes \<times> bytes) option" where
  "split_once c s = (if c \<in> set s then Some (takeWhile (\<lambda>x. x \<noteq> c) s, drop 1 (dropWhile (\<lambda>x. x \<noteq> c) s)) else None)"

definition rsplit_once :: "u8 \<Rightarrow> bytes \<Rightarrow> (bytes \<times> bytes) option" where
  "rsplit_once c s = map_option (\<lambda>(a, b). (rev b, rev a)) (split_once c (rev s))"

definition strip_pfx :: "bytes \<Rightarrow> bytes \<Rightarrow> bytes option" where
  "strip_pfx pre s = (if take (length pre) s = pre then Some (drop (length pre) s) else None)"

fun find_sub :: "bytes \<Rightarrow> bytes \<Rightarrow> nat option" where
  "find_sub sub s =
    (if take (length sub) s = sub then Some 0
     else case s of [] \<Rightarrow> None | _ # s' \<Rightarrow> map_option Suc (find_sub sub s'))"

declare find_sub.simps [simp del]

definition split_host_port :: "bytes \<Rightarrow> (bytes \<times> bytes) option" where
  "split_host_port address =
    (case strip_pfx (ascii ''['') address of
       Some rest \<Rightarrow>
         (case split_once (of_char CHR '']'') rest of
            None \<Rightarrow> None
          | Some (host, rest) \<Rightarrow> map_option (\<lambda>port. (host, port)) (strip_pfx (ascii '':'') rest))
     | None \<Rightarrow> rsplit_once (of_char CHR '':'') address)"

definition known_node_id :: "B58 \<Rightarrow> bytes \<Rightarrow> bytes option" where
  "known_node_id bc address =
    (case lookup_known bc address of
       Some node \<Rightarrow> Some node
     | None \<Rightarrow> Option.bind (split_host_port address) (\<lambda>(host, _). lookup_known bc host))"

definition strip_scheme :: "bytes \<Rightarrow> IdentityError + bytes" where
  "strip_scheme s =
    (case strip_pfx (ascii ''storj://'') s of
       Some rest \<Rightarrow> Inr rest
     | None \<Rightarrow> (if find_sub (ascii ''://'') s \<noteq> None then Inl (NodeUrlErr ''unknown scheme'') else Inr s))"

definition parse_node_url_raw :: "B58 \<Rightarrow> bytes \<Rightarrow> IdentityError + NodeUrl" where
  "parse_node_url_raw bc s =
    (if s = [] then Inr \<lparr>nu_id = ZERO, nu_address = []\<rparr>
     else try_bind (strip_scheme s) (\<lambda>s.
       let (id_part, rest) = (case split_once (of_char CHR ''@'') s of Some (i, r) \<Rightarrow> (Some i, r) | None \<Rightarrow> (None, s));
           address = (case split_once (of_char CHR ''?'') rest of Some (a, _) \<Rightarrow> a | None \<Rightarrow> rest)
       in try_bind (case id_part of
                      Some i \<Rightarrow> (if i \<noteq> [] then map_err (\<lambda>_. NodeUrlErr ''invalid node ID'') (node_id_decode bc i) else Inr ZERO)
                    | None \<Rightarrow> Inr ZERO) (\<lambda>node.
            Inr \<lparr>nu_id = node, nu_address = address\<rparr>)))"

definition parse_node_url :: "B58 \<Rightarrow> bytes \<Rightarrow> IdentityError + NodeUrl" where
  "parse_node_url bc s =
    try_bind (parse_node_url_raw bc s) (\<lambda>node.
      if is_zero (nu_id node) then
        (case known_node_id bc (nu_address node) of
           Some i \<Rightarrow> Inr \<lparr>nu_id = i, nu_address = nu_address node\<rparr>
         | None \<Rightarrow> Inl NodeIdRequired)
      else Inr node)"

section \<open>Certificates and identities\<close>

lemma pki_okD:
  assumes "pki_ok p"
  shows "x509_from_der p b = Some (rest, c) \<Longrightarrow>
      \<exists>der. der \<noteq> [] \<and> b = der @ rest \<and> (\<forall>rest'. x509_from_der p (der @ rest') = Some (rest', c))"
    and "sig_from_der p (sig_to_der p s) = Some s" and "ecdsa_verify p (sk_verifying_key p k) m (ecdsa_sign p k m)"
  using assms by (auto simp: pki_ok_def)

lemma split_certs_enough:
  assumes "pki_ok p" and "length rest \<le> fuel" and "split_certs p fuel rest = Inl e"
  shows "e = Certificate ''parse''"
  using assms(2,3)
proof (induction fuel arbitrary: rest e)
  case (Suc fuel)
  show ?case
  proof (cases "x509_from_der p rest")
    case None
    then show ?thesis using Suc.prems(2) by (cases rest) auto
  next
    case (Some rc)
    obtain remaining c where rc: "x509_from_der p rest = Some (remaining, c)" using Some by (cases rc) simp
    then have "length remaining < length rest" using pki_okD(1)[OF assms(1) rc] by auto
    then show ?thesis using Suc.prems Suc.IH[of remaining e] rc by (cases rest) (auto simp: result_simps)
  qed
qed auto

lemma split_certs_concat:
  assumes "pki_ok p" and "split_certs p fuel rest = Inr certs"
  shows "concat certs = rest \<and> (\<forall>c \<in> set certs. \<exists>x. x509_from_der p c = Some ([], x))"
  using assms(2)
proof (induction fuel arbitrary: rest certs)
  case (Suc fuel)
  show ?case
  proof (cases rest)
    case (Cons a as)
    then obtain remaining x cs where c: "x509_from_der p rest = Some (remaining, x)" "split_certs p fuel remaining = Inr cs"
      "certs = take (length rest - length remaining) rest # cs"
      using Suc.prems by (auto simp: result_simps split: option.splits)
    obtain der where der: "rest = der @ remaining" "\<forall>r. x509_from_der p (der @ r) = Some (r, x)"
      using pki_okD(1)[OF assms(1) c(1)] by blast
    have "x509_from_der p der = Some ([], x)" using der(2)[rule_format, of "[]"] by simp
    then show ?thesis using Suc.IH[OF c(2)] c(3) der(1) by auto
  qed (use Suc.prems in auto)
next
  case 0
  then show ?case by (cases rest) auto
qed

lemma split_certs_append:
  assumes "\<And>r. x509_from_der p (der @ r) = Some (r, c)" and "der \<noteq> []"
  shows "split_certs p (Suc fuel) (der @ rest) = try_bind (split_certs p fuel rest) (\<lambda>cs. Inr (der # cs))"
proof (cases "der @ rest")
  case (Cons a as)
  then show ?thesis using assms(1)[of rest] by (simp only: Cons split_certs.simps) (simp flip: Cons)
qed (use assms(2) in simp)

text \<open>Certificates that take up all of their bytes are found again in the concatenation.\<close>

lemma split_certs_of_concat:
  assumes "pki_ok p" and "\<forall>der \<in> set ders. \<exists>c. x509_from_der p der = Some ([], c)" and "length (concat ders) \<le> fuel"
  shows "split_certs p fuel (concat ders) = Inr ders"
  using assms(2,3)
proof (induction ders arbitrary: fuel)
  case (Cons der ders)
  obtain c where "x509_from_der p der = Some ([], c)" using Cons.prems(1) by auto
  then obtain der' where d: "der' \<noteq> []" "der = der'" "\<forall>r. x509_from_der p (der' @ r) = Some (r, c)"
    using pki_okD(1)[OF assms(1)] by fastforce
  then obtain f where f: "fuel = Suc f" "length (concat ders) \<le> f" using Cons.prems(2) by (cases fuel; cases der) auto
  have "split_certs p fuel (der @ concat ders) = try_bind (split_certs p f (concat ders)) (\<lambda>cs. Inr (der # cs))"
    unfolding f(1) using d by (intro split_certs_append) auto
  then show ?case using Cons.IH[OF _ f(2)] Cons.prems(1) by simp
qed simp

lemma parse_certs_Cons:
  "parse_certs p (a # b # ds) = Inr cs \<longleftrightarrow> (\<exists>ca cb cs'. cs = ca # cb # cs' \<and> parse_cert p a = Inr ca \<and> parse_cert p b = Inr cb \<and> parse_certs p ds = Inr cs')"
  by (auto simp: result_simps)

lemma verify_chain_first:
  assumes "verify_chain p (a # b # ds) = Inr ()"
  shows "\<exists>ca cb. parse_cert p a = Inr ca \<and> parse_cert p b = Inr cb \<and> verify_signed_by p ca cb = Inr ()"
proof -
  obtain cs where cs: "parse_certs p (a # b # ds) = Inr cs" "verify_links p cs = Inr ()"
    using assms by (auto simp: verify_chain_def result_simps)
  obtain ca cb cs' where "cs = ca # cb # cs'" "parse_cert p a = Inr ca" "parse_cert p b = Inr cb"
    using cs(1) unfolding parse_certs_Cons by blast
  then show ?thesis using cs(2) by (auto simp: result_simps)
qed

text \<open>What every identity that was loaded satisfies.\<close>

definition identity_ok :: "B58 \<Rightarrow> Pki \<Rightarrow> Identity \<Rightarrow> bool" where
  "identity_ok bc p i \<longleftrightarrow> from_certificate_der bc p (id_ca i) = Inr (id_node i) \<and> verify_chain p (cert_chain i) = Inr () \<and>
    (\<exists>sk. sk_from_pkcs8 p (key_pkcs8 i) = Some sk \<and> verifying_key_from_cert_der p (id_leaf i) = Inr (sk_verifying_key p sk))"

lemma from_certificates_and_key_ok:
  assumes "from_certificates_and_key bc p certs key = Inr i"
  shows "identity_ok bc p i" "cert_chain i = certs"
proof -
  have "2 \<le> length certs" using assms by (simp add: from_certificates_and_key_def split: if_splits)
  then obtain leaf ca parents where c: "certs = leaf # ca # parents" by (auto simp: numeral_2_eq_2 Suc_le_length_iff)
  obtain sk cl node where f: "verify_chain p certs = Inr ()" "sk_from_pkcs8 p key = Some sk" "parse_cert p leaf = Inr cl"
      "vk_from_sec1 p (subject_public_key cl) = Some (sk_verifying_key p sk)" "from_certificate_der bc p ca = Inr node"
      "i = \<lparr>id_node = node, id_leaf = leaf, id_ca = ca, id_parents = parents, key_pkcs8 = key\<rparr>"
    using assms unfolding c
    by (auto simp: from_certificates_and_key_def result_simps Let_def ok_or_def split: if_splits option.splits)
  then show "cert_chain i = certs" by (simp add: cert_chain_def c)
  then show "identity_ok bc p i" using f by (auto simp: identity_ok_def verifying_key_from_cert_der_def)
qed

lemma identity_signs:
  assumes "pki_ok p" and "identity_ok bc p i"
  shows "\<exists>sig. hash_and_sign p i dat = Inr sig \<and> hash_and_verify p (id_leaf i) dat sig = Inr ()"
  using assms(2) pki_okD(2,3)[OF assms(1)] by (auto simp: identity_ok_def hash_and_sign_def hash_and_verify_def)

lemma identity_leaf:
  assumes "pki_ok p" and "identity_ok bc p i" and "\<forall>der \<in> set (cert_chain i). \<exists>c. x509_from_der p der = Some ([], c)"
  shows "verified_leaf bc p (concat (cert_chain i)) (id_node i) = Inr (id_leaf i)"
proof -
  have "split_certs p (length (concat (cert_chain i))) (concat (cert_chain i)) = Inr (cert_chain i)"
    by (rule split_certs_of_concat[OF assms(1,3) order.refl])
  moreover obtain cl cc where "parse_cert p (id_leaf i) = Inr cl" "parse_cert p (id_ca i) = Inr cc" "verify_signed_by p cl cc = Inr ()"
    using verify_chain_first[of p "id_leaf i" "id_ca i" "id_parents i"] assms(2) by (auto simp: identity_ok_def cert_chain_def)
  moreover have "from_certificate_der bc p (id_ca i) = Inr (id_node i)" using assms(2) by (simp add: identity_ok_def)
  ultimately show ?thesis by (simp add: verified_leaf_def cert_chain_def)
qed

lemma verified_leaf_sound:
  assumes "pki_ok p" and "verified_leaf bc p chain expected = Inr leaf"
  shows "\<exists>ca rest cl cc. chain = leaf @ ca @ rest \<and> parse_cert p leaf = Inr cl \<and> parse_cert p ca = Inr cc \<and>
    verify_signed_by p cl cc = Inr () \<and> from_certificate_der bc p ca = Inr expected"
proof -
  obtain certs where s: "split_certs p (length chain) chain = Inr certs" using assms(2) by (auto simp: verified_leaf_def result_simps)
  have c: "concat certs = chain" using split_certs_concat[OF assms(1) s] by blast
  obtain ca rest cl cc where "certs = leaf # ca # rest" "parse_cert p leaf = Inr cl" "parse_cert p ca = Inr cc"
      "verify_signed_by p cl cc = Inr ()" "from_certificate_der bc p ca = Inr expected"
    using assms(2) s by (auto simp: verified_leaf_def result_simps split: list.splits if_splits)
  then show ?thesis using c by auto
qed

section \<open>Text forms\<close>

lemma node_id_round_trip:
  assumes "b58_ok bc" and "length node = NODE_ID_SIZE"
  shows "node_id_decode bc (node_id_encode bc node) = Inr node"
proof -
  have "length (id_checksum bc x) = 4" for x using assms(1) by (simp add: id_checksum_def b58_ok_def)
  then have "id_check_decode bc (id_check_encode bc pl v) = Inr (pl, v)" for pl v
    using assms(1) by (simp add: id_check_decode_def id_check_encode_def Let_def b58_ok_def)
  then show ?thesis using assms(2) by (simp add: node_id_decode_def node_id_encode_def NODE_ID_SIZE_def)
qed

text \<open>The digits of Base58 are letters and numbers.\<close>

definition b58_alphabet :: "B58 \<Rightarrow> bool" where
  "b58_alphabet bc \<longleftrightarrow> (\<forall>x. set (bs58_encode bc x) \<subseteq> of_char ` set ''123456789ABCDEFGHJKLMNPQRSTUVWXYZabcdefghijkmnopqrstuvwxyz'')"

lemma find_sub_append:
  assumes "c \<notin> set xs" and "find_sub (c # sub) ys = None"
  shows "find_sub (c # sub) (xs @ ys) = None"
  using assms
proof (induction xs)
  case (Cons x xs)
  then show ?case by (subst find_sub.simps) auto
qed simp

lemma find_sub_found: "find_sub sub (xs @ sub @ ys) \<noteq> None"
proof (induction xs)
  case Nil
  show ?case by (subst find_sub.simps) simp
next
  case (Cons x xs)
  then show ?case by (subst find_sub.simps) auto
qed

lemma storj_scheme: "ascii ''storj://'' = ascii ''storj'' @ ascii ''://''"
  and length_storj_scheme: "length (ascii ''storj://'' :: bytes) = 8"
  by simp_all

lemma split_once_append: "c \<notin> set xs \<Longrightarrow> split_once c (xs @ c # ys) = Some (xs, ys)"
  by (simp add: split_once_def takeWhile_append dropWhile_append)

lemma node_url_round_trip_aux:
  assumes "b58_ok bc" "b58_alphabet bc" "length (nu_id u) = NODE_ID_SIZE" "\<not> is_zero (nu_id u)"
    and "of_char CHR ''?'' \<notin> set (nu_address u)" and "find_sub (ascii ''://'') (nu_address u) = None"
  shows "parse_node_url_raw bc (display_node_url bc u) = Inr \<lparr>nu_id = nu_id u, nu_address = nu_address u\<rparr>"
proof -
  let ?e = "node_id_encode bc (nu_id u)" and ?s = "display_node_url bc u"
  have s: "?s = ?e @ of_char CHR ''@'' # nu_address u" using assms(4) by (simp add: display_node_url_def)
  have al: "set ?e \<subseteq> of_char ` set ''123456789ABCDEFGHJKLMNPQRSTUVWXYZabcdefghijkmnopqrstuvwxyz''"
    using assms(2) by (simp add: b58_alphabet_def node_id_encode_def id_check_encode_def Let_def)
  then have no: "(58 :: u8) \<notin> set ?e" "(64 :: u8) \<notin> set ?e" by (auto dest!: subsetD)
  have ne: "?e \<noteq> []" using assms(1) by (simp add: b58_ok_def node_id_encode_def id_check_encode_def Let_def)
  have colon: "ascii ''://'' = 58 # [47, 47 :: u8]" "of_char CHR ''@'' = (64 :: u8)" by simp_all
  have fs: "find_sub (ascii ''://'') ?s = None"
    using find_sub_append[of 58 "?e @ [64]" "[47, 47]" "nu_address u"] no assms(6) unfolding s colon by simp
  have "strip_pfx (ascii ''storj://'') ?s = None"
  proof (rule ccontr)
    assume "strip_pfx (ascii ''storj://'') ?s \<noteq> None"
    then have "?s = ascii ''storj'' @ ascii ''://'' @ drop 8 ?s"
      unfolding strip_pfx_def by (metis append_take_drop_id append.assoc storj_scheme length_storj_scheme)
    then show False using find_sub_found[of "ascii ''://''" "ascii ''storj''" "drop 8 ?s"] fs by simp
  qed
  then have "strip_scheme ?s = Inr ?s" using fs by (simp add: strip_scheme_def)
  moreover have "split_once (of_char CHR ''@'') ?s = Some (?e, nu_address u)" unfolding s colon by (rule split_once_append[OF no(2)])
  moreover have "split_once (of_char CHR ''?'') (nu_address u) = None" using assms(5) by (simp add: split_once_def)
  ultimately show ?thesis using ne s node_id_round_trip[OF assms(1,3)] by (simp add: parse_node_url_raw_def Let_def)
qed

section \<open>The properties\<close>

text \<open>An instance of the parameters: a certificate is three bytes (content, signature, key), and a key signs with itself.\<close>

definition toy_pki :: Pki where
  "toy_pki = \<lparr>x509_from_der = (\<lambda>b. case b of
       a # s # k # rest \<Rightarrow> Some (rest, \<lparr>tbs_certificate = [a], signature_value = [s], spki_raw = [k], subject_public_key = [k], x509_extensions = []\<rparr>)
     | _ \<Rightarrow> None),
     vk_from_sec1 = Some, vk_to_public_der = Some, sig_from_der = Some, sig_to_der = (\<lambda>s. s), ecdsa_verify = (\<lambda>k m s. s = k),
     ecdsa_sign = (\<lambda>k m. k), sk_from_pkcs8 = Some, sk_verifying_key = (\<lambda>k. k), sec1_key_to_pkcs8 = Some,
     pem_items = (\<lambda>b. if b = [] then [Some (CERTIFICATE, [1, 9, 5]), Some (CERTIFICATE, [2, 9, 9])] else [Some (EC_PRIVATE_KEY, [5])])\<rparr>"

lemma toy_pki_ok: "pki_ok toy_pki"
proof -
  have "\<exists>der. der \<noteq> [] \<and> b = der @ rest \<and> (\<forall>rest'. x509_from_der toy_pki (der @ rest') = Some (rest', c))"
    if c: "x509_from_der toy_pki b = Some (rest, c)" for b rest c
  proof -
    obtain x y z where "b = [x, y, z] @ rest" using c by (auto simp: toy_pki_def split: list.splits)
    then show ?thesis using c by (intro exI[of _ "[x, y, z]"]) (auto simp: toy_pki_def)
  qed
  then show ?thesis by (simp add: pki_ok_def) (simp add: toy_pki_def)
qed

text \<open>
  An identity that was loaded from PEM text has the node identifier of its CA certificate, what it signs verifies
  under its own leaf certificate, and its chain, when sent along with a piece hash, is accepted for its node and yields
  that leaf.
\<close>

theorem loaded_identity_signs:
  assumes "pki_ok p" and "from_pem bc p pem = Inr i \<or> from_pem_parts bc p chain_pem key_pem = Inr i"
  shows "from_certificate_der bc p (id_ca i) = Inr (id_node i) \<and>
    (\<forall>dat. \<exists>sig. hash_and_sign p i dat = Inr sig \<and> hash_and_verify p (id_leaf i) dat sig = Inr ()) \<and>
    ((\<forall>der \<in> set (cert_chain i). \<exists>c. x509_from_der p der = Some ([], c)) \<longrightarrow>
      verified_leaf bc p (concat (cert_chain i)) (id_node i) = Inr (id_leaf i))"
proof -
  have "\<exists>certs key. from_certificates_and_key bc p certs key = Inr i"
    using assms(2)
  proof
    assume "from_pem bc p pem = Inr i"
    then obtain certs keys where "(case keys of [] \<Rightarrow> Inl (Certificate ''identity dump missing PRIVATE KEY'')
        | key # _ \<Rightarrow> from_certificates_and_key bc p certs key) = Inr i"
      by (auto simp: from_pem_def result_simps)
    then show ?thesis by (cases keys) auto
  qed (auto simp: from_pem_parts_def result_simps)
  then have "identity_ok bc p i" using from_certificates_and_key_ok by blast
  then show ?thesis using identity_signs[OF assms(1)] identity_leaf[OF assms(1)] by (auto simp: identity_ok_def)
qed

theorem loaded_identity_signs_witness:
  "\<exists>i. from_pem_parts toy_b58 toy_pki [] [0] = Inr i \<and> id_leaf i = [1, 9, 5] \<and>
     verified_leaf toy_b58 toy_pki (concat (cert_chain i)) (id_node i) = Inr [1, 9, 5]"
proof -
  have "case from_pem_parts toy_b58 toy_pki [] [0] of Inl _ \<Rightarrow> False | Inr i \<Rightarrow> id_leaf i = [1, 9, 5] \<and> cert_chain i = [[1, 9, 5], [2, 9, 9]]"
    by code_simp
  then obtain i where i: "from_pem_parts toy_b58 toy_pki [] [0] = Inr i" "id_leaf i = [1, 9, 5]" "cert_chain i = [[1, 9, 5], [2, 9, 9]]"
    by (auto split: sum.splits)
  have "\<forall>der \<in> set (cert_chain i). \<exists>c. x509_from_der toy_pki der = Some ([], c)" unfolding i(3) by (simp add: toy_pki_def)
  then show ?thesis using loaded_identity_signs[OF toy_pki_ok, of toy_b58 "[]" i "[]" "[0]"] i by auto
qed

text \<open>
  C27: a leaf certificate that \<open>verified_leaf\<close> takes from the chain of a piece response is the first of the chain, it is signed
  with the key of the second, and that second certificate hashes to the node identifier of the order limit.
\<close>

theorem verified_leaf_pins_node:
  assumes "pki_ok p" and "verified_leaf bc p chain expected = Inr leaf"
  shows "\<exists>ca rest cl cc vk sig. chain = leaf @ ca @ rest \<and> parse_cert p leaf = Inr cl \<and> parse_cert p ca = Inr cc \<and>
    vk_from_sec1 p (subject_public_key cc) = Some vk \<and> sig_from_der p (signature_value cl) = Some sig \<and>
    ecdsa_verify p vk (tbs_certificate cl) sig \<and> from_certificate_der bc p ca = Inr expected"
  using verified_leaf_sound[OF assms]
  by (fastforce simp: verify_signed_by_def result_simps ok_or_def split: option.splits if_splits)

theorem verified_leaf_pins_node_witness:
  "verified_leaf toy_b58 toy_pki [1, 9, 5, 2, 9, 9] ([9] @ replicate 31 0) = Inr [1, 9, 5] \<and>
   from_certificate_der toy_b58 toy_pki [2, 9, 9] = Inr ([9] @ replicate 31 0)"
proof -
  have v: "verified_leaf toy_b58 toy_pki [1, 9, 5, 2, 9, 9] ([9] @ replicate 31 0) = Inr [1, 9, 5]"
    and n: "from_certificate_der toy_b58 toy_pki [2, 9, 9] = Inr ([9] @ replicate 31 0)" by code_simp+
  show ?thesis using verified_leaf_pins_node[OF toy_pki_ok v] v n by blast
qed

text \<open>
  A node address with its identifier is read back from its text form, \<open>id@host:port\<close>, when the host part has no query
  and no scheme separator.
\<close>

theorem node_url_round_trip:
  assumes "b58_ok bc" and "b58_alphabet bc" and "length (nu_id u) = NODE_ID_SIZE" and "\<not> is_zero (nu_id u)"
    and "of_char CHR ''?'' \<notin> set (nu_address u)" and "find_sub (ascii ''://'') (nu_address u) = None"
  shows "parse_node_url bc (display_node_url bc u) = Inr u"
  using node_url_round_trip_aux[OF assms] assms(4) by (simp add: parse_node_url_def)

text \<open>An instance within the real alphabet: a byte is written as three octal digits, the letters \<open>A\<close> to \<open>H\<close>.\<close>

definition octal :: "u8 \<Rightarrow> bytes" where
  "octal b = [of_nat (65 + unat b div 64), of_nat (65 + unat b div 8 mod 8), of_nat (65 + unat b mod 8)]"

fun unoctal :: "bytes \<Rightarrow> bytes" where
  "unoctal (x # y # z # s) = of_nat ((unat x - 65) * 64 + (unat y - 65) * 8 + (unat z - 65)) # unoctal s"
| "unoctal _ = []"

definition octal_b58 :: B58 where
  "octal_b58 = \<lparr>sha256 = (\<lambda>x. replicate 32 0), bs58_encode = (\<lambda>x. concat (map octal x)), bs58_decode = (\<lambda>s. Some (unoctal s))\<rparr>"

lemma octal_digits:
  assumes "b < (256 :: nat)" shows "b div 64 < 8" "b div 8 mod 8 < 8" "b mod 8 < 8" "b div 64 * 64 + b div 8 mod 8 * 8 + b mod 8 = b"
proof -
  have "b div 64 = b div 8 div 8" using div_mult2_eq[of b 8 8] by simp
  then show "b div 64 * 64 + b div 8 mod 8 * 8 + b mod 8 = b"
    using div_mult_mod_eq[of b 8] div_mult_mod_eq[of "b div 8" 8] by linarith
qed (use assms in auto)

lemma octal_b58_ok: "b58_ok octal_b58" "b58_alphabet octal_b58"
proof -
  have small: "unat b < 256" for b :: u8 using unsigned_less[of b] by simp
  have dig: "unat (of_nat (65 + n) :: u8) = 65 + n" if "n < 8" for n
    using that by (simp only: unat_of_nat) simp
  have u: "unoctal (octal b @ s) = b # unoctal s" for b s
    using octal_digits[OF small[of b]] by (simp only: octal_def append.simps unoctal.simps dig diff_add_inverse of_nat_unat ucast_id)
  have "unoctal (concat (map octal x)) = x" for x
    by (induction x) (simp_all add: u)
  moreover have "concat (map octal x) \<noteq> []" if "x \<noteq> []" for x using that by (cases x) (simp_all add: octal_def)
  ultimately show "b58_ok octal_b58" by (simp add: b58_ok_def octal_b58_def)
  have d: "of_nat (65 + n) \<in> (of_char ` set ''123456789ABCDEFGHJKLMNPQRSTUVWXYZabcdefghijkmnopqrstuvwxyz'' :: u8 set)" if "n < 8" for n
  proof -
    have "n \<in> {0, 1, 2, 3, 4, 5, 6, 7}" using that by auto
    then show ?thesis by auto
  qed
  then have "set (octal b) \<subseteq> of_char ` set ''123456789ABCDEFGHJKLMNPQRSTUVWXYZabcdefghijkmnopqrstuvwxyz''" for b
    using octal_digits[OF small[of b]] unfolding octal_def by (simp del: of_nat_add)
  then show "b58_alphabet octal_b58" by (auto simp: b58_alphabet_def octal_b58_def)
qed

theorem node_url_round_trip_witness:
  "parse_node_url octal_b58 (display_node_url octal_b58 \<lparr>nu_id = replicate 32 7, nu_address = ascii ''sat:7777''\<rparr>) =
    Inr \<lparr>nu_id = replicate 32 7, nu_address = ascii ''sat:7777''\<rparr>"
proof -
  have "find_sub (ascii ''://'') (ascii ''sat:7777'' :: bytes) = None" by code_simp
  moreover have "\<not> is_zero (replicate 32 7)" "of_char CHR ''?'' \<notin> set (ascii ''sat:7777'' :: bytes)" by code_simp+
  ultimately show ?thesis
    by (intro node_url_round_trip[OF octal_b58_ok]) (simp_all only: NodeUrl.simps length_replicate NODE_ID_SIZE_def not_False_eq_True)
qed

end
