(* ===== verification/Uplink_Error.thy ===== *)
theory Uplink_Error
  imports Reed_Solomon Padding Drpc_Conn Node_Identity
begin

text \<open>
  The error type of \<open>crates/storj-uplink/src/lib.rs\<close> with the failures of a piece download from \<open>download.rs\<close>,
  and which of them are worth a retry.
  Shown: what decides a retry of a whole download.
\<close>

section \<open>The code\<close>

datatype DownloadStage = Connection | Validation | Transfer

datatype UplinkError =
    Rpc Drpc_Conn.Error
  | IdentityErr IdentityError
  | OrderLimitSignature
  | OrderSignature
  | PieceHashSignature
  | PieceHashMismatch
  | HashAlgoMismatch
  | PieceIdMismatch
  | PieceKey
  | PieceHashExpired
  | UpProtocol string
  | InvalidDownloadRange int int string    \<comment> \<open>offset, size, reason\<close>
  | DownloadLimit int int int              \<comment> \<open>offset, size, limit\<close>
  | DialTimeout
  | PieceDownload PieceDownloadError
  | UpIo io_error
  | Ec Reed_Solomon.Error
  | Encryption ErrorKind
and PieceDownloadError = PieceDownloadError
    (pde_required: nat) (pde_obtained: nat) (pde_attempted: nat) (pde_offset: int) (pde_size: int)
    (pde_failures: "PieceDownloadFailure list")
and PieceDownloadFailure = PieceDownloadFailure
    (pdf_piece_num: int) (pdf_node_id: string) (pdf_stage: DownloadStage) (pdf_error: UplinkError)

definition RPC_UNKNOWN :: u64 where "RPC_UNKNOWN = 2"
definition RPC_DEADLINE_EXCEEDED :: u64 where "RPC_DEADLINE_EXCEEDED = 4"
definition RPC_RESOURCE_EXHAUSTED :: u64 where "RPC_RESOURCE_EXHAUSTED = 8"
definition RPC_INTERNAL :: u64 where "RPC_INTERNAL = 13"
definition RPC_UNAVAILABLE :: u64 where "RPC_UNAVAILABLE = 14"

text \<open>\<open>str::contains\<close> on the bytes of two strings.\<close>

definition contains :: "bytes \<Rightarrow> bytes \<Rightarrow> bool" where
  "contains hay needle \<longleftrightarrow> list_ex (\<lambda>i. take (length needle) (drop i hay) = needle) [0..<length hay + 1]"

definition too_many_requests :: bytes where
  "too_many_requests = map of_char ''Too Many Requests''"

fun is_retryable :: "UplinkError \<Rightarrow> bool" and pde_retryable :: "PieceDownloadError \<Rightarrow> bool"
  and pdf_retryable :: "PieceDownloadFailure \<Rightarrow> bool" where
  "is_retryable DialTimeout = True"
| "is_retryable (UpIo _) = True"
| "is_retryable (Rpc (Io _)) = True"
| "is_retryable (Rpc Closed) = True"
| "is_retryable (Rpc Truncated) = True"
| "is_retryable (Rpc (Remote code message)) =
    (code \<in> {RPC_UNKNOWN, RPC_DEADLINE_EXCEEDED, RPC_INTERNAL, RPC_UNAVAILABLE} \<or>
     code = RPC_RESOURCE_EXHAUSTED \<and> contains message too_many_requests)"
| "is_retryable (PieceDownload e) = pde_retryable e"
| "is_retryable _ = False"
| "pde_retryable (PieceDownloadError required obtained _ _ _ failures) =
    (obtained + length (filter pdf_retryable failures) \<ge> required)"
| "pdf_retryable (PieceDownloadFailure _ _ _ err) = is_retryable err"

end
