(* ===== verification/Orders.thy ===== *)
theory Orders
  imports Uplink_Error "HOL-Library.Countable"
begin

text \<open>
  Orders and their signatures, \<open>crates/storj-uplink/src/orders.rs\<close>.  Ed25519, the hash functions and the protobuf encoding of
  the signing messages are other crates: the record \<open>OrderCrypto\<close> holds them together with \<open>Pki\<close>, and \<open>order_crypto_ok\<close>
  states what the code relies on.  A signing message has the fields of the message it signs, so it is a value of the
  same record.  The state of an incremental hash is what it has absorbed.

  Shown: what is signed verifies; two order limits have the same signed bytes exactly if they agree in everything but
  the signature and the unset values that the encoding leaves out; piece keys survive their text form.
\<close>

section \<open>The code\<close>

subsection \<open>Messages\<close>

record NodeAddress =
  na_address :: bytes
  na_noise_info :: "(int \<times> bytes) option"
  na_debounce_limit :: int
  na_features :: u64

record OrderLimit =
  ol_serial_number :: bytes
  ol_satellite_id :: bytes
  ol_deprecated_uplink_id :: bytes
  ol_uplink_public_key :: bytes
  ol_storage_node_id :: bytes
  ol_piece_id :: bytes
  ol_limit :: int
  ol_action :: int
  ol_piece_expiration :: "PbTimestamp option"
  ol_order_expiration :: "PbTimestamp option"
  ol_order_creation :: "PbTimestamp option"
  ol_encrypted_metadata_key_id :: bytes
  ol_encrypted_metadata :: bytes
  ol_satellite_signature :: bytes
  ol_deprecated_satellite_address :: "NodeAddress option"

record Order =
  o_serial_number :: bytes
  o_amount :: int
  o_uplink_signature :: bytes

record PieceHash =
  ph_piece_id :: bytes
  ph_hash :: bytes
  ph_piece_size :: int
  ph_timestamp :: "PbTimestamp option"
  ph_signature :: bytes
  ph_hash_algorithm :: int

text \<open>The values of \<open>PieceAction\<close>.\<close>

definition Put :: int where "Put = 1"
definition Get :: int where "Get = 2"
definition GetAudit :: int where "GetAudit = 3"
definition GetRepair :: int where "GetRepair = 4"
definition PutRepair :: int where "PutRepair = 5"

record OrderCrypto =
  oc_pki :: Pki
  oc_b58 :: B58
  ed_verifying_key :: "bytes \<Rightarrow> bytes"
  ed_is_key :: "bytes \<Rightarrow> bool"
  ed_sign :: "bytes \<Rightarrow> bytes \<Rightarrow> bytes"
  ed_verify :: "bytes \<Rightarrow> bytes \<Rightarrow> bytes \<Rightarrow> bool"       \<comment> \<open>key, message, signature\<close>
  blake3 :: "bytes \<Rightarrow> bytes"
  limit_signing_encode :: "OrderLimit \<Rightarrow> bytes"
  order_signing_encode :: "Order \<Rightarrow> bytes"
  hash_signing_encode :: "PieceHash \<Rightarrow> bytes"

definition order_crypto_ok :: "OrderCrypto \<Rightarrow> bool" where
  "order_crypto_ok oc \<longleftrightarrow> pki_ok (oc_pki oc) \<and>
    (\<forall>seed. length (ed_verifying_key oc seed) = 32 \<and> ed_is_key oc (ed_verifying_key oc seed)) \<and>
    (\<forall>seed m. length (ed_sign oc seed m) = 64 \<and> ed_verify oc (ed_verifying_key oc seed) m (ed_sign oc seed m)) \<and>
    inj (limit_signing_encode oc) \<and> inj (order_signing_encode oc) \<and> inj (hash_signing_encode oc)"

subsection \<open>Hash algorithms\<close>

datatype PieceHashAlgo = Sha256 | Blake3

definition algo_from_i32 :: "int \<Rightarrow> PieceHashAlgo" where
  "algo_from_i32 v = (if v = 1 then Blake3 else Sha256)"

definition algo_to_i32 :: "PieceHashAlgo \<Rightarrow> int" where
  "algo_to_i32 a = (case a of Sha256 \<Rightarrow> 0 | Blake3 \<Rightarrow> 1)"

datatype PieceHasher = Sha256Hasher bytes | Blake3Hasher bytes

definition hasher_new :: "PieceHashAlgo \<Rightarrow> PieceHasher" where
  "hasher_new a = (case a of Sha256 \<Rightarrow> Sha256Hasher [] | Blake3 \<Rightarrow> Blake3Hasher [])"

definition hasher_update :: "PieceHasher \<Rightarrow> bytes \<Rightarrow> PieceHasher" where
  "hasher_update h dat = (case h of Sha256Hasher x \<Rightarrow> Sha256Hasher (x @ dat) | Blake3Hasher x \<Rightarrow> Blake3Hasher (x @ dat))"

definition hasher_finalize :: "OrderCrypto \<Rightarrow> PieceHasher \<Rightarrow> bytes" where
  "hasher_finalize oc h = (case h of Sha256Hasher x \<Rightarrow> sha256 (oc_b58 oc) x | Blake3Hasher x \<Rightarrow> blake3 oc x)"

subsection \<open>Piece keys\<close>

text \<open>A private key is its seed of 32 bytes, a public key its 32 bytes.\<close>

definition private_from_bytes :: "OrderCrypto \<Rightarrow> bytes \<Rightarrow> UplinkError + bytes" where
  "private_from_bytes oc b =
    (if length b = 32 then Inr b
     else if length b = 64 then
       (let seed = take 32 b in if drop 32 b = ed_verifying_key oc seed then Inr seed else Inl PieceKey)
     else Inl PieceKey)"

definition private_public :: "OrderCrypto \<Rightarrow> bytes \<Rightarrow> bytes" where
  "private_public oc seed = ed_verifying_key oc seed"

definition private_to_bytes :: "OrderCrypto \<Rightarrow> bytes \<Rightarrow> bytes" where
  "private_to_bytes oc seed = seed @ ed_verifying_key oc seed"

definition private_sign :: "OrderCrypto \<Rightarrow> bytes \<Rightarrow> bytes \<Rightarrow> bytes" where
  "private_sign oc seed dat = ed_sign oc seed dat"

definition public_from_bytes :: "OrderCrypto \<Rightarrow> bytes \<Rightarrow> UplinkError + bytes" where
  "public_from_bytes oc b = (if length b = 32 \<and> ed_is_key oc b then Inr b else Inl PieceKey)"

definition public_verify :: "OrderCrypto \<Rightarrow> bytes \<Rightarrow> bytes \<Rightarrow> bytes \<Rightarrow> UplinkError + unit" where
  "public_verify oc key dat sig =
    (if length sig \<noteq> 64 then Inl PieceKey else if ed_verify oc key dat sig then Inr () else Inl OrderSignature)"

subsection \<open>What is signed\<close>

definition GO_ZERO_TIME_UNIX :: int where "GO_ZERO_TIME_UNIX = - 62135596800"

definition nonzero_time :: "PbTimestamp option \<Rightarrow> PbTimestamp option" where
  "nonzero_time t =
    (case t of Some ts \<Rightarrow> (if ts_seconds ts = GO_ZERO_TIME_UNIX \<and> ts_nanos ts = 0 then None else t) | None \<Rightarrow> None)"

definition nonzero_bytes :: "bytes \<Rightarrow> bytes" where
  "nonzero_bytes b = (if list_all (\<lambda>x. x = 0) b then [] else b)"

definition limit_signing :: "OrderLimit \<Rightarrow> OrderLimit" where
  "limit_signing l =
    \<lparr>ol_serial_number = ol_serial_number l, ol_satellite_id = ol_satellite_id l,
     ol_deprecated_uplink_id = nonzero_bytes (ol_deprecated_uplink_id l), ol_uplink_public_key = nonzero_bytes (ol_uplink_public_key l),
     ol_storage_node_id = ol_storage_node_id l, ol_piece_id = ol_piece_id l, ol_limit = ol_limit l, ol_action = ol_action l,
     ol_piece_expiration = nonzero_time (ol_piece_expiration l), ol_order_expiration = nonzero_time (ol_order_expiration l),
     ol_order_creation = nonzero_time (ol_order_creation l), ol_encrypted_metadata_key_id = ol_encrypted_metadata_key_id l,
     ol_encrypted_metadata = ol_encrypted_metadata l, ol_satellite_signature = [],
     ol_deprecated_satellite_address = ol_deprecated_satellite_address l\<rparr>"

definition encode_order_limit :: "OrderCrypto \<Rightarrow> OrderLimit \<Rightarrow> bytes" where
  "encode_order_limit oc l = limit_signing_encode oc (limit_signing l)"

definition encode_order :: "OrderCrypto \<Rightarrow> Order \<Rightarrow> bytes" where
  "encode_order oc ord =
    order_signing_encode oc \<lparr>o_serial_number = o_serial_number ord, o_amount = o_amount ord, o_uplink_signature = []\<rparr>"

definition hash_signing :: "PieceHash \<Rightarrow> PieceHash" where
  "hash_signing h =
    \<lparr>ph_piece_id = ph_piece_id h, ph_hash = ph_hash h, ph_piece_size = ph_piece_size h, ph_timestamp = nonzero_time (ph_timestamp h),
     ph_signature = [], ph_hash_algorithm = ph_hash_algorithm h\<rparr>"

definition encode_piece_hash :: "OrderCrypto \<Rightarrow> PieceHash \<Rightarrow> bytes" where
  "encode_piece_hash oc h = hash_signing_encode oc (hash_signing h)"

subsection \<open>Signing and verifying\<close>

definition sign_order_limit :: "OrderCrypto \<Rightarrow> OrderLimit \<Rightarrow> Identity \<Rightarrow> UplinkError + OrderLimit" where
  "sign_order_limit oc l satellite =
    try_bind (map_err IdentityErr (hash_and_sign (oc_pki oc) satellite (encode_order_limit oc l))) (\<lambda>sig.
      Inr (l\<lparr>ol_satellite_signature := sig\<rparr>))"

definition verify_order_limit :: "OrderCrypto \<Rightarrow> OrderLimit \<Rightarrow> bytes \<Rightarrow> UplinkError + unit" where
  "verify_order_limit oc l satellite_cert_der =
    map_err (\<lambda>_. OrderLimitSignature) (hash_and_verify (oc_pki oc) satellite_cert_der (encode_order_limit oc l) (ol_satellite_signature l))"

definition sign_order :: "OrderCrypto \<Rightarrow> Order \<Rightarrow> bytes \<Rightarrow> UplinkError + Order" where
  "sign_order oc ord key = Inr (ord\<lparr>o_uplink_signature := private_sign oc key (encode_order oc ord)\<rparr>)"

definition verify_order :: "OrderCrypto \<Rightarrow> Order \<Rightarrow> bytes \<Rightarrow> UplinkError + unit" where
  "verify_order oc ord key = map_err (\<lambda>_. OrderSignature) (public_verify oc key (encode_order oc ord) (o_uplink_signature ord))"

definition sign_piece_hash_uplink :: "OrderCrypto \<Rightarrow> PieceHash \<Rightarrow> bytes \<Rightarrow> UplinkError + PieceHash" where
  "sign_piece_hash_uplink oc h key = Inr (h\<lparr>ph_signature := private_sign oc key (encode_piece_hash oc h)\<rparr>)"

definition verify_piece_hash_uplink :: "OrderCrypto \<Rightarrow> PieceHash \<Rightarrow> bytes \<Rightarrow> UplinkError + unit" where
  "verify_piece_hash_uplink oc h key = map_err (\<lambda>_. PieceHashSignature) (public_verify oc key (encode_piece_hash oc h) (ph_signature h))"

definition sign_piece_hash_node :: "OrderCrypto \<Rightarrow> PieceHash \<Rightarrow> Identity \<Rightarrow> UplinkError + PieceHash" where
  "sign_piece_hash_node oc h node =
    try_bind (map_err IdentityErr (hash_and_sign (oc_pki oc) node (encode_piece_hash oc h))) (\<lambda>sig. Inr (h\<lparr>ph_signature := sig\<rparr>))"

definition verify_piece_hash_node :: "OrderCrypto \<Rightarrow> PieceHash \<Rightarrow> bytes \<Rightarrow> UplinkError + unit" where
  "verify_piece_hash_node oc h node_cert_der =
    map_err (\<lambda>_. PieceHashSignature) (hash_and_verify (oc_pki oc) node_cert_der (encode_piece_hash oc h) (ph_signature h))"

section \<open>Signatures\<close>

lemma signing_ignores_signature [simp]:
  "limit_signing (l\<lparr>ol_satellite_signature := s\<rparr>) = limit_signing l" "hash_signing (h\<lparr>ph_signature := s\<rparr>) = hash_signing h"
  "encode_order_limit oc (l\<lparr>ol_satellite_signature := s\<rparr>) = encode_order_limit oc l"
  "encode_piece_hash oc (h\<lparr>ph_signature := s\<rparr>) = encode_piece_hash oc h"
  "encode_order oc (ord\<lparr>o_uplink_signature := s\<rparr>) = encode_order oc ord"
  by (simp_all add: limit_signing_def hash_signing_def encode_order_limit_def encode_piece_hash_def encode_order_def)

lemma order_crypto_okD:
  assumes "order_crypto_ok oc"
  shows "pki_ok (oc_pki oc)" "length (ed_verifying_key oc seed) = 32" "ed_is_key oc (ed_verifying_key oc seed)"
    "length (ed_sign oc seed m) = 64" "ed_verify oc (ed_verifying_key oc seed) m (ed_sign oc seed m)"
  using assms by (auto simp: order_crypto_ok_def)

lemma public_verify_sign:
  assumes "order_crypto_ok oc" shows "public_verify oc (private_public oc seed) m (private_sign oc seed m) = Inr ()"
  using order_crypto_okD[OF assms] by (simp add: public_verify_def private_public_def private_sign_def)

lemma private_key_round_trip:
  assumes "order_crypto_ok oc" and "length seed = 32"
  shows "private_from_bytes oc (private_to_bytes oc seed) = Inr seed" "public_from_bytes oc (private_public oc seed) = Inr (private_public oc seed)"
  using order_crypto_okD[OF assms(1)] assms(2) by (simp_all add: private_from_bytes_def private_to_bytes_def public_from_bytes_def private_public_def)

lemma identity_signs_hash:
  assumes "pki_ok p" and "identity_ok bc p i"
  obtains sig where "hash_and_sign p i dat = Inr sig" "hash_and_verify p (id_leaf i) dat sig = Inr ()"
  using identity_signs[OF assms, of dat] by blast

lemma nonzero_bytes_eq: "nonzero_bytes a = nonzero_bytes b \<longleftrightarrow> a = b \<or> list_all (\<lambda>x. x = 0) a \<and> list_all (\<lambda>x. x = 0) b"
  by (auto simp: nonzero_bytes_def)

text \<open>No time, or Go's zero time.\<close>

definition unset_time :: "PbTimestamp option \<Rightarrow> bool" where
  "unset_time t \<longleftrightarrow> (case t of None \<Rightarrow> True | Some ts \<Rightarrow> ts_seconds ts = GO_ZERO_TIME_UNIX \<and> ts_nanos ts = 0)"

lemma nonzero_time_eq: "nonzero_time a = nonzero_time b \<longleftrightarrow> a = b \<or> unset_time a \<and> unset_time b"
  by (auto simp: nonzero_time_def unset_time_def split: option.splits)

section \<open>The properties\<close>

text \<open>Messages as numbers of zero bytes, with the signatures of \<open>toy_pki\<close>.\<close>

definition time_tuple :: "PbTimestamp \<Rightarrow> int \<times> int" where "time_tuple t = (ts_seconds t, ts_nanos t)"

definition address_tuple :: "NodeAddress \<Rightarrow> bytes \<times> (int \<times> bytes) option \<times> int \<times> u64" where
  "address_tuple a = (na_address a, na_noise_info a, na_debounce_limit a, na_features a)"

definition toy_order_crypto :: OrderCrypto where
  "toy_order_crypto = \<lparr>oc_pki = toy_pki, oc_b58 = toy_b58, ed_verifying_key = (\<lambda>k. take 32 (k @ replicate 32 0)), ed_is_key = (\<lambda>k. True),
     ed_sign = (\<lambda>k m. take 64 (k @ replicate 64 0)), ed_verify = (\<lambda>k m s. k = take 32 s), blake3 = (\<lambda>x. take 32 (x @ replicate 32 1)),
     limit_signing_encode = (\<lambda>l. replicate (to_nat (ol_serial_number l, ol_satellite_id l, ol_deprecated_uplink_id l, ol_uplink_public_key l,
        ol_storage_node_id l, ol_piece_id l, ol_limit l, ol_action l, map_option time_tuple (ol_piece_expiration l),
        map_option time_tuple (ol_order_expiration l), map_option time_tuple (ol_order_creation l), ol_encrypted_metadata_key_id l,
        ol_encrypted_metadata l, ol_satellite_signature l, map_option address_tuple (ol_deprecated_satellite_address l))) 0),
     order_signing_encode = (\<lambda>ord. replicate (to_nat (o_serial_number ord, o_amount ord, o_uplink_signature ord)) 0),
     hash_signing_encode = (\<lambda>h. replicate (to_nat (ph_piece_id h, ph_hash h, ph_piece_size h, map_option time_tuple (ph_timestamp h),
        ph_signature h, ph_hash_algorithm h)) 0)\<rparr>"

lemma toy_order_crypto_ok: "order_crypto_ok toy_order_crypto"
proof -
  have t: "time_tuple a = time_tuple b \<longleftrightarrow> a = b" "address_tuple c = address_tuple d \<longleftrightarrow> c = d" for a b c d
    by (auto simp: time_tuple_def address_tuple_def)
  have o: "map_option time_tuple x = map_option time_tuple y \<longleftrightarrow> x = y" "map_option address_tuple x' = map_option address_tuple y' \<longleftrightarrow> x' = y'" for x y x' y'
    by (cases x; cases y; simp add: t) (cases x'; cases y'; simp add: t)
  have r: "replicate n (0 :: u8) = replicate m 0 \<longleftrightarrow> n = m" for n m by (metis length_replicate)
  have "inj (limit_signing_encode toy_order_crypto)" "inj (order_signing_encode toy_order_crypto)" "inj (hash_signing_encode toy_order_crypto)"
    unfolding inj_def by (auto simp: toy_order_crypto_def r o)
  moreover have "take 32 (take 64 (k @ replicate 64 0)) = take 32 (k @ replicate 32 (0 :: u8))" for k
    by (simp add: min_def take_replicate) linarith
  ultimately show ?thesis using toy_pki_ok by (simp add: order_crypto_ok_def) (auto simp: toy_order_crypto_def min_def)
qed

text \<open>
  What is signed verifies: an order limit or a piece hash under the leaf certificate of the identity that signed it, an
  order or a piece hash of the uplink under the public piece key; signing changes nothing but the signature.
\<close>

theorem signed_messages_verify:
  assumes "order_crypto_ok oc" and "identity_ok bc (oc_pki oc) i"
  shows "(\<exists>s. sign_order_limit oc l i = Inr (l\<lparr>ol_satellite_signature := s\<rparr>) \<and>
      verify_order_limit oc (l\<lparr>ol_satellite_signature := s\<rparr>) (id_leaf i) = Inr ()) \<and>
    (\<exists>s. sign_piece_hash_node oc h i = Inr (h\<lparr>ph_signature := s\<rparr>) \<and>
      verify_piece_hash_node oc (h\<lparr>ph_signature := s\<rparr>) (id_leaf i) = Inr ()) \<and>
    (\<exists>s. sign_order oc ord key = Inr (ord\<lparr>o_uplink_signature := s\<rparr>) \<and>
      verify_order oc (ord\<lparr>o_uplink_signature := s\<rparr>) (private_public oc key) = Inr ()) \<and>
    (\<exists>s. sign_piece_hash_uplink oc h key = Inr (h\<lparr>ph_signature := s\<rparr>) \<and>
      verify_piece_hash_uplink oc (h\<lparr>ph_signature := s\<rparr>) (private_public oc key) = Inr ())"
proof (intro conjI)
  note p = order_crypto_okD(1)[OF assms(1)]
  show "\<exists>s. sign_order_limit oc l i = Inr (l\<lparr>ol_satellite_signature := s\<rparr>) \<and>
      verify_order_limit oc (l\<lparr>ol_satellite_signature := s\<rparr>) (id_leaf i) = Inr ()"
    using identity_signs[OF p assms(2), of "encode_order_limit oc l"] by (auto simp: sign_order_limit_def verify_order_limit_def)
  show "\<exists>s. sign_piece_hash_node oc h i = Inr (h\<lparr>ph_signature := s\<rparr>) \<and>
      verify_piece_hash_node oc (h\<lparr>ph_signature := s\<rparr>) (id_leaf i) = Inr ()"
    using identity_signs[OF p assms(2), of "encode_piece_hash oc h"] by (auto simp: sign_piece_hash_node_def verify_piece_hash_node_def)
qed (use public_verify_sign[OF assms(1)] in
  \<open>auto simp: sign_order_def verify_order_def sign_piece_hash_uplink_def verify_piece_hash_uplink_def\<close>)

definition sample_identity :: Identity where
  "sample_identity = \<lparr>id_node = [9] @ replicate 31 0, id_leaf = [1, 9, 5], id_ca = [2, 9, 9], id_parents = [], key_pkcs8 = [5]\<rparr>"

lemma sample_identity_ok: "identity_ok toy_b58 toy_pki sample_identity"
proof -
  have "from_certificate_der toy_b58 toy_pki [2, 9, 9] = Inr ([9] @ replicate 31 0)" "verify_chain toy_pki [[1, 9, 5], [2, 9, 9]] = Inr ()"
    "verifying_key_from_cert_der toy_pki [1, 9, 5] = Inr [5]" by code_simp+
  then show ?thesis by (simp add: identity_ok_def sample_identity_def cert_chain_def) (simp add: toy_pki_def)
qed

definition sample_limit :: OrderLimit where
  "sample_limit = \<lparr>ol_serial_number = [1], ol_satellite_id = [2], ol_deprecated_uplink_id = [0, 0], ol_uplink_public_key = [3], ol_storage_node_id = [9] @ replicate 31 0,
     ol_piece_id = [4], ol_limit = 100, ol_action = 1, ol_piece_expiration = Some \<lparr>ts_seconds = - 62135596800, ts_nanos = 0\<rparr>, ol_order_expiration = None,
     ol_order_creation = Some \<lparr>ts_seconds = 1000, ts_nanos = 0\<rparr>, ol_encrypted_metadata_key_id = [], ol_encrypted_metadata = [],
     ol_satellite_signature = [], ol_deprecated_satellite_address = None\<rparr>"

theorem signed_messages_verify_witness:
  "\<exists>s. sign_order_limit toy_order_crypto sample_limit sample_identity = Inr (sample_limit\<lparr>ol_satellite_signature := s\<rparr>) \<and>
    verify_order_limit toy_order_crypto (sample_limit\<lparr>ol_satellite_signature := s\<rparr>) (id_leaf sample_identity) = Inr ()"
  using signed_messages_verify[OF toy_order_crypto_ok, of toy_b58 sample_identity sample_limit] sample_identity_ok
  by (simp add: toy_order_crypto_def)

text \<open>
  The bytes that a satellite signs determine the order limit: two limits have the same signed bytes exactly if they agree on
  every field, where all-zero identifiers and keys count as absent, Go's zero time counts as no time, and the signature
  does not count.
\<close>

theorem order_limit_bytes_bind:
  assumes "order_crypto_ok oc"
  shows "encode_order_limit oc a = encode_order_limit oc b \<longleftrightarrow>
    ol_serial_number a = ol_serial_number b \<and> ol_satellite_id a = ol_satellite_id b \<and> ol_storage_node_id a = ol_storage_node_id b \<and>
    ol_piece_id a = ol_piece_id b \<and> ol_limit a = ol_limit b \<and> ol_action a = ol_action b \<and>
    ol_encrypted_metadata_key_id a = ol_encrypted_metadata_key_id b \<and> ol_encrypted_metadata a = ol_encrypted_metadata b \<and>
    ol_deprecated_satellite_address a = ol_deprecated_satellite_address b \<and>
    (\<forall>(x, y) \<in> {(ol_deprecated_uplink_id a, ol_deprecated_uplink_id b), (ol_uplink_public_key a, ol_uplink_public_key b)}.
       x = y \<or> list_all (\<lambda>c. c = 0) x \<and> list_all (\<lambda>c. c = 0) y) \<and>
    (\<forall>(s, t) \<in> {(ol_piece_expiration a, ol_piece_expiration b), (ol_order_expiration a, ol_order_expiration b),
        (ol_order_creation a, ol_order_creation b)}. s = t \<or> unset_time s \<and> unset_time t)"
proof -
  have "encode_order_limit oc a = encode_order_limit oc b \<longleftrightarrow> limit_signing a = limit_signing b"
    unfolding encode_order_limit_def using assms by (auto simp: order_crypto_ok_def dest: injD)
  then show ?thesis by (auto simp: limit_signing_def nonzero_bytes_eq nonzero_time_eq)
qed

theorem order_limit_bytes_bind_witness:
  "encode_order_limit toy_order_crypto sample_limit =
     encode_order_limit toy_order_crypto (sample_limit\<lparr>ol_deprecated_uplink_id := [], ol_piece_expiration := None, ol_satellite_signature := [8]\<rparr>) \<and>
   encode_order_limit toy_order_crypto sample_limit \<noteq> encode_order_limit toy_order_crypto (sample_limit\<lparr>ol_limit := 101\<rparr>)"
  using order_limit_bytes_bind[OF toy_order_crypto_ok, of sample_limit] by (simp add: sample_limit_def unset_time_def GO_ZERO_TIME_UNIX_def)

end
