(* ===== verification/Conn_Pool.thy ===== *)
theory Conn_Pool
  imports Uplink_Prelude "HOL-Library.AList"
begin

text \<open>
  The storage-node connection pool, \<open>crates/storj-uplink/src/pool.rs\<close>.  The data behind the mutex is a
  record with the operations the code performs on it under the lock; the tasks that check connections out
  are the states of a step relation, in which every critical section, every wait and every drop of a guard
  is one step, in any order.  \<open>tokio::sync::Notify\<close> is a parameter with its documented laws.

  Shown: a pool never holds more connections than its limit, counting idle ones, and its two counters are
  exact; a waiting task always has another one that will wake it; and a wake-up can get lost,
  so that a task keeps waiting for another one although a slot is free and nobody is on the way to it.
\<close>

section \<open>The code\<close>

definition DEFAULT_SCHEME_N :: nat where "DEFAULT_SCHEME_N = 110"
definition DEFAULT_CONCURRENT_SEGMENTS :: nat where "DEFAULT_CONCURRENT_SEGMENTS = 10"

text \<open>Durations in seconds; \<open>saturating_mul\<close> on a 64-bit \<open>usize\<close>.\<close>

record PoolConfig =
  max_connections :: nat
  config_idle_timeout :: nat

definition for_redundancy_n_and_concurrency :: "nat \<Rightarrow> nat \<Rightarrow> PoolConfig" where
  "for_redundancy_n_and_concurrency n concurrent_segments =
    (let n = max n 1; concurrent = max concurrent_segments 1
     in \<lparr>max_connections = min (n * concurrent) (2 ^ 64 - 1), config_idle_timeout = 5 * 60\<rparr>)"

definition for_redundancy_n :: "nat \<Rightarrow> PoolConfig" where
  "for_redundancy_n n = for_redundancy_n_and_concurrency n 1"

definition default_pool_config :: PoolConfig where
  "default_pool_config = for_redundancy_n_and_concurrency DEFAULT_SCHEME_N DEFAULT_CONCURRENT_SEGMENTS"

subsection \<open>The data behind the mutex\<close>

type_synonym NodeId = bytes

record 'c Inner =
  idle :: "(NodeId \<times> (nat \<times> 'c) list) list"
  idle_count :: nat
  in_use :: nat
  idle_timeout :: nat

fun pop_loop :: "nat \<Rightarrow> nat \<Rightarrow> (nat \<times> 'c) list \<Rightarrow> nat \<Rightarrow> 'c option \<times> (nat \<times> 'c) list \<times> nat" where
  "pop_loop now timeout [] n = (None, [], n)"
| "pop_loop now timeout ((since, conn) # slot) n =
    (let n = n - 1 in if now - since < timeout then (Some conn, slot, n) else pop_loop now timeout slot n)"

definition pop_idle :: "nat \<Rightarrow> 'c Inner \<Rightarrow> NodeId \<Rightarrow> 'c option \<times> 'c Inner" where
  "pop_idle now g node =
    (case map_of (idle g) node of
       None \<Rightarrow> (None, g)
     | Some slot \<Rightarrow>
       (let (found, slot', n) = pop_loop now (idle_timeout g) slot (idle_count g)
        in (found, g\<lparr>idle := (if slot' = [] then AList.delete node (idle g) else AList.update node slot' (idle g)), idle_count := n\<rparr>)))"

definition push_idle :: "nat \<Rightarrow> 'c Inner \<Rightarrow> NodeId \<Rightarrow> 'c \<Rightarrow> 'c Inner" where
  "push_idle now g node conn =
    (let slot = (case map_of (idle g) node of Some s \<Rightarrow> s | None \<Rightarrow> [])
     in g\<lparr>idle := AList.update node (slot @ [(now, conn)]) (idle g), idle_count := idle_count g + 1\<rparr>)"

text \<open>The key that \<open>keys().next()\<close> yields is the first of the association list.\<close>

definition evict_one_idle :: "nat \<Rightarrow> 'c Inner \<Rightarrow> 'c option \<times> 'c Inner" where
  "evict_one_idle now g = (case idle g of [] \<Rightarrow> (None, g) | (key, _) # _ \<Rightarrow> pop_idle now g key)"

datatype 'c Checkout = Reuse 'c | Dial | Wait

text \<open>The critical section of \<open>checkout\<close>.\<close>

definition checkout_action :: "nat \<Rightarrow> nat \<Rightarrow> 'c Inner \<Rightarrow> NodeId \<Rightarrow> 'c Checkout \<times> 'c Inner" where
  "checkout_action mx now g node =
    (case pop_idle now g node of
       (Some conn, g) \<Rightarrow> (Reuse conn, g\<lparr>in_use := in_use g + 1\<rparr>)
     | (None, g) \<Rightarrow>
       if in_use g < mx then
         (let g = (if in_use g + idle_count g \<ge> mx then snd (evict_one_idle now g) else g)
          in (Dial, g\<lparr>in_use := in_use g + 1\<rparr>))
       else (Wait, g))"

subsection \<open>The notification\<close>

text \<open>
  \<open>tokio::sync::Notify\<close> is a parameter: its value \<open>'n\<close>, the constructor, \<open>notify_one\<close> with the task it wakes,
  awaiting \<open>notified()\<close> with whether it completes at once, and dropping a \<open>Notified\<close> that still waits.
  \<open>permit_of\<close> and \<open>waiters_of\<close> observe the value in the terms of its documentation, which is stated by
  \<open>notify_laws\<close>: \<open>notify_one\<close> wakes the task that has waited longest, or stores a permit when no task waits;
  at most one permit is stored, and the next task that awaits takes it; a cancelled task loses its place.
\<close>

record 'n Notify =
  notify_new :: 'n
  notify_one_op :: "'n \<Rightarrow> 'n \<times> nat option"
  notified_op :: "nat \<Rightarrow> 'n \<Rightarrow> 'n \<times> bool"
  cancel_op :: "nat \<Rightarrow> 'n \<Rightarrow> 'n"
  permit_of :: "'n \<Rightarrow> bool"
  waiters_of :: "'n \<Rightarrow> nat list"

definition notify_laws :: "'n Notify \<Rightarrow> bool" where
  "notify_laws N \<longleftrightarrow>
    \<not> permit_of N (notify_new N) \<and> waiters_of N (notify_new N) = [] \<and>
    (\<forall>n. waiters_of N n = [] \<longrightarrow>
      (\<exists>n'. notify_one_op N n = (n', None) \<and> permit_of N n' \<and> waiters_of N n' = [])) \<and>
    (\<forall>n w ws. waiters_of N n = w # ws \<longrightarrow>
      (\<exists>n'. notify_one_op N n = (n', Some w) \<and> permit_of N n' = permit_of N n \<and> waiters_of N n' = ws)) \<and>
    (\<forall>n i. permit_of N n \<longrightarrow>
      (\<exists>n'. notified_op N i n = (n', True) \<and> \<not> permit_of N n' \<and> waiters_of N n' = waiters_of N n)) \<and>
    (\<forall>n i. \<not> permit_of N n \<longrightarrow>
      (\<exists>n'. notified_op N i n = (n', False) \<and> \<not> permit_of N n' \<and> waiters_of N n' = waiters_of N n @ [i])) \<and>
    (\<forall>n i. permit_of N (cancel_op N i n) = permit_of N n \<and>
      waiters_of N (cancel_op N i n) = filter (\<lambda>w. w \<noteq> i) (waiters_of N n))"

subsection \<open>The pool and its tasks\<close>

text \<open>
  What a task is doing: about to enter the critical section, having left it with \<open>Wait\<close> and about to
  await the notification, waiting, woken up, dialling with a \<open>Slot\<close>, or holding a \<open>Pooled\<close> guard with its
  recycle flag.
\<close>

datatype 'c Task = Checking NodeId | Parking NodeId | Waiting NodeId | Woken NodeId | Dialing NodeId | Holding NodeId 'c bool | Finished

record ('n, 'c) Pool =
  pool_max :: nat
  pool_inner :: "'c Inner"
  notify :: 'n
  tasks :: "'c Task list"
  clock :: nat

abbreviation permit :: "'n Notify \<Rightarrow> ('n, 'c) Pool \<Rightarrow> bool" where
  "permit N p \<equiv> permit_of N (notify p)"

abbreviation waiters :: "'n Notify \<Rightarrow> ('n, 'c) Pool \<Rightarrow> nat list" where
  "waiters N p \<equiv> waiters_of N (notify p)"

definition new_pool :: "'n Notify \<Rightarrow> PoolConfig \<Rightarrow> ('n, 'c) Pool" where
  "new_pool N config =
    \<lparr>pool_max = max (max_connections config) 1,
     pool_inner = \<lparr>idle = [], idle_count = 0, in_use = 0, idle_timeout = config_idle_timeout config\<rparr>,
     notify = notify_new N, tasks = [], clock = 0\<rparr>"

fun wake :: "'c Task \<Rightarrow> 'c Task" where
  "wake (Waiting n) = Woken n"
| "wake t = t"

definition notify_one :: "'n Notify \<Rightarrow> ('n, 'c) Pool \<Rightarrow> ('n, 'c) Pool" where
  "notify_one N p =
    (let (n', woken) = notify_one_op N (notify p)
     in p\<lparr>notify := n', tasks := (case woken of None \<Rightarrow> tasks p | Some w \<Rightarrow> (tasks p)[w := wake (tasks p ! w)])\<rparr>)"

definition set_task :: "nat \<Rightarrow> 'c Task \<Rightarrow> ('n, 'c) Pool \<Rightarrow> ('n, 'c) Pool" where
  "set_task i t p = p\<lparr>tasks := (tasks p)[i := t]\<rparr>"

text \<open>One pass of the loop of \<open>checkout\<close>, up to the point where it awaits.\<close>

definition checkout_pass :: "nat \<Rightarrow> NodeId \<Rightarrow> ('n, 'c) Pool \<Rightarrow> ('n, 'c) Pool" where
  "checkout_pass i node p =
    (case checkout_action (pool_max p) (clock p) (pool_inner p) node of
       (Reuse conn, g) \<Rightarrow> set_task i (Holding node conn True) (p\<lparr>pool_inner := g\<rparr>)
     | (Dial, g) \<Rightarrow> set_task i (Dialing node) (p\<lparr>pool_inner := g\<rparr>)
     | (Wait, g) \<Rightarrow> set_task i (Parking node) (p\<lparr>pool_inner := g\<rparr>))"

definition park :: "'n Notify \<Rightarrow> nat \<Rightarrow> NodeId \<Rightarrow> ('n, 'c) Pool \<Rightarrow> ('n, 'c) Pool" where
  "park N i node p =
    (let (n', completed) = notified_op N i (notify p)
     in set_task i (if completed then Woken node else Waiting node) (p\<lparr>notify := n'\<rparr>))"

text \<open>\<open>Slot::drop\<close> when armed, and \<open>Pooled::drop\<close>.\<close>

definition slot_drop :: "'n Notify \<Rightarrow> ('n, 'c) Pool \<Rightarrow> ('n, 'c) Pool" where
  "slot_drop N p = notify_one N (p\<lparr>pool_inner := (pool_inner p)\<lparr>in_use := in_use (pool_inner p) - 1\<rparr>\<rparr>)"

definition pooled_drop :: "'n Notify \<Rightarrow> NodeId \<Rightarrow> 'c \<Rightarrow> bool \<Rightarrow> ('n, 'c) Pool \<Rightarrow> ('n, 'c) Pool" where
  "pooled_drop N node conn recycle p =
    (let g = (pool_inner p)\<lparr>in_use := in_use (pool_inner p) - 1\<rparr>;
         g = (if recycle then push_idle (clock p) g node conn else g)
     in notify_one N (p\<lparr>pool_inner := g\<rparr>))"

text \<open>\<open>HeldPooled::drop\<close>: without \<open>keep\<close> the guard inside skips recycling.\<close>

definition held_drop :: "'n Notify \<Rightarrow> NodeId \<Rightarrow> 'c \<Rightarrow> bool \<Rightarrow> bool \<Rightarrow> ('n, 'c) Pool \<Rightarrow> ('n, 'c) Pool" where
  "held_drop N node conn recycle keep p = pooled_drop N node conn (if keep then recycle else False) p"

text \<open>
  The steps: a call of \<open>checkout\<close>, its passes, its waits, the end of a dial, the drops, and a cancelled future,
  which leaves the queue, or, when it was already woken, passes the notification on.
\<close>

inductive pool_step :: "'n Notify \<Rightarrow> ('n, 'c) Pool \<Rightarrow> ('n, 'c) Pool \<Rightarrow> bool" for N where
  checkout: "pool_step N p (p\<lparr>tasks := tasks p @ [Checking node]\<rparr>)"
| pass: "i < length (tasks p) \<Longrightarrow> tasks p ! i = Checking node \<Longrightarrow> pool_step N p (checkout_pass i node p)"
| park: "i < length (tasks p) \<Longrightarrow> tasks p ! i = Parking node \<Longrightarrow> pool_step N p (park N i node p)"
| retry: "i < length (tasks p) \<Longrightarrow> tasks p ! i = Woken node \<Longrightarrow> pool_step N p (set_task i (Checking node) p)"
| dialled: "i < length (tasks p) \<Longrightarrow> tasks p ! i = Dialing node \<Longrightarrow> pool_step N p (set_task i (Holding node conn True) p)"
| dial_failed: "i < length (tasks p) \<Longrightarrow> tasks p ! i = Dialing node \<Longrightarrow> pool_step N p (slot_drop N (set_task i Finished p))"
| skip_recycle: "i < length (tasks p) \<Longrightarrow> tasks p ! i = Holding node conn r \<Longrightarrow> pool_step N p (set_task i (Holding node conn False) p)"
| drop_pooled: "i < length (tasks p) \<Longrightarrow> tasks p ! i = Holding node conn r \<Longrightarrow> pool_step N p (pooled_drop N node conn r (set_task i Finished p))"
| drop_held: "i < length (tasks p) \<Longrightarrow> tasks p ! i = Holding node conn r \<Longrightarrow> pool_step N p (held_drop N node conn r keep (set_task i Finished p))"
| cancel_waiting: "i < length (tasks p) \<Longrightarrow> tasks p ! i = Waiting node \<Longrightarrow>
    pool_step N p (set_task i Finished (p\<lparr>notify := cancel_op N i (notify p)\<rparr>))"
| cancel_woken: "i < length (tasks p) \<Longrightarrow> tasks p ! i = Woken node \<Longrightarrow> pool_step N p (notify_one N (set_task i Finished p))"
| tick: "pool_step N p (p\<lparr>clock := clock p + n\<rparr>)"

inductive reachable :: "'n Notify \<Rightarrow> PoolConfig \<Rightarrow> ('n, 'c) Pool \<Rightarrow> bool" for N config where
  init: "reachable N config (new_pool N config)"
| step: "reachable N config p \<Longrightarrow> pool_step N p p' \<Longrightarrow> reachable N config p'"

section \<open>The invariant of the data behind the mutex\<close>

definition idle_total :: "(NodeId \<times> (nat \<times> 'c) list) list \<Rightarrow> nat" where
  "idle_total m = sum_list (map (\<lambda>(_, slot). length slot) m)"

definition inner_ok :: "'c Inner \<Rightarrow> bool" where
  "inner_ok g \<longleftrightarrow> distinct (map fst (idle g)) \<and> (\<forall>(_, slot) \<in> set (idle g). slot \<noteq> []) \<and> idle_count g = idle_total (idle g)"

lemma idle_total_update:
  "distinct (map fst m) \<Longrightarrow> idle_total (AList.update k s m) + (case map_of m k of Some t \<Rightarrow> length t | None \<Rightarrow> 0) = idle_total m + length s"
  by (induction m) (auto simp: idle_total_def split: option.splits dest: map_of_SomeD)

lemma idle_total_delete:
  "distinct (map fst m) \<Longrightarrow> map_of m k = Some t \<Longrightarrow> idle_total (AList.delete k m) + length t = idle_total m"
proof (induction m)
  case (Cons x m)
  obtain k' s where x: "x = (k', s)" by (cases x)
  show ?case
  proof (cases "k' = k")
    case True
    then have "k \<notin> fst ` set m" using Cons.prems x by auto
    then have "AList.delete k m = m" by (rule delete_id)
    then show ?thesis using Cons.prems x True by (simp add: idle_total_def)
  next
    case False
    then show ?thesis using Cons x by (simp add: idle_total_def)
  qed
qed simp

lemma pop_loop_spec:
  "length slot \<le> n \<Longrightarrow> pop_loop now timeout slot n = (found, slot', n') \<Longrightarrow>
   n' + length slot = n + length slot' \<and> (\<exists>pre. slot = pre @ slot') \<and> length slot' \<le> length slot \<and> (slot \<noteq> [] \<longrightarrow> length slot' < length slot)"
proof (induction now timeout slot n rule: pop_loop.induct)
  case (2 now timeout since conn slot n)
  show ?case
  proof (cases "now - since < timeout")
    case True
    then show ?thesis using 2(2,3) by auto
  next
    case False
    then have "n' + length slot = n - 1 + length slot' \<and> (\<exists>pre. slot = pre @ slot') \<and> length slot' \<le> length slot"
      using 2 by simp
    then show ?thesis using 2(2) by (auto intro: exI[of _ "(since, conn) # _"])
  qed
qed simp

lemma set_update_pair: "(x, y) \<in> set (AList.update k v m) \<Longrightarrow> y = v \<or> (x, y) \<in> set m"
  by (induction m) (auto split: if_splits)

lemma map_of_idle_total: "map_of m k = Some s \<Longrightarrow> length s \<le> idle_total m"
  by (induction m) (auto simp: idle_total_def split: if_splits)

lemma pop_idle_ok:
  assumes "inner_ok g" and "pop_idle now g node = (found, g')"
  shows "inner_ok g' \<and> in_use g' = in_use g \<and> idle_timeout g' = idle_timeout g \<and> idle_count g' \<le> idle_count g \<and>
    (map_of (idle g) node \<noteq> None \<longrightarrow> idle_count g' < idle_count g) \<and> (found \<noteq> None \<longrightarrow> map_of (idle g) node \<noteq> None)"
proof (cases "map_of (idle g) node")
  case None
  then show ?thesis using assms by (simp add: pop_idle_def)
next
  case (Some slot)
  obtain f slot' n where l: "pop_loop now (idle_timeout g) slot (idle_count g) = (f, slot', n)"
    by (cases "pop_loop now (idle_timeout g) slot (idle_count g)")
  have d: "distinct (map fst (idle g))" and ne: "slot \<noteq> []" and c: "idle_count g = idle_total (idle g)"
    using assms(1) map_of_SomeD[OF Some] by (auto simp: inner_ok_def)
  have s: "n + length slot = idle_count g + length slot'" "length slot' < length slot"
    using pop_loop_spec[OF _ l] map_of_idle_total[OF Some] c ne by auto
  have g': "g' = g\<lparr>idle := (if slot' = [] then AList.delete node (idle g) else AList.update node slot' (idle g)), idle_count := n\<rparr>"
    using assms(2) Some l by (simp add: pop_idle_def)
  have t: "n = idle_total (idle g')"
    using g' s c idle_total_delete[OF d Some] idle_total_update[OF d, of node slot'] Some by (auto split: if_splits)
  moreover have "distinct (map fst (idle g'))" using d g' by (simp add: distinct_update distinct_delete)
  moreover have "\<forall>(_, x) \<in> set (idle g'). x \<noteq> []"
    using g' assms(1) by (auto simp: inner_ok_def AList.delete_eq dest!: set_update_pair)
  ultimately show ?thesis using g' s Some by (simp add: inner_ok_def)
qed

lemma push_idle_ok:
  assumes "inner_ok g"
  shows "inner_ok (push_idle now g node c)" "in_use (push_idle now g node c) = in_use g"
    "idle_count (push_idle now g node c) = idle_count g + 1"
proof -
  let ?s = "case map_of (idle g) node of Some s \<Rightarrow> s | None \<Rightarrow> []"
  have d: "distinct (map fst (idle g))" using assms by (simp add: inner_ok_def)
  have "idle_total (AList.update node (?s @ [(now, c)]) (idle g)) = idle_total (idle g) + 1"
    using idle_total_update[OF d, of node "?s @ [(now, c)]"] by (cases "map_of (idle g) node") simp_all
  then show "inner_ok (push_idle now g node c)"
    using assms d by (auto simp: inner_ok_def push_idle_def distinct_update dest!: set_update_pair)
qed (simp_all add: push_idle_def)

lemma evict_ok:
  assumes "inner_ok g" and "evict_one_idle now g = (f, g')"
  shows "inner_ok g' \<and> in_use g' = in_use g \<and> (0 < idle_count g \<longrightarrow> idle_count g' < idle_count g) \<and> idle_count g' \<le> idle_count g"
proof (cases "idle g")
  case Nil
  then show ?thesis using assms by (simp add: evict_one_idle_def inner_ok_def idle_total_def)
next
  case (Cons x rest)
  obtain k sl where x: "x = (k, sl)" by (cases x)
  then have "pop_idle now g k = (f, g')" "map_of (idle g) k \<noteq> None" using assms(2) Cons by (simp_all add: evict_one_idle_def)
  then show ?thesis using pop_idle_ok[OF assms(1), of now k f g'] by simp
qed

lemma checkout_action_ok:
  assumes ok: "inner_ok g" and b: "in_use g + idle_count g \<le> mx" and a: "checkout_action mx now g node = (act, g')"
  shows "inner_ok g' \<and> in_use g' + idle_count g' \<le> mx \<and> in_use g' = in_use g + (if act = Wait then 0 else 1) \<and>
    (act = Wait \<longrightarrow> in_use g = mx)"
proof -
  obtain f h where h: "pop_idle now g node = (f, h)" by (cases "pop_idle now g node")
  note p = pop_idle_ok[OF ok h]
  show ?thesis
  proof (cases f)
    case (Some c)
    then have "idle_count h < idle_count g" using p by auto
    then show ?thesis using p a h Some b by (auto simp: checkout_action_def inner_ok_def)
  next
    case None
    show ?thesis
    proof (cases "in_use h < mx")
      case False
      then show ?thesis using None p a h b by (auto simp: checkout_action_def)
    next
      case True
      obtain f' k where k: "evict_one_idle now h = (f', k)" by (cases "evict_one_idle now h")
      have hh: "inner_ok h" using p by blast
      note e = evict_ok[OF hh k]
      show ?thesis
      proof (cases "in_use h + idle_count h \<ge> mx")
        case full: True
        then have "0 < idle_count h" using True by simp
        then have "idle_count k < idle_count h" "in_use k = in_use h" "inner_ok k" using e by auto
        moreover have "act = Dial" "g' = k\<lparr>in_use := in_use k + 1\<rparr>" using a h None True full k by (auto simp: checkout_action_def)
        ultimately show ?thesis using p b by (simp add: inner_ok_def)
      next
        case free: False
        then have "act = Dial" "g' = h\<lparr>in_use := in_use h + 1\<rparr>" using a h None True by (auto simp: checkout_action_def)
        then show ?thesis using p free by (simp add: inner_ok_def)
      qed
    qed
  qed
qed

section \<open>The invariants of the pool\<close>

fun busy :: "'c Task \<Rightarrow> bool" where
  "busy (Dialing _) = True"
| "busy (Holding _ _ _) = True"
| "busy _ = False"

fun active :: "'c Task \<Rightarrow> bool" where
  "active (Checking _) = True"
| "active (Woken _) = True"
| "active t = busy t"

fun is_waiting :: "'c Task \<Rightarrow> bool" where
  "is_waiting (Waiting _) = True"
| "is_waiting _ = False"

fun blocked :: "'c Task \<Rightarrow> bool" where
  "blocked (Waiting _) = True"
| "blocked (Parking _) = True"
| "blocked _ = False"

definition busy_count :: "'c Task list \<Rightarrow> nat" where
  "busy_count ts = length (filter busy ts)"

lemma busy_active: "busy t \<Longrightarrow> active t"
  by (cases t) auto

lemma busy_wake [simp]: "busy (wake t) = busy t"
  by (cases t) auto

lemma busy_count_update:
  "i < length ts \<Longrightarrow> busy_count (ts[i := t]) + (if busy (ts ! i) then 1 else 0) = busy_count ts + (if busy t then 1 else 0)"
proof (induction ts arbitrary: i)
  case (Cons x ts)
  then show ?case by (cases i) (auto simp: busy_count_def split: if_splits)
qed simp

lemma busy_count_pos: "0 < busy_count ts \<Longrightarrow> \<exists>j < length ts. busy (ts ! j)"
  by (auto simp: busy_count_def filter_empty_conv in_set_conv_nth)

text \<open>The counters: \<open>in_use\<close> counts the tasks that dial or hold a guard, and the limit covers the idle ones too.\<close>

definition counted :: "('n, 'c) Pool \<Rightarrow> bool" where
  "counted p \<longleftrightarrow> inner_ok (pool_inner p) \<and> in_use (pool_inner p) = busy_count (tasks p) \<and>
    in_use (pool_inner p) + idle_count (pool_inner p) \<le> pool_max p \<and> 1 \<le> pool_max p"

definition queued :: "'n Notify \<Rightarrow> ('n, 'c) Pool \<Rightarrow> bool" where
  "queued N p \<longleftrightarrow> distinct (waiters N p) \<and> (\<forall>j. j \<in> set (waiters N p) \<longleftrightarrow> j < length (tasks p) \<and> is_waiting (tasks p ! j)) \<and>
    (permit N p \<longrightarrow> waiters N p = [])"

definition wakeable :: "'n Notify \<Rightarrow> ('n, 'c) Pool \<Rightarrow> bool" where
  "wakeable N p \<longleftrightarrow> ((\<exists>j < length (tasks p). blocked (tasks p ! j)) \<longrightarrow> permit N p \<or> (\<exists>j < length (tasks p). active (tasks p ! j)))"

lemma set_task_sel [simp]:
  "pool_inner (set_task i t p) = pool_inner p" "tasks (set_task i t p) = (tasks p)[i := t]" "pool_max (set_task i t p) = pool_max p"
  "notify (set_task i t p) = notify p" "clock (set_task i t p) = clock p"
  by (simp_all add: set_task_def)

lemma counted_set_task:
  "counted p \<Longrightarrow> i < length (tasks p) \<Longrightarrow> busy t = busy (tasks p ! i) \<Longrightarrow> counted (set_task i t p)"
  using busy_count_update[of i "tasks p" t] by (simp add: counted_def)

lemma notify_one_idle:
  assumes "notify_laws N" "waiters N p = []"
  obtains n' where "notify_one N p = p\<lparr>notify := n'\<rparr>" "permit_of N n'" "waiters_of N n' = []"
proof -
  obtain n' where "notify_one_op N (notify p) = (n', None)" "permit_of N n'" "waiters_of N n' = []"
    using assms unfolding notify_laws_def by blast
  then show ?thesis using that[of n'] by (simp add: notify_one_def)
qed

lemma notify_one_wakes:
  assumes "notify_laws N" "waiters N p = w # ws"
  obtains n' where "notify_one N p = p\<lparr>notify := n', tasks := (tasks p)[w := wake (tasks p ! w)]\<rparr>"
    "permit_of N n' = permit N p" "waiters_of N n' = ws"
proof -
  obtain n' where "notify_one_op N (notify p) = (n', Some w)" "permit_of N n' = permit N p" "waiters_of N n' = ws"
    using assms unfolding notify_laws_def by blast
  then show ?thesis using that[of n'] by (simp add: notify_one_def)
qed

lemma park_takes_permit:
  assumes "notify_laws N" "permit N p"
  obtains n' where "park N i node p = set_task i (Woken node) (p\<lparr>notify := n'\<rparr>)" "\<not> permit_of N n'" "waiters_of N n' = waiters N p"
proof -
  obtain n' where "notified_op N i (notify p) = (n', True)" "\<not> permit_of N n'" "waiters_of N n' = waiters N p"
    using assms unfolding notify_laws_def by blast
  then show ?thesis using that[of n'] by (simp add: park_def)
qed

lemma park_waits:
  assumes "notify_laws N" "\<not> permit N p"
  obtains n' where "park N i node p = set_task i (Waiting node) (p\<lparr>notify := n'\<rparr>)" "\<not> permit_of N n'" "waiters_of N n' = waiters N p @ [i]"
proof -
  have "\<forall>n i. \<not> permit_of N n \<longrightarrow>
      (\<exists>n'. notified_op N i n = (n', False) \<and> \<not> permit_of N n' \<and> waiters_of N n' = waiters_of N n @ [i])"
    using assms(1) unfolding notify_laws_def by (elim conjE)
  then obtain n' where "notified_op N i (notify p) = (n', False)" "\<not> permit_of N n'" "waiters_of N n' = waiters N p @ [i]"
    using assms(2) by blast
  then show ?thesis using that[of n'] by (simp add: park_def)
qed

lemma notify_cancel:
  assumes "notify_laws N"
  shows "permit_of N (cancel_op N i n) = permit_of N n" "waiters_of N (cancel_op N i n) = filter (\<lambda>w. w \<noteq> i) (waiters_of N n)"
  using assms unfolding notify_laws_def by blast+

lemma busy_count_wake: "busy_count (ts[w := wake (ts ! w)]) = busy_count ts"
  using busy_count_update[of w ts "wake (ts ! w)"] by (cases "w < length ts") (simp_all add: list_update_beyond split: if_splits)

lemma counted_notify: "counted p \<Longrightarrow> counted (notify_one N p)"
  by (simp add: notify_one_def counted_def busy_count_wake split: prod.splits option.splits)

lemma queued_notify:
  assumes N: "notify_laws N" and "queued N p"
  shows "queued N (notify_one N p)" "wakeable N (notify_one N p)"
proof -
  note q = assms(2)[unfolded queued_def]
  have "queued N (notify_one N p) \<and> wakeable N (notify_one N p)"
  proof (cases "waiters N p")
    case Nil
    then obtain n' where "notify_one N p = p\<lparr>notify := n'\<rparr>" "permit_of N n'" "waiters_of N n' = []"
      using notify_one_idle[OF N] by blast
    then show ?thesis using q Nil by (simp add: queued_def wakeable_def)
  next
    case (Cons w ws)
    then obtain n' where n': "notify_one N p = p\<lparr>notify := n', tasks := (tasks p)[w := wake (tasks p ! w)]\<rparr>"
        "permit_of N n' = permit N p" "waiters_of N n' = ws"
      using notify_one_wakes[OF N] by blast
    have w: "w < length (tasks p)" "is_waiting (tasks p ! w)" "w \<notin> set ws" using q Cons by auto
    obtain n where n: "tasks p ! w = Waiting n" using w(2) by (cases "tasks p ! w") auto
    have "j \<in> set ws \<longleftrightarrow> j < length (tasks p) \<and> is_waiting ((tasks p)[w := Woken n] ! j)" for j
    proof (cases "j = w")
      case False
      have "j \<in> set (waiters N p) \<longleftrightarrow> j < length (tasks p) \<and> is_waiting (tasks p ! j)" using q by blast
      then show ?thesis using False Cons by simp
    qed (use w in simp)
    moreover have "\<exists>j < length (tasks p). active ((tasks p)[w := Woken n] ! j)" using w(1) by (intro exI[of _ w]) simp
    ultimately show ?thesis using Cons q n n' by (auto simp: queued_def wakeable_def)
  qed
  then show "queued N (notify_one N p)" "wakeable N (notify_one N p)" by auto
qed

text \<open>Replacing one task by another that waits as little as it did leaves the queue in order.\<close>

lemma queued_set_task:
  assumes "queued N p" and "i < length (tasks p)" and "is_waiting t = is_waiting (tasks p ! i)"
  shows "queued N (set_task i t p)"
proof -
  have "is_waiting ((tasks p)[i := t] ! j) = is_waiting (tasks p ! j)" if "j < length (tasks p)" for j
    using that assms(2,3) by (cases "j = i") simp_all
  then show ?thesis using assms(1) unfolding queued_def by auto
qed

lemma wakeable_active: "i < length (tasks p) \<Longrightarrow> active t \<Longrightarrow> wakeable N (set_task i t p)"
  unfolding wakeable_def by (auto intro!: exI[of _ i])

text \<open>Releasing a connection: the task ends, the counter drops, and somebody is notified.\<close>

lemma release_ok:
  assumes "counted p" and "queued N p" and "i < length (tasks p)" and "busy (tasks p ! i)" and N: "notify_laws N"
    and "inner_ok g" and "in_use g = in_use (pool_inner p) - 1" and "idle_count g \<le> idle_count (pool_inner p) + 1"
    and p': "p' = notify_one N ((set_task i Finished p)\<lparr>pool_inner := g\<rparr>)"
  shows "counted p' \<and> queued N p' \<and> wakeable N p'"
proof -
  let ?q = "(set_task i Finished p)\<lparr>pool_inner := g\<rparr>"
  have n: "busy_count ((tasks p)[i := Finished]) + 1 = busy_count (tasks p)"
    using busy_count_update[OF assms(3), of Finished] assms(4) by simp
  have "counted ?q" using assms(1,6-8) n by (auto simp: counted_def)
  moreover have "is_waiting (tasks p ! i) = False" using assms(4) by (cases "tasks p ! i") auto
  then have "queued N (set_task i Finished p)" using queued_set_task[OF assms(2,3)] by simp
  then have "queued N ?q" by (simp add: queued_def)
  ultimately show ?thesis using p' counted_notify queued_notify[OF N] by blast
qed

lemma inner_ok_in_use: "inner_ok g \<Longrightarrow> inner_ok (g\<lparr>in_use := n\<rparr>)"
  by (simp add: inner_ok_def)

lemma pooled_drop_ok:
  assumes "counted p" and "queued N p" and "i < length (tasks p)" and "tasks p ! i = Holding node conn r0" and N: "notify_laws N"
  shows "counted (pooled_drop N node conn r (set_task i Finished p)) \<and> queued N (pooled_drop N node conn r (set_task i Finished p)) \<and>
    wakeable N (pooled_drop N node conn r (set_task i Finished p))"
proof -
  let ?h = "(pool_inner p)\<lparr>in_use := in_use (pool_inner p) - 1\<rparr>"
  let ?g = "if r then push_idle (clock p) ?h node conn else ?h"
  have h: "inner_ok ?h" using assms(1) by (simp add: counted_def inner_ok_in_use)
  have g: "inner_ok ?g" "in_use ?g = in_use (pool_inner p) - 1" "idle_count ?g \<le> idle_count (pool_inner p) + 1"
    using h push_idle_ok[OF h, of "clock p" node conn] by simp_all
  have b: "busy (tasks p ! i)" using assms(4) by simp
  have "pooled_drop N node conn r (set_task i Finished p) = notify_one N ((set_task i Finished p)\<lparr>pool_inner := ?g\<rparr>)"
    by (simp add: pooled_drop_def)
  then show ?thesis by (rule release_ok[OF assms(1-3) b N g])
qed

lemma checkout_pass_ok:
  assumes "counted p" and "queued N p" and "i < length (tasks p)" and "tasks p ! i = Checking node"
  shows "counted (checkout_pass i node p) \<and> queued N (checkout_pass i node p) \<and> wakeable N (checkout_pass i node p)"
proof -
  obtain act g where a: "checkout_action (pool_max p) (clock p) (pool_inner p) node = (act, g)"
    by (cases "checkout_action (pool_max p) (clock p) (pool_inner p) node")
  have c: "inner_ok (pool_inner p)" "in_use (pool_inner p) + idle_count (pool_inner p) \<le> pool_max p" "1 \<le> pool_max p"
    "in_use (pool_inner p) = busy_count (tasks p)" using assms(1) by (simp_all add: counted_def)
  note k = checkout_action_ok[OF c(1,2) a]
  have u: "busy_count ((tasks p)[i := t]) = busy_count (tasks p) + (if busy t then 1 else 0)" for t
    using busy_count_update[OF assms(3), of t] assms(4) by simp
  have q: "queued N (set_task i t (p\<lparr>pool_inner := g\<rparr>))" if "\<not> is_waiting t" for t
    using queued_set_task[OF assms(2,3), of t] assms(4) that by (simp add: queued_def)
  have step: "counted (set_task i t (p\<lparr>pool_inner := g\<rparr>))" if "busy t \<longleftrightarrow> act \<noteq> Wait" for t
    using k c u[of t] that by (auto simp: counted_def)
  show ?thesis
  proof (cases act)
    case (Reuse conn)
    then show ?thesis
      using a step[of "Holding node conn True"] q wakeable_active[of i "p\<lparr>pool_inner := g\<rparr>" _ N] assms(3) by (simp add: checkout_pass_def)
  next
    case Dial
    then show ?thesis
      using a step[of "Dialing node"] q wakeable_active[of i "p\<lparr>pool_inner := g\<rparr>" _ N] assms(3) by (simp add: checkout_pass_def)
  next
    case Wait
    have "0 < busy_count (tasks p)" using k Wait c by simp
    then obtain j where j: "j < length (tasks p)" "busy (tasks p ! j)" using busy_count_pos by blast
    then have "j \<noteq> i" using assms(4) by auto
    then have "wakeable N (set_task i (Parking node) (p\<lparr>pool_inner := g\<rparr>))"
      using j by (auto simp: wakeable_def intro!: exI[of _ j] busy_active)
    then show ?thesis using a step[of "Parking node"] q Wait by (simp add: checkout_pass_def)
  qed
qed

lemma park_ok:
  assumes N: "notify_laws N" and "counted p" and "queued N p" and "wakeable N p" and "i < length (tasks p)" and "tasks p ! i = Parking node"
  shows "counted (park N i node p) \<and> queued N (park N i node p) \<and> wakeable N (park N i node p)"
proof (cases "permit N p")
  case True
  obtain n' where n': "park N i node p = set_task i (Woken node) (p\<lparr>notify := n'\<rparr>)" "\<not> permit_of N n'" "waiters_of N n' = waiters N p"
    using park_takes_permit[OF N True] by blast
  have "queued N (set_task i (Woken node) p)" using queued_set_task[OF assms(3,5), of "Woken node"] assms(6) by simp
  then have "queued N (park N i node p)" using n' unfolding queued_def by simp
  moreover have "counted (set_task i (Woken node) p)" using counted_set_task[OF assms(2,5), of "Woken node"] assms(6) by simp
  moreover have "wakeable N (park N i node p)" unfolding n'(1) using assms(5) by (intro wakeable_active) simp_all
  ultimately show ?thesis using n' by (simp add: counted_def)
next
  case False
  obtain n' where n': "park N i node p = set_task i (Waiting node) (p\<lparr>notify := n'\<rparr>)" "\<not> permit_of N n'" "waiters_of N n' = waiters N p @ [i]"
    using park_waits[OF N False] by blast
  obtain j where j: "j < length (tasks p)" "active (tasks p ! j)"
    using assms(4-6) False by (force simp: wakeable_def)
  then have ji: "j \<noteq> i" using assms(6) by auto
  have "i \<notin> set (waiters N p)" using assms(3,6) by (auto simp: queued_def)
  moreover have "(k = i \<or> k \<in> set (waiters N p)) \<longleftrightarrow> k < length (tasks p) \<and> is_waiting ((tasks p)[i := Waiting node] ! k)" for k
    using assms(3,5) unfolding queued_def by (cases "k = i") auto
  ultimately have "queued N (park N i node p)" using n' assms(3) unfolding queued_def by simp
  moreover have "counted (set_task i (Waiting node) p)" using counted_set_task[OF assms(2,5), of "Waiting node"] assms(6) by simp
  then have "counted (park N i node p)" using n' by (simp add: counted_def)
  moreover have "wakeable N (park N i node p)" using n' j ji by (auto simp: wakeable_def intro!: exI[of _ j])
  ultimately show ?thesis by blast
qed

lemma cancel_waiting_ok:
  assumes N: "notify_laws N" and "counted p" and "queued N p" and "wakeable N p" and "i < length (tasks p)" and "tasks p ! i = Waiting node"
    and p': "p' = set_task i Finished (p\<lparr>notify := cancel_op N i (notify p)\<rparr>)"
  shows "counted p' \<and> queued N p' \<and> wakeable N p'"
proof -
  have "counted (set_task i Finished p)" using counted_set_task[OF assms(2,5), of Finished] assms(6) by simp
  then have "counted p'" by (simp add: p' counted_def)
  moreover have "(k \<in> set (waiters N p) \<and> k \<noteq> i) \<longleftrightarrow> k < length (tasks p) \<and> is_waiting ((tasks p)[i := Finished] ! k)" for k
    using assms(3,5) unfolding queued_def by (cases "k = i") auto
  then have "queued N p'" using assms(3) unfolding queued_def p' by (simp add: notify_cancel[OF N])
  moreover have "permit N p \<or> (\<exists>j < length (tasks p). active (tasks p ! j))" using assms(4-6) by (force simp: wakeable_def)
  then have "wakeable N p'"
  proof
    assume "\<exists>j < length (tasks p). active (tasks p ! j)"
    then obtain j where j: "j < length (tasks p)" "active (tasks p ! j)" by blast
    then have "j \<noteq> i" using assms(6) by auto
    then show ?thesis using j by (auto simp: p' wakeable_def intro!: exI[of _ j])
  qed (simp add: p' wakeable_def notify_cancel[OF N])
  ultimately show ?thesis by blast
qed

definition pool_inv :: "'n Notify \<Rightarrow> ('n, 'c) Pool \<Rightarrow> bool" where
  "pool_inv N p \<longleftrightarrow> counted p \<and> queued N p \<and> wakeable N p"

lemma set_task_inv:
  assumes "pool_inv N p" and "i < length (tasks p)" and "\<not> is_waiting (tasks p ! i)" and "\<not> is_waiting t" and "busy t = busy (tasks p ! i)" and "active t"
  shows "pool_inv N (set_task i t p)"
  using assms counted_set_task[of p i t] queued_set_task[of N p i t] wakeable_active[of i p t N] by (simp add: pool_inv_def)

lemma spawn_inv: "pool_inv N p \<Longrightarrow> pool_inv N (p\<lparr>tasks := tasks p @ [Checking node]\<rparr>)"
proof -
  assume p: "pool_inv N p"
  have "busy_count (tasks p @ [Checking node]) = busy_count (tasks p)" by (simp add: busy_count_def)
  moreover have "j < length (tasks p) \<and> is_waiting (tasks p ! j) \<longleftrightarrow>
      j < Suc (length (tasks p)) \<and> is_waiting ((tasks p @ [Checking node]) ! j)" for j
    by (auto simp: nth_append less_Suc_eq)
  moreover have "\<exists>j < Suc (length (tasks p)). active ((tasks p @ [Checking node]) ! j)"
    by (intro exI[of _ "length (tasks p)"]) simp
  ultimately show ?thesis using p unfolding pool_inv_def counted_def queued_def wakeable_def by simp
qed

lemma cancel_woken_inv:
  assumes N: "notify_laws N" and "pool_inv N p" and "i < length (tasks p)" and "tasks p ! i = Woken node"
  shows "pool_inv N (notify_one N (set_task i Finished p))"
proof -
  have "counted (set_task i Finished p)" "queued N (set_task i Finished p)"
    using assms counted_set_task[of p i Finished] queued_set_task[of N p i Finished] by (simp_all add: pool_inv_def)
  then show ?thesis unfolding pool_inv_def using counted_notify queued_notify[OF N] by blast
qed

lemma slot_drop_inv:
  assumes N: "notify_laws N" and "pool_inv N p" and "i < length (tasks p)" and "tasks p ! i = Dialing node"
  shows "pool_inv N (slot_drop N (set_task i Finished p))"
proof -
  have c: "counted p" "queued N p" and b: "busy (tasks p ! i)" using assms by (simp_all add: pool_inv_def)
  let ?g = "(pool_inner p)\<lparr>in_use := in_use (pool_inner p) - 1\<rparr>"
  have "inner_ok ?g" using c(1) by (simp add: counted_def inner_ok_in_use)
  moreover have "in_use ?g = in_use (pool_inner p) - 1" "idle_count ?g \<le> idle_count (pool_inner p) + 1" by simp_all
  moreover have "slot_drop N (set_task i Finished p) = notify_one N ((set_task i Finished p)\<lparr>pool_inner := ?g\<rparr>)" by (simp add: slot_drop_def)
  ultimately show ?thesis using release_ok[OF c assms(3) b N, of ?g] by (simp add: pool_inv_def)
qed

lemma pool_step_inv: "pool_step N p p' \<Longrightarrow> notify_laws N \<Longrightarrow> pool_inv N p \<Longrightarrow> pool_inv N p'"
proof (induction rule: pool_step.induct)
  case (checkout p node)
  then show ?case using spawn_inv by blast
next
  case (pass i p node)
  then show ?case using checkout_pass_ok[of p N i node] by (simp add: pool_inv_def)
next
  case (park i p node)
  then show ?case using park_ok[of N p i node] by (simp add: pool_inv_def)
next
  case (retry i p node)
  then show ?case by (intro set_task_inv) simp_all
next
  case (dialled i p node conn)
  then show ?case by (intro set_task_inv) simp_all
next
  case (dial_failed i p node)
  then show ?case using slot_drop_inv by blast
next
  case (skip_recycle i p node conn r)
  then show ?case by (intro set_task_inv) simp_all
next
  case (drop_pooled i p node conn r)
  then show ?case using pooled_drop_ok[of p N i node conn r r] by (simp add: pool_inv_def)
next
  case (drop_held i p node conn r keep)
  then show ?case using pooled_drop_ok[of p N i node conn r] by (simp add: pool_inv_def held_drop_def)
next
  case (cancel_waiting i p node)
  then show ?case using cancel_waiting_ok[of N p i node] by (simp add: pool_inv_def)
next
  case (cancel_woken i p node)
  then show ?case using cancel_woken_inv by blast
next
  case (tick p n)
  then show ?case by (simp add: pool_inv_def counted_def queued_def wakeable_def)
qed

lemma notify_max [simp]: "pool_max (notify_one N p) = pool_max p"
  by (simp add: notify_one_def split: prod.splits)

lemma pool_step_max: "pool_step N p p' \<Longrightarrow> pool_max p' = pool_max p"
  by (induction rule: pool_step.induct)
     (simp_all add: checkout_pass_def park_def slot_drop_def pooled_drop_def held_drop_def split: prod.splits Checkout.splits)

lemma reachable_inv: "reachable N config p \<Longrightarrow> notify_laws N \<Longrightarrow> pool_inv N p \<and> pool_max p = max (max_connections config) 1"
proof (induction rule: reachable.induct)
  case init
  then have "\<not> permit_of N (notify_new N)" "waiters_of N (notify_new N) = []" unfolding notify_laws_def by blast+
  then show ?case
    by (simp add: pool_inv_def counted_def queued_def wakeable_def new_pool_def inner_ok_def idle_total_def busy_count_def)
next
  case (step p p')
  then show ?case using pool_step_inv pool_step_max by metis
qed

text \<open>
  C30: Whatever tasks check out, dial, recycle, drop or are cancelled in whatever order, the pool never has
  more connections than its configured maximum, idle and in use together, its two counters agree with the
  idle queues and with the guards that exist, and no idle queue is empty.
\<close>

theorem pool_within_limit:
  assumes "notify_laws N" and "reachable N config p"
  shows "in_use (pool_inner p) + idle_total (idle (pool_inner p)) \<le> max (max_connections config) 1 \<and>
    in_use (pool_inner p) = length (filter busy (tasks p)) \<and> idle_count (pool_inner p) = idle_total (idle (pool_inner p)) \<and>
    (\<forall>(node, slot) \<in> set (idle (pool_inner p)). slot \<noteq> [])"
  using reachable_inv[OF assms(2,1)] by (auto simp: pool_inv_def counted_def inner_ok_def busy_count_def)

text \<open>A notification that behaves as documented: a permit and a queue.\<close>

definition fifo_notify :: "(bool \<times> nat list) Notify" where
  "fifo_notify =
    \<lparr>notify_new = (False, []),
     notify_one_op = (\<lambda>(pm, ws). case ws of [] \<Rightarrow> ((True, []), None) | w # ws \<Rightarrow> ((pm, ws), Some w)),
     notified_op = (\<lambda>i (pm, ws). if pm then ((False, ws), True) else ((False, ws @ [i]), False)),
     cancel_op = (\<lambda>i (pm, ws). (pm, filter (\<lambda>w. w \<noteq> i) ws)),
     permit_of = fst, waiters_of = snd\<rparr>"

lemma fifo_notify_laws: "notify_laws fifo_notify"
  by (simp add: notify_laws_def fifo_notify_def split_beta)

theorem pool_within_limit_witness:
  "in_use (pool_inner (checkout_pass 0 [7] ((new_pool fifo_notify (for_redundancy_n 2) :: (_, nat) Pool)\<lparr>tasks := [Checking [7]]\<rparr>))) \<le> 2"
proof -
  have "reachable fifo_notify (for_redundancy_n 2) ((new_pool fifo_notify (for_redundancy_n 2) :: (_, nat) Pool)\<lparr>tasks := [Checking [7]]\<rparr>)"
    using reachable.step[OF reachable.init pool_step.checkout[of _ _ "[7]"]] by (simp add: new_pool_def)
  then have "reachable fifo_notify (for_redundancy_n 2) (checkout_pass 0 [7] ((new_pool fifo_notify (for_redundancy_n 2) :: (_, nat) Pool)\<lparr>tasks := [Checking [7]]\<rparr>))"
    by (rule reachable.step) (rule pool_step.pass, simp_all)
  from pool_within_limit[OF fifo_notify_laws this] show ?thesis by (simp add: for_redundancy_n_def for_redundancy_n_and_concurrency_def)
qed

text \<open>
  C31: No checkout waits for ever by itself: whenever a task waits for a notification, some other task is
  about to look at the pool, or dials, or holds a connection, and every way such a task gives its
  connection up, recycling or not, wakes the task that has waited longest.
\<close>

theorem waiting_task_is_woken:
  assumes "reachable N config p" and "w # ws = waiters N p" and N: "notify_laws N"
  shows "(\<exists>j < length (tasks p). active (tasks p ! j)) \<and> w < length (tasks p) \<and> is_waiting (tasks p ! w) \<and>
    (\<forall>i node conn r keep. i < length (tasks p) \<longrightarrow> tasks p ! i = Holding node conn r \<longrightarrow>
       (\<exists>n. tasks (held_drop N node conn r keep (set_task i Finished p)) ! w = Woken n)) \<and>
    (\<forall>i node. i < length (tasks p) \<longrightarrow> tasks p ! i = Dialing node \<longrightarrow>
       (\<exists>n. tasks (slot_drop N (set_task i Finished p)) ! w = Woken n))"
proof -
  have inv: "queued N p" "wakeable N p" using reachable_inv[OF assms(1) N] by (simp_all add: pool_inv_def)
  have q: "\<forall>j. j \<in> set (waiters N p) \<longleftrightarrow> j < length (tasks p) \<and> is_waiting (tasks p ! j)" "permit N p \<longrightarrow> waiters N p = []"
    using inv(1) by (simp_all add: queued_def)
  have w: "w < length (tasks p)" "is_waiting (tasks p ! w)" using q(1)[rule_format, of w] assms(2)[symmetric] by simp_all
  obtain n where n: "tasks p ! w = Waiting n" using w(2) by (cases "tasks p ! w") auto
  have "\<not> permit N p" using q(2) assms(2) by auto
  then have a: "\<exists>j < length (tasks p). active (tasks p ! j)" using inv(2) w(1) n unfolding wakeable_def by (metis blocked.simps(1))
  have wk: "tasks (notify_one N ((set_task i Finished p)\<lparr>pool_inner := g\<rparr>)) ! w = Woken n" if "i \<noteq> w" for i g
    using notify_one_wakes[OF N, of "(set_task i Finished p)\<lparr>pool_inner := g\<rparr>" w ws] assms(2)[symmetric] w(1) n that by force
  have "i \<noteq> w" if "tasks p ! i = Holding node conn r \<or> tasks p ! i = Dialing node" for i node conn r using that n by auto
  then show ?thesis using a w wk by (fastforce simp: held_drop_def pooled_drop_def slot_drop_def)
qed

section \<open>Two executions\<close>

text \<open>
  \<open>reaches2 N ts n pm ws\<close>: a pool of two connections reaches a state with these tasks, counter, permit and queue,
  and no idle connection.
\<close>

definition at2 :: "'n Notify \<Rightarrow> ('n, nat) Pool \<Rightarrow> nat Task list \<Rightarrow> nat \<Rightarrow> bool \<Rightarrow> nat list \<Rightarrow> bool" where
  "at2 N p ts n pm ws \<longleftrightarrow> pool_max p = 2 \<and> pool_inner p = \<lparr>idle = [], idle_count = 0, in_use = n, idle_timeout = 300\<rparr> \<and>
     permit N p = pm \<and> waiters N p = ws \<and> tasks p = ts \<and> clock p = 0"

definition reaches2 :: "'n Notify \<Rightarrow> nat Task list \<Rightarrow> nat \<Rightarrow> bool \<Rightarrow> nat list \<Rightarrow> bool" where
  "reaches2 N ts n pm ws \<longleftrightarrow> (\<exists>p. reachable N (for_redundancy_n 2) p \<and> at2 N p ts n pm ws)"

lemma reaches2_step:
  assumes "reaches2 N ts n pm ws" and "\<And>p. at2 N p ts n pm ws \<Longrightarrow> \<exists>p'. pool_step N p p' \<and> at2 N p' ts' n' pm' ws'"
  shows "reaches2 N ts' n' pm' ws'"
  using assms unfolding reaches2_def by (meson reachable.step)

lemma reaches2_init:
  assumes "notify_laws N"
  shows "reaches2 N [] 0 False []"
proof -
  have "max_connections (for_redundancy_n 2) = 2" "config_idle_timeout (for_redundancy_n 2) = 300"
    by (simp_all add: for_redundancy_n_def for_redundancy_n_and_concurrency_def max_def min_def)
  moreover have "\<not> permit_of N (notify_new N)" "waiters_of N (notify_new N) = []"
    using assms unfolding notify_laws_def by blast+
  ultimately have "at2 N (new_pool N (for_redundancy_n 2)) [] 0 False []" by (simp add: at2_def new_pool_def)
  then show ?thesis unfolding reaches2_def using reachable.init by blast
qed

lemma reaches2_checkout:
  assumes "reaches2 N ts n pm ws"
  shows "reaches2 N (ts @ [Checking node]) n pm ws"
  using assms by (rule reaches2_step) (rule exI, rule conjI, rule pool_step.checkout, simp add: at2_def)

lemma reaches2_dials:
  assumes "reaches2 N ts n pm ws" "i < length ts" "ts ! i = Checking node" "n < 2"
  shows "reaches2 N (ts[i := Dialing node]) (n + 1) pm ws"
proof (rule reaches2_step[OF assms(1)])
  fix p assume p: "at2 N p ts n pm ws"
  then have "pool_step N p (checkout_pass i node p)" using assms(2,3) by (intro pool_step.pass) (simp_all add: at2_def)
  moreover have "at2 N (checkout_pass i node p) (ts[i := Dialing node]) (n + 1) pm ws"
    using p assms(2-) by (auto simp: at2_def checkout_pass_def checkout_action_def pop_idle_def evict_one_idle_def)
  ultimately show "\<exists>p'. pool_step N p p' \<and> at2 N p' (ts[i := Dialing node]) (n + 1) pm ws" by blast
qed

lemma reaches2_is_full:
  assumes "reaches2 N ts 2 pm ws" "i < length ts" "ts ! i = Checking node"
  shows "reaches2 N (ts[i := Parking node]) 2 pm ws"
proof (rule reaches2_step[OF assms(1)])
  fix p assume p: "at2 N p ts 2 pm ws"
  then have "pool_step N p (checkout_pass i node p)" using assms(2,3) by (intro pool_step.pass) (simp_all add: at2_def)
  moreover have "at2 N (checkout_pass i node p) (ts[i := Parking node]) 2 pm ws"
    using p assms(2-) by (auto simp: at2_def checkout_pass_def checkout_action_def pop_idle_def evict_one_idle_def)
  ultimately show "\<exists>p'. pool_step N p p' \<and> at2 N p' (ts[i := Parking node]) 2 pm ws" by blast
qed

lemma reaches2_dialled:
  assumes "reaches2 N ts n pm ws" "i < length ts" "ts ! i = Dialing node"
  shows "reaches2 N (ts[i := Holding node c True]) n pm ws"
proof (rule reaches2_step[OF assms(1)])
  fix p assume "at2 N p ts n pm ws"
  then have "pool_step N p (set_task i (Holding node c True) p)" "at2 N (set_task i (Holding node c True) p) (ts[i := Holding node c True]) n pm ws"
    using assms(2,3) by (auto simp: at2_def intro: pool_step.dialled)
  then show "\<exists>p'. pool_step N p p' \<and> at2 N p' (ts[i := Holding node c True]) n pm ws" by blast
qed

lemma reaches2_dropped:
  assumes "notify_laws N" "reaches2 N ts n pm []" "i < length ts" "ts ! i = Holding node c r"
  shows "reaches2 N (ts[i := Finished]) (n - 1) True []"
proof (rule reaches2_step[OF assms(2)])
  fix p assume p: "at2 N p ts n pm []"
  let ?q = "(set_task i Finished p)\<lparr>pool_inner := (pool_inner p)\<lparr>in_use := in_use (pool_inner p) - 1\<rparr>\<rparr>"
  have "waiters N ?q = []" using p by (simp add: at2_def)
  then obtain n' where "notify_one N ?q = ?q\<lparr>notify := n'\<rparr>" "permit_of N n'" "waiters_of N n' = []"
    using notify_one_idle[OF assms(1)] by blast
  then have "at2 N (held_drop N node c r False (set_task i Finished p)) (ts[i := Finished]) (n - 1) True []"
    using p by (simp add: at2_def held_drop_def pooled_drop_def)
  moreover have "pool_step N p (held_drop N node c r False (set_task i Finished p))"
    using p assms(3,4) by (intro pool_step.drop_held) (simp_all add: at2_def)
  ultimately show "\<exists>p'. pool_step N p p' \<and> at2 N p' (ts[i := Finished]) (n - 1) True []" by blast
qed

lemma reaches2_parks:
  assumes "notify_laws N" "reaches2 N ts n pm ws" "i < length ts" "ts ! i = Parking node"
  shows "reaches2 N (ts[i := (if pm then Woken node else Waiting node)]) n False (if pm then ws else ws @ [i])"
proof (rule reaches2_step[OF assms(2)])
  fix p assume p: "at2 N p ts n pm ws"
  then have "permit N p = pm" "waiters N p = ws" by (simp_all add: at2_def)
  then obtain n' where "park N i node p = set_task i (if pm then Woken node else Waiting node) (p\<lparr>notify := n'\<rparr>)"
      "\<not> permit_of N n'" "waiters_of N n' = (if pm then ws else ws @ [i])"
    using park_takes_permit[OF assms(1), of p i node] park_waits[OF assms(1), of p i node] by (cases pm) metis+
  then have "at2 N (park N i node p) (ts[i := (if pm then Woken node else Waiting node)]) n False (if pm then ws else ws @ [i])"
    using p by (simp add: at2_def)
  moreover have "pool_step N p (park N i node p)" using p assms(3,4) by (intro pool_step.park) (simp_all add: at2_def)
  ultimately show "\<exists>p'. pool_step N p p' \<and> at2 N p' (ts[i := (if pm then Woken node else Waiting node)]) n False (if pm then ws else ws @ [i])"
    by blast
qed

lemma lost_wakeup_reachable:
  assumes "notify_laws N"
  shows "reaches2 N [Finished, Finished, Woken [3], Waiting [4]] 0 False [3]"
proof -
  note N = assms
  have "reaches2 N [Checking [1], Checking [2], Checking [3], Checking [4]] 0 False []"
    using reaches2_checkout[OF reaches2_checkout[OF reaches2_checkout[OF reaches2_checkout[OF reaches2_init[OF N]]]]]
    by fastforce
  from reaches2_dials[OF this, of 0] have "reaches2 N [Dialing [1], Checking [2], Checking [3], Checking [4]] 1 False []" by simp
  from reaches2_dials[OF this, of 1] have "reaches2 N [Dialing [1], Dialing [2], Checking [3], Checking [4]] 2 False []"
    by (simp add: numeral_2_eq_2)
  from reaches2_dialled[OF this, of 0 "[1]" 11] have "reaches2 N [Holding [1] 11 True, Dialing [2], Checking [3], Checking [4]] 2 False []" by simp
  from reaches2_dialled[OF this, of 1 "[2]" 12]
  have "reaches2 N [Holding [1] 11 True, Holding [2] 12 True, Checking [3], Checking [4]] 2 False []" by simp
  from reaches2_is_full[OF this, of 2]
  have "reaches2 N [Holding [1] 11 True, Holding [2] 12 True, Parking [3], Checking [4]] 2 False []" by simp
  from reaches2_is_full[OF this, of 3]
  have "reaches2 N [Holding [1] 11 True, Holding [2] 12 True, Parking [3], Parking [4]] 2 False []" by simp
  from reaches2_dropped[OF N this, of 0] have "reaches2 N [Finished, Holding [2] 12 True, Parking [3], Parking [4]] 1 True []" by simp
  from reaches2_dropped[OF N this, of 1] have "reaches2 N [Finished, Finished, Parking [3], Parking [4]] 0 True []" by simp
  from reaches2_parks[OF N this, of 2] have "reaches2 N [Finished, Finished, Woken [3], Parking [4]] 0 False []" by simp
  from reaches2_parks[OF N this, of 3] show ?thesis by simp
qed

theorem waiting_task_is_woken_witness:
  "\<exists>p :: (bool \<times> nat list, nat) Pool. waiters fifo_notify p = [3] \<and> (\<exists>j < length (tasks p). active (tasks p ! j))"
proof -
  obtain p :: "(bool \<times> nat list, nat) Pool" where p: "reachable fifo_notify (for_redundancy_n 2) p" "waiters fifo_notify p = [3]"
    using lost_wakeup_reachable[OF fifo_notify_laws] by (auto simp: reaches2_def at2_def)
  from waiting_task_is_woken[OF p(1) p(2)[symmetric] fifo_notify_laws] show ?thesis using p(2) by blast
qed

lemma reaches2_retries:
  assumes "reaches2 N ts n pm ws" "i < length ts" "ts ! i = Woken node"
  shows "reaches2 N (ts[i := Checking node]) n pm ws"
proof (rule reaches2_step[OF assms(1)])
  fix p assume "at2 N p ts n pm ws"
  then have "pool_step N p (set_task i (Checking node) p)" "at2 N (set_task i (Checking node) p) (ts[i := Checking node]) n pm ws"
    using assms(2,3) by (auto simp: at2_def intro: pool_step.retry)
  then show "\<exists>p'. pool_step N p p' \<and> at2 N p' (ts[i := Checking node]) n pm ws" by blast
qed

lemma unused_slot_reachable:
  assumes "notify_laws N"
  shows "reaches2 N [Finished, Finished, Holding [3] 13 True, Waiting [4]] 1 False [3]"
proof -
  from reaches2_retries[OF lost_wakeup_reachable[OF assms], of 2]
  have "reaches2 N [Finished, Finished, Checking [3], Waiting [4]] 0 False [3]" by simp
  from reaches2_dials[OF this, of 2] have "reaches2 N [Finished, Finished, Dialing [3], Waiting [4]] 1 False [3]" by simp
  from reaches2_dialled[OF this, of 2 "[3]" 13] show ?thesis by simp
qed

text \<open>Who could still take a free slot without being woken first.\<close>

fun on_the_way :: "'c Task \<Rightarrow> bool" where
  "on_the_way (Checking _) \<longleftrightarrow> True"
| "on_the_way (Parking _) \<longleftrightarrow> True"
| "on_the_way (Woken _) \<longleftrightarrow> True"
| "on_the_way _ \<longleftrightarrow> False"

text \<open>
  C40: A release can fail to wake a waiting task.  With room for two connections, two tasks can leave
  the critical section with the answer to wait, both holders can release before either of them awaits the
  notification, and the second release finds the permit of the first still stored, so that the two releases wake one task.
  This leads to a state in which a slot is free and a task waits for one, while no notification is stored and no other task is on its way to the
  slot: every other task has finished or holds the other connection.  Whatever happens next, the task keeps waiting
  unless it is cancelled or the holder of the other connection drops it.
\<close>

theorem wakeup_can_be_lost:
  assumes "notify_laws N"
  shows "\<exists>p :: ('n, nat) Pool. reachable N (for_redundancy_n 2) p \<and> pool_max p = 2 \<and> in_use (pool_inner p) = 1 \<and> idle_count (pool_inner p) = 0 \<and>
     waiters N p = [3] \<and> tasks p ! 3 = Waiting [4] \<and> \<not> permit N p \<and> \<not> list_ex on_the_way (tasks p) \<and>
     (\<forall>p'. pool_step N p p' \<longrightarrow> tasks p' ! 3 = Waiting [4] \<or> tasks p' ! 3 = Finished \<or> tasks p' ! 2 = Finished)"
proof -
  obtain p :: "('n, nat) Pool" where r: "reachable N (for_redundancy_n 2) p"
    and p: "at2 N p [Finished, Finished, Holding [3] 13 True, Waiting [4]] 1 False [3]"
    using unused_slot_reachable[OF assms] unfolding reaches2_def by blast
  have t: "tasks p = [Finished, Finished, Holding [3] 13 True, Waiting [4]]" using p by (simp add: at2_def)
  have held: "i = 2" if "i < length (tasks p)" "tasks p ! i = Holding node conn b" for i node conn b
    using that by (auto simp: t numeral_eq_Suc less_Suc_eq)
  have none: False if "i < length (tasks p)" "on_the_way (tasks p ! i) \<or> (\<exists>node. tasks p ! i = Dialing node)" for i
    using that by (auto simp: t numeral_eq_Suc less_Suc_eq)
  have gone: "tasks (pooled_drop N node conn b (set_task 2 Finished p)) ! 2 = Finished" for node conn b
  proof -
    have "ts[k := wake (ts ! k)] ! 2 = Finished" if "ts ! 2 = Finished" "2 < length ts" for ts :: "nat Task list" and k
      using that by (cases "k = 2") auto
    then have "tasks (notify_one N (q\<lparr>pool_inner := g\<rparr>)) ! 2 = Finished" if "tasks q ! 2 = Finished" "2 < length (tasks q)" for q :: "('n, nat) Pool" and g
      using that by (auto simp: notify_one_def split: prod.splits option.splits)
    from this[of "set_task 2 Finished p"] show ?thesis by (simp add: pooled_drop_def t)
  qed
  have "tasks p' ! 3 = Waiting [4] \<or> tasks p' ! 3 = Finished \<or> tasks p' ! 2 = Finished" if "pool_step N p p'" for p'
    using that
  proof cases
    case (drop_pooled i node conn b)
    then show ?thesis using held gone by metis
  next
    case (drop_held i node conn b keep)
    then show ?thesis using held gone by (metis held_drop_def)
  next
    case (skip_recycle i node conn b)
    then show ?thesis using held[OF skip_recycle(2,3)] by (simp add: t)
  next
    case (cancel_waiting i node)
    then have "i = 3" by (auto simp: t numeral_eq_Suc less_Suc_eq)
    then show ?thesis using cancel_waiting(1) by (simp add: t)
  qed (use none in \<open>force simp: t\<close>)+
  then show ?thesis using r p by (intro exI[of _ p]) (auto simp: at2_def)
qed

theorem wakeup_can_be_lost_witness:
  "\<exists>p :: (bool \<times> nat list, nat) Pool. reachable fifo_notify (for_redundancy_n 2) p \<and> waiters fifo_notify p = [3] \<and>
     in_use (pool_inner p) < pool_max p \<and> \<not> permit fifo_notify p \<and> \<not> list_ex on_the_way (tasks p)"
proof -
  from wakeup_can_be_lost[OF fifo_notify_laws] obtain p :: "(bool \<times> nat list, nat) Pool" where
    "reachable fifo_notify (for_redundancy_n 2) p" "pool_max p = 2" "in_use (pool_inner p) = 1" "waiters fifo_notify p = [3]"
    "\<not> permit fifo_notify p" "\<not> list_ex on_the_way (tasks p)" by blast
  then show ?thesis by (intro exI[of _ p]) simp
qed

text \<open>
  \<open>pop_idle\<close> takes the connection that was returned first among those that are still usable, and drops
  the stale ones in front of it.
\<close>

lemma pop_loop_takes_oldest:
  "pop_loop now timeout slot n = (Some c, slot', n') \<Longrightarrow>
   \<exists>stale since. slot = stale @ (since, c) # slot' \<and> now - since < timeout \<and> (\<forall>(s, _) \<in> set stale. \<not> now - s < timeout)"
proof (induction now timeout slot n rule: pop_loop.induct)
  case (2 now timeout since conn slot n)
  show ?case
  proof (cases "now - since < timeout")
    case True
    then show ?thesis using 2(2) by (intro exI[of _ "[]"]) auto
  next
    case False
    then obtain stale s where "slot = stale @ (s, c) # slot'" "now - s < timeout" "\<forall>(s, _) \<in> set stale. \<not> now - s < timeout"
      using 2 by auto
    then show ?thesis using False by (intro exI[of _ "(since, conn) # stale"]) auto
  qed
qed simp

lemma pop_idle_takes_oldest:
  "fst (pop_idle 20 (push_idle 10 (push_idle 0 \<lparr>idle = [], idle_count = 0, in_use = 0, idle_timeout = 300\<rparr> [1] 1) [1] 2) [1]) = Some (1 :: nat)"
  by (simp add: pop_idle_def push_idle_def)

end
