(* ===== verification/Segment_Upload.thy ===== *)
theory Segment_Upload
  imports Orders "HOL-Library.AList" "HOL-Library.Sublist" "HOL-Library.Multiset"
begin

text \<open>
  The long-tail upload of a remote segment, \<open>crates/storj-uplink/src/segment.rs\<close>: the cohort
  requirements, one round of concurrent piece uploads, and the loop that retries failed pieces with new
  order limits.  What the network does is an argument: \<open>results k pending\<close> are the results of the tasks
  of round \<open>k\<close> in the order in which they complete (the tasks that run after the abort included), and
  \<open>retry k\<close> is the answer of the satellite to the \<open>k\<close>-th \<open>RetryBeginSegmentPieces\<close>.  A \<open>HashMap\<close> is an
  association list whose order stands for its iteration order.
\<close>

section \<open>The code\<close>

text \<open>
  \<open>ThresholdError\<close> is the protocol error at the end of the loop, with the values its message formats: the number
  of successes, the scheme's \<open>o\<close> and the recent piece errors.
\<close>

datatype UploadError = ProtocolError string | ThresholdError nat nat "(int \<times> string) list"

subsection \<open>Piece assignments\<close>

type_synonym Tags = "(bytes \<times> bytes) list"

record AddressedOrderLimit =
  al_limit :: "OrderLimit option"
  al_address :: "NodeAddress option"
  al_tags :: Tags

record PieceAssignment =
  piece_num :: int
  asg_limit :: OrderLimit
  asg_address :: bytes
  asg_node_id :: bytes
  asg_noise_info :: "(int \<times> bytes) option"
  asg_fast_open :: bool
  asg_tags :: Tags

definition node_id_from_bytes :: "bytes \<Rightarrow> UploadError + bytes" where
  "node_id_from_bytes b = (if length b = 32 then Inr b else Inl (ProtocolError ''storage node id is not 32 bytes''))"

definition from_addressed :: "nat \<Rightarrow> AddressedOrderLimit \<Rightarrow> UploadError + PieceAssignment" where
  "from_addressed idx addressed =
    try_bind (ok_or (ProtocolError ''addressed order limit missing limit'') (al_limit addressed)) (\<lambda>limit.
    try_bind (ok_or (ProtocolError ''addressed order limit missing node address'')
        (Option.bind (al_address addressed) (\<lambda>a. if na_address a \<noteq> [] then Some (na_address a) else None))) (\<lambda>address.
    try_bind (node_id_from_bytes (ol_storage_node_id limit)) (\<lambda>node_id.
      Inr \<lparr>piece_num = min (int idx) (2 ^ 31 - 1), asg_limit = limit, asg_address = address, asg_node_id = node_id,
           asg_noise_info = Option.bind (al_address addressed) na_noise_info,
           asg_fast_open = (case al_address addressed of Some a \<Rightarrow> na_debounce_limit a \<ge> 2 \<and> na_features a AND 1 \<noteq> 0 | None \<Rightarrow> False),
           asg_tags = al_tags addressed\<rparr>)))"

subsection \<open>Cohort requirements\<close>

text \<open>The message with its \<open>oneof\<close>: \<open>Unset\<close> is a requirement message without a value.\<close>

datatype Cohort = Unset | Literal int | And "Cohort list" | Withhold bytes int "Cohort option"

fun cohort_need :: "Cohort \<Rightarrow> int \<Rightarrow> int" where
  "cohort_need Unset default_o = default_o"
| "cohort_need (Literal v) default_o = (if v > 0 then v else default_o)"
| "cohort_need (And rs) default_o =
    (case map (\<lambda>r. cohort_need r default_o) rs of [] \<Rightarrow> default_o | x # xs \<Rightarrow> fold max xs x)"
| "cohort_need (Withhold k amount child) default_o =
    (let child = (case map_option (\<lambda>c. cohort_need c default_o) child of Some x \<Rightarrow> x | None \<Rightarrow> default_o)
     in min (child + max amount 0) (2 ^ 31 - 1))"

definition cohort_needed :: "Cohort option \<Rightarrow> int \<Rightarrow> int" where
  "cohort_needed req default_o = (case req of None \<Rightarrow> default_o | Some r \<Rightarrow> cohort_need r default_o)"

definition tag_value :: "bytes \<Rightarrow> Tags \<Rightarrow> bytes" where
  "tag_value k t = (case map_of t k of Some v \<Rightarrow> v | None \<Rightarrow> [])"

definition count_tags :: "bytes \<Rightarrow> Tags list \<Rightarrow> (bytes \<times> nat) list" where
  "count_tags k tags =
    fold (\<lambda>t counts. let v = tag_value k t in AList.update v ((case map_of counts v of Some n \<Rightarrow> n | None \<Rightarrow> 0) + 1) counts) tags []"

text \<open>The entry with the least count, the first of them if there are several.\<close>

fun min_entry :: "(bytes \<times> nat) list \<Rightarrow> (bytes \<times> nat) option" where
  "min_entry [] = None"
| "min_entry ((k, c) # rest) =
    (case min_entry rest of None \<Rightarrow> Some (k, c) | Some (k', c') \<Rightarrow> if c' < c then Some (k', c') else Some (k, c))"

definition topn_step :: "nat \<Rightarrow> bytes \<times> nat \<Rightarrow> (bytes \<times> nat) list \<Rightarrow> (bytes \<times> nat) list" where
  "topn_step amount vc topn =
    (let (v, count) = vc in
     if v = [] then topn
     else if length topn < amount then AList.update v count topn
     else case min_entry topn of
            Some (old, c) \<Rightarrow> if count > c then AList.update v count (AList.delete old topn) else topn
          | None \<Rightarrow> topn)"

definition withhold_tags :: "bytes \<Rightarrow> int \<Rightarrow> Tags list \<Rightarrow> Tags list" where
  "withhold_tags k amount tags =
    (if amount \<le> 0 then tags
     else let topn = fold (topn_step (nat amount)) (count_tags k tags) []
          in filter (\<lambda>t. map_of topn (tag_value k t) = None) tags)"

text \<open>The length is cast to a signed 32-bit integer, as in the source.\<close>

fun cohort_valid :: "Cohort \<Rightarrow> Tags list \<Rightarrow> bool" where
  "cohort_valid Unset tags = True"
| "cohort_valid (Literal v) tags = (sint (of_nat (length tags) :: u32) \<ge> v)"
| "cohort_valid (And rs) tags = list_all (\<lambda>r. cohort_valid r tags) rs"
| "cohort_valid (Withhold k amount child) tags =
    (case child of Some c \<Rightarrow> cohort_valid c (withhold_tags k amount tags) | None \<Rightarrow> True)"

definition cohort_satisfied :: "Cohort option \<Rightarrow> Tags list \<Rightarrow> bool" where
  "cohort_satisfied req tags = (case req of None \<Rightarrow> True | Some r \<Rightarrow> cohort_valid r tags)"

subsection \<open>One round\<close>

record PieceResult =
  pr_num :: int
  pr_node_id :: bytes
  pr_hash :: "PieceHash option"

datatype JoinOutcome = Uploaded PieceResult | Failed int string | Cancelled | JoinError

record LongTailUpload =
  assignments :: "PieceAssignment list"
  segment_id :: bytes
  optimal :: nat
  cohort :: "Cohort option"

definition success_tags :: "LongTailUpload \<Rightarrow> PieceResult list \<Rightarrow> Tags list" where
  "success_tags job successes =
    List.map_filter (\<lambda>s. map_option asg_tags (find (\<lambda>a. piece_num a = pr_num s) (assignments job))) successes"

definition requirements_met :: "LongTailUpload \<Rightarrow> PieceResult list \<Rightarrow> bool" where
  "requirements_met job successes =
    (let tags = success_tags job successes
     in case cohort job of None \<Rightarrow> length tags \<ge> optimal job | Some req \<Rightarrow> cohort_valid req tags)"

fun uploaded :: "JoinOutcome list \<Rightarrow> PieceResult list" where
  "uploaded [] = []"
| "uploaded (Uploaded r # rest) = r # uploaded rest"
| "uploaded (_ # rest) = uploaded rest"

fun round_loop :: "LongTailUpload \<Rightarrow> PieceResult list \<Rightarrow> JoinOutcome list \<Rightarrow> PieceResult list \<Rightarrow> int list \<Rightarrow> (int \<times> string) list \<Rightarrow>
    UploadError + (PieceResult list \<times> int list \<times> (int \<times> string) list)" where
  "round_loop job already [] successes failed errors = Inr (successes, failed, errors)"
| "round_loop job already (Uploaded result # rest) successes failed errors =
    (let successes = successes @ [result]
     in if requirements_met job (already @ successes) then Inr (successes @ uploaded rest, failed, errors)
        else round_loop job already rest successes failed errors)"
| "round_loop job already (Failed num err # rest) successes failed errors =
    round_loop job already rest successes (failed @ [num]) (errors @ [(num, err)])"
| "round_loop job already (Cancelled # rest) successes failed errors = round_loop job already rest successes failed errors"
| "round_loop job already (JoinError # rest) successes failed errors = Inl (ProtocolError ''piece upload join'')"

definition upload_round where
  "upload_round job outs already = round_loop job already outs [] [] []"

subsection \<open>The retry loop\<close>

definition MAX_KEPT_PIECE_ERRORS :: nat where "MAX_KEPT_PIECE_ERRORS = 5"

fun replace_first :: "('a \<Rightarrow> bool) \<Rightarrow> 'a \<Rightarrow> 'a list \<Rightarrow> 'a list" where
  "replace_first P y [] = [y]"
| "replace_first P y (x # xs) = (if P x then y # xs else x # replace_first P y xs)"

definition replace_limit :: "AddressedOrderLimit list \<Rightarrow> int \<Rightarrow> PieceAssignment list \<Rightarrow> UploadError + PieceAssignment list" where
  "replace_limit new_limits num asgs =
    (if num < 0 then Inl (ProtocolError ''negative piece number in retry'')
     else let idx = nat num
     in if idx < length new_limits \<and> al_limit (new_limits ! idx) \<noteq> None then
          try_bind (from_addressed idx (new_limits ! idx)) (\<lambda>a.
            Inr (replace_first (\<lambda>x. piece_num x = num) (a\<lparr>piece_num := num\<rparr>) asgs))
        else Inr (filter (\<lambda>x. piece_num x \<noteq> num) asgs))"

type_synonym Outcomes = "nat \<Rightarrow> PieceAssignment list \<Rightarrow> JoinOutcome list"
type_synonym Retry = "nat \<Rightarrow> bytes \<Rightarrow> int list \<Rightarrow> UploadError + (bytes \<times> AddressedOrderLimit list)"

function long_tail_loop :: "Outcomes \<Rightarrow> Retry \<Rightarrow> LongTailUpload \<Rightarrow> PieceResult list \<Rightarrow> nat \<Rightarrow> (int \<times> string) list \<Rightarrow>
    UploadError + (LongTailUpload \<times> PieceResult list \<times> nat \<times> (int \<times> string) list)" where
  "long_tail_loop results retry job successes attempts last_errors =
    (if requirements_met job successes \<or> attempts \<ge> 4 then Inr (job, successes, attempts, last_errors)
     else
       let attempts = attempts + 1;
           pending = filter (\<lambda>a. piece_num a \<notin> set (map pr_num successes)) (assignments job)
       in if pending = [] then Inr (job, successes, attempts, last_errors)
       else case upload_round job (results attempts pending) successes of
         Inl e \<Rightarrow> Inl e
       | Inr (round_ok, failed_nums, errors) \<Rightarrow>
         (let successes = successes @ round_ok;
              last_errors = last_errors @ errors;
              last_errors = (if length last_errors > MAX_KEPT_PIECE_ERRORS
                then drop (length last_errors - MAX_KEPT_PIECE_ERRORS) last_errors else last_errors)
          in if requirements_met job successes then Inr (job, successes, attempts, last_errors)
          else if failed_nums = [] then Inr (job, successes, attempts, last_errors)
          else case retry attempts (segment_id job) failed_nums of
            Inl e \<Rightarrow> Inl e
          | Inr (new_id, new_limits) \<Rightarrow>
            (case fold_result (replace_limit new_limits) failed_nums (assignments job) of
               Inl e \<Rightarrow> Inl e
             | Inr asgs \<Rightarrow>
               long_tail_loop results retry (job\<lparr>segment_id := new_id, assignments := asgs\<rparr>) successes attempts last_errors)))"
  by pat_completeness auto
termination
  by (relation "measure (\<lambda>(_, _, _, _, attempts, _). 4 - attempts)") auto

declare long_tail_loop.simps [simp del]

fun dedup_by_key :: "PieceResult list \<Rightarrow> PieceResult list" where
  "dedup_by_key [] = []"
| "dedup_by_key [x] = [x]"
| "dedup_by_key (x # y # rest) = (if pr_num y = pr_num x then dedup_by_key (x # rest) else x # dedup_by_key (y # rest))"

definition upload_pieces_long_tail :: "Outcomes \<Rightarrow> Retry \<Rightarrow> LongTailUpload \<Rightarrow> UploadError + (bytes \<times> PieceResult list)" where
  "upload_pieces_long_tail results retry job =
    try_bind (long_tail_loop results retry job [] 0 []) (\<lambda>(job, successes, _, last_errors).
      if \<not> requirements_met job successes then Inl (ThresholdError (length successes) (optimal job) last_errors)
      else Inr (segment_id job, dedup_by_key (sort_key pr_num successes)))"

section \<open>Cohorts\<close>

text \<open>
  \<open>cohort_needed\<close> is documented as the lower bound on the successful pieces of a cohort.  A withholding
  requirement only discounts pieces that carry a non-empty value of its tag, so three untagged pieces
  satisfy ``withhold two values, then three pieces'', for which the bound is five.
\<close>

lemma cohort_needed_not_lower_bound:
  "let r = Withhold [116] 2 (Some (Literal 3)); tags = replicate 3 []
   in cohort_satisfied (Some r) tags \<and> int (length tags) < cohort_needed (Some r) 80"
  by code_simp

lemma topn_step_untagged: "map_of topn [] = None \<Longrightarrow> map_of (topn_step n vc topn) [] = None"
  by (auto simp: topn_step_def AList.update_conv' AList.delete_conv' Let_def split: prod.splits option.splits)

lemma topn_untagged: "map_of topn [] = None \<Longrightarrow> map_of (fold (topn_step n) counts topn) [] = None"
  by (induction counts arbitrary: topn) (auto intro: topn_step_untagged)

text \<open>Withholding keeps every piece without a value of the tag.\<close>

lemma withhold_tags_untagged:
  "filter (\<lambda>t. tag_value k t = []) (withhold_tags k amount tags) = filter (\<lambda>t. tag_value k t = []) tags"
  using topn_untagged [of "[]"] by (auto simp: withhold_tags_def Let_def intro!: filter_cong)

section \<open>What the upload returns\<close>

lemma dedup_set: "set (map pr_num (dedup_by_key xs)) = set (map pr_num xs) \<and> set (dedup_by_key xs) \<subseteq> set xs"
  by (induction xs rule: dedup_by_key.induct) auto

lemma dedup_hd: "xs \<noteq> [] \<Longrightarrow> \<exists>ys. dedup_by_key xs = hd xs # ys"
  by (induction xs rule: dedup_by_key.induct) auto

lemma dedup_strict: "sorted (map pr_num xs) \<Longrightarrow> sorted_wrt (<) (map pr_num (dedup_by_key xs))"
proof (induction xs rule: dedup_by_key.induct)
  case (3 x y rest)
  show ?case
  proof (cases "pr_num y = pr_num x")
    case True
    then show ?thesis using 3 by simp
  next
    case False
    then have "sorted_wrt (<) (map pr_num (dedup_by_key (y # rest)))" using 3 by simp
    moreover have "pr_num x < pr_num z" if "z \<in> set (dedup_by_key (y # rest))" for z
    proof -
      have "z \<in> set (y # rest)" using that dedup_set by blast
      then show ?thesis using 3(3) False by auto
    qed
    ultimately show ?thesis using False by auto
  qed
qed auto

lemma dedup_distinct: "distinct (map pr_num xs) \<Longrightarrow> dedup_by_key xs = xs"
  by (induction xs rule: dedup_by_key.induct) auto

lemma round_loop_successes:
  "round_loop job already outs s f e = Inr (s', f', e') \<Longrightarrow> s' = s @ uploaded outs"
proof (induction job already outs s f e rule: round_loop.induct)
  case (2 job already result rest s f e)
  then show ?case by (auto split: if_splits)
qed auto

text \<open>
  What the tasks of a round guarantee: each task returns the number of its own piece, so the numbers of the
  successes are among those of the pending pieces, each as often as it is pending.
\<close>

definition honest_rounds :: "Outcomes \<Rightarrow> bool" where
  "honest_rounds results \<longleftrightarrow>
    (\<forall>k pending. mset (map pr_num (uploaded (results k pending))) \<subseteq># mset (map piece_num pending))"

lemma subset_mset_distinct:
  assumes "mset xs \<subseteq># mset ys" "distinct ys"
  shows "distinct xs" "set xs \<subseteq> set ys"
proof -
  obtain zs where "mset ys = mset (xs @ zs)"
    using assms(1) by (metis ex_mset mset_append subset_mset.add_diff_inverse)
  then have "distinct (xs @ zs)" "set ys = set (xs @ zs)"
    using assms(2) mset_eq_imp_distinct_iff mset_eq_setD by blast+
  then show "distinct xs" "set xs \<subseteq> set ys" by auto
qed

lemma replace_first_nums:
  "piece_num y = k \<Longrightarrow> map piece_num (replace_first (\<lambda>x. piece_num x = k) y xs) =
     (if k \<in> set (map piece_num xs) then map piece_num xs else map piece_num xs @ [k])"
  by (induction xs) auto

lemma replace_limit_distinct:
  "replace_limit limits num asgs = Inr asgs' \<Longrightarrow> distinct (map piece_num asgs) \<Longrightarrow> distinct (map piece_num asgs')"
  by (auto simp: replace_limit_def Let_def result_simps replace_first_nums distinct_map_filter split: if_splits)

lemma replace_limits_distinct:
  "fold_result (replace_limit limits) nums asgs = Inr asgs' \<Longrightarrow> distinct (map piece_num asgs) \<Longrightarrow>
   distinct (map piece_num asgs')"
  by (induction nums arbitrary: asgs) (auto simp: result_simps dest: replace_limit_distinct)

lemma uploaded_distinct_append:
  assumes "honest_rounds results" "distinct (map pr_num s)" "distinct (map piece_num asgs)"
    and "r = uploaded (results k (filter (\<lambda>a. piece_num a \<notin> set (map pr_num s)) asgs))"
  shows "distinct (map pr_num (s @ r))"
proof -
  let ?pending = "filter (\<lambda>a. piece_num a \<notin> set (map pr_num s)) asgs"
  have "mset (map pr_num r) \<subseteq># mset (map piece_num ?pending)"
    using assms(1) unfolding honest_rounds_def assms(4) by blast
  note sub = subset_mset_distinct [OF this distinct_map_filter [OF assms(3)]]
  have "set (map piece_num ?pending) \<inter> set (map pr_num s) = {}" by auto
  then have "set (map pr_num s) \<inter> set (map pr_num r) = {}" using sub(2) by blast
  then show ?thesis using sub(1) assms(2) by simp
qed

lemma long_tail_loop_inv:
  "long_tail_loop results retry job s n es = Inr (job', s', n', es') \<Longrightarrow> honest_rounds results \<Longrightarrow> n \<le> 4 \<Longrightarrow>
   distinct (map pr_num s) \<Longrightarrow> distinct (map piece_num (assignments job)) \<Longrightarrow> length es \<le> MAX_KEPT_PIECE_ERRORS \<Longrightarrow>
   n' \<le> 4 \<and> prefix s s' \<and> optimal job' = optimal job \<and> cohort job' = cohort job \<and> distinct (map pr_num s') \<and>
   length es' \<le> MAX_KEPT_PIECE_ERRORS"
proof (induction "4 - n" arbitrary: job s n es rule: less_induct)
  case less
  let ?pending = "filter (\<lambda>a. piece_num a \<notin> set (map pr_num s)) (assignments job)"
  show ?case
  proof (cases "requirements_met job s \<or> n \<ge> 4 \<or> ?pending = []")
    case True
    then show ?thesis using less.prems by (subst (asm) (1) long_tail_loop.simps) (auto simp: Let_def split: if_splits)
  next
    case False
    then have cond: "\<not> (requirements_met job s \<or> n \<ge> 4)" "?pending \<noteq> []" by auto
    obtain ok failed errors where round: "upload_round job (results (n + 1) ?pending) s = Inr (ok, failed, errors)"
      using less.prems(1) cond by (subst (asm) (1) long_tail_loop.simps) (auto simp: Let_def split: sum.splits)
    then have ok: "ok = uploaded (results (n + 1) ?pending)"
      unfolding upload_round_def using round_loop_successes by fastforce
    have dist: "distinct (map pr_num (s @ ok))"
      by (rule uploaded_distinct_append [OF less.prems(2,4,5) ok])
    define es2 where "es2 = (if length (es @ errors) > MAX_KEPT_PIECE_ERRORS
      then drop (length (es @ errors) - MAX_KEPT_PIECE_ERRORS) (es @ errors) else es @ errors)"
    have es2: "length es2 \<le> MAX_KEPT_PIECE_ERRORS" unfolding es2_def length_drop by (cases "length (es @ errors) > MAX_KEPT_PIECE_ERRORS") auto
    note step = less.prems(1) [unfolded long_tail_loop.simps [of results retry job s n es] Let_def if_not_P [OF cond(1)]
        if_not_P [OF cond(2)] round sum.case prod.case, folded es2_def]
    show ?thesis
    proof (cases "requirements_met job (s @ ok) \<or> failed = []")
      case True
      then show ?thesis using step dist es2 cond(1) by (auto split: if_splits)
    next
      case False
      then obtain new_id limits asgs where again: "retry (n + 1) (segment_id job) failed = Inr (new_id, limits)"
          "fold_result (replace_limit limits) failed (assignments job) = Inr asgs"
          "long_tail_loop results retry (job\<lparr>segment_id := new_id, assignments := asgs\<rparr>) (s @ ok) (n + 1) es2
            = Inr (job', s', n', es')"
        using step by (auto split: sum.splits prod.splits)
      have "4 - (n + 1) < 4 - n" "n + 1 \<le> 4" using cond(1) by auto
      then show ?thesis
        using less.hyps [OF _ again(3) less.prems(2) _ dist _ es2] replace_limits_distinct [OF again(2) less.prems(5)]
        by (auto simp: prefix_def)
    qed
  qed
qed

lemma success_tags_length: "length (success_tags job successes) \<le> length successes"
  by (induction successes) (auto simp: success_tags_def map_filter_simps split: option.splits)

lemma sort_key_strict:
  "distinct (map pr_num xs) \<Longrightarrow> dedup_by_key (sort_key pr_num xs) = sort_key pr_num xs"
  by (rule dedup_distinct) (simp add: distinct_map)

text \<open>The loop asks for no round and no new order limits after the fourth.\<close>

lemma long_tail_loop_rounds:
  assumes "\<forall>k. n < k \<and> k \<le> 4 \<longrightarrow> results' k = results k \<and> retry' k = retry k"
  shows "long_tail_loop results' retry' job s n es = long_tail_loop results retry job s n es"
  using assms
proof (induction "4 - n" arbitrary: job s n es rule: less_induct)
  case less
  show ?case
  proof (cases "n < 4")
    case False
    then show ?thesis by (simp add: long_tail_loop.simps[of _ _ job s n es])
  next
    case True
    then have now: "results' (n + 1) = results (n + 1)" "retry' (n + 1) = retry (n + 1)" using less.prems by auto
    have again: "long_tail_loop results' retry' job2 s2 (n + 1) es2 = long_tail_loop results retry job2 s2 (n + 1) es2" for job2 s2 es2
      using True less.prems by (intro less.hyps) auto
    show ?thesis unfolding long_tail_loop.simps[of _ _ job s n es] Let_def now again ..
  qed
qed

text \<open>
  C32: the long-tail upload always ends, and within four rounds: its outcome, success or error, depends on nothing that tasks or the satellite
  would answer in a later round.  When it succeeds, the requirements hold for the
  pieces it recorded, and the pieces it returns for \<open>CommitSegment\<close> are all of them (\<open>dedup_by_key\<close> drops none) in
  strictly increasing order of their numbers; when there is no cohort they are at least the \<open>o\<close> pieces of the scheme.
\<close>

theorem upload_meets_threshold:
  assumes "honest_rounds results" and "distinct (map piece_num (assignments job))"
  shows "(\<forall>results' retry'. (\<forall>k. 1 \<le> k \<and> k \<le> 4 \<longrightarrow> results' k = results k \<and> retry' k = retry k) \<longrightarrow>
      upload_pieces_long_tail results' retry' job = upload_pieces_long_tail results retry job) \<and>
    (\<forall>seg ps. upload_pieces_long_tail results retry job = Inr (seg, ps) \<longrightarrow>
      sorted_wrt (<) (map pr_num ps) \<and> (cohort job = None \<longrightarrow> optimal job \<le> length ps) \<and>
      (\<exists>job' successes n es. long_tail_loop results retry job [] 0 [] = Inr (job', successes, n, es) \<and> n \<le> 4 \<and>
         seg = segment_id job' \<and> cohort job' = cohort job \<and> requirements_met job' successes \<and> mset ps = mset successes))"
proof (intro conjI allI impI)
  fix results' retry'
  assume "\<forall>k. 1 \<le> k \<and> k \<le> 4 \<longrightarrow> results' k = results k \<and> retry' k = retry k"
  then show "upload_pieces_long_tail results' retry' job = upload_pieces_long_tail results retry job"
    unfolding upload_pieces_long_tail_def by (subst long_tail_loop_rounds[of 0 results' results retry' retry]) auto
next
  fix seg ps
  assume finished: "upload_pieces_long_tail results retry job = Inr (seg, ps)"
  obtain job' successes n es where
    run: "long_tail_loop results retry job [] 0 [] = Inr (job', successes, n, es)"
      and met: "requirements_met job' successes"
      and res: "seg = segment_id job'" "ps = dedup_by_key (sort_key pr_num successes)"
    using finished unfolding upload_pieces_long_tail_def
    by (auto simp: try_bind_def split: sum.splits if_splits)
  have inv: "n \<le> 4" "optimal job' = optimal job" "cohort job' = cohort job" "distinct (map pr_num successes)"
    using long_tail_loop_inv [OF run assms(1) _ _ assms(2)] by auto
  then have ps: "ps = sort_key pr_num successes" using res(2) sort_key_strict by simp
  have "sorted_wrt (<) (map pr_num ps)" unfolding res(2) by (rule dedup_strict) simp
  moreover have "optimal job \<le> length ps" if "cohort job = None"
    using met that inv success_tags_length [of job' successes] by (simp add: ps requirements_met_def)
  ultimately show "sorted_wrt (<) (map pr_num ps)" "cohort job = None \<Longrightarrow> optimal job \<le> length ps"
    "\<exists>job' successes n es. long_tail_loop results retry job [] 0 [] = Inr (job', successes, n, es) \<and> n \<le> 4 \<and>
       seg = segment_id job' \<and> cohort job' = cohort job \<and> requirements_met job' successes \<and> mset ps = mset successes"
    using run inv met res(1) ps by auto
qed

text \<open>
  An upload of three pieces with \<open>o = 3\<close> whose piece 0 fails in the first round and gets a new node from the
  satellite; the tasks complete in the reverse order.
\<close>

definition sample_outcomes :: Outcomes where
  "sample_outcomes k asgs =
    rev (map (\<lambda>a. if k = 1 \<and> piece_num a = 0 then Failed 0 ''dial'' else Uploaded \<lparr>pr_num = piece_num a, pr_node_id = asg_node_id a, pr_hash = None\<rparr>) asgs)"

definition sample_addressed :: "u8 \<Rightarrow> AddressedOrderLimit" where
  "sample_addressed b =
    \<lparr>al_limit = Some (sample_limit\<lparr>ol_storage_node_id := replicate 32 b\<rparr>),
     al_address = Some \<lparr>na_address = [97], na_noise_info = None, na_debounce_limit = 0, na_features = 0\<rparr>, al_tags = []\<rparr>"

definition sample_retry :: Retry where
  "sample_retry k seg nums = Inr (seg @ [1], map sample_addressed [9, 1, 2])"

definition sample_assignment :: "nat \<Rightarrow> PieceAssignment" where
  "sample_assignment i =
    \<lparr>piece_num = int i, asg_limit = sample_limit\<lparr>ol_storage_node_id := replicate 32 (of_nat i)\<rparr>, asg_address = [97],
     asg_node_id = replicate 32 (of_nat i), asg_noise_info = None, asg_fast_open = False, asg_tags = []\<rparr>"

definition sample_job :: LongTailUpload where
  "sample_job = \<lparr>assignments = map sample_assignment [0, 1, 2], segment_id = [7], optimal = 3, cohort = None\<rparr>"

lemma uploaded_append [simp]: "uploaded (xs @ ys) = uploaded xs @ uploaded ys"
  by (induction xs rule: uploaded.induct) auto

lemma sample_outcomes_honest: "honest_rounds sample_outcomes"
proof -
  have "mset (map pr_num (uploaded (sample_outcomes k asgs))) \<subseteq># mset (map piece_num asgs)" for k asgs
    by (induction asgs) (auto simp: sample_outcomes_def intro: subset_mset.order_trans)
  then show ?thesis unfolding honest_rounds_def by blast
qed

lemma sample_upload:
  "upload_pieces_long_tail sample_outcomes sample_retry sample_job =
    Inr ([7, 1], [\<lparr>pr_num = 0, pr_node_id = replicate 32 9, pr_hash = None\<rparr>,
      \<lparr>pr_num = 1, pr_node_id = replicate 32 1, pr_hash = None\<rparr>, \<lparr>pr_num = 2, pr_node_id = replicate 32 2, pr_hash = None\<rparr>])"
  by code_simp

theorem upload_meets_threshold_witness:
  "\<exists>seg ps. upload_pieces_long_tail sample_outcomes sample_retry sample_job = Inr (seg, ps) \<and> map pr_num ps = [0, 1, 2] \<and> 3 \<le> length ps \<and>
    (\<exists>job' successes n es. long_tail_loop sample_outcomes sample_retry sample_job [] 0 [] = Inr (job', successes, n, es) \<and> n \<le> 4 \<and> requirements_met job' successes)"
proof -
  have d: "distinct (map piece_num (assignments sample_job))" "cohort sample_job = None" "optimal sample_job = 3"
    by (simp_all add: sample_job_def sample_assignment_def)
  note t = upload_meets_threshold [OF sample_outcomes_honest d(1), of sample_retry, THEN conjunct2, THEN spec, THEN spec, THEN mp, OF sample_upload]
  obtain job' successes n es where l: "long_tail_loop sample_outcomes sample_retry sample_job [] 0 [] = Inr (job', successes, n, es)" "n \<le> 4"
      "requirements_met job' successes" using t by blast
  show ?thesis by (rule exI, rule exI, rule conjI, rule sample_upload) (use l in auto)
qed

end
