(* ===== verification/Piece_Store.thy ===== *)
theory Piece_Store
  imports Orders "HOL-Library.Code_Target_Nat"
begin

text \<open>
  The storage-node client, \<open>crates/storj-uplink/src/piecestore.rs\<close>: upload and download of one piece over a stream of
  \<open>Drpc_Conn\<close>, with orders that are signed in growing steps.  The protobuf encoding of the requests and responses is the
  record \<open>PiecePb\<close>; the time of the clock is an argument, in nanoseconds since the Unix epoch.  Of a download response the
  code reads the chunk only.

  Shown: the requests of an upload carry the data in order, each covered by a signed order within the limit; a hash that
  \<open>upload\<close> returns was checked against the data, the limit and the node's certificate; a download returns exactly the
  requested number of bytes, never orders more than it asked for, and never waits without an allowance.
\<close>

section \<open>The code\<close>

subsection \<open>Messages and configuration\<close>

record PieceUploadRequest =
  ur_limit :: "OrderLimit option"
  ur_hash_algorithm :: int
  ur_order :: "Order option"
  ur_chunk :: "(int \<times> bytes) option"
  ur_done :: "PieceHash option"

record PieceUploadResponse =
  us_done :: "PieceHash option"
  us_node_certchain :: bytes

record PieceDownloadRequest =
  dr_limit :: "OrderLimit option"
  dr_order :: "Order option"
  dr_chunk :: "(int \<times> int) option"
  dr_maximum_chunk_size :: int

record PieceDownloadResponse =
  ds_chunk :: "(int \<times> bytes) option"

record PiecePb =
  upload_request_encode :: "PieceUploadRequest \<Rightarrow> bytes"
  upload_response_decode :: "bytes \<Rightarrow> PieceUploadResponse option"
  download_request_encode :: "PieceDownloadRequest \<Rightarrow> bytes"
  download_response_decode :: "bytes \<Rightarrow> PieceDownloadResponse option"

record Config =
  upload_buffer_size :: nat
  initial_step :: int
  maximum_step :: int
  maximum_chunk_size :: int

definition default_config :: Config where
  "default_config = \<lparr>upload_buffer_size = 64 * 1024, initial_step = 256 * 1024, maximum_step = 550 * 1024, maximum_chunk_size = 16 * 1024\<rparr>"

record Client =
  cl_conn :: Conn
  satellite_cert_der :: bytes
  peer_cert_der :: bytes
  cl_hash_algo :: PieceHashAlgo
  cl_config :: Config

definition client_new :: "Conn \<Rightarrow> bytes \<Rightarrow> bytes \<Rightarrow> Client" where
  "client_new c satellite peer =
    \<lparr>cl_conn = c, satellite_cert_der = satellite, peer_cert_der = peer, cl_hash_algo = Blake3, cl_config = default_config\<rparr>"

definition with_hash_algo :: "Client \<Rightarrow> PieceHashAlgo \<Rightarrow> Client" where
  "with_hash_algo cl algo = cl\<lparr>cl_hash_algo := algo\<rparr>"

definition with_config :: "Client \<Rightarrow> Config \<Rightarrow> Client" where
  "with_config cl config = cl\<lparr>cl_config := config\<rparr>"

definition PIECESTORE_UPLOAD :: bytes where "PIECESTORE_UPLOAD = ascii ''/piecestore.Piecestore/Upload''"
definition PIECESTORE_DOWNLOAD :: bytes where "PIECESTORE_DOWNLOAD = ascii ''/piecestore.Piecestore/Download''"

subsection \<open>Orders and hashes\<close>

definition signed_order :: "OrderCrypto \<Rightarrow> OrderLimit \<Rightarrow> bytes \<Rightarrow> int \<Rightarrow> UplinkError + Order" where
  "signed_order oc l key amount =
    sign_order oc \<lparr>o_serial_number = ol_serial_number l, o_amount = amount, o_uplink_signature = []\<rparr> key"

definition signed_uplink_hash :: "OrderCrypto \<Rightarrow> OrderLimit \<Rightarrow> bytes \<Rightarrow> bytes \<Rightarrow> int \<Rightarrow> PieceHashAlgo \<Rightarrow> UplinkError + PieceHash" where
  "signed_uplink_hash oc l key digest sz algo =
    sign_piece_hash_uplink oc \<lparr>ph_piece_id = ol_piece_id l, ph_hash = digest, ph_piece_size = sz, ph_timestamp = ol_order_creation l,
      ph_signature = [], ph_hash_algorithm = algo_to_i32 algo\<rparr> key"

text \<open>The steps are positive, so dividing rounds down; \<open>saturating_mul\<close> caps the product.\<close>

definition next_order_step :: "int \<Rightarrow> int \<Rightarrow> int" where
  "next_order_step previous mx = min (quot_i64 (sat_i64 (previous * 3)) 2) mx"

definition PIECE_HASH_EXPIRATION :: int where "PIECE_HASH_EXPIRATION = 24 * 60 * 60 * 1000000000"

definition timestamp_too_old :: "int \<Rightarrow> PbTimestamp option \<Rightarrow> bool" where
  "timestamp_too_old now t =
    (case t of None \<Rightarrow> True
     | Some ts \<Rightarrow>
       (if ts_seconds ts < 0 then True
        else if \<not> (0 \<le> ts_nanos ts \<and> ts_nanos ts < 1000000000) then True
        else ts_seconds ts * 1000000000 + ts_nanos ts < now - PIECE_HASH_EXPIRATION))"

definition verify_sn_piece_hash :: "OrderCrypto \<Rightarrow> int \<Rightarrow> PieceHash \<Rightarrow> OrderLimit \<Rightarrow> bytes \<Rightarrow> PieceHashAlgo \<Rightarrow> bytes \<Rightarrow> UplinkError + unit" where
  "verify_sn_piece_hash oc now h l expected algo peer_cert =
    (if ph_piece_id h \<noteq> ol_piece_id l then Inl PieceIdMismatch
     else if algo_from_i32 (ph_hash_algorithm h) \<noteq> algo then Inl HashAlgoMismatch
     else if ph_hash h \<noteq> expected then Inl PieceHashMismatch
     else try_bind (verify_piece_hash_node oc h peer_cert) (\<lambda>_.
       if timestamp_too_old now (ph_timestamp h) then Inl PieceHashExpired else Inr ()))"

subsection \<open>Upload\<close>

text \<open>An operation on an open stream: its result, the stream handle and the connection after it.\<close>

type_synonym 'a stream_op = "(UplinkError + 'a) \<times> RpcStream \<times> Conn"

definition send :: "bytes \<Rightarrow> RpcStream \<Rightarrow> Conn \<Rightarrow> unit stream_op" where
  "send dat s c = (case send_msg s dat c of (s, r, c) \<Rightarrow> (map_err Rpc r, s, c))"

text \<open>
  One round of the loop up to sending: the request for the next chunk and the order state after it.  \<open>i64\<close> sums of offsets and
  steps are far from the limits.
\<close>

definition upload_request ::
  "OrderCrypto \<Rightarrow> PieceHashAlgo \<Rightarrow> Config \<Rightarrow> OrderLimit \<Rightarrow> bytes \<Rightarrow> bytes \<Rightarrow> bytes \<Rightarrow> int \<Rightarrow> int \<Rightarrow> int \<Rightarrow> bool \<Rightarrow>
    UplinkError + (PieceUploadRequest \<times> int \<times> int)" where
  "upload_request oc algo config l key digest rest offset ordered_so_far order_step first =
    (let n = min (length rest) (max (upload_buffer_size config) 1);
         chunk = take n rest;
         last = (drop n rest = []);
         stop = offset + int n;
         req = \<lparr>ur_limit = (if first then Some l else None), ur_hash_algorithm = (if first then algo_to_i32 algo else 0), ur_order = None,
                ur_chunk = Some (offset, chunk), ur_done = None\<rparr>
     in try_bind (if stop > ordered_so_far
                  then let amount = min (offset + order_step) (ol_limit l)
                       in try_bind (signed_order oc l key amount) (\<lambda>ord.
                            Inr (req\<lparr>ur_order := Some ord\<rparr>, amount, next_order_step order_step (maximum_step config)))
                  else Inr (req, ordered_so_far, order_step)) (\<lambda>(req, ordered_so_far, order_step).
        try_bind (if last then try_bind (signed_uplink_hash oc l key digest stop algo) (\<lambda>h. Inr (req\<lparr>ur_done := Some h\<rparr>)) else Inr req) (\<lambda>req.
          Inr (req, ordered_so_far, order_step))))"

function upload_loop ::
  "OrderCrypto \<Rightarrow> PiecePb \<Rightarrow> PieceHashAlgo \<Rightarrow> Config \<Rightarrow> OrderLimit \<Rightarrow> bytes \<Rightarrow> bytes \<Rightarrow> bytes \<Rightarrow> int \<Rightarrow> int \<Rightarrow> int \<Rightarrow> bool \<Rightarrow>
    RpcStream \<Rightarrow> Conn \<Rightarrow> unit stream_op" where
  "upload_loop oc pb algo config l key digest rest offset ordered_so_far order_step first s c =
    (if rest = [] then (Inr (), s, c)
     else case upload_request oc algo config l key digest rest offset ordered_so_far order_step first of
       Inl e \<Rightarrow> (Inl e, s, c)
     | Inr (req, ordered_so_far, order_step) \<Rightarrow>
       (case send (upload_request_encode pb req) s c of
          (Inl e, s, c) \<Rightarrow> (Inl e, s, c)
        | (Inr _, s, c) \<Rightarrow>
          let n = min (length rest) (max (upload_buffer_size config) 1)
          in upload_loop oc pb algo config l key digest (drop n rest) (offset + int n) ordered_so_far order_step False s c))"
  by pat_completeness auto
termination by (relation "measure (\<lambda>(_, _, _, _, _, _, _, rest, _). length rest)") auto

declare upload_loop.simps [simp del]

definition finish_upload ::
  "OrderCrypto \<Rightarrow> PiecePb \<Rightarrow> int \<Rightarrow> PieceHashAlgo \<Rightarrow> bytes \<Rightarrow> OrderLimit \<Rightarrow> bytes \<Rightarrow> RpcStream \<Rightarrow> Conn \<Rightarrow> PieceHash stream_op" where
  "finish_upload oc pb now algo peer_cert l digest s c =
    (case close_send s c of
       (s, Inl e, c) \<Rightarrow> (Inl (Rpc e), s, c)
     | (s, Inr _, c) \<Rightarrow>
       (case recv_msg s c of
          (Inl e, c) \<Rightarrow> (Inl (Rpc e), s, c)
        | (Inr dat, c) \<Rightarrow>
          (try_bind (ok_or (UpProtocol ''decode'') (upload_response_decode pb dat)) (\<lambda>resp.
           try_bind (ok_or (UpProtocol ''expected piece hash'') (us_done resp)) (\<lambda>sn_hash.
           try_bind (if us_node_certchain resp = [] then Inr peer_cert
                     else if length (ol_storage_node_id l) \<noteq> 32 then Inl (UpProtocol ''storage node id is not 32 bytes'')
                     else map_err (\<lambda>_. UpProtocol ''certificate'') (verified_leaf (oc_b58 oc) (oc_pki oc) (us_node_certchain resp) (ol_storage_node_id l))) (\<lambda>leaf.
           try_bind (verify_sn_piece_hash oc now sn_hash l digest algo leaf) (\<lambda>_. Inr sn_hash)))), s, c)))"

definition upload_once ::
  "OrderCrypto \<Rightarrow> PiecePb \<Rightarrow> int \<Rightarrow> Client \<Rightarrow> OrderLimit \<Rightarrow> bytes \<Rightarrow> bytes \<Rightarrow> bytes \<Rightarrow> RpcStream \<Rightarrow> Conn \<Rightarrow> PieceHash stream_op" where
  "upload_once oc pb now cl l key dat digest s c =
    (let algo = cl_hash_algo cl
     in case (if dat = [] then
                case signed_uplink_hash oc l key digest 0 algo of
                  Inl e \<Rightarrow> (Inl e, s, c)
                | Inr h \<Rightarrow> send (upload_request_encode pb \<lparr>ur_limit = Some l, ur_hash_algorithm = algo_to_i32 algo, ur_order = None,
                    ur_chunk = None, ur_done = Some h\<rparr>) s c
              else upload_loop oc pb algo (cl_config cl) l key digest dat 0 0 (initial_step (cl_config cl)) True s c) of
          (Inl e, s, c) \<Rightarrow> (Inl e, s, c)
        | (Inr _, s, c) \<Rightarrow> finish_upload oc pb now algo (peer_cert_der cl) l digest s c)"

definition upload :: "OrderCrypto \<Rightarrow> PiecePb \<Rightarrow> int \<Rightarrow> OrderLimit \<Rightarrow> bytes \<Rightarrow> bytes \<Rightarrow> Client \<Rightarrow> (UplinkError + PieceHash) \<times> Client" where
  "upload oc pb now l key dat cl =
    (case verify_order_limit oc l (satellite_cert_der cl) of
       Inl e \<Rightarrow> (Inl e, cl)
     | Inr _ \<Rightarrow>
       if ol_action l \<noteq> Put \<and> ol_action l \<noteq> PutRepair then (Inl (UpProtocol ''order limit action is not PUT''), cl)
       else if int (length dat) > ol_limit l then (Inl (UpProtocol ''piece exceeds order limit''), cl)
       else
         (let digest = hasher_finalize oc (hasher_update (hasher_new (cl_hash_algo cl)) dat)
          in case open_stream PIECESTORE_UPLOAD (cl_conn cl) of
               (Inl e, c) \<Rightarrow> (Inl (Rpc e), cl\<lparr>cl_conn := c\<rparr>)
             | (Inr s, c) \<Rightarrow>
               (case upload_once oc pb now cl l key dat digest s c of
                  (r, s, c) \<Rightarrow>
                  (case close_stream s c of
                     (_, close_err, c) \<Rightarrow>
                     ((case r of Inr h \<Rightarrow> try_bind (map_err Rpc close_err) (\<lambda>_. Inr h) | Inl e \<Rightarrow> Inl e), cl\<lparr>cl_conn := c\<rparr>)))))"

subsection \<open>What a stream uses up\<close>

lemma write_raw_size: "write_raw bs c = (r, c') \<Longrightarrow> conn_size c' = conn_size c"
  by (auto simp: write_raw_def timed_write_def suspended_def then_op_def conn_size_def read_size_def unparsed_def Let_def
      split: list.splits write_event.splits sum.splits prod.splits)

lemma flush_size: "flush c = (r, c') \<Longrightarrow> conn_size c' = conn_size c"
  by (auto simp: flush_def timed_write_def suspended_def then_op_def conn_size_def read_size_def unparsed_def Let_def
      split: list.splits write_event.splits sum.splits prod.splits)

lemma poll_read_size: "poll_read evs = (r, evs') \<Longrightarrow> sum_list (map event_size evs') \<le> sum_list (map event_size evs)"
  by (induction evs rule: poll_read.induct) auto

lemma poll_fill_size_le:
  assumes "poll_fill c = (r, c')"
  shows "read_size c' \<le> read_size c \<and> pending c' = pending c"
proof -
  obtain q c1 where c1: "prepare_read c = (q, c1)" by (cases "prepare_read c")
  note f = prepare_read_fields[OF c1]
  obtain o' evs where o: "poll_read (incoming (io c1)) = (o', evs)" by (cases "poll_read (incoming (io c1))")
  have bs: "length bs + sum_list (map event_size evs) \<le> sum_list (map event_size (incoming (io c1)))" if "o' = Some (Inr bs)" for bs
    using poll_read_data[of "incoming (io c1)" bs evs] o that by simp
  have cases: "c' = c1 \<or> c' = c1\<lparr>io := (io c1)\<lparr>incoming := evs\<rparr>\<rparr> \<or> c' = c1\<lparr>io := (io c1)\<lparr>incoming := evs\<rparr>, poisoned := True\<rparr> \<or>
      (\<exists>bs. o' = Some (Inr bs) \<and> c' = c1\<lparr>io := (io c1)\<lparr>incoming := evs\<rparr>, buf := buf c1 @ bs\<rparr>)"
  proof (cases q)
    case (Inr u)
    then show ?thesis
      using assms by (cases o' rule: option.exhaust[case_names None Some])
        (auto simp: poll_fill_def c1 Inr o Let_def split: sum.splits if_splits)
  qed (use assms in \<open>simp add: poll_fill_def c1\<close>)
  then show ?thesis using f poll_read_size[OF o] bs by (fastforce simp: read_size_def unparsed_def)
qed

lemma drain_loop_size: "drain_loop q c = (r, c') \<Longrightarrow> conn_size c' \<le> conn_size c"
proof (induction q c arbitrary: r c' rule: drain_loop.induct)
  case (1 q c)
  show ?case
  proof (cases "q \<ge> PENDING_HIGH_WATER_BYTES \<or> length (pending c) \<ge> MAX_PENDING_PACKETS")
    case True
    then show ?thesis using 1(4) by (subst (asm) drain_loop.simps) auto
  next
    case full: False
    obtain r1 c1 where p: "parse_one c = (r1, c1)" by (cases "parse_one c")
    note size = parse_one_size[OF p]
    consider (err) e where "r1 = Inl e" | (pkt) x where "r1 = Inr (Some x)" | (none) "r1 = Inr None"
      by (cases r1) (auto simp: option.split_sel_asm elim: option.exhaust)
    then show ?thesis
    proof cases
      case err
      then show ?thesis using 1(4) full p size by (subst (asm) drain_loop.simps) (auto simp: conn_size_def)
    next
      case pkt
      then have "drain_loop (q + length (data x)) (c1\<lparr>pending := pending c1 @ [x]\<rparr>) = (r, c')"
        using 1(4) full p by (subst (asm) drain_loop.simps) simp
      from 1(3)[OF full p[symmetric] pkt refl this] show ?thesis using size pkt by (simp add: conn_size_def read_size_def)
    next
      case none
      show ?thesis
      proof (cases "length (unparsed c1) = length (unparsed c)")
        case False
        then have "drain_loop q c1 = (r, c')" using 1(4) full p none by (subst (asm) drain_loop.simps) simp
        from 1(2)[OF full p[symmetric] none refl False this] show ?thesis using size by (simp add: conn_size_def)
      next
        case True
        obtain r2 c2 where f: "poll_fill c1 = (r2, c2)" by (cases "poll_fill c1")
        have s2: "conn_size c2 \<le> conn_size c" using poll_fill_size_le[OF f] size by (simp add: conn_size_def)
        show ?thesis
        proof (cases "r2 = Inr True")
          case t: True
          then have d: "drain_loop q c2 = (r, c')" using 1(4) full p none True f by (subst (asm) drain_loop.simps) simp
          from 1(1)[OF full p[symmetric] none refl True f[symmetric] t refl d] s2 show ?thesis by simp
        next
          case False
          then have "c' = c2" using 1(4) full p none True f by (subst (asm) drain_loop.simps) (auto split: sum.splits bool.splits)
          then show ?thesis using s2 by simp
        qed
      qed
    qed
  qed
qed

lemma recv_loop_size: "recv_loop s c = (Inr dat, c') \<Longrightarrow> conn_size c' < conn_size c"
proof (induction s c rule: recv_loop.induct)
  case (1 s c)
  obtain r1 c1 where p: "read_packet c = (r1, c1)" by (cases "read_packet c")
  obtain pkt where r1: "r1 = Inr pkt" using 1(2) p by (cases r1) (auto simp: recv_loop.simps)
  have size: "conn_size c1 < conn_size c" using read_packet_size p r1 by blast
  show ?case
  proof (cases "judge s pkt")
    case Skip
    then have "recv_loop s c1 = (Inr dat, c')" using 1(2) p r1 by (subst (asm) recv_loop.simps) simp
    from 1(1)[OF p[symmetric] r1 Skip this] show ?thesis using size by simp
  qed (use 1(2) p r1 size in \<open>simp_all add: recv_loop.simps\<close>)
qed

lemma send_size:
  assumes "send dat s c = (r, s', c')"
  shows "conn_size c' \<le> conn_size c"
proof -
  obtain d c1 where d: "drain_ready c = (d, c1)" by (cases "drain_ready c")
  have c1: "conn_size c1 \<le> conn_size c" using drain_loop_size d by (auto simp: drain_ready_def)
  have w: "conn_size (snd (write_packet_data i j k b dat' c1)) = conn_size c1" for i j k b dat'
    using write_raw_size by (metis write_packet_data_def prod.collapse)
  have f: "conn_size (snd (flush c2)) = conn_size c2" for c2 using flush_size by (metis prod.collapse)
  have "c' = c1 \<or> (\<exists>i j k b dat'. c' = snd (write_packet_data i j k b dat' c1)) \<or>
      (\<exists>i j k b dat'. c' = snd (flush (snd (write_packet_data i j k b dat' c1))))"
    using assms
    by (auto simp: send_def send_msg_def d send_kind_def then_op_def Let_def split: prod.splits option.splits sum.splits) (metis snd_conv)+
  then show ?thesis using c1 w f by auto
qed

lemma recv_msg_opt_size: "recv_msg_opt s c = (Inr (Some dat), c') \<Longrightarrow> conn_size c' < conn_size c"
  using recv_loop_size by (auto simp: recv_msg_opt_def recv_msg_def split: prod.splits sum.splits Drpc_Conn.Error.splits)

subsection \<open>Download\<close>

text \<open>The order that is due before waiting for the next message, with the step and the amount after it.\<close>

definition download_top_up :: "OrderCrypto \<Rightarrow> Config \<Rightarrow> OrderLimit \<Rightarrow> bytes \<Rightarrow> int \<Rightarrow> int \<Rightarrow> int \<Rightarrow> int \<Rightarrow>
    UplinkError + (Order option \<times> int \<times> int)" where
  "download_top_up oc config l key sz received step allocated =
    (if allocated < sz \<and> allocated - received \<le> quot_i64 step 2
     then let step = next_order_step step (maximum_step config);
              allocated = min (sat_i64 (allocated + step)) sz
          in try_bind (signed_order oc l key allocated) (\<lambda>ord. Inr (Some ord, step, allocated))
     else Inr (None, step, allocated))"

definition order_request :: "Order \<Rightarrow> PieceDownloadRequest" where
  "order_request ord = \<lparr>dr_limit = None, dr_order = Some ord, dr_chunk = None, dr_maximum_chunk_size = 0\<rparr>"

definition send_top_up :: "PiecePb \<Rightarrow> Order option \<Rightarrow> RpcStream \<Rightarrow> Conn \<Rightarrow> unit stream_op" where
  "send_top_up pb ord s c =
    (case ord of None \<Rightarrow> (Inr (), s, c) | Some ord \<Rightarrow> send (download_request_encode pb (order_request ord)) s c)"

lemma send_top_up_size: "send_top_up pb ord s c = (r, s', c') \<Longrightarrow> conn_size c' \<le> conn_size c"
  using send_size by (auto simp: send_top_up_def split: option.splits)

lemma round_size:
  assumes "send_top_up pb ord s c = (r, s1, c1)" "recv_msg_opt s1 c1 = (Inr (Some dat), c2)"
  shows "conn_size c2 < conn_size c"
  using send_top_up_size[OF assms(1)] recv_msg_opt_size[OF assms(2)] by simp

function download_loop :: "OrderCrypto \<Rightarrow> PiecePb \<Rightarrow> Config \<Rightarrow> OrderLimit \<Rightarrow> bytes \<Rightarrow> int \<Rightarrow> bytes \<Rightarrow> int \<Rightarrow> int \<Rightarrow>
    RpcStream \<Rightarrow> Conn \<Rightarrow> bytes stream_op" where
  "download_loop oc pb config l key sz out step allocated s c =
    (if int (length out) \<ge> sz then (Inr out, s, c)
     else case download_top_up oc config l key sz (int (length out)) step allocated of
       Inl e \<Rightarrow> (Inl e, s, c)
     | Inr (ord, step, allocated) \<Rightarrow>
       (case send_top_up pb ord s c of
          (Inl e, s, c) \<Rightarrow> (Inl e, s, c)
        | (Inr _, s, c1) \<Rightarrow>
          (case recv_msg_opt s c1 of
             (Inl e, c) \<Rightarrow> (Inl (Rpc e), s, c)
           | (Inr None, c) \<Rightarrow> (Inr out, s, c)
           | (Inr (Some dat), c) \<Rightarrow>
             (case download_response_decode pb dat of
                None \<Rightarrow> (Inl (UpProtocol ''decode''), s, c)
              | Some resp \<Rightarrow>
                download_loop oc pb config l key sz
                  (out @ (case ds_chunk resp of Some (_, d) \<Rightarrow> d | None \<Rightarrow> [])) step allocated s c))))"
  by pat_completeness auto
termination
proof (relation "measure (\<lambda>(_, _, _, _, _, _, _, _, _, _, c). conn_size c)", goal_cases)
  case (2 oc pb config l key sz out step allocated s c)
  from this(3-10) show ?case by simp (metis round_size)
qed simp

declare download_loop.simps [simp del]

definition download_once :: "OrderCrypto \<Rightarrow> PiecePb \<Rightarrow> Config \<Rightarrow> OrderLimit \<Rightarrow> bytes \<Rightarrow> int \<Rightarrow> int \<Rightarrow> RpcStream \<Rightarrow> Conn \<Rightarrow> bytes stream_op" where
  "download_once oc pb config l key offset sz s c =
    (let step = max (initial_step config) 1;
         allocated = min sz step
     in case signed_order oc l key allocated of
          Inl e \<Rightarrow> (Inl e, s, c)
        | Inr ord \<Rightarrow>
          (case send (download_request_encode pb \<lparr>dr_limit = Some l, dr_order = Some ord, dr_chunk = Some (offset, sz),
                  dr_maximum_chunk_size = maximum_chunk_size config\<rparr>) s c of
             (Inl e, s, c) \<Rightarrow> (Inl e, s, c)
           | (Inr _, s, c) \<Rightarrow>
             (case download_loop oc pb config l key sz [] step allocated s c of
                (Inl e, s, c) \<Rightarrow> (Inl e, s, c)
              | (Inr out, s, c) \<Rightarrow>
                (case close_send s c of
                   (s, _, c) \<Rightarrow>
                   (let out = (if int (length out) > sz then take (nat sz) out else out)
                    in if int (length out) < sz then (Inl (UpProtocol ''short piece download''), s, c) else (Inr out, s, c))))))"

definition download :: "OrderCrypto \<Rightarrow> PiecePb \<Rightarrow> OrderLimit \<Rightarrow> bytes \<Rightarrow> int \<Rightarrow> int \<Rightarrow> Client \<Rightarrow> (UplinkError + bytes) \<times> Client" where
  "download oc pb l key offset sz cl =
    (case verify_order_limit oc l (satellite_cert_der cl) of
       Inl e \<Rightarrow> (Inl e, cl)
     | Inr _ \<Rightarrow>
       if ol_action l \<noteq> Get \<and> ol_action l \<noteq> GetAudit \<and> ol_action l \<noteq> GetRepair then (Inl (UpProtocol ''order limit action is not GET''), cl)
       else if offset < 0 \<or> sz < 0 then (Inl (InvalidDownloadRange offset sz ''offset/size must be >= 0''), cl)
       else if offset + sz > i64_max then (Inl (InvalidDownloadRange offset sz ''offset+size overflows''), cl)
       else if sz > ol_limit l then (Inl (DownloadLimit offset sz (ol_limit l)), cl)
       else if sz = 0 then (Inr [], cl)
       else
         (case open_stream PIECESTORE_DOWNLOAD (cl_conn cl) of
            (Inl e, c) \<Rightarrow> (Inl (Rpc e), cl\<lparr>cl_conn := c\<rparr>)
          | (Inr s, c) \<Rightarrow>
            (case download_once oc pb (cl_config cl) l key offset sz s c of
               (r, s, c) \<Rightarrow> (case close_stream s c of (_, _, c) \<Rightarrow> (r, cl\<lparr>cl_conn := c\<rparr>)))))"

section \<open>The receiving node\<close>

text \<open>
  What a storage node checks of the requests of an upload, as a specification: the limit comes with the first request only,
  orders are signed by the piece key for the serial number of the limit and grow up to the limit, every chunk continues
  the piece within the latest order, and nothing follows the signed hash of the whole piece.
\<close>

record Received =
  rc_limit :: "OrderLimit option"
  rc_algo :: int
  rc_bytes :: bytes
  rc_allowed :: int
  rc_done :: "PieceHash option"

definition nothing_received :: Received where
  "nothing_received = \<lparr>rc_limit = None, rc_algo = 0, rc_bytes = [], rc_allowed = 0, rc_done = None\<rparr>"

definition accept_limit :: "PieceUploadRequest \<Rightarrow> Received \<Rightarrow> Received option" where
  "accept_limit req r =
    (case (rc_limit r, ur_limit req) of
       (None, Some l) \<Rightarrow> Some (r\<lparr>rc_limit := Some l, rc_algo := ur_hash_algorithm req\<rparr>)
     | (Some l, None) \<Rightarrow> if rc_done r = None then Some r else None
     | _ \<Rightarrow> None)"

definition accept_order :: "OrderCrypto \<Rightarrow> bytes \<Rightarrow> PieceUploadRequest \<Rightarrow> Received \<Rightarrow> Received option" where
  "accept_order oc pub req r =
    (case (ur_order req, rc_limit r) of
       (None, _) \<Rightarrow> Some r
     | (Some ord, Some l) \<Rightarrow>
       if o_serial_number ord = ol_serial_number l \<and> verify_order oc ord pub = Inr () \<and> rc_allowed r < o_amount ord \<and> o_amount ord \<le> ol_limit l
       then Some (r\<lparr>rc_allowed := o_amount ord\<rparr>) else None
     | _ \<Rightarrow> None)"

definition accept_chunk :: "PieceUploadRequest \<Rightarrow> Received \<Rightarrow> Received option" where
  "accept_chunk req r =
    (case ur_chunk req of
       None \<Rightarrow> Some r
     | Some (offset, d) \<Rightarrow>
       if offset = int (length (rc_bytes r)) \<and> offset + int (length d) \<le> rc_allowed r then Some (r\<lparr>rc_bytes := rc_bytes r @ d\<rparr>) else None)"

definition accept_done :: "OrderCrypto \<Rightarrow> bytes \<Rightarrow> PieceUploadRequest \<Rightarrow> Received \<Rightarrow> Received option" where
  "accept_done oc pub req r =
    (case (ur_done req, rc_limit r) of
       (None, _) \<Rightarrow> Some r
     | (Some h, Some l) \<Rightarrow>
       if verify_piece_hash_uplink oc h pub = Inr () \<and> ph_piece_size h = int (length (rc_bytes r)) \<and> ph_piece_id h = ol_piece_id l \<and>
         ph_hash_algorithm h = rc_algo r then Some (r\<lparr>rc_done := Some h\<rparr>) else None
     | _ \<Rightarrow> None)"

definition receive :: "OrderCrypto \<Rightarrow> bytes \<Rightarrow> PieceUploadRequest \<Rightarrow> Received \<Rightarrow> Received option" where
  "receive oc pub req r =
    Option.bind (accept_limit req r) (\<lambda>r. Option.bind (accept_order oc pub req r) (\<lambda>r.
      Option.bind (accept_chunk req r) (accept_done oc pub req)))"

fun receive_all :: "OrderCrypto \<Rightarrow> bytes \<Rightarrow> PieceUploadRequest list \<Rightarrow> Received \<Rightarrow> Received option" where
  "receive_all oc pub [] r = Some r"
| "receive_all oc pub (req # reqs) r = Option.bind (receive oc pub req r) (receive_all oc pub reqs)"

text \<open>The client side of the same conversation: messages sent in order until one fails.\<close>

fun send_all :: "bytes list \<Rightarrow> RpcStream \<Rightarrow> Conn \<Rightarrow> unit stream_op" where
  "send_all [] s c = (Inr (), s, c)"
| "send_all (m # ms) s c =
    (case send m s c of (Inl e, s, c) \<Rightarrow> (Inl e, s, c) | (Inr _, s, c) \<Rightarrow> send_all ms s c)"

section \<open>Lemmas\<close>

lemma signed_order_eq:
  "signed_order oc l key amount = Inr (let ord = \<lparr>o_serial_number = ol_serial_number l, o_amount = amount, o_uplink_signature = []\<rparr>
    in ord\<lparr>o_uplink_signature := private_sign oc key (encode_order oc ord)\<rparr>)"
  by (simp add: signed_order_def sign_order_def)

lemma signed_order_ok:
  assumes "order_crypto_ok oc"
  obtains ord where "signed_order oc l key amount = Inr ord" "o_serial_number ord = ol_serial_number l" "o_amount ord = amount"
    "verify_order oc ord (private_public oc key) = Inr ()"
  using public_verify_sign[OF assms, of key] by (simp add: signed_order_eq verify_order_def Let_def map_err_def encode_order_def)

lemma signed_hash_ok:
  assumes "order_crypto_ok oc"
  obtains h where "signed_uplink_hash oc l key digest sz algo = Inr h" "ph_piece_id h = ol_piece_id l" "ph_hash h = digest"
    "ph_piece_size h = sz" "ph_hash_algorithm h = algo_to_i32 algo" "verify_piece_hash_uplink oc h (private_public oc key) = Inr ()"
  using public_verify_sign[OF assms, of key]
  by (simp add: signed_uplink_hash_def sign_piece_hash_uplink_def verify_piece_hash_uplink_def map_err_def encode_piece_hash_def hash_signing_def)

lemma next_order_step_bounds:
  assumes "1 \<le> b" "b \<le> previous" "b \<le> mx" "b \<le> 2 ^ 62 - 1"
  shows "b \<le> next_order_step previous mx" "next_order_step previous mx \<le> mx"
  using assms by (auto simp: next_order_step_def quot_i64_def sat_i64_def)

subsection \<open>The requests of an upload\<close>

text \<open>An order step covers a whole buffer; the default configuration is of this kind.\<close>

definition sane_config :: "Config \<Rightarrow> bool" where
  "sane_config config \<longleftrightarrow>
    (let b = int (max (upload_buffer_size config) 1) in b \<le> initial_step config \<and> b \<le> maximum_step config \<and> b \<le> 2 ^ 62 - 1)"

text \<open>What the node holds when the loop reaches \<open>offset\<close>.\<close>

definition in_step :: "PieceHashAlgo \<Rightarrow> OrderLimit \<Rightarrow> int \<Rightarrow> int \<Rightarrow> bool \<Rightarrow> Received \<Rightarrow> bool" where
  "in_step algo l offset ordered_so_far first st \<longleftrightarrow> offset = int (length (rc_bytes st)) \<and> rc_allowed st = ordered_so_far \<and>
    rc_done st = None \<and> (if first then rc_limit st = None else rc_limit st = Some l \<and> rc_algo st = algo_to_i32 algo)"

lemma order_due:
  assumes oc: "order_crypto_ok oc" and b: "1 \<le> b" "b \<le> order_step" "b \<le> mx" "b \<le> 2 ^ 62 - 1"
    and stop: "stop \<le> offset + b" "stop \<le> ol_limit l" and st: "rc_limit st = Some l" "rc_allowed st = ordered" and req: "ur_order req = None"
  obtains x ordered' step' where "(if stop > ordered
        then let amount = min (offset + order_step) (ol_limit l)
             in try_bind (signed_order oc l key amount) (\<lambda>ord. Inr (req\<lparr>ur_order := Some ord\<rparr>, amount, next_order_step order_step mx))
        else Inr (req, ordered, order_step)) = Inr (req\<lparr>ur_order := x\<rparr>, ordered', step')" "b \<le> step'" "stop \<le> ordered'"
    "\<And>y. accept_order oc (private_public oc key) (req\<lparr>ur_order := x, ur_done := y\<rparr>) st = Some (st\<lparr>rc_allowed := ordered'\<rparr>)"
proof (cases "stop > ordered")
  case True
  define amount where "amount = min (offset + order_step) (ol_limit l)"
  obtain ord where ord: "signed_order oc l key amount = Inr ord" "o_serial_number ord = ol_serial_number l" "o_amount ord = amount"
    "verify_order oc ord (private_public oc key) = Inr ()" using signed_order_ok[OF oc] by blast
  have amount: "stop \<le> amount" "amount \<le> ol_limit l" using b stop by (auto simp: amount_def)
  have step: "b \<le> next_order_step order_step mx" using b by (intro next_order_step_bounds) auto
  have acc: "accept_order oc (private_public oc key) (req\<lparr>ur_order := Some ord, ur_done := y\<rparr>) st = Some (st\<lparr>rc_allowed := amount\<rparr>)" for y
    using ord amount True st by (simp add: accept_order_def)
  show ?thesis using True ord(1) amount(1) step acc
    by (intro that[of "Some ord" amount]) (simp_all add: amount_def[symmetric])
next
  case False
  then have "req\<lparr>ur_order := None\<rparr> = req" "st\<lparr>rc_allowed := ordered\<rparr> = st" using st req by simp_all
  with False show ?thesis using b req by (intro that[of None ordered order_step]) (auto simp: accept_order_def)
qed

lemma upload_request_accepted:
  assumes oc: "order_crypto_ok oc" and b: "b = max (upload_buffer_size config) 1" "int b \<le> order_step" "int b \<le> maximum_step config" "int b \<le> 2 ^ 62 - 1"
    and st: "in_step algo l offset ordered first st" and rest: "rest \<noteq> []" "offset + int (length rest) \<le> ol_limit l"
  obtains req ordered' step' st' where
    "upload_request oc algo config l key digest rest offset ordered order_step first = Inr (req, ordered', step')" "int b \<le> step'"
    "receive oc (private_public oc key) req st = Some st'" "rc_bytes st' = rc_bytes st @ take b rest"
    "if drop b rest = [] then \<exists>h. rc_done st' = Some h \<and> ph_hash h = digest \<and> ph_hash_algorithm h = algo_to_i32 algo
      else in_step algo l (offset + int b) ordered' False st'"
proof -
  let ?n = "min (length rest) b"
  let ?stop = "offset + int ?n"
  define req0 where "req0 = \<lparr>ur_limit = (if first then Some l else None), ur_hash_algorithm = (if first then algo_to_i32 algo else 0),
      ur_order = None, ur_chunk = Some (offset, take ?n rest), ur_done = None\<rparr>"
  define st0 where "st0 = st\<lparr>rc_limit := Some l, rc_algo := algo_to_i32 algo\<rparr>"
  have lim: "accept_limit (req0\<lparr>ur_order := x, ur_done := y\<rparr>) st = Some st0" for x y
    using st by (auto simp: accept_limit_def req0_def st0_def in_step_def split: if_splits)
  have nb: "?n = b \<or> drop b rest = []" "take ?n rest = take b rest" "drop ?n rest = drop b rest" by (auto simp: min_def)
  obtain x ordered' step' where x: "(if ?stop > ordered
        then let amount = min (offset + order_step) (ol_limit l)
             in try_bind (signed_order oc l key amount) (\<lambda>ord.
                  Inr (req0\<lparr>ur_order := Some ord\<rparr>, amount, next_order_step order_step (maximum_step config)))
        else Inr (req0, ordered, order_step)) = Inr (req0\<lparr>ur_order := x\<rparr>, ordered', step')" "int b \<le> step'" "?stop \<le> ordered'"
      "accept_order oc (private_public oc key) (req0\<lparr>ur_order := x, ur_done := y\<rparr>) st0 = Some (st0\<lparr>rc_allowed := ordered'\<rparr>)" for y
  proof (rule order_due[OF oc, of "int b" order_step "maximum_step config" ?stop offset l st0 ordered req0 key])
    show "1 \<le> int b" "int b \<le> order_step" "int b \<le> maximum_step config" "int b \<le> 2 ^ 62 - 1" using b by simp_all
    show "?stop \<le> offset + int b" "?stop \<le> ol_limit l" using rest by simp_all
    show "rc_limit st0 = Some l" "rc_allowed st0 = ordered" "ur_order req0 = None" using st by (simp_all add: st0_def req0_def in_step_def)
  qed (use that in blast)
  define st1 where "st1 = st0\<lparr>rc_allowed := ordered', rc_bytes := rc_bytes st @ take b rest\<rparr>"
  have chunk: "accept_chunk (req0\<lparr>ur_order := x, ur_done := y\<rparr>) (st0\<lparr>rc_allowed := ordered'\<rparr>) = Some st1" for y
    using x(3) st by (auto simp: accept_chunk_def req0_def st0_def st1_def in_step_def nb(2))
  have recv: "receive oc (private_public oc key) (req0\<lparr>ur_order := x, ur_done := y\<rparr>) st = accept_done oc (private_public oc key) (req0\<lparr>ur_order := x, ur_done := y\<rparr>) st1" for y
    by (simp add: receive_def lim x(4) chunk)
  have req: "upload_request oc algo config l key digest rest offset ordered order_step first =
      try_bind (if drop b rest = [] then try_bind (signed_uplink_hash oc l key digest ?stop algo) (\<lambda>h. Inr (req0\<lparr>ur_order := x, ur_done := Some h\<rparr>))
        else Inr (req0\<lparr>ur_order := x\<rparr>)) (\<lambda>req. Inr (req, ordered', step'))"
    by (simp only: upload_request_def Let_def b(1)[symmetric] req0_def[symmetric] x(1)[unfolded Let_def] nb(3) try_bind_simps prod.case)
  show thesis
  proof (cases "drop b rest = []")
    case True
    obtain h where h: "signed_uplink_hash oc l key digest ?stop algo = Inr h" "ph_piece_id h = ol_piece_id l" "ph_hash h = digest"
      "ph_piece_size h = ?stop" "ph_hash_algorithm h = algo_to_i32 algo" "verify_piece_hash_uplink oc h (private_public oc key) = Inr ()"
      using signed_hash_ok[OF oc] by blast
    have "upload_request oc algo config l key digest rest offset ordered order_step first = Inr (req0\<lparr>ur_order := x, ur_done := Some h\<rparr>, ordered', step')"
      using True h(1) by (simp add: req)
    moreover have "receive oc (private_public oc key) (req0\<lparr>ur_order := x, ur_done := Some h\<rparr>) st = Some (st1\<lparr>rc_done := Some h\<rparr>)"
      using True h st by (simp add: recv accept_done_def st1_def st0_def in_step_def)
    ultimately show ?thesis using True h(3,5) x(2) by (intro that) (auto simp: st1_def st0_def)
  next
    case False
    have "req0\<lparr>ur_order := x, ur_done := None\<rparr> = req0\<lparr>ur_order := x\<rparr>" by (simp add: req0_def)
    then have "receive oc (private_public oc key) (req0\<lparr>ur_order := x\<rparr>) st = Some st1"
      using recv[of None] by (simp add: accept_done_def req0_def)
    moreover have "upload_request oc algo config l key digest rest offset ordered order_step first = Inr (req0\<lparr>ur_order := x\<rparr>, ordered', step')"
      using False by (simp add: req)
    moreover have "in_step algo l (offset + int b) ordered' False st1" using False st by (simp add: st1_def st0_def in_step_def)
    ultimately show ?thesis using False x(2) by (intro that) (auto simp: st1_def)
  qed
qed

lemma upload_loop_accepted:
  assumes oc: "order_crypto_ok oc" and b: "b = max (upload_buffer_size config) 1" "int b \<le> maximum_step config" "int b \<le> 2 ^ 62 - 1"
  shows "rest \<noteq> [] \<Longrightarrow> int b \<le> order_step \<Longrightarrow> in_step algo l offset ordered first st \<Longrightarrow> offset + int (length rest) \<le> ol_limit l \<Longrightarrow>
    \<exists>reqs st' h. (\<forall>s c. upload_loop oc pb algo config l key digest rest offset ordered order_step first s c = send_all (map (upload_request_encode pb) reqs) s c) \<and>
      receive_all oc (private_public oc key) reqs st = Some st' \<and> rc_bytes st' = rc_bytes st @ rest \<and>
      rc_done st' = Some h \<and> ph_hash h = digest \<and> ph_hash_algorithm h = algo_to_i32 algo"
proof (induction rest arbitrary: offset ordered order_step first st rule: length_induct)
  case (1 rest)
  obtain req ordered' step' st' where r:
    "upload_request oc algo config l key digest rest offset ordered order_step first = Inr (req, ordered', step')" "int b \<le> step'"
    "receive oc (private_public oc key) req st = Some st'" "rc_bytes st' = rc_bytes st @ take b rest"
    "if drop b rest = [] then \<exists>h. rc_done st' = Some h \<and> ph_hash h = digest \<and> ph_hash_algorithm h = algo_to_i32 algo
      else in_step algo l (offset + int b) ordered' False st'"
    using upload_request_accepted[OF oc b(1) 1(3) b(2,3) 1(4) 1(2) 1(5), of key digest thesis] by blast
  have d: "drop (min (length rest) b) rest = drop b rest" by (simp add: min_def)
  have loop: "upload_loop oc pb algo config l key digest rest offset ordered order_step first s c =
      (case send (upload_request_encode pb req) s c of (Inl e, s, c) \<Rightarrow> (Inl e, s, c)
       | (Inr _, s, c) \<Rightarrow> upload_loop oc pb algo config l key digest (drop b rest) (offset + int (min (length rest) b)) ordered' step' False s c)" for s c
    using 1(2) r(1) by (subst upload_loop.simps) (simp add: Let_def d[unfolded b(1), simplified] b(1) split: prod.split sum.split)
  show ?case
  proof (cases "drop b rest = []")
    case True
    have "upload_loop oc pb algo config l key digest rest offset ordered order_step first s c = send_all (map (upload_request_encode pb) [req]) s c" for s c
      unfolding loop True by (simp add: upload_loop.simps split: prod.split sum.split)
    then show ?thesis using True r by (intro exI[of _ "[req]"]) auto
  next
    case False
    have "length (drop b rest) < length rest" "0 < b" using 1(2) b(1) by auto
    then obtain reqs st2 h where IH:
      "\<And>s c. upload_loop oc pb algo config l key digest (drop b rest) (offset + int b) ordered' step' False s c = send_all (map (upload_request_encode pb) reqs) s c"
      "receive_all oc (private_public oc key) reqs st' = Some st2" "rc_bytes st2 = rc_bytes st' @ drop b rest"
      "rc_done st2 = Some h" "ph_hash h = digest" "ph_hash_algorithm h = algo_to_i32 algo"
      using 1(1)[rule_format, of "drop b rest" step' "offset + int b" ordered' False st'] False r(2,5) 1(5) by auto
    have "min (length rest) b = b" using False by simp
    then have "upload_loop oc pb algo config l key digest rest offset ordered order_step first s c = send_all (map (upload_request_encode pb) (req # reqs)) s c" for s c
      unfolding loop by (simp add: IH(1) split: prod.split sum.split)
    then show ?thesis using IH(2-) r(3,4) by (intro exI[of _ "req # reqs"]) auto
  qed
qed

subsection \<open>What a returned hash was checked against\<close>

lemma finish_upload_checked:
  assumes "finish_upload oc pb now algo peer l digest s c = (Inr h, s', c')"
  shows "ph_piece_id h = ol_piece_id l \<and> algo_from_i32 (ph_hash_algorithm h) = algo \<and> ph_hash h = digest \<and>
    \<not> timestamp_too_old now (ph_timestamp h) \<and> (\<exists>leaf. verify_piece_hash_node oc h leaf = Inr () \<and>
      (leaf = peer \<or> (\<exists>chain. verified_leaf (oc_b58 oc) (oc_pki oc) chain (ol_storage_node_id l) = Inr leaf)))"
proof -
  obtain leaf where leaf: "verify_sn_piece_hash oc now h l digest algo leaf = Inr ()"
    "leaf = peer \<or> (\<exists>chain. verified_leaf (oc_b58 oc) (oc_pki oc) chain (ol_storage_node_id l) = Inr leaf)"
    using assms by (auto simp: finish_upload_def try_bind_eq_Inr map_err_def split: prod.splits sum.splits if_splits)
  from leaf(1) have "ph_piece_id h = ol_piece_id l \<and> algo_from_i32 (ph_hash_algorithm h) = algo \<and> ph_hash h = digest \<and>
      \<not> timestamp_too_old now (ph_timestamp h) \<and> verify_piece_hash_node oc h leaf = Inr ()"
    by (auto simp: verify_sn_piece_hash_def try_bind_eq_Inr split: if_splits)
  with leaf(2) show ?thesis by blast
qed

section \<open>Properties\<close>

text \<open>
  C21: an upload sends a list of requests that the storage node accepts one after the other, whatever the size of the piece: the
  limit and the hash algorithm come first, each chunk continues the piece and is covered by an order that the piece key
  signed, no order exceeds the limit, and the last request carries the signed hash; the node then holds exactly the
  uploaded bytes.  The upload sends these requests and nothing else before it asks for the node's hash.
\<close>

theorem upload_conversation:
  assumes "order_crypto_ok oc" "sane_config (cl_config cl)" "int (length dat) \<le> ol_limit l"
  shows "\<exists>reqs st h.
    (\<forall>s c. upload_once oc pb now cl l key dat digest s c =
      (case send_all (map (upload_request_encode pb) reqs) s c of
         (Inl e, s, c) \<Rightarrow> (Inl e, s, c)
       | (Inr _, s, c) \<Rightarrow> finish_upload oc pb now (cl_hash_algo cl) (peer_cert_der cl) l digest s c)) \<and>
    receive_all oc (private_public oc key) reqs nothing_received = Some st \<and> rc_bytes st = dat \<and>
    rc_done st = Some h \<and> ph_hash h = digest \<and> ph_hash_algorithm h = algo_to_i32 (cl_hash_algo cl)"
proof (cases "dat = []")
  case True
  obtain h where h: "signed_uplink_hash oc l key digest 0 (cl_hash_algo cl) = Inr h" "ph_piece_id h = ol_piece_id l" "ph_hash h = digest"
    "ph_piece_size h = 0" "ph_hash_algorithm h = algo_to_i32 (cl_hash_algo cl)" "verify_piece_hash_uplink oc h (private_public oc key) = Inr ()"
    using signed_hash_ok[OF assms(1)] by blast
  let ?req = "\<lparr>ur_limit = Some l, ur_hash_algorithm = algo_to_i32 (cl_hash_algo cl), ur_order = None, ur_chunk = None, ur_done = Some h\<rparr>"
  have "receive oc (private_public oc key) ?req nothing_received =
      Some (nothing_received\<lparr>rc_limit := Some l, rc_algo := algo_to_i32 (cl_hash_algo cl), rc_done := Some h\<rparr>)"
    using h by (simp add: receive_def accept_limit_def accept_order_def accept_chunk_def accept_done_def nothing_received_def)
  then show ?thesis using True h
    by (intro exI[of _ "[?req]"]) (auto simp: upload_once_def nothing_received_def Let_def split: prod.split sum.split)
next
  case False
  let ?c = "cl_config cl"
  define b where "b = max (upload_buffer_size ?c) 1"
  have b: "int b \<le> initial_step ?c" "int b \<le> maximum_step ?c" "int b \<le> 2 ^ 62 - 1"
    using assms(2) by (simp_all add: sane_config_def b_def Let_def)
  have st: "in_step (cl_hash_algo cl) l 0 0 True nothing_received" by (simp add: in_step_def nothing_received_def)
  show ?thesis
    using upload_loop_accepted[OF assms(1) b_def b(2,3) False b(1) st, of pb key digest] assms(3) False
    by (auto simp: upload_once_def Let_def nothing_received_def)
qed

definition sample_pb :: PiecePb where
  "sample_pb = \<lparr>upload_request_encode = (\<lambda>r. case ur_chunk r of Some (_, d) \<Rightarrow> d | None \<Rightarrow> []),
    upload_response_decode = (\<lambda>_. None), download_request_encode = (\<lambda>_. []),
    download_response_decode = (\<lambda>m. Some \<lparr>ds_chunk = Some (0, m)\<rparr>)\<rparr>"

definition sample_client :: Client where
  "sample_client = client_new (new_conn \<lparr>incoming = [], outcomes = [], sent = []\<rparr>) [] []"

lemma sample_config: "sane_config (cl_config sample_client)"
  by (simp add: sample_client_def client_new_def default_config_def sane_config_def)

theorem upload_conversation_witness:
  "\<exists>reqs st h.
    (\<forall>s c. upload_once toy_order_crypto sample_pb 0 sample_client (sample_limit\<lparr>ol_limit := 5\<rparr>) [1] [1, 2, 3] [7] s c =
      (case send_all (map (upload_request_encode sample_pb) reqs) s c of
         (Inl e, s, c) \<Rightarrow> (Inl e, s, c)
       | (Inr _, s, c) \<Rightarrow> finish_upload toy_order_crypto sample_pb 0 (cl_hash_algo sample_client) (peer_cert_der sample_client) (sample_limit\<lparr>ol_limit := 5\<rparr>) [7] s c)) \<and>
    receive_all toy_order_crypto (private_public toy_order_crypto [1]) reqs nothing_received = Some st \<and> rc_bytes st = [1, 2, 3] \<and>
    rc_done st = Some h \<and> ph_hash h = [7] \<and> ph_hash_algorithm h = algo_to_i32 (cl_hash_algo sample_client)"
  using upload_conversation[OF toy_order_crypto_ok, of sample_client "[1, 2, 3]" "sample_limit\<lparr>ol_limit := 5\<rparr>" sample_pb 0 "[1]" "[7]"]
  by (simp add: sample_config)

text \<open>
  C22: a piece hash that \<open>upload\<close> returns is the node's signed statement about exactly the uploaded bytes: the limit carries a
  valid satellite signature, allows uploads and covers the piece; the hash names the piece of the limit, is the digest of
  the data in the client's algorithm, is not older than a day, and is signed by the peer certificate or by a leaf
  certificate that the response's chain ties to the node of the limit.
\<close>

theorem upload_returns_checked_hash:
  assumes "upload oc pb now l key dat cl = (Inr h, cl')"
  shows "verify_order_limit oc l (satellite_cert_der cl) = Inr () \<and> (ol_action l = Put \<or> ol_action l = PutRepair) \<and>
    int (length dat) \<le> ol_limit l \<and> ph_piece_id h = ol_piece_id l \<and> algo_from_i32 (ph_hash_algorithm h) = cl_hash_algo cl \<and>
    ph_hash h = hasher_finalize oc (hasher_update (hasher_new (cl_hash_algo cl)) dat) \<and> \<not> timestamp_too_old now (ph_timestamp h) \<and>
    (\<exists>leaf. verify_piece_hash_node oc h leaf = Inr () \<and>
      (leaf = peer_cert_der cl \<or> (\<exists>chain. verified_leaf (oc_b58 oc) (oc_pki oc) chain (ol_storage_node_id l) = Inr leaf)))"
proof -
  let ?digest = "hasher_finalize oc (hasher_update (hasher_new (cl_hash_algo cl)) dat)"
  have guards: "verify_order_limit oc l (satellite_cert_der cl) = Inr ()" "ol_action l = Put \<or> ol_action l = PutRepair"
    "int (length dat) \<le> ol_limit l"
    using assms by (auto simp: upload_def split: sum.splits if_splits)
  obtain o' c where o: "open_stream PIECESTORE_UPLOAD (cl_conn cl) = (o', c)" by (cases "open_stream PIECESTORE_UPLOAD (cl_conn cl)")
  obtain s where s: "o' = Inr s" using assms guards o by (cases o') (auto simp: upload_def Let_def)
  obtain r s' c' where r: "upload_once oc pb now cl l key dat ?digest s c = (r, s', c')" by (metis prod_cases3)
  have "r = Inr h" using assms guards o s r by (cases r) (auto simp: upload_def Let_def try_bind_eq_Inr split: prod.splits)
  note once = r[unfolded this]
  from once obtain s c where "finish_upload oc pb now (cl_hash_algo cl) (peer_cert_der cl) l ?digest s c = (Inr h, s', c')"
    by (auto simp: upload_once_def Let_def split: sum.splits prod.splits)
  from finish_upload_checked[OF this] guards show ?thesis by blast
qed

text \<open>The evaluation of large buffer sizes needs binary natural numbers, and recursion without the successor pattern.\<close>

lemma scan_conts_code [code]:
  "scan_conts n bs = (if n = 0 then (0, True) else case bs of
     [] \<Rightarrow> (0, False)
   | c # cs \<Rightarrow> if is_cont c then let (k, ok) = scan_conts (n - 1) cs in (Suc k, ok) else (0, False))"
  by (cases n; cases bs) simp_all

lemma split_certs_code [code]:
  "split_certs p n rest = (if rest = [] then Inr [] else if n = 0 then Inl (Certificate ''no progress'') else
     case x509_from_der p rest of
       None \<Rightarrow> Inl (Certificate ''parse'')
     | Some (remaining, _) \<Rightarrow> try_bind (split_certs p (n - 1) remaining) (\<lambda>cs. Inr (take (length rest - length remaining) rest # cs)))"
  by (cases n; cases rest) (simp_all split: option.split)

text \<open>A node that answers at once, and signs with the key of its leaf certificate.\<close>

definition open_crypto :: OrderCrypto where
  "open_crypto = \<lparr>oc_pki = toy_pki, oc_b58 = toy_b58, ed_verifying_key = (\<lambda>k. k), ed_is_key = (\<lambda>k. True), ed_sign = (\<lambda>k m. k),
     ed_verify = (\<lambda>k m s. k = s), blake3 = (\<lambda>x. 6 # x), limit_signing_encode = (\<lambda>_. []), order_signing_encode = (\<lambda>_. []),
     hash_signing_encode = (\<lambda>_. [])\<rparr>"

definition node_hash :: PieceHash where
  "node_hash = \<lparr>ph_piece_id = [4], ph_hash = [6, 1, 2, 3], ph_piece_size = 3, ph_timestamp = Some \<lparr>ts_seconds = 1000, ts_nanos = 0\<rparr>,
     ph_signature = [5], ph_hash_algorithm = 1\<rparr>"

definition node_pb :: PiecePb where
  "node_pb = sample_pb\<lparr>upload_response_decode := (\<lambda>_. Some \<lparr>us_done = Some node_hash, us_node_certchain = [1, 9, 5, 2, 9, 9]\<rparr>)\<rparr>"

definition node_client :: "bytes \<Rightarrow> Client" where
  "node_client bs = client_new (new_conn \<lparr>incoming = [RData bs], outcomes = [], sent = []\<rparr>) [1, 9, 5] []"

theorem upload_returns_checked_hash_witness:
  "\<exists>leaf. verify_piece_hash_node open_crypto node_hash leaf = Inr () \<and>
      (leaf = [] \<or> (\<exists>chain. verified_leaf toy_b58 toy_pki chain ([9] @ replicate 31 0) = Inr leaf))"
proof -
  have "case upload open_crypto node_pb (2000 * 1000000000) (sample_limit\<lparr>ol_satellite_signature := [5]\<rparr>) [7] [1, 2, 3] (node_client [5, 1, 1, 1, 42]) of
      (Inr h, _) \<Rightarrow> h = node_hash | _ \<Rightarrow> False"
    by code_simp
  then obtain cl' where "upload open_crypto node_pb (2000 * 1000000000) (sample_limit\<lparr>ol_satellite_signature := [5]\<rparr>) [7] [1, 2, 3]
      (node_client [5, 1, 1, 1, 42]) = (Inr node_hash, cl')" by (auto split: prod.splits sum.splits)
  from upload_returns_checked_hash[OF this] show ?thesis
    by (auto simp: open_crypto_def node_client_def client_new_def sample_limit_def)
qed

text \<open>
  A successful download has exactly the requested number of bytes, and is only attempted for a validly signed limit that
  allows downloads and covers them.  An empty range needs no request: the connection is untouched.
\<close>

theorem download_returns_requested_size:
  assumes "download oc pb l key offset sz cl = (Inr out, cl')"
  shows "int (length out) = sz" "verify_order_limit oc l (satellite_cert_der cl) = Inr ()" "ol_action l \<in> {Get, GetAudit, GetRepair}"
    "0 \<le> offset" "offset + sz \<le> i64_max" "sz \<le> ol_limit l" "sz = 0 \<Longrightarrow> cl' = cl"
  using assms
  by (auto simp: download_def download_once_def Let_def split: sum.splits prod.splits if_splits)

theorem download_returns_requested_size_witness:
  "\<exists>cl'. download open_crypto node_pb (sample_limit\<lparr>ol_satellite_signature := [5], ol_action := 2\<rparr>) [7] 10 2 (node_client [5, 1, 1, 3, 42, 43, 44]) =
    (Inr [42, 43], cl') \<and> int (length [42, 43 :: u8]) = 2"
proof -
  have "case download open_crypto node_pb (sample_limit\<lparr>ol_satellite_signature := [5], ol_action := 2\<rparr>) [7] 10 2 (node_client [5, 1, 1, 3, 42, 43, 44]) of
      (Inr out, _) \<Rightarrow> out = [42, 43] | _ \<Rightarrow> False"
    by code_simp
  then obtain cl' where d: "download open_crypto node_pb (sample_limit\<lparr>ol_satellite_signature := [5], ol_action := 2\<rparr>) [7] 10 2
      (node_client [5, 1, 1, 3, 42, 43, 44]) = (Inr [42, 43], cl')" by (auto split: prod.splits sum.splits)
  with download_returns_requested_size(1)[OF d] show ?thesis by blast
qed

text \<open>
  While a download waits for data the node still has an allowance: the top-up before each wait orders more than what was
  received, never more than the requested size, and every new order is a larger amount signed by the piece key.
\<close>

theorem top_up_keeps_allowance:
  assumes "order_crypto_ok oc" "1 \<le> step" "1 \<le> maximum_step config" "received \<le> allocated" "allocated \<le> sz" "received < sz" "0 \<le> received" "sz \<le> i64_max"
  shows "\<exists>ord step' allocated'. download_top_up oc config l key sz received step allocated = Inr (ord, step', allocated') \<and>
    1 \<le> step' \<and> received < allocated' \<and> allocated \<le> allocated' \<and> allocated' \<le> sz \<and>
    (case ord of
       None \<Rightarrow> step' = step \<and> allocated' = allocated
     | Some ord \<Rightarrow> allocated < allocated' \<and> o_amount ord = allocated' \<and> o_serial_number ord = ol_serial_number l \<and>
         verify_order oc ord (private_public oc key) = Inr ())"
proof (cases "allocated < sz \<and> allocated - received \<le> quot_i64 step 2")
  case True
  let ?step = "next_order_step step (maximum_step config)"
  have step: "1 \<le> ?step" using assms by (intro next_order_step_bounds) auto
  have alloc: "sat_i64 (allocated + ?step) > allocated" using step True assms by (simp add: sat_i64_def)
  obtain ord where "signed_order oc l key (min (sat_i64 (allocated + ?step)) sz) = Inr ord" "o_serial_number ord = ol_serial_number l"
    "o_amount ord = min (sat_i64 (allocated + ?step)) sz" "verify_order oc ord (private_public oc key) = Inr ()"
    using signed_order_ok[OF assms(1)] by blast
  then show ?thesis using True step alloc assms by (auto simp: download_top_up_def Let_def)
next
  case False
  then have "received < allocated" using assms by (auto simp: quot_i64_def not_le)
  then show ?thesis using False assms by (auto simp: download_top_up_def)
qed

theorem top_up_keeps_allowance_witness:
  "\<exists>ord step' allocated'. download_top_up toy_order_crypto default_config sample_limit [1] 600000 200000 262144 262144 = Inr (ord, step', allocated') \<and>
    200000 < allocated' \<and> allocated' \<le> 600000"
  using top_up_keeps_allowance[OF toy_order_crypto_ok, of 262144 default_config 200000 262144 600000 sample_limit "[1]"]
  by (auto simp: default_config_def)

end
