(* ===== verification/Piece_Task.thy ===== *)
theory Piece_Task
  imports Piece_Store Segment_Upload
begin

text \<open>
  The transfer of one piece over a pooled connection: dialling, \<open>put_piece\<close> and \<open>upload_one_piece\<close> of
  \<open>crates/storj-uplink/src/segment.rs\<close>, \<open>get_piece\<close> and \<open>download_one_piece\<close> of \<open>crates/storj-uplink/src/download.rs\<close>.  What
  \<open>SnPool::checkout\<close> yields is an argument (its model is \<open>Conn_Pool\<close>), and so are the two dialling functions of
  \<open>storj-rpc\<close>.  A task returns its result together with what becomes of the pooled connection: the transport after the
  call and the \<open>keep\<close> flag that its guard is dropped with.

  Shown: only a healthy connection goes back to the pool.
\<close>

section \<open>The code\<close>

subsection \<open>Dialling\<close>

record SnTransport =
  sn_conn :: "Conn option"
  sn_peer_cert :: bytes

datatype TransportMode = Tcp | Quic | Auto | Noise

type_synonym Dialed = "io_error + (Transport \<times> bytes)"

definition dial_sn_with_options ::
  "(bytes \<Rightarrow> int \<Rightarrow> bytes \<Rightarrow> bool \<Rightarrow> Dialed) \<Rightarrow> (bytes \<Rightarrow> bytes \<Rightarrow> Dialed) \<Rightarrow>
    bytes \<Rightarrow> bytes \<Rightarrow> nat \<Rightarrow> TransportMode \<Rightarrow> (int \<times> bytes) option \<Rightarrow> bool \<Rightarrow> UplinkError + SnTransport" where
  "dial_sn_with_options dial_noise dial_tls node_id address message_timeout mode noise_info fast_open =
    try_bind (map_err (\<lambda>e. if e = TimedOut then DialTimeout else UpIo e)
      (case (if mode = Noise then noise_info else None) of
         Some (proto, public_key) \<Rightarrow>
           if proto \<noteq> 0 \<or> public_key \<noteq> [] then dial_noise address proto public_key fast_open else dial_tls node_id address
       | None \<Rightarrow> dial_tls node_id address)) (\<lambda>(transport, peer_cert).
      Inr \<lparr>sn_conn = Some (set_timeout (new_conn transport) message_timeout), sn_peer_cert = peer_cert\<rparr>)"

definition dial_sn where
  "dial_sn dial_noise dial_tls node_id address message_timeout =
    dial_sn_with_options dial_noise dial_tls node_id address message_timeout Noise None False"

subsection \<open>One transfer\<close>

definition is_transport_error :: "UplinkError + 'a \<Rightarrow> bool" where
  "is_transport_error r =
    (case r of
       Inl (Rpc e) \<Rightarrow> (case e of Io _ \<Rightarrow> True | Closed \<Rightarrow> True | Truncated \<Rightarrow> True | Frame _ \<Rightarrow> True | MuxPrefix _ \<Rightarrow> True | _ \<Rightarrow> False)
     | _ \<Rightarrow> False)"

definition put_back :: "UplinkError + 'a \<Rightarrow> Conn \<Rightarrow> SnTransport \<Rightarrow> SnTransport" where
  "put_back r c t = (if \<not> poisoned c \<and> \<not> is_transport_error r then t\<lparr>sn_conn := Some c\<rparr> else t)"

definition put_piece :: "OrderCrypto \<Rightarrow> PiecePb \<Rightarrow> int \<Rightarrow> bytes \<Rightarrow> bytes \<Rightarrow> OrderLimit \<Rightarrow> bytes \<Rightarrow> SnTransport \<Rightarrow> (UplinkError + PieceHash) \<times> SnTransport" where
  "put_piece oc pb now satellite_cert key l dat t =
    (case sn_conn t of
       None \<Rightarrow> (Inl (UpProtocol ''storage-node connection in use''), t)
     | Some c \<Rightarrow>
       (let t = t\<lparr>sn_conn := None\<rparr>;
            client = with_config (client_new c satellite_cert (sn_peer_cert t)) default_config;
            (r, client) = upload oc pb now l key dat client
        in (r, put_back r (cl_conn client) t)))"

definition get_piece :: "OrderCrypto \<Rightarrow> PiecePb \<Rightarrow> bytes \<Rightarrow> bytes \<Rightarrow> OrderLimit \<Rightarrow> int \<Rightarrow> int \<Rightarrow> SnTransport \<Rightarrow> (UplinkError + bytes) \<times> SnTransport" where
  "get_piece oc pb satellite_cert key l offset sz t =
    (case sn_conn t of
       None \<Rightarrow> (Inl (UpProtocol ''storage-node connection in use''), t)
     | Some c \<Rightarrow>
       (let t = t\<lparr>sn_conn := None\<rparr>;
            client = with_config (client_new c satellite_cert (sn_peer_cert t)) default_config;
            (r, client) = download oc pb l key offset sz client
        in (r, put_back r (cl_conn client) t)))"

subsection \<open>One task\<close>

text \<open>What a task leaves of its pooled connection: the transport and the \<open>keep\<close> flag of \<open>HeldPooled\<close>.\<close>

type_synonym 'r task = "'r \<times> (SnTransport \<times> bool) option"

definition upload_one_piece :: "OrderCrypto \<Rightarrow> PiecePb \<Rightarrow> int \<Rightarrow> bytes \<Rightarrow> bytes \<Rightarrow> bytes list \<Rightarrow> nat \<Rightarrow> UplinkError + SnTransport \<Rightarrow> PieceAssignment \<Rightarrow>
    ((int \<times> UplinkError) + PieceResult) task" where
  "upload_one_piece oc pb now satellite_cert key pieces idx checkout asg =
    (case checkout of
       Inl e \<Rightarrow> (Inl (piece_num asg, e), None)
     | Inr t \<Rightarrow>
       (let dat = (if idx < length pieces then pieces ! idx else [])
        in case put_piece oc pb now satellite_cert key (asg_limit asg) dat t of
             (Inr h, t) \<Rightarrow> (Inr \<lparr>pr_num = piece_num asg, pr_node_id = asg_node_id asg, pr_hash = Some h\<rparr>, Some (t, sn_conn t \<noteq> None))
           | (Inl e, t) \<Rightarrow> (Inl (piece_num asg, e), Some (t, False))))"

definition failed_stage :: "UplinkError \<Rightarrow> DownloadStage" where
  "failed_stage e =
    (case e of InvalidDownloadRange _ _ _ \<Rightarrow> Validation | DownloadLimit _ _ _ \<Rightarrow> Validation | OrderLimitSignature \<Rightarrow> Validation | _ \<Rightarrow> Transfer)"

definition download_one_piece :: "(bytes \<Rightarrow> string) \<Rightarrow> OrderCrypto \<Rightarrow> PiecePb \<Rightarrow> bytes \<Rightarrow> bytes \<Rightarrow> int \<Rightarrow> int \<Rightarrow> UplinkError + SnTransport \<Rightarrow> PieceAssignment \<Rightarrow>
    (PieceDownloadFailure + (int \<times> bytes)) task" where
  "download_one_piece show_node oc pb satellite_cert key offset sz checkout asg =
    (let failure = (\<lambda>e stage. PieceDownloadFailure (piece_num asg) (show_node (asg_node_id asg)) stage e)
     in case checkout of
          Inl e \<Rightarrow> (Inl (failure e Connection), None)
        | Inr t \<Rightarrow>
          (case get_piece oc pb satellite_cert key (asg_limit asg) offset sz t of
             (Inr dat, t) \<Rightarrow> (Inr (piece_num asg, dat), Some (t, sn_conn t \<noteq> None))
           | (Inl e, t) \<Rightarrow> (Inl (failure e (failed_stage e)), Some (t, False))))"

section \<open>Poisoned connections\<close>

text \<open>
  The two halves of \<open>poison_safe\<close> for one call, with the errors of \<open>storj-rpc\<close> and with those of this crate: the flag stays up,
  and an I/O error raises it.
\<close>

definition rpc_safe :: "Conn \<Rightarrow> Drpc_Conn.Error + 'a \<Rightarrow> Conn \<Rightarrow> bool" where
  "rpc_safe c r c' \<longleftrightarrow> (poisoned c \<longrightarrow> poisoned c') \<and> (\<forall>e. r = Inl (Io e) \<longrightarrow> poisoned c')"

definition up_safe :: "Conn \<Rightarrow> UplinkError + 'a \<Rightarrow> Conn \<Rightarrow> bool" where
  "up_safe c r c' \<longleftrightarrow> (poisoned c \<longrightarrow> poisoned c') \<and> (\<forall>e. r = Inl (Rpc (Io e)) \<longrightarrow> poisoned c')"

lemma poison_safe_rpc: "poison_safe f \<Longrightarrow> f c = (r, c') \<Longrightarrow> rpc_safe c r c'"
  by (metis fst_conv snd_conv poison_safe_def rpc_safe_def)

lemma rpc_safe_ops:
  "close_send s c = (s', r, c') \<Longrightarrow> rpc_safe c r c'"
  "close_stream s c = (s', r, c') \<Longrightarrow> rpc_safe c r c'"
  "open_stream rpc c = (ro, c') \<Longrightarrow> rpc_safe c ro c'"
  "recv_msg s c = (rm, c') \<Longrightarrow> rpc_safe c rm c'"
  "recv_msg_opt s c = (rp, c') \<Longrightarrow> rpc_safe c rp c'"
proof -
  show *: "recv_msg s c = (rm, c') \<Longrightarrow> rpc_safe c rm c'" for rm c'
    using poison_safe_rpc[OF recv_loop_poison] by (auto simp: recv_msg_def)
  show "rpc_safe c rp c'" if "recv_msg_opt s c = (rp, c')"
    using * that by (auto simp: recv_msg_opt_def rpc_safe_def split: prod.splits sum.splits Drpc_Conn.Error.splits)
qed (use poison_safe_rpc[OF poison_safe_stream_ops(2), of rpc c ro c'] poison_safe_rpc[OF poison_safe_stream_ops(3), of s c r c']
    poison_safe_rpc[OF poison_safe_stream_ops(4), of s c r c'] in auto)

lemma send_safe: "send m s c = (r, s', c') \<Longrightarrow> up_safe c r c'"
  using poison_safe_rpc[OF send_msg_poison, of s m c]
  by (auto simp: send_def map_err_def up_safe_def rpc_safe_def split: prod.splits sum.splits)

lemma up_safe_trans: "up_safe c r c1 \<Longrightarrow> up_safe c1 r' c2 \<Longrightarrow> up_safe c r' c2"
  by (auto simp: up_safe_def)

lemma up_safe_refl: "(\<And>e. r \<noteq> Inl (Rpc (Io e))) \<Longrightarrow> up_safe c r c"
  by (simp add: up_safe_def)

lemma upload_request_total: "\<exists>x. upload_request oc algo config l key digest rest offset ordered step first = Inr x"
proof -
  have "signed_uplink_hash oc l key digest sz algo \<noteq> Inl e" "signed_order oc l key amount \<noteq> Inl e" for sz amount e
    by (simp_all add: signed_uplink_hash_def sign_piece_hash_uplink_def signed_order_eq)
  then have "upload_request oc algo config l key digest rest offset ordered step first \<noteq> Inl e" for e
    by (auto simp: upload_request_def Let_def try_bind_eq_Inl split: if_splits)
  then show ?thesis by (metis old.sum.exhaust)
qed

lemma download_top_up_total: "\<exists>x. download_top_up oc config l key sz received step allocated = Inr x"
  by (simp add: download_top_up_def signed_order_eq Let_def)

lemma upload_loop_safe: "upload_loop oc pb algo config l key digest rest offset ordered step first s c = (r, s', c') \<Longrightarrow> up_safe c r c'"
proof (induction oc pb algo config l key digest rest offset ordered step first s c arbitrary: r rule: upload_loop.induct)
  case (1 oc pb algo config l key digest rest offset ordered step first s c)
  show ?case
  proof (cases "rest = []")
    case True
    then show ?thesis using 1(2) by (auto simp: upload_loop.simps intro: up_safe_refl)
  next
    case False
    obtain req ordered' step' where req: "upload_request oc algo config l key digest rest offset ordered step first = Inr (req, ordered', step')"
      using upload_request_total by (metis prod_cases3)
    obtain r1 s1 c1 where s: "send (upload_request_encode pb req) s c = (r1, s1, c1)" by (metis prod_cases3)
    show ?thesis
    proof (cases r1)
      case (Inl e)
      then show ?thesis using 1(2) False req s send_safe[OF s] by (subst (asm) upload_loop.simps) auto
    next
      case (Inr u)
      have "upload_loop oc pb algo config l key digest (drop (min (length rest) (max (upload_buffer_size config) 1)) rest)
          (offset + int (min (length rest) (max (upload_buffer_size config) 1))) ordered' step' False s1 c1 = (r, s', c')"
        using 1(2) False req s Inr by (subst (asm) upload_loop.simps) (simp add: Let_def)
      from 1(1)[OF False req refl refl s[symmetric] Inr refl refl this] show ?thesis using send_safe[OF s] up_safe_trans by blast
    qed
  qed
qed

lemma checks_not_io:
  "verify_order_limit oc l cert \<noteq> Inl (Rpc e)" "verify_sn_piece_hash oc now h l digest algo leaf \<noteq> Inl (Rpc e)"
  "signed_uplink_hash oc l key digest sz algo \<noteq> Inl err" "signed_order oc l key amount \<noteq> Inl err"
  by (auto simp: verify_order_limit_def verify_sn_piece_hash_def verify_piece_hash_node_def signed_uplink_hash_def
      sign_piece_hash_uplink_def signed_order_eq map_err_def try_bind_def split: sum.splits if_splits)

lemma finish_upload_safe:
  assumes "finish_upload oc pb now algo peer l digest s c = (r, s', c')" shows "up_safe c r c'"
proof -
  obtain s1 r1 c1 where cs: "close_send s c = (s1, r1, c1)" by (metis prod_cases3)
  obtain r2 c2 where rm: "recv_msg s1 c1 = (r2, c2)" by (cases "recv_msg s1 c1")
  note safe = rpc_safe_ops(1)[OF cs] rpc_safe_ops(4)[OF rm]
  show ?thesis
  proof (cases "\<exists>x dat. r1 = Inr x \<and> r2 = Inr dat")
    case True
    then have "c' = c2" "r \<noteq> Inl (Rpc e)" for e
      using assms by (auto simp: finish_upload_def cs rm try_bind_eq_Inl ok_or_def map_err_def checks_not_io split: if_splits sum.splits option.splits)
    then show ?thesis using safe by (auto simp: up_safe_def rpc_safe_def)
  next
    case False
    then show ?thesis using assms safe
      by (cases r1; cases r2) (auto simp: finish_upload_def cs rm up_safe_def rpc_safe_def)
  qed
qed

lemma upload_once_safe:
  assumes "upload_once oc pb now cl l key dat digest s c = (r, s', c')" shows "up_safe c r c'"
proof -
  obtain h where h: "signed_uplink_hash oc l key digest 0 (cl_hash_algo cl) = Inr h" using checks_not_io(3) by (metis old.sum.exhaust)
  define body where "body = (if dat = [] then send (upload_request_encode pb \<lparr>ur_limit = Some l, ur_hash_algorithm = algo_to_i32 (cl_hash_algo cl), ur_order = None,
      ur_chunk = None, ur_done = Some h\<rparr>) s c
    else upload_loop oc pb (cl_hash_algo cl) (cl_config cl) l key digest dat 0 0 (initial_step (cl_config cl)) True s c)"
  obtain r1 s1 c1 where b: "body = (r1, s1, c1)" by (metis prod_cases3)
  have s1: "up_safe c r1 c1" using b send_safe upload_loop_safe by (auto simp: body_def split: if_splits)
  have u: "upload_once oc pb now cl l key dat digest s c = (case body of
      (Inl e, s, c) \<Rightarrow> (Inl e, s, c) | (Inr _, s, c) \<Rightarrow> finish_upload oc pb now (cl_hash_algo cl) (peer_cert_der cl) l digest s c)"
    by (simp add: upload_once_def body_def h Let_def)
  show ?thesis using assms s1 up_safe_trans[OF s1 finish_upload_safe] unfolding u b
    by (cases r1) (auto simp: up_safe_def)
qed

text \<open>The common frame of both transfers: open a stream, run the body, close the stream.\<close>

lemma framed_safe:
  assumes o: "open_stream rpc c = (ro, c1)" and body: "\<And>s. ro = Inr s \<Longrightarrow> body s c1 = (r2, s2, c2) \<and> up_safe c1 r2 c2"
    and close: "close_stream s2 c2 = (s3, r3, c3)"
  shows "ro = Inl e \<Longrightarrow> up_safe c (Inl (Rpc e)) c1" "ro = Inr s \<Longrightarrow> up_safe c r2 c3" "ro = Inr s \<Longrightarrow> up_safe c (map_err Rpc r3) c3"
  using rpc_safe_ops(3)[OF o] body rpc_safe_ops(2)[OF close]
  by (auto simp: up_safe_def rpc_safe_def map_err_def split: sum.splits)

lemma upload_safe:
  assumes "upload oc pb now l key dat cl = (r, cl')" shows "up_safe (cl_conn cl) r (cl_conn cl')"
proof (cases "verify_order_limit oc l (satellite_cert_der cl) = Inr () \<and> (ol_action l = Put \<or> ol_action l = PutRepair) \<and> int (length dat) \<le> ol_limit l")
  case True
  let ?d = "hasher_finalize oc (hasher_update (hasher_new (cl_hash_algo cl)) dat)"
  obtain ro c1 where o: "open_stream PIECESTORE_UPLOAD (cl_conn cl) = (ro, c1)" by (cases "open_stream PIECESTORE_UPLOAD (cl_conn cl)")
  show ?thesis
  proof (cases ro)
    case (Inl e)
    then show ?thesis using assms True o rpc_safe_ops(3)[OF o] by (auto simp: upload_def Let_def up_safe_def rpc_safe_def)
  next
    case (Inr s)
    obtain r2 s2 c2 where b: "upload_once oc pb now cl l key dat ?d s c1 = (r2, s2, c2)" by (metis prod_cases3)
    obtain s3 r3 c3 where cl: "close_stream s2 c2 = (s3, r3, c3)" by (metis prod_cases3)
    have "cl_conn cl' = c3" "r = (case r2 of Inr h \<Rightarrow> try_bind (map_err Rpc r3) (\<lambda>_. Inr h) | Inl e \<Rightarrow> Inl e)"
      using assms True o Inr b cl by (auto simp: upload_def Let_def)
    then show ?thesis using framed_safe(2,3)[OF o _ cl Inr, of "upload_once oc pb now cl l key dat ?d"] b upload_once_safe[OF b] Inr
      by (cases r2; cases r3) (auto simp: up_safe_def)
  qed
qed (use assms checks_not_io(1) in \<open>auto simp: upload_def intro!: up_safe_refl split: sum.splits if_splits\<close>)

lemma download_loop_safe: "download_loop oc pb config l key sz out step allocated s c = (r, s', c') \<Longrightarrow> up_safe c r c'"
proof (induction oc pb config l key sz out step allocated s c arbitrary: r rule: download_loop.induct)
  case (1 oc pb config l key sz out step allocated s c)
  show ?case
  proof (cases "int (length out) \<ge> sz")
    case True
    then show ?thesis using 1(2) by (auto simp: download_loop.simps intro: up_safe_refl)
  next
    case False
    obtain ord step' alloc' where t: "download_top_up oc config l key sz (int (length out)) step allocated = Inr (ord, step', alloc')"
      by (metis download_top_up_total prod_cases3)
    obtain r1 s1 c1 where s: "send_top_up pb ord s c = (r1, s1, c1)" by (metis prod_cases3)
    have safe1: "up_safe c r1 c1" using s send_safe by (auto simp: send_top_up_def up_safe_def split: option.splits)
    obtain r2 c2 where rm: "recv_msg_opt s1 c1 = (r2, c2)" by (cases "recv_msg_opt s1 c1")
    have safe2: "up_safe c (map_err Rpc r2) c2"
      using safe1 rpc_safe_ops(5)[OF rm] by (auto simp: up_safe_def rpc_safe_def map_err_def split: sum.splits)
    note step = 1(2)[unfolded download_loop.simps[of oc pb config l key sz out step allocated s c]]
    consider (send) e where "r1 = Inl e" | (recv) u e where "r1 = Inr u" "r2 = Inl e" | (stop) u where "r1 = Inr u" "r2 = Inr None"
      | (dat) u d where "r1 = Inr u" "r2 = Inr (Some d)"
      by (metis old.sum.exhaust option.exhaust)
    then show ?thesis
    proof cases
      case dat
      show ?thesis
      proof (cases "download_response_decode pb d")
        case (Some resp)
        have "download_loop oc pb config l key sz (out @ (case ds_chunk resp of None \<Rightarrow> [] | Some (_, d) \<Rightarrow> d)) step' alloc' s1 c2 = (r, s', c')"
          using step False t s rm dat Some by simp
        from 1(1)[OF False t refl refl s[symmetric] dat(1) refl rm[symmetric] dat(2) refl Some this]
        show ?thesis using safe2 by (auto intro: up_safe_trans)
      qed (use step False t s rm dat safe2 in \<open>auto simp: up_safe_def\<close>)
    qed (use step False t s rm safe1 safe2 in \<open>auto simp: up_safe_def\<close>)
  qed
qed

lemma download_once_safe:
  assumes "download_once oc pb config l key offset sz s c = (r, s', c')" shows "up_safe c r c'"
proof -
  let ?step = "max (initial_step config) 1"
  obtain ord where ord: "signed_order oc l key (min sz ?step) = Inr ord" using checks_not_io(4) by (metis old.sum.exhaust)
  obtain r1 s1 c1 where s: "send (download_request_encode pb \<lparr>dr_limit = Some l, dr_order = Some ord, dr_chunk = Some (offset, sz),
      dr_maximum_chunk_size = maximum_chunk_size config\<rparr>) s c = (r1, s1, c1)" by (metis prod_cases3)
  obtain r2 s2 c2 where d: "download_loop oc pb config l key sz [] ?step (min sz ?step) s1 c1 = (r2, s2, c2)" by (metis prod_cases3)
  obtain s3 r3 c3 where cl: "close_send s2 c2 = (s3, r3, c3)" by (metis prod_cases3)
  note safe = send_safe[OF s] download_loop_safe[OF d] rpc_safe_ops(1)[OF cl]
  show ?thesis using assms safe
    by (cases r1; cases r2) (auto simp: download_once_def Let_def ord s d cl up_safe_def rpc_safe_def split: if_splits)
qed

lemma download_safe:
  assumes "download oc pb l key offset sz cl = (r, cl')" shows "up_safe (cl_conn cl) r (cl_conn cl')"
proof (cases "cl' = cl \<and> (\<forall>e. r \<noteq> Inl (Rpc e))")
  case False
  obtain ro c1 where o: "open_stream PIECESTORE_DOWNLOAD (cl_conn cl) = (ro, c1)" by (cases "open_stream PIECESTORE_DOWNLOAD (cl_conn cl)")
  have "(r, cl') = (case open_stream PIECESTORE_DOWNLOAD (cl_conn cl) of
        (Inl e, c) \<Rightarrow> (Inl (Rpc e), cl\<lparr>cl_conn := c\<rparr>)
      | (Inr s, c) \<Rightarrow> (case download_once oc pb (cl_config cl) l key offset sz s c of
           (r, s, c) \<Rightarrow> (case close_stream s c of (_, _, c) \<Rightarrow> (r, cl\<lparr>cl_conn := c\<rparr>))))"
    using assms False checks_not_io(1)[of oc l "satellite_cert_der cl"] by (auto simp: download_def split: sum.splits if_splits)
  note run = this[unfolded o]
  show ?thesis
  proof (cases ro)
    case (Inl e)
    then show ?thesis using run rpc_safe_ops(3)[OF o] by (auto simp: up_safe_def rpc_safe_def)
  next
    case (Inr s)
    obtain r2 s2 c2 where b: "download_once oc pb (cl_config cl) l key offset sz s c1 = (r2, s2, c2)" by (metis prod_cases3)
    obtain s3 r3 c3 where cl: "close_stream s2 c2 = (s3, r3, c3)" by (metis prod_cases3)
    show ?thesis using framed_safe(2)[OF o _ cl Inr, of "download_once oc pb (cl_config cl) l key offset sz"] b download_once_safe[OF b] Inr run cl
      by auto
  qed
qed (simp add: up_safe_refl)

lemma put_back_some: "sn_conn (put_back r c (t\<lparr>sn_conn := None\<rparr>)) = Some c' \<Longrightarrow> c' = c \<and> \<not> poisoned c"
  by (simp add: put_back_def split: if_splits)

lemma put_piece_healthy:
  assumes "put_piece oc pb now cert key l dat t = (r, t')" "sn_conn t' = Some c'"
  shows "\<exists>c. sn_conn t = Some c \<and> \<not> poisoned c \<and> \<not> poisoned c'"
proof (cases "sn_conn t")
  case (Some c)
  let ?cl = "with_config (client_new c cert (sn_peer_cert t)) default_config"
  obtain r1 cl where u: "upload oc pb now l key dat ?cl = (r1, cl)" by (cases "upload oc pb now l key dat ?cl")
  have "t' = put_back r1 (cl_conn cl) (t\<lparr>sn_conn := None\<rparr>)" using assms(1) Some u by (auto simp: put_piece_def)
  then show ?thesis using put_back_some assms(2) Some upload_safe[OF u] by (auto simp: up_safe_def with_config_def client_new_def)
qed (use assms in \<open>simp add: put_piece_def\<close>)

lemma get_piece_healthy:
  assumes "get_piece oc pb cert key l offset sz t = (r, t')" "sn_conn t' = Some c'"
  shows "\<exists>c. sn_conn t = Some c \<and> \<not> poisoned c \<and> \<not> poisoned c'"
proof (cases "sn_conn t")
  case (Some c)
  let ?cl = "with_config (client_new c cert (sn_peer_cert t)) default_config"
  obtain r1 cl where u: "download oc pb l key offset sz ?cl = (r1, cl)" by (cases "download oc pb l key offset sz ?cl")
  have "t' = put_back r1 (cl_conn cl) (t\<lparr>sn_conn := None\<rparr>)" using assms(1) Some u by (auto simp: get_piece_def)
  then show ?thesis using put_back_some assms(2) Some download_safe[OF u] by (auto simp: up_safe_def with_config_def client_new_def)
qed (use assms in \<open>simp add: get_piece_def\<close>)

section \<open>Properties\<close>

text \<open>
  C23: a task returns its pooled connection for reuse only after a successful transfer that left it healthy: the connection was
  not poisoned before, no I/O error or expired deadline occurred on it during the transfer, and it is still there.
\<close>

theorem only_healthy_connections_are_kept:
  "(upload_one_piece oc pb now satellite_cert key pieces idx (Inr t) asg = (r, Some (t', True)) \<longrightarrow>
     (\<exists>c c'. sn_conn t = Some c \<and> \<not> poisoned c \<and> sn_conn t' = Some c' \<and> \<not> poisoned c') \<and> (\<exists>res. r = Inr res)) \<and>
   (download_one_piece show_node oc pb satellite_cert key offset sz (Inr t) asg = (r', Some (t', True)) \<longrightarrow>
     (\<exists>c c'. sn_conn t = Some c \<and> \<not> poisoned c \<and> sn_conn t' = Some c' \<and> \<not> poisoned c') \<and> (\<exists>share. r' = Inr share))"
proof (intro conjI impI)
  assume "upload_one_piece oc pb now satellite_cert key pieces idx (Inr t) asg = (r, Some (t', True))"
  then show "\<exists>c c'. sn_conn t = Some c \<and> \<not> poisoned c \<and> sn_conn t' = Some c' \<and> \<not> poisoned c'" "\<exists>res. r = Inr res"
    using put_piece_healthy by (fastforce simp: upload_one_piece_def Let_def split: prod.splits sum.splits)+
next
  assume "download_one_piece show_node oc pb satellite_cert key offset sz (Inr t) asg = (r', Some (t', True))"
  then show "\<exists>c c'. sn_conn t = Some c \<and> \<not> poisoned c \<and> sn_conn t' = Some c' \<and> \<not> poisoned c'" "\<exists>share. r' = Inr share"
    using get_piece_healthy by (fastforce simp: download_one_piece_def Let_def split: prod.splits sum.splits)+
qed

text \<open>A download of two bytes over a fresh connection, which is kept.\<close>

definition sample_asg :: PieceAssignment where
  "sample_asg = \<lparr>piece_num = 3, asg_limit = sample_limit\<lparr>ol_satellite_signature := [5], ol_action := 2\<rparr>, asg_address = [], asg_node_id = [9],
     asg_noise_info = None, asg_fast_open = False, asg_tags = []\<rparr>"

definition sample_sn :: SnTransport where
  "sample_sn = \<lparr>sn_conn = Some (cl_conn (node_client [5, 1, 1, 3, 42, 43, 44])), sn_peer_cert = []\<rparr>"

theorem only_healthy_connections_are_kept_witness:
  "\<exists>t' c'. download_one_piece (\<lambda>_. []) open_crypto node_pb [1, 9, 5] [7] 10 2 (Inr sample_sn) sample_asg = (Inr (3, [42, 43]), Some (t', True)) \<and>
    sn_conn t' = Some c' \<and> \<not> poisoned c'"
proof -
  have "case download_one_piece (\<lambda>_. []) open_crypto node_pb [1, 9, 5] [7] 10 2 (Inr sample_sn) sample_asg of
      (Inr share, Some (_, keep)) \<Rightarrow> share = (3, [42, 43]) \<and> keep | _ \<Rightarrow> False"
    by code_simp
  then obtain t' where d: "download_one_piece (\<lambda>_. []) open_crypto node_pb [1, 9, 5] [7] 10 2 (Inr sample_sn) sample_asg = (Inr (3, [42, 43]), Some (t', True))"
    by (auto split: prod.splits sum.splits option.splits)
  from only_healthy_connections_are_kept d show ?thesis by blast
qed

end
