(* ===== verification/Piece_Collect.thy ===== *)
theory Piece_Collect
  imports Uplink_Error "HOL-Library.Multiset"
begin

text \<open>
  The long-tail download of pieces, \<open>collect_piece_downloads\<close>, \<open>download_pieces_long_tail\<close> and \<open>fetch_one_more\<close> of
  \<open>crates/storj-uplink/src/download.rs\<close>.  The tasks in the \<open>JoinSet\<close> run concurrently; what the scheduler does is a list of
  events: a running task finishes, the hedge timer fires, or a task panics.  An event that cannot happen in the current
  state makes the run \<open>Impossible\<close>.  The outcome of a task depends on its assignment only (\<open>outcome\<close>), not on the time
  at which it runs; \<open>piece_of\<close> is the piece number of an assignment.

  Shown: every run ends after at most two events per assignment; it returns exactly the required number of shares if
  enough assignments can be downloaded, whatever the order of events; it fails only when every assignment was tried;
  the number of speculative requests is bounded; and a replacement share is always of a new piece.
\<close>

section \<open>The code\<close>

definition LAUNCH_MARGIN :: nat where "LAUNCH_MARGIN = 1"
definition MAX_DECODE_EXTRAS :: nat where "MAX_DECODE_EXTRAS = 2"

type_synonym 'a outcome = "'a \<Rightarrow> PieceDownloadFailure + (int \<times> bytes)"

text \<open>The local variables of the loop; \<open>set\<close> is the list of running tasks in the order of their launch.\<close>

record 'a Collecting =
  queue :: "'a list"
  running :: "'a list"
  attempted :: nat
  successes :: "(int \<times> bytes) list"
  failures :: "PieceDownloadFailure list"
  hedges_left :: nat

record 'a Collected =
  shares :: "(int \<times> bytes) list"
  unused :: "'a list"

datatype event = Joined nat | HedgeTimer | Panicked nat

datatype 'a run = Returned "UplinkError + 'a Collected" | Running "'a Collecting" | Impossible

text \<open>\<open>queue.pop_front\<close>, then \<open>set.spawn\<close> if there was an assignment.\<close>

definition launch :: "'a Collecting \<Rightarrow> 'a Collecting" where
  "launch st = (case queue st of [] \<Rightarrow> st | asg # rest \<Rightarrow> st\<lparr>queue := rest, running := running st @ [asg], attempted := attempted st + 1\<rparr>)"

definition hedge_budget :: "nat \<Rightarrow> nat \<Rightarrow> nat" where
  "hedge_budget required margin = min (max ((required + 4) div 5) 2) required - margin"

definition start :: "'a list \<Rightarrow> nat \<Rightarrow> nat \<Rightarrow> 'a Collecting" where
  "start assignments required margin =
    (launch ^^ (required + margin))
      \<lparr>queue = assignments, running = [], attempted = 0, successes = [], failures = [], hedges_left = hedge_budget required margin\<rparr>"

definition remove_nth :: "nat \<Rightarrow> 'a list \<Rightarrow> 'a list" where
  "remove_nth i xs = take i xs @ drop (Suc i) xs"

fun collect_event :: "'a outcome \<Rightarrow> nat \<Rightarrow> bool \<Rightarrow> event \<Rightarrow> 'a Collecting \<Rightarrow> 'a run" where
  "collect_event outcome required hedging (Joined i) st =
    (if i \<ge> length (running st) then Impossible
     else let asg = running st ! i; st = st\<lparr>running := remove_nth i (running st)\<rparr>
     in case outcome asg of
          Inr piece \<Rightarrow>
            (let st = st\<lparr>successes := successes st @ [piece]\<rparr>
             in if length (successes st) \<ge> required then Returned (Inr \<lparr>shares = successes st, unused = queue st\<rparr>) else Running st)
        | Inl failure \<Rightarrow> Running (launch (st\<lparr>failures := failures st @ [failure]\<rparr>)))"
| "collect_event outcome required hedging HedgeTimer st =
    (if hedging \<and> hedges_left st > 0 \<and> queue st \<noteq> [] then Running ((launch st)\<lparr>hedges_left := hedges_left st - 1\<rparr>) else Impossible)"
| "collect_event outcome required hedging (Panicked i) st =
    (if i \<ge> length (running st) then Impossible else Returned (Inl (UpProtocol ''piece download join'')))"

fun collect_loop :: "'a outcome \<Rightarrow> nat \<Rightarrow> bool \<Rightarrow> int \<Rightarrow> int \<Rightarrow> event list \<Rightarrow> 'a Collecting \<Rightarrow> 'a run" where
  "collect_loop outcome required hedging offset sz evs st =
    (if running st = [] then
       Returned (Inl (PieceDownload (PieceDownloadError required (length (successes st)) (attempted st) offset sz
         (sort_key pdf_piece_num (failures st)))))
     else case evs of
       [] \<Rightarrow> Running st
     | ev # evs \<Rightarrow>
       (case collect_event outcome required hedging ev st of
          Running st \<Rightarrow> collect_loop outcome required hedging offset sz evs st
        | r \<Rightarrow> r))"

declare collect_loop.simps [simp del]

definition collect_piece_downloads :: "'a outcome \<Rightarrow> 'a list \<Rightarrow> nat \<Rightarrow> nat \<Rightarrow> nat \<Rightarrow> int \<Rightarrow> int \<Rightarrow> event list \<Rightarrow> 'a run" where
  "collect_piece_downloads outcome assignments required margin hedge_delay offset sz evs =
    (if offset < 0 \<or> sz < 0 \<or> offset + sz > i64_max then Returned (Inl (InvalidDownloadRange offset sz ''negative or overflowing range''))
     else if sz = 0 then Returned (Inr \<lparr>shares = [], unused = assignments\<rparr>)
     else collect_loop outcome required (hedge_delay \<noteq> 0) offset sz evs (start assignments required margin))"

record 'a DownloadedPieces =
  dp_shares :: "(int \<times> bytes) list"
  dp_unused :: "'a list"
  dp_offset :: int
  dp_size :: int

definition download_pieces_long_tail :: "'a outcome \<Rightarrow> ('a \<Rightarrow> int) \<Rightarrow> 'a list \<Rightarrow> nat \<Rightarrow> nat \<Rightarrow> int \<Rightarrow> int \<Rightarrow> event list \<Rightarrow>
    (UplinkError + 'a DownloadedPieces) option" where
  "download_pieces_long_tail outcome piece_of assignments k hedge_delay offset sz evs =
    (case collect_piece_downloads outcome assignments k LAUNCH_MARGIN hedge_delay offset sz evs of
       Returned (Inl e) \<Rightarrow> Some (Inl e)
     | Returned (Inr collected) \<Rightarrow>
       (let have = set (map fst (shares collected))
        in Some (Inr \<lparr>dp_shares = shares collected, dp_unused = filter (\<lambda>a. piece_of a \<notin> have) assignments, dp_offset = offset, dp_size = sz\<rparr>))
     | _ \<Rightarrow> None)"

text \<open>The assignments are drained before the call, so an error leaves none.\<close>

definition fetch_one_more :: "'a outcome \<Rightarrow> event list \<Rightarrow> 'a DownloadedPieces \<Rightarrow> ((UplinkError + (int \<times> bytes) option) \<times> 'a DownloadedPieces) option" where
  "fetch_one_more outcome evs dp =
    (if dp_unused dp = [] then Some (Inr None, dp)
     else case collect_piece_downloads outcome (dp_unused dp) 1 0 0 (dp_offset dp) (dp_size dp) evs of
       Returned (Inr collected) \<Rightarrow> Some (Inr (case shares collected of [] \<Rightarrow> None | x # _ \<Rightarrow> Some x), dp\<lparr>dp_unused := unused collected\<rparr>)
     | Returned (Inl (PieceDownload _)) \<Rightarrow> Some (Inr None, dp\<lparr>dp_unused := []\<rparr>)
     | Returned (Inl e) \<Rightarrow> Some (Inl e, dp\<lparr>dp_unused := []\<rparr>)
     | _ \<Rightarrow> None)"

section \<open>The invariant of the loop\<close>

text \<open>The shares and the failures of a list of assignments, in its order.\<close>

definition oks :: "'a outcome \<Rightarrow> 'a list \<Rightarrow> (int \<times> bytes) list" where
  "oks outcome xs = List.map_filter (\<lambda>a. case outcome a of Inr p \<Rightarrow> Some p | Inl _ \<Rightarrow> None) xs"

definition errs :: "'a outcome \<Rightarrow> 'a list \<Rightarrow> PieceDownloadFailure list" where
  "errs outcome xs = List.map_filter (\<lambda>a. case outcome a of Inl e \<Rightarrow> Some e | Inr _ \<Rightarrow> None) xs"

lemma oks_errs_simps [simp]:
  "oks outcome [] = []" "errs outcome [] = []" "oks outcome (xs @ ys) = oks outcome xs @ oks outcome ys" "errs outcome (xs @ ys) = errs outcome xs @ errs outcome ys"
  "oks outcome (x # xs) = (case outcome x of Inr p \<Rightarrow> p # oks outcome xs | Inl _ \<Rightarrow> oks outcome xs)"
  "errs outcome (x # xs) = (case outcome x of Inl e \<Rightarrow> e # errs outcome xs | Inr _ \<Rightarrow> errs outcome xs)"
  by (simp_all add: oks_def errs_def List.map_filter_def split: sum.split)

lemma oks_mset: "mset xs = mset ys \<Longrightarrow> mset (oks outcome xs) = mset (oks outcome ys)"
  by (simp add: oks_def List.map_filter_def)

lemma errs_mset: "mset xs = mset ys \<Longrightarrow> mset (errs outcome xs) = mset (errs outcome ys)"
  by (simp add: errs_def List.map_filter_def)

text \<open>
  \<open>d\<close> lists the finished tasks in the order in which they finished.  The loop never waits with too few tasks: unless the queue
  is used up, the shares it has and the tasks that run suffice.
\<close>

definition collecting :: "'a outcome \<Rightarrow> 'a list \<Rightarrow> nat \<Rightarrow> nat \<Rightarrow> 'a list \<Rightarrow> 'a Collecting \<Rightarrow> bool" where
  "collecting outcome asgs required margin d st \<longleftrightarrow>
    mset asgs = mset (queue st) + mset (running st) + mset d \<and> successes st = oks outcome d \<and> failures st = errs outcome d \<and>
    attempted st = length (running st) + length d \<and> length (successes st) < required \<and>
    (queue st = [] \<or> required \<le> length (running st) + length (successes st)) \<and>
    hedges_left st \<le> hedge_budget required margin \<and>
    attempted st + hedges_left st \<le> required + margin + length (failures st) + hedge_budget required margin"

definition potential :: "'a Collecting \<Rightarrow> nat" where
  "potential st = 2 * length (queue st) + length (running st)"

lemma launch_simps:
  "successes (launch st) = successes st" "failures (launch st) = failures st" "hedges_left (launch st) = hedges_left st"
  "mset (queue (launch st)) + mset (running (launch st)) = mset (queue st) + mset (running st)"
  "attempted (launch st) = attempted st + (if queue st = [] then 0 else 1)"
  "length (running (launch st)) = length (running st) + (if queue st = [] then 0 else 1)"
  "length (queue (launch st)) = length (queue st) - 1" "queue st = [] \<Longrightarrow> queue (launch st) = []"
  by (auto simp: launch_def split: list.splits)

lemma start_collecting:
  assumes "1 \<le> required"
  shows "collecting outcome asgs required margin [] (start asgs required margin)" "potential (start asgs required margin) \<le> 2 * length asgs"
proof -
  define s0 where "s0 = \<lparr>queue = asgs, running = [], attempted = 0, successes = [], failures = [], hedges_left = hedge_budget required margin\<rparr>"
  have *: "successes ((launch ^^ n) s0) = [] \<and> failures ((launch ^^ n) s0) = [] \<and> hedges_left ((launch ^^ n) s0) = hedge_budget required margin \<and>
      mset (queue ((launch ^^ n) s0)) + mset (running ((launch ^^ n) s0)) = mset asgs \<and> attempted ((launch ^^ n) s0) = min n (length asgs) \<and>
      length (running ((launch ^^ n) s0)) = min n (length asgs) \<and> length (queue ((launch ^^ n) s0)) = length asgs - n" for n
    by (induction n) (auto simp: launch_simps s0_def simp flip: length_0_conv)
  show "collecting outcome asgs required margin [] (start asgs required margin)" "potential (start asgs required margin) \<le> 2 * length asgs"
    using *[of "required + margin"] assms by (auto simp: start_def s0_def[symmetric] collecting_def potential_def simp flip: length_0_conv)
qed

lemma remove_nth_mset: "i < length xs \<Longrightarrow> mset xs = add_mset (xs ! i) (mset (remove_nth i xs))"
  by (metis id_take_nth_drop mset_append mset.simps(2) remove_nth_def union_mset_add_mset_right)

lemma remove_nth_length: "i < length xs \<Longrightarrow> length (remove_nth i xs) = length xs - 1"
  by (simp add: remove_nth_def)

lemma collect_event_step:
  assumes inv: "collecting outcome asgs required margin d st" and ev: "collect_event outcome required hedging ev st = r"
  shows "r = Running st' \<Longrightarrow> (\<exists>d'. collecting outcome asgs required margin d' st') \<and> potential st' < potential st"
    "r = Returned (Inr c) \<Longrightarrow> length (shares c) = required \<and> (\<exists>d'. shares c = oks outcome d' \<and> mset d' + mset (unused c) \<subseteq># mset asgs)"
    "r = Returned (Inl e) \<Longrightarrow> \<exists>i. ev = Panicked i"
proof -
  note I = inv[unfolded collecting_def]
  have "(r = Running st' \<longrightarrow> (\<exists>d'. collecting outcome asgs required margin d' st') \<and> potential st' < potential st) \<and>
    (r = Returned (Inr c) \<longrightarrow> length (shares c) = required \<and> (\<exists>d'. shares c = oks outcome d' \<and> mset d' + mset (unused c) \<subseteq># mset asgs)) \<and>
    (r = Returned (Inl e) \<longrightarrow> (\<exists>i. ev = Panicked i))"
  proof (cases ev)
    case (Joined i)
    show ?thesis
    proof (cases "i < length (running st)")
      case True
      define a where "a = running st ! i"
      note run = remove_nth_mset[OF True, folded a_def] remove_nth_length[OF True]
      show ?thesis
      proof (cases "outcome a")
        case (Inr piece)
        have "collecting outcome asgs required margin (d @ [a]) (st\<lparr>running := remove_nth i (running st), successes := successes st @ [piece]\<rparr>)"
          if "length (successes st) + 1 < required" using that I run True Inr by (auto simp: collecting_def)
        moreover have "mset (d @ [a]) + mset (queue st) \<subseteq># mset asgs" using I run by simp
        ultimately show ?thesis using ev Joined True Inr I run
          by (auto simp: a_def[symmetric] Let_def potential_def intro!: exI[of _ "d @ [a]"] split: if_splits)
      next
        case (Inl f)
        have "collecting outcome asgs required margin (d @ [a]) (launch (st\<lparr>running := remove_nth i (running st), failures := failures st @ [f]\<rparr>))"
          using I run True Inl by (auto simp: collecting_def launch_simps)
        then show ?thesis using ev Joined True Inl run
          by (auto simp: a_def[symmetric] Let_def potential_def launch_simps)
      qed
    qed (use ev Joined in auto)
  next
    case HedgeTimer
    have "collecting outcome asgs required margin d ((launch st)\<lparr>hedges_left := hedges_left st - 1\<rparr>)" if "hedges_left st > 0" "queue st \<noteq> []"
      using that I by (auto simp: collecting_def launch_simps)
    then show ?thesis using ev HedgeTimer by (cases "queue st") (auto simp: potential_def launch_simps split: if_splits)
  qed (use ev in \<open>auto split: if_splits\<close>)
  then show "r = Running st' \<Longrightarrow> (\<exists>d'. collecting outcome asgs required margin d' st') \<and> potential st' < potential st"
    "r = Returned (Inr c) \<Longrightarrow> length (shares c) = required \<and> (\<exists>d'. shares c = oks outcome d' \<and> mset d' + mset (unused c) \<subseteq># mset asgs)"
    "r = Returned (Inl e) \<Longrightarrow> \<exists>i. ev = Panicked i" by blast+
qed

lemma collecting_done:
  assumes "collecting outcome asgs required margin d st" "running st = []"
  shows "length (oks outcome asgs) < required \<and>
    (\<exists>fs. PieceDownload (PieceDownloadError required (length (successes st)) (attempted st) offset sz (sort_key pdf_piece_num (failures st))) =
       PieceDownload (PieceDownloadError required (length (oks outcome asgs)) (length asgs) offset sz fs) \<and>
       mset fs = mset (errs outcome asgs) \<and> sorted (map pdf_piece_num fs))"
proof -
  have "mset asgs = mset d" using assms by (auto simp: collecting_def)
  from oks_mset[OF this, of outcome] errs_mset[OF this, of outcome] mset_eq_length[OF this] show ?thesis
    using assms by (auto simp: collecting_def dest: mset_eq_length)
qed

lemma collect_loop_result:
  assumes "collecting outcome asgs required margin d st"
  shows "case collect_loop outcome required hedging offset sz evs st of
      Returned (Inr c) \<Rightarrow> length (shares c) = required \<and> (\<exists>d'. shares c = oks outcome d' \<and> mset d' + mset (unused c) \<subseteq># mset asgs)
    | Returned (Inl e) \<Rightarrow> (\<exists>i. Panicked i \<in> set evs) \<or> length (oks outcome asgs) < required \<and>
        (\<exists>fs. e = PieceDownload (PieceDownloadError required (length (oks outcome asgs)) (length asgs) offset sz fs) \<and>
          mset fs = mset (errs outcome asgs) \<and> sorted (map pdf_piece_num fs))
    | Running st' \<Rightarrow> (\<exists>d'. collecting outcome asgs required margin d' st') \<and> length evs + potential st' \<le> potential st \<and> running st' \<noteq> []
    | Impossible \<Rightarrow> True"
  using assms
proof (induction evs arbitrary: st d)
  case (Nil st d)
  show ?case
  proof (cases "running st = []")
    case True
    then show ?thesis using collecting_done[OF Nil True, of offset sz] by (simp add: collect_loop.simps[of _ _ _ _ _ "[]"])
  qed (use Nil in \<open>auto simp: collect_loop.simps[of _ _ _ _ _ "[]"]\<close>)
next
  case (Cons ev evs st d)
  show ?case
  proof (cases "running st = []")
    case True
    then show ?thesis using collecting_done[OF Cons(2) True, of offset sz] by (simp add: collect_loop.simps[of _ _ _ _ _ "ev # evs"])
  next
    case False
    note step = collect_event_step[OF Cons(2) refl, of hedging ev]
    show ?thesis
    proof (cases "collect_event outcome required hedging ev st")
      case (Returned r)
      then show ?thesis using step(2,3) False by (cases r) (auto simp: collect_loop.simps[of _ _ _ _ _ "ev # evs"])
    next
      case (Running st')
      then obtain d' where d': "collecting outcome asgs required margin d' st'" "potential st' < potential st" using step(1) by blast
      show ?thesis using Cons(1)[OF d'(1)] d'(2) False Running
        by (auto simp: collect_loop.simps[of _ _ _ _ _ "ev # evs"] split: run.splits sum.splits)
    qed (use False in \<open>simp add: collect_loop.simps[of _ _ _ _ _ "ev # evs"]\<close>)
  qed
qed

lemma collected_shares:
  assumes "collect_piece_downloads outcome asgs required margin hedge_delay offset sz evs = Returned (Inr c)" "1 \<le> required" "0 < sz"
  shows "length (shares c) = required \<and> (\<exists>d. shares c = oks outcome d \<and> mset d + mset (unused c) \<subseteq># mset asgs)"
proof -
  have "collect_loop outcome required (hedge_delay \<noteq> 0) offset sz evs (start asgs required margin) = Returned (Inr c)"
    using assms(1,3) by (simp add: collect_piece_downloads_def split: if_splits)
  then show ?thesis
    using collect_loop_result[OF start_collecting(1)[OF assms(2)], where outcome = outcome and asgs = asgs and margin = margin and hedging = "hedge_delay \<noteq> 0" and offset = offset and sz = sz and evs = evs] by simp
qed

lemma oks_mono: "mset xs \<subseteq># mset ys \<Longrightarrow> length (oks outcome xs) \<le> length (oks outcome ys)"
proof -
  assume "mset xs \<subseteq># mset ys"
  then obtain zs where "mset ys = mset (xs @ zs)" by (metis ex_mset mset_append mset_subset_eq_exists_conv)
  from mset_eq_length[OF oks_mset[OF this, of outcome]] show ?thesis by simp
qed

text \<open>Shares of different pieces: what was downloaded, and what is left.\<close>

lemma oks_pieces:
  assumes honest: "\<forall>a p. outcome a = Inr p \<longrightarrow> fst p = piece_of a" and sub: "mset d + mset rest \<subseteq># mset asgs" and "distinct (map piece_of asgs)"
  shows "distinct (map fst (oks outcome d))" "set (map fst (oks outcome d)) \<subseteq> piece_of ` set d" "piece_of ` set d \<inter> piece_of ` set rest = {}"
proof -
  have oks: "map fst (oks outcome d) = map piece_of (filter (\<lambda>a. \<not> isl (outcome a)) d)"
    using honest by (induction d) (auto split: sum.splits)
  obtain zs where "mset asgs = mset ((d @ rest) @ zs)" using sub by (metis ex_mset mset_append mset_subset_eq_exists_conv)
  then have "mset (map piece_of asgs) = mset (map piece_of ((d @ rest) @ zs))" by (metis mset_map)
  then have "distinct (map piece_of ((d @ rest) @ zs))" using assms(3) by (metis mset_eq_imp_distinct_iff)
  then have dist: "distinct (map piece_of d)" "set (map piece_of d) \<inter> set (map piece_of rest) = {}" by auto
  show "distinct (map fst (oks outcome d))" unfolding oks using dist(1) by (simp add: distinct_map_filter)
  show "set (map fst (oks outcome d)) \<subseteq> piece_of ` set d" unfolding oks by auto
  show "piece_of ` set d \<inter> piece_of ` set rest = {}" using dist(2) by simp
qed

lemma collect_decided:
  assumes "1 \<le> required" and "0 \<le> offset" "0 < sz" "offset + sz \<le> i64_max"
    and "\<forall>i. Panicked i \<notin> set evs" and "2 * length asgs \<le> length evs"
    and "collect_piece_downloads outcome asgs required margin hedge_delay offset sz evs \<noteq> Impossible"
  shows "if required \<le> length (oks outcome asgs)
    then \<exists>c d. collect_piece_downloads outcome asgs required margin hedge_delay offset sz evs = Returned (Inr c) \<and>
      length (shares c) = required \<and> shares c = oks outcome d \<and> mset d + mset (unused c) \<subseteq># mset asgs
    else \<exists>fs. collect_piece_downloads outcome asgs required margin hedge_delay offset sz evs =
        Returned (Inl (PieceDownload (PieceDownloadError required (length (oks outcome asgs)) (length asgs) offset sz fs))) \<and>
      mset fs = mset (errs outcome asgs) \<and> sorted (map pdf_piece_num fs)"
proof -
  have c: "collect_piece_downloads outcome asgs required margin hedge_delay offset sz evs =
      collect_loop outcome required (hedge_delay \<noteq> 0) offset sz evs (start asgs required margin)" (is "?lhs = ?run")
    using assms by (simp add: collect_piece_downloads_def)
  note res = collect_loop_result[OF start_collecting(1)[OF assms(1)], where outcome = outcome and asgs = asgs and margin = margin and hedging = "hedge_delay \<noteq> 0" and offset = offset and sz = sz and evs = evs]
  show ?thesis
  proof (cases ?run)
    case (Returned r)
    show ?thesis
    proof (cases r)
      case (Inr x)
      then obtain d where d: "length (shares x) = required" "shares x = oks outcome d" "mset d + mset (unused x) \<subseteq># mset asgs"
        using res Returned by auto
      have "length (oks outcome d) \<le> length (oks outcome asgs)"
        using oks_mono d(3) by (metis mset_subset_eq_add_left subset_mset.order_trans)
      then show ?thesis using c Returned Inr d by auto
    qed (use c res Returned assms(5) in auto)
  next
    case (Running st)
    then have "length evs + potential st \<le> potential (start asgs required margin)" "running st \<noteq> []" using res by auto
    then have False using start_collecting(2)[OF assms(1), of asgs margin] assms(6) by (cases "running st") (auto simp: potential_def)
    then show ?thesis ..
  qed (use c assms(7) in simp)
qed

section \<open>Properties\<close>

text \<open>
  C20: whatever the order in which tasks finish and the hedge timer fires, a long-tail download is decided after at most two
  events per assignment.  If enough assignments can be downloaded it returns exactly the required number of shares, of
  different assignments, and the assignments it has not touched; otherwise it fails after trying all of them, and the
  error counts the shares and lists every failure in the order of piece numbers.
\<close>

theorem collect_decides:
  assumes "1 \<le> required" and "0 \<le> offset" "0 < sz" "offset + sz \<le> i64_max"
    and "\<forall>i. Panicked i \<notin> set evs" and "2 * length asgs \<le> length evs"
    and "collect_piece_downloads outcome asgs required margin hedge_delay offset sz evs \<noteq> Impossible"
  shows "if required \<le> length (oks outcome asgs)
    then \<exists>c d. collect_piece_downloads outcome asgs required margin hedge_delay offset sz evs = Returned (Inr c) \<and>
      length (shares c) = required \<and> shares c = oks outcome d \<and> mset d + mset (unused c) \<subseteq># mset asgs
    else \<exists>fs. collect_piece_downloads outcome asgs required margin hedge_delay offset sz evs =
        Returned (Inl (PieceDownload (PieceDownloadError required (length (oks outcome asgs)) (length asgs) offset sz fs))) \<and>
      mset fs = mset (errs outcome asgs) \<and> sorted (map pdf_piece_num fs)"
  using collect_decided[OF assms] .

text \<open>Four assignments of which the first fails; the timer fires once, and the third to start finishes first.\<close>

definition sample_outcome :: "nat outcome" where
  "sample_outcome n = (if n = 0 then Inl (PieceDownloadFailure 0 [] Connection DialTimeout) else Inr (int n, [of_nat n]))"

definition sample_events :: "event list" where
  "sample_events = [Joined 2, HedgeTimer, Joined 0, Joined 0, Joined 0, Joined 0, Joined 0, Joined 0, Joined 0, Joined 0]"

theorem collect_decides_witness:
  "\<exists>c. collect_piece_downloads sample_outcome [0, 1, 2, 3] 2 1 150 0 7 sample_events = Returned (Inr c) \<and> length (shares c) = 2"
proof -
  have "collect_piece_downloads sample_outcome [0, 1, 2, 3] 2 1 150 0 7 sample_events \<noteq> Impossible"
    "2 \<le> length (oks sample_outcome [0, 1, 2, 3])" by code_simp+
  then show ?thesis
    using collect_decides[of 2 0 7 sample_events "[0, 1, 2, 3]" sample_outcome 1 150] by (auto simp: sample_events_def)
qed

text \<open>
  Requests for pieces that are not needed are bounded: at any time during a long-tail download, the number of assignments
  that were requested exceeds the required number by at most one for every failure, plus the larger of the initial
  margin and a fifth of the required number, rounded up (two at least, all of it at most).
\<close>

theorem speculation_is_bounded:
  assumes "1 \<le> required" and "collect_piece_downloads outcome asgs required margin hedge_delay offset sz evs = Running st"
  shows "attempted st \<le> required + length (failures st) + max margin (min (max ((required + 4) div 5) 2) required)"
proof -
  have "collect_loop outcome required (hedge_delay \<noteq> 0) offset sz evs (start asgs required margin) = Running st"
    using assms(2) by (simp add: collect_piece_downloads_def split: if_splits)
  then obtain d where "collecting outcome asgs required margin d st"
    using collect_loop_result[OF start_collecting(1)[OF assms(1)], where outcome = outcome and asgs = asgs and margin = margin and hedging = "hedge_delay \<noteq> 0" and offset = offset and sz = sz and evs = evs] by auto
  then have "attempted st \<le> required + margin + length (failures st) + hedge_budget required margin" unfolding collecting_def by linarith
  also have "\<dots> = required + length (failures st) + max margin (min (max ((required + 4) div 5) 2) required)"
    by (simp only: hedge_budget_def max_def[of margin]) auto
  finally show ?thesis .
qed

theorem speculation_is_bounded_witness:
  "\<exists>st. collect_piece_downloads sample_outcome [0, 1, 2, 3] 2 1 150 0 7 [Joined 2, HedgeTimer, Joined 0] = Running st \<and>
    attempted st \<le> 2 + length (failures st) + 2"
proof -
  have "case collect_piece_downloads sample_outcome [0, 1, 2, 3] 2 1 150 0 7 [Joined 2, HedgeTimer, Joined 0] of Running _ \<Rightarrow> True | _ \<Rightarrow> False"
    by code_simp
  then obtain st where "collect_piece_downloads sample_outcome [0, 1, 2, 3] 2 1 150 0 7 [Joined 2, HedgeTimer, Joined 0] = Running st"
    by (auto split: run.splits)
  with speculation_is_bounded[OF _ this] show ?thesis by auto
qed

text \<open>
  The shares of a long-tail download are of as many different pieces as required, and a share that \<open>fetch_one_more\<close> adds
  is of yet another piece, which it will not be asked for again.  This needs assignments of different pieces whose
  downloads report their own number.
\<close>

theorem replacement_is_new_piece:
  assumes "1 \<le> k" "0 < sz" "distinct (map piece_of asgs)"
    and honest: "\<forall>a p. outcome a = Inr p \<longrightarrow> fst p = piece_of a" "\<forall>a p. outcome' a = Inr p \<longrightarrow> fst p = piece_of a"
    and "download_pieces_long_tail outcome piece_of asgs k hedge_delay offset sz evs = Some (Inr dp)"
    and "fetch_one_more outcome' evs' dp = Some (Inr (Some share), dp')"
  shows "length (dp_shares dp) = k \<and> distinct (map fst (dp_shares dp @ [share])) \<and>
    set (map fst (dp_shares dp @ [share])) \<inter> piece_of ` set (dp_unused dp') = {}"
proof -
  obtain c where c: "collect_piece_downloads outcome asgs k LAUNCH_MARGIN hedge_delay offset sz evs = Returned (Inr c)"
    and dp: "dp_shares dp = shares c" "dp_unused dp = filter (\<lambda>a. piece_of a \<notin> set (map fst (shares c))) asgs" "dp_size dp = sz"
    using assms(6) by (auto simp: download_pieces_long_tail_def Let_def split: run.splits sum.splits)
  obtain d where d: "length (shares c) = k" "shares c = oks outcome d" "mset d + mset (unused c) \<subseteq># mset asgs"
    using collected_shares[OF c assms(1,2)] by blast
  obtain c' where c': "collect_piece_downloads outcome' (dp_unused dp) 1 0 0 (dp_offset dp) (dp_size dp) evs' = Returned (Inr c')"
    and share: "share \<in> set (shares c')" "dp_unused dp' = unused c'"
    using assms(7) by (auto simp: fetch_one_more_def split: if_splits run.splits sum.splits UplinkError.splits list.splits)
  obtain d' where d': "shares c' = oks outcome' d'" "mset d' + mset (unused c') \<subseteq># mset (dp_unused dp)"
    using collected_shares[OF c'] assms(2) dp(3) by auto
  have u: "distinct (map piece_of (dp_unused dp))" unfolding dp(2) using assms(3) by (simp add: distinct_map_filter)
  from oks_pieces[OF honest(2) d'(2) u] share(1) d'(1) have new: "fst share \<in> piece_of ` set d'" "piece_of ` set d' \<inter> piece_of ` set (unused c') = {}" by auto
  have sub: "set d' \<union> set (unused c') \<subseteq> set (dp_unused dp)" using d'(2) by (metis set_mset_mset set_mset_mono set_mset_union)
  then have "piece_of x \<notin> fst ` set (shares c)" if "x \<in> set d' \<union> set (unused c')" for x using that dp(2) by auto
  then have "fst share \<notin> set (map fst (shares c))" "set (map fst (shares c)) \<inter> piece_of ` set (unused c') = {}"
    using new(1) by fastforce+
  moreover have "distinct (map fst (shares c))" using oks_pieces[OF honest(1) d(3) assms(3)] d(2) by simp
  ultimately show ?thesis using d(1) dp(1) new share(2) by auto
qed

theorem replacement_is_new_piece_witness:
  "\<exists>dp share dp'. download_pieces_long_tail sample_outcome int [0, 1, 2, 3, 4] 2 150 0 7 sample_events = Some (Inr dp) \<and>
    fetch_one_more sample_outcome [Joined 0, Joined 0, Joined 0] dp = Some (Inr (Some share), dp') \<and> distinct (map fst (dp_shares dp @ [share]))"
proof -
  have "case download_pieces_long_tail sample_outcome int [0, 1, 2, 3, 4] 2 150 0 7 sample_events of
      Some (Inr dp) \<Rightarrow> map_option fst (fetch_one_more sample_outcome [Joined 0, Joined 0, Joined 0] dp) = Some (Inr (Some (3, [3]))) | _ \<Rightarrow> False"
    by code_simp
  then obtain dp share dp' where *: "download_pieces_long_tail sample_outcome int [0, 1, 2, 3, 4] 2 150 0 7 sample_events = Some (Inr dp)"
    "fetch_one_more sample_outcome [Joined 0, Joined 0, Joined 0] dp = Some (Inr (Some share), dp')"
    by (auto split: option.splits sum.splits prod.splits)
  have "\<forall>a p. sample_outcome a = Inr p \<longrightarrow> fst p = int a" by (simp add: sample_outcome_def)
  from replacement_is_new_piece[OF _ _ _ this this *] * show ?thesis by (intro exI[of _ dp] exI[of _ share] exI[of _ dp']) simp
qed

end
