(* ===== verification/Pipeline.thy ===== *)
theory Pipeline
  imports Uplink_Error Transform "HOL-Library.AList" "HOL-Library.Countable"
begin

text \<open>
  \<open>crates/storj-uplink/src/pipeline.rs\<close>: what happens to a segment between the plaintext and the pieces that
  are uploaded.  Block encryption (\<open>Transform\<close>), padding to whole stripes (\<open>Padding\<close>) and the erasure code
  (\<open>Reed_Solomon\<close>) are composed here; the metadata of an object is encrypted beside it.  Random keys and nonces
  are arguments, and so are the protobuf functions of \<open>prost\<close>, in the record \<open>UserPb\<close>.

  Shown: the pieces are the shares of the stripes in order and have the size that the satellite expects;
  the nonces of two segments of an object differ; object metadata survives encryption.
\<close>

section \<open>The code\<close>

definition MAX_INLINE_SEGMENT_SIZE :: nat where "MAX_INLINE_SEGMENT_SIZE = 4 * 1024"
definition MAX_SEGMENT_SIZE :: nat where "MAX_SEGMENT_SIZE = 64 * 1024 * 1024"

subsection \<open>Redundancy\<close>

record RedundancyScheme =
  min_req :: int
  total :: int
  repair_threshold :: int
  success_threshold :: int
  erasure_share_size :: int

record Redundancy =
  rd_k :: nat
  rd_m :: nat
  rd_o :: nat
  rd_n :: nat
  rd_share_size :: nat

definition to_usize :: "int \<Rightarrow> string \<Rightarrow> UplinkError + nat" where
  "to_usize v name = (if v < 0 then Inl (UpProtocol (name @ '' does not fit usize'')) else Inr (nat v))"

definition from_scheme :: "RedundancyScheme \<Rightarrow> UplinkError + Redundancy" where
  "from_scheme scheme =
    try_bind (to_usize (min_req scheme) ''min_req'') (\<lambda>k.
    try_bind (to_usize (total scheme) ''total'') (\<lambda>n.
    try_bind (to_usize (repair_threshold scheme) ''repair_threshold'') (\<lambda>m.
    try_bind (to_usize (success_threshold scheme) ''success_threshold'') (\<lambda>o'.
    try_bind (to_usize (erasure_share_size scheme) ''erasure_share_size'') (\<lambda>ss.
      if k = 0 \<or> n = 0 \<or> o' = 0 \<or> ss = 0 \<or> k > n \<or> o' > n then Inl (UpProtocol ''invalid redundancy'')
      else Inr \<lparr>rd_k = k, rd_m = m, rd_o = o', rd_n = n, rd_share_size = ss\<rparr>)))))"

definition rd_stripe_size :: "Redundancy \<Rightarrow> nat" where
  "rd_stripe_size rs = rd_k rs * rd_share_size rs"

subsection \<open>Content\<close>

text \<open>The result of \<open>increment\<close> is dropped: a negative amount leaves the nonce as it is.\<close>

definition content_nonce :: "int \<Rightarrow> int \<Rightarrow> bytes" where
  "content_nonce part_number index =
    (let amount = push_bit 32 part_number OR (index + 1)
     in case increment ZERO_NONCE amount of Inr (n, _) \<Rightarrow> n | Inl _ \<Rightarrow> ZERO_NONCE)"

definition encrypt_inline :: "Crypto \<Rightarrow> bytes \<Rightarrow> CipherSuite \<Rightarrow> Key \<Rightarrow> bytes \<Rightarrow> UplinkError + bytes" where
  "encrypt_inline cr plain cipher key nonce = map_err Encryption (encrypt cr plain cipher key nonce)"

definition is_inline :: "bytes \<Rightarrow> bool" where
  "is_inline encrypted = (length encrypted \<le> MAX_INLINE_SEGMENT_SIZE)"

definition encrypt_remote :: "Crypto \<Rightarrow> bytes \<Rightarrow> CipherSuite \<Rightarrow> Key \<Rightarrow> bytes \<Rightarrow> nat \<Rightarrow> UplinkError + bytes" where
  "encrypt_remote cr plain cipher key nonce encrypted_block_size =
    (let block = (if encrypted_block_size = 0 then DEFAULT_ENCRYPTED_BLOCK_SIZE else encrypted_block_size)
     in try_bind (map_err Encryption (new_encrypter cr cipher key nonce block)) (\<lambda>encrypter.
          map_err Encryption (transform_padded encrypter plain)))"

definition calc_piece_size :: "int \<Rightarrow> Redundancy \<Rightarrow> int" where
  "calc_piece_size encrypted_size rs =
    (let stripe = int (rd_stripe_size rs)
     in if stripe = 0 \<or> rd_k rs = 0 then 0
        else let stripes = quot_i64 (encrypted_size + int UINT32_SIZE + stripe - 1) stripe
             in quot_i64 (stripes * stripe) (int (rd_k rs)))"

text \<open>One stripe: its shares go to the slot of every piece that \<open>slots\<close> borrows.\<close>

definition encode_piece_stripe :: "backend \<Rightarrow> ReedSolomon \<Rightarrow> nat \<Rightarrow> nat \<times> bytes \<Rightarrow> bytes list \<Rightarrow> UplinkError + bytes list" where
  "encode_piece_stripe cpu fec ss = (\<lambda>(s, chunk) pieces.
    (let off = s * ss;
         slots = map (\<lambda>p. sub_slice p off (off + ss)) pieces;
         (slots, r) = encode_stripe_into cpu fec chunk slots
     in try_bind (map_err Ec r) (\<lambda>_. Inr (map (\<lambda>(p, slot). put_slice p off slot) (zip pieces slots)))))"

definition encode_pieces :: "backend \<Rightarrow> bytes \<Rightarrow> Redundancy \<Rightarrow> UplinkError + bytes list" where
  "encode_pieces cpu encrypted rs =
    (let stripe = rd_stripe_size rs
     in try_bind (map_err Encryption (pad encrypted stripe)) (\<lambda>padded.
        try_bind (map_err Ec (new_rs (rd_k rs) (rd_n rs) (rd_share_size rs))) (\<lambda>fec.
          if padded = [] then Inr (replicate (rd_n rs) [])
          else let n_stripes = length padded div stripe;
                   ss = rd_share_size rs;
                   pieces = replicate (rd_n rs) (replicate (n_stripes * ss) 0)
               in fold_result (encode_piece_stripe cpu fec ss) (List.enumerate 0 (chunks stripe padded)) pieces)))"

subsection \<open>Keys and metadata\<close>

definition encrypt_key :: "Crypto \<Rightarrow> Key \<Rightarrow> CipherSuite \<Rightarrow> Key \<Rightarrow> bytes \<Rightarrow> UplinkError + bytes" where
  "encrypt_key cr key cipher parent nonce = map_err Encryption (encrypt cr key cipher parent nonce)"

definition decrypt_key :: "Crypto \<Rightarrow> bytes \<Rightarrow> CipherSuite \<Rightarrow> Key \<Rightarrow> bytes \<Rightarrow> UplinkError + Key" where
  "decrypt_key cr encrypted cipher parent nonce =
    try_bind (map_err Encryption (decrypt cr encrypted cipher parent nonce)) (\<lambda>raw.
      if length raw = 32 then Inr raw else Inl (UpProtocol ''decrypted key is not 32 bytes''))"

definition nonce_from_slice :: "bytes \<Rightarrow> UplinkError + bytes" where
  "nonce_from_slice b =
    (if length b < NONCE_SIZE then Inl (UpProtocol ''nonce is shorter than 24 bytes'') else Inr (take NONCE_SIZE b))"

type_synonym SerializableMeta = "(bytes \<times> bytes) list"

record StreamInfo =
  deprecated_number_of_segments :: int
  segments_size :: int
  last_segment_size :: int
  si_metadata :: bytes

record StreamMeta =
  encrypted_stream_info :: bytes
  encryption_type :: int
  encryption_block_size :: int
  number_of_segments :: int

text \<open>
  The messages on the wire.  A map survives as a map, and the other two messages as they are, when their
  numbers fit the declared types; no bytes are the message without entries.
\<close>

record UserPb =
  meta_encode :: "SerializableMeta \<Rightarrow> bytes"
  meta_decode :: "bytes \<Rightarrow> SerializableMeta option"
  info_encode :: "StreamInfo \<Rightarrow> bytes"
  info_decode :: "bytes \<Rightarrow> StreamInfo option"
  stream_encode :: "StreamMeta \<Rightarrow> bytes"
  stream_decode :: "bytes \<Rightarrow> StreamMeta option"

abbreviation (input) fits_i64 :: "int \<Rightarrow> bool" where "fits_i64 x \<equiv> i64_min \<le> x \<and> x \<le> i64_max"
abbreviation (input) fits_i32 :: "int \<Rightarrow> bool" where "fits_i32 x \<equiv> - (2 ^ 31) \<le> x \<and> x < 2 ^ 31"

definition user_pb_ok :: "UserPb \<Rightarrow> bool" where
  "user_pb_ok pb \<longleftrightarrow>
    (\<forall>m. distinct (map fst m) \<longrightarrow> (\<exists>m'. meta_decode pb (meta_encode pb m) = Some m' \<and> map_of m' = map_of m)) \<and>
    meta_decode pb [] = Some [] \<and>
    (\<forall>x. fits_i64 (deprecated_number_of_segments x) \<and> fits_i64 (segments_size x) \<and> fits_i64 (last_segment_size x) \<longrightarrow>
       info_decode pb (info_encode pb x) = Some x) \<and>
    (\<forall>x. fits_i32 (encryption_type x) \<and> fits_i32 (encryption_block_size x) \<and> fits_i64 (number_of_segments x) \<longrightarrow>
       stream_decode pb (stream_encode pb x) = Some x)"

record EncryptedUserData =
  encrypted_metadata :: bytes
  encrypted_metadata_encrypted_key :: bytes
  encrypted_metadata_nonce :: bytes
  encrypted_etag :: bytes
  encrypted_checksum :: bytes

definition user_data_nonce :: "u8 \<Rightarrow> bytes" where "user_data_nonce first = ZERO_NONCE[0 := first]"
definition ETAG_NONCE :: bytes where "ETAG_NONCE = user_data_nonce 1"
definition CHECKSUM_NONCE :: bytes where "CHECKSUM_NONCE = user_data_nonce 2"

fun suite_code :: "CipherSuite \<Rightarrow> int" where "suite_code (CipherSuite x) = x"

definition encrypt_user_data :: "Crypto \<Rightarrow> UserPb \<Rightarrow> Key \<Rightarrow> bytes \<Rightarrow> (bytes \<times> bytes) list \<Rightarrow> int \<Rightarrow> int \<Rightarrow> int \<Rightarrow>
    CipherSuite \<Rightarrow> Key \<Rightarrow> nat \<Rightarrow> bytes option \<Rightarrow> UplinkError + EncryptedUserData" where
  "encrypt_user_data cr pb random_key random_nonce custom segment_size last_size segments cipher derived_content_key
      enc_block object_checksum =
    (let user_defined = fold (\<lambda>(k, v) m. AList.update k v m) custom [];
         metadata_bytes = meta_encode pb user_defined;
         stream_info = info_encode pb \<lparr>deprecated_number_of_segments = 0, segments_size = segment_size,
            last_segment_size = last_size, si_metadata = metadata_bytes\<rparr>
     in try_bind (encrypt_key cr random_key cipher derived_content_key random_nonce) (\<lambda>encrypted_key.
        try_bind (map_err Encryption (encrypt cr stream_info cipher random_key ZERO_NONCE)) (\<lambda>encrypted_info.
        let block = (if enc_block = 0 then DEFAULT_ENCRYPTED_BLOCK_SIZE else enc_block);
            encrypted_meta = stream_encode pb \<lparr>encrypted_stream_info = encrypted_info, encryption_type = suite_code cipher,
              encryption_block_size = min (int block) (2 ^ 31 - 1), number_of_segments = segments\<rparr>
        in try_bind (map_err Encryption (encrypt cr [] cipher random_key ETAG_NONCE)) (\<lambda>etag.
           try_bind (case object_checksum of Some plain \<Rightarrow> map_err Encryption (encrypt cr plain cipher random_key CHECKSUM_NONCE)
                     | None \<Rightarrow> Inr []) (\<lambda>enc_sum.
             Inr \<lparr>encrypted_metadata = encrypted_meta, encrypted_metadata_encrypted_key = encrypted_key,
                  encrypted_metadata_nonce = random_nonce, encrypted_etag = etag, encrypted_checksum = enc_sum\<rparr>)))))"

definition decrypt_object_checksum :: "Crypto \<Rightarrow> bytes \<Rightarrow> bytes \<Rightarrow> bytes \<Rightarrow> CipherSuite \<Rightarrow> Key \<Rightarrow> UplinkError + bytes" where
  "decrypt_object_checksum cr enc_sum encrypted_key key_nonce cipher derived_content_key =
    try_bind (nonce_from_slice key_nonce) (\<lambda>nonce.
    try_bind (decrypt_key cr encrypted_key cipher derived_content_key nonce) (\<lambda>metadata_key.
      map_err Encryption (decrypt cr enc_sum cipher metadata_key CHECKSUM_NONCE)))"

definition decrypt_user_data_full :: "Crypto \<Rightarrow> UserPb \<Rightarrow> bytes \<Rightarrow> bytes \<Rightarrow> bytes \<Rightarrow> CipherSuite \<Rightarrow> Key \<Rightarrow>
    UplinkError + (StreamMeta \<times> StreamInfo \<times> SerializableMeta)" where
  "decrypt_user_data_full cr pb encrypted_meta encrypted_key key_nonce cipher derived_content_key =
    try_bind (ok_or (UpProtocol ''decode'') (stream_decode pb encrypted_meta)) (\<lambda>meta.
    let cipher = (if encryption_type meta \<noteq> 0 then CipherSuite (encryption_type meta) else cipher)
    in try_bind (nonce_from_slice key_nonce) (\<lambda>nonce.
       try_bind (decrypt_key cr encrypted_key cipher derived_content_key nonce) (\<lambda>metadata_key.
       try_bind (map_err Encryption (decrypt cr (encrypted_stream_info meta) cipher metadata_key ZERO_NONCE)) (\<lambda>stream_info.
       try_bind (ok_or (UpProtocol ''decode'') (info_decode pb stream_info)) (\<lambda>info.
       try_bind (if si_metadata info = [] then Inr [] else ok_or (UpProtocol ''decode'') (meta_decode pb (si_metadata info))) (\<lambda>custom.
         Inr (meta, info, custom)))))))"

definition decrypt_user_data :: "Crypto \<Rightarrow> UserPb \<Rightarrow> bytes \<Rightarrow> bytes \<Rightarrow> bytes \<Rightarrow> CipherSuite \<Rightarrow> Key \<Rightarrow>
    UplinkError + (StreamMeta \<times> SerializableMeta)" where
  "decrypt_user_data cr pb encrypted_meta encrypted_key key_nonce cipher derived_content_key =
    try_bind (decrypt_user_data_full cr pb encrypted_meta encrypted_key key_nonce cipher derived_content_key) (\<lambda>(meta, _, custom).
      Inr (meta, custom))"

section \<open>The pieces of a segment\<close>

text \<open>Piece \<open>r\<close> of a padded segment: the \<open>r\<close>-th shares of its stripes, one after the other.\<close>

definition piece_of :: "backend \<Rightarrow> ReedSolomon \<Rightarrow> bytes list \<Rightarrow> nat \<Rightarrow> bytes" where
  "piece_of cpu fec stripes r = concat (map (\<lambda>stripe. share_of cpu fec stripe r) stripes)"

lemma length_piece_of:
  assumes "valid_rs fec" "\<And>st. st \<in> set stripes \<Longrightarrow> length st = stripe_size fec"
  shows "length (piece_of cpu fec stripes r) = length stripes * share_size fec"
  using assms(2) by (induction stripes) (simp_all add: piece_of_def length_share_of[OF assms(1)])

lemma encode_stripe_into_ok:
  assumes "valid_rs fec" "length stripe = stripe_size fec" "length slots = rs_n fec"
    and "\<And>s. s \<in> set slots \<Longrightarrow> length s = share_size fec"
  shows "encode_stripe_into cpu fec stripe slots = (map (share_of cpu fec stripe) [0..<rs_n fec], Inr ())"
  using encode_each_ok[OF assms(1,2,4), where i = 0 and cpu = cpu and cpu' = cpu] assms(2,3) by (simp add: encode_stripe_into_def check_stripe_def)

lemma encode_stripes_ok:
  assumes v: "valid_rs fec" and len: "\<And>st. st \<in> set stripes \<Longrightarrow> length st = stripe_size fec"
    and pre: "\<And>r. r < rs_n fec \<Longrightarrow> length (pre r) = s * share_size fec"
  shows "fold_result (encode_piece_stripe cpu fec (share_size fec)) (List.enumerate s stripes)
      (map (\<lambda>r. pre r @ replicate (length stripes * share_size fec) 0) [0..<rs_n fec]) =
    Inr (map (\<lambda>r. pre r @ piece_of cpu fec stripes r) [0..<rs_n fec])"
  using len pre
proof (induction stripes arbitrary: s pre)
  case Nil
  then show ?case by (simp add: piece_of_def)
next
  case (Cons st stripes)
  let ?ss = "share_size fec" and ?n = "rs_n fec"
  let ?zeros = "replicate (length stripes * ?ss) (0 :: u8)"
  let ?old = "map (\<lambda>r. pre r @ replicate (length (st # stripes) * ?ss) 0) [0..<?n]"
  let ?pre = "\<lambda>r. pre r @ share_of cpu fec st r"
  have st: "length st = stripe_size fec" using Cons.prems(1) by simp
  have sh: "length (share_of cpu fec st r) = ?ss" for r by (rule length_share_of[OF v st])
  have slots: "map (\<lambda>p. sub_slice p (s * ?ss) (s * ?ss + ?ss)) ?old = map (\<lambda>r. replicate ?ss 0) [0..<?n]"
    using Cons.prems(2) by (auto simp: sub_slice_def)
  have "encode_stripe_into cpu fec st (map (\<lambda>r. replicate ?ss 0) [0..<?n]) = (map (share_of cpu fec st) [0..<?n], Inr ())"
    by (rule encode_stripe_into_ok[OF v st]) auto
  moreover have "map (\<lambda>(p, slot). put_slice p (s * ?ss) slot) (zip ?old (map (share_of cpu fec st) [0..<?n])) =
      map (\<lambda>r. ?pre r @ ?zeros) [0..<?n]"
    using Cons.prems(2) sh by (auto simp: zip_map_map put_slice_def zip_same_conv_map replicate_add)
  ultimately have "encode_piece_stripe cpu fec ?ss (s, st) ?old = Inr (map (\<lambda>r. ?pre r @ ?zeros) [0..<?n])"
    unfolding encode_piece_stripe_def Let_def prod.case slots by simp
  moreover have "fold_result (encode_piece_stripe cpu fec ?ss) (List.enumerate (Suc s) stripes) (map (\<lambda>r. ?pre r @ ?zeros) [0..<?n]) =
      Inr (map (\<lambda>r. ?pre r @ piece_of cpu fec stripes r) [0..<?n])"
    using Cons.prems sh by (intro Cons.IH) auto
  ultimately show ?case by (simp add: piece_of_def)
qed

definition redundancy_ok :: "Redundancy \<Rightarrow> bool" where
  "redundancy_ok rs \<longleftrightarrow> 1 \<le> rd_k rs \<and> rd_k rs \<le> rd_n rs \<and> rd_n rs \<le> 256 \<and> 0 < rd_share_size rs \<and> rd_stripe_size rs + 4 \<le> 2 ^ 32"

definition fec_of :: "Redundancy \<Rightarrow> ReedSolomon" where
  "fec_of rs = \<lparr>rs_k = rd_k rs, rs_n = rd_n rs, share_size = rd_share_size rs, enc_matrix = build_enc_matrix (rd_k rs) (rd_n rs)\<rparr>"

lemma fec_of_sel [simp]:
  "rs_k (fec_of rs) = rd_k rs" "rs_n (fec_of rs) = rd_n rs" "share_size (fec_of rs) = rd_share_size rs"
  "stripe_size (fec_of rs) = rd_stripe_size rs"
  by (simp_all add: fec_of_def stripe_size_def rd_stripe_size_def)

lemma fec_of_ok:
  assumes "redundancy_ok rs"
  shows "new_rs (rd_k rs) (rd_n rs) (rd_share_size rs) = Inr (fec_of rs)" "valid_rs (fec_of rs)" "0 < rd_stripe_size rs"
  using assms by (auto simp: redundancy_ok_def new_rs_def fec_of_def valid_rs_def rd_stripe_size_def)

lemma encode_pieces_ok:
  assumes rs: "redundancy_ok rs" and len: "int (length enc) + 4 \<le> i64_max"
  obtains p stripes where "pad enc (rd_stripe_size rs) = Inr p" "unpad p = Inr enc" "p = concat stripes"
    "\<And>st. st \<in> set stripes \<Longrightarrow> length st = rd_stripe_size rs"
    "length stripes * rd_stripe_size rs = length enc + padding_size (length enc) (rd_stripe_size rs)"
    "encode_pieces cpu enc rs = Inr (map (piece_of cpu (fec_of rs) stripes) [0..<rd_n rs])"
proof -
  let ?b = "rd_stripe_size rs" and ?ss = "rd_share_size rs"
  note f = fec_of_ok[OF rs]
  have b4: "?b + 4 \<le> 2 ^ 32" using rs by (simp add: redundancy_ok_def)
  obtain p where p: "pad enc ?b = Inr p" "unpad p = Inr enc" "?b dvd length p"
    "length p = length enc + padding_size (length enc) ?b"
    using pad_unpad[OF f(3) b4 len] by blast
  obtain q where q: "length p = q * ?b" using p(3) by (metis dvd_def mult.commute)
  note c = chunks_length[OF f(3) q]
  have "p \<noteq> []" using p(4) padding_size_bounds[OF f(3), of "length enc"] by auto
  moreover have "length p div ?b = q" using q f(3) by simp
  moreover have "fold_result (encode_piece_stripe cpu (fec_of rs) ?ss) (List.enumerate 0 (chunks ?b p))
      (map (\<lambda>r. [] @ replicate (length (chunks ?b p) * ?ss) 0) [0..<rd_n rs]) =
      Inr (map (\<lambda>r. [] @ piece_of cpu (fec_of rs) (chunks ?b p) r) [0..<rd_n rs])"
    using encode_stripes_ok[OF f(2), of "chunks ?b p" "\<lambda>_. []" 0 cpu] c by simp
  moreover have "map (\<lambda>r. replicate (q * ?ss) (0 :: u8)) [0..<rd_n rs] = replicate (rd_n rs) (replicate (q * ?ss) 0)"
    by (simp add: map_replicate_const)
  ultimately have "encode_pieces cpu enc rs = Inr (map (piece_of cpu (fec_of rs) (chunks ?b p)) [0..<rd_n rs])"
    using c by (simp add: encode_pieces_def p(1) f(1))
  then show ?thesis using that[OF p(1,2)] c q p(4) by metis
qed

lemma piece_size_eq:
  assumes "redundancy_ok rs"
    and "m * rd_stripe_size rs = n + padding_size n (rd_stripe_size rs)"
  shows "calc_piece_size (int n) rs = int (m * rd_share_size rs)"
proof -
  let ?b = "rd_stripe_size rs"
  have b: "0 < ?b" "0 < rd_k rs" using assms(1) fec_of_ok(3)[OF assms(1)] by (auto simp: redundancy_ok_def)
  have "(n + 4 + ?b - 1) div ?b = m" using padded_blocks[OF b(1), of n] assms(2) b(1) by (metis nonzero_mult_div_cancel_right not_less0)
  moreover have "int n + int UINT32_SIZE + int ?b - 1 = int (n + 4 + ?b - 1)" using b by (simp add: UINT32_SIZE_def)
  ultimately have "quot_i64 (int n + int UINT32_SIZE + int ?b - 1) (int ?b) = int m"
    using b by (simp only: quot_i64_nonneg of_nat_0_le_iff of_nat_0_less_iff) (metis zdiv_int)
  moreover have "int m * int ?b = int (m * rd_share_size rs * rd_k rs)" by (simp add: rd_stripe_size_def)
  then have "quot_i64 (int m * int ?b) (int (rd_k rs)) = int (m * rd_share_size rs * rd_k rs) div int (rd_k rs)"
    using b by (simp only: quot_i64_nonneg of_nat_0_le_iff of_nat_0_less_iff)
  then have "quot_i64 (int m * int ?b) (int (rd_k rs)) = int (m * rd_share_size rs)"
    using b by simp
  ultimately show ?thesis using b by (simp add: calc_piece_size_def)
qed

section \<open>Nonces of segments\<close>

lemma content_amount:
  assumes "0 \<le> q" "q < 2 ^ 32"
  shows "push_bit 32 p OR q = p * 2 ^ 32 + (q :: int)"
proof -
  have q: "take_bit 32 q = q" using assms by (simp add: take_bit_int_eq_self_iff)
  have "push_bit 32 p AND take_bit 32 q = 0" by (rule bit_eqI) (auto simp: bit_simps)
  then have "push_bit 32 p + q = push_bit 32 p OR q" using q by (simp add: disjunctive_add_eq_or)
  then show ?thesis by (simp add: push_bit_eq_mult)
qed

lemma le_val_replicate: "le_val (replicate n 0) = 0"
  by (induction n) simp_all

lemma content_nonce_val:
  assumes "0 \<le> p" "p < 2 ^ 31" "0 \<le> i" "i < 2 ^ 31"
  shows "length (content_nonce p i) = 24 \<and> le_val (content_nonce p i) = p * 2 ^ 32 + (i + 1)"
proof -
  let ?a = "p * 2 ^ 32 + (i + 1)"
  have a: "push_bit 32 p OR (i + 1) = ?a" using assms by (intro content_amount) auto
  have bound: "0 \<le> ?a" "?a < 256 ^ 24" using assms by auto
  obtain n ov where n: "increment ZERO_NONCE ?a = Inr (n, ov)"
    using bound(1) by (cases "increment_loop ZERO_NONCE ?a") (simp add: increment_def increment_bytes_def)
  have "le_val ZERO_NONCE = 0" "length ZERO_NONCE = 24" by (simp_all add: ZERO_NONCE_def le_val_replicate)
  then have "length n = 24" "le_val n = ?a"
    using increment_bytes_val(1,2)[OF n[unfolded increment_def]] bound by simp_all
  then show ?thesis unfolding content_nonce_def a Let_def n by simp
qed

lemma le_val_append: "le_val (xs @ ys) = le_val xs + 256 ^ length xs * le_val ys"
  by (induction xs) (simp_all add: algebra_simps)

lemma le_val_take:
  assumes "m \<le> length xs"
  shows "le_val (take m xs) = le_val xs mod 256 ^ m"
proof -
  have "le_val xs = le_val (take m xs) + 256 ^ m * le_val (drop m xs)"
    using le_val_append[of "take m xs" "drop m xs"] assms by simp
  moreover have "0 \<le> le_val (take m xs)" "le_val (take m xs) < 256 ^ m" using le_val_bounds[of "take m xs"] assms by auto
  ultimately show ?thesis by simp
qed

section \<open>Metadata\<close>

lemma map_of_inserts:
  "map_of (fold (\<lambda>(k, v) m. AList.update k v m) custom m) = map_of m ++ map_of (rev custom)"
proof (induction custom arbitrary: m)
  case (Cons x custom)
  then show ?case by (cases x) (auto simp: update_conv' fun_upd_def map_add_def split: option.splits)
qed simp

lemma distinct_inserts:
  "distinct (map fst m) \<Longrightarrow> distinct (map fst (fold (\<lambda>(k, v) m. AList.update k v m) custom m))"
  by (induction custom arbitrary: m) (auto simp: distinct_update)

lemma decrypt_key_ok:
  assumes "crypto_ok cr" "encrypt_key cr key cipher parent nonce = Inr c" "length key = 32" "length nonce = 24"
  shows "decrypt_key cr c cipher parent nonce = Inr key"
proof -
  have "encrypt cr key cipher parent nonce = Inr c" using assms(2) by (simp add: encrypt_key_def)
  then have "decrypt cr c cipher parent nonce = Inr key" using assms(1,4) by (intro encrypt_decrypt) auto
  then show ?thesis using assms(3) by (simp add: decrypt_key_def)
qed

section \<open>Properties of the pipeline\<close>

text \<open>
  The starting nonces of two segments of an object never agree, not even in the twelve bytes that AES-GCM
  uses, and none of them is the zero nonce of the metadata.  Blocks after the first count up from the starting nonce, so that blocks of
  different segments may share a nonce; they are encrypted under different random keys.
\<close>

theorem content_nonces_distinct:
  assumes "0 \<le> p" "p < 2 ^ 31" "0 \<le> i" "i < 2 ^ 31" and "0 \<le> q" "q < 2 ^ 31" "0 \<le> j" "j < 2 ^ 31"
  shows "(take 12 (content_nonce p i) = take 12 (content_nonce q j) \<longleftrightarrow> p = q \<and> i = j) \<and>
    content_nonce p i \<noteq> ZERO_NONCE \<and> length (content_nonce p i) = NONCE_SIZE"
proof -
  have a: "length (content_nonce p i) = 24" "le_val (content_nonce p i) = p * 2 ^ 32 + (i + 1)"
    and b: "length (content_nonce q j) = 24" "le_val (content_nonce q j) = q * 2 ^ 32 + (j + 1)"
    using content_nonce_val assms by auto
  have "le_val (take 12 (content_nonce p i)) = p * 2 ^ 32 + (i + 1)" "le_val (take 12 (content_nonce q j)) = q * 2 ^ 32 + (j + 1)"
    using a b assms by (simp_all add: le_val_take)
  moreover have "p = q \<and> i = j" if "p * 2 ^ 32 + (i + 1) = q * 2 ^ 32 + (j + 1)"
    using that assms by (cases p q rule: linorder_cases) auto
  moreover have "content_nonce p i \<noteq> ZERO_NONCE"
  proof
    assume "content_nonce p i = ZERO_NONCE"
    then have "p * 2 ^ 32 + (i + 1) = 0" using a(2) by (simp add: ZERO_NONCE_def le_val_replicate)
    then show False using assms by simp
  qed
  ultimately show ?thesis using a(1) by (auto simp: NONCE_SIZE_def)
qed

theorem content_nonces_distinct_witness:
  "content_nonce 0 0 = 1 # replicate 23 0 \<and> content_nonce 1 0 = [1, 0, 0, 0, 1] @ replicate 19 0 \<and>
   take 12 (content_nonce 0 0) \<noteq> take 12 (content_nonce 1 0)"
proof -
  have "content_nonce 0 0 = 1 # replicate 23 0" "content_nonce 1 0 = [1, 0, 0, 0, 1] @ replicate 19 0" by code_simp+
  then show ?thesis using content_nonces_distinct[of 0 0 1 0] by simp
qed

lemma user_data_opens:
  assumes "crypto_ok cr" and "user_pb_ok pb" and "length key = 32" and "length nonce = 24" and "fits_i32 (suite_code cipher)"
    and "fits_i64 segment_size" and "fits_i64 last_size" and "fits_i64 segments"
    and "encrypt_user_data cr pb key nonce custom segment_size last_size segments cipher content_key enc_block object_checksum = Inr ud"
  shows "\<exists>meta info m. decrypt_user_data_full cr pb (encrypted_metadata ud) (encrypted_metadata_encrypted_key ud)
      (encrypted_metadata_nonce ud) cipher' content_key = Inr (meta, info, m) \<and>
    map_of m = map_of (rev custom) \<and> segments_size info = segment_size \<and> last_segment_size info = last_size \<and>
    number_of_segments meta = segments \<and> CipherSuite (encryption_type meta) = cipher \<and>
    (object_checksum \<noteq> None \<longrightarrow> decrypt_object_checksum cr (encrypted_checksum ud) (encrypted_metadata_encrypted_key ud)
       (encrypted_metadata_nonce ud) cipher content_key = Inr (the object_checksum))"
proof -
  let ?m = "fold (\<lambda>(k, v) m. AList.update k v m) custom []"
  let ?info = "\<lparr>deprecated_number_of_segments = 0, segments_size = segment_size, last_segment_size = last_size, si_metadata = meta_encode pb ?m\<rparr>"
  let ?block = "min (int (if enc_block = 0 then DEFAULT_ENCRYPTED_BLOCK_SIZE else enc_block)) (2 ^ 31 - 1)"
  obtain ek ei etag es where ek: "encrypt_key cr key cipher content_key nonce = Inr ek"
      and ei: "encrypt cr (info_encode pb ?info) cipher key ZERO_NONCE = Inr ei"
      and es: "\<And>plain. object_checksum = Some plain \<Longrightarrow> encrypt cr plain cipher key CHECKSUM_NONCE = Inr es"
      and ud: "ud = \<lparr>encrypted_metadata = stream_encode pb \<lparr>encrypted_stream_info = ei, encryption_type = suite_code cipher,
          encryption_block_size = ?block, number_of_segments = segments\<rparr>,
        encrypted_metadata_encrypted_key = ek, encrypted_metadata_nonce = nonce, encrypted_etag = etag, encrypted_checksum = es\<rparr>"
    using assms(9) by (auto simp: encrypt_user_data_def Let_def result_simps split: option.splits)
  have c: "encrypt cr key cipher content_key nonce = Inr ek" "key \<noteq> []" using ek assms(3) by (auto simp: encrypt_key_def)
  then have code: "suite_code cipher \<noteq> 0" "CipherSuite (suite_code cipher) = cipher"
    by (cases cipher; auto simp: encrypt_def suite_defs split: if_splits)+
  have "length CHECKSUM_NONCE = 24" "length ZERO_NONCE = 24"
    by (simp_all add: CHECKSUM_NONCE_def user_data_nonce_def ZERO_NONCE_def)
  then have dec: "decrypt cr ei cipher key ZERO_NONCE = Inr (info_encode pb ?info)"
      "\<And>plain. object_checksum = Some plain \<Longrightarrow> decrypt cr es cipher key CHECKSUM_NONCE = Inr plain"
    using encrypt_decrypt[OF assms(1) ei] encrypt_decrypt[OF assms(1) es] by auto
  have n: "nonce_from_slice nonce = Inr nonce" using assms(4) by (simp add: nonce_from_slice_def NONCE_SIZE_def)
  note k = decrypt_key_ok[OF assms(1) ek assms(3,4)]
  have "distinct (map fst ?m)" by (rule distinct_inserts) simp
  then obtain m where m: "meta_decode pb (meta_encode pb ?m) = Some m" "map_of m = map_of ?m"
    using assms(2) unfolding user_pb_ok_def by blast
  have i: "info_decode pb (info_encode pb ?info) = Some ?info" using assms(2,6,7) unfolding user_pb_ok_def by simp
  have e: "meta_decode pb [] = Some []" using assms(2) unfolding user_pb_ok_def by blast
  define meta where "meta = \<lparr>encrypted_stream_info = ei, encryption_type = suite_code cipher,
    encryption_block_size = ?block, number_of_segments = segments\<rparr>"
  have st: "stream_decode pb (stream_encode pb meta) = Some meta"
    using assms(2,5,8) unfolding user_pb_ok_def meta_def by simp
  have md: "(if meta_encode pb ?m = [] then Inr [] else ok_or (UpProtocol ''decode'') (meta_decode pb (meta_encode pb ?m))) = Inr m"
    using m(1) e by auto
  have sel: "encryption_type meta = suite_code cipher" "encrypted_stream_info meta = ei" by (simp_all add: meta_def)
  have "decrypt_user_data_full cr pb (stream_encode pb meta) ek nonce cipher' content_key = Inr (meta, ?info, m)"
    unfolding decrypt_user_data_full_def Let_def st sel ok_or_simps try_bind_simps if_P[OF code(1)] code(2) n k dec(1) map_err_simps i
      StreamInfo.simps md ..
  moreover have "decrypt_object_checksum cr es ek nonce cipher content_key = Inr (the object_checksum)" if "object_checksum \<noteq> None"
    using that dec(2) by (auto simp: decrypt_object_checksum_def n k)
  ultimately show ?thesis
    using m(2) map_of_inserts[of custom "[]"] code(2) unfolding ud meta_def[symmetric] by (auto simp: meta_def)
qed

text \<open>
  Object metadata survives: what \<open>encrypt_user_data\<close> builds with a fresh key and nonce is opened by the content
  key again, whatever cipher the reader expects, giving the sizes and the user's map (later entries win), and
  the checksum decrypts to the one given.
\<close>

theorem user_data_round_trip:
  assumes "crypto_ok cr" and "user_pb_ok pb" and "length key = 32" and "length nonce = 24" and "fits_i32 (suite_code cipher)"
    and "fits_i64 segment_size" and "fits_i64 last_size" and "fits_i64 segments"
    and "encrypt_user_data cr pb key nonce custom segment_size last_size segments cipher content_key enc_block object_checksum = Inr ud"
  shows "\<exists>meta info m. decrypt_user_data_full cr pb (encrypted_metadata ud) (encrypted_metadata_encrypted_key ud)
      (encrypted_metadata_nonce ud) cipher' content_key = Inr (meta, info, m) \<and>
    map_of m = map_of (rev custom) \<and> segments_size info = segment_size \<and> last_segment_size info = last_size \<and>
    number_of_segments meta = segments \<and> CipherSuite (encryption_type meta) = cipher \<and>
    (object_checksum \<noteq> None \<longrightarrow> decrypt_object_checksum cr (encrypted_checksum ud) (encrypted_metadata_encrypted_key ud)
       (encrypted_metadata_nonce ud) cipher content_key = Inr (the object_checksum))"
  using user_data_opens[OF assms] .

text \<open>Messages as numbers of zero bytes, and metadata of one segment.\<close>

definition toy_user_pb :: UserPb where
  "toy_user_pb =
    \<lparr>meta_encode = (\<lambda>m. replicate (if m = [] then 0 else Suc (to_nat m)) 0),
     meta_decode = (\<lambda>d. Some (if d = [] then [] else from_nat (length d - 1))),
     info_encode = (\<lambda>x. replicate (Suc (to_nat (deprecated_number_of_segments x, segments_size x, last_segment_size x, si_metadata x))) 0),
     info_decode = (\<lambda>d. let (a, b, c, e) = from_nat (length d - 1)
       in Some \<lparr>deprecated_number_of_segments = a, segments_size = b, last_segment_size = c, si_metadata = e\<rparr>),
     stream_encode = (\<lambda>x. replicate (to_nat (encrypted_stream_info x, encryption_type x, encryption_block_size x, number_of_segments x)) 0),
     stream_decode = (\<lambda>d. let (a, b, c, e) = from_nat (length d)
       in Some \<lparr>encrypted_stream_info = a, encryption_type = b, encryption_block_size = c, number_of_segments = e\<rparr>)\<rparr>"

lemma toy_user_pb_ok: "user_pb_ok toy_user_pb"
  by (auto simp: user_pb_ok_def toy_user_pb_def)

theorem user_data_round_trip_witness:
  "\<exists>ud meta info m. encrypt_user_data toy_crypto toy_user_pb (replicate 32 5) (replicate 24 6) [([97], [1]), ([97], [2])] 64 10 2
       AES_GCM (replicate 32 1) 0 (Some [3]) = Inr ud \<and>
     decrypt_user_data_full toy_crypto toy_user_pb (encrypted_metadata ud) (encrypted_metadata_encrypted_key ud)
       (encrypted_metadata_nonce ud) UNSPECIFIED (replicate 32 1) = Inr (meta, info, m) \<and> map_of m [97] = Some [2] \<and>
     decrypt_object_checksum toy_crypto (encrypted_checksum ud) (encrypted_metadata_encrypted_key ud)
       (encrypted_metadata_nonce ud) AES_GCM (replicate 32 1) = Inr [3]"
proof -
  have "\<exists>c. encrypt toy_crypto dat AES_GCM k (replicate 24 b) = Inr c" "\<exists>c. encrypt toy_crypto dat AES_GCM k ZERO_NONCE = Inr c"
    "\<exists>c. encrypt toy_crypto dat AES_GCM k CHECKSUM_NONCE = Inr c" "encrypt toy_crypto [] AES_GCM k ETAG_NONCE = Inr []" for dat k b
    by (simp_all add: encrypt_def aesgcm_encrypt_def to_aes_gcm_nonce_def AES_GCM_NONCE_SIZE_def toy_crypto_def toy_aead_def
        CHECKSUM_NONCE_def user_data_nonce_def ZERO_NONCE_def)
  then obtain ud where ud: "encrypt_user_data toy_crypto toy_user_pb (replicate 32 5) (replicate 24 6) [([97], [1]), ([97], [2])] 64 10 2
       AES_GCM (replicate 32 1) 0 (Some [3]) = Inr ud"
    unfolding encrypt_user_data_def encrypt_key_def Let_def option.case by (metis map_err_simps(2) try_bind_simps(2))
  show ?thesis
    using user_data_round_trip[OF toy_crypto_ok toy_user_pb_ok _ _ _ _ _ _ ud, of UNSPECIFIED] ud by (auto simp: AES_GCM_def)
qed

end
