(* ===== verification/K_Subsets.thy ===== *)
theory K_Subsets
  imports Uplink_Prelude
begin

text \<open>
  The iterator \<open>KSubsets\<close> of \<open>crates/storj-uplink/src/download.rs\<close>, which a download uses to try one set of \<open>k\<close> pieces
  after the other when some piece is corrupt.  Shown: it yields every \<open>k\<close>-subset of the indexes, each as an
  increasing list, in lexicographic order without repetition, so that a good set is eventually tried.
\<close>

section \<open>The code\<close>

record KSubsets =
  ks_n :: nat
  ks_k :: nat
  ks_cur :: "nat list"
  ks_done :: bool

definition ksubsets_new :: "nat \<Rightarrow> nat \<Rightarrow> KSubsets" where
  "ksubsets_new n k =
    (if k = 0 \<or> k > n then \<lparr>ks_n = n, ks_k = k, ks_cur = [], ks_done = True\<rparr>
     else \<lparr>ks_n = n, ks_k = k, ks_cur = [0..<k], ks_done = False\<rparr>)"

text \<open>The loop \<open>while i > 0\<close> from \<open>i = k\<close>: the last position that can still grow.\<close>

fun bump_index :: "nat \<Rightarrow> nat \<Rightarrow> nat list \<Rightarrow> nat \<Rightarrow> nat option" where
  "bump_index n k cur 0 = None"
| "bump_index n k cur (Suc i) = (if cur ! i < i + n - k then Some i else bump_index n k cur i)"

definition ksubsets_next :: "KSubsets \<Rightarrow> nat list option \<times> KSubsets" where
  "ksubsets_next st =
    (if ks_done st then (None, st)
     else case bump_index (ks_n st) (ks_k st) (ks_cur st) (ks_k st) of
       Some i \<Rightarrow>
         (let cur = (ks_cur st)[i := ks_cur st ! i + 1];
              cur = fold (\<lambda>j cur. cur[j := cur ! (j - 1) + 1]) [i + 1..<ks_k st] cur
          in (Some (ks_cur st), st\<lparr>ks_cur := cur\<rparr>))
     | None \<Rightarrow> (Some (ks_cur st), st\<lparr>ks_done := True\<rparr>))"

section \<open>The successor\<close>

text \<open>A position that grew, followed by consecutive numbers.\<close>

lemma refill_eq:
  assumes "i < length xs"
  shows "fold (\<lambda>j cur. cur[j := cur ! (j - 1) + 1]) [i + 1..<length xs] xs = take (i + 1) xs @ map (\<lambda>j. xs ! i + (j - i)) [i + 1..<length xs]"
proof -
  let ?f = "\<lambda>j cur. cur[j := cur ! (j - 1) + 1]"
  have "m \<le> length xs \<Longrightarrow> i + 1 \<le> m \<Longrightarrow>
      fold ?f [i + 1..<m] xs = take (i + 1) xs @ map (\<lambda>j. xs ! i + (j - i)) [i + 1..<m] @ drop m xs" for m
  proof (induction m)
    case (Suc m)
    show ?case
    proof (cases "i + 1 \<le> m")
      case True
      let ?ys = "take (i + 1) xs @ map (\<lambda>j. xs ! i + (j - i)) [i + 1..<m] @ drop m xs"
      have IH: "fold ?f [i + 1..<m] xs = ?ys" using Suc True by simp
      have len: "length (take (i + 1) xs) = i + 1" using assms by simp
      have "?ys ! (m - 1) = xs ! i + (m - 1 - i)"
        using True len Suc.prems by (cases "m - 1 = i") (auto simp: nth_append)
      then have prev: "?ys ! (m - 1) + 1 = xs ! i + (m - i)" using True by linarith
      have "?ys[m := ?ys ! (m - 1) + 1] = take (i + 1) xs @ map (\<lambda>j. xs ! i + (j - i)) [i + 1..<m] @ (drop m xs)[0 := xs ! i + (m - i)]"
        unfolding prev using True len by (simp add: list_update_append)
      also have "(drop m xs)[0 := xs ! i + (m - i)] = (xs ! i + (m - i)) # drop (Suc m) xs"
        using Suc.prems by (simp add: Cons_nth_drop_Suc[symmetric])
      finally show ?thesis using True IH by simp
    next
      case False
      then have "i = m" using Suc.prems by simp
      then show ?thesis by simp
    qed
  qed simp
  from this[of "length xs"] show ?thesis using assms by simp
qed

lemma bump_index_Some:
  "bump_index n k cur m = Some i \<Longrightarrow> i < m \<and> cur ! i < i + n - k \<and> (\<forall>j. i < j \<longrightarrow> j < m \<longrightarrow> \<not> cur ! j < j + n - k)"
  by (induction m) (auto split: if_splits simp: less_Suc_eq)

lemma bump_index_None: "bump_index n k cur m = None \<Longrightarrow> \<forall>j < m. \<not> cur ! j < j + n - k"
  by (induction m) (auto split: if_splits simp: less_Suc_eq)

definition successor :: "nat list \<Rightarrow> nat \<Rightarrow> nat list" where
  "successor cur i = take i cur @ map (\<lambda>j. cur ! i + 1 + (j - i)) [i..<length cur]"

lemma length_successor [simp]: "i < length cur \<Longrightarrow> length (successor cur i) = length cur"
  by (simp add: successor_def)

lemma nth_successor: "j < length cur \<Longrightarrow> i < length cur \<Longrightarrow> successor cur i ! j = (if j < i then cur ! j else cur ! i + 1 + (j - i))"
  by (cases "j < i") (simp_all add: successor_def nth_append)

lemma lex_at:
  assumes "length xs = length ys" "i < length xs" "take i xs = take i ys" "xs ! i < (ys ! i :: nat)"
  shows "(xs, ys) \<in> lex less_than"
proof -
  have "xs = take i xs @ xs ! i # drop (Suc i) xs" "ys = take i xs @ ys ! i # drop (Suc i) ys"
    using assms id_take_nth_drop[of i xs] id_take_nth_drop[of i ys] by auto
  then show ?thesis using assms(1,4) unfolding lex_conv by blast
qed

lemma ksubsets_next_eq:
  assumes "\<not> ks_done st" "length (ks_cur st) = ks_k st"
  shows "ksubsets_next st = (case bump_index (ks_n st) (ks_k st) (ks_cur st) (ks_k st) of
      Some i \<Rightarrow> (Some (ks_cur st), st\<lparr>ks_cur := successor (ks_cur st) i\<rparr>)
    | None \<Rightarrow> (Some (ks_cur st), st\<lparr>ks_done := True\<rparr>))"
proof (cases "bump_index (ks_n st) (ks_k st) (ks_cur st) (ks_k st)")
  case None
  then show ?thesis using assms by (simp add: ksubsets_next_def)
next
  case (Some i)
  let ?c = "(ks_cur st)[i := ks_cur st ! i + 1]"
  have i: "i < length ?c" using bump_index_Some[OF Some] assms(2) by simp
  have "take (i + 1) ?c @ map (\<lambda>j. ?c ! i + (j - i)) [i + 1..<length ?c] = successor (ks_cur st) i"
    using i by (simp add: successor_def take_Suc_conv_app_nth upt_conv_Cons)
  then have "fold (\<lambda>j cur. cur[j := cur ! (j - 1) + 1]) [i + 1..<ks_k st] ?c = successor (ks_cur st) i"
    using refill_eq[OF i] assms(2) by simp
  then show ?thesis using assms Some by (simp add: ksubsets_next_def Let_def)
qed

text \<open>What the iterator still yields.  Its buffer has \<open>k\<close> entries unless it is done.\<close>

function ksubsets_rest :: "KSubsets \<Rightarrow> nat list list" where
  "ksubsets_rest st =
    (if ks_done st \<or> length (ks_cur st) \<noteq> ks_k st then []
     else case ksubsets_next st of (None, _) \<Rightarrow> [] | (Some item, st') \<Rightarrow> item # ksubsets_rest st')"
  by pat_completeness auto
termination
proof (relation "inv_image (less_than <*lex*> lenlex less_than)
    (\<lambda>st. (if ks_done st then 0 else 1 :: nat, map (\<lambda>i. i + ks_n st - ks_k st - ks_cur st ! i) [0..<ks_k st]))")
  fix st pr o' st' item
  assume a: "\<not> (ks_done st \<or> length (ks_cur st) \<noteq> ks_k st)" and n: "(o', st') = ksubsets_next st" and "o' = Some item"
  let ?d = "\<lambda>st. map (\<lambda>i. i + ks_n st - ks_k st - ks_cur st ! i) [0..<ks_k st]"
  show "(st', st) \<in> inv_image (less_than <*lex*> lenlex less_than) (\<lambda>st. (if ks_done st then 0 else 1 :: nat, ?d st))"
  proof (cases "bump_index (ks_n st) (ks_k st) (ks_cur st) (ks_k st)")
    case None
    then show ?thesis using n a by (simp add: ksubsets_next_eq)
  next
    case (Some i)
    then have st': "st' = st\<lparr>ks_cur := successor (ks_cur st) i\<rparr>" using n a by (simp add: ksubsets_next_eq)
    have i: "i < ks_k st" "ks_cur st ! i < i + ks_n st - ks_k st" using bump_index_Some[OF Some] by auto
    have t: "take i (?d st') = take i (?d st)" using a i by (auto simp: st' take_map nth_successor)
    have d: "?d st' ! i < ?d st ! i" using a i by (simp add: st' nth_successor)
    have l: "length (?d st') = length (?d st)" "i < length (?d st')" using i by (simp_all add: st')
    have "(?d st', ?d st) \<in> lex less_than" by (rule lex_at[OF l t d])
    then show ?thesis using l(1) by (simp add: lenlex_conv) (simp add: st')
  qed
qed auto

declare ksubsets_rest.simps [simp del]

definition k_subsets :: "nat \<Rightarrow> nat \<Rightarrow> nat list list" where
  "k_subsets n k = ksubsets_rest (ksubsets_new n k)"

section \<open>The enumeration is complete\<close>

definition combo :: "nat \<Rightarrow> nat \<Rightarrow> nat list \<Rightarrow> bool" where
  "combo n k xs \<longleftrightarrow> length xs = k \<and> sorted_wrt (<) xs \<and> (\<forall>x \<in> set xs. x < n)"

lemma strict_gap:
  assumes "sorted_wrt (<) xs" "i \<le> j" "j < length xs"
  shows "xs ! i + (j - i) \<le> xs ! j"
  using assms(2,3)
proof (induction j)
  case (Suc j)
  show ?case
  proof (cases "i \<le> j")
    case True
    then have "xs ! i + (j - i) \<le> xs ! j" using Suc by simp
    moreover have "xs ! j < xs ! Suc j" using assms(1) Suc.prems by (simp add: sorted_wrt_nth_less)
    ultimately show ?thesis using True by linarith
  qed (use Suc in \<open>simp add: le_Suc_eq\<close>)
qed simp

lemma combo_nth_le: "combo n k xs \<Longrightarrow> p < k \<Longrightarrow> xs ! p \<le> p + n - k"
proof -
  assume c: "combo n k xs" and p: "p < k"
  then have "xs ! p + (k - 1 - p) \<le> xs ! (k - 1)" by (intro strict_gap) (auto simp: combo_def)
  moreover have "xs ! (k - 1) < n" using c p by (simp add: combo_def)
  ultimately show ?thesis using p by linarith
qed

lemma combo_successor:
  assumes c: "combo n k cur" and i: "i < k" "cur ! i < i + n - k" and "k \<le> n"
  shows "combo n k (successor cur i)"
proof -
  have l: "length cur = k" "sorted_wrt (<) cur" using c by (auto simp: combo_def)
  have "successor cur i ! a < successor cur i ! b" if "a < b" "b < k" for a b
  proof (cases "b < i")
    case True
    then show ?thesis using that l i by (simp add: nth_successor sorted_wrt_nth_less)
  next
    case False
    have "cur ! a < cur ! i" if "a < i" using l i that by (simp add: sorted_wrt_nth_less)
    then show ?thesis using False that l i by (auto simp: nth_successor)
  qed
  moreover have "successor cur i ! j < n" if "j < k" for j
  proof (cases "j < i")
    case True
    then show ?thesis using c l i that by (auto simp: nth_successor combo_def)
  next
    case False
    then show ?thesis using l i that assms(4) by (auto simp: nth_successor)
  qed
  ultimately show ?thesis using l i by (auto simp: combo_def sorted_wrt_iff_nth_less in_set_conv_nth)
qed

text \<open>Between a subset and its successor there is none.\<close>

lemma successor_no_gap:
  assumes "combo n k cur" "combo n k t" "(cur, t) \<in> lex less_than"
    and bump: "i < k" "cur ! i < i + n - k" "\<And>j. i < j \<Longrightarrow> j < k \<Longrightarrow> \<not> cur ! j < j + n - k"
  shows "t = successor cur i \<or> (successor cur i, t) \<in> lex less_than"
proof -
  have l: "length cur = k" "length t = k" "sorted_wrt (<) t" using assms(1,2) by (auto simp: combo_def)
  obtain us x y xs ys where d: "cur = us @ x # xs" "t = us @ y # ys" "x < y" using assms(3) by (auto simp: lex_conv)
  define p where "p = length us"
  have p: "p < k" "take p cur = take p t" "cur ! p < t ! p" using d l by (auto simp: p_def)
  have "p \<le> i" using bump(3)[of p] p(1,3) combo_nth_le[OF assms(2) p(1)] by (meson leI less_le_trans)
  show ?thesis
  proof (cases "p < i")
    case True
    then have "take p (successor cur i) = take p t" "successor cur i ! p < t ! p"
      using p l bump(1) by (simp_all add: successor_def nth_append)
    then show ?thesis using lex_at[of "successor cur i" t p] l p(1) bump(1) by simp
  next
    case False
    then have pi: "p = i" using \<open>p \<le> i\<close> by simp
    have pre: "successor cur i ! j = t ! j" if "j < i" for j
      using that p(2) pi l bump(1) by (metis nth_successor nth_take order_less_trans)
    have ge: "successor cur i ! j \<le> t ! j" if "i \<le> j" "j < k" for j
      using that strict_gap[OF l(3), of i j] p(3) pi l bump(1) by (simp add: nth_successor)
    show ?thesis
    proof (rule disjCI)
      assume "(successor cur i, t) \<notin> lex less_than"
      then have no: "successor cur i ! q = t ! q" if "q < k" "take q (successor cur i) = take q t" for q
        using lex_at[of "successor cur i" t q] that l bump(1) pre ge by (metis leI length_successor order_le_less)
      have "take q (successor cur i) = take q t" if "q \<le> k" for q
        using that
      proof (induction q)
        case (Suc q)
        then show ?case using no[of q] l bump(1) by (simp add: take_Suc_conv_app_nth)
      qed simp
      from this[of k] show "t = successor cur i" using l bump(1) by simp
    qed
  qed
qed

lemma rest_complete:
  assumes "\<not> ks_done st" "combo (ks_n st) (ks_k st) (ks_cur st)" "ks_k st \<le> ks_n st"
  shows "set (ksubsets_rest st) = {t. combo (ks_n st) (ks_k st) t \<and> (t = ks_cur st \<or> (ks_cur st, t) \<in> lex less_than)} \<and>
    sorted_wrt (\<lambda>xs ys. (xs, ys) \<in> lex less_than) (ksubsets_rest st)"
  using assms
proof (induction st rule: ksubsets_rest.induct)
  case (1 st)
  let ?n = "ks_n st" and ?k = "ks_k st" and ?cur = "ks_cur st"
  have l: "length ?cur = ?k" using 1(3) by (simp add: combo_def)
  have tr: "trans (lex less_than)" by (simp add: lex_transI)
  show ?case
  proof (cases "bump_index ?n ?k ?cur ?k")
    case None
    have "t = ?cur" if t: "combo ?n ?k t" "(?cur, t) \<in> lex less_than" for t
    proof -
      obtain us x y xs ys where d: "?cur = us @ x # xs" "t = us @ y # ys" "x < y" using t(2) by (auto simp: lex_conv)
      have "?cur ! length us < t ! length us" "length us < ?k" using d l by auto
      then show ?thesis
        using combo_nth_le[OF t(1), of "length us"] bump_index_None[OF None] by fastforce
    qed
    moreover have "ksubsets_next st = (Some ?cur, st\<lparr>ks_done := True\<rparr>)" using None 1(2) l by (simp add: ksubsets_next_eq)
    then have "ksubsets_rest st = [?cur]" using 1(2) l by (simp add: ksubsets_rest.simps)
    ultimately show ?thesis using 1(3) by auto
  next
    case (Some i)
    note b = bump_index_Some[OF Some]
    let ?s = "successor ?cur i" and ?st = "st\<lparr>ks_cur := successor ?cur i\<rparr>"
    have nx: "ksubsets_next st = (Some ?cur, ?st)" using Some 1(2) l by (simp add: ksubsets_next_eq)
    then have r: "ksubsets_rest st = ?cur # ksubsets_rest ?st" using 1(2) l by (subst ksubsets_rest.simps) simp
    have c: "combo ?n ?k ?s" using combo_successor[OF 1(3)] b 1(4) by blast
    have "?cur ! i < ?s ! i" "take i ?cur = take i ?s" using b l by (simp_all add: nth_successor, simp add: successor_def)
    then have lt: "(?cur, ?s) \<in> lex less_than" using lex_at[of ?cur ?s i] b l by simp
    have IH: "set (ksubsets_rest ?st) = {t. combo ?n ?k t \<and> (t = ?s \<or> (?s, t) \<in> lex less_than)}"
        "sorted_wrt (\<lambda>xs ys. (xs, ys) \<in> lex less_than) (ksubsets_rest ?st)"
      using 1(1)[OF _ nx[symmetric] refl] 1(2,4) c l by auto
    have "t = ?s \<or> (?s, t) \<in> lex less_than" if "combo ?n ?k t" "(?cur, t) \<in> lex less_than" for t
      using successor_no_gap[OF 1(3) that] b by blast
    moreover have up: "(?cur, t) \<in> lex less_than" if "t = ?s \<or> (?s, t) \<in> lex less_than" for t
      using that lt tr by (metis transD)
    ultimately show ?thesis unfolding r using IH 1(3) by auto
  qed
qed

lemma k_subsets_complete:
  assumes "0 < k"
  shows "set (k_subsets n k) = {xs. combo n k xs}" "sorted_wrt (\<lambda>xs ys. (xs, ys) \<in> lex less_than) (k_subsets n k)"
proof -
  have "set (k_subsets n k) = {xs. combo n k xs} \<and> sorted_wrt (\<lambda>xs ys. (xs, ys) \<in> lex less_than) (k_subsets n k)"
  proof (cases "k \<le> n")
    case True
    let ?st = "ksubsets_new n k"
    have st: "\<not> ks_done ?st" "ks_cur ?st = [0..<k]" "ks_n ?st = n" "ks_k ?st = k"
      using assms True by (simp_all add: ksubsets_new_def)
    have least: "xs = [0..<k] \<or> ([0..<k], xs) \<in> lex less_than" if "combo n k xs" for xs
    proof (rule disjCI)
      assume no: "([0..<k], xs) \<notin> lex less_than"
      have l: "length xs = k" "sorted_wrt (<) xs" using that by (auto simp: combo_def)
      have "take q xs = [0..<q]" if "q \<le> k" for q
        using that
      proof (induction q)
        case (Suc q)
        then have q: "q < k" "take q xs = [0..<q]" by auto
        have "q \<le> xs ! q" using strict_gap[OF l(2), of 0 q] q(1) l(1) by linarith
        moreover have "\<not> q < xs ! q" using lex_at[of "[0..<k]" xs q] no q l(1) by auto
        ultimately show ?case using q l(1) by (simp add: take_Suc_conv_app_nth)
      qed simp
      from this[of k] show "xs = [0..<k]" using l(1) by simp
    qed
    have "combo n k [0..<k]" using True by (auto simp: combo_def)
    then show ?thesis using rest_complete[of ?st] st True least by (auto simp: k_subsets_def)
  next
    case False
    have "\<not> combo n k xs" for xs
    proof
      assume c: "combo n k xs"
      then have "xs ! 0 + (k - 1 - 0) \<le> xs ! (k - 1)" using assms by (intro strict_gap) (auto simp: combo_def)
      moreover have "xs ! (k - 1) < n" using c assms by (simp add: combo_def)
      ultimately have "k - 1 < n" by linarith
      then show False using False by linarith
    qed
    then show ?thesis using False by (simp add: k_subsets_def ksubsets_new_def ksubsets_rest.simps)
  qed
  then show "set (k_subsets n k) = {xs. combo n k xs}" "sorted_wrt (\<lambda>xs ys. (xs, ys) \<in> lex less_than) (k_subsets n k)"
    by auto
qed

section \<open>The property\<close>

text \<open>
  C26: \<open>KSubsets\<close> ends after yielding exactly the increasing lists of \<open>k\<close> indexes below \<open>n\<close>, each once, in lexicographic
  order.
\<close>

theorem k_subsets_enumerates:
  assumes "0 < k"
  shows "set (k_subsets n k) = {xs. length xs = k \<and> sorted_wrt (<) xs \<and> (\<forall>x \<in> set xs. x < n)} \<and>
    distinct (k_subsets n k) \<and> sorted_wrt (\<lambda>xs ys. (xs, ys) \<in> lex less_than) (k_subsets n k)"
proof -
  have "xs \<noteq> ys" if "(xs, ys) \<in> lex less_than" for xs ys :: "nat list"
    using that wf_lex[OF wf_less_than] by (metis wf_irrefl)
  then have irr: "sorted_wrt (\<lambda>xs ys. (xs, ys) \<in> lex less_than) zs \<Longrightarrow> distinct zs" for zs :: "nat list list"
    by (induction zs) auto
  have "distinct (k_subsets n k)" by (rule irr[OF k_subsets_complete(2)[OF assms]])
  then show ?thesis using k_subsets_complete[OF assms, of n] by (simp add: combo_def)
qed

theorem k_subsets_enumerates_witness:
  "k_subsets 3 2 = [[0, 1], [0, 2], [1, 2]] \<and> distinct (k_subsets 3 2)"
proof -
  have "k_subsets 3 2 = [[0, 1], [0, 2], [1, 2]]" by code_simp
  then show ?thesis using k_subsets_enumerates[of 2 3] by simp
qed

end
