(* ===== verification/Download.thy ===== *)
theory Download
  imports Pipeline K_Subsets
begin

text \<open>
  The computing half of \<open>crates/storj-uplink/src/download.rs\<close>: byte ranges of an object, of a segment and of the
  pieces, erasure decoding of downloaded pieces, decryption of the blocks that a range needs, and the search for
  a set of pieces that authenticates.  Fetching the pieces is the subject of \<open>Piece_Collect\<close>: here they are an
  argument.  \<open>i64\<close> values are integers with the saturating operations written out; \<open>usize\<close> values are natural numbers, also in
  the sums that the code writes with a plain \<open>+\<close> (\<open>want_start + want_len\<close>), which stay far below \<open>2 ^ 64\<close> for the sizes of segments.
\<close>

section \<open>The code\<close>

subsection \<open>Ranges\<close>

definition resolve_range :: "int \<Rightarrow> int \<Rightarrow> int \<Rightarrow> UplinkError + (int \<times> int)" where
  "resolve_range offset len object_size =
    (if offset < 0 \<and> len \<ge> 0 then Inl (UpProtocol ''suffix requires length to be negative'')
     else if object_size < 0 then Inl (UpProtocol ''object size is negative'')
     else if offset < 0 then
       (let suffix = sat_i64 (- offset);
            start = (if suffix \<ge> object_size then 0 else object_size - suffix)
        in Inr (start, object_size - start))
     else
       (let start = min offset object_size;
            end = (if len < 0 then object_size else min (sat_i64 (start + len)) object_size)
        in Inr (start, sat_i64 (end - start))))"

definition segment_plain_range :: "int \<Rightarrow> int \<Rightarrow> int \<Rightarrow> int \<Rightarrow> int \<times> int" where
  "segment_plain_range object_start object_len seg_offset seg_plain =
    (if object_len \<le> 0 \<or> seg_plain \<le> 0 then (0, 0)
     else let object_end = sat_i64 (object_start + object_len);
              seg_end = sat_i64 (seg_offset + seg_plain);
              start = max object_start seg_offset;
              end = min object_end seg_end
          in if end \<le> start then (0, 0) else (start - seg_offset, end - start))"

datatype PbRange = RangeSuffix int | RangeStart int | RangeStartLimit int int

definition proto_range :: "int \<Rightarrow> int \<Rightarrow> PbRange option" where
  "proto_range offset len =
    (if offset < 0 then (if len \<ge> 0 then None else Some (RangeSuffix (sat_i64 (- offset))))
     else if len < 0 then (if offset = 0 then None else Some (RangeStart offset))
     else Some (RangeStartLimit offset (sat_i64 (offset + len))))"

definition piece_byte_range :: "int \<Rightarrow> int \<Rightarrow> nat \<Rightarrow> nat \<Rightarrow> Redundancy \<Rightarrow> int \<times> int" where
  "piece_byte_range plain_start plain_len plain_block enc_block rs =
    (let (first_block, nblocks) = calc_encompassing_blocks plain_start plain_len plain_block
     in if nblocks \<le> 0 \<or> enc_block = 0 \<or> rd_share_size rs = 0 then (0, 0)
        else let enc_start = sat_i64 (first_block * int enc_block);
                 enc_end = sat_i64 (sat_i64 (first_block + nblocks) * int enc_block);
                 stripe = int (rd_stripe_size rs);
                 share = int (rd_share_size rs)
             in if stripe = 0 then (0, 0)
                else let first_stripe = quot_i64 enc_start stripe;
                         last_stripe = quot_i64 (sat_i64 (enc_end + (stripe - 1))) stripe
                     in (sat_i64 (first_stripe * share), sat_i64 ((last_stripe - first_stripe) * share)))"

subsection \<open>Erasure decoding\<close>

text \<open>\<open>usize::try_from(num).unwrap_or(usize::MAX)\<close> of a negative piece number is not below \<open>n\<close>.\<close>

definition collect_share :: "nat \<Rightarrow> int \<times> bytes \<Rightarrow> bytes option list \<times> nat list \<Rightarrow> bytes option list \<times> nat list" where
  "collect_share n = (\<lambda>(num, dat) (by_index, available).
    (let idx = nat num
     in if 0 \<le> num \<and> idx < n \<and> by_index ! idx = None then (by_index[idx := Some dat], available @ [idx]) else (by_index, available)))"

fun plan_inputs :: "bytes option list \<Rightarrow> nat list \<Rightarrow> UplinkError + bytes list" where
  "plan_inputs by_index [] = Inr []"
| "plan_inputs by_index (idx # rest) =
    try_bind (ok_or (UpProtocol ''decode plan index missing'') (by_index ! idx)) (\<lambda>d.
    try_bind (plan_inputs by_index rest) (\<lambda>ds. Inr (d # ds)))"

definition decode_one_stripe :: "backend \<Rightarrow> DecodePlan \<Rightarrow> bytes list \<Rightarrow> Redundancy \<Rightarrow> nat \<Rightarrow> nat \<Rightarrow> bytes \<Rightarrow> UplinkError + bytes" where
  "decode_one_stripe cpu plan inputs rs stripe0 s out =
    (let ss = rd_share_size rs;
         stripe = rd_stripe_size rs;
         off = (stripe0 + s) * ss;
         slots = map (\<lambda>d. sub_slice d off (off + ss)) inputs
     in try_bind (map_err Ec (decode_into cpu plan slots (sub_slice out (s * stripe) ((s + 1) * stripe)))) (\<lambda>st.
          Inr (put_slice out (s * stripe) st)))"

text \<open>\<open>shares[0]\<close> exists: a scheme from \<open>from_scheme\<close> has \<open>k > 0\<close>, and there are at least \<open>k\<close> shares.\<close>

definition decode_encrypted_slices ::
  "backend \<Rightarrow> (int \<times> bytes) list \<Rightarrow> Redundancy \<Rightarrow> nat \<Rightarrow> nat option \<Rightarrow> UplinkError + bytes" where
  "decode_encrypted_slices cpu shares rs stripe0 n_stripes =
    (if length shares < rd_k rs then Inl (UpProtocol ''need more pieces to decode'')
     else let ss = rd_share_size rs
     in if ss = 0 then Inl (UpProtocol ''share size is zero'')
     else let piece_len = length (snd (shares ! 0))
     in if \<not> list_all (\<lambda>(_, d). length d = piece_len) shares then Inl (UpProtocol ''piece lengths differ'')
     else if piece_len mod ss \<noteq> 0 then Inl (UpProtocol ''piece length is not a multiple of share size'')
     else let total_stripes = piece_len div ss
     in if stripe0 > total_stripes then Inl (UpProtocol ''stripe offset past piece length'')
     else let n = min (case n_stripes of Some m \<Rightarrow> m | None \<Rightarrow> total_stripes - stripe0) (total_stripes - stripe0)
     in try_bind (map_err Ec (new_rs (rd_k rs) (rd_n rs) ss)) (\<lambda>fec.
        let (by_index, available) = fold (collect_share (rd_n rs)) shares (replicate (rd_n rs) None, [])
        in try_bind (map_err Ec (decode_plan cpu fec available)) (\<lambda>plan.
           try_bind (plan_inputs by_index (plan_indexes plan)) (\<lambda>inputs.
             fold_result (decode_one_stripe cpu plan inputs rs stripe0) [0..<n] (replicate (n * rd_stripe_size rs) 0)))))"

definition decode_encrypted :: "backend \<Rightarrow> (int \<times> bytes) list \<Rightarrow> Redundancy \<Rightarrow> UplinkError + bytes" where
  "decode_encrypted cpu shares rs = decode_encrypted_slices cpu shares rs 0 None"

subsection \<open>Decryption\<close>

definition decrypt_inline :: "Crypto \<Rightarrow> bytes \<Rightarrow> CipherSuite \<Rightarrow> Key \<Rightarrow> bytes \<Rightarrow> UplinkError + bytes" where
  "decrypt_inline cr cipher_data cipher key nonce = map_err Encryption (decrypt cr cipher_data cipher key nonce)"

record DecryptParams =
  decoded_offset :: nat
  encrypted_size :: nat
  dp_cipher :: CipherSuite
  dp_key :: Key
  dp_nonce :: bytes
  dp_block_size :: nat
  plain_start :: int
  plain_len :: int
  plain_size :: int

definition is_content_auth_failure :: "UplinkError \<Rightarrow> bool" where
  "is_content_auth_failure err = (err = Encryption DecryptionFailed)"

definition content_auth_error :: UplinkError where
  "content_auth_error = Encryption DecryptionFailed"

text \<open>The loop over the blocks with the number of the block that fails to authenticate.\<close>

fun decrypt_blocks :: "Transformer \<Rightarrow> int \<Rightarrow> bytes list \<Rightarrow> bytes \<Rightarrow> (UplinkError + bytes) \<times> int option" where
  "decrypt_blocks d block_num [] out = (Inr out, None)"
| "decrypt_blocks d block_num (chunk # rest) out =
    (case transform_into d chunk block_num out of
       Inl e \<Rightarrow> (let err = Encryption e in (Inl err, if is_content_auth_failure err then Some block_num else None))
     | Inr out \<Rightarrow> decrypt_blocks d (block_num + 1) rest out)"

definition usize_sat :: "nat \<Rightarrow> nat" where "usize_sat x = nat (min (int x) (2 ^ 64 - 1))"

text \<open>The end of the function: the requested bytes of the decrypted blocks, without the padding.\<close>

definition trim_decrypted :: "DecryptParams \<Rightarrow> int \<Rightarrow> nat \<Rightarrow> bytes \<Rightarrow> bytes" where
  "trim_decrypted job first_block plain_block decrypted =
    (let block_plain_start = sat_i64 (first_block * int plain_block);
         skip = nat (sat_i64 (plain_start job - block_plain_start));
         valid = length decrypted - skip;
         take' = min (nat (plain_len job)) valid;
         abs_end = min (plain_start job + int take') (plain_size job);
         take' = nat (sat_i64 (abs_end - plain_start job))
     in sub_slice decrypted skip (skip + take'))"

text \<open>\<open>decrypt_remote_tracking_failure\<close> of \<open>params.as_remote(decoded)\<close>.\<close>

definition decrypt_remote_tracking_failure :: "Crypto \<Rightarrow> DecryptParams \<Rightarrow> bytes \<Rightarrow> (UplinkError + bytes) \<times> int option" where
  "decrypt_remote_tracking_failure cr job decoded =
    (if plain_len job \<le> 0 \<or> plain_size job \<le> 0 then (Inr [], None)
     else case new_decrypter cr (dp_cipher job) (dp_key job) (dp_nonce job) (dp_block_size job) of
       Inl e \<Rightarrow> (Inl (Encryption e), None)
     | Inr d \<Rightarrow>
       (let enc_block = in_block_size d; plain_block = out_block_size d
        in if enc_block = 0 \<or> plain_block = 0 then (Inl (UpProtocol ''invalid encryption block size''), None)
        else let (first_block, nblocks) = calc_encompassing_blocks (plain_start job) (plain_len job) plain_block
        in if nblocks \<le> 0 then (Inr [], None)
        else let want_start = usize_sat (nat first_block * enc_block);
                 want_len = usize_sat (nat nblocks * enc_block);
                 avail_end = min (usize_sat (decoded_offset job + length decoded)) (encrypted_size job)
        in if want_start < decoded_offset job \<or> want_start + want_len > avail_end
           then (Inl (UpProtocol ''decoded ciphertext does not cover requested blocks''), None)
        else let local = want_start - decoded_offset job;
                 blocks = sub_slice decoded local (local + want_len)
        in case decrypt_blocks d first_block (chunks enc_block blocks) [] of
             (Inl e, failed) \<Rightarrow> (Inl e, failed)
           | (Inr decrypted, _) \<Rightarrow>
             (Inr (trim_decrypted job first_block plain_block decrypted), None)))"

definition decrypt_remote :: "Crypto \<Rightarrow> DecryptParams \<Rightarrow> bytes \<Rightarrow> UplinkError + bytes" where
  "decrypt_remote cr job decoded = fst (decrypt_remote_tracking_failure cr job decoded)"

subsection \<open>Trying sets of pieces\<close>

definition probe_share_set :: "Crypto \<Rightarrow> backend \<Rightarrow> (int \<times> bytes) list \<Rightarrow> Redundancy \<Rightarrow> DecryptParams \<Rightarrow> int option \<Rightarrow> bool" where
  "probe_share_set cr cpu chosen rs params block =
    (if plain_len params \<le> 0 \<or> plain_size params \<le> 0 then True
     else case new_decrypter cr (dp_cipher params) (dp_key params) (dp_nonce params) (dp_block_size params) of
       Inl _ \<Rightarrow> False
     | Inr d \<Rightarrow>
       (let enc_block = in_block_size d; plain_block = out_block_size d
        in if enc_block = 0 \<or> plain_block = 0 then False
        else let (first_block, nblocks) = calc_encompassing_blocks (plain_start params) (plain_len params) plain_block
        in if nblocks \<le> 0 then True
        else let first_block = (case block of Some b \<Rightarrow> b | None \<Rightarrow> first_block);
                 want_start = usize_sat (nat first_block * enc_block)
        in if want_start < decoded_offset params then False
        else let local = want_start - decoded_offset params;
                 stripe = rd_stripe_size rs
        in if stripe = 0 then False
        else let stripe0 = local div stripe;
                 within = local mod stripe;
                 n_stripes = max ((usize_sat (within + enc_block) + stripe - 1) div stripe) 1
        in case decode_encrypted_slices cpu chosen rs stripe0 (Some n_stripes) of
             Inl _ \<Rightarrow> False
           | Inr decoded \<Rightarrow>
             (if length decoded < usize_sat (within + enc_block) then False
              else case transform_blocks d (sub_slice decoded within (within + enc_block)) first_block of
                     Inl _ \<Rightarrow> False | Inr _ \<Rightarrow> True)))"

definition select_shares :: "(int \<times> bytes) list \<Rightarrow> nat list \<Rightarrow> (int \<times> bytes) list" where
  "select_shares shares ids = map (\<lambda>i. shares ! i) ids"

fun reconstruct_loop :: "Crypto \<Rightarrow> backend \<Rightarrow> (int \<times> bytes) list \<Rightarrow> Redundancy \<Rightarrow> DecryptParams \<Rightarrow> bool \<Rightarrow> nat list list \<Rightarrow> int list \<Rightarrow>
    UplinkError option \<Rightarrow> UplinkError + bytes" where
  "reconstruct_loop cr cpu shares rs params probe_first [] failed_blocks last_err =
    Inl (case last_err of Some e \<Rightarrow> e | None \<Rightarrow> content_auth_error)"
| "reconstruct_loop cr cpu shares rs params probe_first (ids # subsets) failed_blocks last_err =
    (let chosen = select_shares shares ids
     in if probe_first \<and> (\<not> probe_share_set cr cpu chosen rs params None \<or>
             list_ex (\<lambda>block. \<not> probe_share_set cr cpu chosen rs params (Some block)) failed_blocks)
        then reconstruct_loop cr cpu shares rs params probe_first subsets failed_blocks (Some content_auth_error)
        else case decode_encrypted_slices cpu chosen rs 0 None of
          Inl err \<Rightarrow> reconstruct_loop cr cpu shares rs params probe_first subsets failed_blocks (Some err)
        | Inr decoded \<Rightarrow>
          (case decrypt_remote_tracking_failure cr params decoded of
             (Inr plain, _) \<Rightarrow> Inr plain
           | (Inl err, Some block) \<Rightarrow>
               reconstruct_loop cr cpu shares rs params probe_first subsets (failed_blocks @ [block]) (Some err)
           | (Inl err, None) \<Rightarrow> Inl err))"

definition reconstruct_remote :: "Crypto \<Rightarrow> backend \<Rightarrow> (int \<times> bytes) list \<Rightarrow> Redundancy \<Rightarrow> DecryptParams \<Rightarrow> UplinkError + bytes" where
  "reconstruct_remote cr cpu shares rs params =
    (if length shares < rd_k rs then Inl (UpProtocol ''need more pieces to decode'')
     else reconstruct_loop cr cpu shares rs params (length shares > rd_k rs) (k_subsets (length shares) (rd_k rs)) [] None)"

section \<open>Erasure decoding undoes encoding\<close>

text \<open>Shares of a segment: each with its number in range, and with the data of that piece.\<close>

definition pieces_of :: "backend \<Rightarrow> Redundancy \<Rightarrow> bytes list \<Rightarrow> (int \<times> bytes) list \<Rightarrow> bool" where
  "pieces_of cpu rs stripes shares \<longleftrightarrow> distinct (map fst shares) \<and>
    (\<forall>(num, d) \<in> set shares. 0 \<le> num \<and> num < int (rd_n rs) \<and> d = piece_of cpu (fec_of rs) stripes (nat num))"

lemma collect_shares_ok:
  assumes "distinct (map fst shares)" "\<forall>(num, d) \<in> set shares. 0 \<le> num \<and> num < int n"
    and "length bi = n" "\<forall>(num, d) \<in> set shares. bi ! nat num = None"
  shows "\<exists>bi'. fold (collect_share n) shares (bi, av) = (bi', av @ map (nat \<circ> fst) shares) \<and> length bi' = n \<and>
    (\<forall>(num, d) \<in> set shares. bi' ! nat num = Some d) \<and> (\<forall>j < n. int j \<notin> fst ` set shares \<longrightarrow> bi' ! j = bi ! j)"
  using assms
proof (induction shares arbitrary: bi av)
  case (Cons x shares)
  obtain num d where x: "x = (num, d)" by (cases x)
  let ?i = "nat num" and ?bi = "bi[nat num := Some d]"
  have i: "0 \<le> num" "?i < n" "bi ! ?i = None" using Cons.prems(2,4) x by auto
  have step: "collect_share n x (bi, av) = (?bi, av @ [?i])" using i x by (simp add: collect_share_def)
  have fresh: "?bi ! nat num' = None" if "(num', d') \<in> set shares" for num' d'
  proof -
    have "num' \<noteq> num" "0 \<le> num'" using that Cons.prems(1,2) x by (force, auto)
    then have "nat num' \<noteq> ?i" using i(1) by simp
    then show ?thesis using Cons.prems(4) that by auto
  qed
  have pr: "distinct (map fst shares)" "\<forall>(num, d) \<in> set shares. 0 \<le> num \<and> num < int n" "length ?bi = n"
      "\<forall>(num, d) \<in> set shares. ?bi ! nat num = None"
    using Cons.prems fresh by auto
  obtain bi' where bi': "fold (collect_share n) shares (?bi, av @ [?i]) = (bi', (av @ [?i]) @ map (nat \<circ> fst) shares)" "length bi' = n"
      "\<forall>(num, d) \<in> set shares. bi' ! nat num = Some d" "\<forall>j < n. int j \<notin> fst ` set shares \<longrightarrow> bi' ! j = ?bi ! j"
    using Cons.IH[OF pr, of "av @ [?i]"] by blast
  have "num \<notin> fst ` set shares" using Cons.prems(1) x by auto
  then have "bi' ! ?i = Some d" using bi'(4) i Cons.prems(3) by simp
  moreover have "bi' ! j = bi ! j" if "j < n" "int j \<notin> fst ` set (x # shares)" for j
    using bi'(4) that x i(1) by (auto simp: nth_list_update)
  ultimately show ?case using bi' step x by (intro exI[of _ bi']) auto
qed simp

lemma plan_inputs_ok: "(\<And>i. i \<in> set ids \<Longrightarrow> bi ! i = Some (f i)) \<Longrightarrow> plan_inputs bi ids = Inr (map f ids)"
  by (induction ids) auto

lemma decode_stripes_ok:
  assumes rs: "redundancy_ok rs" and len: "\<forall>st \<in> set stripes. length st = rd_stripe_size rs"
    and plan: "good_plan (fec_of rs) ids plan" "\<And>x. x \<in> set ids \<Longrightarrow> x < rd_n rs"
    and n: "stripe0 + n \<le> length stripes" and inputs: "inputs = map (piece_of cpu' (fec_of rs) stripes) (plan_indexes plan)"
  shows "fold_result (decode_one_stripe cpu plan inputs rs stripe0) [0..<n] (replicate (n * rd_stripe_size rs) 0) =
    Inr (concat (take n (drop stripe0 stripes)))"
proof -
  let ?b = "rd_stripe_size rs" and ?f = "decode_one_stripe cpu plan inputs rs stripe0" and ?xs = "drop stripe0 stripes"
  let ?P = "\<lambda>s out. out = concat (take s ?xs) @ replicate ((n - s) * ?b) (0 :: u8)"
  note v = fec_of_ok(2)[OF rs]
  have "\<exists>out. fold_result ?f [0..<n] (replicate (n * ?b) 0) = Inr out \<and> ?P n out"
  proof (rule fold_result_upt_invariant[where P = ?P])
    show "?P 0 (replicate (n * ?b) 0)" by simp
    fix s out assume s: "s < n" and out: "?P s out"
    let ?st = "stripes ! (stripe0 + s)"
    have st: "length ?st = ?b" using len n s by simp
    have pre: "length (concat (take s ?xs)) = s * ?b"
      using length_concat_const[of "take s ?xs" ?b] len n s by (auto dest: in_set_takeD in_set_dropD)
    have z: "replicate ((n - s) * ?b) (0 :: u8) = replicate ?b 0 @ replicate ((n - Suc s) * ?b) 0"
      using s by (simp add: Suc_diff_Suc[symmetric] replicate_add)
    have slot: "sub_slice (piece_of cpu' (fec_of rs) stripes r) ((stripe0 + s) * rd_share_size rs)
        ((stripe0 + s) * rd_share_size rs + rd_share_size rs) = share_of cpu' (fec_of rs) ?st r" for r
      unfolding piece_of_def using len n s by (subst concat_slot) (auto simp: length_share_of[OF v])
    have "map (\<lambda>d. sub_slice d ((stripe0 + s) * rd_share_size rs) ((stripe0 + s) * rd_share_size rs + rd_share_size rs)) inputs =
        map (share_of cpu' (fec_of rs) ?st) (plan_indexes plan)"
      unfolding inputs by (simp add: slot)
    moreover have "sub_slice out (s * ?b) ((s + 1) * ?b) = replicate ?b 0" using out pre z by (simp add: sub_slice_def)
    moreover have "decode_into cpu plan (map (share_of cpu' (fec_of rs) ?st) (plan_indexes plan)) (replicate ?b 0) = Inr ?st"
      using plan(2) st by (intro decode_into_ok[OF v plan(1) _ _ _ refl]) simp_all
    ultimately have "?f s out = Inr (put_slice out (s * ?b) ?st)" by (simp add: decode_one_stripe_def Let_def)
    moreover have "put_slice out (s * ?b) ?st = concat (take s ?xs) @ ?st @ replicate ((n - Suc s) * ?b) 0"
      using out pre z st by (simp add: put_slice_def)
    moreover have "take (Suc s) ?xs = take s ?xs @ [?st]" using n s by (simp add: take_Suc_conv_app_nth)
    ultimately show "\<exists>out'. ?f s out = Inr out' \<and> ?P (Suc s) out'" by simp
  qed
  then show ?thesis by simp
qed

text \<open>With distinct numbers in range and equal lengths, the shares reach the loop over the stripes.\<close>

lemma decode_setup:
  assumes rs: "redundancy_ok rs" and nums: "distinct (map fst shares)" "\<forall>(num, d) \<in> set shares. 0 \<le> num \<and> num < int (rd_n rs)"
    and plen: "\<forall>(num, d) \<in> set shares. length d = len * rd_share_size rs" and k: "rd_k rs \<le> length shares" and s0: "stripe0 \<le> len"
  obtains plan f where "good_plan (fec_of rs) (sort (map (nat \<circ> fst) shares)) plan"
    "\<And>i. i \<in> set (plan_indexes plan) \<Longrightarrow> (int i, f i) \<in> set shares"
    "decode_encrypted_slices cpu shares rs stripe0 ns =
      (let n = min (case ns of Some m \<Rightarrow> m | None \<Rightarrow> len - stripe0) (len - stripe0)
       in fold_result (decode_one_stripe cpu plan (map f (plan_indexes plan)) rs stripe0) [0..<n] (replicate (n * rd_stripe_size rs) 0))"
proof -
  let ?ss = "rd_share_size rs" and ?n = "rd_n rs" and ?fec = "fec_of rs" and ?ids = "map (nat \<circ> fst) shares"
  note v = fec_of_ok[OF rs]
  have pos: "0 < ?ss" "0 < rd_k rs" using rs by (auto simp: redundancy_ok_def)
  have "0 < length shares" using k pos(2) by linarith
  then have "shares ! 0 \<in> set shares" by (rule nth_mem)
  then have p0: "length (snd (shares ! 0)) = len * ?ss" using plen by (simp add: case_prod_beta)
  obtain bi where bi: "fold (collect_share ?n) shares (replicate ?n None, []) = (bi, ?ids)"
      "\<forall>(num, d) \<in> set shares. bi ! nat num = Some d"
    using collect_shares_ok[OF nums, of "replicate ?n None" "[]"] nums(2) by fastforce
  have "0 \<le> num" if "num \<in> set (map fst shares)" for num using that nums(2) by auto
  then have "inj_on nat (set (map fst shares))" by (meson inj_onI eq_nat_nat_iff)
  then have "distinct (map nat (map fst shares))" unfolding distinct_map using nums(1) by (simp add: distinct_map)
  then have ids: "distinct ?ids" "\<forall>i \<in> set ?ids. i < ?n" using nums(2) by auto
  obtain plan where plan: "decode_plan cpu ?fec ?ids = Inr plan" "good_plan ?fec (sort ?ids) plan" "set (plan_indexes plan) \<subseteq> set ?ids"
    using decode_plan_ok[OF v(2) ids(1), of cpu] ids(2) k by auto
  let ?f = "\<lambda>i. the (bi ! i)"
  have f: "(int i, ?f i) \<in> set shares \<and> bi ! i = Some (?f i)" if i: "i \<in> set (plan_indexes plan)" for i
  proof -
    obtain num d where "(num, d) \<in> set shares" "i = nat num" using i plan(3) by fastforce
    then show ?thesis using bi(2) nums(2) by fastforce
  qed
  then have inp: "plan_inputs bi (plan_indexes plan) = Inr (map ?f (plan_indexes plan))" by (intro plan_inputs_ok) blast
  have "list_all (\<lambda>(_, d). length d = len * ?ss) shares" using plen by (auto simp: list_all_iff)
  then show ?thesis
    using f k pos(1) p0 s0 by (intro that[OF plan(2), of ?f]) (auto simp: decode_encrypted_slices_def Let_def v(1) bi(1) plan(1) inp)
qed

lemma decode_slices_ok:
  assumes rs: "redundancy_ok rs" and len: "\<forall>st \<in> set stripes. length st = rd_stripe_size rs"
    and sh: "pieces_of cpu' rs stripes shares" "rd_k rs \<le> length shares" and s0: "stripe0 \<le> length stripes"
  shows "decode_encrypted_slices cpu shares rs stripe0 ns =
    Inr (concat (take (case ns of Some m \<Rightarrow> m | None \<Rightarrow> length stripes) (drop stripe0 stripes)))"
proof -
  let ?fec = "fec_of rs" and ?ids = "map (nat \<circ> fst) shares"
  let ?m = "min (case ns of Some m \<Rightarrow> m | None \<Rightarrow> length stripes - stripe0) (length stripes - stripe0)"
  have nums: "distinct (map fst shares)" "\<forall>(num, d) \<in> set shares. 0 \<le> num \<and> num < int (rd_n rs)" using sh(1) by (auto simp: pieces_of_def)
  have plen: "\<forall>(num, d) \<in> set shares. length d = length stripes * rd_share_size rs"
    using sh(1) length_piece_of[OF fec_of_ok(2)[OF rs], of stripes cpu'] len by (auto simp: pieces_of_def)
  obtain plan f where plan: "good_plan ?fec (sort ?ids) plan" "\<And>i. i \<in> set (plan_indexes plan) \<Longrightarrow> (int i, f i) \<in> set shares"
    "decode_encrypted_slices cpu shares rs stripe0 ns =
      fold_result (decode_one_stripe cpu plan (map f (plan_indexes plan)) rs stripe0) [0..<?m] (replicate (?m * rd_stripe_size rs) 0)"
    using decode_setup[OF rs nums plen sh(2) s0, of cpu ns] by (auto simp: Let_def)
  have "map f (plan_indexes plan) = map (piece_of cpu' ?fec stripes) (plan_indexes plan)"
    using plan(2) sh(1) by (force simp: pieces_of_def)
  then have "decode_encrypted_slices cpu shares rs stripe0 ns = Inr (concat (take ?m (drop stripe0 stripes)))"
    unfolding plan(3) using nums(2) s0 by (intro decode_stripes_ok[OF rs len plan(1)]) (auto split: option.splits)
  moreover have "take ?m (drop stripe0 stripes) = take (case ns of Some m \<Rightarrow> m | None \<Rightarrow> length stripes) (drop stripe0 stripes)"
    by (auto simp: min_def split: option.splits)
  ultimately show ?thesis by simp
qed

text \<open>Any shares of the right shape decode to something of the right length.\<close>

lemma decode_total:
  assumes rs: "redundancy_ok rs" and nums: "distinct (map fst shares)" "\<forall>(num, d) \<in> set shares. 0 \<le> num \<and> num < int (rd_n rs)"
    and plen: "\<forall>(num, d) \<in> set shares. length d = len * rd_share_size rs" and k: "rd_k rs \<le> length shares"
  shows "\<exists>decoded. decode_encrypted_slices cpu shares rs 0 None = Inr decoded \<and> length decoded = len * rd_stripe_size rs"
proof -
  let ?b = "rd_stripe_size rs" and ?ss = "rd_share_size rs"
  note v = fec_of_ok[OF rs]
  obtain plan f where plan: "good_plan (fec_of rs) (sort (map (nat \<circ> fst) shares)) plan"
      "\<And>i. i \<in> set (plan_indexes plan) \<Longrightarrow> (int i, f i) \<in> set shares"
      "decode_encrypted_slices cpu shares rs 0 None =
        fold_result (decode_one_stripe cpu plan (map f (plan_indexes plan)) rs 0) [0..<len] (replicate (len * ?b) 0)"
    using decode_setup[OF rs nums plen k, of 0 cpu None] by auto
  have ix: "length (plan_indexes plan) = rd_k rs" using plan(1) by (simp add: good_plan_def good_slots_def)
  have "\<exists>out. fold_result (decode_one_stripe cpu plan (map f (plan_indexes plan)) rs 0) [0..<len] (replicate (len * ?b) 0) = Inr out \<and>
      length out = len * ?b"
  proof (rule fold_result_upt_invariant[where P = "\<lambda>_ out. length out = len * ?b"])
    fix s and out :: bytes
    assume s: "s < len" and out: "length out = len * ?b"
    have fits: "s * ?b + ?b \<le> len * ?b" "s * ?ss + ?ss \<le> len * ?ss" using s row_end_le by blast+
    have sl: "length (map (\<lambda>d. sub_slice d (s * ?ss) (s * ?ss + ?ss)) (map f (plan_indexes plan)) ! i) = ?ss" if "i < rd_k rs" for i
      using that ix plan(2)[of "plan_indexes plan ! i"] plen fits(2) by (fastforce simp: length_sub_slice)
    obtain st where st: "decode_into cpu plan (map (\<lambda>d. sub_slice d (s * ?ss) (s * ?ss + ?ss)) (map f (plan_indexes plan)))
        (sub_slice out (s * ?b) ((s + 1) * ?b)) = Inr st" "length st = ?b"
      using decode_into_total[OF plan(1), of "map (\<lambda>d. sub_slice d (s * ?ss) (s * ?ss + ?ss)) (map f (plan_indexes plan))"
          "sub_slice out (s * ?b) ((s + 1) * ?b)" cpu] ix sl rs out fits(1)
      by (auto simp: length_sub_slice redundancy_ok_def algebra_simps)
    then show "\<exists>out'. decode_one_stripe cpu plan (map f (plan_indexes plan)) rs 0 s out = Inr out' \<and> length out' = len * ?b"
      using fits out by (simp add: decode_one_stripe_def Let_def length_put_slice)
  qed simp
  then show ?thesis using plan(3) by simp
qed

section \<open>Decrypting a range\<close>

lemma decrypt_blocks_ok: "transform_chunks d b cs out = Inr y \<Longrightarrow> decrypt_blocks d b cs out = (Inr y, None)"
  by (induction d b cs out rule: transform_chunks.induct) (auto simp: result_simps)

lemma decrypt_blocks_failed: "decrypt_blocks d b cs out = (r, Some f) \<Longrightarrow> b \<le> f \<and> f < b + int (length cs)"
  by (induction d b cs out rule: decrypt_blocks.induct) (fastforce simp: Let_def split: sum.splits if_splits)+

text \<open>What a decrypter does with a block: the only error is the one of authentication.\<close>

lemma decrypter_error:
  assumes "new_decrypter cr cipher key nonce bs = Inr d" "0 \<le> b" "transform_into d x b out = Inl e"
  shows "e = DecryptionFailed"
  using assms
  by (auto simp: new_decrypter_def NoopTransformer_def default_transform_into_def AesGcmDecrypter_def SecretboxDecrypter_def
      result_simps ok_or_def calc_nonce_def increment_bytes_def Let_def split: if_splits option.splits prod.splits)

lemma decrypt_blocks_error:
  assumes "new_decrypter cr cipher key nonce bs = Inr d" "0 \<le> b" "decrypt_blocks d b cs out = (Inl e, f)"
  shows "\<exists>j. f = Some j \<and> b \<le> j \<and> j < b + int (length cs)"
proof -
  have "f \<noteq> None" using assms
    by (induction d b cs out rule: decrypt_blocks.induct)
      (auto simp: is_content_auth_failure_def split: sum.splits dest: decrypter_error)
  then show ?thesis using decrypt_blocks_failed assms(3) by auto
qed

lemma decrypt_blocks_each:
  assumes "into_ok d" "decrypt_blocks d b cs out = (Inr y, f)" "j < length cs"
  shows "\<exists>x. transform d (cs ! j) (b + int j) = Inr x"
  using assms(2,3)
proof (induction cs arbitrary: b out j)
  case (Cons c cs)
  obtain out' where c: "transform_into d c b out = Inr out'" "decrypt_blocks d (b + 1) cs out' = (Inr y, f)"
    using Cons.prems(1) by (auto simp: Let_def split: sum.splits)
  show ?case
  proof (cases j)
    case 0
    then show ?thesis using c(1) assms(1) by (cases "transform d c b") (simp_all add: into_ok_def)
  next
    case (Suc i)
    then show ?thesis using Cons.IH[OF c(2), of i] Cons.prems(2) by (simp add: algebra_simps)
  qed
qed simp

text \<open>
  A download job that fits a segment: the parameters are those the segment was encrypted with, and the range lies
  in its plaintext; \<open>x\<close> is the padded plaintext and \<open>d\<close> the decrypter.
\<close>

definition fits_segment :: "Crypto \<Rightarrow> DecryptParams \<Rightarrow> bytes \<Rightarrow> bytes \<Rightarrow> bool" where
  "fits_segment cr job plain enc \<longleftrightarrow> crypto_ok cr \<and>
    encrypt_remote cr plain (dp_cipher job) (dp_key job) (dp_nonce job) (dp_block_size job) = Inr enc \<and> 0 < dp_block_size job \<and>
    encrypted_size job = length enc \<and> plain_size job = int (length plain) \<and>
    0 \<le> plain_start job \<and> 0 < plain_len job \<and> plain_start job + plain_len job \<le> int (length plain) \<and>
    int (length enc) + 2 ^ 33 \<le> i64_max"

lemma encompassing_nat:
  assumes "0 \<le> offset" and "0 < len" and "0 < bs"
  obtains i m where "calc_encompassing_blocks offset len bs = (int i, int m)" "0 < m" "i * bs \<le> nat offset"
    "nat offset + nat len \<le> (i + m) * bs" "(i + m - 1) * bs < nat offset + nat len"
proof -
  obtain f c where fc: "calc_encompassing_blocks offset len bs = (f, c)" by (cases "calc_encompassing_blocks offset len bs")
  note b = encompassing_bounds[OF assms fc]
  have "0 < (f + 1) * int bs" using b assms(1) by linarith
  then have f: "0 \<le> f" using assms(3) by (simp add: zero_less_mult_iff)
  have "f * int bs < (f + c) * int bs" using b assms(2) by linarith
  then have c: "0 < c" using assms(3) by (simp add: mult_less_cancel_right)
  obtain i where i: "f = int i" using f nonneg_int_cases by blast
  obtain m where m: "c = int m" using c by (metis less_imp_le nonneg_int_cases)
  have mp: "0 < m" using c m by simp
  have n: "int (i + m - 1) = f + c - 1" "int (i + m) = f + c" using i m mp by simp_all
  have "int (i * bs) \<le> offset" "offset + len \<le> int ((i + m) * bs)" "int ((i + m - 1) * bs) < offset + len"
    using b unfolding of_nat_mult n i by simp_all
  then have "i * bs \<le> nat offset" "nat offset + nat len \<le> (i + m) * bs" "(i + m - 1) * bs < nat offset + nat len"
    using assms(1,2) by linarith+
  then show ?thesis using that[of i m] fc i m mp by simp
qed

lemma fits_segmentE:
  assumes "fits_segment cr job plain enc"
  obtains e d x i m where "transformer_pair e d"
    "new_decrypter cr (dp_cipher job) (dp_key job) (dp_nonce job) (dp_block_size job) = Inr d"
    "transform_blocks e x 0 = Inr enc" "\<exists>padding. x = plain @ padding"
    "calc_encompassing_blocks (plain_start job) (plain_len job) (out_block_size d) = (int i, int m)" "0 < m"
    "i * in_block_size e \<le> nat (plain_start job)" "nat (plain_start job) + nat (plain_len job) \<le> (i + m) * in_block_size e"
    "(i + m) * out_block_size e \<le> length enc" "length x \<le> length enc" "(i + m) * in_block_size e \<le> length x"
proof -
  obtain e where e: "new_encrypter cr (dp_cipher job) (dp_key job) (dp_nonce job) (dp_block_size job) = Inr e"
      "transform_padded e plain = Inr enc" and cr: "crypto_ok cr"
    using assms by (auto simp: fits_segment_def encrypt_remote_def result_simps map_err_def split: sum.splits)
  obtain d where d: "new_decrypter cr (dp_cipher job) (dp_key job) (dp_nonce job) (dp_block_size job) = Inr d"
    using decrypter_of_encrypter[OF e(1)] by blast
  note p = new_pair[OF cr e(1) d]
  let ?in = "in_block_size e" and ?out = "out_block_size e"
  have pos: "0 < ?in" "0 < ?out" "out_block_size d = ?in"
    using transformer_pair.in_pos[OF p(1)] transformer_pair.out_pos[OF p(1)] transformer_pair.dec_out[OF p(1)] by auto
  obtain x where x: "pad plain ?in = Inr x" "transform_blocks e x 0 = Inr enc"
    using e(2) by (auto simp: transform_padded_def result_simps)
  have pre: "\<exists>padding. x = plain @ padding" using x(1) by (auto simp: pad_def result_simps split: if_splits)
  have "length x mod ?in = 0" using x(2) by (auto simp: transform_blocks_def split: if_splits)
  then obtain q where q: "length x = q * ?in" by (metis mod_0_imp_dvd dvd_def mult.commute)
  have "length enc * ?in = q * ?out * ?in" using transformer_pair.blocks_round_trip[OF p(1) x(2)] q by auto
  then have lenc: "length enc = q * ?out" using pos(1) by simp
  have io: "?in \<le> ?out" using p(2) by (auto simp: encrypter_io_blocks_def split: if_splits)
  obtain i m where im: "calc_encompassing_blocks (plain_start job) (plain_len job) ?in = (int i, int m)" "0 < m"
      "i * ?in \<le> nat (plain_start job)" "nat (plain_start job) + nat (plain_len job) \<le> (i + m) * ?in"
      "(i + m - 1) * ?in < nat (plain_start job) + nat (plain_len job)"
    using assms pos(1) by (auto simp: fits_segment_def elim: encompassing_nat[of "plain_start job" "plain_len job" ?in])
  have "nat (plain_start job) + nat (plain_len job) \<le> length x" using assms pre by (auto simp: fits_segment_def)
  then have "(i + m - 1) * ?in < q * ?in" using im(5) q by linarith
  then have "i + m - 1 < q" by (simp add: mult_less_cancel2)
  then have "i + m \<le> q" using im(2) by linarith
  then have "(i + m) * ?out \<le> length enc" "(i + m) * ?in \<le> length x" unfolding lenc q by (simp_all only: mult_le_mono1)
  moreover have "length x \<le> length enc" unfolding q lenc using io by simp
  ultimately show ?thesis using that[OF p(1) d x(2) pre] im(1-4) pos(3) by simp
qed

lemma usize_sat_id: "x \<le> y \<Longrightarrow> int y \<le> i64_max \<Longrightarrow> usize_sat x = x"
  by (simp add: usize_sat_def)

lemma segment_parts:
  assumes fit: "fits_segment cr job plain enc"
    and d: "new_decrypter cr (dp_cipher job) (dp_key job) (dp_nonce job) (dp_block_size job) = Inr d"
    and im: "calc_encompassing_blocks (plain_start job) (plain_len job) (out_block_size d) = (int i, int m)"
  obtains e padding where "transformer_pair e d" "in_block_size e = out_block_size d" "out_block_size e = in_block_size d"
    "0 < out_block_size d" "0 < in_block_size d" "transform_blocks e (plain @ padding) 0 = Inr enc" "0 < m"
    "i * out_block_size d \<le> nat (plain_start job)" "nat (plain_start job) + nat (plain_len job) \<le> (i + m) * out_block_size d"
    "(i + m) * in_block_size d \<le> length enc" "(i + m) * out_block_size d \<le> length (plain @ padding)" "length (plain @ padding) \<le> length enc"
proof (rule fits_segmentE[OF fit])
  fix e d' x i' m'
  assume a: "transformer_pair e d'" "new_decrypter cr (dp_cipher job) (dp_key job) (dp_nonce job) (dp_block_size job) = Inr d'"
    "transform_blocks e x 0 = Inr enc" "\<exists>padding. x = plain @ padding"
    "calc_encompassing_blocks (plain_start job) (plain_len job) (out_block_size d') = (int i', int m')" "0 < m'"
    "i' * in_block_size e \<le> nat (plain_start job)" "nat (plain_start job) + nat (plain_len job) \<le> (i' + m') * in_block_size e"
    "(i' + m') * out_block_size e \<le> length enc" "length x \<le> length enc" "(i' + m') * in_block_size e \<le> length x"
  have eq: "d' = d" "i' = i" "m' = m" using a(2,5) d im by auto
  note sz = transformer_pair.dec_in[OF a(1)] transformer_pair.dec_out[OF a(1)] transformer_pair.in_pos[OF a(1)] transformer_pair.out_pos[OF a(1)]
  obtain padding where "x = plain @ padding" using a(4) by blast
  then show thesis using that[of e padding] a sz unfolding eq by simp
qed

text \<open>Decrypting a buffer that covers the blocks of the range.\<close>

lemma decrypt_remote_eq:
  assumes fit: "fits_segment cr job plain enc"
    and d: "new_decrypter cr (dp_cipher job) (dp_key job) (dp_nonce job) (dp_block_size job) = Inr d"
    and im: "calc_encompassing_blocks (plain_start job) (plain_len job) (out_block_size d) = (int i, int m)"
    and hi: "int (decoded_offset job + length decoded) \<le> i64_max"
    and cover: "decoded_offset job \<le> i * in_block_size d" "(i + m) * in_block_size d \<le> decoded_offset job + length decoded"
  shows "decrypt_remote_tracking_failure cr job decoded =
    (case decrypt_blocks d (int i) (chunks (in_block_size d)
       (sub_slice decoded (i * in_block_size d - decoded_offset job) (i * in_block_size d - decoded_offset job + m * in_block_size d))) [] of
      (Inl e, failed) \<Rightarrow> (Inl e, failed)
    | (Inr decrypted, _) \<Rightarrow> (Inr (trim_decrypted job (int i) (out_block_size d) decrypted), None))"
proof -
  let ?out = "in_block_size d" and ?hi = "decoded_offset job + length decoded"
  obtain e padding where sz: "0 < out_block_size d" "0 < ?out" "0 < m" and r: "(i + m) * ?out \<le> length enc"
    by (rule segment_parts[OF fit d im])
  have range: "0 \<le> plain_start job" "0 < plain_len job" "plain_start job + plain_len job \<le> int (length plain)"
      "int (length enc) \<le> i64_max" "plain_size job = int (length plain)" "encrypted_size job = length enc"
    using fit by (auto simp: fits_segment_def)
  then have pos: "\<not> (plain_len job \<le> 0 \<or> plain_size job \<le> 0)" by linarith
  have le: "i * ?out \<le> (i + m) * ?out" "m * ?out \<le> (i + m) * ?out" by simp_all
  have w: "usize_sat (nat (int i) * ?out) = i * ?out" "usize_sat (nat (int m) * ?out) = m * ?out"
    using usize_sat_id[OF order.trans[OF le(1) r] range(4)] usize_sat_id[OF order.trans[OF le(2) r] range(4)] by simp_all
  have ah: "usize_sat ?hi = ?hi" using hi by (rule usize_sat_id[OF order.refl])
  have "i * ?out + m * ?out = (i + m) * ?out" by (simp add: algebra_simps)
  then have cond: "\<not> (i * ?out < decoded_offset job \<or> i * ?out + m * ?out > min ?hi (length enc))" using cover r by linarith
  have nz: "\<not> (?out = 0 \<or> out_block_size d = 0)" "\<not> int m \<le> 0" using sz by auto
  show ?thesis
    unfolding decrypt_remote_tracking_failure_def if_not_P[OF pos] d sum.case Let_def if_not_P[OF nz(1)] im prod.case if_not_P[OF nz(2)]
      w ah range(6) if_not_P[OF cond] by (rule refl)
qed

lemma trim_ok:
  assumes fit: "fits_segment cr job plain enc"
    and d: "new_decrypter cr (dp_cipher job) (dp_key job) (dp_nonce job) (dp_block_size job) = Inr d"
    and im: "calc_encompassing_blocks (plain_start job) (plain_len job) (out_block_size d) = (int i, int m)"
    and x: "(i + m) * out_block_size d \<le> length (plain @ padding)" "length (plain @ padding) \<le> length enc"
  shows "trim_decrypted job (int i) (out_block_size d) (sub_slice (plain @ padding) (i * out_block_size d) ((i + m) * out_block_size d)) =
    sub_slice plain (nat (plain_start job)) (nat (plain_start job) + nat (plain_len job))"
proof -
  let ?in = "out_block_size d" and ?start = "nat (plain_start job)" and ?len = "nat (plain_len job)"
  let ?skip = "?start - i * ?in" and ?x = "plain @ padding"
  have r: "i * ?in \<le> ?start" "?start + ?len \<le> (i + m) * ?in" using segment_parts[OF fit d im] by blast+
  have range: "0 \<le> plain_start job" "0 < plain_len job" "plain_start job + plain_len job \<le> int (length plain)"
      "int (length enc) \<le> i64_max" "plain_size job = int (length plain)"
    using fit by (auto simp: fits_segment_def)
  have small: "?start + ?len \<le> length plain" using range by linarith
  have lx: "length (sub_slice ?x (i * ?in) ((i + m) * ?in)) = m * ?in" using x(1) by (simp add: length_sub_slice algebra_simps)
  have bi: "int (i * ?in) \<le> plain_start job" using r(1) range(1) by linarith
  have pl: "int (length plain) \<le> i64_max" using x(2) range(4) by simp
  have s1: "sat_i64 (int i * int ?in) = int (i * ?in)"
    using bi range(2,3) pl sat_i64_nat[of "i * ?in"] by (simp only: of_nat_mult)
  have "plain_start job - int (i * ?in) = int ?skip" using bi range(1) r(1) by (simp only: of_nat_diff int_nat_eq if_True)
  then have s2: "sat_i64 (plain_start job - int (i * ?in)) = int ?skip"
    using sat_i64_nat[of ?skip] range(2,3) pl by (simp only:)
  have valid: "min ?len (m * ?in - ?skip) = ?len" using r by (simp add: algebra_simps)
  have ae: "nat (sat_i64 (min (plain_start job + int ?len) (int (length plain)) - plain_start job)) = ?len"
    using range(1-3) pl by (simp add: sat_i64_def)
  have "sub_slice (sub_slice ?x (i * ?in) ((i + m) * ?in)) ?skip (?skip + ?len) = sub_slice ?x ?start (?start + ?len)"
    using r by (subst sub_slice_sub_slice) auto
  also have "\<dots> = sub_slice plain ?start (?start + ?len)" by (rule sub_slice_append[OF small])
  finally show ?thesis unfolding trim_decrypted_def Let_def s1 s2 lx nat_int valid range(5) ae .
qed

lemma decrypt_range_ok:
  assumes fit: "fits_segment cr job plain enc"
    and d: "new_decrypter cr (dp_cipher job) (dp_key job) (dp_nonce job) (dp_block_size job) = Inr d"
    and im: "calc_encompassing_blocks (plain_start job) (plain_len job) (out_block_size d) = (int i, int m)"
    and hi: "int (decoded_offset job + length decoded) \<le> i64_max"
    and cover: "decoded_offset job \<le> i * in_block_size d" "(i + m) * in_block_size d \<le> decoded_offset job + length decoded"
    and bl: "sub_slice decoded (i * in_block_size d - decoded_offset job) (i * in_block_size d - decoded_offset job + m * in_block_size d) =
      sub_slice enc (i * in_block_size d) ((i + m) * in_block_size d)"
  shows "decrypt_remote_tracking_failure cr job decoded =
    (Inr (sub_slice plain (nat (plain_start job)) (nat (plain_start job) + nat (plain_len job))), None)"
proof (rule segment_parts[OF fit d im])
  let ?out = "in_block_size d" and ?in = "out_block_size d"
  fix e padding
  assume a: "transformer_pair e d" "in_block_size e = ?in" "out_block_size e = ?out" "transform_blocks e (plain @ padding) 0 = Inr enc"
    "(i + m) * ?in \<le> length (plain @ padding)" "length (plain @ padding) \<le> length enc"
  have "transform_blocks d (sub_slice enc (i * ?out) ((i + m) * ?out)) (int i) = Inr (sub_slice (plain @ padding) (i * ?in) ((i + m) * ?in))"
    using transformer_pair.range_of_blocks[OF a(1,4), of i m] a(2,3) by simp
  then have db: "decrypt_blocks d (int i) (chunks ?out (sub_slice enc (i * ?out) ((i + m) * ?out))) [] =
      (Inr (sub_slice (plain @ padding) (i * ?in) ((i + m) * ?in)), None)"
    by (intro decrypt_blocks_ok) (auto simp: transform_blocks_def Let_def split: if_splits)
  show ?thesis
    unfolding decrypt_remote_eq[OF fit d im hi cover] bl db prod.case sum.case trim_ok[OF fit d im a(5,6)] by (rule refl)
qed

section \<open>The stripes that a range needs\<close>

text \<open>
  The stripes \<open>rst\<close> that the downloaded ranges of the pieces hold: they start at \<open>decoded_offset\<close> of the padded
  ciphertext and cover the blocks \<open>i\<close> to \<open>i + m - 1\<close>.
\<close>

definition window :: "Redundancy \<Rightarrow> DecryptParams \<Rightarrow> bytes \<Rightarrow> bytes list \<Rightarrow> nat \<Rightarrow> nat \<Rightarrow> nat \<Rightarrow> bool" where
  "window rs job enc rst n i m \<longleftrightarrow>
    (\<forall>st \<in> set rst. length st = rd_stripe_size rs) \<and>
    (\<exists>rest. concat rst = sub_slice (enc @ rest) (decoded_offset job) (decoded_offset job + length rst * rd_stripe_size rs)) \<and>
    decoded_offset job \<le> i * n \<and> (i + m) * n \<le> decoded_offset job + length rst * rd_stripe_size rs \<and>
    int (decoded_offset job + length rst * rd_stripe_size rs) \<le> i64_max \<and> (i + m) * n \<le> length enc"

lemma window_blocks:
  assumes w: "window rs job enc rst n i m" and b: "i \<le> b" "b + c \<le> i + m"
  shows "sub_slice (concat rst) (b * n - decoded_offset job) (b * n - decoded_offset job + c * n) = sub_slice enc (b * n) ((b + c) * n)"
proof -
  let ?o = "decoded_offset job" and ?l = "length rst * rd_stripe_size rs"
  obtain rest where r: "concat rst = sub_slice (enc @ rest) ?o (?o + ?l)" using w by (auto simp: window_def)
  have "i * n \<le> b * n" "(b + c) * n \<le> (i + m) * n" using b by (simp_all only: mult_le_mono1)
  moreover have "(b + c) * n = b * n + c * n" by (simp add: algebra_simps)
  ultimately have le: "?o \<le> b * n" "b * n + c * n \<le> ?o + ?l" "(b + c) * n = b * n + c * n" "b * n + c * n \<le> length enc"
    using w unfolding window_def by linarith+
  have "sub_slice (concat rst) (b * n - ?o) (b * n - ?o + c * n) = sub_slice (enc @ rest) (?o + (b * n - ?o)) (?o + (b * n - ?o + c * n))"
    unfolding r by (rule sub_slice_sub_slice) (use le in linarith)+
  also have "\<dots> = sub_slice enc (b * n) ((b + c) * n)" using le by (simp add: sub_slice_append)
  finally show ?thesis .
qed

text \<open>Any one block of the window authenticates, when the shares are pieces of the segment.\<close>

lemma take_concat_stripes:
  assumes len: "\<forall>st \<in> set rst. length st = b" and fit: "s * b + w + n \<le> length rst * b" and ns: "w + n \<le> ns * b"
  shows "sub_slice (concat (take ns (drop s rst))) w (w + n) = sub_slice (concat rst) (s * b + w) (s * b + w + n)"
    "w + n \<le> length (concat (take ns (drop s rst)))"
proof -
  have l: "length (concat rst) = length rst * b" by (rule length_concat_const[OF len])
  have e: "concat (take ns (drop s rst)) = sub_slice (concat rst) (s * b) (s * b + ns * b)"
    using concat_range[OF len, of s ns] by (simp add: algebra_simps)
  show "sub_slice (concat (take ns (drop s rst))) w (w + n) = sub_slice (concat rst) (s * b + w) (s * b + w + n)"
    unfolding e using ns by (subst sub_slice_sub_slice) (auto simp: algebra_simps)
  show "w + n \<le> length (concat (take ns (drop s rst)))" unfolding e using ns fit l by (simp add: sub_slice_def)
qed

lemma ceil_div_le:
  fixes x b :: nat
  assumes "0 < b" shows "x \<le> ((x + b - 1) div b) * b"
proof -
  have "x + b - 1 < ((x + b - 1) div b) * b + b" using dividend_less_div_times[OF assms] by (simp add: add.commute)
  then show ?thesis using assms by linarith
qed

lemma probe_ok:
  assumes fit: "fits_segment cr job plain enc" and rs: "redundancy_ok rs"
    and d: "new_decrypter cr (dp_cipher job) (dp_key job) (dp_nonce job) (dp_block_size job) = Inr d"
    and im: "calc_encompassing_blocks (plain_start job) (plain_len job) (out_block_size d) = (int i, int m)"
    and w: "window rs job enc rst (in_block_size d) i m" and sh: "pieces_of cpu' rs rst chosen" "rd_k rs \<le> length chosen"
    and b: "block = None \<and> b = i \<or> block = Some (int b)" "i \<le> b" "b < i + m"
  shows "probe_share_set cr cpu chosen rs job block"
proof -
  let ?n = "in_block_size d" and ?o = "decoded_offset job" and ?st = "rd_stripe_size rs"
  obtain e x where tp: "transformer_pair e d" and t: "transform_blocks e x 0 = Inr enc"
    by (rule fits_segmentE[OF fit]) (use d in auto)
  have sz: "out_block_size e = ?n" "0 < ?n" "0 < out_block_size d"
    using transformer_pair.dec_in[OF tp] transformer_pair.dec_out[OF tp] transformer_pair.in_pos[OF tp] transformer_pair.out_pos[OF tp] by auto
  have stp: "0 < ?st" by (rule fec_of_ok(3)[OF rs])
  have len: "\<forall>st \<in> set rst. length st = ?st" and cov: "?o \<le> i * ?n" "(i + m) * ?n \<le> ?o + length rst * ?st"
      "int (?o + length rst * ?st) \<le> i64_max" using w by (auto simp: window_def)
  have bb: "i * ?n \<le> b * ?n" "b * ?n + ?n \<le> (i + m) * ?n"
    using b(2) mult_le_mono1[of "Suc b" "i + m" ?n] b(3) by (simp_all add: add.commute)
  let ?local = "b * ?n - ?o"
  let ?s0 = "?local div ?st" and ?w = "?local mod ?st"
  let ?ns = "max ((?w + ?n + ?st - 1) div ?st) 1"
  have us: "usize_sat (b * ?n) = b * ?n" using usize_sat_id[of "b * ?n", OF _ cov(3)] bb(2) cov(2) by linarith
  have loc: "?local + ?n \<le> length rst * ?st" "?s0 * ?st + ?w = ?local" using bb cov by (linarith, simp)
  have uw: "usize_sat (?w + ?n) = ?w + ?n" using usize_sat_id[of "?w + ?n", OF _ cov(3)] loc by linarith
  have "?w + ?n \<le> ((?w + ?n + ?st - 1) div ?st) * ?st" by (rule ceil_div_le[OF stp])
  also have "\<dots> \<le> ?ns * ?st" by (intro mult_le_mono1) simp
  finally have ns: "?w + ?n \<le> ?ns * ?st" .
  have "?s0 * ?st + ?w + ?n \<le> length rst * ?st" using loc by linarith
  note tk = take_concat_stripes[OF len this ns]
  have "?s0 * ?st \<le> length rst * ?st" using loc by linarith
  then have "?s0 \<le> length rst" using stp by simp
  note dec = decode_slices_ok[OF rs len sh this, of cpu "Some ?ns"]
  have "sub_slice (concat (take ?ns (drop ?s0 rst))) ?w (?w + ?n) = sub_slice enc (b * ?n) ((b + 1) * ?n)"
    using tk(1) loc(2) window_blocks[OF w b(2), of 1] b(3) by simp
  moreover have "transform_blocks d (sub_slice enc (b * ?n) ((b + 1) * ?n)) (int b) \<noteq> Inl e'" for e'
    using transformer_pair.range_of_blocks[OF tp t, of b 1] sz(1) by simp
  ultimately obtain y where y: "transform_blocks d (sub_slice (concat (take ?ns (drop ?s0 rst))) ?w (?w + ?n)) (int b) = Inr y"
    by (metis sum.exhaust_sel)
  have bl: "(case block of Some b \<Rightarrow> b | None \<Rightarrow> int i) = int b" using b(1) by auto
  have "\<not> b * ?n < ?o" "\<not> length (concat (take ?ns (drop ?s0 rst))) < ?w + ?n" using bb(1) cov(1) tk(2) by linarith+
  then have c: "(b * ?n < ?o) = False" "(length (concat (take ?ns (drop ?s0 rst))) < ?w + ?n) = False" by blast+
  have z: "(?n = 0 \<or> out_block_size d = 0) = False" "(?st = 0) = False" using sz stp by auto
  show ?thesis
    unfolding probe_share_set_def d sum.case Let_def z im prod.case bl nat_int us c uw dec option.case y by simp
qed

lemma piece_range_ok:
  assumes fit: "fits_segment cr job plain enc" and rs: "redundancy_ok rs"
    and d: "new_decrypter cr (dp_cipher job) (dp_key job) (dp_nonce job) (dp_block_size job) = Inr d"
    and im: "calc_encompassing_blocks (plain_start job) (plain_len job) (out_block_size d) = (int i, int m)" "0 < m"
    and q: "(i + m) * in_block_size d \<le> length enc" "0 < in_block_size d" "length enc \<le> q * rd_stripe_size rs"
  obtains s0 ns where "piece_byte_range (plain_start job) (plain_len job) (out_block_size d) (in_block_size d) rs =
      (int (s0 * rd_share_size rs), int (ns * rd_share_size rs))"
    "s0 * rd_stripe_size rs \<le> i * in_block_size d" "(i + m) * in_block_size d \<le> (s0 + ns) * rd_stripe_size rs" "s0 + ns \<le> q"
proof -
  let ?n = "in_block_size d" and ?st = "rd_stripe_size rs" and ?sh = "rd_share_size rs"
  let ?s0 = "i * ?n div ?st" and ?s1 = "((i + m) * ?n + (?st - 1)) div ?st"
  have stp: "0 < ?st" by (rule fec_of_ok(3)[OF rs])
  have shp: "0 < ?sh" "?sh \<le> ?st" "?st + 4 \<le> 2 ^ 32" using rs by (auto simp: redundancy_ok_def rd_stripe_size_def)
  have big: "int (length enc) + 2 ^ 33 \<le> i64_max" using fit by (simp add: fits_segment_def)
  have in_m: "i * ?n \<le> (i + m) * ?n" by simp
  have cap0: "int x \<le> i64_max" if "x \<le> (i + m) * ?n + (?st - 1)" for x
  proof -
    have "x \<le> length enc + 2 ^ 32" using that q(1) shp(3) by linarith
    then show ?thesis using big by simp
  qed
  have e1: "sat_i64 (int i * int ?n) = int (i * ?n)" using sat_i64_nat[OF cap0, of "i * ?n"] in_m by (simp only: of_nat_mult trans_le_add1)
  have "i + m \<le> (i + m) * ?n" using q(2) by simp
  then have e2: "sat_i64 (int i + int m) = int (i + m)" using sat_i64_nat[OF cap0, of "i + m"] by (simp only: of_nat_add trans_le_add1)
  have e3: "sat_i64 (int (i + m) * int ?n) = int ((i + m) * ?n)" using sat_i64_nat[OF cap0, of "(i + m) * ?n"] by (simp only: of_nat_mult le_add1)
  have "int (?st - 1) = int ?st - 1" using stp by simp
  then have e4: "sat_i64 (int ((i + m) * ?n) + (int ?st - 1)) = int ((i + m) * ?n + (?st - 1))"
    using sat_i64_nat[OF cap0, of "(i + m) * ?n + (?st - 1)"] by (simp only: of_nat_add order.refl)
  have le: "?s0 \<le> ?s1" using in_m by (intro div_le_mono) linarith
  have s1: "(i + m) * ?n \<le> ?s1 * ?st" using ceil_div_le[OF stp, of "(i + m) * ?n"] stp by simp
  have "(i + m) * ?n + (?st - 1) \<le> q * ?st + (?st - 1)" using q by linarith
  then have "?s1 \<le> (q * ?st + (?st - 1)) div ?st" by (rule div_le_mono)
  also have "\<dots> = q" using stp by (intro div_nat_eqI) (auto simp: mult.commute)
  finally have s1q: "?s1 \<le> q" .
  have cap: "s * ?sh \<le> (i + m) * ?n + (?st - 1)" if "s \<le> ?s1" for s
  proof -
    have "s * ?sh \<le> ?s1 * ?st" using that shp(2) by (rule mult_le_mono)
    also have "\<dots> \<le> (i + m) * ?n + (?st - 1)" by simp
    finally show ?thesis .
  qed
  have small: "int (s * ?sh) \<le> i64_max" if "s \<le> ?s1" for s using cap0[OF cap[OF that]] .
  have f1: "sat_i64 (int ?s0 * int ?sh) = int (?s0 * ?sh)" using sat_i64_nat[OF small[OF le]] by (simp only: of_nat_mult)
  have f2: "sat_i64 ((int ?s1 - int ?s0) * int ?sh) = int ((?s1 - ?s0) * ?sh)"
    using sat_i64_nat[OF small[of "?s1 - ?s0"]] le by (simp only: of_nat_mult of_nat_diff)
  have qd: "quot_i64 (int a) (int ?st) = int (a div ?st)" for a by (simp add: quot_i64_def zdiv_int)
  have "piece_byte_range (plain_start job) (plain_len job) (out_block_size d) ?n rs = (int (?s0 * ?sh), int ((?s1 - ?s0) * ?sh))"
    using im(2) q(2) shp(1) stp unfolding piece_byte_range_def im(1) Let_def prod.case e1 e2 e3 e4 qd f1 f2 by simp
  then show ?thesis using that[of ?s0 "?s1 - ?s0"] s1 s1q le by (simp add: le_add_diff_inverse)
qed

lemma genuine_window:
  assumes "\<forall>st \<in> set stripes. length st = rd_stripe_size rs" "redundancy_ok rs" "s0 + ns \<le> length stripes"
  shows "sub_slice (piece_of cpu (fec_of rs) stripes r) (s0 * rd_share_size rs) (s0 * rd_share_size rs + ns * rd_share_size rs) =
    piece_of cpu (fec_of rs) (take ns (drop s0 stripes)) r"
proof -
  have "\<forall>c \<in> set (map (\<lambda>st. share_of cpu (fec_of rs) st r) stripes). length c = rd_share_size rs"
    using assms(1) length_share_of[OF fec_of_ok(2)[OF assms(2)]] by auto
  from concat_range[OF this, of s0 ns] show ?thesis by (simp add: piece_of_def take_map drop_map algebra_simps)
qed

section \<open>Trying the sets of pieces\<close>

text \<open>
  What the ciphers promise: among the blocks that the \<open>k\<close>-subsets of the downloaded shares decode to, only a block of the
  segment itself authenticates under its number.
\<close>

definition authentic :: "Crypto \<Rightarrow> backend \<Rightarrow> Redundancy \<Rightarrow> DecryptParams \<Rightarrow> (int \<times> bytes) list \<Rightarrow> bytes \<Rightarrow> bool" where
  "authentic cr cpu rs job shares enc \<longleftrightarrow>
    (\<forall>d ids decoded b x. new_decrypter cr (dp_cipher job) (dp_key job) (dp_nonce job) (dp_block_size job) = Inr d \<longrightarrow>
      ids \<in> set (k_subsets (length shares) (rd_k rs)) \<longrightarrow>
      decode_encrypted_slices cpu (select_shares shares ids) rs 0 None = Inr decoded \<longrightarrow>
      (let n = in_block_size d; at = b * n - decoded_offset job; block = sub_slice decoded at (at + n)
       in decoded_offset job \<le> b * n \<longrightarrow> at + n \<le> length decoded \<longrightarrow> b * n + n \<le> length enc \<longrightarrow>
          transform d block (int b) = Inr x \<longrightarrow> block = sub_slice enc (b * n) (b * n + n)))"

lemma chunks_nth:
  assumes "0 < n" "length xs = m * n" "j < m"
  shows "chunks n xs ! j = sub_slice xs (j * n) (j * n + n)"
  using chunks_length[OF assms(1,2)] concat_slot[of "chunks n xs" n j] assms(3) by simp

lemma chunks_inject:
  assumes "0 < n" "length xs = m * n" "length ys = m * n" "\<And>j. j < m \<Longrightarrow> sub_slice xs (j * n) (j * n + n) = sub_slice ys (j * n) (j * n + n)"
  shows "xs = ys"
proof -
  have "chunks n xs = chunks n ys"
    using chunks_length[OF assms(1,2)] chunks_length[OF assms(1,3)] chunks_nth[OF assms(1,2)] chunks_nth[OF assms(1,3)] assms(4)
    by (intro nth_equalityI) auto
  then show ?thesis using chunks_length[OF assms(1,2)] chunks_length[OF assms(1,3)] by metis
qed

text \<open>Whatever a subset decodes to, decrypting it gives the requested bytes or names a block that fails.\<close>

lemma decrypt_any:
  assumes fit: "fits_segment cr job plain enc"
    and d: "new_decrypter cr (dp_cipher job) (dp_key job) (dp_nonce job) (dp_block_size job) = Inr d"
    and im: "calc_encompassing_blocks (plain_start job) (plain_len job) (out_block_size d) = (int i, int m)"
    and hi: "int (decoded_offset job + length decoded) \<le> i64_max"
    and cover: "decoded_offset job \<le> i * in_block_size d" "(i + m) * in_block_size d \<le> decoded_offset job + length decoded"
    and auth: "authentic cr cpu rs job shares enc" "ids \<in> set (k_subsets (length shares) (rd_k rs))"
      "decode_encrypted_slices cpu (select_shares shares ids) rs 0 None = Inr decoded"
  obtains "decrypt_remote_tracking_failure cr job decoded =
      (Inr (sub_slice plain (nat (plain_start job)) (nat (plain_start job) + nat (plain_len job))), None)"
  | err j where "decrypt_remote_tracking_failure cr job decoded = (Inl err, Some (int j))" "i \<le> j" "j < i + m"
proof (rule segment_parts[OF fit d im])
  let ?n = "in_block_size d" and ?o = "decoded_offset job"
  fix e assume tp: "transformer_pair e d" and n: "0 < ?n" and le: "(i + m) * ?n \<le> length enc"
  let ?bl = "sub_slice decoded (i * ?n - ?o) (i * ?n - ?o + m * ?n)"
  note eq = decrypt_remote_eq[OF fit d im hi cover]
  have add: "(i + m) * ?n = i * ?n + m * ?n" by (simp add: algebra_simps)
  then have lb: "length ?bl = m * ?n" using cover by (simp add: length_sub_slice)
  obtain r f where rf: "decrypt_blocks d (int i) (chunks ?n ?bl) [] = (r, f)" by (cases "decrypt_blocks d (int i) (chunks ?n ?bl) []")
  show thesis
  proof (cases r)
    case (Inl err)
    then obtain j where "f = Some j" "int i \<le> j" "j < int i + int m"
      using decrypt_blocks_error[OF d _ rf[unfolded Inl]] chunks_length[OF n lb] by auto
    then show ?thesis using that(2)[of err "nat j"] eq rf Inl by simp
  next
    case (Inr y)
    have "?bl = sub_slice enc (i * ?n) ((i + m) * ?n)"
    proof (rule chunks_inject[OF n lb])
      show "length (sub_slice enc (i * ?n) ((i + m) * ?n)) = m * ?n" using le add by (simp add: length_sub_slice)
      fix j assume j: "j < m"
      let ?b = "i + j"
      have bj: "?b * ?n = i * ?n + j * ?n" "j * ?n + ?n \<le> m * ?n" by (simp add: algebra_simps) (rule row_end_le[OF j])
      have c: "chunks ?n ?bl ! j = sub_slice decoded (?b * ?n - ?o) (?b * ?n - ?o + ?n)"
      proof -
        have "i * ?n - ?o + j * ?n = ?b * ?n - ?o" "i * ?n - ?o + (j * ?n + ?n) = ?b * ?n - ?o + ?n" using bj(1) cover(1) by linarith+
        moreover have "i * ?n - ?o + j * ?n \<le> i * ?n - ?o + m * ?n" "j * ?n + ?n + (i * ?n - ?o) \<le> i * ?n - ?o + m * ?n"
          using bj(2) by linarith+
        ultimately show ?thesis unfolding chunks_nth[OF n lb j] by (simp only: sub_slice_sub_slice)
      qed
      obtain x where "transform d (chunks ?n ?bl ! j) (int i + int j) = Inr x"
        using decrypt_blocks_each[OF transformer_pair.dec_into[OF tp] rf[unfolded Inr]] chunks_length[OF n lb] j by auto
      moreover have "?o \<le> ?b * ?n" "?b * ?n - ?o + ?n \<le> length decoded" "?b * ?n + ?n \<le> length enc"
        using bj cover add le by linarith+
      ultimately have eqb: "sub_slice decoded (?b * ?n - ?o) (?b * ?n - ?o + ?n) = sub_slice enc (?b * ?n) (?b * ?n + ?n)"
        using auth(1)[unfolded authentic_def Let_def, rule_format, OF d auth(2,3), of ?b x] c by simp
      show "sub_slice ?bl (j * ?n) (j * ?n + ?n) = sub_slice (sub_slice enc (i * ?n) ((i + m) * ?n)) (j * ?n) (j * ?n + ?n)"
      proof -
        have "i * ?n + j * ?n \<le> (i + m) * ?n" "j * ?n + ?n + i * ?n \<le> (i + m) * ?n" "i * ?n + (j * ?n + ?n) = ?b * ?n + ?n"
          using bj add by linarith+
        then have "sub_slice (sub_slice enc (i * ?n) ((i + m) * ?n)) (j * ?n) (j * ?n + ?n) = sub_slice enc (?b * ?n) (?b * ?n + ?n)"
          unfolding bj(1) by (simp only: sub_slice_sub_slice)
        then show ?thesis using c chunks_nth[OF n lb j] eqb by simp
      qed
    qed
    then show ?thesis using that(1) decrypt_range_ok[OF fit d im hi cover] by blast
  qed
qed

lemma select_shares_subset:
  assumes "combo (length shares) k ids"
  shows "set (select_shares shares ids) \<subseteq> set shares" "length (select_shares shares ids) = k"
    "distinct (map fst shares) \<Longrightarrow> distinct (map fst (select_shares shares ids))"
proof -
  have i: "length ids = k" "distinct ids" "\<forall>x \<in> set ids. x < length shares"
    using assms by (auto simp: combo_def strict_sorted_iff)
  show "set (select_shares shares ids) \<subseteq> set shares" "length (select_shares shares ids) = k" using i by (auto simp: select_shares_def)
  assume d: "distinct (map fst shares)"
  have "map fst (select_shares shares ids) = map (\<lambda>i. map fst shares ! i) ids" using i by (simp add: select_shares_def)
  moreover have "inj_on (\<lambda>i. map fst shares ! i) (set ids)" using i(3) d 
    by (intro inj_onI) (metis length_map nth_eq_iff_index_eq)
  ultimately show "distinct (map fst (select_shares shares ids))" using i(2) by (simp add: distinct_map)
qed

lemma reconstruct_loop_ok:
  assumes fit: "fits_segment cr job plain enc" and rs: "redundancy_ok rs"
    and d: "new_decrypter cr (dp_cipher job) (dp_key job) (dp_nonce job) (dp_block_size job) = Inr d"
    and im: "calc_encompassing_blocks (plain_start job) (plain_len job) (out_block_size d) = (int i, int m)"
    and w: "window rs job enc rst (in_block_size d) i m"
    and nums: "distinct (map fst shares)" "\<forall>(num, d) \<in> set shares. 0 \<le> num \<and> num < int (rd_n rs)"
    and plen: "\<forall>(num, d) \<in> set shares. length d = length rst * rd_share_size rs"
    and auth: "authentic cr cpu rs job shares enc" and ids0: "pieces_of cpu' rs rst (select_shares shares ids0)"
    and sets: "set subsets \<subseteq> set (k_subsets (length shares) (rd_k rs))" "ids0 \<in> set subsets"
    and failed: "\<forall>b \<in> set failed. \<exists>j. b = int j \<and> i \<le> j \<and> j < i + m"
  shows "reconstruct_loop cr cpu shares rs job probe_first subsets failed last_err =
    Inr (sub_slice plain (nat (plain_start job)) (nat (plain_start job) + nat (plain_len job)))"
  using sets failed
proof (induction subsets arbitrary: failed last_err)
  case (Cons ids subsets)
  let ?want = "sub_slice plain (nat (plain_start job)) (nat (plain_start job) + nat (plain_len job))"
  let ?ch = "select_shares shares ids" and ?o = "decoded_offset job"
  have k: "0 < rd_k rs" using rs by (simp add: redundancy_ok_def)
  have c: "combo (length shares) (rd_k rs) ids" using Cons.prems(1) k_subsets_complete(1)[OF k] by auto
  note sel = select_shares_subset[OF c]
  have wf: "decoded_offset job \<le> i * in_block_size d" "(i + m) * in_block_size d \<le> ?o + length rst * rd_stripe_size rs"
      "int (?o + length rst * rd_stripe_size rs) \<le> i64_max" "0 < m"
    using w segment_parts[OF fit d im] unfolding window_def by blast+
  have rec: "reconstruct_loop cr cpu shares rs job probe_first subsets f' e' = Inr ?want"
    if "ids \<noteq> ids0" "\<forall>b \<in> set f'. \<exists>j. b = int j \<and> i \<le> j \<and> j < i + m" for f' e'
    using Cons.IH that Cons.prems(1,2) by simp
  have probe: "probe_share_set cr cpu ?ch rs job block"
    if eq: "ids = ids0" and bl: "block = None \<or> (\<exists>b \<in> set failed. block = Some b)" for block
  proof -
    obtain b where "block = None \<and> b = i \<or> block = Some (int b)" "i \<le> b" "b < i + m"
      using bl Cons.prems(3) wf(4) by (metis le_refl less_add_same_cancel1)
    then show ?thesis using probe_ok[OF fit rs d im w] ids0 eq sel(2) by simp
  qed
  have "\<exists>decoded. decode_encrypted_slices cpu ?ch rs 0 None = Inr decoded \<and> length decoded = length rst * rd_stripe_size rs"
    using sel nums plen eq_imp_le[OF sel(2)[symmetric]] by (intro decode_total[OF rs]) blast+
  then obtain decoded where dec: "decode_encrypted_slices cpu ?ch rs 0 None = Inr decoded" "length decoded = length rst * rd_stripe_size rs"
    by blast
  have dec0: "decoded = concat rst" if "ids = ids0"
    using decode_slices_ok[OF rs _ ids0, of 0 cpu None] sel(2) w dec(1) that by (simp add: window_def)
  show ?case
  proof (cases "probe_first \<and> (\<not> probe_share_set cr cpu ?ch rs job None \<or> list_ex (\<lambda>b. \<not> probe_share_set cr cpu ?ch rs job (Some b)) failed)")
    case True
    then have "ids \<noteq> ids0" using probe by (auto simp: list_ex_iff)
    then show ?thesis using True rec Cons.prems(3) by simp
  next
    case False
    have ks: "ids \<in> set (k_subsets (length shares) (rd_k rs))" using Cons.prems(1) by simp
    consider "decrypt_remote_tracking_failure cr job decoded = (Inr ?want, None)"
      | err j where "decrypt_remote_tracking_failure cr job decoded = (Inl err, Some (int j))" "i \<le> j" "j < i + m"
      using decrypt_any[OF fit d im _ _ _ auth ks dec(1)] wf(1-3) dec(2) by metis
    then show ?thesis
    proof cases
      case 1
      then show ?thesis unfolding reconstruct_loop.simps Let_def if_not_P[OF False] dec(1) by simp
    next
      case (2 err j)
      have "ids \<noteq> ids0"
      proof
        assume "ids = ids0"
        then have "decrypt_remote_tracking_failure cr job decoded = (Inr ?want, None)"
          using decrypt_range_ok[OF fit d im, of decoded] wf(1-3) dec(2) dec0 window_blocks[OF w, of i m] by simp
        then show False using 2(1) by simp
      qed
      then show ?thesis
        using 2 rec Cons.prems(3) unfolding reconstruct_loop.simps Let_def if_not_P[OF False] dec(1) by simp
    qed
  qed
qed simp

text \<open>A downloaded share that holds the requested range of its piece.\<close>

definition genuine_share :: "bytes list \<Rightarrow> int \<Rightarrow> int \<Rightarrow> int \<times> bytes \<Rightarrow> bool" where
  "genuine_share pieces off sz = (\<lambda>(num, dat). dat = sub_slice (pieces ! nat num) (nat off) (nat off + nat sz))"

lemma genuine_subset:
  assumes "k \<le> length (filter P shares)"
  obtains ids where "combo (length shares) k ids" "\<forall>x \<in> set (select_shares shares ids). P x"
proof -
  let ?all = "filter (\<lambda>i. P (shares ! i)) [0..<length shares]"
  have "filter P shares = map (\<lambda>i. shares ! i) ?all"
    using filter_map[of P "\<lambda>i. shares ! i" "[0..<length shares]"] by (simp add: map_nth comp_def)
  then have l: "length (take k ?all) = k" using assms by simp
  have st: "sorted_wrt (<) (take k ?all)" by (intro sorted_wrt_take sorted_wrt_filter) simp
  have all: "\<forall>x \<in> set (take k ?all). x < length shares \<and> P (shares ! x)" by (auto dest!: in_set_takeD)
  have "combo (length shares) k (take k ?all)" unfolding combo_def using l st all by blast
  moreover have "\<forall>x \<in> set (select_shares shares (take k ?all)). P x" unfolding select_shares_def set_map using all by blast
  ultimately show ?thesis by (rule that)
qed

lemma segment_window:
  assumes fit: "fits_segment cr job plain enc" and rs: "redundancy_ok rs" and pcs: "encode_pieces cpu enc rs = Inr pieces"
    and d: "new_decrypter cr (dp_cipher job) (dp_key job) (dp_nonce job) (dp_block_size job) = Inr d"
    and range: "piece_byte_range (plain_start job) (plain_len job) (out_block_size d) (in_block_size d) rs = (off, sz)"
    and off: "decoded_offset job = nat (sat_i64 (off * int (rd_k rs)))"
  obtains i m rst where "calc_encompassing_blocks (plain_start job) (plain_len job) (out_block_size d) = (int i, int m)"
    "window rs job enc rst (in_block_size d) i m" "nat sz = length rst * rd_share_size rs"
    "\<And>num dat. 0 \<le> num \<Longrightarrow> num < int (rd_n rs) \<Longrightarrow> genuine_share pieces off sz (num, dat) \<Longrightarrow>
      dat = piece_of cpu (fec_of rs) rst (nat num)"
proof (rule fits_segmentE[OF fit])
  let ?n = "in_block_size d" and ?st = "rd_stripe_size rs" and ?sh = "rd_share_size rs"
  fix e d' x i m
  assume "new_decrypter cr (dp_cipher job) (dp_key job) (dp_nonce job) (dp_block_size job) = Inr d'"
    "calc_encompassing_blocks (plain_start job) (plain_len job) (out_block_size d') = (int i, int m)"
  then have im: "calc_encompassing_blocks (plain_start job) (plain_len job) (out_block_size d) = (int i, int m)" using d by simp
  have parts: "0 < m" "(i + m) * ?n \<le> length enc" "0 < ?n" using segment_parts[OF fit d im] by blast+
  have big: "int (length enc) + 2 ^ 33 \<le> i64_max" using fit by (simp add: fits_segment_def)
  obtain p stripes where st: "pad enc ?st = Inr p" "p = concat stripes" "\<And>st. st \<in> set stripes \<Longrightarrow> length st = ?st"
      "length stripes * ?st = length enc + padding_size (length enc) ?st"
      "encode_pieces cpu enc rs = Inr (map (piece_of cpu (fec_of rs) stripes) [0..<rd_n rs])"
  proof (rule encode_pieces_ok[OF rs])
    show "int (length enc) + 4 \<le> i64_max" using big by simp
  qed (rule that)
  have len: "\<forall>st \<in> set stripes. length st = ?st" using st(3) by blast
  have "\<exists>rest. p = enc @ rest" using st(1) by (auto simp: pad_def result_simps split: if_splits)
  then obtain rest where p: "concat stripes = enc @ rest" using st(2) by auto
  have "length enc \<le> length stripes * ?st" using st(4) by linarith
  then obtain s0 ns where r: "(off, sz) = (int (s0 * ?sh), int (ns * ?sh))" "s0 * ?st \<le> i * ?n" "(i + m) * ?n \<le> (s0 + ns) * ?st"
      "s0 + ns \<le> length stripes"
    using piece_range_ok[OF fit rs d im parts] range by metis
  let ?rst = "take ns (drop s0 stripes)"
  have lr: "length ?rst = ns" using r(4) by simp
  have add: "(s0 + ns) * ?st = s0 * ?st + ns * ?st" by (simp add: algebra_simps)
  have "(s0 + ns) * ?st \<le> length stripes * ?st" using r(4) by (rule mult_le_mono1)
  moreover have "padding_size (length enc) ?st \<le> 2 ^ 32" "?sh * rd_k rs = ?st"
    using padding_size_bounds[OF fec_of_ok(3)[OF rs], of "length enc"] rs by (auto simp: redundancy_ok_def rd_stripe_size_def mult.commute)
  ultimately have hi: "int ((s0 + ns) * ?st) \<le> i64_max" and k: "?sh * rd_k rs = ?st" using st(4) big by (simp_all del: of_nat_mult of_nat_add)
  have ok: "off * int (rd_k rs) = int (s0 * ?st)" using k r(1) by (metis Pair_inject of_nat_mult mult.assoc)
  have "int (s0 * ?st) \<le> int ((s0 + ns) * ?st)" using add by (simp only: of_nat_le_iff le_add1)
  then have o: "decoded_offset job = s0 * ?st" unfolding off ok using hi by (subst sat_i64_nat) (simp_all only: nat_int)
  have no: "nat off = s0 * ?sh" "nat sz = ns * ?sh" using r(1) by (metis Pair_inject nat_int)+
  have "window rs job enc ?rst ?n i m"
    unfolding window_def o lr
  proof (intro conjI exI[of _ rest])
    show "\<forall>st \<in> set ?rst. length st = ?st" using len by (auto dest: in_set_takeD in_set_dropD)
    show "concat ?rst = sub_slice (enc @ rest) (s0 * ?st) (s0 * ?st + ns * ?st)" using concat_range[OF len, of s0 ns] p add by simp
  qed (use r(2,3) parts(2) hi add in simp_all)
  moreover have "dat = piece_of cpu (fec_of rs) ?rst (nat num)"
    if "0 \<le> num" "num < int (rd_n rs)" "genuine_share pieces off sz (num, dat)" for num dat
    using that pcs st(5) genuine_window[OF len rs r(4), of cpu "nat num"] no by (auto simp: genuine_share_def)
  ultimately show ?thesis using that[OF im, of ?rst] no(2) lr by simp
qed

section \<open>The property\<close>

text \<open>
  A segment is encrypted and erasure-coded, and ranges of its pieces are downloaded: \<open>k\<close> of the shares are genuine,
  the others may be corrupt.  The ciphers accept no forged block among what the shares decode to.  Then
  \<open>reconstruct_remote\<close> returns exactly the requested bytes of the plaintext: the probes, the filter on failed blocks
  and the early exits never discard the good shares, and no corrupt share gets into the result.
\<close>

theorem reconstruct_remote_range:
  assumes "fits_segment cr job plain enc" and "redundancy_ok rs" and "encode_pieces cpu enc rs = Inr pieces"
    and "new_decrypter cr (dp_cipher job) (dp_key job) (dp_nonce job) (dp_block_size job) = Inr d"
    and "piece_byte_range (plain_start job) (plain_len job) (out_block_size d) (in_block_size d) rs = (off, sz)"
    and "decoded_offset job = nat (sat_i64 (off * int (rd_k rs)))"
    and "distinct (map fst shares)" and "\<forall>(num, dat) \<in> set shares. 0 \<le> num \<and> num < int (rd_n rs) \<and> length dat = nat sz"
    and "rd_k rs \<le> length (filter (genuine_share pieces off sz) shares)"
    and "authentic cr cpu' rs job shares enc"
  shows "reconstruct_remote cr cpu' shares rs job =
    Inr (sub_slice plain (nat (plain_start job)) (nat (plain_start job) + nat (plain_len job)))"
proof (rule segment_window[OF assms(1-6)])
  fix i m rst
  assume w: "calc_encompassing_blocks (plain_start job) (plain_len job) (out_block_size d) = (int i, int m)"
    "window rs job enc rst (in_block_size d) i m" "nat sz = length rst * rd_share_size rs"
    and g: "\<And>num dat. 0 \<le> num \<Longrightarrow> num < int (rd_n rs) \<Longrightarrow> genuine_share pieces off sz (num, dat) \<Longrightarrow>
      dat = piece_of cpu (fec_of rs) rst (nat num)"
  obtain ids where ids: "combo (length shares) (rd_k rs) ids" "\<forall>x \<in> set (select_shares shares ids). genuine_share pieces off sz x"
    using genuine_subset[OF assms(9)] by blast
  note sel = select_shares_subset[OF ids(1)]
  have "0 \<le> num \<and> num < int (rd_n rs) \<and> dat = piece_of cpu (fec_of rs) rst (nat num)"
    if "(num, dat) \<in> set (select_shares shares ids)" for num dat
    using that sel(1) assms(8) ids(2) g[of num dat] by blast
  then have "pieces_of cpu rs rst (select_shares shares ids)" unfolding pieces_of_def using sel(3)[OF assms(7)] by blast
  moreover have "ids \<in> set (k_subsets (length shares) (rd_k rs))"
    using ids(1) k_subsets_complete(1)[of "rd_k rs"] assms(2) by (simp add: redundancy_ok_def)
  moreover have "\<forall>(num, d) \<in> set shares. 0 \<le> num \<and> num < int (rd_n rs)"
      "\<forall>(num, d) \<in> set shares. length d = length rst * rd_share_size rs"
    using assms(8) w(3) by auto
  ultimately have "reconstruct_loop cr cpu' shares rs job (length shares > rd_k rs) (k_subsets (length shares) (rd_k rs)) [] None =
      Inr (sub_slice plain (nat (plain_start job)) (nat (plain_start job) + nat (plain_len job)))"
    by (intro reconstruct_loop_ok[OF assms(1,2,4) w(1,2) assms(7) _ _ assms(10)]) (assumption | simp)+
  moreover have "rd_k rs \<le> length shares" using assms(9) length_filter_le[of "genuine_share pieces off sz" shares] by linarith
  ultimately show ?thesis by (simp add: reconstruct_remote_def)
qed

definition sample_job :: DecryptParams where
  "sample_job = \<lparr>decoded_offset = 0, encrypted_size = 85, dp_cipher = AES_GCM, dp_key = replicate 32 0, dp_nonce = replicate 24 0,
     dp_block_size = 17, plain_start = 0, plain_len = 1, plain_size = 1\<rparr>"

definition sample_redundancy :: Redundancy where
  "sample_redundancy = \<lparr>rd_k = 1, rd_m = 1, rd_o = 2, rd_n = 2, rd_share_size = 17\<rparr>"

definition sample_enc :: bytes where
  "sample_enc = concat (map (\<lambda>b. b # replicate 16 7) [5, 0, 0, 0, 4])"

definition sample_shares :: "(int \<times> bytes) list" where
  "sample_shares = [(0, replicate 17 1), (1, 5 # replicate 16 7)]"

definition sample_decrypter :: Transformer where
  "sample_decrypter = AesGcmDecrypter toy_crypto (replicate 32 0) (replicate 12 0) 1"

lemma sample_decrypter_eq:
  "new_decrypter toy_crypto (dp_cipher sample_job) (dp_key sample_job) (dp_nonce sample_job) (dp_block_size sample_job) = Inr sample_decrypter"
  by (simp add: sample_job_def sample_decrypter_def new_decrypter_def to_aes_gcm_nonce_def check_block_size_def AES_GCM_NONCE_SIZE_def AES_GCM_TAG_SIZE_def)

lemma sample_authentic: "authentic toy_crypto Portable sample_redundancy sample_job sample_shares sample_enc"
  unfolding authentic_def Let_def
proof (intro allI impI)
  fix d ids decoded b x
  assume "new_decrypter toy_crypto (dp_cipher sample_job) (dp_key sample_job) (dp_nonce sample_job) (dp_block_size sample_job) = Inr d"
  then have d': "d = sample_decrypter" using sample_decrypter_eq by simp
  have n: "in_block_size d = 17" "decoded_offset sample_job = 0"
    by (simp_all add: d' sample_decrypter_def AesGcmDecrypter_def AES_GCM_TAG_SIZE_def sample_job_def)
  assume "ids \<in> set (k_subsets (length sample_shares) (rd_k sample_redundancy))"
  moreover have "k_subsets (length sample_shares) (rd_k sample_redundancy) = [[0], [1]]" by code_simp
  ultimately have ids: "ids = [0] \<or> ids = [1]" by auto
  have dec: "decode_encrypted_slices Portable (select_shares sample_shares [0]) sample_redundancy 0 None = Inr (replicate 17 1)"
    "decode_encrypted_slices Portable (select_shares sample_shares [1]) sample_redundancy 0 None = Inr (5 # replicate 16 7)"
    by code_simp+
  assume a: "decode_encrypted_slices Portable (select_shares sample_shares ids) sample_redundancy 0 None = Inr decoded"
    "b * in_block_size d - decoded_offset sample_job + in_block_size d \<le> length decoded"
    "transform d (sub_slice decoded (b * in_block_size d - decoded_offset sample_job)
      (b * in_block_size d - decoded_offset sample_job + in_block_size d)) (int b) = Inr x"
  have "length decoded = 17" using ids dec a(1) by auto
  then have b: "b = 0" using a(2) n by simp
  have bad: "transform sample_decrypter (sub_slice (replicate 17 1) 0 17) 0 = Inl DecryptionFailed"
    and good: "sub_slice (5 # replicate 16 7) 0 17 = sub_slice sample_enc 0 17" by code_simp+
  have "ids = [1]" using ids dec(1) a(1,3) bad b n d' by auto
  then show "sub_slice decoded (b * in_block_size d - decoded_offset sample_job) (b * in_block_size d - decoded_offset sample_job + in_block_size d) =
      sub_slice sample_enc (b * in_block_size d) (b * in_block_size d + in_block_size d)"
    using dec(2) a(1) b n good by simp
qed

theorem reconstruct_remote_range_witness:
  "reconstruct_remote toy_crypto Portable sample_shares sample_redundancy sample_job = Inr [5]"
proof -
  have c: "encrypt_remote toy_crypto [5] (dp_cipher sample_job) (dp_key sample_job) (dp_nonce sample_job) (dp_block_size sample_job) = Inr sample_enc"
    by code_simp
  have "length sample_enc = 85" by code_simp
  then have fit: "fits_segment toy_crypto sample_job [5] sample_enc"
    using c toy_crypto_ok by (simp add: fits_segment_def sample_job_def)
  have rs: "redundancy_ok sample_redundancy" by (simp add: redundancy_ok_def sample_redundancy_def rd_stripe_size_def)
  have "case encode_pieces Portable sample_enc sample_redundancy of Inl _ \<Rightarrow> False | Inr ps \<Rightarrow> genuine_share ps 0 17 (1, 5 # replicate 16 7)"
    by code_simp
  then obtain ps where ps: "encode_pieces Portable sample_enc sample_redundancy = Inr ps" "genuine_share ps 0 17 (1, 5 # replicate 16 7)"
    by (auto split: sum.splits)
  have r: "piece_byte_range (plain_start sample_job) (plain_len sample_job) (out_block_size sample_decrypter) (in_block_size sample_decrypter)
      sample_redundancy = (0, 17)" by code_simp
  have "length (filter (genuine_share ps 0 17) sample_shares) \<ge> 1" using ps(2) by (simp add: sample_shares_def)
  then show ?thesis
    using reconstruct_remote_range[OF fit rs ps(1) sample_decrypter_eq r _ _ _ _ sample_authentic]
    by (simp add: sample_job_def sample_shares_def sample_redundancy_def sat_i64_def sub_slice_def)
qed

end
