(* ===== verification/Public_Error.thy ===== *)
theory Public_Error
  imports Uplink_Error
begin

text \<open>
  The public error type, \<open>crates/storj/src/error.rs\<close>, with the conversions from the errors of the lower crates
  (\<open>map_enc\<close>, \<open>map_uplink\<close> of \<open>crates/storj/src/project.rs\<close>) and to and from \<open>std::io::Error\<close>, through which errors of readers and
  writers travel.  The payloads of dual returns (a bucket or an object) are left out; a message is text whose wording
  does not matter here, except that the kind is kept apart from it.

  Shown: whether an operation may be retried, and the cause, survive both conversions.
\<close>

section \<open>The code\<close>

datatype PublicErrorKind =
    InvalidTlsIdentity | MetadataInvalid | TooManyRequests | BandwidthLimitExceeded | StorageLimitExceeded | SegmentsLimitExceeded
  | PermissionDenied | BucketNameInvalid | BucketAlreadyExists | BucketNotEmpty | BucketNotFound | ObjectKeyInvalid | ObjectNotFound
  | UploadDone | UploadIdInvalid | Canceled | InvalidGrant | DecryptionFailedKind | ProtocolKind | IoKind
  | EdgeAuthDialFailed | EdgeRegisterAccessFailed

fun kind_text :: "PublicErrorKind \<Rightarrow> string" where
  "kind_text TooManyRequests = ''too many requests''"
| "kind_text BandwidthLimitExceeded = ''bandwidth limit exceeded''"
| "kind_text StorageLimitExceeded = ''storage limit exceeded''"
| "kind_text SegmentsLimitExceeded = ''segments limit exceeded''"
| "kind_text PermissionDenied = ''permission denied''"
| "kind_text BucketNameInvalid = ''bucket name invalid''"
| "kind_text BucketAlreadyExists = ''bucket already exists''"
| "kind_text BucketNotEmpty = ''bucket not empty''"
| "kind_text BucketNotFound = ''bucket not found''"
| "kind_text ObjectKeyInvalid = ''object key invalid''"
| "kind_text ObjectNotFound = ''object not found''"
| "kind_text UploadDone = ''upload done''"
| "kind_text UploadIdInvalid = ''upload ID invalid''"
| "kind_text Canceled = ''canceled''"
| "kind_text InvalidGrant = ''invalid grant''"
| "kind_text DecryptionFailedKind = ''decryption failed''"
| "kind_text ProtocolKind = ''protocol''"
| "kind_text MetadataInvalid = ''invalid custom metadata''"
| "kind_text InvalidTlsIdentity = ''invalid TLS identity''"
| "kind_text IoKind = ''i/o''"
| "kind_text EdgeAuthDialFailed = ''dial to auth service failed''"
| "kind_text EdgeRegisterAccessFailed = ''register access for edge service failed''"

datatype io_kind = Interrupted | OtherIoKind

datatype error_source = EncryptionSource ErrorKind | UplinkSource UplinkError | IoSource io_kind string | JoinSource

record PublicError =
  pe_kind :: PublicErrorKind
  pe_retryable :: "bool option"
  pe_message :: string
  pe_source :: "error_source option"

definition pe_new :: "PublicErrorKind \<Rightarrow> string \<Rightarrow> PublicError" where
  "pe_new k message = \<lparr>pe_kind = k, pe_retryable = None, pe_message = message, pe_source = None\<rparr>"

definition with_source :: "PublicError \<Rightarrow> error_source \<Rightarrow> PublicError" where
  "with_source e src = e\<lparr>pe_source := Some src\<rparr>"

definition with_retryable :: "PublicError \<Rightarrow> bool \<Rightarrow> PublicError" where
  "with_retryable e retryable = e\<lparr>pe_retryable := Some retryable\<rparr>"

definition pe_is_retryable :: "PublicError \<Rightarrow> bool" where
  "pe_is_retryable e =
    (case pe_retryable e of Some r \<Rightarrow> r | None \<Rightarrow> pe_kind e \<in> {TooManyRequests, ProtocolKind, IoKind})"

definition is_canceled :: "PublicError \<Rightarrow> bool" where
  "is_canceled e \<longleftrightarrow> pe_kind e = Canceled"

definition pe_to_string :: "PublicError \<Rightarrow> string" where
  "pe_to_string e = kind_text (pe_kind e) @ '': '' @ pe_message e"

text \<open>\<open>io::Error\<close>: its kind, and a payload that is a public error or any other error with its text.\<close>

record IoError =
  ie_kind :: io_kind
  ie_inner :: "PublicError + string"

definition from_io :: "IoError \<Rightarrow> PublicError" where
  "from_io e =
    (case ie_inner e of
       Inl orig \<Rightarrow> orig
     | Inr message \<Rightarrow> with_source (pe_new (if ie_kind e = Interrupted then Canceled else IoKind) message) (IoSource (ie_kind e) message))"

definition to_io :: "PublicError \<Rightarrow> IoError" where
  "to_io e = (if is_canceled e then \<lparr>ie_kind = Interrupted, ie_inner = Inl e\<rparr> else \<lparr>ie_kind = OtherIoKind, ie_inner = Inl e\<rparr>)"

text \<open>The conversion of a \<open>JoinError\<close> of a cancelled task; for a task that panicked the panic is resumed.\<close>

definition from_cancelled :: PublicError where
  "from_cancelled = with_source (pe_new Canceled ''task canceled'') JoinSource"

definition map_enc :: "(ErrorKind \<Rightarrow> string) \<Rightarrow> ErrorKind \<Rightarrow> PublicError" where
  "map_enc show_enc e =
    (let k = (case e of DecryptionFailed \<Rightarrow> DecryptionFailedKind
                 | MissingEncryptionBase \<Rightarrow> InvalidGrant | MissingDecryptionBase \<Rightarrow> InvalidGrant | _ \<Rightarrow> ProtocolKind)
     in with_source (with_retryable (pe_new k (show_enc e)) False) (EncryptionSource e))"

definition map_uplink :: "(ErrorKind \<Rightarrow> string) \<Rightarrow> (UplinkError \<Rightarrow> string) \<Rightarrow> UplinkError \<Rightarrow> PublicError" where
  "map_uplink show_enc show_up e =
    with_retryable (case e of Encryption enc \<Rightarrow> map_enc show_enc enc
       | other \<Rightarrow> with_source (pe_new ProtocolKind (show_up other)) (UplinkSource other)) (is_retryable e)"

section \<open>Properties\<close>

text \<open>
  C24: the classification of a failure survives its way to the caller: an error of the client crate and its public form agree on
  whether a retry may help, also after travelling through \<open>io::Error\<close>; encryption errors are permanent; the cause stays
  attached; and a public error comes back from \<open>io::Error\<close> unchanged.
\<close>

theorem retry_decision_survives:
  "from_io (to_io pe) = pe \<and>
   pe_is_retryable (from_io (to_io (map_uplink show_enc show_up e))) = is_retryable e \<and>
   pe_source (map_uplink show_enc show_up e) = Some (case e of Encryption enc \<Rightarrow> EncryptionSource enc | _ \<Rightarrow> UplinkSource e) \<and>
   \<not> pe_is_retryable (map_enc show_enc k) \<and> \<not> pe_is_retryable (map_uplink show_enc show_up (Encryption k))"
proof -
  have io: "from_io (to_io x) = x" for x by (simp add: from_io_def to_io_def)
  show ?thesis unfolding io
    by (auto simp: map_uplink_def map_enc_def pe_is_retryable_def with_retryable_def with_source_def Let_def split: UplinkError.split)
qed

end
