(* ===== verification/Upload_Writer.thy ===== *)
theory Upload_Writer
  imports Public_Error Pipeline "HOL-Library.Code_Target_Nat"
begin

text \<open>
  The writer of an object or a part, \<open>crates/storj/src/upload.rs\<close>, and what it calls in \<open>crates/storj/src/project.rs\<close>: buffering
  into segments, at most one background task that commits a full segment, the sticky error, committing and aborting.
  The body of the task, \<open>commit_one_segment\<close>, is modelled in \<open>Segment_Commit\<close>: here a task is its job, and what
  a poll or an await of its handle finds is an argument (\<open>flush_poll\<close>).  The world around the writer records which segments
  were committed (\<open>w_stored\<close>), whether \<open>CommitObject\<close> was sent (\<open>w_commit_sent\<close>), whether the satellite confirmed it (\<open>w_published\<close>)
  and whether the deletion of the pending object was requested (\<open>w_aborted\<close>).  The telemetry is left out.  The counters are unbounded
  integers; those of the code would overflow after \<open>2 ^ 31\<close> full segments, that is \<open>2 ^ 57\<close> bytes.

  Shown: a committed object consists of exactly the bytes that the writer accepted, cut into full segments with consecutive
  indexes; after a failed segment nothing more is accepted and \<open>CommitObject\<close> is never sent; and the error that later calls return is not quite the first one.
\<close>

section \<open>The code\<close>

subsection \<open>State\<close>

record SegmentJob =
  job_part :: int
  job_index :: int
  job_plain :: bytes
  job_etag :: bytes
  job_content_key :: Key
  job_cipher :: CipherSuite
  job_block_size :: nat

record UploadInner =
  content_key :: Key
  cipher :: CipherSuite
  block_size :: nat
  custom :: "(bytes \<times> bytes) list"
  plaintext :: bytes
  next_segment :: int
  total_plain :: int
  last_segment_plain :: int
  pending_flush :: "SegmentJob option"
  part_number :: int
  etag :: "bytes option"
  object_sum :: "bytes option"
  failed :: "(PublicErrorKind \<times> string) option"

record World =
  w_inner :: UploadInner
  w_stored :: "SegmentJob list"
  w_commit_sent :: bool
  w_published :: bool
  w_aborted :: bool

definition new_upload :: "Key \<Rightarrow> CipherSuite \<Rightarrow> nat \<Rightarrow> int \<Rightarrow> bytes option \<Rightarrow> World" where
  "new_upload ck cs bs part cksum =
    \<lparr>w_inner = \<lparr>content_key = ck, cipher = cs, block_size = bs, custom = [], plaintext = [], next_segment = 0, total_plain = 0,
       last_segment_plain = 0, pending_flush = None, part_number = part, etag = None, object_sum = cksum, failed = None\<rparr>,
     w_stored = [], w_commit_sent = False, w_published = False, w_aborted = False\<rparr>"

text \<open>What polling the handle of the task finds.  A task that panicked resumes the panic in the caller.\<close>

datatype flush_poll = StillRunning | Flushed | FlushFailed PublicError | FlushCancelled

datatype 'a poll = NotReady | Ready 'a

definition failed_error :: "UploadInner \<Rightarrow> PublicError option" where
  "failed_error u = map_option (\<lambda>(k, msg). pe_new k (''upload failed earlier: '' @ msg)) (failed u)"

definition poison :: "PublicError \<Rightarrow> UploadInner \<Rightarrow> UploadInner" where
  "poison e u = (if failed u = None then u\<lparr>failed := Some (pe_kind e, pe_to_string e)\<rparr> else u)"

definition apply_flush :: "SegmentJob \<Rightarrow> World \<Rightarrow> World" where
  "apply_flush job w =
    (let u = w_inner w; plain_size = int (length (job_plain job))
     in w\<lparr>w_inner := u\<lparr>next_segment := max (next_segment u) (job_index job + 1), total_plain := total_plain u + plain_size,
            last_segment_plain := plain_size\<rparr>, w_stored := w_stored w @ [job]\<rparr>)"

subsection \<open>Writing\<close>

definition take_poll :: "flush_poll list \<Rightarrow> flush_poll \<times> flush_poll list" where
  "take_poll polls = (case polls of [] \<Rightarrow> (StillRunning, []) | p # ps \<Rightarrow> (p, ps))"

definition poll_pending_flush :: "flush_poll list \<Rightarrow> World \<Rightarrow> (PublicError + unit) poll \<times> flush_poll list \<times> World" where
  "poll_pending_flush polls w =
    (case failed_error (w_inner w) of
       Some e \<Rightarrow> (Ready (Inl e), polls, w)
     | None \<Rightarrow>
       (case pending_flush (w_inner w) of
          None \<Rightarrow> (Ready (Inr ()), polls, w)
        | Some job \<Rightarrow>
          (let (p, polls) = take_poll polls; taken = w\<lparr>w_inner := (w_inner w)\<lparr>pending_flush := None\<rparr>\<rparr>
           in case p of
                StillRunning \<Rightarrow> (NotReady, polls, w)
              | Flushed \<Rightarrow> (Ready (Inr ()), polls, apply_flush job taken)
              | FlushFailed e \<Rightarrow> (Ready (Inl e), polls, taken\<lparr>w_inner := poison e (w_inner taken)\<rparr>)
              | FlushCancelled \<Rightarrow> (Ready (Inl from_cancelled), polls, taken\<lparr>w_inner := poison from_cancelled (w_inner taken)\<rparr>))))"

definition segment_job :: "UploadInner \<Rightarrow> bytes \<Rightarrow> bytes \<Rightarrow> SegmentJob" where
  "segment_job u plain tag =
    \<lparr>job_part = part_number u, job_index = next_segment u, job_plain = plain, job_etag = tag, job_content_key = content_key u,
     job_cipher = cipher u, job_block_size = block_size u\<rparr>"

definition spawn_flush_segment :: "World \<Rightarrow> World" where
  "spawn_flush_segment w =
    (let u = w_inner w
     in if pending_flush u \<noteq> None \<or> length (plaintext u) < MAX_SEGMENT_SIZE then w
        else let chunk = plaintext u
             in w\<lparr>w_inner := u\<lparr>plaintext := drop MAX_SEGMENT_SIZE chunk, pending_flush := Some (segment_job u (take MAX_SEGMENT_SIZE chunk) [])\<rparr>\<rparr>)"

lemma poll_pending_flush_plaintext: "poll_pending_flush polls w = (r, polls', w') \<Longrightarrow> plaintext (w_inner w') = plaintext (w_inner w)"
  by (auto simp: poll_pending_flush_def apply_flush_def poison_def Let_def split: option.splits flush_poll.splits prod.splits)

lemma spawn_shrinks:
  assumes "(r, polls', w') = poll_pending_flush polls w" "MAX_SEGMENT_SIZE \<le> length (plaintext (w_inner w'))" "pending_flush (w_inner w') = None"
  shows "length (plaintext (w_inner (spawn_flush_segment w'))) < length (plaintext (w_inner w))"
  using poll_pending_flush_plaintext[OF assms(1)[symmetric]] assms(2,3) by (simp add: spawn_flush_segment_def Let_def MAX_SEGMENT_SIZE_def)

function poll_write_loop :: "flush_poll list \<Rightarrow> bytes \<Rightarrow> World \<Rightarrow> (IoError + nat) poll \<times> flush_poll list \<times> World" where
  "poll_write_loop polls dat w =
    (case poll_pending_flush polls w of
       (Ready (Inl e), polls, w) \<Rightarrow> (Ready (Inl (to_io e)), polls, w)
     | (r, polls, w) \<Rightarrow>
       (let u = w_inner w
        in if r = NotReady \<and> length (plaintext u) \<ge> MAX_SEGMENT_SIZE then (NotReady, polls, w)
           else if length (plaintext u) \<ge> MAX_SEGMENT_SIZE \<and> pending_flush u = None then poll_write_loop polls dat (spawn_flush_segment w)
           else let room = MAX_SEGMENT_SIZE - length (plaintext u)
                in if room = 0 then (NotReady, polls, w)
                   else let n = min (length dat) room
                        in (Ready (Inr n), polls, w\<lparr>w_inner := u\<lparr>plaintext := plaintext u @ take n dat\<rparr>\<rparr>)))"
  by pat_completeness auto
termination
proof (relation "measure (\<lambda>(_, _, w). length (plaintext (w_inner w)))", goal_cases)
  case (3 polls dat w)
  from this(1,4-) show ?case by simp (metis spawn_shrinks)
qed simp_all

declare poll_write_loop.simps [simp del]

definition poll_write_inner :: "flush_poll list \<Rightarrow> bytes \<Rightarrow> World \<Rightarrow> (IoError + nat) poll \<times> World" where
  "poll_write_inner polls dat w =
    (if dat = [] then (Ready (Inr 0), w) else case poll_write_loop polls dat w of (r, _, w) \<Rightarrow> (r, w))"

definition poll_flush :: "flush_poll list \<Rightarrow> World \<Rightarrow> (IoError + unit) poll \<times> World" where
  "poll_flush polls w =
    (case poll_pending_flush polls w of
       (NotReady, _, w) \<Rightarrow> (NotReady, w)
     | (Ready r, _, w) \<Rightarrow> (Ready (map_err to_io r), w))"

definition poll_shutdown :: "World \<Rightarrow> (IoError + unit) poll \<times> World" where
  "poll_shutdown w = (Ready (Inr ()), w)"

subsection \<open>Metadata\<close>

definition verify_custom_metadata :: "(bytes \<times> bytes) list \<Rightarrow> PublicError + unit" where
  "verify_custom_metadata metadata =
    fold_result (\<lambda>(k, v) _.
      if k = [] then Inl (pe_new MetadataInvalid ''custom metadata contains an empty key'')
      else if 0 \<in> set k \<or> 0 \<in> set v then Inl (pe_new MetadataInvalid ''custom metadata contains a NUL byte'')
      else Inr ()) metadata ()"

definition set_custom_metadata :: "(bytes \<times> bytes) list \<Rightarrow> World \<Rightarrow> (PublicError + unit) \<times> World" where
  "set_custom_metadata meta w =
    (case verify_custom_metadata meta of
       Inl e \<Rightarrow> (Inl e, w)
     | Inr _ \<Rightarrow> (Inr (), w\<lparr>w_inner := (w_inner w)\<lparr>custom := meta\<rparr>\<rparr>))"

definition set_etag :: "bytes \<Rightarrow> World \<Rightarrow> (PublicError + unit) \<times> World" where
  "set_etag tag w =
    (if etag (w_inner w) \<noteq> None then (Inl (pe_new ProtocolKind ''etag already set''), w)
     else (Inr (), w\<lparr>w_inner := (w_inner w)\<lparr>etag := Some tag\<rparr>\<rparr>))"

subsection \<open>Committing\<close>

text \<open>
  What the awaited task and the last segment end with, and what the satellite answers to \<open>CommitObject\<close>.  An aborted upload
  sends \<open>BeginDeleteObject\<close> for the pending object; if that fails it is sent again in the background.
\<close>

record CommitEnv =
  ce_flush :: "PublicError + unit"
  ce_last :: "PublicError + unit"
  ce_commit :: "PublicError + unit"

record Committed =
  co_user :: EncryptedUserData
  co_content_length :: int
  co_custom :: "(bytes \<times> bytes) list"

definition abort_upload :: "World \<Rightarrow> World" where
  "abort_upload w = w\<lparr>w_inner := (w_inner w)\<lparr>pending_flush := None\<rparr>, w_aborted := True\<rparr>"

definition await_flush :: "CommitEnv \<Rightarrow> World \<Rightarrow> (PublicError + unit) \<times> World" where
  "await_flush env w =
    (case pending_flush (w_inner w) of
       None \<Rightarrow> (Inr (), w)
     | Some job \<Rightarrow>
       (let w = w\<lparr>w_inner := (w_inner w)\<lparr>pending_flush := None\<rparr>\<rparr>
        in case ce_flush env of Inl e \<Rightarrow> (Inl e, w) | Inr _ \<Rightarrow> (Inr (), apply_flush job w)))"

definition commit_last :: "CommitEnv \<Rightarrow> bytes \<Rightarrow> World \<Rightarrow> (PublicError + unit) \<times> World" where
  "commit_last env tag w =
    (let u = w_inner w
     in if plaintext u \<noteq> [] \<or> next_segment u = 0 then
          (let job = segment_job u (plaintext u) tag; w = w\<lparr>w_inner := u\<lparr>plaintext := []\<rparr>\<rparr>
           in case ce_last env of Inl e \<Rightarrow> (Inl e, w) | Inr _ \<Rightarrow> (Inr (), apply_flush job w))
        else (Inr (), w))"

text \<open>An early return drops \<open>AbortOnDrop\<close>, which is disarmed after \<open>CommitObject\<close> only.\<close>

definition commit_upload :: "(ErrorKind \<Rightarrow> string) \<Rightarrow> (UplinkError \<Rightarrow> string) \<Rightarrow> Crypto \<Rightarrow> UserPb \<Rightarrow> Key \<Rightarrow> bytes \<Rightarrow> CommitEnv \<Rightarrow> World \<Rightarrow>
    (PublicError + Committed) \<times> World" where
  "commit_upload show_enc show_up cr pb random_key random_nonce env w =
    (case failed_error (w_inner w) of
       Some e \<Rightarrow> (Inl e, abort_upload w)
     | None \<Rightarrow>
       (let give_up = (\<lambda>e w. (Inl e, w\<lparr>w_aborted := True\<rparr>))
        in case verify_custom_metadata (custom (w_inner w)) of
             Inl e \<Rightarrow> give_up e w
           | Inr _ \<Rightarrow>
             (case await_flush env w of
                (Inl e, w) \<Rightarrow> give_up e w
              | (Inr _, w) \<Rightarrow>
                (case commit_last env [] w of
                   (Inl e, w) \<Rightarrow> give_up e w
                 | (Inr _, w) \<Rightarrow>
                   (let u = w_inner w
                    in case encrypt_user_data cr pb random_key random_nonce (custom u) (int MAX_SEGMENT_SIZE) (last_segment_plain u)
                         (next_segment u) (cipher u) (content_key u) (block_size u) (object_sum u) of
                         Inl e \<Rightarrow> give_up (map_uplink show_enc show_up e) w
                       | Inr user \<Rightarrow>
                         (let w = w\<lparr>w_commit_sent := True\<rparr>
                          in case ce_commit env of
                               Inl e \<Rightarrow> give_up e w
                             | Inr _ \<Rightarrow> (Inr \<lparr>co_user = user, co_content_length = total_plain u, co_custom = custom u\<rparr>, w\<lparr>w_published := True\<rparr>)))))))"

definition commit_part :: "CommitEnv \<Rightarrow> World \<Rightarrow> (PublicError + unit) \<times> World" where
  "commit_part env w =
    (case failed_error (w_inner w) of
       Some e \<Rightarrow> (Inl e, w)
     | None \<Rightarrow>
       (case await_flush env w of
          (Inl e, w) \<Rightarrow> (Inl e, w)
        | (Inr _, w) \<Rightarrow>
          (let tag = (case etag (w_inner w) of Some t \<Rightarrow> t | None \<Rightarrow> [])
           in commit_last env tag (w\<lparr>w_inner := (w_inner w)\<lparr>etag := None\<rparr>\<rparr>))))"

section \<open>The invariant of the writer\<close>

text \<open>A segment that is not the last one is full; indexes count from zero.\<close>

definition full_segments :: "int \<Rightarrow> SegmentJob list \<Rightarrow> bool" where
  "full_segments part segs \<longleftrightarrow> map job_index segs = map int [0..<length segs] \<and>
    (\<forall>s \<in> set segs. job_part s = part \<and> length (job_plain s) = MAX_SEGMENT_SIZE)"

definition jobs_of :: "World \<Rightarrow> SegmentJob list" where
  "jobs_of w = w_stored w @ (case pending_flush (w_inner w) of None \<Rightarrow> [] | Some job \<Rightarrow> [job])"

definition writer_ok :: "bytes \<Rightarrow> World \<Rightarrow> bool" where
  "writer_ok written w \<longleftrightarrow> \<not> w_published w \<and>
    (failed (w_inner w) = None \<longrightarrow>
      full_segments (part_number (w_inner w)) (jobs_of w) \<and> concat (map job_plain (jobs_of w)) @ plaintext (w_inner w) = written \<and>
      length (plaintext (w_inner w)) \<le> MAX_SEGMENT_SIZE \<and>
      next_segment (w_inner w) = int (length (w_stored w)) \<and> total_plain (w_inner w) = int (length (w_stored w) * MAX_SEGMENT_SIZE) \<and>
      last_segment_plain (w_inner w) = (if w_stored w = [] then 0 else int MAX_SEGMENT_SIZE))"

lemma full_segments_snoc:
  "full_segments part (segs @ [s]) \<longleftrightarrow>
    full_segments part segs \<and> job_index s = int (length segs) \<and> job_part s = part \<and> length (job_plain s) = MAX_SEGMENT_SIZE"
  by (auto simp: full_segments_def)

lemma apply_flush_ok:
  assumes "writer_ok d w" "failed (w_inner w) = None" "pending_flush (w_inner w) = Some job"
  shows "writer_ok d (apply_flush job (w\<lparr>w_inner := (w_inner w)\<lparr>pending_flush := None\<rparr>\<rparr>))"
  using assms by (auto simp: writer_ok_def jobs_of_def apply_flush_def Let_def full_segments_snoc distrib_right)

lemma poll_pending_flush_ok:
  assumes "writer_ok d w" "poll_pending_flush polls w = (r, polls', w')"
  shows "writer_ok d w'"
proof (cases "failed_error (w_inner w) = None \<and> pending_flush (w_inner w) \<noteq> None")
  case True
  then obtain job where job: "pending_flush (w_inner w) = Some job" and f: "failed (w_inner w) = None" by (auto simp: failed_error_def)
  obtain p ps where p: "take_poll polls = (p, ps)" by (cases "take_poll polls")
  show ?thesis
  proof (cases p)
    case Flushed
    then show ?thesis using assms job f True p apply_flush_ok[OF assms(1) f job] by (auto simp: poll_pending_flush_def)
  qed (use assms job f True p in \<open>auto simp: poll_pending_flush_def poison_def writer_ok_def\<close>)
qed (use assms in \<open>auto simp: poll_pending_flush_def split: option.splits\<close>)

lemma spawn_flush_segment_ok:
  assumes "writer_ok d w" shows "writer_ok d (spawn_flush_segment w)"
  using assms by (auto simp: writer_ok_def spawn_flush_segment_def Let_def jobs_of_def full_segments_snoc segment_job_def)

lemma poll_write_loop_ok:
  assumes "writer_ok d w" "poll_write_loop polls dat w = (r, polls', w')"
  shows "writer_ok (case r of Ready (Inr n) \<Rightarrow> d @ take n dat | _ \<Rightarrow> d) w'" "r = Ready (Inr n) \<Longrightarrow> dat \<noteq> [] \<Longrightarrow> 0 < n \<and> n \<le> length dat"
proof -
  have "writer_ok (case r of Ready (Inr n) \<Rightarrow> d @ take n dat | _ \<Rightarrow> d) w' \<and> (r = Ready (Inr n) \<longrightarrow> dat \<noteq> [] \<longrightarrow> 0 < n \<and> n \<le> length dat)"
    using assms
  proof (induction polls dat w rule: poll_write_loop.induct)
    case (1 polls dat w)
    obtain r1 ps w1 where p: "poll_pending_flush polls w = (r1, ps, w1)" by (metis prod_cases3)
    note ok = poll_pending_flush_ok[OF 1(3) p]
    note step = 1(4)[unfolded poll_write_loop.simps[of polls dat w]]
    consider (err) e where "r1 = Ready (Inl e)" | (wait) "r1 = NotReady" | (go) "r1 = Ready (Inr ())"
      by (cases r1; cases "case r1 of Ready x \<Rightarrow> x | NotReady \<Rightarrow> Inr ()") auto
    then show ?case
    proof cases
      case err
      then show ?thesis using step p ok by auto
    next
      case wait
      then show ?thesis using step p ok by (auto simp: Let_def writer_ok_def jobs_of_def split: if_splits)
    next
      case go
      show ?thesis
      proof (cases "length (plaintext (w_inner w1)) \<ge> MAX_SEGMENT_SIZE \<and> pending_flush (w_inner w1) = None")
        case True
        then show ?thesis using step p go 1(2)[OF p[symmetric] go refl refl refl _ True spawn_flush_segment_ok[OF ok]] by (auto simp: Let_def)
      next
        case False
        then show ?thesis using step p go ok by (auto simp: Let_def writer_ok_def jobs_of_def split: if_splits)
      qed
    qed
  qed
  then show "writer_ok (case r of Ready (Inr n) \<Rightarrow> d @ take n dat | _ \<Rightarrow> d) w'" "r = Ready (Inr n) \<Longrightarrow> dat \<noteq> [] \<Longrightarrow> 0 < n \<and> n \<le> length dat"
    by blast+
qed

section \<open>Runs of the writer\<close>

text \<open>
  The states a caller can bring a writer to, with the bytes it accepted so far: any number of writes, flushes, shutdowns and
  changes of the metadata, each of which may be ready, not ready or fail.
\<close>

inductive writes :: "World \<Rightarrow> bytes \<Rightarrow> World \<Rightarrow> bool" for w0 where
  start: "writes w0 [] w0"
| accept: "writes w0 d w \<Longrightarrow> poll_write_inner polls dat w = (Ready (Inr n), w') \<Longrightarrow> writes w0 (d @ take n dat) w'"
| refuse: "writes w0 d w \<Longrightarrow> poll_write_inner polls dat w = (r, w') \<Longrightarrow> \<nexists>n. r = Ready (Inr n) \<Longrightarrow> writes w0 d w'"
| flush: "writes w0 d w \<Longrightarrow> poll_flush polls w = (rf, w') \<Longrightarrow> writes w0 d w'"
| shutdown: "writes w0 d w \<Longrightarrow> poll_shutdown w = (rf, w') \<Longrightarrow> writes w0 d w'"
| meta: "writes w0 d w \<Longrightarrow> set_custom_metadata m w = (rm, w') \<Longrightarrow> writes w0 d w'"
| tag: "writes w0 d w \<Longrightarrow> set_etag t w = (rm, w') \<Longrightarrow> writes w0 d w'"

lemma writes_ok: "writes (new_upload ck cs bs part cksum) d w \<Longrightarrow> writer_ok d w"
proof (induction rule: writes.induct)
  case start
  show ?case by (simp add: writer_ok_def new_upload_def jobs_of_def full_segments_def)
next
  case (accept d w polls dat n w')
  then show ?case using poll_write_loop_ok(1)[OF accept.IH] by (fastforce simp: poll_write_inner_def split: if_splits prod.splits)
next
  case (refuse d w polls dat r w')
  obtain r1 ps w1 where l: "poll_write_loop polls dat w = (r1, ps, w1)" by (metis prod_cases3)
  show ?case using refuse.hyps(2,3) refuse.IH poll_write_loop_ok(1)[OF refuse.IH l] l
    by (cases r) (auto simp: poll_write_inner_def split: if_splits sum.splits)
next
  case (flush d w polls rf w')
  then show ?case using poll_pending_flush_ok[OF flush.IH] by (auto simp: poll_flush_def split: prod.splits poll.splits)
qed (auto simp: poll_shutdown_def set_custom_metadata_def set_etag_def writer_ok_def jobs_of_def split: sum.splits if_splits)

section \<open>Committing what was written\<close>

text \<open>The shape of a stored object: full segments with consecutive indexes, the last one possibly shorter.\<close>

definition segmented :: "int \<Rightarrow> bytes \<Rightarrow> SegmentJob list \<Rightarrow> bool" where
  "segmented part written segs \<longleftrightarrow> segs \<noteq> [] \<and> concat (map job_plain segs) = written \<and> map job_index segs = map int [0..<length segs] \<and>
    (\<forall>s \<in> set segs. job_part s = part) \<and> (\<forall>s \<in> set (butlast segs). length (job_plain s) = MAX_SEGMENT_SIZE) \<and>
    length (job_plain (last segs)) \<le> MAX_SEGMENT_SIZE"

lemma full_segments_length: "full_segments part segs \<Longrightarrow> length (concat (map job_plain segs)) = length segs * MAX_SEGMENT_SIZE"
  by (induction segs rule: rev_induct) (auto simp: full_segments_snoc)

lemma await_flush_ok:
  assumes "writer_ok d w" "failed (w_inner w) = None" "await_flush env w = (Inr u, w')"
  shows "writer_ok d w'" "failed (w_inner w') = None" "pending_flush (w_inner w') = None" "part_number (w_inner w') = part_number (w_inner w)"
    "w_aborted w' = w_aborted w"
proof -
  consider "pending_flush (w_inner w) = None" "w' = w" | job where "pending_flush (w_inner w) = Some job"
      "w' = apply_flush job (w\<lparr>w_inner := (w_inner w)\<lparr>pending_flush := None\<rparr>\<rparr>)"
    using assms(3) by (auto simp: await_flush_def Let_def split: option.splits sum.splits)
  then show "writer_ok d w'" "failed (w_inner w') = None" "pending_flush (w_inner w') = None" "part_number (w_inner w') = part_number (w_inner w)"
    "w_aborted w' = w_aborted w"
    by (cases; use assms(1,2) apply_flush_ok in \<open>auto simp: apply_flush_def Let_def\<close>)+
qed

lemma commit_last_ok:
  assumes "writer_ok d w" "failed (w_inner w) = None" "pending_flush (w_inner w) = None" "commit_last env t w = (Inr u, w')"
  shows "segmented (part_number (w_inner w)) d (w_stored w')" "next_segment (w_inner w') = int (length (w_stored w'))"
    "last_segment_plain (w_inner w') = int (length (job_plain (last (w_stored w'))))" "total_plain (w_inner w') = int (length d)"
    "w_aborted w' = w_aborted w" "w_published w' = w_published w" "plaintext (w_inner w') = []"
proof -
  have I: "full_segments (part_number (w_inner w)) (w_stored w)" "concat (map job_plain (w_stored w)) @ plaintext (w_inner w) = d"
    "length (plaintext (w_inner w)) \<le> MAX_SEGMENT_SIZE" "next_segment (w_inner w) = int (length (w_stored w))"
    "total_plain (w_inner w) = int (length (w_stored w) * MAX_SEGMENT_SIZE)"
    "last_segment_plain (w_inner w) = (if w_stored w = [] then 0 else int MAX_SEGMENT_SIZE)"
    using assms(1-3) by (auto simp: writer_ok_def jobs_of_def)
  have len: "length d = length (w_stored w) * MAX_SEGMENT_SIZE + length (plaintext (w_inner w))"
    using full_segments_length[OF I(1)] I(2) by (metis length_append)
  consider (last) "w_stored w' = w_stored w @ [segment_job (w_inner w) (plaintext (w_inner w)) t]"
      "w' = apply_flush (segment_job (w_inner w) (plaintext (w_inner w)) t) (w\<lparr>w_inner := (w_inner w)\<lparr>plaintext := []\<rparr>\<rparr>)"
    | (none) "w' = w" "plaintext (w_inner w) = []" "w_stored w \<noteq> []"
    using assms(4) I(4) by (auto simp: commit_last_def Let_def apply_flush_def split: if_splits sum.splits)
  then show "segmented (part_number (w_inner w)) d (w_stored w')" "next_segment (w_inner w') = int (length (w_stored w'))"
    "last_segment_plain (w_inner w') = int (length (job_plain (last (w_stored w'))))" "total_plain (w_inner w') = int (length d)"
    "w_aborted w' = w_aborted w" "w_published w' = w_published w" "plaintext (w_inner w') = []"
    by (cases; use I len in \<open>auto simp: segmented_def full_segments_def apply_flush_def segment_job_def Let_def dest: in_set_butlastD\<close>)+
qed

text \<open>What no operation changes.\<close>

definition same_upload :: "World \<Rightarrow> World \<Rightarrow> bool" where
  "same_upload w w' \<longleftrightarrow> cipher (w_inner w') = cipher (w_inner w) \<and> content_key (w_inner w') = content_key (w_inner w) \<and>
    block_size (w_inner w') = block_size (w_inner w) \<and> object_sum (w_inner w') = object_sum (w_inner w) \<and>
    part_number (w_inner w') = part_number (w_inner w) \<and> w_aborted w' = w_aborted w"

lemma same_upload_trans: "same_upload a b \<Longrightarrow> same_upload b c \<Longrightarrow> same_upload a c" and same_upload_refl: "same_upload w w"
  by (auto simp: same_upload_def)

lemma same_upload_ops:
  "poll_pending_flush polls w = (r, polls', w') \<Longrightarrow> same_upload w w'" "same_upload w (spawn_flush_segment w)"
  "await_flush env w = (ra, w') \<Longrightarrow> same_upload w w'" "commit_last env t w = (ra, w') \<Longrightarrow> same_upload w w'"
  by (auto simp: same_upload_def poll_pending_flush_def spawn_flush_segment_def await_flush_def commit_last_def apply_flush_def poison_def Let_def
      split: option.splits flush_poll.splits prod.splits if_splits sum.splits)

lemma same_upload_write: "poll_write_loop polls dat w = (r, polls', w') \<Longrightarrow> same_upload w w'"
proof (induction polls dat w rule: poll_write_loop.induct)
  case (1 polls dat w)
  obtain r1 ps w1 where p: "poll_pending_flush polls w = (r1, ps, w1)" by (metis prod_cases3)
  note s1 = same_upload_ops(1)[OF p]
  note step = 1(3)[unfolded poll_write_loop.simps[of polls dat w]]
  show ?case
  proof (cases "r1 = Ready (Inr ()) \<and> length (plaintext (w_inner w1)) \<ge> MAX_SEGMENT_SIZE \<and> pending_flush (w_inner w1) = None")
    case True
    then have "poll_write_loop ps dat (spawn_flush_segment w1) = (r, polls', w')" using step p by (auto simp: Let_def)
    from 1(2)[OF p[symmetric] _ refl refl refl _ _ this] True show ?thesis
      using s1 same_upload_ops(2) same_upload_trans by blast
  next
    case False
    then show ?thesis using step p s1 by (auto simp: Let_def same_upload_def split: poll.splits sum.splits if_splits)
  qed
qed

lemma writes_same: "writes w0 d w \<Longrightarrow> same_upload w0 w"
proof (induction rule: writes.induct)
  case (accept d w polls dat n w')
  then show ?case using same_upload_write same_upload_trans by (fastforce simp: poll_write_inner_def split: if_splits prod.splits)
next
  case (refuse d w polls dat r w')
  then show ?case using same_upload_write same_upload_trans by (fastforce simp: poll_write_inner_def split: if_splits prod.splits)
next
  case (flush d w polls rf w')
  then show ?case using same_upload_ops(1) same_upload_trans by (fastforce simp: poll_flush_def split: prod.splits poll.splits)
qed (auto simp: same_upload_def poll_shutdown_def set_custom_metadata_def set_etag_def split: sum.splits if_splits)

lemma commit_keeps_custom:
  "await_flush env w = (ra, w') \<Longrightarrow> custom (w_inner w') = custom (w_inner w)" "commit_last env t w = (ra, w') \<Longrightarrow> custom (w_inner w') = custom (w_inner w)"
  by (auto simp: await_flush_def commit_last_def apply_flush_def Let_def split: option.splits if_splits sum.splits)

section \<open>Properties\<close>

text \<open>
  C8: a committed object is exactly what its writer accepted, for any sequence of writes and flushes and any progress of the
  background task: its segments are stored with consecutive indexes, all but the last are full, their plaintexts
  concatenate to the accepted bytes, the announced length and the sealed stream information (segment size, size of the
  last segment, number of segments) agree with them, and the object is published and not aborted.
\<close>

theorem committed_object_is_what_was_written:
  assumes "writes (new_upload ck cs bs part cksum) d w"
    and "commit_upload show_enc show_up cr pb random_key random_nonce env w = (Inr obj, w')"
  shows "segmented part d (w_stored w') \<and> co_content_length obj = int (length d) \<and> w_published w' \<and> \<not> w_aborted w' \<and>
    encrypt_user_data cr pb random_key random_nonce (custom (w_inner w)) (int MAX_SEGMENT_SIZE) (int (length (job_plain (last (w_stored w')))))
      (int (length (w_stored w'))) cs ck bs cksum = Inr (co_user obj)"
proof -
  note ok = writes_ok[OF assms(1)]
  have same: "cipher (w_inner w) = cs" "content_key (w_inner w) = ck" "block_size (w_inner w) = bs" "object_sum (w_inner w) = cksum"
    "part_number (w_inner w) = part" "\<not> w_aborted w"
    using writes_same[OF assms(1)] by (auto simp: same_upload_def new_upload_def)
  have f: "failed (w_inner w) = None" using assms(2) by (auto simp: commit_upload_def failed_error_def split: option.splits)
  obtain r1 w1 where a: "await_flush env w = (r1, w1)" by (cases "await_flush env w")
  obtain r2 w2 where l: "commit_last env [] w1 = (r2, w2)" by (cases "commit_last env [] w1")
  have r: "r1 = Inr ()" "r2 = Inr ()" using assms(2) a l
    by (auto simp: commit_upload_def Let_def split: option.splits sum.splits)
  note ok1 = await_flush_ok[OF ok f a[unfolded r]]
  note ok2 = commit_last_ok[OF ok1(1-3) l[unfolded r]]
  have "w' = w2\<lparr>w_commit_sent := True, w_published := True\<rparr>" "co_content_length obj = total_plain (w_inner w2)"
    "encrypt_user_data cr pb random_key random_nonce (custom (w_inner w2)) (int MAX_SEGMENT_SIZE) (last_segment_plain (w_inner w2))
      (next_segment (w_inner w2)) (cipher (w_inner w2)) (content_key (w_inner w2)) (block_size (w_inner w2)) (object_sum (w_inner w2)) = Inr (co_user obj)"
    using assms(2) a l r by (auto simp: commit_upload_def Let_def split: option.splits sum.splits)
  then show ?thesis
    using ok2 ok1(4) same same_upload_ops(3)[OF a] same_upload_ops(4)[OF l] commit_keeps_custom(1)[OF a] commit_keeps_custom(2)[OF l]
    by (simp add: same_upload_def)
qed

text \<open>A call of the writer that reports an error, and what it leaves behind.\<close>

definition call_fails :: "World \<Rightarrow> IoError \<Rightarrow> World \<Rightarrow> bool" where
  "call_fails w i w' \<longleftrightarrow> (\<exists>polls dat. poll_write_inner polls dat w = (Ready (Inl i), w')) \<or> (\<exists>polls. poll_flush polls w = (Ready (Inl i), w'))"

lemma failed_flush_poisons:
  "poll_pending_flush polls w = (Ready (Inl e), ps, w') \<Longrightarrow> \<exists>msg. failed (w_inner w') = Some (pe_kind e, msg)"
  by (auto simp: poll_pending_flush_def failed_error_def poison_def apply_flush_def pe_new_def Let_def split: option.splits prod.splits flush_poll.splits)

lemma failed_write_poisons:
  "poll_write_loop polls dat w = (Ready (Inl i), ps, w') \<Longrightarrow> \<exists>e msg. i = to_io e \<and> failed (w_inner w') = Some (pe_kind e, msg)"
proof (induction polls dat w rule: poll_write_loop.induct)
  case (1 polls dat w)
  obtain r1 ps1 w1 where p: "poll_pending_flush polls w = (r1, ps1, w1)" by (metis prod_cases3)
  note step = 1(3)[unfolded poll_write_loop.simps[of polls dat w]]
  consider (err) e where "r1 = Ready (Inl e)" | (wait) "r1 = NotReady" | (go) "r1 = Ready (Inr ())"
    by (cases r1; cases "case r1 of Ready x \<Rightarrow> x | NotReady \<Rightarrow> Inr ()") auto
  then show ?case
  proof cases
    case err
    then show ?thesis using step p failed_flush_poisons[of polls w e ps1 w1] by auto
  next
    case wait
    then show ?thesis using step p 1(1)[OF p[symmetric]] by (auto simp: Let_def split: if_splits)
  next
    case go
    show ?thesis
    proof (cases "length (plaintext (w_inner w1)) \<ge> MAX_SEGMENT_SIZE \<and> pending_flush (w_inner w1) = None")
      case True
      then have "poll_write_loop ps1 dat (spawn_flush_segment w1) = (Ready (Inl i), ps, w')" using step p go by (auto simp: Let_def)
      from 1(2)[OF p[symmetric] go refl refl refl _ True this] go show ?thesis by blast
    next
      case False
      then show ?thesis using step p go by (auto simp: Let_def split: if_splits)
    qed
  qed
qed

lemma call_fails_poisons:
  assumes "call_fails w i w'"
  shows "\<exists>e msg. i = to_io e \<and> failed (w_inner w') = Some (pe_kind e, msg)"
  using assms failed_write_poisons failed_flush_poisons unfolding call_fails_def poll_write_inner_def poll_flush_def
  by (fastforce simp: map_err_def split: if_splits prod.splits poll.splits sum.splits)

lemma poisoned_calls:
  assumes "failed (w_inner w) = Some (k, msg)"
  defines "e \<equiv> pe_new k (''upload failed earlier: '' @ msg)"
  shows "poll_pending_flush polls w = (Ready (Inl e), polls, w)" "dat \<noteq> [] \<Longrightarrow> poll_write_inner polls dat w = (Ready (Inl (to_io e)), w)"
    "poll_flush polls w = (Ready (Inl (to_io e)), w)" "commit_part env w = (Inl e, w)"
    "commit_upload show_enc show_up cr pb random_key random_nonce env w = (Inl e, abort_upload w)"
proof -
  have f: "failed_error (w_inner w) = Some e" using assms by (simp add: failed_error_def)
  then show p: "poll_pending_flush polls w = (Ready (Inl e), polls, w)" for polls by (simp add: poll_pending_flush_def)
  show "poll_write_inner polls dat w = (Ready (Inl (to_io e)), w)" if "dat \<noteq> []"
    using that by (simp add: poll_write_inner_def poll_write_loop.simps p)
  show "poll_flush polls w = (Ready (Inl (to_io e)), w)" by (simp add: poll_flush_def p)
  show "commit_part env w = (Inl e, w)" "commit_upload show_enc show_up cr pb random_key random_nonce env w = (Inl e, abort_upload w)"
    using f by (simp_all add: commit_part_def commit_upload_def)
qed

lemma poisoned_stays:
  assumes "writes w0 d w" "failed (w_inner w0) = Some (k, msg)"
  shows "d = [] \<and> failed (w_inner w) = Some (k, msg) \<and> w_commit_sent w = w_commit_sent w0"
  using assms
proof (induction rule: writes.induct)
  case (accept d w polls dat n w')
  then show ?case using poisoned_calls(2)[of w k msg dat polls] by (cases "dat = []") (auto simp: poll_write_inner_def)
next
  case (refuse d w polls dat r w')
  then show ?case using poisoned_calls(2)[of w k msg dat polls] by (cases "dat = []") (auto simp: poll_write_inner_def)
next
  case (flush d w polls rf w')
  then show ?case using poisoned_calls(3)[of w k msg polls] by auto
qed (auto simp: poll_shutdown_def set_custom_metadata_def set_etag_def split: sum.splits if_splits)

lemma commit_sent_ops:
  "poll_pending_flush polls w = (r, polls', w') \<Longrightarrow> w_commit_sent w' = w_commit_sent w" "w_commit_sent (spawn_flush_segment w) = w_commit_sent w"
  "await_flush env w = (ra, w') \<Longrightarrow> w_commit_sent w' = w_commit_sent w" "commit_last env t w = (ra, w') \<Longrightarrow> w_commit_sent w' = w_commit_sent w"
  "await_flush env w = (ra, w') \<Longrightarrow> w_published w' = w_published w" "commit_last env t w = (ra, w') \<Longrightarrow> w_published w' = w_published w"
  by (auto simp: poll_pending_flush_def spawn_flush_segment_def await_flush_def commit_last_def apply_flush_def Let_def
      split: option.splits flush_poll.splits prod.splits if_splits sum.splits)

lemma commit_sent_write: "poll_write_loop polls dat w = (r, polls', w') \<Longrightarrow> w_commit_sent w' = w_commit_sent w"
proof (induction polls dat w rule: poll_write_loop.induct)
  case (1 polls dat w)
  obtain r1 ps w1 where p: "poll_pending_flush polls w = (r1, ps, w1)" by (metis prod_cases3)
  note s1 = commit_sent_ops(1)[OF p]
  note step = 1(3)[unfolded poll_write_loop.simps[of polls dat w]]
  show ?case
  proof (cases "r1 = Ready (Inr ()) \<and> length (plaintext (w_inner w1)) \<ge> MAX_SEGMENT_SIZE \<and> pending_flush (w_inner w1) = None")
    case True
    then have "poll_write_loop ps dat (spawn_flush_segment w1) = (r, polls', w')" using step p by (auto simp: Let_def)
    from 1(2)[OF p[symmetric] _ refl refl refl _ _ this] True show ?thesis using s1 commit_sent_ops(2) by simp
  next
    case False
    then show ?thesis using step p s1 by (auto simp: Let_def split: poll.splits sum.splits if_splits)
  qed
qed

lemma commit_not_sent: "writes w0 d w \<Longrightarrow> \<not> w_commit_sent w0 \<Longrightarrow> \<not> w_commit_sent w"
proof (induction rule: writes.induct)
  case (accept d w polls dat n w')
  then show ?case using commit_sent_write by (fastforce simp: poll_write_inner_def split: if_splits prod.splits)
next
  case (refuse d w polls dat r w')
  then show ?case using commit_sent_write by (fastforce simp: poll_write_inner_def split: if_splits prod.splits)
next
  case (flush d w polls rf w')
  then show ?case using commit_sent_ops(1) by (fastforce simp: poll_flush_def split: prod.splits poll.splits)
qed (auto simp: poll_shutdown_def set_custom_metadata_def set_etag_def split: sum.splits if_splits)

text \<open>
  C9: when a write or a flush of a new upload has reported an error (a background segment failed or was cancelled), then whatever
  is called afterwards: no byte is accepted any more; every write of at least one byte, every flush and every commit of the object or part fails with an
  error of the same kind; and \<open>CommitObject\<close> is never sent, but the deletion of the pending object is requested by the commit.
\<close>

theorem failed_upload_is_never_published:
  assumes "writes (new_upload ck cs bs part cksum) d w" and "call_fails w i w1" and "writes w1 d' w2"
  shows "d' = [] \<and> \<not> w_commit_sent w2 \<and>
    (\<exists>e. pe_kind e = pe_kind (from_io i) \<and>
      (\<forall>polls dat. dat \<noteq> [] \<longrightarrow> poll_write_inner polls dat w2 = (Ready (Inl (to_io e)), w2)) \<and>
      (\<forall>polls. poll_flush polls w2 = (Ready (Inl (to_io e)), w2)) \<and> commit_part env w2 = (Inl e, w2) \<and>
      (\<exists>w3. commit_upload show_enc show_up cr pb random_key random_nonce env w2 = (Inl e, w3) \<and> w_aborted w3 \<and> \<not> w_commit_sent w3))"
proof -
  obtain e msg where e: "i = to_io e" "failed (w_inner w1) = Some (pe_kind e, msg)" using call_fails_poisons[OF assms(2)] by blast
  have "from_io i = e" by (simp add: e(1) from_io_def to_io_def)
  have "writes (new_upload ck cs bs part cksum) d w1 \<or> (\<exists>n. writes (new_upload ck cs bs part cksum) n w1)"
    using assms(1,2) by (auto simp: call_fails_def intro: writes.refuse writes.flush)
  then have ns: "\<not> w_commit_sent w1" using commit_not_sent by (auto simp: new_upload_def)
  note p = poisoned_stays[OF assms(3) e(2)]
  let ?e = "pe_new (pe_kind e) (''upload failed earlier: '' @ msg)"
  note c = poisoned_calls[of w2 "pe_kind e" msg, OF conjunct1[OF conjunct2[OF p]]]
  show ?thesis
    using p ns c \<open>from_io i = e\<close> by (intro conjI exI[of _ ?e] exI[of _ "abort_upload w2"]) (auto simp: pe_new_def abort_upload_def)
qed

text \<open>
  C10: a commit that fails, for whatever reason, requests the deletion of the pending object and is never confirmed; and \<open>CommitObject\<close> is sent
  only when every segment is stored and together they are exactly what was written, so that the only error after it is the satellite's answer.
\<close>

theorem failed_commit_gives_up:
  assumes "writes (new_upload ck cs bs part cksum) d w"
    and "commit_upload show_enc show_up cr pb random_key random_nonce env w = (Inl e, w')"
  shows "w_aborted w' \<and> \<not> w_published w' \<and> (w_commit_sent w' \<longrightarrow> ce_commit env = Inl e \<and> segmented part d (w_stored w'))"
proof -
  have np: "\<not> w_published w" "\<not> w_commit_sent w"
    using writes_ok[OF assms(1)] commit_not_sent[OF assms(1)] by (auto simp: writer_ok_def new_upload_def)
  have part: "part_number (w_inner w) = part" using writes_same[OF assms(1)] by (simp add: same_upload_def new_upload_def)
  obtain r1 w1 where a: "await_flush env w = (r1, w1)" by (cases "await_flush env w")
  obtain r2 w2 where l: "commit_last env [] w1 = (r2, w2)" by (cases "commit_last env [] w1")
  have s: "\<not> w_commit_sent w1" "\<not> w_commit_sent w2" "\<not> w_published w1" "\<not> w_published w2"
    using np commit_sent_ops(3,5)[OF a] commit_sent_ops(4,6)[OF l] by auto
  show ?thesis
  proof (cases "failed (w_inner w) = None \<and> r1 = Inr () \<and> r2 = Inr ()")
    case True
    note ok1 = await_flush_ok[OF writes_ok[OF assms(1)] _ a[unfolded True[THEN conjunct2, THEN conjunct1]]]
    have "segmented part d (w_stored w2)"
      using commit_last_ok(1)[OF ok1(1-3), of env "[]"] l True ok1(4) part by simp
    then show ?thesis using assms(2) True np s a l
      by (auto simp: commit_upload_def failed_error_def Let_def split: option.splits sum.splits)
  next
    case False
    then show ?thesis using assms(2) np s a l
      by (auto simp: commit_upload_def failed_error_def abort_upload_def Let_def split: option.splits sum.splits prod.splits)
  qed
qed

text \<open>An upload of three bytes in two writes.\<close>

definition sample_world :: World where
  "sample_world = new_upload [] NULL 7424 0 None"

definition sample_env :: CommitEnv where
  "sample_env = \<lparr>ce_flush = Inr (), ce_last = Inr (), ce_commit = Inr ()\<rparr>"

lemma sample_writes: "writes sample_world [1, 2, 3] (sample_world\<lparr>w_inner := (w_inner sample_world)\<lparr>plaintext := [1, 2, 3]\<rparr>\<rparr>)"
proof -
  have w: "poll_write_inner [] dat (sample_world\<lparr>w_inner := (w_inner sample_world)\<lparr>plaintext := d\<rparr>\<rparr>) =
      (Ready (Inr (length dat)), sample_world\<lparr>w_inner := (w_inner sample_world)\<lparr>plaintext := d @ dat\<rparr>\<rparr>)" if "length (d @ dat) \<le> 3" for d dat
    using that by (auto simp: poll_write_inner_def poll_write_loop.simps poll_pending_flush_def failed_error_def sample_world_def new_upload_def
        MAX_SEGMENT_SIZE_def Let_def)
  have "writes sample_world [] (sample_world\<lparr>w_inner := (w_inner sample_world)\<lparr>plaintext := []\<rparr>\<rparr>)"
    using writes.start[of sample_world] by (simp add: sample_world_def new_upload_def)
  from writes.accept[OF this w[of "[]" "[1, 2]"]] have "writes sample_world [1, 2] (sample_world\<lparr>w_inner := (w_inner sample_world)\<lparr>plaintext := [1, 2]\<rparr>\<rparr>)"
    by simp
  from writes.accept[OF this w[of "[1, 2]" "[3]"]] show ?thesis by simp
qed

lemma null_user_data: "\<exists>ud. encrypt_user_data cr pb k n c ss ls sg NULL ck b None = Inr ud"
  by (simp add: encrypt_user_data_def encrypt_key_def encrypt_def Let_def)

lemma sample_commit:
  "\<exists>ud. commit_upload (\<lambda>_. []) (\<lambda>_. []) cr pb [] [] (sample_env\<lparr>ce_commit := r\<rparr>)
      (sample_world\<lparr>w_inner := (w_inner sample_world)\<lparr>plaintext := [1, 2, 3]\<rparr>\<rparr>) =
    (let w = apply_flush (segment_job (w_inner sample_world) [1, 2, 3] []) sample_world
     in case r of Inl e \<Rightarrow> (Inl e, w\<lparr>w_commit_sent := True, w_aborted := True\<rparr>)
        | Inr _ \<Rightarrow> (Inr \<lparr>co_user = ud, co_content_length = 3, co_custom = []\<rparr>, w\<lparr>w_commit_sent := True, w_published := True\<rparr>))"
proof -
  obtain ud where ud: "encrypt_user_data cr pb [] [] [] (int MAX_SEGMENT_SIZE) 3 1 NULL [] 7424 None = Inr ud" using null_user_data by blast
  show ?thesis
    by (rule exI[of _ ud]) (simp add: commit_upload_def sample_world_def new_upload_def failed_error_def verify_custom_metadata_def await_flush_def
        commit_last_def sample_env_def apply_flush_def segment_job_def Let_def ud split: sum.split)
qed

theorem committed_object_is_what_was_written_witness:
  "\<exists>obj w'. commit_upload (\<lambda>_. []) (\<lambda>_. []) toy_crypto toy_user_pb [] [] sample_env
      (sample_world\<lparr>w_inner := (w_inner sample_world)\<lparr>plaintext := [1, 2, 3]\<rparr>\<rparr>) = (Inr obj, w') \<and> segmented 0 [1, 2, 3] (w_stored w') \<and>
    co_content_length obj = 3 \<and> w_published w'"
proof -
  obtain obj w' where c: "commit_upload (\<lambda>_. []) (\<lambda>_. []) toy_crypto toy_user_pb [] [] sample_env
      (sample_world\<lparr>w_inner := (w_inner sample_world)\<lparr>plaintext := [1, 2, 3]\<rparr>\<rparr>) = (Inr obj, w')"
    using sample_commit[of toy_crypto toy_user_pb "Inr ()"] by (auto simp: sample_env_def Let_def)
  show ?thesis using committed_object_is_what_was_written[OF sample_writes[unfolded sample_world_def] c[unfolded sample_world_def]] c
    by (auto simp: sample_world_def)
qed

text \<open>A full segment whose task fails: the writer takes 64 MiB, starts the task on the next write and finds that it failed.\<close>

theorem failed_upload_is_never_published_witness:
  "\<exists>w w1 w3 e. writes sample_world (replicate MAX_SEGMENT_SIZE 0) w \<and> call_fails w (to_io (pe_new IoKind [])) w1 \<and>
    commit_upload (\<lambda>_. []) (\<lambda>_. []) toy_crypto toy_user_pb [] [] sample_env w1 = (Inl e, w3) \<and> pe_kind e = IoKind \<and> w_aborted w3 \<and> \<not> w_commit_sent w3"
proof -
  let ?full = "replicate MAX_SEGMENT_SIZE 0 :: bytes"
  let ?w = "sample_world\<lparr>w_inner := (w_inner sample_world)\<lparr>plaintext := ?full\<rparr>\<rparr>"
  have max: "0 < MAX_SEGMENT_SIZE" by (simp add: MAX_SEGMENT_SIZE_def)
  have "poll_write_inner [] ?full sample_world = (Ready (Inr MAX_SEGMENT_SIZE), ?w)"
    using max by (simp add: poll_write_inner_def poll_write_loop.simps poll_pending_flush_def failed_error_def sample_world_def new_upload_def Let_def)
  from writes.accept[OF writes.start this] have w: "writes sample_world ?full ?w" by simp
  have s: "pending_flush (w_inner (spawn_flush_segment ?w)) = Some (segment_job (w_inner ?w) ?full [])" "failed (w_inner (spawn_flush_segment ?w)) = None"
    by (simp_all add: spawn_flush_segment_def sample_world_def new_upload_def Let_def)
  have loop: "poll_write_loop [FlushFailed (pe_new IoKind [])] [1] ?w = poll_write_loop [FlushFailed (pe_new IoKind [])] [1] (spawn_flush_segment ?w)"
    using max by (subst poll_write_loop.simps) (simp add: poll_pending_flush_def failed_error_def sample_world_def new_upload_def Let_def)
  have "\<exists>ps w1. poll_write_loop [FlushFailed (pe_new IoKind [])] [1] (spawn_flush_segment ?w) = (Ready (Inl (to_io (pe_new IoKind []))), ps, w1)"
    by (subst poll_write_loop.simps) (simp add: poll_pending_flush_def failed_error_def s take_poll_def Let_def)
  then obtain w1 where "poll_write_inner [FlushFailed (pe_new IoKind [])] [1] ?w = (Ready (Inl (to_io (pe_new IoKind []))), w1)"
    using loop by (auto simp: poll_write_inner_def)
  then have f: "call_fails ?w (to_io (pe_new IoKind [])) w1" unfolding call_fails_def by blast
  have k: "pe_kind (from_io (to_io (pe_new IoKind []))) = IoKind" by (simp add: from_io_def to_io_def pe_new_def)
  from failed_upload_is_never_published[OF w[unfolded sample_world_def] f[unfolded sample_world_def] writes.start,
      of sample_env "\<lambda>_. []" "\<lambda>_. []" toy_crypto toy_user_pb "[]" "[]"] show ?thesis
    using w f k by metis
qed

text \<open>The satellite refuses to commit an upload.\<close>

theorem failed_commit_gives_up_witness:
  "\<exists>e w'. commit_upload (\<lambda>_. []) (\<lambda>_. []) toy_crypto toy_user_pb [] [] (sample_env\<lparr>ce_commit := Inl from_cancelled\<rparr>)
      (sample_world\<lparr>w_inner := (w_inner sample_world)\<lparr>plaintext := [1, 2, 3]\<rparr>\<rparr>) = (Inl e, w') \<and> w_commit_sent w' \<and> w_aborted w' \<and>
    segmented 0 [1, 2, 3] (w_stored w')"
proof -
  obtain e w' where c: "commit_upload (\<lambda>_. []) (\<lambda>_. []) toy_crypto toy_user_pb [] [] (sample_env\<lparr>ce_commit := Inl from_cancelled\<rparr>)
      (sample_world\<lparr>w_inner := (w_inner sample_world)\<lparr>plaintext := [1, 2, 3]\<rparr>\<rparr>) = (Inl e, w')" "w_commit_sent w'"
    using sample_commit[of toy_crypto toy_user_pb "Inl from_cancelled"] by (auto simp: Let_def)
  show ?thesis using failed_commit_gives_up[OF sample_writes[unfolded sample_world_def] c(1)[unfolded sample_world_def]] c unfolding sample_world_def by blast
qed

text \<open>
  The error that a poisoned upload returns later is built from the kind and the text of the first one.  Its retry decision is
  lost: an encryption error of the segment, which is permanent, turns into one that may be retried.  And \<open>poll_shutdown\<close>
  succeeds on a poisoned upload, unlike what the comment on the \<open>failed\<close> field says.
\<close>

lemma sticky_error_forgets_retry_decision:
  assumes "failed u = None"
  shows "\<not> pe_is_retryable (map_enc show_enc InvalidConfig) \<and>
    (\<exists>e. failed_error (poison (map_enc show_enc InvalidConfig) u) = Some e \<and> pe_is_retryable e)"
  using assms by (simp add: failed_error_def poison_def map_enc_def pe_is_retryable_def with_source_def with_retryable_def pe_new_def Let_def)

lemma shutdown_ignores_failure: "poll_shutdown w = (Ready (Inr ()), w)"
  by (simp add: poll_shutdown_def)

end
