(* ===== verification/Object_Types.thy ===== *)
theory Object_Types
  imports Public_Error Utf8 Path_Components
begin

text \<open>
  The value types of the public API and their conversions: \<open>crates/storj/src/types.rs\<close> (options with their checks, checksums,
  configuration defaults), the conversions of \<open>crates/storj/src/bucket.rs\<close> and \<open>crates/storj/src/object_lock.rs\<close>, and
  \<open>object_from_proto\<close> of \<open>crates/storj/src/metainfo.rs\<close>.  A \<open>SystemTime\<close> is its distance from the epoch in nanoseconds; a
  \<open>Duration\<close> is a number of nanoseconds.

  Shown: times, retention settings and lock configurations survive the wire exactly when they are representable there.
\<close>

section \<open>The code\<close>

subsection \<open>Times\<close>

type_synonym SystemTime = int

definition NANOS :: int where "NANOS = 1000000000"

text \<open>\<open>UNIX_EPOCH.checked_add\<close> fails when the seconds do not fit 64 bits.\<close>

definition proto_timestamp :: "PbTimestamp option \<Rightarrow> SystemTime" where
  "proto_timestamp ts =
    (case ts of
       Some t \<Rightarrow>
         if ts_seconds t \<ge> 0 \<and> ts_nanos t \<ge> 0 then
           (let secs = ts_seconds t; nanos = min (ts_nanos t) 999999999
            in if secs > i64_max then 0 else secs * NANOS + nanos)
         else 0
     | None \<Rightarrow> 0)"

definition timestamp_from_system :: "SystemTime \<Rightarrow> PbTimestamp" where
  "timestamp_from_system t = (let d = max t 0 in \<lparr>ts_seconds = d div NANOS, ts_nanos = d mod NANOS\<rparr>)"

subsection \<open>Buckets and objects\<close>

record Bucket =
  bk_name :: bytes
  bk_created :: SystemTime

record SystemMetadata =
  sm_created :: "SystemTime option"
  sm_expires :: "SystemTime option"
  sm_content_length :: int

definition default_system :: SystemMetadata where
  "default_system = \<lparr>sm_created = None, sm_expires = None, sm_content_length = 0\<rparr>"

record Object =
  ob_key :: bytes
  ob_is_prefix :: bool
  ob_version :: bytes
  ob_system :: SystemMetadata
  ob_custom :: "(bytes \<times> bytes) list"

definition require_bucket_name :: "bytes \<Rightarrow> PublicError + unit" where
  "require_bucket_name name = (if name = [] then Inl (pe_new BucketNameInvalid ''bucket name invalid'') else Inr ())"

definition require_object_key :: "bytes \<Rightarrow> PublicError + unit" where
  "require_object_key k = (if k = [] then Inl (pe_new ObjectKeyInvalid ''object key invalid'') else Inr ())"

record PbBucket =
  pbk_name :: bytes
  pbk_created_at :: "PbTimestamp option"

definition bucket_from_list_item :: "PbBucket \<Rightarrow> PublicError + Bucket" where
  "bucket_from_list_item item =
    try_bind (ok_or (pe_new ProtocolKind ''bucket name is not utf-8'') (from_utf8 (pbk_name item))) (\<lambda>name.
      Inr \<lparr>bk_name = name, bk_created = proto_timestamp (pbk_created_at item)\<rparr>)"

definition bucket_from_proto :: "PbBucket option \<Rightarrow> bytes \<Rightarrow> PublicError + Bucket" where
  "bucket_from_proto pb fallback_name =
    (case pb of
       None \<Rightarrow> Inl (pe_new ProtocolKind ''satellite returned no bucket'')
     | Some pb \<Rightarrow>
       try_bind (if pbk_name pb = [] then Inr fallback_name
                 else ok_or (pe_new ProtocolKind ''bucket name is not utf-8'') (from_utf8 (pbk_name pb))) (\<lambda>name.
         Inr \<lparr>bk_name = name, bk_created = proto_timestamp (pbk_created_at pb)\<rparr>))"

text \<open>The fields of the satellite's \<open>Object\<close> message that the client reads.\<close>

record PbObject =
  po_bucket :: bytes
  po_status :: int
  po_version :: bytes
  po_stream_id :: bytes
  po_created_at :: "PbTimestamp option"
  po_expires_at :: "PbTimestamp option"
  po_plain_size :: int
  po_encrypted_metadata :: bytes
  po_encrypted_metadata_encrypted_key :: bytes
  po_encrypted_metadata_nonce :: bytes
  po_encryption_parameters :: "(int \<times> int) option"
  po_checksum_algorithm :: int
  po_is_checksum_composite :: bool
  po_encrypted_checksum :: bytes

definition object_from_proto :: "PbObject option \<Rightarrow> bytes \<Rightarrow> Object" where
  "object_from_proto pb plaintext_key =
    (let (created, expires, content_length, version) =
       (case pb of
          Some p \<Rightarrow> (map_option (\<lambda>t. proto_timestamp (Some t)) (po_created_at p), map_option (\<lambda>t. proto_timestamp (Some t)) (po_expires_at p),
                     po_plain_size p, po_version p)
        | None \<Rightarrow> (None, None, 0, []))
     in \<lparr>ob_key = plaintext_key, ob_is_prefix = False, ob_version = version,
         ob_system = \<lparr>sm_created = created, sm_expires = expires, sm_content_length = content_length\<rparr>, ob_custom = []\<rparr>)"

subsection \<open>Creating a bucket\<close>

text \<open>
  An error together with the bucket it carries (\<open>Error::bucket\<close>).  The answers of the satellite are arguments: to
  \<open>CreateBucket\<close>, to the \<open>GetBucket\<close> that follows a refusal, and to a later \<open>GetBucket\<close>.
\<close>

definition create_bucket_with :: "PublicError + Bucket \<Rightarrow> PublicError + Bucket \<Rightarrow> bytes \<Rightarrow> (PublicError \<times> Bucket option) + Bucket" where
  "create_bucket_with created existing name =
    (case require_bucket_name name of
       Inl e \<Rightarrow> Inl (e, None)
     | Inr _ \<Rightarrow>
       (case created of
          Inr b \<Rightarrow> Inr b
        | Inl e \<Rightarrow>
          if pe_kind e = BucketAlreadyExists then
            (case existing of Inr b \<Rightarrow> Inl (e, Some b) | Inl stat_err \<Rightarrow> Inl (e, None))
          else Inl (e, None)))"

definition stat_bucket :: "PublicError + Bucket \<Rightarrow> bytes \<Rightarrow> PublicError + Bucket" where
  "stat_bucket answer name = try_bind (require_bucket_name name) (\<lambda>_. answer)"

definition ensure_bucket :: "PublicError + Bucket \<Rightarrow> PublicError + Bucket \<Rightarrow> PublicError + Bucket \<Rightarrow> bytes \<Rightarrow> PublicError + Bucket" where
  "ensure_bucket created existing later name =
    (case create_bucket_with created existing name of
       Inr b \<Rightarrow> Inr b
     | Inl (e, bucket) \<Rightarrow>
       if pe_kind e = BucketAlreadyExists then (case bucket of Some b \<Rightarrow> Inr b | None \<Rightarrow> stat_bucket later name)
       else Inl e)"

subsection \<open>Options\<close>

definition ends_with_slash :: "bytes \<Rightarrow> bool" where
  "ends_with_slash v \<longleftrightarrow> v \<noteq> [] \<and> last v = slash"

definition require_trailing_slash_if_nonempty :: "bytes \<Rightarrow> PublicError + unit" where
  "require_trailing_slash_if_nonempty v =
    (if v \<noteq> [] \<and> \<not> ends_with_slash v then Inl (pe_new ObjectKeyInvalid ''prefix must end with slash'') else Inr ())"

definition require_encryption_prefix :: "bytes \<Rightarrow> PublicError + unit" where
  "require_encryption_prefix prefix =
    (if prefix = [] \<or> \<not> ends_with_slash prefix then Inl (pe_new ObjectKeyInvalid ''prefix must end with slash'') else Inr ())"

record DownloadOptions =
  do_offset :: int
  do_length :: int
  do_version :: bytes

definition default_download :: DownloadOptions where
  "default_download = \<lparr>do_offset = 0, do_length = -1, do_version = []\<rparr>"

definition download_validate :: "DownloadOptions \<Rightarrow> PublicError + unit" where
  "download_validate opts =
    (if do_offset opts < 0 \<and> do_length opts \<ge> 0 then Inl (pe_new ObjectKeyInvalid ''suffix requires length to be negative'') else Inr ())"

record ListObjectsOptions =
  lo_prefix :: bytes
  lo_cursor :: bytes
  lo_recursive :: bool
  lo_system :: bool
  lo_custom :: bool

definition list_validate :: "ListObjectsOptions \<Rightarrow> PublicError + unit" where
  "list_validate opts = require_trailing_slash_if_nonempty (lo_prefix opts)"

subsection \<open>Checksums\<close>

datatype ObjectChecksumAlgorithm = NoChecksum | Crc32 | Crc32c | Crc64Nvme | Sha1 | Sha256

fun checksum_to_proto :: "ObjectChecksumAlgorithm \<Rightarrow> int" where
  "checksum_to_proto NoChecksum = 0"
| "checksum_to_proto Crc32 = 1"
| "checksum_to_proto Crc32c = 2"
| "checksum_to_proto Crc64Nvme = 3"
| "checksum_to_proto Sha1 = 4"
| "checksum_to_proto Sha256 = 5"

definition checksum_from_proto :: "int \<Rightarrow> ObjectChecksumAlgorithm" where
  "checksum_from_proto v =
    (if v = 1 then Crc32 else if v = 2 then Crc32c else if v = 3 then Crc64Nvme else if v = 4 then Sha1 else if v = 5 then Sha256 else NoChecksum)"

record ObjectChecksum =
  oc_algorithm :: ObjectChecksumAlgorithm
  oc_composite :: bool
  oc_value :: bytes

definition checksum_validate :: "ObjectChecksum \<Rightarrow> bool \<Rightarrow> PublicError + unit" where
  "checksum_validate cs require_value =
    (if oc_algorithm cs = NoChecksum then
       (if oc_composite cs then Inl (pe_new MetadataInvalid ''checksum composite flag requires a checksum algorithm'')
        else if oc_value cs \<noteq> [] then Inl (pe_new MetadataInvalid ''checksum value requires a checksum algorithm'')
        else Inr ())
     else if require_value \<and> oc_value cs = [] then Inl (pe_new MetadataInvalid ''checksum value is required when a checksum algorithm is set'')
     else Inr ())"

definition checksum_plaintext :: "ObjectChecksum option \<Rightarrow> bytes option" where
  "checksum_plaintext cs = Option.bind cs (\<lambda>cs. if oc_algorithm cs \<noteq> NoChecksum then Some (oc_value cs) else None)"

definition checksum_header :: "ObjectChecksum option \<Rightarrow> int \<times> bool" where
  "checksum_header cs = (case cs of Some cs \<Rightarrow> (checksum_to_proto (oc_algorithm cs), oc_composite cs) | None \<Rightarrow> (0, False))"

subsection \<open>Object lock\<close>

datatype RetentionMode = Governance | Compliance

record Retention =
  rt_mode :: RetentionMode
  rt_retain_until :: SystemTime

record DefaultRetention =
  dr_mode :: RetentionMode
  dr_days :: int
  dr_years :: int

record LockConfig =
  lc_enabled :: bool
  lc_default_retention :: "DefaultRetention option"

datatype LockDuration = Days int | Years int

type_synonym PbRetention = "int \<times> PbTimestamp option"
type_synonym PbDefaultRetention = "int \<times> LockDuration option"
type_synonym PbLockConfig = "bool \<times> PbDefaultRetention option"

fun retention_mode_to_proto :: "RetentionMode \<Rightarrow> int" where
  "retention_mode_to_proto Compliance = 1"
| "retention_mode_to_proto Governance = 2"

definition retention_mode_from_proto :: "int \<Rightarrow> PublicError + RetentionMode" where
  "retention_mode_from_proto m =
    (if m = 1 then Inr Compliance else if m = 2 then Inr Governance else Inl (pe_new ProtocolKind ''invalid retention mode''))"

definition retention_to_proto :: "Retention \<Rightarrow> PbRetention" where
  "retention_to_proto r = (retention_mode_to_proto (rt_mode r), Some (timestamp_from_system (rt_retain_until r)))"

definition retention_from_proto :: "PbRetention \<Rightarrow> PublicError + Retention" where
  "retention_from_proto = (\<lambda>(mode, until).
    try_bind (retention_mode_from_proto mode) (\<lambda>mode. Inr \<lparr>rt_mode = mode, rt_retain_until = proto_timestamp until\<rparr>))"

definition default_retention_to_proto :: "DefaultRetention \<Rightarrow> PbDefaultRetention" where
  "default_retention_to_proto d =
    (retention_mode_to_proto (dr_mode d),
     if dr_days d > 0 then Some (Days (dr_days d)) else if dr_years d > 0 then Some (Years (dr_years d)) else None)"

definition default_retention_from_proto :: "PbDefaultRetention \<Rightarrow> PublicError + DefaultRetention" where
  "default_retention_from_proto = (\<lambda>(mode, duration).
    (let (days, years) = (case duration of Some (Days n) \<Rightarrow> (n, 0) | Some (Years n) \<Rightarrow> (0, n) | None \<Rightarrow> (0, 0))
     in try_bind (retention_mode_from_proto mode) (\<lambda>mode. Inr \<lparr>dr_mode = mode, dr_days = days, dr_years = years\<rparr>)))"

definition lock_config_to_proto :: "LockConfig \<Rightarrow> PbLockConfig" where
  "lock_config_to_proto cfg = (lc_enabled cfg, map_option default_retention_to_proto (lc_default_retention cfg))"

definition lock_config_from_proto :: "PbLockConfig \<Rightarrow> PublicError + LockConfig" where
  "lock_config_from_proto = (\<lambda>(enabled, retention).
    (case retention of
       None \<Rightarrow> Inr \<lparr>lc_enabled = enabled, lc_default_retention = None\<rparr>
     | Some r \<Rightarrow> try_bind (default_retention_from_proto r) (\<lambda>r. Inr \<lparr>lc_enabled = enabled, lc_default_retention = Some r\<rparr>)))"

text \<open>The check before \<open>SetBucketObjectLockConfiguration\<close>, then the message that is sent.\<close>

definition set_lock_configuration :: "bytes \<Rightarrow> LockConfig \<Rightarrow> PublicError + PbLockConfig" where
  "set_lock_configuration bucket cfg =
    try_bind (require_bucket_name bucket) (\<lambda>_.
      case lc_default_retention cfg of
        Some d \<Rightarrow> if dr_days d > 0 \<and> dr_years d > 0 then Inl (pe_new ProtocolKind ''bucket object lock configuration is invalid'')
                  else Inr (lock_config_to_proto cfg)
      | None \<Rightarrow> Inr (lock_config_to_proto cfg))"

definition map_enc_err :: "(ErrorKind \<Rightarrow> string) \<Rightarrow> ErrorKind \<Rightarrow> PublicError" where
  "map_enc_err show_enc e =
    (let k = (case e of DecryptionFailed \<Rightarrow> DecryptionFailedKind
                 | MissingEncryptionBase \<Rightarrow> InvalidGrant | MissingDecryptionBase \<Rightarrow> InvalidGrant | _ \<Rightarrow> ProtocolKind)
     in with_source (pe_new k (show_enc e)) (EncryptionSource e))"

subsection \<open>Configuration\<close>

record UplinkConfig =
  cf_dial_timeout :: "nat option"
  cf_message_timeout :: "nat option"
  cf_download_hedge_delay :: "nat option"
  cf_concurrent_segments :: "nat option"

definition SECOND :: nat where "SECOND = 1000000000"

definition or_default :: "nat \<Rightarrow> nat option \<Rightarrow> nat" where
  "or_default d v = (case v of None \<Rightarrow> d | Some n \<Rightarrow> if n = 0 then d else n)"

definition dial_timeout_or_default :: "UplinkConfig \<Rightarrow> nat" where
  "dial_timeout_or_default c = or_default (20 * SECOND) (cf_dial_timeout c)"

definition message_timeout_or_default :: "UplinkConfig \<Rightarrow> nat" where
  "message_timeout_or_default c = or_default (600 * SECOND) (cf_message_timeout c)"

definition download_hedge_delay_or_default :: "UplinkConfig \<Rightarrow> nat" where
  "download_hedge_delay_or_default c = (case cf_download_hedge_delay c of None \<Rightarrow> SECOND | Some d \<Rightarrow> d)"

definition concurrent_segments_or_default :: "UplinkConfig \<Rightarrow> nat" where
  "concurrent_segments_or_default c = or_default 10 (cf_concurrent_segments c)"

section \<open>What survives the wire\<close>

text \<open>Times before the epoch become the epoch; a normalised time on the wire is never changed.\<close>

lemma timestamp_round_trip:
  "t \<le> i64_max * NANOS \<Longrightarrow> proto_timestamp (Some (timestamp_from_system t)) = max t 0"
proof -
  assume t: "t \<le> i64_max * NANOS"
  let ?d = "max t 0"
  have "?d div NANOS \<le> i64_max" using t zdiv_mono1[of ?d "i64_max * NANOS" NANOS] by (simp add: NANOS_def)
  moreover have "?d mod NANOS \<le> 999999999" using pos_mod_bound[of NANOS ?d] by (simp add: NANOS_def del: pos_mod_bound)
  moreover have "?d div NANOS * NANOS + ?d mod NANOS = ?d" by (rule div_mult_mod_eq)
  ultimately show ?thesis by (simp add: proto_timestamp_def timestamp_from_system_def NANOS_def min_def pos_imp_zdiv_nonneg_iff)
qed

lemma timestamp_wire:
  assumes "0 \<le> s" "s \<le> i64_max" "0 \<le> n" "n < NANOS"
  shows "timestamp_from_system (proto_timestamp (Some \<lparr>ts_seconds = s, ts_nanos = n\<rparr>)) = \<lparr>ts_seconds = s, ts_nanos = n\<rparr>"
  using assms by (simp add: proto_timestamp_def timestamp_from_system_def NANOS_def min_def)

lemma mode_round_trip [simp]: "retention_mode_from_proto (retention_mode_to_proto m) = Inr m"
  by (cases m) (simp_all add: retention_mode_from_proto_def)

lemma checksum_round_trip [simp]: "checksum_from_proto (checksum_to_proto a) = a"
  by (cases a) (simp_all add: checksum_from_proto_def)

lemma retention_round_trip:
  "rt_retain_until r \<le> i64_max * NANOS \<Longrightarrow> retention_from_proto (retention_to_proto r) = Inr r \<longleftrightarrow> 0 \<le> rt_retain_until r"
  using timestamp_round_trip[of "rt_retain_until r"]
  by (cases r) (auto simp: retention_from_proto_def retention_to_proto_def)

text \<open>
  The guard of \<open>set_bucket_object_lock_configuration\<close> is exactly what the wire needs: with durations that are not negative,
  a configuration is accepted if and only if the satellite reads the same configuration back.
\<close>

lemma lock_configuration_guard:
  assumes "bucket \<noteq> []" and "\<forall>d. lc_default_retention cfg = Some d \<longrightarrow> 0 \<le> dr_days d \<and> 0 \<le> dr_years d"
  shows "set_lock_configuration bucket cfg = Inr (lock_config_to_proto cfg) \<longleftrightarrow> lock_config_from_proto (lock_config_to_proto cfg) = Inr cfg"
proof (cases "lc_default_retention cfg")
  case None
  then show ?thesis using assms(1)
    by (cases cfg) (simp add: set_lock_configuration_def require_bucket_name_def lock_config_to_proto_def lock_config_from_proto_def)
next
  case (Some d)
  then show ?thesis using assms
    by (cases cfg; cases d) (auto simp: set_lock_configuration_def require_bucket_name_def lock_config_to_proto_def lock_config_from_proto_def
        default_retention_to_proto_def default_retention_from_proto_def split: if_splits)
qed

text \<open>\<open>ensure_bucket\<close> returns a bucket only as the satellite reported it, and fails with the satellite's error otherwise.\<close>

lemma ensure_bucket_reported:
  "ensure_bucket created existing later name = Inr b \<Longrightarrow>
    name \<noteq> [] \<and> (created = Inr b \<or> (\<exists>e. created = Inl e \<and> pe_kind e = BucketAlreadyExists \<and> (existing = Inr b \<or> isl existing \<and> later = Inr b)))"
  by (auto simp: ensure_bucket_def create_bucket_with_def stat_bucket_def require_bucket_name_def pe_new_def split: sum.splits if_splits option.splits)

text \<open>
  Unlike \<open>map_enc\<close>, the mapping of \<open>object_lock.rs\<close> does not mark encryption errors as permanent: those of kind
  \<open>Protocol\<close> count as retryable there.
\<close>

lemma lock_errors_look_retryable:
  "pe_is_retryable (map_enc_err show_enc InvalidConfig) \<and> \<not> pe_is_retryable (map_enc show_enc InvalidConfig)"
  by (simp add: map_enc_err_def map_enc_def pe_is_retryable_def with_source_def with_retryable_def pe_new_def)

end
