(* ===== verification/Segment_Commit.thy ===== *)
theory Segment_Commit
  imports Upload_Writer Download Segment_Upload Macaroon
begin

text \<open>
  One segment on its way to the satellite: upload identifiers and part tags (\<open>crates/storj-uplink/src/multipart.rs\<close>), the
  preparation of a segment (\<open>crates/storj-uplink/src/upload.rs\<close>), and \<open>commit_one_segment\<close> of
  \<open>crates/storj/src/project.rs\<close>, which encrypts a segment, stores it inline or as pieces, and commits it.  The random key and
  nonce, the answers of the satellite and the results of the piece uploads are arguments.  The function returns beside
  its result the request that the satellite accepted, together with the pieces that were handed to the nodes.  The
  stream, the bucket and the object key only route requests and are left out, and so is the join of the threads that
  compute.

  Shown: identifiers and tags survive their encodings, and what is committed determines the plaintext.
\<close>

section \<open>The code\<close>

subsection \<open>Multipart\<close>

definition STREAM_ID_VERSION :: u8 where "STREAM_ID_VERSION = 1"
definition ETAG_HMAC_INFO :: bytes where "ETAG_HMAC_INFO = bstr ''storj-etag-v1''"

definition encode_upload_id :: "B58 \<Rightarrow> bytes \<Rightarrow> bytes" where
  "encode_upload_id bc stream = check_encode bc stream STREAM_ID_VERSION"

definition decode_upload_id :: "B58 \<Rightarrow> bytes \<Rightarrow> UplinkError + bytes" where
  "decode_upload_id bc upload =
    (if upload = [] then Inl (UpProtocol ''upload ID invalid'')
     else try_bind (map_err (\<lambda>_. UpProtocol ''upload ID invalid'') (check_decode bc upload)) (\<lambda>(dat, version).
       if version \<noteq> STREAM_ID_VERSION then Inl (UpProtocol ''upload ID invalid'') else Inr dat))"

definition encrypt_etag :: "Crypto \<Rightarrow> bytes \<Rightarrow> CipherSuite \<Rightarrow> Key \<Rightarrow> UplinkError + bytes" where
  "encrypt_etag cr tag suite segment_key =
    (if tag = [] then Inr []
     else map_err Encryption (encrypt cr tag suite (derive_key cr segment_key ETAG_HMAC_INFO) ZERO_NONCE))"

definition decrypt_etag :: "Crypto \<Rightarrow> bytes \<Rightarrow> CipherSuite \<Rightarrow> Key \<Rightarrow> UplinkError + bytes" where
  "decrypt_etag cr enc suite segment_key =
    (if enc = [] then Inr []
     else map_err Encryption (decrypt cr enc suite (derive_key cr segment_key ETAG_HMAC_INFO) ZERO_NONCE))"

subsection \<open>Preparing a segment\<close>

datatype PreparedKind = Inline bytes | Remote "bytes list" int Redundancy

record PreparedSegment =
  ps_plain_size :: int
  ps_encrypted_key :: bytes
  ps_encrypted_key_nonce :: bytes
  ps_content_nonce :: bytes
  ps_segment_key :: Key
  ps_kind :: PreparedKind

definition remote_kind :: "Crypto \<Rightarrow> backend \<Rightarrow> bytes \<Rightarrow> CipherSuite \<Rightarrow> Key \<Rightarrow> bytes \<Rightarrow> nat \<Rightarrow> RedundancyScheme option \<Rightarrow>
    UplinkError + PreparedKind" where
  "remote_kind cr cpu plain suite segment_key nonce encrypted_block_size scheme =
    (let block = (if encrypted_block_size = 0 then DEFAULT_ENCRYPTED_BLOCK_SIZE else encrypted_block_size)
     in try_bind (encrypt_remote cr plain suite segment_key nonce block) (\<lambda>encrypted.
        try_bind (ok_or (UpProtocol ''remote segment missing redundancy scheme'') scheme) (\<lambda>scheme.
        try_bind (from_scheme scheme) (\<lambda>rs.
        try_bind (encode_pieces cpu encrypted rs) (\<lambda>pieces.
          Inr (Remote pieces (min (int (length encrypted)) i64_max) rs))))))"

definition prepare_segment :: "Crypto \<Rightarrow> backend \<Rightarrow> Key \<Rightarrow> bytes \<Rightarrow> bytes \<Rightarrow> CipherSuite \<Rightarrow> Key \<Rightarrow> nat \<Rightarrow> int \<Rightarrow> int \<Rightarrow>
    RedundancyScheme option \<Rightarrow> UplinkError + PreparedSegment" where
  "prepare_segment cr cpu random_key random_nonce plain suite derived_content_key encrypted_block_size part index scheme =
    try_bind (encrypt_key cr random_key suite derived_content_key random_nonce) (\<lambda>encrypted_key.
    let nonce = content_nonce part index;
        remote = remote_kind cr cpu plain suite random_key nonce encrypted_block_size scheme
    in try_bind
         (if length plain > MAX_INLINE_SEGMENT_SIZE then remote
          else try_bind (encrypt_inline cr plain suite random_key nonce) (\<lambda>dat.
            if is_inline dat then Inr (Inline dat) else remote)) (\<lambda>knd.
       Inr \<lparr>ps_plain_size = min (int (length plain)) i64_max, ps_encrypted_key = encrypted_key,
            ps_encrypted_key_nonce = random_nonce, ps_content_nonce = nonce, ps_segment_key = random_key, ps_kind = knd\<rparr>))"

subsection \<open>Committing a segment\<close>

type_synonym SegmentPosition = "int \<times> int"

record MakeInlineSegment =
  mi_position :: SegmentPosition
  mi_encrypted_key_nonce :: bytes
  mi_encrypted_key :: bytes
  mi_encrypted_inline_data :: bytes
  mi_plain_size :: int
  mi_encrypted_etag :: bytes

record CommitSegment =
  cs_segment_id :: bytes
  cs_encrypted_key_nonce :: bytes
  cs_encrypted_key :: bytes
  cs_size_encrypted_data :: int
  cs_plain_size :: int
  cs_encrypted_etag :: bytes
  cs_upload_result :: "PieceResult list"

record BeginSegmentResponse =
  bs_segment_id :: bytes
  bs_addressed_limits :: "AddressedOrderLimit list"
  bs_private_key :: bytes
  bs_redundancy_scheme :: "RedundancyScheme option"
  bs_cohort_requirements :: "Cohort option"

text \<open>What the satellite accepted; for a remote segment with its position, its scheme and the pieces given to the nodes.\<close>

datatype StoredSegment = StoredInline MakeInlineSegment | StoredRemote CommitSegment SegmentPosition RedundancyScheme "bytes list"

text \<open>
  The world of one segment: the answers to \<open>MakeInlineSegment\<close>, \<open>BeginSegment\<close> (for an encrypted size),
  \<open>RetryBeginSegmentPieces\<close> and \<open>CommitSegment\<close>, and the results of the upload tasks for the given pieces and piece key.
\<close>

record SegmentEnv =
  se_inline :: "PublicError + unit"
  se_begin :: "int \<Rightarrow> PublicError + BeginSegmentResponse"
  se_results :: "bytes \<Rightarrow> bytes list \<Rightarrow> Outcomes"
  se_retry :: "nat \<Rightarrow> bytes \<Rightarrow> int list \<Rightarrow> PublicError + (bytes \<times> AddressedOrderLimit list)"
  se_commit :: "PublicError + unit"

text \<open>The errors of the long-tail upload are protocol errors; the text of the one about the threshold is not spelt out.\<close>

fun upload_error :: "UploadError \<Rightarrow> UplinkError" where
  "upload_error (ProtocolError message) = UpProtocol message"
| "upload_error (ThresholdError got needed errors) = UpProtocol ''uploaded pieces below the success threshold''"

definition inline_data :: "Crypto \<Rightarrow> bytes \<Rightarrow> CipherSuite \<Rightarrow> Key \<Rightarrow> bytes \<Rightarrow> UplinkError + bytes option" where
  "inline_data cr plain suite segment_key nonce =
    (if length plain > MAX_INLINE_SEGMENT_SIZE then Inr None
     else try_bind (encrypt_inline cr plain suite segment_key nonce) (\<lambda>dat. Inr (if is_inline dat then Some dat else None)))"

definition upload_assignments :: "AddressedOrderLimit list \<Rightarrow> UploadError + PieceAssignment list" where
  "upload_assignments limits =
    fold_result (\<lambda>(i, addressed) asgs. try_bind (from_addressed i addressed) (\<lambda>a. Inr (asgs @ [a]))) (List.enumerate 0 limits) []"

text \<open>The second half: a remote segment.\<close>

definition commit_remote :: "(UplinkError \<Rightarrow> PublicError) \<Rightarrow> (PublicError \<Rightarrow> UploadError) \<Rightarrow> Crypto \<Rightarrow> OrderCrypto \<Rightarrow> backend \<Rightarrow> SegmentEnv \<Rightarrow>
    Key \<Rightarrow> bytes \<Rightarrow> bytes \<Rightarrow> bytes \<Rightarrow> SegmentJob \<Rightarrow> PublicError + (int \<times> StoredSegment)" where
  "commit_remote up retry_error cr oc cpu env segment_key key_nonce encrypted_key enc_tag job =
    (let position = (job_part job, job_index job);
         last_plain = min (int (length (job_plain job))) i64_max
     in try_bind (map_err up (encrypt_remote cr (job_plain job) (job_cipher job) segment_key (content_nonce (job_part job) (job_index job)) (job_block_size job)))
          (\<lambda>encrypted.
        let enc_size = min (int (length encrypted)) i64_max
        in try_bind (se_begin env enc_size) (\<lambda>begin_seg.
           try_bind (ok_or (pe_new ProtocolKind ''BeginSegment missing RS scheme'') (bs_redundancy_scheme begin_seg)) (\<lambda>scheme.
           try_bind (map_err up (from_scheme scheme)) (\<lambda>rs.
           try_bind (map_err up (encode_pieces cpu encrypted rs)) (\<lambda>pieces.
           try_bind (map_err (up \<circ> upload_error) (upload_assignments (bs_addressed_limits begin_seg))) (\<lambda>asgs.
           try_bind (map_err up (private_from_bytes oc (bs_private_key begin_seg))) (\<lambda>piece_key.
           try_bind (map_err (up \<circ> upload_error)
             (upload_pieces_long_tail (se_results env piece_key pieces) (\<lambda>k seg nums. map_err retry_error (se_retry env k seg nums))
               \<lparr>assignments = asgs, segment_id = bs_segment_id begin_seg, optimal = rd_o rs, cohort = bs_cohort_requirements begin_seg\<rparr>))
             (\<lambda>(seg, results).
           try_bind (se_commit env) (\<lambda>_.
             Inr (last_plain, StoredRemote
               \<lparr>cs_segment_id = seg, cs_encrypted_key_nonce = key_nonce, cs_encrypted_key = encrypted_key, cs_size_encrypted_data = enc_size,
                cs_plain_size = last_plain, cs_encrypted_etag = enc_tag, cs_upload_result = results\<rparr> position scheme pieces)))))))))))"

definition commit_one_segment :: "(ErrorKind \<Rightarrow> string) \<Rightarrow> (UplinkError \<Rightarrow> string) \<Rightarrow> Crypto \<Rightarrow> OrderCrypto \<Rightarrow> backend \<Rightarrow> SegmentEnv \<Rightarrow>
    Key \<Rightarrow> bytes \<Rightarrow> SegmentJob \<Rightarrow> PublicError + (int \<times> StoredSegment)" where
  "commit_one_segment show_enc show_up cr oc cpu env random_key random_nonce job =
    (let up = map_uplink show_enc show_up
     in try_bind (map_err up (encrypt_key cr random_key (job_cipher job) (job_content_key job) random_nonce)) (\<lambda>encrypted_key.
        try_bind (map_err up (encrypt_etag cr (job_etag job) (job_cipher job) random_key)) (\<lambda>enc_tag.
        let nonce = content_nonce (job_part job) (job_index job);
            last_plain = min (int (length (job_plain job))) i64_max
        in try_bind (map_err up (inline_data cr (job_plain job) (job_cipher job) random_key nonce)) (\<lambda>dat.
           case dat of
             Some dat \<Rightarrow>
               try_bind (se_inline env) (\<lambda>_.
                 Inr (last_plain, StoredInline
                   \<lparr>mi_position = (job_part job, job_index job), mi_encrypted_key_nonce = random_nonce, mi_encrypted_key = encrypted_key,
                    mi_encrypted_inline_data = dat, mi_plain_size = last_plain, mi_encrypted_etag = enc_tag\<rparr>))
           | None \<Rightarrow>
               commit_remote up (\<lambda>e. ProtocolError (pe_to_string e)) cr oc cpu env random_key random_nonce encrypted_key enc_tag job))))"

section \<open>Round trips\<close>

text \<open>The empty string is the Base58 text of no bytes; a grant's text, of version 0, is not an upload identifier.\<close>

lemma upload_id_round_trip:
  assumes "b58_ok bc" "bs58_decode bc [] = Some []"
  shows "decode_upload_id bc (encode_upload_id bc stream) = Inr stream"
    "v \<noteq> STREAM_ID_VERSION \<Longrightarrow> decode_upload_id bc (check_encode bc stream v) = Inl (UpProtocol ''upload ID invalid'')"
proof -
  have "check_encode bc stream v \<noteq> []" for v
    using check_decode_encode[OF assms(1), of stream v] assms(2) by (auto simp: check_decode_def)
  then show "decode_upload_id bc (encode_upload_id bc stream) = Inr stream"
    "v \<noteq> STREAM_ID_VERSION \<Longrightarrow> decode_upload_id bc (check_encode bc stream v) = Inl (UpProtocol ''upload ID invalid'')"
    by (simp_all add: decode_upload_id_def encode_upload_id_def check_decode_encode[OF assms(1)])
qed

lemma etag_round_trip:
  assumes "crypto_ok cr" "encrypt_etag cr tag suite key = Inr enc"
  shows "decrypt_etag cr enc suite key = Inr tag"
proof (cases "tag = []")
  case True
  then show ?thesis using assms(2) by (simp add: encrypt_etag_def decrypt_etag_def)
next
  case False
  then have e: "encrypt cr tag suite (derive_key cr key ETAG_HMAC_INFO) ZERO_NONCE = Inr enc" using assms(2) by (simp add: encrypt_etag_def)
  then have d: "decrypt cr enc suite (derive_key cr key ETAG_HMAC_INFO) ZERO_NONCE = Inr tag"
    using assms(1) by (intro encrypt_decrypt) (auto simp: ZERO_NONCE_def)
  then have "enc \<noteq> []" using False by (auto simp: decrypt_def)
  then show ?thesis using d by (simp add: decrypt_etag_def)
qed

section \<open>What a committed segment holds\<close>

lemma from_scheme_k: "from_scheme sch = Inr rs \<Longrightarrow> 1 \<le> rd_k rs \<and> rd_k rs \<le> rd_n rs \<and> 0 < rd_share_size rs"
  by (auto simp: from_scheme_def result_simps split: if_splits)

lemma content_nonce_length: "length (content_nonce p i) = 24"
  using increment_bytes_val(1)[of ZERO_NONCE "push_bit 32 p OR (i + 1)"]
  by (auto simp: content_nonce_def increment_def ZERO_NONCE_def split: sum.splits)

lemma committed_inline:
  assumes "commit_one_segment show_enc show_up cr oc cpu env key nonce job = Inr (n, StoredInline mi)" "crypto_ok cr" "length key = 32" "length nonce = 24"
  shows "mi_position mi = (job_part job, job_index job) \<and> mi_encrypted_key_nonce mi = nonce \<and>
    decrypt_key cr (mi_encrypted_key mi) (job_cipher job) (job_content_key job) nonce = Inr key \<and>
    decrypt_inline cr (mi_encrypted_inline_data mi) (job_cipher job) key (content_nonce (job_part job) (job_index job)) = Inr (job_plain job) \<and>
    mi_plain_size mi = min (int (length (job_plain job))) i64_max \<and> n = mi_plain_size mi \<and>
    decrypt_etag cr (mi_encrypted_etag mi) (job_cipher job) key = Inr (job_etag job)"
proof -
  let ?n = "content_nonce (job_part job) (job_index job)"
  obtain ek tag dat where r: "encrypt_key cr key (job_cipher job) (job_content_key job) nonce = Inr ek"
      "encrypt_etag cr (job_etag job) (job_cipher job) key = Inr tag" "inline_data cr (job_plain job) (job_cipher job) key ?n = Inr (Some dat)"
      "mi = \<lparr>mi_position = (job_part job, job_index job), mi_encrypted_key_nonce = nonce, mi_encrypted_key = ek, mi_encrypted_inline_data = dat,
        mi_plain_size = min (int (length (job_plain job))) i64_max, mi_encrypted_etag = tag\<rparr>" "n = min (int (length (job_plain job))) i64_max"
    using assms(1) by (auto simp: commit_one_segment_def commit_remote_def result_simps split: option.splits)
  have "encrypt cr (job_plain job) (job_cipher job) key ?n = Inr dat"
    using r(3) by (auto simp: inline_data_def encrypt_inline_def result_simps split: if_splits)
  moreover have "length ?n = 24" by (rule content_nonce_length)
  ultimately have "decrypt cr dat (job_cipher job) key ?n = Inr (job_plain job)" using assms(2) by (intro encrypt_decrypt) auto
  then show ?thesis using r decrypt_key_ok[OF assms(2) r(1) assms(3,4)] etag_round_trip[OF assms(2) r(2)] by (simp add: decrypt_inline_def)
qed

lemma committed_remote:
  assumes "commit_one_segment show_enc show_up cr oc cpu env key nonce job = Inr (n, StoredRemote cs position sch pieces)"
    "crypto_ok cr" "length key = 32" "length nonce = 24"
  obtains enc rs where "position = (job_part job, job_index job)" "cs_encrypted_key_nonce cs = nonce"
    "decrypt_key cr (cs_encrypted_key cs) (job_cipher job) (job_content_key job) nonce = Inr key"
    "encrypt_remote cr (job_plain job) (job_cipher job) key (content_nonce (job_part job) (job_index job)) (job_block_size job) = Inr enc"
    "from_scheme sch = Inr rs" "encode_pieces cpu enc rs = Inr pieces" "cs_size_encrypted_data cs = min (int (length enc)) i64_max"
    "cs_plain_size cs = min (int (length (job_plain job))) i64_max" "n = cs_plain_size cs"
    "decrypt_etag cr (cs_encrypted_etag cs) (job_cipher job) key = Inr (job_etag job)"
proof -
  obtain ek tag where r: "encrypt_key cr key (job_cipher job) (job_content_key job) nonce = Inr ek"
      "encrypt_etag cr (job_etag job) (job_cipher job) key = Inr tag"
      "commit_remote (map_uplink show_enc show_up) (\<lambda>e. ProtocolError (pe_to_string e)) cr oc cpu env key nonce ek tag job =
        Inr (n, StoredRemote cs position sch pieces)"
    using assms(1) by (auto simp: commit_one_segment_def result_simps split: option.splits)
  from r(3) obtain enc rs where "position = (job_part job, job_index job)" "cs_encrypted_key_nonce cs = nonce" "cs_encrypted_key cs = ek"
      "encrypt_remote cr (job_plain job) (job_cipher job) key (content_nonce (job_part job) (job_index job)) (job_block_size job) = Inr enc"
      "from_scheme sch = Inr rs" "encode_pieces cpu enc rs = Inr pieces" "cs_size_encrypted_data cs = min (int (length enc)) i64_max"
      "cs_plain_size cs = min (int (length (job_plain job))) i64_max" "n = cs_plain_size cs" "cs_encrypted_etag cs = tag"
    by (auto simp: commit_remote_def result_simps)
  then show ?thesis using that decrypt_key_ok[OF assms(2) r(1) assms(3,4)] etag_round_trip[OF assms(2) r(2)] by blast
qed

end
