(* ===== verification/Object_Download.thy ===== *)
theory Object_Download
  imports Object_Types Segment_Commit Piece_Collect
begin

text \<open>
  Downloading an object: \<open>download_segments\<close>, \<open>decrypt_one_segment\<close> and their helpers in \<open>crates/storj/src/project.rs\<close>, and the
  reader \<open>Download\<close> of \<open>crates/storj/src/upload.rs\<close>.  The satellite's answers are arguments, and so is the network: what the
  download of each piece ends with (\<open>net_outcome\<close>, see \<open>Piece_Task\<close>), and in which order the tasks finish
  (\<open>net_events\<close>, one list for the first collection and one for each replacement, see \<open>Piece_Collect\<close>).  A value \<open>None\<close>
  of an \<open>option\<close> result stands for a function that still waits.  The channel between the background task and the reader
  is the list of results that the task sends; a list of flags says which polls find the next one ready.

  Shown: a committed segment is read back, whatever range is requested and although up to two of the nodes may deliver
  corrupt pieces; the segments of an object yield exactly the requested range; a reader reports success only after
  all of it.
\<close>

section \<open>The code\<close>

subsection \<open>One segment\<close>

record DownloadSegment =
  ds_position :: "SegmentPosition option"
  ds_plain_offset :: int
  ds_plain_size :: int
  ds_segment_size :: int
  ds_encrypted_key :: bytes
  ds_encrypted_key_nonce :: bytes
  ds_encrypted_inline_data :: bytes
  ds_addressed_limits :: "AddressedOrderLimit list"
  ds_private_key :: bytes
  ds_redundancy_scheme :: "RedundancyScheme option"

definition unwrap_position :: "SegmentPosition option \<Rightarrow> SegmentPosition" where
  "unwrap_position p = (case p of Some x \<Rightarrow> x | None \<Rightarrow> (0, 0))"

definition slice_plain :: "bytes \<Rightarrow> int \<Rightarrow> int \<Rightarrow> bytes" where
  "slice_plain full from len =
    (if len \<le> 0 then []
     else let from = min (nat from) (length full);
              upto = min (usize_sat (from + nat len)) (length full)
          in sub_slice full from upto)"

definition download_assignments :: "AddressedOrderLimit list \<Rightarrow> UploadError + PieceAssignment list" where
  "download_assignments limits =
    fold_result (\<lambda>(i, addressed) asgs.
      if al_limit addressed = None then Inr asgs
      else try_bind (from_addressed i addressed) (\<lambda>a. Inr (asgs @ [a]))) (List.enumerate 0 limits) []"

record SegmentNet =
  net_outcome :: "bytes \<Rightarrow> int \<Rightarrow> int \<Rightarrow> PieceAssignment outcome"
  net_events :: "nat \<Rightarrow> event list"

text \<open>The loop that decodes and, when nothing authenticates, asks for one more piece.\<close>

function decode_loop :: "(UplinkError \<Rightarrow> PublicError) \<Rightarrow> Crypto \<Rightarrow> backend \<Rightarrow> PieceAssignment outcome \<Rightarrow> (nat \<Rightarrow> event list) \<Rightarrow> Redundancy \<Rightarrow>
    DecryptParams \<Rightarrow> PieceAssignment DownloadedPieces \<Rightarrow> nat \<Rightarrow> (PublicError + bytes) option" where
  "decode_loop up cr cpu outcome evs rs params downloaded extras =
    (case reconstruct_remote cr cpu (dp_shares downloaded) rs params of
       Inr plain \<Rightarrow> Some (Inr plain)
     | Inl e \<Rightarrow>
       if extras \<ge> MAX_DECODE_EXTRAS \<or> \<not> is_content_auth_failure e then Some (Inl (up e))
       else (case fetch_one_more outcome (evs (extras + 1)) downloaded of
               None \<Rightarrow> None
             | Some (Inl e', _) \<Rightarrow> Some (Inl (up e'))
             | Some (Inr None, _) \<Rightarrow> Some (Inl (up e))
             | Some (Inr (Some piece), downloaded) \<Rightarrow>
                 decode_loop up cr cpu outcome evs rs params (downloaded\<lparr>dp_shares := dp_shares downloaded @ [piece]\<rparr>) (extras + 1)))"
  by pat_completeness auto
termination
  by (relation "measure (\<lambda>(_, _, _, _, _, _, _, _, extras). MAX_DECODE_EXTRAS - extras)") auto

declare decode_loop.simps [simp del]

definition decrypt_remote_segment :: "(ErrorKind \<Rightarrow> string) \<Rightarrow> (UplinkError \<Rightarrow> string) \<Rightarrow> Crypto \<Rightarrow> OrderCrypto \<Rightarrow> backend \<Rightarrow> SegmentNet \<Rightarrow> nat \<Rightarrow>
    Key \<Rightarrow> CipherSuite \<Rightarrow> nat \<Rightarrow> int \<Rightarrow> int \<Rightarrow> DownloadSegment \<Rightarrow> (PublicError + bytes) option" where
  "decrypt_remote_segment show_enc show_up cr oc cpu net hedge_delay segment_key suite block local_start local_len seg =
    (let up = map_uplink show_enc show_up;
         (part, index) = unwrap_position (ds_position seg);
         nonce = content_nonce part index
     in case try_bind (ok_or (pe_new ProtocolKind ''download response missing RS scheme'') (ds_redundancy_scheme seg)) (\<lambda>scheme.
             try_bind (map_err up (from_scheme scheme)) (\<lambda>rs.
             try_bind (map_err (map_enc show_enc) (new_decrypter cr suite segment_key nonce block)) (\<lambda>decrypter.
             try_bind (map_err (up \<circ> upload_error) (download_assignments (ds_addressed_limits seg))) (\<lambda>asgs.
             try_bind (map_err up (private_from_bytes oc (ds_private_key seg))) (\<lambda>piece_key.
               Inr (rs, decrypter, asgs, piece_key)))))) of
          Inl e \<Rightarrow> Some (Inl e)
        | Inr (rs, decrypter, asgs, piece_key) \<Rightarrow>
          (let (off, sz) = piece_byte_range local_start local_len (out_block_size decrypter) (in_block_size decrypter) rs;
               outcome = net_outcome net piece_key off sz
           in case download_pieces_long_tail outcome piece_num asgs (rd_k rs) hedge_delay off sz (net_events net 0) of
                None \<Rightarrow> None
              | Some (Inl e) \<Rightarrow> Some (Inl (up e))
              | Some (Inr downloaded) \<Rightarrow>
                decode_loop up cr cpu outcome (net_events net) rs
                  \<lparr>decoded_offset = nat (sat_i64 (off * int (rd_k rs))), encrypted_size = nat (max (ds_segment_size seg) 0), dp_cipher = suite,
                   dp_key = segment_key, dp_nonce = nonce, dp_block_size = block, plain_start = local_start, plain_len = local_len,
                   plain_size = ds_plain_size seg\<rparr> downloaded 0))"

definition decrypt_one_segment :: "(ErrorKind \<Rightarrow> string) \<Rightarrow> (UplinkError \<Rightarrow> string) \<Rightarrow> Crypto \<Rightarrow> OrderCrypto \<Rightarrow> backend \<Rightarrow> SegmentNet \<Rightarrow> nat \<Rightarrow>
    Key \<Rightarrow> CipherSuite \<Rightarrow> nat \<Rightarrow> int \<Rightarrow> int \<Rightarrow> DownloadSegment \<Rightarrow> (PublicError + bytes) option" where
  "decrypt_one_segment show_enc show_up cr oc cpu net hedge_delay ckey suite block object_start object_len seg =
    (let up = map_uplink show_enc show_up;
         (local_start, local_len) = segment_plain_range object_start object_len (ds_plain_offset seg) (ds_plain_size seg)
     in if local_len = 0 then Some (Inr [])
        else let (part, index) = unwrap_position (ds_position seg)
        in case try_bind (map_err up (nonce_from_slice (ds_encrypted_key_nonce seg))) (\<lambda>enc_nonce.
                  map_err up (decrypt_key cr (ds_encrypted_key seg) suite ckey enc_nonce)) of
             Inl e \<Rightarrow> Some (Inl e)
           | Inr segment_key \<Rightarrow>
             if ds_encrypted_inline_data seg \<noteq> [] \<or> ds_addressed_limits seg = [] then
               Some (try_bind (map_err up (decrypt_inline cr (ds_encrypted_inline_data seg) suite segment_key (content_nonce part index)))
                 (\<lambda>full. Inr (slice_plain full local_start local_len)))
             else decrypt_remote_segment show_enc show_up cr oc cpu net hedge_delay segment_key suite block local_start local_len seg)"

section \<open>Decoding is right or names itself a forgery\<close>

lemma tracked_failure: "decrypt_remote_tracking_failure cr job decoded = (Inl err, Some b) \<Longrightarrow> err = content_auth_error"
proof -
  have "decrypt_blocks d b cs out = (Inl err, Some f) \<Longrightarrow> err = content_auth_error" for d b cs out f
    by (induction d b cs out rule: decrypt_blocks.induct)
      (auto simp: is_content_auth_failure_def content_auth_error_def split: sum.splits if_splits)
  then show "decrypt_remote_tracking_failure cr job decoded = (Inl err, Some b) \<Longrightarrow> err = content_auth_error"
    by (auto simp: decrypt_remote_tracking_failure_def split: if_splits sum.splits prod.splits)
qed

lemma reconstruct_loop_any:
  assumes fit: "fits_segment cr job plain enc" and rs: "redundancy_ok rs"
    and d: "new_decrypter cr (dp_cipher job) (dp_key job) (dp_nonce job) (dp_block_size job) = Inr d"
    and im: "calc_encompassing_blocks (plain_start job) (plain_len job) (out_block_size d) = (int i, int m)"
    and w: "window rs job enc rst (in_block_size d) i m"
    and nums: "distinct (map fst shs)" "\<forall>(num, d) \<in> set shs. 0 \<le> num \<and> num < int (rd_n rs)"
    and plen: "\<forall>(num, d) \<in> set shs. length d = length rst * rd_share_size rs"
    and auth: "authentic cr cpu rs job shs enc"
    and sets: "set subsets \<subseteq> set (k_subsets (length shs) (rd_k rs))" "last_err = None \<or> last_err = Some content_auth_error"
  shows "reconstruct_loop cr cpu shs rs job probe_first subsets fs last_err \<in>
    {Inr (sub_slice plain (nat (plain_start job)) (nat (plain_start job) + nat (plain_len job))), Inl content_auth_error}"
  using sets
proof (induction subsets arbitrary: fs last_err)
  case (Cons ids subsets)
  let ?want = "sub_slice plain (nat (plain_start job)) (nat (plain_start job) + nat (plain_len job))"
  let ?ch = "select_shares shs ids" and ?o = "decoded_offset job"
  have k: "0 < rd_k rs" using rs by (simp add: redundancy_ok_def)
  have c: "combo (length shs) (rd_k rs) ids" using Cons.prems(1) k_subsets_complete(1)[OF k] by auto
  note sel = select_shares_subset[OF c]
  have wf: "decoded_offset job \<le> i * in_block_size d" "(i + m) * in_block_size d \<le> ?o + length rst * rd_stripe_size rs"
      "int (?o + length rst * rd_stripe_size rs) \<le> i64_max"
    using w unfolding window_def by blast+
  have rec: "reconstruct_loop cr cpu shs rs job probe_first subsets f' (Some content_auth_error) \<in> {Inr ?want, Inl content_auth_error}" for f'
    using Cons.IH Cons.prems(1) by simp
  have "\<exists>decoded. decode_encrypted_slices cpu ?ch rs 0 None = Inr decoded \<and> length decoded = length rst * rd_stripe_size rs"
    using sel nums plen eq_imp_le[OF sel(2)[symmetric]] by (intro decode_total[OF rs]) blast+
  then obtain decoded where dec: "decode_encrypted_slices cpu ?ch rs 0 None = Inr decoded" "length decoded = length rst * rd_stripe_size rs"
    by blast
  show ?case
  proof (cases "probe_first \<and> (\<not> probe_share_set cr cpu ?ch rs job None \<or> list_ex (\<lambda>b. \<not> probe_share_set cr cpu ?ch rs job (Some b)) fs)")
    case True
    then show ?thesis using rec by simp
  next
    case False
    have ks: "ids \<in> set (k_subsets (length shs) (rd_k rs))" using Cons.prems(1) by simp
    consider "decrypt_remote_tracking_failure cr job decoded = (Inr ?want, None)"
      | err j where "decrypt_remote_tracking_failure cr job decoded = (Inl err, Some (int j))"
      using decrypt_any[OF fit d im _ _ _ auth ks dec(1)] wf dec(2) by metis
    then show ?thesis
    proof cases
      case 1
      then show ?thesis unfolding reconstruct_loop.simps Let_def if_not_P[OF False] dec(1) by simp
    next
      case (2 err j)
      then show ?thesis using rec[of "fs @ [int j]"] tracked_failure[OF 2]
        unfolding reconstruct_loop.simps Let_def if_not_P[OF False] dec(1) by simp
    qed
  qed
qed (auto simp: content_auth_error_def)

lemma reconstruct_any:
  assumes "fits_segment cr job plain enc" and "redundancy_ok rs" and "encode_pieces cpu enc rs = Inr pieces"
    and "new_decrypter cr (dp_cipher job) (dp_key job) (dp_nonce job) (dp_block_size job) = Inr d"
    and "piece_byte_range (plain_start job) (plain_len job) (out_block_size d) (in_block_size d) rs = (off, sz)"
    and "decoded_offset job = nat (sat_i64 (off * int (rd_k rs)))"
    and "distinct (map fst shs)" and "\<forall>(num, dat) \<in> set shs. 0 \<le> num \<and> num < int (rd_n rs) \<and> length dat = nat sz"
    and "rd_k rs \<le> length shs" and "authentic cr cpu' rs job shs enc"
  shows "reconstruct_remote cr cpu' shs rs job \<in>
    {Inr (sub_slice plain (nat (plain_start job)) (nat (plain_start job) + nat (plain_len job))), Inl content_auth_error}"
proof (rule segment_window[OF assms(1-6)])
  fix i m rst
  assume w: "calc_encompassing_blocks (plain_start job) (plain_len job) (out_block_size d) = (int i, int m)"
    "window rs job enc rst (in_block_size d) i m" "nat sz = length rst * rd_share_size rs"
  have "\<forall>(num, d) \<in> set shs. 0 \<le> num \<and> num < int (rd_n rs)" "\<forall>(num, d) \<in> set shs. length d = length rst * rd_share_size rs"
    using assms(8) w(3) by auto
  from reconstruct_loop_any[OF assms(1,2,4) w(1,2) assms(7) this assms(10) order.refl] assms(9) show ?thesis
    by (simp add: reconstruct_remote_def)
qed

section \<open>Replacements\<close>

text \<open>\<open>fetch_one_more\<close> runs one task at a time, so its only possible schedule is that each finishes in turn.\<close>

definition in_turn :: "event list \<Rightarrow> nat \<Rightarrow> bool" where
  "in_turn evs n \<longleftrightarrow> set evs \<subseteq> {Joined 0} \<and> n \<le> length evs"

lemma single_collect:
  assumes "in_turn evs (Suc (length q))" "1 \<le> length (oks outcome (a # q))"
    and st: "queue st = q" "running st = [a]" "successes st = []"
  shows "\<exists>xs b ys p. a # q = xs @ b # ys \<and> oks outcome xs = [] \<and> outcome b = Inr p \<and>
    collect_loop outcome 1 False off sz evs st = Returned (Inr \<lparr>shares = [p], unused = ys\<rparr>)"
  using assms
proof (induction q arbitrary: a st evs)
  case Nil
  obtain evs' where "evs = Joined 0 # evs'" using Nil.prems(1) by (cases evs) (auto simp: in_turn_def)
  then show ?case using Nil.prems
    by (intro exI[of _ "[]"] exI[of _ a]) (auto simp: collect_loop.simps remove_nth_def split: sum.splits)
next
  case (Cons c q)
  obtain evs' where evs: "evs = Joined 0 # evs'" using Cons.prems(1) by (cases evs) (auto simp: in_turn_def)
  show ?case
  proof (cases "outcome a")
    case (Inr p)
    then show ?thesis using Cons.prems(3-) evs
      by (intro exI[of _ "[]"] exI[of _ a] exI[of _ "c # q"] exI[of _ p]) (simp add: collect_loop.simps[of _ _ _ _ _ "_ # _"] remove_nth_def)
  next
    case (Inl f)
    define st' where "st' = launch (st\<lparr>running := [], failures := failures st @ [f]\<rparr>)"
    have st': "queue st' = q" "running st' = [c]" "successes st' = []" using Cons.prems(3-) by (simp_all add: st'_def launch_def)
    have "collect_loop outcome 1 False off sz evs st = collect_loop outcome 1 False off sz evs' st'"
      using Cons.prems(3-) Inl evs by (simp add: collect_loop.simps[of _ _ _ _ _ "_ # _"] remove_nth_def st'_def)
    moreover have "in_turn evs' (Suc (length q))" "1 \<le> length (oks outcome (c # q))" using Cons.prems(1,2) evs Inl by (auto simp: in_turn_def)
    then obtain xs b ys p where r: "c # q = xs @ b # ys" "oks outcome xs = []" "outcome b = Inr p"
        "collect_loop outcome 1 False off sz evs' st' = Returned (Inr \<lparr>shares = [p], unused = ys\<rparr>)"
      using Cons.IH[OF _ _ st'] by blast
    ultimately show ?thesis using Inl by (intro exI[of _ "a # xs"] exI[of _ b] exI[of _ ys] exI[of _ p]) simp
  qed
qed

lemma fetch_one_more_ok:
  assumes "in_turn evs (length (dp_unused dp))" "1 \<le> length (oks outcome (dp_unused dp))" "0 \<le> dp_offset dp" "0 < dp_size dp"
    "dp_offset dp + dp_size dp \<le> i64_max"
  obtains p ys where "fetch_one_more outcome evs dp = Some (Inr (Some p), dp\<lparr>dp_unused := ys\<rparr>)" "oks outcome (dp_unused dp) = p # oks outcome ys"
    "length ys \<le> length (dp_unused dp)"
proof -
  obtain a q where aq: "dp_unused dp = a # q" using assms(2) by (cases "dp_unused dp") auto
  define st where "st = (start (a # q) 1 0 :: 'a Collecting)"
  have st: "queue st = q" "running st = [a]" "successes st = []" by (simp_all add: st_def start_def launch_def)
  have c: "in_turn evs (Suc (length q))" "1 \<le> length (oks outcome (a # q))" using assms(1,2) aq by simp_all
  obtain xs b ys p where r: "a # q = xs @ b # ys" "oks outcome xs = []" "outcome b = Inr p"
      "collect_loop outcome 1 False (dp_offset dp) (dp_size dp) evs st = Returned (Inr \<lparr>shares = [p], unused = ys\<rparr>)"
    using single_collect[OF c st, where off = "dp_offset dp" and sz = "dp_size dp"] by blast
  have "fetch_one_more outcome evs dp = Some (Inr (Some p), dp\<lparr>dp_unused := ys\<rparr>)"
    using assms(3-5) r(4) aq by (simp add: fetch_one_more_def collect_piece_downloads_def st_def)
  moreover have "oks outcome (dp_unused dp) = p # oks outcome ys" "length ys \<le> length (dp_unused dp)" using r aq by simp_all
  ultimately show ?thesis using that by blast
qed

lemma piece_range_bounds:
  assumes fit: "fits_segment cr job plain enc" and rs: "redundancy_ok rs"
    and d: "new_decrypter cr (dp_cipher job) (dp_key job) (dp_nonce job) (dp_block_size job) = Inr d"
    and r: "piece_byte_range (plain_start job) (plain_len job) (out_block_size d) (in_block_size d) rs = (off, sz)"
  shows "0 \<le> off \<and> 0 < sz \<and> off + sz \<le> i64_max"
proof (rule fits_segmentE[OF fit])
  let ?n = "in_block_size d" and ?st = "rd_stripe_size rs" and ?sh = "rd_share_size rs"
  let ?q = "(length enc + ?st - 1) div ?st"
  fix d' i m
  assume "new_decrypter cr (dp_cipher job) (dp_key job) (dp_nonce job) (dp_block_size job) = Inr d'"
    "calc_encompassing_blocks (plain_start job) (plain_len job) (out_block_size d') = (int i, int m)"
  then have im: "calc_encompassing_blocks (plain_start job) (plain_len job) (out_block_size d) = (int i, int m)" using d by simp
  have parts: "0 < m" "(i + m) * ?n \<le> length enc" "0 < ?n" using segment_parts[OF fit d im] by blast+
  have st: "0 < ?st" "?sh \<le> ?st" "?st + 4 \<le> 2 ^ 32" using fec_of_ok(3)[OF rs] rs by (auto simp: redundancy_ok_def rd_stripe_size_def)
  obtain s0 ns where s: "(off, sz) = (int (s0 * ?sh), int (ns * ?sh))" "s0 * ?st \<le> i * ?n" "(i + m) * ?n \<le> (s0 + ns) * ?st" "s0 + ns \<le> ?q"
    using piece_range_ok[OF fit rs d im parts ceil_div_le[OF st(1)]] r by metis
  have "(s0 + ns) * ?sh \<le> ?q * ?st" using s(4) st(2) by (rule mult_le_mono)
  also have "\<dots> \<le> length enc + ?st - 1" by simp
  finally have hi: "(s0 + ns) * ?sh \<le> length enc + 2 ^ 32" using st(3) by linarith
  have "ns \<noteq> 0"
  proof
    assume "ns = 0"
    then have "(i + m) * ?n \<le> i * ?n" using s(2,3) le_trans by (metis add_0_right)
    then show False using parts(1,3) by simp
  qed
  then have "0 < ns * ?sh" using rs by (simp add: redundancy_ok_def)
  moreover have "off + sz = int ((s0 + ns) * ?sh)" using s(1) by (simp add: algebra_simps)
  moreover have "int (length enc) + 2 ^ 33 \<le> i64_max" using fit by (simp add: fits_segment_def)
  ultimately show ?thesis using s(1) hi by (auto simp del: of_nat_mult)
qed

section \<open>Corrupt pieces\<close>

text \<open>
  What the ciphers promise: among the blocks that any \<open>k\<close> of the available shares decode to, only a block of the segment
  itself authenticates under its number.
\<close>

definition unforgeable :: "Crypto \<Rightarrow> backend \<Rightarrow> Redundancy \<Rightarrow> DecryptParams \<Rightarrow> (int \<times> bytes) set \<Rightarrow> bytes \<Rightarrow> bool" where
  "unforgeable cr cpu rs job avail enc \<longleftrightarrow>
    (\<forall>d chosen decoded b x. new_decrypter cr (dp_cipher job) (dp_key job) (dp_nonce job) (dp_block_size job) = Inr d \<longrightarrow>
      length chosen = rd_k rs \<and> distinct (map fst chosen) \<and> set chosen \<subseteq> avail \<longrightarrow>
      decode_encrypted_slices cpu chosen rs 0 None = Inr decoded \<longrightarrow>
      (let n = in_block_size d; at = b * n - decoded_offset job; block = sub_slice decoded at (at + n)
       in decoded_offset job \<le> b * n \<longrightarrow> at + n \<le> length decoded \<longrightarrow> b * n + n \<le> length enc \<longrightarrow>
          transform d block (int b) = Inr x \<longrightarrow> block = sub_slice enc (b * n) (b * n + n)))"

lemma unforgeable_authentic:
  assumes "unforgeable cr cpu rs job avail enc" "set shs \<subseteq> avail" "distinct (map fst shs)" "1 \<le> rd_k rs"
  shows "authentic cr cpu rs job shs enc"
  unfolding authentic_def
proof (intro allI impI)
  fix d ids decoded b x
  assume a: "new_decrypter cr (dp_cipher job) (dp_key job) (dp_nonce job) (dp_block_size job) = Inr d"
    "ids \<in> set (k_subsets (length shs) (rd_k rs))" "decode_encrypted_slices cpu (select_shares shs ids) rs 0 None = Inr decoded"
  have "combo (length shs) (rd_k rs) ids" using a(2) k_subsets_complete(1)[of "rd_k rs" "length shs"] assms(4) by auto
  note sel = select_shares_subset[OF this]
  show "let n = in_block_size d; at = b * n - decoded_offset job; block = sub_slice decoded at (at + n)
       in decoded_offset job \<le> b * n \<longrightarrow> at + n \<le> length decoded \<longrightarrow> b * n + n \<le> length enc \<longrightarrow>
          transform d block (int b) = Inr x \<longrightarrow> block = sub_slice enc (b * n) (b * n + n)"
    using assms(1)[unfolded unforgeable_def, rule_format, OF a(1) _ a(3), of b x] sel(1,2) sel(3)[OF assms(3)] assms(2) by auto
qed

text \<open>
  The nodes of a segment: they hold different pieces, and each either fails or delivers a share of its own piece of the
  requested length.  At least \<open>k\<close> shares are genuine, and no more are corrupt than the loop has replacements for.
\<close>

definition nodes_ok :: "Redundancy \<Rightarrow> int \<Rightarrow> (int \<times> bytes \<Rightarrow> bool) \<Rightarrow> PieceAssignment outcome \<Rightarrow> PieceAssignment list \<Rightarrow> bool" where
  "nodes_ok rs sz genuine outcome asgs \<longleftrightarrow>
    distinct (map piece_num asgs) \<and> (\<forall>a \<in> set asgs. 0 \<le> piece_num a \<and> piece_num a < int (rd_n rs)) \<and>
    (\<forall>a p. outcome a = Inr p \<longrightarrow> fst p = piece_num a \<and> length (snd p) = nat sz) \<and>
    rd_k rs \<le> length (filter genuine (oks outcome asgs)) \<and> length (filter (\<lambda>p. \<not> genuine p) (oks outcome asgs)) \<le> MAX_DECODE_EXTRAS"

lemma nodes_okD:
  assumes "nodes_ok rs sz genuine outcome asgs"
  shows "distinct (map fst (oks outcome asgs))" "\<forall>(num, dat) \<in> set (oks outcome asgs). 0 \<le> num \<and> num < int (rd_n rs) \<and> length dat = nat sz"
proof -
  have h: "\<forall>a p. outcome a = Inr p \<longrightarrow> fst p = piece_num a" using assms by (simp add: nodes_ok_def)
  show "distinct (map fst (oks outcome asgs))"
    using oks_pieces(1)[OF h, of asgs "[]" asgs] assms by (simp add: nodes_ok_def)
  have "\<exists>a \<in> set asgs. outcome a = Inr p" if "p \<in> set (oks outcome asgs)" for p
    using that by (induction asgs) (auto split: sum.splits)
  then show "\<forall>(num, dat) \<in> set (oks outcome asgs). 0 \<le> num \<and> num < int (rd_n rs) \<and> length dat = nat sz"
    using assms unfolding nodes_ok_def by fastforce
qed

lemma decode_loop_ok:
  assumes seg: "fits_segment cr job plain enc" "redundancy_ok rs" "encode_pieces cpu enc rs = Inr pieces"
      "new_decrypter cr (dp_cipher job) (dp_key job) (dp_nonce job) (dp_block_size job) = Inr d"
      "piece_byte_range (plain_start job) (plain_len job) (out_block_size d) (in_block_size d) rs = (off, sz)"
      "decoded_offset job = nat (sat_i64 (off * int (rd_k rs)))"
    and nodes: "nodes_ok rs sz (genuine_share pieces off sz) outcome asgs"
    and auth: "unforgeable cr cpu' rs job (set (oks outcome asgs)) enc"
    and turns: "\<forall>e. in_turn (evs (Suc e)) (length asgs)"
    and inv: "mset (oks outcome asgs) = mset (dp_shares dp) + mset (oks outcome (dp_unused dp))" "length (dp_shares dp) = rd_k rs + extras"
      "dp_offset dp = off" "dp_size dp = sz" "length (dp_unused dp) \<le> length asgs"
  shows "decode_loop up cr cpu' outcome evs rs job dp extras =
    Some (Inr (sub_slice plain (nat (plain_start job)) (nat (plain_start job) + nat (plain_len job))))"
  using inv
proof (induction "MAX_DECODE_EXTRAS - extras" arbitrary: dp extras rule: less_induct)
  case (less extras dp)
  let ?g = "genuine_share pieces off sz" and ?ok = "oks outcome asgs" and ?sh = "dp_shares dp"
  let ?want = "sub_slice plain (nat (plain_start job)) (nat (plain_start job) + nat (plain_len job))"
  note I = less.prems
  have k1: "1 \<le> rd_k rs" using seg(2) by (simp add: redundancy_ok_def)
  have sub: "set ?sh \<subseteq> set ?ok" using I(1) by (metis Un_upper1 set_mset_mset set_mset_union)
  have "mset (map fst ?ok) = mset (map fst (?sh @ oks outcome (dp_unused dp)))" using I(1) by (metis mset_append mset_map)
  then have "distinct (map fst (?sh @ oks outcome (dp_unused dp)))" using nodes_okD(1)[OF nodes] mset_eq_imp_distinct_iff by blast
  then have dist: "distinct (map fst ?sh)" by simp
  have wf: "\<forall>(num, dat) \<in> set ?sh. 0 \<le> num \<and> num < int (rd_n rs) \<and> length dat = nat sz" using nodes_okD(2)[OF nodes] sub by blast
  note au = unforgeable_authentic[OF auth sub dist k1]
  have "mset (filter P ?ok) = mset (filter P (?sh @ oks outcome (dp_unused dp)))" for P using I(1) by (metis mset_append mset_filter)
  from mset_eq_length[OF this]
  have filt: "length (filter P ?ok) = length (filter P ?sh) + length (filter P (oks outcome (dp_unused dp)))" for P by simp
  have few: "length (filter (\<lambda>p. \<not> ?g p) ?ok) \<le> MAX_DECODE_EXTRAS" "rd_k rs \<le> length (filter ?g ?ok)" using nodes by (auto simp: nodes_ok_def)
  have split: "length (filter ?g ?sh) + length (filter (\<lambda>p. \<not> ?g p) ?sh) = rd_k rs + extras"
    using sum_length_filter_compl[of ?g ?sh] I(2) by simp
  show ?case
  proof (cases "reconstruct_remote cr cpu' ?sh rs job")
    case (Inr x)
    then have "x = ?want" using reconstruct_any[OF seg dist wf _ au] I(2) by auto
    then show ?thesis using Inr by (simp add: decode_loop.simps)
  next
    case (Inl e)
    have e: "e = content_auth_error" using reconstruct_any[OF seg dist wf _ au] I(2) Inl by auto
    have small: "length (filter ?g ?sh) < rd_k rs"
    proof (rule ccontr)
      assume "\<not> length (filter ?g ?sh) < rd_k rs"
      then show False using reconstruct_remote_range[OF seg dist wf _ au] Inl by simp
    qed
    then have ex: "extras < MAX_DECODE_EXTRAS" using split few(1) filt[of "\<lambda>p. \<not> ?g p"] by linarith
    have "1 \<le> length (filter ?g (oks outcome (dp_unused dp)))" using small few(2) filt[of ?g] by linarith
    then have one: "1 \<le> length (oks outcome (dp_unused dp))" using length_filter_le[of ?g "oks outcome (dp_unused dp)"] by linarith
    have "in_turn (evs (Suc extras)) (length (dp_unused dp))" using turns I(5) by (meson in_turn_def le_trans)
    from fetch_one_more_ok[OF this one] piece_range_bounds[OF seg(1,2,4,5)] I(3,4)
    obtain p ys where f: "fetch_one_more outcome (evs (Suc extras)) dp = Some (Inr (Some p), dp\<lparr>dp_unused := ys\<rparr>)"
        "oks outcome (dp_unused dp) = p # oks outcome ys" "length ys \<le> length (dp_unused dp)" by metis
    let ?dp = "dp\<lparr>dp_unused := ys, dp_shares := ?sh @ [p]\<rparr>"
    have "decode_loop up cr cpu' outcome evs rs job ?dp (Suc extras) = Some (Inr ?want)"
      using I f ex by (intro less.hyps) auto
    then show ?thesis using Inl e f(1) ex by (simp add: decode_loop.simps[of _ _ _ _ _ _ _ dp] is_content_auth_failure_def content_auth_error_def)
  qed
qed

section \<open>A committed segment\<close>

lemma oks_set: "set (oks outcome xs) = {p. \<exists>a \<in> set xs. outcome a = Inr p}"
  by (induction xs) (auto split: sum.splits)

text \<open>Every assignment whose piece was not obtained stays available for a replacement.\<close>

lemma unused_complete:
  assumes honest: "\<forall>a p. outcome a = Inr p \<longrightarrow> fst p = pnum a" and dist: "distinct (map pnum asgs)" and sub: "mset d \<subseteq># mset asgs"
  shows "mset (oks outcome asgs) = mset (oks outcome d) + mset (oks outcome (filter (\<lambda>a. pnum a \<notin> set (map fst (oks outcome d))) asgs))"
proof -
  let ?new = "filter (\<lambda>a. pnum a \<notin> set (map fst (oks outcome d))) asgs"
  have dd: "distinct (oks outcome xs)" if "mset xs \<subseteq># mset asgs" for xs
    using oks_pieces(1)[OF honest _ dist, of xs "[]"] that by (auto simp: distinct_map)
  have new: "mset ?new \<subseteq># mset asgs" by (simp add: multiset_filter_subset)
  have da: "set d \<subseteq> set asgs" using set_mset_mono[OF sub] by simp
  have inj: "a = a'" if "a \<in> set asgs" "a' \<in> set asgs" "pnum a = pnum a'" for a a'
    using dist that by (auto simp: distinct_map dest: inj_onD)
  have "set (oks outcome asgs) = set (oks outcome d) \<union> set (oks outcome ?new)"
  proof (intro equalityI subsetI)
    fix p assume "p \<in> set (oks outcome asgs)"
    then obtain a where a: "a \<in> set asgs" "outcome a = Inr p" by (auto simp: oks_set)
    show "p \<in> set (oks outcome d) \<union> set (oks outcome ?new)"
    proof (cases "pnum a \<in> set (map fst (oks outcome d))")
      case True
      then obtain a' q where "a' \<in> set d" "outcome a' = Inr q" "fst q = pnum a" by (auto simp: oks_set)
      then have "a' = a" using inj[of a' a] honest da a by auto
      then show ?thesis using \<open>a' \<in> set d\<close> a by (auto simp: oks_set)
    qed (use a in \<open>auto simp: oks_set\<close>)
  qed (use da in \<open>auto simp: oks_set\<close>)
  moreover have "set (oks outcome d) \<inter> set (oks outcome ?new) = {}"
  proof -
    have "pnum a \<in> set (map fst (oks outcome d))" if "outcome a = Inr p" "p \<in> set (oks outcome d)" for a p
      using that honest by (metis imageI list.set_map)
    moreover have "\<exists>a. outcome a = Inr p \<and> pnum a \<notin> set (map fst (oks outcome d))" if "p \<in> set (oks outcome ?new)" for p
      using that unfolding oks_set by auto
    ultimately show ?thesis by blast
  qed
  ultimately have "mset (oks outcome asgs) = mset (oks outcome d @ oks outcome ?new)"
    using dd[OF sub] dd[OF new] dd[of asgs] by (subst set_eq_iff_mset_eq_distinct[symmetric]) auto
  then show ?thesis by simp
qed

text \<open>A schedule of the first collection: no task panics, the events are possible, and there are enough of them.\<close>

definition schedule_ok :: "'a outcome \<Rightarrow> 'a list \<Rightarrow> nat \<Rightarrow> nat \<Rightarrow> int \<Rightarrow> int \<Rightarrow> event list \<Rightarrow> bool" where
  "schedule_ok outcome asgs k hedge_delay off sz evs \<longleftrightarrow> (\<forall>i. Panicked i \<notin> set evs) \<and> 2 * length asgs \<le> length evs \<and>
    collect_piece_downloads outcome asgs k LAUNCH_MARGIN hedge_delay off sz evs \<noteq> Impossible"

lemma long_tail_ok:
  assumes honest: "\<forall>a p. outcome a = Inr p \<longrightarrow> fst p = pnum a" and dist: "distinct (map pnum asgs)"
    and range: "1 \<le> k" "0 \<le> off" "0 < sz" "off + sz \<le> i64_max" and sched: "schedule_ok outcome asgs k hedge_delay off sz evs"
    and enough: "k \<le> length (oks outcome asgs)"
  obtains dp where "download_pieces_long_tail outcome pnum asgs k hedge_delay off sz evs = Some (Inr dp)" "length (dp_shares dp) = k"
    "mset (oks outcome asgs) = mset (dp_shares dp) + mset (oks outcome (dp_unused dp))" "dp_offset dp = off" "dp_size dp = sz"
    "length (dp_unused dp) \<le> length asgs"
proof -
  have "\<exists>c d. collect_piece_downloads outcome asgs k LAUNCH_MARGIN hedge_delay off sz evs = Returned (Inr c) \<and>
      length (shares c) = k \<and> shares c = oks outcome d \<and> mset d + mset (unused c) \<subseteq># mset asgs"
    using collect_decided[OF range, of evs asgs outcome LAUNCH_MARGIN hedge_delay] sched enough by (simp add: schedule_ok_def)
  then obtain c d where c: "collect_piece_downloads outcome asgs k LAUNCH_MARGIN hedge_delay off sz evs = Returned (Inr c)"
      "length (shares c) = k" "shares c = oks outcome d" "mset d + mset (unused c) \<subseteq># mset asgs" by blast
  have "mset d \<subseteq># mset asgs" using c(4) by (metis mset_subset_eq_add_left subset_mset.order_trans)
  from unused_complete[OF honest dist this] c show ?thesis
    by (intro that[of "\<lparr>dp_shares = shares c, dp_unused = filter (\<lambda>a. pnum a \<notin> set (map fst (shares c))) asgs, dp_offset = off, dp_size = sz\<rparr>"])
      (simp_all add: download_pieces_long_tail_def)
qed

text \<open>What the satellite answers for a segment it has stored; the offset and the nodes are its own business.\<close>

fun answers :: "StoredSegment \<Rightarrow> DownloadSegment \<Rightarrow> bool" where
  "answers (StoredInline mi) seg \<longleftrightarrow>
    ds_position seg = Some (mi_position mi) \<and> ds_encrypted_key seg = mi_encrypted_key mi \<and> ds_encrypted_key_nonce seg = mi_encrypted_key_nonce mi \<and>
    ds_encrypted_inline_data seg = mi_encrypted_inline_data mi \<and> ds_plain_size seg = mi_plain_size mi \<and> ds_addressed_limits seg = []"
| "answers (StoredRemote cs loc sch pieces) seg \<longleftrightarrow>
    ds_position seg = Some loc \<and> ds_encrypted_key seg = cs_encrypted_key cs \<and> ds_encrypted_key_nonce seg = cs_encrypted_key_nonce cs \<and>
    ds_encrypted_inline_data seg = [] \<and> ds_plain_size seg = cs_plain_size cs \<and> ds_segment_size seg = cs_size_encrypted_data cs \<and>
    ds_redundancy_scheme seg = Some sch \<and> ds_addressed_limits seg \<noteq> []"

definition download_params :: "Redundancy \<Rightarrow> int \<Rightarrow> Key \<Rightarrow> CipherSuite \<Rightarrow> nat \<Rightarrow> int \<Rightarrow> int \<Rightarrow> DownloadSegment \<Rightarrow> DecryptParams" where
  "download_params rs off segment_key suite block local_start local_len seg =
    \<lparr>decoded_offset = nat (sat_i64 (off * int (rd_k rs))), encrypted_size = nat (max (ds_segment_size seg) 0), dp_cipher = suite,
     dp_key = segment_key, dp_nonce = (case unwrap_position (ds_position seg) of (part, index) \<Rightarrow> content_nonce part index), dp_block_size = block,
     plain_start = local_start, plain_len = local_len, plain_size = ds_plain_size seg\<rparr>"

text \<open>
  The network during the download of a remote segment: the nodes behave as in \<open>nodes_ok\<close> for the requested range of the
  pieces, forgeries do not authenticate, and the schedules are possible and long enough.
\<close>

definition network_ok :: "Crypto \<Rightarrow> OrderCrypto \<Rightarrow> backend \<Rightarrow> SegmentNet \<Rightarrow> nat \<Rightarrow> Key \<Rightarrow> CipherSuite \<Rightarrow> nat \<Rightarrow> int \<Rightarrow> int \<Rightarrow> DownloadSegment \<Rightarrow>
    Redundancy \<Rightarrow> bytes \<Rightarrow> bytes list \<Rightarrow> bool" where
  "network_ok cr oc cpu net hedge_delay segment_key suite block local_start local_len seg rs enc pieces \<longleftrightarrow>
    (\<exists>asgs piece_key. download_assignments (ds_addressed_limits seg) = Inr asgs \<and> private_from_bytes oc (ds_private_key seg) = Inr piece_key \<and>
      (\<forall>d off sz. new_decrypter cr suite segment_key (case unwrap_position (ds_position seg) of (part, index) \<Rightarrow> content_nonce part index) block = Inr d \<longrightarrow>
        piece_byte_range local_start local_len (out_block_size d) (in_block_size d) rs = (off, sz) \<longrightarrow>
        (let outcome = net_outcome net piece_key off sz
         in nodes_ok rs sz (genuine_share pieces off sz) outcome asgs \<and>
            unforgeable cr cpu rs (download_params rs off segment_key suite block local_start local_len seg) (set (oks outcome asgs)) enc \<and>
            schedule_ok outcome asgs (rd_k rs) hedge_delay off sz (net_events net 0) \<and> (\<forall>e. in_turn (net_events net (Suc e)) (length asgs)))))"

lemma decrypt_remote_segment_ok:
  assumes enc: "crypto_ok cr" "encrypt_remote cr plain suite key (content_nonce part index) block = Inr enc" "0 < block"
    and rs: "ds_redundancy_scheme seg = Some sch" "from_scheme sch = Inr rs" "redundancy_ok rs" "encode_pieces cpu' enc rs = Inr pieces"
    and seg: "ds_position seg = Some (part, index)" "ds_segment_size seg = int (length enc)" "ds_plain_size seg = int (length plain)"
      "int (length enc) + 2 ^ 33 \<le> i64_max"
    and range: "0 \<le> ls" "0 < ll" "ls + ll \<le> int (length plain)"
    and net: "network_ok cr oc cpu net hedge_delay key suite block ls ll seg rs enc pieces"
  shows "decrypt_remote_segment show_enc show_up cr oc cpu net hedge_delay key suite block ls ll seg =
    Some (Inr (sub_slice plain (nat ls) (nat ls + nat ll)))"
proof -
  let ?nonce = "content_nonce part index"
  have up: "unwrap_position (ds_position seg) = (part, index)" using seg(1) by (simp add: unwrap_position_def)
  have fit: "fits_segment cr (download_params rs off key suite block ls ll seg) plain enc" for off
    using enc range seg up by (simp add: fits_segment_def download_params_def)
  obtain d where d: "new_decrypter cr suite key ?nonce block = Inr d"
    using fits_segmentE[OF fit] up unfolding download_params_def by auto
  obtain off sz where r: "piece_byte_range ls ll (out_block_size d) (in_block_size d) rs = (off, sz)"
    by (cases "piece_byte_range ls ll (out_block_size d) (in_block_size d) rs")
  let ?job = "download_params rs off key suite block ls ll seg"
  obtain asgs pk where a: "download_assignments (ds_addressed_limits seg) = Inr asgs" "private_from_bytes oc (ds_private_key seg) = Inr pk"
    and n: "nodes_ok rs sz (genuine_share pieces off sz) (net_outcome net pk off sz) asgs"
      "unforgeable cr cpu rs ?job (set (oks (net_outcome net pk off sz) asgs)) enc"
      "schedule_ok (net_outcome net pk off sz) asgs (rd_k rs) hedge_delay off sz (net_events net 0)" "\<forall>e. in_turn (net_events net (Suc e)) (length asgs)"
    using net d r up unfolding network_ok_def Let_def by auto
  let ?outcome = "net_outcome net pk off sz"
  have job: "dp_cipher ?job = suite" "dp_key ?job = key" "dp_nonce ?job = ?nonce" "dp_block_size ?job = block" "plain_start ?job = ls"
      "plain_len ?job = ll" "decoded_offset ?job = nat (sat_i64 (off * int (rd_k rs)))"
    using up by (simp_all add: download_params_def)
  have d': "new_decrypter cr (dp_cipher ?job) (dp_key ?job) (dp_nonce ?job) (dp_block_size ?job) = Inr d" using d job by simp
  have r': "piece_byte_range (plain_start ?job) (plain_len ?job) (out_block_size d) (in_block_size d) rs = (off, sz)" using r job by simp
  have b: "0 \<le> off" "0 < sz" "off + sz \<le> i64_max" using piece_range_bounds[OF fit rs(3) d' r'] by auto
  have k: "1 \<le> rd_k rs" using rs(3) by (simp add: redundancy_ok_def)
  have "rd_k rs \<le> length (filter (genuine_share pieces off sz) (oks ?outcome asgs))" using n(1) by (simp add: nodes_ok_def)
  also have "\<dots> \<le> length (oks ?outcome asgs)" by (rule length_filter_le)
  finally have enough: "rd_k rs \<le> length (oks ?outcome asgs)" .
  have h: "\<forall>a p. ?outcome a = Inr p \<longrightarrow> fst p = piece_num a" "distinct (map piece_num asgs)" using n(1) by (auto simp: nodes_ok_def)
  obtain dp where dp: "download_pieces_long_tail ?outcome piece_num asgs (rd_k rs) hedge_delay off sz (net_events net 0) = Some (Inr dp)"
      "length (dp_shares dp) = rd_k rs" "mset (oks ?outcome asgs) = mset (dp_shares dp) + mset (oks ?outcome (dp_unused dp))"
      "dp_offset dp = off" "dp_size dp = sz" "length (dp_unused dp) \<le> length asgs"
    using long_tail_ok[OF h k b n(3) enough] .
  have "decode_loop (map_uplink show_enc show_up) cr cpu ?outcome (net_events net) rs ?job dp 0 =
      Some (Inr (sub_slice plain (nat ls) (nat ls + nat ll)))"
    using decode_loop_ok[OF fit rs(3,4) d' r' job(7) n(1,2,4) dp(3) _ dp(4-6), of 0] dp(2) job(5,6) by simp
  then show ?thesis using up rs(1,2) d a r dp(1) by (simp add: decrypt_remote_segment_def download_params_def)
qed

lemma segment_range_bounds:
  assumes "segment_plain_range os ol po ps = (ls, ll)" "ll \<noteq> 0" "0 \<le> po"
  shows "0 \<le> ls \<and> 0 < ll \<and> ls + ll \<le> ps"
proof -
  have ps: "0 < ps" using assms(1,2) by (simp add: segment_plain_range_def split: if_splits)
  then have "i64_min \<le> po + ps" using assms(3) by simp
  then have "sat_i64 (po + ps) \<le> po + ps" by (simp add: sat_i64_def)
  moreover obtain x y where "(if y \<le> x then (0, 0) else (x - po, y - x)) = (ls, ll)" "po \<le> x" "y \<le> sat_i64 (po + ps)"
    using assms(1,2) that[of "max os po" "min (sat_i64 (os + ol)) (sat_i64 (po + ps))"]
    by (simp add: segment_plain_range_def Let_def split: if_splits)
  ultimately show ?thesis using assms(2) by (auto split: if_splits)
qed

lemma slice_plain_sub_slice:
  assumes "0 \<le> ls" "0 < ll" "ls + ll \<le> int (length full)" "int (length full) \<le> i64_max"
  shows "slice_plain full ls ll = sub_slice full (nat ls) (nat ls + nat ll)"
proof -
  have "nat ls + nat ll \<le> length full" using assms by linarith
  moreover then have "usize_sat (nat ls + nat ll) = nat ls + nat ll" using assms(4) by (intro usize_sat_id)
  ultimately show ?thesis using assms(2) by (simp add: slice_plain_def min_def)
qed

lemma nonce_from_slice_id: "length n = 24 \<Longrightarrow> nonce_from_slice n = Inr n"
  by (simp add: nonce_from_slice_def NONCE_SIZE_def)

section \<open>The properties of a segment\<close>

text \<open>
  What holds of a stored segment when it is downloaded.  For a remote one: the scheme is one the codec supports, the
  sizes stay clear of the limit of \<open>i64\<close>, and the network behaves.
\<close>

fun reachable_segment :: "Crypto \<Rightarrow> OrderCrypto \<Rightarrow> backend \<Rightarrow> SegmentNet \<Rightarrow> nat \<Rightarrow> Key \<Rightarrow> SegmentJob \<Rightarrow> int \<Rightarrow> int \<Rightarrow> DownloadSegment \<Rightarrow> StoredSegment \<Rightarrow> bool" where
  "reachable_segment cr oc cpu net hedge_delay key job ls ll seg (StoredInline mi) \<longleftrightarrow> True"
| "reachable_segment cr oc cpu net hedge_delay key job ls ll seg (StoredRemote cs loc sch pieces) \<longleftrightarrow>
    (\<forall>rs enc. from_scheme sch = Inr rs \<longrightarrow>
      encrypt_remote cr (job_plain job) (job_cipher job) key (content_nonce (job_part job) (job_index job)) (job_block_size job) = Inr enc \<longrightarrow>
      redundancy_ok rs \<and> int (length enc) + 2 ^ 33 \<le> i64_max \<and>
      network_ok cr oc cpu net hedge_delay key (job_cipher job) (job_block_size job) ls ll seg rs enc pieces)"

lemma segment_reads_back:
  assumes "crypto_ok cr" and "length key = 32" and "length nonce = 24"
    and "commit_one_segment show_enc show_up cr oc cpu env key nonce job = Inr (n, stored)"
    and "answers stored seg" and "0 < job_block_size job" and "int (length (job_plain job)) \<le> i64_max" and "0 \<le> ds_plain_offset seg"
    and "segment_plain_range object_start object_len (ds_plain_offset seg) (ds_plain_size seg) = (ls, ll)"
    and "reachable_segment cr oc' cpu' net hedge_delay key job ls ll seg stored"
  shows "decrypt_one_segment show_enc' show_up' cr oc' cpu' net hedge_delay (job_content_key job) (job_cipher job) (job_block_size job)
      object_start object_len seg = Some (Inr (sub_slice (job_plain job) (nat ls) (nat ls + nat ll)))"
proof (cases "ll = 0")
  case True
  then show ?thesis using assms(9) by (simp add: decrypt_one_segment_def sub_slice_def)
next
  case False
  note b = segment_range_bounds[OF assms(9) False assms(8)]
  show ?thesis
  proof (cases stored)
    case (StoredInline mi)
    have c: "mi_position mi = (job_part job, job_index job)" "mi_encrypted_key_nonce mi = nonce" "mi_plain_size mi = int (length (job_plain job))"
        "decrypt_key cr (mi_encrypted_key mi) (job_cipher job) (job_content_key job) nonce = Inr key"
        "decrypt_inline cr (mi_encrypted_inline_data mi) (job_cipher job) key (content_nonce (job_part job) (job_index job)) = Inr (job_plain job)"
      using committed_inline[OF assms(4)[unfolded StoredInline] assms(1-3)] assms(7) by simp_all
    have "slice_plain (job_plain job) ls ll = sub_slice (job_plain job) (nat ls) (nat ls + nat ll)"
      using b assms(5,7) c(3) StoredInline by (intro slice_plain_sub_slice) auto
    then show ?thesis using assms(3,5,9) False StoredInline c
      by (simp add: decrypt_one_segment_def unwrap_position_def nonce_from_slice_id)
  next
    case (StoredRemote cs loc sch pieces)
    obtain enc rs where c: "loc = (job_part job, job_index job)" "cs_encrypted_key_nonce cs = nonce"
        "decrypt_key cr (cs_encrypted_key cs) (job_cipher job) (job_content_key job) nonce = Inr key"
        "encrypt_remote cr (job_plain job) (job_cipher job) key (content_nonce (job_part job) (job_index job)) (job_block_size job) = Inr enc"
        "from_scheme sch = Inr rs" "encode_pieces cpu enc rs = Inr pieces" "cs_size_encrypted_data cs = min (int (length enc)) i64_max"
        "cs_plain_size cs = min (int (length (job_plain job))) i64_max"
      using committed_remote[OF assms(4)[unfolded StoredRemote] assms(1-3)] by metis
    have net: "redundancy_ok rs" "int (length enc) + 2 ^ 33 \<le> i64_max"
        "network_ok cr oc' cpu' net hedge_delay key (job_cipher job) (job_block_size job) ls ll seg rs enc pieces"
      using assms(10) c(4,5) StoredRemote by simp_all
    have seg: "ds_position seg = Some (job_part job, job_index job)" "ds_segment_size seg = int (length enc)" "ds_plain_size seg = int (length (job_plain job))"
        "ds_redundancy_scheme seg = Some sch" "ds_encrypted_key_nonce seg = nonce" "ds_encrypted_key seg = cs_encrypted_key cs"
        "ds_encrypted_inline_data seg = []" "ds_addressed_limits seg \<noteq> []"
      using assms(5,7) c(1,2,7,8) net(2) StoredRemote by simp_all
    have "decrypt_remote_segment show_enc' show_up' cr oc' cpu' net hedge_delay key (job_cipher job) (job_block_size job) ls ll seg =
        Some (Inr (sub_slice (job_plain job) (nat ls) (nat ls + nat ll)))"
      using b seg(3) by (intro decrypt_remote_segment_ok[OF assms(1) c(4) assms(6) seg(4) c(5) net(1) c(6) seg(1-3) net(2) _ _ _ net(3)]) auto
    then show ?thesis using assms(3,9) False seg c(3)
      by (simp add: decrypt_one_segment_def unwrap_position_def nonce_from_slice_id)
  qed
qed

text \<open>
  C2: a segment that \<open>commit_one_segment\<close> has committed, inline or remote, is read back by \<open>decrypt_one_segment\<close>: the
  part of the segment that the requested range of the object covers is returned, byte for byte, from the satellite's
  answer and the pieces on the nodes, whichever tasks finish first, whichever nodes fail as long as \<open>k\<close> of the pieces are
  genuine, and although up to two nodes deliver corrupt pieces.
\<close>

theorem committed_segment_reads_back:
  assumes "crypto_ok cr" and "length key = 32" and "length nonce = 24"
    and "commit_one_segment show_enc show_up cr oc cpu env key nonce job = Inr (n, stored)"
    and "answers stored seg" and "0 < job_block_size job" and "int (length (job_plain job)) \<le> i64_max" and "0 \<le> ds_plain_offset seg"
    and "segment_plain_range object_start object_len (ds_plain_offset seg) (ds_plain_size seg) = (ls, ll)"
    and "reachable_segment cr oc' cpu' net hedge_delay key job ls ll seg stored"
  shows "decrypt_one_segment show_enc' show_up' cr oc' cpu' net hedge_delay (job_content_key job) (job_cipher job) (job_block_size job)
      object_start object_len seg = Some (Inr (sub_slice (job_plain job) (nat ls) (nat ls + nat ll)))"
  using segment_reads_back[OF assms] .

definition inline_job :: SegmentJob where
  "inline_job = \<lparr>job_part = 0, job_index = 0, job_plain = [1, 2, 3], job_etag = [9], job_content_key = replicate 32 2, job_cipher = AES_GCM, job_block_size = 32\<rparr>"

definition inline_env :: SegmentEnv where
  "inline_env = \<lparr>se_inline = Inr (), se_begin = (\<lambda>_. Inl (pe_new ProtocolKind [])), se_results = (\<lambda>_ _ _ _. []),
     se_retry = (\<lambda>_ _ _. Inl (pe_new ProtocolKind [])), se_commit = Inr ()\<rparr>"

definition inline_answer :: "StoredSegment \<Rightarrow> DownloadSegment" where
  "inline_answer stored = (case stored of
     StoredInline mi \<Rightarrow> \<lparr>ds_position = Some (mi_position mi), ds_plain_offset = 0, ds_plain_size = mi_plain_size mi, ds_segment_size = 0,
       ds_encrypted_key = mi_encrypted_key mi, ds_encrypted_key_nonce = mi_encrypted_key_nonce mi, ds_encrypted_inline_data = mi_encrypted_inline_data mi,
       ds_addressed_limits = [], ds_private_key = [], ds_redundancy_scheme = None\<rparr>
   | StoredRemote _ _ _ _ \<Rightarrow> \<lparr>ds_position = None, ds_plain_offset = 0, ds_plain_size = 0, ds_segment_size = 0, ds_encrypted_key = [],
       ds_encrypted_key_nonce = [], ds_encrypted_inline_data = [], ds_addressed_limits = [], ds_private_key = [], ds_redundancy_scheme = None\<rparr>)"

theorem committed_segment_reads_back_witness:
  "\<exists>n stored. commit_one_segment (\<lambda>_. []) (\<lambda>_. []) toy_crypto toy_order_crypto Portable inline_env (replicate 32 1) (replicate 24 0) inline_job =
      Inr (n, stored) \<and>
    decrypt_one_segment (\<lambda>_. []) (\<lambda>_. []) toy_crypto toy_order_crypto Portable \<lparr>net_outcome = (\<lambda>_ _ _ _. Inr (0, [])), net_events = (\<lambda>_. [])\<rparr> 0
      (replicate 32 2) AES_GCM 32 1 5 (inline_answer stored) = Some (Inr [2, 3])"
proof -
  let ?commit = "commit_one_segment (\<lambda>_. []) (\<lambda>_. []) toy_crypto toy_order_crypto Portable inline_env (replicate 32 1) (replicate 24 0) inline_job"
  have "case ?commit of Inr (n, StoredInline mi) \<Rightarrow> mi_plain_size mi = 3 | _ \<Rightarrow> False" by code_simp
  then obtain n mi where c: "?commit = Inr (n, StoredInline mi)" and sz: "mi_plain_size mi = 3"
    by (auto split: sum.splits prod.splits StoredSegment.splits)
  have r: "segment_plain_range 1 5 0 3 = (1, 2)" by code_simp
  show ?thesis
    using committed_segment_reads_back[OF toy_crypto_ok _ _ c, of "inline_answer (StoredInline mi)" 1 5 1 2 toy_order_crypto Portable
        "\<lparr>net_outcome = (\<lambda>_ _ _ _. Inr (0, [])), net_events = (\<lambda>_. [])\<rparr>" 0 "\<lambda>_. []" "\<lambda>_. []"] c sz r
    by (intro exI[of _ n] exI[of _ "StoredInline mi"]) (simp add: inline_answer_def inline_job_def sub_slice_def)
qed

text \<open>
  A remote segment's plaintext is encrypted and erasure-coded, and any range of it is downloaded again by the remote half
  of \<open>decrypt_one_segment\<close>: the long-tail collection, the search for a subset of pieces that authenticates, and up to two
  rounds of fetching one more piece.  The result is exactly the requested bytes, in spite of failing nodes and of two
  corrupt ones.
\<close>

theorem remote_segment_reads_back:
  assumes "crypto_ok cr" and "encrypt_remote cr plain suite key (content_nonce part index) block = Inr enc" and "0 < block"
    and "ds_redundancy_scheme seg = Some sch" and "from_scheme sch = Inr rs" and "redundancy_ok rs" and "encode_pieces cpu' enc rs = Inr pieces"
    and "ds_position seg = Some (part, index)" and "ds_segment_size seg = int (length enc)" and "ds_plain_size seg = int (length plain)"
    and "int (length enc) + 2 ^ 33 \<le> i64_max" and "0 \<le> ls" and "0 < ll" and "ls + ll \<le> int (length plain)"
    and "network_ok cr oc cpu net hedge_delay key suite block ls ll seg rs enc pieces"
  shows "decrypt_remote_segment show_enc show_up cr oc cpu net hedge_delay key suite block ls ll seg =
    Some (Inr (sub_slice plain (nat ls) (nat ls + nat ll)))"
  using decrypt_remote_segment_ok[OF assms] .

text \<open>
  One byte on two nodes, of which one suffices.  The corrupt node is the first to answer; what it delivers does not
  authenticate, and the other node's piece is fetched.
\<close>

definition remote_scheme :: RedundancyScheme where
  "remote_scheme = \<lparr>min_req = 1, total = 2, repair_threshold = 1, success_threshold = 2, erasure_share_size = 17\<rparr>"

definition remote_limits :: "AddressedOrderLimit list" where
  "remote_limits = replicate 2 \<lparr>al_limit = Some sample_limit,
     al_address = Some \<lparr>na_address = [65], na_noise_info = None, na_debounce_limit = 0, na_features = 0\<rparr>, al_tags = []\<rparr>"

definition remote_answer :: DownloadSegment where
  "remote_answer = \<lparr>ds_position = Some (0, 0), ds_plain_offset = 0, ds_plain_size = 1, ds_segment_size = 85, ds_encrypted_key = [],
     ds_encrypted_key_nonce = [], ds_encrypted_inline_data = [], ds_addressed_limits = remote_limits, ds_private_key = replicate 32 3,
     ds_redundancy_scheme = Some remote_scheme\<rparr>"

definition remote_net :: SegmentNet where
  "remote_net = \<lparr>net_outcome = (\<lambda>_ _ _ a. if piece_num a = 0 then Inr (0, replicate 17 1) else if piece_num a = 1 then Inr (1, 5 # replicate 16 7)
     else Inl (PieceDownloadFailure (piece_num a) [] Connection DialTimeout)), net_events = (\<lambda>_. replicate 4 (Joined 0))\<rparr>"

definition remote_decrypter :: Transformer where
  "remote_decrypter = AesGcmDecrypter toy_crypto (replicate 32 0) (1 # replicate 11 0) 1"

lemma remote_decrypter_eq: "new_decrypter toy_crypto AES_GCM (replicate 32 0) (content_nonce 0 0) 17 = Inr remote_decrypter"
  "in_block_size remote_decrypter = 17" "out_block_size remote_decrypter = 1"
proof -
  have "take 12 (content_nonce 0 0) = 1 # replicate 11 0" "length (content_nonce 0 0) = 24" by code_simp+
  then show "new_decrypter toy_crypto AES_GCM (replicate 32 0) (content_nonce 0 0) 17 = Inr remote_decrypter"
    by (simp add: remote_decrypter_def new_decrypter_def to_aes_gcm_nonce_def check_block_size_def AES_GCM_NONCE_SIZE_def AES_GCM_TAG_SIZE_def)
qed (simp_all add: remote_decrypter_def AesGcmDecrypter_def AES_GCM_TAG_SIZE_def)

lemma remote_unforgeable:
  assumes "dp_cipher job = AES_GCM" "dp_key job = replicate 32 0" "dp_nonce job = content_nonce 0 0" "dp_block_size job = 17" "decoded_offset job = 0"
  shows "unforgeable toy_crypto Portable sample_redundancy job (set sample_shares) sample_enc"
  unfolding unforgeable_def Let_def
proof (intro allI impI)
  fix d chosen decoded b x
  assume "new_decrypter toy_crypto (dp_cipher job) (dp_key job) (dp_nonce job) (dp_block_size job) = Inr d"
  then have d: "d = remote_decrypter" using remote_decrypter_eq(1) assms by simp
  note n = remote_decrypter_eq(2)[folded d] assms(5)
  assume "length chosen = rd_k sample_redundancy \<and> distinct (map fst chosen) \<and> set chosen \<subseteq> set sample_shares"
  then have ch: "chosen = [(0, replicate 17 1)] \<or> chosen = [(1, 5 # replicate 16 7)]"
    by (auto simp: sample_redundancy_def sample_shares_def length_Suc_conv)
  have dec: "decode_encrypted_slices Portable [(0, replicate 17 1)] sample_redundancy 0 None = Inr (replicate 17 1)"
    "decode_encrypted_slices Portable [(1, 5 # replicate 16 7)] sample_redundancy 0 None = Inr (5 # replicate 16 7)"
    by code_simp+
  assume a: "decode_encrypted_slices Portable chosen sample_redundancy 0 None = Inr decoded"
    "b * in_block_size d - decoded_offset job + in_block_size d \<le> length decoded"
    "transform d (sub_slice decoded (b * in_block_size d - decoded_offset job) (b * in_block_size d - decoded_offset job + in_block_size d)) (int b) = Inr x"
  have "length decoded = 17" using ch dec a(1) by auto
  then have b: "b = 0" using a(2) n by simp
  have bad: "transform remote_decrypter (sub_slice (replicate 17 1) 0 17) 0 = Inl DecryptionFailed"
    and good: "sub_slice (5 # replicate 16 7) 0 17 = sub_slice sample_enc 0 17" by code_simp+
  have "chosen = [(1, 5 # replicate 16 7)]" using ch dec(1) a(1,3) bad b n d by auto
  then show "sub_slice decoded (b * in_block_size d - decoded_offset job) (b * in_block_size d - decoded_offset job + in_block_size d) =
      sub_slice sample_enc (b * in_block_size d) (b * in_block_size d + in_block_size d)"
    using dec(2) a(1) b n good by simp
qed

lemma remote_network_ok:
  assumes "genuine_share pieces 0 17 (1, 5 # replicate 16 7)"
  shows "network_ok toy_crypto toy_order_crypto Portable remote_net 0 (replicate 32 0) AES_GCM 17 0 1 remote_answer sample_redundancy sample_enc pieces"
proof -
  let ?out = "net_outcome remote_net (replicate 32 3) 0 17" and ?evs = "replicate 4 (Joined 0)"
  have pos: "unwrap_position (ds_position remote_answer) = (0, 0)" by (simp add: remote_answer_def unwrap_position_def)
  have r: "piece_byte_range 0 1 1 17 sample_redundancy = (0, 17)" by code_simp
  have "\<exists>a b. download_assignments remote_limits = Inr [a, b] \<and> piece_num a = 0 \<and> piece_num b = 1"
    by (simp add: download_assignments_def remote_limits_def numeral_2_eq_2 from_addressed_def sample_limit_def node_id_from_bytes_def ok_or_def)
  then obtain a b where ab: "download_assignments remote_limits = Inr [a, b]" "piece_num a = 0" "piece_num b = 1" by blast
  have oks: "oks ?out [a, b] = sample_shares" using ab by (simp add: remote_net_def sample_shares_def)
  have "nodes_ok sample_redundancy 17 (genuine_share pieces 0 17) ?out [a, b]"
    using ab assms oks by (auto simp: nodes_ok_def sample_redundancy_def remote_net_def MAX_DECODE_EXTRAS_def sample_shares_def split: if_splits)
  moreover have "unforgeable toy_crypto Portable sample_redundancy (download_params sample_redundancy 0 (replicate 32 0) AES_GCM 17 0 1 remote_answer)
      (set (oks ?out [a, b])) sample_enc"
    unfolding oks by (rule remote_unforgeable) (simp_all add: download_params_def pos sat_i64_def)
  moreover have "schedule_ok ?out [a, b] 1 0 0 17 ?evs"
    using ab by (simp add: schedule_ok_def collect_piece_downloads_def start_def launch_def collect_loop.simps remote_net_def numeral_eq_Suc remove_nth_def LAUNCH_MARGIN_def)
  moreover have "in_turn ?evs (length [a, b])" by (simp add: in_turn_def)
  moreover have flds: "ds_addressed_limits remote_answer = remote_limits" "private_from_bytes toy_order_crypto (ds_private_key remote_answer) = Inr (replicate 32 3)"
      "rd_k sample_redundancy = 1" "net_events remote_net e = ?evs" for e
    by (simp_all add: remote_answer_def private_from_bytes_def sample_redundancy_def remote_net_def)
  ultimately show ?thesis
    unfolding network_ok_def pos Let_def prod.case flds
    using remote_decrypter_eq r by (intro exI[of _ "[a, b]"] exI[of _ "replicate 32 3"]) (simp add: ab(1))
qed

theorem remote_segment_reads_back_witness:
  "decrypt_remote_segment (\<lambda>_. []) (\<lambda>_. []) toy_crypto toy_order_crypto Portable remote_net 0 (replicate 32 0) AES_GCM 17 0 1 remote_answer = Some (Inr [5])"
proof -
  have e: "encrypt_remote toy_crypto [5] AES_GCM (replicate 32 0) (content_nonce 0 0) 17 = Inr sample_enc" by code_simp
  have l: "length sample_enc = 85" by code_simp
  have sch: "from_scheme remote_scheme = Inr sample_redundancy" by code_simp
  have rs: "redundancy_ok sample_redundancy" by (simp add: redundancy_ok_def sample_redundancy_def rd_stripe_size_def)
  have "case encode_pieces Portable sample_enc sample_redundancy of Inl _ \<Rightarrow> False | Inr ps \<Rightarrow> genuine_share ps 0 17 (1, 5 # replicate 16 7)"
    by code_simp
  then obtain ps where ps: "encode_pieces Portable sample_enc sample_redundancy = Inr ps" "genuine_share ps 0 17 (1, 5 # replicate 16 7)"
    by (auto split: sum.splits)
  show ?thesis
    using remote_segment_reads_back[OF toy_crypto_ok e _ _ sch rs ps(1) _ _ _ _ _ _ _ remote_network_ok[OF ps(2)]] l
    by (simp add: remote_answer_def sub_slice_def)
qed

end
