(* ===== verification/Object_Reader.thy ===== *)
theory Object_Reader
  imports Object_Download "HOL-Library.Product_Lexorder" "HOL-Library.Sublist"
begin

text \<open>
  Reading an object: \<open>download_segments\<close> of \<open>crates/storj/src/project.rs\<close> and the reader \<open>Download\<close> of
  \<open>crates/storj/src/upload.rs\<close>.  The satellite is two functions, \<open>list_segments\<close> (from a cursor) and \<open>download_segment\<close>
  (of a position).  The channel between the background task and the reader is the list of the results that are still to
  come; \<open>None\<close> in it stands for a result the task waits for without end.  Each call of \<open>poll_recv\<close> finds the next
  result ready or not, which a list of flags says.  Telemetry is left out.

  Shown: listing the segments page by page ends, with all of them; the end of the object is reported only after an error or
  when exactly the promised number of bytes was delivered; a stored object is read back over every range.
\<close>

section \<open>The code\<close>

subsection \<open>The reader\<close>

record DownloadState =
  dl_complete :: bool
  dl_info :: Object
  dl_buf :: bytes
  dl_pos :: nat
  dl_rx :: "(PublicError + bytes) option list option"
  dl_remaining :: int

definition dl_new :: "Object \<Rightarrow> bytes \<Rightarrow> DownloadState" where
  "dl_new info dat = \<lparr>dl_complete = False, dl_info = info, dl_buf = dat, dl_pos = 0, dl_rx = None, dl_remaining = 0\<rparr>"

definition streaming :: "Object \<Rightarrow> (PublicError + bytes) option list \<Rightarrow> int \<Rightarrow> DownloadState" where
  "streaming info rx want = \<lparr>dl_complete = False, dl_info = info, dl_buf = [], dl_pos = 0, dl_rx = Some rx, dl_remaining = want\<rparr>"

definition cancel :: "DownloadState \<Rightarrow> DownloadState" where
  "cancel st = st\<lparr>dl_rx := None\<rparr>"

datatype PollRead = ReadPending | ReadOk bytes | ReadErr PublicError

definition missing_data :: PublicError where
  "missing_data = pe_new ProtocolKind ''download missing segment data''"

text \<open>A segment that is not empty is handed out by the next round of the loop, so the loop goes on only over empty ones.\<close>

function poll_read_loop :: "bool list \<Rightarrow> nat \<Rightarrow> DownloadState \<Rightarrow> PollRead \<times> DownloadState" where
  "poll_read_loop ready cap st =
    (if dl_pos st < length (dl_buf st) then
       (let n = min cap (length (dl_buf st) - dl_pos st);
            st' = st\<lparr>dl_pos := dl_pos st + n\<rparr>;
            st' = (if dl_pos st' = length (dl_buf st') \<and> dl_remaining st' = 0 then st'\<lparr>dl_complete := True\<rparr> else st')
        in (ReadOk (sub_slice (dl_buf st) (dl_pos st) (dl_pos st + n)), st'))
     else case dl_rx st of
       None \<Rightarrow> (ReadOk [], st\<lparr>dl_complete := True\<rparr>)
     | Some rx \<Rightarrow>
       if ready = [] \<or> \<not> hd ready then (ReadPending, st)
       else case rx of
         None # _ \<Rightarrow> (ReadPending, st)
       | Some (Inr segment) # rest \<Rightarrow>
           poll_read_loop (tl ready) cap
             (st\<lparr>dl_remaining := dl_remaining st - min (int (length segment)) i64_max, dl_buf := segment, dl_pos := 0, dl_rx := Some rest\<rparr>)
       | Some (Inl e) # _ \<Rightarrow> (ReadErr e, cancel st)
       | [] \<Rightarrow>
           if dl_remaining st \<noteq> 0 then (ReadErr missing_data, cancel st)
           else (ReadOk [], (cancel st)\<lparr>dl_complete := True\<rparr>))"
  by pat_completeness auto
termination
  by (relation "measure (\<lambda>(ready, _, _). length ready)") (auto simp: neq_Nil_conv)

declare poll_read_loop.simps [simp del]

definition poll_read_inner :: "bool list \<Rightarrow> nat \<Rightarrow> DownloadState \<Rightarrow> PollRead \<times> DownloadState" where
  "poll_read_inner ready cap st = (if cap = 0 then (ReadOk [], st) else poll_read_loop ready cap st)"

text \<open>A history of reads, each with the room in the caller's buffer.\<close>

fun read_calls :: "(bool list \<times> nat) list \<Rightarrow> DownloadState \<Rightarrow> PollRead list \<times> DownloadState" where
  "read_calls [] st = ([], st)"
| "read_calls ((ready, cap) # polls) st =
    (let (r, st) = poll_read_inner ready cap st; (rs, st) = read_calls polls st in (r # rs, st))"

subsection \<open>The segments of an object\<close>

definition ENCRYPTION_BLOCK_SIZE :: nat where "ENCRYPTION_BLOCK_SIZE = 29 * 256"

definition encryption_from_params :: "(int \<times> int) option \<Rightarrow> CipherSuite \<times> nat" where
  "encryption_from_params params =
    (let suite = (case map_option fst params of
           None \<Rightarrow> AES_GCM
         | Some v \<Rightarrow> if v = 2 \<or> v = 0 then AES_GCM else if v = 1 then NULL else if v = 3 then SECRET_BOX else CipherSuite v);
         block = (case map_option snd params of Some b \<Rightarrow> if b > 0 then nat b else ENCRYPTION_BLOCK_SIZE | None \<Rightarrow> ENCRYPTION_BLOCK_SIZE)
     in (suite, block))"

record SegmentListItem =
  sli_position :: "SegmentPosition option"
  sli_plain_size :: int
  sli_plain_offset :: int
  sli_created_at :: "PbTimestamp option"
  sli_encrypted_e_tag :: bytes
  sli_encrypted_key_nonce :: bytes
  sli_encrypted_key :: bytes

record SegmentList =
  sl_items :: "SegmentListItem list"
  sl_more :: bool

record DownloadObjectResponse =
  dr_object :: "PbObject option"
  dr_segment_list :: "SegmentList option"
  dr_segment_download :: "DownloadSegment list"

text \<open>What the object says of itself: its description, and the cipher and the block size of its content.\<close>

definition object_info :: "(ErrorKind \<Rightarrow> string) \<Rightarrow> (UplinkError \<Rightarrow> string) \<Rightarrow> Crypto \<Rightarrow> UserPb \<Rightarrow> Key \<Rightarrow> bytes \<Rightarrow> PbObject option \<Rightarrow>
    PublicError + (Object \<times> CipherSuite \<times> nat)" where
  "object_info show_enc show_up cr pb ckey key obj =
    (let info = object_from_proto obj key;
         (suite, block) = encryption_from_params (Option.bind obj po_encryption_parameters)
     in case obj of
          Some ob \<Rightarrow>
            if po_encrypted_metadata ob \<noteq> [] then
              try_bind (map_err (map_uplink show_enc show_up)
                (decrypt_user_data cr pb (po_encrypted_metadata ob) (po_encrypted_metadata_encrypted_key ob) (po_encrypted_metadata_nonce ob) suite ckey))
                (\<lambda>(meta, user).
                 Inr (info\<lparr>ob_custom := user\<rparr>,
                      if encryption_type meta \<noteq> 0 then CipherSuite (encryption_type meta) else suite,
                      if encryption_block_size meta > 0 then nat (encryption_block_size meta) else block))
            else Inr (info, suite, block)
        | None \<Rightarrow> Inr (info, suite, block))"

definition list_cursor :: "SegmentList \<Rightarrow> SegmentPosition option" where
  "list_cursor lst = (if sl_items lst = [] then None else sli_position (last (sl_items lst)))"

partial_function (option) list_remaining :: "(SegmentPosition option \<Rightarrow> PublicError + SegmentList) \<Rightarrow> SegmentList \<Rightarrow> (PublicError + SegmentList) option" where
  "list_remaining list_segments lst =
    (if \<not> sl_more lst then Some (Inr lst)
     else case list_segments (list_cursor lst) of
       Inl e \<Rightarrow> Some (Inl e)
     | Inr page \<Rightarrow>
       if sl_items page = [] then Some (Inr lst)
       else list_remaining list_segments (lst\<lparr>sl_items := sl_items lst @ sl_items page, sl_more := sl_more page\<rparr>))"

definition known_length :: "SegmentList \<Rightarrow> DownloadSegment list \<Rightarrow> Object \<Rightarrow> Object" where
  "known_length lst downloaded info =
    (if sm_content_length (ob_system info) \<le> 0 then
       (let listed = sum_list (map sli_plain_size (sl_items lst));
            size = (if listed > 0 then listed else sum_list (map ds_plain_size downloaded))
        in info\<lparr>ob_system := (ob_system info)\<lparr>sm_content_length := size\<rparr>\<rparr>)
     else info)"

definition fetch_missing :: "(SegmentPosition \<Rightarrow> PublicError + DownloadSegment) \<Rightarrow> int \<Rightarrow> int \<Rightarrow> SegmentListItem list \<Rightarrow> DownloadSegment list \<Rightarrow>
    PublicError + DownloadSegment list" where
  "fetch_missing download_segment from len items downloaded =
    (let have' = map the (filter (\<lambda>p. p \<noteq> None) (map ds_position downloaded))
     in fold_result (\<lambda>item acc.
          let here = unwrap_position (sli_position item);
              (_, local_len) = segment_plain_range from len (sli_plain_offset item) (sli_plain_size item)
          in if local_len = 0 \<or> here \<in> set have' then Inr acc
             else try_bind (download_segment here) (\<lambda>seg. Inr (acc @ [seg]))) items downloaded)"

definition segment_key :: "DownloadSegment \<Rightarrow> SegmentPosition" where
  "segment_key seg = unwrap_position (ds_position seg)"

text \<open>What the background task sends: it stops after an error, and never gets past a segment it waits for.\<close>

fun produce :: "(DownloadSegment \<Rightarrow> (PublicError + bytes) option) \<Rightarrow> DownloadSegment list \<Rightarrow> (PublicError + bytes) option list" where
  "produce dec [] = []"
| "produce dec (seg # segs) =
    (case dec seg of Some (Inr dat) \<Rightarrow> Some (Inr dat) # produce dec segs | r \<Rightarrow> [r])"

definition download_segments :: "(ErrorKind \<Rightarrow> string) \<Rightarrow> (UplinkError \<Rightarrow> string) \<Rightarrow> Crypto \<Rightarrow> UserPb \<Rightarrow> OrderCrypto \<Rightarrow> backend \<Rightarrow>
    (SegmentPosition \<Rightarrow> SegmentNet) \<Rightarrow> nat \<Rightarrow> (SegmentPosition option \<Rightarrow> PublicError + SegmentList) \<Rightarrow> (SegmentPosition \<Rightarrow> PublicError + DownloadSegment) \<Rightarrow>
    bytes \<Rightarrow> Key \<Rightarrow> DownloadOptions \<Rightarrow> DownloadObjectResponse \<Rightarrow> (PublicError + DownloadState) option" where
  "download_segments show_enc show_up cr pb oc cpu nets hedge_delay list_segments download_segment key ckey opts resp =
    (case object_info show_enc show_up cr pb ckey key (dr_object resp) of
       Inl e \<Rightarrow> Some (Inl e)
     | Inr (info, suite, block) \<Rightarrow>
       (case list_remaining list_segments (case dr_segment_list resp of Some l \<Rightarrow> l | None \<Rightarrow> \<lparr>sl_items = [], sl_more = False\<rparr>) of
          None \<Rightarrow> None
        | Some (Inl e) \<Rightarrow> Some (Inl e)
        | Some (Inr lst) \<Rightarrow>
          (let info = known_length lst (dr_segment_download resp) info
           in Some (try_bind (map_err (map_uplink show_enc show_up)
                 (resolve_range (do_offset opts) (do_length opts) (sm_content_length (ob_system info)))) (\<lambda>(from, len).
               if len = 0 then Inr (dl_new info [])
               else try_bind (fetch_missing download_segment from len (sl_items lst) (dr_segment_download resp)) (\<lambda>downloaded.
                 if downloaded = [] then Inl (pe_new ProtocolKind ''DownloadObject missing segment'')
                 else Inr (streaming info
                   (produce (\<lambda>seg. decrypt_one_segment show_enc show_up cr oc cpu (nets (segment_key seg)) hedge_delay ckey suite block from len seg)
                     (sort_key segment_key downloaded)) len)))))))"

section \<open>The reader\<close>

fun data_of :: "PollRead \<Rightarrow> bytes" where
  "data_of (ReadOk b) = b"
| "data_of _ = []"

fun is_err :: "PollRead \<Rightarrow> bool" where
  "is_err (ReadErr e) = True"
| "is_err _ = False"

definition delivered :: "PollRead list \<Rightarrow> bytes" where
  "delivered rs = concat (map data_of rs)"

text \<open>The end of the object, as \<open>AsyncRead\<close> has it: nothing is put into a buffer that has room.\<close>

definition is_end :: "PollRead \<Rightarrow> nat \<Rightarrow> bool" where
  "is_end r cap \<longleftrightarrow> r = ReadOk [] \<and> 0 < cap"

text \<open>The bytes that are on their way, and the account of a reader that has not failed.\<close>

definition unread :: "DownloadState \<Rightarrow> bytes" where
  "unread st = drop (dl_pos st) (dl_buf st)"

definition account :: "int \<Rightarrow> int \<Rightarrow> DownloadState \<Rightarrow> bool" where
  "account want got st \<longleftrightarrow>
    (if dl_rx st = None then unread st = [] \<and> got = want else got + int (length (unread st)) + dl_remaining st = want)"

definition small_messages :: "DownloadState \<Rightarrow> bool" where
  "small_messages st \<longleftrightarrow> (\<forall>rx dat. dl_rx st = Some rx \<longrightarrow> Some (Inr dat) \<in> set rx \<longrightarrow> int (length dat) \<le> i64_max)"

lemma poll_read_account:
  assumes "poll_read_loop ready cap st = (r, st')" "account want got st" "small_messages st" "0 < cap" "\<not> is_err r"
  shows "account want (got + int (length (data_of r))) st' \<and> small_messages st' \<and> (r = ReadOk [] \<longrightarrow> got = want)"
  using assms
proof (induction ready cap st arbitrary: r st' rule: poll_read_loop.induct)
  case (1 ready cap st)
  show ?case
  proof (cases "dl_pos st < length (dl_buf st)")
    case True
    then show ?thesis using "1.prems"
      by (auto simp: poll_read_loop.simps[of ready] Let_def account_def unread_def small_messages_def sub_slice_def split: if_splits)
  next
    case False
    then have u: "unread st = []" by (simp add: unread_def)
    consider "dl_rx st = None" | rx where "dl_rx st = Some rx" "ready = [] \<or> \<not> hd ready"
      | rx where "dl_rx st = Some rx" "ready \<noteq> [] \<and> hd ready" by blast
    then show ?thesis
    proof cases
      case 1
      then show ?thesis using "1.prems" False u
        by (auto simp: poll_read_loop.simps[of ready] account_def unread_def small_messages_def split: if_splits)
    next
      case 2
      then show ?thesis using "1.prems" False u by (simp add: poll_read_loop.simps[of ready])
    next
      case (3 rx)
      show ?thesis
      proof (cases "\<exists>seg rest. rx = Some (Inr seg) # rest")
        case True
        then obtain seg rest where rx: "rx = Some (Inr seg) # rest" by blast
        let ?st = "st\<lparr>dl_remaining := dl_remaining st - min (int (length seg)) i64_max, dl_buf := seg, dl_pos := 0, dl_rx := Some rest\<rparr>"
        have "poll_read_loop (tl ready) cap ?st = (r, st')" using "1.prems"(1) False 3 rx by (simp add: poll_read_loop.simps[of ready])
        moreover have "account want got ?st" "small_messages ?st"
          using "1.prems"(2,3) 3 rx u by (auto simp: account_def unread_def small_messages_def)
        ultimately show ?thesis using "1.IH"[OF False 3(1) _ rx refl] 3(2) "1.prems"(4,5) by blast
      next
        case other: False
        then show ?thesis using "1.prems" False 3 u
          by (auto simp: poll_read_loop.simps[of ready] account_def unread_def cancel_def small_messages_def split: list.splits option.splits sum.splits if_splits)
      qed
    qed
  qed
qed

lemma read_calls_account:
  assumes "account want got st" "small_messages st" "i < length polls" "is_end (fst (read_calls polls st) ! i) (snd (polls ! i))"
    "\<forall>j < i. \<not> is_err (fst (read_calls polls st) ! j)"
  shows "got + int (length (delivered (take i (fst (read_calls polls st))))) = want"
  using assms
proof (induction polls arbitrary: st got i)
  case (Cons p polls)
  obtain ready cap where p: "p = (ready, cap)" by (cases p)
  obtain r st' where r: "poll_read_inner ready cap st = (r, st')" by (cases "poll_read_inner ready cap st")
  have rs: "fst (read_calls (p # polls) st) = r # fst (read_calls polls st')" by (simp add: p r split: prod.splits)
  have step: "account want (got + int (length (data_of r))) st' \<and> small_messages st' \<and> (is_end r cap \<longrightarrow> got = want)" if "\<not> is_err r"
    using r that poll_read_account[OF _ Cons.prems(1,2)] Cons.prems(1,2) unfolding poll_read_inner_def is_end_def
    by (cases "cap = 0") auto
  show ?case
  proof (cases i)
    case 0
    then show ?thesis using Cons.prems(4) step rs p by (cases r) (auto simp: is_end_def delivered_def)
  next
    case (Suc j)
    have ne: "\<not> is_err r" using Cons.prems(5) Suc rs by fastforce
    have "j < length polls" "is_end (fst (read_calls polls st') ! j) (snd (polls ! j))" "\<forall>k < j. \<not> is_err (fst (read_calls polls st') ! k)"
      using Cons.prems(3-5) Suc rs by auto
    from Cons.IH[OF _ _ this, of "got + int (length (data_of r))"] step[OF ne] show ?thesis
      unfolding rs Suc by (simp add: delivered_def)
  qed
qed simp

text \<open>
  C11: whatever the background task sends, and however the reads are scheduled: a reader that reports the end of the
  object without having reported an error has delivered exactly as many bytes as the requested range has.
\<close>

theorem end_of_object_is_complete:
  assumes "\<forall>dat. Some (Inr dat) \<in> set rx \<longrightarrow> int (length dat) \<le> i64_max"
    and "read_calls polls (streaming info rx len) = (rs, st)" and "i < length polls" and "is_end (rs ! i) (snd (polls ! i))"
    and "\<forall>j < i. \<not> is_err (rs ! j)"
  shows "int (length (delivered (take i rs))) = len"
  using read_calls_account[of len 0 "streaming info rx len" i polls] assms
  by (simp add: account_def small_messages_def streaming_def unread_def)

definition sample_rx :: "(PublicError + bytes) option list" where
  "sample_rx = [Some (Inr [1, 2]), Some (Inr []), Some (Inr [3])]"

definition sample_polls :: "(bool list \<times> nat) list" where
  "sample_polls = [([True], 1), ([], 4), ([True], 4), ([True, True], 4), ([True], 4)]"

theorem end_of_object_is_complete_witness:
  "\<exists>rs st. read_calls sample_polls (streaming (object_from_proto None []) sample_rx 3) = (rs, st) \<and> rs ! 2 = ReadPending \<and>
    is_end (rs ! 4) 4 \<and> int (length (delivered (take 4 rs))) = 3"
proof -
  let ?run = "read_calls sample_polls (streaming (object_from_proto None []) sample_rx 3)"
  obtain rs st where r: "?run = (rs, st)" by (cases ?run)
  have "fst ?run = [ReadOk [1], ReadOk [2], ReadPending, ReadOk [3], ReadOk []]" by code_simp
  then have rs: "rs = [ReadOk [1], ReadOk [2], ReadPending, ReadOk [3], ReadOk []]" using r by simp
  have "\<forall>j < 4. \<not> is_err (rs ! j)" by (simp add: rs numeral_eq_Suc less_Suc_eq)
  moreover have e: "is_end (rs ! 4) 4" "rs ! 2 = ReadPending" by (simp_all add: rs is_end_def)
  ultimately have "int (length (delivered (take 4 rs))) = 3"
    using end_of_object_is_complete[OF _ r, of 4] by (simp add: sample_rx_def sample_polls_def)
  then show ?thesis using r e by blast
qed

text \<open>What a reader still holds, when every message is a segment.\<close>

fun msg_data :: "(PublicError + bytes) option \<Rightarrow> bytes" where
  "msg_data (Some (Inr dat)) = dat"
| "msg_data _ = []"

definition held :: "DownloadState \<Rightarrow> bytes" where
  "held st = unread st @ (case dl_rx st of None \<Rightarrow> [] | Some rx \<Rightarrow> concat (map msg_data rx))"

definition good_reader :: "DownloadState \<Rightarrow> bool" where
  "good_reader st \<longleftrightarrow> (\<forall>rx. dl_rx st = Some rx \<longrightarrow> dl_remaining st = int (length (concat (map msg_data rx))) \<and>
    (\<forall>m \<in> set rx. \<exists>dat. m = Some (Inr dat) \<and> int (length dat) \<le> i64_max))"

lemma poll_read_good:
  assumes "poll_read_loop ready cap st = (r, st')" "good_reader st" "0 < cap"
  shows "\<not> is_err r \<and> good_reader st' \<and> data_of r @ held st' = held st \<and> (r = ReadOk [] \<longrightarrow> held st = []) \<and>
    (r = ReadPending \<longrightarrow> (\<exists>rx. dl_rx st = Some rx \<and> \<not> replicate (Suc (length rx)) True = take (Suc (length rx)) ready))"
  using assms
proof (induction ready cap st arbitrary: r st' rule: poll_read_loop.induct)
  case (1 ready cap st)
  show ?case
  proof (cases "dl_pos st < length (dl_buf st)")
    case True
    have "sub_slice (dl_buf st) (dl_pos st) (dl_pos st + n) @ drop (dl_pos st + n) (dl_buf st) = drop (dl_pos st) (dl_buf st)" for n
      by (metis add.commute append_take_drop_id drop_drop drop_take diff_add_inverse sub_slice_def)
    then show ?thesis using "1.prems" True
      by (auto simp: poll_read_loop.simps[of ready] Let_def good_reader_def held_def unread_def sub_slice_def split: if_splits)
  next
    case False
    then have u: "unread st = []" by (simp add: unread_def)
    consider "dl_rx st = None" | rx where "dl_rx st = Some rx" "ready = [] \<or> \<not> hd ready"
      | rx where "dl_rx st = Some rx" "ready \<noteq> [] \<and> hd ready" by blast
    then show ?thesis
    proof cases
      case 1
      then show ?thesis using "1.prems" False u
        by (auto simp: poll_read_loop.simps[of ready] good_reader_def held_def unread_def split: if_splits)
    next
      case 2
      then have "r = ReadPending" "st' = st" using "1.prems"(1) False by (auto simp: poll_read_loop.simps[of ready])
      then show ?thesis using "1.prems"(2) 2 by (cases ready) auto
    next
      case (3 rx)
      show ?thesis
      proof (cases rx)
        case Nil
        then show ?thesis using "1.prems" False 3 u
          by (auto simp: poll_read_loop.simps[of ready] good_reader_def held_def unread_def cancel_def split: if_splits)
      next
        case (Cons m rest)
        then obtain seg where m: "m = Some (Inr seg)" "int (length seg) \<le> i64_max" using "1.prems"(2) 3 by (auto simp: good_reader_def)
        let ?st = "st\<lparr>dl_remaining := dl_remaining st - min (int (length seg)) i64_max, dl_buf := seg, dl_pos := 0, dl_rx := Some rest\<rparr>"
        have "poll_read_loop (tl ready) cap ?st = (r, st')" using "1.prems"(1) False 3 Cons m by (simp add: poll_read_loop.simps[of ready])
        moreover have g: "good_reader ?st" using "1.prems"(2) 3 Cons m by (auto simp: good_reader_def)
        moreover have "held ?st = held st" using 3 Cons m u by (simp add: held_def unread_def)
        ultimately show ?thesis using "1.IH"[OF False 3(1) _ Cons m(1) refl _ g "1.prems"(3)] 3 Cons by (cases ready) auto
      qed
    qed
  qed
qed

lemma read_calls_good:
  assumes "good_reader st" "read_calls polls st = (rs, st')"
  shows "\<not> list_ex is_err rs \<and> good_reader st' \<and> delivered rs @ held st' = held st \<and>
    (\<forall>i < length polls. is_end (rs ! i) (snd (polls ! i)) \<longrightarrow> delivered (take i rs) = held st)"
  using assms
proof (induction polls arbitrary: st rs)
  case (Cons p polls)
  obtain ready cap where p: "p = (ready, cap)" by (cases p)
  obtain r st1 where r: "poll_read_inner ready cap st = (r, st1)" by (cases "poll_read_inner ready cap st")
  obtain rs1 where rs: "read_calls polls st1 = (rs1, st')" "rs = r # rs1" using Cons.prems(2) p r by (auto split: prod.splits)
  have step: "\<not> is_err r \<and> good_reader st1 \<and> data_of r @ held st1 = held st \<and> (is_end r cap \<longrightarrow> held st = [])"
    using r poll_read_good[OF _ Cons.prems(1)] Cons.prems(1) unfolding poll_read_inner_def is_end_def by (cases "cap = 0") auto
  note IH = Cons.IH[OF _ rs(1)]
  have "delivered (take i rs) = held st" if "i < length (p # polls)" "is_end (rs ! i) (snd ((p # polls) ! i))" for i
    using that step IH rs(2) p by (cases i) (auto simp: delivered_def)
  then show ?case using step IH rs(2) by (auto simp: delivered_def)
qed (simp add: delivered_def)

text \<open>When every result is ready, each read makes progress, and the end comes.\<close>

lemma poll_rx_shrinks:
  assumes "poll_read_loop ready cap st = (r, st')" "dl_rx st' = Some rx'"
  shows "\<exists>rx. dl_rx st = Some rx \<and> length rx' \<le> length rx"
  using assms
proof (induction ready cap st rule: poll_read_loop.induct)
  case (1 ready cap st)
  show ?case
  proof (cases "\<not> dl_pos st < length (dl_buf st) \<and> (\<exists>seg rest. dl_rx st = Some (Some (Inr seg) # rest)) \<and> ready \<noteq> [] \<and> hd ready")
    case True
    then obtain seg rest where rx: "dl_rx st = Some (Some (Inr seg) # rest)" by blast
    let ?st = "st\<lparr>dl_remaining := dl_remaining st - min (int (length seg)) i64_max, dl_buf := seg, dl_pos := 0, dl_rx := Some rest\<rparr>"
    have "poll_read_loop (tl ready) cap ?st = (r, st')" using "1.prems"(1) True rx by (simp add: poll_read_loop.simps[of ready])
    then show ?thesis using "1.IH"[OF _ rx _ refl refl refl] "1.prems"(2) True rx by fastforce
  next
    case False
    then show ?thesis using "1.prems"
      by (auto simp: poll_read_loop.simps[of ready] Let_def cancel_def split: if_splits option.splits list.splits sum.splits)
  qed
qed

definition all_ready :: "DownloadState \<Rightarrow> bool list \<times> nat \<Rightarrow> bool" where
  "all_ready st p \<longleftrightarrow> 0 < snd p \<and> (\<forall>rx. dl_rx st = Some rx \<longrightarrow> replicate (Suc (length rx)) True = take (Suc (length rx)) (fst p))"

lemma all_ready_mono:
  assumes "all_ready st p" "\<And>rx'. dl_rx st' = Some rx' \<Longrightarrow> \<exists>rx. dl_rx st = Some rx \<and> length rx' \<le> length rx"
  shows "all_ready st' p"
  unfolding all_ready_def
proof (intro conjI allI impI)
  fix rx' assume "dl_rx st' = Some rx'"
  then obtain rx where rx: "dl_rx st = Some rx" "length rx' \<le> length rx" using assms(2) by blast
  then have "replicate (Suc (length rx)) True = take (Suc (length rx)) (fst p)" using assms(1) by (auto simp: all_ready_def)
  from arg_cong[OF this, of "take (Suc (length rx'))"] rx(2)
  show "replicate (Suc (length rx')) True = take (Suc (length rx')) (fst p)" by (simp add: min_def)
qed (use assms(1) in \<open>simp add: all_ready_def\<close>)

lemma reads_finish:
  assumes "good_reader st" "\<forall>p \<in> set polls. all_ready st p" "length (held st) < length polls"
  shows "\<exists>i < length polls. is_end (fst (read_calls polls st) ! i) (snd (polls ! i))"
  using assms
proof (induction polls arbitrary: st)
  case (Cons p polls)
  obtain ready cap where p: "p = (ready, cap)" by (cases p)
  have cap: "0 < cap" using Cons.prems(2) p by (simp add: all_ready_def)
  obtain r st' where r: "poll_read_loop ready cap st = (r, st')" by (cases "poll_read_loop ready cap st")
  have rs: "fst (read_calls (p # polls) st) = r # fst (read_calls polls st')" using cap by (simp add: p r poll_read_inner_def split: prod.splits)
  note g = poll_read_good[OF r Cons.prems(1) cap]
  have np: "r \<noteq> ReadPending" using g Cons.prems(2) p by (auto simp: all_ready_def)
  show ?case
  proof (cases "r = ReadOk []")
    case True
    then have "is_end (fst (read_calls (p # polls) st) ! 0) (snd ((p # polls) ! 0))" using rs p cap by (simp add: is_end_def)
    then show ?thesis by blast
  next
    case False
    then have "0 < length (data_of r)" using np g by (cases r) auto
    moreover have "length (held st) = length (data_of r) + length (held st')" using g by (metis length_append)
    moreover have "\<forall>q \<in> set polls. all_ready st' q" using Cons.prems(2) all_ready_mono poll_rx_shrinks[OF r] by (metis list.set_intros(2))
    moreover have "length (held st) \<le> length polls" using Cons.prems(3) by simp
    ultimately have "length (held st') < length polls" "\<forall>q \<in> set polls. all_ready st' q" by (linarith, blast)
    then obtain i where "i < length polls" "is_end (fst (read_calls polls st') ! i) (snd (polls ! i))"
      using Cons.IH[of st'] g by blast
    then show ?thesis using rs by (intro exI[of _ "Suc i"]) simp
  qed
qed simp

section \<open>The segments of an object, side by side\<close>

fun tiles :: "nat \<Rightarrow> DownloadSegment list \<Rightarrow> bytes list \<Rightarrow> bool" where
  "tiles off [] [] \<longleftrightarrow> True"
| "tiles off (seg # segs) (plain # plains) \<longleftrightarrow>
    ds_plain_offset seg = int off \<and> ds_plain_size seg = int (length plain) \<and> tiles (off + length plain) segs plains"
| "tiles off _ _ \<longleftrightarrow> False"

definition part_of :: "int \<Rightarrow> int \<Rightarrow> DownloadSegment \<Rightarrow> bytes \<Rightarrow> bytes" where
  "part_of from len seg plain =
    (let (ls, ll) = segment_plain_range from len (ds_plain_offset seg) (ds_plain_size seg) in sub_slice plain (nat ls) (nat ls + nat ll))"

lemma part_of_range:
  assumes "ds_plain_offset seg = int off" "ds_plain_size seg = int (length plain)" "0 \<le> from" "0 \<le> len" "from + len \<le> i64_max"
    "int (off + length plain) \<le> i64_max"
  shows "part_of from len seg plain = drop (nat from - off) (take (nat (from + len) - off) plain)"
proof -
  have s: "sat_i64 (from + len) = from + len" "sat_i64 (int off + int (length plain)) = int off + int (length plain)"
    using assms(3-6) by (simp_all add: sat_i64_def)
  define a b where "a = max from (int off)" and "b = min (from + len) (int off + int (length plain))"
  have r: "segment_plain_range from len (ds_plain_offset seg) (ds_plain_size seg) =
      (if len \<le> 0 \<or> plain = [] \<or> b \<le> a then (0, 0) else (a - int off, b - a))"
    using s by (auto simp: segment_plain_range_def assms(1,2) a_def b_def Let_def)
  show ?thesis
  proof (cases "len \<le> 0 \<or> plain = [] \<or> b \<le> a")
    case True
    then have "nat (from + len) - off \<le> nat from - off \<or> length plain \<le> nat from - off"
      using assms(3,4) by (auto simp: a_def b_def)
    then show ?thesis using True r by (auto simp: part_of_def sub_slice_def)
  next
    case False
    then have "nat (a - int off) = nat from - off" "nat (a - int off) + nat (b - a) = min (nat (from + len) - off) (length plain)"
      using assms(3,4) unfolding a_def b_def by linarith+
    moreover have "take (min n (length plain)) plain = take n plain" for n by (simp add: min_def)
    moreover have "sub_slice plain x (x + n) = drop x (take (x + n) plain)" for x n by (simp add: sub_slice_def drop_take)
    ultimately show ?thesis using False r by (simp add: part_of_def)
  qed
qed

lemma tiles_range:
  assumes "tiles off segs plains" "0 \<le> from" "0 \<le> len" "from + len \<le> i64_max" "int (off + length (concat plains)) \<le> i64_max"
  shows "concat (map2 (part_of from len) segs plains) = drop (nat from - off) (take (nat (from + len) - off) (concat plains))"
  using assms
proof (induction off segs plains rule: tiles.induct)
  case (2 off seg segs plain plains)
  have IH: "concat (map2 (part_of from len) segs plains) =
      drop (nat from - (off + length plain)) (take (nat (from + len) - (off + length plain)) (concat plains))"
    using 2 by (simp add: algebra_simps)
  have p: "part_of from len seg plain = drop (nat from - off) (take (nat (from + len) - off) plain)"
    using 2 by (intro part_of_range) auto
  show ?case using assms(3) by (auto simp: IH p min_def diff_diff_left)
qed auto

lemma tiles_zip:
  assumes "tiles off segs plains"
  shows "length segs = length plains" "\<forall>(seg, plain) \<in> set (zip segs plains). ds_plain_size seg = int (length plain) \<and> 0 \<le> ds_plain_offset seg"
  using assms by (induction off segs plains rule: tiles.induct) auto

text \<open>The range that is asked for lies inside the object.\<close>

lemma resolve_range_inside:
  assumes "resolve_range offset l osize = Inr (from, len)" "osize \<le> i64_max"
  shows "0 \<le> from \<and> 0 \<le> len \<and> from + len \<le> osize"
proof -
  have "0 \<le> sat_i64 (- offset)" if "offset < 0" using that by (simp add: sat_i64_def)
  then show ?thesis using assms by (auto simp: resolve_range_def sat_i64_def Let_def min_def max_def split: if_splits)
qed

section \<open>A stored object\<close>

text \<open>A segment of the object: it was committed with the object's keys, and it can be reached.\<close>

definition kept :: "Crypto \<Rightarrow> OrderCrypto \<Rightarrow> backend \<Rightarrow> (SegmentPosition \<Rightarrow> SegmentNet) \<Rightarrow> nat \<Rightarrow> Key \<Rightarrow> CipherSuite \<Rightarrow> nat \<Rightarrow> int \<Rightarrow> int \<Rightarrow>
    DownloadSegment \<Rightarrow> bytes \<Rightarrow> bool" where
  "kept cr oc cpu nets hedge_delay ckey suite block from len seg plain \<longleftrightarrow>
    (\<exists>show_enc show_up oc0 cpu0 env key nonce job n stored ls ll.
      commit_one_segment show_enc show_up cr oc0 cpu0 env key nonce job = Inr (n, stored) \<and> length key = 32 \<and> length nonce = 24 \<and>
      job_plain job = plain \<and> job_content_key job = ckey \<and> job_cipher job = suite \<and> job_block_size job = block \<and> answers stored seg \<and>
      segment_plain_range from len (ds_plain_offset seg) (ds_plain_size seg) = (ls, ll) \<and>
      reachable_segment cr oc cpu (nets (segment_key seg)) hedge_delay key job ls ll seg stored)"

lemma kept_reads_back:
  assumes "kept cr oc cpu nets hedge_delay ckey suite block from len seg plain" "crypto_ok cr" "0 < block" "int (length plain) \<le> i64_max"
    "0 \<le> ds_plain_offset seg"
  shows "decrypt_one_segment show_enc show_up cr oc cpu (nets (segment_key seg)) hedge_delay ckey suite block from len seg =
    Some (Inr (part_of from len seg plain))"
  using assms unfolding kept_def part_of_def by (auto intro!: segment_reads_back)

lemma produce_all:
  assumes "\<forall>(seg, plain) \<in> set (zip segs plains). dec seg = Some (Inr (part seg plain))" "length segs = length plains"
    "\<forall>(seg, plain) \<in> set (zip segs plains). \<not> P seg \<longrightarrow> part seg plain = []"
  shows "concat (map msg_data (produce dec (filter P segs))) = concat (map2 part segs plains)"
    "set (produce dec (filter P segs)) \<subseteq> (\<lambda>(seg, plain). Some (Inr (part seg plain))) ` set (zip segs plains)"
  using assms(2,1,3)
proof (induction segs plains rule: list_induct2)
  case (Cons seg segs plain plains)
  { case 1
    then show ?case using Cons.IH(1) by simp
  next
    case 2
    have IH: "set (produce dec (filter P segs)) \<subseteq> (\<lambda>(seg, plain). Some (Inr (part seg plain))) ` set (zip segs plains)"
      using 2 by (intro Cons.IH(2)) auto
    then show ?case using 2 by auto }
qed simp_all

text \<open>Sorting a part of a sorted list, in whatever order it comes.\<close>

lemma sort_key_filter:
  assumes "sorted_wrt (<) (map f xs)" "distinct ys" "set ys \<subseteq> set xs"
  shows "sort_key f ys = filter (\<lambda>x. x \<in> set ys) xs"
proof -
  let ?zs = "filter (\<lambda>x. x \<in> set ys) xs"
  have "sorted_wrt (<) (map f ?zs)" using assms(1) by (simp add: sorted_wrt_map sorted_wrt_filter)
  then have zs: "sorted (map f ?zs)" "distinct (map f ?zs)" by (auto simp: strict_sorted_iff)
  have x: "inj_on f (set xs)" using assms(1) by (auto simp: strict_sorted_iff distinct_map)
  have "set ?zs = set (sort_key f ys)" using assms(3) by auto
  moreover have "distinct (map f (sort_key f ys))" using x assms(2,3) by (auto simp: distinct_map intro: inj_on_subset)
  ultimately have "map f (sort_key f ys) = map f ?zs" using zs by (intro sorted_distinct_set_unique) (auto simp del: set_filter)
  moreover have "inj_on f (set (sort_key f ys) \<union> set ?zs)" using x assms(3) by (auto intro: inj_on_subset)
  ultimately show ?thesis by (rule inj_on_map_eq_map[THEN iffD1, rotated])
qed

text \<open>
  The pages of a listing: after the first \<open>n\<close> items the satellite continues with at least one more, in pages of whatever size, and says
  rightly whether there are others; the first page came with the object.
\<close>

definition cursor_after :: "SegmentListItem list \<Rightarrow> nat \<Rightarrow> SegmentPosition option" where
  "cursor_after items n = (if n = 0 then None else sli_position (items ! (n - 1)))"

definition pages_of :: "(SegmentPosition option \<Rightarrow> PublicError + SegmentList) \<Rightarrow> SegmentList \<Rightarrow> SegmentListItem list \<Rightarrow> bool" where
  "pages_of list_segments first items \<longleftrightarrow>
    (\<exists>n. first = \<lparr>sl_items = take n items, sl_more = (n < length items)\<rparr>) \<and>
    (\<forall>n < length items. \<exists>k > 0. list_segments (cursor_after items n) = Inr \<lparr>sl_items = take k (drop n items), sl_more = (n + k < length items)\<rparr>)"

lemma list_remaining_from:
  assumes "\<forall>n < length items. \<exists>k > 0. list_segments (cursor_after items n) = Inr \<lparr>sl_items = take k (drop n items), sl_more = (n + k < length items)\<rparr>"
  shows "list_remaining list_segments \<lparr>sl_items = take n items, sl_more = (n < length items)\<rparr> = Some (Inr \<lparr>sl_items = items, sl_more = False\<rparr>)"
proof (induction "length items - n" arbitrary: n rule: less_induct)
  case less
  show ?case
  proof (cases "n < length items")
    case False
    then show ?thesis by (simp add: list_remaining.simps)
  next
    case True
    obtain k where k: "0 < k" "list_segments (cursor_after items n) = Inr \<lparr>sl_items = take k (drop n items), sl_more = (n + k < length items)\<rparr>"
      using assms True by blast
    have "n \<noteq> 0 \<Longrightarrow> last (take n items) = items ! (n - 1)" using True by (subst last_conv_nth) auto
    then have c: "list_cursor \<lparr>sl_items = take n items, sl_more = True\<rparr> = cursor_after items n"
      using True by (cases "n = 0") (auto simp: list_cursor_def cursor_after_def)
    have "list_remaining list_segments \<lparr>sl_items = take (n + k) items, sl_more = (n + k < length items)\<rparr> = Some (Inr \<lparr>sl_items = items, sl_more = False\<rparr>)"
      using True k(1) by (intro less) auto
    then show ?thesis using True c k
      by (simp add: list_remaining.simps[of _ "\<lparr>sl_items = take n items, sl_more = True\<rparr>"] take_add)
  qed
qed

text \<open>The loop over the pages ends with the whole list.\<close>

lemma listing_is_complete:
  "pages_of list_segments first items \<Longrightarrow> list_remaining list_segments first = Some (Inr \<lparr>sl_items = items, sl_more = False\<rparr>)"
  using list_remaining_from[of items list_segments] by (auto simp: pages_of_def)

text \<open>
  The satellite of an object with the given segments: it has them in the order of their positions, lists in pages those
  that satisfy \<open>Q\<close>, at least those the range needs, sends any of them along with its first answer, and the others on demand.
\<close>

definition describes :: "(DownloadSegment \<Rightarrow> SegmentListItem) \<Rightarrow> bool" where
  "describes item_of \<longleftrightarrow> (\<forall>seg. sli_position (item_of seg) = ds_position seg \<and> sli_plain_size (item_of seg) = ds_plain_size seg \<and>
    sli_plain_offset (item_of seg) = ds_plain_offset seg)"

definition overlaps :: "int \<Rightarrow> int \<Rightarrow> DownloadSegment \<Rightarrow> bool" where
  "overlaps from len seg \<longleftrightarrow> snd (segment_plain_range from len (ds_plain_offset seg) (ds_plain_size seg)) \<noteq> 0"

definition first_list :: "DownloadObjectResponse \<Rightarrow> SegmentList" where
  "first_list resp = (case dr_segment_list resp of Some l \<Rightarrow> l | None \<Rightarrow> \<lparr>sl_items = [], sl_more = False\<rparr>)"

definition satellite_ok :: "(SegmentPosition option \<Rightarrow> PublicError + SegmentList) \<Rightarrow> (SegmentPosition \<Rightarrow> PublicError + DownloadSegment) \<Rightarrow>
    DownloadObjectResponse \<Rightarrow> int \<Rightarrow> int \<Rightarrow> (DownloadSegment \<Rightarrow> bool) \<Rightarrow> DownloadSegment list \<Rightarrow> bool" where
  "satellite_ok list_segments download_segment resp from len Q segs \<longleftrightarrow>
    sorted_wrt (<) (map segment_key segs) \<and> (\<forall>seg \<in> set segs. ds_position seg \<noteq> None \<and> download_segment (segment_key seg) = Inr seg) \<and>
    distinct (dr_segment_download resp) \<and> set (dr_segment_download resp) \<subseteq> set segs \<and> (\<forall>seg \<in> set segs. overlaps from len seg \<longrightarrow> Q seg) \<and>
    (\<exists>item_of. describes item_of \<and> pages_of list_segments (first_list resp) (map item_of (filter Q segs)))"

text \<open>The object says how long it is, or says nothing and lists all its segments.\<close>

definition length_known :: "Object \<Rightarrow> (DownloadSegment \<Rightarrow> bool) \<Rightarrow> DownloadSegment list \<Rightarrow> nat \<Rightarrow> bool" where
  "length_known info Q segs n \<longleftrightarrow>
    sm_content_length (ob_system info) = int n \<or> sm_content_length (ob_system info) \<le> 0 \<and> (\<forall>seg \<in> set segs. Q seg)"

lemma fetch_missing_ok:
  assumes key: "inj_on segment_key (set segs)" and known: "\<forall>seg \<in> set segs. ds_position seg \<noteq> None \<and> download_segment (segment_key seg) = Inr seg"
    and sub: "set got0 \<subseteq> set segs" "set ss \<subseteq> set segs" and item: "describes item_of"
  shows "fetch_missing download_segment from len (map item_of ss) got0 = Inr (got0 @ filter (\<lambda>s. overlaps from len s \<and> s \<notin> set got0) ss)"
proof -
  let ?have = "map the (filter (\<lambda>p. p \<noteq> None) (map ds_position got0))"
  let ?f = "\<lambda>item acc. let here = unwrap_position (sli_position item);
      (_, local_len) = segment_plain_range from len (sli_plain_offset item) (sli_plain_size item)
      in if local_len = 0 \<or> here \<in> set ?have then Inr acc else try_bind (download_segment here) (\<lambda>seg. Inr (acc @ [seg]))"
  have "set ?have = segment_key ` set got0"
    using sub(1) known by (force simp: segment_key_def unwrap_position_def split: option.splits)
  then have here: "segment_key s \<in> set ?have \<longleftrightarrow> s \<in> set got0" if "s \<in> set segs" for s
    using that sub(1) key by (metis inj_on_image_mem_iff)
  have "fold_result ?f (map item_of ss) acc = Inr (acc @ filter (\<lambda>s. overlaps from len s \<and> s \<notin> set got0) ss)" if "set ss \<subseteq> set segs" for ss acc
    using that
  proof (induction ss arbitrary: acc)
    case (Cons s ss)
    then have s: "s \<in> set segs" by simp
    have "?f (item_of s) acc = Inr (acc @ (if overlaps from len s \<and> s \<notin> set got0 then [s] else []))"
      using here[OF s] known s item
      by (auto simp: describes_def overlaps_def segment_key_def[symmetric] Let_def split: prod.splits)
    then show ?case using Cons by simp
  qed simp
  from this[OF sub(2)] show ?thesis by (simp add: fetch_missing_def Let_def)
qed

lemma tiles_sizes:
  assumes "tiles off segs plains"
  shows "sum_list (map ds_plain_size segs) = int (length (concat plains))" "concat plains = [] \<Longrightarrow> \<forall>seg \<in> set segs. ds_plain_size seg = 0"
  using assms by (induction off segs plains rule: tiles.induct) auto

lemma known_length_ok:
  assumes "tiles 0 segs plains" "length_known info Q segs (length (concat plains))" "sl_items lst = map item_of (filter Q segs)"
    "set got0 \<subseteq> set segs" "describes item_of"
  shows "sm_content_length (ob_system (known_length lst got0 info)) = int (length (concat plains))"
proof (cases "sm_content_length (ob_system info) \<le> 0")
  case False
  then have "known_length lst got0 info = info" by (simp add: known_length_def)
  then show ?thesis using assms(2) False by (simp add: length_known_def)
next
  case True
  have listed: "sum_list (map sli_plain_size (sl_items lst)) = sum_list (map ds_plain_size (filter Q segs))"
    using assms(5) by (simp add: assms(3) describes_def comp_def)
  note sizes = tiles_sizes[OF assms(1)]
  show ?thesis
  proof (cases "concat plains = []")
    case empty: True
    from sizes(2)[OF empty]
    have "sum_list (map ds_plain_size ss) = 0" if "set ss \<subseteq> set segs" for ss using that by (induction ss) auto
    from this[of "filter Q segs"] this[OF assms(4)] show ?thesis using True listed empty by (auto simp: known_length_def Let_def)
  next
    case full: False
    then have nonzero: "0 < int (length (concat plains))" by (simp only: of_nat_0_less_iff length_greater_0_conv not_False_eq_True)
    then have "sm_content_length (ob_system info) \<noteq> int (length (concat plains))" using True by linarith
    then have "filter Q segs = segs" using assms(2) by (simp add: length_known_def)
    then have "sum_list (map sli_plain_size (sl_items lst)) = int (length (concat plains))" using listed sizes(1) by simp
    then show ?thesis using True nonzero by (simp add: known_length_def Let_def)
  qed
qed

lemma no_overlap_no_part: "\<not> overlaps from len seg \<Longrightarrow> part_of from len seg plain = []"
  by (auto simp: overlaps_def part_of_def sub_slice_def split: prod.splits)

lemma download_segments_ok:
  assumes cr: "crypto_ok cr" "0 < block"
    and info: "object_info show_enc show_up cr pb ckey key (dr_object resp) = Inr (info, suite, block)"
      "length_known info Q segs (length (concat plains))"
    and range: "resolve_range (do_offset opts) (do_length opts) (int (length (concat plains))) = Inr (from, len)"
    and segs: "tiles 0 segs plains" "int (length (concat plains)) \<le> i64_max" "satellite_ok list_segments download_segment resp from len Q segs"
      "\<forall>(seg, plain) \<in> set (zip segs plains). kept cr oc cpu nets hedge_delay ckey suite block from len seg plain"
  obtains reader where "download_segments show_enc show_up cr pb oc cpu nets hedge_delay list_segments download_segment key ckey opts resp = Some (Inr reader)"
    "good_reader reader" "held reader = sub_slice (concat plains) (nat from) (nat from + nat len)"
proof -
  let ?W = "concat plains" and ?first = "dr_segment_download resp"
  note S = segs(3)[unfolded satellite_ok_def]
  obtain item_of where item: "describes item_of" "pages_of list_segments (first_list resp) (map item_of (filter Q segs))" using S by blast
  obtain lst where l: "list_remaining list_segments (first_list resp) = Some (Inr lst)" "sl_items lst = map item_of (filter Q segs)"
      "\<forall>seg \<in> set segs. overlaps from len seg \<longrightarrow> Q seg" "describes item_of"
    using S item(1) listing_is_complete[OF item(2)] by simp
  have sub: "set ?first \<subseteq> set segs" using S by blast
  note len_ok = known_length_ok[OF segs(1) info(2) l(2) sub l(4)]
  have b: "0 \<le> from" "0 \<le> len" "from + len \<le> int (length ?W)" using resolve_range_inside[OF range segs(2)] by auto
  define R where "R = ?first @ filter (\<lambda>s. overlaps from len s \<and> s \<notin> set ?first) (filter Q segs)"
  define dec where "dec seg = decrypt_one_segment show_enc show_up cr oc cpu (nets (segment_key seg)) hedge_delay ckey suite block from len seg" for seg
  have "inj_on segment_key (set segs)" "distinct segs" using S by (auto simp: strict_sorted_iff distinct_map)
  then have fetch: "fetch_missing download_segment from len (sl_items lst) ?first = Inr R"
    unfolding l(2) R_def using S l(4) by (intro fetch_missing_ok) auto
  have R: "distinct R" "set R \<subseteq> set segs" using S \<open>distinct segs\<close> by (auto simp: R_def)
  have sorted: "sort_key segment_key R = filter (\<lambda>s. s \<in> set R) segs" using S R by (intro sort_key_filter) auto
  have small: "int (length plain) \<le> i64_max" if "plain \<in> set plains" for plain
  proof -
    have "length plain \<le> length ?W" using that by (simp add: length_concat member_le_sum_list)
    then show ?thesis using segs(2) by linarith
  qed
  have d: "\<forall>(seg, plain) \<in> set (zip segs plains). dec seg = Some (Inr (part_of from len seg plain))"
    using segs(4) tiles_zip(2)[OF segs(1)] small unfolding dec_def
    by (auto intro!: kept_reads_back[OF _ cr] dest: set_zip_rightD)
  have e: "\<forall>(seg, plain) \<in> set (zip segs plains). seg \<notin> set R \<longrightarrow> part_of from len seg plain = []"
    using l(3) by (auto simp: R_def dest: set_zip_leftD intro: no_overlap_no_part)
  note all = produce_all[OF d tiles_zip(1)[OF segs(1)] e]
  have data: "concat (map msg_data (produce dec (filter (\<lambda>s. s \<in> set R) segs))) = sub_slice ?W (nat from) (nat from + nat len)"
    unfolding all(1) using tiles_range[OF segs(1) b(1,2)] b(3) segs(2) b(1,2) by (simp add: sub_slice_def drop_take nat_add_distrib)
  have n: "length (sub_slice ?W (nat from) (nat from + nat len)) = nat len" using b by (simp add: sub_slice_def)
  have lst: "list_remaining list_segments (case dr_segment_list resp of Some l \<Rightarrow> l | None \<Rightarrow> \<lparr>sl_items = [], sl_more = False\<rparr>) = Some (Inr lst)"
    using l(1) by (simp add: first_list_def)
  show ?thesis
  proof (cases "len = 0")
    case True
    then show ?thesis using info(1) lst range len_ok
      by (intro that[of "dl_new (known_length lst ?first info) []"]) (auto simp: download_segments_def good_reader_def held_def dl_new_def unread_def sub_slice_def)
  next
    case False
    have "R \<noteq> []"
    proof
      assume "R = []"
      then show False using data n False b(2) by simp
    qed
    then have down: "download_segments show_enc show_up cr pb oc cpu nets hedge_delay list_segments download_segment key ckey opts resp =
        Some (Inr (streaming (known_length lst ?first info) (produce dec (filter (\<lambda>s. s \<in> set R) segs)) len))"
      using info(1) lst range len_ok fetch False sorted by (simp add: download_segments_def dec_def[abs_def])
    have "\<exists>dat. m = Some (Inr dat) \<and> int (length dat) \<le> i64_max" if m: "m \<in> set (produce dec (filter (\<lambda>s. s \<in> set R) segs))" for m
    proof -
      obtain seg plain where sp: "(seg, plain) \<in> set (zip segs plains)" "m = Some (Inr (part_of from len seg plain))" using m all(2) by auto
      have "length (part_of from len seg plain) \<le> length plain" by (auto simp: part_of_def sub_slice_def split: prod.splits)
      then show ?thesis using sp small[of plain] by (auto dest: set_zip_rightD)
    qed
    then have "good_reader (streaming (known_length lst ?first info) (produce dec (filter (\<lambda>s. s \<in> set R) segs)) len)"
      using data n b(2) by (simp add: good_reader_def streaming_def)
    then show ?thesis using that[OF down] data by (simp add: held_def streaming_def unread_def)
  qed
qed

text \<open>
  C1: an object whose segments were committed one after the other is downloaded, over any range that resolves.  The satellite lists the
  segments in pages of any size, sends some of them along and the others on demand; it need not say how long the object is when it lists all segments.
  Then \<open>download_segments\<close> returns a reader, and however its reads are scheduled, it never fails, what it delivers is always a prefix of the
  requested bytes of the object, and it reports the end only after all of them.  When every read has room for a byte and finds the results of
  all segments ready, the end is reported after at most one read per byte.
\<close>

theorem object_reads_back:
  assumes "crypto_ok cr" and "0 < block"
    and "object_info show_enc show_up cr pb ckey key (dr_object resp) = Inr (info, suite, block)"
    and "length_known info Q segs (length (concat plains))"
    and "resolve_range (do_offset opts) (do_length opts) (int (length (concat plains))) = Inr (from, len)"
    and "tiles 0 segs plains" and "int (length (concat plains)) \<le> i64_max" and "satellite_ok list_segments download_segment resp from len Q segs"
    and "\<forall>(seg, plain) \<in> set (zip segs plains). kept cr oc cpu nets hedge_delay ckey suite block from len seg plain"
  shows "\<exists>reader. download_segments show_enc show_up cr pb oc cpu nets hedge_delay list_segments download_segment key ckey opts resp = Some (Inr reader) \<and>
    (\<forall>polls rs st. read_calls polls reader = (rs, st) \<longrightarrow>
      (let range = sub_slice (concat plains) (nat from) (nat from + nat len)
       in \<not> list_ex is_err rs \<and> prefix (delivered rs) range \<and>
          (\<forall>i < length polls. is_end (rs ! i) (snd (polls ! i)) \<longrightarrow> delivered (take i rs) = range) \<and>
          ((\<forall>p \<in> set polls. all_ready reader p) \<and> length range < length polls \<longrightarrow> (\<exists>i < length polls. is_end (rs ! i) (snd (polls ! i))))))"
proof -
  obtain reader where r: "download_segments show_enc show_up cr pb oc cpu nets hedge_delay list_segments download_segment key ckey opts resp = Some (Inr reader)"
      "good_reader reader" "held reader = sub_slice (concat plains) (nat from) (nat from + nat len)"
    using download_segments_ok[OF assms] .
  let ?range = "sub_slice (concat plains) (nat from) (nat from + nat len)"
  show ?thesis
  proof (intro exI[of _ reader] conjI allI impI, rule r(1))
    fix polls rs st
    assume rc: "read_calls polls reader = (rs, st)"
    note g = read_calls_good[OF r(2) rc, unfolded r(3)]
    then have "prefix (delivered rs) ?range" by (metis prefixI)
    moreover have "\<exists>i < length polls. is_end (rs ! i) (snd (polls ! i))"
      if "(\<forall>p \<in> set polls. all_ready reader p) \<and> length ?range < length polls"
      using reads_finish[OF r(2), of polls] that rc r(3) by simp
    ultimately show "let range = ?range in \<not> list_ex is_err rs \<and> prefix (delivered rs) range \<and>
        (\<forall>i < length polls. is_end (rs ! i) (snd (polls ! i)) \<longrightarrow> delivered (take i rs) = range) \<and>
        ((\<forall>p \<in> set polls. all_ready reader p) \<and> length range < length polls \<longrightarrow> (\<exists>i < length polls. is_end (rs ! i) (snd (polls ! i))))"
      unfolding Let_def using g by (intro conjI impI) blast+
  qed
qed

text \<open>
  An object of two inline segments, of which the second half of the first and the first byte of the second are read.  The second segment is
  on the second page of the listing and fetched on demand, and the object does not say its length.
\<close>

definition sample_jobs :: "SegmentJob list" where
  "sample_jobs = [inline_job, inline_job\<lparr>job_index := 1, job_plain := [4, 5]\<rparr>]"

definition sample_segs :: "DownloadSegment list" where
  "sample_segs = map2 (\<lambda>job off. case commit_one_segment (\<lambda>_. []) (\<lambda>_. []) toy_crypto toy_order_crypto Portable inline_env (replicate 32 1) (replicate 24 0) job of
       Inr (_, stored) \<Rightarrow> (inline_answer stored)\<lparr>ds_plain_offset := off\<rparr>
     | Inl _ \<Rightarrow> inline_answer (StoredRemote \<lparr>cs_segment_id = [], cs_encrypted_key_nonce = [], cs_encrypted_key = [], cs_size_encrypted_data = 0,
         cs_plain_size = 0, cs_encrypted_etag = [], cs_upload_result = []\<rparr> (0, 0) remote_scheme [])) sample_jobs [0, 3]"

definition sample_object :: PbObject where
  "sample_object = \<lparr>po_bucket = [], po_status = 0, po_version = [], po_stream_id = [], po_created_at = None, po_expires_at = None, po_plain_size = 0,
     po_encrypted_metadata = [], po_encrypted_metadata_encrypted_key = [], po_encrypted_metadata_nonce = [], po_encryption_parameters = Some (2, 32),
     po_checksum_algorithm = 0, po_is_checksum_composite = False, po_encrypted_checksum = []\<rparr>"

definition sample_item :: "DownloadSegment \<Rightarrow> SegmentListItem" where
  "sample_item seg = \<lparr>sli_position = ds_position seg, sli_plain_size = ds_plain_size seg, sli_plain_offset = ds_plain_offset seg, sli_created_at = None,
     sli_encrypted_e_tag = [], sli_encrypted_key_nonce = ds_encrypted_key_nonce seg, sli_encrypted_key = ds_encrypted_key seg\<rparr>"

definition sample_response :: DownloadObjectResponse where
  "sample_response = \<lparr>dr_object = Some sample_object, dr_segment_list = Some \<lparr>sl_items = [sample_item (sample_segs ! 0)], sl_more = True\<rparr>,
     dr_segment_download = [sample_segs ! 0]\<rparr>"

definition sample_list :: "SegmentPosition option \<Rightarrow> PublicError + SegmentList" where
  "sample_list p = (if p = Some (0, 0) then Inr \<lparr>sl_items = [sample_item (sample_segs ! 1)], sl_more = False\<rparr>
     else Inr \<lparr>sl_items = map sample_item sample_segs, sl_more = False\<rparr>)"

definition sample_segment :: "SegmentPosition \<Rightarrow> PublicError + DownloadSegment" where
  "sample_segment p = (if p = (0, 0) then Inr (sample_segs ! 0) else Inr (sample_segs ! 1))"

definition no_net :: SegmentNet where
  "no_net = \<lparr>net_outcome = (\<lambda>_ _ _ _. Inr (0, [])), net_events = (\<lambda>_. [])\<rparr>"

lemma sample_segs_stored:
  obtains n1 mi1 n2 mi2 where
    "commit_one_segment (\<lambda>_. []) (\<lambda>_. []) toy_crypto toy_order_crypto Portable inline_env (replicate 32 1) (replicate 24 0) (sample_jobs ! 0) = Inr (n1, StoredInline mi1)"
    "commit_one_segment (\<lambda>_. []) (\<lambda>_. []) toy_crypto toy_order_crypto Portable inline_env (replicate 32 1) (replicate 24 0) (sample_jobs ! 1) = Inr (n2, StoredInline mi2)"
    "sample_segs = [(inline_answer (StoredInline mi1))\<lparr>ds_plain_offset := 0\<rparr>, (inline_answer (StoredInline mi2))\<lparr>ds_plain_offset := 3\<rparr>]"
    "mi_plain_size mi1 = 3" "mi_plain_size mi2 = 2" "mi_position mi1 = (0, 0)" "mi_position mi2 = (0, 1)"
proof -
  let ?c = "commit_one_segment (\<lambda>_. []) (\<lambda>_. []) toy_crypto toy_order_crypto Portable inline_env (replicate 32 1) (replicate 24 0)"
  have "case ?c (sample_jobs ! 0) of Inr (n, StoredInline mi) \<Rightarrow> mi_plain_size mi = 3 \<and> mi_position mi = (0, 0) | _ \<Rightarrow> False"
    "case ?c (sample_jobs ! 1) of Inr (n, StoredInline mi) \<Rightarrow> mi_plain_size mi = 2 \<and> mi_position mi = (0, 1) | _ \<Rightarrow> False" by code_simp+
  then obtain n1 mi1 n2 mi2 where "?c (sample_jobs ! 0) = Inr (n1, StoredInline mi1)" "mi_plain_size mi1 = 3" "mi_position mi1 = (0, 0)"
    "?c (sample_jobs ! 1) = Inr (n2, StoredInline mi2)" "mi_plain_size mi2 = 2" "mi_position mi2 = (0, 1)"
    by (auto split: sum.splits prod.splits StoredSegment.splits)
  then show ?thesis using that by (simp add: sample_segs_def sample_jobs_def)
qed

theorem object_reads_back_witness:
  "\<exists>reader polls rs st i. download_segments (\<lambda>_. []) (\<lambda>_. []) toy_crypto toy_user_pb toy_order_crypto Portable (\<lambda>_. no_net) 0 sample_list sample_segment
      [97] (replicate 32 2) \<lparr>do_offset = 1, do_length = 3, do_version = []\<rparr> sample_response = Some (Inr reader) \<and>
    read_calls polls reader = (rs, st) \<and> i < length polls \<and> is_end (rs ! i) (snd (polls ! i)) \<and> delivered (take i rs) = [2, 3, 4]"
proof -
  let ?d = "download_segments (\<lambda>_. []) (\<lambda>_. []) toy_crypto toy_user_pb toy_order_crypto Portable (\<lambda>_. no_net) 0 sample_list sample_segment
      [97] (replicate 32 2) \<lparr>do_offset = 1, do_length = 3, do_version = []\<rparr> sample_response"
  let ?plains = "[[1, 2, 3], [4, 5]] :: bytes list"
  obtain n1 mi1 n2 mi2 where s: 
    "commit_one_segment (\<lambda>_. []) (\<lambda>_. []) toy_crypto toy_order_crypto Portable inline_env (replicate 32 1) (replicate 24 0) (sample_jobs ! 0) = Inr (n1, StoredInline mi1)"
    "commit_one_segment (\<lambda>_. []) (\<lambda>_. []) toy_crypto toy_order_crypto Portable inline_env (replicate 32 1) (replicate 24 0) (sample_jobs ! 1) = Inr (n2, StoredInline mi2)"
    "sample_segs = [(inline_answer (StoredInline mi1))\<lparr>ds_plain_offset := 0\<rparr>, (inline_answer (StoredInline mi2))\<lparr>ds_plain_offset := 3\<rparr>]"
    "mi_plain_size mi1 = 3" "mi_plain_size mi2 = 2" "mi_position mi1 = (0, 0)" "mi_position mi2 = (0, 1)"
    by (rule sample_segs_stored)
  have info: "object_info (\<lambda>_. []) (\<lambda>_. []) toy_crypto toy_user_pb (replicate 32 2) [97] (dr_object sample_response) = Inr (object_from_proto (Some sample_object) [97], AES_GCM, 32)"
    by (simp add: object_info_def sample_response_def sample_object_def encryption_from_params_def)
  have range: "resolve_range 1 3 5 = Inr (1, 3)" by code_simp
  have t: "tiles 0 sample_segs ?plains" by (simp add: s inline_answer_def)
  let ?items = "[sample_item (sample_segs ! 0), sample_item (sample_segs ! 1)]"
  have items: "map sample_item (filter (\<lambda>_. True) sample_segs) = ?items" by (simp add: s(3))
  have first: "first_list sample_response = \<lparr>sl_items = take 1 ?items, sl_more = (1 < length ?items)\<rparr>" by (simp add: first_list_def sample_response_def)
  have c0: "sample_list (cursor_after ?items 0) = Inr \<lparr>sl_items = take 2 (drop 0 ?items), sl_more = (0 + 2 < length ?items)\<rparr>"
    by (simp add: cursor_after_def sample_list_def s(3))
  have c1: "sample_list (cursor_after ?items 1) = Inr \<lparr>sl_items = take 1 (drop 1 ?items), sl_more = (1 + 1 < length ?items)\<rparr>"
    by (simp add: cursor_after_def sample_list_def sample_item_def s(3,6) inline_answer_def)
  have "\<exists>k > 0. sample_list (cursor_after ?items n) = Inr \<lparr>sl_items = take k (drop n ?items), sl_more = (n + k < length ?items)\<rparr>" if "n < length ?items" for n
  proof -
    have "n = 0 \<or> n = 1" using that by auto
    then show ?thesis using c0 c1 zero_less_one zero_less_numeral by metis
  qed
  then have "pages_of sample_list (first_list sample_response) (map sample_item (filter (\<lambda>_. True) sample_segs))"
    unfolding pages_of_def items using first by blast
  moreover have "describes sample_item" by (simp add: describes_def sample_item_def)
  ultimately have sat: "satellite_ok sample_list sample_segment sample_response 1 3 (\<lambda>_. True) sample_segs"
    unfolding satellite_ok_def by (auto simp: s inline_answer_def segment_key_def unwrap_position_def sample_segment_def sample_response_def)
  have known: "length_known (object_from_proto (Some sample_object) [97]) (\<lambda>_. True) sample_segs (length (concat ?plains))"
    by (simp add: length_known_def object_from_proto_def sample_object_def)
  have "segment_plain_range 1 3 0 3 = (1, 2)" "segment_plain_range 1 3 3 2 = (0, 1)" by code_simp+
  then have "kept toy_crypto toy_order_crypto Portable (\<lambda>_. no_net) 0 (replicate 32 2) AES_GCM 32 1 3 (sample_segs ! 0) [1, 2, 3]"
    "kept toy_crypto toy_order_crypto Portable (\<lambda>_. no_net) 0 (replicate 32 2) AES_GCM 32 1 3 (sample_segs ! 1) [4, 5]"
    unfolding kept_def using s(1,2)
    by (fastforce simp: s(3-7) inline_answer_def sample_jobs_def inline_job_def)+
  then have "\<forall>(seg, plain) \<in> set (zip sample_segs ?plains). kept toy_crypto toy_order_crypto Portable (\<lambda>_. no_net) 0 (replicate 32 2) AES_GCM 32 1 3 seg plain"
    by (simp add: s(3))
  from object_reads_back[OF toy_crypto_ok _ info known _ t _ sat this, of "\<lparr>do_offset = 1, do_length = 3, do_version = []\<rparr>"] range
  obtain reader where d: "?d = Some (Inr reader)" and r: "\<forall>polls rs st. read_calls polls reader = (rs, st) \<longrightarrow>
      (\<forall>i < length polls. is_end (rs ! i) (snd (polls ! i)) \<longrightarrow> delivered (take i rs) = [2, 3, 4]) \<and>
      ((\<forall>p \<in> set polls. all_ready reader p) \<and> 3 < length polls \<longrightarrow> (\<exists>i < length polls. is_end (rs ! i) (snd (polls ! i))))"
    by (auto simp: sub_slice_def Let_def)
  define polls :: "(bool list \<times> nat) list" where
    "polls = replicate 4 (replicate (case dl_rx reader of Some rx \<Rightarrow> Suc (length rx) | None \<Rightarrow> 0) True, 2)"
  obtain rs st where rc: "read_calls polls reader = (rs, st)" by (cases "read_calls polls reader")
  have "(\<forall>p \<in> set polls. all_ready reader p) \<and> 3 < length polls" by (auto simp: polls_def all_ready_def)
  then obtain i where "i < length polls" "is_end (rs ! i) (snd (polls ! i))" "delivered (take i rs) = [2, 3, 4]" using r rc by blast
  then show ?thesis using d rc by blast
qed

end
