(* ===== verification/Batch_Codec.thy ===== *)
theory Batch_Codec
  imports Drpc_Conn
begin

text \<open>
  The wrapping of batched calls, \<open>crates/storj-proto/src/compressed.rs\<close>.  The compressor (crate \<open>zstd\<close>, with the window size the
  code sets on the encoder and the decoder) and the encoding of the
  messages (crate \<open>prost\<close>) are parameters: compressing gives bytes or an error; opening a decoder gives an error or the
  results of its successive reads into a buffer, of which an empty one, or the end of the list, is the end of the data.

  Shown: what is encoded is decoded again, compressed or not, and no more than 64 MiB are ever decompressed.
\<close>

section \<open>The code\<close>

definition MAX_DECODE_MEMORY :: nat where "MAX_DECODE_MEMORY = 64 * 1024 * 1024"

datatype CompressedError = Zstd io_error | Decode | Unsupported int | Oversize

record ZstdLib =
  zl_compress :: "bytes \<Rightarrow> io_error + bytes"
  zl_reads :: "bytes \<Rightarrow> io_error + (io_error + bytes) list"

record ('q, 'r) BatchPb =
  request_encode :: "'q \<Rightarrow> bytes"
  request_decode :: "bytes \<Rightarrow> 'q option"
  response_encode :: "'r \<Rightarrow> bytes"
  response_decode :: "bytes \<Rightarrow> 'r option"

definition compress :: "ZstdLib \<Rightarrow> bytes \<Rightarrow> CompressedError + bytes" where
  "compress z plain = map_err Zstd (zl_compress z plain)"

fun decompress_loop :: "(io_error + bytes) list \<Rightarrow> bytes \<Rightarrow> CompressedError + bytes" where
  "decompress_loop [] out = Inr out"
| "decompress_loop (Inl e # rs) out = Inl (Zstd e)"
| "decompress_loop (Inr tmp # rs) out =
    (if tmp = [] then Inr out
     else if length out + length tmp > MAX_DECODE_MEMORY then Inl Oversize
     else decompress_loop rs (out @ tmp))"

definition decompress :: "ZstdLib \<Rightarrow> bytes \<Rightarrow> CompressedError + bytes" where
  "decompress z compressed = try_bind (map_err Zstd (zl_reads z compressed)) (\<lambda>rs. decompress_loop rs [])"

record CompressedBatchRequest =
  cbq_supported :: "int list"
  cbq_selected :: int
  cbq_data :: bytes

record CompressedBatchResponse =
  cbr_selected :: int
  cbr_data :: bytes

definition COMPRESSION_NONE :: int where "COMPRESSION_NONE = 0"
definition COMPRESSION_ZSTD :: int where "COMPRESSION_ZSTD = 1"

definition encode_batch_request :: "('q, 'r) BatchPb \<Rightarrow> 'q \<Rightarrow> CompressedBatchRequest" where
  "encode_batch_request pb batch =
    \<lparr>cbq_supported = [COMPRESSION_ZSTD], cbq_selected = COMPRESSION_NONE, cbq_data = request_encode pb batch\<rparr>"

definition encode_batch_request_zstd :: "ZstdLib \<Rightarrow> ('q, 'r) BatchPb \<Rightarrow> 'q \<Rightarrow> CompressedError + CompressedBatchRequest" where
  "encode_batch_request_zstd z pb batch =
    try_bind (compress z (request_encode pb batch)) (\<lambda>dat.
      Inr \<lparr>cbq_supported = [COMPRESSION_ZSTD], cbq_selected = COMPRESSION_ZSTD, cbq_data = dat\<rparr>)"

definition decode_payload :: "ZstdLib \<Rightarrow> int \<Rightarrow> bytes \<Rightarrow> CompressedError + bytes" where
  "decode_payload z selected dat =
    (if selected = COMPRESSION_NONE then Inr dat else if selected = COMPRESSION_ZSTD then decompress z dat else Inl (Unsupported selected))"

definition decode_batch_request :: "ZstdLib \<Rightarrow> ('q, 'r) BatchPb \<Rightarrow> CompressedBatchRequest \<Rightarrow> CompressedError + 'q" where
  "decode_batch_request z pb req =
    try_bind (decode_payload z (cbq_selected req) (cbq_data req)) (\<lambda>raw. ok_or Decode (request_decode pb raw))"

definition encode_batch_response :: "ZstdLib \<Rightarrow> ('q, 'r) BatchPb \<Rightarrow> 'r \<Rightarrow> bool \<Rightarrow> CompressedError + CompressedBatchResponse" where
  "encode_batch_response z pb batch use_zstd =
    (let raw = response_encode pb batch
     in if use_zstd then try_bind (compress z raw) (\<lambda>dat. Inr \<lparr>cbr_selected = COMPRESSION_ZSTD, cbr_data = dat\<rparr>)
        else Inr \<lparr>cbr_selected = COMPRESSION_NONE, cbr_data = raw\<rparr>)"

definition decode_batch_response :: "ZstdLib \<Rightarrow> ('q, 'r) BatchPb \<Rightarrow> CompressedBatchResponse \<Rightarrow> CompressedError + 'r" where
  "decode_batch_response z pb resp =
    try_bind (decode_payload z (cbr_selected resp) (cbr_data resp)) (\<lambda>raw. ok_or Decode (response_decode pb raw))"

section \<open>Properties\<close>

text \<open>What is documented of the two crates: a decoder reads back what was compressed, and a message survives its encoding.\<close>

definition zstd_ok :: "ZstdLib \<Rightarrow> bool" where
  "zstd_ok z \<longleftrightarrow> (\<forall>plain c. zl_compress z plain = Inr c \<longrightarrow>
    (\<exists>chunks. zl_reads z c = Inr (map Inr chunks) \<and> concat chunks = plain \<and> [] \<notin> set chunks))"

definition batch_pb_ok :: "('q, 'r) BatchPb \<Rightarrow> bool" where
  "batch_pb_ok pb \<longleftrightarrow> (\<forall>q. request_decode pb (request_encode pb q) = Some q) \<and> (\<forall>r. response_decode pb (response_encode pb r) = Some r)"

lemma decompress_loop_chunks:
  assumes "[] \<notin> set chunks" "length out \<le> MAX_DECODE_MEMORY"
  shows "decompress_loop (map Inr chunks) out =
    (if length out + length (concat chunks) \<le> MAX_DECODE_MEMORY then Inr (out @ concat chunks) else Inl Oversize)"
  using assms by (induction chunks arbitrary: out) auto

lemma decompress_loop_bounded:
  "decompress_loop rs out = Inr raw \<Longrightarrow> length out \<le> MAX_DECODE_MEMORY \<Longrightarrow> length raw \<le> MAX_DECODE_MEMORY"
  by (induction rs out rule: decompress_loop.induct) (auto split: if_splits)

lemma decompress_compress:
  assumes "zstd_ok z" "compress z plain = Inr c"
  shows "decompress z c = (if length plain \<le> MAX_DECODE_MEMORY then Inr plain else Inl Oversize)"
proof -
  obtain chunks where "zl_reads z c = Inr (map Inr chunks)" "concat chunks = plain" "[] \<notin> set chunks"
    using assms by (auto simp: zstd_ok_def compress_def result_simps)
  then show ?thesis using decompress_loop_chunks[of chunks "[]"] by (auto simp: decompress_def)
qed

text \<open>
  C25: a batch that was wrapped is unwrapped again: a request as the client sends it, and a compressed request or a response in either form
  unless it is larger than 64 MiB, when it is refused; a form that is not known is refused too.  No
  compressed data, however made, unfold to more than 64 MiB.
\<close>

theorem batch_codec_round_trip:
  assumes "zstd_ok z" and "batch_pb_ok pb"
  shows "decode_batch_request z pb (encode_batch_request pb q) = Inr q \<and>
    (\<forall>w. encode_batch_request_zstd z pb q = Inr w \<longrightarrow>
      decode_batch_request z pb w = (if length (request_encode pb q) \<le> MAX_DECODE_MEMORY then Inr q else Inl Oversize)) \<and>
    (\<forall>w use_zstd. encode_batch_response z pb r use_zstd = Inr w \<longrightarrow>
      decode_batch_response z pb w = (if use_zstd \<and> length (response_encode pb r) > MAX_DECODE_MEMORY then Inl Oversize else Inr r)) \<and>
    (\<forall>dat raw. decode_payload z COMPRESSION_ZSTD dat = Inr raw \<longrightarrow> length raw \<le> MAX_DECODE_MEMORY) \<and>
    (selected \<notin> {COMPRESSION_NONE, COMPRESSION_ZSTD} \<longrightarrow> decode_payload z selected any = Inl (Unsupported selected))"
proof (intro conjI allI impI)
  have pb: "request_decode pb (request_encode pb q) = Some q" "response_decode pb (response_encode pb r) = Some r"
    using assms(2) by (auto simp: batch_pb_ok_def)
  have sel: "COMPRESSION_ZSTD \<noteq> COMPRESSION_NONE" by (simp add: COMPRESSION_ZSTD_def COMPRESSION_NONE_def)
  show "decode_batch_request z pb (encode_batch_request pb q) = Inr q"
    by (simp add: decode_batch_request_def encode_batch_request_def decode_payload_def pb)
  show "decode_batch_request z pb w = (if length (request_encode pb q) \<le> MAX_DECODE_MEMORY then Inr q else Inl Oversize)"
    if "encode_batch_request_zstd z pb q = Inr w" for w
    using that decompress_compress[OF assms(1), of "request_encode pb q"] sel pb
    by (auto simp: encode_batch_request_zstd_def decode_batch_request_def decode_payload_def result_simps)
  show "decode_batch_response z pb w = (if use_zstd \<and> length (response_encode pb r) > MAX_DECODE_MEMORY then Inl Oversize else Inr r)"
    if "encode_batch_response z pb r use_zstd = Inr w" for w use_zstd
    using that decompress_compress[OF assms(1), of "response_encode pb r"] sel pb
    by (auto simp: encode_batch_response_def decode_batch_response_def decode_payload_def result_simps split: if_splits)
  show "length raw \<le> MAX_DECODE_MEMORY" if "decode_payload z COMPRESSION_ZSTD dat = Inr raw" for dat raw
    using that sel decompress_loop_bounded[of _ "[]" raw] by (auto simp: decode_payload_def decompress_def result_simps)
  show "decode_payload z selected any = Inl (Unsupported selected)" if "selected \<notin> {COMPRESSION_NONE, COMPRESSION_ZSTD}"
    using that by (simp add: decode_payload_def)
qed

text \<open>A compressor that does nothing and reads byte by byte, and messages that are their own encoding.\<close>

definition toy_zstd :: ZstdLib where
  "toy_zstd = \<lparr>zl_compress = Inr, zl_reads = (\<lambda>c. Inr (map (\<lambda>b. Inr [b]) c))\<rparr>"

definition toy_batch_pb :: "(bytes, bytes) BatchPb" where
  "toy_batch_pb = \<lparr>request_encode = (\<lambda>q. q), request_decode = Some, response_encode = (\<lambda>r. r), response_decode = Some\<rparr>"

lemma toy_batch_ok: "zstd_ok toy_zstd" "batch_pb_ok toy_batch_pb"
proof -
  have "\<exists>chunks. map (\<lambda>b. Inr [b] :: io_error + bytes) plain = map Inr chunks \<and> concat chunks = plain \<and> [] \<notin> set chunks" for plain :: bytes
    by (rule exI[of _ "map (\<lambda>b. [b]) plain"]) auto
  then show "zstd_ok toy_zstd" by (simp add: zstd_ok_def toy_zstd_def)
qed (simp add: batch_pb_ok_def toy_batch_pb_def)

theorem batch_codec_round_trip_witness:
  "decode_batch_response toy_zstd toy_batch_pb \<lparr>cbr_selected = COMPRESSION_ZSTD, cbr_data = [1, 2, 3]\<rparr> = Inr [1, 2, 3]"
proof -
  have "encode_batch_response toy_zstd toy_batch_pb [1, 2, 3] True = Inr \<lparr>cbr_selected = COMPRESSION_ZSTD, cbr_data = [1, 2, 3]\<rparr>" by code_simp
  moreover have "length (response_encode toy_batch_pb [1, 2, 3]) \<le> MAX_DECODE_MEMORY" by (simp add: toy_batch_pb_def MAX_DECODE_MEMORY_def)
  ultimately show ?thesis using batch_codec_round_trip[OF toy_batch_ok, of "[]" "[1, 2, 3]" 7 "[]"] by (simp, blast)
qed

end
