(* ===== verification/Metainfo.thy ===== *)
theory Metainfo
  imports Public_Error Node_Identity "HOL-Library.Sublist"
begin

text \<open>
  The client of the satellite, \<open>crates/storj/src/metainfo.rs\<close>: its pool of connections, the retries and
  the classification of the satellite's errors; the calls themselves are in \<open>Metainfo_Calls\<close>.  A call runs on the model of the DRPC connection (\<open>Drpc_Conn\<close>).
  Parameters are the results of dialling (one per attempt, used when no connection is idle) and how errors are written as
  text.  A call returns its result, the client afterwards, and a record of its attempts: the connection that each of them used, as it was taken and as
  the call left it, from which one reads what went out on the wire.

  Shown: a call that changes the satellite's state is written to at most one connection and there at most once, whatever happens; only sound
  connections return to the pool; together, idle and busy connections are never more than eight; and the kinds of remote errors.
\<close>

section \<open>The code\<close>

subsection \<open>Calls\<close>

definition PROJECT_INFO :: bytes where "PROJECT_INFO = ascii ''/metainfo.Metainfo/ProjectInfo''"
definition COMPRESSED_BATCH :: bytes where "COMPRESSED_BATCH = ascii ''/metainfo.Metainfo/CompressedBatch''"
definition CREATE_BUCKET :: bytes where "CREATE_BUCKET = ascii ''/metainfo.Metainfo/CreateBucket''"
definition GET_BUCKET :: bytes where "GET_BUCKET = ascii ''/metainfo.Metainfo/GetBucket''"
definition DELETE_BUCKET :: bytes where "DELETE_BUCKET = ascii ''/metainfo.Metainfo/DeleteBucket''"
definition LIST_BUCKETS :: bytes where "LIST_BUCKETS = ascii ''/metainfo.Metainfo/ListBuckets''"
definition GET_OBJECT_RETENTION :: bytes where "GET_OBJECT_RETENTION = ascii ''/metainfo.Metainfo/GetObjectRetention''"
definition GET_OBJECT_LEGAL_HOLD :: bytes where "GET_OBJECT_LEGAL_HOLD = ascii ''/metainfo.Metainfo/GetObjectLegalHold''"
definition GET_BUCKET_OBJECT_LOCK_CONFIGURATION :: bytes where
  "GET_BUCKET_OBJECT_LOCK_CONFIGURATION = ascii ''/metainfo.Metainfo/GetBucketObjectLockConfiguration''"

definition is_idempotent_rpc :: "bytes \<Rightarrow> bool" where
  "is_idempotent_rpc rpc \<longleftrightarrow>
    rpc \<in> {PROJECT_INFO, GET_BUCKET, LIST_BUCKETS, GET_OBJECT_RETENTION, GET_OBJECT_LEGAL_HOLD, GET_BUCKET_OBJECT_LOCK_CONFIGURATION}"

subsection \<open>Errors\<close>

definition RPC_CANCELED :: u64 where "RPC_CANCELED = 1"
definition RPC_INVALID_ARGUMENT :: u64 where "RPC_INVALID_ARGUMENT = 3"
definition RPC_NOT_FOUND :: u64 where "RPC_NOT_FOUND = 5"
definition RPC_ALREADY_EXISTS :: u64 where "RPC_ALREADY_EXISTS = 6"
definition RPC_PERMISSION_DENIED :: u64 where "RPC_PERMISSION_DENIED = 7"
definition RPC_FAILED_PRECONDITION :: u64 where "RPC_FAILED_PRECONDITION = 9"
definition RPC_UNAUTHENTICATED :: u64 where "RPC_UNAUTHENTICATED = 16"

definition RETENTION_NOT_FOUND_MSG :: string where "RETENTION_NOT_FOUND_MSG = ''object has no retention configuration''"

text \<open>The codes of object lock and the fixed texts they stand for.\<close>

definition lock_messages :: "(u64 \<times> string) list" where
  "lock_messages =
    [(10000, ''object lock is not enabled''),
     (10001, ''object lock is not enabled for this project''),
     (10002, ''object lock requires bucket versioning to be enabled''),
     (10003, ''object lock is not enabled for this bucket''),
     (10004, RETENTION_NOT_FOUND_MSG),
     (10005, ''object is protected by Object Lock settings''),
     (10006, ''object state is invalid for Object Lock''),
     (10007, ''bucket object lock configuration is invalid''),
     (10008, ''cannot specify an object expiration time when uploading into an Object Lock enabled bucket''),
     (10009, ''cannot upload into an Object Lock enabled bucket using an API key that enforces an object expiration time''),
     (10010, ''cannot specify an object expiration time when uploading into a bucket with default retention settings''),
     (10011, ''cannot upload into a bucket with default retention settings using an API key that enforces an object expiration time'')]"

definition contains :: "string \<Rightarrow> bytes \<Rightarrow> bool" where "contains t s \<longleftrightarrow> sublist (ascii t) s"
definition starts_with :: "string \<Rightarrow> bytes \<Rightarrow> bool" where "starts_with t s \<longleftrightarrow> prefix (ascii t) s"
definition ends_with :: "string \<Rightarrow> bytes \<Rightarrow> bool" where "ends_with t s \<longleftrightarrow> suffix (ascii t) s"

definition is_retryable_rpc :: "Error \<Rightarrow> bool" where
  "is_retryable_rpc err =
    (case err of
       Io _ \<Rightarrow> True | Truncated \<Rightarrow> True | Closed \<Rightarrow> True | MuxPrefix _ \<Rightarrow> True
     | Drpc_Conn.Remote code message \<Rightarrow> code = RPC_UNAVAILABLE \<or> (code = RPC_RESOURCE_EXHAUSTED \<and> contains ''Too Many Requests'' message)
     | _ \<Rightarrow> False)"

definition is_conn_dead :: "Error \<Rightarrow> bool" where
  "is_conn_dead err \<longleftrightarrow> (case err of Drpc_Conn.Remote _ _ \<Rightarrow> False | _ \<Rightarrow> True)"

definition to_ascii_lowercase :: "bytes \<Rightarrow> bytes" where
  "to_ascii_lowercase = map (\<lambda>b. if 65 \<le> b \<and> b \<le> 90 then b + 32 else b)"

definition bucket_from_not_found :: "bytes \<Rightarrow> bytes option" where
  "bucket_from_not_found message =
    (let pfx = ascii ''bucket not found''
     in if \<not> prefix pfx message then None
        else let rest = dropWhile (\<lambda>b. b = 58 \<or> b = 32) (drop (length pfx) message) in if rest = [] then None else Some rest)"

text \<open>\<open>dbg\<close> is the quoted form of a text, \<open>{:?}\<close>.\<close>

definition show_text :: "bytes \<Rightarrow> string" where "show_text = map (\<lambda>b. char_of (uint b))"

definition map_remote :: "(bytes \<Rightarrow> string) \<Rightarrow> (u64 \<Rightarrow> string) \<Rightarrow> bytes \<Rightarrow> u64 \<Rightarrow> bytes \<Rightarrow> bytes \<Rightarrow> bytes \<Rightarrow> PublicError" where
  "map_remote dbg show_code rpc code message bucket key =
    (let lower = to_ascii_lowercase message; msg = show_text message
     in if code = RPC_CANCELED then pe_new Canceled msg
        else if code = RPC_INVALID_ARGUMENT then
          (if rpc = CREATE_BUCKET \<or> contains ''bucket name'' lower then
             pe_new BucketNameInvalid (''bucket name invalid ('' @ dbg bucket @ '')'')
           else if key \<noteq> [] \<and> (contains ''object key'' lower \<or> contains ''encrypted path'' lower) then
             pe_new ObjectKeyInvalid (''object key invalid ('' @ dbg key @ '')'')
           else pe_new ProtocolKind msg)
        else if code = RPC_NOT_FOUND then
          (if starts_with ''bucket not found'' lower then
             pe_new BucketNotFound (''bucket not found ('' @ dbg (case bucket_from_not_found message of Some n \<Rightarrow> n | None \<Rightarrow> bucket) @ '')'')
           else if starts_with ''object not found'' lower then
             pe_new ObjectNotFound (''object not found ('' @ dbg key @ '')'')
           else if rpc = GET_BUCKET \<or> rpc = DELETE_BUCKET then
             pe_new BucketNotFound (''bucket not found ('' @ dbg bucket @ '')'')
           else pe_new ProtocolKind msg)
        else if code = RPC_ALREADY_EXISTS then
          pe_new BucketAlreadyExists (''bucket already exists ('' @ dbg bucket @ '')'')
        else if code = RPC_PERMISSION_DENIED then pe_new PermissionDenied (''permission denied ('' @ msg @ '')'')
        else if code = RPC_RESOURCE_EXHAUSTED then
          (if ends_with ''Exceeded Usage Limit'' message then pe_new BandwidthLimitExceeded msg
           else if ends_with ''Too Many Requests'' message then pe_new TooManyRequests msg
           else if contains ''Exceeded Storage Limit'' message then pe_new StorageLimitExceeded msg
           else if contains ''Exceeded Segments Limit'' message then pe_new SegmentsLimitExceeded msg
           else pe_new ProtocolKind msg)
        else if code = RPC_FAILED_PRECONDITION \<and> (rpc = DELETE_BUCKET \<or> contains ''not empty'' lower) then
          pe_new BucketNotEmpty (''bucket not empty ('' @ dbg bucket @ '')'')
        else if code = RPC_UNAUTHENTICATED then pe_new PermissionDenied (''permission denied ('' @ msg @ '')'')
        else case map_of lock_messages code of
          Some text \<Rightarrow> pe_new ProtocolKind text
        | None \<Rightarrow> pe_new ProtocolKind (''DRPC remote error (code '' @ show_code code @ ''): '' @ msg))"

definition map_identity_err :: "(IdentityError \<Rightarrow> string) \<Rightarrow> IdentityError \<Rightarrow> PublicError" where
  "map_identity_err show_id e =
    (case e of
       NodeIdRequired \<Rightarrow> pe_new InvalidGrant (show_id e)
     | NodeIdErr \<Rightarrow> pe_new InvalidGrant (show_id e)
     | NodeUrlErr _ \<Rightarrow> pe_new InvalidGrant (show_id e)
     | Certificate _ \<Rightarrow> pe_new ProtocolKind (show_id e)
     | SignatureErr \<Rightarrow> pe_new ProtocolKind (show_id e))"

definition parse_satellite_url :: "(IdentityError \<Rightarrow> string) \<Rightarrow> B58 \<Rightarrow> bytes \<Rightarrow> PublicError + NodeUrl" where
  "parse_satellite_url show_id bc address = map_err (map_identity_err show_id) (parse_node_url bc address)"

text \<open>How errors are written, and the messages of the calls.\<close>

record Texts =
  tx_dbg :: "bytes \<Rightarrow> string"
  tx_code :: "u64 \<Rightarrow> string"
  tx_rpc :: "Error \<Rightarrow> string"
  tx_io :: "io_error \<Rightarrow> string"

definition map_rpc_error :: "Texts \<Rightarrow> bytes \<Rightarrow> Error \<Rightarrow> bytes \<Rightarrow> bytes \<Rightarrow> PublicError" where
  "map_rpc_error tx rpc err bucket key =
    (case err of
       Drpc_Conn.Remote code message \<Rightarrow> map_remote (tx_dbg tx) (tx_code tx) rpc code message bucket key
     | Io e \<Rightarrow> from_io \<lparr>ie_kind = (case e of InterruptedIo _ \<Rightarrow> Interrupted | _ \<Rightarrow> OtherIoKind), ie_inner = Inr (tx_io tx e)\<rparr>
     | other \<Rightarrow> with_source (pe_new ProtocolKind (tx_rpc tx other)) (UplinkSource (Rpc other)))"

definition is_retention_not_found :: "PublicError \<Rightarrow> bool" where
  "is_retention_not_found err \<longleftrightarrow> pe_kind err = ProtocolKind \<and> suffix RETENTION_NOT_FOUND_MSG (pe_to_string err)"

subsection \<open>Connections and retries\<close>

definition SATELLITE_ATTEMPTS :: nat where "SATELLITE_ATTEMPTS = 3"
definition MAX_SATELLITE_CONNS :: nat where "MAX_SATELLITE_CONNS = 8"

record RequestHeader =
  rh_api_key :: bytes
  rh_user_agent :: bytes

record MetainfoClient =
  mc_header :: RequestHeader
  mc_message_timeout :: nat
  mc_satellite_cert :: bytes
  mc_idle :: "Conn list"

type_synonym Dials = "nat \<Rightarrow> PublicError + (Transport \<times> bytes)"

text \<open>One attempt: the connection before and after it, none when dialling failed, and its result.\<close>

record Attempt =
  at_conn :: "(Conn \<times> Conn) option"
  at_result :: "Error + bytes"

type_synonym 'a call = "(PublicError + 'a) \<times> MetainfoClient \<times> Attempt list"

definition keep_conn :: "Error + bytes \<Rightarrow> Conn \<Rightarrow> bool" where
  "keep_conn result conn \<longleftrightarrow> (case result of Inr _ \<Rightarrow> \<not> poisoned conn | Inl e \<Rightarrow> \<not> is_conn_dead e \<and> \<not> poisoned conn)"

definition invoke_once :: "PublicError + (Transport \<times> bytes) \<Rightarrow> bytes \<Rightarrow> bytes \<Rightarrow> MetainfoClient \<Rightarrow> (Error + bytes) \<times> MetainfoClient \<times> Attempt" where
  "invoke_once dialed rpc request cl =
    (let (conn, cl) =
       (if mc_idle cl \<noteq> [] then (Inr (last (mc_idle cl)), cl\<lparr>mc_idle := butlast (mc_idle cl)\<rparr>)
        else (case dialed of
                Inl e \<Rightarrow> (Inl (Io (OtherIo (pe_to_string e))), cl)
              | Inr (t, cert) \<Rightarrow> (Inr (set_timeout (new_conn t) (mc_message_timeout cl)), cl\<lparr>mc_satellite_cert := cert\<rparr>)))
     in case conn of
          Inl e \<Rightarrow> (Inl e, cl, \<lparr>at_conn = None, at_result = Inl e\<rparr>)
        | Inr conn \<Rightarrow>
          (let (result, conn') = invoke rpc request conn
           in (result, if keep_conn result conn' then cl\<lparr>mc_idle := mc_idle cl @ [conn']\<rparr> else cl,
               \<lparr>at_conn = Some (conn, conn'), at_result = result\<rparr>)))"

text \<open>The pause before the next attempt, in milliseconds; \<open>r\<close> is the random number.\<close>

definition backoff :: "nat \<Rightarrow> nat \<Rightarrow> nat" where
  "backoff attempt r = (let base = 200 * 2 ^ attempt; jitter = r mod (base div 2 + 1) in min (base + jitter) 2000)"

text \<open>With \<open>left\<close> attempts to go; there is always one, since the last one returns.\<close>

fun invoke_loop :: "Texts \<Rightarrow> Dials \<Rightarrow> bytes \<Rightarrow> bytes \<Rightarrow> bytes \<Rightarrow> bytes \<Rightarrow> nat \<Rightarrow> nat \<Rightarrow> MetainfoClient \<Rightarrow> bytes call" where
  "invoke_loop tx dials rpc request bucket key 0 attempt cl = (Inl (pe_new ProtocolKind ''retry loop ran''), cl, [])"
| "invoke_loop tx dials rpc request bucket key (Suc left) attempt cl =
    (case invoke_once (dials attempt) rpc request cl of
       (Inr body, cl, a) \<Rightarrow> (Inr body, cl, [a])
     | (Inl e, cl, a) \<Rightarrow>
       if 0 < left \<and> is_retryable_rpc e then
         (case invoke_loop tx dials rpc request bucket key left (Suc attempt) cl of (r, cl, log) \<Rightarrow> (r, cl, a # log))
       else (Inl (map_rpc_error tx rpc e bucket key), cl, [a]))"

definition invoke_with :: "Texts \<Rightarrow> Dials \<Rightarrow> bytes \<Rightarrow> bytes \<Rightarrow> bytes \<Rightarrow> bytes \<Rightarrow> bool \<Rightarrow> MetainfoClient \<Rightarrow> bytes call" where
  "invoke_with tx dials rpc request bucket key idempotent cl =
    invoke_loop tx dials rpc request bucket key (if idempotent then SATELLITE_ATTEMPTS else 1) 0 cl"

definition invoke_unary :: "Texts \<Rightarrow> Dials \<Rightarrow> bytes \<Rightarrow> bytes \<Rightarrow> bytes \<Rightarrow> bytes \<Rightarrow> MetainfoClient \<Rightarrow> bytes call" where
  "invoke_unary tx dials rpc request bucket key cl = invoke_with tx dials rpc request bucket key (is_idempotent_rpc rpc) cl"

definition on_ok :: "'a call \<Rightarrow> ('a \<Rightarrow> PublicError + 'b) \<Rightarrow> 'b call" where
  "on_ok c f = (case c of (r, cl, log) \<Rightarrow> (try_bind r f, cl, log))"

definition ensure_connected :: "PublicError + (Transport \<times> bytes) \<Rightarrow> MetainfoClient \<Rightarrow> (PublicError + unit) \<times> MetainfoClient" where
  "ensure_connected dialed cl =
    (if mc_idle cl \<noteq> [] then (Inr (), cl)
     else case dialed of
       Inl e \<Rightarrow> (Inl e, cl)
     | Inr (t, cert) \<Rightarrow>
       (Inr (), cl\<lparr>mc_satellite_cert := cert, mc_idle := mc_idle cl @ [set_timeout (new_conn t) (mc_message_timeout cl)]\<rparr>))"

definition connect :: "PublicError + (Transport \<times> bytes) \<Rightarrow> bytes \<Rightarrow> bytes option \<Rightarrow> nat \<Rightarrow> PublicError + MetainfoClient" where
  "connect dialed api_key user_agent message_timeout =
    (let cl = \<lparr>mc_header = \<lparr>rh_api_key = api_key, rh_user_agent = (case user_agent of Some ua \<Rightarrow> ua | None \<Rightarrow> [])\<rparr>,
               mc_message_timeout = message_timeout, mc_satellite_cert = [], mc_idle = []\<rparr>
     in case ensure_connected dialed cl of (Inl e, _) \<Rightarrow> Inl e | (Inr _, cl) \<Rightarrow> Inr cl)"

definition close_client :: "MetainfoClient \<Rightarrow> MetainfoClient" where
  "close_client cl = cl\<lparr>mc_idle := []\<rparr>"

subsection \<open>Concurrent calls\<close>

text \<open>
  The calls that hold a permit of the semaphore: about to take a connection, dialling one, using one, or done with it but still to give
  the permit back.  A step is one of the points where calls interleave; a call that is dropped vanishes with its connection.
\<close>

datatype Task = Taking | Dialing | Using Conn | Done

record SatellitePool =
  pl_tasks :: "Task list"
  pl_idle :: "Conn list"

definition drop_task :: "nat \<Rightarrow> Task list \<Rightarrow> Task list" where "drop_task i ts = take i ts @ drop (Suc i) ts"

inductive pool_step :: "nat \<Rightarrow> SatellitePool \<Rightarrow> SatellitePool \<Rightarrow> bool" for message_timeout :: nat where
  acquire: "length (pl_tasks p) < MAX_SATELLITE_CONNS \<Longrightarrow> pool_step message_timeout p (p\<lparr>pl_tasks := pl_tasks p @ [Taking]\<rparr>)"
| reuse: "i < length (pl_tasks p) \<Longrightarrow> pl_tasks p ! i = Taking \<Longrightarrow> pl_idle p \<noteq> [] \<Longrightarrow>
    pool_step message_timeout p (p\<lparr>pl_tasks := (pl_tasks p)[i := Using (last (pl_idle p))], pl_idle := butlast (pl_idle p)\<rparr>)"
| dial: "i < length (pl_tasks p) \<Longrightarrow> pl_tasks p ! i = Taking \<Longrightarrow> pl_idle p = [] \<Longrightarrow>
    pool_step message_timeout p (p\<lparr>pl_tasks := (pl_tasks p)[i := Dialing]\<rparr>)"
| dialed: "i < length (pl_tasks p) \<Longrightarrow> pl_tasks p ! i = Dialing \<Longrightarrow>
    pool_step message_timeout p (p\<lparr>pl_tasks := (pl_tasks p)[i := Using (set_timeout (new_conn t) message_timeout)]\<rparr>)"
| dial_failed: "i < length (pl_tasks p) \<Longrightarrow> pl_tasks p ! i = Dialing \<Longrightarrow> pool_step message_timeout p (p\<lparr>pl_tasks := (pl_tasks p)[i := Done]\<rparr>)"
| returned: "i < length (pl_tasks p) \<Longrightarrow> pl_tasks p ! i = Using c \<Longrightarrow> invoke rpc request c = (result, c') \<Longrightarrow>
    pool_step message_timeout p
      (p\<lparr>pl_tasks := (pl_tasks p)[i := Done], pl_idle := (if keep_conn result c' then pl_idle p @ [c'] else pl_idle p)\<rparr>)"
| release: "i < length (pl_tasks p) \<Longrightarrow> pl_tasks p ! i = Done \<Longrightarrow> pool_step message_timeout p (p\<lparr>pl_tasks := drop_task i (pl_tasks p)\<rparr>)"
| cancelled: "i < length (pl_tasks p) \<Longrightarrow> pool_step message_timeout p (p\<lparr>pl_tasks := drop_task i (pl_tasks p)\<rparr>)"
| closed: "pool_step message_timeout p (p\<lparr>pl_idle := []\<rparr>)"

text \<open>A client starts with the connection of \<open>connect\<close>.\<close>

definition pool_start :: "MetainfoClient \<Rightarrow> SatellitePool" where
  "pool_start cl = \<lparr>pl_tasks = [], pl_idle = mc_idle cl\<rparr>"

inductive pool_reachable :: "MetainfoClient \<Rightarrow> SatellitePool \<Rightarrow> bool" for cl :: MetainfoClient where
  start: "pool_reachable cl (pool_start cl)"
| step: "pool_reachable cl p \<Longrightarrow> pool_step (mc_message_timeout cl) p p' \<Longrightarrow> pool_reachable cl p'"

section \<open>Retries\<close>

definition sound_idle :: "MetainfoClient \<Rightarrow> bool" where
  "sound_idle cl \<longleftrightarrow> (\<forall>c \<in> set (mc_idle cl). \<not> poisoned c)"

lemma keep_conn_sound: "keep_conn r c \<Longrightarrow> \<not> poisoned c"
  by (auto simp: keep_conn_def split: sum.splits)

text \<open>
  What one attempt puts on the wire: nothing when dialling failed; otherwise the packets of a single call with this request on
  the connection's next stream, all of them when a reply came back and a beginning of them when something failed.
\<close>

definition one_request :: "bytes \<Rightarrow> bytes \<Rightarrow> Attempt \<Rightarrow> bool" where
  "one_request rpc request a \<longleftrightarrow>
    (case at_conn a of
       None \<Rightarrow> \<exists>t. at_result a = Inl (Io (OtherIo t))
     | Some (c, c') \<Rightarrow>
         let all = call_bytes (split_size c) (next_stream_id c) rpc request
         in invoke rpc request c = (at_result a, c') \<and> (\<exists>k. sent (io c') = sent (io c) @ take k all) \<and>
            (\<forall>body. at_result a = Inr body \<longrightarrow> sent (io c') = sent (io c) @ all))"

definition used_conns :: "Attempt list \<Rightarrow> Conn set" where
  "used_conns log = {c'. \<exists>a \<in> set log. \<exists>c. at_conn a = Some (c, c')}"

lemma invoke_once_ok:
  assumes "sound_idle cl" and "invoke_once d rpc request cl = (r, cl', a)"
  shows "sound_idle cl'" "one_request rpc request a" "at_result a = r" "set (mc_idle cl') \<subseteq> set (mc_idle cl) \<union> used_conns [a]"
proof -
  show "sound_idle cl'" using assms by (auto simp: invoke_once_def sound_idle_def split: if_splits prod.splits sum.splits) (blast dest: in_set_butlastD keep_conn_sound)+
  show "at_result a = r" using assms(2) by (auto simp: invoke_once_def Let_def split: if_splits prod.splits sum.splits)
  show "set (mc_idle cl') \<subseteq> set (mc_idle cl) \<union> used_conns [a]"
    using assms(2) by (auto simp: invoke_once_def used_conns_def Let_def split: if_splits prod.splits sum.splits dest: in_set_butlastD)
  have "(\<exists>e. a = \<lparr>at_conn = None, at_result = Inl (Io (OtherIo e))\<rparr>) \<or> (\<exists>c c'. a = \<lparr>at_conn = Some (c, c'), at_result = r\<rparr> \<and> invoke rpc request c = (r, c'))"
    using assms(2) by (auto simp: invoke_once_def Let_def split: if_splits prod.splits sum.splits)
  then show "one_request rpc request a" using invoke_sends by (auto simp: one_request_def Let_def)
qed

text \<open>What a call with its attempts amounts to, when at most \<open>attempts\<close> are allowed.\<close>

definition call_done :: "Texts \<Rightarrow> bytes \<Rightarrow> bytes \<Rightarrow> bytes \<Rightarrow> bytes \<Rightarrow> nat \<Rightarrow> MetainfoClient \<Rightarrow> bytes call \<Rightarrow> bool" where
  "call_done tx rpc request bucket key attempts cl c \<longleftrightarrow>
    (case c of (r, cl', log) \<Rightarrow>
      log \<noteq> [] \<and> length log \<le> attempts \<and> list_all (one_request rpc request) log \<and>
      list_all (\<lambda>a. case at_result a of Inl e \<Rightarrow> is_retryable_rpc e | Inr _ \<Rightarrow> False) (butlast log) \<and>
      r = map_err (\<lambda>e. map_rpc_error tx rpc e bucket key) (at_result (last log)) \<and>
      (length log < attempts \<longrightarrow> (case at_result (last log) of Inl e \<Rightarrow> \<not> is_retryable_rpc e | Inr _ \<Rightarrow> True)) \<and>
      sound_idle cl' \<and> set (mc_idle cl') \<subseteq> set (mc_idle cl) \<union> used_conns log)"

lemma invoke_loop_done:
  assumes "sound_idle cl" "0 < left"
  shows "call_done tx rpc request bucket key left cl (invoke_loop tx dials rpc request bucket key left attempt cl)"
  using assms
proof (induction left arbitrary: attempt cl)
  case (Suc left)
  obtain o1 cl1 a where once: "invoke_once (dials attempt) rpc request cl = (o1, cl1, a)" by (metis prod_cases3)
  note ok = invoke_once_ok[OF Suc.prems(1) once]
  show ?case
  proof (cases "\<exists>e. o1 = Inl e \<and> 0 < left \<and> is_retryable_rpc e")
    case True
    then obtain e where e: "o1 = Inl e" "0 < left" "is_retryable_rpc e" by blast
    obtain r cl' log where l: "invoke_loop tx dials rpc request bucket key left (Suc attempt) cl1 = (r, cl', log)" by (metis prod_cases3)
    have "call_done tx rpc request bucket key left cl1 (r, cl', log)" using Suc.IH[OF ok(1) e(2), of "Suc attempt"] l by simp
    then show ?thesis using once e l ok(2-4) by (auto simp: call_done_def used_conns_def)
  next
    case False
    then show ?thesis using once ok by (cases o1) (auto simp: call_done_def)
  qed
qed simp

lemma invoke_with_done:
  assumes "sound_idle cl"
  shows "call_done tx rpc request bucket key (if idempotent then SATELLITE_ATTEMPTS else 1) cl (invoke_with tx dials rpc request bucket key idempotent cl)"
  unfolding invoke_with_def by (rule invoke_loop_done[OF assms]) (simp add: SATELLITE_ATTEMPTS_def)

lemma length_one: "xs \<noteq> [] \<Longrightarrow> length xs \<le> 1 \<Longrightarrow> \<exists>x. xs = [x]"
  by (cases xs) auto

text \<open>
  C12: a call makes at least one attempt; a request that is not safe to repeat is attempted exactly once, whatever goes wrong, and
  any other at most three times.  An attempt writes the packets of this request at most once, to one connection (nothing when none could be dialled), and all
  of them before it returns a reply.  Every attempt but the last failed with an error that repeating may cure; the call returns the reply or the error of the
  last attempt; fewer than three attempts at a repeatable request mean that the last one succeeded or that its error could not be cured by
  repeating.  The connections that are idle afterwards were idle before or were used by the call, and none is poisoned.
\<close>

theorem calls_are_repeated_safely:
  assumes "sound_idle cl" and "invoke_with tx dials rpc request bucket key idempotent cl = (r, cl', log)"
  shows "log \<noteq> [] \<and> length log \<le> SATELLITE_ATTEMPTS \<and> (\<not> idempotent \<longrightarrow> length log = 1) \<and> list_all (one_request rpc request) log \<and>
    list_all (\<lambda>a. case at_result a of Inl e \<Rightarrow> is_retryable_rpc e | Inr _ \<Rightarrow> False) (butlast log) \<and>
    r = map_err (\<lambda>e. map_rpc_error tx rpc e bucket key) (at_result (last log)) \<and>
    (idempotent \<and> length log < SATELLITE_ATTEMPTS \<longrightarrow> (case at_result (last log) of Inl e \<Rightarrow> \<not> is_retryable_rpc e | Inr _ \<Rightarrow> True)) \<and>
    sound_idle cl' \<and> set (mc_idle cl') \<subseteq> set (mc_idle cl) \<union> used_conns log"
proof -
  note c = invoke_with_done[OF assms(1), of tx rpc request bucket key idempotent dials, unfolded assms(2) call_done_def prod.case]
  show ?thesis
  proof (cases idempotent)
    case True
    then show ?thesis using c by simp
  next
    case False
    then have "length log = 1" using c length_one[of log] by force
    then show ?thesis using c False by (simp add: SATELLITE_ATTEMPTS_def)
  qed
qed

definition toy_texts :: Texts where
  "toy_texts = \<lparr>tx_dbg = (\<lambda>_. []), tx_code = (\<lambda>_. []), tx_rpc = (\<lambda>_. []), tx_io = (\<lambda>_. [])\<rparr>"

definition sample_client :: MetainfoClient where
  "sample_client = \<lparr>mc_header = \<lparr>rh_api_key = [1], rh_user_agent = []\<rparr>, mc_message_timeout = 10, mc_satellite_cert = [], mc_idle = []\<rparr>"

text \<open>A peer that hangs up after the request, and one that answers it.\<close>

definition hung_up :: Transport where
  "hung_up = \<lparr>incoming = [RData []], outcomes = [], sent = []\<rparr>"

definition answering :: Transport where
  "answering = \<lparr>incoming = [RData [5, 1, 1], RData [1, 42]], outcomes = [], sent = []\<rparr>"

lemma hung_up_closes: "\<exists>c'. invoke rpc request (set_timeout (new_conn hung_up) d) = (Inl Closed, c')"
proof -
  have parse: "parse_frame [] = Inr None" by (simp add: parse_frame_def)
  have "\<exists>c'. recv_loop s c = (Inl Closed, c')"
    if h: "incoming (io c) = [RData []]" "buf c = []" "pos c = 0" "pending c = []" "assembler c = default_assembler" for s and c :: Conn
  proof -
    have p: "parse_one c = (Inr None, c)" using h parse by (simp add: parse_one_def unparsed_def)
    obtain c' where f: "fill c = (Inl Closed, c')"
      using h by (simp add: fill_def prepare_read_def timed_read_def eof_error_def default_assembler_def in_progress_def MAX_BUFFERED_def)
    have "read_loop c = (Inl Closed, c')" by (subst read_loop.simps) (simp add: p f)
    then have "read_packet c = (Inl Closed, c')" using h by (simp add: read_packet_def)
    then have "recv_loop s c = (Inl Closed, c')" by (subst recv_loop.simps) simp
    then show ?thesis ..
  qed
  note recv = this
  let ?w = "\<lambda>bs c. c\<lparr>io := (io c)\<lparr>sent := sent (io c) @ bs\<rparr>\<rparr>"
  have w: "write_raw bs c = (Inr (), ?w bs c)" "flush c = (Inr (), c)" if "outcomes (io c) = []" for bs and c :: Conn
    using that by (simp_all add: write_raw_def flush_def timed_write_def suspended_def)
  let ?q = "\<lparr>io = \<lparr>incoming = [RData []], outcomes = [], sent = append_packet_data [] 1 1 INVOKE False rpc DEFAULT_SPLIT_SIZE @
        append_packet_data [] 1 2 MESSAGE False request DEFAULT_SPLIT_SIZE @ append_packet_data [] 1 3 CLOSE_SEND False [] DEFAULT_SPLIT_SIZE\<rparr>,
      buf = [], pos = 0, next_stream_id = 2, assembler = default_assembler, pending = [], split_size = DEFAULT_SPLIT_SIZE, timeout = d, poisoned = False\<rparr>"
  obtain c' where "recv_loop 1 ?q = (Inl Closed, c')" using recv[of ?q 1] by auto
  then show ?thesis by (simp add: invoke_def write_packet_data_def w hung_up_def set_timeout_def new_conn_def)
qed

lemma answering_answers: "\<exists>c'. invoke rpc request (set_timeout (new_conn answering) d) = (Inr [42], c')"
proof -
  let ?c = "set_timeout (new_conn answering) d"
  let ?reply = "\<lparr>stream_id = 1, message_id = 1, kind = MESSAGE, control = False, data = [42]\<rparr>"
  have "append_packet [] ?reply 2 = [5, 1, 1, 1, 42]" by code_simp
  then have a: "ahead ?c = foldl (\<lambda>b p. append_packet b p 2) [] ([] @ [?reply]) @ []"
    by (simp add: ahead_def answering_def set_timeout_def new_conn_def unparsed_def)
  have "writes_ok ?c" "delivering ?c" "pending ?c = []" "stream_id ?reply = next_stream_id ?c" "kind ?reply = MESSAGE"
    "max_data (assembler ?c) = MAX_PACKET_SIZE" "current (assembler ?c) = None"
    "sendable (last_stream (assembler ?c)) (last_message (assembler ?c)) ([] @ [?reply])"
    by (simp_all add: answering_def set_timeout_def new_conn_def writes_ok_def delivering_def default_assembler_def id_less_def kind_defs MAX_PACKET_SIZE_def)
  from invoke_reply[OF this(1-3) a _ this(4-8), of rpc request] show ?thesis by auto
qed

text \<open>
  The satellite hangs up on the first connection and answers on the second: a read is sent twice and answered, a change is sent once
  and fails.
\<close>

definition sample_dials :: Dials where
  "sample_dials k = Inr (if k = 0 then hung_up else answering, [7])"

lemma sample_attempts:
  "\<exists>c'. invoke_once (sample_dials 0) rpc request sample_client = (Inl Closed, sample_client\<lparr>mc_satellite_cert := [7]\<rparr>,
     \<lparr>at_conn = Some (set_timeout (new_conn hung_up) 10, c'), at_result = Inl Closed\<rparr>)"
  "\<exists>c' cl'. invoke_once (sample_dials (Suc k)) rpc request (sample_client\<lparr>mc_satellite_cert := cert\<rparr>) = (Inr [42], cl',
     \<lparr>at_conn = Some (set_timeout (new_conn answering) 10, c'), at_result = Inr [42]\<rparr>)"
proof -
  obtain c1 c2 where c: "invoke rpc request (set_timeout (new_conn hung_up) 10) = (Inl Closed, c1)"
      "invoke rpc request (set_timeout (new_conn answering) 10) = (Inr [42], c2)"
    using hung_up_closes answering_answers by metis
  show "\<exists>c'. invoke_once (sample_dials 0) rpc request sample_client = (Inl Closed, sample_client\<lparr>mc_satellite_cert := [7]\<rparr>,
     \<lparr>at_conn = Some (set_timeout (new_conn hung_up) 10, c'), at_result = Inl Closed\<rparr>)"
    using c(1) by (simp add: invoke_once_def sample_dials_def sample_client_def keep_conn_def is_conn_dead_def)
  show "\<exists>c' cl'. invoke_once (sample_dials (Suc k)) rpc request (sample_client\<lparr>mc_satellite_cert := cert\<rparr>) = (Inr [42], cl',
     \<lparr>at_conn = Some (set_timeout (new_conn answering) 10, c'), at_result = Inr [42]\<rparr>)"
    using c(2) by (simp add: invoke_once_def sample_dials_def sample_client_def)
qed

theorem calls_are_repeated_safely_witness:
  "\<exists>cl' a1 a2 c2 c2' e cl'' b. invoke_with toy_texts sample_dials PROJECT_INFO [9] [] [] True sample_client = (Inr [42], cl', [a1, a2]) \<and>
    at_result a1 = Inl Closed \<and> one_request PROJECT_INFO [9] a1 \<and> at_conn a2 = Some (c2, c2') \<and>
    sent (io c2') = sent (io c2) @ call_bytes (split_size c2) (next_stream_id c2) PROJECT_INFO [9] \<and>
    invoke_with toy_texts sample_dials CREATE_BUCKET [9] [] [] False sample_client = (Inl e, cl'', [b]) \<and> one_request CREATE_BUCKET [9] b"
proof -
  have sound: "sound_idle sample_client" by (simp add: sound_idle_def sample_client_def)
  obtain c1 c3 where 1: "invoke_once (sample_dials 0) PROJECT_INFO [9] sample_client = (Inl Closed, sample_client\<lparr>mc_satellite_cert := [7]\<rparr>,
      \<lparr>at_conn = Some (set_timeout (new_conn hung_up) 10, c1), at_result = Inl Closed\<rparr>)"
    and 3: "invoke_once (sample_dials 0) CREATE_BUCKET [9] sample_client = (Inl Closed, sample_client\<lparr>mc_satellite_cert := [7]\<rparr>,
      \<lparr>at_conn = Some (set_timeout (new_conn hung_up) 10, c3), at_result = Inl Closed\<rparr>)"
    using sample_attempts(1) by blast
  obtain c2 cl' where 2: "invoke_once (sample_dials 1) PROJECT_INFO [9] (sample_client\<lparr>mc_satellite_cert := [7]\<rparr>) = (Inr [42], cl',
      \<lparr>at_conn = Some (set_timeout (new_conn answering) 10, c2), at_result = Inr [42]\<rparr>)"
    using sample_attempts(2)[of 0] by (metis One_nat_def)
  let ?a1 = "\<lparr>at_conn = Some (set_timeout (new_conn hung_up) 10, c1), at_result = Inl Closed\<rparr>"
  let ?a2 = "\<lparr>at_conn = Some (set_timeout (new_conn answering) 10, c2), at_result = Inr [42]\<rparr>"
  let ?b = "\<lparr>at_conn = Some (set_timeout (new_conn hung_up) 10, c3), at_result = Inl Closed\<rparr>"
  have a: "invoke_with toy_texts sample_dials PROJECT_INFO [9] [] [] True sample_client = (Inr [42], cl', [?a1, ?a2])"
    using 1 2 by (simp add: invoke_with_def SATELLITE_ATTEMPTS_def numeral_eq_Suc is_retryable_rpc_def)
  obtain e where b: "invoke_with toy_texts sample_dials CREATE_BUCKET [9] [] [] False sample_client = (Inl e, sample_client\<lparr>mc_satellite_cert := [7]\<rparr>, [?b])"
    using 3 by (simp add: invoke_with_def)
  from calls_are_repeated_safely[OF sound a] have "one_request PROJECT_INFO [9] ?a1" "one_request PROJECT_INFO [9] ?a2" by simp_all
  moreover from calls_are_repeated_safely[OF sound b] have "one_request CREATE_BUCKET [9] ?b" by simp
  moreover from calculation(2) have "sent (io c2) = sent (io (set_timeout (new_conn answering) 10)) @
      call_bytes (split_size (set_timeout (new_conn answering) 10)) (next_stream_id (set_timeout (new_conn answering) 10)) PROJECT_INFO [9]"
    by (simp add: one_request_def Let_def)
  ultimately show ?thesis using a b by (intro exI conjI) (assumption | simp)+
qed

section \<open>The pool\<close>

definition is_busy :: "Task \<Rightarrow> bool" where
  "is_busy t \<longleftrightarrow> (case t of Dialing \<Rightarrow> True | Using _ \<Rightarrow> True | _ \<Rightarrow> False)"

definition connections :: "SatellitePool \<Rightarrow> nat" where
  "connections p = length (pl_idle p) + length (filter is_busy (pl_tasks p))"

definition pool_ok :: "SatellitePool \<Rightarrow> bool" where
  "pool_ok p \<longleftrightarrow> length (pl_tasks p) \<le> MAX_SATELLITE_CONNS \<and> connections p \<le> MAX_SATELLITE_CONNS \<and> (\<forall>c \<in> set (pl_idle p). \<not> poisoned c)"

lemma filter_update_length:
  assumes "i < length xs"
  shows "length (filter P (xs[i := y])) + (if P (xs ! i) then 1 else 0) = length (filter P xs) + (if P y then 1 else 0)"
proof -
  have f: "length (filter P (take i xs @ z # drop (Suc i) xs)) =
      length (filter P (take i xs)) + (if P z then 1 else 0) + length (filter P (drop (Suc i) xs))" for z by simp
  show ?thesis using f[of y] f[of "xs ! i"] by (simp add: upd_conv_take_nth_drop[OF assms] id_take_nth_drop[OF assms, symmetric])
qed

lemma busy_update:
  "i < length ts \<Longrightarrow> pl_tasks p = ts \<Longrightarrow> \<not> is_busy (ts ! i) \<Longrightarrow> is_busy t \<Longrightarrow> length (filter is_busy (ts[i := t])) = Suc (length (filter is_busy ts))"
  "i < length ts \<Longrightarrow> is_busy (ts ! i) \<Longrightarrow> is_busy t \<Longrightarrow> length (filter is_busy (ts[i := t])) = length (filter is_busy ts)"
  "i < length ts \<Longrightarrow> is_busy (ts ! i) \<Longrightarrow> \<not> is_busy t \<Longrightarrow> Suc (length (filter is_busy (ts[i := t]))) = length (filter is_busy ts)"
  using filter_update_length[of i ts is_busy t] by auto

lemma drop_task_le: "length (drop_task i ts) \<le> length ts" "length (filter P (drop_task i ts)) \<le> length (filter P ts)"
proof -
  have "filter P (drop_task i ts) = filter P (take i ts) @ filter P (drop (Suc i) ts)" "ts = take i ts @ drop i ts" by (simp_all add: drop_task_def)
  moreover have "drop (Suc i) ts = tl (drop i ts)" by (simp add: drop_Suc tl_drop)
  then have "length (filter P (drop (Suc i) ts)) \<le> length (filter P (drop i ts))" by (cases "drop i ts") simp_all
  ultimately show "length (filter P (drop_task i ts)) \<le> length (filter P ts)" by (metis add_le_cancel_left filter_append length_append)
qed (simp add: drop_task_def)

lemma pool_step_ok:
  assumes "pool_step mt p p'" "pool_ok p"
  shows "pool_ok p'"
  using assms
proof cases
  case (reuse i)
  then have "length (filter is_busy ((pl_tasks p)[i := Using (last (pl_idle p))])) = Suc (length (filter is_busy (pl_tasks p)))"
    by (intro busy_update(1)) (auto simp: is_busy_def)
  then show ?thesis using reuse assms(2) by (auto simp: pool_ok_def connections_def neq_Nil_conv dest: in_set_butlastD)
next
  case (dial i)
  have "length (filter is_busy ((pl_tasks p)[i := Dialing])) \<le> length (pl_tasks p)" by (metis length_filter_le length_list_update)
  then show ?thesis using dial assms(2) by (auto simp: pool_ok_def connections_def)
next
  case (dialed i t)
  then have "length (filter is_busy ((pl_tasks p)[i := Using (set_timeout (new_conn t) mt)])) = length (filter is_busy (pl_tasks p))"
    by (intro busy_update(2)) (auto simp: is_busy_def)
  then show ?thesis using dialed assms(2) by (simp add: pool_ok_def connections_def)
next
  case (dial_failed i)
  then have "Suc (length (filter is_busy ((pl_tasks p)[i := Done]))) = length (filter is_busy (pl_tasks p))"
    by (intro busy_update(3)) (auto simp: is_busy_def)
  then show ?thesis using dial_failed assms(2) by (simp add: pool_ok_def connections_def)
next
  case (returned i c rpc request result c')
  then have "Suc (length (filter is_busy ((pl_tasks p)[i := Done]))) = length (filter is_busy (pl_tasks p))"
    by (intro busy_update(3)) (auto simp: is_busy_def)
  then show ?thesis using returned assms(2) keep_conn_sound[of result c'] by (auto simp: pool_ok_def connections_def)
next
  case (release i)
  then show ?thesis using assms(2) drop_task_le(1)[of i "pl_tasks p"] drop_task_le(2)[of is_busy i "pl_tasks p"]
    by (simp add: pool_ok_def connections_def)
next
  case (cancelled i)
  then show ?thesis using assms(2) drop_task_le(1)[of i "pl_tasks p"] drop_task_le(2)[of is_busy i "pl_tasks p"]
    by (simp add: pool_ok_def connections_def)
qed (auto simp: pool_ok_def connections_def is_busy_def)

text \<open>
  C13: however calls interleave, fail and are dropped, the client never has more than eight calls under way, nor more than eight
  connections, idle, in use and being dialled together; and an idle connection is never a poisoned one.
\<close>

theorem satellite_connections_bounded:
  assumes "connect dialed api_key user_agent message_timeout = Inr cl" and "pool_reachable cl p"
  shows "length (pl_tasks p) \<le> MAX_SATELLITE_CONNS \<and> connections p \<le> MAX_SATELLITE_CONNS \<and> (\<forall>c \<in> set (pl_idle p). \<not> poisoned c)"
proof -
  have "pool_ok (pool_start cl)" using assms(1)
    by (auto simp: connect_def ensure_connected_def pool_start_def pool_ok_def connections_def MAX_SATELLITE_CONNS_def set_timeout_def new_conn_def
      split: sum.splits)
  with assms(2) have "pool_ok p" by (induction rule: pool_reachable.induct) (auto intro: pool_step_ok)
  then show ?thesis by (simp add: pool_ok_def)
qed

definition sample_dial :: "PublicError + (Transport \<times> bytes)" where
  "sample_dial = Inr (\<lparr>incoming = [], outcomes = [], sent = []\<rparr>, [7])"

theorem satellite_connections_bounded_witness:
  "\<exists>cl p. connect sample_dial [1] None 10 = Inr cl \<and> pool_reachable cl p \<and> length (pl_tasks p) = 2 \<and> connections p \<le> 8"
proof -
  obtain cl where cl: "connect sample_dial [1] None 10 = Inr cl" by (simp add: connect_def ensure_connected_def sample_dial_def)
  let ?p1 = "(pool_start cl)\<lparr>pl_tasks := [Taking]\<rparr>" and ?p2 = "(pool_start cl)\<lparr>pl_tasks := [Taking, Taking]\<rparr>"
  have "pool_step (mc_message_timeout cl) (pool_start cl) ?p1" using acquire[of "pool_start cl"] by (simp add: pool_start_def MAX_SATELLITE_CONNS_def)
  moreover have "pool_step (mc_message_timeout cl) ?p1 ?p2" using acquire[of ?p1] by (simp add: pool_start_def MAX_SATELLITE_CONNS_def)
  ultimately have r: "pool_reachable cl ?p2" by (metis pool_reachable.intros)
  from satellite_connections_bounded[OF cl r] have "connections ?p2 \<le> 8" by (simp add: MAX_SATELLITE_CONNS_def)
  then show ?thesis using cl r by (intro exI[of _ cl] exI[of _ ?p2]) simp
qed

section \<open>The satellite's errors\<close>

lemmas rpc_codes = RPC_CANCELED_def RPC_INVALID_ARGUMENT_def RPC_NOT_FOUND_def RPC_ALREADY_EXISTS_def RPC_PERMISSION_DENIED_def
  RPC_RESOURCE_EXHAUSTED_def RPC_FAILED_PRECONDITION_def RPC_UNAUTHENTICATED_def RPC_UNAVAILABLE_def

lemma pe_kind_new: "pe_kind (pe_new k m) = k"
  by (simp add: pe_new_def)

lemma case_option_same: "(case x of None \<Rightarrow> k | Some _ \<Rightarrow> k) = k"
  by (cases x) simp_all

lemma remote_kind:
  "pe_kind (map_remote dbg show_code rpc code message bucket key) =
    (let lower = to_ascii_lowercase message
     in if code = 1 then Canceled
        else if code = 3 then
          (if rpc = CREATE_BUCKET \<or> contains ''bucket name'' lower then BucketNameInvalid
           else if key \<noteq> [] \<and> (contains ''object key'' lower \<or> contains ''encrypted path'' lower) then ObjectKeyInvalid else ProtocolKind)
        else if code = 5 then
          (if starts_with ''bucket not found'' lower then BucketNotFound
           else if starts_with ''object not found'' lower then ObjectNotFound
           else if rpc = GET_BUCKET \<or> rpc = DELETE_BUCKET then BucketNotFound else ProtocolKind)
        else if code = 6 then BucketAlreadyExists
        else if code = 7 then PermissionDenied
        else if code = 8 then
          (if ends_with ''Exceeded Usage Limit'' message then BandwidthLimitExceeded
           else if ends_with ''Too Many Requests'' message then TooManyRequests
           else if contains ''Exceeded Storage Limit'' message then StorageLimitExceeded
           else if contains ''Exceeded Segments Limit'' message then SegmentsLimitExceeded else ProtocolKind)
        else if code = 9 \<and> (rpc = DELETE_BUCKET \<or> contains ''not empty'' lower) then BucketNotEmpty
        else if code = 16 then PermissionDenied else ProtocolKind)"
  by (simp only: map_remote_def Let_def if_distrib[of pe_kind] option.case_distrib[of pe_kind] pe_kind_new case_option_same rpc_codes)

text \<open>
  The kind of the error that the caller sees, by code, call and text: a missing bucket or object, a bucket that is
  not empty, an invalid name and a denied permission are each reported exactly in the stated cases.
  A conflict, however, is reported as an existing bucket for every call, also one on objects.
\<close>

lemma remote_errors_classified:
  "let k = pe_kind (map_remote dbg show_code rpc code message bucket key); lower = to_ascii_lowercase message
   in (k = BucketNotFound \<longleftrightarrow> code = RPC_NOT_FOUND \<and> (starts_with ''bucket not found'' lower \<or>
          \<not> starts_with ''object not found'' lower \<and> (rpc = GET_BUCKET \<or> rpc = DELETE_BUCKET))) \<and>
      (k = ObjectNotFound \<longleftrightarrow> code = RPC_NOT_FOUND \<and> \<not> starts_with ''bucket not found'' lower \<and> starts_with ''object not found'' lower) \<and>
      (k = BucketNotEmpty \<longleftrightarrow> code = RPC_FAILED_PRECONDITION \<and> (rpc = DELETE_BUCKET \<or> contains ''not empty'' lower)) \<and>
      (k = BucketNameInvalid \<longleftrightarrow> code = RPC_INVALID_ARGUMENT \<and> (rpc = CREATE_BUCKET \<or> contains ''bucket name'' lower)) \<and>
      (k = PermissionDenied \<longleftrightarrow> code = RPC_PERMISSION_DENIED \<or> code = RPC_UNAUTHENTICATED) \<and>
      (k = BucketAlreadyExists \<longleftrightarrow> code = RPC_ALREADY_EXISTS)"
proof -
  consider "code = 3" | "code = 5" | "code = 8" | "code = 9" | "code \<notin> {3, 5, 8, 9}" by blast
  then show ?thesis unfolding remote_kind Let_def rpc_codes by cases auto
qed

end
