(* ===== verification/Metainfo_Calls.thy ===== *)
theory Metainfo_Calls
  imports Metainfo Object_Reader Batch_Codec
begin

text \<open>
  The calls of the satellite's client, \<open>crates/storj/src/metainfo.rs\<close>, that travel in a compressed batch, with the messages
  of \<open>crates/storj-proto/src/gen/metainfo.rs\<close> they are made of.  Fields that are always left at their defaults are omitted.  The
  encodings of the messages are parameters.

  Shown: a batch with an item that changes the satellite's state is written to at most one connection and at most once; the answer that a call
  returns is the one that the reply on this connection holds, and of the right kind.
\<close>

section \<open>The code\<close>

subsection \<open>Batched calls\<close>

record BeginObjectRequest =
  bo_header :: "RequestHeader option"
  bo_bucket :: bytes
  bo_encrypted_object_key :: bytes
  bo_expires_at :: "PbTimestamp option"
  bo_encryption_parameters :: "(int \<times> int) option"
  bo_retention :: "PbRetention option"
  bo_legal_hold :: bool
  bo_checksum_algorithm :: int
  bo_is_checksum_composite :: bool

record BeginObjectResponse =
  bor_stream_id :: bytes
  bor_encryption_parameters :: "(int \<times> int) option"

record CommitObjectRequest =
  co_header :: "RequestHeader option"
  co_stream_id :: bytes
  co_user :: EncryptedUserData
  co_checksum_algorithm :: int
  co_is_checksum_composite :: bool

record BeginSegmentRequest =
  bsq_header :: "RequestHeader option"
  bsq_stream_id :: bytes
  bsq_position :: "SegmentPosition option"
  bsq_max_order_limit :: int

record RetryBeginSegmentPiecesRequest =
  rb_header :: "RequestHeader option"
  rb_segment_id :: bytes
  rb_retry_piece_numbers :: "int list"

record DownloadObjectRequest =
  dq_header :: "RequestHeader option"
  dq_bucket :: bytes
  dq_encrypted_object_key :: bytes
  dq_range :: "PbRange option"
  dq_object_version :: bytes

record ListObjectsParams =
  lp_encrypted_prefix :: bytes
  lp_encrypted_cursor :: bytes
  lp_recursive :: bool
  lp_include_custom :: bool
  lp_include_system :: bool
  lp_arbitrary_prefix :: bool

record ListObjectsRequest =
  lq_header :: "RequestHeader option"
  lq_bucket :: bytes
  lq_delimiter :: bytes
  lq_encrypted_prefix :: bytes
  lq_encrypted_cursor :: bytes
  lq_recursive :: bool
  lq_limit :: int
  lq_status :: int
  lq_metadata :: bool
  lq_exclude_system_metadata :: bool
  lq_arbitrary_prefix :: bool

record ObjectListItem =
  oi_encrypted_object_key :: bytes
  oi_object_version :: bytes
  oi_status :: int
  oi_created_at :: "PbTimestamp option"
  oi_expires_at :: "PbTimestamp option"
  oi_plain_size :: int
  oi_encrypted_metadata :: bytes
  oi_encrypted_metadata_nonce :: bytes
  oi_encrypted_metadata_encrypted_key :: bytes
  oi_stream_id :: bytes

record ListObjectsResponse =
  lr_items :: "ObjectListItem list"
  lr_more :: bool

record ListSegmentsResponse =
  ls_list :: SegmentList
  ls_encryption_parameters :: "(int \<times> int) option"

text \<open>The items of a batch that the client sends; of the others only whether they are reads of buckets matters.\<close>

datatype Request =
    ObjectBegin BeginObjectRequest
  | ObjectCommit CommitObjectRequest
  | SegmentBegin BeginSegmentRequest
  | SegmentBeginRetryPieces RetryBeginSegmentPiecesRequest
  | SegmentCommit "RequestHeader option" CommitSegment
  | SegmentMakeInline "RequestHeader option" bytes MakeInlineSegment
  | ObjectDownload DownloadObjectRequest
  | SegmentDownload "RequestHeader option" bytes SegmentPosition
  | ListSegments "RequestHeader option" bytes "SegmentPosition option" "PbRange option"
  | ObjectList ListObjectsRequest
  | ObjectListPendingStreams "RequestHeader option" bytes bytes bytes
  | ObjectBeginDelete "RequestHeader option" bytes bytes bytes int
  | ObjectGet "RequestHeader option" bytes bytes
  | BucketGet
  | BucketList
  | OtherRequest nat

datatype Response =
    ObjectBeginResp BeginObjectResponse
  | ObjectCommitResp "PbObject option"
  | SegmentBeginResp BeginSegmentResponse
  | SegmentBeginRetryPiecesResp bytes "AddressedOrderLimit list"
  | SegmentCommitResp
  | SegmentMakeInlineResp
  | ObjectDownloadResp DownloadObjectResponse
  | SegmentDownloadResp DownloadSegment
  | ListSegmentsResp ListSegmentsResponse
  | ObjectListResp ListObjectsResponse
  | ObjectListPendingStreamsResp ListObjectsResponse
  | ObjectBeginDeleteResp "PbObject option"
  | ObjectGetResp "PbObject option"
  | OtherResponse nat

definition is_idempotent_batch_item :: "Request option \<Rightarrow> bool" where
  "is_idempotent_batch_item item =
    (case item of
       Some BucketGet \<Rightarrow> True | Some BucketList \<Rightarrow> True | Some (ObjectGet _ _ _) \<Rightarrow> True | Some (ObjectList _) \<Rightarrow> True
     | Some (ObjectListPendingStreams _ _ _ _) \<Rightarrow> True | Some (ObjectDownload _) \<Rightarrow> True | Some (SegmentDownload _ _ _) \<Rightarrow> True
     | Some (ListSegments _ _ _ _) \<Rightarrow> True | _ \<Rightarrow> False)"

record BatchRequest =
  bt_header :: "RequestHeader option"
  bt_requests :: "Request option list"

record MetaEnv =
  me_texts :: Texts
  me_compressed_text :: "CompressedError \<Rightarrow> string"
  me_zstd :: ZstdLib
  me_batch :: "(BatchRequest, Response option list) BatchPb"
  me_wrap :: "CompressedBatchRequest \<Rightarrow> bytes"
  me_unwrap :: "bytes \<Rightarrow> CompressedBatchResponse option"
  me_nat_text :: "nat \<Rightarrow> string"

definition map_decode :: PublicError where "map_decode = pe_new ProtocolKind ''metainfo decode''"

definition compressed_batch :: "MetaEnv \<Rightarrow> Dials \<Rightarrow> Request option list \<Rightarrow> bytes \<Rightarrow> bytes \<Rightarrow> MetainfoClient \<Rightarrow> Response list call" where
  "compressed_batch env dials requests bucket key cl =
    (let batch = \<lparr>bt_header = Some (mc_header cl), bt_requests = requests\<rparr>;
         idempotent = list_all is_idempotent_batch_item requests;
         wrapped = encode_batch_request (me_batch env) batch
     in on_ok (invoke_with (me_texts env) dials COMPRESSED_BATCH (me_wrap env wrapped) bucket key idempotent cl) (\<lambda>body.
        try_bind (ok_or map_decode (me_unwrap env body)) (\<lambda>resp.
        try_bind (map_err (\<lambda>e. pe_new ProtocolKind (''CompressedBatch: '' @ me_compressed_text env e)) (decode_batch_response (me_zstd env) (me_batch env) resp))
          (\<lambda>responses.
           fold_result (\<lambda>item acc. try_bind (ok_or (pe_new ProtocolKind ''empty CompressedBatch response item'') item) (\<lambda>r. Inr (acc @ [r]))) responses []))))"

definition expect_one :: "MetaEnv \<Rightarrow> Response list \<Rightarrow> string \<Rightarrow> PublicError + Response" where
  "expect_one env items what =
    (if length items \<noteq> 1 then Inl (pe_new ProtocolKind (what @ '': expected 1 batch response, got '' @ me_nat_text env (length items)))
     else Inr (hd items))"

definition unexpected :: "string \<Rightarrow> PublicError" where "unexpected what = pe_new ProtocolKind (''unexpected '' @ what @ '' response'')"

text \<open>The common shape of the calls: one item, one answer, and the answer's kind is checked.\<close>

definition batch_one :: "MetaEnv \<Rightarrow> Dials \<Rightarrow> string \<Rightarrow> Request \<Rightarrow> bytes \<Rightarrow> bytes \<Rightarrow> (Response \<Rightarrow> 'a option) \<Rightarrow> MetainfoClient \<Rightarrow> 'a call" where
  "batch_one env dials what req bucket key pick cl =
    on_ok (compressed_batch env dials [Some req] bucket key cl) (\<lambda>items.
      try_bind (expect_one env items what) (\<lambda>r. ok_or (unexpected what) (pick r)))"

definition begin_object :: "MetaEnv \<Rightarrow> Dials \<Rightarrow> bytes \<Rightarrow> bytes \<Rightarrow> SystemTime option \<Rightarrow> (int \<times> int) option \<Rightarrow> PbRetention option \<Rightarrow> bool \<Rightarrow>
    ObjectChecksum option \<Rightarrow> MetainfoClient \<Rightarrow> BeginObjectResponse call" where
  "begin_object env dials bucket enc_key expires params retention legal_hold cs cl =
    batch_one env dials ''BeginObject''
      (ObjectBegin \<lparr>bo_header = Some (mc_header cl), bo_bucket = bucket, bo_encrypted_object_key = enc_key,
         bo_expires_at = map_option timestamp_from_system expires, bo_encryption_parameters = params, bo_retention = retention,
         bo_legal_hold = legal_hold, bo_checksum_algorithm = fst (checksum_header cs), bo_is_checksum_composite = snd (checksum_header cs)\<rparr>)
      bucket [] (\<lambda>r. case r of ObjectBeginResp r \<Rightarrow> Some r | _ \<Rightarrow> None) cl"

definition commit_object :: "MetaEnv \<Rightarrow> Dials \<Rightarrow> bytes \<Rightarrow> bytes \<Rightarrow> bytes \<Rightarrow> EncryptedUserData \<Rightarrow> ObjectChecksum option \<Rightarrow> MetainfoClient \<Rightarrow> PbObject option call" where
  "commit_object env dials bucket key stream user cs cl =
    batch_one env dials ''CommitObject''
      (ObjectCommit \<lparr>co_header = Some (mc_header cl), co_stream_id = stream, co_user = user,
         co_checksum_algorithm = fst (checksum_header cs), co_is_checksum_composite = snd (checksum_header cs)\<rparr>)
      bucket key (\<lambda>r. case r of ObjectCommitResp r \<Rightarrow> Some r | _ \<Rightarrow> None) cl"

definition begin_segment :: "MetaEnv \<Rightarrow> Dials \<Rightarrow> bytes \<Rightarrow> bytes \<Rightarrow> bytes \<Rightarrow> SegmentPosition \<Rightarrow> int \<Rightarrow> MetainfoClient \<Rightarrow> BeginSegmentResponse call" where
  "begin_segment env dials bucket key stream at max_order_limit cl =
    batch_one env dials ''BeginSegment''
      (SegmentBegin \<lparr>bsq_header = Some (mc_header cl), bsq_stream_id = stream, bsq_position = Some at, bsq_max_order_limit = max_order_limit\<rparr>)
      bucket key (\<lambda>r. case r of SegmentBeginResp r \<Rightarrow> Some r | _ \<Rightarrow> None) cl"

definition retry_begin_segment_pieces :: "MetaEnv \<Rightarrow> Dials \<Rightarrow> bytes \<Rightarrow> bytes \<Rightarrow> bytes \<Rightarrow> int list \<Rightarrow> MetainfoClient \<Rightarrow> (bytes \<times> AddressedOrderLimit list) call" where
  "retry_begin_segment_pieces env dials bucket key seg nums cl =
    batch_one env dials ''RetryBeginSegmentPieces''
      (SegmentBeginRetryPieces \<lparr>rb_header = Some (mc_header cl), rb_segment_id = seg, rb_retry_piece_numbers = nums\<rparr>)
      bucket key (\<lambda>r. case r of SegmentBeginRetryPiecesResp s limits \<Rightarrow> Some (s, limits) | _ \<Rightarrow> None) cl"

definition commit_segment :: "MetaEnv \<Rightarrow> Dials \<Rightarrow> bytes \<Rightarrow> bytes \<Rightarrow> CommitSegment \<Rightarrow> MetainfoClient \<Rightarrow> unit call" where
  "commit_segment env dials bucket key req cl =
    batch_one env dials ''CommitSegment'' (SegmentCommit (Some (mc_header cl)) req) bucket key
      (\<lambda>r. case r of SegmentCommitResp \<Rightarrow> Some () | _ \<Rightarrow> None) cl"

definition make_inline_segment :: "MetaEnv \<Rightarrow> Dials \<Rightarrow> bytes \<Rightarrow> bytes \<Rightarrow> bytes \<Rightarrow> MakeInlineSegment \<Rightarrow> MetainfoClient \<Rightarrow> unit call" where
  "make_inline_segment env dials bucket key stream req cl =
    batch_one env dials ''MakeInlineSegment'' (SegmentMakeInline (Some (mc_header cl)) stream req) bucket key
      (\<lambda>r. case r of SegmentMakeInlineResp \<Rightarrow> Some () | _ \<Rightarrow> None) cl"

definition download_object :: "MetaEnv \<Rightarrow> Dials \<Rightarrow> bytes \<Rightarrow> bytes \<Rightarrow> bytes \<Rightarrow> PbRange option \<Rightarrow> bytes \<Rightarrow> MetainfoClient \<Rightarrow> DownloadObjectResponse call" where
  "download_object env dials bucket key enc_key rng version cl =
    batch_one env dials ''DownloadObject''
      (ObjectDownload \<lparr>dq_header = Some (mc_header cl), dq_bucket = bucket, dq_encrypted_object_key = enc_key, dq_range = rng, dq_object_version = version\<rparr>)
      bucket key (\<lambda>r. case r of ObjectDownloadResp r \<Rightarrow> Some r | _ \<Rightarrow> None) cl"

definition download_segment :: "MetaEnv \<Rightarrow> Dials \<Rightarrow> bytes \<Rightarrow> bytes \<Rightarrow> bytes \<Rightarrow> SegmentPosition \<Rightarrow> MetainfoClient \<Rightarrow> DownloadSegment call" where
  "download_segment env dials bucket key stream at cl =
    batch_one env dials ''DownloadSegment'' (SegmentDownload (Some (mc_header cl)) stream at) bucket key
      (\<lambda>r. case r of SegmentDownloadResp r \<Rightarrow> Some r | _ \<Rightarrow> None) cl"

definition list_segments :: "MetaEnv \<Rightarrow> Dials \<Rightarrow> bytes \<Rightarrow> bytes \<Rightarrow> bytes \<Rightarrow> SegmentPosition option \<Rightarrow> PbRange option \<Rightarrow> MetainfoClient \<Rightarrow> ListSegmentsResponse call" where
  "list_segments env dials bucket key stream cursor rng cl =
    batch_one env dials ''ListSegments'' (ListSegments (Some (mc_header cl)) stream cursor rng) bucket key
      (\<lambda>r. case r of ListSegmentsResp r \<Rightarrow> Some r | _ \<Rightarrow> None) cl"

text \<open>The first page and the following ones, each request answered by \<open>page\<close>; compare \<open>list_remaining\<close>.\<close>

partial_function (option) list_pages :: "(SegmentPosition option \<Rightarrow> PublicError + ListSegmentsResponse) \<Rightarrow> ListSegmentsResponse \<Rightarrow> (PublicError + ListSegmentsResponse) option" where
  "list_pages page out =
    (if \<not> sl_more (ls_list out) then Some (Inr out)
     else case page (list_cursor (ls_list out)) of
       Inl e \<Rightarrow> Some (Inl e)
     | Inr p \<Rightarrow>
       if sl_items (ls_list p) = [] then Some (Inr out)
       else list_pages page
         \<lparr>ls_list = \<lparr>sl_items = sl_items (ls_list out) @ sl_items (ls_list p), sl_more = sl_more (ls_list p)\<rparr>,
          ls_encryption_parameters = (case ls_encryption_parameters out of None \<Rightarrow> ls_encryption_parameters p | Some x \<Rightarrow> Some x)\<rparr>)"

definition list_all_segments :: "(SegmentPosition option \<Rightarrow> PublicError + ListSegmentsResponse) \<Rightarrow> (PublicError + ListSegmentsResponse) option" where
  "list_all_segments page = (case page None of Inl e \<Rightarrow> Some (Inl e) | Inr out \<Rightarrow> list_pages page out)"

definition list_objects :: "MetaEnv \<Rightarrow> Dials \<Rightarrow> bytes \<Rightarrow> ListObjectsParams \<Rightarrow> MetainfoClient \<Rightarrow> ListObjectsResponse call" where
  "list_objects env dials bucket params cl =
    batch_one env dials ''ListObjects''
      (ObjectList \<lparr>lq_header = Some (mc_header cl), lq_bucket = bucket, lq_delimiter = (if lp_recursive params then [] else ascii ''/''),
         lq_encrypted_prefix = lp_encrypted_prefix params, lq_encrypted_cursor = lp_encrypted_cursor params, lq_recursive = lp_recursive params,
         lq_limit = 1000, lq_status = 0, lq_metadata = lp_include_custom params, lq_exclude_system_metadata = (\<not> lp_include_system params),
         lq_arbitrary_prefix = lp_arbitrary_prefix params\<rparr>)
      bucket [] (\<lambda>r. case r of ObjectListResp r \<Rightarrow> Some r | _ \<Rightarrow> None) cl"

definition list_pending_uploads :: "MetaEnv \<Rightarrow> Dials \<Rightarrow> bytes \<Rightarrow> bytes \<Rightarrow> bytes \<Rightarrow> bool \<Rightarrow> bool \<Rightarrow> bool \<Rightarrow> bool \<Rightarrow> MetainfoClient \<Rightarrow> ListObjectsResponse call" where
  "list_pending_uploads env dials bucket enc_prefix enc_cursor arbitrary_prefix recursive with_custom with_system cl =
    batch_one env dials ''ListObjects''
      (ObjectList \<lparr>lq_header = Some (mc_header cl), lq_bucket = bucket, lq_delimiter = (if recursive then [] else ascii ''/''),
         lq_encrypted_prefix = enc_prefix, lq_encrypted_cursor = enc_cursor, lq_recursive = recursive,
         lq_limit = 0, lq_status = 1, lq_metadata = with_custom, lq_exclude_system_metadata = (\<not> with_system), lq_arbitrary_prefix = arbitrary_prefix\<rparr>)
      bucket [] (\<lambda>r. case r of ObjectListResp r \<Rightarrow> Some r | _ \<Rightarrow> None) cl"

definition list_pending_object_streams :: "MetaEnv \<Rightarrow> Dials \<Rightarrow> bytes \<Rightarrow> bytes \<Rightarrow> bytes \<Rightarrow> MetainfoClient \<Rightarrow> ListObjectsResponse call" where
  "list_pending_object_streams env dials bucket enc_key cursor cl =
    batch_one env dials ''ListPendingObjectStreams'' (ObjectListPendingStreams (Some (mc_header cl)) bucket enc_key cursor) bucket []
      (\<lambda>r. case r of ObjectListPendingStreamsResp r \<Rightarrow> Some r | _ \<Rightarrow> None) cl"

definition begin_delete_object :: "MetaEnv \<Rightarrow> Dials \<Rightarrow> bytes \<Rightarrow> bytes \<Rightarrow> bytes \<Rightarrow> int \<Rightarrow> MetainfoClient \<Rightarrow> PbObject option call" where
  "begin_delete_object env dials bucket enc_key stream status cl =
    batch_one env dials ''BeginDeleteObject'' (ObjectBeginDelete (Some (mc_header cl)) bucket enc_key stream status) bucket []
      (\<lambda>r. case r of ObjectBeginDeleteResp r \<Rightarrow> Some r | _ \<Rightarrow> None) cl"

definition get_object :: "MetaEnv \<Rightarrow> Dials \<Rightarrow> bytes \<Rightarrow> bytes \<Rightarrow> bytes \<Rightarrow> MetainfoClient \<Rightarrow> PbObject option call" where
  "get_object env dials bucket key enc_key cl =
    batch_one env dials ''GetObject'' (ObjectGet (Some (mc_header cl)) bucket enc_key) bucket key
      (\<lambda>r. case r of ObjectGetResp r \<Rightarrow> Some r | _ \<Rightarrow> None) cl"

section \<open>Properties\<close>

lemma fold_collect:
  "fold_result (\<lambda>item acc. try_bind (ok_or e item) (\<lambda>r. Inr (acc @ [r]))) items acc = Inr out \<longleftrightarrow> (\<exists>rs. items = map Some rs \<and> out = acc @ rs)"
proof (induction items arbitrary: acc)
  case (Cons item items)
  show ?case
  proof (cases item)
    case (Some a)
    then show ?thesis using Cons.IH[of "acc @ [a]"] by (auto simp: ok_or_def map_eq_Cons_conv Cons_eq_map_conv)
  qed (auto simp: ok_or_def)
qed auto

definition batch_bytes :: "MetaEnv \<Rightarrow> Request \<Rightarrow> MetainfoClient \<Rightarrow> bytes" where
  "batch_bytes env req cl = me_wrap env (encode_batch_request (me_batch env) \<lparr>bt_header = Some (mc_header cl), bt_requests = [Some req]\<rparr>)"

text \<open>
  A call made once: one attempt with this request; its error is the one of the attempt, and it returns \<open>x\<close> exactly when the reply of
  the attempt decodes to the single answer \<open>resp x\<close>.
\<close>

definition made_once :: "MetaEnv \<Rightarrow> bytes \<Rightarrow> bytes \<Rightarrow> Request \<Rightarrow> ('a \<Rightarrow> Response) \<Rightarrow> MetainfoClient \<Rightarrow> 'a call \<Rightarrow> bool" where
  "made_once env bucket key req resp cl c \<longleftrightarrow>
    (case c of (r, _, log) \<Rightarrow> \<exists>a. log = [a] \<and> one_request COMPRESSED_BATCH (batch_bytes env req cl) a \<and>
      (case at_result a of
         Inl e \<Rightarrow> r = Inl (map_rpc_error (me_texts env) COMPRESSED_BATCH e bucket key)
       | Inr body \<Rightarrow> \<forall>x. r = Inr x \<longleftrightarrow>
           (\<exists>w. me_unwrap env body = Some w \<and> decode_batch_response (me_zstd env) (me_batch env) w = Inr [Some (resp x)])))"

lemma batch_one_result:
  fixes pick :: "Response \<Rightarrow> 'a option"
  assumes "\<And>answer x. pick answer = Some x \<longleftrightarrow> answer = resp x"
  shows "try_bind (try_bind (ok_or map_decode (me_unwrap env body)) (\<lambda>w.
      try_bind (map_err f (decode_batch_response (me_zstd env) (me_batch env) w))
        (\<lambda>responses. fold_result (\<lambda>item acc. try_bind (ok_or e item) (\<lambda>r. Inr (acc @ [r]))) responses [])))
      (\<lambda>items. try_bind (expect_one env items what) (\<lambda>r. ok_or (unexpected what) (pick r))) = Inr x \<longleftrightarrow>
    (\<exists>w. me_unwrap env body = Some w \<and> decode_batch_response (me_zstd env) (me_batch env) w = Inr [Some (resp x)])"
    (is "?l \<longleftrightarrow> ?r")
proof
  assume ?l
  then obtain w responses items where w: "me_unwrap env body = Some w" "decode_batch_response (me_zstd env) (me_batch env) w = Inr responses"
      "fold_result (\<lambda>item acc. try_bind (ok_or e item) (\<lambda>r. Inr (acc @ [r]))) responses [] = Inr items"
      "length items = 1" "pick (hd items) = Some x"
    by (auto simp: expect_one_def result_simps ok_or_def split: if_splits option.splits)
  then obtain answer where "items = [answer]" by (auto simp: length_Suc_conv)
  then have "responses = [Some (resp x)]" using w(3,5) assms by (auto simp: fold_collect)
  then show ?r using w(1,2) by blast
next
  assume ?r
  then obtain w where w: "me_unwrap env body = Some w" "decode_batch_response (me_zstd env) (me_batch env) w = Inr [Some (resp x)]" by blast
  moreover have "pick (resp x) = Some x" using assms by blast
  ultimately show ?l by (simp add: expect_one_def ok_or_def)
qed

lemma batch_one_once:
  fixes pick :: "Response \<Rightarrow> 'a option"
  assumes "sound_idle cl" "\<not> is_idempotent_batch_item (Some req)" "\<And>answer x. pick answer = Some x \<longleftrightarrow> answer = resp x"
  shows "made_once env bucket key req resp cl (batch_one env dials what req bucket key pick cl)"
proof -
  obtain ib cl' log where i: "invoke_with (me_texts env) dials COMPRESSED_BATCH (batch_bytes env req cl) bucket key False cl = (ib, cl', log)"
    by (metis prod_cases3)
  note c = invoke_with_done[OF assms(1), of "me_texts env" COMPRESSED_BATCH "batch_bytes env req cl" bucket key False dials, unfolded i call_done_def prod.case]
  obtain a where a: "log = [a]" using c length_one[of log] by auto
  have ib: "ib = map_err (\<lambda>e. map_rpc_error (me_texts env) COMPRESSED_BATCH e bucket key) (at_result a)" "one_request COMPRESSED_BATCH (batch_bytes env req cl) a"
    using c a by simp_all
  have run: "batch_one env dials what req bucket key pick cl =
      on_ok (on_ok (ib, cl', [a]) (\<lambda>body. try_bind (ok_or map_decode (me_unwrap env body)) (\<lambda>w.
        try_bind (map_err (\<lambda>e. pe_new ProtocolKind (''CompressedBatch: '' @ me_compressed_text env e)) (decode_batch_response (me_zstd env) (me_batch env) w))
        (\<lambda>responses. fold_result (\<lambda>item acc. try_bind (ok_or (pe_new ProtocolKind ''empty CompressedBatch response item'') item) (\<lambda>r. Inr (acc @ [r]))) responses []))))
        (\<lambda>items. try_bind (expect_one env items what) (\<lambda>r. ok_or (unexpected what) (pick r)))"
    using i[unfolded batch_bytes_def] assms(2) a by (simp add: batch_one_def compressed_batch_def Let_def)
  show ?thesis
  proof (cases "at_result a")
    case (Inl e)
    then show ?thesis using ib run by (simp add: made_once_def on_ok_def)
  next
    case (Inr body)
    then have "ib = Inr body" using ib(1) by simp
    then show ?thesis using ib(2) run Inr batch_one_result[OF assms(3), of env body] by (simp add: made_once_def on_ok_def)
  qed
qed

text \<open>
  C14: the calls that change what the satellite stores: beginning and committing an object, beginning, committing and storing segments,
  replacing pieces and deleting.  Each makes exactly one attempt, however the connection fails, and the attempt writes the call's batch, with
  exactly one item and the client's header, at most once and to one connection, so that none is applied twice.  If the attempt fails, its error is reported;
  otherwise the call returns a result exactly when the reply to this attempt is a batch with that result as its only answer, of the kind the call expects.
\<close>

theorem changes_are_sent_once:
  assumes "sound_idle cl"
  shows "made_once env bucket []
      (ObjectBegin \<lparr>bo_header = Some (mc_header cl), bo_bucket = bucket, bo_encrypted_object_key = enc_key,
         bo_expires_at = map_option timestamp_from_system expires, bo_encryption_parameters = params, bo_retention = retention,
         bo_legal_hold = hold, bo_checksum_algorithm = fst (checksum_header cs), bo_is_checksum_composite = snd (checksum_header cs)\<rparr>)
      ObjectBeginResp cl (begin_object env dials bucket enc_key expires params retention hold cs cl) \<and>
    made_once env bucket key
      (ObjectCommit \<lparr>co_header = Some (mc_header cl), co_stream_id = stream, co_user = user,
         co_checksum_algorithm = fst (checksum_header cs), co_is_checksum_composite = snd (checksum_header cs)\<rparr>)
      ObjectCommitResp cl (commit_object env dials bucket key stream user cs cl) \<and>
    made_once env bucket key
      (SegmentBegin \<lparr>bsq_header = Some (mc_header cl), bsq_stream_id = stream, bsq_position = Some at, bsq_max_order_limit = limit\<rparr>)
      SegmentBeginResp cl (begin_segment env dials bucket key stream at limit cl) \<and>
    made_once env bucket key
      (SegmentBeginRetryPieces \<lparr>rb_header = Some (mc_header cl), rb_segment_id = seg, rb_retry_piece_numbers = nums\<rparr>)
      (\<lambda>(s, limits). SegmentBeginRetryPiecesResp s limits) cl (retry_begin_segment_pieces env dials bucket key seg nums cl) \<and>
    made_once env bucket key (SegmentCommit (Some (mc_header cl)) commit) (\<lambda>_. SegmentCommitResp) cl (commit_segment env dials bucket key commit cl) \<and>
    made_once env bucket key (SegmentMakeInline (Some (mc_header cl)) stream inline_seg) (\<lambda>_. SegmentMakeInlineResp) cl
      (make_inline_segment env dials bucket key stream inline_seg cl) \<and>
    made_once env bucket [] (ObjectBeginDelete (Some (mc_header cl)) bucket enc_key stream status) ObjectBeginDeleteResp cl
      (begin_delete_object env dials bucket enc_key stream status cl)"
  unfolding begin_object_def commit_object_def begin_segment_def retry_begin_segment_pieces_def commit_segment_def make_inline_segment_def
    begin_delete_object_def
  by (intro conjI batch_one_once[OF assms]) (auto simp: is_idempotent_batch_item_def split: Response.splits)

text \<open>A satellite that answers with one begun segment.\<close>

definition sample_begun :: BeginSegmentResponse where
  "sample_begun = \<lparr>bs_segment_id = [5], bs_addressed_limits = [], bs_private_key = [], bs_redundancy_scheme = None, bs_cohort_requirements = None\<rparr>"

definition toy_env :: MetaEnv where
  "toy_env = \<lparr>me_texts = toy_texts, me_compressed_text = (\<lambda>_. []), me_zstd = toy_zstd,
     me_batch = \<lparr>request_encode = (\<lambda>_. [1]), request_decode = (\<lambda>_. None), response_encode = (\<lambda>_. []),
       response_decode = (\<lambda>d. if d = [42] then Some [Some (SegmentBeginResp sample_begun)] else None)\<rparr>,
     me_wrap = cbq_data, me_unwrap = (\<lambda>d. Some \<lparr>cbr_selected = COMPRESSION_NONE, cbr_data = d\<rparr>), me_nat_text = (\<lambda>_. [])\<rparr>"

theorem changes_are_sent_once_witness:
  "\<exists>cl' a c c'. begin_segment toy_env (\<lambda>_. sample_dials 1) [98] [107] [1] (0, 0) 100 sample_client = (Inr sample_begun, cl', [a]) \<and>
    at_conn a = Some (c, c') \<and> sent (io c') = sent (io c) @ call_bytes (split_size c) (next_stream_id c) COMPRESSED_BATCH [1]"
proof -
  let ?req = "SegmentBegin \<lparr>bsq_header = Some (mc_header sample_client), bsq_stream_id = [1], bsq_position = Some (0, 0), bsq_max_order_limit = 100\<rparr>"
  let ?c = "begin_segment toy_env (\<lambda>_. sample_dials 1) [98] [107] [1] (0, 0) 100 sample_client"
  obtain c' cl' where once: "invoke_once (sample_dials 1) COMPRESSED_BATCH [1] sample_client = (Inr [42], cl',
      \<lparr>at_conn = Some (set_timeout (new_conn answering) 10, c'), at_result = Inr [42]\<rparr>)"
    using sample_attempts(2)[of 0 COMPRESSED_BATCH "[1]" "[]"] by (auto simp: sample_client_def)
  have bytes: "batch_bytes toy_env ?req sample_client = [1]" by (simp add: batch_bytes_def toy_env_def encode_batch_request_def)
  then have "snd (snd ?c) = [\<lparr>at_conn = Some (set_timeout (new_conn answering) 10, c'), at_result = Inr [42]\<rparr>]"
    using once by (simp add: begin_segment_def batch_one_def compressed_batch_def on_ok_def batch_bytes_def invoke_with_def is_idempotent_batch_item_def)
  then obtain r cl2 where c: "?c = (r, cl2, [\<lparr>at_conn = Some (set_timeout (new_conn answering) 10, c'), at_result = Inr [42]\<rparr>])" by (metis prod.collapse)
  have sound: "sound_idle sample_client" by (simp add: sound_idle_def sample_client_def)
  have "made_once toy_env [98] [107] ?req SegmentBeginResp sample_client ?c" using changes_are_sent_once[OF sound] by blast
  then have m: "one_request COMPRESSED_BATCH [1] \<lparr>at_conn = Some (set_timeout (new_conn answering) 10, c'), at_result = Inr [42]\<rparr>"
    "r = Inr x \<longleftrightarrow> (\<exists>w. me_unwrap toy_env [42] = Some w \<and> decode_batch_response (me_zstd toy_env) (me_batch toy_env) w = Inr [Some (SegmentBeginResp x)])" for x
    unfolding c made_once_def bytes by simp_all
  have "r = Inr sample_begun" unfolding m(2) by (simp add: toy_env_def decode_batch_response_def decode_payload_def COMPRESSION_NONE_def COMPRESSION_ZSTD_def ok_or_def)
  then show ?thesis using c m(1) by (auto simp: one_request_def Let_def)
qed

end
