(* ===== verification/Paged_Stream.thy ===== *)
theory Paged_Stream
  imports Public_Error
begin

text \<open>
  The listings of the client are streams over the satellite's pages (\<open>stream::try_unfold\<close> in \<open>crates/storj/src/objects.rs\<close>,
  \<open>bucket.rs\<close> and \<open>project.rs\<close>): entries of the last page are handed out one by one, and when there are none left the next page is asked
  for with the cursor of the last entry.  The locale \<open>paged_stream\<close> is what these streams have in common; each listing
  interprets it for its own step function.

  Shown: a stream that is read to its end gives what its entries convert to, in order, whatever the sizes of the pages.
\<close>

text \<open>Reading a stream to its end; \<open>None\<close> is a stream without end.\<close>

partial_function (option) drain :: "('st \<Rightarrow> (PublicError + ('a \<times> 'st) option) option) \<Rightarrow> 'st \<Rightarrow> (PublicError + 'a list) option" where
  "drain step st =
    Option.bind (step st) (\<lambda>r.
      case r of
        Inl e \<Rightarrow> Some (Inl e)
      | Inr None \<Rightarrow> Some (Inr [])
      | Inr (Some (x, st)) \<Rightarrow> Option.bind (drain step st) (\<lambda>rest. Some (try_bind rest (\<lambda>xs. Inr (x # xs)))))"

text \<open>A satellite that goes through a list: after a cursor, a page of at least one of the entries that follow, if there are any.\<close>

definition page_at :: "(nat \<Rightarrow> nat) \<Rightarrow> 'i list \<Rightarrow> nat \<Rightarrow> PublicError + ('i list \<times> bool)" where
  "page_at size_of items i = Inr (take (size_of i) (drop i items), i + size_of i < length items)"

definition lists :: "('c \<Rightarrow> PublicError + ('i list \<times> bool)) \<Rightarrow> ('i \<Rightarrow> 'c) \<Rightarrow> 'c \<Rightarrow> (nat \<Rightarrow> nat) \<Rightarrow> 'i list \<Rightarrow> bool" where
  "lists page cursor_of c0 size_of items \<longleftrightarrow> (\<forall>i. 0 < size_of i) \<and> page c0 = page_at size_of items 0 \<and>
    (\<forall>i < length items. page (cursor_of (items ! i)) = page_at size_of items (Suc i))"

lemma lists_next:
  assumes "lists page cursor_of c0 size_of items" "i + size_of i < length items"
  shows "take (size_of i) (drop i items) \<noteq> []" "page (cursor_of (last (take (size_of i) (drop i items)))) = page_at size_of items (i + size_of i)"
proof -
  let ?xs = "take (size_of i) (drop i items)"
  have pos: "0 < size_of i" using assms(1) by (simp add: lists_def)
  then show ne: "?xs \<noteq> []" using assms(2) by simp
  have last: "last ?xs = items ! (i + size_of i - 1)" using ne pos assms(2) by (simp add: last_conv_nth)
  have "i + size_of i - 1 < length items" "Suc (i + size_of i - 1) = i + size_of i" using assms(2) pos by simp_all
  then show "page (cursor_of (last ?xs)) = page_at size_of items (i + size_of i)"
    using assms(1) unfolding lists_def last by metis
qed

lemma drain_cong: "step a = step b \<Longrightarrow> drain step a = drain step b"
  using drain.simps[of step a] drain.simps[of step b] by simp

locale paged_stream =
  fixes step :: "'st \<Rightarrow> (PublicError + ('a \<times> 'st) option) option"
    and at :: "'c \<Rightarrow> 'a list \<Rightarrow> bool \<Rightarrow> 'st"
    and page :: "'c \<Rightarrow> PublicError + ('i list \<times> bool)"
    and cursor_of :: "'i \<Rightarrow> 'c"
    and convert :: "'i list \<Rightarrow> PublicError + 'a list"
  assumes step_pending: "step (at c (x # xs) d) = Some (Inr (Some (x, at c xs d)))"
    and step_done: "step (at c [] True) = Some (Inr None)"
    and step_page: "page c = Inr (items, further) \<Longrightarrow> convert items = Inr out \<Longrightarrow>
      step (at c [] False) = step (at (if items = [] then c else cursor_of (last items)) out (\<not> further \<or> items = []))"
    and step_error: "page c = Inl e \<Longrightarrow> step (at c [] False) = Some (Inl e)"
begin

lemma drain_pending:
  "drain step (at c out d) = Option.bind (drain step (at c [] d)) (\<lambda>rest. Some (try_bind rest (\<lambda>xs. Inr (out @ xs))))"
proof (induction out)
  case Nil
  have "(\<lambda>rest. Some (try_bind rest Inr)) = (Some :: PublicError + 'a list \<Rightarrow> _)" by (rule ext) (simp add: try_bind_def split: sum.splits)
  then show ?case by simp
next
  case (Cons x out)
  have "drain step (at c (x # out) d) = Option.bind (drain step (at c out d)) (\<lambda>rest. Some (try_bind rest (\<lambda>xs. Inr (x # xs))))"
    by (simp add: drain.simps[of step "at c (x # out) d"] step_pending)
  moreover have "try_bind (try_bind rest (\<lambda>xs. Inr (out @ xs))) (\<lambda>xs. Inr (x # xs)) = try_bind rest (\<lambda>xs. Inr ((x # out) @ xs))"
    for rest :: "PublicError + 'a list" by (cases rest) simp_all
  ultimately show ?case unfolding Cons.IH by (cases "drain step (at c [] d)") simp_all
qed

lemma drain_done: "drain step (at c out True) = Some (Inr out)"
proof -
  have "drain step (at c [] True) = Some (Inr [])" by (simp add: drain.simps step_done)
  then show ?thesis by (simp add: drain_pending[of c out True])
qed

lemma drain_page:
  assumes "page c = Inr (items, further)" "convert items = Inr out"
  shows "drain step (at c [] False) =
    (if further \<and> items \<noteq> [] then Option.bind (drain step (at (cursor_of (last items)) [] False)) (\<lambda>rest. Some (try_bind rest (\<lambda>xs. Inr (out @ xs))))
     else Some (Inr out))"
proof -
  let ?st = "at (if items = [] then c else cursor_of (last items)) out (\<not> further \<or> items = [])"
  have "drain step (at c [] False) = drain step ?st" by (rule drain_cong[OF step_page[OF assms]])
  then show ?thesis by (cases "further \<and> items \<noteq> []") (auto simp: drain_done drain_pending[of _ out False])
qed

theorem drain_lists:
  assumes lists: "lists page cursor_of c0 size_of items"
    and conv: "\<And>xs. set xs \<subseteq> set items \<Longrightarrow> convert xs = Inr (concat (map f xs))"
  shows "drain step (at c0 [] False) = Some (Inr (concat (map f items)))"
proof -
  have "drain step (at c [] False) = Some (Inr (concat (map f (drop i items))))"
    if "page c = page_at size_of items i" "i \<le> length items" for c i
    using that
  proof (induction "length items - i" arbitrary: i c rule: less_induct)
    case less
    let ?xs = "take (size_of i) (drop i items)"
    have "set ?xs \<subseteq> set items" by (auto dest: in_set_takeD in_set_dropD)
    note step = drain_page[OF less.prems(1)[unfolded page_at_def] conv[OF this]]
    have pos: "0 < size_of i" using lists by (simp add: lists_def)
    have "?xs @ drop (i + size_of i) items = drop i items" by (metis add.commute append_take_drop_id drop_drop)
    then have split: "concat (map f ?xs) @ concat (map f (drop (i + size_of i) items)) = concat (map f (drop i items))"
      by (metis concat_append map_append)
    show ?case
    proof (cases "i + size_of i < length items")
      case False
      then show ?thesis using step split by simp
    next
      case True
      note nxt = lists_next[OF lists True]
      have "drain step (at (cursor_of (last ?xs)) [] False) = Some (Inr (concat (map f (drop (i + size_of i) items))))"
        using less.hyps[of "i + size_of i"] nxt(2) True pos by simp
      then show ?thesis using step split True nxt(1) by simp
    qed
  qed
  from this[of c0 0] lists show ?thesis by (simp add: lists_def)
qed

end

end
