(* ===== verification/Object_List.thy ===== *)
theory Object_List
  imports Metainfo_Calls Path_Crypto Paged_Stream
begin

text \<open>
  Descriptions of objects and their listing, \<open>crates/storj/src/objects.rs\<close>.  The satellite's pages are a function of the
  cursor.  The stream of a listing is its step function \<open>list_next\<close>; \<open>None\<close> is a listing that goes on without end.

  Shown: whoever reads the stream to its end gets every entry that can be opened, once and in the satellite's order,
  under the key it was stored with; entries that cannot be opened are left out.
\<close>

section \<open>The code\<close>

subsection \<open>Descriptions\<close>

definition decrypt_custom :: "(ErrorKind \<Rightarrow> string) \<Rightarrow> (UplinkError \<Rightarrow> string) \<Rightarrow> Crypto \<Rightarrow> UserPb \<Rightarrow> Store \<Rightarrow> PbObject \<Rightarrow> bytes \<Rightarrow> bytes \<Rightarrow>
    PublicError + (bytes \<times> bytes) list" where
  "decrypt_custom show_enc show_up cr pb store ob bucket key =
    try_bind (map_err (map_enc show_enc) (derive_content_key cr bucket key store)) (\<lambda>ckey.
    let (suite, _) = encryption_from_params (po_encryption_parameters ob)
    in try_bind (map_err (map_uplink show_enc show_up)
         (decrypt_user_data cr pb (po_encrypted_metadata ob) (po_encrypted_metadata_encrypted_key ob) (po_encrypted_metadata_nonce ob) suite ckey))
         (\<lambda>(_, user). Inr user))"

definition object_from_info :: "(ErrorKind \<Rightarrow> string) \<Rightarrow> (UplinkError \<Rightarrow> string) \<Rightarrow> Crypto \<Rightarrow> UserPb \<Rightarrow> Store \<Rightarrow> PbObject \<Rightarrow> bytes \<Rightarrow> bytes \<Rightarrow>
    bool \<Rightarrow> bool \<Rightarrow> bool \<Rightarrow> PublicError + Object" where
  "object_from_info show_enc show_up cr pb store ob bucket key is_prefix include_system include_custom =
    (let obj = (object_from_proto (Some ob) key)\<lparr>ob_is_prefix := is_prefix\<rparr>;
         obj = (if include_system then obj else obj\<lparr>ob_system := default_system\<rparr>)
     in if include_custom \<and> \<not> is_prefix \<and> po_encrypted_metadata ob \<noteq> [] then
          try_bind (decrypt_custom show_enc show_up cr pb store ob bucket key) (\<lambda>user. Inr (obj\<lparr>ob_custom := user\<rparr>))
        else Inr (obj\<lparr>ob_custom := []\<rparr>))"

definition skippable_list_decrypt :: "PublicError \<Rightarrow> bool" where
  "skippable_list_decrypt e \<longleftrightarrow> pe_kind e = DecryptionFailedKind \<or> pe_kind e = ProtocolKind"

text \<open>The two calls on a single object; \<open>found\<close> is the satellite's answer to the encrypted key.\<close>

definition stat_object :: "(ErrorKind \<Rightarrow> string) \<Rightarrow> (UplinkError \<Rightarrow> string) \<Rightarrow> Crypto \<Rightarrow> UserPb \<Rightarrow> Store \<Rightarrow> (bytes \<Rightarrow> PublicError + PbObject option) \<Rightarrow>
    bytes \<Rightarrow> bytes \<Rightarrow> PublicError + Object" where
  "stat_object show_enc show_up cr pb store found bucket key =
    try_bind (require_bucket_name bucket) (\<lambda>_.
    try_bind (require_object_key key) (\<lambda>_.
    try_bind (map_err (map_enc show_enc) (encrypt_path cr bucket key store)) (\<lambda>enc_path.
    try_bind (found enc_path) (\<lambda>resp.
    try_bind (ok_or (pe_new ProtocolKind ''GetObject returned no object'') resp) (\<lambda>ob.
      object_from_info show_enc show_up cr pb store ob bucket key False True True)))))"

definition delete_object :: "(ErrorKind \<Rightarrow> string) \<Rightarrow> (UplinkError \<Rightarrow> string) \<Rightarrow> Crypto \<Rightarrow> UserPb \<Rightarrow> Store \<Rightarrow> (bytes \<Rightarrow> PublicError + PbObject option) \<Rightarrow>
    bytes \<Rightarrow> bytes \<Rightarrow> PublicError + Object option" where
  "delete_object show_enc show_up cr pb store deleted bucket key =
    try_bind (require_bucket_name bucket) (\<lambda>_.
    try_bind (require_object_key key) (\<lambda>_.
    try_bind (map_err (map_enc show_enc) (encrypt_path cr bucket key store)) (\<lambda>enc_path.
    try_bind (deleted enc_path) (\<lambda>resp.
      case resp of
        None \<Rightarrow> Inr None
      | Some ob \<Rightarrow>
        if po_bucket ob = [] then Inr None
        else try_bind (object_from_info show_enc show_up cr pb store ob bucket key False True True) (\<lambda>obj. Inr (Some obj))))))"

subsection \<open>Keys relative to a prefix\<close>

record ListKeyCodec =
  lk_prefix :: bytes
  lk_parent_key :: Key
  lk_path_cipher :: CipherSuite
  lk_encrypted_prefix :: bytes
  lk_arbitrary_prefix :: bool

definition codec_new :: "(ErrorKind \<Rightarrow> string) \<Rightarrow> Crypto \<Rightarrow> Store \<Rightarrow> bytes \<Rightarrow> bytes \<Rightarrow> PublicError + ListKeyCodec" where
  "codec_new show_enc cr store bucket pfx =
    try_bind (map_err (map_enc show_enc) (get_prefix_info cr bucket pfx store)) (\<lambda>info.
    let arbitrary = (info_cipher info = NULL)
    in Inr \<lparr>lk_prefix = pfx, lk_parent_key = info_parent_key info, lk_path_cipher = info_cipher info,
            lk_encrypted_prefix = (if arbitrary then pfx else info_parent_enc info), lk_arbitrary_prefix = arbitrary\<rparr>)"

definition encode_cursor :: "(ErrorKind \<Rightarrow> string) \<Rightarrow> Crypto \<Rightarrow> ListKeyCodec \<Rightarrow> bytes \<Rightarrow> PublicError + bytes" where
  "encode_cursor show_enc cr kc cursor =
    (if cursor = [] then Inr []
     else map_err (map_enc show_enc) (encrypt_iterator cr (new_iter cursor) (lk_path_cipher kc) (lk_parent_key kc)))"

definition decode_key :: "(ErrorKind \<Rightarrow> string) \<Rightarrow> Crypto \<Rightarrow> ListKeyCodec \<Rightarrow> bytes \<Rightarrow> PublicError + bytes" where
  "decode_key show_enc cr kc encrypted_relative =
    try_bind (map_err (map_enc show_enc) (decrypt_iterator cr (new_iter encrypted_relative) (lk_path_cipher kc) (lk_parent_key kc))) (\<lambda>rel.
    try_bind (ok_or (pe_new DecryptionFailedKind ''listed object key is not utf-8'') (from_utf8 rel)) (\<lambda>rel.
      Inr (if lk_prefix kc = [] then rel else lk_prefix kc @ rel)))"

subsection \<open>The stream\<close>

record ObjectListState =
  ol_bucket :: bytes
  ol_codec :: ListKeyCodec
  ol_cursor :: bytes
  ol_recursive :: bool
  ol_system :: bool
  ol_custom :: bool
  ol_pending :: "Object list"
  ol_done :: bool

definition prepare_list :: "(ErrorKind \<Rightarrow> string) \<Rightarrow> Crypto \<Rightarrow> Store \<Rightarrow> bytes \<Rightarrow> ListObjectsOptions \<Rightarrow> PublicError + ObjectListState" where
  "prepare_list show_enc cr store bucket opts =
    try_bind (codec_new show_enc cr store bucket (lo_prefix opts)) (\<lambda>kc.
    try_bind (encode_cursor show_enc cr kc (lo_cursor opts)) (\<lambda>cursor.
      Inr \<lparr>ol_bucket = bucket, ol_codec = kc, ol_cursor = cursor, ol_recursive = lo_recursive opts, ol_system = lo_system opts,
           ol_custom = lo_custom opts, ol_pending = [], ol_done = False\<rparr>))"

definition PREFIX_STATUS :: int where "PREFIX_STATUS = 7"

definition convert_list_item :: "(ErrorKind \<Rightarrow> string) \<Rightarrow> (UplinkError \<Rightarrow> string) \<Rightarrow> Crypto \<Rightarrow> UserPb \<Rightarrow> Store \<Rightarrow> ObjectListState \<Rightarrow> ObjectListItem \<Rightarrow>
    PublicError + Object" where
  "convert_list_item show_enc show_up cr pb store st item =
    try_bind (decode_key show_enc cr (ol_codec st) (oi_encrypted_object_key item)) (\<lambda>key.
    let is_prefix = (oi_status item = PREFIX_STATUS);
        ob = \<lparr>po_bucket = ol_bucket st, po_status = oi_status item, po_version = [], po_stream_id = oi_stream_id item, po_created_at = oi_created_at item,
          po_expires_at = oi_expires_at item, po_plain_size = oi_plain_size item, po_encrypted_metadata = oi_encrypted_metadata item,
          po_encrypted_metadata_encrypted_key = oi_encrypted_metadata_encrypted_key item,
          po_encrypted_metadata_nonce = oi_encrypted_metadata_nonce item, po_encryption_parameters = None, po_checksum_algorithm = 0,
          po_is_checksum_composite = False, po_encrypted_checksum = []\<rparr>
    in object_from_info show_enc show_up cr pb store ob (ol_bucket st) key is_prefix (ol_system st) (ol_custom st \<and> \<not> is_prefix))"

fun convert_list_page :: "(ObjectListItem \<Rightarrow> PublicError + Object) \<Rightarrow> ObjectListItem list \<Rightarrow> PublicError + Object list" where
  "convert_list_page convert [] = Inr []"
| "convert_list_page convert (item # items) =
    (case convert item of
       Inr obj \<Rightarrow> try_bind (convert_list_page convert items) (\<lambda>out. Inr (obj # out))
     | Inl e \<Rightarrow> if skippable_list_decrypt e then convert_list_page convert items else Inl e)"

text \<open>One step of the stream: the next object and the state after it, the end, or an error.\<close>

partial_function (option) list_next :: "(ObjectListItem \<Rightarrow> PublicError + Object) \<Rightarrow> (bytes \<Rightarrow> PublicError + ListObjectsResponse) \<Rightarrow> ObjectListState \<Rightarrow>
    (PublicError + (Object \<times> ObjectListState) option) option" where
  "list_next convert page st =
    (case ol_pending st of
       obj # rest \<Rightarrow> Some (Inr (Some (obj, st\<lparr>ol_pending := rest\<rparr>)))
     | [] \<Rightarrow>
       if ol_done st then Some (Inr None)
       else case page (ol_cursor st) of
         Inl e \<Rightarrow> Some (Inl e)
       | Inr pg \<Rightarrow>
         let st = (if lr_items pg = [] then st else st\<lparr>ol_cursor := oi_encrypted_object_key (last (lr_items pg))\<rparr>);
             st = st\<lparr>ol_done := (\<not> lr_more pg \<or> lr_items pg = [])\<rparr>
         in case convert_list_page convert (lr_items pg) of
              Inl e \<Rightarrow> Some (Inl e)
            | Inr converted \<Rightarrow> list_next convert page (st\<lparr>ol_pending := converted\<rparr>))"

definition list_objects_start :: "(ErrorKind \<Rightarrow> string) \<Rightarrow> Crypto \<Rightarrow> Store \<Rightarrow> bytes \<Rightarrow> ListObjectsOptions \<Rightarrow> PublicError + ObjectListState" where
  "list_objects_start show_enc cr store bucket opts =
    try_bind (list_validate opts) (\<lambda>_. try_bind (require_bucket_name bucket) (\<lambda>_. prepare_list show_enc cr store bucket opts))"

section \<open>Properties\<close>

lemma decode_key_round_trip:
  assumes "crypto_ok cr" "path_suite (lk_path_cipher kc)" "utf8_valid rel"
    "encrypt_iterator cr (new_iter rel) (lk_path_cipher kc) (lk_parent_key kc) = Inr enc"
  shows "decode_key show_enc cr kc enc = Inr (lk_prefix kc @ rel)"
proof -
  have "decrypt_iterator cr (new_iter enc) (lk_path_cipher kc) (lk_parent_key kc) = Inr rel"
    using decrypt_encrypt_iterator[OF assms(1,2) iter_wf_new assms(4)] by (simp add: remaining_components_parts join_of_parts)
  then show ?thesis using assms(3) by (simp add: decode_key_def from_utf8_def)
qed

text \<open>The listing is a stream over pages.\<close>

definition page_items :: "(bytes \<Rightarrow> PublicError + ListObjectsResponse) \<Rightarrow> bytes \<Rightarrow> PublicError + (ObjectListItem list \<times> bool)" where
  "page_items page c = try_bind (page c) (\<lambda>pg. Inr (lr_items pg, lr_more pg))"

interpretation objects: paged_stream "list_next convert page" "\<lambda>c objs d. st\<lparr>ol_cursor := c, ol_pending := objs, ol_done := d\<rparr>" "page_items page"
    oi_encrypted_object_key "convert_list_page convert" for convert page st
proof unfold_locales
  show "list_next convert page (st\<lparr>ol_cursor := c, ol_pending := x # xs, ol_done := d\<rparr>) =
      Some (Inr (Some (x, st\<lparr>ol_cursor := c, ol_pending := xs, ol_done := d\<rparr>)))" for c x xs d
    by (cases st) (simp add: list_next.simps)
  show "list_next convert page (st\<lparr>ol_cursor := c, ol_pending := [], ol_done := True\<rparr>) = Some (Inr None)" for c
    by (simp add: list_next.simps)
  show "list_next convert page (st\<lparr>ol_cursor := c, ol_pending := [], ol_done := False\<rparr>) = Some (Inl e)" if "page_items page c = Inl e" for c e
    using that by (simp add: list_next.simps page_items_def result_simps split: sum.splits)
  show "list_next convert page (st\<lparr>ol_cursor := c, ol_pending := [], ol_done := False\<rparr>) = list_next convert page
      (st\<lparr>ol_cursor := if items = [] then c else oi_encrypted_object_key (last items), ol_pending := out, ol_done := \<not> further \<or> items = []\<rparr>)"
    if "page_items page c = Inr (items, further)" "convert_list_page convert items = Inr out" for c items further out
    using that by (cases st) (subst list_next.simps, auto simp: page_items_def result_simps Let_def)
qed

definition openable :: "(ObjectListItem \<Rightarrow> PublicError + Object) \<Rightarrow> ObjectListItem list \<Rightarrow> Object list" where
  "openable convert items = concat (map (\<lambda>item. case convert item of Inr obj \<Rightarrow> [obj] | Inl _ \<Rightarrow> []) items)"

lemma convert_page_openable:
  assumes "\<forall>item \<in> set items. \<forall>e. convert item = Inl e \<longrightarrow> skippable_list_decrypt e"
  shows "convert_list_page convert items = Inr (openable convert items)"
  using assms by (induction items) (auto simp: openable_def split: sum.splits)

text \<open>
  C15: a listing that is read to its end gives every entry of the satellite's list that can be opened, once and in order,
  whatever the sizes of the pages; entries that cannot be decrypted are left out and do not end it.  An entry stored under a key relative to the
  prefix is listed under the whole key.
\<close>

theorem listing_reads_all:
  assumes "crypto_ok cr" and "list_objects_start show_enc cr store bucket opts = Inr st"
    and "lists (page_items page) oi_encrypted_object_key (ol_cursor st) size_of items"
    and "\<forall>item \<in> set items. \<forall>e. convert_list_item show_enc show_up cr pb store st item = Inl e \<longrightarrow> skippable_list_decrypt e"
  shows "drain (list_next (convert_list_item show_enc show_up cr pb store st) page) st = Some (Inr (openable (convert_list_item show_enc show_up cr pb store st) items)) \<and>
    (\<forall>item obj rel. item \<in> set items \<longrightarrow> convert_list_item show_enc show_up cr pb store st item = Inr obj \<longrightarrow> utf8_valid rel \<longrightarrow>
      path_suite (lk_path_cipher (ol_codec st)) \<longrightarrow>
      encrypt_iterator cr (new_iter rel) (lk_path_cipher (ol_codec st)) (lk_parent_key (ol_codec st)) = Inr (oi_encrypted_object_key item) \<longrightarrow>
      ob_key obj = lo_prefix opts @ rel)"
proof (intro conjI allI impI)
  have st: "ol_pending st = []" "\<not> ol_done st" "lk_prefix (ol_codec st) = lo_prefix opts"
    using assms(2) by (auto simp: list_objects_start_def prepare_list_def codec_new_def result_simps Let_def)
  show "drain (list_next (convert_list_item show_enc show_up cr pb store st) page) st = Some (Inr (openable (convert_list_item show_enc show_up cr pb store st) items))"
  proof -
    let ?conv = "convert_list_item show_enc show_up cr pb store st"
    have "convert_list_page ?conv xs = Inr (concat (map (\<lambda>item. case ?conv item of Inr obj \<Rightarrow> [obj] | Inl _ \<Rightarrow> []) xs))" if "set xs \<subseteq> set items" for xs
      using convert_page_openable[of xs ?conv] assms(4) that by (auto simp: openable_def)
    from objects.drain_lists[OF assms(3) this, of st] st(1,2) show ?thesis by (cases st) (simp add: openable_def)
  qed
  fix item obj rel
  assume a: "convert_list_item show_enc show_up cr pb store st item = Inr obj" "utf8_valid rel" "path_suite (lk_path_cipher (ol_codec st))"
    "encrypt_iterator cr (new_iter rel) (lk_path_cipher (ol_codec st)) (lk_parent_key (ol_codec st)) = Inr (oi_encrypted_object_key item)"
  have "decode_key show_enc cr (ol_codec st) (oi_encrypted_object_key item) = Inr (lk_prefix (ol_codec st) @ rel)"
    by (rule decode_key_round_trip[OF assms(1) a(3,2,4)])
  then show "ob_key obj = lo_prefix opts @ rel" using a(1) st(3)
    by (auto simp: convert_list_item_def object_from_info_def object_from_proto_def Let_def result_simps split: if_splits option.splits prod.splits)
qed

text \<open>Two entries below a prefix, in pages of one, with keys in the clear.\<close>

definition clear_store :: Store where
  "clear_store = set_default_key (set_default_path_cipher new_store NULL) (replicate 32 1)"

definition no_pb :: UserPb where
  "no_pb = \<lparr>meta_encode = (\<lambda>_. []), meta_decode = (\<lambda>_. None), info_encode = (\<lambda>_. []), info_decode = (\<lambda>_. None), stream_encode = (\<lambda>_. []),
     stream_decode = (\<lambda>_. None)\<rparr>"

definition sample_entry :: "u8 \<Rightarrow> ObjectListItem" where
  "sample_entry b = \<lparr>oi_encrypted_object_key = [b], oi_object_version = [], oi_status = 3, oi_created_at = None, oi_expires_at = None, oi_plain_size = 5,
     oi_encrypted_metadata = [], oi_encrypted_metadata_nonce = [], oi_encrypted_metadata_encrypted_key = [], oi_stream_id = []\<rparr>"

definition sample_listing_opts :: ListObjectsOptions where
  "sample_listing_opts = \<lparr>lo_prefix = [97, slash], lo_cursor = [], lo_recursive = False, lo_system = True, lo_custom = True\<rparr>"

definition sample_page :: "bytes \<Rightarrow> PublicError + ListObjectsResponse" where
  "sample_page c =
    (let i = (if c = [] then 0 else if c = [120] then 1 else 2)
     in Inr \<lparr>lr_items = take 1 (drop i [sample_entry 120, sample_entry 121]), lr_more = (i < 1)\<rparr>)"

theorem listing_reads_all_witness:
  "\<exists>st objs. list_objects_start (\<lambda>_. []) toy_crypto clear_store [98] sample_listing_opts = Inr st \<and>
    drain (list_next (convert_list_item (\<lambda>_. []) (\<lambda>_. []) toy_crypto no_pb clear_store st) sample_page) st = Some (Inr objs) \<and>
    map ob_key objs = [[97, slash, 120], [97, slash, 121]]"
proof -
  let ?start = "list_objects_start (\<lambda>_. []) toy_crypto clear_store [98] sample_listing_opts"
  let ?conv = "convert_list_item (\<lambda>_. []) (\<lambda>_. []) toy_crypto no_pb clear_store"
  have "case ?start of Inl _ \<Rightarrow> False | Inr st \<Rightarrow> ol_cursor st = [] \<and> lk_prefix (ol_codec st) = [97, slash] \<and> lk_path_cipher (ol_codec st) = NULL \<and>
      encrypt_iterator toy_crypto (new_iter [120]) (lk_path_cipher (ol_codec st)) (lk_parent_key (ol_codec st)) = Inr [120] \<and>
      encrypt_iterator toy_crypto (new_iter [121]) (lk_path_cipher (ol_codec st)) (lk_parent_key (ol_codec st)) = Inr [121]"
    by code_simp
  then obtain st where st: "?start = Inr st" "ol_cursor st = []" "lk_prefix (ol_codec st) = [97, slash]" "lk_path_cipher (ol_codec st) = NULL"
      "encrypt_iterator toy_crypto (new_iter [120]) (lk_path_cipher (ol_codec st)) (lk_parent_key (ol_codec st)) = Inr [120]"
      "encrypt_iterator toy_crypto (new_iter [121]) (lk_path_cipher (ol_codec st)) (lk_parent_key (ol_codec st)) = Inr [121]"
    by (auto split: sum.splits)
  have suite: "path_suite (lk_path_cipher (ol_codec st))" by (simp add: st(4) path_suite_def)
  have "\<exists>obj. ?conv st (sample_entry b) = Inr obj \<and> ob_key obj = [97, slash, b]"
    if "encrypt_iterator toy_crypto (new_iter [b]) (lk_path_cipher (ol_codec st)) (lk_parent_key (ol_codec st)) = Inr [b]" "b < 128" for b
  proof -
    have "utf8_valid [b]" using that(2) by (intro utf8_valid_ascii) simp
    from decode_key_round_trip[OF toy_crypto_ok suite this that(1)] show ?thesis
      by (simp add: convert_list_item_def sample_entry_def object_from_info_def object_from_proto_def Let_def st(3))
  qed
  from this[of 120] this[of 121] st(5,6)
  obtain a b where s: "?start = Inr st" "ol_cursor st = []" "?conv st (sample_entry 120) = Inr a" "?conv st (sample_entry 121) = Inr b"
      "ob_key a = [97, slash, 120]" "ob_key b = [97, slash, 121]" using st(1,2) by auto
  have l: "lists (page_items sample_page) oi_encrypted_object_key (ol_cursor st) (\<lambda>_. 1) [sample_entry 120, sample_entry 121]"
    by (auto simp: lists_def page_items_def page_at_def sample_page_def s(2) sample_entry_def less_Suc_eq numeral_2_eq_2)
  have "\<forall>item \<in> set [sample_entry 120, sample_entry 121]. \<forall>e. ?conv st item = Inl e \<longrightarrow> skippable_list_decrypt e" using s(3,4) by simp
  note r = conjunct1[OF listing_reads_all[OF toy_crypto_ok s(1) l this]]
  have "openable (?conv st) [sample_entry 120, sample_entry 121] = [a, b]" using s(3,4) by (simp add: openable_def)
  then show ?thesis using r s by (intro exI[of _ st] exI[of _ "[a, b]"]) simp
qed

end
