(* ===== verification/Object_Ops.thy ===== *)
theory Object_Ops
  imports Object_List
begin

text \<open>
  Operations on stored objects: copying and moving (\<open>crates/storj/src/objects.rs\<close>), replacing the custom metadata and
  listing the parts of a multipart upload (\<open>crates/storj/src/project.rs\<close>).  The satellite's answers are functions of the
  request; random keys and nonces are arguments.  The size of a part is a sum of unbounded integers; that of the code is an \<open>i64\<close>, which
  a satellite would overflow only by listing more than \<open>2 ^ 63\<close> bytes.

  Shown: a copied or moved object reads the same as the original, segment by segment, since every key was sealed again for the
  new path; new metadata replace the old ones and nothing else; a part is listed once, with the size and the
  entity tag of its segments.
\<close>

section \<open>The code\<close>

subsection \<open>Copying and moving\<close>

record EncryptedKeyAndNonce =
  ek_position :: "SegmentPosition option"
  ek_encrypted_key_nonce :: bytes
  ek_encrypted_key :: bytes

text \<open>The answers to \<open>BeginCopyObject\<close> and \<open>BeginMoveObject\<close>, and the requests that finish them, have the same fields.\<close>

record BeginTransfer =
  bt_stream_id :: bytes
  bt_encrypted_metadata_key_nonce :: bytes
  bt_encrypted_metadata_key :: bytes
  bt_segment_keys :: "EncryptedKeyAndNonce list"
  bt_encryption_parameters :: "(int \<times> int) option"

record FinishTransfer =
  ft_stream_id :: bytes
  ft_new_bucket :: bytes
  ft_new_encrypted_object_key :: bytes
  ft_new_encrypted_metadata_key_nonce :: bytes
  ft_new_encrypted_metadata_key :: bytes
  ft_new_segment_keys :: "EncryptedKeyAndNonce list"

definition prepare_copy_move :: "(ErrorKind \<Rightarrow> string) \<Rightarrow> Crypto \<Rightarrow> Store \<Rightarrow> bytes \<Rightarrow> bytes \<Rightarrow> bytes \<Rightarrow> bytes \<Rightarrow>
    PublicError + (bytes \<times> bytes \<times> Key \<times> Key)" where
  "prepare_copy_move show_enc cr store src_bucket src_key dst_bucket dst_key =
    try_bind (require_bucket_name src_bucket) (\<lambda>_.
    try_bind (require_object_key src_key) (\<lambda>_.
    try_bind (require_bucket_name dst_bucket) (\<lambda>_.
    try_bind (require_object_key dst_key) (\<lambda>_.
    try_bind (map_err (map_enc show_enc) (encrypt_path cr src_bucket src_key store)) (\<lambda>src_enc.
    try_bind (map_err (map_enc show_enc) (encrypt_path cr dst_bucket dst_key store)) (\<lambda>dst_enc.
    try_bind (map_err (map_enc show_enc) (derive_content_key cr src_bucket src_key store)) (\<lambda>old_content.
    try_bind (map_err (map_enc show_enc) (derive_content_key cr dst_bucket dst_key store)) (\<lambda>new_content.
      Inr (src_enc, dst_enc, old_content, new_content)))))))))"

definition reencrypt_metadata_key :: "(UplinkError \<Rightarrow> PublicError) \<Rightarrow> Crypto \<Rightarrow> bytes \<Rightarrow> bytes \<Rightarrow> CipherSuite \<Rightarrow> Key \<Rightarrow> Key \<Rightarrow>
    PublicError + (bytes \<times> bytes)" where
  "reencrypt_metadata_key up cr encrypted_key encrypted_nonce suite old_content new_content =
    (if encrypted_key = [] then Inr ([], [])
     else try_bind (map_err up (nonce_from_slice encrypted_nonce)) (\<lambda>nonce.
       try_bind (map_err up (decrypt_key cr encrypted_key suite old_content nonce)) (\<lambda>meta_key.
       try_bind (map_err up (encrypt_key cr meta_key suite new_content nonce)) (\<lambda>new_enc.
         Inr (new_enc, nonce)))))"

text \<open>\<open>fresh i\<close> is the random nonce of the \<open>i\<close>th segment.\<close>

definition reencrypt_segment_key :: "(UplinkError \<Rightarrow> PublicError) \<Rightarrow> Crypto \<Rightarrow> CipherSuite \<Rightarrow> Key \<Rightarrow> Key \<Rightarrow> bytes \<Rightarrow> EncryptedKeyAndNonce \<Rightarrow>
    PublicError + EncryptedKeyAndNonce" where
  "reencrypt_segment_key up cr suite old_content new_content new_nonce old =
    try_bind (map_err up (nonce_from_slice (ek_encrypted_key_nonce old))) (\<lambda>nonce.
    try_bind (map_err up (decrypt_key cr (ek_encrypted_key old) suite old_content nonce)) (\<lambda>content.
    try_bind (map_err up (encrypt_key cr content suite new_content new_nonce)) (\<lambda>new_enc.
      Inr \<lparr>ek_position = ek_position old, ek_encrypted_key_nonce = new_nonce, ek_encrypted_key = new_enc\<rparr>)))"

definition reencrypt_segment_keys :: "(UplinkError \<Rightarrow> PublicError) \<Rightarrow> Crypto \<Rightarrow> (nat \<Rightarrow> bytes) \<Rightarrow> EncryptedKeyAndNonce list \<Rightarrow> CipherSuite \<Rightarrow> Key \<Rightarrow> Key \<Rightarrow>
    PublicError + EncryptedKeyAndNonce list" where
  "reencrypt_segment_keys up cr fresh keys suite old_content new_content =
    fold_result (\<lambda>old out. try_bind (reencrypt_segment_key up cr suite old_content new_content (fresh (length out)) old) (\<lambda>k. Inr (out @ [k]))) keys []"

text \<open>What copying and moving send to finish, from the answer to the first request.\<close>

definition finish_request :: "(UplinkError \<Rightarrow> PublicError) \<Rightarrow> Crypto \<Rightarrow> (nat \<Rightarrow> bytes) \<Rightarrow> bytes \<Rightarrow> bytes \<Rightarrow> Key \<Rightarrow> Key \<Rightarrow> BeginTransfer \<Rightarrow>
    PublicError + FinishTransfer" where
  "finish_request up cr fresh dst_bucket dst_enc old_content new_content begun =
    (let suite = fst (encryption_from_params (bt_encryption_parameters begun))
     in try_bind (reencrypt_metadata_key up cr (bt_encrypted_metadata_key begun) (bt_encrypted_metadata_key_nonce begun) suite old_content new_content)
          (\<lambda>(new_meta_key, new_meta_nonce).
        try_bind (reencrypt_segment_keys up cr fresh (bt_segment_keys begun) suite old_content new_content) (\<lambda>new_segment_keys.
          Inr \<lparr>ft_stream_id = bt_stream_id begun, ft_new_bucket = dst_bucket, ft_new_encrypted_object_key = dst_enc,
               ft_new_encrypted_metadata_key_nonce = new_meta_nonce, ft_new_encrypted_metadata_key = new_meta_key,
               ft_new_segment_keys = new_segment_keys\<rparr>)))"

definition copy_object :: "(ErrorKind \<Rightarrow> string) \<Rightarrow> (UplinkError \<Rightarrow> string) \<Rightarrow> Crypto \<Rightarrow> UserPb \<Rightarrow> Store \<Rightarrow> (bytes \<Rightarrow> bytes \<Rightarrow> PublicError + BeginTransfer) \<Rightarrow>
    (FinishTransfer \<Rightarrow> PublicError + PbObject option) \<Rightarrow> (nat \<Rightarrow> bytes) \<Rightarrow> bytes \<Rightarrow> bytes \<Rightarrow> bytes \<Rightarrow> bytes \<Rightarrow> PublicError + Object" where
  "copy_object show_enc show_up cr pb store begin_copy_object finish_copy_object fresh src_bucket src_key dst_bucket dst_key =
    try_bind (prepare_copy_move show_enc cr store src_bucket src_key dst_bucket dst_key) (\<lambda>(src_enc, dst_enc, old_content, new_content).
    try_bind (begin_copy_object src_enc dst_enc) (\<lambda>begun.
    try_bind (finish_request (map_uplink show_enc show_up) cr fresh dst_bucket dst_enc old_content new_content begun) (\<lambda>req.
    try_bind (finish_copy_object req) (\<lambda>finished.
    try_bind (ok_or (pe_new ProtocolKind ''FinishCopyObject returned no object'') finished) (\<lambda>ob.
      object_from_info show_enc show_up cr pb store ob dst_bucket dst_key False True True)))))"

definition move_object :: "(ErrorKind \<Rightarrow> string) \<Rightarrow> (UplinkError \<Rightarrow> string) \<Rightarrow> Crypto \<Rightarrow> Store \<Rightarrow> (bytes \<Rightarrow> bytes \<Rightarrow> PublicError + BeginTransfer) \<Rightarrow>
    (FinishTransfer \<Rightarrow> PublicError + unit) \<Rightarrow> (nat \<Rightarrow> bytes) \<Rightarrow> bytes \<Rightarrow> bytes \<Rightarrow> bytes \<Rightarrow> bytes \<Rightarrow> PublicError + unit" where
  "move_object show_enc show_up cr store begin_move_object finish_move_object fresh src_bucket src_key dst_bucket dst_key =
    try_bind (prepare_copy_move show_enc cr store src_bucket src_key dst_bucket dst_key) (\<lambda>(src_enc, dst_enc, old_content, new_content).
    try_bind (begin_move_object src_enc dst_enc) (\<lambda>begun.
    try_bind (finish_request (map_uplink show_enc show_up) cr fresh dst_bucket dst_enc old_content new_content begun) (\<lambda>req.
      finish_move_object req)))"

subsection \<open>Replacing the custom metadata\<close>

definition update_object_metadata :: "(ErrorKind \<Rightarrow> string) \<Rightarrow> (UplinkError \<Rightarrow> string) \<Rightarrow> (bytes \<Rightarrow> string) \<Rightarrow> Crypto \<Rightarrow> UserPb \<Rightarrow> Store \<Rightarrow> Key \<Rightarrow> bytes \<Rightarrow>
    (bytes \<Rightarrow> PublicError + PbObject option) \<Rightarrow> (bytes \<Rightarrow> bytes \<Rightarrow> EncryptedUserData \<Rightarrow> int \<times> bool \<Rightarrow> PublicError + unit) \<Rightarrow>
    bytes \<Rightarrow> bytes \<Rightarrow> (bytes \<times> bytes) list \<Rightarrow> PublicError + unit" where
  "update_object_metadata show_enc show_up show_key cr pb store random_key random_nonce found update bucket key metadata =
    (let up = map_uplink show_enc show_up
     in try_bind (require_bucket_name bucket) (\<lambda>_.
        try_bind (require_object_key key) (\<lambda>_.
        try_bind (verify_custom_metadata metadata) (\<lambda>_.
        try_bind (map_err (map_enc show_enc) (encrypt_path cr bucket key store)) (\<lambda>enc_path.
        try_bind (found enc_path) (\<lambda>resp.
        try_bind (ok_or (pe_new ObjectNotFound (''object not found ('' @ show_key key @ '')'')) resp) (\<lambda>ob.
        try_bind (map_err (map_enc show_enc) (derive_content_key cr bucket key store)) (\<lambda>ckey.
        let (suite, block) = encryption_from_params (po_encryption_parameters ob)
        in try_bind
          (if po_encrypted_metadata ob = [] then Inr (suite, block, 0, 0, 0)
           else try_bind (map_err up (decrypt_user_data_full cr pb (po_encrypted_metadata ob) (po_encrypted_metadata_encrypted_key ob)
                  (po_encrypted_metadata_nonce ob) suite ckey)) (\<lambda>(meta, info, _).
             Inr (if encryption_type meta \<noteq> 0 then CipherSuite (encryption_type meta) else suite,
                  if encryption_block_size meta > 0 then nat (encryption_block_size meta) else block,
                  segments_size info, last_segment_size info, number_of_segments meta)))
          (\<lambda>(suite, block, segment_size, last_size, segments).
           try_bind
             (if po_encrypted_checksum ob = [] then Inr None
              else try_bind (map_err up (decrypt_object_checksum cr (po_encrypted_checksum ob) (po_encrypted_metadata_encrypted_key ob)
                     (po_encrypted_metadata_nonce ob) suite ckey)) (\<lambda>c. Inr (Some c)))
             (\<lambda>object_checksum.
              try_bind (map_err up (encrypt_user_data cr pb random_key random_nonce metadata segment_size last_size segments suite ckey block object_checksum))
                (\<lambda>user. update enc_path (po_stream_id ob) user (po_checksum_algorithm ob, po_is_checksum_composite ob))))))))))))"

subsection \<open>The parts of a multipart upload\<close>

record Part =
  pt_part_number :: nat
  pt_size :: int
  pt_modified :: SystemTime
  pt_etag :: bytes

definition segment_list_order :: "SegmentListItem \<Rightarrow> int \<times> int" where
  "segment_list_order item = (case sli_position item of Some p \<Rightarrow> p | None \<Rightarrow> (0, 0))"

definition decrypt_part_etag :: "(UplinkError \<Rightarrow> PublicError) \<Rightarrow> Crypto \<Rightarrow> SegmentListItem \<Rightarrow> CipherSuite \<Rightarrow> Key \<Rightarrow> PublicError + bytes" where
  "decrypt_part_etag up cr item suite ckey =
    (if sli_encrypted_e_tag item = [] then Inr []
     else try_bind (map_err up (nonce_from_slice (sli_encrypted_key_nonce item))) (\<lambda>nonce.
       try_bind (map_err up (decrypt_key cr (sli_encrypted_key item) suite ckey nonce)) (\<lambda>seg_key.
         map_err up (decrypt_etag cr (sli_encrypted_e_tag item) suite seg_key))))"

text \<open>\<open>part_number as u32\<close>.\<close>

definition item_part :: "SegmentListItem \<Rightarrow> nat" where
  "item_part item = (case sli_position item of Some (part, _) \<Rightarrow> nat (part mod 2 ^ 32) | None \<Rightarrow> 0)"

definition add_to_parts :: "SegmentListItem \<Rightarrow> bytes \<Rightarrow> Part list \<Rightarrow> Part list" where
  "add_to_parts item tag parts =
    (if parts \<noteq> [] \<and> pt_part_number (last parts) = item_part item then
       butlast parts @
         [(last parts)\<lparr>pt_size := pt_size (last parts) + sli_plain_size item,
            pt_modified := (case sli_created_at item of Some t \<Rightarrow> proto_timestamp (Some t) | None \<Rightarrow> pt_modified (last parts)),
            pt_etag := (if tag \<noteq> [] then tag else pt_etag (last parts))\<rparr>]
     else parts @ [\<lparr>pt_part_number = item_part item, pt_size = sli_plain_size item, pt_modified = proto_timestamp (sli_created_at item), pt_etag = tag\<rparr>])"

definition list_parts_page :: "(ErrorKind \<Rightarrow> string) \<Rightarrow> (UplinkError \<Rightarrow> string) \<Rightarrow> Crypto \<Rightarrow> Store \<Rightarrow> (SegmentPosition option \<Rightarrow> PublicError + ListSegmentsResponse) \<Rightarrow>
    bytes \<Rightarrow> bytes \<Rightarrow> nat \<Rightarrow> (PublicError + Part list) option" where
  "list_parts_page show_enc show_up cr store page bucket key cursor =
    Option.bind (list_all_segments page) (\<lambda>listed. Some (
      try_bind listed (\<lambda>listed.
      let items = sort_key segment_list_order (sl_items (ls_list listed));
          suite = fst (encryption_from_params (ls_encryption_parameters listed))
      in try_bind (map_err (map_enc show_enc) (derive_content_key cr bucket key store)) (\<lambda>ckey.
         fold_result (\<lambda>item parts.
           if cursor \<noteq> 0 \<and> item_part item \<le> cursor then Inr parts
           else try_bind (decrypt_part_etag (map_uplink show_enc show_up) cr item suite ckey) (\<lambda>tag. Inr (add_to_parts item tag parts))) items []))))"

section \<open>Copies read the same\<close>

lemma fold_each:
  assumes "fold_result (\<lambda>x out. try_bind (f (length out) x) (\<lambda>k. Inr (out @ [k]))) xs acc = Inr out"
  shows "length out = length acc + length xs \<and> take (length acc) out = acc \<and> (\<forall>i < length xs. f (length acc + i) (xs ! i) = Inr (out ! (length acc + i)))"
  using assms
proof (induction xs arbitrary: acc)
  case (Cons x xs)
  then obtain k where k: "f (length acc) x = Inr k"
      "fold_result (\<lambda>x out. try_bind (f (length out) x) (\<lambda>k. Inr (out @ [k]))) xs (acc @ [k]) = Inr out"
    by (auto simp: result_simps)
  note IH = Cons.IH[OF k(2)]
  then have t: "take (length acc) out = acc" "out ! length acc = k" "length acc < length out"
    by (auto simp: take_Suc_conv_app_nth)
  have "f (length acc + i) ((x # xs) ! i) = Inr (out ! (length acc + i))" if "i < length (x # xs)" for i
    using that k(1) t(2) IH by (cases i) auto
  then show ?case using IH t(1) by auto
qed simp

text \<open>A key under its nonce, opened with a content key.\<close>

definition opens :: "Crypto \<Rightarrow> CipherSuite \<Rightarrow> Key \<Rightarrow> bytes \<Rightarrow> bytes \<Rightarrow> UplinkError + Key" where
  "opens cr suite ckey nonce enc = try_bind (nonce_from_slice nonce) (decrypt_key cr enc suite ckey)"

lemma nonce_from_slice_full: "length nonce = 24 \<Longrightarrow> nonce_from_slice nonce = Inr nonce"
  by (simp add: nonce_from_slice_def NONCE_SIZE_def)

lemma nonce_from_slice_length: "nonce_from_slice b = Inr nonce \<Longrightarrow> length nonce = 24"
  by (auto simp: nonce_from_slice_def NONCE_SIZE_def split: if_splits)

lemma decrypt_key_length: "decrypt_key cr enc suite parent nonce = Inr k \<Longrightarrow> length k = 32"
  by (auto simp: decrypt_key_def result_simps split: if_splits)

lemma sealed_again:
  assumes "crypto_ok cr" "nonce_from_slice nonce = Inr n" "decrypt_key cr enc suite old_content n = Inr k"
    "encrypt_key cr k suite new_content new_nonce = Inr new_enc" "length new_nonce = 24"
  shows "\<exists>k. opens cr suite old_content nonce enc = Inr k \<and> opens cr suite new_content new_nonce new_enc = Inr k"
proof -
  have "decrypt_key cr new_enc suite new_content new_nonce = Inr k"
    by (rule decrypt_key_ok[OF assms(1,4) decrypt_key_length[OF assms(3)] assms(5)])
  then show ?thesis using assms(2,3,5) by (simp add: opens_def nonce_from_slice_full)
qed

lemma reencrypt_segment_key_same:
  assumes "crypto_ok cr" "reencrypt_segment_key up cr suite old_content new_content new_nonce old = Inr new" "length new_nonce = 24"
  shows "ek_position new = ek_position old \<and> (\<exists>k. opens cr suite old_content (ek_encrypted_key_nonce old) (ek_encrypted_key old) = Inr k \<and>
    opens cr suite new_content (ek_encrypted_key_nonce new) (ek_encrypted_key new) = Inr k)"
proof -
  obtain n k new_enc where "nonce_from_slice (ek_encrypted_key_nonce old) = Inr n" "decrypt_key cr (ek_encrypted_key old) suite old_content n = Inr k"
      "encrypt_key cr k suite new_content new_nonce = Inr new_enc"
      and new: "new = \<lparr>ek_position = ek_position old, ek_encrypted_key_nonce = new_nonce, ek_encrypted_key = new_enc\<rparr>"
    using assms(2) by (auto simp: reencrypt_segment_key_def result_simps)
  from sealed_again[OF assms(1) this(1-3) assms(3)] show ?thesis by (simp add: new)
qed

lemma reencrypt_metadata_key_same:
  assumes "crypto_ok cr" "reencrypt_metadata_key up cr enc nonce suite old_content new_content = Inr (new_enc, new_nonce)" "enc \<noteq> []"
  shows "\<exists>k. opens cr suite old_content nonce enc = Inr k \<and> opens cr suite new_content new_nonce new_enc = Inr k"
proof -
  obtain n k where n: "nonce_from_slice nonce = Inr n" "decrypt_key cr enc suite old_content n = Inr k"
      "encrypt_key cr k suite new_content n = Inr new_enc" "new_nonce = n"
    using assms(2,3) by (auto simp: reencrypt_metadata_key_def result_simps)
  show ?thesis using sealed_again[OF assms(1) n(1-3) nonce_from_slice_length[OF n(1)]] n(4) by simp
qed

text \<open>A segment with another sealed key; whatever opens to the same key reads the same.\<close>

definition rekeyed :: "EncryptedKeyAndNonce \<Rightarrow> DownloadSegment \<Rightarrow> DownloadSegment" where
  "rekeyed k seg = seg\<lparr>ds_encrypted_key := ek_encrypted_key k, ds_encrypted_key_nonce := ek_encrypted_key_nonce k\<rparr>"

lemma rekeyed_sel:
  "ds_position (rekeyed k seg) = ds_position seg" "ds_plain_offset (rekeyed k seg) = ds_plain_offset seg" "ds_plain_size (rekeyed k seg) = ds_plain_size seg"
  "ds_encrypted_inline_data (rekeyed k seg) = ds_encrypted_inline_data seg" "ds_addressed_limits (rekeyed k seg) = ds_addressed_limits seg"
  "ds_segment_size (rekeyed k seg) = ds_segment_size seg" "ds_private_key (rekeyed k seg) = ds_private_key seg"
  "ds_redundancy_scheme (rekeyed k seg) = ds_redundancy_scheme seg"
  "ds_encrypted_key (rekeyed k seg) = ek_encrypted_key k" "ds_encrypted_key_nonce (rekeyed k seg) = ek_encrypted_key_nonce k"
  by (simp_all add: rekeyed_def)

lemma decrypt_remote_rekeyed:
  "decrypt_remote_segment show_enc show_up cr oc cpu net hedge_delay key suite block ls ll (rekeyed k seg) =
    decrypt_remote_segment show_enc show_up cr oc cpu net hedge_delay key suite block ls ll seg"
  unfolding decrypt_remote_segment_def rekeyed_sel ..

lemma opens_eq_Inr: "opens cr suite ckey nonce enc = Inr k \<longleftrightarrow> (\<exists>n. nonce_from_slice nonce = Inr n \<and> decrypt_key cr enc suite ckey n = Inr k)"
  by (auto simp: opens_def result_simps)

lemma same_key_reads_same:
  assumes "opens cr suite old_content (ek_encrypted_key_nonce old) (ek_encrypted_key old) = Inr k"
    "opens cr suite new_content (ek_encrypted_key_nonce new) (ek_encrypted_key new) = Inr k"
  shows "decrypt_one_segment show_enc show_up cr oc cpu net hedge_delay new_content suite block from len (rekeyed new seg) =
    decrypt_one_segment show_enc show_up cr oc cpu net hedge_delay old_content suite block from len (rekeyed old seg)"
proof -
  have e: "try_bind (map_err f (nonce_from_slice (ek_encrypted_key_nonce old))) (\<lambda>n. map_err f (decrypt_key cr (ek_encrypted_key old) suite old_content n)) = Inr k"
    "try_bind (map_err f (nonce_from_slice (ek_encrypted_key_nonce new))) (\<lambda>n. map_err f (decrypt_key cr (ek_encrypted_key new) suite new_content n)) = Inr k"
    for f :: "UplinkError \<Rightarrow> PublicError" using assms by (auto simp: opens_eq_Inr)
  show ?thesis unfolding decrypt_one_segment_def rekeyed_sel decrypt_remote_rekeyed Let_def e ..
qed

lemma same_key_same_metadata:
  assumes "opens cr suite old_content nonce enc = Inr k" "opens cr suite new_content new_nonce new_enc = Inr k"
    "\<forall>m. stream_decode pb em = Some m \<longrightarrow> encryption_type m = 0 \<or> CipherSuite (encryption_type m) = suite"
  shows "decrypt_user_data cr pb em new_enc new_nonce suite new_content = decrypt_user_data cr pb em enc nonce suite old_content"
proof (cases "stream_decode pb em")
  case None
  then show ?thesis by (simp add: decrypt_user_data_def decrypt_user_data_full_def)
next
  case (Some m)
  then have "(if encryption_type m \<noteq> 0 then CipherSuite (encryption_type m) else suite) = suite" using assms(3) by auto
  then show ?thesis using assms(1,2) Some unfolding opens_eq_Inr by (auto simp: decrypt_user_data_def decrypt_user_data_full_def Let_def)
qed

text \<open>The keys that a request to finish carries open, under the new content key, what those of the answer opened under the old one.\<close>

lemma finish_request_same:
  assumes "crypto_ok cr" "\<forall>i. length (fresh i) = 24" "finish_request up cr fresh dst_bucket dst_enc old_content new_content begun = Inr req"
    "suite = fst (encryption_from_params (bt_encryption_parameters begun))"
  shows "length (ft_new_segment_keys req) = length (bt_segment_keys begun)"
    "i < length (bt_segment_keys begun) \<Longrightarrow> reencrypt_segment_key up cr suite old_content new_content (fresh i) (bt_segment_keys begun ! i) = Inr (ft_new_segment_keys req ! i)"
    "reencrypt_metadata_key up cr (bt_encrypted_metadata_key begun) (bt_encrypted_metadata_key_nonce begun) suite old_content new_content =
      Inr (ft_new_encrypted_metadata_key req, ft_new_encrypted_metadata_key_nonce req)"
    "ft_stream_id req = bt_stream_id begun" "ft_new_bucket req = dst_bucket" "ft_new_encrypted_object_key req = dst_enc"
proof -
  obtain mk mn ks where r: "reencrypt_metadata_key up cr (bt_encrypted_metadata_key begun) (bt_encrypted_metadata_key_nonce begun) suite old_content new_content = Inr (mk, mn)"
      "reencrypt_segment_keys up cr fresh (bt_segment_keys begun) suite old_content new_content = Inr ks"
      "req = \<lparr>ft_stream_id = bt_stream_id begun, ft_new_bucket = dst_bucket, ft_new_encrypted_object_key = dst_enc,
         ft_new_encrypted_metadata_key_nonce = mn, ft_new_encrypted_metadata_key = mk, ft_new_segment_keys = ks\<rparr>"
    using assms(3,4) by (auto simp: finish_request_def Let_def result_simps)
  note keys = fold_each[OF r(2)[unfolded reencrypt_segment_keys_def]]
  show "length (ft_new_segment_keys req) = length (bt_segment_keys begun)" using keys by (simp add: r(3))
  show "reencrypt_segment_key up cr suite old_content new_content (fresh i) (bt_segment_keys begun ! i) = Inr (ft_new_segment_keys req ! i)"
    if "i < length (bt_segment_keys begun)" using keys that by (simp add: r(3))
  show "reencrypt_metadata_key up cr (bt_encrypted_metadata_key begun) (bt_encrypted_metadata_key_nonce begun) suite old_content new_content =
      Inr (ft_new_encrypted_metadata_key req, ft_new_encrypted_metadata_key_nonce req)"
    "ft_stream_id req = bt_stream_id begun" "ft_new_bucket req = dst_bucket" "ft_new_encrypted_object_key req = dst_enc"
    using r(1) by (simp_all add: r(3))
qed

text \<open>
  C16: a copy or a move that succeeds has told the satellite to put the stream of the original under the encrypted new path, and every segment of it,
  opened with the content key of the new path and the key that was sent along, reads the same as the segment of the original did with the
  content key of the old path; so do the object's metadata, if it has any.
\<close>

theorem transferred_object_reads_the_same:
  assumes "crypto_ok cr" and "\<forall>i. length (fresh i) = 24"
    and "(\<exists>obj. copy_object show_enc show_up cr pb store start_call finish_copy fresh src_bucket src_key dst_bucket dst_key = Inr obj) \<or>
      move_object show_enc show_up cr store start_call finish_move fresh src_bucket src_key dst_bucket dst_key = Inr ()"
  shows "\<exists>src_enc dst_enc old_content new_content begun req.
    prepare_copy_move show_enc cr store src_bucket src_key dst_bucket dst_key = Inr (src_enc, dst_enc, old_content, new_content) \<and>
    start_call src_enc dst_enc = Inr begun \<and> ((\<exists>ob. finish_copy req = Inr (Some ob)) \<or> finish_move req = Inr ()) \<and>
    ft_stream_id req = bt_stream_id begun \<and> ft_new_bucket req = dst_bucket \<and> ft_new_encrypted_object_key req = dst_enc \<and>
    length (ft_new_segment_keys req) = length (bt_segment_keys begun) \<and>
    (let suite = fst (encryption_from_params (bt_encryption_parameters begun))
     in (\<forall>i < length (bt_segment_keys begun). ek_position (ft_new_segment_keys req ! i) = ek_position (bt_segment_keys begun ! i) \<and>
          (\<forall>oc cpu net hedge_delay block from len seg.
            decrypt_one_segment show_enc show_up cr oc cpu net hedge_delay new_content suite block from len (rekeyed (ft_new_segment_keys req ! i) seg) =
            decrypt_one_segment show_enc show_up cr oc cpu net hedge_delay old_content suite block from len (rekeyed (bt_segment_keys begun ! i) seg))) \<and>
        (\<forall>em. bt_encrypted_metadata_key begun \<noteq> [] \<longrightarrow>
          (\<forall>m. stream_decode pb em = Some m \<longrightarrow> encryption_type m = 0 \<or> CipherSuite (encryption_type m) = suite) \<longrightarrow>
          decrypt_user_data cr pb em (ft_new_encrypted_metadata_key req) (ft_new_encrypted_metadata_key_nonce req) suite new_content =
          decrypt_user_data cr pb em (bt_encrypted_metadata_key begun) (bt_encrypted_metadata_key_nonce begun) suite old_content))"
proof -
  obtain src_enc dst_enc old_content new_content begun req where p:
      "prepare_copy_move show_enc cr store src_bucket src_key dst_bucket dst_key = Inr (src_enc, dst_enc, old_content, new_content)"
      "start_call src_enc dst_enc = Inr begun" "finish_request (map_uplink show_enc show_up) cr fresh dst_bucket dst_enc old_content new_content begun = Inr req"
      "(\<exists>ob. finish_copy req = Inr (Some ob)) \<or> finish_move req = Inr ()"
    using assms(3) by (auto simp: copy_object_def move_object_def result_simps ok_or_def split: option.splits)
  define suite where "suite = fst (encryption_from_params (bt_encryption_parameters begun))"
  note r = finish_request_same[OF assms(1,2) p(3) suite_def]
  have "ek_position (ft_new_segment_keys req ! i) = ek_position (bt_segment_keys begun ! i) \<and>
      (\<forall>oc cpu net hedge_delay block from len seg.
        decrypt_one_segment show_enc show_up cr oc cpu net hedge_delay new_content suite block from len (rekeyed (ft_new_segment_keys req ! i) seg) =
        decrypt_one_segment show_enc show_up cr oc cpu net hedge_delay old_content suite block from len (rekeyed (bt_segment_keys begun ! i) seg))"
    if "i < length (bt_segment_keys begun)" for i
    using reencrypt_segment_key_same[OF assms(1) r(2)[OF that]] assms(2) same_key_reads_same by blast
  moreover have "decrypt_user_data cr pb em (ft_new_encrypted_metadata_key req) (ft_new_encrypted_metadata_key_nonce req) suite new_content =
      decrypt_user_data cr pb em (bt_encrypted_metadata_key begun) (bt_encrypted_metadata_key_nonce begun) suite old_content"
    if "bt_encrypted_metadata_key begun \<noteq> []" "\<forall>m. stream_decode pb em = Some m \<longrightarrow> encryption_type m = 0 \<or> CipherSuite (encryption_type m) = suite" for em
    using reencrypt_metadata_key_same[OF assms(1) r(3) that(1)] same_key_same_metadata that(2) by blast
  ultimately show ?thesis using p r(1,4-6) unfolding suite_def Let_def by blast
qed

text \<open>An object of one segment, its keys sealed for the path it had.\<close>

definition sample_content_key :: "bytes \<Rightarrow> Key" where
  "sample_content_key key = (case derive_content_key toy_crypto [98] key clear_store of Inr k \<Rightarrow> k | Inl _ \<Rightarrow> [])"

definition sample_sealed :: "u8 \<Rightarrow> bytes" where
  "sample_sealed b = (case encrypt_key toy_crypto (replicate 32 b) AES_GCM (sample_content_key [107]) (replicate 24 3) of Inr c \<Rightarrow> c | Inl _ \<Rightarrow> [])"

definition sample_begun :: BeginTransfer where
  "sample_begun = \<lparr>bt_stream_id = [1], bt_encrypted_metadata_key_nonce = replicate 24 3, bt_encrypted_metadata_key = sample_sealed 5,
     bt_segment_keys = [\<lparr>ek_position = Some (0, 0), ek_encrypted_key_nonce = replicate 24 3, ek_encrypted_key = sample_sealed 6\<rparr>],
     bt_encryption_parameters = None\<rparr>"

theorem transferred_object_reads_the_same_witness:
  "\<exists>req :: FinishTransfer. length (ft_new_segment_keys req) = 1 \<and> ft_stream_id req = [1] \<and> ft_new_bucket req = [99] \<and>
    move_object (\<lambda>_. []) (\<lambda>_. []) toy_crypto clear_store (\<lambda>_ _. Inr sample_begun) (\<lambda>_. Inr ()) (\<lambda>_. replicate 24 9) [98] [107] [99] [108] = Inr ()"
proof -
  have w: "move_object (\<lambda>_. []) (\<lambda>_. []) toy_crypto clear_store (\<lambda>_ _. Inr sample_begun) (\<lambda>_. Inr ()) (\<lambda>_. replicate 24 9) [98] [107] [99] [108] = Inr ()"
    by code_simp
  have "\<forall>i :: nat. length (replicate 24 9 :: bytes) = 24" by simp
  from transferred_object_reads_the_same[OF toy_crypto_ok this disjI2[OF w], of "\<lambda>_. Inl (pe_new IoKind [])" no_pb]
  obtain begun and req :: FinishTransfer where "(Inr sample_begun :: PublicError + BeginTransfer) = Inr begun"
      "ft_stream_id req = bt_stream_id begun" "ft_new_bucket req = [99]" "length (ft_new_segment_keys req) = length (bt_segment_keys begun)"
    by blast
  then have "length (ft_new_segment_keys req) = 1 \<and> ft_stream_id req = [1] \<and> ft_new_bucket req = [99]" by (auto simp: sample_begun_def)
  then show ?thesis using w by blast
qed

section \<open>New metadata\<close>

text \<open>
  C17: replacing the custom metadata of an object: what the satellite is told to store under the object's path and stream opens with the content key to exactly the new
  metadata, with the sizes, the number of segments, the cipher and the checksum that the object had.
\<close>

theorem new_metadata_keep_the_object:
  assumes "crypto_ok cr" and "user_pb_ok pb" and "length random_key = 32" and "length random_nonce = 24" and "distinct (map fst metadata)"
    and "update_object_metadata show_enc show_up show_key cr pb store random_key random_nonce found update bucket key metadata = Inr ()"
    and "encrypt_path cr bucket key store = Inr enc_path" and "derive_content_key cr bucket key store = Inr ckey"
    and "found enc_path = Inr (Some ob)" and "po_encrypted_metadata ob \<noteq> []"
    and "decrypt_user_data_full cr pb (po_encrypted_metadata ob) (po_encrypted_metadata_encrypted_key ob) (po_encrypted_metadata_nonce ob)
      (fst (encryption_from_params (po_encryption_parameters ob))) ckey = Inr (meta, info, old_custom)"
    and "encryption_type meta \<noteq> 0" and "fits_i32 (encryption_type meta)"
    and "fits_i64 (segments_size info)" and "fits_i64 (last_segment_size info)" and "fits_i64 (number_of_segments meta)"
  shows "\<exists>ud meta' info' m. update enc_path (po_stream_id ob) ud (po_checksum_algorithm ob, po_is_checksum_composite ob) = Inr () \<and>
    decrypt_user_data_full cr pb (encrypted_metadata ud) (encrypted_metadata_encrypted_key ud) (encrypted_metadata_nonce ud)
      (fst (encryption_from_params (po_encryption_parameters ob))) ckey = Inr (meta', info', m) \<and>
    map_of m = map_of metadata \<and> segments_size info' = segments_size info \<and> last_segment_size info' = last_segment_size info \<and>
    number_of_segments meta' = number_of_segments meta \<and> encryption_type meta' = encryption_type meta \<and>
    (if po_encrypted_checksum ob = [] then encrypted_checksum ud = []
     else decrypt_object_checksum cr (encrypted_checksum ud) (encrypted_metadata_encrypted_key ud) (encrypted_metadata_nonce ud) (CipherSuite (encryption_type meta)) ckey =
       decrypt_object_checksum cr (po_encrypted_checksum ob) (po_encrypted_metadata_encrypted_key ob) (po_encrypted_metadata_nonce ob)
         (CipherSuite (encryption_type meta)) ckey)"
proof -
  let ?suite = "CipherSuite (encryption_type meta)" and ?sum = "\<lambda>enc key nonce. decrypt_object_checksum cr enc key nonce (CipherSuite (encryption_type meta)) ckey"
  let ?old = "?sum (po_encrypted_checksum ob) (po_encrypted_metadata_encrypted_key ob) (po_encrypted_metadata_nonce ob)"
  obtain block cs ud where ud: "encrypt_user_data cr pb random_key random_nonce metadata (segments_size info) (last_segment_size info) (number_of_segments meta)
      ?suite ckey block cs = Inr ud"
      "update enc_path (po_stream_id ob) ud (po_checksum_algorithm ob, po_is_checksum_composite ob) = Inr ()"
      "if po_encrypted_checksum ob = [] then cs = None else cs \<noteq> None \<and> ?old = Inr (the cs)"
    using assms(6) unfolding update_object_metadata_def Let_def
    by (auto simp: assms(7-12) result_simps case_prod_unfold split: if_splits)
  have fits: "fits_i32 (suite_code ?suite)" using assms(13) by simp
  obtain meta' info' m where o: "decrypt_user_data_full cr pb (encrypted_metadata ud) (encrypted_metadata_encrypted_key ud) (encrypted_metadata_nonce ud)
        (fst (encryption_from_params (po_encryption_parameters ob))) ckey = Inr (meta', info', m)"
      "map_of m = map_of (rev metadata)" "segments_size info' = segments_size info" "last_segment_size info' = last_segment_size info"
      "number_of_segments meta' = number_of_segments meta" "CipherSuite (encryption_type meta') = ?suite"
      "cs \<noteq> None \<longrightarrow> ?sum (encrypted_checksum ud) (encrypted_metadata_encrypted_key ud) (encrypted_metadata_nonce ud) = Inr (the cs)"
    using user_data_opens[OF assms(1-4) fits assms(14-16) ud(1)] by blast
  have "map_of (rev metadata) = map_of metadata" using assms(5) by (intro map_of_inject_set[THEN iffD2]) (simp_all add: rev_map[symmetric])
  moreover have "po_encrypted_checksum ob = [] \<Longrightarrow> encrypted_checksum ud = []"
    using ud(1,3) by (auto simp: encrypt_user_data_def Let_def result_simps)
  ultimately show ?thesis using o ud(2,3) by (intro exI[of _ ud] exI[of _ meta'] exI[of _ info'] exI[of _ m]) (auto split: if_splits)
qed

text \<open>An object with metadata, sizes and a checksum gets other metadata.\<close>

definition meta_pb :: UserPb where
  "meta_pb = toy_user_pb\<lparr>stream_encode := (\<lambda>x. 0 # stream_encode toy_user_pb x), stream_decode := (\<lambda>d. stream_decode toy_user_pb (tl d))\<rparr>"

lemma meta_pb_ok: "user_pb_ok meta_pb"
  using toy_user_pb_ok by (simp add: user_pb_ok_def meta_pb_def)

lemma toy_user_data: "length nonce = 24 \<Longrightarrow> \<exists>ud. encrypt_user_data toy_crypto pb key nonce metadata a b c AES_GCM ckey block cs = Inr ud"
proof -
  assume n: "length nonce = 24"
  have "\<exists>c. encrypt toy_crypto dat AES_GCM k nonce = Inr c" "\<exists>c. encrypt toy_crypto dat AES_GCM k ZERO_NONCE = Inr c"
    "\<exists>c. encrypt toy_crypto dat AES_GCM k CHECKSUM_NONCE = Inr c" "encrypt toy_crypto [] AES_GCM k ETAG_NONCE = Inr []" for dat k
    using n by (simp_all add: encrypt_def aesgcm_encrypt_def to_aes_gcm_nonce_def AES_GCM_NONCE_SIZE_def toy_crypto_def toy_aead_def
        CHECKSUM_NONCE_def user_data_nonce_def ZERO_NONCE_def)
  then show ?thesis unfolding encrypt_user_data_def encrypt_key_def Let_def by (cases cs; simp only: option.case) (metis map_err_simps(2) try_bind_simps(2))+
qed

definition described :: "EncryptedUserData \<Rightarrow> PbObject" where
  "described ud = \<lparr>po_bucket = [98], po_status = 3, po_version = [], po_stream_id = [1], po_created_at = None, po_expires_at = None, po_plain_size = 74,
     po_encrypted_metadata = encrypted_metadata ud, po_encrypted_metadata_encrypted_key = encrypted_metadata_encrypted_key ud,
     po_encrypted_metadata_nonce = encrypted_metadata_nonce ud, po_encryption_parameters = None, po_checksum_algorithm = 1,
     po_is_checksum_composite = False, po_encrypted_checksum = encrypted_checksum ud\<rparr>"

theorem new_metadata_keep_the_object_witness:
  "\<exists>ob (ud :: EncryptedUserData) meta info m ckey. derive_content_key toy_crypto [98] [107] clear_store = Inr ckey \<and>
    update_object_metadata (\<lambda>_. []) (\<lambda>_. []) (\<lambda>_. []) toy_crypto meta_pb clear_store (replicate 32 5) (replicate 24 6) (\<lambda>_. Inr (Some ob)) (\<lambda>_ _ _ _. Inr ())
      [98] [107] [([97], [2])] = Inr () \<and>
    decrypt_user_data_full toy_crypto meta_pb (encrypted_metadata ud) (encrypted_metadata_encrypted_key ud) (encrypted_metadata_nonce ud) AES_GCM ckey = Inr (meta, info, m) \<and>
    map_of m = [[97] \<mapsto> [2]] \<and> segments_size info = 64 \<and> last_segment_size info = 10 \<and> number_of_segments meta = 2"
proof -
  have k: "case derive_content_key toy_crypto [98] [107] clear_store of Inr _ \<Rightarrow> True | Inl _ \<Rightarrow> False"
    "case encrypt_path toy_crypto [98] [107] clear_store of Inr _ \<Rightarrow> True | Inl _ \<Rightarrow> False"
    and v: "require_bucket_name [98] = Inr ()" "require_object_key [107] = Inr ()" "verify_custom_metadata [([97], [2])] = Inr ()" by code_simp+
  then obtain ckey path where ck: "derive_content_key toy_crypto [98] [107] clear_store = Inr ckey" "encrypt_path toy_crypto [98] [107] clear_store = Inr path"
    by (auto split: sum.splits)
  obtain ud0 where ud0: "encrypt_user_data toy_crypto meta_pb (replicate 32 5) (replicate 24 6) [([97], [1])] 64 10 2 AES_GCM ckey 0 (Some [3]) = Inr ud0"
    using toy_user_data[of "replicate 24 6" meta_pb "replicate 32 5" "[([97], [1])]" 64 10 2 ckey 0 "Some [3]"] by auto
  have p: "fst (encryption_from_params (po_encryption_parameters (described ud0))) = AES_GCM" "po_encrypted_metadata (described ud0) \<noteq> []"
    using ud0 by (auto simp: described_def encryption_from_params_def encrypt_user_data_def Let_def result_simps meta_pb_def)
  obtain meta info m where o: "decrypt_user_data_full toy_crypto meta_pb (encrypted_metadata ud0) (encrypted_metadata_encrypted_key ud0) (encrypted_metadata_nonce ud0)
        AES_GCM ckey = Inr (meta, info, m)" "segments_size info = 64" "last_segment_size info = 10" "number_of_segments meta = 2"
      "CipherSuite (encryption_type meta) = AES_GCM"
      "decrypt_object_checksum toy_crypto (encrypted_checksum ud0) (encrypted_metadata_encrypted_key ud0) (encrypted_metadata_nonce ud0) AES_GCM ckey = Inr [3]"
    using user_data_opens[OF toy_crypto_ok meta_pb_ok _ _ _ _ _ _ ud0, of AES_GCM] by (auto simp: AES_GCM_def)
  have t: "encryption_type meta = 2" using o(5) by (simp add: AES_GCM_def)
  have "\<exists>f. \<forall>block cs. encrypt_user_data toy_crypto meta_pb (replicate 32 5) (replicate 24 6) [([97], [2])] 64 10 2 AES_GCM ckey block cs = Inr (f block cs)"
    using toy_user_data[of "replicate 24 6" meta_pb "replicate 32 5" "[([97], [2])]" 64 10 2 ckey] by (intro choice allI) (metis length_replicate)
  then obtain f where f: "encrypt_user_data toy_crypto meta_pb (replicate 32 5) (replicate 24 6) [([97], [2])] 64 10 2 AES_GCM ckey block cs = Inr (f block cs)" for block cs
    by blast
  have up: "update_object_metadata (\<lambda>_. []) (\<lambda>_. []) (\<lambda>_. []) toy_crypto meta_pb clear_store (replicate 32 5) (replicate 24 6) (\<lambda>_. Inr (Some (described ud0)))
      (\<lambda>_ _ _ _. Inr ()) [98] [107] [([97], [2])] = Inr ()"
    unfolding update_object_metadata_def Let_def using p o v
    by (simp add: ck t case_prod_unfold described_def f)
  have "po_encrypted_metadata_encrypted_key (described ud0) = encrypted_metadata_encrypted_key ud0" "po_encrypted_metadata (described ud0) = encrypted_metadata ud0"
    "po_encrypted_metadata_nonce (described ud0) = encrypted_metadata_nonce ud0" by (simp_all add: described_def)
  note r = new_metadata_keep_the_object[OF toy_crypto_ok meta_pb_ok _ _ _ up ck(2,1) refl p(2), unfolded p(1) this, OF _ _ _ o(1)]
  obtain ud :: EncryptedUserData and meta' info' m' where "decrypt_user_data_full toy_crypto meta_pb (encrypted_metadata ud) (encrypted_metadata_encrypted_key ud) (encrypted_metadata_nonce ud)
      AES_GCM ckey = Inr (meta', info', m')" "map_of m' = map_of [([97], [2])]" "segments_size info' = segments_size info"
      "last_segment_size info' = last_segment_size info" "number_of_segments meta' = number_of_segments meta"
    using r by (auto simp: t o(2-4))
  then show ?thesis using ck(1) up o(2-4) by (intro exI conjI) auto
qed

section \<open>Parts\<close>

text \<open>The segments of a part, and what the listing has to say of them; \<open>tag_of\<close> is a segment's entity tag.\<close>

definition of_part :: "nat \<Rightarrow> SegmentListItem list \<Rightarrow> SegmentListItem list" where
  "of_part n items = filter (\<lambda>item. item_part item = n) items"

definition last_tag :: "(SegmentListItem \<Rightarrow> bytes) \<Rightarrow> SegmentListItem list \<Rightarrow> bytes" where
  "last_tag tag_of items = last ([] # filter (\<lambda>t. t \<noteq> []) (map tag_of items))"

definition parts_of :: "(SegmentListItem \<Rightarrow> bytes) \<Rightarrow> nat \<Rightarrow> SegmentListItem list \<Rightarrow> Part list \<Rightarrow> bool" where
  "parts_of tag_of cursor items parts \<longleftrightarrow>
    sorted_wrt (<) (map pt_part_number parts) \<and>
    set (map pt_part_number parts) = {n \<in> item_part ` set items. cursor = 0 \<or> cursor < n} \<and>
    (\<forall>part \<in> set parts. pt_size part = sum_list (map sli_plain_size (of_part (pt_part_number part) items)) \<and>
      pt_etag part = last_tag tag_of (of_part (pt_part_number part) items))"

lemma of_part_snoc: "of_part n (items @ [item]) = of_part n items @ (if item_part item = n then [item] else [])"
  by (simp add: of_part_def)

lemma last_tag_snoc: "last_tag tag_of (items @ [item]) = (if tag_of item \<noteq> [] then tag_of item else last_tag tag_of items)"
  by (simp add: last_tag_def)

lemma parts_of_skip:
  assumes "parts_of tag_of cursor items parts" "cursor \<noteq> 0" "item_part item \<le> cursor"
  shows "parts_of tag_of cursor (items @ [item]) parts"
proof -
  have "{n \<in> item_part ` set (items @ [item]). cursor = 0 \<or> cursor < n} = {n \<in> item_part ` set items. cursor = 0 \<or> cursor < n}" using assms(2,3) by auto
  moreover have "item_part item \<noteq> pt_part_number part" if "part \<in> set parts" for part
  proof -
    have "pt_part_number part \<in> set (map pt_part_number parts)" using that by simp
    then have "cursor < pt_part_number part" using assms(1,2) unfolding parts_of_def by blast
    then show ?thesis using assms(3) by simp
  qed
  ultimately show ?thesis using assms(1) by (simp add: parts_of_def of_part_snoc)
qed

lemma parts_of_add:
  assumes inv: "parts_of tag_of cursor items parts" and keep: "cursor = 0 \<or> cursor < item_part item" and sorted: "\<forall>x \<in> set items. item_part x \<le> item_part item"
  shows "parts_of tag_of cursor (items @ [item]) (add_to_parts item (tag_of item) parts)"
proof -
  let ?n = "item_part item"
  note I = inv[unfolded parts_of_def]
  have nums: "{n \<in> item_part ` set (items @ [item]). cursor = 0 \<or> cursor < n} = insert ?n {n \<in> item_part ` set items. cursor = 0 \<or> cursor < n}"
    using keep by auto
  have le: "pt_part_number part \<le> ?n" if "part \<in> set parts" for part
  proof -
    have "pt_part_number part \<in> set (map pt_part_number parts)" using that by simp
    then have "pt_part_number part \<in> item_part ` set items" using I by blast
    then show ?thesis using sorted by auto
  qed
  show ?thesis
  proof (cases "parts \<noteq> [] \<and> pt_part_number (last parts) = ?n")
    case True
    define init final where "init = butlast parts" and "final = last parts"
    have parts: "parts = init @ [final]" "pt_part_number final = ?n" using True by (simp_all add: init_def final_def)
    have other: "pt_part_number part \<noteq> ?n" if "part \<in> set init" for part
      using I that unfolding parts by (auto simp: sorted_wrt_append parts(2))
    have "?n \<in> {n \<in> item_part ` set items. cursor = 0 \<or> cursor < n}" using I parts by auto
    then have "insert ?n {n \<in> item_part ` set items. cursor = 0 \<or> cursor < n} = set (map pt_part_number parts)" using I by auto
    then show ?thesis using I True
      by (auto simp: add_to_parts_def parts parts_of_def nums of_part_snoc last_tag_snoc dest: other)
  next
    case False
    have new: "?n \<notin> set (map pt_part_number parts)"
    proof
      assume n: "?n \<in> set (map pt_part_number parts)"
      then obtain init final where parts: "parts = init @ [final]" by (cases parts rule: rev_cases) auto
      then obtain part where part: "part \<in> set init" "pt_part_number part = ?n" using n False by auto
      then have "?n < pt_part_number final" using I unfolding parts by (auto simp: sorted_wrt_append)
      then show False using le[of final] parts by simp
    qed
    then have "?n \<notin> item_part ` set items" using I keep by auto
    then have none: "of_part ?n items = []" unfolding of_part_def filter_empty_conv by (metis imageI)
    have less: "pt_part_number part < ?n" "pt_part_number part \<noteq> ?n" if "part \<in> set parts" for part
      using le[OF that] new that by (force simp: le_less)+
    define fresh_part where "fresh_part = \<lparr>pt_part_number = ?n, pt_size = sli_plain_size item, pt_modified = proto_timestamp (sli_created_at item), pt_etag = tag_of item\<rparr>"
    have "add_to_parts item (tag_of item) parts = parts @ [fresh_part]" using False by (auto simp: add_to_parts_def fresh_part_def)
    moreover have "sorted_wrt (<) (map pt_part_number (parts @ [fresh_part]))"
      using conjunct1[OF I] less(1) by (auto simp: sorted_wrt_append fresh_part_def)
    moreover have "set (map pt_part_number (parts @ [fresh_part])) = {n \<in> item_part ` set (items @ [item]). cursor = 0 \<or> cursor < n}"
      using I unfolding nums by (simp add: fresh_part_def)
    moreover have "pt_size part = sum_list (map sli_plain_size (of_part (pt_part_number part) (items @ [item]))) \<and>
        pt_etag part = last_tag tag_of (of_part (pt_part_number part) (items @ [item]))" if "part \<in> set (parts @ [fresh_part])" for part
    proof (cases "part \<in> set parts")
      case True
      then show ?thesis using I less(2)[OF True, symmetric] by (simp add: of_part_snoc)
    next
      case False
      then have "part = fresh_part" using that by simp
      then show ?thesis by (simp add: of_part_snoc none fresh_part_def last_tag_def)
    qed
    ultimately show ?thesis unfolding parts_of_def by simp
  qed
qed

lemma parts_fold:
  assumes "fold_result (\<lambda>item parts. if cursor \<noteq> 0 \<and> item_part item \<le> cursor then Inr parts
      else try_bind (etag_of item) (\<lambda>tag. Inr (add_to_parts item tag parts))) items parts0 = Inr parts"
    "parts_of tag_of cursor seen parts0" "sorted (map item_part (seen @ items))" "\<And>item tag. etag_of item = Inr tag \<Longrightarrow> tag_of item = tag"
  shows "parts_of tag_of cursor (seen @ items) parts"
  using assms(1-3)
proof (induction items arbitrary: seen parts0)
  case (Cons item items)
  let ?step = "if cursor \<noteq> 0 \<and> item_part item \<le> cursor then Inr parts0 else try_bind (etag_of item) (\<lambda>tag. Inr (add_to_parts item tag parts0))"
  obtain parts1 where p: "?step = Inr parts1" using Cons.prems(1) by (cases ?step) auto
  have before: "\<forall>x \<in> set seen. item_part x \<le> item_part item" using Cons.prems(3) by (simp add: sorted_append)
  have "parts_of tag_of cursor (seen @ [item]) parts1"
  proof (cases "cursor \<noteq> 0 \<and> item_part item \<le> cursor")
    case True
    then show ?thesis using p parts_of_skip[OF Cons.prems(2)] by simp
  next
    case False
    then obtain tag where tag: "etag_of item = Inr tag" "parts1 = add_to_parts item tag parts0" using p by (auto simp: result_simps)
    then show ?thesis using parts_of_add[OF Cons.prems(2) _ before] False assms(4)[OF tag(1)] by auto
  qed
  then have "parts_of tag_of cursor ((seen @ [item]) @ items) parts" using Cons.prems p by (intro Cons.IH) auto
  then show ?case by simp
qed simp

lemma item_part_mono:
  assumes "sorted (map segment_list_order items)" "\<forall>item \<in> set items. 0 \<le> fst (segment_list_order item) \<and> fst (segment_list_order item) < 2 ^ 31"
  shows "sorted (map item_part items)"
proof -
  have "item_part item = nat (fst (segment_list_order item))" if "item \<in> set items" for item
    using assms(2) that by (auto simp: item_part_def segment_list_order_def split: option.splits prod.splits)
  then have "map item_part items = map (\<lambda>item. nat (fst (segment_list_order item))) items" by simp
  moreover have "sorted (map (\<lambda>item. nat (fst (segment_list_order item))) items)"
    using assms(1) by (auto simp: sorted_wrt_map elim!: sorted_wrt_mono_rel[rotated]) (auto simp: less_eq_prod_def)
  ultimately show ?thesis by (simp only:)
qed

text \<open>
  C18: the parts of a multipart upload are listed in increasing order, each once, exactly those after the cursor that have a segment; the size of a part is the sum of
  the sizes of its segments, and its entity tag is the last one that a segment of it carries.
\<close>

theorem parts_are_listed:
  assumes "list_all_segments page = Some (Inr listed)"
    and "\<forall>item \<in> set (sl_items (ls_list listed)). 0 \<le> fst (segment_list_order item) \<and> fst (segment_list_order item) < 2 ^ 31"
    and "derive_content_key cr bucket key store = Inr ckey"
    and "list_parts_page show_enc show_up cr store page bucket key cursor = Some (Inr parts)"
    and "tag_of = (\<lambda>item. case decrypt_part_etag (map_uplink show_enc show_up) cr item (fst (encryption_from_params (ls_encryption_parameters listed))) ckey of
      Inr tag \<Rightarrow> tag | Inl _ \<Rightarrow> [])"
  shows "let items = sort_key segment_list_order (sl_items (ls_list listed))
    in sorted_wrt (<) (map pt_part_number parts) \<and>
      set (map pt_part_number parts) = {n \<in> item_part ` set items. cursor = 0 \<or> cursor < n} \<and>
      (\<forall>part \<in> set parts. pt_size part = sum_list (map sli_plain_size (of_part (pt_part_number part) items)) \<and>
        pt_etag part = last_tag tag_of (of_part (pt_part_number part) items))"
proof -
  let ?items = "sort_key segment_list_order (sl_items (ls_list listed))" and ?suite = "fst (encryption_from_params (ls_encryption_parameters listed))"
  have "fold_result (\<lambda>item parts. if cursor \<noteq> 0 \<and> item_part item \<le> cursor then Inr parts
      else try_bind (decrypt_part_etag (map_uplink show_enc show_up) cr item ?suite ckey) (\<lambda>tag. Inr (add_to_parts item tag parts))) ?items [] = Inr parts"
    using assms(4) by (simp add: list_parts_page_def assms(1,3) Let_def)
  moreover have "parts_of tag_of cursor [] []" by (simp add: parts_of_def)
  moreover have "sorted (map item_part ([] @ ?items))" using assms(2) by (simp add: item_part_mono)
  ultimately have "parts_of tag_of cursor ([] @ ?items) parts" by (rule parts_fold) (simp add: assms(5))
  then show ?thesis by (simp add: parts_of_def)
qed

text \<open>Two segments of part 1 and one of part 2, in pages of one.\<close>

definition sample_part_item :: "int \<Rightarrow> int \<Rightarrow> int \<Rightarrow> SegmentListItem" where
  "sample_part_item part index len = \<lparr>sli_position = Some (part, index), sli_plain_size = len, sli_plain_offset = 0, sli_created_at = None,
     sli_encrypted_e_tag = [], sli_encrypted_key_nonce = [], sli_encrypted_key = []\<rparr>"

definition sample_parts_page :: "SegmentPosition option \<Rightarrow> PublicError + ListSegmentsResponse" where
  "sample_parts_page p = Inr (if p = None
     then \<lparr>ls_list = \<lparr>sl_items = [sample_part_item 2 0 5, sample_part_item 1 0 3], sl_more = True\<rparr>, ls_encryption_parameters = None\<rparr>
     else \<lparr>ls_list = \<lparr>sl_items = [sample_part_item 1 1 4], sl_more = False\<rparr>, ls_encryption_parameters = None\<rparr>)"

theorem parts_are_listed_witness:
  "\<exists>parts. list_parts_page (\<lambda>_. []) (\<lambda>_. []) toy_crypto clear_store sample_parts_page [98] [107] 0 = Some (Inr parts) \<and>
    sorted_wrt (<) (map pt_part_number parts) \<and> set (map pt_part_number parts) = {1, 2} \<and> (\<forall>part \<in> set parts. pt_part_number part = 1 \<longrightarrow> pt_size part = 7)"
proof -
  let ?listed = "\<lparr>ls_list = \<lparr>sl_items = [sample_part_item 2 0 5, sample_part_item 1 0 3, sample_part_item 1 1 4], sl_more = False\<rparr>, ls_encryption_parameters = None\<rparr>"
  have l: "list_all_segments sample_parts_page = Some (Inr ?listed)"
    by (simp add: list_all_segments_def list_pages.simps sample_parts_page_def list_cursor_def sample_part_item_def)
  have s: "sort_key segment_list_order (sl_items (ls_list ?listed)) = [sample_part_item 1 0 3, sample_part_item 1 1 4, sample_part_item 2 0 5]"
    by (simp add: segment_list_order_def sample_part_item_def less_eq_prod_def)
  have "case derive_content_key toy_crypto [98] [107] clear_store of Inr _ \<Rightarrow> True | Inl _ \<Rightarrow> False" by code_simp
  then obtain ckey where ck: "derive_content_key toy_crypto [98] [107] clear_store = Inr ckey" by (auto split: sum.splits)
  have "\<exists>parts. list_parts_page (\<lambda>_. []) (\<lambda>_. []) toy_crypto clear_store sample_parts_page [98] [107] 0 = Some (Inr parts)"
    unfolding list_parts_page_def l by (simp add: Let_def s[simplified] ck decrypt_part_etag_def sample_part_item_def)
  then obtain parts where p: "list_parts_page (\<lambda>_. []) (\<lambda>_. []) toy_crypto clear_store sample_parts_page [98] [107] 0 = Some (Inr parts)" by blast
  have bounds: "\<forall>item \<in> set (sl_items (ls_list ?listed)). 0 \<le> fst (segment_list_order item) \<and> fst (segment_list_order item) < 2 ^ 31"
    by (simp add: segment_list_order_def sample_part_item_def)
  have n: "item_part (sample_part_item 1 0 3) = 1" "item_part (sample_part_item 1 1 4) = 1" "item_part (sample_part_item 2 0 5) = 2"
    by (simp_all add: item_part_def sample_part_item_def)
  have size: "sli_plain_size (sample_part_item part index len) = len" for part index len by (simp add: sample_part_item_def)
  from parts_are_listed[OF l bounds ck p refl, unfolded s Let_def] show ?thesis
    by (intro exI[of _ parts]) (auto simp: p n size of_part_def)
qed

end
