(* ===== verification/Listings.thy ===== *)
theory Listings
  imports Object_List
begin

text \<open>
  The listings of buckets (\<open>crates/storj/src/bucket.rs\<close>) and of uploads that are not committed
  (\<open>crates/storj/src/project.rs\<close>), as streams over the satellite's pages: three more interpretations of \<open>paged_stream\<close>.

  Shown: each gives every entry of the satellite's list, once and in order; an upload that is listed is named by an identifier from which the
  stream it was begun with is read back.
\<close>

section \<open>The code\<close>

subsection \<open>Buckets\<close>

record BucketListState =
  bl_cursor :: bytes
  bl_pending :: "Bucket list"
  bl_done :: bool

text \<open>\<open>answer\<close> is the satellite's page after a cursor.\<close>

definition list_buckets_page :: "(bytes \<Rightarrow> PublicError + (PbBucket list \<times> bool)) \<Rightarrow> bytes \<Rightarrow> PublicError + (Bucket list \<times> bool)" where
  "list_buckets_page answer cursor =
    try_bind (answer cursor) (\<lambda>(items, further).
    try_bind (fold_result (\<lambda>item out. try_bind (bucket_from_list_item item) (\<lambda>b. Inr (out @ [b]))) items []) (\<lambda>buckets.
      Inr (buckets, further)))"

definition list_buckets :: "bytes option \<Rightarrow> BucketListState" where
  "list_buckets cursor = \<lparr>bl_cursor = (case cursor of Some c \<Rightarrow> c | None \<Rightarrow> []), bl_pending = [], bl_done = False\<rparr>"

partial_function (option) bucket_next :: "(bytes \<Rightarrow> PublicError + (Bucket list \<times> bool)) \<Rightarrow> BucketListState \<Rightarrow> (PublicError + (Bucket \<times> BucketListState) option) option" where
  "bucket_next page st =
    (case bl_pending st of
       b # rest \<Rightarrow> Some (Inr (Some (b, st\<lparr>bl_pending := rest\<rparr>)))
     | [] \<Rightarrow>
       if bl_done st then Some (Inr None)
       else case page (bl_cursor st) of
         Inl e \<Rightarrow> Some (Inl e)
       | Inr (items, further) \<Rightarrow>
         if items = [] then bucket_next page (st\<lparr>bl_done := True\<rparr>)
         else bucket_next page (st\<lparr>bl_cursor := bk_name (last items), bl_done := (\<not> further), bl_pending := items\<rparr>))"

subsection \<open>Uploads below a prefix\<close>

record UploadInfo =
  ui_key :: bytes
  ui_upload_id :: bytes
  ui_system :: SystemMetadata

record ListUploadsOptions =
  lu_prefix :: bytes
  lu_cursor :: bytes
  lu_recursive :: bool
  lu_system :: bool
  lu_custom :: bool

record ListUploadsState =
  us_codec :: ListKeyCodec
  us_cursor :: bytes
  us_pending :: "UploadInfo list"
  us_done :: bool

definition system_of_item :: "ObjectListItem \<Rightarrow> SystemMetadata" where
  "system_of_item item =
    \<lparr>sm_created = map_option (\<lambda>t. proto_timestamp (Some t)) (oi_created_at item),
     sm_expires = map_option (\<lambda>t. proto_timestamp (Some t)) (oi_expires_at item), sm_content_length = oi_plain_size item\<rparr>"

fun upload_entries :: "B58 \<Rightarrow> (bytes \<Rightarrow> PublicError + bytes) \<Rightarrow> ObjectListItem list \<Rightarrow> PublicError + UploadInfo list" where
  "upload_entries bc decode [] = Inr []"
| "upload_entries bc decode (item # items) =
    (if oi_status item = PREFIX_STATUS \<or> oi_stream_id item = [] then upload_entries bc decode items
     else case decode (oi_encrypted_object_key item) of
       Inl e \<Rightarrow> if skippable_list_decrypt e then upload_entries bc decode items else Inl e
     | Inr key \<Rightarrow>
       try_bind (upload_entries bc decode items) (\<lambda>out.
         Inr (\<lparr>ui_key = key, ui_upload_id = encode_upload_id bc (oi_stream_id item), ui_system = system_of_item item\<rparr> # out)))"

partial_function (option) upload_next :: "B58 \<Rightarrow> (ListKeyCodec \<Rightarrow> bytes \<Rightarrow> PublicError + bytes) \<Rightarrow> (bytes \<Rightarrow> PublicError + ListObjectsResponse) \<Rightarrow> ListUploadsState \<Rightarrow>
    (PublicError + (UploadInfo \<times> ListUploadsState) option) option" where
  "upload_next bc decode page st =
    (case us_pending st of
       info # rest \<Rightarrow> Some (Inr (Some (info, st\<lparr>us_pending := rest\<rparr>)))
     | [] \<Rightarrow>
       if us_done st then Some (Inr None)
       else case page (us_cursor st) of
         Inl e \<Rightarrow> Some (Inl e)
       | Inr pg \<Rightarrow>
         if lr_items pg = [] then upload_next bc decode page (st\<lparr>us_done := True\<rparr>)
         else case upload_entries bc (decode (us_codec st)) (lr_items pg) of
           Inl e \<Rightarrow> Some (Inl e)
         | Inr infos \<Rightarrow>
           upload_next bc decode page
             (st\<lparr>us_cursor := oi_encrypted_object_key (last (lr_items pg)), us_done := (\<not> lr_more pg), us_pending := infos\<rparr>))"

subsection \<open>Uploads of one key\<close>

record ListPendingStreamsState =
  ps_key :: bytes
  ps_enc_key :: bytes
  ps_cursor :: bytes
  ps_pending :: "UploadInfo list"
  ps_done :: bool
  ps_system :: bool

definition stream_entries :: "B58 \<Rightarrow> bytes \<Rightarrow> bool \<Rightarrow> ObjectListItem list \<Rightarrow> UploadInfo list" where
  "stream_entries bc key with_system items =
    map (\<lambda>item. \<lparr>ui_key = key, ui_upload_id = encode_upload_id bc (oi_stream_id item),
          ui_system = (if with_system then system_of_item item else default_system)\<rparr>)
      (filter (\<lambda>item. oi_stream_id item \<noteq> []) items)"

partial_function (option) stream_next :: "B58 \<Rightarrow> (bytes \<Rightarrow> PublicError + ListObjectsResponse) \<Rightarrow> ListPendingStreamsState \<Rightarrow>
    (PublicError + (UploadInfo \<times> ListPendingStreamsState) option) option" where
  "stream_next bc page st =
    (case ps_pending st of
       info # rest \<Rightarrow> Some (Inr (Some (info, st\<lparr>ps_pending := rest\<rparr>)))
     | [] \<Rightarrow>
       if ps_done st then Some (Inr None)
       else case page (ps_cursor st) of
         Inl e \<Rightarrow> Some (Inl e)
       | Inr pg \<Rightarrow>
         if lr_items pg = [] then stream_next bc page (st\<lparr>ps_done := True\<rparr>)
         else stream_next bc page
           (st\<lparr>ps_cursor := oi_stream_id (last (lr_items pg)), ps_done := (\<not> lr_more pg),
               ps_pending := stream_entries bc (ps_key st) (ps_system st) (lr_items pg)\<rparr>))"

text \<open>The wrapper of \<open>project.rs\<close>, and the choice between the two listings.\<close>

definition stream_of_upload :: "B58 \<Rightarrow> bytes \<Rightarrow> PublicError + bytes" where
  "stream_of_upload bc upload = map_err (\<lambda>_. pe_new UploadIdInvalid ''upload ID invalid'') (decode_upload_id bc upload)"

definition list_uploads_by_key :: "(ErrorKind \<Rightarrow> string) \<Rightarrow> B58 \<Rightarrow> Crypto \<Rightarrow> Store \<Rightarrow> bytes \<Rightarrow> ListUploadsOptions \<Rightarrow> PublicError + ListPendingStreamsState" where
  "list_uploads_by_key show_enc bc cr store bucket opts =
    try_bind (map_err (map_enc show_enc) (encrypt_path cr bucket (lu_prefix opts) store)) (\<lambda>enc_key.
    try_bind (if lu_cursor opts = [] then Inr [] else stream_of_upload bc (lu_cursor opts)) (\<lambda>cursor.
      Inr \<lparr>ps_key = lu_prefix opts, ps_enc_key = enc_key, ps_cursor = cursor, ps_pending = [], ps_done = False, ps_system = lu_system opts\<rparr>))"

definition list_uploads :: "(ErrorKind \<Rightarrow> string) \<Rightarrow> B58 \<Rightarrow> Crypto \<Rightarrow> Store \<Rightarrow> bytes \<Rightarrow> ListUploadsOptions \<Rightarrow>
    PublicError + (ListUploadsState + ListPendingStreamsState)" where
  "list_uploads show_enc bc cr store bucket opts =
    try_bind (require_bucket_name bucket) (\<lambda>_.
      if lu_prefix opts \<noteq> [] \<and> \<not> ends_with_slash (lu_prefix opts) then
        try_bind (list_uploads_by_key show_enc bc cr store bucket opts) (\<lambda>st. Inr (Inr st))
      else
        try_bind (codec_new show_enc cr store bucket (lu_prefix opts)) (\<lambda>kc.
        try_bind (encode_cursor show_enc cr kc (lu_cursor opts)) (\<lambda>cursor.
          Inr (Inl \<lparr>us_codec = kc, us_cursor = cursor, us_pending = [], us_done = False\<rparr>))))"

section \<open>Properties\<close>

interpretation buckets: paged_stream "bucket_next page" "\<lambda>c bs d. \<lparr>bl_cursor = c, bl_pending = bs, bl_done = d\<rparr>" page bk_name Inr for page
proof unfold_locales
  show "bucket_next page \<lparr>bl_cursor = c, bl_pending = x # xs, bl_done = d\<rparr> = Some (Inr (Some (x, \<lparr>bl_cursor = c, bl_pending = xs, bl_done = d\<rparr>)))" for c x xs d
    by (simp add: bucket_next.simps)
  show "bucket_next page \<lparr>bl_cursor = c, bl_pending = [], bl_done = True\<rparr> = Some (Inr None)" for c
    by (simp add: bucket_next.simps)
  show "bucket_next page \<lparr>bl_cursor = c, bl_pending = [], bl_done = False\<rparr> = Some (Inl e)" if "page c = Inl e" for c e
    using that by (simp add: bucket_next.simps)
  show "bucket_next page \<lparr>bl_cursor = c, bl_pending = [], bl_done = False\<rparr> =
      bucket_next page \<lparr>bl_cursor = if items = [] then c else bk_name (last items), bl_pending = out, bl_done = \<not> further \<or> items = []\<rparr>"
    if "page c = Inr (items, further)" "Inr items = Inr out" for c items further out
    using that by (subst bucket_next.simps) simp
qed

interpretation uploads: paged_stream "upload_next bc decode page" "\<lambda>c infos d. \<lparr>us_codec = kc, us_cursor = c, us_pending = infos, us_done = d\<rparr>" "page_items page"
    oi_encrypted_object_key "upload_entries bc (decode kc)" for bc decode page kc
proof unfold_locales
  let ?st = "\<lambda>c infos d. \<lparr>us_codec = kc, us_cursor = c, us_pending = infos, us_done = d\<rparr>"
  show "upload_next bc decode page (?st c (x # xs) d) = Some (Inr (Some (x, ?st c xs d)))" for c x xs d by (simp add: upload_next.simps)
  show "upload_next bc decode page (?st c [] True) = Some (Inr None)" for c by (simp add: upload_next.simps)
  show "upload_next bc decode page (?st c [] False) = Some (Inl e)" if "page_items page c = Inl e" for c e
    using that by (simp add: upload_next.simps page_items_def result_simps split: sum.splits)
  show "upload_next bc decode page (?st c [] False) =
      upload_next bc decode page (?st (if items = [] then c else oi_encrypted_object_key (last items)) out (\<not> further \<or> items = []))"
    if "page_items page c = Inr (items, further)" "upload_entries bc (decode kc) items = Inr out" for c items further out
    using that by (subst upload_next.simps) (auto simp: page_items_def result_simps)
qed

interpretation streams: paged_stream "stream_next bc page" "\<lambda>c infos d. st\<lparr>ps_cursor := c, ps_pending := infos, ps_done := d\<rparr>" "page_items page"
    oi_stream_id "\<lambda>items. Inr (stream_entries bc (ps_key st) (ps_system st) items)" for bc page st
proof unfold_locales
  let ?st = "\<lambda>c infos d. st\<lparr>ps_cursor := c, ps_pending := infos, ps_done := d\<rparr>"
  show "stream_next bc page (?st c (x # xs) d) = Some (Inr (Some (x, ?st c xs d)))" for c x xs d by (cases st) (simp add: stream_next.simps)
  show "stream_next bc page (?st c [] True) = Some (Inr None)" for c by (simp add: stream_next.simps)
  show "stream_next bc page (?st c [] False) = Some (Inl e)" if "page_items page c = Inl e" for c e
    using that by (simp add: stream_next.simps page_items_def result_simps split: sum.splits)
  show "stream_next bc page (?st c [] False) =
      stream_next bc page (?st (if items = [] then c else oi_stream_id (last items)) out (\<not> further \<or> items = []))"
    if "page_items page c = Inr (items, further)" "Inr (stream_entries bc (ps_key st) (ps_system st) items) = Inr out" for c items further out
    using that by (cases st) (subst stream_next.simps, auto simp: page_items_def result_simps stream_entries_def)
qed

theorem buckets_are_listed:
  assumes "lists (list_buckets_page answer) bk_name (case cursor of Some c \<Rightarrow> c | None \<Rightarrow> []) size_of bs"
  shows "drain (bucket_next (list_buckets_page answer)) (list_buckets cursor) = Some (Inr bs)"
  using buckets.drain_lists[OF assms, of "\<lambda>b. [b]"] by (simp add: list_buckets_def concat_map_singleton)

definition upload_entry :: "B58 \<Rightarrow> (bytes \<Rightarrow> PublicError + bytes) \<Rightarrow> ObjectListItem \<Rightarrow> UploadInfo list" where
  "upload_entry bc decode item =
    (if oi_status item = PREFIX_STATUS \<or> oi_stream_id item = [] then []
     else case decode (oi_encrypted_object_key item) of
       Inl _ \<Rightarrow> []
     | Inr key \<Rightarrow> [\<lparr>ui_key = key, ui_upload_id = encode_upload_id bc (oi_stream_id item), ui_system = system_of_item item\<rparr>])"

lemma upload_entries_each:
  assumes "\<forall>item \<in> set items. \<forall>e. decode (oi_encrypted_object_key item) = Inl e \<longrightarrow> skippable_list_decrypt e"
  shows "upload_entries bc decode items = Inr (concat (map (upload_entry bc decode) items))"
  using assms by (induction items) (auto simp: upload_entry_def split: sum.splits)

lemma stream_entries_each:
  "stream_entries bc key with_system items = concat (map (\<lambda>item. stream_entries bc key with_system [item]) items)"
  by (induction items) (auto simp: stream_entries_def)

text \<open>The keys and streams of the uploads that a listing shows.\<close>

definition shown_uploads :: "(ErrorKind \<Rightarrow> string) \<Rightarrow> Crypto \<Rightarrow> ListUploadsOptions \<Rightarrow> ListUploadsState + ListPendingStreamsState \<Rightarrow> ObjectListItem list \<Rightarrow>
    (bytes \<times> (PublicError + bytes)) list" where
  "shown_uploads show_enc cr opts started items =
    (case started of
       Inl st \<Rightarrow> concat (map (\<lambda>item.
         if oi_status item = PREFIX_STATUS \<or> oi_stream_id item = [] then []
         else case decode_key show_enc cr (us_codec st) (oi_encrypted_object_key item) of Inr key \<Rightarrow> [(key, Inr (oi_stream_id item))] | Inl _ \<Rightarrow> []) items)
     | Inr st \<Rightarrow> map (\<lambda>item. (lu_prefix opts, Inr (oi_stream_id item))) (filter (\<lambda>item. oi_stream_id item \<noteq> []) items))"

lemma stream_of_upload_encode: "b58_ok bc \<Longrightarrow> bs58_decode bc [] = Some [] \<Longrightarrow> stream_of_upload bc (encode_upload_id bc s) = Inr s"
  by (simp add: stream_of_upload_def upload_id_round_trip)

lemma list_uploads_start:
  assumes "list_uploads show_enc bc cr store bucket opts = Inr started"
  shows "started = Inl st \<Longrightarrow> st = \<lparr>us_codec = us_codec st, us_cursor = us_cursor st, us_pending = [], us_done = False\<rparr>"
    "started = Inr sk \<Longrightarrow> sk = sk\<lparr>ps_cursor := ps_cursor sk, ps_pending := [], ps_done := False\<rparr> \<and> ps_key sk = lu_prefix opts"
  using assms by (auto simp: list_uploads_def list_uploads_by_key_def result_simps split: if_splits)

text \<open>
  The uploads of a bucket that are not committed, below a prefix or of one key, read to the end of the stream: every upload that the satellite lists and whose
  key can be decrypted is shown once, in order, under its key, and the identifier it is shown with leads back to the stream of the upload.
\<close>

theorem pending_uploads_are_listed:
  assumes "b58_ok bc" and "bs58_decode bc [] = Some []" and "list_uploads show_enc bc cr store bucket opts = Inr started"
    and "lists (page_items page) (case started of Inl _ \<Rightarrow> oi_encrypted_object_key | Inr _ \<Rightarrow> oi_stream_id)
      (case started of Inl st \<Rightarrow> us_cursor st | Inr st \<Rightarrow> ps_cursor st) size_of items"
    and "\<forall>st. started = Inl st \<longrightarrow> (\<forall>item \<in> set items. \<forall>e. decode_key show_enc cr (us_codec st) (oi_encrypted_object_key item) = Inl e \<longrightarrow> skippable_list_decrypt e)"
  shows "\<exists>infos. (case started of Inl st \<Rightarrow> drain (upload_next bc (decode_key show_enc cr) page) st | Inr st \<Rightarrow> drain (stream_next bc page) st) = Some (Inr infos) \<and>
    map (\<lambda>info. (ui_key info, stream_of_upload bc (ui_upload_id info))) infos = shown_uploads show_enc cr opts started items"
proof (cases started)
  case (Inl st)
  let ?decode = "decode_key show_enc cr"
  have conv: "upload_entries bc (?decode (us_codec st)) xs = Inr (concat (map (upload_entry bc (?decode (us_codec st))) xs))" if "set xs \<subseteq> set items" for xs
    using assms(5) Inl that by (intro upload_entries_each) auto
  have "drain (upload_next bc ?decode page) \<lparr>us_codec = us_codec st, us_cursor = us_cursor st, us_pending = [], us_done = False\<rparr> =
      Some (Inr (concat (map (upload_entry bc (?decode (us_codec st))) items)))"
    by (rule uploads.drain_lists[OF assms(4)[unfolded Inl sum.case]], rule conv)
  then have "drain (upload_next bc ?decode page) st = Some (Inr (concat (map (upload_entry bc (?decode (us_codec st))) items)))"
    using list_uploads_start(1)[OF assms(3) Inl] by metis
  moreover have "map (\<lambda>info. (ui_key info, stream_of_upload bc (ui_upload_id info))) (upload_entry bc (?decode (us_codec st)) item) =
      (if oi_status item = PREFIX_STATUS \<or> oi_stream_id item = [] then []
       else case ?decode (us_codec st) (oi_encrypted_object_key item) of Inr key \<Rightarrow> [(key, Inr (oi_stream_id item))] | Inl _ \<Rightarrow> [])" for item
    by (simp add: upload_entry_def stream_of_upload_encode[OF assms(1,2)] split: sum.splits)
  ultimately show ?thesis by (simp add: Inl shown_uploads_def map_concat comp_def)
next
  case (Inr st)
  note s = list_uploads_start(2)[OF assms(3) Inr]
  have "drain (stream_next bc page) (st\<lparr>ps_cursor := ps_cursor st, ps_pending := [], ps_done := False\<rparr>) =
      Some (Inr (concat (map (\<lambda>item. stream_entries bc (ps_key st) (ps_system st) [item]) items)))"
    by (rule streams.drain_lists[OF assms(4)[unfolded Inr sum.case]]) (rule arg_cong[OF stream_entries_each])
  then have "drain (stream_next bc page) st = Some (Inr (stream_entries bc (ps_key st) (ps_system st) items))"
    using s stream_entries_each[of bc "ps_key st" "ps_system st" items] by metis
  then show ?thesis using s by (simp add: Inr shown_uploads_def stream_entries_def stream_of_upload_encode[OF assms(1,2)] comp_def)
qed

text \<open>Two uploads of one key, in pages of one.\<close>

definition sample_upload_opts :: ListUploadsOptions where
  "sample_upload_opts = \<lparr>lu_prefix = [107], lu_cursor = [], lu_recursive = False, lu_system = True, lu_custom = False\<rparr>"

definition sample_streams :: "ObjectListItem list" where
  "sample_streams = map (\<lambda>s. (sample_entry 107)\<lparr>oi_status := 1, oi_stream_id := s\<rparr>) [[1], [2]]"

definition sample_stream_page :: "bytes \<Rightarrow> PublicError + ListObjectsResponse" where
  "sample_stream_page c =
    (let i = (if c = [] then 0 else if c = [1] then 1 else 2) in Inr \<lparr>lr_items = take 1 (drop i sample_streams), lr_more = (i < 1)\<rparr>)"

theorem pending_uploads_are_listed_witness:
  "\<exists>st infos. list_uploads (\<lambda>_. []) toy_b58 toy_crypto clear_store [98] sample_upload_opts = Inr (Inr st) \<and>
    drain (stream_next toy_b58 sample_stream_page) st = Some (Inr infos) \<and>
    map (\<lambda>info. (ui_key info, stream_of_upload toy_b58 (ui_upload_id info))) infos = [([107], Inr [1]), ([107], Inr [2])]"
proof -
  let ?start = "list_uploads (\<lambda>_. []) toy_b58 toy_crypto clear_store [98] sample_upload_opts"
  have "case ?start of Inr (Inr st) \<Rightarrow> ps_cursor st = [] | _ \<Rightarrow> False" by code_simp
  then obtain st where st: "?start = Inr (Inr st)" "ps_cursor st = []" by (auto split: sum.splits)
  have b: "bs58_decode toy_b58 [] = Some []" by (simp add: toy_b58_def)
  have l: "lists (page_items sample_stream_page) oi_stream_id [] (\<lambda>_. 1) sample_streams"
    by (auto simp: lists_def page_items_def page_at_def sample_stream_page_def sample_streams_def less_Suc_eq numeral_2_eq_2)
  have "\<exists>infos. drain (stream_next toy_b58 sample_stream_page) st = Some (Inr infos) \<and>
      map (\<lambda>info. (ui_key info, stream_of_upload toy_b58 (ui_upload_id info))) infos = shown_uploads (\<lambda>_. []) toy_crypto sample_upload_opts (Inr st) sample_streams"
    using pending_uploads_are_listed[OF toy_b58_ok b st(1), of sample_stream_page "\<lambda>_. 1" sample_streams] l st(2) by simp
  then show ?thesis using st(1) by (auto simp: shown_uploads_def sample_streams_def sample_upload_opts_def)
qed

end
