(* ===== verification/Metainfo_Unary.thy ===== *)
theory Metainfo_Unary
  imports Object_Ops Listings
begin

text \<open>
  The calls of the satellite's client that are not batched, \<open>crates/storj/src/metainfo.rs\<close>, and the operations of
  \<open>crates/storj/src/object_lock.rs\<close> and \<open>bucket.rs\<close> that consist of one of them.  The encodings of the messages are
  parameters; of a response only what the client reads is kept.

  Shown: a call that changes what the satellite stores is attempted exactly once, a reading one at most three times, and a request with invalid arguments not at
  all; an object without retention is not an error.
\<close>

section \<open>The code\<close>

definition REVOKE_API_KEY :: bytes where "REVOKE_API_KEY = ascii ''/metainfo.Metainfo/RevokeAPIKey''"
definition UPDATE_OBJECT_METADATA :: bytes where "UPDATE_OBJECT_METADATA = ascii ''/metainfo.Metainfo/UpdateObjectMetadata''"
definition BEGIN_COPY_OBJECT :: bytes where "BEGIN_COPY_OBJECT = ascii ''/metainfo.Metainfo/BeginCopyObject''"
definition FINISH_COPY_OBJECT :: bytes where "FINISH_COPY_OBJECT = ascii ''/metainfo.Metainfo/FinishCopyObject''"
definition BEGIN_MOVE_OBJECT :: bytes where "BEGIN_MOVE_OBJECT = ascii ''/metainfo.Metainfo/BeginMoveObject''"
definition FINISH_MOVE_OBJECT :: bytes where "FINISH_MOVE_OBJECT = ascii ''/metainfo.Metainfo/FinishMoveObject''"
definition SET_OBJECT_RETENTION :: bytes where "SET_OBJECT_RETENTION = ascii ''/metainfo.Metainfo/SetObjectRetention''"
definition SET_OBJECT_LEGAL_HOLD :: bytes where "SET_OBJECT_LEGAL_HOLD = ascii ''/metainfo.Metainfo/SetObjectLegalHold''"
definition SET_BUCKET_OBJECT_LOCK_CONFIGURATION :: bytes where
  "SET_BUCKET_OBJECT_LOCK_CONFIGURATION = ascii ''/metainfo.Metainfo/SetBucketObjectLockConfiguration''"

text \<open>The requests, each after its header.\<close>

datatype UnaryRequest =
    ProjectInfoRequest
  | CreateBucketRequest bytes bool bytes
  | GetBucketRequest bytes
  | DeleteBucketRequest bytes bool
  | ListBucketsRequest bytes int
  | BeginCopyObjectRequest bytes bytes bytes bytes
  | FinishCopyObjectRequest FinishTransfer
  | BeginMoveObjectRequest bytes bytes bytes bytes
  | FinishMoveObjectRequest FinishTransfer
  | UpdateObjectMetadataRequest bytes bytes bytes EncryptedUserData int bool
  | RevokeApiKeyRequest bytes
  | GetObjectRetentionRequest bytes bytes bytes
  | SetObjectRetentionRequest bytes bytes bytes PbRetention bool
  | GetObjectLegalHoldRequest bytes bytes bytes
  | SetObjectLegalHoldRequest bytes bytes bytes bool
  | GetBucketObjectLockConfigurationRequest bytes
  | SetBucketObjectLockConfigurationRequest bytes PbLockConfig

record UnaryPb =
  un_encode :: "RequestHeader \<Rightarrow> UnaryRequest \<Rightarrow> bytes"
  un_project :: "bytes \<Rightarrow> bytes option"
  un_bucket :: "bytes \<Rightarrow> PbBucket option option"
  un_buckets :: "bytes \<Rightarrow> (PbBucket list \<times> bool) option"
  un_begun :: "bytes \<Rightarrow> BeginTransfer option"
  un_object :: "bytes \<Rightarrow> PbObject option option"
  un_empty :: "bytes \<Rightarrow> unit option"
  un_retention :: "bytes \<Rightarrow> PbRetention option option"
  un_hold :: "bytes \<Rightarrow> bool option"
  un_lock :: "bytes \<Rightarrow> PbLockConfig option option"

definition unary :: "Texts \<Rightarrow> UnaryPb \<Rightarrow> Dials \<Rightarrow> bytes \<Rightarrow> UnaryRequest \<Rightarrow> bytes \<Rightarrow> bytes \<Rightarrow> (bytes \<Rightarrow> 'a option) \<Rightarrow> MetainfoClient \<Rightarrow> 'a call" where
  "unary tx pb dials rpc req bucket key decode cl =
    on_ok (invoke_unary tx dials rpc (un_encode pb (mc_header cl) req) bucket key cl) (\<lambda>body. ok_or map_decode (decode body))"

subsection \<open>Buckets\<close>

definition project_info :: "Texts \<Rightarrow> UnaryPb \<Rightarrow> Dials \<Rightarrow> MetainfoClient \<Rightarrow> bytes call" where
  "project_info tx pb dials cl = unary tx pb dials PROJECT_INFO ProjectInfoRequest [] [] (un_project pb) cl"

definition create_bucket :: "Texts \<Rightarrow> UnaryPb \<Rightarrow> Dials \<Rightarrow> bytes \<Rightarrow> bool \<Rightarrow> bytes \<Rightarrow> MetainfoClient \<Rightarrow> Bucket call" where
  "create_bucket tx pb dials name object_lock_enabled placement cl =
    on_ok (unary tx pb dials CREATE_BUCKET (CreateBucketRequest name object_lock_enabled placement) name [] (un_bucket pb) cl) (\<lambda>b. bucket_from_proto b name)"

definition get_bucket :: "Texts \<Rightarrow> UnaryPb \<Rightarrow> Dials \<Rightarrow> bytes \<Rightarrow> MetainfoClient \<Rightarrow> Bucket call" where
  "get_bucket tx pb dials name cl = on_ok (unary tx pb dials GET_BUCKET (GetBucketRequest name) name [] (un_bucket pb) cl) (\<lambda>b. bucket_from_proto b name)"

definition delete_bucket :: "Texts \<Rightarrow> UnaryPb \<Rightarrow> Dials \<Rightarrow> bytes \<Rightarrow> bool \<Rightarrow> MetainfoClient \<Rightarrow> Bucket call" where
  "delete_bucket tx pb dials name delete_all cl =
    on_ok (unary tx pb dials DELETE_BUCKET (DeleteBucketRequest name delete_all) name [] (un_bucket pb) cl) (\<lambda>b.
      case b of
        Some bk \<Rightarrow> if pbk_name bk \<noteq> [] then bucket_from_proto b name else Inr \<lparr>bk_name = name, bk_created = proto_timestamp None\<rparr>
      | None \<Rightarrow> Inr \<lparr>bk_name = name, bk_created = proto_timestamp None\<rparr>)"

definition buckets_page :: "Texts \<Rightarrow> UnaryPb \<Rightarrow> Dials \<Rightarrow> bytes \<Rightarrow> int \<Rightarrow> MetainfoClient \<Rightarrow> (Bucket list \<times> bool) call" where
  "buckets_page tx pb dials cursor limit cl =
    on_ok (unary tx pb dials LIST_BUCKETS (ListBucketsRequest cursor (if limit = 0 then 1000 else limit)) [] [] (un_buckets pb) cl)
      (\<lambda>resp. list_buckets_page (\<lambda>_. Inr resp) cursor)"

subsection \<open>Objects\<close>

definition begin_copy_object :: "Texts \<Rightarrow> UnaryPb \<Rightarrow> Dials \<Rightarrow> bytes \<Rightarrow> bytes \<Rightarrow> bytes \<Rightarrow> bytes \<Rightarrow> bytes \<Rightarrow> MetainfoClient \<Rightarrow> BeginTransfer call" where
  "begin_copy_object tx pb dials src_bucket src_key enc_key new_bucket new_enc_key cl =
    unary tx pb dials BEGIN_COPY_OBJECT (BeginCopyObjectRequest src_bucket enc_key new_bucket new_enc_key) src_bucket src_key (un_begun pb) cl"

definition finish_copy_object :: "Texts \<Rightarrow> UnaryPb \<Rightarrow> Dials \<Rightarrow> bytes \<Rightarrow> bytes \<Rightarrow> FinishTransfer \<Rightarrow> MetainfoClient \<Rightarrow> PbObject option call" where
  "finish_copy_object tx pb dials dst_bucket dst_key req cl =
    unary tx pb dials FINISH_COPY_OBJECT (FinishCopyObjectRequest req) dst_bucket dst_key (un_object pb) cl"

definition begin_move_object :: "Texts \<Rightarrow> UnaryPb \<Rightarrow> Dials \<Rightarrow> bytes \<Rightarrow> bytes \<Rightarrow> bytes \<Rightarrow> bytes \<Rightarrow> bytes \<Rightarrow> MetainfoClient \<Rightarrow> BeginTransfer call" where
  "begin_move_object tx pb dials src_bucket src_key enc_key new_bucket new_enc_key cl =
    unary tx pb dials BEGIN_MOVE_OBJECT (BeginMoveObjectRequest src_bucket enc_key new_bucket new_enc_key) src_bucket src_key (un_begun pb) cl"

definition finish_move_object :: "Texts \<Rightarrow> UnaryPb \<Rightarrow> Dials \<Rightarrow> bytes \<Rightarrow> bytes \<Rightarrow> FinishTransfer \<Rightarrow> MetainfoClient \<Rightarrow> unit call" where
  "finish_move_object tx pb dials src_bucket src_key req cl =
    unary tx pb dials FINISH_MOVE_OBJECT (FinishMoveObjectRequest req) src_bucket src_key (un_empty pb) cl"

definition send_object_metadata :: "Texts \<Rightarrow> UnaryPb \<Rightarrow> Dials \<Rightarrow> bytes \<Rightarrow> bytes \<Rightarrow> bytes \<Rightarrow> bytes \<Rightarrow> EncryptedUserData \<Rightarrow> int \<times> bool \<Rightarrow> MetainfoClient \<Rightarrow> unit call" where
  "send_object_metadata tx pb dials bucket key enc_key stream user cs cl =
    unary tx pb dials UPDATE_OBJECT_METADATA (UpdateObjectMetadataRequest bucket enc_key stream user (fst cs) (snd cs)) bucket key (un_empty pb) cl"

definition revoke_api_key :: "Texts \<Rightarrow> UnaryPb \<Rightarrow> Dials \<Rightarrow> bytes \<Rightarrow> MetainfoClient \<Rightarrow> unit call" where
  "revoke_api_key tx pb dials api_key cl = unary tx pb dials REVOKE_API_KEY (RevokeApiKeyRequest api_key) [] [] (un_empty pb) cl"

definition revoke_access :: "Texts \<Rightarrow> UnaryPb \<Rightarrow> Dials \<Rightarrow> bytes \<Rightarrow> MetainfoClient \<Rightarrow> unit call" where
  "revoke_access tx pb dials api_key cl =
    (if api_key = rh_api_key (mc_header cl) then (Inl (pe_new PermissionDenied ''permission denied (API key cannot revoke itself)''), cl, [])
     else revoke_api_key tx pb dials api_key cl)"

subsection \<open>Object lock\<close>

text \<open>The setting calls do not decode the answer.\<close>

definition get_retention :: "Texts \<Rightarrow> UnaryPb \<Rightarrow> Dials \<Rightarrow> bytes \<Rightarrow> bytes \<Rightarrow> bytes \<Rightarrow> bytes \<Rightarrow> MetainfoClient \<Rightarrow> Retention option call" where
  "get_retention tx pb dials bucket enc_key version key cl =
    (case invoke_unary tx dials GET_OBJECT_RETENTION (un_encode pb (mc_header cl) (GetObjectRetentionRequest bucket enc_key version)) bucket key cl of
       (Inr body, cl, n) \<Rightarrow>
         (try_bind (ok_or map_decode (un_retention pb body)) (\<lambda>r.
            case r of Some r \<Rightarrow> try_bind (retention_from_proto r) (\<lambda>r. Inr (Some r)) | None \<Rightarrow> Inr None), cl, n)
     | (Inl e, cl, n) \<Rightarrow> (if is_retention_not_found e then Inr None else Inl e, cl, n))"

definition set_retention :: "Texts \<Rightarrow> UnaryPb \<Rightarrow> Dials \<Rightarrow> bytes \<Rightarrow> bytes \<Rightarrow> bytes \<Rightarrow> Retention \<Rightarrow> bool \<Rightarrow> bytes \<Rightarrow> MetainfoClient \<Rightarrow> unit call" where
  "set_retention tx pb dials bucket enc_key version retention bypass key cl =
    unary tx pb dials SET_OBJECT_RETENTION (SetObjectRetentionRequest bucket enc_key version (retention_to_proto retention) bypass) bucket key (\<lambda>_. Some ()) cl"

definition get_legal_hold :: "Texts \<Rightarrow> UnaryPb \<Rightarrow> Dials \<Rightarrow> bytes \<Rightarrow> bytes \<Rightarrow> bytes \<Rightarrow> bytes \<Rightarrow> MetainfoClient \<Rightarrow> bool call" where
  "get_legal_hold tx pb dials bucket enc_key version key cl =
    unary tx pb dials GET_OBJECT_LEGAL_HOLD (GetObjectLegalHoldRequest bucket enc_key version) bucket key (un_hold pb) cl"

definition set_legal_hold :: "Texts \<Rightarrow> UnaryPb \<Rightarrow> Dials \<Rightarrow> bytes \<Rightarrow> bytes \<Rightarrow> bytes \<Rightarrow> bool \<Rightarrow> bytes \<Rightarrow> MetainfoClient \<Rightarrow> unit call" where
  "set_legal_hold tx pb dials bucket enc_key version enabled key cl =
    unary tx pb dials SET_OBJECT_LEGAL_HOLD (SetObjectLegalHoldRequest bucket enc_key version enabled) bucket key (\<lambda>_. Some ()) cl"

definition get_lock_configuration :: "Texts \<Rightarrow> UnaryPb \<Rightarrow> Dials \<Rightarrow> bytes \<Rightarrow> MetainfoClient \<Rightarrow> LockConfig call" where
  "get_lock_configuration tx pb dials bucket cl =
    on_ok (unary tx pb dials GET_BUCKET_OBJECT_LOCK_CONFIGURATION (GetBucketObjectLockConfigurationRequest bucket) bucket [] (un_lock pb) cl) (\<lambda>cfg.
      try_bind (ok_or (pe_new ProtocolKind ''satellite returned no Object Lock configuration'') cfg) lock_config_from_proto)"

definition send_lock_configuration :: "Texts \<Rightarrow> UnaryPb \<Rightarrow> Dials \<Rightarrow> bytes \<Rightarrow> PbLockConfig \<Rightarrow> MetainfoClient \<Rightarrow> unit call" where
  "send_lock_configuration tx pb dials bucket cfg cl =
    unary tx pb dials SET_BUCKET_OBJECT_LOCK_CONFIGURATION (SetBucketObjectLockConfigurationRequest bucket cfg) bucket [] (\<lambda>_. Some ()) cl"

text \<open>The operations of a project check and encrypt before they call.\<close>

definition guarded :: "PublicError + 'a \<Rightarrow> ('a \<Rightarrow> MetainfoClient \<Rightarrow> 'b call) \<Rightarrow> MetainfoClient \<Rightarrow> 'b call" where
  "guarded check f cl = (case check of Inl e \<Rightarrow> (Inl e, cl, []) | Inr x \<Rightarrow> f x cl)"

definition lock_key :: "(ErrorKind \<Rightarrow> string) \<Rightarrow> Crypto \<Rightarrow> Store \<Rightarrow> bytes \<Rightarrow> bytes \<Rightarrow> PublicError + bytes" where
  "lock_key show_enc cr store bucket key =
    try_bind (require_bucket_name bucket) (\<lambda>_.
    try_bind (require_object_key key) (\<lambda>_. map_err (map_enc_err show_enc) (encrypt_path cr bucket key store)))"

definition unwrap_version :: "bytes option \<Rightarrow> bytes" where "unwrap_version v = (case v of Some x \<Rightarrow> x | None \<Rightarrow> [])"

definition get_object_retention :: "(ErrorKind \<Rightarrow> string) \<Rightarrow> Crypto \<Rightarrow> Store \<Rightarrow> Texts \<Rightarrow> UnaryPb \<Rightarrow> Dials \<Rightarrow> bytes \<Rightarrow> bytes \<Rightarrow> bytes option \<Rightarrow> MetainfoClient \<Rightarrow> Retention option call" where
  "get_object_retention show_enc cr store tx pb dials bucket key version cl =
    guarded (lock_key show_enc cr store bucket key) (\<lambda>enc. get_retention tx pb dials bucket enc (unwrap_version version) key) cl"

definition set_object_retention :: "(ErrorKind \<Rightarrow> string) \<Rightarrow> Crypto \<Rightarrow> Store \<Rightarrow> Texts \<Rightarrow> UnaryPb \<Rightarrow> Dials \<Rightarrow> bytes \<Rightarrow> bytes \<Rightarrow> bytes option \<Rightarrow> Retention \<Rightarrow> bool \<Rightarrow>
    MetainfoClient \<Rightarrow> unit call" where
  "set_object_retention show_enc cr store tx pb dials bucket key version retention bypass cl =
    guarded (lock_key show_enc cr store bucket key) (\<lambda>enc. set_retention tx pb dials bucket enc (unwrap_version version) retention bypass key) cl"

definition get_object_legal_hold :: "(ErrorKind \<Rightarrow> string) \<Rightarrow> Crypto \<Rightarrow> Store \<Rightarrow> Texts \<Rightarrow> UnaryPb \<Rightarrow> Dials \<Rightarrow> bytes \<Rightarrow> bytes \<Rightarrow> bytes option \<Rightarrow> MetainfoClient \<Rightarrow> bool call" where
  "get_object_legal_hold show_enc cr store tx pb dials bucket key version cl =
    guarded (lock_key show_enc cr store bucket key) (\<lambda>enc. get_legal_hold tx pb dials bucket enc (unwrap_version version) key) cl"

definition set_object_legal_hold :: "(ErrorKind \<Rightarrow> string) \<Rightarrow> Crypto \<Rightarrow> Store \<Rightarrow> Texts \<Rightarrow> UnaryPb \<Rightarrow> Dials \<Rightarrow> bytes \<Rightarrow> bytes \<Rightarrow> bytes option \<Rightarrow> bool \<Rightarrow> MetainfoClient \<Rightarrow> unit call" where
  "set_object_legal_hold show_enc cr store tx pb dials bucket key version enabled cl =
    guarded (lock_key show_enc cr store bucket key) (\<lambda>enc. set_legal_hold tx pb dials bucket enc (unwrap_version version) enabled key) cl"

definition get_bucket_lock_configuration :: "Texts \<Rightarrow> UnaryPb \<Rightarrow> Dials \<Rightarrow> bytes \<Rightarrow> MetainfoClient \<Rightarrow> LockConfig call" where
  "get_bucket_lock_configuration tx pb dials bucket cl = guarded (require_bucket_name bucket) (\<lambda>_. get_lock_configuration tx pb dials bucket) cl"

definition set_bucket_lock_configuration :: "Texts \<Rightarrow> UnaryPb \<Rightarrow> Dials \<Rightarrow> bytes \<Rightarrow> LockConfig \<Rightarrow> MetainfoClient \<Rightarrow> unit call" where
  "set_bucket_lock_configuration tx pb dials bucket cfg cl =
    guarded (set_lock_configuration bucket cfg) (\<lambda>cfg. send_lock_configuration tx pb dials bucket cfg) cl"

definition remove_bucket :: "Texts \<Rightarrow> UnaryPb \<Rightarrow> Dials \<Rightarrow> bytes \<Rightarrow> bool \<Rightarrow> MetainfoClient \<Rightarrow> Bucket call" where
  "remove_bucket tx pb dials name with_objects cl = guarded (require_bucket_name name) (\<lambda>_. delete_bucket tx pb dials name with_objects) cl"

section \<open>Properties\<close>

text \<open>How often a call was attempted; each attempt writes the request at most once (\<open>one_request\<close>).\<close>

abbreviation (input) attempted :: "'a call \<Rightarrow> nat" where "attempted c \<equiv> length (snd (snd c))"

lemma sent_on_ok [simp]: "attempted (on_ok c f) = attempted c"
  by (simp add: on_ok_def split: prod.splits)

lemma invoke_unary_sent:
  assumes "sound_idle cl"
  shows "1 \<le> attempted (invoke_unary tx dials rpc request bucket key cl)" "attempted (invoke_unary tx dials rpc request bucket key cl) \<le> SATELLITE_ATTEMPTS"
    "\<not> is_idempotent_rpc rpc \<Longrightarrow> attempted (invoke_unary tx dials rpc request bucket key cl) = 1"
proof -
  obtain r cl' log where i: "invoke_unary tx dials rpc request bucket key cl = (r, cl', log)" by (metis prod_cases3)
  note c = invoke_with_done[OF assms, of tx rpc request bucket key "is_idempotent_rpc rpc" dials, folded invoke_unary_def, unfolded i call_done_def prod.case]
  show "1 \<le> attempted (invoke_unary tx dials rpc request bucket key cl)" using c by (cases log) (simp_all add: i)
  show "attempted (invoke_unary tx dials rpc request bucket key cl) \<le> SATELLITE_ATTEMPTS"
    using c by (auto simp: i SATELLITE_ATTEMPTS_def split: if_splits)
  show "attempted (invoke_unary tx dials rpc request bucket key cl) = 1" if "\<not> is_idempotent_rpc rpc"
    using c that by (cases log) (auto simp: i)
qed

lemmas rpc_names =
  PROJECT_INFO_def GET_BUCKET_def LIST_BUCKETS_def GET_OBJECT_RETENTION_def GET_OBJECT_LEGAL_HOLD_def GET_BUCKET_OBJECT_LOCK_CONFIGURATION_def CREATE_BUCKET_def
  DELETE_BUCKET_def BEGIN_COPY_OBJECT_def FINISH_COPY_OBJECT_def BEGIN_MOVE_OBJECT_def FINISH_MOVE_OBJECT_def UPDATE_OBJECT_METADATA_def REVOKE_API_KEY_def
  SET_OBJECT_RETENTION_def SET_OBJECT_LEGAL_HOLD_def SET_BUCKET_OBJECT_LOCK_CONFIGURATION_def

lemma changing_rpcs:
  "\<not> is_idempotent_rpc CREATE_BUCKET" "\<not> is_idempotent_rpc DELETE_BUCKET" "\<not> is_idempotent_rpc BEGIN_COPY_OBJECT" "\<not> is_idempotent_rpc FINISH_COPY_OBJECT"
  "\<not> is_idempotent_rpc BEGIN_MOVE_OBJECT" "\<not> is_idempotent_rpc FINISH_MOVE_OBJECT" "\<not> is_idempotent_rpc UPDATE_OBJECT_METADATA" "\<not> is_idempotent_rpc REVOKE_API_KEY"
  "\<not> is_idempotent_rpc SET_OBJECT_RETENTION" "\<not> is_idempotent_rpc SET_OBJECT_LEGAL_HOLD" "\<not> is_idempotent_rpc SET_BUCKET_OBJECT_LOCK_CONFIGURATION"
  by (simp_all add: is_idempotent_rpc_def rpc_names)

lemma unary_once: "sound_idle cl \<Longrightarrow> \<not> is_idempotent_rpc rpc \<Longrightarrow> attempted (unary tx pb dials rpc req bucket key decode cl) = 1"
  by (simp add: unary_def invoke_unary_sent)

lemma unary_sent: "sound_idle cl \<Longrightarrow> 1 \<le> attempted (unary tx pb dials rpc req bucket key decode cl) \<and> attempted (unary tx pb dials rpc req bucket key decode cl) \<le> SATELLITE_ATTEMPTS"
  using invoke_unary_sent(1,2) by (simp add: unary_def)

lemma guarded_sent: "attempted (guarded check f cl) = (case check of Inl _ \<Rightarrow> 0 | Inr x \<Rightarrow> attempted (f x cl))"
  by (simp add: guarded_def split: sum.splits)

lemma get_retention_sent:
  "attempted (get_retention tx pb dials bucket enc version key cl) =
    attempted (invoke_unary tx dials GET_OBJECT_RETENTION (un_encode pb (mc_header cl) (GetObjectRetentionRequest bucket enc version)) bucket key cl)"
  by (simp add: get_retention_def split: prod.splits sum.splits)

lemmas unary_calls =
  create_bucket_def delete_bucket_def begin_copy_object_def finish_copy_object_def begin_move_object_def finish_move_object_def send_object_metadata_def
  revoke_api_key_def set_retention_def set_legal_hold_def send_lock_configuration_def project_info_def get_bucket_def buckets_page_def get_legal_hold_def
  get_lock_configuration_def

text \<open>
  The calls that are not batched: creating and deleting a bucket, both halves of a copy and a move, new metadata, revoking a key and every setting of the object
  lock are attempted exactly once, however the connection fails; with invalid arguments, or a key that is to revoke itself, not at all.  Reading calls are attempted at most three times.
\<close>

theorem unary_changes_are_sent_once:
  assumes "sound_idle cl"
  shows "attempted (create_bucket tx pb dials name lock placement cl) = 1 \<and>
    attempted (remove_bucket tx pb dials name with_objects cl) = (if name = [] then 0 else 1) \<and>
    attempted (begin_copy_object tx pb dials bucket key enc new_bucket new_enc cl) = 1 \<and> attempted (finish_copy_object tx pb dials bucket key req cl) = 1 \<and>
    attempted (begin_move_object tx pb dials bucket key enc new_bucket new_enc cl) = 1 \<and> attempted (finish_move_object tx pb dials bucket key req cl) = 1 \<and>
    attempted (send_object_metadata tx pb dials bucket key enc stream user cs cl) = 1 \<and>
    attempted (revoke_access tx pb dials api_key cl) = (if api_key = rh_api_key (mc_header cl) then 0 else 1) \<and>
    attempted (set_object_retention show_enc cr store tx pb dials bucket key version retention bypass cl) = (case lock_key show_enc cr store bucket key of Inl _ \<Rightarrow> 0 | Inr _ \<Rightarrow> 1) \<and>
    attempted (set_object_legal_hold show_enc cr store tx pb dials bucket key version enabled cl) = (case lock_key show_enc cr store bucket key of Inl _ \<Rightarrow> 0 | Inr _ \<Rightarrow> 1) \<and>
    attempted (set_bucket_lock_configuration tx pb dials bucket cfg cl) = (case set_lock_configuration bucket cfg of Inl _ \<Rightarrow> 0 | Inr _ \<Rightarrow> 1) \<and>
    attempted (get_bucket tx pb dials name cl) \<le> SATELLITE_ATTEMPTS \<and> attempted (buckets_page tx pb dials cursor limit cl) \<le> SATELLITE_ATTEMPTS \<and>
    attempted (project_info tx pb dials cl) \<le> SATELLITE_ATTEMPTS \<and>
    attempted (get_object_retention show_enc cr store tx pb dials bucket key version cl) \<le> SATELLITE_ATTEMPTS \<and>
    attempted (get_object_legal_hold show_enc cr store tx pb dials bucket key version cl) \<le> SATELLITE_ATTEMPTS \<and>
    attempted (get_bucket_lock_configuration tx pb dials bucket cl) \<le> SATELLITE_ATTEMPTS"
proof -
  note once = unary_once[OF assms] and some = conjunct2[OF unary_sent[OF assms]] and get = invoke_unary_sent(2)[OF assms]
  show ?thesis
    by (intro conjI; simp add: unary_calls once changing_rpcs some get remove_bucket_def revoke_access_def set_object_retention_def set_object_legal_hold_def
      set_bucket_lock_configuration_def get_object_retention_def get_object_legal_hold_def get_bucket_lock_configuration_def guarded_sent get_retention_sent
      require_bucket_name_def split: sum.splits)
qed

text \<open>A client that cannot connect: a bucket is created in one attempt, and a key does not revoke itself.\<close>

definition toy_unary :: UnaryPb where
  "toy_unary = \<lparr>un_encode = (\<lambda>_ _. [1]), un_project = (\<lambda>_. None), un_bucket = (\<lambda>_. None), un_buckets = (\<lambda>_. None), un_begun = (\<lambda>_. None), un_object = (\<lambda>_. None),
     un_empty = (\<lambda>_. Some ()), un_retention = (\<lambda>_. None), un_hold = (\<lambda>_. None), un_lock = (\<lambda>_. None)\<rparr>"

theorem unary_changes_are_sent_once_witness:
  "attempted (create_bucket toy_texts toy_unary (\<lambda>_. Inl (pe_new IoKind [])) [98] False [] sample_client) = 1 \<and>
   attempted (revoke_access toy_texts toy_unary (\<lambda>_. Inl (pe_new IoKind [])) [1] sample_client) = 0"
proof -
  have s: "sound_idle sample_client" by (simp add: sound_idle_def sample_client_def)
  have "rh_api_key (mc_header sample_client) = [1]" by (simp add: sample_client_def)
  then show ?thesis using unary_changes_are_sent_once[OF s, where api_key = "[1]" and tx = toy_texts and pb = toy_unary] by auto
qed

end
