(* ===== verification/Project_Ops.thy ===== *)
theory Project_Ops
  imports Object_Ops Listings Grant
begin

text \<open>
  How a project starts and ends transfers, \<open>crates/storj/src/project.rs\<close>: the encryption store of a grant, starting an
  upload, a part or a download, and beginning, committing and aborting a multipart upload.  The satellite's calls are
  arguments, random keys and nonces too; a started upload is its stream and the writer of \<open>Upload_Writer\<close>.

  Shown: the operations of a multipart upload agree on the stream, the path and the content key; an upload that is started by a bad
  request has not reached the satellite.
\<close>

section \<open>The code\<close>

subsection \<open>The encryption store of a project\<close>

definition map_cipher :: "CipherSuite \<Rightarrow> CipherSuite" where
  "map_cipher c = (if suite_code c = 0 then AES_GCM else c)"

definition store_from_grant :: "(ErrorKind \<Rightarrow> string) \<Rightarrow> EncryptionAccess \<Rightarrow> PublicError + Store" where
  "store_from_grant show_enc enc =
    (let st = set_default_path_cipher new_store (map_cipher (ea_default_path_cipher enc));
         st = (case ea_default_key enc of Some k \<Rightarrow> set_default_key st k | None \<Rightarrow> st)
     in fold_result (\<lambda>e st.
          case add_with_cipher st (from_utf8_lossy (se_bucket e)) (se_unencrypted_path e) (se_encrypted_path e) (se_key e) (map_cipher (se_path_cipher e)) of
            (st, Inr _) \<Rightarrow> Inr st
          | (_, Inl err) \<Rightarrow> Inl (Public_Error.map_enc show_enc err)) (ea_store_entries enc) st)"

subsection \<open>Uploads\<close>

record UploadOptions =
  uo_expires :: "SystemTime option"
  uo_retention :: "Retention option"
  uo_legal_hold :: bool
  uo_checksum :: "ObjectChecksum option"

record CommitUploadOptions =
  cu_custom_metadata :: "(bytes \<times> bytes) list"
  cu_checksum :: "ObjectChecksum option"

definition ENC_PARAMS :: "int \<times> int" where "ENC_PARAMS = (2, int ENCRYPTION_BLOCK_SIZE)"

type_synonym begin_call = "bytes \<Rightarrow> SystemTime option \<Rightarrow> (int \<times> int) option \<Rightarrow> PbRetention option \<Rightarrow> bool \<Rightarrow> ObjectChecksum option \<Rightarrow> PublicError + BeginObjectResponse"

definition check_target :: "bytes \<Rightarrow> bytes \<Rightarrow> PublicError + unit" where
  "check_target bucket key = try_bind (require_bucket_name bucket) (\<lambda>_. require_object_key key)"

definition check_sum :: "bool \<Rightarrow> ObjectChecksum option \<Rightarrow> PublicError + unit" where
  "check_sum require_value cs = (case cs of Some cs \<Rightarrow> checksum_validate cs require_value | None \<Rightarrow> Inr ())"

text \<open>A started upload: its encrypted path and stream, and the writer.\<close>

record Started =
  sd_encrypted_path :: bytes
  sd_stream_id :: bytes
  sd_world :: World

definition start_upload_object :: "(ErrorKind \<Rightarrow> string) \<Rightarrow> Crypto \<Rightarrow> Store \<Rightarrow> begin_call \<Rightarrow> bytes \<Rightarrow> bytes \<Rightarrow> UploadOptions \<Rightarrow> PublicError + (Object \<times> Started)" where
  "start_upload_object show_enc cr store start_object bucket key opts =
    try_bind (check_target bucket key) (\<lambda>_.
    try_bind (check_sum True (uo_checksum opts)) (\<lambda>_.
    try_bind (map_err (Public_Error.map_enc show_enc) (encrypt_path cr bucket key store)) (\<lambda>enc_path.
    try_bind (start_object enc_path (uo_expires opts) (Some ENC_PARAMS) (map_option retention_to_proto (uo_retention opts)) (uo_legal_hold opts) (uo_checksum opts)) (\<lambda>begun.
    try_bind (map_err (Public_Error.map_enc show_enc) (derive_content_key cr bucket key store)) (\<lambda>ckey.
    let (suite, block) = encryption_from_params (bor_encryption_parameters begun)
    in Inr (\<lparr>ob_key = key, ob_is_prefix = False, ob_version = [],
             ob_system = \<lparr>sm_created = None, sm_expires = uo_expires opts, sm_content_length = 0\<rparr>, ob_custom = []\<rparr>,
            \<lparr>sd_encrypted_path = enc_path, sd_stream_id = bor_stream_id begun,
             sd_world = new_upload ckey suite block 0 (checksum_plaintext (uo_checksum opts))\<rparr>))))))"

definition begin_upload :: "(ErrorKind \<Rightarrow> string) \<Rightarrow> B58 \<Rightarrow> Crypto \<Rightarrow> Store \<Rightarrow> begin_call \<Rightarrow> bytes \<Rightarrow> bytes \<Rightarrow> UploadOptions \<Rightarrow> PublicError + UploadInfo" where
  "begin_upload show_enc bc cr store start_object bucket key opts =
    try_bind (check_target bucket key) (\<lambda>_.
    try_bind (check_sum False (uo_checksum opts)) (\<lambda>_.
    try_bind (map_err (Public_Error.map_enc show_enc) (encrypt_path cr bucket key store)) (\<lambda>enc_path.
    try_bind (start_object enc_path (uo_expires opts) (Some ENC_PARAMS) (map_option retention_to_proto (uo_retention opts)) (uo_legal_hold opts) (uo_checksum opts)) (\<lambda>begun.
      Inr \<lparr>ui_key = key, ui_upload_id = encode_upload_id bc (bor_stream_id begun),
           ui_system = \<lparr>sm_created = None, sm_expires = uo_expires opts, sm_content_length = 0\<rparr>\<rparr>))))"

definition start_upload_part :: "(ErrorKind \<Rightarrow> string) \<Rightarrow> B58 \<Rightarrow> Crypto \<Rightarrow> Store \<Rightarrow> SystemTime \<Rightarrow> bytes \<Rightarrow> bytes \<Rightarrow> bytes \<Rightarrow> nat \<Rightarrow> PublicError + (Part \<times> Started)" where
  "start_upload_part show_enc bc cr store now bucket key upload part =
    try_bind (check_target bucket key) (\<lambda>_.
    try_bind (stream_of_upload bc upload) (\<lambda>stream.
    try_bind (if part < 2 ^ 31 then Inr () else Inl (pe_new ProtocolKind ''partNumber should be less than max(int32)'')) (\<lambda>_.
    try_bind (map_err (Public_Error.map_enc show_enc) (encrypt_path cr bucket key store)) (\<lambda>enc_path.
    try_bind (map_err (Public_Error.map_enc show_enc) (derive_content_key cr bucket key store)) (\<lambda>ckey.
      Inr (\<lparr>pt_part_number = part, pt_size = 0, pt_modified = now, pt_etag = []\<rparr>,
           \<lparr>sd_encrypted_path = enc_path, sd_stream_id = stream, sd_world = new_upload ckey AES_GCM ENCRYPTION_BLOCK_SIZE (int part) None\<rparr>))))))"

definition commit_multipart :: "(ErrorKind \<Rightarrow> string) \<Rightarrow> (UplinkError \<Rightarrow> string) \<Rightarrow> B58 \<Rightarrow> Crypto \<Rightarrow> UserPb \<Rightarrow> Store \<Rightarrow> Key \<Rightarrow> bytes \<Rightarrow>
    (bytes \<Rightarrow> EncryptedUserData \<Rightarrow> ObjectChecksum option \<Rightarrow> PublicError + PbObject option) \<Rightarrow> bytes \<Rightarrow> bytes \<Rightarrow> bytes \<Rightarrow> CommitUploadOptions \<Rightarrow> PublicError + Object" where
  "commit_multipart show_enc show_up bc cr pb store random_key random_nonce finish_object bucket key upload opts =
    try_bind (check_target bucket key) (\<lambda>_.
    try_bind (verify_custom_metadata (cu_custom_metadata opts)) (\<lambda>_.
    try_bind (check_sum True (cu_checksum opts)) (\<lambda>_.
    try_bind (stream_of_upload bc upload) (\<lambda>stream.
    try_bind (map_err (Public_Error.map_enc show_enc) (derive_content_key cr bucket key store)) (\<lambda>ckey.
    try_bind (map_err (map_uplink show_enc show_up) (encrypt_user_data cr pb random_key random_nonce (cu_custom_metadata opts) 0 0 0 AES_GCM ckey
        ENCRYPTION_BLOCK_SIZE (checksum_plaintext (cu_checksum opts)))) (\<lambda>user.
    try_bind (finish_object stream user (cu_checksum opts)) (\<lambda>ob.
      Inr ((object_from_proto ob key)\<lparr>ob_custom := cu_custom_metadata opts\<rparr>))))))))"

definition UPLOADING_STATUS :: int where "UPLOADING_STATUS = 1"

definition abort_multipart :: "(ErrorKind \<Rightarrow> string) \<Rightarrow> B58 \<Rightarrow> Crypto \<Rightarrow> Store \<Rightarrow> (bytes \<Rightarrow> bytes \<Rightarrow> int \<Rightarrow> PublicError + PbObject option) \<Rightarrow> bytes \<Rightarrow> bytes \<Rightarrow> bytes \<Rightarrow>
    PublicError + unit" where
  "abort_multipart show_enc bc cr store start_delete bucket key upload =
    try_bind (check_target bucket key) (\<lambda>_.
    try_bind (stream_of_upload bc upload) (\<lambda>stream.
    try_bind (map_err (Public_Error.map_enc show_enc) (encrypt_path cr bucket key store)) (\<lambda>enc_path.
    try_bind (start_delete enc_path stream UPLOADING_STATUS) (\<lambda>_. Inr ()))))"

subsection \<open>Downloads\<close>

definition start_download_object :: "(ErrorKind \<Rightarrow> string) \<Rightarrow> (UplinkError \<Rightarrow> string) \<Rightarrow> Crypto \<Rightarrow> UserPb \<Rightarrow> OrderCrypto \<Rightarrow> backend \<Rightarrow> (SegmentPosition \<Rightarrow> SegmentNet) \<Rightarrow> nat \<Rightarrow>
    Store \<Rightarrow> (bytes \<Rightarrow> PbRange option \<Rightarrow> bytes \<Rightarrow> PublicError + DownloadObjectResponse) \<Rightarrow>
    (bytes \<Rightarrow> SegmentPosition option \<Rightarrow> PbRange option \<Rightarrow> PublicError + SegmentList) \<Rightarrow> (bytes \<Rightarrow> SegmentPosition \<Rightarrow> PublicError + DownloadSegment) \<Rightarrow>
    bytes \<Rightarrow> bytes \<Rightarrow> DownloadOptions \<Rightarrow> (PublicError + DownloadState) option" where
  "start_download_object show_enc show_up cr pb oc cpu nets hedge_delay store fetch more_segments one_segment bucket key opts =
    (let rng = proto_range (do_offset opts) (do_length opts)
     in case try_bind (download_validate opts) (\<lambda>_.
          try_bind (check_target bucket key) (\<lambda>_.
          try_bind (map_err (Public_Error.map_enc show_enc) (encrypt_path cr bucket key store)) (\<lambda>enc_path.
          try_bind (map_err (Public_Error.map_enc show_enc) (derive_content_key cr bucket key store)) (\<lambda>ckey.
          try_bind (fetch enc_path rng (do_version opts)) (\<lambda>resp. Inr (ckey, resp)))))) of
        Inl e \<Rightarrow> Some (Inl e)
      | Inr (ckey, resp) \<Rightarrow>
        (let stream = (case dr_object resp of Some ob \<Rightarrow> po_stream_id ob | None \<Rightarrow> [])
         in download_segments show_enc show_up cr pb oc cpu nets hedge_delay (\<lambda>c. more_segments stream c rng) (one_segment stream) key ckey opts resp))"

section \<open>Properties\<close>

text \<open>
  C19: a multipart upload that has begun: a part that is started with its identifier is written to the stream that was begun, with the content key of the object; committing with the
  identifier commits that stream, with metadata and a checksum that the content key opens; and aborting deletes that stream under the object's encrypted path.
\<close>

theorem multipart_upload_is_one_stream:
  assumes "b58_ok bc" and "bs58_decode bc [] = Some []" and "crypto_ok cr" and "user_pb_ok pb" and "length random_key = 32" and "length random_nonce = 24"
    and "begin_upload show_enc bc cr store start_object bucket key opts = Inr info"
  shows "\<exists>enc_path begun. encrypt_path cr bucket key store = Inr enc_path \<and>
    start_object enc_path (uo_expires opts) (Some ENC_PARAMS) (map_option retention_to_proto (uo_retention opts)) (uo_legal_hold opts) (uo_checksum opts) = Inr begun \<and>
    (\<forall>now part described started. start_upload_part show_enc bc cr store now bucket key (ui_upload_id info) part = Inr (described, started) \<longrightarrow>
      sd_stream_id started = bor_stream_id begun \<and> sd_encrypted_path started = enc_path \<and> part_number (w_inner (sd_world started)) = int part \<and>
      derive_content_key cr bucket key store = Inr (content_key (w_inner (sd_world started)))) \<and>
    (\<forall>copts finish_object obj. commit_multipart show_enc show_up bc cr pb store random_key random_nonce finish_object bucket key (ui_upload_id info) copts = Inr obj \<longrightarrow>
      (\<exists>user ob ckey meta sizes m. finish_object (bor_stream_id begun) user (cu_checksum copts) = Inr ob \<and> derive_content_key cr bucket key store = Inr ckey \<and>
        decrypt_user_data_full cr pb (encrypted_metadata user) (encrypted_metadata_encrypted_key user) (encrypted_metadata_nonce user) AES_GCM ckey = Inr (meta, sizes, m) \<and>
        map_of m = map_of (rev (cu_custom_metadata copts)) \<and>
        (\<forall>cs. checksum_plaintext (cu_checksum copts) = Some cs \<longrightarrow>
          decrypt_object_checksum cr (encrypted_checksum user) (encrypted_metadata_encrypted_key user) (encrypted_metadata_nonce user) AES_GCM ckey = Inr cs))) \<and>
    (\<forall>start_delete. abort_multipart show_enc bc cr store start_delete bucket key (ui_upload_id info) = Inr () \<longrightarrow>
      (\<exists>r. start_delete enc_path (bor_stream_id begun) UPLOADING_STATUS = Inr r))"
proof -
  obtain enc_path begun where b: "encrypt_path cr bucket key store = Inr enc_path"
      "start_object enc_path (uo_expires opts) (Some ENC_PARAMS) (map_option retention_to_proto (uo_retention opts)) (uo_legal_hold opts) (uo_checksum opts) = Inr begun"
      "ui_upload_id info = encode_upload_id bc (bor_stream_id begun)"
    using assms(7) by (auto simp: begin_upload_def result_simps)
  have s: "stream_of_upload bc (ui_upload_id info) = Inr (bor_stream_id begun)" unfolding b(3) by (rule stream_of_upload_encode[OF assms(1,2)])
  have part: "sd_stream_id started = bor_stream_id begun \<and> sd_encrypted_path started = enc_path \<and> part_number (w_inner (sd_world started)) = int part \<and>
      derive_content_key cr bucket key store = Inr (content_key (w_inner (sd_world started)))"
    if "start_upload_part show_enc bc cr store now bucket key (ui_upload_id info) part = Inr (described, started)" for now part described started
    using that by (auto simp: start_upload_part_def s b(1) new_upload_def result_simps split: if_splits)
  have commit: "\<exists>user ob ckey meta sizes m. finish_object (bor_stream_id begun) user (cu_checksum copts) = Inr ob \<and> derive_content_key cr bucket key store = Inr ckey \<and>
        decrypt_user_data_full cr pb (encrypted_metadata user) (encrypted_metadata_encrypted_key user) (encrypted_metadata_nonce user) AES_GCM ckey = Inr (meta, sizes, m) \<and>
        map_of m = map_of (rev (cu_custom_metadata copts)) \<and>
        (\<forall>cs. checksum_plaintext (cu_checksum copts) = Some cs \<longrightarrow>
          decrypt_object_checksum cr (encrypted_checksum user) (encrypted_metadata_encrypted_key user) (encrypted_metadata_nonce user) AES_GCM ckey = Inr cs)"
    if c: "commit_multipart show_enc show_up bc cr pb store random_key random_nonce finish_object bucket key (ui_upload_id info) copts = Inr obj" for copts finish_object obj
  proof -
    obtain ckey user ob where u: "derive_content_key cr bucket key store = Inr ckey" "finish_object (bor_stream_id begun) user (cu_checksum copts) = Inr ob"
        "encrypt_user_data cr pb random_key random_nonce (cu_custom_metadata copts) 0 0 0 AES_GCM ckey ENCRYPTION_BLOCK_SIZE (checksum_plaintext (cu_checksum copts)) = Inr user"
      using c by (auto simp: commit_multipart_def s result_simps)
    have "fits_i32 (suite_code AES_GCM)" "fits_i64 0" by (simp_all add: AES_GCM_def)
    from user_data_opens[OF assms(3-6) this(1) this(2) this(2) this(2) u(3), of AES_GCM]
    obtain meta sizes m where "decrypt_user_data_full cr pb (encrypted_metadata user) (encrypted_metadata_encrypted_key user) (encrypted_metadata_nonce user) AES_GCM ckey = Inr (meta, sizes, m)"
        "map_of m = map_of (rev (cu_custom_metadata copts))"
        "checksum_plaintext (cu_checksum copts) \<noteq> None \<longrightarrow>
          decrypt_object_checksum cr (encrypted_checksum user) (encrypted_metadata_encrypted_key user) (encrypted_metadata_nonce user) AES_GCM ckey = Inr (the (checksum_plaintext (cu_checksum copts)))"
      by blast
    then show ?thesis using u by (intro exI[of _ user] exI[of _ ob] exI[of _ ckey] exI[of _ meta] exI[of _ sizes] exI[of _ m]) auto
  qed
  have abort: "\<exists>r. start_delete enc_path (bor_stream_id begun) UPLOADING_STATUS = Inr r"
    if "abort_multipart show_enc bc cr store start_delete bucket key (ui_upload_id info) = Inr ()" for start_delete
    using that by (auto simp: abort_multipart_def s b(1) result_simps)
  show ?thesis using b(1,2) part commit abort by (intro exI[of _ enc_path] exI[of _ begun] conjI allI impI) blast+
qed

text \<open>An upload that is begun, gets a part and is aborted.\<close>

definition sample_start :: begin_call where
  "sample_start = (\<lambda>_ _ _ _ _ _. Inr \<lparr>bor_stream_id = [1], bor_encryption_parameters = None\<rparr>)"

definition no_options :: UploadOptions where
  "no_options = \<lparr>uo_expires = None, uo_retention = None, uo_legal_hold = False, uo_checksum = None\<rparr>"

theorem multipart_upload_is_one_stream_witness:
  "\<exists>info described started. begin_upload (\<lambda>_. []) toy_b58 toy_crypto clear_store sample_start [98] [107] no_options = Inr info \<and>
    start_upload_part (\<lambda>_. []) toy_b58 toy_crypto clear_store 0 [98] [107] (ui_upload_id info) 3 = Inr (described, started) \<and>
    sd_stream_id started = [1] \<and> part_number (w_inner (sd_world started)) = 3 \<and>
    abort_multipart (\<lambda>_. []) toy_b58 toy_crypto clear_store (\<lambda>_ stream _. if stream = [1] then Inr None else Inl (pe_new IoKind [])) [98] [107] (ui_upload_id info) = Inr ()"
proof -
  let ?started = "begin_upload (\<lambda>_. []) toy_b58 toy_crypto clear_store sample_start [98] [107] no_options"
  have "case ?started of Inl _ \<Rightarrow> False | Inr info \<Rightarrow>
      (case start_upload_part (\<lambda>_. []) toy_b58 toy_crypto clear_store 0 [98] [107] (ui_upload_id info) 3 of Inl _ \<Rightarrow> False | Inr _ \<Rightarrow> True) \<and>
      (case abort_multipart (\<lambda>_. []) toy_b58 toy_crypto clear_store (\<lambda>_ stream _. if stream = [1] then Inr None else Inl (pe_new IoKind [])) [98] [107] (ui_upload_id info) of
        Inl _ \<Rightarrow> False | Inr _ \<Rightarrow> True)" by code_simp
  then obtain info described started where i: "?started = Inr info"
      "start_upload_part (\<lambda>_. []) toy_b58 toy_crypto clear_store 0 [98] [107] (ui_upload_id info) 3 = Inr (described, started)"
      "abort_multipart (\<lambda>_. []) toy_b58 toy_crypto clear_store (\<lambda>_ stream _. if stream = [1] then Inr None else Inl (pe_new IoKind [])) [98] [107] (ui_upload_id info) = Inr ()"
    by (auto split: sum.splits)
  have "bs58_decode toy_b58 [] = Some []" "length (replicate 32 5 :: bytes) = 32" "length (replicate 24 6 :: bytes) = 24" by (simp_all add: toy_b58_def)
  note all = multipart_upload_is_one_stream[OF toy_b58_ok this(1) toy_crypto_ok meta_pb_ok this(2,3) i(1), of "\<lambda>_. []"]
  obtain enc_path begun where b: "sample_start enc_path (uo_expires no_options) (Some ENC_PARAMS) (map_option retention_to_proto (uo_retention no_options))
        (uo_legal_hold no_options) (uo_checksum no_options) = Inr begun"
      "\<forall>now part described started. start_upload_part (\<lambda>_. []) toy_b58 toy_crypto clear_store now [98] [107] (ui_upload_id info) part = Inr (described, started) \<longrightarrow>
        sd_stream_id started = bor_stream_id begun \<and> sd_encrypted_path started = enc_path \<and> part_number (w_inner (sd_world started)) = int part \<and>
        derive_content_key toy_crypto [98] [107] clear_store = Inr (content_key (w_inner (sd_world started)))"
    using all by - (elim exE conjE, rule that, assumption+)
  have "bor_stream_id begun = [1]" using b(1) by (auto simp: sample_start_def)
  then have "sd_stream_id started = [1] \<and> part_number (w_inner (sd_world started)) = 3" using b(2) i(2) by auto
  then show ?thesis using i by blast
qed

section \<open>The store\<close>

text \<open>
  The store of a project is the one that the grant was checked with when it was parsed, if the grant names its ciphers.
\<close>

lemma store_from_grant_agrees:
  assumes "store_from_enc enc = Inr st" "suite_code (ea_default_path_cipher enc) \<noteq> 0" "\<forall>e \<in> set (ea_store_entries enc). suite_code (se_path_cipher e) \<noteq> 0"
  shows "store_from_grant show_enc enc = Inr st"
proof -
  let ?f = "\<lambda>e st. case add_with_cipher st (from_utf8_lossy (se_bucket e)) (se_unencrypted_path e) (se_encrypted_path e) (se_key e) (map_cipher (se_path_cipher e)) of
      (st, Inr _) \<Rightarrow> Inr st | (_, Inl err) \<Rightarrow> Inl (Public_Error.map_enc show_enc err)"
  have "fold_result ?f es st0 = Inr st1" if "fold_result add_entry es st0 = Inr st1" "\<forall>e \<in> set es. suite_code (se_path_cipher e) \<noteq> 0" for es st0 st1
    using that
  proof (induction es arbitrary: st0)
    case (Cons e es)
    then obtain st2 where e: "add_entry e st0 = Inr st2" "fold_result add_entry es st2 = Inr st1" by (auto simp: result_simps)
    have v: "utf8_valid (se_bucket e)" using e(1) by (rule contrapos_pp) (simp add: add_entry_def entry_bucket_def from_utf8_def)
    obtain st3 r where a: "add_with_cipher st0 (se_bucket e) (se_unencrypted_path e) (se_encrypted_path e) (se_key e) (se_path_cipher e) = (st3, r)" by fastforce
    have "r = Inr () \<and> st3 = st2" using e(1) v a by (cases r) (simp_all add: add_entry_def entry_bucket_def from_utf8_def)
    then have "?f e st0 = Inr st2" using Cons.prems(2) a v by (simp add: map_cipher_def from_utf8_lossy_valid)
    then show ?case using Cons e(2) by simp
  qed simp
  then show ?thesis using assms
    by (auto simp: store_from_enc_def store_from_grant_def map_cipher_def set_default_key_def set_default_path_cipher_def new_store_def Let_def split: option.splits)
qed

end
