(* ===== verification/Spec2Isabelle.thy ===== *)
theory Spec2Isabelle
  imports
    Uplink_Prelude Codecs Utf8 Varint_Bits
    GF256 GF_Addmul Interpolation Vandermonde Gauss_Jordan Reed_Solomon
    Drpc_Frame Drpc_Conn
    Padding Ciphers Transform Path_Components Enc_Store Path_Crypto
    Macaroon Grant
    Uplink_Error Node_Identity Orders
    Conn_Pool Segment_Upload Piece_Store Piece_Task Piece_Collect
    Pipeline K_Subsets Download
    Public_Error Upload_Writer Object_Types Segment_Commit Object_Download Object_Reader
    Batch_Codec Metainfo Metainfo_Calls Paged_Stream Object_List Object_Ops Listings Metainfo_Unary Project_Ops
begin

text \<open>
  A verification library for the Storj uplink client, a Rust program that stores objects on a network of
  storage nodes.  A client encrypts an object's path and content, cuts the content into segments, spreads
  each segment over many nodes with a Reed-Solomon code, and talks to the satellite and the nodes over DRPC;
  its credentials are an access grant that holds an API key (a macaroon) and encryption keys.

  \<^bold>\<open>Parts and theories.\<close>  Each theory opens with what it models; the sources are under \<open>src/crates\<close>.

  \<^item> Shared: \<open>Uplink_Prelude\<close> (machine types, \<open>Result\<close> as a sum with the operator \<open>?\<close>, slices, folds that may
    fail), \<open>Codecs\<close> (the locales \<open>codec\<close> and \<open>stream_codec\<close>, the contracts of every encoder with its decoder,
    interpreted for varints, frames, padding, path segments and macaroons), \<open>Utf8\<close> (\<open>from_utf8\<close> and its lossy
    variant), \<open>Varint_Bits\<close> (the bit arithmetic the two varint codecs share).
  \<^item> \<open>storj-ec\<close>: \<open>GF256\<close> (the tables of \<open>gf.rs\<close> and the field they form), \<open>GF_Addmul\<close> (\<open>gf_simd.rs\<close>),
    \<open>Interpolation\<close> (the algebra, with the locale \<open>interpolation\<close>), \<open>Vandermonde\<close> (\<open>create_inverted_vdm\<close>,
    \<open>build_enc_matrix\<close>), \<open>Gauss_Jordan\<close> (\<open>invert_matrix\<close>, \<open>search_pivot\<close>), \<open>Reed_Solomon\<close> (\<open>fec.rs\<close>, \<open>lib.rs\<close>).
  \<^item> \<open>storj-rpc\<close>: \<open>Drpc_Frame\<close> (\<open>frame.rs\<close>), \<open>Drpc_Conn\<close> (\<open>conn.rs\<close>), \<open>Node_Identity\<close> (\<open>identity.rs\<close>, \<open>known_ids.rs\<close>).
  \<^item> \<open>storj-encryption\<close>: \<open>Padding\<close> (\<open>pad.rs\<close>), \<open>Ciphers\<close> (\<open>key.rs\<close>, \<open>cipher.rs\<close> and the one-shot half of
    \<open>aesgcm.rs\<close> and \<open>secretbox.rs\<close>), \<open>Transform\<close> (\<open>transform.rs\<close> and the block transformers),
    \<open>Path_Components\<close> and \<open>Path_Crypto\<close> (\<open>path.rs\<close>), \<open>Enc_Store\<close> (\<open>store.rs\<close>).
  \<^item> \<open>storj-access\<close>: \<open>Macaroon\<close> (\<open>base58.rs\<close> and the packet half of \<open>macaroon.rs\<close>), \<open>Grant\<close> (caveats and
    permissions, \<open>grant.rs\<close>, \<open>restrict.rs\<close>, \<open>pb.rs\<close>).
  \<^item> \<open>storj-uplink\<close>: \<open>Uplink_Error\<close> (\<open>lib.rs\<close>), \<open>Orders\<close> (\<open>orders.rs\<close>), \<open>Pipeline\<close> (\<open>pipeline.rs\<close>), \<open>K_Subsets\<close> and \<open>Download\<close>
    (the decoding half of \<open>download.rs\<close>), \<open>Piece_Store\<close> (\<open>piecestore.rs\<close>), \<open>Conn_Pool\<close> (\<open>pool.rs\<close>), \<open>Segment_Upload\<close>
    (\<open>segment.rs\<close>), \<open>Piece_Task\<close> (the transfer of one piece in \<open>segment.rs\<close> and \<open>download.rs\<close>), \<open>Piece_Collect\<close> (the long-tail
    collection in \<open>download.rs\<close>), the first half of \<open>Segment_Commit\<close> (\<open>multipart.rs\<close>, \<open>upload.rs\<close>).
  \<^item> \<open>storj-proto\<close>: \<open>Batch_Codec\<close> (\<open>compressed.rs\<close>); the messages are records of the theories that use them, mostly
    of \<open>Metainfo_Calls\<close>.
  \<^item> \<open>storj\<close>: \<open>Public_Error\<close> (\<open>error.rs\<close>), \<open>Object_Types\<close> (\<open>types.rs\<close>, \<open>bucket.rs\<close>, \<open>object_lock.rs\<close>), \<open>Upload_Writer\<close>
    (the writing half of \<open>upload.rs\<close> with committing and aborting), \<open>Segment_Commit\<close> (\<open>commit_one_segment\<close>), \<open>Object_Download\<close>
    (\<open>decrypt_one_segment\<close>), \<open>Object_Reader\<close> (\<open>download_segments\<close> and the reading half of \<open>upload.rs\<close>), \<open>Metainfo\<close> and
    \<open>Metainfo_Calls\<close> (\<open>metainfo.rs\<close>: the pooled client with its retries and errors, and its calls), \<open>Paged_Stream\<close> (the locale
    \<open>paged_stream\<close>, which listings interpret), \<open>Object_List\<close> (\<open>objects.rs\<close>), \<open>Object_Ops\<close> (copies, moves, metadata and parts, in \<open>objects.rs\<close> and
    \<open>project.rs\<close>), \<open>Listings\<close> (buckets and uploads), \<open>Metainfo_Unary\<close> (the calls of \<open>metainfo.rs\<close> that are not batched, \<open>object_lock.rs\<close>), \<open>Project_Ops\<close>
    (starting transfers and multipart uploads, in \<open>project.rs\<close>).

  An object is written through \<open>Upload_Writer\<close>, whose background task is \<open>commit_one_segment\<close>: it encrypts and cuts a segment
  (\<open>Pipeline\<close>), asks the satellite for nodes (\<open>Metainfo_Calls\<close>) and uploads the pieces (\<open>Segment_Upload\<close> over \<open>Piece_Task\<close>,
  \<open>Piece_Store\<close>, \<open>Conn_Pool\<close>).  It is read through \<open>Object_Reader\<close>, whose background task is \<open>decrypt_one_segment\<close>: it collects
  pieces (\<open>Piece_Collect\<close> over the same three) and decodes and decrypts them (\<open>Download\<close>).

  \<^bold>\<open>Correspondence.\<close>  A struct is a record, an enum a datatype, an operation a function of the same name that
  returns the changed state, an error a value \<open>Inl\<close> with the constructor the code builds; a loop is a
  recursive function or a fold over the range it counts through.  Bytes and integers whose bits matter are words of
  their width; sizes are natural numbers, with \<open>checked_\<close>, \<open>saturating_\<close> and casting operations written out.  A
  \<open>String\<close> is its UTF-8 bytes.  A \<open>HashMap\<close> is an association list, whose order stands for the iteration order.

  Code of other crates is an argument: the record \<open>Crypto\<close> (AES-GCM, XSalsa20-Poly1305, HMAC, Argon2id) with the laws
  \<open>aead_ok\<close> and \<open>crypto_ok\<close>, \<open>B58\<close> (SHA-256, Base58 digits) with \<open>b58_ok\<close>, \<open>Pb\<close>, \<open>UserPb\<close>, \<open>PiecePb\<close> and \<open>BatchPb\<close> (the protobuf
  wire format) with \<open>pb_ok\<close>, \<open>user_pb_ok\<close> and \<open>batch_pb_ok\<close>, \<open>Pki\<close> (X.509, PEM, ECDSA) with \<open>pki_ok\<close>, \<open>OrderCrypto\<close> (Ed25519,
  BLAKE3) with \<open>order_crypto_ok\<close>, \<open>ZstdLib\<close> with \<open>zstd_ok\<close>, \<open>Notify\<close> (tokio's notification) with \<open>notify_laws\<close>, \<open>Texts\<close> (the
  \<open>Display\<close> texts of errors, without laws).  Each law has an instance that a witness uses.  The network is an argument too: a
  script of read and write events for a connection, the results of dialling, the outcome of each piece and the order in which tasks
  finish for a segment (\<open>SegmentEnv\<close>, \<open>SegmentNet\<close>), the satellite's pages for a listing, and the progress of the background task
  for a reader or a writer.

  \<^bold>\<open>What is shown.\<close>

  \<^item> Erasure code: the tables are a field of characteristic two; all \<open>addmul\<close> back ends agree; the inverted Vandermonde
    matrix evaluates interpolation polynomials; Gauss-Jordan inverts every matrix that a decode plan builds (and
    not every invertible matrix); so any \<open>k\<close> shares of a stripe decode to it, with every error characterised.
  \<^item> DRPC: frames and packets are read back from their bytes, for any split; a connection returns the same
    packets however the transport cuts the stream; a unary call sends its four packets and returns the reply; read-ahead
    is bounded; packet identifiers increase (up to the largest message number, which may be repeated); poisoning is permanent.
  \<^item> Encryption: padding, block transformers and path encryption are inverted by their counterparts, the sizes
    announced are exact, byte ranges decrypt, the starting nonces of segments differ; the escaping of path components is a
    bijection; the store's trie refines a finite map, with longest-prefix lookup.
  \<^item> Access: the parser of macaroons accepts exactly their binary format; macaroons survive their text form, grants do so under the conditions that \<open>grant_round_trip\<close> states; the signature of a macaroon is the end of the HMAC chain of its
    caveats; restricting a grant keeps every old caveat and leaves no key that opens a path outside the caveats.
  \<^item> Identities and orders: a verified leaf is the one the pinned node's authority signed; signed limits, orders and hashes
    verify, and the signed bytes determine the message.
  \<^item> Pieces: the pool stays within its limit with exact counters under any interleaving; while a checkout waits,
    somebody will wake it, though a task can be left waiting beside a free slot; only healthy connections go back; an upload of a piece is a conversation
    that a storage node accepts, and the hash it returns was checked; the long-tail upload ends and commits enough pieces, each once,
    in order; the long-tail download is decided after two events per assignment, with pieces that all differ.
  \<^item> Objects: a committed object is exactly what was written; after a reported error nothing is accepted and \<open>CommitObject\<close> is not sent, and a commit that fails gives the object up; a committed segment is read
    back byte for byte in spite of failing and corrupt nodes; an object is read back over any range, its end is reported only when
    it is complete, and a listing gives every entry that can be opened.  A copy reads the same as its original; new metadata leave the rest of an object as it
    was; the operations of a multipart upload agree on one stream, and its parts are listed with their sizes.
  \<^item> Satellite: every call keeps a log of its attempts, each of which writes the request at most once; what changes the satellite's state is attempted once, other
    requests at most three times, and the result is that of the last attempt; connections are bounded; batches are unwrapped within the memory limit.

  \<^bold>\<open>Bounds and termination.\<close>  Recursive functions end by structure or by a measure.  The
  loops of a connection use up the script of events or the buffered bytes; the retry loop of an upload counts its
  attempts to four, that of a call to three, the replacements of corrupt pieces are two; parsers consume input.  Splitting a certificate
  chain takes its number of bytes as fuel, which lemma \<open>split_certs_enough\<close> shows to be enough.  Loops over the pages of the
  satellite may run forever against a satellite that never says it is done: they are partial functions, and
  are shown to return for a satellite that goes through a finite list.  The finite facts about the tables are evaluated for all 256 bytes.

  \<^bold>\<open>Not modelled.\<close>  Sockets, TLS and Noise (\<open>transport.rs\<close>, \<open>tls.rs\<close>, \<open>noise.rs\<close>) and the generation of certificates, which are calls into
  other crates around I/O; the configuration structs and thin wrappers of the public API (\<open>access.rs\<close>, \<open>config.rs\<close>, \<open>encryption.rs\<close>, \<open>network.rs\<close>, and the helpers that copy
  between streams); the generated protobuf encoders; telemetry and events, debug output and zeroisation; time, except
  where a deadline or a hedge is an event; and the test doubles.
\<close>

end
